(* ===== verification/Prelude.thy ===== *)
theory Prelude
  imports Main "HOL-Library.Word"
begin

text \<open>
  Shared vocabulary of the development: bytes and byte strings, the error type of
  \<^verbatim>\<open>oxih5_core::OxiH5Error\<close>, Rust's \<^verbatim>\<open>Result\<close> with the \<^verbatim>\<open>?\<close> operator,
  overflow-checked machine arithmetic, slice access, little-endian integers, and the
  lemma collections the component theories rest on.

  A failing Rust computation is a value \<open>Inl e\<close>. Besides the variants of the library's
  own error enum there is one more constructor, \<open>Panic\<close>: the thread panics (a slice index
  out of range, an arithmetic overflow under the overflow checks of a dev build, a shift by
  the full width). Message texts are dropped; the payload kept is the one a caller can match.
  Machine integers \<open>usize\<close> and \<open>u64\<close> are natural numbers whose operations carry the
  64-bit bound explicitly; single bytes and checksums are words.
\<close>

section \<open>Bytes, errors and results\<close>

type_synonym byte = "8 word"
type_synonym bytes = "byte list"

datatype error =
    Io
  | BadSignature
  | UnsupportedSuperblock byte
  | UnsupportedHeader byte
  | UnsupportedDatatype byte
  | UnsupportedLayout byte
  | NotFound bytes
  | TypeMismatch
  | DataTruncated
  | NotImplemented
  | Format
  | UnsupportedFilter
  | Corrupted
  | Panic

type_synonym 'a res = "error + 'a"

named_theorems np \<open>absence of panics, operation by operation\<close>
named_theorems le_simps \<open>little-endian integers and their slices\<close>
named_theorems le_eval \<open>evaluation of concrete encodings\<close>

text \<open>The \<^verbatim>\<open>?\<close> operator and \<^verbatim>\<open>Result::and_then\<close>: stop at the first error.\<close>

definition and_then :: "'a res \<Rightarrow> ('a \<Rightarrow> 'b res) \<Rightarrow> 'b res" where
  "and_then m f = (case m of Inl e \<Rightarrow> Inl e | Inr x \<Rightarrow> f x)"

lemma and_then_simps [simp]:
  "and_then (Inl e) f = Inl e"
  "and_then (Inr x) f = f x"
  by (simp_all add: and_then_def)

lemma and_then_cong [fundef_cong]:
  "m = m' \<Longrightarrow> (\<And>x. m' = Inr x \<Longrightarrow> f x = f' x) \<Longrightarrow> and_then m f = and_then m' f'"
  by (cases m') auto

lemma and_then_Inr_iff: "and_then m f = Inr y \<longleftrightarrow> (\<exists>x. m = Inr x \<and> f x = Inr y)"
  by (cases m) auto

lemma and_then_InrE [elim!]:
  assumes "and_then m f = Inr y"
  obtains x where "m = Inr x" "f x = Inr y"
  using assms by (auto simp: and_then_Inr_iff)

lemma and_then_Inl_iff:
  "and_then m f = Inl e \<longleftrightarrow> m = Inl e \<or> (\<exists>x. m = Inr x \<and> f x = Inl e)"
  by (cases m) auto

lemma and_then_assoc: "and_then (and_then m f) g = and_then m (\<lambda>x. and_then (f x) g)"
  by (cases m) auto

definition ok_or :: "'a option \<Rightarrow> error \<Rightarrow> 'a res" where
  "ok_or x e = (case x of None \<Rightarrow> Inl e | Some v \<Rightarrow> Inr v)"

lemma ok_or_simps [simp]:
  "ok_or None e = Inl e"
  "ok_or (Some v) e = Inr v"
  by (simp_all add: ok_or_def)

lemma ok_or_Inr_iff [simp]: "ok_or x e = Inr v \<longleftrightarrow> x = Some v"
  by (cases x) auto

lemma ok_or_Inl_iff [simp]: "ok_or x e = Inl e' \<longleftrightarrow> x = None \<and> e' = e"
  by (cases x) auto

section \<open>Absence of panics\<close>

definition no_panic :: "'a res \<Rightarrow> bool" where
  "no_panic r \<longleftrightarrow> r \<noteq> Inl Panic"

lemma no_panic_simps [simp]:
  "no_panic (Inr x)"
  "no_panic (Inl e) \<longleftrightarrow> e \<noteq> Panic"
  by (simp_all add: no_panic_def)

lemma no_panic_ok_or [simp]: "no_panic (ok_or x e) \<longleftrightarrow> x \<noteq> None \<or> e \<noteq> Panic"
  by (cases x) auto

lemma no_panic_and_then [intro]:
  "no_panic m \<Longrightarrow> (\<And>x. m = Inr x \<Longrightarrow> no_panic (f x)) \<Longrightarrow> no_panic (and_then m f)"
  by (cases m) auto

lemma no_panicD: "no_panic r \<Longrightarrow> r = Inl e \<Longrightarrow> e \<noteq> Panic"
  by (auto simp: no_panic_def)

section \<open>Loops that may stop early\<close>

text \<open>A Rust \<^verbatim>\<open>for\<close> loop over a sequence whose body updates a state and may return early.\<close>

fun fold_res :: "('a \<Rightarrow> 's \<Rightarrow> 's res) \<Rightarrow> 'a list \<Rightarrow> 's \<Rightarrow> 's res" where
  "fold_res f [] s = Inr s"
| "fold_res f (x # xs) s = and_then (f x s) (fold_res f xs)"

lemma fold_res_cong [fundef_cong]:
  "xs = ys \<Longrightarrow> s = t \<Longrightarrow> (\<And>x s. x \<in> set ys \<Longrightarrow> f x s = g x s) \<Longrightarrow> fold_res f xs s = fold_res g ys t"
proof (induction ys arbitrary: xs s t)
  case (Cons y ys)
  have "fold_res f ys = fold_res g ys"
    by (rule ext, rule Cons.IH) (auto simp: Cons.prems)
  then show ?case using Cons.prems by simp
qed simp

text \<open>Two loops agree when their bodies agree on the states that occur.\<close>

lemma fold_res_cong_inv:
  assumes "I s" and "\<And>x s. x \<in> set xs \<Longrightarrow> I s \<Longrightarrow> f x s = g x s"
    and "\<And>x s s'. x \<in> set xs \<Longrightarrow> I s \<Longrightarrow> g x s = Inr s' \<Longrightarrow> I s'"
  shows "fold_res f xs s = fold_res g xs s"
  using assms
proof (induction xs arbitrary: s)
  case (Cons x xs)
  have "f x s = g x s" using Cons.prems by simp
  moreover have "fold_res f xs s' = fold_res g xs s'" if s': "g x s = Inr s'" for s'
  proof (rule Cons.IH)
    show "I s'" using Cons.prems(3)[of x s s'] Cons.prems(1) s' by simp
    show "f y t = g y t" if "y \<in> set xs" "I t" for y t using Cons.prems(2)[of y t] that by simp
    show "I t'" if "y \<in> set xs" "I t" "g y t = Inr t'" for y t t' using Cons.prems(3)[of y t t'] that by simp
  qed
  ultimately show ?case by (cases "g x s") simp_all
qed simp

lemma fold_res_append: "fold_res f (xs @ ys) s = and_then (fold_res f xs s) (fold_res f ys)"
proof (induction xs arbitrary: s)
  case (Cons x xs)
  then show ?case by (cases "f x s") simp_all
qed simp

lemma fold_res_inv:
  assumes "fold_res f xs s = Inr t" and "P s"
    and "\<And>x s s'. x \<in> set xs \<Longrightarrow> P s \<Longrightarrow> f x s = Inr s' \<Longrightarrow> P s'"
  shows "P t"
  using assms
proof (induction xs arbitrary: s)
  case (Cons x xs)
  from Cons.prems(1) obtain u where u: "f x s = Inr u" "fold_res f xs u = Inr t"
    by auto
  have "P u" using Cons.prems(2,3) u(1) by auto
  then show ?case by (rule Cons.IH[OF u(2)]) (auto intro: Cons.prems(3))
qed simp

lemma fold_res_no_panic:
  assumes "P s"
    and "\<And>x s. x \<in> set xs \<Longrightarrow> P s \<Longrightarrow> no_panic (f x s)"
    and "\<And>x s s'. x \<in> set xs \<Longrightarrow> P s \<Longrightarrow> f x s = Inr s' \<Longrightarrow> P s'"
  shows "no_panic (fold_res f xs s)"
  using assms
proof (induction xs arbitrary: s)
  case (Cons x xs)
  show ?case
  proof (cases "f x s")
    case (Inl e)
    with Cons.prems(1,2) have "e \<noteq> Panic" by (metis list.set_intros(1) no_panicD)
    with Inl show ?thesis by simp
  next
    case (Inr u)
    have "P u" using Cons.prems(1,3) Inr by auto
    then have "no_panic (fold_res f xs u)"
      by (rule Cons.IH) (auto intro: Cons.prems(2,3))
    with Inr show ?thesis by simp
  qed
qed simp

text \<open>Collecting the results of one call per element: \<^verbatim>\<open>collect::<Result<Vec<_>, _>>\<close>.\<close>

fun map_res :: "('a \<Rightarrow> 'b res) \<Rightarrow> 'a list \<Rightarrow> 'b list res" where
  "map_res f [] = Inr []"
| "map_res f (x # xs) = and_then (f x) (\<lambda>y. and_then (map_res f xs) (\<lambda>ys. Inr (y # ys)))"

lemma map_res_Inr_iff: "map_res f xs = Inr ys \<longleftrightarrow> list_all2 (\<lambda>x y. f x = Inr y) xs ys"
  by (induction xs arbitrary: ys) (auto simp: and_then_Inr_iff list_all2_Cons1)

lemma map_res_length: "map_res f xs = Inr ys \<Longrightarrow> length ys = length xs"
  by (auto simp: map_res_Inr_iff dest: list_all2_lengthD)

lemma map_res_total: "(\<And>x. x \<in> set xs \<Longrightarrow> f x = Inr (g x)) \<Longrightarrow> map_res f xs = Inr (map g xs)"
  by (induction xs) auto

lemma map_res_no_panic: "(\<And>x. x \<in> set xs \<Longrightarrow> no_panic (f x)) \<Longrightarrow> no_panic (map_res f xs)"
  by (induction xs) (auto intro!: no_panic_and_then)

text \<open>\<^verbatim>\<open>Iterator::any\<close> with a test that may fail: stops at the first hit.\<close>

fun any_res :: "('a \<Rightarrow> bool res) \<Rightarrow> 'a list \<Rightarrow> bool res" where
  "any_res f [] = Inr False"
| "any_res f (x # xs) = and_then (f x) (\<lambda>b. if b then Inr True else any_res f xs)"

lemma any_res_total: "(\<And>x. x \<in> set xs \<Longrightarrow> f x = Inr (g x)) \<Longrightarrow> any_res f xs = Inr (\<exists>x\<in>set xs. g x)"
  by (induction xs) auto

section \<open>Machine arithmetic\<close>

text \<open>
  \<open>usize\<close> and \<open>u64\<close> share the bound \<open>2 ^ 64\<close> (the model is of a 64-bit target). The
  plain operators panic on overflow; \<^verbatim>\<open>checked_*\<close> return \<^verbatim>\<open>None\<close>; \<^verbatim>\<open>saturating_*\<close>
  clamp. \<^verbatim>\<open>usize::try_from(u64)\<close> succeeds for every 64-bit value on such a target.
\<close>

abbreviation u64_lim :: nat where
  "u64_lim \<equiv> 18446744073709551616"

abbreviation u64_max :: nat where
  "u64_max \<equiv> 18446744073709551615"

abbreviation u32_lim :: nat where
  "u32_lim \<equiv> 4294967296"

text \<open>A Rust slice is never longer than \<^verbatim>\<open>isize::MAX\<close> bytes.\<close>

abbreviation isize_max :: nat where
  "isize_max \<equiv> 9223372036854775807"

lemma u64_lim_pow: "(2::nat) ^ 64 = u64_lim"
  by simp

definition uadd :: "nat \<Rightarrow> nat \<Rightarrow> nat res" where
  "uadd a b = (if a + b < u64_lim then Inr (a + b) else Inl Panic)"

definition usub :: "nat \<Rightarrow> nat \<Rightarrow> nat res" where
  "usub a b = (if b \<le> a then Inr (a - b) else Inl Panic)"

definition umul :: "nat \<Rightarrow> nat \<Rightarrow> nat res" where
  "umul a b = (if a * b < u64_lim then Inr (a * b) else Inl Panic)"

definition udiv :: "nat \<Rightarrow> nat \<Rightarrow> nat res" where
  "udiv a b = (if b = 0 then Inl Panic else Inr (a div b))"

definition umod :: "nat \<Rightarrow> nat \<Rightarrow> nat res" where
  "umod a b = (if b = 0 then Inl Panic else Inr (a mod b))"

definition checked_add :: "nat \<Rightarrow> nat \<Rightarrow> nat option" where
  "checked_add a b = (if a + b < u64_lim then Some (a + b) else None)"

definition checked_mul :: "nat \<Rightarrow> nat \<Rightarrow> nat option" where
  "checked_mul a b = (if a * b < u64_lim then Some (a * b) else None)"

definition checked_sub :: "nat \<Rightarrow> nat \<Rightarrow> nat option" where
  "checked_sub a b = (if b \<le> a then Some (a - b) else None)"

definition saturating_add :: "nat \<Rightarrow> nat \<Rightarrow> nat" where
  "saturating_add a b = min (a + b) u64_max"

definition saturating_mul :: "nat \<Rightarrow> nat \<Rightarrow> nat" where
  "saturating_mul a b = min (a * b) u64_max"

lemma saturating_mul_exact: "a * b < u64_lim \<Longrightarrow> saturating_mul a b = a * b"
  by (simp add: saturating_mul_def)

definition usize_try_from :: "nat \<Rightarrow> nat option" where
  "usize_try_from a = (if a < u64_lim then Some a else None)"

lemma uadd_Inr_iff [simp]: "uadd a b = Inr c \<longleftrightarrow> a + b < u64_lim \<and> c = a + b"
  by (auto simp: uadd_def)

lemma usub_Inr_iff [simp]: "usub a b = Inr c \<longleftrightarrow> b \<le> a \<and> c = a - b"
  by (auto simp: usub_def)

lemma umul_Inr_iff [simp]: "umul a b = Inr c \<longleftrightarrow> a * b < u64_lim \<and> c = a * b"
  by (auto simp: umul_def)

lemma arith_in_range [simp]:
  "a + b < u64_lim \<Longrightarrow> uadd a b = Inr (a + b)"
  "b \<le> a \<Longrightarrow> usub a b = Inr (a - b)"
  "a * b < u64_lim \<Longrightarrow> umul a b = Inr (a * b)"
  "a + b < u64_lim \<Longrightarrow> checked_add a b = Some (a + b)"
  "a * b < u64_lim \<Longrightarrow> checked_mul a b = Some (a * b)"
  "b \<le> a \<Longrightarrow> checked_sub a b = Some (a - b)"
  "a < u64_lim \<Longrightarrow> usize_try_from a = Some a"
  by (simp_all add: uadd_def usub_def umul_def checked_add_def checked_mul_def checked_sub_def
      usize_try_from_def)

lemma udiv_umod_in_range [simp]:
  "0 < b \<Longrightarrow> udiv a b = Inr (a div b)"
  "0 < b \<Longrightarrow> umod a b = Inr (a mod b)"
  by (simp_all add: udiv_def umod_def)

lemma no_panic_div [simp]: "no_panic (udiv a b) \<longleftrightarrow> 0 < b" "no_panic (umod a b) \<longleftrightarrow> 0 < b"
  by (auto simp: udiv_def umod_def)

lemma no_panic_uadd [simp]: "no_panic (uadd a b) \<longleftrightarrow> a + b < u64_lim"
  by (auto simp: uadd_def)

lemma no_panic_usub [simp]: "no_panic (usub a b) \<longleftrightarrow> b \<le> a"
  by (auto simp: usub_def)

lemma no_panic_umul [simp]: "no_panic (umul a b) \<longleftrightarrow> a * b < u64_lim"
  by (auto simp: umul_def)

lemma checked_add_Some_iff [simp]: "checked_add a b = Some c \<longleftrightarrow> a + b < u64_lim \<and> c = a + b"
  by (auto simp: checked_add_def)

lemma checked_mul_Some_iff [simp]: "checked_mul a b = Some c \<longleftrightarrow> a * b < u64_lim \<and> c = a * b"
  by (auto simp: checked_mul_def)

lemma checked_sub_Some_iff [simp]: "checked_sub a b = Some c \<longleftrightarrow> b \<le> a \<and> c = a - b"
  by (auto simp: checked_sub_def)

lemma usize_try_from_Some_iff [simp]: "usize_try_from a = Some b \<longleftrightarrow> a < u64_lim \<and> b = a"
  by (auto simp: usize_try_from_def)

text \<open>Rounding up to a multiple of eight, written \<^verbatim>\<open>(n + 7) & !7\<close> in the source.\<close>

definition align8 :: "nat \<Rightarrow> nat" where
  "align8 n = (n + 7) div 8 * 8"

lemma align8_ge: "n \<le> align8 n"
  unfolding align8_def by presburger

lemma align8_less: "align8 n < n + 8"
  unfolding align8_def by presburger

lemma align8_dvd [simp]: "8 dvd align8 n"
  by (simp add: align8_def)

lemma align8_id: "8 dvd n \<Longrightarrow> align8 n = n"
  unfolding align8_def by presburger

lemma align8_mult [simp]: "align8 (8 * k) = 8 * k"
  by (simp add: align8_id)

text \<open>On a 64-bit word the mask form computes the same number, as long as the sum does not wrap.\<close>

lemma align8_mask:
  assumes "unat w + 7 < u64_lim"
  shows "unat (and (w + 7) (not 7) :: 64 word) = align8 (unat w)"
proof -
  have seven: "(7 :: 64 word) = mask 3" by (simp add: mask_eq_exp_minus_1)
  have "and (w + 7) (not 7) = push_bit 3 (drop_bit 3 (w + 7))"
    unfolding seven by (rule bit_eqI) (auto simp: bit_simps)
  moreover have sum: "unat (w + 7) = unat w + 7"
    using assms by (simp add: unat_word_ariths)
  have "unat (push_bit 3 (drop_bit 3 (w + 7))) = take_bit 64 (push_bit 3 (drop_bit 3 (unat (w + 7))))"
    by (simp only: unsigned_push_bit_eq unat_drop_bit_eq) simp
  then have "unat (push_bit 3 (drop_bit 3 (w + 7))) = (unat (w + 7) div 8 * 8) mod 2 ^ 64"
    by (simp only: push_bit_nat_def drop_bit_nat_def take_bit_nat_def) simp
  ultimately show ?thesis using assms sum by (simp add: align8_def)
qed

section \<open>Slices\<close>

text \<open>
  \<^verbatim>\<open>d.get(a..b)\<close> and \<^verbatim>\<open>d.get(i)\<close> return an option; \<^verbatim>\<open>&d[a..b]\<close> and \<^verbatim>\<open>d[i]\<close>
  panic when out of range.
\<close>

definition get_range :: "'a list \<Rightarrow> nat \<Rightarrow> nat \<Rightarrow> 'a list option" where
  "get_range d a b = (if a \<le> b \<and> b \<le> length d then Some (take (b - a) (drop a d)) else None)"

definition get_elem :: "'a list \<Rightarrow> nat \<Rightarrow> 'a option" where
  "get_elem d i = (if i < length d then Some (d ! i) else None)"

definition slice :: "'a list \<Rightarrow> nat \<Rightarrow> nat \<Rightarrow> 'a list res" where
  "slice d a b = ok_or (get_range d a b) Panic"

definition index :: "'a list \<Rightarrow> nat \<Rightarrow> 'a res" where
  "index d i = ok_or (get_elem d i) Panic"

lemma get_range_Some_iff:
  "get_range d a b = Some s \<longleftrightarrow> a \<le> b \<and> b \<le> length d \<and> s = take (b - a) (drop a d)"
  by (auto simp: get_range_def)

lemma get_range_None_iff: "get_range d a b = None \<longleftrightarrow> \<not> (a \<le> b \<and> b \<le> length d)"
  by (auto simp: get_range_def)

lemma get_range_length: "get_range d a b = Some s \<Longrightarrow> length s = b - a"
  by (auto simp: get_range_def split: if_splits)

lemma get_elem_Some_iff: "get_elem d i = Some x \<longleftrightarrow> i < length d \<and> x = d ! i"
  by (auto simp: get_elem_def)

lemma get_elem_None_iff: "get_elem d i = None \<longleftrightarrow> length d \<le> i"
  by (auto simp: get_elem_def)

lemma slice_Inr_iff: "slice d a b = Inr s \<longleftrightarrow> a \<le> b \<and> b \<le> length d \<and> s = take (b - a) (drop a d)"
  by (simp add: slice_def get_range_Some_iff)

lemma slice_length: "slice d a b = Inr s \<Longrightarrow> length s = b - a"
  by (auto simp: slice_Inr_iff)

lemma index_Inr_iff: "index d i = Inr x \<longleftrightarrow> i < length d \<and> x = d ! i"
  by (simp add: index_def get_elem_Some_iff)

lemma access_in_range [simp]:
  "i < length d \<Longrightarrow> index d i = Inr (d ! i)"
  "i < length d \<Longrightarrow> get_elem d i = Some (d ! i)"
  "a \<le> b \<Longrightarrow> b \<le> length d \<Longrightarrow> slice d a b = Inr (take (b - a) (drop a d))"
  "a \<le> b \<Longrightarrow> b \<le> length d \<Longrightarrow> get_range d a b = Some (take (b - a) (drop a d))"
  by (simp_all add: index_def get_elem_def slice_def get_range_def)

lemma no_panic_slice [simp]: "no_panic (slice d a b) \<longleftrightarrow> a \<le> b \<and> b \<le> length d"
  by (auto simp: slice_def get_range_def)

lemma no_panic_index [simp]: "no_panic (index d i) \<longleftrightarrow> i < length d"
  by (auto simp: index_def get_elem_def)

text \<open>Overwriting a range in place: \<^verbatim>\<open>buf[off..off + n].copy_from_slice(..)\<close>.\<close>

definition splice :: "'a list \<Rightarrow> nat \<Rightarrow> 'a list \<Rightarrow> 'a list" where
  "splice buf off bs = take off buf @ bs @ drop (off + length bs) buf"

definition put_range :: "'a list \<Rightarrow> nat \<Rightarrow> 'a list \<Rightarrow> 'a list res" where
  "put_range buf off bs =
     (if off + length bs \<le> length buf then Inr (splice buf off bs) else Inl Panic)"

lemma length_splice [simp]: "off + length bs \<le> length buf \<Longrightarrow> length (splice buf off bs) = length buf"
  by (simp add: splice_def)

lemma nth_splice:
  "off + length bs \<le> length buf \<Longrightarrow> i < length buf \<Longrightarrow>
   splice buf off bs ! i = (if off \<le> i \<and> i < off + length bs then bs ! (i - off) else buf ! i)"
  by (auto simp: splice_def nth_append min_def)

lemma put_range_Inr_iff:
  "put_range buf off bs = Inr b \<longleftrightarrow> off + length bs \<le> length buf \<and> b = splice buf off bs"
  by (auto simp: put_range_def)

lemma no_panic_put_range [simp]: "no_panic (put_range buf off bs) \<longleftrightarrow> off + length bs \<le> length buf"
  by (simp add: put_range_def)

lemma put_range_length: "put_range buf off bs = Inr b \<Longrightarrow> length b = length buf"
  by (auto simp: put_range_Inr_iff)

lemma splice_slice_same:
  "off + length bs \<le> length buf \<Longrightarrow> take (length bs) (drop off (splice buf off bs)) = bs"
  by (simp add: splice_def)

lemma splice_slice_other:
  assumes "off + length bs \<le> length buf" and "a + n \<le> off \<or> off + length bs \<le> a"
  shows "take n (drop a (splice buf off bs)) = take n (drop a buf)"
proof (rule nth_equalityI)
  show "length (take n (drop a (splice buf off bs))) = length (take n (drop a buf))"
    using assms(1) by simp
next
  fix i assume "i < length (take n (drop a (splice buf off bs)))"
  then have "i < n" "a + i < length buf" using assms(1) by auto
  then show "take n (drop a (splice buf off bs)) ! i = take n (drop a buf) ! i"
    using assms by (auto simp: nth_splice)
qed

section \<open>Little-endian integers\<close>

fun from_le :: "bytes \<Rightarrow> nat" where
  "from_le [] = 0"
| "from_le (b # bs) = unat b + 256 * from_le bs"

fun to_le :: "nat \<Rightarrow> nat \<Rightarrow> bytes" where
  "to_le 0 v = []"
| "to_le (Suc n) v = of_nat (v mod 256) # to_le n (v div 256)"

lemma to_le_numeral [le_eval]:
  "to_le (numeral k) v = of_nat (v mod 256) # to_le (pred_numeral k) (v div 256)"
  by (simp only: numeral_eq_Suc[of k] to_le.simps)

lemma unat_byte_less [simp]: "unat (b :: byte) < 256"
  using unsigned_less[of b] by simp

lemma unat_of_nat_byte [simp]: "unat (of_nat v :: byte) = v mod 256"
  by (simp add: unat_of_nat)

lemma length_to_le [simp, le_simps]: "length (to_le n v) = n"
  by (induction n arbitrary: v) auto

lemma from_le_less [le_simps]: "from_le bs < 256 ^ length bs"
proof (induction bs)
  case (Cons b bs)
  have "unat b < 256" by simp
  moreover have "Suc (from_le bs) \<le> 256 ^ length bs" using Cons by simp
  then have "256 * Suc (from_le bs) \<le> 256 * 256 ^ length bs" by (rule mult_le_mono2)
  ultimately show ?case by (simp del: unat_byte_less)
qed simp

lemma from_le_to_le_mod [le_simps]: "from_le (to_le n v) = v mod 256 ^ n"
proof (induction n arbitrary: v)
  case (Suc n)
  have "from_le (to_le (Suc n) v) = v mod 256 + 256 * (v div 256 mod 256 ^ n)"
    by (simp add: Suc)
  also have "\<dots> = v mod (256 * 256 ^ n)"
    by (simp add: mod_mult2_eq)
  finally show ?case by simp
qed simp

lemma from_le_to_le: "v < 256 ^ n \<Longrightarrow> from_le (to_le n v) = v"
  by (simp add: from_le_to_le_mod)

lemma to_le_from_le: "to_le (length bs) (from_le bs) = bs"
proof (induction bs)
  case (Cons b bs)
  have "(unat b + 256 * from_le bs) div 256 = from_le bs"
    by simp
  moreover have "(unat b + 256 * from_le bs) mod 256 = unat b"
    by simp
  ultimately show ?case using Cons by simp
qed simp

lemma from_le_append: "from_le (xs @ ys) = from_le xs + 256 ^ length xs * from_le ys"
  by (induction xs) (simp_all add: algebra_simps)

lemma from_le_inj: "length xs = length ys \<Longrightarrow> from_le xs = from_le ys \<Longrightarrow> xs = ys"
  by (metis to_le_from_le)

lemma from_le_bound_u64: "length bs \<le> 8 \<Longrightarrow> from_le bs < u64_lim"
proof -
  assume "length bs \<le> 8"
  then have "(256::nat) ^ length bs \<le> 256 ^ 8" by (rule power_increasing) simp
  with from_le_less[of bs] show ?thesis by simp
qed

lemma from_le_replicate_0 [simp]: "from_le (replicate n 0) = 0"
  by (induction n) auto

section \<open>Searching\<close>

text \<open>A loop that may fail and may return early with a result.\<close>

fun find_res :: "('a \<Rightarrow> 'b option res) \<Rightarrow> 'a list \<Rightarrow> 'b option res" where
  "find_res f [] = Inr None"
| "find_res f (x # xs) =
     and_then (f x) (\<lambda>r. case r of Some y \<Rightarrow> Inr (Some y) | None \<Rightarrow> find_res f xs)"

lemma find_res_append:
  "find_res f (xs @ ys) =
     and_then (find_res f xs) (\<lambda>r. case r of Some y \<Rightarrow> Inr (Some y) | None \<Rightarrow> find_res f ys)"
proof (induction xs)
  case (Cons x xs)
  show ?case
  proof (cases "f x")
    case (Inr r)
    then show ?thesis using Cons by (cases r) auto
  qed simp
qed simp

lemma find_res_SomeD: "find_res f xs = Inr (Some y) \<Longrightarrow> \<exists>x\<in>set xs. f x = Inr (Some y)"
  by (induction xs) (auto simp: and_then_Inr_iff split: option.splits)

lemma find_res_no_panic: "(\<And>x. x \<in> set xs \<Longrightarrow> no_panic (f x)) \<Longrightarrow> no_panic (find_res f xs)"
  by (induction xs) (auto intro!: no_panic_and_then split: option.splits)

text \<open>\<^verbatim>\<open>Iterator::position\<close>: the index of the first element satisfying a predicate.\<close>

fun position :: "('a \<Rightarrow> bool) \<Rightarrow> 'a list \<Rightarrow> nat option" where
  "position p [] = None"
| "position p (x # xs) = (if p x then Some 0 else map_option Suc (position p xs))"

lemma position_Some_iff:
  "position p xs = Some i \<longleftrightarrow> i < length xs \<and> p (xs ! i) \<and> (\<forall>j<i. \<not> p (xs ! j))"
proof (induction xs arbitrary: i)
  case (Cons x xs)
  then show ?case by (cases i) (auto simp: less_Suc_eq_0_disj)
qed simp

lemma position_split:
  assumes "position p xs = Some k"
  shows "xs = take k xs @ xs ! k # drop (Suc k) xs" "p (xs ! k)" "\<And>x. x \<in> set (take k xs) \<Longrightarrow> \<not> p x"
  using assms by (auto simp: position_Some_iff id_take_nth_drop in_set_conv_nth)

lemma position_None_iff: "position p xs = None \<longleftrightarrow> (\<forall>x\<in>set xs. \<not> p x)"
  by (induction xs) auto

lemma position_append:
  "position p (xs @ ys) =
     (case position p xs of Some i \<Rightarrow> Some i | None \<Rightarrow> map_option ((+) (length xs)) (position p ys))"
  by (cases "position p ys"; induction xs) (auto split: option.splits)

section \<open>Loops that fill a buffer\<close>

text \<open>\<^verbatim>\<open>out[i] = x\<close>, and \<^verbatim>\<open>vec![0u8; n]\<close>, which panics past \<^verbatim>\<open>isize::MAX\<close> bytes.\<close>

definition put_elem :: "'a list \<Rightarrow> nat \<Rightarrow> 'a \<Rightarrow> 'a list res" where
  "put_elem out i x = (if i < length out then Inr (out[i := x]) else Inl Panic)"

definition vec_zeros :: "nat \<Rightarrow> bytes res" where
  "vec_zeros n = (if n \<le> isize_max then Inr (replicate n 0) else Inl Panic)"

lemma put_elem_simps [simp]:
  "i < length out \<Longrightarrow> put_elem out i x = Inr (out[i := x])"
  "put_elem out i x = Inr out' \<longleftrightarrow> i < length out \<and> out' = out[i := x]"
  "no_panic (put_elem out i x) \<longleftrightarrow> i < length out"
  by (auto simp: put_elem_def)

lemma vec_zeros_simps [simp]:
  "n \<le> isize_max \<Longrightarrow> vec_zeros n = Inr (replicate n 0)"
  "vec_zeros n = Inr v \<longleftrightarrow> n \<le> isize_max \<and> v = replicate n 0"
  "no_panic (vec_zeros n) \<longleftrightarrow> n \<le> isize_max"
  by (auto simp: vec_zeros_def)

text \<open>Two nested loops are one loop over the pairs, in the order of the outer index.\<close>

lemma fold_res_map: "fold_res f (map h xs) s = fold_res (\<lambda>x. f (h x)) xs s"
proof (induction xs arbitrary: s)
  case (Cons x xs)
  then show ?case by (cases "f (h x) s") simp_all
qed simp

lemma fold_res_nested:
  "fold_res (\<lambda>a. fold_res (g a) ys) xs s = fold_res (\<lambda>(a, b). g a b) (List.product xs ys) s"
proof (induction xs arbitrary: s)
  case (Cons x xs)
  then show ?case
    by (cases "fold_res (g x) ys s") (simp_all add: fold_res_append fold_res_map)
qed simp

text \<open>
  A loop of element writes at pairwise different places of the buffer: it never panics, keeps
  the length, stores each value at its place and leaves the rest alone.
\<close>

lemma write_loop:
  assumes "\<And>x. x \<in> set xs \<Longrightarrow> p x < length out" and "inj_on p (set xs)"
  shows "\<exists>out'. fold_res (\<lambda>x buf. put_elem buf (p x) (v x)) xs out = Inr out' \<and> length out' = length out
          \<and> (\<forall>x\<in>set xs. out' ! p x = v x)
          \<and> (\<forall>i<length out. i \<notin> p ` set xs \<longrightarrow> out' ! i = out ! i)"
  using assms
proof (induction xs rule: rev_induct)
  case (snoc x xs)
  then obtain o1 where o1: "fold_res (\<lambda>x buf. put_elem buf (p x) (v x)) xs out = Inr o1"
      "length o1 = length out" "\<forall>x\<in>set xs. o1 ! p x = v x"
      "\<forall>i<length out. i \<notin> p ` set xs \<longrightarrow> o1 ! i = out ! i"
    by (auto simp: inj_on_insert)
  have px: "p x < length out" using snoc.prems(1) by simp
  have other: "x' = x" if "x' \<in> set xs" "p x' = p x" for x'
    using inj_onD[OF snoc.prems(2) that(2)] that(1) by simp
  have "o1[p x := v x] ! p x' = v x'" if "x' \<in> set xs" for x'
    using o1 other that px by (cases "p x' = p x") auto
  then show ?case
    using o1 px by (intro exI[of _ "o1[p x := v x]"]) (auto simp: fold_res_append)
qed simp

lemma write_loop_cover:
  assumes "\<And>x. x \<in> set xs \<Longrightarrow> p x < length out" and "inj_on p (set xs)"
    and "\<And>x. x \<in> set xs \<Longrightarrow> r ! p x = v x" and "length r = length out"
    and "\<And>i. i < length out \<Longrightarrow> i \<in> p ` set xs"
  shows "fold_res (\<lambda>x buf. put_elem buf (p x) (v x)) xs out = Inr r"
proof -
  obtain o1 where o1: "fold_res (\<lambda>x buf. put_elem buf (p x) (v x)) xs out = Inr o1"
      "length o1 = length out" "\<forall>x\<in>set xs. o1 ! p x = v x"
    using write_loop[of xs p out v] assms(1,2) by auto
  have "o1 = r"
  proof (rule nth_equalityI)
    fix i assume "i < length o1"
    then obtain x where "x \<in> set xs" "i = p x" using assms(5) o1(2) by auto
    then show "o1 ! i = r ! i" using o1(3) assms(3) by simp
  qed (simp add: o1 assms)
  with o1 show ?thesis by simp
qed

text \<open>Mixed-radix indices: \<open>a * n + b\<close> with \<open>b < n\<close> is a bijection.\<close>

lemma radix_less: "a < m \<Longrightarrow> b < n \<Longrightarrow> a * n + b < m * (n :: nat)"
  by (metis add.commute add_less_le_mono less_le_trans mult_Suc mult_le_mono1 Suc_leI add_less_cancel_left)

lemma radix_inj: "b < n \<Longrightarrow> b' < n \<Longrightarrow> a * n + b = a' * n + b' \<longleftrightarrow> a = a' \<and> b = (b' :: nat)"
  by (metis add_right_cancel div_mult_self3 div_less add.right_neutral mod_less mod_mult_self3 not_less_zero add.left_neutral)

section \<open>Chunks\<close>

text \<open>\<^verbatim>\<open>usize::div_ceil\<close>, and \<^verbatim>\<open>slice::chunks\<close>: pieces of \<open>k\<close> elements, the last one shorter.\<close>

definition div_ceil :: "nat \<Rightarrow> nat \<Rightarrow> nat" where
  "div_ceil n k = n div k + (if n mod k = 0 then 0 else 1)"

function chunks :: "nat \<Rightarrow> 'a list \<Rightarrow> 'a list list" where
  "chunks k xs = (if xs = [] \<or> k = 0 then [] else take k xs # chunks k (drop k xs))"
  by pat_completeness auto
termination
  by (relation "measure (\<lambda>(k, xs). length xs)") auto

declare chunks.simps [simp del]

lemma chunks_Nil [simp]: "chunks k [] = []"
  by (simp add: chunks.simps)

lemma chunks_nonempty: "xs \<noteq> [] \<Longrightarrow> 0 < k \<Longrightarrow> chunks k xs = take k xs # chunks k (drop k xs)"
  by (subst chunks.simps) simp

lemma concat_chunks: "0 < k \<Longrightarrow> concat (chunks k xs) = xs"
proof (induction k xs rule: chunks.induct)
  case (1 k xs)
  then show ?case by (cases "xs = []") (simp_all add: chunks_nonempty)
qed

lemma div_ceil_pos: "0 < n \<Longrightarrow> 0 < k \<Longrightarrow> 0 < div_ceil n k"
  by (cases "n < k") (auto simp: div_ceil_def div_greater_zero_iff)

lemma div_ceil_le: "0 < n \<Longrightarrow> n \<le> k \<Longrightarrow> div_ceil n k = 1"
  by (cases "n = k") (simp_all add: div_ceil_def)

lemma div_ceil_step: "k < n \<Longrightarrow> 0 < k \<Longrightarrow> div_ceil n k = Suc (div_ceil (n - k) k)"
  by (simp add: div_ceil_def le_div_geq le_mod_geq)

lemma length_chunks: "0 < k \<Longrightarrow> length (chunks k xs) = div_ceil (length xs) k"
proof (induction k xs rule: chunks.induct)
  case (1 k xs)
  show ?case
  proof (cases "xs = []")
    case False
    show ?thesis
    proof (cases "length xs \<le> k")
      case True
      with False 1 show ?thesis by (simp add: chunks_nonempty div_ceil_le)
    next
      case less: False
      with False 1 show ?thesis by (simp add: chunks_nonempty div_ceil_step)
    qed
  qed (simp add: div_ceil_def)
qed

lemma chunk_length: "c \<in> set (chunks k xs) \<Longrightarrow> length c \<le> k \<and> c \<noteq> []"
proof (induction k xs rule: chunks.induct)
  case (1 k xs)
  then show ?case by (cases "xs = [] \<or> k = 0") (auto simp: chunks_nonempty chunks.simps[of 0])
qed

lemma chunks_list_all2:
  "list_all2 R xs ys \<Longrightarrow> 0 < k \<Longrightarrow> list_all2 (list_all2 R) (chunks k xs) (chunks k ys)"
proof (induction k xs arbitrary: ys rule: chunks.induct)
  case (1 k xs)
  show ?case
  proof (cases "xs = []")
    case False
    with 1 have "ys \<noteq> []" by auto
    with False 1 show ?thesis
      by (auto simp: chunks_nonempty list_all2_takeI list_all2_dropI)
  qed (use 1 in simp)
qed

lemma concat_map_concat_chunks: "0 < k \<Longrightarrow> concat (map concat (chunks k xss)) = concat xss"
proof -
  assume k: "0 < k"
  have "concat (map concat ysss) = concat (concat ysss)" for ysss :: "'a list list list"
    by (induction ysss) auto
  with k show ?thesis by (simp add: concat_chunks)
qed

section \<open>Bytes inside wider words\<close>

lemma or_disjoint_nat:
  assumes "y < 2 ^ n"
  shows "or (push_bit n x) y = 2 ^ n * x + (y :: nat)"
proof -
  have "and (push_bit n x) (take_bit n y) = 0" by (rule bit_eqI) (simp add: bit_simps)
  then have "push_bit n x + take_bit n y = or (push_bit n x) (take_bit n y)"
    by (rule disjunctive_add_eq_or)
  moreover have "take_bit n y = y" using assms by (simp add: take_bit_nat_eq_self)
  ultimately show ?thesis by (simp add: push_bit_nat_def mult.commute)
qed

lemma unat_ucast_byte [simp]:
  "unat (ucast (b :: byte) :: 32 word) = unat b"
  "unat (ucast (b :: byte) :: 64 word) = unat b"
  by (simp_all add: unsigned_ucast_eq take_bit_nat_eq_self less_trans[OF unat_byte_less])

lemma unat_push8_byte [simp]: "unat (push_bit 8 (ucast (b :: byte)) :: 32 word) = 256 * unat b"
proof -
  have "unat b * 256 < 4294967296" using unat_byte_less[of b] by linarith
  then show ?thesis by (simp add: unsigned_push_bit_eq take_bit_nat_eq_self push_bit_nat_def)
qed

section \<open>UTF-8\<close>

text \<open>
  \<^verbatim>\<open>String\<close> and \<^verbatim>\<open>&str\<close> are byte strings in valid UTF-8; \<^verbatim>\<open>from_utf8\<close> accepts exactly
  the well-formed sequences of the Unicode standard (no overlong forms, no surrogates, nothing
  above \<open>U+10FFFF\<close>).
\<close>

type_synonym str = bytes

definition cont_byte :: "byte \<Rightarrow> bool" where
  "cont_byte b \<longleftrightarrow> 0x80 \<le> b \<and> b \<le> 0xBF"

definition utf8_pair :: "byte \<Rightarrow> byte \<Rightarrow> bool" where
  "utf8_pair a b \<longleftrightarrow> 0xC2 \<le> a \<and> a \<le> 0xDF \<and> cont_byte b"

definition utf8_triple :: "byte \<Rightarrow> byte \<Rightarrow> byte \<Rightarrow> bool" where
  "utf8_triple a b c \<longleftrightarrow>
     (a = 0xE0 \<and> 0xA0 \<le> b \<and> b \<le> 0xBF
      \<or> 0xE1 \<le> a \<and> a \<le> 0xEC \<and> cont_byte b
      \<or> a = 0xED \<and> 0x80 \<le> b \<and> b \<le> 0x9F
      \<or> 0xEE \<le> a \<and> a \<le> 0xEF \<and> cont_byte b) \<and> cont_byte c"

definition utf8_quad :: "byte \<Rightarrow> byte \<Rightarrow> byte \<Rightarrow> byte \<Rightarrow> bool" where
  "utf8_quad a b c d \<longleftrightarrow>
     (a = 0xF0 \<and> 0x90 \<le> b \<and> b \<le> 0xBF
      \<or> 0xF1 \<le> a \<and> a \<le> 0xF3 \<and> cont_byte b
      \<or> a = 0xF4 \<and> 0x80 \<le> b \<and> b \<le> 0x8F) \<and> cont_byte c \<and> cont_byte d"

fun valid_utf8 :: "bytes \<Rightarrow> bool" where
  "valid_utf8 [] = True"
| "valid_utf8 (a # r) =
     (if a < 0x80 then valid_utf8 r
      else case r of
        b # r2 \<Rightarrow>
          if utf8_pair a b then valid_utf8 r2
          else (case r2 of
            c # r3 \<Rightarrow>
              if utf8_triple a b c then valid_utf8 r3
              else (case r3 of
                d # r4 \<Rightarrow> utf8_quad a b c d \<and> valid_utf8 r4
              | [] \<Rightarrow> False)
          | [] \<Rightarrow> False)
      | [] \<Rightarrow> False)"

definition from_utf8 :: "bytes \<Rightarrow> str res" where
  "from_utf8 bs = (if valid_utf8 bs then Inr bs else Inl Format)"

lemma from_utf8_Inr_iff [simp]: "from_utf8 bs = Inr s \<longleftrightarrow> valid_utf8 bs \<and> s = bs"
  by (auto simp: from_utf8_def)

lemma from_utf8_valid [simp]: "valid_utf8 bs \<Longrightarrow> from_utf8 bs = Inr bs"
  by (simp add: from_utf8_def)

lemma no_panic_from_utf8 [simp]: "no_panic (from_utf8 bs)"
  by (simp add: from_utf8_def)

lemma valid_utf8_ascii: "(\<And>b. b \<in> set bs \<Longrightarrow> b < 0x80) \<Longrightarrow> valid_utf8 bs"
  by (induction bs) auto

end
