(* ===== verification/Byte_Fields.thy ===== *)
theory Byte_Fields
  imports Prelude
begin

text \<open>
  Fixed-width little-endian fields of a byte buffer: the \<^verbatim>\<open>read_u16_le\<close>,
  \<^verbatim>\<open>read_u32_le\<close> and \<^verbatim>\<open>read_u64_le\<close> helpers every parser calls
  (\<^verbatim>\<open>oxih5-format/src/superblock.rs\<close>), the width-at-run-time reader
  \<^verbatim>\<open>ParseContext::read_int\<close> (\<^verbatim>\<open>context.rs\<close>), and the locale \<open>byte_field\<close>, the
  contract between a field's reader and its writer. The writers live in \<open>Write_Format\<close>,
  where the locale is interpreted.
\<close>

section \<open>Fixed-width readers\<close>

definition read_u64_le :: "bytes \<Rightarrow> nat \<Rightarrow> nat res" where
  "read_u64_le data offset =
     and_then (uadd offset 8) (\<lambda>e.
       if e > length data then Inl Format
       else and_then (slice data offset e) (\<lambda>arr. Inr (from_le arr)))"

definition read_u32_le :: "bytes \<Rightarrow> nat \<Rightarrow> nat res" where
  "read_u32_le data offset =
     and_then (uadd offset 4) (\<lambda>e.
       if e > length data then Inl Format
       else and_then (slice data offset e) (\<lambda>arr. Inr (from_le arr)))"

definition read_u16_le :: "bytes \<Rightarrow> nat \<Rightarrow> nat res" where
  "read_u16_le data offset =
     and_then (uadd offset 2) (\<lambda>e.
       if e > length data then Inl Format
       else and_then (slice data offset e) (\<lambda>arr. Inr (from_le arr)))"

text \<open>The field of \<open>n\<close> bytes at an offset, as a plain number.\<close>

definition field :: "nat \<Rightarrow> bytes \<Rightarrow> nat \<Rightarrow> nat" where
  "field n data offset = from_le (take n (drop offset data))"

lemma field_less: "field n data offset < 256 ^ n"
proof -
  have "from_le (take n (drop offset data)) < 256 ^ length (take n (drop offset data))"
    by (rule from_le_less)
  also have "\<dots> \<le> 256 ^ n"
    by (rule power_increasing) auto
  finally show ?thesis by (simp add: field_def)
qed

lemma field_2_less [simp]: "field 2 data offset < 65536"
  using field_less[of 2] by simp

lemma field_4_less [simp]: "field 4 data offset < u32_lim"
  using field_less[of 4] by simp

lemma field_8_less [simp]: "field 8 data offset < u64_lim"
  using field_less[of 8] by simp

lemma read_u64_le_eq:
  "read_u64_le data offset =
     (if offset + 8 \<ge> u64_lim then Inl Panic
      else if offset + 8 > length data then Inl Format
      else Inr (field 8 data offset))"
  by (auto simp: read_u64_le_def uadd_def slice_def get_range_def field_def)

lemma read_u32_le_eq:
  "read_u32_le data offset =
     (if offset + 4 \<ge> u64_lim then Inl Panic
      else if offset + 4 > length data then Inl Format
      else Inr (field 4 data offset))"
  by (auto simp: read_u32_le_def uadd_def slice_def get_range_def field_def)

lemma read_u16_le_eq:
  "read_u16_le data offset =
     (if offset + 2 \<ge> u64_lim then Inl Panic
      else if offset + 2 > length data then Inl Format
      else Inr (field 2 data offset))"
  by (auto simp: read_u16_le_def uadd_def slice_def get_range_def field_def)

lemma read_u64_le_Inr_iff [simp]:
  "read_u64_le data offset = Inr v \<longleftrightarrow>
     offset + 8 < u64_lim \<and> offset + 8 \<le> length data \<and> v = field 8 data offset"
  by (auto simp: read_u64_le_eq)

lemma read_u32_le_Inr_iff [simp]:
  "read_u32_le data offset = Inr v \<longleftrightarrow>
     offset + 4 < u64_lim \<and> offset + 4 \<le> length data \<and> v = field 4 data offset"
  by (auto simp: read_u32_le_eq)

lemma read_u16_le_Inr_iff [simp]:
  "read_u16_le data offset = Inr v \<longleftrightarrow>
     offset + 2 < u64_lim \<and> offset + 2 \<le> length data \<and> v = field 2 data offset"
  by (auto simp: read_u16_le_eq)

lemma no_panic_read_le [simp]:
  "no_panic (read_u64_le data offset) \<longleftrightarrow> offset + 8 < u64_lim"
  "no_panic (read_u32_le data offset) \<longleftrightarrow> offset + 4 < u64_lim"
  "no_panic (read_u16_le data offset) \<longleftrightarrow> offset + 2 < u64_lim"
  by (auto simp: read_u64_le_eq read_u32_le_eq read_u16_le_eq)

section \<open>The contract of a field\<close>

text \<open>
  A field of \<open>n\<close> bytes with a reader and an in-place writer. The laws say where the writer
  touches the buffer and what the reader sees; the lemmas derived from them (a field reads
  back what was written to it, and fields that do not overlap do not disturb each other)
  carry the round trips between the writers and the parsers.
\<close>

locale byte_field =
  fixes n :: nat
    and rd :: "bytes \<Rightarrow> nat \<Rightarrow> nat res"
    and wr :: "bytes \<Rightarrow> nat \<Rightarrow> nat \<Rightarrow> bytes res"
  assumes rd_in: "offset + n \<le> length data \<Longrightarrow> offset + n < u64_lim \<Longrightarrow> rd data offset = Inr (field n data offset)"
    and wr_in: "offset + n \<le> length buf \<Longrightarrow> wr buf offset v = Inr (splice buf offset (to_le n v))"
    and wr_out: "length buf < offset + n \<Longrightarrow> wr buf offset v = Inl Panic"
begin

lemma wr_Inr_iff:
  "wr buf offset v = Inr b \<longleftrightarrow> offset + n \<le> length buf \<and> b = splice buf offset (to_le n v)"
  by (cases "offset + n \<le> length buf") (auto simp: wr_in wr_out)

lemma wr_length: "wr buf offset v = Inr b \<Longrightarrow> length b = length buf"
  by (auto simp: wr_Inr_iff)

lemma rd_wr_same:
  assumes "wr buf offset v = Inr b" and "offset + n < u64_lim" and "v < 256 ^ n"
  shows "rd b offset = Inr v"
proof -
  from assms(1) have "offset + n \<le> length b"
    by (auto simp: wr_Inr_iff)
  moreover from assms(1,3) have "field n b offset = v"
    using splice_slice_same[of offset "to_le n v" buf]
    by (auto simp: wr_Inr_iff field_def from_le_to_le)
  ultimately show ?thesis using assms(2) by (simp add: rd_in)
qed

lemma rd_wr_other:
  assumes "wr buf offset v = Inr b" and "at + n \<le> offset \<or> offset + n \<le> at"
    and "at + n \<le> length buf" and "at + n < u64_lim"
  shows "rd b at = rd buf at"
proof -
  from assms(1) have "take n (drop at b) = take n (drop at buf)"
    using assms(2) splice_slice_other[of offset "to_le n v" buf at n]
    by (auto simp: wr_Inr_iff)
  moreover have "length b = length buf" by (rule wr_length[OF assms(1)])
  ultimately show ?thesis using assms(3,4) by (simp add: rd_in field_def)
qed

end

section \<open>Parse context\<close>

text \<open>\<^verbatim>\<open>context.rs\<close>: the offset and length widths of the file, and integers of a width known
  only at run time.\<close>

record parse_context =
  size_of_offsets :: nat
  size_of_lengths :: nat
  base_address :: nat

definition read_int :: "bytes \<Rightarrow> nat \<Rightarrow> nat \<Rightarrow> nat res" where
  "read_int data pos sz =
     and_then (uadd pos sz) (\<lambda>e.
     and_then (ok_or (get_range data pos e) Format) (\<lambda>bs.
       if sz = 1 then and_then (index bs 0) (\<lambda>b. Inr (unat b))
       else if sz = 2 then Inr (from_le [bs ! 0, bs ! 1])
       else if sz = 4 then Inr (from_le [bs ! 0, bs ! 1, bs ! 2, bs ! 3])
       else if sz = 8 then Inr (from_le bs)
       else Inl Format))"

definition read_offset :: "parse_context \<Rightarrow> bytes \<Rightarrow> nat \<Rightarrow> nat res" where
  "read_offset ctx data pos = read_int data pos (size_of_offsets ctx)"

definition read_length :: "parse_context \<Rightarrow> bytes \<Rightarrow> nat \<Rightarrow> nat res" where
  "read_length ctx data pos = read_int data pos (size_of_lengths ctx)"

definition read_int_generic :: "parse_context \<Rightarrow> bytes \<Rightarrow> nat \<Rightarrow> nat \<Rightarrow> nat res" where
  "read_int_generic ctx data pos sz = read_int data pos sz"

definition parse_context_new :: "nat \<Rightarrow> nat \<Rightarrow> nat \<Rightarrow> parse_context" where
  "parse_context_new soo sol base =
     \<lparr>size_of_offsets = soo, size_of_lengths = sol, base_address = base\<rparr>"

definition default_v0 :: parse_context where
  "default_v0 = \<lparr>size_of_offsets = 8, size_of_lengths = 8, base_address = 0\<rparr>"

definition int_width :: "nat \<Rightarrow> bool" where
  "int_width sz \<longleftrightarrow> sz = 1 \<or> sz = 2 \<or> sz = 4 \<or> sz = 8"

lemma take_as_list:
  "length (bs :: 'a list) = 1 \<Longrightarrow> [bs ! 0] = bs"
  "length bs = 2 \<Longrightarrow> [bs ! 0, bs ! 1] = bs"
  "length bs = 4 \<Longrightarrow> [bs ! 0, bs ! 1, bs ! 2, bs ! 3] = bs"
  by (auto simp: list_eq_iff_nth_eq nth_Cons less_Suc_eq numeral_eq_Suc split: nat.splits)

lemmas as_list = take_as_list take_as_list[unfolded One_nat_def]

lemma read_int_eq:
  "read_int data pos sz =
     (if pos + sz \<ge> u64_lim then Inl Panic
      else if pos + sz > length data then Inl Format
      else if int_width sz then Inr (field sz data pos)
      else Inl Format)"
proof (cases "pos + sz < u64_lim \<and> pos + sz \<le> length data")
  case True
  define bs where "bs = take sz (drop pos data)"
  have len: "length bs = sz" using True by (auto simp: bs_def)
  have "sz = 1 \<Longrightarrow> unat (bs ! 0) = from_le bs"
    using take_as_list(1)[of bs] len by (metis add.right_neutral from_le.simps mult_0_right)
  with True len show ?thesis
    by (auto simp: read_int_def uadd_def get_range_def bs_def[symmetric] field_def int_width_def
        index_def get_elem_def as_list simp del: from_le.simps)
qed (auto simp: read_int_def uadd_def get_range_def)

lemma read_int_Inr_iff [simp]:
  "read_int data pos sz = Inr v \<longleftrightarrow>
     int_width sz \<and> pos + sz < u64_lim \<and> pos + sz \<le> length data \<and> v = field sz data pos"
  by (auto simp: read_int_eq)

lemma no_panic_read_int [simp]: "no_panic (read_int data pos sz) \<longleftrightarrow> pos + sz < u64_lim"
  by (auto simp: read_int_eq)

lemma read_int_bound: "read_int data pos sz = Inr v \<Longrightarrow> v < 256 ^ sz"
  by (auto simp: field_less)

lemma int_width_field_bound: "int_width sz \<Longrightarrow> field sz data pos < u64_lim"
proof -
  assume "int_width sz"
  then have "(256::nat) ^ sz \<le> 256 ^ 8"
    by (intro power_increasing) (auto simp: int_width_def)
  with field_less[of sz data pos] show ?thesis by simp
qed

end
