(* ===== verification/Cursor.thy ===== *)
theory Cursor
  imports Byte_Fields
begin

text \<open>
  \<^verbatim>\<open>oxih5-format/src/cursor.rs\<close>: a sequential reader over a byte slice. A method taking
  \<^verbatim>\<open>&mut self\<close> returns its result together with the cursor it leaves behind, so that the
  position after a failed read is visible. The list \<open>drop pos data\<close> of bytes not read yet is
  the abstraction against which the reads are specified.
\<close>

record cursor =
  cdata :: bytes
  cpos :: nat

definition cursor_new :: "bytes \<Rightarrow> cursor" where
  "cursor_new d = \<lparr>cdata = d, cpos = 0\<rparr>"

definition cursor_at :: "bytes \<Rightarrow> nat \<Rightarrow> cursor" where
  "cursor_at d p = \<lparr>cdata = d, cpos = p\<rparr>"

definition remaining :: "cursor \<Rightarrow> nat" where
  "remaining c = length (cdata c) - cpos c"

definition seek :: "nat \<Rightarrow> cursor \<Rightarrow> cursor" where
  "seek p c = c\<lparr>cpos := p\<rparr>"

definition skip :: "nat \<Rightarrow> cursor \<Rightarrow> unit res \<times> cursor" where
  "skip n c =
     (case checked_add (cpos c) n of
        None \<Rightarrow> (Inl Corrupted, c)
      | Some new_pos \<Rightarrow>
          if new_pos > length (cdata c) then (Inl Corrupted, c)
          else (Inr (), c\<lparr>cpos := new_pos\<rparr>))"

definition read_slice :: "nat \<Rightarrow> cursor \<Rightarrow> bytes res \<times> cursor" where
  "read_slice n c =
     (case checked_add (cpos c) n of
        None \<Rightarrow> (Inl Corrupted, c)
      | Some end_pos \<Rightarrow>
         (case get_range (cdata c) (cpos c) end_pos of
            None \<Rightarrow> (Inl Corrupted, c)
          | Some s \<Rightarrow> (Inr s, c\<lparr>cpos := end_pos\<rparr>)))"

definition cursor_read_u8 :: "cursor \<Rightarrow> byte res \<times> cursor" where
  "cursor_read_u8 c =
     (case get_elem (cdata c) (cpos c) of
        None \<Rightarrow> (Inl Corrupted, c)
      | Some b \<Rightarrow>
         (case uadd (cpos c) 1 of
            Inl e \<Rightarrow> (Inl e, c)
          | Inr p \<Rightarrow> (Inr b, c\<lparr>cpos := p\<rparr>)))"

definition cursor_read_u16_le :: "cursor \<Rightarrow> nat res \<times> cursor" where
  "cursor_read_u16_le c =
     (case read_slice 2 c of
        (r, c') \<Rightarrow> (and_then r (\<lambda>s. Inr (from_le [s ! 0, s ! 1])), c'))"

definition cursor_read_u24_le :: "cursor \<Rightarrow> nat res \<times> cursor" where
  "cursor_read_u24_le c =
     (case read_slice 3 c of
        (r, c') \<Rightarrow> (and_then r (\<lambda>s. Inr (from_le [s ! 0, s ! 1, s ! 2, 0])), c'))"

definition cursor_read_u32_le :: "cursor \<Rightarrow> nat res \<times> cursor" where
  "cursor_read_u32_le c =
     (case read_slice 4 c of
        (r, c') \<Rightarrow> (and_then r (\<lambda>s. Inr (from_le [s ! 0, s ! 1, s ! 2, s ! 3])), c'))"

definition cursor_read_u64_le :: "cursor \<Rightarrow> nat res \<times> cursor" where
  "cursor_read_u64_le c =
     (case read_slice 8 c of
        (r, c') \<Rightarrow>
          (and_then r (\<lambda>s. Inr (from_le [s ! 0, s ! 1, s ! 2, s ! 3, s ! 4, s ! 5, s ! 6, s ! 7])), c'))"

text \<open>
  \<^verbatim>\<open>read_uint_le\<close> copies the slice into the front of an eight-byte buffer; the range
  \<^verbatim>\<open>buf[..width]\<close> is out of bounds for a wider field.
\<close>

definition cursor_read_uint_le :: "nat \<Rightarrow> cursor \<Rightarrow> nat res \<times> cursor" where
  "cursor_read_uint_le width c =
     (case read_slice width c of
        (r, c') \<Rightarrow>
          (and_then r (\<lambda>s. and_then (put_range (replicate 8 0) 0 s) (\<lambda>buf. Inr (from_le buf))), c'))"

section \<open>Abstraction: the bytes not read yet\<close>

definition unread :: "cursor \<Rightarrow> bytes" where
  "unread c = drop (cpos c) (cdata c)"

lemma read_slice_eq:
  "read_slice n c =
     (if cpos c + n < u64_lim \<and> cpos c + n \<le> length (cdata c)
      then (Inr (take n (unread c)), c\<lparr>cpos := cpos c + n\<rparr>)
      else (Inl Corrupted, c))"
  by (auto simp: read_slice_def checked_add_def get_range_def unread_def)

lemma unread_length: "cpos c + n \<le> length (cdata c) \<Longrightarrow> n \<le> length (unread c)"
  by (simp add: unread_def)

lemma from_le_pad0 [simp]: "from_le (xs @ replicate k 0) = from_le xs"
  by (simp add: from_le_append)

lemma list_of_8:
  "length s = 8 \<Longrightarrow> [s ! 0, s ! 1, s ! 2, s ! 3, s ! 4, s ! 5, s ! 6, s ! 7] = s"
  by (auto simp: list_eq_iff_nth_eq nth_Cons less_Suc_eq numeral_eq_Suc split: nat.splits)

lemma list_of_3: "length s = 3 \<Longrightarrow> [s ! 0, s ! 1, s ! 2] = s"
  by (auto simp: list_eq_iff_nth_eq nth_Cons less_Suc_eq numeral_eq_Suc split: nat.splits)

lemma from_le_3_pad: "length s = 3 \<Longrightarrow> from_le [s ! 0, s ! 1, s ! 2, 0] = from_le s"
proof -
  assume "length s = 3"
  then have "[s ! 0, s ! 1, s ! 2, 0] = s @ replicate 1 0"
    using list_of_3[of s] by (metis append_Cons append_Nil replicate_0 replicate_Suc One_nat_def)
  then show ?thesis by (simp only: from_le_pad0)
qed

lemmas cursor_lists = as_list list_of_8 list_of_8[unfolded One_nat_def] from_le_3_pad from_le_3_pad[unfolded One_nat_def]

text \<open>Every fixed-width read is \<^verbatim>\<open>read_slice\<close> followed by a little-endian decode.\<close>

definition decode_slice :: "nat \<Rightarrow> cursor \<Rightarrow> nat res \<times> cursor" where
  "decode_slice n c = (case read_slice n c of (r, c') \<Rightarrow> (and_then r (\<lambda>s. Inr (from_le s)), c'))"

lemma read_slice_len: "read_slice n c = (Inr s, c') \<Longrightarrow> length s = n"
  by (auto simp: read_slice_eq unread_def split: if_splits)

lemma cursor_reads_decode:
  "cursor_read_u16_le c = decode_slice 2 c"
  "cursor_read_u24_le c = decode_slice 3 c"
  "cursor_read_u32_le c = decode_slice 4 c"
  "cursor_read_u64_le c = decode_slice 8 c"
  "width \<le> 8 \<Longrightarrow> cursor_read_uint_le width c = decode_slice width c"
proof -
  show "cursor_read_u16_le c = decode_slice 2 c"
    by (cases "read_slice 2 c"; cases "fst (read_slice 2 c)")
      (auto simp: cursor_read_u16_le_def decode_slice_def cursor_lists dest!: read_slice_len
        simp del: from_le.simps)
  show "cursor_read_u24_le c = decode_slice 3 c"
    by (cases "read_slice 3 c"; cases "fst (read_slice 3 c)")
      (auto simp: cursor_read_u24_le_def decode_slice_def cursor_lists dest!: read_slice_len
        simp del: from_le.simps)
  show "cursor_read_u32_le c = decode_slice 4 c"
    by (cases "read_slice 4 c"; cases "fst (read_slice 4 c)")
      (auto simp: cursor_read_u32_le_def decode_slice_def cursor_lists dest!: read_slice_len
        simp del: from_le.simps)
  show "cursor_read_u64_le c = decode_slice 8 c"
    by (cases "read_slice 8 c"; cases "fst (read_slice 8 c)")
      (auto simp: cursor_read_u64_le_def decode_slice_def cursor_lists dest!: read_slice_len
        simp del: from_le.simps)
  show "cursor_read_uint_le width c = decode_slice width c" if "width \<le> 8"
    using that
    by (cases "read_slice width c"; cases "fst (read_slice width c)")
      (auto simp: cursor_read_uint_le_def decode_slice_def put_range_def splice_def
        dest!: read_slice_len simp del: from_le.simps)
qed

section \<open>Reading in sequence\<close>

text \<open>Reading a list of widths one after the other, stopping at the first failure.\<close>

fun read_widths :: "nat list \<Rightarrow> cursor \<Rightarrow> nat list res \<times> cursor" where
  "read_widths [] c = (Inr [], c)"
| "read_widths (w # ws) c =
     (case cursor_read_uint_le w c of
        (Inl e, c') \<Rightarrow> (Inl e, c')
      | (Inr v, c') \<Rightarrow>
         (case read_widths ws c' of
            (Inl e, c'') \<Rightarrow> (Inl e, c'')
          | (Inr vs, c'') \<Rightarrow> (Inr (v # vs), c'')))"

lemma decode_slice_eq:
  "decode_slice n c =
     (if cpos c + n < u64_lim \<and> cpos c + n \<le> length (cdata c)
      then (Inr (from_le (take n (unread c))), c\<lparr>cpos := cpos c + n\<rparr>)
      else (Inl Corrupted, c))"
  by (simp add: decode_slice_def read_slice_eq)

lemma decode_slice_succeeds:
  "cpos c + n \<le> length (cdata c) \<Longrightarrow> length (cdata c) < u64_lim \<Longrightarrow>
   decode_slice n c = (Inr (from_le (take n (unread c))), c\<lparr>cpos := cpos c + n\<rparr>)"
  by (simp add: decode_slice_eq)

lemma unread_advance [simp]: "unread (c\<lparr>cpos := cpos c + n\<rparr>) = drop n (unread c)"
  by (simp add: unread_def add.commute)

lemma cursor_read_u8_cases:
  "cursor_read_u8 c =
     (if cpos c < length (cdata c)
      then (if cpos c + 1 < u64_lim then (Inr (cdata c ! cpos c), c\<lparr>cpos := cpos c + 1\<rparr>)
            else (Inl Panic, c))
      else (Inl Corrupted, c))"
  by (auto simp: cursor_read_u8_def get_elem_def uadd_def)

text \<open>
  Reading a record of fields in sequence decodes the bytes of the slice in order: when the
  fields fit in what is left, every read succeeds, the values are exactly the little-endian
  encodings found there, and the cursor stands right behind the last field.
\<close>

theorem cursor_reads_encoded_fields:
  assumes "list_all (\<lambda>(w, v). w \<le> 8 \<and> v < 256 ^ w) fs"
    and "unread c = concat (map (\<lambda>(w, v). to_le w v) fs) @ rest"
    and "length (cdata c) < u64_lim" and "cpos c \<le> length (cdata c)"
  shows "read_widths (map fst fs) c =
           (Inr (map snd fs), c\<lparr>cpos := length (cdata c) - length rest\<rparr>)"
  using assms
proof (induction fs arbitrary: c)
  case Nil
  then have "length (cdata c) - cpos c = length rest" by (simp add: unread_def flip: length_drop)
  with Nil show ?case by simp
next
  case (Cons f fs)
  obtain w v where f: "f = (w, v)" by (cases f)
  let ?tail = "concat (map (\<lambda>(w, v). to_le w v) fs) @ rest"
  have w: "w \<le> 8" and v: "v < 256 ^ w" and u: "unread c = to_le w v @ ?tail"
    using Cons.prems(1,2) f by auto
  have fits: "cpos c + w \<le> length (cdata c)"
    using arg_cong[OF u, of length] Cons.prems(4) by (simp add: unread_def)
  define c' where "c' = c\<lparr>cpos := cpos c + w\<rparr>"
  have "cursor_read_uint_le w c = (Inr v, c')"
    using decode_slice_succeeds[OF fits Cons.prems(3)] u w
    by (simp add: cursor_reads_decode c'_def from_le_to_le[OF v])
  moreover have "read_widths (map fst fs) c' =
      (Inr (map snd fs), c'\<lparr>cpos := length (cdata c') - length rest\<rparr>)"
    using Cons.prems(1,3) fits u f by (intro Cons.IH) (simp_all add: c'_def)
  ultimately show ?case using f by (simp add: c'_def)
qed

theorem cursor_reads_encoded_fields_witness:
  "read_widths [1, 2, 4] \<lparr>cdata = [9, 7, 52, 18, 1, 0, 0, 0, 5], cpos = 1\<rparr> =
     (Inr [7, 4660, 1], \<lparr>cdata = [9, 7, 52, 18, 1, 0, 0, 0, 5], cpos = 8\<rparr>)"
  using cursor_reads_encoded_fields
    [of "[(1, 7), (2, 4660), (4, 1)]" "\<lparr>cdata = [9, 7, 52, 18, 1, 0, 0, 0, 5], cpos = 1\<rparr>" "[5]"]
  by (simp add: unread_def le_eval)

text \<open>
  A read that fails reports corruption, never a panic, and leaves the cursor where it was;
  this holds of every read of the reader on a slice that fits the address space. The one
  exception is a field wider than the eight-byte buffer of \<^verbatim>\<open>read_uint_le\<close>.
\<close>

theorem cursor_failed_read_is_harmless:
  assumes "length (cdata c) < u64_lim"
  shows "(fst (cursor_read_u8 c) = Inl e \<longrightarrow> e = Corrupted \<and> snd (cursor_read_u8 c) = c)
       \<and> (fst (read_slice n c) = Inl e \<longrightarrow> e = Corrupted \<and> snd (read_slice n c) = c)
       \<and> (fst (skip n c) = Inl e \<longrightarrow> e = Corrupted \<and> snd (skip n c) = c)
       \<and> (fst (cursor_read_u16_le c) = Inl e \<longrightarrow> e = Corrupted \<and> snd (cursor_read_u16_le c) = c)
       \<and> (fst (cursor_read_u24_le c) = Inl e \<longrightarrow> e = Corrupted \<and> snd (cursor_read_u24_le c) = c)
       \<and> (fst (cursor_read_u32_le c) = Inl e \<longrightarrow> e = Corrupted \<and> snd (cursor_read_u32_le c) = c)
       \<and> (fst (cursor_read_u64_le c) = Inl e \<longrightarrow> e = Corrupted \<and> snd (cursor_read_u64_le c) = c)
       \<and> (n \<le> 8 \<longrightarrow> fst (cursor_read_uint_le n c) = Inl e \<longrightarrow>
            e = Corrupted \<and> snd (cursor_read_uint_le n c) = c)"
proof -
  have decode: "fst (decode_slice k c) = Inl e \<longrightarrow> e = Corrupted \<and> snd (decode_slice k c) = c" for k
    by (simp add: decode_slice_eq)
  have "fst (read_slice n c) = Inl e \<longrightarrow> e = Corrupted \<and> snd (read_slice n c) = c"
    by (simp add: read_slice_eq)
  with decode assms show ?thesis
    by (auto simp: cursor_reads_decode cursor_read_u8_cases skip_def checked_add_def
        split: option.splits if_splits)
qed

theorem cursor_failed_read_is_harmless_witness:
  "cursor_read_u32_le \<lparr>cdata = [1, 2], cpos = 1\<rparr> = (Inl Corrupted, \<lparr>cdata = [1, 2], cpos = 1\<rparr>)"
proof -
  have "fst (cursor_read_u32_le \<lparr>cdata = [1, 2], cpos = 1\<rparr>) = Inl Corrupted"
    by (simp add: cursor_read_u32_le_def read_slice_def checked_add_def get_range_def)
  moreover from this have "snd (cursor_read_u32_le \<lparr>cdata = [1, 2], cpos = 1\<rparr>) = \<lparr>cdata = [1, 2], cpos = 1\<rparr>"
    using cursor_failed_read_is_harmless[of "\<lparr>cdata = [1, 2], cpos = 1\<rparr>" Corrupted] by simp
  ultimately show ?thesis by (metis prod.collapse)
qed

end
