(* ===== verification/Group_BTree.thy ===== *)
theory Group_BTree
  imports Byte_Fields
begin

text \<open>
  \<^verbatim>\<open>oxih5-format/src/btree.rs\<close>: the version-1 B-tree of an old-style group. The reader walks
  the tree from its root and collects the addresses of the symbol table nodes below it; a
  depth counter bounds the recursion. The tree a file holds is stated as the inductive
  predicate \<open>tree_at\<close>, against which the walk is proved correct.
\<close>

abbreviation UNDEFINED_ADDR :: nat where
  "UNDEFINED_ADDR \<equiv> u64_max"

definition sig_TREE :: bytes where
  "sig_TREE = [0x54, 0x52, 0x45, 0x45]"

function collect_leaves :: "bytes \<Rightarrow> nat \<Rightarrow> nat list \<Rightarrow> nat \<Rightarrow> nat list res" where
  "collect_leaves file_data node_address leaves depth =
     (if depth > 64 then Inl Format
      else if node_address = UNDEFINED_ADDR then Inr leaves
      else
        and_then (uadd node_address 24) (\<lambda>header_end.
          if header_end > length file_data then Inl Format
          else
            and_then (slice file_data node_address (node_address + 4)) (\<lambda>sig.
              if sig \<noteq> sig_TREE then Inl Format
              else
                and_then (index file_data (node_address + 4)) (\<lambda>node_type.
                  if node_type \<noteq> 0 then Inl Format
                  else
                    and_then (index file_data (node_address + 5)) (\<lambda>level.
                    and_then (read_u16_le file_data (node_address + 6)) (\<lambda>entries_used.
                      fold_res (\<lambda>i leaves.
                        and_then (uadd (node_address + 24) (8 + i * 16)) (\<lambda>child_field_offset.
                        and_then (uadd child_field_offset 8) (\<lambda>child_end.
                          if child_end > length file_data then Inl Format
                          else
                            and_then (read_u64_le file_data child_field_offset) (\<lambda>child_addr.
                              if level = 0 then
                                (if child_addr \<noteq> UNDEFINED_ADDR then Inr (leaves @ [child_addr])
                                 else Inr leaves)
                              else collect_leaves file_data child_addr leaves (depth + 1)))))
                        [0..<entries_used] leaves))))))"
  by pat_completeness auto
termination
  by (relation "measure (\<lambda>(file_data, node_address, leaves, depth). 65 - depth)") auto

declare collect_leaves.simps [simp del]

definition btree_parse :: "bytes \<Rightarrow> nat \<Rightarrow> nat list res" where
  "btree_parse file_data btree_address = collect_leaves file_data btree_address [] 0"

section \<open>One node\<close>

text \<open>The header and child slots of a node, read as the file stores them.\<close>

definition node_header :: "bytes \<Rightarrow> nat \<Rightarrow> byte \<Rightarrow> nat \<Rightarrow> bool" where
  "node_header d a level n \<longleftrightarrow>
     a < UNDEFINED_ADDR \<and> a + 24 + 16 * n + 8 \<le> length d \<and> take 4 (drop a d) = sig_TREE
     \<and> d ! (a + 4) = 0 \<and> d ! (a + 5) = level \<and> field 2 d (a + 6) = n"

definition child_at :: "bytes \<Rightarrow> nat \<Rightarrow> nat \<Rightarrow> nat" where
  "child_at d a i = field 8 d (a + 24 + (8 + i * 16))"

text \<open>A well-formed node of a file: its children in order, visited one after the other.\<close>

definition visit_child :: "bytes \<Rightarrow> byte \<Rightarrow> nat \<Rightarrow> nat \<Rightarrow> nat list \<Rightarrow> nat list res" where
  "visit_child d level depth child leaves =
     (if level = 0 then Inr (if child \<noteq> UNDEFINED_ADDR then leaves @ [child] else leaves)
      else collect_leaves d child leaves (depth + 1))"

lemma collect_leaves_node:
  assumes "node_header d a level n" and "length d < u64_lim" and "depth \<le> 64"
  shows "collect_leaves d a leaves depth =
           fold_res (visit_child d level depth) (map (child_at d a) [0..<n]) leaves"
proof -
  have body: "fold_res (\<lambda>i leaves.
        and_then (uadd (a + 24) (8 + i * 16)) (\<lambda>child_field_offset.
        and_then (uadd child_field_offset 8) (\<lambda>child_end.
          if child_end > length d then Inl Format
          else
            and_then (read_u64_le d child_field_offset) (\<lambda>child_addr.
              if level = 0 then
                (if child_addr \<noteq> UNDEFINED_ADDR then Inr (leaves @ [child_addr]) else Inr leaves)
              else collect_leaves d child_addr leaves (depth + 1))))) [0..<n] leaves
     = fold_res (\<lambda>i. visit_child d level depth (child_at d a i)) [0..<n] leaves"
  proof (rule fold_res_cong)
    fix i leaves assume "i \<in> set [0..<n]"
    then have "i * 16 + 16 \<le> 16 * n" by auto
    moreover have "a + 24 + 16 * n + 8 \<le> length d" using assms(1) by (simp add: node_header_def)
    ultimately have "a + 24 + (8 + i * 16) + 8 \<le> length d" by linarith
    with assms(2) show "and_then (uadd (a + 24) (8 + i * 16)) (\<lambda>child_field_offset.
        and_then (uadd child_field_offset 8) (\<lambda>child_end.
          if child_end > length d then Inl Format
          else
            and_then (read_u64_le d child_field_offset) (\<lambda>child_addr.
              if level = 0 then
                (if child_addr \<noteq> UNDEFINED_ADDR then Inr (leaves @ [child_addr]) else Inr leaves)
              else collect_leaves d child_addr leaves (depth + 1))))
      = visit_child d level depth (child_at d a i) leaves"
      by (simp add: visit_child_def child_at_def read_u64_le_eq)
  qed simp_all
  from assms show ?thesis
    by (subst collect_leaves.simps)
      (simp add: node_header_def slice_def get_range_def index_def get_elem_def read_u16_le_eq
        body[symmetric] fold_res_map)
qed

section \<open>The tree in the file\<close>

text \<open>
  \<open>tree_at d h a ls\<close>: at address \<open>a\<close> of the file \<open>d\<close> stands a group B-tree of height \<open>h\<close>
  whose symbol table node addresses, left to right, are \<open>ls\<close>.
\<close>

inductive tree_at :: "bytes \<Rightarrow> nat \<Rightarrow> nat \<Rightarrow> nat list \<Rightarrow> bool" where
  leaf: "node_header d a 0 n \<Longrightarrow> ls = map (child_at d a) [0..<n] \<Longrightarrow>
     (\<And>l. l \<in> set ls \<Longrightarrow> l \<noteq> UNDEFINED_ADDR) \<Longrightarrow> tree_at d 0 a ls"
| node: "node_header d a (of_nat (Suc h)) n \<Longrightarrow> of_nat (Suc h) \<noteq> (0 :: byte) \<Longrightarrow>
     list_all2 (tree_at d h) (map (child_at d a) [0..<n]) lss \<Longrightarrow>
     tree_at d (Suc h) a (concat lss)"

inductive_simps tree_at_0_iff: "tree_at d 0 a ls"
inductive_cases tree_at_SucE: "tree_at d (Suc h) a ls"

lemma fold_leaf_children:
  "(\<And>l. l \<in> set cs \<Longrightarrow> l \<noteq> UNDEFINED_ADDR) \<Longrightarrow>
   fold_res (visit_child d 0 depth) cs leaves = Inr (leaves @ cs)"
  by (induction cs arbitrary: leaves) (auto simp: visit_child_def)

lemma collect_leaves_tree_at:
  assumes "tree_at d h a ls" and "length d < u64_lim" and "depth + h \<le> 64"
  shows "collect_leaves d a leaves depth = Inr (leaves @ ls)"
  using assms
proof (induction h arbitrary: a ls leaves depth)
  case 0
  from 0(1) obtain n where hd: "node_header d a 0 n" and ls: "ls = map (child_at d a) [0..<n]"
    and def: "\<forall>l\<in>set ls. l \<noteq> UNDEFINED_ADDR"
    unfolding tree_at_0_iff by metis
  have "fold_res (visit_child d 0 depth) ls leaves = Inr (leaves @ ls)"
    using def by (simp add: fold_leaf_children)
  with collect_leaves_node[OF hd 0(2), of depth leaves] 0(3) ls show ?case
    by (simp only:)
next
  case (Suc h)
  from Suc.prems(1) obtain n lss where hd: "node_header d a (of_nat (Suc h)) n"
    and nz: "of_nat (Suc h) \<noteq> (0 :: byte)"
    and ch: "list_all2 (tree_at d h) (map (child_at d a) [0..<n]) lss" and ls: "ls = concat lss"
    by (rule tree_at_SucE) simp
  have "fold_res (visit_child d (of_nat (Suc h)) depth) cs leaves = Inr (leaves @ concat lss)"
    if "list_all2 (tree_at d h) cs lss" for cs lss leaves
    using that
  proof (induction cs lss arbitrary: leaves rule: list_all2_induct)
    case (Cons c cs l ls)
    then show ?case
      using Suc.IH[of c l "depth + 1" leaves] Suc.prems(2,3) nz by (simp add: visit_child_def)
  qed simp
  from this[OF ch] show ?case
    using collect_leaves_node[OF hd Suc.prems(2)] Suc.prems(3) ls by simp
qed

section \<open>Properties\<close>

text \<open>
  C26. Refinement: on a file that holds a group B-tree of height at most 64 at the given
  address, the walk returns exactly the symbol table node addresses of that tree, in order.
\<close>

theorem btree_parse_correct:
  assumes "tree_at file_data h root ls" and "h \<le> 64" and "length file_data < u64_lim"
  shows "btree_parse file_data root = Inr ls"
  using collect_leaves_tree_at[OF assms(1,3), of 0 "[]"] assms(2) by (simp add: btree_parse_def)

definition tiny_tree :: bytes where
  "tiny_tree = sig_TREE @ [0, 0] @ to_le 2 2 @ to_le 8 u64_max @ to_le 8 u64_max
     @ to_le 8 0 @ to_le 8 100 @ to_le 8 8 @ to_le 8 200 @ to_le 8 16"

theorem btree_parse_correct_witness: "btree_parse tiny_tree 0 = Inr [100, 200]"
proof -
  have "node_header tiny_tree 0 0 2"
    by (simp add: node_header_def tiny_tree_def sig_TREE_def field_def le_eval)
  moreover have "[100, 200] = map (child_at tiny_tree 0) [0..<2]"
    by (simp add: child_at_def tiny_tree_def sig_TREE_def field_def le_eval upt_rec)
  ultimately have "tree_at tiny_tree 0 0 [100, 200]"
    by (rule tree_at.leaf) auto
  then show ?thesis
    by (rule btree_parse_correct) (simp_all add: tiny_tree_def sig_TREE_def)
qed

text \<open>
  The walk terminates for every file, cyclic ones included: the recursion depth is bounded by
  the counter. A node whose address lies within 24 bytes of the end of the address space is
  the one way to make it panic: the header bound is formed with a plain addition.
\<close>

text \<open>
  A crafted node address makes the group B-tree walk panic instead of returning an error:
  the sum \<^verbatim>\<open>off + 24\<close> overflows.
\<close>

theorem btree_parse_panics_near_address_limit:
  assumes "u64_lim - 24 \<le> node_address" and "node_address < UNDEFINED_ADDR"
  shows "btree_parse file_data node_address = Inl Panic"
  using assms by (subst btree_parse_def, subst collect_leaves.simps) (simp add: uadd_def)

theorem btree_parse_panics_near_address_limit_witness:
  "btree_parse [] 18446744073709551600 = Inl Panic"
  by (rule btree_parse_panics_near_address_limit) simp_all

text \<open>No other input panics: it is enough that no eight bytes of the file spell such an address.\<close>

definition safe_address :: "nat \<Rightarrow> bool" where
  "safe_address a \<longleftrightarrow> a + 24 < u64_lim \<or> a = UNDEFINED_ADDR"

lemma collect_leaves_no_panic:
  assumes "\<And>p. safe_address (field 8 d p)" and "length d + 65536 * 16 + 64 < u64_lim"
    and "safe_address a"
  shows "no_panic (collect_leaves d a leaves depth)"
  using assms
proof (induction d a leaves depth rule: collect_leaves.induct)
  case (1 d a leaves depth)
  show ?case
  proof (cases "depth > 64 \<or> a = UNDEFINED_ADDR")
    case False
    with "1.prems"(3) have a: "a + 24 < u64_lim" by (simp add: safe_address_def)
    have "no_panic (fold_res (\<lambda>i leaves.
        and_then (uadd (a + 24) (8 + i * 16)) (\<lambda>child_field_offset.
        and_then (uadd child_field_offset 8) (\<lambda>child_end.
          if child_end > length d then Inl Format
          else
            and_then (read_u64_le d child_field_offset) (\<lambda>child_addr.
              if level = 0 then
                (if child_addr \<noteq> UNDEFINED_ADDR then Inr (leaves @ [child_addr]) else Inr leaves)
              else collect_leaves d child_addr leaves (depth + 1))))) [0..<n] leaves)"
      if hdr: "a + 24 \<le> length d" "take 4 (drop a d) = sig_TREE" "d ! (a + 4) = 0"
        and level: "level = d ! (a + 5)" and n: "n = field 2 d (a + 6)" for level n
    proof (rule fold_res_no_panic[where P = "\<lambda>_. True"])
      fix i and s :: "nat list" assume i: "i \<in> set [0..<n]"
      then have "i < field 2 d (a + 6)" using n by simp
      then have "i < 65536" using field_2_less[of d "a + 6"] by linarith
      then have b: "a + 24 + (8 + i * 16) + 8 < u64_lim" using hdr(1) "1.prems"(2) by linarith
      show "no_panic (and_then (uadd (a + 24) (8 + i * 16)) (\<lambda>child_field_offset.
        and_then (uadd child_field_offset 8) (\<lambda>child_end.
          if child_end > length d then Inl Format
          else
            and_then (read_u64_le d child_field_offset) (\<lambda>child_addr.
              if level = 0 then
                (if child_addr \<noteq> UNDEFINED_ADDR then Inr (s @ [child_addr]) else Inr s)
              else collect_leaves d child_addr s (depth + 1)))))"
      proof (cases "a + 24 + (8 + i * 16) + 8 > length d \<or> level = 0")
        case True
        then show ?thesis using b by (auto intro!: no_panic_and_then)
      next
        case deep: False
        have "no_panic (collect_leaves d (field 8 d (a + 24 + (8 + i * 16))) s (depth + 1))"
          by (rule "1.IH"[of "a + 24" "take 4 (drop a d)" 0 level n i "a + 24 + (8 + i * 16)"
                "a + 24 + (8 + i * 16) + 8"])
            (use False a b hdr level n i deep "1.prems" in
              \<open>auto simp: slice_Inr_iff index_Inr_iff\<close>)
        then show ?thesis using b deep by (auto intro!: no_panic_and_then)
      qed
    qed simp
    with False a show ?thesis
      by (subst collect_leaves.simps)
        (auto simp: slice_Inr_iff index_Inr_iff intro!: no_panic_and_then)
  qed (auto simp: collect_leaves.simps)
qed

text \<open>
  On every other file the walk ends with a list of addresses or a typed error: if no eight
  consecutive bytes of the file form an address in the last 24 bytes below the undefined
  address, and the file leaves room for one node at the end of the address space, no panic is
  possible, whatever the tree looks like.
\<close>

theorem btree_parse_no_panic:
  assumes "\<And>p. safe_address (field 8 file_data p)" and "safe_address root"
    and "length file_data + 65536 * 16 + 64 < u64_lim"
  shows "btree_parse file_data root \<noteq> Inl Panic"
  using collect_leaves_no_panic[OF assms(1,3,2)] by (simp add: btree_parse_def no_panic_def)

theorem btree_parse_no_panic_witness: "btree_parse [1, 2, 3] 2 \<noteq> Inl Panic"
proof (rule btree_parse_no_panic)
  fix p
  have "length (take 8 (drop p [1, 2, 3 :: byte])) \<le> 3" by simp
  then have "(256::nat) ^ length (take 8 (drop p [1, 2, 3 :: byte])) \<le> 256 ^ 3"
    by (rule power_increasing) simp
  with from_le_less[of "take 8 (drop p [1, 2, 3])"] have "field 8 [1, 2, 3] p < 256 ^ 3"
    unfolding field_def by linarith
  then show "safe_address (field 8 [1, 2, 3] p)" by (simp add: safe_address_def)
qed (simp_all add: safe_address_def)

end
