(* ===== verification/Snod.thy ===== *)
theory Snod
  imports Byte_Fields
begin

text \<open>
  \<^verbatim>\<open>oxih5-format/src/snod.rs\<close>: symbol table nodes, the leaves of an old-style group's
  B-tree. Each 40-byte entry names an object and carries a scratch pad whose meaning depends
  on the entry's cache type.
\<close>

datatype sym_tab_cache =
    CacheNone
  | CacheGroup nat nat
  | CacheSoftLink nat
  | CacheUnknown nat

record sym_tab_entry =
  name_offset :: nat
  object_header_address :: nat
  cache :: sym_tab_cache

definition sig_SNOD :: bytes where
  "sig_SNOD = [0x53, 0x4e, 0x4f, 0x44]"

definition soft_link_value_offset :: "sym_tab_entry \<Rightarrow> nat option" where
  "soft_link_value_offset e =
     (case cache e of CacheSoftLink link_value_offset \<Rightarrow> Some link_value_offset | _ \<Rightarrow> None)"

definition is_soft_cache :: "sym_tab_cache \<Rightarrow> bool" where
  "is_soft_cache c = (case c of CacheSoftLink _ \<Rightarrow> True | _ \<Rightarrow> False)"

definition has_object_header :: "sym_tab_entry \<Rightarrow> bool" where
  "has_object_header e \<longleftrightarrow> object_header_address e \<noteq> u64_max \<and> \<not> is_soft_cache (cache e)"

text \<open>The decoding of one entry's cache type and scratch pad, the loop body's \<^verbatim>\<open>match\<close>.\<close>

definition parse_cache :: "bytes \<Rightarrow> nat \<Rightarrow> nat \<Rightarrow> sym_tab_cache res" where
  "parse_cache file_data e cache_type =
     (if cache_type = 0 then Inr CacheNone
      else if cache_type = 1 then
        and_then (read_u64_le file_data (e + 24)) (\<lambda>btree_address.
        and_then (read_u64_le file_data (e + 32)) (\<lambda>heap_address.
          Inr (CacheGroup btree_address heap_address)))
      else if cache_type = 2 then
        and_then (read_u32_le file_data (e + 24)) (\<lambda>v. Inr (CacheSoftLink v))
      else Inr (CacheUnknown cache_type))"

definition parse_entry :: "bytes \<Rightarrow> nat \<Rightarrow> sym_tab_entry res" where
  "parse_entry file_data e =
     and_then (read_u64_le file_data e) (\<lambda>nm.
     and_then (read_u64_le file_data (e + 8)) (\<lambda>oh.
     and_then (read_u32_le file_data (e + 16)) (\<lambda>cache_type.
     and_then (parse_cache file_data e cache_type) (\<lambda>c.
       Inr \<lparr>name_offset = nm, object_header_address = oh, cache = c\<rparr>))))"

definition snod_parse :: "bytes \<Rightarrow> nat \<Rightarrow> sym_tab_entry list res" where
  "snod_parse file_data snod_address =
     and_then (ok_or (usize_try_from snod_address) Corrupted) (\<lambda>off.
     and_then (ok_or (checked_add off 8) Corrupted) (\<lambda>off8.
       if off8 > length file_data then Inl Format
       else
         and_then (slice file_data off (off + 4)) (\<lambda>sig.
           if sig \<noteq> sig_SNOD then Inl Format
           else
             and_then (index file_data (off + 4)) (\<lambda>version.
               if version \<noteq> 1 then Inl Format
               else
                 and_then (read_u16_le file_data (off + 6)) (\<lambda>num_symbols.
                 and_then (ok_or (Option.bind (checked_mul num_symbols 40) (checked_add off8)) Corrupted)
                   (\<lambda>required_end.
                     if required_end > length file_data then Inl Format
                     else
                       map_res (\<lambda>i. parse_entry file_data (off8 + i * 40)) [0..<num_symbols]))))))"

section \<open>What the parser returns\<close>

definition cache_at :: "bytes \<Rightarrow> nat \<Rightarrow> sym_tab_cache" where
  "cache_at d e =
     (let t = field 4 d (e + 16) in
      if t = 0 then CacheNone
      else if t = 1 then CacheGroup (field 8 d (e + 24)) (field 8 d (e + 32))
      else if t = 2 then CacheSoftLink (field 4 d (e + 24))
      else CacheUnknown t)"

definition entry_at :: "bytes \<Rightarrow> nat \<Rightarrow> sym_tab_entry" where
  "entry_at d e =
     \<lparr>name_offset = field 8 d e, object_header_address = field 8 d (e + 8), cache = cache_at d e\<rparr>"

lemma parse_entry_in_bounds:
  "e + 40 \<le> length d \<Longrightarrow> length d < u64_lim \<Longrightarrow> parse_entry d e = Inr (entry_at d e)"
  by (simp add: parse_entry_def parse_cache_def entry_at_def cache_at_def read_u64_le_eq
      read_u32_le_eq Let_def)

text \<open>The shape of a node as the parser accepts it.\<close>

definition snod_ok :: "bytes \<Rightarrow> nat \<Rightarrow> nat \<Rightarrow> bool" where
  "snod_ok d a n \<longleftrightarrow>
     a + 8 + n * 40 \<le> length d \<and> take 4 (drop a d) = sig_SNOD \<and> d ! (a + 4) = 1
     \<and> field 2 d (a + 6) = n"

lemma snod_parse_ok:
  assumes "snod_ok d a n" and "length d < u64_lim"
  shows "snod_parse d a = Inr (map (\<lambda>i. entry_at d (a + 8 + i * 40)) [0..<n])"
proof -
  from assms have b: "a + 8 + n * 40 \<le> length d" "length d < u64_lim"
    by (auto simp: snod_ok_def)
  have n: "n < 65536" using assms(1) field_2_less[of d "a + 6"] by (simp add: snod_ok_def)
  have "map_res (\<lambda>i. parse_entry d (a + 8 + i * 40)) [0..<n]
      = Inr (map (\<lambda>i. entry_at d (a + 8 + i * 40)) [0..<n])"
  proof (rule map_res_total)
    fix i assume "i \<in> set [0..<n]"
    then have "Suc i \<le> n" by simp
    then have "Suc i * 40 \<le> n * 40" by (rule mult_le_mono1)
    with b have "a + 8 + i * 40 + 40 \<le> length d" by simp
    with b(2) show "parse_entry d (a + 8 + i * 40) = Inr (entry_at d (a + 8 + i * 40))"
      by (intro parse_entry_in_bounds)
  qed
  with assms b n show ?thesis
    by (simp add: snod_parse_def snod_ok_def slice_def get_range_def index_def get_elem_def
        read_u16_le_eq)
qed

lemma snod_parse_InrD:
  assumes "snod_parse d a = Inr es"
  shows "snod_ok d a (length es) \<and> length es < 65536"
  using assms
  by (auto simp: snod_parse_def snod_ok_def slice_Inr_iff index_Inr_iff bind_eq_Some_conv
      split: if_splits dest!: map_res_length)

lemma snod_parse_no_panic:
  assumes "length d < u64_lim"
  shows "no_panic (snod_parse d a)"
proof (cases "\<exists>n. snod_ok d a n")
  case True
  then show ?thesis using snod_parse_ok[OF _ assms] by fastforce
next
  case False
  then have "snod_parse d a \<noteq> Inr es" for es
    using snod_parse_InrD by blast
  moreover have "no_panic (map_res (\<lambda>i. parse_entry d (a + 8 + i * 40)) [0..<n])"
    if "a + 8 + n * 40 \<le> length d" for n
    using that assms by (intro map_res_no_panic) (simp add: parse_entry_in_bounds)
  ultimately show ?thesis
    by (auto simp: snod_parse_def slice_Inr_iff index_Inr_iff bind_eq_Some_conv bind_eq_None_conv
        intro!: no_panic_and_then)
qed

section \<open>Properties\<close>

text \<open>
  A symbol table node parses exactly when its signature, version and size check out, and
  then each of its entries is the record laid out at its 40-byte slot; a malformed node is a
  typed error and never a panic.
\<close>

theorem snod_parse_correct:
  assumes "length file_data < u64_lim"
  shows "(snod_parse file_data a = Inr es \<longleftrightarrow>
           (\<exists>n. snod_ok file_data a n \<and> es = map (\<lambda>i. entry_at file_data (a + 8 + i * 40)) [0..<n]))
       \<and> snod_parse file_data a \<noteq> Inl Panic"
proof -
  have "snod_parse file_data a = Inr es \<longleftrightarrow>
      (\<exists>n. snod_ok file_data a n \<and> es = map (\<lambda>i. entry_at file_data (a + 8 + i * 40)) [0..<n])"
    using snod_parse_ok[OF _ assms] snod_parse_InrD by (metis sum.inject(2))
  with snod_parse_no_panic[OF assms] show ?thesis by (simp add: no_panic_def)
qed

definition tiny_snod :: bytes where
  "tiny_snod = sig_SNOD @ [1, 0] @ to_le 2 1 @ to_le 8 16 @ to_le 8 u64_max @ to_le 4 2 @ to_le 4 0
     @ to_le 4 32 @ replicate 12 0"

theorem snod_parse_correct_witness:
  "snod_parse tiny_snod 0 =
     Inr [\<lparr>name_offset = 16, object_header_address = u64_max, cache = CacheSoftLink 32\<rparr>]"
proof -
  have "snod_ok tiny_snod 0 1"
    by (simp add: snod_ok_def tiny_snod_def sig_SNOD_def field_def le_eval)
  moreover have "[\<lparr>name_offset = 16, object_header_address = u64_max, cache = CacheSoftLink 32\<rparr>]
      = map (\<lambda>i. entry_at tiny_snod (0 + 8 + i * 40)) [0..<1]"
    by (simp add: entry_at_def cache_at_def tiny_snod_def sig_SNOD_def field_def le_eval)
  ultimately show ?thesis
    using snod_parse_correct[of tiny_snod 0
        "[\<lparr>name_offset = 16, object_header_address = u64_max, cache = CacheSoftLink 32\<rparr>]"]
    by (auto simp: tiny_snod_def sig_SNOD_def)
qed

lemma has_object_header_iff:
  "has_object_header e \<longleftrightarrow> object_header_address e \<noteq> u64_max \<and> soft_link_value_offset e = None"
  by (auto simp: has_object_header_def is_soft_cache_def soft_link_value_offset_def
      split: sym_tab_cache.splits)

end
