(* ===== verification/Local_Heap.thy ===== *)
theory Local_Heap
  imports Byte_Fields
begin

text \<open>
  \<^verbatim>\<open>oxih5-format/src/heap.rs\<close>: the local heap of an old-style group, a header that points at
  a data segment of NUL-terminated names. The parsed heap borrows the segment from the file; a
  borrow is the byte list it denotes.
\<close>

record local_heap =
  heap_data :: bytes

definition sig_HEAP :: bytes where
  "sig_HEAP = [0x48, 0x45, 0x41, 0x50]"

definition name_at :: "local_heap \<Rightarrow> nat \<Rightarrow> str res" where
  "name_at h offset =
     (if offset \<ge> length (heap_data h) then Inl Format
      else
        and_then (slice (heap_data h) offset (length (heap_data h))) (\<lambda>tail.
        and_then (ok_or (position (\<lambda>b. b = 0) tail) Format) (\<lambda>nul_pos.
        and_then (uadd offset nul_pos) (\<lambda>e.
        and_then (slice (heap_data h) offset e) (\<lambda>nm. from_utf8 nm)))))"

definition heap_parse :: "bytes \<Rightarrow> nat \<Rightarrow> local_heap res" where
  "heap_parse file_data heap_address =
     and_then (ok_or (usize_try_from heap_address) Corrupted) (\<lambda>off.
     and_then (ok_or (checked_add off 32) Corrupted) (\<lambda>off32.
       if off32 > length file_data then Inl Format
       else
         and_then (slice file_data off (off + 4)) (\<lambda>sig.
           if sig \<noteq> sig_HEAP then Inl Format
           else
             and_then (index file_data (off + 4)) (\<lambda>version.
               if version \<noteq> 0 then Inl Format
               else
                 and_then (read_u64_le file_data (off + 8)) (\<lambda>size_raw.
                 and_then (ok_or (usize_try_from size_raw) Corrupted) (\<lambda>data_segment_size.
                 and_then (read_u64_le file_data (off + 24)) (\<lambda>addr_raw.
                 and_then (ok_or (usize_try_from addr_raw) Corrupted) (\<lambda>data_segment_address.
                 and_then (ok_or (checked_add data_segment_address data_segment_size) Corrupted)
                   (\<lambda>data_segment_end.
                     if data_segment_end > length file_data then Inl Format
                     else
                       and_then (slice file_data data_segment_address data_segment_end)
                         (\<lambda>d. Inr \<lparr>heap_data = d\<rparr>))))))))))"

section \<open>Properties\<close>

lemma name_at_Inr_iff:
  assumes "length (heap_data h) < u64_lim"
  shows "name_at h offset = Inr s \<longleftrightarrow>
    (\<exists>rest. drop offset (heap_data h) = s @ 0 # rest \<and> 0 \<notin> set s \<and> valid_utf8 s)"
proof
  assume "name_at h offset = Inr s"
  then obtain k where k: "position (\<lambda>b. b = 0) (drop offset (heap_data h)) = Some k"
    and len: "offset < length (heap_data h)"
    and s: "s = take k (drop offset (heap_data h))" "valid_utf8 s"
    by (auto simp: name_at_def slice_Inr_iff split: if_splits)
  let ?t = "drop offset (heap_data h)"
  have "?t = s @ 0 # drop (Suc k) ?t" "0 \<notin> set s"
    using position_split[OF k] s(1) by metis+
  with s(2) show "\<exists>rest. ?t = s @ 0 # rest \<and> 0 \<notin> set s \<and> valid_utf8 s" by blast
next
  assume "\<exists>rest. drop offset (heap_data h) = s @ 0 # rest \<and> 0 \<notin> set s \<and> valid_utf8 s"
  then obtain rest where t: "drop offset (heap_data h) = s @ 0 # rest" "0 \<notin> set s" "valid_utf8 s"
    by blast
  have len: "offset < length (heap_data h)"
    using arg_cong[OF t(1), of length] by simp
  have ls: "offset + length s \<le> length (heap_data h)"
    using arg_cong[OF t(1), of length] by simp
  have "position (\<lambda>b. b = 0) (s @ 0 # rest) = Some (length s)"
    using t(2) by (auto simp: position_Some_iff nth_append in_set_conv_nth)
  moreover have "slice (heap_data h) offset (length (heap_data h)) = Inr (s @ 0 # rest)"
    using len by (simp add: slice_Inr_iff t(1)[symmetric])
  moreover have "slice (heap_data h) offset (offset + length s) = Inr s"
    using ls by (simp add: slice_Inr_iff t(1))
  moreover have "uadd offset (length s) = Inr (offset + length s)"
    using ls assms by simp
  ultimately show "name_at h offset = Inr s"
    using len t(3) by (simp add: name_at_def del: access_in_range)
qed

lemma name_at_no_panic: "length (heap_data h) < u64_lim \<Longrightarrow> no_panic (name_at h offset)"
  by (auto simp: name_at_def slice_Inr_iff position_Some_iff intro!: no_panic_and_then)

lemma heap_parse_no_panic [np]: "no_panic (heap_parse file_data heap_address)"
  by (auto simp: heap_parse_def intro!: no_panic_and_then)

lemma heap_parse_Inr_iff:
  "heap_parse d a = Inr h \<longleftrightarrow>
     a + 32 < u64_lim \<and> a + 32 \<le> length d \<and> take 4 (drop a d) = sig_HEAP \<and> d ! (a + 4) = 0
     \<and> field 8 d (a + 24) + field 8 d (a + 8) < u64_lim
     \<and> field 8 d (a + 24) + field 8 d (a + 8) \<le> length d
     \<and> h = \<lparr>heap_data = take (field 8 d (a + 8)) (drop (field 8 d (a + 24)) d)\<rparr>"
  by (auto simp: heap_parse_def slice_Inr_iff index_Inr_iff and_then_Inr_iff
      ok_or_def checked_add_def usize_try_from_def uadd_def slice_def get_range_def index_def
      get_elem_def read_u64_le_eq split: if_splits)

lemma heap_parse_length: "heap_parse d a = Inr h \<Longrightarrow> length (heap_data h) \<le> length d"
  by (auto simp: heap_parse_Inr_iff)

text \<open>
  Names come out of the heap as they were put in: reading at an offset yields exactly the
  bytes up to the first NUL, provided they are valid UTF-8 and a NUL is there, and every other
  offset is an error, never a panic and never a read outside the data segment.
\<close>

theorem local_heap_name_lookup:
  assumes "heap_parse file_data addr = Inr h" and "length file_data < u64_lim"
  shows "(name_at h offset = Inr s \<longleftrightarrow>
           (\<exists>rest. drop offset (heap_data h) = s @ 0 # rest \<and> 0 \<notin> set s \<and> valid_utf8 s))
       \<and> name_at h offset \<noteq> Inl Panic"
proof -
  have len: "length (heap_data h) < u64_lim"
    using heap_parse_length[OF assms(1)] assms(2) by linarith
  then show ?thesis
    using name_at_Inr_iff[OF len] name_at_no_panic[OF len] by (simp add: no_panic_def)
qed

theorem local_heap_name_lookup_witness:
  "name_at \<lparr>heap_data = [0, 97, 98, 0]\<rparr> 1 = Inr [97, 98]"
proof -
  let ?file = "sig_HEAP @ [0, 0, 0, 0] @ to_le 8 4 @ to_le 8 0 @ to_le 8 32 @ [0, 97, 98, 0]"
  have "heap_parse ?file 0 = Inr \<lparr>heap_data = [0, 97, 98, 0]\<rparr>"
    by (simp add: heap_parse_Inr_iff sig_HEAP_def field_def le_eval)
  from local_heap_name_lookup[OF this, of 1 "[97, 98]"] show ?thesis
    by (simp add: sig_HEAP_def le_eval)
qed

end
