(* ===== verification/Old_Group.thy ===== *)
theory Old_Group
  imports Group_BTree Snod Local_Heap
begin

text \<open>
  The old-style half of \<^verbatim>\<open>oxih5-format/src/group.rs\<close>: member lookup and listing over a
  group's B-tree, symbol table nodes and local heap. The three parsers are composed as the
  code composes them; \<open>named_entries\<close>, the list of all entries with their names, is the
  specification against which lookup and listing are related.
\<close>

datatype sym_tab_link = Hard nat | Soft str

definition entry_to_link :: "sym_tab_entry \<Rightarrow> local_heap \<Rightarrow> sym_tab_link res" where
  "entry_to_link e h =
     (case cache e of
        CacheSoftLink link_value_offset \<Rightarrow>
          and_then (name_at h link_value_offset) (\<lambda>target. Inr (Soft target))
      | _ \<Rightarrow>
          if object_header_address e = u64_max then Inl Format
          else Inr (Hard (object_header_address e)))"

definition list_datasets :: "bytes \<Rightarrow> nat \<Rightarrow> nat \<Rightarrow> str list res" where
  "list_datasets file_data btree_address heap_address =
     and_then (heap_parse file_data heap_address) (\<lambda>h.
     and_then (btree_parse file_data btree_address) (\<lambda>leaf_addresses.
       fold_res (\<lambda>leaf_addr names.
         and_then (snod_parse file_data leaf_addr) (\<lambda>entries.
           fold_res (\<lambda>e names.
             and_then (name_at h (name_offset e)) (\<lambda>nm.
               Inr (if nm \<noteq> [] then names @ [nm] else names))) entries names))
         leaf_addresses []))"

text \<open>\<^verbatim>\<open>trim_start_matches('/')\<close>: every leading slash goes.\<close>

definition trim_start_slashes :: "str \<Rightarrow> str" where
  "trim_start_slashes s = dropWhile (\<lambda>b. b = 0x2f) s"

definition find_entry :: "bytes \<Rightarrow> nat \<Rightarrow> nat \<Rightarrow> str \<Rightarrow> sym_tab_link res" where
  "find_entry file_data btree_address heap_address nm =
     and_then (heap_parse file_data heap_address) (\<lambda>h.
     and_then (btree_parse file_data btree_address) (\<lambda>leaf_addresses.
       let target = trim_start_slashes nm in
       and_then
         (find_res (\<lambda>leaf_addr.
            and_then (snod_parse file_data leaf_addr) (\<lambda>entries.
              find_res (\<lambda>e.
                and_then (name_at h (name_offset e)) (\<lambda>entry_name.
                  if entry_name = target then and_then (entry_to_link e h) (\<lambda>l. Inr (Some l))
                  else Inr None)) entries))
            leaf_addresses)
         (\<lambda>found. case found of Some l \<Rightarrow> Inr l | None \<Rightarrow> Inl (NotFound nm))))"

definition list_entries :: "bytes \<Rightarrow> nat \<Rightarrow> nat \<Rightarrow> (str \<times> sym_tab_link) list res" where
  "list_entries file_data btree_address heap_address =
     and_then (heap_parse file_data heap_address) (\<lambda>h.
     and_then (btree_parse file_data btree_address) (\<lambda>leaf_addresses.
       fold_res (\<lambda>leaf_addr out.
         and_then (snod_parse file_data leaf_addr) (\<lambda>entries.
           fold_res (\<lambda>e out.
             and_then (name_at h (name_offset e)) (\<lambda>nm.
               if nm = [] then Inr out
               else (case entry_to_link e h of Inr l \<Rightarrow> Inr (out @ [(nm, l)]) | Inl _ \<Rightarrow> Inr out)))
             entries out))
         leaf_addresses []))"

definition find_dataset :: "bytes \<Rightarrow> nat \<Rightarrow> nat \<Rightarrow> str \<Rightarrow> nat res" where
  "find_dataset file_data btree_address heap_address nm =
     and_then (find_entry file_data btree_address heap_address nm) (\<lambda>l.
       case l of Hard address \<Rightarrow> Inr address | Soft _ \<Rightarrow> Inl NotImplemented)"

section \<open>The entries of a group\<close>

text \<open>Every entry of the group with its name, in B-tree order.\<close>

definition node_entries :: "bytes \<Rightarrow> local_heap \<Rightarrow> nat \<Rightarrow> (str \<times> sym_tab_entry) list res" where
  "node_entries d h leaf_addr =
     and_then (snod_parse d leaf_addr)
       (map_res (\<lambda>e. and_then (name_at h (name_offset e)) (\<lambda>nm. Inr (nm, e))))"

definition named_entries :: "bytes \<Rightarrow> local_heap \<Rightarrow> nat list \<Rightarrow> (str \<times> sym_tab_entry) list res" where
  "named_entries d h leaf_addresses =
     and_then (map_res (node_entries d h) leaf_addresses) (\<lambda>es. Inr (concat es))"

definition listed_link :: "local_heap \<Rightarrow> str \<times> sym_tab_entry \<Rightarrow> (str \<times> sym_tab_link) option" where
  "listed_link h = (\<lambda>(nm, e).
     if nm = [] then None
     else (case entry_to_link e h of Inr l \<Rightarrow> Some (nm, l) | Inl _ \<Rightarrow> None))"

lemma fold_entries_listed:
  assumes "map_res (\<lambda>e. and_then (name_at h (name_offset e)) (\<lambda>nm. Inr (nm, e))) es = Inr nes"
  shows "fold_res (\<lambda>e out.
             and_then (name_at h (name_offset e)) (\<lambda>nm.
               if nm = [] then Inr out
               else (case entry_to_link e h of Inr l \<Rightarrow> Inr (out @ [(nm, l)]) | Inl _ \<Rightarrow> Inr out)))
             es out = Inr (out @ List.map_filter (listed_link h) nes)"
  using assms
proof (induction es arbitrary: nes out)
  case (Cons e es)
  then obtain nm nes' where "name_at h (name_offset e) = Inr nm" "nes = (nm, e) # nes'"
    and "map_res (\<lambda>e. and_then (name_at h (name_offset e)) (\<lambda>nm. Inr (nm, e))) es = Inr nes'"
    by auto
  with Cons.IH[OF this(3)] show ?case
    by (auto simp: listed_link_def map_filter_simps split: sum.splits)
qed (simp add: map_filter_simps)

lemma map_filter_append: "List.map_filter f (xs @ ys) = List.map_filter f xs @ List.map_filter f ys"
  by (simp add: List.map_filter_def)

lemma fold_leaves_listed:
  assumes "map_res (node_entries d h) ls = Inr ess"
  shows "fold_res (\<lambda>leaf_addr out.
         and_then (snod_parse d leaf_addr) (\<lambda>entries.
           fold_res (\<lambda>e out.
             and_then (name_at h (name_offset e)) (\<lambda>nm.
               if nm = [] then Inr out
               else (case entry_to_link e h of Inr l \<Rightarrow> Inr (out @ [(nm, l)]) | Inl _ \<Rightarrow> Inr out)))
             entries out)) ls out = Inr (out @ List.map_filter (listed_link h) (concat ess))"
  using assms
proof (induction ls arbitrary: ess out)
  case (Cons l ls)
  then obtain nes ess' where n: "node_entries d h l = Inr nes" "ess = nes # ess'"
    and r: "map_res (node_entries d h) ls = Inr ess'"
    by auto
  from n(1) obtain es where es: "snod_parse d l = Inr es"
    and m: "map_res (\<lambda>e. and_then (name_at h (name_offset e)) (\<lambda>nm. Inr (nm, e))) es = Inr nes"
    by (auto simp: node_entries_def)
  show ?case
    using Cons.IH[OF r] fold_entries_listed[OF m] es n(2) by (simp add: map_filter_append)
qed (simp add: map_filter_simps)

text \<open>The first entry of a given name, as the lookup loop finds it.\<close>

definition first_named :: "local_heap \<Rightarrow> str \<Rightarrow> (str \<times> sym_tab_entry) list \<Rightarrow> sym_tab_link option res" where
  "first_named h target nes =
     (case map_of nes target of
        None \<Rightarrow> Inr None
      | Some e \<Rightarrow> and_then (entry_to_link e h) (\<lambda>l. Inr (Some l)))"

lemma first_named_simps:
  "first_named h target [] = Inr None"
  "first_named h target ((nm, e) # nes) =
     (if nm = target then and_then (entry_to_link e h) (\<lambda>l. Inr (Some l))
      else first_named h target nes)"
  by (simp_all add: first_named_def)

lemma find_entries_first:
  assumes "map_res (\<lambda>e. and_then (name_at h (name_offset e)) (\<lambda>nm. Inr (nm, e))) es = Inr nes"
  shows "find_res (\<lambda>e.
           and_then (name_at h (name_offset e)) (\<lambda>entry_name.
             if entry_name = target then and_then (entry_to_link e h) (\<lambda>l. Inr (Some l))
             else Inr None)) es = first_named h target nes"
  using assms
proof (induction es arbitrary: nes)
  case (Cons e es)
  then obtain nm nes' where "name_at h (name_offset e) = Inr nm" "nes = (nm, e) # nes'"
    and "map_res (\<lambda>e. and_then (name_at h (name_offset e)) (\<lambda>nm. Inr (nm, e))) es = Inr nes'"
    by auto
  with Cons.IH[OF this(3)] show ?case
    by (cases "entry_to_link e h") (auto simp: first_named_simps)
qed (simp add: first_named_simps)

lemma first_named_append:
  "first_named h target (xs @ ys) =
     and_then (first_named h target xs)
       (\<lambda>r. case r of Some l \<Rightarrow> Inr (Some l) | None \<Rightarrow> first_named h target ys)"
proof (induction xs)
  case (Cons x xs)
  obtain nm e where "x = (nm, e)" by (cases x)
  with Cons show ?case by (cases "entry_to_link e h") (auto simp: first_named_simps)
qed (simp add: first_named_simps)

lemma find_leaves_first:
  assumes "map_res (node_entries d h) ls = Inr ess"
  shows "find_res (\<lambda>leaf_addr.
            and_then (snod_parse d leaf_addr) (\<lambda>entries.
              find_res (\<lambda>e.
                and_then (name_at h (name_offset e)) (\<lambda>entry_name.
                  if entry_name = target then and_then (entry_to_link e h) (\<lambda>l. Inr (Some l))
                  else Inr None)) entries)) ls
         = first_named h target (concat ess)"
  using assms
proof (induction ls arbitrary: ess)
  case (Cons l ls)
  then obtain nes ess' where n: "node_entries d h l = Inr nes" "ess = nes # ess'"
    and r: "map_res (node_entries d h) ls = Inr ess'"
    by auto
  from n(1) obtain es where es: "snod_parse d l = Inr es"
    and m: "map_res (\<lambda>e. and_then (name_at h (name_offset e)) (\<lambda>nm. Inr (nm, e))) es = Inr nes"
    by (auto simp: node_entries_def)
  show ?case
    using Cons.IH[OF r] find_entries_first[OF m] es n(2)
    by (simp add: first_named_append)
qed (simp add: first_named_simps)

section \<open>Properties\<close>

text \<open>
  Lookup in an old-style group is lookup in the association list of its entries: for a
  group whose parts all parse, \<^verbatim>\<open>find_entry\<close> returns the link of the first entry with the
  requested name (leading slashes removed), reports that entry's own error if its link cannot
  be decoded, and reports the name as not found exactly when no entry has it.
\<close>

theorem find_entry_is_lookup:
  assumes "heap_parse d heap_address = Inr h" and "btree_parse d btree_address = Inr ls"
    and "named_entries d h ls = Inr nes"
  shows "find_entry d btree_address heap_address nm =
           (case map_of nes (trim_start_slashes nm) of
              None \<Rightarrow> Inl (NotFound nm)
            | Some e \<Rightarrow> entry_to_link e h)"
proof -
  from assms(3) obtain ess where ess: "map_res (node_entries d h) ls = Inr ess" "nes = concat ess"
    by (auto simp: named_entries_def)
  have "find_entry d btree_address heap_address nm =
      and_then (first_named h (trim_start_slashes nm) nes)
        (\<lambda>found. case found of Some l \<Rightarrow> Inr l | None \<Rightarrow> Inl (NotFound nm))"
    using assms(1,2) ess by (simp add: find_entry_def find_leaves_first Let_def)
  then show ?thesis
    by (cases "map_of nes (trim_start_slashes nm)")
      (auto simp: first_named_def and_then_def split: sum.splits)
qed

text \<open>
  Listing and lookup agree: for a group whose parts all parse, the listing holds the named
  entries whose link decodes, in order, and a member it lists under a name of its own is the one
  lookup finds.
\<close>

theorem list_entries_agrees_with_find:
  assumes "heap_parse d heap_address = Inr h" and "btree_parse d btree_address = Inr ls"
    and "named_entries d h ls = Inr nes" and "distinct (map fst nes)"
    and "(nm, l) \<in> set (List.map_filter (listed_link h) nes)" and "trim_start_slashes nm = nm"
  shows "list_entries d btree_address heap_address = Inr (List.map_filter (listed_link h) nes)
       \<and> find_entry d btree_address heap_address nm = Inr l"
proof -
  from assms(3) obtain ess where ess: "map_res (node_entries d h) ls = Inr ess" "nes = concat ess"
    by (auto simp: named_entries_def)
  have list: "list_entries d btree_address heap_address = Inr (List.map_filter (listed_link h) nes)"
    using assms(1,2) ess fold_leaves_listed[OF ess(1), of "[]"] by (simp add: list_entries_def)
  from assms(5) obtain e where e: "(nm, e) \<in> set nes" "entry_to_link e h = Inr l"
    by (auto simp: List.map_filter_def listed_link_def split: if_splits sum.splits)
  then have "map_of nes nm = Some e" using assms(4) by simp
  with list e(2) assms(6) find_entry_is_lookup[OF assms(1-3), of nm] show ?thesis by simp
qed

text \<open>A group of one hard link named \<open>ab\<close>, laid out by hand.\<close>

definition tiny_group :: bytes where
  "tiny_group =
     sig_HEAP @ [0, 0, 0, 0] @ to_le 8 8 @ to_le 8 0 @ to_le 8 32 @ [0, 97, 98, 0, 0, 0, 0, 0]
     @ sig_TREE @ [0, 0] @ to_le 2 1 @ to_le 8 u64_max @ to_le 8 u64_max
     @ to_le 8 0 @ to_le 8 88 @ to_le 8 1
     @ sig_SNOD @ [1, 0] @ to_le 2 1 @ to_le 8 1 @ to_le 8 700 @ to_le 4 0 @ to_le 4 0 @ replicate 16 0"

lemma length_tiny_group: "length tiny_group = 136"
  by (simp add: tiny_group_def sig_HEAP_def sig_TREE_def sig_SNOD_def)

lemma tiny_group_heap: "heap_parse tiny_group 0 = Inr \<lparr>heap_data = [0, 97, 98, 0, 0, 0, 0, 0]\<rparr>"
  by (simp add: heap_parse_Inr_iff tiny_group_def sig_HEAP_def sig_TREE_def sig_SNOD_def field_def le_eval)

lemma tiny_group_btree: "btree_parse tiny_group 40 = Inr [88]"
  using collect_leaves_node[of tiny_group 40 0 1 0 "[]"] length_tiny_group
  by (simp add: btree_parse_def node_header_def child_at_def visit_child_def tiny_group_def sig_HEAP_def
      sig_TREE_def sig_SNOD_def field_def le_eval)

lemma tiny_group_snod:
  "snod_parse tiny_group 88 = Inr [\<lparr>name_offset = 1, object_header_address = 700, cache = CacheNone\<rparr>]"
proof -
  have "snod_ok tiny_group 88 1"
    by (simp add: snod_ok_def tiny_group_def sig_HEAP_def sig_TREE_def sig_SNOD_def field_def le_eval)
  from snod_parse_ok[OF this] length_tiny_group show ?thesis
    by (simp add: entry_at_def cache_at_def tiny_group_def sig_HEAP_def sig_TREE_def sig_SNOD_def
        field_def le_eval)
qed

lemma tiny_group_entries:
  "named_entries tiny_group \<lparr>heap_data = [0, 97, 98, 0, 0, 0, 0, 0]\<rparr> [88] =
     Inr [([97, 98], \<lparr>name_offset = 1, object_header_address = 700, cache = CacheNone\<rparr>)]"
  by (simp add: named_entries_def node_entries_def tiny_group_snod name_at_def slice_def
      get_range_def)

theorem find_entry_is_lookup_witness:
  "find_entry tiny_group 40 0 [0x2f, 97, 98] = Inr (Hard 700)"
  using find_entry_is_lookup[OF tiny_group_heap tiny_group_btree tiny_group_entries, of "[0x2f, 97, 98]"]
  by (simp add: trim_start_slashes_def entry_to_link_def)

theorem list_entries_agrees_with_find_witness:
  "list_entries tiny_group 40 0 = Inr [([97, 98], Hard 700)]"
  using list_entries_agrees_with_find
    [OF tiny_group_heap tiny_group_btree tiny_group_entries, of "[97, 98]" "Hard 700"]
  by (simp add: trim_start_slashes_def listed_link_def entry_to_link_def map_filter_simps)

text \<open>
  A dataset address handed out by \<^verbatim>\<open>find_dataset\<close> is never the undefined-address
  sentinel of a soft link: soft links are reported as such.
\<close>

theorem find_dataset_never_undefined:
  assumes "find_dataset d btree_address heap_address nm = Inr a"
  shows "a \<noteq> u64_max \<and> find_entry d btree_address heap_address nm = Inr (Hard a)"
proof -
  from assms have hard: "find_entry d btree_address heap_address nm = Inr (Hard a)"
    by (auto simp: find_dataset_def split: sym_tab_link.splits)
  have links: "entry_to_link e h \<noteq> Inr (Hard u64_max)" for e h
    by (auto simp: entry_to_link_def split: sym_tab_cache.splits)
  from hard show ?thesis
    by (auto simp: find_entry_def Let_def and_then_Inr_iff links dest!: find_res_SomeD
        split: option.splits if_splits)
qed

theorem find_dataset_never_undefined_witness:
  "find_dataset tiny_group 40 0 [97, 98] = Inr 700 \<and> (700 :: nat) \<noteq> u64_max"
proof -
  have "find_entry tiny_group 40 0 [97, 98] = Inr (Hard 700)"
    by (simp add: find_entry_def tiny_group_heap tiny_group_btree tiny_group_snod
        trim_start_slashes_def name_at_def slice_def get_range_def entry_to_link_def Let_def)
  then have *: "find_dataset tiny_group 40 0 [97, 98] = Inr 700"
    by (simp add: find_dataset_def)
  from find_dataset_never_undefined[OF this] * show ?thesis by simp
qed

end
