(* ===== verification/Buffers.thy ===== *)
theory Buffers
  imports Byte_Fields
begin

text \<open>
  Algebra of in-place writes. Every structure writer of the library zeroes a fixed region and
  then fills its fields; the lemmas here turn such a sequence of writes into one \<open>splice\<close> of
  the structure's encoding, and read fields back out of a spliced region.
\<close>

section \<open>Encodings\<close>

lemma field_drop: "field n d (p + k) = field n (drop p d) k"
  by (simp add: field_def add.commute)

lemma field_append_here: "length xs = n \<Longrightarrow> field n (xs @ ys) 0 = from_le xs"
  by (simp add: field_def)

lemma field_append_skip: "length xs \<le> k \<Longrightarrow> field n (xs @ ys) k = field n ys (k - length xs)"
  by (simp add: field_def)

lemma length_concat_const:
  "(\<And>x. x \<in> set xs \<Longrightarrow> length (f x) = w) \<Longrightarrow> length (concat (map f xs)) = length xs * w"
  by (induction xs) auto

lemma put_range_loop:
  assumes "\<And>i. i < n \<Longrightarrow> length (enc i) = w" and "length buf = n * w"
  shows "fold_res (\<lambda>i out. put_range out (i * w) (enc i)) [0..<n] buf = Inr (concat (map enc [0..<n]))"
proof -
  have "k \<le> n \<Longrightarrow> fold_res (\<lambda>i out. put_range out (i * w) (enc i)) [0..<k] buf
      = Inr (concat (map enc [0..<k]) @ drop (k * w) buf)" for k
  proof (induction k)
    case (Suc k)
    have len: "length (concat (map enc [0..<k])) = k * w"
      using Suc.prems assms(1) by (subst length_concat_const[where w = w]) auto
    have "Suc k * w \<le> n * w" using Suc.prems by (rule mult_le_mono1)
    then have "put_range (concat (map enc [0..<k]) @ drop (k * w) buf) (k * w) (enc k)
        = Inr (concat (map enc [0..<k]) @ enc k @ drop (Suc k * w) buf)"
      using Suc.prems assms by (simp add: put_range_def splice_def len add.commute)
    then show ?case using Suc by (simp add: fold_res_append)
  qed simp
  from this[of n] show ?thesis using assms(2) by simp
qed

lemma take_to_le: "k \<le> n \<Longrightarrow> take k (to_le n v) = to_le k v"
proof (induction k arbitrary: n v)
  case (Suc k)
  then obtain m where "n = Suc m" by (cases n) auto
  with Suc show ?case by simp
qed simp

lemma to_le_mod: "k \<le> m \<Longrightarrow> to_le k (v mod 256 ^ m) = to_le k v"
proof -
  assume "k \<le> m"
  then have "(256::nat) ^ k dvd 256 ^ m" by (rule le_imp_power_dvd)
  then have "v mod 256 ^ m mod 256 ^ k = v mod 256 ^ k" by (rule mod_mod_cancel)
  then show ?thesis by (intro from_le_inj) (simp_all add: from_le_to_le_mod)
qed

lemma nth_block_concat:
  assumes "\<And>i. i < n \<Longrightarrow> length (enc i) = w" and "i < n"
  shows "take w (drop (i * w) (concat (map enc [0..<n]))) = enc i"
proof -
  have "[0..<n] = [0..<i] @ i # [Suc i..<n]" using assms(2)
    by (metis upt_add_eq_append upt_conv_Cons le_add_diff_inverse less_imp_le le0)
  moreover have "length (concat (map enc [0..<i])) = i * w"
    using assms by (subst length_concat_const[where w = w]) auto
  ultimately show ?thesis using assms by simp
qed

lemma field_of_slot:
  assumes "take w (drop p d) = x" and "k + n \<le> w"
  shows "field n d (p + k) = field n x k"
proof -
  have "take n (drop k (take w (drop p d))) = take n (drop (p + k) d)"
    using assms(2) by (simp add: drop_take min_def add.commute)
  then show ?thesis using assms(1) by (simp add: field_def)
qed

lemma nth_of_slot:
  assumes "take w (drop p d) = x" and "k < w" and "p + w \<le> length d"
  shows "d ! (p + k) = x ! k"
  using assms by auto

lemma field_Cons:
  "field n (x # xs) (Suc k) = field n xs k"
  "field n (x # xs) 1 = field n xs 0"
  "field n (x # xs) (numeral m) = field n xs (pred_numeral m)"
  by (simp_all add: field_def numeral_eq_Suc)

lemma field_whole: "length xs = n \<Longrightarrow> field n xs 0 = from_le xs"
  by (simp add: field_def)

lemmas field_eval = field_append_skip field_append_here field_whole from_le_to_le field_Cons

lemma field_to_le: "field n (to_le n v @ ys) 0 = v mod 256 ^ n"
  by (simp add: field_def from_le_to_le_mod)

section \<open>Splices\<close>

lemma splice_append:
  "off + length xs + length ys \<le> length buf \<Longrightarrow>
   splice (splice buf off xs) (off + length xs) ys = splice buf off (xs @ ys)"
  by (simp add: splice_def add.assoc add.left_commute[of "length ys"] add.commute[of "length ys"])

lemma splice_inside:
  assumes "off + length xs \<le> length buf" and "k + length ys \<le> length xs"
  shows "splice (splice buf off xs) (off + k) ys = splice buf off (splice xs k ys)"
  using assms by (simp add: splice_def drop_take take_drop add.assoc)

lemma put_range_splice_inside:
  assumes "off + length xs \<le> length buf" and "k + length ys \<le> length xs"
  shows "put_range (splice buf off xs) (off + k) ys = Inr (splice buf off (splice xs k ys))"
  using assms by (simp add: put_range_def splice_inside)

lemma put_range_splice_start:
  assumes "off + length xs \<le> length buf" and "length ys \<le> length xs"
  shows "put_range (splice buf off xs) off ys = Inr (splice buf off (splice xs 0 ys))"
  using put_range_splice_inside[of off xs buf 0 ys] assms by simp

lemma put_elem_range: "put_elem buf i x = put_range buf i [x]"
  by (simp add: put_elem_def put_range_def splice_def upd_conv_take_nth_drop)

text \<open>The writes of one structure, folded into its encoding.\<close>

lemmas write_simps = put_elem_range put_range_splice_start put_range_splice_inside

lemma splice_Nil [simp]: "splice buf off [] = buf"
  by (simp add: splice_def)

lemma splice_same [simp]: "length xs = length buf \<Longrightarrow> splice buf 0 xs = xs"
  by (simp add: splice_def)

lemma drop_splice: "off + length xs \<le> length buf \<Longrightarrow> drop off (splice buf off xs) = xs @ drop (off + length xs) buf"
  by (simp add: splice_def)

text \<open>Two buffers that agree below \<open>lim\<close> have the same slices and fields there.\<close>

lemma slice_agree:
  assumes "take lim d' = take lim d" and "p + k \<le> lim"
  shows "take k (drop p d') = take k (drop p d)"
proof -
  have m: "min k (lim - p) = k" using assms(2) by linarith
  have "take k (drop p (take lim d')) = take k (drop p (take lim d))" by (simp only: assms(1))
  then show ?thesis by (simp only: drop_take take_take m)
qed

lemma field_agree:
  assumes "take lim d' = take lim d" and "p + n \<le> lim"
  shows "field n d' p = field n d p"
  using slice_agree[OF assms] by (simp add: field_def)

text \<open>A zeroed structure whose first fields, in order, are already written.\<close>

definition region :: "bytes \<Rightarrow> nat \<Rightarrow> bytes" where
  "region xs k = xs @ replicate k 0"

lemma put_range_next:
  assumes "off = a + length xs" and "a + length xs + k \<le> length buf" and "length ys \<le> k"
  shows "put_range (splice buf a (region xs k)) off ys = Inr (splice buf a (region (xs @ ys) (k - length ys)))"
proof -
  have "splice (region xs k) (length xs) ys = region (xs @ ys) (k - length ys)"
    using assms(3) by (simp add: splice_def region_def)
  then show ?thesis
    using put_range_splice_inside[of a "region xs k" buf "length xs" ys] assms
    by (simp add: region_def)
qed

text \<open>Skipping a field leaves it zero.\<close>

lemma region_skip: "j \<le> k \<Longrightarrow> region xs k = region (xs @ replicate j 0) (k - j)"
  by (simp add: region_def replicate_add[symmetric])

lemma region_start: "replicate k 0 = region [] k"
  by (simp add: region_def)

text \<open>Slots of equal width filled one after the other, each found zeroed.\<close>

definition zeroed :: "bytes \<Rightarrow> nat \<Rightarrow> nat \<Rightarrow> bool" where
  "zeroed buf a n \<longleftrightarrow> a + n \<le> length buf \<and> take n (drop a buf) = replicate n 0"

lemma zeroed_sub:
  assumes "zeroed buf a n" and "a \<le> b" and "b + m \<le> a + n"
  shows "zeroed buf b m"
proof -
  have "take m (drop (b - a) (take n (drop a buf))) = take m (drop b buf)"
    using assms by (simp add: drop_take min_def)
  moreover have "take m (drop (b - a) (replicate n (0 :: byte))) = replicate m 0"
    using assms by (simp add: take_replicate min_def)
  ultimately show ?thesis using assms by (simp add: zeroed_def)
qed

lemma zeroed_splice_other:
  assumes "zeroed buf b m" and "off + length xs \<le> length buf" and "b + m \<le> off \<or> off + length xs \<le> b"
  shows "zeroed (splice buf off xs) b m"
  using assms by (simp add: zeroed_def splice_slice_other)

lemma zeroed_eq_splice: "zeroed buf a n \<Longrightarrow> splice buf a (replicate n 0) = buf"
proof -
  assume z: "zeroed buf a n"
  then have "splice buf a (replicate n 0) = take a buf @ take n (drop a buf) @ drop (a + n) buf"
    by (simp add: splice_def zeroed_def)
  also have "\<dots> = buf" by (metis append_take_drop_id drop_drop add.commute)
  finally show ?thesis .
qed

lemma slot_loop:
  assumes step: "\<And>i b. i < n \<Longrightarrow> length b = length buf \<Longrightarrow> zeroed b (base + i * w) w \<Longrightarrow>
      f i b = Inr (splice b (base + i * w) (enc i))"
    and len: "\<And>i. i < n \<Longrightarrow> length (enc i) = w"
    and z: "zeroed buf base (n * w)"
  shows "fold_res f [0..<n] buf = Inr (splice buf base (concat (map enc [0..<n])))"
proof -
  have fits: "base + n * w \<le> length buf" using z by (simp add: zeroed_def)
  have "k \<le> n \<Longrightarrow> fold_res f [0..<k] buf = Inr (splice buf base (concat (map enc [0..<k])))" for k
  proof (induction k)
    case (Suc k)
    let ?c = "concat (map enc [0..<k])"
    have lc: "length ?c = k * w" using Suc.prems len by (subst length_concat_const[where w = w]) auto
    have kw: "Suc k * w \<le> n * w" using Suc.prems by (rule mult_le_mono1)
    have zk: "zeroed (splice buf base ?c) (base + k * w) w"
      using z kw fits by (intro zeroed_splice_other zeroed_sub[OF z]) (simp_all add: lc)
    have "f k (splice buf base ?c) = Inr (splice (splice buf base ?c) (base + k * w) (enc k))"
      using Suc.prems zk kw fits by (intro step) (simp_all add: lc)
    also have "splice (splice buf base ?c) (base + k * w) (enc k) = splice buf base (?c @ enc k)"
      using splice_append[of base ?c "enc k" buf] kw fits Suc.prems len by (simp add: lc)
    finally show ?case using Suc by (simp add: fold_res_append)
  qed simp
  from this[of n] show ?thesis by simp
qed

end
