(* ===== verification/Object_Header_V1.thy ===== *)
theory Object_Header_V1
  imports Buffers
begin

text \<open>
  Version-1 object headers of \<^verbatim>\<open>oxih5-format/src/header.rs\<close>: a prefix, a block of messages,
  and further blocks named by continuation messages, which are processed in the order they
  are found.
\<close>

record message =
  msg_type :: nat
  msg_data :: bytes

abbreviation (input) MSG_CONTINUATION_V1 :: nat where "MSG_CONTINUATION_V1 \<equiv> 16"
abbreviation (input) MSG_NIL_V1 :: nat where "MSG_NIL_V1 \<equiv> 0"

type_synonym v1_state = "message list \<times> (nat \<times> nat) list"

text \<open>What one message does to the collected messages and continuations: the \<^verbatim>\<open>match\<close> of
  the loop body.\<close>

definition v1_message :: "bytes \<Rightarrow> nat \<Rightarrow> nat \<Rightarrow> nat \<Rightarrow> nat \<Rightarrow> v1_state \<Rightarrow> v1_state res" where
  "v1_message file_data ty msg_size body_start body_end st =
     (case st of (messages, continuations) \<Rightarrow>
        if ty = MSG_NIL_V1 then Inr st
        else if ty = MSG_CONTINUATION_V1 then
          (if msg_size \<ge> 16 then
             and_then (read_u64_le file_data body_start) (\<lambda>cont_offset.
             and_then (read_u64_le file_data (body_start + 8)) (\<lambda>cont_length.
               Inr (messages, continuations @ [(cont_offset, cont_length)])))
           else Inr st)
        else
          and_then (slice file_data body_start body_end) (\<lambda>body.
            Inr (messages @ [\<lparr>msg_type = ty, msg_data = body\<rparr>], continuations)))"

function v1_loop :: "bytes \<Rightarrow> nat \<Rightarrow> nat \<Rightarrow> v1_state \<Rightarrow> v1_state res" where
  "v1_loop file_data end_pos pos st =
     and_then (uadd pos 8) (\<lambda>body_start.
       if body_start > end_pos then Inr st
       else
         and_then (read_u16_le file_data pos) (\<lambda>ty.
         and_then (read_u16_le file_data (pos + 2)) (\<lambda>msg_size.
         and_then (uadd body_start msg_size) (\<lambda>body_end.
           if body_end > length file_data then Inl Format
           else
             and_then (uadd msg_size 7) (\<lambda>_.
             let aligned_size = align8 msg_size in
             and_then (uadd pos (8 + aligned_size)) (\<lambda>next_pos.
             and_then (v1_message file_data ty msg_size body_start body_end st) (\<lambda>st'.
               v1_loop file_data end_pos next_pos st')))))))"
  by pat_completeness auto
termination
  by (relation "measure (\<lambda>(file_data, end_pos, pos, st). end_pos - pos)") (auto simp: Let_def)

declare v1_loop.simps [simp del]

definition parse_v1_message_block :: "bytes \<Rightarrow> nat \<Rightarrow> nat \<Rightarrow> v1_state \<Rightarrow> v1_state res" where
  "parse_v1_message_block file_data start block_size st =
     (let end_pos = saturating_add start block_size in
      if end_pos > length file_data then Inl Format
      else v1_loop file_data end_pos start st)"

function follow_continuations :: "bytes \<Rightarrow> nat \<Rightarrow> v1_state \<Rightarrow> message list res" where
  "follow_continuations file_data i st =
     (if i < length (snd st) then
        (case snd st ! i of (cont_off, cont_len) \<Rightarrow>
          and_then (ok_or (usize_try_from cont_off) Corrupted) (\<lambda>off.
          and_then (ok_or (usize_try_from cont_len) Corrupted) (\<lambda>len.
          and_then (parse_v1_message_block file_data off len st) (\<lambda>st'.
            if i + 1 > 256 then Inl Format
            else follow_continuations file_data (i + 1) st'))))
      else Inr (fst st))"
  by pat_completeness auto
termination
  by (relation "measure (\<lambda>(file_data, i, st). 257 - i)") auto

declare follow_continuations.simps [simp del]

definition parse_messages_v1 :: "bytes \<Rightarrow> nat \<Rightarrow> message list res" where
  "parse_messages_v1 file_data offset =
     and_then (ok_or (usize_try_from offset) Corrupted) (\<lambda>off.
     and_then (ok_or (checked_add off 16) Corrupted) (\<lambda>off16.
       if off16 > length file_data then Inl Format
       else
         and_then (index file_data off) (\<lambda>version.
           if version \<noteq> 1 then Inl (UnsupportedHeader version)
           else
             and_then (read_u32_le file_data (off + 8)) (\<lambda>header_data_size.
             and_then (parse_v1_message_block file_data (off + 16) header_data_size ([], []))
               (\<lambda>st. follow_continuations file_data 0 st)))))"

section \<open>Blocks of encoded messages\<close>

text \<open>
  The specification side: a message is a type and a body (with its flags byte), laid out with an
  eight-byte header and padded to a multiple of eight.
\<close>

record v1_msg =
  vm_type :: nat
  vm_flags :: byte
  vm_body :: bytes

definition v1_msg_ok :: "v1_msg \<Rightarrow> bool" where
  "v1_msg_ok m \<longleftrightarrow> vm_type m < 65536 \<and> length (vm_body m) < 65536"

definition encode_v1_msg :: "v1_msg \<Rightarrow> bytes" where
  "encode_v1_msg m =
     to_le 2 (vm_type m) @ to_le 2 (length (vm_body m)) @ [vm_flags m, 0, 0, 0]
     @ vm_body m @ replicate (align8 (length (vm_body m)) - length (vm_body m)) 0"

definition encode_v1_block :: "v1_msg list \<Rightarrow> bytes" where
  "encode_v1_block ms = concat (map encode_v1_msg ms)"

definition plain_messages :: "v1_msg list \<Rightarrow> message list" where
  "plain_messages ms =
     map (\<lambda>m. \<lparr>msg_type = vm_type m, msg_data = vm_body m\<rparr>)
       (filter (\<lambda>m. vm_type m \<noteq> MSG_NIL_V1 \<and> vm_type m \<noteq> MSG_CONTINUATION_V1) ms)"

definition continuations_of :: "v1_msg list \<Rightarrow> (nat \<times> nat) list" where
  "continuations_of ms =
     map (\<lambda>m. (from_le (take 8 (vm_body m)), from_le (take 8 (drop 8 (vm_body m)))))
       (filter (\<lambda>m. vm_type m = MSG_CONTINUATION_V1 \<and> length (vm_body m) \<ge> 16) ms)"

definition block_at :: "bytes \<Rightarrow> nat \<times> nat \<Rightarrow> v1_msg list \<Rightarrow> bool" where
  "block_at d r ms \<longleftrightarrow>
     fst r + snd r \<le> length d \<and> take (snd r) (drop (fst r) d) = encode_v1_block ms
     \<and> list_all v1_msg_ok ms"

lemma length_encode_v1_msg:
  "length (encode_v1_msg m) = 8 + align8 (length (vm_body m))"
  using align8_ge[of "length (vm_body m)"] by (simp add: encode_v1_msg_def)

lemma v1_loop_step:
  assumes ok: "v1_msg_ok m" and d: "drop pos d = encode_v1_msg m @ rest"
    and len: "length d \<le> isize_max" and fits: "pos + length (encode_v1_msg m) \<le> end_pos"
  shows "v1_loop d end_pos pos (ms, cs) =
           v1_loop d end_pos (pos + length (encode_v1_msg m))
             (ms @ plain_messages [m], cs @ continuations_of [m])"
proof -
  let ?b = "vm_body m"
  let ?n = "length ?b"
  have n: "?n < 65536" and t: "vm_type m < 65536" using ok by (auto simp: v1_msg_ok_def)
  have dl: "pos + (8 + align8 ?n) \<le> length d"
    using arg_cong[OF d, of length] by (simp add: length_encode_v1_msg)
  have ge: "?n \<le> align8 ?n" and lt: "align8 ?n < ?n + 8"
    by (rule align8_ge, rule align8_less)
  have f0: "field 2 d pos = vm_type m"
    using field_drop[of 2 d pos 0] t d by (simp add: encode_v1_msg_def field_append_here from_le_to_le)
  have f2: "field 2 d (pos + 2) = ?n"
    unfolding field_drop d encode_v1_msg_def using n
    by (simp add: field_append_skip field_append_here from_le_to_le)
  have body: "take (pos + 8 + ?n - (pos + 8)) (drop (pos + 8) d) = ?b"
  proof -
    have "drop (pos + 8) d = drop 8 (drop pos d)" by (simp add: add.commute)
    then show ?thesis unfolding d encode_v1_msg_def by simp
  qed
  have c1: "field 8 d (pos + 8) = from_le (take 8 ?b)" if "16 \<le> ?n"
    unfolding field_drop d encode_v1_msg_def using that
    by (simp add: field_append_skip) (simp add: field_def)
  have c2: "field 8 d (pos + 8 + 8) = from_le (take 8 (drop 8 ?b))" if "16 \<le> ?n"
    unfolding add.assoc[of pos] field_drop d encode_v1_msg_def using that
    by (simp add: field_append_skip) (simp add: field_def)
  show ?thesis
    by (subst v1_loop.simps)
      (use dl ge lt len fits f0 f2 body c1 c2 n in
        \<open>auto simp: length_encode_v1_msg v1_message_def plain_messages_def continuations_of_def
          read_u16_le_eq read_u64_le_eq slice_def get_range_def Let_def add.assoc\<close>)
qed

lemma plain_messages_Cons: "plain_messages (m # ms) = plain_messages [m] @ plain_messages ms"
  by (simp add: plain_messages_def)

lemma continuations_of_Cons: "continuations_of (m # ms) = continuations_of [m] @ continuations_of ms"
  by (simp add: continuations_of_def)

lemma v1_loop_block:
  assumes "list_all v1_msg_ok ms" and "drop pos d = encode_v1_block ms @ rest"
    and "length d \<le> isize_max" and "end_pos = pos + length (encode_v1_block ms)"
    and "pos \<le> length d"
  shows "v1_loop d end_pos pos (acc, cs) = Inr (acc @ plain_messages ms, cs @ continuations_of ms)"
  using assms
proof (induction ms arbitrary: pos acc cs)
  case Nil
  then show ?case
    by (subst v1_loop.simps)
      (simp add: encode_v1_block_def plain_messages_def continuations_of_def)
next
  case (Cons m ms)
  have d: "drop pos d = encode_v1_msg m @ (encode_v1_block ms @ rest)"
    using Cons.prems(2) by (simp add: encode_v1_block_def)
  have "drop (pos + length (encode_v1_msg m)) d = encode_v1_block ms @ rest"
    using arg_cong[OF d, of "drop (length (encode_v1_msg m))"] by (simp add: add.commute)
  then have "v1_loop d end_pos (pos + length (encode_v1_msg m))
      (acc @ plain_messages [m], cs @ continuations_of [m])
      = Inr ((acc @ plain_messages [m]) @ plain_messages ms,
             (cs @ continuations_of [m]) @ continuations_of ms)"
    using Cons.prems(1,3,4) arg_cong[OF d, of length]
    by (intro Cons.IH) (auto simp: encode_v1_block_def length_encode_v1_msg)
  moreover have "v1_loop d end_pos pos (acc, cs) = v1_loop d end_pos (pos + length (encode_v1_msg m))
      (acc @ plain_messages [m], cs @ continuations_of [m])"
    using Cons.prems(1,3,4) by (intro v1_loop_step[OF _ d]) (auto simp: encode_v1_block_def)
  ultimately show ?case
    by (simp add: plain_messages_Cons[of m ms] continuations_of_Cons[of m ms])
qed

lemma parse_v1_block_at:
  assumes "block_at d r ms" and "length d \<le> isize_max"
  shows "parse_v1_message_block d (fst r) (snd r) (acc, cs)
           = Inr (acc @ plain_messages ms, cs @ continuations_of ms)"
proof -
  from assms have b: "fst r + snd r \<le> length d" "take (snd r) (drop (fst r) d) = encode_v1_block ms"
    "list_all v1_msg_ok ms" by (auto simp: block_at_def)
  have l: "length (encode_v1_block ms) = snd r"
    using arg_cong[OF b(2), of length] b(1) by simp
  have "drop (fst r) d = encode_v1_block ms @ drop (snd r) (drop (fst r) d)"
    by (metis b(2) append_take_drop_id)
  then have "v1_loop d (fst r + snd r) (fst r) (acc, cs)
      = Inr (acc @ plain_messages ms, cs @ continuations_of ms)"
    by (rule v1_loop_block[OF b(3)]) (use b(1) assms(2) l in auto)
  then show ?thesis
    using b(1) assms(2) by (simp add: parse_v1_message_block_def saturating_add_def Let_def)
qed

section \<open>Whole headers\<close>

text \<open>
  A header whose primary block holds \<open>ms\<close> and whose continuation blocks, in the order they are
  referenced, hold the message lists \<open>mss\<close>. Every block is referenced from an earlier one.
\<close>

definition v1_queue :: "v1_msg list \<Rightarrow> v1_msg list list \<Rightarrow> (nat \<times> nat) list" where
  "v1_queue ms mss = continuations_of ms @ concat (map continuations_of mss)"

definition v1_header_at :: "bytes \<Rightarrow> nat \<Rightarrow> v1_msg list \<Rightarrow> v1_msg list list \<Rightarrow> bool" where
  "v1_header_at d off ms mss \<longleftrightarrow>
     off + 16 \<le> length d \<and> d ! off = 1
     \<and> block_at d (off + 16, field 4 d (off + 8)) ms
     \<and> list_all2 (block_at d) (v1_queue ms mss) mss
     \<and> (\<forall>i<length mss. i < length (v1_queue ms (take i mss)))
     \<and> length mss \<le> 256"

lemma v1_queue_take_Suc:
  "i < length mss \<Longrightarrow> v1_queue ms (take (Suc i) mss) = v1_queue ms (take i mss) @ continuations_of (mss ! i)"
  by (simp add: v1_queue_def take_Suc_conv_app_nth)

lemma v1_queue_split:
  "v1_queue ms mss = v1_queue ms (take i mss) @ concat (map continuations_of (drop i mss))"
  by (metis append_assoc append_take_drop_id concat_append map_append v1_queue_def)

lemma follow_continuations_correct:
  assumes hdr: "v1_header_at d off ms mss" and len: "length d \<le> isize_max" and "i \<le> length mss"
  shows "follow_continuations d i (acc, v1_queue ms (take i mss))
           = Inr (acc @ concat (map plain_messages (drop i mss)))"
  using assms(3)
proof (induction "length mss - i" arbitrary: i acc)
  case 0
  have "length (v1_queue ms mss) = length mss"
    using hdr by (auto simp: v1_header_at_def dest: list_all2_lengthD)
  with 0 show ?case by (subst follow_continuations.simps) simp
next
  case (Suc k)
  then have i: "i < length mss" by simp
  let ?q = "v1_queue ms (take i mss)"
  have iq: "i < length ?q" using hdr i by (simp add: v1_header_at_def)
  have nth: "?q ! i = v1_queue ms mss ! i"
    using iq v1_queue_split[of ms mss i] by (simp add: nth_append)
  have blk: "block_at d (?q ! i) (mss ! i)"
    using hdr i by (simp add: v1_header_at_def nth list_all2_nthD2)
  obtain a l where r: "?q ! i = (a, l)" by (cases "?q ! i")
  have "parse_v1_message_block d a l (acc, ?q)
      = Inr (acc @ plain_messages (mss ! i), v1_queue ms (take (Suc i) mss))"
    using parse_v1_block_at[OF blk len, of acc ?q] r v1_queue_take_Suc[OF i] by simp
  moreover have "a < u64_lim" "l < u64_lim"
    using blk r len by (auto simp: block_at_def)
  moreover have "i < 256" using hdr i by (simp add: v1_header_at_def)
  moreover have "follow_continuations d (Suc i) (acc @ plain_messages (mss ! i), v1_queue ms (take (Suc i) mss))
      = Inr ((acc @ plain_messages (mss ! i)) @ concat (map plain_messages (drop (Suc i) mss)))"
    using Suc.hyps(2) i by (intro Suc.hyps(1)) auto
  moreover have "drop i mss = mss ! i # drop (Suc i) mss"
    using i by (simp add: Cons_nth_drop_Suc)
  ultimately show ?case using iq r by (subst follow_continuations.simps) simp
qed

lemma parse_header_at:
  assumes "v1_header_at d off ms mss" and "length d \<le> isize_max"
  shows "parse_messages_v1 d off
           = Inr (plain_messages ms @ concat (map plain_messages mss))"
proof -
  have hdr: "off + 16 \<le> length d" "d ! off = 1" "block_at d (off + 16, field 4 d (off + 8)) ms"
    using assms(1) by (auto simp: v1_header_at_def)
  have "parse_v1_message_block d (off + 16) (field 4 d (off + 8)) ([], [])
      = Inr (plain_messages ms, v1_queue ms (take 0 mss))"
    using parse_v1_block_at[OF hdr(3) assms(2), of "[]" "[]"] by (simp add: v1_queue_def)
  with hdr assms(2) follow_continuations_correct[OF assms, of 0 "plain_messages ms"] show ?thesis
    by (simp add: parse_messages_v1_def index_def get_elem_def read_u32_le_eq)
qed

section \<open>Properties\<close>

text \<open>
  C25. A version-1 object header yields exactly its messages: those of the primary block and of
  every continuation block, in order, with their types and unpadded bodies, padding (NIL) and
  continuation messages left out.
\<close>

theorem parse_messages_v1_correct:
  assumes "v1_header_at d off ms mss" and "length d \<le> isize_max"
  shows "parse_messages_v1 d off
           = Inr (plain_messages ms @ concat (map plain_messages mss))"
  using assms by (rule parse_header_at)

text \<open>A header of a NIL message and a dataspace message in the primary block, a continuation
  message, and one more message in the block it names.\<close>

definition tiny_v1 :: bytes where
  "tiny_v1 = [1, 0, 4, 0, 1, 0, 0, 0, 48, 0, 0, 0, 0, 0, 0, 0]
     @ encode_v1_block
        [\<lparr>vm_type = 0, vm_flags = 0, vm_body = []\<rparr>, \<lparr>vm_type = 1, vm_flags = 0, vm_body = [7, 8]\<rparr>,
         \<lparr>vm_type = 16, vm_flags = 0, vm_body = to_le 8 64 @ to_le 8 16\<rparr>]
     @ encode_v1_block [\<lparr>vm_type = 3, vm_flags = 1, vm_body = [9]\<rparr>]"

theorem parse_messages_v1_correct_witness:
  "parse_messages_v1 tiny_v1 0 =
     Inr [\<lparr>msg_type = 1, msg_data = [7, 8]\<rparr>, \<lparr>msg_type = 3, msg_data = [9]\<rparr>]"
proof -
  let ?ms = "[\<lparr>vm_type = 0, vm_flags = 0, vm_body = []\<rparr>, \<lparr>vm_type = 1, vm_flags = 0, vm_body = [7, 8]\<rparr>,
         \<lparr>vm_type = 16, vm_flags = 0, vm_body = to_le 8 64 @ to_le 8 16\<rparr>]"
  let ?mss = "[[\<lparr>vm_type = 3, vm_flags = 1, vm_body = [9]\<rparr>]]"
  have "v1_header_at tiny_v1 0 ?ms ?mss"
    by (simp add: v1_header_at_def tiny_v1_def block_at_def encode_v1_block_def encode_v1_msg_def
        align8_def field_def v1_queue_def continuations_of_def v1_msg_ok_def le_eval)
  moreover have "length tiny_v1 = 80"
    by (simp add: tiny_v1_def encode_v1_block_def encode_v1_msg_def align8_def)
  ultimately have "parse_messages_v1 tiny_v1 0
      = Inr (plain_messages ?ms @ concat (map plain_messages ?mss))"
    by (intro parse_messages_v1_correct) simp_all
  then show ?thesis by (simp add: plain_messages_def)
qed

lemma v1_message_no_panic:
  assumes "body_start + n \<le> length d" and "length d \<le> isize_max"
  shows "no_panic (v1_message d ty n body_start (body_start + n) st)"
  using assms by (auto simp: v1_message_def split: prod.splits intro!: no_panic_and_then)

lemma v1_loop_no_panic:
  assumes "length d \<le> isize_max" and "end_pos \<le> length d" and "pos \<le> length d + 70000"
  shows "no_panic (v1_loop d end_pos pos st)"
  using assms
proof (induction d end_pos pos st rule: v1_loop.induct)
  case (1 d end_pos pos st)
  show ?case
  proof (cases "pos + 8 \<le> end_pos")
    case True
    let ?n = "field 2 d (pos + 2)"
    have n: "?n \<le> 65535" using field_2_less[of d "pos + 2"] by linarith
    have al: "align8 ?n < ?n + 8" by (rule align8_less)
    have "no_panic (v1_loop d end_pos (pos + (8 + align8 ?n)) st')"
      if "pos + 8 + ?n \<le> length d"
        and "v1_message d (field 2 d pos) ?n (pos + 8) (pos + 8 + ?n) st = Inr st'" for st'
      by (rule "1.IH"[of "pos + 8" "field 2 d pos" ?n "pos + 8 + ?n" "?n + 7"])
        (use that True "1.prems" n al in auto)
    then show ?thesis
      using "1.prems" n al True
      by (subst v1_loop.simps)
        (auto simp: Let_def intro!: no_panic_and_then v1_message_no_panic)
  next
    case False
    then show ?thesis using "1.prems" by (subst v1_loop.simps) simp
  qed
qed

lemma parse_v1_message_block_no_panic:
  "length d \<le> isize_max \<Longrightarrow> no_panic (parse_v1_message_block d start len st)"
  by (auto simp: parse_v1_message_block_def saturating_add_def Let_def intro!: v1_loop_no_panic)

lemma follow_continuations_no_panic:
  "length d \<le> isize_max \<Longrightarrow> no_panic (follow_continuations d i st)"
proof (induction d i st rule: follow_continuations.induct)
  case (1 d i st)
  show ?case
    by (subst follow_continuations.simps)
      (use 1 in \<open>auto split: prod.splits intro!: no_panic_and_then parse_v1_message_block_no_panic\<close>)
qed

lemma parse_messages_v1_no_panic:
  "length d \<le> isize_max \<Longrightarrow> no_panic (parse_messages_v1 d off)"
  by (auto simp: parse_messages_v1_def
      intro!: no_panic_and_then parse_v1_message_block_no_panic follow_continuations_no_panic)

text \<open>
  The version-1 header parser never panics and always returns: on any file, cyclic
  continuation chains included, the result is the message list or a typed error.
\<close>

theorem parse_messages_v1_never_panics:
  assumes "length file_data \<le> isize_max"
  shows "parse_messages_v1 file_data offset \<noteq> Inl Panic"
  using parse_messages_v1_no_panic[OF assms] by (simp add: no_panic_def)

theorem parse_messages_v1_never_panics_witness: "parse_messages_v1 [1, 0, 3] 1 \<noteq> Inl Panic"
  by (rule parse_messages_v1_never_panics) simp

end
