(* ===== verification/Object_Header_V2.thy ===== *)
theory Object_Header_V2
  imports Object_Header_V1
begin

text \<open>
  Version-2 object headers of \<^verbatim>\<open>oxih5-format/src/header.rs\<close> (\<^verbatim>\<open>OHDR\<close> and \<^verbatim>\<open>OCHK\<close>
  blocks), and the dispatch between the two versions. The set of continuation blocks already
  seen is created on first use, as in the code; a state is the list of collected messages with
  that optional set.
\<close>

abbreviation (input) MSG_CONTINUATION_V2 :: byte where "MSG_CONTINUATION_V2 \<equiv> 0x10"
abbreviation (input) MSG_NIL_V2 :: byte where "MSG_NIL_V2 \<equiv> 0x00"

definition sig_OHDR :: bytes where
  "sig_OHDR = [0x4f, 0x48, 0x44, 0x52]"

definition sig_OCHK :: bytes where
  "sig_OCHK = [0x4f, 0x43, 0x48, 0x4b]"

type_synonym v2_state = "message list \<times> nat set option"

definition read_var_int :: "bytes \<Rightarrow> nat \<Rightarrow> nat \<Rightarrow> nat res" where
  "read_var_int data pos sz =
     and_then (uadd pos sz) (\<lambda>e.
     and_then (ok_or (get_range data pos e) Format) (\<lambda>bs.
       if sz = 1 then and_then (index bs 0) (\<lambda>b. Inr (unat b))
       else if sz = 2 then Inr (from_le [bs ! 0, bs ! 1])
       else if sz = 4 then Inr (from_le [bs ! 0, bs ! 1, bs ! 2, bs ! 3])
       else if sz = 8 then Inr (from_le bs)
       else Inl Format))"

lemma read_var_int_read_int: "read_var_int = read_int"
  by (intro ext) (simp add: read_var_int_def read_int_def)

text \<open>\<^verbatim>\<open>get_or_insert_with(HashSet::new)\<close> followed by \<^verbatim>\<open>insert\<close>: the new set, and whether
  the address was new.\<close>

definition seen_insert :: "nat \<Rightarrow> nat set option \<Rightarrow> nat set option \<times> bool" where
  "seen_insert a seen =
     (let s = (case seen of None \<Rightarrow> {} | Some s \<Rightarrow> s) in (Some (insert a s), a \<notin> s))"

definition hdr_size :: "bool \<Rightarrow> nat" where
  "hdr_size track = (if track then 6 else 4)"

text \<open>The width of the chunk-0 size field, from the low two bits of the flags.\<close>

definition chunk_size_field_width :: "byte \<Rightarrow> nat" where
  "chunk_size_field_width flags = 2 ^ unat (and flags 3)"

section \<open>Continuation blocks\<close>

function ochk_loop ::
    "bytes \<Rightarrow> nat \<Rightarrow> bool \<Rightarrow> nat \<Rightarrow> nat \<Rightarrow> nat \<Rightarrow> v2_state \<Rightarrow> v2_state res"
  and parse_v2_ochk_block ::
    "bytes \<Rightarrow> nat \<Rightarrow> nat \<Rightarrow> bool \<Rightarrow> nat \<Rightarrow> nat \<Rightarrow> v2_state \<Rightarrow> v2_state res" where
  "ochk_loop file_data msg_area_end track first_addr depth pos st =
     and_then (uadd pos 4) (\<lambda>p4.
       if p4 > msg_area_end then Inr st
       else
         and_then (index file_data pos) (\<lambda>ty.
         and_then (index file_data (pos + 1)) (\<lambda>lo.
         and_then (index file_data (pos + 2)) (\<lambda>hi.
         let msg_size = from_le [lo, hi] in
         and_then (uadd pos (hdr_size track)) (\<lambda>data_start.
         and_then (uadd data_start msg_size) (\<lambda>data_end.
         and_then (uadd msg_area_end msg_size) (\<lambda>slack.
           if data_end > length file_data \<or> data_end > slack then Inr st
           else if ty = MSG_NIL_V2 then
             ochk_loop file_data msg_area_end track first_addr depth
               (pos + (hdr_size track + msg_size)) st
           else if ty = MSG_CONTINUATION_V2 then
             (if msg_size \<ge> 16 then
                and_then (read_u64_le file_data data_start) (\<lambda>sub_offset.
                and_then (read_u64_le file_data (data_start + 8)) (\<lambda>sub_length.
                and_then (parse_v2_ochk_block file_data sub_offset sub_length track first_addr
                            (depth + 1) st) (\<lambda>st'.
                  ochk_loop file_data msg_area_end track first_addr depth
                    (pos + (hdr_size track + msg_size)) st')))
              else
                ochk_loop file_data msg_area_end track first_addr depth
                  (pos + (hdr_size track + msg_size)) st)
           else
             and_then (slice file_data data_start data_end) (\<lambda>body.
               ochk_loop file_data msg_area_end track first_addr depth
                 (pos + (hdr_size track + msg_size))
                 (fst st @ [\<lparr>msg_type = unat ty, msg_data = body\<rparr>], snd st)))))))))"
| "parse_v2_ochk_block file_data block_start cont_length track first_addr depth st =
     (if depth > 256 then Inl Format
      else if block_start = first_addr then Inl Format
      else
        (case seen_insert block_start (snd st) of (seen, fresh) \<Rightarrow>
          if \<not> fresh then Inl Format
          else
            and_then (ok_or (usize_try_from block_start) Corrupted) (\<lambda>base.
            and_then (ok_or (checked_add base 4) Corrupted) (\<lambda>base4.
              if get_range file_data base base4 \<noteq> Some sig_OCHK then Inl Format
              else
                and_then (uadd block_start cont_length) (\<lambda>block_end.
                  let msg_area_end = min (block_end - 4) (length file_data) in
                  ochk_loop file_data msg_area_end track first_addr depth base4 (fst st, seen))))))"
  by pat_completeness auto
termination
proof (relation "measures
    [\<lambda>x. case x of Inl (d, e, t, f, depth, pos, st) \<Rightarrow> 2 * (257 - depth) + 1
                 | Inr (d, b, c, t, f, depth, st) \<Rightarrow> 2 * (258 - depth),
     \<lambda>x. case x of Inl (d, e, t, f, depth, pos, st) \<Rightarrow> e - pos | Inr _ \<Rightarrow> 0]", goal_cases)
qed (auto simp: hdr_size_def split: if_splits)

declare ochk_loop.simps [simp del] parse_v2_ochk_block.simps [simp del]

section \<open>The main block\<close>

function v2_loop :: "bytes \<Rightarrow> nat \<Rightarrow> bool \<Rightarrow> nat \<Rightarrow> nat \<Rightarrow> nat \<Rightarrow> v2_state \<Rightarrow> v2_state res" where
  "v2_loop file_data msg_end track first_addr depth pos st =
     and_then (uadd pos 4) (\<lambda>p4.
       if \<not> (p4 \<le> msg_end \<and> p4 \<le> length file_data) then Inr st
       else
         and_then (index file_data pos) (\<lambda>ty.
         and_then (ok_or (get_elem file_data (pos + 2)) Format) (\<lambda>hi.
         and_then (ok_or (get_elem file_data (pos + 1)) Format) (\<lambda>lo.
         let msg_size = from_le [lo, hi] in
         and_then (uadd pos (hdr_size track)) (\<lambda>data_start.
         and_then (uadd data_start msg_size) (\<lambda>data_end.
           if data_end > length file_data then Inr st
           else if ty = MSG_NIL_V2 then
             v2_loop file_data msg_end track first_addr depth (pos + (hdr_size track + msg_size)) st
           else if ty = MSG_CONTINUATION_V2 then
             (if msg_size \<ge> 16 then
                and_then (read_u64_le file_data data_start) (\<lambda>cont_offset.
                and_then (read_u64_le file_data (data_start + 8)) (\<lambda>cont_length.
                and_then (parse_v2_ochk_block file_data cont_offset cont_length track first_addr
                            (depth + 1) st) (\<lambda>st'.
                  v2_loop file_data msg_end track first_addr depth
                    (pos + (hdr_size track + msg_size)) st')))
              else
                v2_loop file_data msg_end track first_addr depth
                  (pos + (hdr_size track + msg_size)) st)
           else
             and_then (slice file_data data_start data_end) (\<lambda>body.
               v2_loop file_data msg_end track first_addr depth
                 (pos + (hdr_size track + msg_size))
                 (fst st @ [\<lparr>msg_type = unat ty, msg_data = body\<rparr>], snd st))))))))"
  by pat_completeness auto
termination
  by (relation "measure (\<lambda>(d, e, t, f, depth, pos, st). e - pos)")
    (auto simp: hdr_size_def split: if_splits)

declare v2_loop.simps [simp del]

text \<open>The bounds of the message region of a block and its creation-order flag: the two branches
  on the block's signature.\<close>

definition v2_block_region :: "bytes \<Rightarrow> nat \<Rightarrow> (nat \<times> nat \<times> bool) res" where
  "v2_block_region file_data base =
     (let sig = get_range file_data base (saturating_add base 4) in
      if sig = Some sig_OHDR then
        and_then (uadd base 4) (\<lambda>b4.
        and_then (ok_or (get_elem file_data b4) Format) (\<lambda>version.
          if version \<noteq> 2 then Inl (UnsupportedHeader version)
          else
            and_then (uadd base 5) (\<lambda>b5.
            and_then (ok_or (get_elem file_data b5) Format) (\<lambda>flags.
            let track_co = (and (drop_bit 2 flags) 1 = 1);
                width = chunk_size_field_width flags in
            and_then (uadd base 6) (\<lambda>p0.
            and_then (uadd p0 (if and (drop_bit 5 flags) 1 = 1 then 16 else 0)) (\<lambda>p1.
            and_then (uadd p1 (if and (drop_bit 4 flags) 1 = 1 then 4 else 0)) (\<lambda>p2.
            and_then (read_var_int file_data p2 width) (\<lambda>chunk0_size.
            and_then (uadd p2 width) (\<lambda>p.
            and_then (uadd p chunk0_size) (\<lambda>msg_end.
              Inr (p, msg_end, track_co)))))))))))
      else if sig = Some sig_OCHK then
        and_then (uadd base 4) (\<lambda>b4. Inr (b4, length file_data, False))
      else Inl Format)"

definition parse_v2_block :: "bytes \<Rightarrow> nat \<Rightarrow> nat \<Rightarrow> nat \<Rightarrow> v2_state \<Rightarrow> v2_state res" where
  "parse_v2_block file_data block_start first_addr depth st =
     (if depth > 256 then Inl Format
      else if block_start = first_addr \<and> depth > 0 then Inl Format
      else
        (case (if depth > 0 then seen_insert block_start (snd st) else (snd st, True)) of
           (seen, fresh) \<Rightarrow>
             if \<not> fresh then Inl Format
             else
               and_then (ok_or (usize_try_from block_start) Corrupted) (\<lambda>base.
               and_then (v2_block_region file_data base) (\<lambda>(msg_start, msg_end, track).
                 v2_loop file_data msg_end track first_addr depth msg_start (fst st, seen)))))"

text \<open>The capacity the message vector is created with, read from the chunk-0 size field.\<close>

definition v2_capacity :: "bytes \<Rightarrow> nat \<Rightarrow> nat res" where
  "v2_capacity file_data offset =
     (let base = (case usize_try_from offset of None \<Rightarrow> u64_max | Some b \<Rightarrow> b) in
      if base < length file_data then
        and_then (uadd base 6) (\<lambda>off.
        let width = chunk_size_field_width
              (case get_elem file_data (base + 5) of None \<Rightarrow> 0 | Some f \<Rightarrow> f) in
        and_then (uadd off width) (\<lambda>e.
        and_then
          (if e \<le> length file_data then
             (if width = 1 then and_then (index file_data off) (\<lambda>b. Inr (unat b))
              else if width = 2 then and_then (slice file_data off (off + 2)) (\<lambda>s. Inr (from_le s))
              else if width = 4 then and_then (slice file_data off (off + 4)) (\<lambda>s. Inr (from_le s))
              else Inr 0)
           else Inr 0)
          (\<lambda>chunk0_size. Inr (min (chunk0_size div 4) 64))))
      else Inr 0)"

definition parse_messages_v2 :: "bytes \<Rightarrow> nat \<Rightarrow> message list res" where
  "parse_messages_v2 file_data offset =
     and_then (v2_capacity file_data offset) (\<lambda>_.
     and_then (parse_v2_block file_data offset offset 0 ([], None)) (\<lambda>st. Inr (fst st)))"

definition parse_messages :: "bytes \<Rightarrow> nat \<Rightarrow> message list res" where
  "parse_messages file_data offset =
     and_then (ok_or (usize_try_from offset) Corrupted) (\<lambda>off.
     and_then (ok_or (checked_add off 4) Corrupted) (\<lambda>off4.
       if get_range file_data off off4 = Some sig_OHDR then parse_messages_v2 file_data offset
       else parse_messages_v1 file_data offset))"

section \<open>Encoded headers\<close>

text \<open>
  The specification side: the contents of a header as a tree. An item is an ordinary message (a
  padding message has type 0), or a continuation message together with the items of the block it
  names. Flattening the tree depth first gives the messages of the object.
\<close>

record v2_msg =
  v2_type :: byte
  v2_flags :: byte
  v2_order :: nat
  v2_body :: bytes

datatype v2_item = Plain v2_msg | Chunk v2_msg "v2_item list"

fun item_msg :: "v2_item \<Rightarrow> v2_msg" where
  "item_msg (Plain m) = m"
| "item_msg (Chunk m _) = m"

definition encode_v2_msg :: "bool \<Rightarrow> v2_msg \<Rightarrow> bytes" where
  "encode_v2_msg track m =
     v2_type m # to_le 2 (length (v2_body m))
     @ v2_flags m # (if track then to_le 2 (v2_order m) else []) @ v2_body m"

definition encode_items :: "bool \<Rightarrow> v2_item list \<Rightarrow> bytes" where
  "encode_items track items = concat (map (\<lambda>i. encode_v2_msg track (item_msg i)) items)"

definition chunk_addr :: "v2_msg \<Rightarrow> nat" where
  "chunk_addr m = from_le (take 8 (v2_body m))"

definition chunk_len :: "v2_msg \<Rightarrow> nat" where
  "chunk_len m = from_le (take 8 (drop 8 (v2_body m)))"

fun flatten_item :: "v2_item \<Rightarrow> message list" where
  "flatten_item (Plain m) =
     (if v2_type m = 0 then [] else [\<lparr>msg_type = unat (v2_type m), msg_data = v2_body m\<rparr>])"
| "flatten_item (Chunk m items) = concat (map flatten_item items)"

fun item_blocks :: "v2_item \<Rightarrow> nat list" where
  "item_blocks (Plain m) = []"
| "item_blocks (Chunk m items) = chunk_addr m # concat (map item_blocks items)"

fun item_depth :: "v2_item \<Rightarrow> nat" where
  "item_depth (Plain m) = 0"
| "item_depth (Chunk m items) = Suc (fold max (map item_depth items) 0)"

fun item_ok :: "bytes \<Rightarrow> bool \<Rightarrow> v2_item \<Rightarrow> bool" where
  "item_ok d track (Plain m) \<longleftrightarrow> v2_type m \<noteq> 0x10 \<and> length (v2_body m) < 65536"
| "item_ok d track (Chunk m items) \<longleftrightarrow>
     v2_type m = 0x10 \<and> 16 \<le> length (v2_body m) \<and> length (v2_body m) < 65536
     \<and> 8 \<le> chunk_len m \<and> chunk_addr m + chunk_len m \<le> length d
     \<and> take 4 (drop (chunk_addr m) d) = sig_OCHK
     \<and> take (chunk_len m - 8) (drop (chunk_addr m + 4) d) = encode_items track items
     \<and> list_all (item_ok d track) items"

definition flatten_items :: "v2_item list \<Rightarrow> message list" where
  "flatten_items items = concat (map flatten_item items)"

definition items_blocks :: "v2_item list \<Rightarrow> nat list" where
  "items_blocks items = concat (map item_blocks items)"

lemma items_simps [simp]:
  "flatten_items [] = []" "flatten_items (i # is) = flatten_item i @ flatten_items is"
  "items_blocks [] = []" "items_blocks (i # is) = item_blocks i @ items_blocks is"
  "encode_items track [] = []"
  "encode_items track (i # is) = encode_v2_msg track (item_msg i) @ encode_items track is"
  by (simp_all add: flatten_items_def items_blocks_def encode_items_def)

lemma fold_max_le: "fold max xs (a :: nat) \<le> k \<longleftrightarrow> a \<le> k \<and> (\<forall>x\<in>set xs. x \<le> k)"
  by (induction xs arbitrary: a) auto

text \<open>The set of seen addresses after visiting some more.\<close>

definition seen_set :: "nat set option \<Rightarrow> nat set" where
  "seen_set seen = (case seen of None \<Rightarrow> {} | Some s \<Rightarrow> s)"

definition add_seen :: "nat list \<Rightarrow> nat set option \<Rightarrow> nat set option" where
  "add_seen as seen = (if as = [] then seen else Some (set as \<union> seen_set seen))"

lemma seen_set_add [simp]: "seen_set (add_seen as seen) = set as \<union> seen_set seen"
  by (simp add: add_seen_def seen_set_def)

lemma add_seen_simps [simp]:
  "add_seen [] seen = seen"
  "add_seen bs (add_seen as seen) = add_seen (as @ bs) seen"
  by (auto simp: add_seen_def seen_set_def)

lemma add_seen_insert: "add_seen (a # as) seen = add_seen as (Some (insert a (seen_set seen)))"
  by (auto simp: add_seen_def seen_set_def)

lemma seen_insert_fresh:
  "a \<notin> seen_set seen \<Longrightarrow> seen_insert a seen = (Some (insert a (seen_set seen)), True)"
  by (simp add: seen_insert_def seen_set_def Let_def split: option.splits)

section \<open>One message\<close>

lemma length_encode_v2_msg [simp]:
  "length (encode_v2_msg track m) = hdr_size track + length (v2_body m)"
  by (simp add: encode_v2_msg_def hdr_size_def)

text \<open>The header bytes of a message as the loops read them.\<close>

definition msg_bytes :: "bytes \<Rightarrow> nat \<Rightarrow> bool \<Rightarrow> v2_msg \<Rightarrow> bool" where
  "msg_bytes d pos track m \<longleftrightarrow>
     pos + hdr_size track + length (v2_body m) \<le> length d
     \<and> d ! pos = v2_type m \<and> from_le [d ! (pos + 1), d ! (pos + 2)] = length (v2_body m)
     \<and> take (length (v2_body m)) (drop (pos + hdr_size track) d) = v2_body m"

lemma nth_from_drop: "pos \<le> length d \<Longrightarrow> d ! (pos + k) = drop pos d ! k"
  by simp

lemma msg_bytesI:
  assumes "drop pos d = encode_v2_msg track m @ rest" and "length (v2_body m) < 65536"
  shows "msg_bytes d pos track m"
proof -
  let ?n = "length (v2_body m)"
  have l: "pos + hdr_size track + ?n \<le> length d"
    using arg_cong[OF assms(1), of length] by (auto simp: hdr_size_def split: if_splits)
  then have p: "pos \<le> length d" by linarith
  have two: "to_le 2 ?n = [of_nat (?n mod 256), of_nat (?n div 256 mod 256)]"
    by (simp add: le_eval)
  have "d ! pos = v2_type m"
    using nth_from_drop[OF p, of 0] assms(1) by (simp add: encode_v2_msg_def)
  moreover have "[d ! (pos + 1), d ! (pos + 2)] = to_le 2 ?n"
    unfolding nth_from_drop[OF p] assms(1) by (simp add: encode_v2_msg_def two)
  then have "from_le [d ! (pos + 1), d ! (pos + 2)] = ?n"
    using from_le_to_le[of ?n 2] assms(2) by (simp del: from_le.simps)
  moreover have "take ?n (drop (pos + hdr_size track) d) = v2_body m"
  proof -
    have "drop (pos + hdr_size track) d = drop (hdr_size track) (drop pos d)"
      by (simp add: add.commute)
    then show ?thesis unfolding assms(1) by (simp add: encode_v2_msg_def hdr_size_def)
  qed
  ultimately show ?thesis using l by (simp add: msg_bytes_def)
qed

lemma take_drop_field: "16 \<le> length b \<Longrightarrow> take (length b) (drop p d) = b \<Longrightarrow>
    field 8 d p = from_le (take 8 b) \<and> field 8 d (p + 8) = from_le (take 8 (drop 8 b))"
proof -
  assume len: "16 \<le> length b" and b: "take (length b) (drop p d) = b"
  have "take 8 (drop p d) = take 8 b"
  proof -
    have "take 8 b = take 8 (take (length b) (drop p d))" by (simp add: b)
    also have "\<dots> = take 8 (drop p d)" using len by (simp only: take_take) simp
    finally show ?thesis by simp
  qed
  moreover have "take 8 (drop (p + 8) d) = take 8 (drop 8 b)"
  proof -
    have "take 8 (drop 8 b) = take 8 (drop 8 (take (length b) (drop p d)))" by (simp add: b)
    also have "\<dots> = take 8 (drop (p + 8) d)" using len by (simp add: drop_take add.commute)
    finally show ?thesis by simp
  qed
  ultimately show ?thesis by (simp add: field_def)
qed

lemma hdr_size_bounds: "4 \<le> hdr_size track" "hdr_size track \<le> 6"
  by (simp_all add: hdr_size_def)

lemma ochk_loop_plain:
  assumes "msg_bytes d pos track m" and "v2_type m \<noteq> 0x10" and "length d \<le> isize_max"
    and "pos + hdr_size track + length (v2_body m) \<le> end_pos" and "end_pos \<le> length d"
  shows "ochk_loop d end_pos track first depth pos (ms, seen)
           = ochk_loop d end_pos track first depth (pos + (hdr_size track + length (v2_body m)))
               (ms @ flatten_item (Plain m), seen)"
  using assms hdr_size_bounds[of track]
  by (subst ochk_loop.simps)
    (auto simp: msg_bytes_def index_def get_elem_def slice_def get_range_def Let_def
      simp del: from_le.simps)

lemma ochk_loop_chunk:
  assumes "msg_bytes d pos track m" and "v2_type m = 0x10" and "16 \<le> length (v2_body m)"
    and "length d \<le> isize_max"
    and "pos + hdr_size track + length (v2_body m) \<le> end_pos" and "end_pos \<le> length d"
  shows "ochk_loop d end_pos track first depth pos st
           = and_then (parse_v2_ochk_block d (chunk_addr m) (chunk_len m) track first (depth + 1) st)
               (ochk_loop d end_pos track first depth (pos + (hdr_size track + length (v2_body m))))"
  using assms hdr_size_bounds[of track]
    take_drop_field[of "v2_body m" "pos + hdr_size track" d]
  by (subst ochk_loop.simps)
    (auto simp: msg_bytes_def index_def get_elem_def Let_def read_u64_le_eq
      chunk_addr_def chunk_len_def simp del: from_le.simps)

lemma v2_loop_plain:
  assumes "msg_bytes d pos track m" and "v2_type m \<noteq> 0x10" and "length d \<le> isize_max"
    and "pos + hdr_size track + length (v2_body m) \<le> end_pos"
  shows "v2_loop d end_pos track first depth pos (ms, seen)
           = v2_loop d end_pos track first depth (pos + (hdr_size track + length (v2_body m)))
               (ms @ flatten_item (Plain m), seen)"
  using assms hdr_size_bounds[of track]
  by (subst v2_loop.simps)
    (auto simp: msg_bytes_def index_def get_elem_def slice_def get_range_def Let_def
      simp del: from_le.simps)

lemma v2_loop_chunk:
  assumes "msg_bytes d pos track m" and "v2_type m = 0x10" and "16 \<le> length (v2_body m)"
    and "length d \<le> isize_max"
    and "pos + hdr_size track + length (v2_body m) \<le> end_pos"
  shows "v2_loop d end_pos track first depth pos st
           = and_then (parse_v2_ochk_block d (chunk_addr m) (chunk_len m) track first (depth + 1) st)
               (v2_loop d end_pos track first depth (pos + (hdr_size track + length (v2_body m))))"
  using assms hdr_size_bounds[of track]
    take_drop_field[of "v2_body m" "pos + hdr_size track" d]
  by (subst v2_loop.simps)
    (auto simp: msg_bytes_def index_def get_elem_def Let_def read_u64_le_eq
      chunk_addr_def chunk_len_def simp del: from_le.simps)

section \<open>Whole headers\<close>

lemma item_ok_list: "list_all (item_ok d track) is \<Longrightarrow> i \<in> set is \<Longrightarrow> item_ok d track i"
  by (auto simp: list_all_iff)

lemma ochk_loop_stop:
  "length d \<le> isize_max \<Longrightarrow> pos \<le> length d \<Longrightarrow> ochk_loop d pos track first depth pos st = Inr st"
  by (subst ochk_loop.simps) simp

lemma v2_loop_stop:
  "length d \<le> isize_max \<Longrightarrow> pos \<le> length d \<Longrightarrow> v2_loop d pos track first depth pos st = Inr st"
  by (subst v2_loop.simps) simp

definition items_fit :: "nat \<Rightarrow> nat \<Rightarrow> nat set \<Rightarrow> v2_item list \<Rightarrow> bool" where
  "items_fit first depth seen is \<longleftrightarrow>
     distinct (items_blocks is) \<and> set (items_blocks is) \<inter> seen = {} \<and> first \<notin> set (items_blocks is)
     \<and> (\<forall>i\<in>set is. depth + item_depth i \<le> 256)"

lemma items_fit_Cons:
  "items_fit first depth seen (i # is) \<longleftrightarrow>
     items_fit first depth seen [i] \<and> items_fit first depth (set (item_blocks i) \<union> seen) is"
  by (auto simp: items_fit_def)

lemma item_depth_le: "i \<in> set is \<Longrightarrow> item_depth i \<le> fold max (map item_depth is) 0"
  using fold_max_le[of "map item_depth is" 0 "fold max (map item_depth is) 0"] by auto

lemma items_fit_chunk:
  assumes "items_fit first depth seen [Chunk m is]"
  shows "chunk_addr m \<noteq> first \<and> chunk_addr m \<notin> seen \<and> depth < 256
     \<and> items_fit first (depth + 1) (insert (chunk_addr m) seen) is"
proof -
  have "depth + 1 + item_depth i \<le> 256" if "i \<in> set is" for i
    using item_depth_le[OF that] assms by (simp add: items_fit_def)
  with assms show ?thesis by (auto simp: items_fit_def items_blocks_def)
qed

text \<open>A continuation block whose items fit is parsed to the flattened items.\<close>

lemma parse_ochk_via_loop:
  assumes ok: "item_ok d track (Chunk m is)" and fit: "items_fit first depth (seen_set seen) [Chunk m is]"
    and len: "length d \<le> isize_max"
    and loop: "\<And>pos end_pos rest. drop pos d = encode_items track is @ rest \<Longrightarrow>
        end_pos = pos + length (encode_items track is) \<Longrightarrow> pos \<le> length d \<Longrightarrow>
        ochk_loop d end_pos track first (depth + 1) pos (ms, Some (insert (chunk_addr m) (seen_set seen)))
          = Inr (ms @ flatten_items is, add_seen (items_blocks is) (Some (insert (chunk_addr m) (seen_set seen))))"
  shows "parse_v2_ochk_block d (chunk_addr m) (chunk_len m) track first (depth + 1) (ms, seen)
           = Inr (ms @ flatten_item (Chunk m is), add_seen (item_blocks (Chunk m is)) seen)"
proof -
  let ?a = "chunk_addr m" and ?l = "chunk_len m"
  have b: "8 \<le> ?l" "?a + ?l \<le> length d" "take 4 (drop ?a d) = sig_OCHK"
    "take (?l - 8) (drop (?a + 4) d) = encode_items track is"
    using ok by auto
  have el: "length (encode_items track is) = ?l - 8"
    using arg_cong[OF b(4), of length] b(1,2) by simp
  have "drop (?a + 4) d = encode_items track is @ drop (?l - 8) (drop (?a + 4) d)"
    by (metis b(4) append_take_drop_id)
  then have "ochk_loop d (?a + ?l - 4) track first (depth + 1) (?a + 4)
        (ms, Some (insert ?a (seen_set seen)))
      = Inr (ms @ flatten_items is, add_seen (items_blocks is) (Some (insert ?a (seen_set seen))))"
    by (rule loop) (use el b in auto)
  moreover have "min (?a + ?l - 4) (length d) = ?a + ?l - 4" using b by simp
  moreover have "seen_insert ?a seen = (Some (insert ?a (seen_set seen)), True)"
    using items_fit_chunk[OF fit] by (intro seen_insert_fresh) simp
  ultimately show ?thesis
    using items_fit_chunk[OF fit] b len
    by (subst parse_v2_ochk_block.simps)
      (simp add: get_range_def Let_def flatten_items_def items_blocks_def
        add_seen_insert[of ?a "concat (map item_blocks is)"])
qed

lemma ochk_loop_items:
  assumes "list_all (item_ok d track) is" and "drop pos d = encode_items track is @ rest"
    and "end_pos = pos + length (encode_items track is)" and "pos \<le> length d"
    and "length d \<le> isize_max" and "items_fit first depth (seen_set seen) is"
  shows "ochk_loop d end_pos track first depth pos (ms, seen)
           = Inr (ms @ flatten_items is, add_seen (items_blocks is) seen)"
  using assms
proof (induction "size_list size is" arbitrary: "is" pos rest ms seen depth end_pos rule: less_induct)
  case less
  show ?case
  proof (cases "is")
    case Nil
    then show ?thesis using less.prems by (simp add: ochk_loop_stop)
  next
    case (Cons i is')
    let ?m = "item_msg i" and ?next = "pos + length (encode_v2_msg track (item_msg i))"
    have ok: "item_ok d track i" and oks: "list_all (item_ok d track) is'"
      using less.prems(1) Cons by auto
    have d: "drop pos d = encode_v2_msg track ?m @ (encode_items track is' @ rest)"
      using less.prems(2) Cons by simp
    have "length (v2_body ?m) < 65536" using ok by (cases i) auto
    from msg_bytesI[OF d this] have mb: "msg_bytes d pos track ?m" .
    have d': "drop ?next d = encode_items track is' @ rest"
      using arg_cong[OF d, of "drop (length (encode_v2_msg track ?m))"] by (simp add: add.commute)
    have e: "end_pos = ?next + length (encode_items track is')"
      using less.prems(3) Cons by simp
    have nl: "?next + length (encode_items track is') \<le> length d"
      using arg_cong[OF d', of length] mb by (auto simp: msg_bytes_def)
    have fit: "items_fit first depth (seen_set seen) [i]"
      and fits: "items_fit first depth (set (item_blocks i) \<union> seen_set seen) is'"
      using less.prems(6) items_fit_Cons[of first depth "seen_set seen" i is'] Cons by simp_all
    have rest_loop: "ochk_loop d end_pos track first depth ?next (ms', add_seen (item_blocks i) seen)
        = Inr (ms' @ flatten_items is', add_seen (items_blocks is') (add_seen (item_blocks i) seen))"
      for ms'
      by (rule less.hyps) (use Cons oks d' e nl less.prems(5) fits in auto)
    show ?thesis
    proof (cases i)
      case (Plain m)
      have "ochk_loop d end_pos track first depth pos (ms, seen)
          = ochk_loop d end_pos track first depth ?next (ms @ flatten_item i, seen)"
        using ochk_loop_plain[of d pos track m end_pos first depth ms seen] mb ok e nl less.prems(5) Plain
        by (simp add: add.assoc)
      with rest_loop[of "ms @ flatten_item i"] Cons Plain show ?thesis by simp
    next
      case (Chunk m js)
      have "parse_v2_ochk_block d (chunk_addr m) (chunk_len m) track first (depth + 1) (ms, seen)
          = Inr (ms @ flatten_item (Chunk m js), add_seen (item_blocks (Chunk m js)) seen)"
      proof (rule parse_ochk_via_loop)
        fix pos' end' rest'
        assume "drop pos' d = encode_items track js @ rest'"
          "end' = pos' + length (encode_items track js)" "pos' \<le> length d"
        then show "ochk_loop d end' track first (depth + 1) pos'
              (ms, Some (insert (chunk_addr m) (seen_set seen)))
            = Inr (ms @ flatten_items js, add_seen (items_blocks js) (Some (insert (chunk_addr m) (seen_set seen))))"
          using items_fit_chunk[of first depth "seen_set seen" m js] fit ok Chunk Cons less.prems(5)
          by (intro less.hyps[where rest = rest']) (auto simp: seen_set_def)
      qed (use ok fit Chunk less.prems(5) in simp_all)
      moreover have "ochk_loop d end_pos track first depth pos (ms, seen)
          = and_then (parse_v2_ochk_block d (chunk_addr m) (chunk_len m) track first (depth + 1) (ms, seen))
              (ochk_loop d end_pos track first depth ?next)"
        using ochk_loop_chunk[of d pos track m end_pos first depth "(ms, seen)"] mb ok e nl less.prems(5) Chunk
        by (simp add: add.assoc)
      ultimately show ?thesis
        using rest_loop[of "ms @ flatten_item i"] Cons Chunk by simp
    qed
  qed
qed

lemma parse_ochk_item:
  assumes "item_ok d track (Chunk m is)" and "items_fit first depth (seen_set seen) [Chunk m is]"
    and "length d \<le> isize_max"
  shows "parse_v2_ochk_block d (chunk_addr m) (chunk_len m) track first (depth + 1) (ms, seen)
           = Inr (ms @ flatten_item (Chunk m is), add_seen (item_blocks (Chunk m is)) seen)"
proof (rule parse_ochk_via_loop[OF assms])
  fix pos end_pos rest
  assume "drop pos d = encode_items track is @ rest"
    "end_pos = pos + length (encode_items track is)" "pos \<le> length d"
  then show "ochk_loop d end_pos track first (depth + 1) pos (ms, Some (insert (chunk_addr m) (seen_set seen)))
      = Inr (ms @ flatten_items is, add_seen (items_blocks is) (Some (insert (chunk_addr m) (seen_set seen))))"
    using items_fit_chunk[OF assms(2)] assms(1,3)
    by (intro ochk_loop_items[where rest = rest]) (auto simp: seen_set_def)
qed

lemma v2_loop_items:
  assumes "list_all (item_ok d track) is" and "drop pos d = encode_items track is @ rest"
    and "end_pos = pos + length (encode_items track is)" and "pos \<le> length d"
    and "length d \<le> isize_max" and "items_fit first depth (seen_set seen) is"
  shows "v2_loop d end_pos track first depth pos (ms, seen)
           = Inr (ms @ flatten_items is, add_seen (items_blocks is) seen)"
  using assms
proof (induction "is" arbitrary: pos ms seen)
  case Nil
  then show ?case by (simp add: v2_loop_stop)
next
  case (Cons i is')
  let ?m = "item_msg i" and ?next = "pos + length (encode_v2_msg track (item_msg i))"
  have ok: "item_ok d track i" using Cons.prems(1) by simp
  have d: "drop pos d = encode_v2_msg track ?m @ (encode_items track is' @ rest)"
    using Cons.prems(2) by simp
  have "length (v2_body ?m) < 65536" using ok by (cases i) auto
  from msg_bytesI[OF d this] have mb: "msg_bytes d pos track ?m" .
  have d': "drop ?next d = encode_items track is' @ rest"
    using arg_cong[OF d, of "drop (length (encode_v2_msg track ?m))"] by (simp add: add.commute)
  have e: "end_pos = ?next + length (encode_items track is')"
    using Cons.prems(3) by simp
  have nl: "?next \<le> length d" using mb by (auto simp: msg_bytes_def)
  have fit: "items_fit first depth (seen_set seen) [i]"
    and fits: "items_fit first depth (set (item_blocks i) \<union> seen_set seen) is'"
    using Cons.prems(6) items_fit_Cons[of first depth "seen_set seen" i is'] by simp_all
  have rest_loop: "v2_loop d end_pos track first depth ?next (ms', add_seen (item_blocks i) seen)
      = Inr (ms' @ flatten_items is', add_seen (items_blocks is') (add_seen (item_blocks i) seen))" for ms'
    by (rule Cons.IH) (use Cons.prems(1,5) d' e nl fits in auto)
  show ?case
  proof (cases i)
    case (Plain m)
    with v2_loop_plain[of d pos track m end_pos first depth ms seen] mb ok e Cons.prems(5)
      rest_loop[of "ms @ flatten_item i"]
    show ?thesis by (simp add: add.assoc)
  next
    case (Chunk m js)
    with v2_loop_chunk[of d pos track m end_pos first depth "(ms, seen)"] mb ok e Cons.prems(5)
      rest_loop[of "ms @ flatten_item i"] parse_ochk_item[of d track m js first depth seen ms] fit
    show ?thesis by (simp add: add.assoc)
  qed
qed

section \<open>Properties\<close>

text \<open>A file that holds, at \<open>base\<close>, a version-2 object header with the given contents.\<close>

definition flag_set :: "byte \<Rightarrow> nat \<Rightarrow> bool" where
  "flag_set flags n \<longleftrightarrow> and (drop_bit n flags) 1 = 1"

definition v2_size_pos :: "nat \<Rightarrow> byte \<Rightarrow> nat" where
  "v2_size_pos base flags =
     base + 6 + (if flag_set flags 5 then 16 else 0) + (if flag_set flags 4 then 4 else 0)"

definition v2_header_at :: "bytes \<Rightarrow> nat \<Rightarrow> byte \<Rightarrow> v2_item list \<Rightarrow> bool" where
  "v2_header_at d base flags items \<longleftrightarrow>
     (let track = flag_set flags 2; width = chunk_size_field_width flags;
          p = v2_size_pos base flags; region = encode_items track items
      in take 6 (drop base d) = sig_OHDR @ [2, flags]
         \<and> p + width + length region \<le> length d
         \<and> field width d p = length region
         \<and> take (length region) (drop (p + width) d) = region
         \<and> list_all (item_ok d track) items
         \<and> items_fit base 0 {} items)"

lemma chunk_size_field_width_cases:
  "chunk_size_field_width f = 1 \<or> chunk_size_field_width f = 2
   \<or> chunk_size_field_width f = 4 \<or> chunk_size_field_width f = 8"
proof -
  have "unat (and f 3) < 4"
  proof -
    have "and f 3 \<le> 3" by (rule word_and_le1)
    then have "unat (and f 3) \<le> unat (3 :: byte)" by (simp only: word_le_nat_alt)
    then show ?thesis by simp
  qed
  then have "unat (and f 3) \<in> {0, 1, 2, 3}" by auto
  then show ?thesis by (auto simp: chunk_size_field_width_def)
qed

lemma chunk_size_width_ok: "int_width (chunk_size_field_width f)" "chunk_size_field_width f \<le> 8"
  using chunk_size_field_width_cases[of f] by (auto simp: int_width_def)

lemma take6_parts:
  assumes "take 6 (drop base d) = [a, b, c, e, v, f]" and "base + 6 \<le> length d"
  shows "take 4 (drop base d) = [a, b, c, e] \<and> d ! (base + 4) = v \<and> d ! (base + 5) = f"
proof -
  have "take 4 (drop base d) = take 4 (take 6 (drop base d))" by simp
  moreover have "d ! (base + k) = take 6 (drop base d) ! k" if "k < 6" for k
    using assms(2) that by simp
  ultimately show ?thesis using assms(1) by (simp del: nth_take nth_drop)
qed

lemma v2_capacity_small:
  assumes "length d \<le> isize_max"
  shows "\<exists>c \<le> 64. v2_capacity d off = Inr c"
proof (cases "off < length d")
  case True
  define w where "w = chunk_size_field_width (case get_elem d (off + 5) of None \<Rightarrow> 0 | Some f \<Rightarrow> f)"
  have "w \<le> 8" by (simp add: w_def chunk_size_width_ok)
  with True assms show ?thesis
    by (auto simp: v2_capacity_def Let_def w_def[symmetric])
next
  case False
  then have "\<not> (case usize_try_from off of None \<Rightarrow> u64_max | Some b \<Rightarrow> b) < length d"
    using assms by (auto split: option.splits)
  then show ?thesis by (auto simp: v2_capacity_def Let_def)
qed

text \<open>
  C24. A version-2 object header yields exactly the messages of its tree of blocks, depth first:
  padding messages are skipped without ending the scan, every continuation block contributes its
  messages at the place of the message that names it, and the creation-order field is accounted
  for in every block of an object that tracks it. The blocks are at most 256 deep and no block
  is named twice.
\<close>

theorem parse_messages_v2_correct:
  assumes "v2_header_at d base flags items" and "length d \<le> isize_max"
  shows "parse_messages d base = Inr (flatten_items items)"
proof -
  define track where "track = flag_set flags 2"
  define w where "w = chunk_size_field_width flags"
  define p where "p = v2_size_pos base flags"
  let ?region = "encode_items track items"
  have hdr: "take 6 (drop base d) = sig_OHDR @ [2, flags]" "p + w + length ?region \<le> length d"
    "field w d p = length ?region" "take (length ?region) (drop (p + w) d) = ?region"
    "list_all (item_ok d track) items" "items_fit base 0 {} items"
    using assms(1) by (auto simp: v2_header_at_def Let_def track_def w_def p_def)
  have p6: "base + 6 \<le> p" by (simp add: p_def v2_size_pos_def)
  have b6: "base + 6 \<le> length d" using hdr(2) p6 by simp
  have bytes: "take 4 (drop base d) = sig_OHDR" "d ! (base + 4) = 2" "d ! (base + 5) = flags"
    using take6_parts[where base = base and d = d and f = flags] hdr(1) b6
    by (simp_all add: sig_OHDR_def)
  have w8: "int_width w" by (simp add: w_def chunk_size_width_ok)
  have "v2_block_region d base = Inr (p + w, p + w + length ?region, track)"
    using bytes b6 hdr(2,3) w8 p6 assms(2)
    by (simp add: v2_block_region_def saturating_add_def Let_def read_var_int_read_int read_int_eq
        w_def[symmetric] track_def flag_set_def p_def v2_size_pos_def)
  moreover have "drop (p + w) d = ?region @ drop (length ?region) (drop (p + w) d)"
    by (metis hdr(4) append_take_drop_id)
  then have "v2_loop d (p + w + length ?region) track base 0 (p + w) ([], None)
      = Inr ([] @ flatten_items items, add_seen (items_blocks items) None)"
    by (rule v2_loop_items[OF hdr(5)]) (use hdr(2,6) assms(2) in \<open>auto simp: seen_set_def\<close>)
  moreover have "base < u64_lim" using b6 assms(2) by simp
  ultimately have "parse_v2_block d base base 0 ([], None)
      = Inr (flatten_items items, add_seen (items_blocks items) None)"
    by (simp add: parse_v2_block_def)
  moreover obtain c where "v2_capacity d base = Inr c"
    using v2_capacity_small[OF assms(2)] by blast
  ultimately have "parse_messages_v2 d base = Inr (flatten_items items)"
    by (simp add: parse_messages_v2_def)
  with bytes(1) b6 assms(2) show ?thesis by (simp add: parse_messages_def)
qed

text \<open>A header that tracks creation order: a padding message, a continuation, and behind the
  padding a message that must not be lost.\<close>

definition tiny_v2_chunk :: v2_msg where
  "tiny_v2_chunk = \<lparr>v2_type = 16, v2_flags = 0, v2_order = 1, v2_body = to_le 8 50 @ to_le 8 15\<rparr>"

definition tiny_v2_items :: "v2_item list" where
  "tiny_v2_items =
     [Plain \<lparr>v2_type = 0, v2_flags = 0, v2_order = 0, v2_body = [0, 0]\<rparr>,
      Chunk tiny_v2_chunk [Plain \<lparr>v2_type = 6, v2_flags = 0, v2_order = 2, v2_body = [5]\<rparr>],
      Plain \<lparr>v2_type = 12, v2_flags = 0, v2_order = 3, v2_body = [9]\<rparr>]"

definition tiny_v2 :: bytes where
  "tiny_v2 = sig_OHDR @ [2, 4, 37] @ encode_items True tiny_v2_items @ [0, 0, 0, 0, 0, 0]
     @ sig_OCHK @ encode_v2_msg True \<lparr>v2_type = 6, v2_flags = 0, v2_order = 2, v2_body = [5]\<rparr>
     @ [0, 0, 0, 0]"

theorem parse_messages_v2_correct_witness:
  "parse_messages tiny_v2 0 =
     Inr [\<lparr>msg_type = 6, msg_data = [5]\<rparr>, \<lparr>msg_type = 12, msg_data = [9]\<rparr>]"
proof -
  have "v2_header_at tiny_v2 0 4 tiny_v2_items"
    by (simp add: v2_header_at_def tiny_v2_def tiny_v2_items_def tiny_v2_chunk_def encode_v2_msg_def
        sig_OHDR_def sig_OCHK_def flag_set_def chunk_size_field_width_def v2_size_pos_def Let_def
        field_def chunk_addr_def chunk_len_def items_fit_def le_eval)
  moreover have "length tiny_v2 \<le> isize_max"
    by (simp add: tiny_v2_def tiny_v2_items_def tiny_v2_chunk_def sig_OHDR_def sig_OCHK_def hdr_size_def)
  ultimately have "parse_messages tiny_v2 0 = Inr (flatten_items tiny_v2_items)"
    by (rule parse_messages_v2_correct)
  then show ?thesis by (simp add: tiny_v2_items_def)
qed

text \<open>
  The chunk-0 size of a version-2 header is added to a file position without a check: a
  header that declares an eight-byte size close to the top of the range makes the parser panic.
\<close>

theorem parse_messages_v2_size_overflow:
  assumes "sz < u64_lim" and "u64_lim \<le> 14 + sz"
  shows "parse_messages (sig_OHDR @ [2, 3] @ to_le 8 sz) 0 = Inl Panic"
proof -
  let ?d = "sig_OHDR @ [2, 3] @ to_le 8 sz"
  have f: "field 8 ?d 6 = sz"
    using assms(1) by (simp add: field_def sig_OHDR_def from_le_to_le)
  have len: "length ?d = 14" by (simp add: sig_OHDR_def)
  have three: "chunk_size_field_width 3 = 8" by (simp add: chunk_size_field_width_def)
  have "v2_block_region ?d 0 = Inl Panic"
    using f assms len
    by (simp add: v2_block_region_def sig_OHDR_def Let_def read_var_int_read_int
        read_int_eq int_width_def three saturating_add_def nth_append uadd_def)
  then have "parse_v2_block ?d 0 0 0 ([], None) = Inl Panic"
    by (simp add: parse_v2_block_def)
  moreover have "\<exists>c. v2_capacity ?d 0 = Inr c"
    using v2_capacity_small[of ?d 0] len by (auto simp del: append.simps)
  ultimately show ?thesis
    by (auto simp: parse_messages_def parse_messages_v2_def get_range_def sig_OHDR_def)
qed

theorem parse_messages_v2_size_overflow_witness:
  "parse_messages (sig_OHDR @ [2, 3] @ to_le 8 u64_max) 0 = Inl Panic"
  by (rule parse_messages_v2_size_overflow) simp_all

text \<open>
  A size field of the file never drives an allocation of more than 64 slots for the message
  list, and computing that capacity never fails.
\<close>

theorem v2_capacity_bounded:
  assumes "length file_data \<le> isize_max"
  shows "\<exists>c. v2_capacity file_data offset = Inr c \<and> c \<le> 64"
  using v2_capacity_small[OF assms] by blast

theorem v2_capacity_bounded_witness: "\<exists>c. v2_capacity [1, 2, 3] 1 = Inr c \<and> c \<le> 64"
  by (rule v2_capacity_bounded) simp

end
