(* ===== verification/Filters.thy ===== *)
theory Filters
  imports Buffers
begin

text \<open>
  The chunk filters of \<^verbatim>\<open>oxih5-format/src/filters.rs\<close>: the shuffle byte transpose and its
  inverse, the Fletcher-32 checksum of libhdf5 (32-bit accumulators with a deferred carry
  every 360 words), n-bit unpacking, the integer scale-offset decoder, and the pipeline that
  undoes a list of filters in reverse order under a per-chunk mask.

  The DEFLATE codec (crate \<^verbatim>\<open>oxiarc_deflate\<close>) and the szip decoder (crate
  \<^verbatim>\<open>oxiarc_szip\<close>, behind a Cargo feature that is off by default) are not part of the
  repository: they are the fields of a record \<open>codecs\<close> every operation that may call them
  takes as an argument.
\<close>

section \<open>Filters and external codecs\<close>

record filter_info =
  filter_id :: nat
  filter_name :: "str option"
  filter_flags :: nat
  client_data :: "nat list"

record filter_pipeline =
  pipeline_filters :: "filter_info list"

record szip_params =
  bits_per_pixel :: nat
  pixels_per_block :: nat
  szip_samples :: nat
  reference_sample_interval :: nat
  szip_msb :: bool
  nn_preprocess :: bool
  rsi_byte_align :: bool

text \<open>\<open>szip_decoder = None\<close>: the library is built without the \<^verbatim>\<open>szip\<close> feature.\<close>

record codecs =
  zlib_decompress :: "bytes \<Rightarrow> bytes option"
  zlib_compress :: "bytes \<Rightarrow> nat \<Rightarrow> bytes option"
  szip_decoder :: "(bytes \<Rightarrow> szip_params \<Rightarrow> bytes option) option"

abbreviation (input) DEFLATE :: nat where "DEFLATE \<equiv> 1"
abbreviation (input) SHUFFLE :: nat where "SHUFFLE \<equiv> 2"
abbreviation (input) FLETCHER32 :: nat where "FLETCHER32 \<equiv> 3"
abbreviation (input) SZIP :: nat where "SZIP \<equiv> 4"
abbreviation (input) NBIT :: nat where "NBIT \<equiv> 5"
abbreviation (input) SCALEOFFSET :: nat where "SCALEOFFSET \<equiv> 6"

definition max_deflate_level :: nat where
  "max_deflate_level = 9"

definition inflate_deflate :: "codecs \<Rightarrow> bytes \<Rightarrow> bytes res" where
  "inflate_deflate c data = ok_or (zlib_decompress c data) Corrupted"

definition deflate_compress :: "codecs \<Rightarrow> bytes \<Rightarrow> nat \<Rightarrow> bytes res" where
  "deflate_compress c data level =
     (if level > max_deflate_level then Inl Format
      else ok_or (zlib_compress c data level) Corrupted)"

section \<open>The contract of an invertible filter\<close>

text \<open>
  A write-side transform with its read-side inverse. The one law is that undoing succeeds and
  gives back the input on everything the transform produced.
\<close>

locale invertible_filter =
  fixes fwd :: "bytes \<Rightarrow> bytes res"
    and inv :: "bytes \<Rightarrow> bytes res"
  assumes inv_fwd: "fwd d = Inr e \<Longrightarrow> inv e = Inr d"
begin

lemma fwd_inj: "fwd d = Inr e \<Longrightarrow> fwd d' = Inr e \<Longrightarrow> d = d'"
  by (metis inv_fwd sum.inject(2))

text \<open>One more filter around a stack that is already undone.\<close>

lemma undo_then:
  assumes "fwd d = Inr e"
  shows "and_then (inv e) k = k d"
  using inv_fwd[OF assms] by simp

end

section \<open>Shuffle\<close>

text \<open>
  Every index of these loops is below the length of a buffer, so the index arithmetic cannot
  overflow; the accesses keep their bounds checks.
\<close>

definition shuffle :: "bytes \<Rightarrow> nat \<Rightarrow> bytes res" where
  "shuffle data elem_size =
     (if elem_size = 0 then Inl Format
      else if length data mod elem_size \<noteq> 0 then Inl Format
      else
        let n_elems = length data div elem_size in
        fold_res (\<lambda>byte_pos. fold_res (\<lambda>elem_idx out.
            and_then (index data (elem_idx * elem_size + byte_pos)) (\<lambda>b.
              put_elem out (byte_pos * n_elems + elem_idx) b)) [0..<n_elems])
          [0..<elem_size] (replicate (length data) 0))"

definition unshuffle :: "bytes \<Rightarrow> nat \<Rightarrow> bytes res" where
  "unshuffle data elem_size =
     (if elem_size = 0 then Inl Format
      else if length data mod elem_size \<noteq> 0 then Inl Format
      else
        let n_elems = length data div elem_size in
        fold_res (\<lambda>byte_pos. fold_res (\<lambda>elem_idx out.
            and_then (index data (byte_pos * n_elems + elem_idx)) (\<lambda>b.
              put_elem out (elem_idx * elem_size + byte_pos) b)) [0..<n_elems])
          [0..<elem_size] (replicate (length data) 0))"

text \<open>A transpose of \<open>n\<close> rows of \<open>m\<close> bytes, as a relation on whole buffers.\<close>

definition transposed :: "nat \<Rightarrow> nat \<Rightarrow> 'a list \<Rightarrow> 'a list \<Rightarrow> bool" where
  "transposed n m xs ys \<longleftrightarrow> length xs = n * m \<and> length ys = n * m
     \<and> (\<forall>i<n. \<forall>j<m. ys ! (j * n + i) = xs ! (i * m + j))"

lemma transposed_sym: "transposed n m xs ys \<Longrightarrow> transposed m n ys xs"
  by (auto simp: transposed_def)

lemma nested_write_loop:
  assumes "\<And>j i. j < m \<Longrightarrow> i < n \<Longrightarrow> q j i < length data"
    and "\<And>j i. j < m \<Longrightarrow> i < n \<Longrightarrow> p j i < length out"
    and "\<And>j i. j < m \<Longrightarrow> i < n \<Longrightarrow> r ! p j i = data ! q j i"
    and "inj_on (\<lambda>(j, i). p j i) ({..<m} \<times> {..<n})"
    and "\<And>k. k < length out \<Longrightarrow> \<exists>j<m. \<exists>i<n. k = p j i"
    and "length r = length out"
  shows "fold_res (\<lambda>j. fold_res (\<lambda>i buf. and_then (index data (q j i)) (\<lambda>b. put_elem buf (p j i) b)) [0..<n])
           [0..<m] out = Inr r"
proof -
  let ?P = "List.product [0..<m] [0..<n]"
  have P: "set ?P = {..<m} \<times> {..<n}" by auto
  have "fold_res (\<lambda>(j, i) buf. and_then (index data (q j i)) (\<lambda>b. put_elem buf (p j i) b)) ?P out
      = fold_res (\<lambda>x buf. put_elem buf ((\<lambda>(j, i). p j i) x) ((\<lambda>(j, i). data ! q j i) x)) ?P out"
    using assms(1) by (intro fold_res_cong) auto
  also have "\<dots> = Inr r"
  proof (rule write_loop_cover)
    show "inj_on (\<lambda>(j, i). p j i) (set ?P)" unfolding P by (rule assms(4))
    fix k assume "k < length out"
    then obtain j i where "j < m" "i < n" "k = p j i" using assms(5) by blast
    then have "(j, i) \<in> set ?P" "k = (\<lambda>(j, i). p j i) (j, i)" by simp_all
    then show "k \<in> (\<lambda>(j, i). p j i) ` set ?P" by blast
  qed (use assms in auto)
  finally show ?thesis
    by (simp add: fold_res_nested[where g = "\<lambda>j i buf. and_then (index data (q j i)) (\<lambda>b. put_elem buf (p j i) b)"])
qed

lemma radix_cover:
  assumes "k < m * (n :: nat)"
  shows "\<exists>j<m. \<exists>i<n. k = j * n + i"
proof -
  from assms have "n > 0" by (cases n) auto
  then show ?thesis using assms
    by (intro exI[of _ "k div n"] conjI exI[of _ "k mod n"]) (simp_all add: less_mult_imp_div_less)
qed

lemma radix_inj_on: "inj_on (\<lambda>(j, i). j * n + i) ({..<m :: nat} \<times> {..<n})"
  by (auto simp: inj_on_def radix_inj)

lemma radix_inj_on_swap: "inj_on (\<lambda>(j, i). i * m + j) ({..<m :: nat} \<times> {..<n})"
  by (auto simp: inj_on_def radix_inj)

lemma transposed_exists:
  assumes "length xs = n * m"
  obtains ys where "transposed n m xs ys"
proof -
  let ?ys = "map (\<lambda>k. xs ! (k mod n * m + k div n)) [0..<n * m]"
  have "?ys ! (j * n + i) = xs ! (i * m + j)" if "i < n" "j < m" for i j
    using that radix_less[of j m i n] by (simp add: mult.commute)
  then have "transposed n m xs ?ys" using assms by (simp add: transposed_def)
  then show ?thesis by (rule that)
qed

lemma transposed_unique: "transposed n m xs ys \<Longrightarrow> transposed n m xs zs \<Longrightarrow> ys = zs"
proof (rule nth_equalityI)
  assume yz: "transposed n m xs ys" "transposed n m xs zs"
  then show "length ys = length zs" by (simp add: transposed_def)
  fix k assume "k < length ys"
  then have k: "k < n * m" using yz by (simp add: transposed_def)
  then have "n > 0" by (cases n) auto
  then have "k mod n < n" "k div n < m" "k = k div n * n + k mod n"
    using k by (simp_all add: less_mult_imp_div_less mult.commute)
  with yz show "ys ! k = zs ! k" unfolding transposed_def by metis
qed

lemma shuffle_total:
  assumes "es \<noteq> 0" and "transposed n es data r"
  shows "shuffle data es = Inr r"
proof -
  have len: "length data = n * es" "length data div es = n" using assms by (auto simp: transposed_def)
  have "fold_res (\<lambda>j. fold_res (\<lambda>i buf. and_then (index data (i * es + j)) (\<lambda>b. put_elem buf (j * n + i) b)) [0..<n])
          [0..<es] (replicate (length data) 0) = Inr r"
    using assms(2) radix_less[of _ n _ es] radix_less[of _ es _ n] radix_cover[of _ es n]
    by (intro nested_write_loop radix_inj_on) (auto simp: transposed_def mult.commute)
  then show ?thesis using assms(1) len by (simp add: shuffle_def)
qed

lemma unshuffle_total:
  assumes "es \<noteq> 0" and "transposed es n data r"
  shows "unshuffle data es = Inr r"
proof -
  have len: "length data = es * n" "length data div es = n" using assms by (auto simp: transposed_def)
  have "fold_res (\<lambda>j. fold_res (\<lambda>i buf. and_then (index data (j * n + i)) (\<lambda>b. put_elem buf (i * es + j) b)) [0..<n])
          [0..<es] (replicate (length data) 0) = Inr r"
  proof (intro nested_write_loop radix_inj_on_swap)
    fix k assume "k < length (replicate (length data) (0 :: byte))"
    then have "k < n * es" using len by (simp add: mult.commute)
    then show "\<exists>j<es. \<exists>i<n. k = i * es + j" using radix_cover[of k n es] by blast
  qed (use assms(2) radix_less[of _ n _ es] radix_less[of _ es _ n] in \<open>auto simp: transposed_def mult.commute\<close>)
  then show ?thesis using assms(1) len by (simp add: unshuffle_def)
qed

lemma shuffle_Inr_iff:
  "shuffle data es = Inr e \<longleftrightarrow> es \<noteq> 0 \<and> transposed (length data div es) es data e"
proof (cases "es \<noteq> 0 \<and> es dvd length data")
  case True
  then have "length data = length data div es * es" by simp
  then obtain r where r: "transposed (length data div es) es data r" by (rule transposed_exists)
  then show ?thesis using True shuffle_total[OF _ r] transposed_unique by auto
next
  case False
  then have "\<not> (es \<noteq> 0 \<and> length data = length data div es * es)" by (metis dvd_triv_right)
  then show ?thesis using False by (auto simp: shuffle_def transposed_def mod_eq_0_iff_dvd)
qed

lemma shuffle_unshuffle:
  assumes "shuffle data es = Inr e"
  shows "unshuffle e es = Inr data"
  using assms by (auto simp: shuffle_Inr_iff intro: unshuffle_total transposed_sym)

lemma shuffle_length: "shuffle data es = Inr e \<Longrightarrow> length e = length data"
  by (auto simp: shuffle_Inr_iff transposed_def)

lemma shuffle_succeeds:
  assumes "0 < es" and "es dvd length data"
  shows "\<exists>e. shuffle data es = Inr e"
proof -
  have "length data = length data div es * es" using assms by simp
  then obtain r where "transposed (length data div es) es data r" by (rule transposed_exists)
  then show ?thesis using assms(1) by (auto simp: shuffle_Inr_iff)
qed

interpretation shuffle_filter: invertible_filter "\<lambda>d. shuffle d es" "\<lambda>d. unshuffle d es" for es
  by unfold_locales (rule shuffle_unshuffle)

text \<open>
  C28. Shuffle is the byte transpose and loses nothing: on a whole number of elements it
  succeeds, byte \<open>j\<close> of element \<open>i\<close> goes to position \<open>j * n + i\<close>, and
  \<^verbatim>\<open>unshuffle\<close> gives the chunk back.
\<close>

theorem shuffle_transposes_and_inverts:
  assumes "0 < es" and "length data = n * es"
  shows "\<exists>e. shuffle data es = Inr e \<and> length e = length data
    \<and> (\<forall>i<n. \<forall>j<es. e ! (j * n + i) = data ! (i * es + j))
    \<and> unshuffle e es = Inr data"
proof -
  from assms obtain e where e: "shuffle data es = Inr e" using shuffle_succeeds by fastforce
  then have "transposed n es data e" using assms by (simp add: shuffle_Inr_iff)
  with e show ?thesis by (auto simp: transposed_def assms intro: shuffle_filter.inv_fwd)
qed

theorem shuffle_transposes_and_inverts_witness:
  "\<exists>e. shuffle [1, 2, 3, 4, 5, 6] 2 = Inr e \<and> length e = 6 \<and> unshuffle e 2 = Inr [1, 2, 3, 4, 5, 6]"
  using shuffle_transposes_and_inverts[of 2 "[1, 2, 3, 4, 5, 6]" 3] by auto

section \<open>Fletcher-32\<close>

text \<open>One 16-bit word, high byte first, and the deferred-carry fold.\<close>

definition be_word :: "byte \<Rightarrow> byte \<Rightarrow> 32 word" where
  "be_word hi lo = or (push_bit 8 (ucast hi)) (ucast lo)"

definition carry_fold :: "32 word \<Rightarrow> 32 word" where
  "carry_fold x = and x 0xffff + drop_bit 16 x"

text \<open>The inner loop over one block; the position \<open>i\<close> is an index below the length.\<close>

fun fletcher_block :: "bytes \<Rightarrow> nat \<Rightarrow> nat \<Rightarrow> 32 word \<Rightarrow> 32 word \<Rightarrow> (nat \<times> 32 word \<times> 32 word) res" where
  "fletcher_block data 0 i sum1 sum2 = Inr (i, sum1, sum2)"
| "fletcher_block data (Suc block) i sum1 sum2 =
     and_then (index data i) (\<lambda>hi.
     and_then (index data (i + 1)) (\<lambda>lo.
       let sum1 = sum1 + be_word hi lo; sum2 = sum2 + sum1 in
       fletcher_block data block (i + 2) sum1 sum2))"

function fletcher_words :: "bytes \<Rightarrow> nat \<Rightarrow> nat \<Rightarrow> 32 word \<Rightarrow> 32 word \<Rightarrow> (nat \<times> 32 word \<times> 32 word) res" where
  "fletcher_words data words i sum1 sum2 =
     (if words > 0 then
        let block = min words 360 in
        and_then (fletcher_block data block i sum1 sum2) (\<lambda>(i, sum1, sum2).
          fletcher_words data (words - block) i (carry_fold sum1) (carry_fold sum2))
      else Inr (i, sum1, sum2))"
  by pat_completeness auto
termination
  by (relation "measure (\<lambda>(data, words, i, sum1, sum2). words)") auto

declare fletcher_words.simps [simp del]

definition fletcher32_compute :: "bytes \<Rightarrow> 32 word res" where
  "fletcher32_compute data =
     and_then (fletcher_words data (length data div 2) 0 0 0) (\<lambda>(i, sum1, sum2).
     and_then
       (if length data mod 2 = 1 then
          and_then (index data i) (\<lambda>hi.
            let sum1 = sum1 + push_bit 8 (ucast hi); sum2 = sum2 + sum1 in
            Inr (carry_fold sum1, carry_fold sum2))
        else Inr (sum1, sum2)) (\<lambda>(sum1, sum2).
       let sum1 = carry_fold sum1; sum2 = carry_fold sum2 in
       Inr (or (push_bit 16 sum2) sum1)))"

definition append_fletcher32 :: "bytes \<Rightarrow> bytes res" where
  "append_fletcher32 data =
     and_then (fletcher32_compute data) (\<lambda>checksum. Inr (data @ to_le 4 (unat checksum)))"

definition verify_fletcher32 :: "bytes \<Rightarrow> bytes res" where
  "verify_fletcher32 data =
     (if length data < 4 then Inl Corrupted
      else
        let payload = take (length data - 4) data;
            checksum_bytes = drop (length data - 4) data;
            stored = from_le [checksum_bytes ! 0, checksum_bytes ! 1, checksum_bytes ! 2, checksum_bytes ! 3]
        in and_then (fletcher32_compute payload) (\<lambda>computed.
             if stored \<noteq> unat computed then Inl Corrupted else Inr payload))"

subsection \<open>Reference sums\<close>

text \<open>
  The sums over natural numbers: \<open>A\<close> is the sum of the words, \<open>B\<close> the sum of the running sums, no
  reduction anywhere. The two 32-bit accumulators of the code hold these sums at the end of a block,
  counted from the values they had at its start, and agree with them modulo \<open>65535\<close> after the folds.
\<close>

fun chunk_words :: "bytes \<Rightarrow> nat list" where
  "chunk_words [] = []"
| "chunk_words [a] = [256 * unat a]"
| "chunk_words (a # b # r) = (256 * unat a + unat b) # chunk_words r"

fun sums :: "nat list \<Rightarrow> nat \<times> nat \<Rightarrow> nat \<times> nat" where
  "sums [] (a, b) = (a, b)"
| "sums (w # ws) (a, b) = sums ws (a + w, b + (a + w))"

lemma sums_append: "sums (xs @ ys) ab = sums ys (sums xs ab)"
  by (induction xs ab rule: sums.induct) auto

lemma sums_closed:
  "sums ws (a, b) = (a + sum_list ws, b + length ws * a + (\<Sum>k\<le>length ws. sum_list (take k ws)))"
proof (induction ws arbitrary: a b)
  case (Cons w ws)
  have "(\<Sum>k\<le>length (w # ws). sum_list (take k (w # ws)))
      = (\<Sum>k\<le>length ws. w + sum_list (take k ws))"
    by (simp add: sum.atMost_Suc_shift del: sum.atMost_Suc)
  then show ?case by (simp add: Cons sum.distrib algebra_simps)
qed simp

lemma sums_cong_mod:
  assumes "a mod m = a' mod m" and "b mod m = b' mod m"
  shows "fst (sums ws (a, b)) mod m = fst (sums ws (a', b')) mod m
   \<and> snd (sums ws (a, b)) mod m = snd (sums ws (a', b')) mod (m :: nat)"
  using assms
proof (induction ws arbitrary: a b a' b')
  case (Cons w ws)
  have aw: "(a + w) mod m = (a' + w) mod m" by (intro mod_add_cong refl Cons.prems(1))
  have "(b + (a + w)) mod m = (b' + (a' + w)) mod m" by (intro mod_add_cong aw Cons.prems(2))
  from Cons.IH[OF aw this] show ?case by (simp only: sums.simps)
qed simp

lemma sums_cong_zero:
  assumes "a = 0 \<longleftrightarrow> a' = 0" and "b = 0 \<longleftrightarrow> b' = (0 :: nat)"
  shows "(fst (sums ws (a, b)) = 0 \<longleftrightarrow> fst (sums ws (a', b')) = 0)
    \<and> (snd (sums ws (a, b)) = 0 \<longleftrightarrow> snd (sums ws (a', b')) = 0)"
  using assms by (auto simp: sums_closed)

lemma unat_add_nowrap: "unat (x :: 32 word) + unat y < 4294967296 \<Longrightarrow> unat (x + y) = unat x + unat y"
  by (simp add: unat_word_ariths)

lemma unat_be_word [simp]: "unat (be_word hi lo) = 256 * unat hi + unat lo"
  using or_disjoint_nat[of "unat lo" 8 "unat hi"]
  by (simp add: be_word_def unsigned_or_eq push_bit_nat_def mult.commute)

lemma unat_and_ffff: "unat (and x 0xffff :: 32 word) = unat x mod 65536"
proof -
  have m: "(0xffff :: 32 word) = mask 16" by (simp add: mask_eq_exp_minus_1)
  show ?thesis
    by (simp only: m take_bit_eq_mask[symmetric] unsigned_take_bit_eq take_bit_nat_def) simp
qed

lemma unat_carry_fold: "unat (carry_fold x) = unat x mod 65536 + unat x div 65536"
proof -
  have d: "unat (drop_bit 16 x) = unat x div 65536"
    by (simp add: unat_drop_bit_eq drop_bit_nat_def)
  have x: "unat x < 4294967296" using unsigned_less[of x] by simp
  have "unat (and x 0xffff) + unat (drop_bit 16 x) < 4294967296"
    unfolding unat_and_ffff d using x by linarith
  from unat_add_nowrap[OF this] show ?thesis
    by (simp only: carry_fold_def unat_and_ffff d)
qed

lemma carry_fold_le: "unat (carry_fold x) \<le> 131070"
proof -
  have "unat x < 4294967296" using unsigned_less[of x] by simp
  then show ?thesis unfolding unat_carry_fold by linarith
qed

lemma carry_fold_mod: "unat (carry_fold x) mod 65535 = unat x mod 65535"
proof -
  have "unat x = 65535 * (unat x div 65536) + (unat x mod 65536 + unat x div 65536)"
    using div_mult_mod_eq[of "unat x" 65536] by linarith
  then have "unat x mod 65535 = (unat x mod 65536 + unat x div 65536) mod 65535"
    by (metis mod_mult_self4)
  then show ?thesis by (simp add: unat_carry_fold)
qed

text \<open>A fold never makes a sum zero that is not, which the remainder does for multiples of \<open>65535\<close>.\<close>

lemma carry_fold_zero: "unat (carry_fold x) = 0 \<longleftrightarrow> unat x = 0"
  unfolding unat_carry_fold using div_mult_mod_eq[of "unat x" 65536] by auto

lemma fletcher_block_sums:
  assumes "i + 2 * k \<le> length data" and "2 * unat s2 + 2 * k * unat s1 + 65535 * (k * (k + 1)) < 8589934592"
    and "unat s1 + 65535 * k < 4294967296"
  shows "\<exists>s1' s2'. fletcher_block data k i s1 s2 = Inr (i + 2 * k, s1', s2')
    \<and> (unat s1', unat s2') = sums (take k (chunk_words (drop i data))) (unat s1, unat s2)"
  using assms
proof (induction k arbitrary: i s1 s2)
  case (Suc k)
  define w where "w = unat (be_word (data ! i) (data ! (i + 1)))"
  have w: "w = 256 * unat (data ! i) + unat (data ! (i + 1))" by (simp add: w_def)
  have w1: "w \<le> 65535"
    unfolding w using unat_byte_less[of "data ! i"] unat_byte_less[of "data ! (i + 1)"] by linarith
  have d: "drop i data = data ! i # data ! (i + 1) # drop (i + 2) data"
    using Suc.prems(1) by (simp add: Cons_nth_drop_Suc)
  let ?s1 = "s1 + be_word (data ! i) (data ! (i + 1))"
  have kw: "k * w \<le> k * 65535" using w1 by (rule mult_le_mono2)
  have u1: "unat ?s1 = unat s1 + w"
    unfolding w_def by (rule unat_add_nowrap) (use Suc.prems(3) w1 in \<open>simp add: w_def\<close>)
  have u2: "unat (s2 + ?s1) = unat s2 + (unat s1 + w)"
  proof -
    have "unat s2 + (unat s1 + w) < 4294967296"
      using Suc.prems(2) w1 by (simp add: algebra_simps)
    then show ?thesis by (metis u1 unat_add_nowrap)
  qed
  have b2: "2 * unat (s2 + ?s1) + 2 * k * unat ?s1 + 65535 * (k * (k + 1)) < 8589934592"
  proof -
    have "2 * (unat s2 + (unat s1 + w)) + 2 * k * (unat s1 + w) + 65535 * (k * (k + 1))
        = 2 * unat s2 + 2 * Suc k * unat s1 + 65535 * (k * (k + 1)) + 2 * w + 2 * (k * w)"
      by (simp add: algebra_simps)
    moreover have "65535 * (Suc k * (Suc k + 1)) = 65535 * (k * (k + 1)) + 131070 * k + 131070"
      by (simp add: algebra_simps)
    ultimately show ?thesis unfolding u1 u2 using Suc.prems(2) kw w1 by linarith
  qed
  have "\<exists>s1' s2'. fletcher_block data k (i + 2) ?s1 (s2 + ?s1) = Inr (i + 2 + 2 * k, s1', s2')
    \<and> (unat s1', unat s2') = sums (take k (chunk_words (drop (i + 2) data))) (unat ?s1, unat (s2 + ?s1))"
    by (rule Suc.IH[OF _ b2]) (use Suc.prems(1,3) u1 w1 in simp_all)
  then show ?case unfolding u1 u2 using Suc.prems(1) d w by (simp add: Let_def)
qed simp

lemma chunk_words_drop: "2 * k \<le> length data \<Longrightarrow> chunk_words (drop (2 * k) data) = drop k (chunk_words data)"
proof (induction k arbitrary: data)
  case (Suc k)
  then obtain a b r where "data = a # b # r"
    by (metis Suc_le_length_iff mult_Suc_right add_2_eq_Suc)
  then show ?case using Suc by simp
qed simp

lemma length_chunk_words: "length (chunk_words data) = (length data + 1) div 2"
  by (induction data rule: chunk_words.induct) auto

lemma chunk_words_le: "w \<in> set (chunk_words data) \<Longrightarrow> w \<le> 65535"
proof (induction data rule: chunk_words.induct)
  case (2 a)
  then have "w = 256 * unat a" by simp
  with unat_byte_less[of a] show ?case by linarith
next
  case (3 a b r)
  then have "w = 256 * unat a + unat b \<or> w \<in> set (chunk_words r)" by simp
  with unat_byte_less[of a] unat_byte_less[of b] 3 show ?case by linarith
qed simp

lemma sum_list_le_length: "(\<And>w. w \<in> set ws \<Longrightarrow> w \<le> m) \<Longrightarrow> sum_list ws \<le> length ws * (m :: nat)"
  by (induction ws) (auto intro: add_mono)

lemma fletcher_words_sums:
  assumes "2 * (n + words) \<le> length data" and "unat s1 \<le> 65896" and "unat s2 \<le> 131070"
  shows "\<exists>s1' s2'. fletcher_words data words (2 * n) s1 s2 = Inr (2 * (n + words), s1', s2')
    \<and> unat s1' \<le> 65896 \<and> unat s2' \<le> 131070
    \<and> (let ab = sums (take words (drop n (chunk_words data))) (unat s1, unat s2) in
        unat s1' mod 65535 = fst ab mod 65535 \<and> unat s2' mod 65535 = snd ab mod 65535
        \<and> (unat s1' = 0 \<longleftrightarrow> fst ab = 0) \<and> (unat s2' = 0 \<longleftrightarrow> snd ab = 0))"
  using assms
proof (induction words arbitrary: n s1 s2 rule: less_induct)
  case (less words)
  show ?case
  proof (cases "words = 0")
    case True
    then show ?thesis using less.prems by (simp add: fletcher_words.simps[of data 0])
  next
    case False
    define k where "k = min words 360"
    have k: "0 < k" "k \<le> words" "k \<le> 360" using False by (auto simp: k_def)
    have ks1: "k * unat s1 \<le> 360 * 65896" using k(3) less.prems(2) by (rule mult_le_mono)
    have kk: "k * (k + 1) \<le> 360 * 361" using k(3) by (intro mult_le_mono) auto
    obtain t1 t2 where blk: "fletcher_block data k (2 * n) s1 s2 = Inr (2 * n + 2 * k, t1, t2)"
        and t: "(unat t1, unat t2) = sums (take k (chunk_words (drop (2 * n) data))) (unat s1, unat s2)"
      using fletcher_block_sums[of "2 * n" k data s2 s1] less.prems k ks1 kk by fastforce
    define ws where "ws = take k (drop n (chunk_words data))"
    have t': "sums ws (unat s1, unat s2) = (unat t1, unat t2)"
      using t less.prems(1) by (simp add: ws_def chunk_words_drop)
    have t1b: "unat t1 \<le> 23658496"
    proof -
      have "sum_list ws \<le> length ws * 65535"
        by (rule sum_list_le_length) (auto simp: ws_def dest!: in_set_takeD in_set_dropD chunk_words_le)
      moreover have "length ws * 65535 \<le> 360 * 65535" using k(3) by (simp add: ws_def)
      moreover have "unat t1 = unat s1 + sum_list ws" using t' by (simp add: sums_closed)
      ultimately show ?thesis using less.prems(2) by linarith
    qed
    have c1: "unat (carry_fold t1) \<le> 65896" unfolding unat_carry_fold using t1b by linarith
    have c2: "unat (carry_fold t2) \<le> 131070" by (rule carry_fold_le)
    have rec: "\<exists>s1' s2'. fletcher_words data (words - k) (2 * (n + k)) (carry_fold t1) (carry_fold t2)
          = Inr (2 * (n + k + (words - k)), s1', s2')
      \<and> unat s1' \<le> 65896 \<and> unat s2' \<le> 131070
      \<and> (let ab = sums (take (words - k) (drop (n + k) (chunk_words data))) (unat (carry_fold t1), unat (carry_fold t2)) in
          unat s1' mod 65535 = fst ab mod 65535 \<and> unat s2' mod 65535 = snd ab mod 65535
          \<and> (unat s1' = 0 \<longleftrightarrow> fst ab = 0) \<and> (unat s2' = 0 \<longleftrightarrow> snd ab = 0))"
      by (rule less.IH) (use k less.prems(1) c1 c2 in auto)
    have split: "take words (drop n (chunk_words data)) = ws @ take (words - k) (drop (n + k) (chunk_words data))"
      using take_add[of k "words - k" "drop n (chunk_words data)"] k(2)
      by (simp add: ws_def add.commute)
    let ?rest = "take (words - k) (drop (n + k) (chunk_words data))"
    from rec obtain u1 u2 where
      u: "fletcher_words data (words - k) (2 * (n + k)) (carry_fold t1) (carry_fold t2)
            = Inr (2 * (n + words), u1, u2)"
      and b: "unat u1 \<le> 65896" "unat u2 \<le> 131070"
      and c: "unat u1 mod 65535 = fst (sums ?rest (unat (carry_fold t1), unat (carry_fold t2))) mod 65535"
        "unat u2 mod 65535 = snd (sums ?rest (unat (carry_fold t1), unat (carry_fold t2))) mod 65535"
        "unat u1 = 0 \<longleftrightarrow> fst (sums ?rest (unat (carry_fold t1), unat (carry_fold t2))) = 0"
        "unat u2 = 0 \<longleftrightarrow> snd (sums ?rest (unat (carry_fold t1), unat (carry_fold t2))) = 0"
      using k(2) by (auto simp: Let_def)
    have "fletcher_words data words (2 * n) s1 s2 = Inr (2 * (n + words), u1, u2)"
      using False blk u by (subst fletcher_words.simps) (simp add: k_def[symmetric] algebra_simps)
    moreover have "sums (ws @ ?rest) (unat s1, unat s2) = sums ?rest (unat t1, unat t2)"
      by (simp add: sums_append t')
    ultimately show ?thesis
      using b c sums_cong_mod[OF carry_fold_mod[of t1] carry_fold_mod[of t2], of ?rest]
        sums_cong_zero[OF carry_fold_zero[of t1] carry_fold_zero[of t2], of ?rest]
      unfolding split by (simp add: Let_def)
  qed
qed

text \<open>
  The last word, when the length is odd, is the high half of a word; after the closing fold
  both sums are below \<open>2 ^ 16\<close>, so the halves of the checksum do not overlap. What a sum is folded
  to is its representative modulo \<open>65535\<close> between 1 and \<open>65535\<close>, and 0 only for the sum 0; the
  textbook form, the remainder, would give 0 for every multiple of \<open>65535\<close>.
\<close>

definition folded :: "nat \<Rightarrow> nat" where
  "folded s = (if s = 0 then 0 else (s - 1) mod 65535 + 1)"

definition fletcher_value :: "bytes \<Rightarrow> nat \<Rightarrow> bool" where
  "fletcher_value data c \<longleftrightarrow>
     (let ws = chunk_words data in
      c div 65536 = folded (\<Sum>k\<le>length ws. sum_list (take k ws)) \<and> c mod 65536 = folded (sum_list ws))"

lemma folded_unique:
  assumes "h < 65536" "h mod 65535 = s mod 65535" "h = 0 \<longleftrightarrow> s = 0"
  shows "h = folded s"
proof (cases "s = 0")
  case False
  then have h: "0 < h" using assms(3) by simp
  obtain h' s' where suc: "h = Suc h'" "s = Suc s'" using h False by (cases h; cases s) auto
  have "(h - 1) mod 65535 = (s - 1) mod 65535"
    using assms(2) unfolding suc mod_Suc by (auto split: if_splits)
  moreover have "(h - 1) mod 65535 = h - 1" using assms(1) h by (intro mod_less) linarith
  ultimately have "h - 1 = (s - 1) mod 65535" by simp
  then show ?thesis using h False by (simp add: folded_def)
qed (use assms(3) in \<open>simp add: folded_def\<close>)

lemma fold_final:
  assumes "unat (x :: 32 word) \<le> 131070"
  shows "unat (carry_fold x) < 65536"
proof (cases "unat x < 65536")
  case False
  then have "unat x div 65536 \<ge> 1" by (simp add: Suc_le_eq div_greater_zero_iff)
  then show ?thesis
    using assms div_mult_mod_eq[of "unat x" 65536] unfolding unat_carry_fold by linarith
qed (simp add: unat_carry_fold)

lemma unat_join_halves:
  assumes "unat (s1 :: 32 word) < 65536" and "unat s2 < 65536"
  shows "unat (or (push_bit 16 s2) s1) = 65536 * unat s2 + unat s1"
proof -
  have "unat s2 * 65536 < 4294967296" using assms(2) by linarith
  then have "unat (push_bit 16 s2) = push_bit 16 (unat s2)"
    by (simp add: unsigned_push_bit_eq push_bit_nat_def take_bit_nat_eq_self)
  then show ?thesis using or_disjoint_nat[of "unat s1" 16 "unat s2"] assms(1)
    by (simp add: unsigned_or_eq)
qed

lemma chunk_words_split:
  "chunk_words data = take (length data div 2) (chunk_words data)
     @ (if length data mod 2 = 1 then [256 * unat (data ! (length data - 1))] else [])"
proof (induction data rule: chunk_words.induct)
  case (3 a b r)
  have "r \<noteq> []" if "length r mod 2 = 1" using that by auto
  with 3 show ?case by (auto simp: nth_Cons')
qed auto

lemma fletcher32_tail:
  fixes data :: bytes and s1 s2 :: "32 word"
  assumes "length data mod 2 = 1" and "unat s1 \<le> 65896" and "unat s2 \<le> 131070"
  defines "h \<equiv> 256 * unat (data ! (length data - 1))"
  shows "unat (s1 + push_bit 8 (ucast (data ! (length data - 1)))) = unat s1 + h"
    and "unat (s2 + (s1 + push_bit 8 (ucast (data ! (length data - 1))))) = unat s2 + (unat s1 + h)"
proof -
  let ?p = "push_bit 8 (ucast (data ! (length data - 1))) :: 32 word"
  have h: "h \<le> 65280" "unat ?p = h"
    using unat_byte_less[of "data ! (length data - 1)"] by (auto simp: h_def simp del: unat_byte_less)
  show a: "unat (s1 + ?p) = unat s1 + h"
    by (subst unat_add_nowrap) (use assms(2) h in simp_all)
  show "unat (s2 + (s1 + ?p)) = unat s2 + (unat s1 + h)"
    by (subst unat_add_nowrap) (use assms(2,3) h a in simp_all)
qed

lemma fletcher32_compute_value: "\<exists>c. fletcher32_compute data = Inr c \<and> fletcher_value data (unat c)"
proof -
  let ?n = "length data div 2" and ?ws = "chunk_words data"
  obtain s1 s2 where w: "fletcher_words data ?n 0 0 0 = Inr (2 * ?n, s1, s2)"
      and b: "unat s1 \<le> 65896" "unat s2 \<le> 131070"
      and m: "unat s1 mod 65535 = fst (sums (take ?n ?ws) (0, 0)) mod 65535"
        "unat s2 mod 65535 = snd (sums (take ?n ?ws) (0, 0)) mod 65535"
      and z: "unat s1 = 0 \<longleftrightarrow> fst (sums (take ?n ?ws) (0, 0)) = 0" "unat s2 = 0 \<longleftrightarrow> snd (sums (take ?n ?ws) (0, 0)) = 0"
    using fletcher_words_sums[of 0 ?n data 0 0] by (auto simp: Let_def)
  define t where "t = (if length data mod 2 = 1 then
      (let a = s1 + push_bit 8 (ucast (data ! (length data - 1))) in (carry_fold a, carry_fold (s2 + a)))
    else (s1, s2))"
  define c1 c2 where "c1 = carry_fold (fst t)" and "c2 = carry_fold (snd t)"
  have "2 * ?n = length data - 1" if "length data mod 2 = 1"
    using that by presburger
  then have c: "fletcher32_compute data = Inr (or (push_bit 16 c2) c1)"
    using w by (auto simp: fletcher32_compute_def t_def c1_def c2_def Let_def)
  have "unat (fst t) \<le> 131070 \<and> unat (snd t) \<le> 131070"
    using b carry_fold_le by (auto simp: t_def Let_def)
  then have lt: "unat c1 < 65536" "unat c2 < 65536"
    unfolding c1_def c2_def by (simp_all add: fold_final)
  have "unat (fst t) mod 65535 = fst (sums ?ws (0, 0)) mod 65535
    \<and> unat (snd t) mod 65535 = snd (sums ?ws (0, 0)) mod 65535
    \<and> (unat (fst t) = 0 \<longleftrightarrow> fst (sums ?ws (0, 0)) = 0) \<and> (unat (snd t) = 0 \<longleftrightarrow> snd (sums ?ws (0, 0)) = 0)"
  proof (cases "length data mod 2 = 1")
    case True
    let ?h = "256 * unat (data ! (length data - 1))"
    have "sums ?ws (0, 0) = sums [?h] (sums (take ?n ?ws) (0, 0))"
      by (subst chunk_words_split) (simp add: True sums_append)
    moreover obtain A B where "sums (take ?n ?ws) (0, 0) = (A, B)" by fastforce
    ultimately have ab: "sums ?ws (0, 0) = (A + ?h, B + (A + ?h))" "unat s1 mod 65535 = A mod 65535" "unat s2 mod 65535 = B mod 65535"
      "unat s1 = 0 \<longleftrightarrow> A = 0" "unat s2 = 0 \<longleftrightarrow> B = 0"
      using m z by simp_all
    have "(unat s1 + ?h) mod 65535 = (A + ?h) mod 65535" "(unat s2 + (unat s1 + ?h)) mod 65535 = (B + (A + ?h)) mod 65535"
      by (rule mod_add_cong ab(2,3) refl)+
    moreover have "t = (carry_fold (s1 + push_bit 8 (ucast (data ! (length data - 1)))),
        carry_fold (s2 + (s1 + push_bit 8 (ucast (data ! (length data - 1))))))"
      by (simp only: t_def True if_True Let_def simp_thms)
    ultimately show ?thesis
      using ab(4,5) unfolding ab(1) by (simp only: fst_conv snd_conv carry_fold_mod carry_fold_zero fletcher32_tail[OF True b]) simp
  next
    case False
    have "take ?n ?ws = ?ws" using chunk_words_split[of data] by (simp only: False if_False append_Nil2)
    with m z False show ?thesis by (simp add: t_def)
  qed
  then have "unat c1 = folded (sum_list ?ws)" "unat c2 = folded (\<Sum>k\<le>length ?ws. sum_list (take k ?ws))"
    using lt by (auto simp: c1_def c2_def carry_fold_mod carry_fold_zero sums_closed simp del: sum_list_eq_0_iff sum_eq_0_iff intro!: folded_unique)
  with c lt show ?thesis
    by (simp add: fletcher_value_def unat_join_halves)
qed

lemma fletcher32_compute_obtain:
  obtains c where "fletcher32_compute data = Inr c"
  using fletcher32_compute_value[of data] by auto

lemma append_fletcher32_Inr_iff:
  "append_fletcher32 d = Inr e \<longleftrightarrow> (\<exists>c. fletcher32_compute d = Inr c \<and> e = d @ to_le 4 (unat c))"
  by (auto simp: append_fletcher32_def and_then_Inr_iff)

lemma verify_append_fletcher32:
  assumes "append_fletcher32 d = Inr e"
  shows "verify_fletcher32 e = Inr d"
proof -
  from assms obtain c where c: "fletcher32_compute d = Inr c" and e: "e = d @ to_le 4 (unat c)"
    by (auto simp: append_fletcher32_Inr_iff)
  have "from_le (to_le 4 (unat c)) = unat c"
    using unsigned_less[of c] by (intro from_le_to_le) simp
  then have "from_le [to_le 4 (unat c) ! 0, to_le 4 (unat c) ! 1, to_le 4 (unat c) ! 2, to_le 4 (unat c) ! 3] = unat c"
    by (simp only: as_list(3)[OF length_to_le])
  with c show ?thesis by (simp add: verify_fletcher32_def e Let_def)
qed

interpretation fletcher32_filter: invertible_filter append_fletcher32 verify_fletcher32
  by unfold_locales (rule verify_append_fletcher32)

text \<open>
  C27. The exact value of the checksum of any data, computed with 32-bit accumulators, in blocks of
  360 words, with deferred carries: the low half is the sum of the big-endian words (an odd last
  byte counts as a high half) and the high half the sum of all their partial sums, both taken
  without any bound and then folded to 16 bits. This is the form of libhdf5, in which a sum that is a
  positive multiple of \<open>65535\<close> becomes \<open>65535\<close> and not 0.
\<close>

theorem fletcher32_exact:
  "\<exists>c. fletcher32_compute data = Inr c
     \<and> unat c div 65536 = folded (\<Sum>k\<le>length (chunk_words data). sum_list (take k (chunk_words data)))
     \<and> unat c mod 65536 = folded (sum_list (chunk_words data))"
  using fletcher32_compute_value[of data] by (simp only: fletcher_value_def Let_def)

section \<open>N-bit\<close>

text \<open>A left shift of a 64-bit value panics when the distance reaches the width.\<close>

definition shl64 :: "64 word \<Rightarrow> nat \<Rightarrow> 64 word res" where
  "shl64 v k = (if k < 64 then Inr (push_bit k v) else Inl Panic)"

definition nbit_value :: "bytes \<Rightarrow> nat \<Rightarrow> nat \<Rightarrow> 64 word res" where
  "nbit_value data bit_start bits_per_elem =
     fold_res (\<lambda>b value.
       let byte_idx = (bit_start + b) div 8; bit_in_byte = 7 - (bit_start + b) mod 8 in
       if byte_idx < length data then
         and_then (index data byte_idx) (\<lambda>x.
         and_then (shl64 (ucast (and (drop_bit bit_in_byte x) 1)) (bits_per_elem - 1 - b)) (\<lambda>s.
           Inr (or value s)))
       else Inr value) [0..<bits_per_elem] 0"

definition unpack_nbit :: "bytes \<Rightarrow> nat \<Rightarrow> nat \<Rightarrow> nat \<Rightarrow> bytes res" where
  "unpack_nbit data elem_size_bytes bits_per_elem bit_offset =
     (if elem_size_bytes = 0 then Inl Format
      else if bits_per_elem = 0 then Inl Format
      else
        let max_bits = min (elem_size_bytes * 8) u64_max mod u32_lim in
        if bits_per_elem > max_bits then Inl Format
        else if bit_offset \<ge> max_bits then Inl Format
        else
          let total_bits = min (length data * 8) u64_max; n_elems = total_bits div bits_per_elem in
          and_then (umul n_elems elem_size_bytes) (\<lambda>n.
          and_then (vec_zeros n)
            (fold_res (\<lambda>i out.
               and_then (nbit_value data (i * bits_per_elem) bits_per_elem) (\<lambda>value.
               and_then (shl64 value bit_offset) (\<lambda>value_placed.
                 let copy_len = min elem_size_bytes 8 in
                 put_range out (i * elem_size_bytes) (take copy_len (to_le 8 (unat value_placed))))))
              [0..<n_elems])))"

text \<open>The packed stream: bit \<open>k\<close> counts from the most significant bit of the first byte.\<close>

definition bit_at :: "bytes \<Rightarrow> nat \<Rightarrow> bool" where
  "bit_at data k = bit (data ! (k div 8)) (7 - k mod 8)"

definition stream_value :: "bytes \<Rightarrow> nat \<Rightarrow> nat \<Rightarrow> nat" where
  "stream_value data start n = horner_sum of_bool 2 (rev (map (bit_at data) [start..<start + n]))"

lemma stream_value_Suc: "stream_value data start (Suc n) = 2 * stream_value data start n + of_bool (bit_at data (start + n))"
  by (simp add: stream_value_def)

lemma nbit_value_correct:
  assumes "start + n \<le> length data * 8" and "n \<le> 64"
  shows "\<exists>v. nbit_value data start n = Inr v \<and> unat v = stream_value data start n"
proof -
  let ?f = "\<lambda>b value. let byte_idx = (start + b) div 8; bit_in_byte = 7 - (start + b) mod 8 in
       if byte_idx < length data then
         and_then (index data byte_idx) (\<lambda>x.
         and_then (shl64 (ucast (and (drop_bit bit_in_byte x) 1)) (n - 1 - b)) (\<lambda>s. Inr (or value s)))
       else Inr value"
  have "m \<le> n \<Longrightarrow> \<exists>v. fold_res ?f [0..<m] 0 = Inr v
      \<and> (\<forall>k<64. bit v k \<longleftrightarrow> k < n \<and> n - 1 - k < m \<and> bit_at data (start + (n - 1 - k)))" for m
  proof (induction m)
    case (Suc m)
    then obtain v where v: "fold_res ?f [0..<m] 0 = Inr v"
        "\<forall>k<64. bit v k \<longleftrightarrow> k < n \<and> n - 1 - k < m \<and> bit_at data (start + (n - 1 - k))"
      by auto
    have ix: "(start + m) div 8 < length data" using Suc.prems assms(1) by linarith
    let ?s = "push_bit (n - 1 - m) (ucast (and (drop_bit (7 - (start + m) mod 8) (data ! ((start + m) div 8))) 1)) :: 64 word"
    have "?f m v = Inr (or v ?s)"
      using ix Suc.prems assms(2) by (simp add: shl64_def Let_def)
    then have "fold_res ?f [0..<Suc m] 0 = Inr (or v ?s)"
      using v(1) by (simp add: fold_res_append)
    moreover have "bit (or v ?s) k \<longleftrightarrow> k < n \<and> n - 1 - k < Suc m \<and> bit_at data (start + (n - 1 - k))"
      if "k < 64" for k
    proof -
      have "bit ?s k \<longleftrightarrow> k = n - 1 - m \<and> bit_at data (start + m)"
        using that Suc.prems by (auto simp: bit_simps bit_at_def bit_1_iff)
      moreover have "k = n - 1 - m \<longleftrightarrow> k < n \<and> n - 1 - k = m" using Suc.prems by auto
      ultimately show ?thesis using v(2) that by (auto simp: bit_simps less_Suc_eq)
    qed
    ultimately show ?case by blast
  qed auto
  from this[of n, OF order_refl] obtain v where v: "nbit_value data start n = Inr v"
      and b': "\<forall>k<64. bit v k \<longleftrightarrow> k < n \<and> n - 1 - k < n \<and> bit_at data (start + (n - 1 - k))"
    unfolding nbit_value_def by blast
  then have b: "bit v k \<longleftrightarrow> k < n \<and> bit_at data (start + (n - 1 - k))" if "k < 64" for k
    using that by auto
  have "unat v = stream_value data start n"
  proof (rule bit_eqI)
    fix k
    show "bit (unat v) k = bit (stream_value data start n) k"
    proof (cases "k < 64")
      case True
      then show ?thesis
        by (auto simp: b stream_value_def bit_unsigned_iff bit_horner_sum_bit_iff rev_nth)
    next
      case False
      then show ?thesis using assms(2)
        by (auto simp: stream_value_def bit_unsigned_iff bit_horner_sum_bit_iff dest: bit_imp_le_length)
    qed
  qed
  with v show ?thesis by blast
qed

lemma unat_push_mod: "unat (push_bit k v :: 64 word) = (2 ^ k * unat v) mod 256 ^ 8"
  by (simp add: unsigned_push_bit_eq push_bit_nat_def take_bit_nat_def mult.commute)

lemma unpack_nbit_stream:
  assumes "0 < es" "es \<le> 8" and "0 < bits" "bits \<le> es * 8" and "off < es * 8"
    and "8 * (length data * 8) \<le> isize_max"
  shows "unpack_nbit data es bits off =
    Inr (concat (map (\<lambda>i. to_le es (2 ^ off * stream_value data (i * bits) bits)) [0..<length data * 8 div bits]))"
proof -
  let ?n = "length data * 8 div bits"
  have n: "?n \<le> length data * 8" by simp
  have "?n * es \<le> (length data * 8) * 8" using n assms(2) by (rule mult_le_mono)
  then have sz: "?n * es \<le> isize_max" using assms(6) by linarith
  have max: "min (es * 8) u64_max mod u32_lim = es * 8" using assms(2) by simp
  have tot: "min (length data * 8) u64_max = length data * 8" using assms(6) by linarith
  have "fold_res (\<lambda>i out. and_then (nbit_value data (i * bits) bits) (\<lambda>value.
          and_then (shl64 value off) (\<lambda>p. put_range out (i * es) (take (min es 8) (to_le 8 (unat p))))))
        [0..<?n] (replicate (?n * es) 0)
      = fold_res (\<lambda>i out. put_range out (i * es) (to_le es (2 ^ off * stream_value data (i * bits) bits)))
          [0..<?n] (replicate (?n * es) 0)"
  proof (rule fold_res_cong[OF refl refl])
    fix i out assume "i \<in> set [0..<?n]"
    then have "Suc i * bits \<le> ?n * bits" by (intro mult_le_mono1) simp
    also have "\<dots> \<le> length data * 8" by simp
    finally have "i * bits + bits \<le> length data * 8" by simp
    then obtain v where v: "nbit_value data (i * bits) bits = Inr v" "unat v = stream_value data (i * bits) bits"
      using nbit_value_correct[of "i * bits" bits data] assms(2,4) by auto
    have "take (min es 8) (to_le 8 (unat (push_bit off v))) = to_le es (2 ^ off * unat v)"
      unfolding unat_push_mod using assms(2) by (simp only: min_absorb1 take_to_le to_le_mod)
    then show "and_then (nbit_value data (i * bits) bits) (\<lambda>value. and_then (shl64 value off)
          (\<lambda>p. put_range out (i * es) (take (min es 8) (to_le 8 (unat p)))))
        = put_range out (i * es) (to_le es (2 ^ off * stream_value data (i * bits) bits))"
      using v assms(2,5) by (simp add: shl64_def)
  qed
  also have "\<dots> = Inr (concat (map (\<lambda>i. to_le es (2 ^ off * stream_value data (i * bits) bits)) [0..<?n]))"
    by (rule put_range_loop) simp_all
  finally show ?thesis
    using assms sz by (simp add: unpack_nbit_def Let_def max tot)
qed

text \<open>
  N-bit unpacking reads the packed stream: for elements of up to eight bytes the output
  is, element by element, the value of the next group of bits, most significant bit first,
  moved up by the bit offset and stored little-endian in the element width.
\<close>

theorem unpack_nbit_correct:
  assumes "0 < es" "es \<le> 8" and "0 < bits" "bits \<le> es * 8" and "off < es * 8"
    and "8 * (length data * 8) \<le> isize_max"
  shows "unpack_nbit data es bits off =
    Inr (concat (map (\<lambda>i. to_le es (2 ^ off * stream_value data (i * bits) bits)) [0..<length data * 8 div bits]))"
  by (rule unpack_nbit_stream[OF assms])

theorem unpack_nbit_correct_witness:
  "unpack_nbit [0xE4] 1 2 0 = Inr [3, 2, 1, 0]"
proof -
  have "unpack_nbit [0xE4] 1 2 0 =
    Inr (concat (map (\<lambda>i. to_le 1 (2 ^ 0 * stream_value [0xE4] (i * 2) 2)) [0..<length [0xE4 :: byte] * 8 div 2]))"
    by (rule unpack_nbit_correct) simp_all
  also have "\<dots> = Inr [3, 2, 1, 0]" by code_simp
  finally show ?thesis .
qed

end
