(* ===== verification/Filter_Pipeline.thy ===== *)
theory Filter_Pipeline
  imports Filters
begin

text \<open>
  The rest of \<^verbatim>\<open>oxih5-format/src/filters.rs\<close>: the integer scale-offset decoder, the
  szip framing, the dispatch of one inverse filter and the loop that undoes a pipeline in
  reverse order under the per-chunk mask.
\<close>

section \<open>Scale-offset\<close>

text \<open>\<^verbatim>\<open>bytes.get(k).copied().unwrap_or(0)\<close>.\<close>

definition byte_or_0 :: "bytes \<Rightarrow> nat \<Rightarrow> byte" where
  "byte_or_0 bs k = (case get_elem bs k of None \<Rightarrow> 0 | Some b \<Rightarrow> b)"

definition i8_of :: "byte \<Rightarrow> 64 word" where
  "i8_of b = scast b"

definition i16_of :: "bytes \<Rightarrow> 64 word" where
  "i16_of bs = scast (word_of_nat (from_le bs) :: 16 word)"

definition i32_of :: "bytes \<Rightarrow> 64 word" where
  "i32_of bs = scast (word_of_nat (from_le bs) :: 32 word)"

definition i64_of :: "bytes \<Rightarrow> 64 word" where
  "i64_of bs = word_of_nat (from_le bs)"

definition min_val_of :: "nat \<Rightarrow> bytes \<Rightarrow> 64 word" where
  "min_val_of elem_size m =
     (if elem_size = 1 then i8_of (byte_or_0 m 0)
      else if elem_size = 2 then i16_of [byte_or_0 m 0, byte_or_0 m 1]
      else if elem_size = 4 then i32_of [byte_or_0 m 0, byte_or_0 m 1, byte_or_0 m 2, byte_or_0 m 3]
      else if elem_size = 8 then
        i64_of [byte_or_0 m 0, byte_or_0 m 1, byte_or_0 m 2, byte_or_0 m 3,
                byte_or_0 m 4, byte_or_0 m 5, byte_or_0 m 6, byte_or_0 m 7]
      else 0)"

text \<open>A one-byte element is read unsigned, the wider ones as signed integers.\<close>

definition packed_val_of :: "nat \<Rightarrow> bytes \<Rightarrow> 64 word" where
  "packed_val_of elem_size src =
     (if elem_size = 1 then ucast (src ! 0)
      else if elem_size = 2 then i16_of [src ! 0, src ! 1]
      else if elem_size = 4 then i32_of [src ! 0, src ! 1, src ! 2, src ! 3]
      else if elem_size = 8 then
        i64_of [src ! 0, src ! 1, src ! 2, src ! 3, src ! 4, src ! 5, src ! 6, src ! 7]
      else 0)"

definition decode_scaleoffset_int :: "bytes \<Rightarrow> nat \<Rightarrow> nat \<Rightarrow> bytes \<Rightarrow> bytes res" where
  "decode_scaleoffset_int data elem_size min_bits min_val_bytes =
     (if elem_size = 0 \<or> min_bits = 0 then Inr data
      else
        and_then (unpack_nbit data elem_size min_bits 0) (\<lambda>unpacked.
          let n_elems = length unpacked div elem_size;
              min_val = min_val_of elem_size min_val_bytes in
          fold_res (\<lambda>i out.
            and_then (slice unpacked (i * elem_size) ((i + 1) * elem_size)) (\<lambda>src.
              let result = packed_val_of elem_size src + min_val in
              and_then (slice (to_le 8 (unat result)) 0 elem_size) (\<lambda>bs.
                put_range out (i * elem_size) bs)))
            [0..<n_elems] (replicate (length unpacked) 0)))"

lemma as_list_8:
  "length (bs :: 'a list) = 8 \<Longrightarrow> [bs ! 0, bs ! 1, bs ! 2, bs ! 3, bs ! 4, bs ! 5, bs ! 6, bs ! 7] = bs"
  by (auto simp: list_eq_iff_nth_eq nth_Cons less_Suc_eq numeral_eq_Suc split: nat.splits)

lemma ucast_scast_back:
  assumes "LENGTH('a :: len) \<le> LENGTH('b :: len)"
  shows "ucast (scast (w :: 'a word) :: 'b word) = w"
proof (rule bit_word_eqI)
  fix n assume n: "n < LENGTH('a)"
  then have "min n (LENGTH('a) - Suc 0) = n" by linarith
  with n assms show "bit (ucast (scast w :: 'b word) :: 'a word) n = bit w n"
    by (simp add: bit_simps)
qed

lemma unat_scast_mod:
  "unat (scast (w :: 8 word) :: 64 word) mod 256 ^ 1 = unat w"
  "unat (scast (x :: 16 word) :: 64 word) mod 256 ^ 2 = unat x"
  "unat (scast (y :: 32 word) :: 64 word) mod 256 ^ 4 = unat y"
  using arg_cong[OF ucast_scast_back[of w, where 'b = 64], of unat]
    arg_cong[OF ucast_scast_back[of x, where 'b = 64], of unat]
    arg_cong[OF ucast_scast_back[of y, where 'b = 64], of unat]
  by (simp_all add: unsigned_ucast_eq take_bit_nat_def)

lemma scaled_width: "int_width es \<Longrightarrow> es = 1 \<or> es = 2 \<or> es = 4 \<or> es = 8"
  by (simp add: int_width_def)

lemma from_le_mod_width: "length bs = n \<Longrightarrow> from_le bs mod 256 ^ n = from_le bs"
  using from_le_less[of bs] by simp

lemma packed_val_mod:
  assumes "int_width es" and "length src = es"
  shows "unat (packed_val_of es src) mod 256 ^ es = from_le src"
  using scaled_width[OF assms(1)]
proof (elim disjE)
  assume es: "es = 1"
  then have "src = [src ! 0]" using assms(2) by (simp add: as_list)
  then have "from_le src = unat (src ! 0)" by (metis from_le.simps mult_0_right add.right_neutral)
  with es show ?thesis by (simp add: packed_val_of_def)
next
  assume es: "es = 2"
  with assms(2) show ?thesis
    using unat_scast_mod(2)[of "word_of_nat (from_le src)"] from_le_mod_width[of src 2]
    by (simp add: packed_val_of_def as_list i16_of_def unat_of_nat)
next
  assume es: "es = 4"
  with assms(2) show ?thesis
    using unat_scast_mod(3)[of "word_of_nat (from_le src)"] from_le_mod_width[of src 4]
    by (simp add: packed_val_of_def as_list i32_of_def unat_of_nat)
next
  assume es: "es = 8"
  with assms(2) show ?thesis
    using from_le_mod_width[of src 8]
    by (simp add: packed_val_of_def as_list_8[unfolded One_nat_def] i64_of_def unat_of_nat del: from_le.simps)
qed

lemma min_val_mod:
  assumes "int_width es" and "length m = es"
  shows "unat (min_val_of es m) mod 256 ^ es = from_le m"
proof -
  have b: "byte_or_0 m k = m ! k" if "k < es" for k
    using that assms(2) by (simp add: byte_or_0_def)
  show ?thesis
  proof (cases "es = 1")
    case True
    then have "m = [m ! 0]" using assms(2) by (simp add: as_list)
    then have "from_le m = unat (m ! 0)" by (metis from_le.simps mult_0_right add.right_neutral)
    with True show ?thesis
      using unat_scast_mod(1)[of "m ! 0"] by (simp add: min_val_of_def i8_of_def b)
  next
    case False
    then have "min_val_of es m = packed_val_of es m"
      using scaled_width[OF assms(1)] by (auto simp: min_val_of_def packed_val_of_def b)
    with packed_val_mod[OF assms] show ?thesis by simp
  qed
qed

lemma add_val_bytes:
  assumes "int_width es" and "length src = es" and "length m = es"
  shows "take es (to_le 8 (unat (packed_val_of es src + min_val_of es m))) = to_le es (from_le src + from_le m)"
proof -
  let ?p = "packed_val_of es src" and ?m = "min_val_of es m"
  have es: "es \<le> 8" using scaled_width[OF assms(1)] by auto
  have "unat (?p + ?m) = (unat ?p + unat ?m) mod 256 ^ 8" by (simp add: unat_word_ariths)
  then have "take es (to_le 8 (unat (?p + ?m))) = to_le es (unat ?p + unat ?m)"
    using es by (simp only: take_to_le to_le_mod)
  also have "\<dots> = to_le es ((unat ?p + unat ?m) mod 256 ^ es)" by (simp only: to_le_mod order_refl)
  also have "(unat ?p + unat ?m) mod 256 ^ es = (from_le src + from_le m) mod 256 ^ es"
    using packed_val_mod[OF assms(1,2)] min_val_mod[OF assms(1,3)] by (metis mod_add_eq)
  also have "to_le es \<dots> = to_le es (from_le src + from_le m)" by (simp only: to_le_mod order_refl)
  finally show ?thesis .
qed

text \<open>
  C29. Integer scale-offset decoding adds the stored minimum to every packed value, in the
  arithmetic of the element width: for elements of 1, 2, 4 or 8 bytes the output is, element
  by element, the packed bits plus the minimum modulo the width, whatever their signs.
\<close>

theorem decode_scaleoffset_correct:
  assumes "int_width es" and "0 < bits" "bits \<le> es * 8" and "length m = es"
    and "8 * (length data * 8) \<le> isize_max"
  shows "decode_scaleoffset_int data es bits m =
    Inr (concat (map (\<lambda>i. to_le es (stream_value data (i * bits) bits + from_le m)) [0..<length data * 8 div bits]))"
proof -
  let ?n = "length data * 8 div bits"
  let ?u = "concat (map (\<lambda>i. to_le es (2 ^ 0 * stream_value data (i * bits) bits)) [0..<?n])"
  have es: "0 < es" "es \<le> 8" using scaled_width[OF assms(1)] by auto
  have u: "unpack_nbit data es bits 0 = Inr ?u"
    using es assms(2,3,5) by (intro unpack_nbit_stream) auto
  have len: "length ?u = ?n * es" by (subst length_concat_const[where w = es]) auto
  have "fold_res (\<lambda>i out. and_then (slice ?u (i * es) ((i + 1) * es)) (\<lambda>src.
          and_then (slice (to_le 8 (unat (packed_val_of es src + min_val_of es m))) 0 es) (put_range out (i * es))))
        [0..<?n] (replicate (?n * es) 0)
      = fold_res (\<lambda>i out. put_range out (i * es) (to_le es (stream_value data (i * bits) bits + from_le m)))
          [0..<?n] (replicate (?n * es) 0)"
  proof (rule fold_res_cong[OF refl refl])
    fix i out assume i: "i \<in> set [0..<?n]"
    let ?src = "to_le es (stream_value data (i * bits) bits)"
    have "(i + 1) * es \<le> ?n * es" using i by (intro mult_le_mono1) simp
    moreover have "take es (drop (i * es) ?u) = ?src"
      using nth_block_concat[of ?n "\<lambda>i. to_le es (2 ^ 0 * stream_value data (i * bits) bits)" es i] i by simp
    ultimately have "slice ?u (i * es) ((i + 1) * es) = Inr ?src"
      using len by (simp add: slice_Inr_iff)
    moreover have "take es (to_le 8 (unat (packed_val_of es ?src + min_val_of es m)))
        = to_le es (stream_value data (i * bits) bits + from_le m)"
    proof -
      have "to_le es (from_le ?src + from_le m) = to_le es ((from_le ?src + from_le m) mod 256 ^ es)"
        by (simp only: to_le_mod order_refl)
      also have "\<dots> = to_le es (stream_value data (i * bits) bits + from_le m)"
        by (simp only: from_le_to_le_mod mod_add_left_eq to_le_mod order_refl)
      finally show ?thesis using add_val_bytes[OF assms(1) length_to_le assms(4)] by simp
    qed
    ultimately show "and_then (slice ?u (i * es) ((i + 1) * es)) (\<lambda>src.
          and_then (slice (to_le 8 (unat (packed_val_of es src + min_val_of es m))) 0 es) (put_range out (i * es)))
        = put_range out (i * es) (to_le es (stream_value data (i * bits) bits + from_le m))"
      using es by (simp only: and_then_simps access_in_range(3) length_to_le drop_0 diff_zero le0)
  qed
  also have "\<dots> = Inr (concat (map (\<lambda>i. to_le es (stream_value data (i * bits) bits + from_le m)) [0..<?n]))"
    by (rule put_range_loop) simp_all
  finally have "fold_res (\<lambda>i out. and_then (slice ?u (i * es) ((i + 1) * es)) (\<lambda>src.
          and_then (slice (to_le 8 (unat (packed_val_of es src + min_val_of es m))) 0 es) (put_range out (i * es))))
        [0..<?n] (replicate (?n * es) 0)
      = Inr (concat (map (\<lambda>i. to_le es (stream_value data (i * bits) bits + from_le m)) [0..<?n]))" .
  then show ?thesis
    using es assms(2) by (simp only: decode_scaleoffset_int_def u and_then_simps Let_def len) simp
qed

theorem decode_scaleoffset_correct_witness:
  "decode_scaleoffset_int [0x18] 1 2 [5] = Inr [5, 6, 7, 5]"
proof -
  have "decode_scaleoffset_int [0x18] 1 2 [5] =
    Inr (concat (map (\<lambda>i. to_le 1 (stream_value [0x18] (i * 2) 2 + from_le [5])) [0..<length [0x18 :: byte] * 8 div 2]))"
    by (rule decode_scaleoffset_correct) (simp_all add: int_width_def)
  also have "\<dots> = Inr [5, 6, 7, 5]" by code_simp
  finally show ?thesis .
qed

text \<open>
  The element width of the scale-offset decoder is the datatype's, and nothing bounds it
  by the eight bytes of the accumulator: with a wider element the decoder panics on the first
  element instead of returning an error, in every build profile.
\<close>

theorem decode_scaleoffset_wide_panics:
  assumes "8 < es" and "0 < bits" "bits \<le> 64" and "es * 8 < u32_lim"
    and "bits \<le> length data * 8" and "length data * 8 * es \<le> isize_max"
  shows "decode_scaleoffset_int data es bits m = Inl Panic"
proof -
  let ?n = "length data * 8 div bits"
  let ?f = "\<lambda>i out. and_then (nbit_value data (i * bits) bits) (\<lambda>value.
          and_then (shl64 value 0) (\<lambda>p. put_range out (i * es) (take (min es 8) (to_le 8 (unat p)))))"
  have es: "min es 8 = 8" using assms(1) by simp
  have "?n * es \<le> length data * 8 * es" by (intro mult_le_mono1) simp
  then have sz: "?n * es \<le> isize_max" using assms(6) by linarith
  have dl: "length data * 8 \<le> length data * 8 * es" using assms(1) by simp
  have tot: "min (length data * 8) u64_max = length data * 8" using dl assms(6) by linarith
  have max: "min (es * 8) u64_max mod u32_lim = es * 8" using assms(4) by simp
  have all: "\<exists>u. fold_res ?f xs buf = Inr u \<and> length u = length buf" if "set xs \<subseteq> {..<?n}" "length buf = ?n * es" for xs buf
    using that
  proof (induction xs arbitrary: buf)
    case (Cons i xs)
    then have "i < ?n" by simp
    then have "Suc i * bits \<le> ?n * bits" by (intro mult_le_mono1) simp
    also have "\<dots> \<le> length data * 8" by simp
    finally have "i * bits + bits \<le> length data * 8" by simp
    then obtain v where v: "nbit_value data (i * bits) bits = Inr v"
      using nbit_value_correct assms(3) by blast
    have "Suc i * es \<le> ?n * es" using \<open>i < ?n\<close> by (intro mult_le_mono1) simp
    then have "i * es + 8 \<le> length buf" using assms(1) Cons.prems(2) by simp
    then have "?f i buf = Inr (splice buf (i * es) (to_le 8 (unat v)))"
      using v by (simp add: shl64_def es put_range_def take_to_le del: to_le.simps)
    then show ?case
      using Cons.IH[of "splice buf (i * es) (to_le 8 (unat v))"] Cons.prems \<open>i * es + 8 \<le> length buf\<close> by simp
  qed simp
  have "set [0..<?n] \<subseteq> {..<?n}" by auto
  from this[THEN all, of "replicate (?n * es) 0"] obtain u
    where u: "fold_res ?f [0..<?n] (replicate (?n * es) 0) = Inr u" "length u = ?n * es" by auto
  have unp: "unpack_nbit data es bits 0 = Inr u"
    using assms(1-4) sz u(1) by (simp add: unpack_nbit_def Let_def max tot)
  have n: "0 < ?n" using assms(2,5) by (simp add: div_greater_zero_iff)
  then have "[0..<?n] = 0 # [1..<?n]" by (simp add: upt_rec)
  moreover have "es \<le> length u" using u(2) n by simp
  moreover have "slice (to_le 8 x) 0 es = Inl Panic" for x
    using assms(1) by (simp add: slice_def get_range_def)
  ultimately show ?thesis
    using assms(1,2) u(2) by (simp add: decode_scaleoffset_int_def unp Let_def)
qed

theorem decode_scaleoffset_wide_panics_witness:
  "decode_scaleoffset_int [0x12] 16 4 (replicate 16 0) = Inl Panic"
  by (rule decode_scaleoffset_wide_panics) simp_all

section \<open>szip framing\<close>

definition decode_szip ::
  "(bytes \<Rightarrow> szip_params \<Rightarrow> bytes option) \<Rightarrow> bytes \<Rightarrow> filter_info \<Rightarrow> nat option \<Rightarrow> bytes res" where
  "decode_szip szip_decode data flt expected_out_len =
     (if length (client_data flt) < 4 then Inl Corrupted
      else
        let options_mask = client_data flt ! 0;
            bpp = client_data flt ! 1 mod 256;
            nn = and options_mask 0x20 \<noteq> 0;
            msb = and options_mask 0x10 \<noteq> 0;
            raw_mode = and options_mask 0x80 \<noteq> 0;
            params = (\<lambda>n. \<lparr>bits_per_pixel = bpp, pixels_per_block = client_data flt ! 2, szip_samples = n,
              reference_sample_interval = client_data flt ! 3, szip_msb = msb, nn_preprocess = nn,
              rsi_byte_align = False\<rparr>) in
        if bpp = 0 then Inl Corrupted
        else
          let bytes_per_sample = (bpp + 7) div 8 in
          if raw_mode then
            and_then (ok_or expected_out_len UnsupportedFilter) (\<lambda>uncompressed_bytes.
            and_then (ok_or (szip_decode data (params (uncompressed_bytes div bytes_per_sample))) Corrupted) (\<lambda>decoded.
              if length decoded \<noteq> uncompressed_bytes then Inl Corrupted else Inr decoded))
          else if length data < 4 then Inl Corrupted
          else
            let uncompressed_bytes = from_le [data ! 0, data ! 1, data ! 2, data ! 3] in
            and_then (ok_or (szip_decode (drop 4 data) (params (uncompressed_bytes div bytes_per_sample))) Corrupted) (\<lambda>decoded.
              if length decoded \<noteq> uncompressed_bytes then Inl Corrupted else Inr decoded))"

section \<open>One inverse filter, and the pipeline\<close>

definition shuffle_width :: "filter_info \<Rightarrow> nat \<Rightarrow> nat" where
  "shuffle_width flt elem_size =
     (case client_data flt of [] \<Rightarrow> elem_size | v # _ \<Rightarrow> if v > 0 then v else elem_size)"

definition apply_one_inverse :: "codecs \<Rightarrow> bytes \<Rightarrow> filter_info \<Rightarrow> nat \<Rightarrow> nat option \<Rightarrow> bytes res" where
  "apply_one_inverse c data flt elem_size expected_out_len =
     (if filter_id flt = DEFLATE then inflate_deflate c data
      else if filter_id flt = SHUFFLE then
        let es = shuffle_width flt elem_size in
        if es = 0 then Inr data else unshuffle data es
      else if filter_id flt = FLETCHER32 then verify_fletcher32 data
      else if filter_id flt = NBIT then
        if length (client_data flt) \<ge> 7 \<and> client_data flt ! 1 = 0
           \<and> client_data flt ! 2 > 0 \<and> client_data flt ! 5 > 0
        then unpack_nbit data (client_data flt ! 2) (client_data flt ! 5) (client_data flt ! 6)
        else Inl UnsupportedFilter
      else if filter_id flt = SCALEOFFSET then
        if data = [] then Inr []
        else
          let min_bits = unat (data ! 0) in
          if elem_size = 0 then Inl Format
          else and_then (uadd 1 elem_size) (\<lambda>h.
            if min_bits = 0 then (if length data < h then Inl Format else Inr (drop 1 data))
            else if length data < h then Inl Format
            else and_then (slice data 1 h) (\<lambda>min_val_bytes.
              decode_scaleoffset_int (drop h data) elem_size min_bits min_val_bytes))
      else if filter_id flt = SZIP then
        (case szip_decoder c of
           Some dec \<Rightarrow> decode_szip dec data flt expected_out_len
         | None \<Rightarrow> Inl UnsupportedFilter)
      else Inl UnsupportedFilter)"

text \<open>The mask bit of filter \<open>idx\<close>; positions from 32 on cannot be masked.\<close>

definition filter_skipped :: "nat \<Rightarrow> nat \<Rightarrow> bool" where
  "filter_skipped filter_mask idx \<longleftrightarrow> idx < 32 \<and> and (drop_bit idx filter_mask) 1 = 1"

definition apply_pipeline_sized ::
  "codecs \<Rightarrow> bytes \<Rightarrow> filter_pipeline \<Rightarrow> nat \<Rightarrow> nat \<Rightarrow> nat option \<Rightarrow> bytes res" where
  "apply_pipeline_sized c raw pipeline filter_mask elem_size expected_out_len =
     fold_res (\<lambda>(idx, flt) data.
       if filter_skipped filter_mask idx then Inr data
       else apply_one_inverse c data flt elem_size expected_out_len)
       (rev (enumerate 0 (pipeline_filters pipeline))) raw"

definition apply_pipeline :: "codecs \<Rightarrow> bytes \<Rightarrow> filter_pipeline \<Rightarrow> nat \<Rightarrow> nat \<Rightarrow> bytes res" where
  "apply_pipeline c raw pipeline filter_mask elem_size =
     apply_pipeline_sized c raw pipeline filter_mask elem_size None"

end
