(* ===== verification/Superblock.thy ===== *)
theory Superblock
  imports Byte_Fields
begin

text \<open>
  \<^verbatim>\<open>oxih5-format/src/superblock.rs\<close>: the superblock at the start of the file, versions 0
  to 3, up to the address of the root group's object header. The superblock extension is in
  \<open>Superblock_Extension\<close>, since it needs the object header parser.
\<close>

definition hdf5_signature :: bytes where
  "hdf5_signature = [0x89, 0x48, 0x44, 0x46, 0x0d, 0x0a, 0x1a, 0x0a]"

record superblock =
  sb_version :: byte
  sb_size_of_offsets :: byte
  sb_size_of_lengths :: byte
  sb_base_address :: nat
  root_object_header_address :: nat
  superblock_extension_address :: "nat option"

definition read_offset_at :: "bytes \<Rightarrow> nat \<Rightarrow> nat \<Rightarrow> nat res" where
  "read_offset_at data pos sz =
     and_then (uadd pos sz) (\<lambda>e.
     and_then (ok_or (get_range data pos e) Format) (\<lambda>bs.
       if sz = 1 then and_then (index bs 0) (\<lambda>b. Inr (unat b))
       else if sz = 2 then Inr (from_le [bs ! 0, bs ! 1])
       else if sz = 4 then Inr (from_le [bs ! 0, bs ! 1, bs ! 2, bs ! 3])
       else if sz = 8 then Inr (from_le bs)
       else Inl Format))"

definition undefined_address :: "nat \<Rightarrow> nat" where
  "undefined_address soo = (if soo \<ge> 8 then u64_max else 2 ^ (soo * 8) - 1)"

definition parse_v0 :: "bytes \<Rightarrow> superblock res" where
  "parse_v0 data =
     (if length data < 96 then Inl Format
      else
        and_then (index data 13) (\<lambda>soo.
        and_then (index data 14) (\<lambda>sol.
          if soo \<noteq> 8 \<or> sol \<noteq> 8 then Inl Format
          else
            and_then (read_u64_le data 24) (\<lambda>base.
            and_then (read_u64_le data 64) (\<lambda>root.
              Inr \<lparr>sb_version = 0, sb_size_of_offsets = soo, sb_size_of_lengths = sol,
                   sb_base_address = base, root_object_header_address = root,
                   superblock_extension_address = None\<rparr>)))))"

definition parse_v1 :: "bytes \<Rightarrow> superblock res" where
  "parse_v1 data =
     (if length data < 100 then Inl Format
      else
        and_then (index data 13) (\<lambda>soo.
        and_then (index data 14) (\<lambda>sol.
          if soo \<noteq> 8 \<or> sol \<noteq> 8 then Inl Format
          else
            and_then (read_u64_le data 28) (\<lambda>base.
            and_then (read_u64_le data 68) (\<lambda>root.
              Inr \<lparr>sb_version = 1, sb_size_of_offsets = soo, sb_size_of_lengths = sol,
                   sb_base_address = base, root_object_header_address = root,
                   superblock_extension_address = None\<rparr>)))))"

definition parse_v2 :: "bytes \<Rightarrow> byte \<Rightarrow> superblock res" where
  "parse_v2 data version =
     (if length data < 13 then Inl Format
      else
        and_then (index data 9) (\<lambda>size_of_offsets.
        and_then (index data 10) (\<lambda>size_of_lengths.
        let soo = unat size_of_offsets in
        and_then (read_offset_at data 12 soo) (\<lambda>base.
        and_then (read_offset_at data (12 + soo) soo) (\<lambda>raw_ext.
        let ext = (if raw_ext = undefined_address soo then None else Some raw_ext) in
        and_then (read_offset_at data (12 + 3 * soo) soo) (\<lambda>root.
          Inr \<lparr>sb_version = version, sb_size_of_offsets = size_of_offsets,
               sb_size_of_lengths = size_of_lengths, sb_base_address = base,
               root_object_header_address = root,
               superblock_extension_address = ext\<rparr>))))))"

definition superblock_parse :: "bytes \<Rightarrow> superblock res" where
  "superblock_parse data =
     (if length data < 9 then Inl Format
      else
        and_then (slice data 0 8) (\<lambda>sig.
          if sig \<noteq> hdf5_signature then Inl BadSignature
          else
            and_then (index data 8) (\<lambda>version.
              if version = 0 then parse_v0 data
              else if version = 1 then parse_v1 data
              else if version = 2 \<or> version = 3 then parse_v2 data version
              else Inl (UnsupportedSuperblock version))))"

lemma read_offset_at_read_int: "read_offset_at = read_int"
  by (intro ext) (simp add: read_offset_at_def read_int_def)

section \<open>Properties\<close>

lemma unat_byte_bound: "unat (b :: byte) \<le> 255"
  using unat_byte_less[of b] by linarith

lemma parse_v0_no_panic: "no_panic (parse_v0 data)"
  by (auto simp: parse_v0_def intro!: no_panic_and_then)

lemma parse_v1_no_panic: "no_panic (parse_v1 data)"
  by (auto simp: parse_v1_def intro!: no_panic_and_then)

lemma parse_v2_no_panic: "no_panic (parse_v2 data version)"
proof -
  have "12 + unat b < u64_lim" "12 + unat b + unat b < u64_lim" "12 + 3 * unat b + unat b < u64_lim"
    for b :: byte
    using unat_byte_bound[of b] by linarith+
  then show ?thesis
    by (auto simp: parse_v2_def read_offset_at_read_int Let_def intro!: no_panic_and_then)
qed

text \<open>
  The superblock parser never panics: whatever bytes the file starts with, the result is a
  superblock or a typed error.
\<close>

theorem superblock_parse_never_panics: "superblock_parse data \<noteq> Inl Panic"
proof -
  have "no_panic (superblock_parse data)"
    by (auto simp: superblock_parse_def slice_Inr_iff
        intro!: no_panic_and_then parse_v0_no_panic parse_v1_no_panic parse_v2_no_panic)
  then show ?thesis by (simp add: no_panic_def)
qed

text \<open>
  What an accepted superblock says: the signature matches, the version is one of the four
  known ones, offsets have a width the parser can read (eight bytes for versions 0 and 1), every
  address fits the offset width, and only versions 2 and 3 carry an extension address, which is
  never the undefined address.
\<close>

theorem superblock_parse_sound:
  assumes "superblock_parse data = Inr sb"
  shows "take 8 data = hdf5_signature
       \<and> sb_version sb = data ! 8 \<and> sb_version sb \<in> {0, 1, 2, 3}
       \<and> int_width (unat (sb_size_of_offsets sb))
       \<and> (sb_version sb \<in> {0, 1} \<longrightarrow>
            sb_size_of_offsets sb = 8 \<and> sb_size_of_lengths sb = 8
            \<and> superblock_extension_address sb = None)
       \<and> root_object_header_address sb < 256 ^ unat (sb_size_of_offsets sb)
       \<and> superblock_extension_address sb \<noteq> Some (undefined_address (unat (sb_size_of_offsets sb)))"
proof -
  from assms have sig: "take 8 data = hdf5_signature" and len: "9 \<le> length data"
    by (auto simp: superblock_parse_def slice_Inr_iff split: if_splits)
  from assms len consider
      (v0) "data ! 8 = 0" "parse_v0 data = Inr sb"
    | (v1) "data ! 8 = 1" "parse_v1 data = Inr sb"
    | (v2) "data ! 8 = 2 \<or> data ! 8 = 3" "parse_v2 data (data ! 8) = Inr sb"
    by (auto simp: superblock_parse_def index_Inr_iff split: if_splits)
  then show ?thesis
  proof cases
    case v0
    then show ?thesis using sig
      by (auto simp: parse_v0_def int_width_def split: if_splits)
  next
    case v1
    then show ?thesis using sig
      by (auto simp: parse_v1_def int_width_def split: if_splits)
  next
    case v2
    then show ?thesis using sig
      by (auto simp: parse_v2_def read_offset_at_read_int Let_def field_less
          split: if_splits)
  qed
qed

definition tiny_superblock :: bytes where
  "tiny_superblock = hdf5_signature @ [2, 1, 1, 0, 0, 255, 90, 48, 0, 0, 0, 0]"

theorem superblock_parse_sound_witness:
  "superblock_parse tiny_superblock =
     Inr \<lparr>sb_version = 2, sb_size_of_offsets = 1, sb_size_of_lengths = 1, sb_base_address = 0,
          root_object_header_address = 48, superblock_extension_address = None\<rparr>
   \<and> take 8 tiny_superblock = hdf5_signature"
proof -
  have *: "superblock_parse tiny_superblock =
      Inr \<lparr>sb_version = 2, sb_size_of_offsets = 1, sb_size_of_lengths = 1, sb_base_address = 0,
           root_object_header_address = 48, superblock_extension_address = None\<rparr>"
    by (simp add: tiny_superblock_def superblock_parse_def parse_v2_def hdf5_signature_def slice_def
        get_range_def index_def get_elem_def read_offset_at_def undefined_address_def Let_def)
  from superblock_parse_sound[OF this] * show ?thesis by simp
qed

end
