(* ===== verification/Write_Format.thy ===== *)
theory Write_Format
  imports Buffers Superblock Local_Heap Snod
begin

text \<open>
  \<^verbatim>\<open>oxih5/src/write/format.rs\<close> and the helpers of \<^verbatim>\<open>oxih5/src/write/mod.rs\<close>: the
  fixed-shape structures the writer emits (integers, object header message headers, the
  superblock, local heaps, symbol table nodes), each shown to be one splice of an explicit
  encoding, and each read back by the parser of the format crate.

  A Rust function that mutates \<^verbatim>\<open>buf: &mut [u8]\<close> and returns a count is a function from a
  buffer to the new buffer and the count.
\<close>

section \<open>Integers\<close>

definition write_u16_le :: "bytes \<Rightarrow> nat \<Rightarrow> nat \<Rightarrow> bytes res" where
  "write_u16_le buf offset val = put_range buf offset (to_le 2 val)"

definition write_u32_le :: "bytes \<Rightarrow> nat \<Rightarrow> nat \<Rightarrow> bytes res" where
  "write_u32_le buf offset val = put_range buf offset (to_le 4 val)"

definition write_u64_le :: "bytes \<Rightarrow> nat \<Rightarrow> nat \<Rightarrow> bytes res" where
  "write_u64_le buf offset val = put_range buf offset (to_le 8 val)"

definition fill_zero :: "bytes \<Rightarrow> nat \<Rightarrow> nat \<Rightarrow> bytes res" where
  "fill_zero buf start len = put_range buf start (replicate len 0)"

interpretation u16_field: byte_field 2 read_u16_le write_u16_le
  by unfold_locales (simp_all add: read_u16_le_eq write_u16_le_def put_range_def)

interpretation u32_field: byte_field 4 read_u32_le write_u32_le
  by unfold_locales (simp_all add: read_u32_le_eq write_u32_le_def put_range_def)

interpretation u64_field: byte_field 8 read_u64_le write_u64_le
  by unfold_locales (simp_all add: read_u64_le_eq write_u64_le_def put_range_def)

text \<open>
  A field reads back what was written to it, and no other field sees the write: writing a
  64-bit integer and reading it gives the integer, and a read that does not overlap the write
  is unchanged.
\<close>

theorem u64_field_round_trip:
  assumes "write_u64_le buf offset v = Inr b" and "offset + 8 < u64_lim" and "v < u64_lim"
    and "at + 8 \<le> offset \<or> offset + 8 \<le> at" and "at + 8 \<le> length buf" and "at + 8 < u64_lim"
  shows "read_u64_le b offset = Inr v \<and> read_u64_le b at = read_u64_le buf at \<and> length b = length buf"
  using u64_field.rd_wr_same[OF assms(1,2)] u64_field.rd_wr_other[OF assms(1,4,5,6)]
    u64_field.wr_length[OF assms(1)] assms(3) by simp

theorem u64_field_round_trip_witness:
  "\<exists>b. write_u64_le (replicate 24 0) 8 300 = Inr b \<and> read_u64_le b 8 = Inr 300
     \<and> read_u64_le b 16 = read_u64_le (replicate 24 0) 16"
proof -
  obtain b where b: "write_u64_le (replicate 24 0) 8 300 = Inr b"
    by (simp add: write_u64_le_def put_range_def)
  from u64_field_round_trip[OF b, of 16] b show ?thesis by auto
qed

section \<open>Writer-wide checks\<close>

definition pad8 :: "nat \<Rightarrow> nat res" where
  "pad8 n = and_then (uadd n 7) (\<lambda>m. Inr (m div 8 * 8))"

definition check_size :: "nat \<Rightarrow> nat \<Rightarrow> unit res" where
  "check_size wrote reserved = (if wrote \<noteq> reserved then Inl Format else Inr ())"

definition narrow :: "nat \<Rightarrow> nat \<Rightarrow> nat res" where
  "narrow limit v = (if v < limit then Inr v else Inl Format)"

definition checked_byte_len :: "nat list \<Rightarrow> nat \<Rightarrow> nat res" where
  "checked_byte_len shape elem_size =
     and_then (fold_res (\<lambda>d acc. ok_or (checked_mul acc d) Format) shape 1) (\<lambda>n_elems.
       ok_or (checked_mul n_elems elem_size) Format)"

lemma pad8_align8: "n + 7 < u64_lim \<Longrightarrow> pad8 n = Inr (align8 n)"
  by (simp add: pad8_def align8_def)

section \<open>Message headers, signature and superblock\<close>

definition write_msg_header :: "bytes \<Rightarrow> nat \<Rightarrow> nat \<Rightarrow> nat \<Rightarrow> byte \<Rightarrow> bytes res" where
  "write_msg_header buf offset msg_type body_size flags =
     and_then (fill_zero buf offset 8) (\<lambda>buf.
     and_then (write_u16_le buf offset msg_type) (\<lambda>buf.
     and_then (write_u16_le buf (offset + 2) body_size) (\<lambda>buf.
       put_elem buf (offset + 4) flags)))"

definition write_signature :: "bytes \<Rightarrow> (bytes \<times> nat) res" where
  "write_signature buf =
     and_then (put_range buf 0 [0x89, 0x48, 0x44, 0x46, 0x0d, 0x0a, 0x1a, 0x0a]) (\<lambda>buf. Inr (buf, 8))"

abbreviation (input) SYM_LEAF_K :: nat where "SYM_LEAF_K \<equiv> 4"
abbreviation (input) SNOD_MAX_ENTRIES :: nat where "SNOD_MAX_ENTRIES \<equiv> 8"
abbreviation (input) STE_SIZE :: nat where "STE_SIZE \<equiv> 40"
abbreviation (input) SNOD_PREFIX :: nat where "SNOD_PREFIX \<equiv> 8"
abbreviation (input) SNOD_SIZE :: nat where "SNOD_SIZE \<equiv> 328"
abbreviation (input) GROUP_INTERNAL_K :: nat where "GROUP_INTERNAL_K \<equiv> 16"
abbreviation (input) ROOT_OH_ADDR :: nat where "ROOT_OH_ADDR \<equiv> 96"

definition write_superblock :: "bytes \<Rightarrow> nat \<Rightarrow> nat \<Rightarrow> nat \<Rightarrow> (bytes \<times> nat) res" where
  "write_superblock buf btree_addr heap_addr eof_addr =
     and_then (fill_zero buf 8 88) (\<lambda>buf.
     and_then (put_elem buf 8 0) (\<lambda>buf.
     and_then (put_elem buf 9 0) (\<lambda>buf.
     and_then (put_elem buf 10 0) (\<lambda>buf.
     and_then (put_elem buf 11 0) (\<lambda>buf.
     and_then (put_elem buf 12 0) (\<lambda>buf.
     and_then (put_elem buf 13 8) (\<lambda>buf.
     and_then (put_elem buf 14 8) (\<lambda>buf.
     and_then (put_elem buf 15 0) (\<lambda>buf.
     and_then (write_u16_le buf 16 SYM_LEAF_K) (\<lambda>buf.
     and_then (write_u16_le buf 18 GROUP_INTERNAL_K) (\<lambda>buf.
     and_then (write_u32_le buf 20 0) (\<lambda>buf.
     and_then (write_u64_le buf 24 0) (\<lambda>buf.
     and_then (write_u64_le buf 32 u64_max) (\<lambda>buf.
     and_then (write_u64_le buf 40 eof_addr) (\<lambda>buf.
     and_then (write_u64_le buf 48 u64_max) (\<lambda>buf.
     and_then (write_u64_le buf 56 0) (\<lambda>buf.
     and_then (write_u64_le buf 64 ROOT_OH_ADDR) (\<lambda>buf.
     and_then (write_u32_le buf 72 1) (\<lambda>buf.
     and_then (write_u32_le buf 76 0) (\<lambda>buf.
     and_then (write_u64_le buf 80 btree_addr) (\<lambda>buf.
     and_then (write_u64_le buf 88 heap_addr) (\<lambda>buf.
       Inr (buf, 88)))))))))))))))))))))))"

section \<open>Local heap\<close>

definition write_local_heap :: "bytes \<Rightarrow> nat \<Rightarrow> nat \<Rightarrow> nat \<Rightarrow> nat \<Rightarrow> (bytes \<times> nat) res" where
  "write_local_heap buf base data_addr data_size used_size =
     and_then (fill_zero buf base 32) (\<lambda>buf.
     and_then (put_range buf base [0x48, 0x45, 0x41, 0x50]) (\<lambda>buf.
     and_then (put_elem buf (base + 4) 0) (\<lambda>buf.
     and_then (write_u64_le buf (base + 8) data_size) (\<lambda>buf.
     and_then (write_u64_le buf (base + 16) used_size) (\<lambda>buf.
     and_then (write_u64_le buf (base + 24) data_addr) (\<lambda>buf.
       Inr (buf, 32)))))))"

section \<open>Symbol table nodes\<close>

datatype snod_value =
    SnodObject nat
  | SnodGroup nat nat nat
  | SnodSoftLink nat

record snod_entry =
  ent_name_offset :: nat
  ent_value :: snod_value

definition write_snod_entry :: "bytes \<Rightarrow> nat \<Rightarrow> snod_entry \<Rightarrow> bytes res" where
  "write_snod_entry buf ste entry =
     and_then (write_u64_le buf ste (ent_name_offset entry)) (\<lambda>buf.
       case ent_value entry of
         SnodObject oh_addr \<Rightarrow> write_u64_le buf (ste + 8) oh_addr
       | SnodGroup oh_addr btree_addr heap_addr \<Rightarrow>
           and_then (write_u64_le buf (ste + 8) oh_addr) (\<lambda>buf.
           and_then (write_u32_le buf (ste + 16) 1) (\<lambda>buf.
           and_then (write_u32_le buf (ste + 20) 0) (\<lambda>buf.
           and_then (write_u64_le buf (ste + 24) btree_addr) (\<lambda>buf.
             write_u64_le buf (ste + 32) heap_addr))))
       | SnodSoftLink link_value_offset \<Rightarrow>
           and_then (write_u64_le buf (ste + 8) u64_max) (\<lambda>buf.
           and_then (write_u32_le buf (ste + 16) 2) (\<lambda>buf.
           and_then (write_u32_le buf (ste + 20) 0) (\<lambda>buf.
             write_u32_le buf (ste + 24) link_value_offset))))"

definition write_snod :: "bytes \<Rightarrow> nat \<Rightarrow> snod_entry list \<Rightarrow> (bytes \<times> nat) res" where
  "write_snod buf snod_addr entries =
     (if length entries > SNOD_MAX_ENTRIES then Inl Format
      else
        and_then (fill_zero buf snod_addr SNOD_SIZE) (\<lambda>buf.
        and_then (put_range buf snod_addr [0x53, 0x4e, 0x4f, 0x44]) (\<lambda>buf.
        and_then (put_elem buf (snod_addr + 4) 1) (\<lambda>buf.
        and_then (put_elem buf (snod_addr + 5) 0) (\<lambda>buf.
        and_then (narrow 65536 (length entries)) (\<lambda>n.
        and_then (write_u16_le buf (snod_addr + 6) n) (\<lambda>buf.
        and_then (fold_res (\<lambda>i buf. write_snod_entry buf (snod_addr + SNOD_PREFIX + i * STE_SIZE) (entries ! i))
                   [0..<length entries] buf) (\<lambda>buf.
          Inr (buf, SNOD_SIZE)))))))))"

section \<open>Encodings\<close>

lemmas write_defs = write_u16_le_def write_u32_le_def write_u64_le_def

definition enc_local_heap :: "nat \<Rightarrow> nat \<Rightarrow> nat \<Rightarrow> bytes" where
  "enc_local_heap data_addr data_size used_size =
     sig_HEAP @ [0, 0, 0, 0] @ to_le 8 data_size @ to_le 8 used_size @ to_le 8 data_addr"

lemma fill_zero_splice: "start + n \<le> length buf \<Longrightarrow> fill_zero buf start n = Inr (splice buf start (replicate n 0))"
  by (simp add: fill_zero_def put_range_def)

lemma replicate_3: "replicate 3 x = [x, x, x]"
  by (simp add: numeral_eq_Suc)

lemma write_local_heap_enc:
  assumes "base + 32 \<le> length buf"
  shows "write_local_heap buf base da ds us = Inr (splice buf base (enc_local_heap da ds us), 32)"
  using assms
  by (simp add: write_local_heap_def fill_zero_splice write_simps write_defs)
     (simp add: splice_def enc_local_heap_def sig_HEAP_def replicate_3)

definition enc_ste :: "snod_entry \<Rightarrow> bytes" where
  "enc_ste e = to_le 8 (ent_name_offset e) @
     (case ent_value e of
        SnodObject oh \<Rightarrow> to_le 8 oh @ replicate 24 0
      | SnodGroup oh bt hp \<Rightarrow> to_le 8 oh @ to_le 4 1 @ to_le 4 0 @ to_le 8 bt @ to_le 8 hp
      | SnodSoftLink l \<Rightarrow> to_le 8 u64_max @ to_le 4 2 @ to_le 4 0 @ to_le 4 l @ replicate 12 0)"

lemma length_enc_ste [simp]: "length (enc_ste e) = 40"
  by (simp add: enc_ste_def split: snod_value.splits)

lemma write_snod_entry_enc:
  assumes "zeroed buf ste 40"
  shows "write_snod_entry buf ste e = Inr (splice buf ste (enc_ste e))"
proof -
  have fits: "ste + 40 \<le> length buf" using assms by (simp add: zeroed_def)
  have "write_snod_entry (splice buf ste (replicate 40 0)) ste e = Inr (splice buf ste (enc_ste e))"
    using fits
    by (simp add: write_snod_entry_def write_simps write_defs split: snod_value.splits)
       (simp add: splice_def enc_ste_def)
  then show ?thesis by (simp add: zeroed_eq_splice[OF assms])
qed

definition enc_snod :: "snod_entry list \<Rightarrow> bytes" where
  "enc_snod es = sig_SNOD @ [1, 0] @ to_le 2 (length es) @ concat (map enc_ste es) @ replicate ((8 - length es) * 40) 0"

lemma length_concat_enc_ste [simp]: "length (concat (map enc_ste es)) = length es * 40"
  by (rule length_concat_const) simp

lemma length_enc_snod: "length es \<le> 8 \<Longrightarrow> length (enc_snod es) = 328"
  by (simp add: enc_snod_def sig_SNOD_def)

lemma write_snod_enc:
  assumes "length es \<le> 8" and "a + 328 \<le> length buf"
  shows "write_snod buf a es = Inr (splice buf a (enc_snod es), 328)"
proof -
  let ?h = "sig_SNOD @ [1, 0] @ to_le 2 (length es) @ replicate 320 0"
  let ?b = "splice buf a ?h"
  have lh: "length ?h = 328" by (simp add: sig_SNOD_def)
  have zr: "zeroed ?b (a + 8) 320"
    using assms(2) lh by (simp add: zeroed_def splice_def sig_SNOD_def)
  have z: "zeroed ?b (a + 8) (length es * 40)"
    by (rule zeroed_sub[OF zr]) (use assms(1) in auto)
  have loop: "fold_res (\<lambda>i buf. write_snod_entry buf (a + 8 + i * 40) (es ! i)) [0..<length es] ?b
      = Inr (splice ?b (a + 8) (concat (map (\<lambda>i. enc_ste (es ! i)) [0..<length es])))"
    by (rule slot_loop[OF _ _ z]) (simp_all add: write_snod_entry_enc)
  have cat: "concat (map (\<lambda>i. enc_ste (es ! i)) [0..<length es]) = concat (map enc_ste es)"
  proof -
    have "map (\<lambda>i. enc_ste (es ! i)) [0..<length es] = map enc_ste es" by (rule nth_equalityI) simp_all
    then show ?thesis by simp
  qed
  have "splice ?b (a + 8) (concat (map enc_ste es)) = splice buf a (splice ?h 8 (concat (map enc_ste es)))"
    using assms lh by (intro splice_inside) (simp_all only: length_concat_enc_ste)
  also have "splice ?h 8 (concat (map enc_ste es)) = enc_snod es"
  proof -
    define h0 where "h0 = sig_SNOD @ [1, 0] @ to_le 2 (length es)"
    have "length h0 = 8" by (simp add: h0_def sig_SNOD_def)
    then have "splice (h0 @ replicate 320 0) 8 (concat (map enc_ste es))
        = h0 @ concat (map enc_ste es) @ replicate ((8 - length es) * 40) 0"
      by (simp add: splice_def diff_mult_distrib)
    then show ?thesis by (simp add: h0_def enc_snod_def)
  qed
  finally have enc: "splice ?b (a + 8) (concat (map enc_ste es)) = splice buf a (enc_snod es)" .
  have "write_snod buf a es = and_then (fold_res (\<lambda>i buf. write_snod_entry buf (a + 8 + i * 40) (es ! i))
      [0..<length es] ?b) (\<lambda>buf. Inr (buf, 328))"
    using assms
    by (simp add: write_snod_def fill_zero_splice write_simps write_defs narrow_def)
       (simp add: splice_def sig_SNOD_def)
  then show ?thesis by (simp only: loop cat enc and_then_simps)
qed

section \<open>What the parsers read back\<close>

text \<open>
  Local heap round trip: a heap header written at an address, over a data segment that
  lies in the file, parses to exactly that data segment.
\<close>

theorem local_heap_round_trip:
  assumes "write_local_heap buf base da ds us = Inr (b, n)"
    and "length buf < u64_lim" and "da + ds \<le> length buf"
  shows "heap_parse b base = Inr \<lparr>heap_data = take ds (drop da b)\<rparr> \<and> length b = length buf \<and> n = 32"
proof -
  have fits: "base + 32 \<le> length buf"
    using assms(1) by (auto simp: write_local_heap_def fill_zero_def put_range_Inr_iff)
  then have b: "b = splice buf base (enc_local_heap da ds us)" "n = 32"
    using assms(1) by (simp_all add: write_local_heap_enc)
  have le: "length (enc_local_heap da ds us) = 32" by (simp add: enc_local_heap_def sig_HEAP_def)
  have lb: "length b = length buf" using fits le by (simp add: b)
  have d: "drop base b = enc_local_heap da ds us @ drop (base + 32) buf"
    using fits le by (simp add: b drop_splice)
  have f8: "field 8 b (base + 8) = ds" "field 8 b (base + 24) = da"
    unfolding field_drop d enc_local_heap_def using assms(2,3)
    by (simp_all add: sig_HEAP_def field_eval)
  have "b ! (base + 4) = drop base b ! 4" using fits lb by simp
  then have "b ! (base + 4) = 0" unfolding d by (simp add: enc_local_heap_def sig_HEAP_def)
  moreover have "take 4 (drop base b) = sig_HEAP" unfolding d by (simp add: enc_local_heap_def sig_HEAP_def)
  ultimately have "heap_parse b base = Inr \<lparr>heap_data = take ds (drop da b)\<rparr>"
    using fits lb assms(2,3) by (simp add: heap_parse_Inr_iff f8)
  then show ?thesis using lb b(2) by simp
qed

theorem local_heap_round_trip_witness:
  "\<exists>b n. write_local_heap (replicate 40 0) 0 32 8 8 = Inr (b, n)
     \<and> heap_parse b 0 = Inr \<lparr>heap_data = take 8 (drop 32 b)\<rparr>"
proof -
  have w: "write_local_heap (replicate 40 0) 0 32 8 8
      = Inr (splice (replicate 40 0) 0 (enc_local_heap 32 8 8), 32)"
    by (rule write_local_heap_enc) simp
  from local_heap_round_trip[OF w] w show ?thesis by auto
qed

definition read_back :: "snod_entry \<Rightarrow> sym_tab_entry" where
  "read_back e = (case ent_value e of
     SnodObject oh \<Rightarrow> \<lparr>name_offset = ent_name_offset e, object_header_address = oh, cache = CacheNone\<rparr>
   | SnodGroup oh bt hp \<Rightarrow>
       \<lparr>name_offset = ent_name_offset e, object_header_address = oh, cache = CacheGroup bt hp\<rparr>
   | SnodSoftLink l \<Rightarrow>
       \<lparr>name_offset = ent_name_offset e, object_header_address = u64_max, cache = CacheSoftLink l\<rparr>)"

text \<open>The width of the Rust fields: \<open>u64\<close> addresses, \<open>u32\<close> soft link offset.\<close>

definition entry_wf :: "snod_entry \<Rightarrow> bool" where
  "entry_wf e \<longleftrightarrow> ent_name_offset e < u64_lim \<and>
     (case ent_value e of
        SnodObject oh \<Rightarrow> oh < u64_lim
      | SnodGroup oh bt hp \<Rightarrow> oh < u64_lim \<and> bt < u64_lim \<and> hp < u64_lim
      | SnodSoftLink l \<Rightarrow> l < u32_lim)"

lemma entry_at_enc_ste:
  assumes "take 40 (drop p d) = enc_ste e" and "entry_wf e"
  shows "entry_at d p = read_back e"
proof -
  have f: "field n d (p + k) = field n (enc_ste e) k" if "k + n \<le> 40" for n k
    using field_of_slot[OF assms(1) that] .
  have f0: "field 8 d p = field 8 (enc_ste e) 0" using f[of 0 8] by simp
  have z: "field 4 (replicate 24 0) 0 = 0" "field 4 (replicate 12 0) 0 = 0" by (simp_all add: field_def)
  show ?thesis
    using assms(2)
    by (cases "ent_value e")
       (simp_all add: entry_at_def cache_at_def Let_def f f0 enc_ste_def read_back_def entry_wf_def
          field_eval z)
qed

lemma snod_region:
  assumes "drop a b = enc_snod es @ rest" and "length es \<le> 8" and "\<forall>e\<in>set es. entry_wf e"
    and "length b < u64_lim"
  shows "snod_parse b a = Inr (map read_back es)"
proof -
  have lb: "a + 328 \<le> length b"
    using arg_cong[OF assms(1), of length] length_enc_snod[OF assms(2)] by simp
  have "snod_ok b a (length es)"
  proof -
    have "a + 8 + length es * 40 \<le> length b" using lb assms(2) by linarith
    moreover have "take 4 (drop a b) = sig_SNOD"
      unfolding assms(1) by (simp add: enc_snod_def sig_SNOD_def)
    moreover have "b ! (a + 4) = drop a b ! 4" using lb by simp
    then have "b ! (a + 4) = 1" unfolding assms(1) by (simp add: enc_snod_def sig_SNOD_def)
    moreover have "field 2 b (a + 6) = length es"
      unfolding field_drop assms(1) using assms(2)
      by (simp add: enc_snod_def sig_SNOD_def field_eval)
    ultimately show ?thesis by (simp add: snod_ok_def)
  qed
  then have parsed: "snod_parse b a = Inr (map (\<lambda>i. entry_at b (a + 8 + i * 40)) [0..<length es])"
    using assms(4) by (rule snod_parse_ok)
  have "entry_at b (a + 8 + i * 40) = read_back (es ! i)" if i: "i < length es" for i
  proof (rule entry_at_enc_ste)
    have "Suc i * 40 \<le> length es * 40" using i by (intro mult_le_mono1) simp
    then have m: "min 40 (length es * 40 - i * 40) = 40" by simp
    have "drop (a + 8 + i * 40) b = drop (i * 40) (drop 8 (drop a b))" by (simp add: ac_simps)
    also have "\<dots> = drop (i * 40) (concat (map enc_ste es) @ replicate ((8 - length es) * 40) 0 @ rest)"
      unfolding assms(1) by (simp add: enc_snod_def sig_SNOD_def)
    finally have "take 40 (drop (a + 8 + i * 40) b) = take 40 (drop (i * 40) (concat (map enc_ste es)))"
      using \<open>Suc i * 40 \<le> length es * 40\<close> by simp
    also have "concat (map enc_ste es) = concat (map (\<lambda>i. enc_ste (es ! i)) [0..<length es])"
      by (rule arg_cong[of _ _ concat], rule nth_equalityI) simp_all
    also have "take 40 (drop (i * 40) \<dots>) = enc_ste (es ! i)"
      by (rule nth_block_concat) (simp_all add: i)
    finally show "take 40 (drop (a + 8 + i * 40) b) = enc_ste (es ! i)" .
  qed (use assms(3) i in simp)
  then have "map (\<lambda>i. entry_at b (a + 8 + i * 40)) [0..<length es] = map read_back es"
    by (intro nth_equalityI) simp_all
  with parsed show ?thesis by simp
qed

text \<open>
  Symbol table node round trip: a node of up to eight entries written anywhere in a buffer
  parses back to exactly those entries, in order, each with the cache type of its link kind: an
  object, a group with its cached addresses, or a soft link with no object header.
\<close>

theorem snod_round_trip:
  assumes "length es \<le> 8" and "a + 328 \<le> length buf" and "length buf < u64_lim"
    and "\<forall>e\<in>set es. entry_wf e"
  shows "\<exists>b. write_snod buf a es = Inr (b, SNOD_SIZE) \<and> length b = length buf
    \<and> snod_parse b a = Inr (map read_back es)"
proof -
  let ?b = "splice buf a (enc_snod es)"
  have l: "length ?b = length buf" using assms(1,2) by (simp add: length_enc_snod)
  have "drop a ?b = enc_snod es @ drop (a + 328) buf"
    using assms(1,2) by (simp add: drop_splice length_enc_snod)
  from snod_region[OF this assms(1,4)] show ?thesis
    using assms(3) l write_snod_enc[OF assms(1,2)] by simp
qed

theorem snod_round_trip_witness:
  "\<exists>b. write_snod (replicate 400 1) 8 [\<lparr>ent_name_offset = 8, ent_value = SnodGroup 16 24 32\<rparr>] = Inr (b, 328)
    \<and> snod_parse b 8 = Inr [\<lparr>name_offset = 8, object_header_address = 16, cache = CacheGroup 24 32\<rparr>]"
  using snod_round_trip[of "[\<lparr>ent_name_offset = 8, ent_value = SnodGroup 16 24 32\<rparr>]" 8 "replicate 400 1"]
  by (auto simp: entry_wf_def read_back_def)

definition enc_superblock :: "nat \<Rightarrow> nat \<Rightarrow> nat \<Rightarrow> bytes" where
  "enc_superblock bt hp eof =
     [0, 0, 0, 0, 0, 8, 8, 0] @ to_le 2 SYM_LEAF_K @ to_le 2 GROUP_INTERNAL_K @ to_le 4 0 @ to_le 8 0
     @ to_le 8 u64_max @ to_le 8 eof @ to_le 8 u64_max @ to_le 8 0 @ to_le 8 ROOT_OH_ADDR @ to_le 4 1 @ to_le 4 0
     @ to_le 8 bt @ to_le 8 hp"

lemma write_superblock_enc:
  assumes "96 \<le> length buf"
  shows "write_superblock buf bt hp eof = Inr (splice buf 8 (enc_superblock bt hp eof), 88)"
  using assms
  by (simp add: write_superblock_def fill_zero_splice put_elem_range put_range_next region_start write_defs del: to_le.simps)
     (simp add: region_def enc_superblock_def del: to_le.simps)

text \<open>
  A file the writer starts is one the reader opens: the signature and the version-0
  superblock, written into any buffer of at least 96 bytes, parse back with eight-byte offsets
  and lengths, base address zero, no extension and the root group's header at address 96.
\<close>

theorem superblock_round_trip:
  assumes "96 \<le> length buf"
  shows "\<exists>b1 b2. write_signature buf = Inr (b1, 8) \<and> write_superblock b1 bt hp eof = Inr (b2, 88)
    \<and> superblock_parse b2 = Inr \<lparr>sb_version = 0, sb_size_of_offsets = 8, sb_size_of_lengths = 8,
        sb_base_address = 0, root_object_header_address = 96, superblock_extension_address = None\<rparr>"
proof -
  let ?sig = "[0x89, 0x48, 0x44, 0x46, 0x0d, 0x0a, 0x1a, 0x0a] :: bytes"
  let ?b1 = "splice buf 0 ?sig"
  let ?e = "enc_superblock bt hp eof"
  let ?b2 = "splice ?b1 8 ?e"
  have le: "length ?e = 88" by (simp add: enc_superblock_def)
  have sig: "write_signature buf = Inr (?b1, 8)" using assms by (simp add: write_signature_def put_range_def)
  have sb: "write_superblock ?b1 bt hp eof = Inr (?b2, 88)" using assms by (intro write_superblock_enc) simp
  have l2: "96 \<le> length ?b2" using assms le by simp
  have d: "?b2 = ?sig @ ?e @ drop 96 buf"
    using assms le by (simp add: splice_def)
  have f: "field 8 ?b2 24 = 0" "field 8 ?b2 64 = 96"
    unfolding d by (simp_all add: enc_superblock_def field_eval)
  have n: "?b2 ! 8 = 0" "?b2 ! 13 = 8" "?b2 ! 14 = 8" "take 8 ?b2 = hdf5_signature"
    unfolding d by (simp_all add: enc_superblock_def hdf5_signature_def)
  have "parse_v0 ?b2 = Inr \<lparr>sb_version = 0, sb_size_of_offsets = 8, sb_size_of_lengths = 8,
        sb_base_address = 0, root_object_header_address = 96, superblock_extension_address = None\<rparr>"
    using l2 by (simp add: parse_v0_def n f read_u64_le_eq)
  then have "superblock_parse ?b2 = Inr \<lparr>sb_version = 0, sb_size_of_offsets = 8, sb_size_of_lengths = 8,
        sb_base_address = 0, root_object_header_address = 96, superblock_extension_address = None\<rparr>"
    using l2 n by (simp add: superblock_parse_def slice_def get_range_def)
  with sig sb show ?thesis by blast
qed

theorem superblock_round_trip_witness:
  "\<exists>b1 b2. write_signature (replicate 96 0) = Inr (b1, 8) \<and> write_superblock b1 800 900 1000 = Inr (b2, 88)
    \<and> (\<exists>sb. superblock_parse b2 = Inr sb \<and> root_object_header_address sb = 96)"
  using superblock_round_trip[of "replicate 96 0" 800 900 1000] by auto

end
