(* ===== verification/Filter_Message.thy ===== *)
theory Filter_Message
  imports Filter_Pipeline Write_Format
begin

text \<open>
  The filter pipeline message in both directions, and the whole path of a chunk: the parser
  \<^verbatim>\<open>parse_filter_pipeline\<close> of \<^verbatim>\<open>oxih5-format/src/message.rs\<close>, the encoders of
  \<^verbatim>\<open>oxih5/src/write/pipeline.rs\<close>, and \<^verbatim>\<open>apply_write_pipeline\<close> of
  \<^verbatim>\<open>oxih5/src/write/payload.rs\<close>, which runs a chunk through shuffle, deflate and
  fletcher32 in that order.
\<close>

section \<open>The parser\<close>

text \<open>
  A position runs past the body's length by at most one padded 16-bit name length and four
  bytes, so the position arithmetic cannot overflow.
\<close>

definition filter_name_at :: "bytes \<Rightarrow> nat \<Rightarrow> nat \<Rightarrow> str option res" where
  "filter_name_at body pos name_len =
     (if name_len > 0 \<and> pos + name_len \<le> length body then
        and_then (slice body pos (pos + name_len)) (\<lambda>name_bytes.
          let nul_pos = (case position (\<lambda>b. b = 0) name_bytes of Some p \<Rightarrow> p | None \<Rightarrow> name_len);
              nm = take nul_pos name_bytes in
          Inr (Some (if valid_utf8 nm then nm else [])))
      else Inr None)"

fun client_words :: "bytes \<Rightarrow> nat \<Rightarrow> nat \<Rightarrow> nat list \<Rightarrow> (nat \<times> nat list) res" where
  "client_words body 0 pos acc = Inr (pos, acc)"
| "client_words body (Suc n) pos acc =
     (if pos + 4 > length body then Inr (pos, acc)
      else and_then (read_u32_le body pos) (\<lambda>v. client_words body n (pos + 4) (acc @ [v])))"

fun pipeline_v1 :: "bytes \<Rightarrow> nat \<Rightarrow> nat \<Rightarrow> filter_info list \<Rightarrow> filter_info list res" where
  "pipeline_v1 body 0 pos filters = Inr filters"
| "pipeline_v1 body (Suc n) pos filters =
     (if pos + 8 > length body then Inr filters
      else
        and_then (read_u16_le body pos) (\<lambda>fid.
        and_then (read_u16_le body (pos + 2)) (\<lambda>name_len.
        and_then (read_u16_le body (pos + 4)) (\<lambda>flags.
        and_then (read_u16_le body (pos + 6)) (\<lambda>ndata.
        let pos = pos + 8 in
        and_then (filter_name_at body pos name_len) (\<lambda>nm.
        let pos = pos + div_ceil name_len 8 * 8 in
        and_then (client_words body ndata pos []) (\<lambda>(pos, cd).
        let pos = (if ndata mod 2 \<noteq> 0 then pos + 4 else pos) in
        pipeline_v1 body n pos
          (filters @ [\<lparr>filter_id = fid, filter_name = nm, filter_flags = flags, client_data = cd\<rparr>]))))))))"

text \<open>Version 2 stores a name length only for identifiers from 256 on, and pads nothing.\<close>

fun pipeline_v2 :: "bytes \<Rightarrow> nat \<Rightarrow> nat \<Rightarrow> filter_info list \<Rightarrow> filter_info list res" where
  "pipeline_v2 body 0 pos filters = Inr filters"
| "pipeline_v2 body (Suc n) pos filters =
     (if pos + 2 > length body then Inr filters
      else
        and_then (read_u16_le body pos) (\<lambda>fid.
        let pos = pos + 2 in
        if fid \<ge> 256 \<and> pos + 2 > length body then Inr filters
        else
          and_then (if fid \<ge> 256 then read_u16_le body pos else Inr 0) (\<lambda>name_len.
          let pos = (if fid \<ge> 256 then pos + 2 else pos) in
          if pos + 4 > length body then Inr filters
          else
            and_then (read_u16_le body pos) (\<lambda>flags.
            and_then (read_u16_le body (pos + 2)) (\<lambda>ndata.
            let pos = pos + 4 in
            and_then (filter_name_at body pos name_len) (\<lambda>nm.
            let pos = pos + name_len in
            and_then (client_words body ndata pos []) (\<lambda>(pos, cd).
            pipeline_v2 body n pos
              (filters @ [\<lparr>filter_id = fid, filter_name = nm, filter_flags = flags, client_data = cd\<rparr>]))))))))"

definition parse_filter_pipeline :: "bytes \<Rightarrow> filter_pipeline res" where
  "parse_filter_pipeline body =
     (if length body < 2 then Inl Corrupted
      else
        and_then (index body 0) (\<lambda>version.
        and_then (index body 1) (\<lambda>nf.
        let nfilters = unat nf in
        and_then
          (if version = 1 then pipeline_v1 body nfilters 8 []
           else if version = 2 then pipeline_v2 body nfilters 2 []
           else Inr []) (\<lambda>filters.
          Inr \<lparr>pipeline_filters = filters\<rparr>))))"

section \<open>The writer's choice of filters\<close>

record filter_choice =
  fc_shuffle :: bool
  fc_deflate :: "nat option"
  fc_fletcher32 :: bool

definition is_active :: "filter_choice \<Rightarrow> bool" where
  "is_active f \<longleftrightarrow> fc_shuffle f \<or> fc_deflate f \<noteq> None \<or> fc_fletcher32 f"

definition apply_write_pipeline :: "codecs \<Rightarrow> bytes \<Rightarrow> filter_choice \<Rightarrow> nat \<Rightarrow> bytes res" where
  "apply_write_pipeline c tile f elem_size =
     and_then (if fc_shuffle f then shuffle tile elem_size else Inr tile) (\<lambda>data.
     and_then (case fc_deflate f of Some level \<Rightarrow> deflate_compress c data level | None \<Rightarrow> Inr data) (\<lambda>data.
       if fc_fletcher32 f then append_fletcher32 data else Inr data))"

section \<open>The encoders\<close>

record filter_desc =
  fd_id :: nat
  fd_flags :: nat
  fd_name :: bytes
  fd_client_data :: "nat option"

definition SHUFFLE_NAME :: bytes where
  "SHUFFLE_NAME = [0x73, 0x68, 0x75, 0x66, 0x66, 0x6c, 0x65, 0]"

definition DEFLATE_NAME :: bytes where
  "DEFLATE_NAME = [0x64, 0x65, 0x66, 0x6c, 0x61, 0x74, 0x65, 0]"

definition FLETCHER32_NAME :: bytes where
  "FLETCHER32_NAME = [0x66, 0x6c, 0x65, 0x74, 0x63, 0x68, 0x65, 0x72, 0x33, 0x32, 0]"

definition descriptors :: "filter_choice \<Rightarrow> nat \<Rightarrow> filter_desc list" where
  "descriptors f elem_size =
     (if fc_shuffle f then
        [\<lparr>fd_id = SHUFFLE, fd_flags = 1, fd_name = SHUFFLE_NAME, fd_client_data = Some elem_size\<rparr>] else [])
     @ (case fc_deflate f of
          Some level \<Rightarrow> [\<lparr>fd_id = DEFLATE, fd_flags = 1, fd_name = DEFLATE_NAME, fd_client_data = Some level\<rparr>]
        | None \<Rightarrow> [])
     @ (if fc_fletcher32 f then
          [\<lparr>fd_id = FLETCHER32, fd_flags = 0, fd_name = FLETCHER32_NAME, fd_client_data = None\<rparr>] else [])"

text \<open>The sizes are of three constant names and one word, far from any overflow: \<open>align8\<close> is \<open>pad8\<close>.\<close>

definition v1_desc_size :: "filter_desc \<Rightarrow> nat" where
  "v1_desc_size d = 8 + align8 (length (fd_name d)) + align8 (case fd_client_data d of None \<Rightarrow> 0 | Some _ \<Rightarrow> 4)"

definition v2_desc_size :: "filter_desc \<Rightarrow> nat" where
  "v2_desc_size d = 6 + (case fd_client_data d of None \<Rightarrow> 0 | Some _ \<Rightarrow> 4)"

abbreviation (input) PIPELINE_VERSION :: nat where "PIPELINE_VERSION \<equiv> 1"

definition body_size :: "filter_choice \<Rightarrow> nat" where
  "body_size f =
     (if PIPELINE_VERSION = 1 then 8 + sum_list (map v1_desc_size (descriptors f 1))
      else 2 + sum_list (map v2_desc_size (descriptors f 1)))"

definition ndata_of :: "filter_desc \<Rightarrow> nat" where
  "ndata_of d = (case fd_client_data d of None \<Rightarrow> 0 | Some _ \<Rightarrow> 1)"

definition write_v1_desc :: "filter_desc \<Rightarrow> bytes \<times> nat \<Rightarrow> (bytes \<times> nat) res" where
  "write_v1_desc d = (\<lambda>(buf, pos).
     let name_len = align8 (length (fd_name d)) in
     and_then (write_u16_le buf pos (fd_id d)) (\<lambda>buf.
     and_then (write_u16_le buf (pos + 2) name_len) (\<lambda>buf.
     and_then (write_u16_le buf (pos + 4) (fd_flags d)) (\<lambda>buf.
     and_then (write_u16_le buf (pos + 6) (ndata_of d)) (\<lambda>buf.
     and_then (put_range buf (pos + 8) (fd_name d)) (\<lambda>buf.
     let pos = pos + (8 + name_len) in
     case fd_client_data d of
       None \<Rightarrow> Inr (buf, pos)
     | Some v \<Rightarrow> and_then (write_u32_le buf pos v) (\<lambda>buf. Inr (buf, pos + align8 4))))))))"

definition write_v1 :: "bytes \<Rightarrow> nat \<Rightarrow> filter_desc list \<Rightarrow> (bytes \<times> nat) res" where
  "write_v1 buf start descs =
     (let total = 8 + sum_list (map v1_desc_size descs) in
      and_then (fill_zero buf start total) (\<lambda>buf.
      and_then (put_elem buf start 1) (\<lambda>buf.
      and_then (put_elem buf (start + 1) (of_nat (length descs))) (\<lambda>buf.
      and_then (fold_res write_v1_desc descs (buf, start + 8)) (\<lambda>(buf, pos).
        Inr (buf, total))))))"

definition write_v2_desc :: "filter_desc \<Rightarrow> bytes \<times> nat \<Rightarrow> (bytes \<times> nat) res" where
  "write_v2_desc d = (\<lambda>(buf, pos).
     and_then (write_u16_le buf pos (fd_id d)) (\<lambda>buf.
     and_then (write_u16_le buf (pos + 2) (fd_flags d)) (\<lambda>buf.
     and_then (write_u16_le buf (pos + 4) (ndata_of d)) (\<lambda>buf.
     let pos = pos + 6 in
     case fd_client_data d of
       None \<Rightarrow> Inr (buf, pos)
     | Some v \<Rightarrow> and_then (write_u32_le buf pos v) (\<lambda>buf. Inr (buf, pos + 4))))))"

definition write_v2 :: "bytes \<Rightarrow> nat \<Rightarrow> filter_desc list \<Rightarrow> (bytes \<times> nat) res" where
  "write_v2 buf start descs =
     (let total = 2 + sum_list (map v2_desc_size descs) in
      and_then (fill_zero buf start total) (\<lambda>buf.
      and_then (put_elem buf start 2) (\<lambda>buf.
      and_then (put_elem buf (start + 1) (of_nat (length descs))) (\<lambda>buf.
      and_then (fold_res write_v2_desc descs (buf, start + 2)) (\<lambda>(buf, pos).
        Inr (buf, total))))))"

text \<open>\<^verbatim>\<open>elem_size as u32\<close> truncates.\<close>

definition write_body :: "bytes \<Rightarrow> nat \<Rightarrow> filter_choice \<Rightarrow> nat \<Rightarrow> (bytes \<times> nat) res" where
  "write_body buf start f elem_size =
     (let descs = descriptors f (elem_size mod u32_lim) in
      if PIPELINE_VERSION = 1 then write_v1 buf start descs else write_v2 buf start descs)"

section \<open>Encoding and parsing one description\<close>

definition enc_v1 :: "filter_desc \<Rightarrow> bytes" where
  "enc_v1 d = to_le 2 (fd_id d) @ to_le 2 (align8 (length (fd_name d))) @ to_le 2 (fd_flags d) @ to_le 2 (ndata_of d)
     @ fd_name d @ replicate (align8 (length (fd_name d)) - length (fd_name d)) 0
     @ (case fd_client_data d of None \<Rightarrow> [] | Some v \<Rightarrow> to_le 4 v @ replicate 4 0)"

definition info_of :: "filter_desc \<Rightarrow> filter_info" where
  "info_of d = \<lparr>filter_id = fd_id d, filter_name = Some (butlast (fd_name d)), filter_flags = fd_flags d,
     client_data = (case fd_client_data d of None \<Rightarrow> [] | Some v \<Rightarrow> [v])\<rparr>"

text \<open>A NUL-terminated name short enough for its field, and values within their fields.\<close>

definition desc_ok :: "filter_desc \<Rightarrow> bool" where
  "desc_ok d \<longleftrightarrow> fd_id d < 65536 \<and> fd_flags d < 65536 \<and> length (fd_name d) \<le> 65000
     \<and> (\<exists>nm. fd_name d = nm @ [0] \<and> 0 \<notin> set nm \<and> valid_utf8 nm)
     \<and> (case fd_client_data d of None \<Rightarrow> True | Some v \<Rightarrow> v < u32_lim)"

lemma align8_4 [simp]: "align8 4 = 8" "align8 0 = 0"
  by (simp_all add: align8_def)

lemma length_enc_v1 [simp]: "length (enc_v1 d) = v1_desc_size d"
  using align8_ge[of "length (fd_name d)"] by (simp add: enc_v1_def v1_desc_size_def split: option.splits)

lemma write_v1_desc_enc:
  assumes "pos = start + length xs" and "start + length xs + k \<le> length buf" and "v1_desc_size d \<le> k"
  shows "write_v1_desc d (splice buf start (region xs k), pos)
    = Inr (splice buf start (region (xs @ enc_v1 d) (k - v1_desc_size d)), pos + v1_desc_size d)"
proof -
  let ?n = "length (fd_name d)" and ?a = "align8 (length (fd_name d))"
  let ?h = "to_le 2 (fd_id d) @ to_le 2 ?a @ to_le 2 (fd_flags d) @ to_le 2 (ndata_of d)"
  have an: "?n \<le> ?a" by (rule align8_ge)
  have k: "8 + ?a + align8 (case fd_client_data d of None \<Rightarrow> 0 | Some _ \<Rightarrow> 4) \<le> k"
    using assms(3) by (simp add: v1_desc_size_def)
  have s1: "region (((((xs @ to_le 2 (fd_id d)) @ to_le 2 ?a) @ to_le 2 (fd_flags d)) @ to_le 2 (ndata_of d)) @ fd_name d)
      (k - (8 + ?n)) = region (xs @ ?h @ fd_name d @ replicate (?a - ?n) 0) (k - (8 + ?a))"
    using region_skip[of "?a - ?n" "k - (8 + ?n)" "xs @ ?h @ fd_name d"] an k by simp
  let ?b1 = "splice buf start (region (xs @ ?h @ fd_name d @ replicate (?a - ?n) 0) (k - (8 + ?a)))"
  have w: "write_v1_desc d (splice buf start (region xs k), pos)
      = (case fd_client_data d of None \<Rightarrow> Inr (?b1, pos + (8 + ?a))
         | Some v \<Rightarrow> and_then (put_range ?b1 (pos + (8 + ?a)) (to_le 4 v)) (\<lambda>buf. Inr (buf, pos + (8 + ?a) + 8)))"
    using assms(1,2) k an
    by (simp add: write_v1_desc_def write_defs put_range_next Let_def s1 del: to_le.simps append_assoc split: option.splits)
  show ?thesis
  proof (cases "fd_client_data d")
    case None
    then show ?thesis by (simp add: w enc_v1_def v1_desc_size_def)
  next
    case (Some v)
    have "put_range ?b1 (pos + (8 + ?a)) (to_le 4 v)
        = Inr (splice buf start (region ((xs @ ?h @ fd_name d @ replicate (?a - ?n) 0) @ to_le 4 v) (k - (8 + ?a) - 4)))"
      using put_range_next[of "pos + (8 + ?a)" start "xs @ ?h @ fd_name d @ replicate (?a - ?n) 0" "k - (8 + ?a)" buf "to_le 4 v"]
        assms(1,2) k an Some by simp
    moreover have "region ((xs @ ?h @ fd_name d @ replicate (?a - ?n) 0) @ to_le 4 v) (k - (8 + ?a) - 4)
        = region (xs @ enc_v1 d) (k - v1_desc_size d)"
      using region_skip[of 4 "k - (8 + ?a) - 4" "xs @ ?h @ fd_name d @ replicate (?a - ?n) 0 @ to_le 4 v"] k Some
      by (simp add: enc_v1_def v1_desc_size_def add.commute)
    ultimately show ?thesis by (simp add: w Some v1_desc_size_def)
  qed
qed

lemma write_v1_fold:
  assumes "start + length xs + k \<le> length buf" and "sum_list (map v1_desc_size ds) \<le> k"
  shows "fold_res write_v1_desc ds (splice buf start (region xs k), start + length xs)
    = Inr (splice buf start (region (xs @ concat (map enc_v1 ds)) (k - sum_list (map v1_desc_size ds))),
           start + length xs + sum_list (map v1_desc_size ds))"
  using assms
proof (induction ds arbitrary: xs k)
  case (Cons d ds)
  have "write_v1_desc d (splice buf start (region xs k), start + length xs)
      = Inr (splice buf start (region (xs @ enc_v1 d) (k - v1_desc_size d)), start + length (xs @ enc_v1 d))"
    using write_v1_desc_enc[of "start + length xs" start xs k buf d] Cons.prems by simp
  then show ?case
    using Cons.IH[of "xs @ enc_v1 d" "k - v1_desc_size d"] Cons.prems by (simp add: add.assoc)
qed simp

definition enc_pipeline_v1 :: "filter_desc list \<Rightarrow> bytes" where
  "enc_pipeline_v1 ds = [1, of_nat (length ds)] @ replicate 6 0 @ concat (map enc_v1 ds)"

lemma length_enc_pipeline_v1: "length (enc_pipeline_v1 ds) = 8 + sum_list (map v1_desc_size ds)"
  by (simp add: enc_pipeline_v1_def length_concat comp_def)

lemma write_v1_enc:
  assumes "start + (8 + sum_list (map v1_desc_size ds)) \<le> length buf"
  shows "write_v1 buf start ds = Inr (splice buf start (enc_pipeline_v1 ds), 8 + sum_list (map v1_desc_size ds))"
proof -
  let ?S = "sum_list (map v1_desc_size ds)" and ?h = "[1, of_nat (length ds)] @ replicate 6 (0 :: byte)"
  have r: "region [1, of_nat (length ds)] (6 + ?S) = region ?h ?S"
    using region_skip[of 6 "6 + ?S" "[1, of_nat (length ds)]"] by simp
  have "fold_res write_v1_desc ds (splice buf start (region ?h ?S), start + length ?h)
      = Inr (splice buf start (region (?h @ concat (map enc_v1 ds)) (?S - ?S)), start + length ?h + ?S)"
    by (rule write_v1_fold) (use assms in simp_all)
  then have "fold_res write_v1_desc ds (splice buf start (region ?h ?S), start + 8)
      = Inr (splice buf start (enc_pipeline_v1 ds), start + 8 + ?S)"
    by (simp add: enc_pipeline_v1_def region_def)
  then show ?thesis
    using assms
    by (simp add: write_v1_def Let_def fill_zero_splice put_elem_range region_start put_range_next r)
qed

lemma filter_name_at_enc:
  assumes "drop pos body = (nm @ [0]) @ rest" and "0 \<notin> set nm" and "valid_utf8 nm"
    and "Suc (length nm) \<le> n" and "pos + n \<le> length body"
  shows "filter_name_at body pos n = Inr (Some nm)"
proof -
  have "take n (drop pos body) = nm @ 0 # take (n - Suc (length nm)) rest"
    unfolding assms(1) using assms(4) by (simp add: take_Cons')
  moreover have "position (\<lambda>b. b = 0) (nm @ 0 # ys) = Some (length nm)" for ys
    using assms(2) by (auto simp: position_Some_iff nth_append in_set_conv_nth)
  ultimately show ?thesis
    using assms(3-5) by (simp add: filter_name_at_def Let_def)
qed

lemma pipeline_v1_step:
  assumes ok: "desc_ok d" and d: "drop pos body = enc_v1 d @ rest" and len: "length body \<le> isize_max"
  shows "pipeline_v1 body (Suc n) pos acc = pipeline_v1 body n (pos + v1_desc_size d) (acc @ [info_of d])"
proof -
  let ?n = "length (fd_name d)" and ?a = "align8 (length (fd_name d))"
  have an: "?n \<le> ?a" "?a < ?n + 8" by (rule align8_ge, rule align8_less)
  from ok obtain nm where nm: "fd_name d = nm @ [0]" "0 \<notin> set nm" "valid_utf8 nm" by (auto simp: desc_ok_def)
  have a16: "?a < 65536" "fd_id d < 65536" "fd_flags d < 65536" using ok an(2) by (simp_all add: desc_ok_def)
  have ln: "pos + v1_desc_size d \<le> length body"
    using arg_cong[OF d, of length] by (cases "pos \<le> length body") (simp_all add: v1_desc_size_def)
  then have fit: "pos + 8 + ?a \<le> length body" by (simp add: v1_desc_size_def)
  have f: "field 2 body pos = fd_id d" "field 2 body (pos + 2) = ?a" "field 2 body (pos + 4) = fd_flags d"
      "field 2 body (pos + 6) = ndata_of d"
  proof -
    show "field 2 body pos = fd_id d"
      using field_drop[of 2 body pos 0] a16 by (simp add: d enc_v1_def field_eval)
    have "ndata_of d < 65536" by (simp add: ndata_of_def split: option.splits)
    then show "field 2 body (pos + 2) = ?a" "field 2 body (pos + 4) = fd_flags d" "field 2 body (pos + 6) = ndata_of d"
      unfolding field_drop d enc_v1_def using a16 by (simp_all add: field_eval)
  qed
  have pad: "div_ceil ?a 8 * 8 = ?a" by (simp add: div_ceil_def align8_def)
  have name: "filter_name_at body (pos + 8) ?a = Inr (Some nm)"
  proof (rule filter_name_at_enc[OF _ nm(2,3)])
    have "drop (pos + 8) body = drop 8 (drop pos body)" by (simp add: add.commute)
    then show "drop (pos + 8) body = (nm @ [0]) @ (replicate (?a - ?n) 0
        @ (case fd_client_data d of None \<Rightarrow> [] | Some v \<Rightarrow> to_le 4 v @ replicate 4 0)) @ rest"
      unfolding d enc_v1_def nm(1) by simp
  qed (use an nm(1) fit in simp_all)
  have cw: "client_words body (ndata_of d) (pos + 8 + ?a) []
      = Inr (pos + 8 + ?a + 4 * ndata_of d, client_data (info_of d))"
  proof (cases "fd_client_data d")
    case (Some v)
    have "drop (pos + 8 + ?a) body = drop ?a (drop 8 (drop pos body))" by (simp add: ac_simps)
    also have "\<dots> = to_le 4 v @ replicate 4 0 @ rest"
      unfolding d enc_v1_def using an(1) Some by simp
    finally have "field 4 body (pos + 8 + ?a) = v"
      using field_drop[of 4 body "pos + 8 + ?a" 0] ok Some by (simp add: field_eval desc_ok_def)
    moreover have "pos + 8 + ?a + 8 \<le> length body" using ln Some by (simp add: v1_desc_size_def)
    ultimately show ?thesis using Some len by (simp add: ndata_of_def info_of_def read_u32_le_eq)
  qed (simp add: ndata_of_def info_of_def)
  have "pos + 8 \<le> length body" "pos + 2 + 2 \<le> length body" "pos + 4 + 2 \<le> length body" "pos + 6 + 2 \<le> length body"
    using fit by linarith+
  then have r: "read_u16_le body pos = Inr (fd_id d)" "read_u16_le body (pos + 2) = Inr ?a"
      "read_u16_le body (pos + 4) = Inr (fd_flags d)" "read_u16_le body (pos + 6) = Inr (ndata_of d)"
    unfolding read_u16_le_Inr_iff f using len by simp_all
  have step: "pos + 8 + ?a + 4 * ndata_of d + (if ndata_of d mod 2 \<noteq> 0 then 4 else 0) = pos + v1_desc_size d"
    by (simp add: ndata_of_def v1_desc_size_def split: option.splits)
  have "info_of d = \<lparr>filter_id = fd_id d, filter_name = Some nm, filter_flags = fd_flags d,
      client_data = client_data (info_of d)\<rparr>" by (simp add: info_of_def nm(1))
  then have info: "acc @ [\<lparr>filter_id = fd_id d, filter_name = Some nm, filter_flags = fd_flags d,
      client_data = client_data (info_of d)\<rparr>] = acc @ [info_of d]" by (simp only:)
  have "\<not> pos + 8 > length body" using fit by simp
  then have "pipeline_v1 body (Suc n) pos acc = pipeline_v1 body n
      (if ndata_of d mod 2 \<noteq> 0 then pos + 8 + ?a + 4 * ndata_of d + 4 else pos + 8 + ?a + 4 * ndata_of d) (acc @ [info_of d])"
    by (simp only: pipeline_v1.simps if_False r and_then_simps Let_def name pad cw prod.case info)
  moreover have "(if ndata_of d mod 2 \<noteq> 0 then pos + 8 + ?a + 4 * ndata_of d + 4 else pos + 8 + ?a + 4 * ndata_of d)
      = pos + v1_desc_size d"
    using step by (cases "ndata_of d mod 2 = 0") simp_all
  ultimately show ?thesis by (simp only:)
qed

lemma pipeline_v1_enc:
  assumes "\<forall>d\<in>set ds. desc_ok d" and "drop pos body = concat (map enc_v1 ds) @ rest" and "length body \<le> isize_max"
  shows "pipeline_v1 body (length ds) pos acc = Inr (acc @ map info_of ds)"
  using assms
proof (induction ds arbitrary: pos acc)
  case (Cons d ds)
  have d: "drop pos body = enc_v1 d @ concat (map enc_v1 ds) @ rest" using Cons.prems(2) by simp
  have "drop (pos + v1_desc_size d) body = drop (v1_desc_size d) (drop pos body)" by (simp add: add.commute)
  then have "drop (pos + v1_desc_size d) body = concat (map enc_v1 ds) @ rest" unfolding d by simp
  from Cons.IH[OF _ this Cons.prems(3)] Cons.prems(1) show ?case
    using pipeline_v1_step[OF _ d Cons.prems(3)] by simp
qed simp

section \<open>Round trips\<close>

text \<open>The choices a caller can make: a level of at most nine, as \<^verbatim>\<open>set_deflate\<close> checks.\<close>

definition choice_ok :: "filter_choice \<Rightarrow> bool" where
  "choice_ok f \<longleftrightarrow> (case fc_deflate f of None \<Rightarrow> True | Some level \<Rightarrow> level \<le> max_deflate_level)"

lemma descriptors_ok: "choice_ok f \<Longrightarrow> es < u32_lim \<Longrightarrow> \<forall>d\<in>set (descriptors f es). desc_ok d"
  by (auto simp: descriptors_def desc_ok_def choice_ok_def max_deflate_level_def SHUFFLE_NAME_def DEFLATE_NAME_def
      FLETCHER32_NAME_def split: option.splits if_splits)

lemma length_descriptors: "length (descriptors f es) \<le> 3"
  by (simp add: descriptors_def split: option.splits)

lemma body_size_enc: "length (enc_pipeline_v1 (descriptors f es)) = body_size f"
proof -
  have "map v1_desc_size (descriptors f es) = map v1_desc_size (descriptors f 1)"
    by (simp add: descriptors_def v1_desc_size_def split: option.splits)
  then show ?thesis by (simp add: length_enc_pipeline_v1 body_size_def)
qed

lemma parse_pipeline_enc:
  assumes "\<forall>d\<in>set ds. desc_ok d" and "length ds < 256" and "length (enc_pipeline_v1 ds) \<le> isize_max"
  shows "parse_filter_pipeline (enc_pipeline_v1 ds) = Inr \<lparr>pipeline_filters = map info_of ds\<rparr>"
proof -
  have "drop 8 (enc_pipeline_v1 ds) = concat (map enc_v1 ds) @ []" by (simp add: enc_pipeline_v1_def)
  from pipeline_v1_enc[OF assms(1) this assms(3), of "[]"] assms(2) show ?thesis
    by (simp add: parse_filter_pipeline_def length_enc_pipeline_v1 Let_def) (simp add: enc_pipeline_v1_def)
qed

lemma pipeline_message_written:
  assumes "choice_ok f" and "es < u32_lim" and "start + body_size f \<le> length buf"
  shows "\<exists>b. write_body buf start f es = Inr (b, body_size f) \<and> length b = length buf
    \<and> parse_filter_pipeline (take (body_size f) (drop start b)) = Inr \<lparr>pipeline_filters = map info_of (descriptors f es)\<rparr>"
proof -
  let ?e = "enc_pipeline_v1 (descriptors f es)"
  have le: "length ?e = body_size f" by (rule body_size_enc)
  have "write_body buf start f es = Inr (splice buf start ?e, body_size f)"
    using write_v1_enc[of start "descriptors f es" buf] assms(2,3) le
    by (simp add: write_body_def Let_def length_enc_pipeline_v1)
  moreover have "take (body_size f) (drop start (splice buf start ?e)) = ?e"
    using splice_slice_same[of start ?e buf] assms(3) le by simp
  moreover have "parse_filter_pipeline ?e = Inr \<lparr>pipeline_filters = map info_of (descriptors f es)\<rparr>"
  proof (rule parse_pipeline_enc[OF descriptors_ok[OF assms(1,2)]])
    show "length (descriptors f es) < 256" using length_descriptors[of f es] by simp
    have "v1_desc_size d \<le> 100" if "d \<in> set (descriptors f 1)" for d
      using that by (auto simp: descriptors_def v1_desc_size_def SHUFFLE_NAME_def DEFLATE_NAME_def
          FLETCHER32_NAME_def align8_def split: option.splits if_splits)
    then have "sum_list (map v1_desc_size (descriptors f 1)) \<le> length (map v1_desc_size (descriptors f 1)) * 100"
      by (intro sum_list_le_length) auto
    then show "length ?e \<le> isize_max"
      using length_descriptors[of f 1] unfolding le by (simp add: body_size_def)
  qed
  ultimately show ?thesis using assms(3) le by simp
qed

text \<open>
  Filter pipeline message round trip: the message written for any choice of filters takes
  exactly the size reserved for it, and the parser reads back the filters in the order they are
  applied, with their names, flags and client data.
\<close>

theorem pipeline_message_round_trip:
  assumes "choice_ok f" and "es < u32_lim" and "start + body_size f \<le> length buf"
  shows "\<exists>b. write_body buf start f es = Inr (b, body_size f) \<and> length b = length buf
    \<and> parse_filter_pipeline (take (body_size f) (drop start b)) = Inr \<lparr>pipeline_filters = map info_of (descriptors f es)\<rparr>"
  by (rule pipeline_message_written[OF assms])

theorem pipeline_message_round_trip_witness:
  "\<exists>b. write_body (replicate 100 0) 10 \<lparr>fc_shuffle = True, fc_deflate = Some 6, fc_fletcher32 = True\<rparr> 8 = Inr (b, 80)
    \<and> (\<exists>p. parse_filter_pipeline (take 80 (drop 10 b)) = Inr p \<and> map filter_id (pipeline_filters p) = [2, 1, 3])"
proof -
  let ?f = "\<lparr>fc_shuffle = True, fc_deflate = Some 6, fc_fletcher32 = True\<rparr>"
  have s: "body_size ?f = 80"
    by (simp add: body_size_def descriptors_def v1_desc_size_def SHUFFLE_NAME_def DEFLATE_NAME_def FLETCHER32_NAME_def
        align8_def)
  have "\<exists>b. write_body (replicate 100 0) 10 ?f 8 = Inr (b, body_size ?f) \<and> length b = length (replicate 100 (0 :: byte))
    \<and> parse_filter_pipeline (take (body_size ?f) (drop 10 b)) = Inr \<lparr>pipeline_filters = map info_of (descriptors ?f 8)\<rparr>"
    by (rule pipeline_message_round_trip) (simp_all add: s choice_ok_def max_deflate_level_def)
  then show ?thesis unfolding s by (auto simp: descriptors_def info_of_def)
qed

lemma not_skipped_0 [simp]: "\<not> filter_skipped 0 idx"
  by (simp add: filter_skipped_def)

lemma undo_shuffle:
  assumes "shuffle d es = Inr e" and "filter_id flt = SHUFFLE" and "client_data flt = [es]"
  shows "apply_one_inverse c e flt elem_size len = Inr d"
proof -
  have "0 < es" using assms(1) by (simp add: shuffle_Inr_iff)
  then show ?thesis
    using shuffle_filter.inv_fwd[OF assms(1)] assms(2,3) by (simp add: apply_one_inverse_def shuffle_width_def)
qed

lemma undo_deflate:
  assumes "\<And>d level z. zlib_compress c d level = Some z \<Longrightarrow> zlib_decompress c z = Some d"
    and "deflate_compress c d level = Inr e" and "filter_id flt = DEFLATE"
  shows "apply_one_inverse c e flt elem_size len = Inr d"
  using assms by (auto simp: apply_one_inverse_def inflate_deflate_def deflate_compress_def split: if_splits)

lemma undo_fletcher32:
  assumes "append_fletcher32 d = Inr e" and "filter_id flt = FLETCHER32"
  shows "apply_one_inverse c e flt elem_size len = Inr d"
  using fletcher32_filter.inv_fwd[OF assms(1)] assms(2) by (simp add: apply_one_inverse_def)

text \<open>The list of filters is undone from its end.\<close>

lemma apply_pipeline_snoc:
  "apply_pipeline_sized c raw \<lparr>pipeline_filters = fs @ [flt]\<rparr> 0 es len =
     and_then (apply_one_inverse c raw flt es len) (\<lambda>d. apply_pipeline_sized c d \<lparr>pipeline_filters = fs\<rparr> 0 es len)"
  by (simp add: apply_pipeline_sized_def enumerate_append_eq)

lemma apply_pipeline_Nil: "apply_pipeline_sized c raw \<lparr>pipeline_filters = []\<rparr> 0 es len = Inr raw"
  by (simp add: apply_pipeline_sized_def)

lemma undo_write_pipeline:
  assumes zlib: "\<And>d level z. zlib_compress c d level = Some z \<Longrightarrow> zlib_decompress c z = Some d"
    and "apply_write_pipeline c tile f es = Inr stored"
  shows "apply_pipeline c stored \<lparr>pipeline_filters = map info_of (descriptors f es)\<rparr> 0 elem_size = Inr tile"
proof -
  define fs1 where "fs1 = (if fc_shuffle f then
        [\<lparr>fd_id = SHUFFLE, fd_flags = 1, fd_name = SHUFFLE_NAME, fd_client_data = Some es\<rparr>] else [])"
  define fs2 where "fs2 = (case fc_deflate f of
          Some level \<Rightarrow> [\<lparr>fd_id = DEFLATE, fd_flags = 1, fd_name = DEFLATE_NAME, fd_client_data = Some level\<rparr>]
        | None \<Rightarrow> [])"
  from assms(2) obtain d1 d2 where
      d1: "(if fc_shuffle f then shuffle tile es else Inr tile) = Inr d1"
    and d2: "(case fc_deflate f of Some level \<Rightarrow> deflate_compress c d1 level | None \<Rightarrow> Inr d1) = Inr d2"
    and d3: "(if fc_fletcher32 f then append_fletcher32 d2 else Inr d2) = Inr stored"
    unfolding apply_write_pipeline_def by blast
  have s1: "apply_pipeline_sized c d1 \<lparr>pipeline_filters = map info_of fs1\<rparr> 0 elem_size None = Inr tile"
    using d1 apply_pipeline_snoc[of c d1 "[]"] undo_shuffle
    by (auto simp: fs1_def info_of_def apply_pipeline_Nil split: if_splits)
  have s2: "apply_pipeline_sized c d2 \<lparr>pipeline_filters = map info_of (fs1 @ fs2)\<rparr> 0 elem_size None = Inr tile"
    using d2 s1 undo_deflate[OF zlib]
    by (auto simp: fs2_def info_of_def apply_pipeline_snoc split: option.splits)
  have s3: "apply_pipeline_sized c stored \<lparr>pipeline_filters = map info_of (descriptors f es)\<rparr> 0 elem_size None = Inr tile"
  proof (cases "fc_fletcher32 f")
    case True
    then show ?thesis
      using d3 s2 undo_fletcher32[of d2 stored]
      by (simp add: descriptors_def fs1_def[symmetric] fs2_def[symmetric] apply_pipeline_snoc[of c stored "map info_of fs1 @ map info_of fs2", simplified] info_of_def)
  next
    case False
    then show ?thesis using d3 s2 by (simp add: descriptors_def fs1_def[symmetric] fs2_def[symmetric])
  qed
  then show ?thesis by (simp add: apply_pipeline_def)
qed

text \<open>
  C2. A chunk comes back as it went in: for every choice of filters, element width and chunk,
  if the writer's pipeline (shuffle, then deflate, then fletcher32) produces the stored bytes
  and the pipeline message is written, then parsing that message and undoing its filters in
  reverse gives the chunk. Of the DEFLATE codec it is assumed only that decompression inverts
  compression.
\<close>

theorem chunk_pipeline_round_trip:
  assumes "\<And>d level z. zlib_compress c d level = Some z \<Longrightarrow> zlib_decompress c z = Some d"
    and "choice_ok f" and "es < u32_lim" and "start + body_size f \<le> length buf"
    and "apply_write_pipeline c tile f es = Inr stored"
  shows "\<exists>b n p. write_body buf start f es = Inr (b, n) \<and> parse_filter_pipeline (take n (drop start b)) = Inr p
    \<and> apply_pipeline c stored p 0 es = Inr tile"
proof -
  have "apply_pipeline c stored \<lparr>pipeline_filters = map info_of (descriptors f es)\<rparr> 0 es = Inr tile"
    by (rule undo_write_pipeline[OF _ assms(5)]) (rule assms(1))
  then show ?thesis using pipeline_message_written[OF assms(2-4)] by blast
qed

definition identity_codecs :: codecs where
  "identity_codecs = \<lparr>zlib_decompress = (\<lambda>z. if z = [] then None else Some (tl z)),
     zlib_compress = (\<lambda>d level. Some (0x78 # d)), szip_decoder = None\<rparr>"

theorem chunk_pipeline_round_trip_witness:
  "\<exists>stored b n p. apply_write_pipeline identity_codecs [1, 2, 3, 4] \<lparr>fc_shuffle = True, fc_deflate = Some 6, fc_fletcher32 = True\<rparr> 2 = Inr stored
    \<and> write_body (replicate 80 0) 0 \<lparr>fc_shuffle = True, fc_deflate = Some 6, fc_fletcher32 = True\<rparr> 2 = Inr (b, n)
    \<and> parse_filter_pipeline (take n (drop 0 b)) = Inr p
    \<and> apply_pipeline identity_codecs stored p 0 2 = Inr [1, 2, 3, 4]"
proof -
  let ?f = "\<lparr>fc_shuffle = True, fc_deflate = Some 6, fc_fletcher32 = True\<rparr>"
  obtain e where e: "shuffle [1, 2, 3, 4] 2 = Inr e" using shuffle_succeeds[of 2 "[1, 2, 3, 4]"] by auto
  obtain k where "fletcher32_compute (0x78 # e) = Inr k" by (rule fletcher32_compute_obtain)
  then obtain stored where w: "apply_write_pipeline identity_codecs [1, 2, 3, 4] ?f 2 = Inr stored"
    by (auto simp: apply_write_pipeline_def e deflate_compress_def identity_codecs_def max_deflate_level_def append_fletcher32_def)
  have "body_size ?f = 80"
    by (simp add: body_size_def descriptors_def v1_desc_size_def SHUFFLE_NAME_def DEFLATE_NAME_def FLETCHER32_NAME_def
        align8_def)
  then have "\<exists>b n p. write_body (replicate 80 0) 0 ?f 2 = Inr (b, n) \<and> parse_filter_pipeline (take n (drop 0 b)) = Inr p
    \<and> apply_pipeline identity_codecs stored p 0 2 = Inr [1, 2, 3, 4]"
    by (intro chunk_pipeline_round_trip[OF _ _ _ _ w])
      (auto simp: identity_codecs_def choice_ok_def max_deflate_level_def)
  with w show ?thesis by blast
qed

end
