(* ===== verification/Write_SymTab.thy ===== *)
theory Write_SymTab
  imports Write_Format Group_BTree
begin

text \<open>
  \<^verbatim>\<open>oxih5/src/write/btree_v1.rs\<close>: planning, placement and emission of an old-style group's
  symbol table, a B-tree of fixed-width nodes over fixed-width symbol table nodes, and the
  round trip through the reader of \<open>Group_BTree\<close> and \<open>Snod\<close>.

  Addresses are numbers below the buffer's length; an address sum past \<open>2 ^ 64\<close> panics in the
  code at the addition and here at the write it is computed for, since no buffer reaches it.
\<close>

abbreviation (input) GROUP_NODE_MAX_CHILDREN :: nat where "GROUP_NODE_MAX_CHILDREN \<equiv> 32"
abbreviation (input) GROUP_NODE_SIZE :: nat where "GROUP_NODE_SIZE \<equiv> 544"
abbreviation (input) MAX_LEVELS :: nat where "MAX_LEVELS \<equiv> 8"
abbreviation (input) MAX_GROUP_LINKS :: nat where "MAX_GROUP_LINKS \<equiv> 16777216"

section \<open>Planning\<close>

function plan_levels_loop :: "nat \<Rightarrow> nat list \<Rightarrow> nat list res" where
  "plan_levels_loop nodes levels =
     (if nodes > 1 then
        if length levels \<ge> MAX_LEVELS then Inl Format
        else
          let nodes = div_ceil nodes GROUP_NODE_MAX_CHILDREN in
          plan_levels_loop nodes (levels @ [nodes])
      else Inr levels)"
  by pat_completeness auto
termination
  by (relation "measure (\<lambda>(nodes, levels). nodes)") (auto simp: div_ceil_def)

declare plan_levels_loop.simps [simp del]

definition plan_levels :: "nat \<Rightarrow> nat list res" where
  "plan_levels n_snods =
     (let nodes = div_ceil (max n_snods 1) GROUP_NODE_MAX_CHILDREN in plan_levels_loop nodes [nodes])"

record sym_tab =
  n_links :: nat
  n_snods :: nat
  levels :: "nat list"
  level_addr :: "nat list"
  root_addr :: nat
  snod_base :: nat

definition sym_tab_plan :: "nat \<Rightarrow> sym_tab res" where
  "sym_tab_plan links =
     (if links > MAX_GROUP_LINKS then Inl Format
      else
        let snods = max (div_ceil links SNOD_MAX_ENTRIES) 1 in
        and_then (plan_levels snods) (\<lambda>lv.
          Inr \<lparr>n_links = links, n_snods = snods, levels = lv,
               level_addr = replicate (length lv) 0, root_addr = 0, snod_base = 0\<rparr>))"

definition btree_bytes :: "sym_tab \<Rightarrow> nat" where
  "btree_bytes t = sum_list (levels t) * GROUP_NODE_SIZE"

definition snod_bytes :: "sym_tab \<Rightarrow> nat" where
  "snod_bytes t = n_snods t * SNOD_SIZE"

text \<open>The loop of \<^verbatim>\<open>assign\<close> over \<^verbatim>\<open>level_addr.iter_mut().zip(levels)\<close>.\<close>

fun level_addresses :: "nat \<Rightarrow> nat list \<Rightarrow> nat list res" where
  "level_addresses addr [] = Inr []"
| "level_addresses addr (count # rest) =
     and_then (umul count GROUP_NODE_SIZE) (\<lambda>sz.
     and_then (uadd addr sz) (\<lambda>next_addr.
     and_then (level_addresses next_addr rest) (\<lambda>as. Inr (addr # as))))"

definition sym_tab_assign :: "sym_tab \<Rightarrow> nat \<Rightarrow> nat \<Rightarrow> sym_tab res" where
  "sym_tab_assign t btree_base base =
     and_then (level_addresses btree_base (levels t)) (\<lambda>as.
       Inr (t\<lparr>level_addr := as,
              root_addr := (if as = [] then btree_base else last as),
              snod_base := base\<rparr>))"

section \<open>Emission\<close>

definition write_node :: "bytes \<Rightarrow> nat \<Rightarrow> nat \<Rightarrow> nat \<Rightarrow> nat \<Rightarrow> nat list \<Rightarrow> nat list \<Rightarrow> (bytes \<times> nat) res" where
  "write_node buf addr level left_sibling right_sibling children keys =
     (if length children > GROUP_NODE_MAX_CHILDREN \<or> length children \<noteq> length keys then Inl Format
      else
        and_then (fill_zero buf addr GROUP_NODE_SIZE) (\<lambda>buf.
        and_then (put_range buf addr [0x54, 0x52, 0x45, 0x45]) (\<lambda>buf.
        and_then (put_elem buf (addr + 4) 0) (\<lambda>buf.
        and_then (narrow 256 level) (\<lambda>lv.
        and_then (put_elem buf (addr + 5) (of_nat lv)) (\<lambda>buf.
        and_then (narrow 65536 (length children)) (\<lambda>n.
        and_then (write_u16_le buf (addr + 6) n) (\<lambda>buf.
        and_then (write_u64_le buf (addr + 8) left_sibling) (\<lambda>buf.
        and_then (write_u64_le buf (addr + 16) right_sibling) (\<lambda>buf.
        and_then (write_u64_le buf (addr + 24) 0) (\<lambda>buf.
        and_then (fold_res (\<lambda>i buf.
            and_then (write_u64_le buf (addr + 32 + i * 16) (children ! i)) (\<lambda>buf.
              write_u64_le buf (addr + 32 + i * 16 + 8) (keys ! i))) [0..<length children] buf) (\<lambda>buf.
          Inr (buf, GROUP_NODE_SIZE)))))))))))))"

definition last_or_0 :: "nat list \<Rightarrow> nat" where
  "last_or_0 xs = (if xs = [] then 0 else last xs)"

text \<open>One level: the nodes over the current child list, and the child list of the next level.\<close>

definition write_level_node ::
  "nat \<Rightarrow> nat \<Rightarrow> nat \<Rightarrow> nat \<times> nat list \<times> nat list \<Rightarrow> bytes \<times> nat \<times> nat list \<times> nat list
     \<Rightarrow> (bytes \<times> nat \<times> nat list \<times> nat list) res" where
  "write_level_node level base n_nodes = (\<lambda>(i, addrs, keys) (buf, wrote, next_addrs, next_keys).
     let addr = base + i * GROUP_NODE_SIZE;
         left = (if i = 0 then UNDEFINED_ADDR else addr - GROUP_NODE_SIZE);
         right = (if i + 1 = n_nodes then UNDEFINED_ADDR else addr + GROUP_NODE_SIZE) in
     and_then (write_node buf addr level left right addrs keys) (\<lambda>(buf, n).
     and_then (uadd wrote n) (\<lambda>wrote.
       Inr (buf, wrote, next_addrs @ [addr], next_keys @ [last_or_0 keys]))))"

definition write_level :: "nat \<Rightarrow> nat \<Rightarrow> bytes \<times> nat \<times> nat list \<times> nat list \<Rightarrow> (bytes \<times> nat \<times> nat list \<times> nat list) res" where
  "write_level level base = (\<lambda>(buf, wrote, child_addrs, child_keys).
     let n_nodes = div_ceil (length child_addrs) GROUP_NODE_MAX_CHILDREN in
     fold_res (write_level_node level base n_nodes)
       (enumerate 0 (zip (chunks GROUP_NODE_MAX_CHILDREN child_addrs) (chunks GROUP_NODE_MAX_CHILDREN child_keys)))
       (buf, wrote, [], []))"

definition write_levels :: "sym_tab \<Rightarrow> bytes \<Rightarrow> nat list \<Rightarrow> nat list \<Rightarrow> (bytes \<times> nat) res" where
  "write_levels t buf child_addrs child_keys =
     and_then (fold_res (\<lambda>(level, base). write_level level base) (enumerate 0 (level_addr t))
                 (buf, 0, child_addrs, child_keys)) (\<lambda>(buf, wrote, as, ks).
       Inr (buf, wrote))"

definition sym_tab_write :: "sym_tab \<Rightarrow> bytes \<Rightarrow> snod_entry list \<Rightarrow> (bytes \<times> nat) res" where
  "sym_tab_write t buf entries =
     (if length entries \<noteq> n_links t then Inl Format
      else
        let cs = (if chunks SNOD_MAX_ENTRIES entries = [] then [[]] else chunks SNOD_MAX_ENTRIES entries) in
        and_then (fold_res (\<lambda>(i, chunk) (buf, wrote, child_addrs, child_keys).
            let addr = snod_base t + i * SNOD_SIZE in
            and_then (write_snod buf addr chunk) (\<lambda>(buf, n).
            and_then (uadd wrote n) (\<lambda>wrote.
              Inr (buf, wrote, child_addrs @ [addr],
                   child_keys @ [if chunk = [] then 0 else ent_name_offset (last chunk)]))))
          (enumerate 0 cs) (buf, 0, [], [])) (\<lambda>(buf, wrote, child_addrs, child_keys).
        and_then (write_levels t buf child_addrs child_keys) (\<lambda>(buf, n).
        and_then (uadd wrote n) (\<lambda>wrote. Inr (buf, wrote)))))"

section \<open>One node\<close>

definition enc_slot :: "nat list \<Rightarrow> nat list \<Rightarrow> nat \<Rightarrow> bytes" where
  "enc_slot children keys i = to_le 8 (children ! i) @ to_le 8 (keys ! i)"

definition enc_node_head :: "nat \<Rightarrow> nat \<Rightarrow> nat \<Rightarrow> nat \<Rightarrow> bytes" where
  "enc_node_head level n left right =
     sig_TREE @ [0, of_nat level] @ to_le 2 n @ to_le 8 left @ to_le 8 right @ to_le 8 0"

definition enc_node :: "nat \<Rightarrow> nat \<Rightarrow> nat \<Rightarrow> nat list \<Rightarrow> nat list \<Rightarrow> bytes" where
  "enc_node level left right children keys =
     enc_node_head level (length children) left right
     @ concat (map (enc_slot children keys) [0..<length children]) @ replicate ((32 - length children) * 16) 0"

lemma length_enc_node_head [simp]: "length (enc_node_head level n l r) = 32"
  by (simp add: enc_node_head_def sig_TREE_def)

lemma length_enc_slots [simp]: "length (concat (map (enc_slot cs ks) [0..<n])) = n * 16"
  by (subst length_concat_const[where w = 16]) (simp_all add: enc_slot_def)

lemma length_enc_node: "length cs \<le> 32 \<Longrightarrow> length (enc_node level l r cs ks) = 544"
  by (simp add: enc_node_def)

lemma write_node_enc:
  assumes "length cs \<le> 32" and "length ks = length cs" and "level < 256" and "a + 544 \<le> length buf"
  shows "write_node buf a level l r cs ks = Inr (splice buf a (enc_node level l r cs ks), 544)"
proof -
  let ?h = "enc_node_head level (length cs) l r"
  let ?b = "splice buf a (?h @ replicate 512 0)"
  have zr: "zeroed ?b (a + 32) 512"
    using assms(4) by (simp add: zeroed_def splice_def)
  have z: "zeroed ?b (a + 32) (length cs * 16)"
    by (rule zeroed_sub[OF zr]) (use assms(1) in auto)
  have loop: "fold_res (\<lambda>i buf. and_then (write_u64_le buf (a + 32 + i * 16) (cs ! i)) (\<lambda>buf.
        write_u64_le buf (a + 32 + i * 16 + 8) (ks ! i))) [0..<length cs] ?b
      = Inr (splice ?b (a + 32) (concat (map (enc_slot cs ks) [0..<length cs])))"
  proof (rule slot_loop[OF _ _ z])
    fix i :: nat and b :: bytes
    let ?p = "a + 32 + i * 16"
    assume z: "zeroed b ?p 16"
    then have fits: "?p + 16 \<le> length b" by (simp add: zeroed_def)
    have "put_range b ?p (to_le 8 (cs ! i)) = Inr (splice b ?p (to_le 8 (cs ! i)))"
      using fits by (simp add: put_range_def)
    moreover have "put_range (splice b ?p (to_le 8 (cs ! i))) (?p + 8) (to_le 8 (ks ! i))
        = Inr (splice b ?p (enc_slot cs ks i))"
      using fits splice_append[of ?p "to_le 8 (cs ! i)" "to_le 8 (ks ! i)" b]
      by (simp add: put_range_def enc_slot_def)
    ultimately show "and_then (write_u64_le b ?p (cs ! i)) (\<lambda>buf. write_u64_le buf (?p + 8) (ks ! i))
        = Inr (splice b ?p (enc_slot cs ks i))"
      by (simp add: write_defs)
  qed (simp add: enc_slot_def)
  have "splice ?b (a + 32) (concat (map (enc_slot cs ks) [0..<length cs]))
      = splice buf a (splice (?h @ replicate 512 0) 32 (concat (map (enc_slot cs ks) [0..<length cs])))"
    using assms by (intro splice_inside) simp_all
  also have "splice (?h @ replicate 512 0) 32 (concat (map (enc_slot cs ks) [0..<length cs])) = enc_node level l r cs ks"
    by (simp add: splice_def enc_node_def diff_mult_distrib)
  finally have enc: "splice ?b (a + 32) (concat (map (enc_slot cs ks) [0..<length cs]))
      = splice buf a (enc_node level l r cs ks)" .
  have "region ((((((([] @ [0x54, 0x52, 0x45, 0x45]) @ [0]) @ [of_nat level]) @ to_le 2 (length cs)) @ to_le 8 l)
      @ to_le 8 r) @ to_le 8 0) 512 = ?h @ replicate 512 0"
    by (simp add: region_def enc_node_head_def sig_TREE_def)
  then have "write_node buf a level l r cs ks = and_then (fold_res (\<lambda>i buf.
        and_then (write_u64_le buf (a + 32 + i * 16) (cs ! i)) (\<lambda>buf.
        write_u64_le buf (a + 32 + i * 16 + 8) (ks ! i))) [0..<length cs] ?b) (\<lambda>buf. Inr (buf, 544))"
    using assms
    by (simp add: write_node_def fill_zero_splice put_elem_range put_range_next region_start narrow_def write_defs
          del: to_le.simps append_assoc append.simps)
  then show ?thesis by (simp only: loop enc and_then_simps)
qed

lemma node_region:
  assumes "drop a d = enc_node level l r cs ks @ rest" and "length cs \<le> 32"
    and "\<forall>c\<in>set cs. c < u64_lim" and "length d < u64_lim"
  shows "node_header d a (of_nat level) (length cs)" and "map (child_at d a) [0..<length cs] = cs"
proof -
  let ?n = "length cs"
  have ld: "a + 544 \<le> length d"
    using arg_cong[OF assms(1), of length] length_enc_node[OF assms(2)] by simp
  have nth: "d ! (a + 4) = drop a d ! 4" "d ! (a + 5) = drop a d ! 5" using ld by simp_all
  have f2: "field 2 d (a + 6) = ?n"
    unfolding field_drop assms(1) using assms(2)
    by (simp add: enc_node_def enc_node_head_def sig_TREE_def field_eval)
  show "node_header d a (of_nat level) ?n"
    unfolding node_header_def using ld assms(2,4) f2 nth unfolding assms(1)
    by (simp add: enc_node_def enc_node_head_def sig_TREE_def)
  have "child_at d a i = cs ! i" if i: "i < ?n" for i
  proof -
    have "Suc i * 16 \<le> ?n * 16" using i by (intro mult_le_mono1) simp
    then have fit: "i * 16 + 16 \<le> ?n * 16" by simp
    have "drop (a + 32 + i * 16) d = drop (i * 16) (drop 32 (drop a d))" by (simp add: ac_simps)
    then have "take 16 (drop (a + 32 + i * 16) d)
        = take 16 (drop (i * 16) (concat (map (enc_slot cs ks) [0..<?n])))"
      unfolding assms(1) using fit by (simp add: enc_node_def)
    also have "\<dots> = enc_slot cs ks i" by (rule nth_block_concat) (simp_all add: i enc_slot_def)
    finally have "field 8 d (a + 32 + i * 16 + 0) = field 8 (enc_slot cs ks i) 0"
      by (rule field_of_slot) simp
    moreover have "cs ! i < u64_lim" using assms(3) i by simp
    ultimately show ?thesis
      by (simp add: child_at_def enc_slot_def field_eval add.assoc del: to_le.simps)
  qed
  then show "map (child_at d a) [0..<?n] = cs" by (intro nth_equalityI) simp_all
qed

section \<open>Trees below an address\<close>

text \<open>A tree all of whose nodes lie below \<open>lim\<close>: later writes above \<open>lim\<close> cannot disturb it.\<close>

fun tree_below :: "bytes \<Rightarrow> nat \<Rightarrow> nat \<Rightarrow> nat \<Rightarrow> nat list \<Rightarrow> bool" where
  "tree_below d lim 0 a ls \<longleftrightarrow> ls = [a] \<and> a \<noteq> UNDEFINED_ADDR"
| "tree_below d lim (Suc h) a ls \<longleftrightarrow>
     (\<exists>n lss. node_header d a (of_nat h) n \<and> a + 32 + 16 * n \<le> lim
        \<and> list_all2 (tree_below d lim h) (map (child_at d a) [0..<n]) lss \<and> ls = concat lss)"

lemma node_header_agree:
  assumes "take lim d' = take lim d" and "length d' = length d" and "a + 32 + 16 * n \<le> lim"
    and "node_header d a l n"
  shows "node_header d' a l n" and "map (child_at d' a) [0..<n] = map (child_at d a) [0..<n]"
proof -
  have nt: "d' ! p = d ! p" if "p < lim" for p
    using arg_cong[OF assms(1), of "\<lambda>xs. xs ! p"] that by simp
  have f2: "field 2 d' (a + 6) = field 2 d (a + 6)" by (rule field_agree[OF assms(1)]) (use assms(3) in simp)
  show "node_header d' a l n"
    using assms(2-4) slice_agree[OF assms(1), of a 4] nt[of "a + 4"] nt[of "a + 5"] f2 by (simp add: node_header_def)
  have "child_at d' a i = child_at d a i" if "i < n" for i
  proof -
    have "16 * Suc i \<le> 16 * n" using that by (intro mult_le_mono2) simp
    then show ?thesis unfolding child_at_def using assms(3) by (intro field_agree[OF assms(1)]) simp
  qed
  then show "map (child_at d' a) [0..<n] = map (child_at d a) [0..<n]" by simp
qed

lemma tree_below_agree:
  assumes "take lim d' = take lim d" and "length d' = length d" and "lim \<le> lim'"
  shows "tree_below d lim h a ls \<Longrightarrow> tree_below d' lim' h a ls"
proof (induction h arbitrary: a ls)
  case (Suc h)
  then obtain n lss where n: "node_header d a (of_nat h) n" "a + 32 + 16 * n \<le> lim"
      and l: "list_all2 (tree_below d lim h) (map (child_at d a) [0..<n]) lss" "ls = concat lss"
    by auto
  have "list_all2 (tree_below d' lim' h) (map (child_at d a) [0..<n]) lss"
    using l(1) by (rule list_all2_mono) (rule Suc.IH)
  then have "list_all2 (tree_below d' lim' h) (map (child_at d' a) [0..<n]) lss"
    by (simp only: node_header_agree(2)[OF assms(1,2) n(2,1)])
  moreover have "node_header d' a (of_nat h) n" by (rule node_header_agree(1)[OF assms(1,2) n(2,1)])
  moreover have "a + 32 + 16 * n \<le> lim'" using n(2) assms(3) by linarith
  ultimately show ?case unfolding tree_below.simps l(2) by blast
qed simp

lemma tree_below_tree_at:
  "tree_below d lim (Suc h) a ls \<Longrightarrow> h < 255 \<Longrightarrow> tree_at d h a ls"
proof (induction h arbitrary: a ls)
  case 0
  then obtain n lss where n: "node_header d a 0 n" "ls = concat lss"
      "list_all2 (tree_below d lim 0) (map (child_at d a) [0..<n]) lss"
    by auto
  have "lss = map (\<lambda>c. [c]) cs \<and> UNDEFINED_ADDR \<notin> set cs"
    if "list_all2 (tree_below d lim 0) cs lss" for cs lss
    using that by induction auto
  with n(3) have "lss = map (\<lambda>c. [c]) (map (child_at d a) [0..<n])"
      "UNDEFINED_ADDR \<notin> set (map (child_at d a) [0..<n])" by blast+
  then have "ls = map (child_at d a) [0..<n]" "\<And>l. l \<in> set ls \<Longrightarrow> l \<noteq> UNDEFINED_ADDR"
    using n(2) by (auto simp: comp_def)
  then show ?case using n(1) by (intro tree_at.leaf) auto
next
  case (Suc h)
  then obtain n lss where n: "node_header d a (of_nat (Suc h)) n" "ls = concat lss"
      "list_all2 (tree_below d lim (Suc h)) (map (child_at d a) [0..<n]) lss"
    by (auto simp del: of_nat_Suc)
  have "unat (of_nat (Suc h) :: byte) = Suc h"
    using Suc.prems(2) by (simp only: unat_of_nat_byte) simp
  then have "(of_nat (Suc h) :: byte) \<noteq> 0" by auto
  moreover have "list_all2 (tree_at d h) (map (child_at d a) [0..<n]) lss"
    using n(3) by (rule list_all2_mono) (use Suc in simp)
  ultimately show ?case unfolding n(2) using n(1) by (intro tree_at.node)
qed

declare tree_below.simps(2) [simp del]

section \<open>One level\<close>

lemma map_enumerate: "map f (enumerate n xs) = map (\<lambda>i. f (n + i, xs ! i)) [0..<length xs]"
  by (intro nth_equalityI) (simp_all add: nth_enumerate_eq)

lemma drop_block_concat:
  assumes "\<And>i. i < n \<Longrightarrow> length (enc i) = w" and "i < n"
  shows "\<exists>rest. drop (i * w) (concat (map enc [0..<n])) = enc i @ rest"
proof -
  have "[0..<n] = [0..<i] @ i # [Suc i..<n]" using assms(2)
    by (metis upt_add_eq_append upt_conv_Cons le_add_diff_inverse less_imp_le le0)
  moreover have "length (concat (map enc [0..<i])) = i * w"
    using assms by (subst length_concat_const[where w = w]) auto
  ultimately show ?thesis by simp
qed

text \<open>What one node of a level is written as.\<close>

definition level_node :: "nat \<Rightarrow> nat \<Rightarrow> nat \<Rightarrow> nat \<times> nat list \<times> nat list \<Rightarrow> bytes" where
  "level_node level base n = (\<lambda>(i, addrs, keys).
     enc_node level (if i = 0 then UNDEFINED_ADDR else base + i * 544 - 544)
       (if i + 1 = n then UNDEFINED_ADDR else base + i * 544 + 544) addrs keys)"

lemma length_level_node: "length (fst (snd x)) \<le> 32 \<Longrightarrow> length (level_node level base n x) = 544"
  by (cases x rule: prod_cases3) (simp add: level_node_def length_enc_node)

lemma write_level_fold:
  assumes "\<forall>(a, k)\<in>set prs. length a \<le> 32 \<and> length k = length a" and "level < 256"
    and "base + (i0 + length prs) * 544 \<le> length buf" and "wrote + length prs * 544 < u64_lim"
  shows "fold_res (write_level_node level base n)
       (enumerate i0 prs) (buf, wrote, na, nk)
     = Inr (splice buf (base + i0 * 544) (concat (map (level_node level base n) (enumerate i0 prs))),
            wrote + length prs * 544, na @ map (\<lambda>i. base + i * 544) [i0..<i0 + length prs],
            nk @ map (\<lambda>(a, k). last_or_0 k) prs)"
  using assms
proof (induction prs arbitrary: i0 buf wrote na nk)
  case (Cons pr prs)
  obtain a k where pr: "pr = (a, k)" by (cases pr)
  have ak: "length a \<le> 32" "length k = length a" using Cons.prems(1) pr by auto
  let ?e = "level_node level base n (i0, a, k)"
  have le: "length ?e = 544" by (rule length_level_node) (simp add: ak)
  have fit: "base + i0 * 544 + 544 \<le> length buf" using Cons.prems(3) by simp
  have w: "write_node buf (base + i0 * 544) level (if i0 = 0 then UNDEFINED_ADDR else base + i0 * 544 - 544)
      (if i0 + 1 = n then UNDEFINED_ADDR else base + i0 * 544 + 544) a k = Inr (splice buf (base + i0 * 544) ?e, 544)"
    using write_node_enc[OF ak Cons.prems(2) fit] by (simp add: level_node_def)
  have "length (level_node level base n x) = 544" if "x \<in> set (enumerate (Suc i0) prs)" for x
    using that Cons.prems(1)
  proof -
    have "snd x \<in> set prs" using that unfolding enumerate_eq_zip by (metis prod.collapse set_zip_rightD)
    then show ?thesis using Cons.prems(1) by (intro length_level_node) auto
  qed
  then have rest: "length (concat (map (level_node level base n) (enumerate (Suc i0) prs))) = length prs * 544"
    by (subst length_concat_const[where w = 544]) simp_all
  have sp: "splice (splice buf (base + i0 * 544) ?e) (base + Suc i0 * 544)
        (concat (map (level_node level base n) (enumerate (Suc i0) prs)))
      = splice buf (base + i0 * 544) (?e @ concat (map (level_node level base n) (enumerate (Suc i0) prs)))"
    using splice_append[of "base + i0 * 544" ?e _ buf] rest le Cons.prems(3) by (simp add: algebra_simps)
  have step: "write_level_node level base n (i0, a, k) (buf, wrote, na, nk)
      = Inr (splice buf (base + i0 * 544) ?e, wrote + 544, na @ [base + i0 * 544], nk @ [last_or_0 k])"
    unfolding write_level_node_def using w Cons.prems(4) by (simp add: Let_def)
  have "fold_res (write_level_node level base n) (enumerate i0 (pr # prs)) (buf, wrote, na, nk)
      = fold_res (write_level_node level base n) (enumerate (Suc i0) prs)
          (splice buf (base + i0 * 544) ?e, wrote + 544, na @ [base + i0 * 544], nk @ [last_or_0 k])"
    by (simp only: pr enumerate_simps fold_res.simps step and_then_simps)
  also have "\<dots> = Inr (splice (splice buf (base + i0 * 544) ?e) (base + Suc i0 * 544)
        (concat (map (level_node level base n) (enumerate (Suc i0) prs))),
      wrote + 544 + length prs * 544, (na @ [base + i0 * 544]) @ map (\<lambda>i. base + i * 544) [Suc i0..<Suc i0 + length prs],
      (nk @ [last_or_0 k]) @ map (\<lambda>(a, k). last_or_0 k) prs)"
    by (rule Cons.IH) (use Cons.prems fit le in simp_all)
  finally have "fold_res (write_level_node level base n) (enumerate i0 (pr # prs)) (buf, wrote, na, nk) = \<dots>" .
  moreover have "[i0..<i0 + length (pr # prs)] = i0 # [Suc i0..<Suc i0 + length prs]"
    by (simp add: upt_conv_Cons del: upt_Suc)
  ultimately show ?case
    unfolding sp by (simp add: pr del: upt_Suc fold_res.simps enumerate_simps) (simp add: pr)
qed simp

lemma write_level_ok:
  assumes as: "length ks = length as" "\<forall>a\<in>set as. a < u64_lim" "list_all2 (tree_below buf base level) as lss"
    and n: "n = div_ceil (length as) 32" and lim: "base + n * 544 \<le> length buf" "length buf < u64_lim"
    and level: "level < 256" and wrote: "wrote + n * 544 < u64_lim"
  shows "\<exists>b' as' ks'. write_level level base (buf, wrote, as, ks) = Inr (b', wrote + n * 544, as', ks')
    \<and> length b' = length buf \<and> length ks' = n \<and> as' = map (\<lambda>i. base + i * 544) [0..<n]
    \<and> list_all2 (tree_below b' (base + n * 544) (Suc level)) as' (map concat (chunks 32 lss))
    \<and> take base b' = take base buf \<and> drop (base + n * 544) b' = drop (base + n * 544) buf"
proof -
  let ?ca = "chunks 32 as" and ?ck = "chunks 32 ks" and ?cl = "chunks 32 lss"
  let ?prs = "zip ?ca ?ck"
  let ?enc = "\<lambda>i. level_node level base n (i, ?ca ! i, ?ck ! i)"
  let ?c = "concat (map ?enc [0..<n])"
  let ?b = "splice buf base ?c"
  have la: "length ?ca = n" "length ?ck = n" by (simp_all add: length_chunks n as(1))
  have "list_all2 (\<lambda>_ _. True) as ks" using as(1) by (simp add: list_all2_conv_all_nth)
  then have kk: "list_all2 (list_all2 (\<lambda>_ _. True)) ?ca ?ck" by (rule chunks_list_all2) simp
  have len32: "length (?ca ! i) \<le> 32" "length (?ck ! i) = length (?ca ! i)" if "i < n" for i
    using that la chunk_length[of "?ca ! i" 32 as] list_all2_nthD[OF kk, of i] by (auto dest: list_all2_lengthD)
  have le: "length (?enc i) = 544" if "i < n" for i
    by (rule length_level_node) (simp add: len32 that)
  have lc: "length ?c = n * 544" by (subst length_concat_const[where w = 544]) (auto simp: le)
  have enc: "concat (map (level_node level base n) (enumerate 0 ?prs)) = ?c"
  proof -
    have "map (level_node level base n) (enumerate 0 ?prs) = map ?enc [0..<n]"
      unfolding map_enumerate using la by (intro map_cong) simp_all
    then show ?thesis by simp
  qed
  have prs: "\<forall>(a, k)\<in>set ?prs. length a \<le> 32 \<and> length k = length a"
    using len32 la by (auto simp: set_zip)
  have w: "write_level level base (buf, wrote, as, ks)
      = Inr (?b, wrote + n * 544, map (\<lambda>i. base + i * 544) [0..<n], map (\<lambda>(a, k). last_or_0 k) ?prs)"
    using write_level_fold[OF prs level, of base 0 buf wrote n "[]" "[]"] lim wrote la
    by (simp add: write_level_def n[symmetric] enc Let_def)
  have lb: "length ?b = length buf" using lim lc by simp
  have low: "take base ?b = take base buf" using lim lc by (simp add: splice_def)
  have "tree_below ?b (base + n * 544) (Suc level) (base + i * 544) (concat (?cl ! i))" if i: "i < n" for i
  proof -
    obtain rest where "drop (i * 544) ?c = ?enc i @ rest" using drop_block_concat[of n ?enc 544 i] le i by blast
    moreover have "drop (base + i * 544) ?b = drop (i * 544) (drop base ?b)" by (simp add: add.commute)
    moreover have "drop base ?b = ?c @ drop (base + n * 544) buf" using lim lc by (simp add: drop_splice)
    moreover have "i * 544 \<le> length ?c" using lc i by simp
    ultimately have d: "drop (base + i * 544) ?b = ?enc i @ rest @ drop (base + n * 544) buf" by simp
    have small: "\<forall>c\<in>set (?ca ! i). c < u64_lim"
      using as(2) nth_mem[of i ?ca] la i concat_chunks[of 32 as] by (metis UN_I set_concat zero_less_numeral)
    have "?enc i = enc_node level (if i = 0 then UNDEFINED_ADDR else base + i * 544 - 544)
        (if i + 1 = n then UNDEFINED_ADDR else base + i * 544 + 544) (?ca ! i) (?ck ! i)"
      by (simp only: level_node_def prod.case)
    note nr = node_region[OF d[unfolded this] len32(1)[OF i] small lim(2)[folded lb]]
    have "list_all2 (tree_below buf base level) (?ca ! i) (?cl ! i)"
      using list_all2_nthD[OF chunks_list_all2[OF as(3), of 32], of i] la i by simp
    then have "list_all2 (tree_below ?b (base + n * 544) level) (?ca ! i) (?cl ! i)"
      by (rule list_all2_mono) (use tree_below_agree[OF low lb] in simp)
    moreover have "base + i * 544 + 32 + 16 * length (?ca ! i) \<le> base + n * 544"
    proof -
      have "Suc i * 544 \<le> n * 544" using i by (intro mult_le_mono1) simp
      then show ?thesis using len32(1)[OF i] by simp
    qed
    ultimately show ?thesis unfolding tree_below.simps
      using nr by (intro exI[of _ "length (?ca ! i)"] exI[of _ "?cl ! i"]) simp
  qed
  then have "list_all2 (tree_below ?b (base + n * 544) (Suc level)) (map (\<lambda>i. base + i * 544) [0..<n]) (map concat ?cl)"
    using list_all2_lengthD[OF chunks_list_all2[OF as(3), of 32]] la by (intro list_all2_all_nthI) simp_all
  then show ?thesis
    using w lb low lc lim la by (simp add: splice_def)
qed

section \<open>All levels\<close>

text \<open>The level sizes of a plan over \<open>m\<close> children, and the places of the levels from a base address.\<close>

fun level_chain :: "nat \<Rightarrow> nat list \<Rightarrow> bool" where
  "level_chain m [] \<longleftrightarrow> True"
| "level_chain m (n # ns) \<longleftrightarrow> n = div_ceil m 32 \<and> level_chain n ns"

fun level_places :: "nat \<Rightarrow> nat list \<Rightarrow> nat list" where
  "level_places base [] = []"
| "level_places base (n # ns) = base # level_places (base + n * 544) ns"

lemma level_addresses_InrD:
  "level_addresses base lv = Inr as \<Longrightarrow> as = level_places base lv"
  by (induction lv arbitrary: base as) auto

lemma level_places_Nil [simp]: "level_places base lv = [] \<longleftrightarrow> lv = []"
  by (cases lv) simp_all

lemma write_levels_fold:
  assumes "level_chain (length as) lv" and "length ks = length as" and "\<forall>a\<in>set as. a < u64_lim"
    and "list_all2 (tree_below buf base level) as lss" and "base + sum_list lv * 544 \<le> length buf"
    and "length buf < u64_lim" and "level + length lv \<le> 255" and "wrote + sum_list lv * 544 < u64_lim"
  shows "\<exists>b' as' ks' lss'. fold_res (\<lambda>(level, base). write_level level base) (enumerate level (level_places base lv))
        (buf, wrote, as, ks) = Inr (b', wrote + sum_list lv * 544, as', ks')
    \<and> length b' = length buf \<and> list_all2 (tree_below b' (base + sum_list lv * 544) (level + length lv)) as' lss'
    \<and> concat lss' = concat lss \<and> take base b' = take base buf
    \<and> drop (base + sum_list lv * 544) b' = drop (base + sum_list lv * 544) buf
    \<and> (lv \<noteq> [] \<longrightarrow> as' = map (\<lambda>i. last (level_places base lv) + i * 544) [0..<last lv])"
  using assms
proof (induction lv arbitrary: buf wrote as ks lss base level)
  case (Cons n ns)
  let ?base = "base + n * 544"
  from Cons.prems(1) have n: "n = div_ceil (length as) 32" and chain: "level_chain n ns"
    unfolding level_chain.simps by blast+
  have fit: "base + n * 544 \<le> length buf" "wrote + n * 544 < u64_lim" "level < 256"
    using Cons.prems(5,7,8) by (simp_all add: algebra_simps)
  obtain b1 as1 ks1 where lv: "write_level level base (buf, wrote, as, ks) = Inr (b1, wrote + n * 544, as1, ks1)"
    and b1: "length b1 = length buf" "length ks1 = n" "as1 = map (\<lambda>i. base + i * 544) [0..<n]"
    and t1: "list_all2 (tree_below b1 ?base (Suc level)) as1 (map concat (chunks 32 lss))"
    and o1: "take base b1 = take base buf" "drop ?base b1 = drop ?base buf"
    using write_level_ok[OF Cons.prems(2,3,4) n fit(1) Cons.prems(6) fit(3) fit(2)] by blast
  have small: "\<forall>a\<in>set as1. a < u64_lim"
  proof
    fix a assume "a \<in> set as1"
    then obtain i where "i < n" "a = base + i * 544" using b1(3) by auto
    moreover from this have "i * 544 \<le> n * 544" by simp
    ultimately show "a < u64_lim" using fit(1) Cons.prems(6) by linarith
  qed
  have "\<exists>b' as' ks' lss'. fold_res (\<lambda>(level, base). write_level level base)
        (enumerate (Suc level) (level_places ?base ns)) (b1, wrote + n * 544, as1, ks1)
      = Inr (b', wrote + n * 544 + sum_list ns * 544, as', ks')
    \<and> length b' = length b1 \<and> list_all2 (tree_below b' (?base + sum_list ns * 544) (Suc level + length ns)) as' lss'
    \<and> concat lss' = concat (map concat (chunks 32 lss)) \<and> take ?base b' = take ?base b1
    \<and> drop (?base + sum_list ns * 544) b' = drop (?base + sum_list ns * 544) b1
    \<and> (ns \<noteq> [] \<longrightarrow> as' = map (\<lambda>i. last (level_places ?base ns) + i * 544) [0..<last ns])"
    by (rule Cons.IH) (use Cons.prems(5-8) chain b1 t1 small in \<open>simp_all add: algebra_simps\<close>)
  then obtain b2 as2 ks2 lss2 where r: "fold_res (\<lambda>(level, base). write_level level base)
        (enumerate (Suc level) (level_places ?base ns)) (b1, wrote + n * 544, as1, ks1)
      = Inr (b2, wrote + n * 544 + sum_list ns * 544, as2, ks2)"
    and b2: "length b2 = length b1" "list_all2 (tree_below b2 (?base + sum_list ns * 544) (Suc level + length ns)) as2 lss2"
      "concat lss2 = concat (map concat (chunks 32 lss))" "take ?base b2 = take ?base b1"
      "drop (?base + sum_list ns * 544) b2 = drop (?base + sum_list ns * 544) b1"
      "ns \<noteq> [] \<longrightarrow> as2 = map (\<lambda>i. last (level_places ?base ns) + i * 544) [0..<last ns]"
    by blast
  have "ns = [] \<Longrightarrow> as2 = as1" using r by simp
  have low: "take base b2 = take base buf"
    using arg_cong[OF b2(4), of "take base"] o1(1) by (simp add: min_def)
  have high: "drop (base + sum_list (n # ns) * 544) b2 = drop (base + sum_list (n # ns) * 544) buf"
    using b2(5) arg_cong[OF o1(2), of "drop (sum_list ns * 544)"] by (simp add: algebra_simps)
  have last: "as2 = map (\<lambda>i. last (level_places base (n # ns)) + i * 544) [0..<last (n # ns)]"
    using b1(3) b2(6) \<open>ns = [] \<Longrightarrow> as2 = as1\<close> by (cases "ns = []") auto
  have "fold_res (\<lambda>(level, base). write_level level base) (enumerate level (level_places base (n # ns))) (buf, wrote, as, ks)
      = Inr (b2, wrote + sum_list (n # ns) * 544, as2, ks2)"
    using lv r by (simp add: algebra_simps)
  moreover have "list_all2 (tree_below b2 (base + sum_list (n # ns) * 544) (level + length (n # ns))) as2 lss2"
    using b2(2) by (simp add: algebra_simps)
  moreover have "concat lss2 = concat lss" using b2(3) by (simp add: concat_map_concat_chunks)
  ultimately show ?case using low high last b1(1) b2(1) by auto
qed auto

section \<open>The plan\<close>

lemma level_chain_snoc: "level_chain m (xs @ [n]) \<longleftrightarrow> level_chain m xs \<and> n = div_ceil (last (m # xs)) 32"
  by (induction xs arbitrary: m) auto

lemma plan_levels_loop_chain:
  assumes "plan_levels_loop nodes lv = Inr r" and "level_chain m lv" and "lv \<noteq> []" and "last lv = nodes"
    and "0 < nodes" and "length lv \<le> 8"
  shows "level_chain m r \<and> r \<noteq> [] \<and> last r = 1 \<and> length r \<le> 8"
  using assms
proof (induction nodes lv rule: plan_levels_loop.induct)
  case (1 nodes lv)
  show ?case
  proof (cases "nodes > 1")
    case True
    with "1.prems"(1) have l: "length lv < 8" and r: "plan_levels_loop (div_ceil nodes 32) (lv @ [div_ceil nodes 32]) = Inr r"
      by (auto simp: plan_levels_loop.simps[of nodes lv] Let_def split: if_splits)
    show ?thesis
      by (rule "1.IH"[OF True _ refl r]) (use "1.prems" l in \<open>auto simp: level_chain_snoc div_ceil_pos\<close>)
  next
    case False
    then show ?thesis using "1.prems" by (subst (asm) plan_levels_loop.simps) auto
  qed
qed

lemma plan_levels_chain:
  assumes "plan_levels n = Inr lv"
  shows "level_chain (max n 1) lv \<and> lv \<noteq> [] \<and> last lv = 1 \<and> length lv \<le> 8"
  using plan_levels_loop_chain[of _ "[div_ceil (max n 1) 32]" lv "max n 1"] assms div_ceil_pos[of "max n 1" 32]
  by (simp add: plan_levels_def Let_def)

lemma div_ceil_bound:
  assumes "n \<le> 32 * k"
  shows "div_ceil n 32 \<le> k"
proof (cases "n mod 32 = 0")
  case False
  then have "n div 32 < k" using assms div_mult_mod_eq[of n 32] by linarith
  then show ?thesis by (simp add: div_ceil_def Suc_leI)
next
  case True
  then show ?thesis using assms div_mult_mod_eq[of n 32] by (simp add: div_ceil_def)
qed

lemma plan_levels_loop_total:
  assumes "nodes \<le> 32 ^ k" and "length lv + k \<le> 8"
  shows "\<exists>r. plan_levels_loop nodes lv = Inr r"
  using assms
proof (induction k arbitrary: nodes lv)
  case 0
  then show ?case by (subst plan_levels_loop.simps) simp
next
  case (Suc k)
  have "div_ceil nodes 32 \<le> 32 ^ k" using Suc.prems(1) by (intro div_ceil_bound) simp
  then have "\<exists>r. plan_levels_loop (div_ceil nodes 32) (lv @ [div_ceil nodes 32]) = Inr r"
    by (rule Suc.IH) (use Suc.prems(2) in simp)
  then show ?case using Suc.prems(2) by (subst plan_levels_loop.simps) (simp add: Let_def)
qed

text \<open>
  The writer's depth limit is never what refuses a group: planning succeeds exactly for
  groups of at most \<open>2 ^ 24\<close> links, with one symbol table node per eight links (at least one)
  and at most eight levels that end in a single root.
\<close>

theorem sym_tab_plan_total:
  "(\<exists>t. sym_tab_plan links = Inr t \<and> n_links t = links \<and> n_snods t = max (div_ceil links 8) 1
      \<and> level_chain (n_snods t) (levels t) \<and> levels t \<noteq> [] \<and> last (levels t) = 1 \<and> length (levels t) \<le> 8)
   \<longleftrightarrow> links \<le> 2 ^ 24"
proof (cases "links \<le> 2 ^ 24")
  case True
  let ?s = "max (div_ceil links 8) 1"
  have "links div 8 \<le> 2 ^ 24 div 8" using True by (rule div_le_mono)
  then have "div_ceil links 8 \<le> 2 ^ 22" by (simp add: div_ceil_def)
  then have "?s \<le> 2 ^ 22" by simp
  then have "max ?s 1 \<le> 32 * 32 ^ 4" by simp
  then have "div_ceil (max ?s 1) 32 \<le> 32 ^ 4" by (rule div_ceil_bound)
  then obtain lv where lv: "plan_levels ?s = Inr lv"
    using plan_levels_loop_total[of _ 4 "[div_ceil (max ?s 1) 32]"] by (auto simp: plan_levels_def Let_def)
  with plan_levels_chain[OF lv] True show ?thesis by (simp add: sym_tab_plan_def Let_def)
qed (simp add: sym_tab_plan_def)

section \<open>The symbol table nodes\<close>

lemma write_snods_fold:
  assumes "\<forall>c\<in>set cs. length c \<le> 8" and "sbase + (i0 + length cs) * 328 \<le> length buf"
    and "wrote + length cs * 328 < u64_lim"
  shows "fold_res (\<lambda>(i, chunk) (buf, wrote, child_addrs, child_keys).
            let addr = sbase + i * 328 in
            and_then (write_snod buf addr chunk) (\<lambda>(buf, n).
            and_then (uadd wrote n) (\<lambda>wrote.
              Inr (buf, wrote, child_addrs @ [addr],
                   child_keys @ [if chunk = [] then 0 else ent_name_offset (last chunk)]))))
          (enumerate i0 cs) (buf, wrote, na, nk)
    = Inr (splice buf (sbase + i0 * 328) (concat (map enc_snod cs)), wrote + length cs * 328,
        na @ map (\<lambda>i. sbase + i * 328) [i0..<i0 + length cs],
        nk @ map (\<lambda>c. if c = [] then 0 else ent_name_offset (last c)) cs)"
  using assms
proof (induction cs arbitrary: i0 buf wrote na nk)
  case (Cons c cs)
  let ?f = "\<lambda>(i, chunk) (buf, wrote, child_addrs, child_keys).
            let addr = sbase + i * 328 in
            and_then (write_snod buf addr chunk) (\<lambda>(buf, n).
            and_then (uadd wrote n) (\<lambda>wrote.
              Inr (buf, wrote, child_addrs @ [addr],
                   child_keys @ [if chunk = [] then 0 else ent_name_offset (last chunk)])))"
  let ?k = "if c = [] then 0 else ent_name_offset (last c)"
  have c: "length c \<le> 8" using Cons.prems(1) by simp
  have fit: "sbase + i0 * 328 + 328 \<le> length buf" using Cons.prems(2) by simp
  have le: "length (enc_snod c) = 328" by (rule length_enc_snod[OF c])
  have rest: "length (concat (map enc_snod cs)) = length cs * 328"
    by (subst length_concat_const[where w = 328]) (use Cons.prems(1) in \<open>simp_all add: length_enc_snod\<close>)
  have sp: "splice (splice buf (sbase + i0 * 328) (enc_snod c)) (sbase + Suc i0 * 328) (concat (map enc_snod cs))
      = splice buf (sbase + i0 * 328) (enc_snod c @ concat (map enc_snod cs))"
    using splice_append[of "sbase + i0 * 328" "enc_snod c" _ buf] rest le Cons.prems(2) by (simp add: algebra_simps)
  have step: "?f (i0, c) (buf, wrote, na, nk)
      = Inr (splice buf (sbase + i0 * 328) (enc_snod c), wrote + 328, na @ [sbase + i0 * 328], nk @ [?k])"
    using write_snod_enc[OF c fit] Cons.prems(3) by (simp add: Let_def)
  have "fold_res ?f (enumerate i0 (c # cs)) (buf, wrote, na, nk)
      = fold_res ?f (enumerate (Suc i0) cs)
          (splice buf (sbase + i0 * 328) (enc_snod c), wrote + 328, na @ [sbase + i0 * 328], nk @ [?k])"
    by (simp only: enumerate_simps fold_res.simps step and_then_simps)
  also have "\<dots> = Inr (splice (splice buf (sbase + i0 * 328) (enc_snod c)) (sbase + Suc i0 * 328)
        (concat (map enc_snod cs)),
      wrote + 328 + length cs * 328, (na @ [sbase + i0 * 328]) @ map (\<lambda>i. sbase + i * 328) [Suc i0..<Suc i0 + length cs],
      (nk @ [?k]) @ map (\<lambda>c. if c = [] then 0 else ent_name_offset (last c)) cs)"
    by (rule Cons.IH) (use Cons.prems fit le in simp_all)
  finally have "fold_res ?f (enumerate i0 (c # cs)) (buf, wrote, na, nk) = \<dots>" .
  moreover have "[i0..<i0 + length (c # cs)] = i0 # [Suc i0..<Suc i0 + length cs]"
    by (simp add: upt_conv_Cons del: upt_Suc)
  ultimately show ?case
    unfolding sp by (simp del: upt_Suc fold_res.simps enumerate_simps)
qed simp

section \<open>Round trip\<close>

lemma drop_blocks:
  assumes "\<And>x. x \<in> set xs \<Longrightarrow> length (f x) = w" and "i < length xs"
  shows "\<exists>rest. drop (i * w) (concat (map f xs)) = f (xs ! i) @ rest"
proof -
  have "xs = take i xs @ xs ! i # drop (Suc i) xs" using assms(2) by (simp add: id_take_nth_drop)
  then have "concat (map f xs) = concat (map f (take i xs)) @ f (xs ! i) @ concat (map f (drop (Suc i) xs))"
    by (metis concat.simps(2) concat_append list.simps(9) map_append)
  moreover have "length (concat (map f (take i xs))) = i * w"
    using assms by (subst length_concat_const[where w = w]) (auto dest: in_set_takeD)
  ultimately show ?thesis by simp
qed

text \<open>The symbol table nodes survive every write outside their region.\<close>

lemma snods_parse_back:
  assumes "drop sbase b = concat (map enc_snod cs) @ rest" and "\<forall>c\<in>set cs. length c \<le> 8"
    and "\<forall>c\<in>set cs. \<forall>e\<in>set c. entry_wf e" and "length b < u64_lim"
  shows "map_res (snod_parse b) (map (\<lambda>i. sbase + i * 328) [0..<length cs]) = Inr (map (map read_back) cs)"
proof -
  have "snod_parse b (sbase + i * 328) = Inr (map read_back (cs ! i))" if i: "i < length cs" for i
  proof -
    obtain r where "drop (i * 328) (concat (map enc_snod cs)) = enc_snod (cs ! i) @ r"
      using drop_blocks[of cs enc_snod 328 i] assms(2) i length_enc_snod by blast
    moreover have "i * 328 \<le> length (concat (map enc_snod cs))"
      using i assms(2) by (subst length_concat_const[where w = 328]) (simp_all add: length_enc_snod)
    moreover have "drop (sbase + i * 328) b = drop (i * 328) (drop sbase b)" by (simp add: add.commute)
    ultimately have "drop (sbase + i * 328) b = enc_snod (cs ! i) @ r @ rest" unfolding assms(1) by simp
    moreover have "cs ! i \<in> set cs" using i by simp
    ultimately show ?thesis using assms(2-4) by (intro snod_region) blast+
  qed
  then show ?thesis by (simp add: map_res_Inr_iff list_all2_conv_all_nth)
qed

lemma sym_tab_write_correct:
  assumes plan: "sym_tab_plan (length entries) = Inr t0" and assign: "sym_tab_assign t0 tbase sbase = Inr t"
    and tfit: "tbase + btree_bytes t \<le> length buf" and sfit: "sbase + snod_bytes t \<le> length buf"
    and apart: "sbase + snod_bytes t \<le> tbase \<or> tbase + btree_bytes t \<le> sbase"
    and len: "length buf \<le> isize_max" and wf: "\<forall>e\<in>set entries. entry_wf e"
  shows "\<exists>b groups. sym_tab_write t buf entries = Inr (b, snod_bytes t + btree_bytes t) \<and> length b = length buf
    \<and> btree_parse b (root_addr t) = Inr (map (\<lambda>i. sbase + i * 328) [0..<n_snods t])
    \<and> map_res (snod_parse b) (map (\<lambda>i. sbase + i * 328) [0..<n_snods t]) = Inr groups
    \<and> concat groups = map read_back entries"
proof -
  define cs where "cs = (if chunks 8 entries = [] then [[]] else chunks 8 entries)"
  from plan obtain lv where lv: "plan_levels (max (div_ceil (length entries) 8) 1) = Inr lv"
    and t0: "n_links t0 = length entries" "n_snods t0 = max (div_ceil (length entries) 8) 1" "levels t0 = lv"
    by (auto simp: sym_tab_plan_def Let_def split: if_splits)
  from assign t0 have t: "n_links t = length entries" "n_snods t = max (div_ceil (length entries) 8) 1"
      "levels t = lv" "level_addr t = level_places tbase lv" "snod_base t = sbase"
      "root_addr t = (if lv = [] then tbase else last (level_places tbase lv))"
    by (auto simp: sym_tab_assign_def dest!: level_addresses_InrD)
  let ?n = "n_snods t"
  have chain: "level_chain ?n lv" "lv \<noteq> []" "last lv = 1" "length lv \<le> 8"
    using plan_levels_chain[OF lv] unfolding t(2) by simp_all
  have lcs: "length cs = ?n" using length_chunks[of 8 entries] t(2)
    by (cases "chunks 8 entries") (auto simp: cs_def max_def)
  have cs8: "\<forall>c\<in>set cs. length c \<le> 8" using chunk_length[of _ 8 entries] by (auto simp: cs_def)
  have cat: "concat cs = entries" using concat_chunks[of 8 entries] by (auto simp: cs_def)
  have sb: "snod_bytes t = ?n * 328" "btree_bytes t = sum_list lv * 544" by (simp_all add: snod_bytes_def btree_bytes_def t)
  let ?s = "concat (map enc_snod cs)"
  have ls: "length ?s = ?n * 328"
    by (subst length_concat_const[where w = 328]) (use cs8 lcs in \<open>simp_all add: length_enc_snod\<close>)
  let ?b1 = "splice buf sbase ?s"
  let ?as = "map (\<lambda>i. sbase + i * 328) [0..<?n]"
  let ?ks = "map (\<lambda>c. if c = [] then 0 else ent_name_offset (last c)) cs"
  have small: "sbase + i * 328 < u64_max" if "i < ?n" for i
  proof -
    have "Suc i * 328 \<le> ?n * 328" using that by (intro mult_le_mono1) simp
    then show ?thesis using sfit sb len by simp
  qed
  have l1: "length ?b1 = length buf" using sfit ls sb by simp
  have leaves: "list_all2 (tree_below ?b1 tbase 0) ?as (map (\<lambda>a. [a]) ?as)"
    using small by (fastforce simp: list_all2_conv_all_nth)
  have "\<exists>b' as' ks' lss'. fold_res (\<lambda>(level, base). write_level level base) (enumerate 0 (level_places tbase lv))
        (?b1, 0, ?as, ?ks) = Inr (b', 0 + sum_list lv * 544, as', ks')
    \<and> length b' = length ?b1 \<and> list_all2 (tree_below b' (tbase + sum_list lv * 544) (0 + length lv)) as' lss'
    \<and> concat lss' = concat (map (\<lambda>a. [a]) ?as) \<and> take tbase b' = take tbase ?b1
    \<and> drop (tbase + sum_list lv * 544) b' = drop (tbase + sum_list lv * 544) ?b1
    \<and> (lv \<noteq> [] \<longrightarrow> as' = map (\<lambda>i. last (level_places tbase lv) + i * 544) [0..<last lv])"
    by (rule write_levels_fold)
       (use chain lcs l1 leaves tfit sb len small in \<open>auto simp: less_trans[OF small]\<close>)
  then obtain b2 as2 ks2 lss2 where w: "fold_res (\<lambda>(level, base). write_level level base)
        (enumerate 0 (level_places tbase lv)) (?b1, 0, ?as, ?ks) = Inr (b2, sum_list lv * 544, as2, ks2)"
    and b2: "length b2 = length ?b1" "list_all2 (tree_below b2 (tbase + sum_list lv * 544) (length lv)) as2 lss2"
      "concat lss2 = ?as" "take tbase b2 = take tbase ?b1"
      "drop (tbase + sum_list lv * 544) b2 = drop (tbase + sum_list lv * 544) ?b1"
      "as2 = map (\<lambda>i. last (level_places tbase lv) + i * 544) [0..<last lv]"
    unfolding concat_map_singleton map_ident add_0 using chain(2) by blast
  have as2: "as2 = [root_addr t]" using b2(6) chain(2,3) t(6) by simp
  then obtain ls where "lss2 = [ls]" "tree_below b2 (tbase + sum_list lv * 544) (length lv) (root_addr t) ls"
    using b2(2) by (auto simp: list_all2_Cons1)
  then have "tree_below b2 (tbase + sum_list lv * 544) (Suc (length lv - 1)) (root_addr t) ?as"
    using b2(3) chain(2) by simp
  then have tree: "tree_at b2 (length lv - 1) (root_addr t) ?as"
    by (rule tree_below_tree_at) (use chain(4) in simp)
  have len2: "length b2 < u64_lim" using b2(1) l1 len by simp
  have parse: "btree_parse b2 (root_addr t) = Inr ?as"
    using collect_leaves_tree_at[OF tree len2, of 0 "[]"] chain(4) by (simp add: btree_parse_def)
  have "take (?n * 328) (drop sbase b2) = take (?n * 328) (drop sbase ?b1)"
    using apart
  proof
    assume "tbase + btree_bytes t \<le> sbase"
    then have "drop sbase b2 = drop (sbase - (tbase + sum_list lv * 544)) (drop (tbase + sum_list lv * 544) b2)"
        "drop sbase ?b1 = drop (sbase - (tbase + sum_list lv * 544)) (drop (tbase + sum_list lv * 544) ?b1)"
      using sb by simp_all
    then show ?thesis using b2(5) by simp
  qed (use sb in \<open>simp add: slice_agree[OF b2(4)]\<close>)
  also have "\<dots> = ?s" using splice_slice_same[of sbase ?s buf] sfit sb ls by simp
  finally have "drop sbase b2 = ?s @ drop (?n * 328) (drop sbase b2)" by (metis append_take_drop_id)
  then obtain rest where rest: "drop sbase b2 = ?s @ rest" by blast
  have groups: "map_res (snod_parse b2) ?as = Inr (map (map read_back) cs)"
    using snods_parse_back[OF rest cs8 _ len2] wf lcs cat by fastforce
  have "concat (map (map read_back) cs) = map read_back entries" by (simp add: cat[symmetric] map_concat)
  moreover have "sym_tab_write t buf entries = Inr (b2, snod_bytes t + btree_bytes t)"
  proof -
    have fit: "sbase + (0 + length cs) * 328 \<le> length buf" "0 + length cs * 328 < u64_lim"
      using sfit sb lcs len by simp_all
    have "uadd (length cs * 328) (sum_list lv * 544) = Inr (length cs * 328 + sum_list lv * 544)"
      using sfit tfit sb lcs len by simp
    then show ?thesis
      using write_snods_fold[OF cs8 fit, of "[]" "[]"] w lcs
      by (simp add: sym_tab_write_def t(1,4,5) cs_def[symmetric] Let_def write_levels_def sb)
  qed
  ultimately show ?thesis using parse groups b2(1) l1
    by (intro exI[of _ b2] exI[of _ "map (map read_back) cs"] conjI) simp_all
qed

text \<open>
  C1. What the writer writes the reader reads: the symbol table of a group with any list of
  links, planned, placed in any two disjoint regions of the file and emitted, fills exactly the
  bytes it reserved; walking its B-tree from the root address finds every symbol table node in
  order, and parsing those nodes gives back every link in order with its kind and addresses.
\<close>

theorem sym_tab_round_trip:
  assumes "sym_tab_plan (length entries) = Inr t0" and "sym_tab_assign t0 tbase sbase = Inr t"
    and "tbase + btree_bytes t \<le> length buf" and "sbase + snod_bytes t \<le> length buf"
    and "sbase + snod_bytes t \<le> tbase \<or> tbase + btree_bytes t \<le> sbase"
    and "length buf \<le> isize_max" and "\<forall>e\<in>set entries. entry_wf e"
  shows "\<exists>b addrs groups. sym_tab_write t buf entries = Inr (b, snod_bytes t + btree_bytes t)
    \<and> length b = length buf \<and> btree_parse b (root_addr t) = Inr addrs
    \<and> map_res (snod_parse b) addrs = Inr groups \<and> concat groups = map read_back entries"
  using sym_tab_write_correct[OF assms] by blast

theorem sym_tab_round_trip_witness:
  "\<exists>t0 t b addrs groups. sym_tab_plan 1 = Inr t0 \<and> sym_tab_assign t0 0 544 = Inr t
    \<and> sym_tab_write t (replicate 872 0) [\<lparr>ent_name_offset = 8, ent_value = SnodObject 96\<rparr>] = Inr (b, 872)
    \<and> btree_parse b (root_addr t) = Inr addrs \<and> map_res (snod_parse b) addrs = Inr groups
    \<and> concat groups = [\<lparr>name_offset = 8, object_header_address = 96, cache = CacheNone\<rparr>]"
proof -
  let ?planned = "\<lparr>n_links = 1, n_snods = 1, levels = [1], level_addr = [0], root_addr = 0, snod_base = 0\<rparr>"
  let ?t = "\<lparr>n_links = 1, n_snods = 1, levels = [1], level_addr = [0], root_addr = 0, snod_base = 544\<rparr>"
  have p: "sym_tab_plan 1 = Inr ?planned"
    by (simp add: sym_tab_plan_def plan_levels_def div_ceil_def Let_def plan_levels_loop.simps[of "Suc 0"])
  have a: "sym_tab_assign ?planned 0 544 = Inr ?t" by (simp add: sym_tab_assign_def)
  let ?e = "\<lparr>ent_name_offset = 8, ent_value = SnodObject 96\<rparr>"
  have "\<exists>b addrs groups. sym_tab_write ?t (replicate 872 0) [?e] = Inr (b, snod_bytes ?t + btree_bytes ?t)
    \<and> length b = length (replicate 872 (0 :: byte)) \<and> btree_parse b (root_addr ?t) = Inr addrs
    \<and> map_res (snod_parse b) addrs = Inr groups \<and> concat groups = map read_back [?e]"
    by (rule sym_tab_round_trip[OF _ a]) (use p in \<open>simp_all add: btree_bytes_def snod_bytes_def entry_wf_def\<close>)
  then obtain b addrs groups where "sym_tab_write ?t (replicate 872 0) [?e] = Inr (b, 872)"
      "btree_parse b (root_addr ?t) = Inr addrs" "map_res (snod_parse b) addrs = Inr groups"
      "concat groups = map read_back [?e]"
    by (auto simp: btree_bytes_def snod_bytes_def)
  with p a show ?thesis by (intro exI[of _ ?planned] exI[of _ ?t] exI[of _ b] exI[of _ addrs] exI[of _ groups])
    (simp add: read_back_def)
qed

end
