(* ===== verification/Checksum.thy ===== *)
theory Checksum
  imports Prelude
begin

text \<open>
  \<^verbatim>\<open>oxih5/src/write/checksum.rs\<close>: Jenkins lookup3 over 32-bit words, which is both the
  checksum of every version-2 metadata structure and the hash a link name is indexed by. The
  code calls its mixing step reversible; the inverse is given here and proved.
\<close>

unbundle bit_operations_syntax

section \<open>Mixing\<close>

definition rot :: "32 word \<Rightarrow> nat \<Rightarrow> 32 word" where
  "rot x k = push_bit k x OR drop_bit (32 - k) x"

definition mix :: "32 word \<times> 32 word \<times> 32 word \<Rightarrow> 32 word \<times> 32 word \<times> 32 word" where
  "mix = (\<lambda>(a, b, c).
     let a = a - c; a = a XOR rot c 4; c = c + b;
         b = b - a; b = b XOR rot a 6; a = a + c;
         c = c - b; c = c XOR rot b 8; b = b + a;
         a = a - c; a = a XOR rot c 16; c = c + b;
         b = b - a; b = b XOR rot a 19; a = a + c;
         c = c - b; c = c XOR rot b 4; b = b + a
     in (a, b, c))"

definition last_mix :: "32 word \<Rightarrow> 32 word \<Rightarrow> 32 word \<Rightarrow> 32 word" where
  "last_mix a b c =
     (let c = c XOR b; c = c - rot b 14;
          a = a XOR c; a = a - rot c 11;
          b = b XOR a; b = b - rot a 25;
          c = c XOR b; c = c - rot b 16;
          a = a XOR c; a = a - rot c 4;
          b = b XOR a; b = b - rot a 14;
          c = c XOR b; c = c - rot b 24
      in c)"

text \<open>Up to four bytes, little-endian; the loop ORs each byte at its shift.\<close>

definition le_word :: "bytes \<Rightarrow> 32 word" where
  "le_word bytes = foldl (\<lambda>word (i, byte). word OR push_bit (8 * i) (ucast byte)) 0 (enumerate 0 (take 4 bytes))"

section \<open>lookup3\<close>

text \<open>The loop takes twelve bytes while more than twelve are left.\<close>

function lookup3_loop :: "bytes \<Rightarrow> 32 word \<times> 32 word \<times> 32 word \<Rightarrow> bytes \<times> 32 word \<times> 32 word \<times> 32 word" where
  "lookup3_loop rest (a, b, c) =
     (if length rest > 12 then
        lookup3_loop (drop 12 rest)
          (mix (a + le_word (take 4 rest), b + le_word (take 4 (drop 4 rest)), c + le_word (take 4 (drop 8 rest))))
      else (rest, a, b, c))"
  by pat_completeness auto
termination
  by (relation "measure (\<lambda>(rest, s). length rest)") auto

declare lookup3_loop.simps [simp del]

definition lookup3 :: "bytes \<Rightarrow> 32 word \<Rightarrow> 32 word" where
  "lookup3 key initval =
     (let seed = 0xdeadbeef + word_of_nat (length key) + initval in
      case lookup3_loop key (seed, seed, seed) of (rest, a, b, c) \<Rightarrow>
        if rest = [] then c
        else
          let c = (if length rest > 8 then c + le_word (drop 8 rest) else c);
              b = (if length rest > 4 then b + le_word (drop 4 rest) else b);
              a = a + le_word rest
          in last_mix a b c)"

definition metadata_checksum :: "bytes \<Rightarrow> 32 word" where
  "metadata_checksum bytes = lookup3 bytes 0"

definition link_name_hash :: "str \<Rightarrow> 32 word" where
  "link_name_hash name = lookup3 name 0"

section \<open>Properties\<close>

definition unmix :: "32 word \<times> 32 word \<times> 32 word \<Rightarrow> 32 word \<times> 32 word \<times> 32 word" where
  "unmix = (\<lambda>(a, b, c).
     let b = b - a; c = c XOR rot b 4; c = c + b;
         a = a - c; b = b XOR rot a 19; b = b + a;
         c = c - b; a = a XOR rot c 16; a = a + c;
         b = b - a; c = c XOR rot b 8; c = c + b;
         a = a - c; b = b XOR rot a 6; b = b + a;
         c = c - b; a = a XOR rot c 4; a = a + c
     in (a, b, c))"

lemma mix_unmix: "mix (unmix s) = s"
  by (cases s) (simp add: mix_def unmix_def Let_def xor.assoc)

lemma unmix_mix: "unmix (mix s) = s"
proof -
  have "surj mix" by (metis mix_unmix surjI)
  then have "inj mix" by (intro finite_UNIV_surj_inj) simp
  then show ?thesis by (metis mix_unmix injD)
qed

lemma unat_or_push:
  assumes "unat x < 2 ^ k" and "k \<le> 24"
  shows "unat (x OR push_bit k (ucast (b :: byte)) :: 32 word) = unat x + 2 ^ k * unat b"
proof -
  have "unat b * 2 ^ k < 256 * 2 ^ k" by simp
  also have "(256 :: nat) * 2 ^ k \<le> 256 * 2 ^ 24" using assms(2) by (intro mult_le_mono2 power_increasing) auto
  finally have "unat (push_bit k (ucast b) :: 32 word) = push_bit k (unat b)"
    by (simp add: unsigned_push_bit_eq push_bit_nat_def take_bit_nat_eq_self)
  then show ?thesis
    using or_disjoint_nat[OF assms(1), of "unat b"] by (simp add: unsigned_or_eq or.commute)
qed

lemma unat_le_word_fold:
  assumes "unat acc < 2 ^ (8 * n)" and "n + length bs \<le> 4"
  shows "unat (foldl (\<lambda>word (i, byte). word OR push_bit (8 * i) (ucast byte)) acc (enumerate n bs) :: 32 word)
    = unat acc + 2 ^ (8 * n) * from_le (bs :: bytes)"
  using assms
proof (induction bs arbitrary: n acc)
  case (Cons b bs)
  let ?acc = "acc OR push_bit (8 * n) (ucast b) :: 32 word"
  have u: "unat ?acc = unat acc + 2 ^ (8 * n) * unat b"
    by (rule unat_or_push[OF Cons.prems(1)]) (use Cons.prems(2) in simp)
  have "2 ^ (8 * n) * unat b \<le> 2 ^ (8 * n) * 255"
    by (intro mult_le_mono2) (use unat_byte_less[of b] in linarith)
  then have "unat ?acc < 2 ^ (8 * Suc n)"
  proof -
    have "(2 :: nat) ^ (8 * Suc n) = 256 * 2 ^ (8 * n)" by (simp add: power_add)
    then show ?thesis
      using u Cons.prems(1) \<open>2 ^ (8 * n) * unat b \<le> 2 ^ (8 * n) * 255\<close> by linarith
  qed
  with Cons.IH[OF this] Cons.prems(2) u show ?case
    by (simp add: power_add algebra_simps)
qed simp

lemma unat_le_word: "unat (le_word bs) = from_le (take 4 bs)"
  using unat_le_word_fold[of 0 0 "take 4 bs"] by (simp add: le_word_def)

text \<open>The blocks as the loop consumes them: full blocks of twelve bytes, then the tail.\<close>

lemma lookup3_loop_step:
  "length blk = 12 \<Longrightarrow> rest \<noteq> [] \<Longrightarrow>
   lookup3_loop (blk @ rest) (a, b, c) =
     lookup3_loop rest (mix (a + le_word (take 4 blk), b + le_word (take 4 (drop 4 blk)), c + le_word (take 4 (drop 8 blk))))"
  by (subst lookup3_loop.simps) simp

lemma lookup3_loop_tail: "fst (lookup3_loop rest s) = drop (12 * ((length rest - 1) div 12)) rest"
proof (induction rest s rule: lookup3_loop.induct)
  case (1 rest a b c)
  show ?case
  proof (cases "length rest > 12")
    case True
    then have "(length rest - 1) div 12 = Suc ((length rest - 12 - 1) div 12)"
      by (simp add: le_div_geq)
    with 1 True show ?thesis by (subst lookup3_loop.simps) (simp add: add.commute)
  qed (simp add: lookup3_loop.simps)
qed

lemma le_word_inj: "length xs = 4 \<Longrightarrow> length ys = 4 \<Longrightarrow> le_word xs = le_word ys \<Longrightarrow> xs = ys"
  using unat_le_word[of xs] unat_le_word[of ys] by (simp add: from_le_inj)

text \<open>
  The mixing step loses nothing: two different twelve-byte blocks absorbed into the same state
  leave different states, and so do two different states that absorb the same bytes.
\<close>

lemma mix_reversible:
  assumes "length xs = 12" and "length ys = 12"
    and "mix (a + le_word (take 4 xs), b + le_word (take 4 (drop 4 xs)), c + le_word (take 4 (drop 8 xs)))
       = mix (a + le_word (take 4 ys), b + le_word (take 4 (drop 4 ys)), c + le_word (take 4 (drop 8 ys)))"
  shows "xs = ys"
proof -
  have "(a + le_word (take 4 xs), b + le_word (take 4 (drop 4 xs)), c + le_word (take 4 (drop 8 xs)))
      = (a + le_word (take 4 ys), b + le_word (take 4 (drop 4 ys)), c + le_word (take 4 (drop 8 ys)))"
    using assms(3) by (metis unmix_mix)
  then have "take 4 xs = take 4 ys" "take 4 (drop 4 xs) = take 4 (drop 4 ys)" "take 4 (drop 8 xs) = take 4 (drop 8 ys)"
    using assms(1,2) by (auto intro: le_word_inj)
  moreover have "zs = take 4 zs @ take 4 (drop 4 zs) @ take 4 (drop 8 zs)" if "length zs = 12" for zs :: bytes
  proof -
    have "take 4 (drop 8 zs) = drop 8 zs" "drop 4 (drop 4 zs) = drop 8 zs" using that by simp_all
    then show ?thesis by (metis append_take_drop_id)
  qed
  ultimately show ?thesis using assms(1,2) by metis
qed

lemma mix_inj: "mix s = mix t \<Longrightarrow> s = t"
  by (metis unmix_mix)

lemma lookup3_loop_inj: "lookup3_loop rest s = lookup3_loop rest t \<Longrightarrow> s = t"
proof (induction rest s arbitrary: t rule: lookup3_loop.induct)
  case (1 rest a b c)
  obtain a' b' c' where t: "t = (a', b', c')" by (cases t)
  show ?case
  proof (cases "length rest > 12")
    case True
    then have "lookup3_loop (drop 12 rest) (mix (a + le_word (take 4 rest), b + le_word (take 4 (drop 4 rest)), c + le_word (take 4 (drop 8 rest))))
        = lookup3_loop (drop 12 rest) (mix (a' + le_word (take 4 rest), b' + le_word (take 4 (drop 4 rest)), c' + le_word (take 4 (drop 8 rest))))"
      using "1.prems" t by (simp add: lookup3_loop.simps[of rest])
    from mix_inj[OF "1.IH"[OF True this]] show ?thesis by (simp add: t)
  qed (use "1.prems" t in \<open>simp add: lookup3_loop.simps[of rest]\<close>)
qed

lemma lookup3_loop_block:
  "length x = 12 \<Longrightarrow> s \<noteq> [] \<Longrightarrow> lookup3_loop (x @ s) (a, b, c) =
    lookup3_loop s (mix (a + le_word (take 4 x), b + le_word (take 4 (drop 4 x)), c + le_word (take 4 (drop 8 x))))"
  by (simp add: lookup3_loop.simps[of "x @ s"])

lemma lookup3_loop_prefix:
  assumes "12 dvd length p"
  shows "\<exists>st'. \<forall>s. s \<noteq> [] \<longrightarrow> lookup3_loop (p @ s) st = lookup3_loop s st'"
  using assms
proof (induction "length p div 12" arbitrary: p st)
  case 0
  then have "p = []" by (auto simp: dvd_def)
  then show ?case by (intro exI[of _ st]) simp
next
  case (Suc n)
  let ?x = "take 12 p" and ?q = "drop 12 p"
  have len: "length ?x = 12" "12 \<le> length p" using Suc(2) by simp_all
  have q: "n = length ?q div 12" "12 dvd length ?q" using Suc(2,3) len(2) by (simp_all add: le_div_geq dvd_minus_self)
  obtain a b c where st: "st = (a, b, c)" by (cases st)
  have app: "p @ s = ?x @ (?q @ s)" for s by (simp flip: append_assoc)
  show ?case using Suc(1)[OF q] by (simp add: app lookup3_loop_block[OF len(1)] st)
qed

text \<open>
  A checksum over a metadata block notices every corruption confined to one aligned block
  of twelve bytes: two keys of equal length that differ in one block of the main loop reach
  different 96-bit states before the final avalanche, whatever precedes and follows the block.
\<close>

theorem lookup3_block_detected:
  assumes "12 dvd length pre" and "length x = 12" and "length y = 12" and "post \<noteq> []"
    and "x \<noteq> y"
  shows "lookup3_loop (pre @ x @ post) (seed, seed, seed) \<noteq> lookup3_loop (pre @ y @ post) (seed, seed, seed)"
proof
  assume eq: "lookup3_loop (pre @ x @ post) (seed, seed, seed) = lookup3_loop (pre @ y @ post) (seed, seed, seed)"
  obtain a b c where st: "\<forall>s. s \<noteq> [] \<longrightarrow> lookup3_loop (pre @ s) (seed, seed, seed) = lookup3_loop s (a, b, c)"
    using lookup3_loop_prefix[OF assms(1), of "(seed, seed, seed)"] by (metis prod_cases3)
  then have "lookup3_loop (x @ post) (a, b, c) = lookup3_loop (y @ post) (a, b, c)" using eq assms(4) by simp
  then have "x = y"
    by (intro mix_reversible[OF assms(2,3)] lookup3_loop_inj[of post]) (simp add: lookup3_loop_block assms)
  with assms(5) show False ..
qed

theorem lookup3_block_detected_witness:
  "lookup3_loop (replicate 12 1 @ replicate 12 2 @ [3]) (9, 9, 9) \<noteq> lookup3_loop (replicate 12 1 @ replicate 12 4 @ [3]) (9, 9, 9)"
  by (rule lookup3_block_detected) simp_all

text \<open>Two published vectors, the empty key and the bytes of \<^verbatim>\<open>link\<close>, evaluated on the model.\<close>

lemma lookup3_empty: "lookup3 [] 0 = 0xdeadbeef"
  by (simp add: lookup3_def lookup3_loop.simps Let_def)

lemma lookup3_link: "lookup3 [0x6c, 0x69, 0x6e, 0x6b] 0 = 0x6d39ddcf"
proof -
  have "lookup3 [0x6c, 0x69, 0x6e, 0x6b] 0 = last_mix (0xdeadbeef + 4 + 0x6b6e696c) (0xdeadbeef + 4) (0xdeadbeef + 4)"
    by (simp add: lookup3_def lookup3_loop.simps Let_def le_word_def)
  also have "\<dots> = 0x6d39ddcf" by (simp add: last_mix_def rot_def Let_def)
  finally show ?thesis .
qed

end
