(* ===== verification/Chunk_BTree.thy ===== *)
theory Chunk_BTree
  imports Byte_Fields
begin

text \<open>
  \<^verbatim>\<open>oxih5-format/src/btree_v1_chunk.rs\<close>: the version-1 B-tree that indexes the chunks of a
  dataset. Same shape of node as the group tree, with a key of \<open>8 + (ndims + 1) * 8\<close> bytes
  before every child; every offset is formed with checked arithmetic.
\<close>

record chunk_record =
  rec_address :: nat
  rec_size :: nat
  rec_filter_mask :: nat
  rec_offsets :: "nat list"

abbreviation (input) UNDEF :: nat where "UNDEF \<equiv> u64_max"

definition sig_TREE1 :: bytes where
  "sig_TREE1 = [0x54, 0x52, 0x45, 0x45]"

definition read_u32 :: "bytes \<Rightarrow> nat \<Rightarrow> nat res" where
  "read_u32 data off =
     and_then (uadd off 4) (\<lambda>e. and_then (ok_or (get_range data off e) Format) (\<lambda>b. Inr (from_le b)))"

definition read_u64 :: "bytes \<Rightarrow> nat \<Rightarrow> nat res" where
  "read_u64 data off =
     and_then (uadd off 8) (\<lambda>e. and_then (ok_or (get_range data off e) Format) (\<lambda>b. Inr (from_le b)))"

definition parse_chunk_key :: "bytes \<Rightarrow> nat \<Rightarrow> nat \<Rightarrow> nat \<Rightarrow> chunk_record res" where
  "parse_chunk_key file_data key_off ndims address =
     and_then (ok_or (checked_add key_off 8) Format) (\<lambda>header_end.
       if header_end > length file_data then Inl Format
       else
         and_then (read_u32 file_data key_off) (\<lambda>sz.
         and_then (read_u32 file_data (key_off + 4)) (\<lambda>filter_mask.
         and_then (map_res (\<lambda>d.
             and_then (ok_or (Option.bind (checked_mul d 8) (\<lambda>p. checked_add p header_end)) Format) (\<lambda>pos.
             and_then (ok_or (checked_add pos 8) Format) (\<lambda>pos_end.
               if pos_end > length file_data then Inl Format else read_u64 file_data pos)))
           [0..<ndims]) (\<lambda>offsets.
           Inr \<lparr>rec_address = address, rec_size = sz, rec_filter_mask = filter_mask, rec_offsets = offsets\<rparr>))))"

text \<open>The header of a node: the end of its fixed part, its level and its number of entries.\<close>

definition chunk_node :: "bytes \<Rightarrow> nat \<Rightarrow> (nat \<times> byte \<times> nat) res" where
  "chunk_node file_data off =
     and_then (ok_or (checked_add off 24) Format) (\<lambda>node_end.
       if node_end > length file_data then Inl Format
       else
         and_then (slice file_data off (off + 4)) (\<lambda>sig.
           if sig \<noteq> sig_TREE1 then Inl Format
           else
             and_then (index file_data (off + 4)) (\<lambda>node_type.
               if node_type \<noteq> 1 then Inl Format
               else
                 and_then (index file_data (off + 5)) (\<lambda>level.
                 and_then (index file_data (off + 6)) (\<lambda>lo.
                 and_then (index file_data (off + 7)) (\<lambda>hi.
                   Inr (node_end, level, from_le [lo, hi])))))))"

text \<open>
  The offset of key \<open>i\<close> and the child address behind it. \<open>ndims\<close> comes from a single byte of
  the file, so the key size itself cannot overflow.
\<close>

definition chunk_entry :: "bytes \<Rightarrow> nat \<Rightarrow> nat \<Rightarrow> nat \<Rightarrow> (nat \<times> nat) res" where
  "chunk_entry file_data node_end ndims i =
     (let key_size = 8 + (ndims + 1) * 8; stride = key_size + 8 in
      and_then (ok_or (Option.bind (checked_mul i stride) (\<lambda>p. checked_add p node_end)) Format) (\<lambda>key_off.
      and_then (ok_or (checked_add key_off key_size) Format) (\<lambda>child_off.
      and_then (ok_or (checked_add child_off 8) Format) (\<lambda>child_end.
        if child_end > length file_data then Inl Format
        else and_then (read_u64 file_data child_off) (\<lambda>child_addr. Inr (key_off, child_addr))))))"

function collect :: "bytes \<Rightarrow> nat \<Rightarrow> nat \<Rightarrow> chunk_record list \<Rightarrow> nat \<Rightarrow> chunk_record list res" where
  "collect file_data node_address ndims out depth =
     (if node_address = UNDEF then Inr out
      else if depth > 64 then Inl Format
      else
        and_then (chunk_node file_data node_address) (\<lambda>(node_end, level, entries_used).
          fold_res (\<lambda>i out.
            and_then (chunk_entry file_data node_end ndims i) (\<lambda>(key_off, child_addr).
              if level = 0 then
                and_then (parse_chunk_key file_data key_off ndims child_addr) (\<lambda>rec.
                  if rec_address rec \<noteq> UNDEF then Inr (out @ [rec]) else Inr out)
              else collect file_data child_addr ndims out (depth + 1)))
            [0..<entries_used] out))"
  by pat_completeness auto
termination
  by (relation "measure (\<lambda>(file_data, node_address, ndims, out, depth). 65 - depth)") auto

declare collect.simps [simp del]

definition chunk_btree_parse :: "bytes \<Rightarrow> nat \<Rightarrow> nat \<Rightarrow> chunk_record list res" where
  "chunk_btree_parse file_data btree_address ndims = collect file_data btree_address ndims [] 0"

section \<open>Readers\<close>

lemma read_u32_eq:
  "read_u32 d off = (if off + 4 \<ge> u64_lim then Inl Panic else if off + 4 > length d then Inl Format else Inr (field 4 d off))"
  by (auto simp: read_u32_def uadd_def get_range_def field_def)

lemma read_u64_eq:
  "read_u64 d off = (if off + 8 \<ge> u64_lim then Inl Panic else if off + 8 > length d then Inl Format else Inr (field 8 d off))"
  by (auto simp: read_u64_def uadd_def get_range_def field_def)

lemma no_panic_read_chunk [simp]:
  "no_panic (read_u32 d off) \<longleftrightarrow> off + 4 < u64_lim"
  "no_panic (read_u64 d off) \<longleftrightarrow> off + 8 < u64_lim"
  by (auto simp: read_u32_eq read_u64_eq)

lemma read_chunk_Inr_iff [simp]:
  "read_u32 d off = Inr v \<longleftrightarrow> off + 4 < u64_lim \<and> off + 4 \<le> length d \<and> v = field 4 d off"
  "read_u64 d off = Inr v \<longleftrightarrow> off + 8 < u64_lim \<and> off + 8 \<le> length d \<and> v = field 8 d off"
  by (auto simp: read_u32_eq read_u64_eq)

lemma parse_chunk_key_no_panic:
  assumes "length d < u64_lim"
  shows "no_panic (parse_chunk_key d key_off ndims address)"
  unfolding parse_chunk_key_def
  using assms by (auto intro!: no_panic_and_then map_res_no_panic)

lemma parse_chunk_key_address: "parse_chunk_key d k n a = Inr r \<Longrightarrow> rec_address r = a"
  by (auto simp: parse_chunk_key_def split: if_splits)

lemma chunk_node_no_panic: "no_panic (chunk_node d a)"
  by (auto simp: chunk_node_def intro!: no_panic_and_then)

lemma chunk_entry_no_panic: "length d < u64_lim \<Longrightarrow> no_panic (chunk_entry d e n i)"
  by (auto simp: chunk_entry_def Let_def intro!: no_panic_and_then)

lemma collect_no_panic:
  assumes "length d < u64_lim"
  shows "no_panic (collect d a ndims out depth)"
  using assms
proof (induction d a ndims out depth rule: collect.induct)
  case (1 d a ndims out depth)
  show ?case
  proof (cases "a = UNDEF \<or> depth > 64")
    case False
    have "no_panic (fold_res (\<lambda>i out.
            and_then (chunk_entry d node_end ndims i) (\<lambda>(key_off, child_addr).
              if level = 0 then
                and_then (parse_chunk_key d key_off ndims child_addr) (\<lambda>rec.
                  if rec_address rec \<noteq> UNDEF then Inr (out @ [rec]) else Inr out)
              else collect d child_addr ndims out (depth + 1))) [0..<n] out)"
      if n: "chunk_node d a = Inr (node_end, level, n)" for node_end level n
    proof (rule fold_res_no_panic[where P = "\<lambda>_. True"])
      fix i and s :: "chunk_record list" assume i: "i \<in> set [0..<n]"
      have "no_panic (collect d c ndims s (depth + 1))" if "chunk_entry d node_end ndims i = Inr (k, c)" "level \<noteq> 0" for k c
        by (rule "1.IH"[OF _ _ n refl refl i that(1) refl]) (use False that(2) "1.prems" in auto)
      then show "no_panic (and_then (chunk_entry d node_end ndims i) (\<lambda>(key_off, child_addr).
              if level = 0 then
                and_then (parse_chunk_key d key_off ndims child_addr) (\<lambda>rec.
                  if rec_address rec \<noteq> UNDEF then Inr (s @ [rec]) else Inr s)
              else collect d child_addr ndims s (depth + 1)))"
        using "1.prems" by (auto intro!: no_panic_and_then chunk_entry_no_panic parse_chunk_key_no_panic)
    qed simp_all
    with False show ?thesis
      by (subst collect.simps) (auto intro!: no_panic_and_then chunk_node_no_panic)
  qed (auto simp: collect.simps)
qed

text \<open>
  The chunk index never panics and always returns, whatever the file holds: an address
  near \<open>2 ^ 64\<close>, a cycle, a truncated key or a foreign node ends in a typed error.
\<close>

theorem chunk_btree_never_panics:
  assumes "length file_data \<le> isize_max"
  shows "chunk_btree_parse file_data btree_address ndims \<noteq> Inl Panic"
  using collect_no_panic[of file_data btree_address ndims "[]" 0] assms
  by (simp add: chunk_btree_parse_def no_panic_def)

theorem chunk_btree_never_panics_witness: "chunk_btree_parse [1, 2, 3] 18446744073709551600 2 \<noteq> Inl Panic"
  by (rule chunk_btree_never_panics) simp

section \<open>The index in the file\<close>

definition chunk_header :: "bytes \<Rightarrow> nat \<Rightarrow> nat \<Rightarrow> byte \<Rightarrow> nat \<Rightarrow> bool" where
  "chunk_header d ndims a level n \<longleftrightarrow>
     a < UNDEF \<and> a + 24 + n * (24 + ndims * 8) \<le> length d \<and> 24 + a \<le> length d \<and> take 4 (drop a d) = sig_TREE1
     \<and> d ! (a + 4) = 1 \<and> d ! (a + 5) = level \<and> field 2 d (a + 6) = n"

definition key_at :: "nat \<Rightarrow> nat \<Rightarrow> nat \<Rightarrow> nat" where
  "key_at ndims a i = a + 24 + i * (24 + ndims * 8)"

definition chunk_child :: "bytes \<Rightarrow> nat \<Rightarrow> nat \<Rightarrow> nat \<Rightarrow> nat" where
  "chunk_child d ndims a i = field 8 d (key_at ndims a i + 16 + ndims * 8)"

definition record_at :: "bytes \<Rightarrow> nat \<Rightarrow> nat \<Rightarrow> nat \<Rightarrow> chunk_record" where
  "record_at d ndims a i = \<lparr>rec_address = chunk_child d ndims a i, rec_size = field 4 d (key_at ndims a i),
     rec_filter_mask = field 4 d (key_at ndims a i + 4),
     rec_offsets = map (\<lambda>k. field 8 d (key_at ndims a i + 8 + k * 8)) [0..<ndims]\<rparr>"

inductive chunk_tree :: "bytes \<Rightarrow> nat \<Rightarrow> nat \<Rightarrow> nat \<Rightarrow> chunk_record list \<Rightarrow> bool" for d ndims where
  empty: "chunk_tree d ndims h UNDEF []"
| leaf: "chunk_header d ndims a 0 n \<Longrightarrow>
     rs = filter (\<lambda>r. rec_address r \<noteq> UNDEF) (map (record_at d ndims a) [0..<n]) \<Longrightarrow> chunk_tree d ndims h a rs"
| node: "chunk_header d ndims a level n \<Longrightarrow> level \<noteq> 0 \<Longrightarrow>
     list_all2 (chunk_tree d ndims h) (map (chunk_child d ndims a) [0..<n]) rss \<Longrightarrow>
     chunk_tree d ndims (Suc h) a (concat rss)"

lemma chunk_node_ok:
  assumes "chunk_header d ndims a level n" and "length d < u64_lim"
  shows "chunk_node d a = Inr (a + 24, level, n)"
proof -
  have "field 2 d (a + 6) = from_le [d ! (a + 6), d ! (a + 7)]"
  proof -
    have "a + 8 \<le> length d" using assms by (simp add: chunk_header_def)
    then have "take 2 (drop (a + 6) d) = [d ! (a + 6), d ! (a + 7)]"
      by (intro nth_equalityI) (auto simp: less_Suc_eq numeral_2_eq_2 add.commute)
    then show ?thesis by (simp add: field_def)
  qed
  with assms show ?thesis
    by (auto simp: chunk_node_def chunk_header_def)
qed

lemma chunk_entry_ok:
  assumes "chunk_header d ndims a level n" and "i < n" and "length d < u64_lim"
  shows "chunk_entry d (a + 24) ndims i = Inr (key_at ndims a i, chunk_child d ndims a i)"
    and "key_at ndims a i + 24 + ndims * 8 \<le> length d"
proof -
  have "Suc i * (24 + ndims * 8) \<le> n * (24 + ndims * 8)" using assms(2) by (intro mult_le_mono1) simp
  then show b: "key_at ndims a i + 24 + ndims * 8 \<le> length d"
    using assms(1) by (simp add: chunk_header_def key_at_def)
  then show "chunk_entry d (a + 24) ndims i = Inr (key_at ndims a i, chunk_child d ndims a i)"
    using assms(3) by (simp add: chunk_entry_def Let_def key_at_def chunk_child_def read_u64_eq algebra_simps)
qed

lemma parse_chunk_key_ok:
  assumes "chunk_header d ndims a level n" and "i < n" and "length d < u64_lim"
  shows "parse_chunk_key d (key_at ndims a i) ndims (chunk_child d ndims a i) = Inr (record_at d ndims a i)"
proof -
  let ?k = "key_at ndims a i"
  have b: "?k + 24 + ndims * 8 \<le> length d" by (rule chunk_entry_ok[OF assms])
  have "map_res (\<lambda>j. and_then (ok_or (Option.bind (checked_mul j 8) (\<lambda>p. checked_add p (?k + 8))) Format) (\<lambda>pos.
          and_then (ok_or (checked_add pos 8) Format) (\<lambda>pos_end.
            if pos_end > length d then Inl Format else read_u64 d pos))) [0..<ndims]
      = Inr (map (\<lambda>k. field 8 d (?k + 8 + k * 8)) [0..<ndims])"
  proof (rule map_res_total)
    fix j assume "j \<in> set [0..<ndims]"
    then have "Suc j * 8 \<le> ndims * 8" by (intro mult_le_mono1) simp
    then show "and_then (ok_or (Option.bind (checked_mul j 8) (\<lambda>p. checked_add p (?k + 8))) Format) (\<lambda>pos.
          and_then (ok_or (checked_add pos 8) Format) (\<lambda>pos_end.
            if pos_end > length d then Inl Format else read_u64 d pos)) = Inr (field 8 d (?k + 8 + j * 8))"
      using b assms(3) by (simp add: read_u64_eq algebra_simps)
  qed
  then show ?thesis using b assms(3) by (simp add: parse_chunk_key_def record_at_def read_u32_eq)
qed

lemma collect_leaf_entries:
  assumes "chunk_header d ndims a 0 n" and "length d < u64_lim" and "set is \<subseteq> {..<n}"
  shows "fold_res (\<lambda>i out.
            and_then (chunk_entry d (a + 24) ndims i) (\<lambda>(key_off, child_addr).
              if (0 :: byte) = 0 then
                and_then (parse_chunk_key d key_off ndims child_addr) (\<lambda>rec.
                  if rec_address rec \<noteq> UNDEF then Inr (out @ [rec]) else Inr out)
              else collect d child_addr ndims out (depth + 1))) is out
    = Inr (out @ filter (\<lambda>r. rec_address r \<noteq> UNDEF) (map (record_at d ndims a) is))"
  using assms(3)
proof (induction "is" arbitrary: out)
  case (Cons i "is")
  then show ?case
    using chunk_entry_ok(1)[OF assms(1) _ assms(2), of i] parse_chunk_key_ok[OF assms(1) _ assms(2), of i] by simp
qed simp

lemma collect_chunk_tree:
  assumes "chunk_tree d ndims h a rs" and "length d < u64_lim"
  shows "depth + h \<le> 64 \<Longrightarrow> collect d a ndims out depth = Inr (out @ rs)"
  using assms
proof (induction arbitrary: depth out rule: chunk_tree.induct)
  case (leaf a n rs h)
  have "a \<noteq> UNDEF" using leaf.hyps(1) by (simp add: chunk_header_def)
  with leaf chunk_node_ok[OF leaf.hyps(1) assms(2)] collect_leaf_entries[OF leaf.hyps(1) assms(2), of "[0..<n]" depth out]
  show ?case by (subst collect.simps) (simp add: lessThan_atLeast0)
next
  case (node a level n h rss)
  have a: "a \<noteq> UNDEF" using node.hyps(1) by (simp add: chunk_header_def)
  have "fold_res (\<lambda>i out.
            and_then (chunk_entry d (a + 24) ndims i) (\<lambda>(key_off, child_addr).
              if level = 0 then
                and_then (parse_chunk_key d key_off ndims child_addr) (\<lambda>rec.
                  if rec_address rec \<noteq> UNDEF then Inr (out @ [rec]) else Inr out)
              else collect d child_addr ndims out (depth + 1))) is out = Inr (out @ concat rss')"
    if "list_all2 (\<lambda>i rs. chunk_tree d ndims h (chunk_child d ndims a i) rs
          \<and> (\<forall>depth out. depth + h \<le> 64 \<longrightarrow> length d < u64_lim \<longrightarrow>
               collect d (chunk_child d ndims a i) ndims out depth = Inr (out @ rs))) is rss'" "set is \<subseteq> {..<n}" for "is" rss' out
    using that
  proof (induction "is" rss' arbitrary: out rule: list_all2_induct)
    case (Cons i "is" rs rss')
    then have "collect d (chunk_child d ndims a i) ndims out (depth + 1) = Inr (out @ rs)"
      using node.prems by auto
    then show ?case
      using Cons chunk_entry_ok(1)[OF node.hyps(1) _ assms(2), of i] node.hyps(2) by simp
  qed simp
  moreover have "list_all2 (\<lambda>i rs. chunk_tree d ndims h (chunk_child d ndims a i) rs
          \<and> (\<forall>depth out. depth + h \<le> 64 \<longrightarrow> length d < u64_lim \<longrightarrow>
               collect d (chunk_child d ndims a i) ndims out depth = Inr (out @ rs))) [0..<n] rss"
    using node.IH by (simp add: list.rel_map)
  ultimately show ?case
    using a node.prems chunk_node_ok[OF node.hyps(1) assms(2)]
    by (subst collect.simps) (simp add: lessThan_atLeast0)
qed (simp add: collect.simps)

text \<open>
  C30. The chunk index is read as the file stores it: on a file that holds a chunk B-tree of
  height at most 64 at the given address, the parser returns the records of all its leaves,
  left to right, with the sizes, masks and offsets of their keys, unallocated chunks left out.
\<close>

theorem chunk_btree_parse_correct:
  assumes "chunk_tree file_data ndims h root rs" and "h \<le> 64" and "length file_data \<le> isize_max"
  shows "chunk_btree_parse file_data root ndims = Inr rs"
  using collect_chunk_tree[OF assms(1), of 0 "[]"] assms(2,3) by (simp add: chunk_btree_parse_def)

definition tiny_index :: bytes where
  "tiny_index = sig_TREE1 @ [1, 0] @ to_le 2 1 @ to_le 8 UNDEF @ to_le 8 UNDEF
     @ to_le 4 16 @ to_le 4 0 @ to_le 8 4 @ to_le 8 0 @ to_le 8 4096"

theorem chunk_btree_parse_correct_witness:
  "chunk_btree_parse tiny_index 0 1
     = Inr [\<lparr>rec_address = 4096, rec_size = 16, rec_filter_mask = 0, rec_offsets = [4]\<rparr>]"
proof (rule chunk_btree_parse_correct[where h = 0])
  have "chunk_header tiny_index 1 0 0 1"
    by (simp add: chunk_header_def tiny_index_def sig_TREE1_def field_def le_eval)
  then show "chunk_tree tiny_index 1 0 0 [\<lparr>rec_address = 4096, rec_size = 16, rec_filter_mask = 0, rec_offsets = [4]\<rparr>]"
    by (rule chunk_tree.leaf)
      (simp add: record_at_def key_at_def chunk_child_def tiny_index_def sig_TREE1_def field_def le_eval)
qed (simp_all add: tiny_index_def sig_TREE1_def)

end
