(* ===== verification/BTree_V2.thy ===== *)
theory BTree_V2
  imports Chunk_BTree
begin

text \<open>
  \<^verbatim>\<open>oxih5-format/src/btree_v2.rs\<close>: the version-2 B-tree, as the link-name index of a new-style
  group (type 5) and as the chunk index of layout version 4 (types 10 and 11). The two readers of
  the source walk the nodes in the same way and differ in what they make of a leaf record; the walk
  is one definition over the record reader, and \<open>record_reader\<close> is its contract.
\<close>

section \<open>Header and nodes\<close>

definition sig_BTHD :: bytes where
  "sig_BTHD = [0x42, 0x54, 0x48, 0x44]"

definition sig_BTLF :: bytes where
  "sig_BTLF = [0x42, 0x54, 0x4c, 0x46]"

definition sig_BTIN :: bytes where
  "sig_BTIN = [0x42, 0x54, 0x49, 0x4e]"

definition bt2_max_depth :: nat where
  "bt2_max_depth = 64"

text \<open>
  Record type, record size, depth, root address and number of records in the root; the caller
  decides which record types and sizes it takes.
\<close>

definition bt2_header :: "(byte \<Rightarrow> bool) \<Rightarrow> (nat \<Rightarrow> bool) \<Rightarrow> bytes \<Rightarrow> nat \<Rightarrow> (byte \<times> nat \<times> nat \<times> nat \<times> nat) res" where
  "bt2_header type_ok size_ok file_data base =
     and_then (ok_or (checked_add base 38) Format) (\<lambda>hdr_end.
       if hdr_end > length file_data then Inl Format
       else
         and_then (slice file_data base (base + 4)) (\<lambda>sig.
           if sig \<noteq> sig_BTHD then Inl Format
           else
             and_then (index file_data (base + 4)) (\<lambda>version.
               if version \<noteq> 0 then Inl Format
               else
                 and_then (index file_data (base + 5)) (\<lambda>btree_type.
                   if \<not> type_ok btree_type then Inl NotImplemented
                   else
                     and_then (read_u32_le file_data (base + 6)) (\<lambda>_.
                     and_then (read_u16_le file_data (base + 10)) (\<lambda>record_size.
                     and_then (read_u16_le file_data (base + 12)) (\<lambda>tree_depth.
                       if \<not> size_ok record_size then Inl Format
                       else if tree_depth > bt2_max_depth then Inl Format
                       else
                         and_then (read_u64_le file_data (base + 16)) (\<lambda>root_addr.
                         and_then (read_u16_le file_data (base + 24)) (\<lambda>root_nrecords.
                           Inr (btree_type, record_size, tree_depth, root_addr, root_nrecords))))))))))"

text \<open>Signature and version of a node; the records start six bytes in.\<close>

definition bt2_node_start :: "bytes \<Rightarrow> nat \<Rightarrow> nat \<Rightarrow> nat res" where
  "bt2_node_start file_data base depth =
     and_then (ok_or (checked_add base 6) Format) (\<lambda>sig_end.
       if sig_end > length file_data then Inl Format
       else
         and_then (slice file_data base (base + 4)) (\<lambda>sig.
           if sig \<noteq> (if depth = 0 then sig_BTLF else sig_BTIN) then Inl Format
           else
             and_then (index file_data (base + 4)) (\<lambda>version.
               if version \<noteq> 0 then Inl Format else Inr (base + 6))))"

function bt2_node :: "(bytes \<Rightarrow> nat \<Rightarrow> 'r res) \<Rightarrow> bytes \<Rightarrow> nat \<Rightarrow> nat \<Rightarrow> nat \<Rightarrow> nat \<Rightarrow> 'r list \<Rightarrow> nat \<Rightarrow> 'r list res" where
  "bt2_node leaf file_data node_addr depth num_records rs out recursion =
     (if recursion > bt2_max_depth then Inl Format
      else if node_addr = UNDEF then Inr out
      else
        and_then (bt2_node_start file_data node_addr depth) (\<lambda>records_start.
        and_then (umul num_records rs) (\<lambda>records_len.
        and_then (ok_or (checked_add records_start records_len) Format) (\<lambda>records_end.
          if depth = 0 then
            if records_end > length file_data then Inl Format
            else
              fold_res (\<lambda>i out.
                and_then (umul i rs) (\<lambda>p.
                and_then (uadd records_start p) (\<lambda>r_off.
                and_then (leaf file_data r_off) (\<lambda>r. Inr (out @ [r]))))) [0..<num_records] out
          else
            and_then (umul (num_records + 1) 10) (\<lambda>children_len.
            and_then (ok_or (checked_add records_end children_len) Format) (\<lambda>children_end.
              if children_end > length file_data then Inl Format
              else
                fold_res (\<lambda>c out.
                  and_then (umul c 10) (\<lambda>p.
                  and_then (uadd records_end p) (\<lambda>ptr_off.
                  and_then (read_u64_le file_data ptr_off) (\<lambda>child_addr.
                  and_then (uadd ptr_off 8) (\<lambda>n_off.
                  and_then (read_u16_le file_data n_off) (\<lambda>child_nrecords.
                    if child_addr = UNDEF then Inr out
                    else bt2_node leaf file_data child_addr (depth - 1) child_nrecords rs out (recursion + 1)))))))
                  [0..<num_records + 1] out))))))"
  by pat_completeness auto
termination
  by (relation "measure (\<lambda>(leaf, file_data, node_addr, depth, num_records, rs, out, recursion). 65 - recursion)")
    (auto simp: bt2_max_depth_def)

declare bt2_node.simps [simp del]

section \<open>Name index\<close>

definition name_leaf :: "nat \<Rightarrow> bytes \<Rightarrow> nat \<Rightarrow> bytes res" where
  "name_leaf heap_id_len file_data r_off =
     and_then (uadd r_off 4) (\<lambda>id_off.
     and_then (uadd id_off heap_id_len) (\<lambda>id_end.
       ok_or (get_range file_data id_off id_end) Format))"

definition parse_name_index_node ::
  "bytes \<Rightarrow> nat \<Rightarrow> nat \<Rightarrow> nat \<Rightarrow> nat \<Rightarrow> nat \<Rightarrow> bytes list \<Rightarrow> nat \<Rightarrow> bytes list res" where
  "parse_name_index_node file_data node_addr depth num_records record_size heap_id_len heap_ids recursion =
     bt2_node (name_leaf heap_id_len) file_data node_addr depth num_records record_size heap_ids recursion"

definition parse_name_index :: "bytes \<Rightarrow> nat \<Rightarrow> nat \<Rightarrow> bytes list res" where
  "parse_name_index file_data header_address heap_id_len =
     and_then (bt2_header (\<lambda>t. t = 5) (\<lambda>sz. sz = min (4 + heap_id_len) 65535) file_data header_address)
       (\<lambda>(_, record_size, tree_depth, root_addr, root_nrecords).
          if root_addr = UNDEF then Inr []
          else parse_name_index_node file_data root_addr tree_depth root_nrecords record_size heap_id_len [] 0)"

section \<open>Chunk index\<close>

record chunk_geometry =
  geom_chunk_dims :: "nat list"
  geom_chunk_bytes :: nat

definition u64_at :: "bytes \<Rightarrow> nat \<Rightarrow> nat res" where
  "u64_at rec pos = map_sum id from_le (ok_or (get_range rec pos (pos + 8)) Format)"

definition u32_at :: "bytes \<Rightarrow> nat \<Rightarrow> nat res" where
  "u32_at rec pos = map_sum id from_le (ok_or (get_range rec pos (pos + 4)) Format)"

definition parse_chunk_record :: "bytes \<Rightarrow> byte \<Rightarrow> nat \<Rightarrow> chunk_geometry \<Rightarrow> chunk_record res" where
  "parse_chunk_record rec btree_type ndims geom =
     (let prefix = (if btree_type = 11 then 16 else 8) in
      if length rec < prefix then Inl Format
      else
        and_then (u64_at rec 0) (\<lambda>address.
        and_then (if btree_type = 11
                  then and_then (u32_at rec 8) (\<lambda>sz. and_then (u32_at rec 12) (\<lambda>fm. Inr (sz, fm)))
                  else Inr (geom_chunk_bytes geom, 0)) (\<lambda>(sz, filter_mask).
        and_then (if ndims = 0 then Inr []
                  else
                    and_then (ok_or (checked_mul ndims 8) Format) (\<lambda>needed.
                      if length rec - prefix < needed then Inl Format
                      else
                        map_res (\<lambda>d.
                          and_then (u64_at rec (prefix + d * 8)) (\<lambda>scaled.
                          let extent = (case get_elem (geom_chunk_dims geom) d of Some e \<Rightarrow> e | None \<Rightarrow> 1) in
                            Inr (saturating_mul scaled extent))) [0..<ndims])) (\<lambda>offsets.
          Inr \<lparr>rec_address = address, rec_size = sz, rec_filter_mask = filter_mask, rec_offsets = offsets\<rparr>))))"

definition chunk_leaf :: "byte \<Rightarrow> nat \<Rightarrow> chunk_geometry \<Rightarrow> nat \<Rightarrow> bytes \<Rightarrow> nat \<Rightarrow> chunk_record res" where
  "chunk_leaf btree_type ndims geom rs file_data r_off =
     and_then (uadd r_off rs) (\<lambda>r_end.
     and_then (slice file_data r_off r_end) (\<lambda>rec. parse_chunk_record rec btree_type ndims geom))"

definition parse_node ::
  "bytes \<Rightarrow> nat \<Rightarrow> nat \<Rightarrow> nat \<Rightarrow> nat \<Rightarrow> byte \<Rightarrow> nat \<Rightarrow> chunk_geometry \<Rightarrow> chunk_record list \<Rightarrow> nat \<Rightarrow> chunk_record list res" where
  "parse_node file_data node_addr depth num_records record_size btree_type ndims geom records recursion =
     bt2_node (chunk_leaf btree_type ndims geom record_size) file_data node_addr depth num_records record_size records recursion"

definition btree_v2_parse :: "bytes \<Rightarrow> nat \<Rightarrow> nat \<Rightarrow> chunk_geometry \<Rightarrow> chunk_record list res" where
  "btree_v2_parse file_data header_address ndims geom =
     and_then (bt2_header (\<lambda>t. t = 10 \<or> t = 11) (\<lambda>_. True) file_data header_address)
       (\<lambda>(btree_type, record_size, tree_depth, root_addr, root_nrecords).
          if root_addr = UNDEF then Inr []
          else parse_node file_data root_addr tree_depth root_nrecords record_size btree_type ndims geom [] 0)"

section \<open>The tree in the file\<close>

definition bt2_node_at :: "bytes \<Rightarrow> nat \<Rightarrow> bytes \<Rightarrow> bool" where
  "bt2_node_at d a sig \<longleftrightarrow> a + 6 \<le> length d \<and> take 4 (drop a d) = sig \<and> d ! (a + 4) = 0"

text \<open>
  The leaf records of a tree of height \<open>h\<close> whose records are \<open>rs\<close> bytes long, \<open>val\<close> being the
  meaning of a record. A node holds its records, then one child pointer more than records, each
  an address and the number of records of the child.
\<close>

inductive bt2_tree :: "bytes \<Rightarrow> nat \<Rightarrow> (bytes \<Rightarrow> nat \<Rightarrow> 'r) \<Rightarrow> nat \<Rightarrow> nat \<Rightarrow> nat \<Rightarrow> 'r list \<Rightarrow> bool" for d rs val where
  empty: "bt2_tree d rs val h UNDEF n []"
| leaf: "bt2_node_at d a sig_BTLF \<Longrightarrow> a + 6 + n * rs \<le> length d \<Longrightarrow>
     bt2_tree d rs val 0 a n (map (\<lambda>i. val d (a + 6 + i * rs)) [0..<n])"
| node: "bt2_node_at d a sig_BTIN \<Longrightarrow> a + 6 + n * rs + (n + 1) * 10 \<le> length d \<Longrightarrow>
     list_all2 (\<lambda>c. bt2_tree d rs val h (field 8 d (a + 6 + n * rs + c * 10)) (field 2 d (a + 6 + n * rs + c * 10 + 8))) [0..<n + 1] rss \<Longrightarrow>
     bt2_tree d rs val (Suc h) a n (concat rss)"

lemma bt2_node_start_eq:
  "bt2_node_at d a (if depth = 0 then sig_BTLF else sig_BTIN) \<Longrightarrow> length d < u64_lim \<Longrightarrow>
   bt2_node_start d a depth = Inr (a + 6)"
  by (auto simp: bt2_node_start_def bt2_node_at_def)

text \<open>The contract of a record reader: it reads every record that lies in the file.\<close>

locale record_reader =
  fixes rs :: nat
    and leaf :: "bytes \<Rightarrow> nat \<Rightarrow> 'r res"
    and val :: "bytes \<Rightarrow> nat \<Rightarrow> 'r"
  assumes leaf_ok: "off + rs \<le> length d \<Longrightarrow> length d \<le> isize_max \<Longrightarrow> leaf d off = Inr (val d off)"
begin

lemma leaf_loop:
  assumes "s + n * rs \<le> length d" and "length d \<le> isize_max" and "set is \<subseteq> {..<n}"
  shows "fold_res (\<lambda>i out. and_then (umul i rs) (\<lambda>p. and_then (uadd s p) (\<lambda>r_off.
      and_then (leaf d r_off) (\<lambda>r. Inr (out @ [r]))))) is out = Inr (out @ map (\<lambda>i. val d (s + i * rs)) is)"
  using assms(3)
proof (induction "is" arbitrary: out)
  case (Cons i "is")
  have "Suc i * rs \<le> n * rs" using Cons.prems by (intro mult_le_mono1) auto
  then have "s + i * rs + rs \<le> length d" using assms(1) by simp
  moreover from this have "i * rs < u64_lim" "s + i * rs < u64_lim" using assms(2) by linarith+
  ultimately show ?case using Cons leaf_ok[of "s + i * rs" d] assms(2) by simp
qed simp

lemma walk:
  assumes "bt2_tree d rs val h a n recs" and "length d \<le> isize_max"
  shows "h + recursion \<le> bt2_max_depth \<Longrightarrow> bt2_node leaf d a h n rs out recursion = Inr (out @ recs)"
  using assms(1)
proof (induction arbitrary: recursion out rule: bt2_tree.induct)
  case (empty h n)
  then show ?case by (simp add: bt2_node.simps)
next
  case (leaf a n)
  have a: "a \<noteq> UNDEF" using leaf.hyps assms(2) by (auto simp: bt2_node_at_def)
  have st: "bt2_node_start d a 0 = Inr (a + 6)" using leaf.hyps(1) assms(2) by (simp add: bt2_node_start_eq)
  have "n * rs < u64_lim" "a + 6 + n * rs < u64_lim" using leaf.hyps(2) assms(2) by linarith+
  then show ?case
    using leaf.prems leaf.hyps(2) a leaf_loop[OF leaf.hyps(2) assms(2), of "[0..<n]" out]
    by (subst bt2_node.simps) (simp add: st lessThan_atLeast0)
next
  case (node a n h rss)
  let ?e = "a + 6 + n * rs"
  have a: "a \<noteq> UNDEF" using node.hyps assms(2) by (auto simp: bt2_node_at_def)
  have st: "bt2_node_start d a (Suc h) = Inr (a + 6)" using node.hyps(1) assms(2) by (simp add: bt2_node_start_eq)
  have lim: "n * rs < u64_lim" "?e < u64_lim" "(n + 1) * 10 < u64_lim" "?e + (n + 1) * 10 < u64_lim"
    using node.hyps(2) assms(2) by linarith+
  have loop: "fold_res (\<lambda>c out.
      and_then (umul c 10) (\<lambda>p. and_then (uadd ?e p) (\<lambda>ptr_off.
      and_then (read_u64_le d ptr_off) (\<lambda>child_addr.
      and_then (uadd ptr_off 8) (\<lambda>n_off. and_then (read_u16_le d n_off) (\<lambda>child_nrecords.
        if child_addr = UNDEF then Inr out
        else bt2_node leaf d child_addr (Suc h - 1) child_nrecords rs out (recursion + 1))))))) cs out = Inr (out @ concat rss')"
    if "list_all2 (\<lambda>c recs. bt2_tree d rs val h (field 8 d (?e + c * 10)) (field 2 d (?e + c * 10 + 8)) recs
          \<and> (\<forall>recursion out. h + recursion \<le> bt2_max_depth \<longrightarrow>
               bt2_node leaf d (field 8 d (?e + c * 10)) h (field 2 d (?e + c * 10 + 8)) rs out recursion = Inr (out @ recs))) cs rss'"
      and "set cs \<subseteq> {..<n + 1}" for cs rss' out
    using that
  proof (induction cs rss' arbitrary: out rule: list_all2_induct)
    case (Cons c cs recs rss')
    have "c * 10 + 10 \<le> (n + 1) * 10" using Cons.prems by simp
    then have b: "?e + c * 10 + 10 \<le> length d" using node.hyps(2) by (simp add: add.assoc)
    then have ar: "c * 10 < u64_lim" "?e + c * 10 < u64_lim" "?e + c * 10 + 8 < u64_lim" "?e + c * 10 + 8 + 2 < u64_lim"
      using assms(2) by linarith+
    have "bt2_node leaf d (field 8 d (?e + c * 10)) h (field 2 d (?e + c * 10 + 8)) rs out (Suc recursion) = Inr (out @ recs)"
      using Cons(1) node.prems by simp
    moreover have "recs = []" if "field 8 d (?e + c * 10) = UNDEF"
      using calculation that node.prems by (simp add: bt2_node.simps)
    ultimately show ?case using Cons.IH Cons.prems b ar by (auto simp: read_u64_le_eq read_u16_le_eq)
  qed simp
  have "list_all2 (\<lambda>c recs. bt2_tree d rs val h (field 8 d (?e + c * 10)) (field 2 d (?e + c * 10 + 8)) recs
          \<and> (\<forall>recursion out. h + recursion \<le> bt2_max_depth \<longrightarrow>
               bt2_node leaf d (field 8 d (?e + c * 10)) h (field 2 d (?e + c * 10 + 8)) rs out recursion = Inr (out @ recs))) [0..<n + 1] rss"
    using node.IH by (rule list_all2_mono) blast
  note loop[OF this]
  then show ?case
    using node.prems node.hyps(2) a lim by (subst bt2_node.simps) (simp add: st lessThan_atLeast0)
qed

end

text \<open>A reader that does not panic on a record inside the file, whatever it makes of it.\<close>

locale safe_reader =
  fixes rs :: nat
    and leaf :: "bytes \<Rightarrow> nat \<Rightarrow> 'r res"
  assumes leaf_safe: "off + rs \<le> length d \<Longrightarrow> length d \<le> isize_max \<Longrightarrow> no_panic (leaf d off)"
begin

lemma walk_safe:
  assumes "length d \<le> isize_max" and "rs < 65536"
  shows "n < 65536 \<Longrightarrow> no_panic (bt2_node leaf d a h n rs out recursion)"
proof (induction "bt2_max_depth + 1 - recursion" arbitrary: a h n out recursion)
  case (Suc m)
  have start: "no_panic (bt2_node_start d a h)"
    using assms(1) by (auto simp: bt2_node_start_def intro!: no_panic_and_then)
  have start_val: "s = a + 6" if "bt2_node_start d a h = Inr s" for s
    using that by (auto simp: bt2_node_start_def split: if_splits)
  have nr: "n * rs < 65536 * 65536" using Suc.prems assms(2) by (intro mult_strict_mono) auto
  have leaves: "no_panic (fold_res (\<lambda>i out. and_then (umul i rs) (\<lambda>p. and_then (uadd (a + 6) p) (\<lambda>r_off.
      and_then (leaf d r_off) (\<lambda>r. Inr (out @ [r]))))) [0..<n] out)" if e: "a + 6 + n * rs \<le> length d"
  proof (rule fold_res_no_panic[where P = "\<lambda>_. True"])
    fix i and out assume "i \<in> set [0..<n]"
    then have "Suc i * rs \<le> n * rs" by (intro mult_le_mono1) simp
    then have "a + 6 + i * rs + rs \<le> length d" using e by simp
    moreover from this have "i * rs < u64_lim" "a + 6 + i * rs < u64_lim" using assms(1) by linarith+
    ultimately show "no_panic (and_then (umul i rs) (\<lambda>p. and_then (uadd (a + 6) p) (\<lambda>r_off. and_then (leaf d r_off) (\<lambda>r. Inr (out @ [r])))))"
      using leaf_safe[of "a + 6 + i * rs" d] assms(1) by (auto intro!: no_panic_and_then)
  qed simp_all
  have children: "no_panic (fold_res (\<lambda>c out.
      and_then (umul c 10) (\<lambda>p. and_then (uadd (a + 6 + n * rs) p) (\<lambda>ptr_off.
      and_then (read_u64_le d ptr_off) (\<lambda>child_addr.
      and_then (uadd ptr_off 8) (\<lambda>n_off. and_then (read_u16_le d n_off) (\<lambda>child_nrecords.
        if child_addr = UNDEF then Inr out
        else bt2_node leaf d child_addr (h - 1) child_nrecords rs out (recursion + 1))))))) [0..<n + 1] out)"
    if e: "a + 6 + n * rs + (n + 1) * 10 \<le> length d" and r: "recursion \<le> bt2_max_depth"
  proof (rule fold_res_no_panic[where P = "\<lambda>_. True"])
    fix c and out :: "'r list" assume "c \<in> set [0..<n + 1]"
    then have "c * 10 + 10 \<le> (n + 1) * 10" by auto
    then have "a + 6 + n * rs + c * 10 + 10 \<le> length d" using e by (simp add: add.assoc)
    then have ar: "c * 10 < u64_lim" "a + 6 + n * rs + c * 10 < u64_lim" "a + 6 + n * rs + c * 10 + 8 < u64_lim"
      "a + 6 + n * rs + c * 10 + 8 + 2 < u64_lim" using assms(1) by linarith+
    have "no_panic (bt2_node leaf d a' (h - 1) n' rs out (recursion + 1))" if "n' < 65536" for a' n'
      using Suc.hyps(1)[of "recursion + 1" n'] Suc.hyps(2) r that by simp
    then show "no_panic (and_then (umul c 10) (\<lambda>p. and_then (uadd (a + 6 + n * rs) p) (\<lambda>ptr_off.
      and_then (read_u64_le d ptr_off) (\<lambda>child_addr.
      and_then (uadd ptr_off 8) (\<lambda>n_off. and_then (read_u16_le d n_off) (\<lambda>child_nrecords.
        if child_addr = UNDEF then Inr out
        else bt2_node leaf d child_addr (h - 1) child_nrecords rs out (recursion + 1)))))))"
      using ar by (auto intro!: no_panic_and_then simp: field_2_less)
  qed simp_all
  show ?case
  proof (cases "recursion > bt2_max_depth \<or> a = UNDEF")
    case True
    then show ?thesis by (auto simp: bt2_node.simps)
  next
    case False
    have lim: "n * rs < u64_lim" "(n + 1) * 10 < u64_lim" using nr Suc.prems by simp_all
    show ?thesis
    proof (cases "bt2_node_start d a h")
      case (Inl e)
      then show ?thesis using False start by (subst bt2_node.simps) simp
    next
      case (Inr s)
      then have s: "s = a + 6" using start_val by blast
      show ?thesis
        using False Inr s leaves children lim by (subst bt2_node.simps) (auto intro!: no_panic_and_then)
    qed
  qed
qed (simp add: bt2_node.simps)

end

sublocale record_reader \<subseteq> safe_reader
  by unfold_locales (simp add: leaf_ok)

section \<open>The two readers\<close>

definition name_id :: "nat \<Rightarrow> bytes \<Rightarrow> nat \<Rightarrow> bytes" where
  "name_id heap_id_len d off = take heap_id_len (drop (off + 4) d)"

interpretation name_records: record_reader "4 + heap_id_len" "name_leaf heap_id_len" "name_id heap_id_len" for heap_id_len
proof unfold_locales
  fix off :: nat and d :: bytes
  assume "off + (4 + heap_id_len) \<le> length d" "length d \<le> isize_max"
  moreover from this have "off + 4 < u64_lim" "off + 4 + heap_id_len < u64_lim" by linarith+
  ultimately show "name_leaf heap_id_len d off = Inr (name_id heap_id_len d off)"
    by (simp add: name_leaf_def name_id_def)
qed

definition chunk_rec_prefix :: "byte \<Rightarrow> nat" where
  "chunk_rec_prefix btree_type = (if btree_type = 11 then 16 else 8)"

definition bt2_chunk :: "byte \<Rightarrow> nat \<Rightarrow> chunk_geometry \<Rightarrow> bytes \<Rightarrow> nat \<Rightarrow> chunk_record" where
  "bt2_chunk btree_type ndims geom d off =
     \<lparr>rec_address = field 8 d off,
      rec_size = (if btree_type = 11 then field 4 d (off + 8) else geom_chunk_bytes geom),
      rec_filter_mask = (if btree_type = 11 then field 4 d (off + 12) else 0),
      rec_offsets = map (\<lambda>k. saturating_mul (field 8 d (off + chunk_rec_prefix btree_type + k * 8))
        (if k < length (geom_chunk_dims geom) then geom_chunk_dims geom ! k else 1)) [0..<ndims]\<rparr>"

lemma u_at_slice:
  assumes "p + 8 \<le> k" and "off + k \<le> length d"
  shows "u64_at (take k (drop off d)) p = Inr (field 8 d (off + p))"
proof -
  have "take 8 (drop p (take k (drop off d))) = take 8 (drop (off + p) d)"
    using assms(1) by (simp add: drop_take min_def add.commute)
  then show ?thesis using assms by (simp add: u64_at_def field_def)
qed

lemma u_at_slice4:
  assumes "p + 4 \<le> k" and "off + k \<le> length d"
  shows "u32_at (take k (drop off d)) p = Inr (field 4 d (off + p))"
proof -
  have "take 4 (drop p (take k (drop off d))) = take 4 (drop (off + p) d)"
    using assms(1) by (simp add: drop_take min_def add.commute)
  then show ?thesis using assms by (simp add: u32_at_def field_def)
qed

interpretation chunk_records:
  record_reader "chunk_rec_prefix btree_type + ndims * 8" "chunk_leaf btree_type ndims geom (chunk_rec_prefix btree_type + ndims * 8)"
    "bt2_chunk btree_type ndims geom" for btree_type ndims geom
proof unfold_locales
  fix off :: nat and d :: bytes
  let ?k = "chunk_rec_prefix btree_type + ndims * 8" and ?p = "chunk_rec_prefix btree_type"
  let ?rec = "take ?k (drop off d)"
  assume a: "off + ?k \<le> length d" "length d \<le> isize_max"
  then have lim: "off + ?k < u64_lim" "ndims * 8 < u64_lim" by linarith+
  have len: "length ?rec = ?k" using a by simp
  have p: "8 \<le> ?p" "btree_type = 11 \<Longrightarrow> ?p = 16" by (simp_all add: chunk_rec_prefix_def)
  have offs: "map_res (\<lambda>j. and_then (u64_at ?rec (?p + j * 8)) (\<lambda>scaled.
        let extent = (case get_elem (geom_chunk_dims geom) j of Some e \<Rightarrow> e | None \<Rightarrow> 1) in
          Inr (saturating_mul scaled extent))) [0..<ndims] = Inr (rec_offsets (bt2_chunk btree_type ndims geom d off))"
    unfolding bt2_chunk_def chunk_record.simps
  proof (rule map_res_total)
    fix j assume "j \<in> set [0..<ndims]"
    then have "?p + j * 8 + 8 \<le> ?k" by simp
    then show "and_then (u64_at ?rec (?p + j * 8)) (\<lambda>scaled.
        let extent = (case get_elem (geom_chunk_dims geom) j of Some e \<Rightarrow> e | None \<Rightarrow> 1) in Inr (saturating_mul scaled extent))
      = Inr (saturating_mul (field 8 d (off + ?p + j * 8))
          (if j < length (geom_chunk_dims geom) then geom_chunk_dims geom ! j else 1))"
      using u_at_slice[of "?p + j * 8" ?k off d] a(1) by (simp add: get_elem_def add.assoc)
  qed
  have "parse_chunk_record ?rec btree_type ndims geom = Inr (bt2_chunk btree_type ndims geom d off)"
    using u_at_slice[of 0 ?k off d] u_at_slice4[of 8 ?k off d] u_at_slice4[of 12 ?k off d] a(1) len p lim(2) offs
    by (cases "btree_type = 11"; cases "ndims = 0")
      (simp_all add: parse_chunk_record_def chunk_rec_prefix_def bt2_chunk_def Let_def)
  then show "chunk_leaf btree_type ndims geom ?k d off = Inr (bt2_chunk btree_type ndims geom d off)"
    using a lim by (simp add: chunk_leaf_def)
qed

section \<open>Results\<close>

definition bt2_file :: "bytes \<Rightarrow> nat \<Rightarrow> byte \<Rightarrow> nat \<Rightarrow> nat \<Rightarrow> nat \<Rightarrow> nat \<Rightarrow> bool" where
  "bt2_file d a type rs h root n \<longleftrightarrow>
     a + 38 \<le> length d \<and> take 4 (drop a d) = sig_BTHD \<and> d ! (a + 4) = 0 \<and> d ! (a + 5) = type
     \<and> field 2 d (a + 10) = rs \<and> field 2 d (a + 12) = h \<and> h \<le> bt2_max_depth
     \<and> field 8 d (a + 16) = root \<and> field 2 d (a + 24) = n"

lemma bt2_header_eq:
  assumes "bt2_file d a type rs h root n" and "length d < u64_lim" and "type_ok type" and "size_ok rs"
  shows "bt2_header type_ok size_ok d a = Inr (type, rs, h, root, n)"
  using assms by (auto simp: bt2_header_def bt2_file_def read_u64_le_eq read_u32_le_eq read_u16_le_eq)

lemma parse_name_index_tree:
  assumes "bt2_file file_data addr 5 (4 + heap_id_len) h root n"
    and "bt2_tree file_data (4 + heap_id_len) (name_id heap_id_len) h root n ids"
    and "heap_id_len < 256" and "length file_data \<le> isize_max"
  shows "parse_name_index file_data addr heap_id_len = Inr ids"
proof -
  have d: "length file_data < u64_lim" using assms(4) by simp
  have h: "h + 0 \<le> bt2_max_depth" using assms(1) by (simp add: bt2_file_def)
  have hd: "bt2_header (\<lambda>t. t = 5) (\<lambda>sz. sz = min (4 + heap_id_len) 65535) file_data addr = Inr (5, 4 + heap_id_len, h, root, n)"
    using assms(3) by (intro bt2_header_eq[OF assms(1) d]) simp_all
  have "bt2_node (name_leaf heap_id_len) file_data root h n (4 + heap_id_len) [] 0 = Inr ids"
    using name_records.walk[OF assms(2,4) h, of "[]"] by simp
  moreover from this have "root = UNDEF \<Longrightarrow> ids = []" by (simp add: bt2_node.simps)
  ultimately show ?thesis by (auto simp: parse_name_index_def hd parse_name_index_node_def)
qed

text \<open>
  C35. The link-name index of a new-style group is read as the file stores it: on a file that
  holds a version-2 B-tree of type 5 the reader returns the heap identifiers of the records of its
  leaves, left to right. The records an internal node holds itself are not among them.
\<close>

theorem parse_name_index_correct:
  assumes "bt2_file file_data addr 5 (4 + heap_id_len) h root n"
    and "bt2_tree file_data (4 + heap_id_len) (name_id heap_id_len) h root n ids"
    and "heap_id_len < 256" and "length file_data \<le> isize_max"
  shows "parse_name_index file_data addr heap_id_len = Inr ids"
  using assms by (rule parse_name_index_tree)

definition tiny_name_index :: bytes where
  "tiny_name_index = sig_BTHD @ [0, 5] @ to_le 4 512 @ to_le 2 7 @ to_le 2 0 @ [98, 40] @ to_le 8 38 @ to_le 2 1
     @ to_le 8 1 @ to_le 4 0 @ sig_BTLF @ [0, 5] @ to_le 4 1819 @ [1, 2, 3] @ to_le 4 0"

theorem parse_name_index_correct_witness: "parse_name_index tiny_name_index 0 3 = Inr [[1, 2, 3]]"
proof (rule parse_name_index_correct[where h = 0 and root = 38 and n = 1])
  show "bt2_file tiny_name_index 0 5 (4 + 3) 0 38 1"
    by (simp add: bt2_file_def bt2_max_depth_def tiny_name_index_def sig_BTHD_def sig_BTLF_def field_def le_eval)
  have "bt2_tree tiny_name_index (4 + 3) (name_id 3) 0 38 1 (map (\<lambda>i. name_id 3 tiny_name_index (38 + 6 + i * (4 + 3))) [0..<1])"
    by (rule bt2_tree.leaf)
      (simp_all add: bt2_node_at_def tiny_name_index_def sig_BTHD_def sig_BTLF_def le_eval)
  then show "bt2_tree tiny_name_index (4 + 3) (name_id 3) 0 38 1 [[1, 2, 3]]"
    by (simp add: name_id_def tiny_name_index_def sig_BTHD_def sig_BTLF_def le_eval)
qed (simp_all add: tiny_name_index_def sig_BTHD_def sig_BTLF_def)

text \<open>
  C34. The version-2 B-tree chunk index is read as the file stores it: on a file that holds such a
  tree of type 10 or 11, whose record size is the one the type and the rank call for, the reader
  returns the chunks of the records of its leaves, left to right, the scaled coordinates multiplied
  by the chunk extents. The records an internal node holds itself are not among them.
\<close>

theorem btree_v2_parse_correct:
  assumes "bt2_file file_data addr type (chunk_rec_prefix type + ndims * 8) h root n" and "type = 10 \<or> type = 11"
    and "bt2_tree file_data (chunk_rec_prefix type + ndims * 8) (bt2_chunk type ndims geom) h root n recs"
    and "length file_data \<le> isize_max"
  shows "btree_v2_parse file_data addr ndims geom = Inr recs"
proof -
  have d: "length file_data < u64_lim" using assms(4) by simp
  have h: "h + 0 \<le> bt2_max_depth" using assms(1) by (simp add: bt2_file_def)
  have hd: "bt2_header (\<lambda>t. t = 10 \<or> t = 11) (\<lambda>_. True) file_data addr = Inr (type, chunk_rec_prefix type + ndims * 8, h, root, n)"
    by (intro bt2_header_eq[OF assms(1) d] assms(2) TrueI)
  have "bt2_node (chunk_leaf type ndims geom (chunk_rec_prefix type + ndims * 8)) file_data root h n (chunk_rec_prefix type + ndims * 8) [] 0 = Inr recs"
    using chunk_records.walk[OF assms(3,4) h, of "[]"] by simp
  moreover from this have "root = UNDEF \<Longrightarrow> recs = []" by (simp add: bt2_node.simps)
  ultimately show ?thesis by (auto simp: btree_v2_parse_def hd parse_node_def)
qed

definition tiny_chunk_index2 :: bytes where
  "tiny_chunk_index2 = sig_BTHD @ [0, 10] @ to_le 4 512 @ to_le 2 16 @ to_le 2 0 @ [98, 40] @ to_le 8 38 @ to_le 2 1
     @ to_le 8 1 @ to_le 4 0 @ sig_BTLF @ [0, 10] @ to_le 8 4096 @ to_le 8 3"

theorem btree_v2_parse_correct_witness:
  "btree_v2_parse tiny_chunk_index2 0 1 \<lparr>geom_chunk_dims = [5], geom_chunk_bytes = 40\<rparr>
     = Inr [\<lparr>rec_address = 4096, rec_size = 40, rec_filter_mask = 0, rec_offsets = [15]\<rparr>]"
proof (rule btree_v2_parse_correct[where h = 0 and root = 38 and n = 1 and type = 10])
  let ?g = "\<lparr>geom_chunk_dims = [5], geom_chunk_bytes = 40\<rparr>"
  show "bt2_file tiny_chunk_index2 0 10 (chunk_rec_prefix 10 + 1 * 8) 0 38 1"
    by (simp add: bt2_file_def bt2_max_depth_def chunk_rec_prefix_def tiny_chunk_index2_def sig_BTHD_def sig_BTLF_def field_def le_eval)
  have "bt2_tree tiny_chunk_index2 (chunk_rec_prefix 10 + 1 * 8) (bt2_chunk 10 1 ?g) 0 38 1
      (map (\<lambda>i. bt2_chunk 10 1 ?g tiny_chunk_index2 (38 + 6 + i * (chunk_rec_prefix 10 + 1 * 8))) [0..<1])"
    by (rule bt2_tree.leaf)
      (simp_all add: bt2_node_at_def chunk_rec_prefix_def tiny_chunk_index2_def sig_BTHD_def sig_BTLF_def le_eval)
  then show "bt2_tree tiny_chunk_index2 (chunk_rec_prefix 10 + 1 * 8) (bt2_chunk 10 1 ?g) 0 38 1
      [\<lparr>rec_address = 4096, rec_size = 40, rec_filter_mask = 0, rec_offsets = [15]\<rparr>]"
    by (simp add: bt2_chunk_def chunk_rec_prefix_def saturating_mul_def tiny_chunk_index2_def sig_BTHD_def sig_BTLF_def field_def le_eval)
qed (simp_all add: tiny_chunk_index2_def sig_BTHD_def sig_BTLF_def)

text \<open>
  Neither version-2 B-tree reader panics, whatever the file holds and wherever it is told to
  start: depth, record counts, child pointers and record sizes are all checked before use.
\<close>

theorem btree_v2_never_panics:
  assumes "length file_data \<le> isize_max" and "heap_id_len < 256"
  shows "parse_name_index file_data addr heap_id_len \<noteq> Inl Panic \<and> btree_v2_parse file_data addr ndims geom \<noteq> Inl Panic"
proof -
  have hd: "no_panic (bt2_header type_ok size_ok file_data addr)" for type_ok size_ok
    using assms(1) by (auto simp: bt2_header_def intro!: no_panic_and_then)
  have hv: "size_ok rs \<and> rs < 65536 \<and> n < 65536" if "bt2_header type_ok size_ok file_data addr = Inr (ty, rs, h, root, n)"
    for type_ok size_ok ty rs h root n
    using that by (auto simp: bt2_header_def split: if_splits)
  have chunk_safe: "safe_reader rs (chunk_leaf ty ndims geom rs)" for rs ty
  proof unfold_locales
    fix off and d :: bytes assume a: "off + rs \<le> length d" "length d \<le> isize_max"
    have "no_panic (parse_chunk_record rec ty ndims geom)" for rec
      unfolding parse_chunk_record_def Let_def
      by (auto intro!: no_panic_and_then map_res_no_panic simp: u64_at_def u32_at_def ok_or_def split: option.splits)
    then show "no_panic (chunk_leaf ty ndims geom rs d off)"
      using a by (auto simp: chunk_leaf_def intro!: no_panic_and_then)
  qed
  have "no_panic (parse_name_index file_data addr heap_id_len)"
    unfolding parse_name_index_def
  proof (intro no_panic_and_then hd)
    fix x assume x: "bt2_header (\<lambda>t. t = 5) (\<lambda>sz. sz = min (4 + heap_id_len) 65535) file_data addr = Inr x"
    obtain ty rs h root n where xv: "x = (ty, rs, h, root, n)" by (cases x) auto
    have rs: "rs = 4 + heap_id_len" "rs < 65536" "n < 65536" using hv[OF x[unfolded xv]] assms(2) by simp_all
    show "no_panic (case x of (_, record_size, tree_depth, root_addr, root_nrecords) \<Rightarrow>
          if root_addr = UNDEF then Inr []
          else parse_name_index_node file_data root_addr tree_depth root_nrecords record_size heap_id_len [] 0)"
      using name_records.walk_safe[OF assms(1), of heap_id_len n root h "[]" 0] rs
      by (simp add: xv parse_name_index_node_def)
  qed
  moreover have "no_panic (btree_v2_parse file_data addr ndims geom)"
    unfolding btree_v2_parse_def
  proof (intro no_panic_and_then hd)
    fix x assume x: "bt2_header (\<lambda>t. t = 10 \<or> t = 11) (\<lambda>_. True) file_data addr = Inr x"
    obtain ty rs h root n where xv: "x = (ty, rs, h, root, n)" by (cases x) auto
    have rs: "rs < 65536" "n < 65536" using hv[OF x[unfolded xv]] by simp_all
    show "no_panic (case x of (btree_type, record_size, tree_depth, root_addr, root_nrecords) \<Rightarrow>
          if root_addr = UNDEF then Inr []
          else parse_node file_data root_addr tree_depth root_nrecords record_size btree_type ndims geom [] 0)"
      using safe_reader.walk_safe[OF chunk_safe assms(1) rs]
      by (simp add: xv parse_node_def)
  qed
  ultimately show ?thesis by (simp add: no_panic_def)
qed

theorem btree_v2_never_panics_witness:
  "parse_name_index [1, 2, 3] 18446744073709551600 7 \<noteq> Inl Panic
    \<and> btree_v2_parse [1, 2, 3] 18446744073709551600 2 \<lparr>geom_chunk_dims = [5], geom_chunk_bytes = 40\<rparr> \<noteq> Inl Panic"
  by (rule btree_v2_never_panics) simp_all

end
