(* ===== verification/Chunk_Geometry.thy ===== *)
theory Chunk_Geometry
  imports Filter_Pipeline Chunk_BTree
begin

text \<open>
  \<^verbatim>\<open>oxih5-format/src/chunked/geometry.rs\<close>: the bytes of one chunk, its filters, and the
  row-major coordinate arithmetic that scatters the elements of a decoded chunk into the
  dataset or into a slice of it.
\<close>

section \<open>Chunk bytes\<close>

definition read_chunk_bytes :: "bytes \<Rightarrow> chunk_record \<Rightarrow> bytes res" where
  "read_chunk_bytes file_data rec =
     and_then (uadd (rec_address rec) (rec_size rec)) (\<lambda>e.
       ok_or (get_range file_data (rec_address rec) e) Format)"

definition apply_filters_to_chunk ::
  "codecs \<Rightarrow> bytes \<Rightarrow> nat \<Rightarrow> filter_pipeline option \<Rightarrow> nat \<Rightarrow> nat option \<Rightarrow> bytes res" where
  "apply_filters_to_chunk c raw filter_mask pipeline elem_size expected_out_len =
     (case pipeline of
        Some p \<Rightarrow> if pipeline_filters p \<noteq> [] then apply_pipeline_sized c raw p filter_mask elem_size expected_out_len
                  else Inr raw
      | None \<Rightarrow> Inr raw)"

section \<open>Strides and coordinates\<close>

text \<open>
  The stride loop runs from the last dimension to the first; each stride is the next one times
  the next extent. \<open>dims[d + 1] as usize\<close> is the identity on a 64-bit target.
\<close>

fun row_major_strides :: "nat list \<Rightarrow> nat list res" where
  "row_major_strides [] = Inr []"
| "row_major_strides [d] = Inr [1]"
| "row_major_strides (d # e # ds) =
     and_then (row_major_strides (e # ds)) (\<lambda>strides.
     and_then (umul (hd strides) e) (\<lambda>s. Inr (s # strides)))"

text \<open>A zero stride leaves coordinate zero and the remainder alone (\<^verbatim>\<open>checked_div\<close>).\<close>

fun flat_to_coords :: "nat \<Rightarrow> nat list \<Rightarrow> nat \<Rightarrow> nat list res" where
  "flat_to_coords flat strides 0 = Inr []"
| "flat_to_coords flat [] (Suc n) = Inl Panic"
| "flat_to_coords flat (s # strides) (Suc n) =
     (if s = 0 then and_then (flat_to_coords flat strides n) (\<lambda>cs. Inr (0 # cs))
      else and_then (flat_to_coords (flat mod s) strides n) (\<lambda>cs. Inr (flat div s # cs)))"

text \<open>\<^verbatim>\<open>iter().product()\<close> and the sum of coordinate times stride, overflow checks included.\<close>

definition product_u64 :: "nat list \<Rightarrow> nat res" where
  "product_u64 dims = fold_res (\<lambda>d acc. umul acc d) dims 1"

definition dot_strides :: "nat list \<Rightarrow> nat list \<Rightarrow> nat res" where
  "dot_strides coords strides =
     fold_res (\<lambda>(c, s) acc. and_then (umul c s) (\<lambda>p. uadd acc p)) (zip coords strides) 0"

section \<open>Scattering a chunk\<close>

text \<open>The loop over the dimensions that stops at the first coordinate outside the dataset.\<close>

fun dataset_flat_at :: "nat list \<Rightarrow> nat list \<Rightarrow> nat list \<Rightarrow> nat list \<Rightarrow> nat list \<Rightarrow> nat \<Rightarrow> nat option res" where
  "dataset_flat_at origin coords dims strides [] acc = Inr (Some acc)"
| "dataset_flat_at origin coords dims strides (d # ds) acc =
     and_then (index origin d) (\<lambda>o_d.
     and_then (index coords d) (\<lambda>c_d.
     and_then (uadd o_d c_d) (\<lambda>dataset_coord.
     and_then (index dims d) (\<lambda>n_d.
       if dataset_coord \<ge> n_d then Inr None
       else
         and_then (index strides d) (\<lambda>s_d.
         and_then (umul dataset_coord s_d) (\<lambda>p.
         and_then (uadd acc p) (\<lambda>acc. dataset_flat_at origin coords dims strides ds acc)))))))"

text \<open>Copy one element if both ends fit, as every scatter loop does.\<close>

definition copy_element :: "bytes \<Rightarrow> bytes \<Rightarrow> nat \<Rightarrow> nat \<Rightarrow> nat \<Rightarrow> bytes res" where
  "copy_element output chunk_data src_flat dst_flat elem_size =
     and_then (umul src_flat elem_size) (\<lambda>src_off.
     and_then (umul dst_flat elem_size) (\<lambda>dst_off.
     and_then (uadd src_off elem_size) (\<lambda>src_end.
       if src_end \<le> length chunk_data then
         and_then (uadd dst_off elem_size) (\<lambda>dst_end.
           if dst_end \<le> length output then
             and_then (slice chunk_data src_off src_end) (\<lambda>bs. put_range output dst_off bs)
           else Inr output)
       else Inr output)))"

definition scatter_chunk :: "bytes \<Rightarrow> nat list \<Rightarrow> bytes \<Rightarrow> nat list \<Rightarrow> nat list \<Rightarrow> nat \<Rightarrow> bytes res" where
  "scatter_chunk output origin chunk_data chunk_dims dataset_dims elem_size =
     (let ndims = length dataset_dims in
      and_then (row_major_strides dataset_dims) (\<lambda>dataset_strides.
      and_then (row_major_strides chunk_dims) (\<lambda>chunk_strides.
      and_then (product_u64 chunk_dims) (\<lambda>chunk_volume.
        if elem_size = 0 then Inl Panic
        else
          let n_chunk_elems = min (length chunk_data div elem_size) chunk_volume in
          fold_res (\<lambda>flat_chunk_idx output.
            and_then (flat_to_coords flat_chunk_idx chunk_strides ndims) (\<lambda>chunk_coords.
            and_then (dataset_flat_at origin chunk_coords dataset_dims dataset_strides [0..<ndims] 0) (\<lambda>r.
              case r of
                None \<Rightarrow> Inr output
              | Some dataset_flat \<Rightarrow> copy_element output chunk_data flat_chunk_idx dataset_flat elem_size)))
            [0..<n_chunk_elems] output))))"

text \<open>A Rust range is a pair of its ends; the collected loops over \<open>0..ndims\<close> index every list.\<close>

type_synonym range = "nat \<times> nat"

definition overlap :: "range list \<Rightarrow> nat list \<Rightarrow> nat list \<Rightarrow> (nat list \<times> nat list) res" where
  "overlap ranges origin chunk_dims =
     and_then (map_res (\<lambda>d. and_then (index ranges d) (\<lambda>r. and_then (index origin d) (\<lambda>o_d. Inr (max (fst r) o_d))))
                 [0..<length ranges]) (\<lambda>ovl_start.
     and_then (map_res (\<lambda>d. and_then (index ranges d) (\<lambda>r. and_then (index origin d) (\<lambda>o_d.
                 and_then (index chunk_dims d) (\<lambda>c_d. and_then (uadd o_d c_d) (\<lambda>e. Inr (min (snd r) e))))))
                 [0..<length ranges]) (\<lambda>ovl_end.
       Inr (ovl_start, ovl_end)))"

definition sub_all :: "nat list \<Rightarrow> nat list \<Rightarrow> nat list res" where
  "sub_all xs ys = map_res (\<lambda>(x, y). usub x y) (zip xs ys)"

definition add_all :: "nat list \<Rightarrow> nat list \<Rightarrow> nat list res" where
  "add_all xs ys = map_res (\<lambda>(x, y). uadd x y) (zip xs ys)"

definition scatter_chunk_slice :: "bytes \<Rightarrow> nat list \<Rightarrow> bytes \<Rightarrow> nat list \<Rightarrow> range list \<Rightarrow> nat \<Rightarrow> bytes res" where
  "scatter_chunk_slice output origin chunk_data chunk_dims ranges elem_size =
     (let ndims = length ranges in
      and_then (sub_all (map snd ranges) (map fst ranges)) (\<lambda>out_dims.
      and_then (row_major_strides out_dims) (\<lambda>out_strides.
      and_then (row_major_strides chunk_dims) (\<lambda>chunk_strides.
      and_then (overlap ranges origin chunk_dims) (\<lambda>(ovl_start, ovl_end).
        if \<exists>d\<in>set [0..<ndims]. ovl_start ! d \<ge> ovl_end ! d then Inr output
        else
          and_then (sub_all ovl_end ovl_start) (\<lambda>ovl_shape.
          and_then (product_u64 ovl_shape) (\<lambda>ovl_elems.
          and_then (row_major_strides ovl_shape) (\<lambda>ovl_strides.
            fold_res (\<lambda>ovl_flat output.
              and_then (flat_to_coords ovl_flat ovl_strides ndims) (\<lambda>ovl_coords.
              and_then (add_all ovl_start ovl_coords) (\<lambda>global.
              and_then (sub_all global origin) (\<lambda>in_chunk.
              and_then (dot_strides in_chunk chunk_strides) (\<lambda>chunk_flat.
              and_then (sub_all global (map fst ranges)) (\<lambda>in_out.
              and_then (dot_strides in_out out_strides) (\<lambda>out_flat.
                copy_element output chunk_data chunk_flat out_flat elem_size)))))))
              [0..<ovl_elems] output))))))))"

section \<open>Row-major order\<close>

text \<open>Suffix products, the flat index of a coordinate vector, and its inverse.\<close>

fun strides_of :: "nat list \<Rightarrow> nat list" where
  "strides_of [] = []"
| "strides_of (d # ds) = prod_list ds # strides_of ds"

fun flat_of :: "nat list \<Rightarrow> nat list \<Rightarrow> nat" where
  "flat_of (d # ds) (c # cs) = c * prod_list ds + flat_of ds cs"
| "flat_of _ _ = 0"

fun coords_of :: "nat list \<Rightarrow> nat \<Rightarrow> nat list" where
  "coords_of [] k = []"
| "coords_of (d # ds) k = (k div prod_list ds) # coords_of ds (k mod prod_list ds)"

abbreviation inside :: "nat list \<Rightarrow> nat list \<Rightarrow> bool" where
  "inside cs dims \<equiv> list_all2 (<) cs dims"

lemma length_strides_of [simp]: "length (strides_of ds) = length ds"
  by (induction ds) auto

lemma length_coords_of [simp]: "length (coords_of ds k) = length ds"
  by (induction ds arbitrary: k) auto

lemma prod_list_pos: "0 \<notin> set ds \<Longrightarrow> 0 < prod_list (ds :: nat list)"
  by (induction ds) auto

lemma coords_of_inside: "k < prod_list ds \<Longrightarrow> inside (coords_of ds k) ds"
proof (induction ds arbitrary: k)
  case (Cons d ds)
  then have pos: "0 < prod_list ds" by (cases "prod_list ds") auto
  then have "k div prod_list ds < d" using Cons.prems by (simp add: less_mult_imp_div_less)
  with Cons pos show ?case by simp
qed simp

lemma flat_coords: "k < prod_list ds \<Longrightarrow> flat_of ds (coords_of ds k) = k"
proof (induction ds arbitrary: k)
  case (Cons d ds)
  then have pos: "0 < prod_list ds" by (cases "prod_list ds") auto
  then show ?case using Cons.IH[of "k mod prod_list ds"] by simp
qed simp

lemma flat_of_less: "inside cs ds \<Longrightarrow> flat_of ds cs < prod_list ds"
  by (induction cs ds rule: list_all2_induct) (auto intro: radix_less)

lemma coords_flat: "inside cs ds \<Longrightarrow> coords_of ds (flat_of ds cs) = cs"
proof (induction cs ds rule: list_all2_induct)
  case (Cons c cs d ds)
  then show ?case using flat_of_less[OF Cons(2)] by simp
qed simp

lemma flat_of_inj: "inside cs ds \<Longrightarrow> inside cs' ds \<Longrightarrow> flat_of ds cs = flat_of ds cs' \<Longrightarrow> cs = cs'"
  by (metis coords_flat)

lemma row_major_strides_eq:
  assumes "0 \<notin> set dims" and "prod_list dims < u64_lim"
  shows "row_major_strides dims = Inr (strides_of dims)"
  using assms
proof (induction dims rule: row_major_strides.induct)
  case (3 d e ds)
  have "1 * prod_list (e # ds) \<le> d * prod_list (e # ds)" using "3.prems"(1) by (intro mult_le_mono1) simp
  moreover have "d * prod_list (e # ds) < u64_lim" using "3.prems"(2) by simp
  ultimately have lim: "prod_list (e # ds) < u64_lim" by linarith
  have "row_major_strides (e # ds) = Inr (strides_of (e # ds))" using "3.IH" "3.prems"(1) lim by simp
  with lim show ?case by (simp add: mult.commute)
qed simp_all

lemma flat_to_coords_eq: "0 \<notin> set ds \<Longrightarrow> flat_to_coords k (strides_of ds) (length ds) = Inr (coords_of ds k)"
proof (induction ds arbitrary: k)
  case (Cons d ds)
  then have "0 < prod_list ds" by (simp add: prod_list_pos)
  then show ?case using Cons by simp
qed simp

lemma fold_umul:
  "0 \<notin> set ds \<Longrightarrow> 0 < acc \<Longrightarrow> acc * prod_list ds < u64_lim \<Longrightarrow> fold_res (\<lambda>d acc. umul acc d) ds acc = Inr (acc * prod_list ds)"
proof (induction ds arbitrary: acc)
  case (Cons d ds)
  have "acc * d * 1 \<le> acc * d * prod_list ds"
    using prod_list_pos[of ds] Cons.prems(1) by (intro mult_le_mono2) simp
  moreover have "acc * d * prod_list ds < u64_lim" using Cons.prems(3) by (simp only: prod_list.Cons mult.assoc)
  ultimately have "acc * d < u64_lim" by linarith
  then show ?case using Cons.IH[of "acc * d"] Cons.prems by (simp add: mult.assoc)
qed simp

lemma product_u64_eq: "0 \<notin> set ds \<Longrightarrow> prod_list ds < u64_lim \<Longrightarrow> product_u64 ds = Inr (prod_list ds)"
  using fold_umul[of ds 1] by (simp add: product_u64_def)

lemma dot_strides_eq:
  assumes "inside cs ds" and "prod_list ds < u64_lim"
  shows "dot_strides cs (strides_of ds) = Inr (flat_of ds cs)"
proof -
  have "fold_res (\<lambda>(c, s) acc. and_then (umul c s) (\<lambda>p. uadd acc p)) (zip cs (strides_of ds)) acc = Inr (acc + flat_of ds cs)"
    if "acc + prod_list ds \<le> u64_lim" for acc
    using assms(1) that
  proof (induction cs ds arbitrary: acc rule: list_all2_induct)
    case (Cons c cs d ds)
    have "Suc c * prod_list ds \<le> d * prod_list ds" using Cons(1) by (intro mult_le_mono1) simp
    then have b: "acc + c * prod_list ds + prod_list ds \<le> u64_lim" using Cons.prems by simp
    have "0 < prod_list ds" using flat_of_less[OF Cons(2)] by simp
    then show ?case using Cons.IH[OF b] b by (simp add: add.assoc)
  qed simp
  from this[of 0] assms(2) show ?thesis by (simp add: dot_strides_def)
qed

text \<open>
  Flat indices and coordinates are inverse to each other: in a shape without empty
  dimensions whose volume fits the machine, every flat index below the volume has coordinates
  inside the shape, and the sum of coordinate times stride is the index again; every coordinate
  vector inside the shape is the coordinates of its own flat index.
\<close>

theorem coordinates_round_trip:
  assumes "0 \<notin> set dims" and "prod_list dims < u64_lim" and "k < prod_list dims"
  shows "\<exists>strides cs. row_major_strides dims = Inr strides \<and> flat_to_coords k strides (length dims) = Inr cs
    \<and> inside cs dims \<and> dot_strides cs strides = Inr k
    \<and> (\<forall>cs'. inside cs' dims \<and> dot_strides cs' strides = Inr k \<longrightarrow> cs' = cs)"
  using row_major_strides_eq[OF assms(1,2)] flat_to_coords_eq[OF assms(1)] coords_of_inside[OF assms(3)]
    dot_strides_eq[OF _ assms(2)] flat_coords[OF assms(3)] flat_of_inj by fastforce

theorem coordinates_round_trip_witness:
  "\<exists>strides cs. row_major_strides [2, 3, 4] = Inr strides \<and> flat_to_coords 17 strides 3 = Inr cs
    \<and> dot_strides cs strides = Inr 17"
  using coordinates_round_trip[of "[2, 3, 4]" 17] by (auto simp: numeral_3_eq_3)

section \<open>What scattering does\<close>

text \<open>The element at a flat index of a buffer.\<close>

definition elem :: "nat \<Rightarrow> bytes \<Rightarrow> nat \<Rightarrow> bytes" where
  "elem es buf i = take es (drop (i * es) buf)"

lemma elem_splice_same: "length blk = es \<Longrightarrow> q * es + es \<le> length buf \<Longrightarrow> elem es (splice buf (q * es) blk) q = blk"
  using splice_slice_same[of "q * es" blk buf] by (simp add: elem_def)

lemma elem_splice_other:
  assumes "length blk = es" and "q * es + es \<le> length buf" and "p \<noteq> q"
  shows "elem es (splice buf (q * es) blk) p = elem es buf p"
proof -
  have "p * es + es \<le> q * es \<or> q * es + es \<le> p * es"
  proof (cases "p < q")
    case True
    then have "Suc p * es \<le> q * es" by (intro mult_le_mono1) simp
    then show ?thesis by simp
  next
    case False
    then have "Suc q * es \<le> p * es" using assms(3) by (intro mult_le_mono1) simp
    then show ?thesis by simp
  qed
  then show ?thesis using splice_slice_other[of "q * es" blk buf "p * es" es] assms(1,2) by (simp add: elem_def)
qed

text \<open>A loop that copies blocks to pairwise different elements of a buffer, or skips.\<close>

lemma copy_loop:
  assumes step: "\<And>x buf. x \<in> set xs \<Longrightarrow> length buf = L \<Longrightarrow>
      f x buf = (case r x of None \<Rightarrow> Inr buf | Some q \<Rightarrow> Inr (splice buf (q * es) (blk x)))"
    and fit: "\<And>x q. x \<in> set xs \<Longrightarrow> r x = Some q \<Longrightarrow> length (blk x) = es \<and> q * es + es \<le> L"
    and inj: "\<And>x y q. x \<in> set xs \<Longrightarrow> y \<in> set xs \<Longrightarrow> r x = Some q \<Longrightarrow> r y = Some q \<Longrightarrow> x = y"
    and L: "length out = L"
  shows "\<exists>out'. fold_res f xs out = Inr out' \<and> length out' = L
    \<and> (\<forall>x\<in>set xs. \<forall>q. r x = Some q \<longrightarrow> elem es out' q = blk x)
    \<and> (\<forall>q. (\<forall>x\<in>set xs. r x \<noteq> Some q) \<longrightarrow> elem es out' q = elem es out q)"
  using step fit inj
proof (induction xs rule: rev_induct)
  case (snoc x xs)
  have "\<exists>out'. fold_res f xs out = Inr out' \<and> length out' = L
      \<and> (\<forall>x\<in>set xs. \<forall>q. r x = Some q \<longrightarrow> elem es out' q = blk x)
      \<and> (\<forall>q. (\<forall>x\<in>set xs. r x \<noteq> Some q) \<longrightarrow> elem es out' q = elem es out q)"
  proof (rule snoc.IH)
    show "f y buf = (case r y of None \<Rightarrow> Inr buf | Some q \<Rightarrow> Inr (splice buf (q * es) (blk y)))"
      if "y \<in> set xs" "length buf = L" for y buf using snoc.prems(1)[of y buf] that by simp
    show "length (blk y) = es \<and> q * es + es \<le> L" if "y \<in> set xs" "r y = Some q" for y q
      using snoc.prems(2)[of y q] that by simp
    show "y = z" if "y \<in> set xs" "z \<in> set xs" "r y = Some q" "r z = Some q" for y z q
      using snoc.prems(3)[of y z q] that by simp
  qed
  then obtain o1 where o1: "fold_res f xs out = Inr o1" "length o1 = L"
      "\<forall>x\<in>set xs. \<forall>q. r x = Some q \<longrightarrow> elem es o1 q = blk x"
      "\<forall>q. (\<forall>x\<in>set xs. r x \<noteq> Some q) \<longrightarrow> elem es o1 q = elem es out q"
    by blast
  show ?case
  proof (cases "r x")
    case None
    then have "fold_res f (xs @ [x]) out = Inr o1"
      using o1(1,2) snoc.prems(1)[of x o1] by (simp add: fold_res_append)
    then show ?thesis using o1 None by auto
  next
    case (Some q)
    let ?o = "splice o1 (q * es) (blk x)"
    have b: "length (blk x) = es" "q * es + es \<le> length o1" using snoc.prems(2)[of x q] Some o1(2) by simp_all
    have f: "fold_res f (xs @ [x]) out = Inr ?o"
      using o1(1,2) snoc.prems(1)[of x o1] Some by (simp add: fold_res_append)
    have same: "elem es ?o q = blk x" by (rule elem_splice_same[OF b])
    have other: "elem es ?o p = elem es o1 p" if "p \<noteq> q" for p by (rule elem_splice_other[OF b that])
    have "elem es ?o p = blk y" if "y \<in> set xs" "r y = Some p" for y p
    proof (cases "p = q")
      case True
      then have "y = x" using snoc.prems(3)[of y x q] that Some by simp
      then show ?thesis using same True by simp
    next
      case False
      then show ?thesis using other o1(3) that by simp
    qed
    moreover have "elem es ?o p = elem es out p" if "\<forall>y\<in>set (xs @ [x]). r y \<noteq> Some p" for p
    proof -
      have "p \<noteq> q" using that Some by auto
      then show ?thesis using other o1(4) that by simp
    qed
    ultimately show ?thesis using f same Some o1(2) b by (intro exI[of _ ?o]) auto
  qed
qed (use L in simp)


lemma nth_strides_of: "k < length ds \<Longrightarrow> strides_of ds ! k = prod_list (drop (Suc k) ds)"
proof (induction ds arbitrary: k)
  case (Cons d ds)
  then show ?case by (cases k) simp_all
qed simp

text \<open>One turn of a coordinate loop: the partial sum stays inside the volume.\<close>

lemma stride_bound:
  assumes "k < length ds" and "c < ds ! k" and "acc + prod_list (drop k ds) \<le> u64_lim" and "0 \<notin> set ds"
  shows "acc + c * (strides_of ds ! k) + prod_list (drop (Suc k) ds) \<le> u64_lim"
    and "acc + c * (strides_of ds ! k) < u64_lim"
proof -
  have "Suc c * prod_list (drop (Suc k) ds) \<le> ds ! k * prod_list (drop (Suc k) ds)"
    using assms(2) by (intro mult_le_mono1) simp
  then show b: "acc + c * (strides_of ds ! k) + prod_list (drop (Suc k) ds) \<le> u64_lim"
    using assms(1,3) by (simp add: nth_strides_of flip: Cons_nth_drop_Suc)
  have "0 < prod_list (drop (Suc k) ds)"
    using assms(4) by (intro prod_list_pos) (meson in_set_dropD)
  with b show "acc + c * (strides_of ds ! k) < u64_lim" by linarith
qed

lemma dataset_flat_at_eq:
  assumes "length origin = length dims" and "length cs = length dims" and "0 \<notin> set dims"
    and "\<And>i. i < length dims \<Longrightarrow> origin ! i + cs ! i < u64_lim"
    and "k \<le> length dims" and "acc + prod_list (drop k dims) \<le> u64_lim"
  shows "dataset_flat_at origin cs dims (strides_of dims) [k..<length dims] acc =
    Inr (let gs = map2 (+) origin cs in
         if inside (drop k gs) (drop k dims) then Some (acc + flat_of (drop k dims) (drop k gs)) else None)"
  using assms(5,6)
proof (induction "length dims - k" arbitrary: k acc)
  case 0
  then show ?case using assms by simp
next
  case (Suc m)
  let ?gs = "map2 (+) origin cs"
  have k: "k < length dims" using Suc(2) by simp
  have up: "[k..<length dims] = k # [Suc k..<length dims]" using k by (simp add: upt_conv_Cons)
  have gk: "?gs ! k = origin ! k + cs ! k" and lg: "length ?gs = length dims" using assms(1,2) k by simp_all
  have dg: "drop k ?gs = (origin ! k + cs ! k) # drop (Suc k) ?gs"
    using gk lg k Cons_nth_drop_Suc[of k ?gs] by simp
  have dd: "drop k dims = dims ! k # drop (Suc k) dims" using k by (simp add: Cons_nth_drop_Suc)
  have ok: "origin ! k + cs ! k < u64_lim" by (rule assms(4)[OF k])
  show ?case
  proof (cases "origin ! k + cs ! k < dims ! k")
    case False
    then show ?thesis using k assms(1,2) ok by (simp add: up dg dd)
  next
    case True
    note b = stride_bound[OF k True Suc.prems(2) assms(3)]
    have m: "m = length dims - Suc k" using Suc(2) by simp
    have mul: "(origin ! k + cs ! k) * strides_of dims ! k < u64_lim" using b(2) by linarith
    have "dataset_flat_at origin cs dims (strides_of dims) [k..<length dims] acc =
      dataset_flat_at origin cs dims (strides_of dims) [Suc k..<length dims] (acc + (origin ! k + cs ! k) * strides_of dims ! k)"
      using k assms(1,2) ok True b(2) mul by (simp add: up)
    also have "\<dots> = Inr (let gs = ?gs in if inside (drop (Suc k) gs) (drop (Suc k) dims)
        then Some (acc + (origin ! k + cs ! k) * strides_of dims ! k + flat_of (drop (Suc k) dims) (drop (Suc k) gs)) else None)"
      using Suc.hyps(1)[OF m, of "acc + (origin ! k + cs ! k) * strides_of dims ! k"] k b(1) by simp
    finally show ?thesis using True k by (simp add: dg dd nth_strides_of Let_def add.assoc)
  qed
qed

lemma copy_element_eq:
  assumes "src * es + es \<le> length chunk" and "dst * es + es \<le> length out"
    and "length chunk \<le> isize_max" and "length out \<le> isize_max"
  shows "copy_element out chunk src dst es = Inr (splice out (dst * es) (elem es chunk src))"
proof -
  have "src * es + es < u64_lim" "dst * es + es < u64_lim" using assms by linarith+
  moreover from this have "src * es < u64_lim" "dst * es < u64_lim" by linarith+
  ultimately show ?thesis
    using assms(1,2) by (simp add: copy_element_def elem_def put_range_def)
qed

lemma elem_in_buffer:
  assumes "i < n"
  shows "i * es + es \<le> n * (es :: nat)"
proof -
  have "Suc i * es \<le> n * es" using assms by (intro mult_le_mono1) simp
  then show ?thesis by simp
qed

lemma length_elem: "i * es + es \<le> length buf \<Longrightarrow> length (elem es buf i) = es"
  by (simp add: elem_def)

lemma map2_add_inj:
  "length cs = length xs \<Longrightarrow> length cs' = length xs \<Longrightarrow> map2 (+) xs cs = map2 (+) xs cs' \<Longrightarrow> cs = (cs' :: nat list)"
  by (rule nth_equalityI) (auto simp: list_eq_iff_nth_eq)

text \<open>A volume in elements of positive size that fits a buffer fits the machine.\<close>

lemma volume_less:
  assumes "prod_list ds * es \<le> isize_max" and "0 < (es :: nat)"
  shows "prod_list ds < u64_lim"
proof -
  have "prod_list ds * 1 \<le> prod_list ds * es" using assms(2) by (intro mult_le_mono2) simp
  with assms(1) show ?thesis by linarith
qed

text \<open>Where an element of a chunk goes: its flat index in the dataset, if it lies inside.\<close>

definition scatter_target :: "nat list \<Rightarrow> nat list \<Rightarrow> nat list \<Rightarrow> nat \<Rightarrow> nat option" where
  "scatter_target origin dims cdims k =
     (let gs = map2 (+) origin (coords_of cdims k) in if inside gs dims then Some (flat_of dims gs) else None)"

lemma scatter_chunk_map:
  fixes es :: nat
  assumes len: "length origin = length dims" "length cdims = length dims"
    and pos: "0 \<notin> set dims" "0 \<notin> set cdims" "0 < es"
    and buf: "length out = prod_list dims * es" "length out \<le> isize_max"
    and chunk: "length data = prod_list cdims * es" "length data \<le> isize_max"
    and fit: "\<forall>i < length dims. origin ! i + cdims ! i \<le> u64_lim"
  shows "\<exists>out'. scatter_chunk out origin data cdims dims es = Inr out' \<and> length out' = length out
    \<and> (\<forall>k < prod_list cdims. \<forall>q. scatter_target origin dims cdims k = Some q \<longrightarrow> elem es out' q = elem es data k)
    \<and> (\<forall>q. (\<forall>k < prod_list cdims. scatter_target origin dims cdims k \<noteq> Some q) \<longrightarrow> elem es out' q = elem es out q)"
proof -
  have vol: "prod_list dims < u64_lim" "prod_list cdims < u64_lim"
    using volume_less[OF _ pos(3), of dims] volume_less[OF _ pos(3), of cdims] buf chunk by simp_all
  define f where "f \<equiv> \<lambda>k output. and_then (flat_to_coords k (strides_of cdims) (length dims)) (\<lambda>chunk_coords.
      and_then (dataset_flat_at origin chunk_coords dims (strides_of dims) [0..<length dims] 0) (\<lambda>r.
        case r of None \<Rightarrow> Inr output | Some dataset_flat \<Rightarrow> copy_element output data k dataset_flat es))"
  have unfold: "scatter_chunk out origin data cdims dims es = fold_res f [0..<prod_list cdims] out"
    using pos(3) chunk(1) vol
    by (simp add: scatter_chunk_def f_def row_major_strides_eq product_u64_eq pos(1,2) Let_def)
  have fits: "q * es + es \<le> length out" if "scatter_target origin dims cdims k = Some q" for k q
    using that buf(1) flat_of_less by (auto simp: scatter_target_def Let_def intro!: elem_in_buffer split: if_splits)
  have srcs: "k * es + es \<le> length data" if "k < prod_list cdims" for k
    using elem_in_buffer[OF that] chunk(1) by simp
  have step: "f k b = (case scatter_target origin dims cdims k of None \<Rightarrow> Inr b | Some q \<Rightarrow> Inr (splice b (q * es) (elem es data k)))"
    if k: "k < prod_list cdims" and b: "length b = length out" for k b
  proof -
    have small: "origin ! i + coords_of cdims k ! i < u64_lim" if "i < length dims" for i
    proof -
      have "coords_of cdims k ! i < cdims ! i"
        using list_all2_nthD2[OF coords_of_inside[OF k], of i] that len by simp
      then show ?thesis using fit that by (meson add_less_cancel_left less_le_trans)
    qed
    have d: "dataset_flat_at origin (coords_of cdims k) dims (strides_of dims) [0..<length dims] 0 = Inr (scatter_target origin dims cdims k)"
      using dataset_flat_at_eq[OF len(1) _ pos(1) small, of 0 0] len(2) vol by (simp add: scatter_target_def Let_def)
    have c: "copy_element b data k q es = Inr (splice b (q * es) (elem es data k))" if "scatter_target origin dims cdims k = Some q" for q
      using fits[OF that] b srcs[OF k] chunk(2) buf(2) by (intro copy_element_eq) simp_all
    show ?thesis
      using d c flat_to_coords_eq[OF pos(2), of k] len(2) by (auto simp: f_def split: option.split)
  qed
  have inj: "k = l" if "k < prod_list cdims" "l < prod_list cdims" "scatter_target origin dims cdims k = Some q" "scatter_target origin dims cdims l = Some q" for k l q
  proof -
    have "map2 (+) origin (coords_of cdims k) = map2 (+) origin (coords_of cdims l)"
      using that(3,4) by (auto simp: scatter_target_def Let_def intro: flat_of_inj split: if_splits)
    then have "coords_of cdims k = coords_of cdims l" by (rule map2_add_inj[rotated 2]) (simp_all add: len)
    then have "flat_of cdims (coords_of cdims k) = flat_of cdims (coords_of cdims l)" by (rule arg_cong)
    then show ?thesis by (simp only: flat_coords[OF that(1)] flat_coords[OF that(2)])
  qed
  have "\<exists>out'. fold_res f [0..<prod_list cdims] out = Inr out' \<and> length out' = length out
      \<and> (\<forall>x\<in>set [0..<prod_list cdims]. \<forall>q. scatter_target origin dims cdims x = Some q \<longrightarrow> elem es out' q = elem es data x)
      \<and> (\<forall>q. (\<forall>x\<in>set [0..<prod_list cdims]. scatter_target origin dims cdims x \<noteq> Some q) \<longrightarrow> elem es out' q = elem es out q)"
  proof (rule copy_loop)
    show "f k b = (case scatter_target origin dims cdims k of None \<Rightarrow> Inr b | Some q \<Rightarrow> Inr (splice b (q * es) (elem es data k)))"
      if "k \<in> set [0..<prod_list cdims]" "length b = length out" for k b using step that by simp
    show "length (elem es data k) = es \<and> q * es + es \<le> length out"
      if "k \<in> set [0..<prod_list cdims]" "scatter_target origin dims cdims k = Some q" for k q
      using that srcs[of k] fits[of k q] length_elem[of k es data] by simp
    show "k = l" if "k \<in> set [0..<prod_list cdims]" "l \<in> set [0..<prod_list cdims]"
      "scatter_target origin dims cdims k = Some q" "scatter_target origin dims cdims l = Some q" for k l q
      using that inj[of k l q] by simp
  qed (rule refl)
  then show ?thesis by (simp add: unfold Ball_def)
qed

text \<open>
  Scattering a decoded chunk into the dataset buffer: the element at chunk coordinates
  \<open>cs\<close> ends at the dataset coordinates \<open>origin + cs\<close> whenever those lie inside the dataset; every
  element of the dataset outside the chunk keeps its value; the buffer keeps its length, and no
  input of these shapes panics. The padding of a chunk at the edge of the dataset is dropped.
\<close>

theorem scatter_chunk_correct:
  assumes "length origin = length dims" "length cdims = length dims"
    and "0 \<notin> set dims" "0 \<notin> set cdims" "0 < es"
    and "length out = prod_list dims * es" "length out \<le> isize_max"
    and "length data = prod_list cdims * es" "length data \<le> isize_max"
    and "\<forall>i < length dims. origin ! i + cdims ! i \<le> u64_lim"
  shows "\<exists>out'. scatter_chunk out origin data cdims dims es = Inr out' \<and> length out' = length out
    \<and> (\<forall>cs. inside cs cdims \<longrightarrow> inside (map2 (+) origin cs) dims \<longrightarrow>
          elem es out' (flat_of dims (map2 (+) origin cs)) = elem es data (flat_of cdims cs))
    \<and> (\<forall>gs. inside gs dims \<longrightarrow> (\<forall>cs. inside cs cdims \<longrightarrow> gs \<noteq> map2 (+) origin cs) \<longrightarrow>
          elem es out' (flat_of dims gs) = elem es out (flat_of dims gs))"
proof -
  obtain out' where o: "scatter_chunk out origin data cdims dims es = Inr out'" "length out' = length out"
      "\<forall>k < prod_list cdims. \<forall>q. scatter_target origin dims cdims k = Some q \<longrightarrow> elem es out' q = elem es data k"
      "\<forall>q. (\<forall>k < prod_list cdims. scatter_target origin dims cdims k \<noteq> Some q) \<longrightarrow> elem es out' q = elem es out q"
    using scatter_chunk_map[OF assms] by (elim exE conjE) (rule that)
  have "elem es out' (flat_of dims (map2 (+) origin cs)) = elem es data (flat_of cdims cs)"
    if "inside cs cdims" "inside (map2 (+) origin cs) dims" for cs
    using that flat_of_less[OF that(1)] by (intro o(3)[rule_format]) (simp_all add: scatter_target_def coords_flat)
  moreover have "elem es out' (flat_of dims gs) = elem es out (flat_of dims gs)"
    if gs: "inside gs dims" and no: "\<And>cs. inside cs cdims \<Longrightarrow> gs \<noteq> map2 (+) origin cs" for gs
  proof (rule o(4)[rule_format])
    fix k assume k: "k < prod_list cdims"
    show "scatter_target origin dims cdims k \<noteq> Some (flat_of dims gs)"
      using no[OF coords_of_inside[OF k]] flat_of_inj[OF gs] by (auto simp: scatter_target_def Let_def split: if_splits)
  qed
  ultimately show ?thesis using o(1,2) by blast
qed

theorem scatter_chunk_correct_witness:
  "\<exists>out'. scatter_chunk [0, 0, 0, 0, 0, 0] [0, 2] [1, 2, 3, 4] [2, 2] [2, 3] 1 = Inr out'
    \<and> length out' = 6 \<and> elem 1 out' 5 = elem 1 [1, 2, 3, 4] 2"
proof -
  have "\<exists>out'. scatter_chunk [0, 0, 0, 0, 0, 0] [0, 2] [1, 2, 3, 4] [2, 2] [2, 3] 1 = Inr out'
      \<and> length out' = length [0 :: byte, 0, 0, 0, 0, 0]
      \<and> (\<forall>cs. inside cs [2, 2] \<longrightarrow> inside (map2 (+) [0, 2] cs) [2, 3] \<longrightarrow>
          elem 1 out' (flat_of [2, 3] (map2 (+) [0, 2] cs)) = elem 1 [1, 2, 3, 4] (flat_of [2, 2] cs))
      \<and> (\<forall>gs. inside gs [2, 3] \<longrightarrow> (\<forall>cs. inside cs [2, 2] \<longrightarrow> gs \<noteq> map2 (+) [0, 2] cs) \<longrightarrow>
          elem 1 out' (flat_of [2, 3] gs) = elem 1 [0, 0, 0, 0, 0, 0] (flat_of [2, 3] gs))"
    by (rule scatter_chunk_correct) (auto simp: less_Suc_eq numeral_2_eq_2)
  moreover have "inside [1, 0 :: nat] [2, 2]" "inside (map2 (+) [0, 2] [1, 0 :: nat]) [2, 3]" by simp_all
  ultimately show ?thesis
    by (elim exE conjE, intro exI conjI) (assumption, simp, (drule spec[of _ "[1, 0]"])+, simp)
qed

end
