(* ===== verification/Fixed_Array.thy ===== *)
theory Fixed_Array
  imports Chunk_Geometry
begin

text \<open>
  \<^verbatim>\<open>oxih5-format/src/fa_index.rs\<close>: the fixed array chunk index of layout version 4. Its
  elements carry no coordinates; the position of an element in the array is the row-major
  index of its chunk in the chunk grid.
\<close>

section \<open>Parser\<close>

definition sig_FAHD :: bytes where
  "sig_FAHD = [0x46, 0x41, 0x48, 0x44]"

definition sig_FADB :: bytes where
  "sig_FADB = [0x46, 0x41, 0x44, 0x42]"

definition fa_max_elements :: nat where
  "fa_max_elements = 16777216"

text \<open>\<open>as u32\<close> keeps the low 32 bits.\<close>

definition as_u32 :: "nat \<Rightarrow> nat" where
  "as_u32 n = n mod u32_lim"

text \<open>Fields at fixed offsets are read through a slice, which panics out of range.\<close>

definition le_at :: "nat \<Rightarrow> bytes \<Rightarrow> nat \<Rightarrow> nat res" where
  "le_at n d p = and_then (uadd p n) (\<lambda>e. and_then (slice d p e) (\<lambda>s. Inr (from_le s)))"

definition parse_offsets :: "bytes \<Rightarrow> nat \<Rightarrow> nat \<Rightarrow> nat list res" where
  "parse_offsets data ndims bytes_per_dim =
     (if ndims = 0 \<or> bytes_per_dim = 0 then Inr []
      else
        map_res (\<lambda>d.
          and_then (umul d bytes_per_dim) (\<lambda>p.
          and_then (uadd p bytes_per_dim) (\<lambda>e.
            if e > length data then Inl Format
            else if bytes_per_dim = 8 then le_at 8 data p
            else if bytes_per_dim = 4 then le_at 4 data p
            else if bytes_per_dim = 2 then le_at 2 data p
            else if bytes_per_dim = 1 then le_at 1 data p
            else Inl Format))) [0..<ndims])"

text \<open>
  The grid of chunks. Without the dataset's dimensions the code falls back to a cubic grid from
  a floating-point root of the element count; that root, \<^verbatim>\<open>powf\<close> rounded up, is the parameter
  \<open>root_ceil\<close>.
\<close>

definition div_ceil_u64 :: "nat \<Rightarrow> nat \<Rightarrow> nat res" where
  "div_ceil_u64 n k = (if k = 0 then Inl Panic else Inr (div_ceil n k))"

definition compute_grid_dims ::
  "(nat \<Rightarrow> nat \<Rightarrow> nat) \<Rightarrow> nat \<Rightarrow> nat \<Rightarrow> nat list \<Rightarrow> nat list \<Rightarrow> nat list res" where
  "compute_grid_dims root_ceil n ndims chunk_dims dataset_dims =
     (if ndims = 0 \<or> n = 0 then Inr []
      else if length chunk_dims = ndims \<and> length dataset_dims = ndims then
        map_res (\<lambda>(cd, dd). div_ceil_u64 dd cd) (zip chunk_dims dataset_dims)
      else
        let dims = replicate ndims (root_ceil n ndims) in
        and_then (product_u64 (take (ndims - 1) dims)) (\<lambda>p.
        and_then (div_ceil_u64 n (max p 1)) (\<lambda>last. Inr (dims[ndims - 1 := last]))))"

text \<open>The coordinates of element \<open>i\<close>, each scaled by the chunk's extent.\<close>

fun grid_offsets :: "nat \<Rightarrow> nat list \<Rightarrow> nat list \<Rightarrow> nat list \<Rightarrow> nat list res" where
  "grid_offsets rem strides chunk_dims [] = Inr []"
| "grid_offsets rem strides chunk_dims (d # ds) =
     and_then (index strides d) (\<lambda>s.
     and_then (index chunk_dims d) (\<lambda>c.
     and_then (umul (if s = 0 then 0 else rem div s) c) (\<lambda>off.
     and_then (grid_offsets (rem mod max s 1) strides chunk_dims ds) (\<lambda>offs. Inr (off # offs)))))"

text \<open>The stored size and filter mask of an element, by client and element size.\<close>

definition fa_size_mask :: "bytes \<Rightarrow> byte \<Rightarrow> nat \<Rightarrow> nat \<Rightarrow> nat \<Rightarrow> (nat \<times> nat) res" where
  "fa_size_mask file_data client_id element_size uncompressed_chunk_bytes e =
     (if client_id = 0 then Inr (as_u32 uncompressed_chunk_bytes, 0)
      else if element_size \<ge> 20 then
        and_then (le_at 8 file_data (e + 8)) (\<lambda>sz.
        and_then (le_at 4 file_data (e + 16)) (\<lambda>fm. Inr (as_u32 sz, fm)))
      else if element_size \<ge> 16 then
        and_then (le_at 4 file_data (e + 8)) (\<lambda>sz.
        and_then (le_at 4 file_data (e + 12)) (\<lambda>fm. Inr (sz, fm)))
      else Inr (0, 0))"

definition fa_offsets :: "bytes \<Rightarrow> nat list \<Rightarrow> nat list \<Rightarrow> nat \<Rightarrow> nat \<Rightarrow> nat \<Rightarrow> nat \<Rightarrow> nat \<Rightarrow> nat list res" where
  "fa_offsets file_data grid_strides chunk_dims ndims element_size i e e_end =
     (if grid_strides \<noteq> [] then grid_offsets i grid_strides chunk_dims [0..<ndims]
      else if element_size \<ge> 16 then
        let offset_bytes = element_size - 16;
            bytes_per_dim = (if ndims > 0 \<and> offset_bytes > 0 then offset_bytes div ndims else 0)
        in and_then (slice file_data (e + 16) e_end) (\<lambda>s. parse_offsets s ndims bytes_per_dim)
      else Inr [])"

record fa_block =
  fa_client :: byte
  fa_elem_start :: nat
  fa_element_size :: nat
  fa_count :: nat

fun fa_loop ::
  "bytes \<Rightarrow> fa_block \<Rightarrow> nat list \<Rightarrow> nat list \<Rightarrow> nat \<Rightarrow> nat \<Rightarrow> nat list \<Rightarrow> chunk_record list \<Rightarrow> chunk_record list res" where
  "fa_loop file_data b grid_strides chunk_dims ndims ucb [] records = Inr records"
| "fa_loop file_data b grid_strides chunk_dims ndims ucb (i # is) records =
     and_then (umul i (fa_element_size b)) (\<lambda>p.
     and_then (uadd (fa_elem_start b) p) (\<lambda>e.
     and_then (uadd e (fa_element_size b)) (\<lambda>e_end.
       if e_end > length file_data then Inr records
       else
         and_then (le_at 8 file_data e) (\<lambda>addr.
           if addr = u64_max then fa_loop file_data b grid_strides chunk_dims ndims ucb is records
           else
             and_then (fa_size_mask file_data (fa_client b) (fa_element_size b) ucb e) (\<lambda>(sz, fm).
             and_then (fa_offsets file_data grid_strides chunk_dims ndims (fa_element_size b) i e e_end) (\<lambda>offs.
               fa_loop file_data b grid_strides chunk_dims ndims ucb is
                 (records @ [\<lparr>rec_address = addr, rec_size = sz, rec_filter_mask = fm, rec_offsets = offs\<rparr>])))))))"

text \<open>The header: element size, element count and data block address.\<close>

definition fa_header :: "bytes \<Rightarrow> nat \<Rightarrow> (nat \<times> nat \<times> nat) res" where
  "fa_header file_data base =
     and_then (ok_or (checked_add base 28) Format) (\<lambda>hdr_end.
       if hdr_end > length file_data then Inl Format
       else
         and_then (slice file_data base (base + 4)) (\<lambda>sig.
           if sig \<noteq> sig_FAHD then Inl Format
           else
             and_then (index file_data (base + 4)) (\<lambda>version.
               if version \<noteq> 0 then Inl Format
               else
                 and_then (index file_data (base + 6)) (\<lambda>element_size.
                 and_then (le_at 8 file_data (base + 8)) (\<lambda>max_nelmts.
                 and_then (le_at 8 file_data (base + 16)) (\<lambda>data_block_addr.
                   Inr (unat element_size, max_nelmts, data_block_addr)))))))"

definition fa_data_block :: "bytes \<Rightarrow> nat \<Rightarrow> nat \<Rightarrow> nat \<Rightarrow> fa_block res" where
  "fa_data_block file_data element_size n db =
     and_then (ok_or (checked_add db 14) Format) (\<lambda>db_hdr_end.
       if db_hdr_end > length file_data then Inl Format
       else
         and_then (slice file_data db (db + 4)) (\<lambda>db_sig.
           if db_sig \<noteq> sig_FADB then Inl Format
           else
             and_then (index file_data (db + 4)) (\<lambda>db_version.
               if db_version \<noteq> 0 then Inl Format
               else
                 and_then (index file_data (db + 5)) (\<lambda>client_id.
                   let elem_start = db + 14;
                       remaining = length file_data - elem_start;
                       max_possible_elements = (if element_size = 0 then 0 else remaining div element_size)
                   in
                     if n > fa_max_elements \<or> n > max_possible_elements then Inl Format
                     else Inr \<lparr>fa_client = client_id, fa_elem_start = elem_start,
                       fa_element_size = element_size, fa_count = n\<rparr>))))"

definition parse_fixed_array_inner ::
  "(nat \<Rightarrow> nat \<Rightarrow> nat) \<Rightarrow> bytes \<Rightarrow> nat \<Rightarrow> nat \<Rightarrow> nat list \<Rightarrow> nat list \<Rightarrow> nat \<Rightarrow> chunk_record list res" where
  "parse_fixed_array_inner root_ceil file_data header_address ndims chunk_dims dataset_dims ucb =
     and_then (fa_header file_data header_address) (\<lambda>(element_size, n, data_block_addr).
       if data_block_addr = u64_max then Inr []
       else
         and_then (fa_data_block file_data element_size n data_block_addr) (\<lambda>b.
         and_then (if chunk_dims \<noteq> [] \<and> ndims = length chunk_dims
                   then compute_grid_dims root_ceil n ndims chunk_dims dataset_dims else Inr []) (\<lambda>grid_dims.
         and_then (if grid_dims \<noteq> [] then row_major_strides grid_dims else Inr []) (\<lambda>grid_strides.
           fa_loop file_data b grid_strides chunk_dims ndims ucb [0..<n] []))))"

definition parse_fixed_array :: "(nat \<Rightarrow> nat \<Rightarrow> nat) \<Rightarrow> bytes \<Rightarrow> nat \<Rightarrow> nat \<Rightarrow> chunk_record list res" where
  "parse_fixed_array root_ceil file_data header_address ndims =
     parse_fixed_array_inner root_ceil file_data header_address ndims [] [] 0"

definition parse_fixed_array_v4 ::
  "(nat \<Rightarrow> nat \<Rightarrow> nat) \<Rightarrow> bytes \<Rightarrow> nat \<Rightarrow> nat \<Rightarrow> nat list \<Rightarrow> nat \<Rightarrow> chunk_record list res" where
  "parse_fixed_array_v4 root_ceil file_data header_address ndims chunk_dims ucb =
     parse_fixed_array_inner root_ceil file_data header_address ndims chunk_dims [] ucb"

definition parse_fixed_array_v4_with_dataset_dims ::
  "(nat \<Rightarrow> nat \<Rightarrow> nat) \<Rightarrow> bytes \<Rightarrow> nat \<Rightarrow> nat \<Rightarrow> nat list \<Rightarrow> nat list \<Rightarrow> nat \<Rightarrow> chunk_record list res" where
  "parse_fixed_array_v4_with_dataset_dims root_ceil file_data header_address ndims chunk_dims dataset_dims ucb =
     parse_fixed_array_inner root_ceil file_data header_address ndims chunk_dims dataset_dims ucb"

section \<open>An element shorter than an address\<close>

text \<open>One element of one byte, in the last byte of the file.\<close>

definition short_element_file :: bytes where
  "short_element_file = sig_FAHD @ [0, 0, 1, 0] @ to_le 8 1 @ to_le 8 28 @ to_le 4 0 @ sig_FADB @ [0, 0] @ to_le 8 0 @ [7]"

lemma length_short_element_file: "length short_element_file = 43"
  by (simp add: short_element_file_def sig_FAHD_def sig_FADB_def)

text \<open>
  The element size of the header is not checked against the eight bytes an address takes, so an
  array whose elements end within eight bytes of the end of the file panics in the slice of the
  address: one element of one byte in the last byte of the file.
\<close>

theorem fixed_array_short_element_panics:
  "parse_fixed_array_v4_with_dataset_dims root_ceil short_element_file 0 1 [4] [4] 32 = Inl Panic"
proof -
  have h: "fa_header short_element_file 0 = Inr (1, 1, 28)"
    by (simp add: fa_header_def short_element_file_def sig_FAHD_def sig_FADB_def le_at_def le_eval)
  have b: "fa_data_block short_element_file 1 1 28 = Inr \<lparr>fa_client = 0, fa_elem_start = 42, fa_element_size = 1, fa_count = 1\<rparr>"
    by (simp add: fa_data_block_def fa_max_elements_def short_element_file_def sig_FAHD_def sig_FADB_def le_eval)
  have g: "compute_grid_dims root_ceil 1 1 [4] [4] = Inr [1]"
    by (simp add: compute_grid_dims_def div_ceil_u64_def div_ceil_def)
  show ?thesis
    by (simp add: parse_fixed_array_v4_with_dataset_dims_def parse_fixed_array_inner_def h b[unfolded One_nat_def] g[unfolded One_nat_def]
        length_short_element_file le_at_def slice_def get_range_def)
qed

section \<open>What a fixed array holds\<close>

lemma le_at_eq: "p + n \<le> length d \<Longrightarrow> p + n < u64_lim \<Longrightarrow> le_at n d p = Inr (field n d p)"
  by (simp add: le_at_def field_def)

definition fa_file :: "bytes \<Rightarrow> nat \<Rightarrow> nat \<Rightarrow> fa_block \<Rightarrow> bool" where
  "fa_file d a db b \<longleftrightarrow>
     a + 28 \<le> length d \<and> take 4 (drop a d) = sig_FAHD \<and> d ! (a + 4) = 0 \<and> unat (d ! (a + 6)) = fa_element_size b
     \<and> field 8 d (a + 8) = fa_count b \<and> field 8 d (a + 16) = db \<and> db < u64_max
     \<and> db + 14 \<le> length d \<and> take 4 (drop db d) = sig_FADB \<and> d ! (db + 4) = 0 \<and> d ! (db + 5) = fa_client b
     \<and> fa_elem_start b = db + 14 \<and> fa_count b \<le> fa_max_elements \<and> 8 \<le> fa_element_size b
     \<and> db + 14 + fa_count b * fa_element_size b \<le> length d"

text \<open>The chunk grid, the record of element \<open>i\<close>, and the records of the allocated elements.\<close>

definition grid_of :: "nat list \<Rightarrow> nat list \<Rightarrow> nat list" where
  "grid_of cdims ddims = map2 (\<lambda>cd dd. div_ceil dd cd) cdims ddims"

definition fa_record :: "bytes \<Rightarrow> fa_block \<Rightarrow> nat list \<Rightarrow> nat list \<Rightarrow> nat \<Rightarrow> nat \<Rightarrow> chunk_record" where
  "fa_record d b cdims ddims ucb i =
     (let e = fa_elem_start b + i * fa_element_size b;
          (sz, fm) = (if fa_client b = 0 then (as_u32 ucb, 0)
                      else if fa_element_size b \<ge> 20 then (as_u32 (field 8 d (e + 8)), field 4 d (e + 16))
                      else if fa_element_size b \<ge> 16 then (field 4 d (e + 8), field 4 d (e + 12))
                      else (0, 0))
      in \<lparr>rec_address = field 8 d e, rec_size = sz, rec_filter_mask = fm,
          rec_offsets = map2 (*) (coords_of (grid_of cdims ddims) i) cdims\<rparr>)"

definition fa_records :: "bytes \<Rightarrow> fa_block \<Rightarrow> nat list \<Rightarrow> nat list \<Rightarrow> nat \<Rightarrow> nat list \<Rightarrow> chunk_record list" where
  "fa_records d b cdims ddims ucb is =
     filter (\<lambda>r. rec_address r \<noteq> u64_max) (map (fa_record d b cdims ddims ucb) is)"

text \<open>Shapes of one rank, no empty dimension, sizes below the machine bound.\<close>

definition grid_ok :: "nat list \<Rightarrow> nat list \<Rightarrow> bool" where
  "grid_ok cdims ddims \<longleftrightarrow> length cdims = length ddims \<and> cdims \<noteq> [] \<and> 0 \<notin> set cdims \<and> 0 \<notin> set ddims
     \<and> (\<forall>dd\<in>set ddims. dd < u64_lim) \<and> prod_list (grid_of cdims ddims) < u64_lim"

lemma div_ceil_coord: "c < div_ceil n k \<Longrightarrow> 0 < k \<Longrightarrow> c * k < n"
proof -
  assume "c < div_ceil n k" "0 < k"
  then have "c < n div k \<or> c = n div k \<and> n mod k \<noteq> 0" by (auto simp: div_ceil_def split: if_splits)
  then show "c * k < n"
  proof
    assume "c < n div k"
    then have "Suc c * k \<le> n div k * k" by (intro mult_le_mono1) simp
    also have "\<dots> \<le> n" by simp
    finally show ?thesis using \<open>0 < k\<close> by simp
  next
    assume c: "c = n div k \<and> n mod k \<noteq> 0"
    then have "c * k + n mod k = n" by simp
    with c show ?thesis by linarith
  qed
qed

lemma grid_of_pos: "grid_ok cdims ddims \<Longrightarrow> 0 \<notin> set (grid_of cdims ddims)"
  by (auto simp: grid_ok_def grid_of_def set_zip in_set_conv_nth) (metis div_ceil_pos not_gr_zero)

lemma length_grid_of: "grid_ok cdims ddims \<Longrightarrow> length (grid_of cdims ddims) = length cdims"
  by (simp add: grid_ok_def grid_of_def)

lemma grid_offsets_eq:
  assumes ok: "grid_ok cdims ddims" and "k \<le> length cdims" and "rem < prod_list (drop k (grid_of cdims ddims))"
  shows "grid_offsets rem (strides_of (grid_of cdims ddims)) cdims [k..<length cdims]
    = Inr (map2 (*) (coords_of (drop k (grid_of cdims ddims)) rem) (drop k cdims))"
  using assms(2,3)
proof (induction "length cdims - k" arbitrary: k rem)
  case 0
  then show ?case by (simp add: length_grid_of[OF ok])
next
  case (Suc m)
  let ?g = "grid_of cdims ddims"
  have k: "k < length cdims" using Suc(2) by simp
  have lg: "length ?g = length cdims" by (rule length_grid_of[OF ok])
  have up: "[k..<length cdims] = k # [Suc k..<length cdims]" using k by (simp add: upt_conv_Cons)
  have dg: "drop k ?g = ?g ! k # drop (Suc k) ?g" using k lg by (simp add: Cons_nth_drop_Suc)
  have dc: "drop k cdims = cdims ! k # drop (Suc k) cdims" using k by (simp add: Cons_nth_drop_Suc)
  have s: "strides_of ?g ! k = prod_list (drop (Suc k) ?g)" using k lg by (simp add: nth_strides_of)
  have pos: "0 < prod_list (drop (Suc k) ?g)"
    using grid_of_pos[OF ok] by (intro prod_list_pos) (meson in_set_dropD)
  let ?q = "rem div prod_list (drop (Suc k) ?g)"
  have "?q < ?g ! k" using Suc.prems(2) dg by (simp add: less_mult_imp_div_less)
  then have "?q * cdims ! k < ddims ! k"
    using k ok by (intro div_ceil_coord) (auto simp: grid_of_def grid_ok_def in_set_conv_nth)
  moreover have "ddims ! k < u64_lim" using k ok by (simp add: grid_ok_def)
  ultimately have mul: "?q * cdims ! k < u64_lim" by linarith
  have m: "m = length cdims - Suc k" using Suc(2) by simp
  have "grid_offsets (rem mod prod_list (drop (Suc k) ?g)) (strides_of ?g) cdims [Suc k..<length cdims]
      = Inr (map2 (*) (coords_of (drop (Suc k) ?g) (rem mod prod_list (drop (Suc k) ?g))) (drop (Suc k) cdims))"
    using Suc(1)[OF m] k pos by simp
  moreover have "max (prod_list (drop (Suc k) ?g)) (Suc 0) = prod_list (drop (Suc k) ?g)" using pos by simp
  ultimately show ?case using k lg s pos mul by (simp add: up dg dc)
qed

lemma compute_grid_dims_eq:
  assumes "grid_ok cdims ddims" and "0 < n"
  shows "compute_grid_dims root_ceil n (length cdims) cdims ddims = Inr (grid_of cdims ddims)"
proof -
  have "map_res (\<lambda>(cd, dd). div_ceil_u64 dd cd) (zip cdims ddims) = Inr (map (\<lambda>(cd, dd). div_ceil dd cd) (zip cdims ddims))"
  proof (rule map_res_total)
    fix x assume "x \<in> set (zip cdims ddims)"
    then have "fst x \<in> set cdims" by (metis prod.collapse set_zip_leftD)
    then have "fst x \<noteq> 0" using assms(1) by (metis grid_ok_def)
    then show "(\<lambda>(cd, dd). div_ceil_u64 dd cd) x = Inr ((\<lambda>(cd, dd). div_ceil dd cd) x)"
      by (cases x) (simp add: div_ceil_u64_def)
  qed
  then show ?thesis using assms by (simp add: compute_grid_dims_def grid_ok_def grid_of_def)
qed

lemma fa_loop_eq:
  assumes f: "fa_file d a db b" and ok: "grid_ok cdims ddims" and n: "fa_count b \<le> prod_list (grid_of cdims ddims)"
    and d: "length d < u64_lim" and sub: "set is \<subseteq> {..<fa_count b}"
  shows "fa_loop d b (strides_of (grid_of cdims ddims)) cdims (length cdims) ucb is recs
    = Inr (recs @ fa_records d b cdims ddims ucb is)"
  using sub
proof (induction "is" arbitrary: recs)
  case (Cons i "is")
  let ?e = "fa_elem_start b + i * fa_element_size b"
  have i: "i < fa_count b" using Cons.prems by simp
  have e: "?e + fa_element_size b \<le> length d"
    using elem_in_buffer[OF i, of "fa_element_size b"] f by (simp add: fa_file_def)
  have es: "8 \<le> fa_element_size b" using f by (simp add: fa_file_def)
  have ne: "strides_of (grid_of cdims ddims) \<noteq> []"
    using length_grid_of[OF ok] ok by (metis grid_ok_def length_0_conv length_strides_of)
  have arith: "i * fa_element_size b < u64_lim" "?e < u64_lim" "?e + fa_element_size b < u64_lim" using e d by linarith+
  have addr: "le_at 8 d ?e = Inr (field 8 d ?e)" using e es d by (intro le_at_eq) linarith+
  have sm: "fa_size_mask d (fa_client b) (fa_element_size b) ucb ?e =
      Inr (rec_size (fa_record d b cdims ddims ucb i), rec_filter_mask (fa_record d b cdims ddims ucb i))"
    using e d by (auto simp: fa_size_mask_def fa_record_def Let_def le_at_eq)
  have offs: "fa_offsets d (strides_of (grid_of cdims ddims)) cdims (length cdims) (fa_element_size b) i ?e (?e + fa_element_size b)
      = Inr (rec_offsets (fa_record d b cdims ddims ucb i))"
    using grid_offsets_eq[OF ok, of 0 i] i n ne by (auto simp: fa_offsets_def fa_record_def Let_def split: prod.split)
  have rec: "rec_address (fa_record d b cdims ddims ucb i) = field 8 d ?e"
    by (simp add: fa_record_def Let_def)
  show ?case
    using Cons arith e addr sm offs rec by (auto simp: fa_records_def)
qed (simp add: fa_records_def)

lemma fa_header_eq: "fa_file d a db b \<Longrightarrow> length d < u64_lim \<Longrightarrow> fa_header d a = Inr (fa_element_size b, fa_count b, db)"
  by (auto simp: fa_header_def fa_file_def le_at_eq)

lemma fa_data_block_eq:
  assumes "fa_file d a db b" and "length d < u64_lim"
  shows "fa_data_block d (fa_element_size b) (fa_count b) db = Inr b"
proof -
  have "fa_count b * fa_element_size b \<le> length d - (db + 14)" "0 < fa_element_size b"
    using assms(1) by (simp_all add: fa_file_def le_diff_conv2)
  then have "fa_count b \<le> (length d - (db + 14)) div fa_element_size b"
    by (metis div_le_mono nonzero_mult_div_cancel_right not_gr_zero)
  then show ?thesis using assms by (cases b) (auto simp: fa_data_block_def fa_file_def Let_def)
qed

text \<open>
  C33. The fixed array chunk index is read as the file stores it: on a file that holds a fixed
  array of elements of at least eight bytes, with no more elements than the chunk grid has
  cells, the parser returns one record for each element whose address is defined, in array order.
  The record's offsets are the coordinates of the element's index in the chunk grid, scaled by the
  chunk extents; size and filter mask come from the element of a filtered array, and are the
  chunk size and zero otherwise.
\<close>

theorem parse_fixed_array_correct:
  assumes "fa_file file_data addr db b" and "grid_ok cdims ddims" and "fa_count b \<le> prod_list (grid_of cdims ddims)"
    and "length file_data \<le> isize_max"
  shows "parse_fixed_array_v4_with_dataset_dims root_ceil file_data addr (length cdims) cdims ddims ucb
    = Inr (fa_records file_data b cdims ddims ucb [0..<fa_count b])"
proof -
  have d: "length file_data < u64_lim" using assms(4) by simp
  have db: "db \<noteq> u64_max" and ne: "cdims \<noteq> []" and vol: "prod_list (grid_of cdims ddims) < u64_lim"
    using assms(1,2) by (simp_all add: fa_file_def grid_ok_def)
  have g: "grid_of cdims ddims \<noteq> []" using length_grid_of[OF assms(2)] ne by auto
  note parts = parse_fixed_array_v4_with_dataset_dims_def parse_fixed_array_inner_def fa_header_eq[OF assms(1) d]
  show ?thesis
  proof (cases "fa_count b = 0")
    case True
    then have "fa_data_block file_data (fa_element_size b) 0 db = Inr b" using fa_data_block_eq[OF assms(1) d] by simp
    with True show ?thesis using db ne by (simp add: parts compute_grid_dims_def fa_records_def)
  next
    case False
    have "fa_loop file_data b (strides_of (grid_of cdims ddims)) cdims (length cdims) ucb [0..<fa_count b] []
        = Inr (fa_records file_data b cdims ddims ucb [0..<fa_count b])"
      using fa_loop_eq[OF assms(1,2,3) d, of "[0..<fa_count b]" ucb "[]"] by (simp add: lessThan_atLeast0)
    with False show ?thesis
      using db ne g compute_grid_dims_eq[OF assms(2), of "fa_count b" root_ceil] row_major_strides_eq[OF grid_of_pos[OF assms(2)] vol]
      by (simp add: parts fa_data_block_eq[OF assms(1) d])
  qed
qed

definition tiny_fixed_array :: bytes where
  "tiny_fixed_array = sig_FAHD @ [0, 0, 8, 0] @ to_le 8 2 @ to_le 8 28 @ to_le 4 0
     @ sig_FADB @ [0, 0] @ to_le 8 0 @ to_le 8 4096 @ to_le 8 u64_max"

theorem parse_fixed_array_correct_witness:
  "parse_fixed_array_v4_with_dataset_dims (\<lambda>n k. n) tiny_fixed_array 0 1 [4] [7] 32
     = Inr [\<lparr>rec_address = 4096, rec_size = 32, rec_filter_mask = 0, rec_offsets = [0]\<rparr>]"
proof -
  let ?b = "\<lparr>fa_client = 0, fa_elem_start = 42, fa_element_size = 8, fa_count = 2\<rparr>"
  have "fa_file tiny_fixed_array 0 28 ?b"
    by (simp add: fa_file_def fa_max_elements_def tiny_fixed_array_def sig_FAHD_def sig_FADB_def field_def le_eval)
  then have "parse_fixed_array_v4_with_dataset_dims (\<lambda>n k. n) tiny_fixed_array 0 (length [4 :: nat]) [4] [7] 32
      = Inr (fa_records tiny_fixed_array ?b [4] [7] 32 [0..<fa_count ?b])"
    by (rule parse_fixed_array_correct)
      (simp_all add: grid_ok_def grid_of_def div_ceil_def tiny_fixed_array_def sig_FAHD_def sig_FADB_def)
  moreover have "fa_records tiny_fixed_array ?b [4] [7] 32 [0, 1]
      = [\<lparr>rec_address = 4096, rec_size = 32, rec_filter_mask = 0, rec_offsets = [0]\<rparr>]"
    by (simp add: fa_records_def fa_record_def grid_of_def div_ceil_def as_u32_def tiny_fixed_array_def
        sig_FAHD_def sig_FADB_def field_def le_eval)
  ultimately show ?thesis by (simp add: upt_rec)
qed

end
