(* ===== verification/Extensible_Array.thy ===== *)
theory Extensible_Array
  imports Fixed_Array
begin

text \<open>
  \<^verbatim>\<open>oxih5-format/src/ea_index\<close>: the extensible array chunk index. \<^verbatim>\<open>header.rs\<close> decodes
  the creation parameters and recomputes the super block table, \<^verbatim>\<open>blocks.rs\<close> walks the index
  block, the super blocks and the data blocks to runs of elements, \<^verbatim>\<open>elements.rs\<close> decodes one
  element and maps its index to the offsets of its chunk, and \<^verbatim>\<open>mod.rs\<close> puts them together.
\<close>

section \<open>Header\<close>

datatype ea_client = Chunk | FilteredChunk nat

record super_block_info =
  sb_ndblks :: nat
  sb_dblk_nelmts :: nat
  sb_start_idx :: nat
  sb_start_dblk :: nat

record ea_header =
  ea_address :: nat
  ea_client_of :: ea_client
  ea_element_size :: nat
  ea_idx_blk_elmts :: nat
  ea_index_block_address :: nat
  ea_arr_off_size :: nat
  ea_ndblk_addrs :: nat
  ea_nsblk_addrs :: nat
  ea_iblk_nsblks :: nat
  ea_dblk_page_nelmts :: nat
  ea_sblks :: "super_block_info list"

definition sig_EAHD :: bytes where "sig_EAHD = [0x45, 0x41, 0x48, 0x44]"
definition sig_EAIB :: bytes where "sig_EAIB = [0x45, 0x41, 0x49, 0x42]"
definition sig_EASB :: bytes where "sig_EASB = [0x45, 0x41, 0x53, 0x42]"
definition sig_EADB :: bytes where "sig_EADB = [0x45, 0x41, 0x44, 0x42]"

definition ea_max_records :: nat where
  "ea_max_records = 16777216"

definition ea_read_u64 :: "bytes \<Rightarrow> nat \<Rightarrow> nat res" where
  "ea_read_u64 d pos =
     and_then (ok_or (checked_add pos 8) Format) (\<lambda>e.
     and_then (ok_or (get_range d pos e) Format) (\<lambda>arr. Inr (from_le arr)))"

definition read_var_uint :: "bytes \<Rightarrow> nat \<Rightarrow> nat \<Rightarrow> nat res" where
  "read_var_uint d pos width =
     (if width = 0 \<or> width > 8 then Inl Format
      else
        and_then (ok_or (checked_add pos width) Format) (\<lambda>e.
        and_then (ok_or (get_range d pos e) Format) (\<lambda>bs. Inr (from_le bs))))"

fun trailing_zeros :: "nat \<Rightarrow> nat" where
  "trailing_zeros n = (if n = 0 \<or> odd n then 0 else Suc (trailing_zeros (n div 2)))"

declare trailing_zeros.simps [simp del]

definition is_power_of_two :: "nat \<Rightarrow> bool" where
  "is_power_of_two n \<longleftrightarrow> n = 2 ^ trailing_zeros n"

definition log2_of2 :: "nat \<Rightarrow> nat res" where
  "log2_of2 v = (if v = 0 \<or> \<not> is_power_of_two v then Inl Format else Inr (trailing_zeros v))"

definition classify_client :: "byte \<Rightarrow> nat \<Rightarrow> ea_client res" where
  "classify_client client_id element_size =
     (if client_id = 0 then (if element_size \<noteq> 8 then Inl Format else Inr Chunk)
      else if client_id = 1 then
        let size_len = element_size - 12 in
        if size_len = 0 \<or> size_len > 8 then Inl Format else Inr (FilteredChunk size_len)
      else Inl NotImplemented)"

text \<open>\<^verbatim>\<open>1u64.checked_shl(k)\<close>, and the table of super blocks, which ends at the first overflow.\<close>

definition checked_shl1 :: "nat \<Rightarrow> nat option" where
  "checked_shl1 k = (if k < 64 then Some (2 ^ k) else None)"

fun sb_loop :: "nat \<Rightarrow> nat list \<Rightarrow> nat \<Rightarrow> nat \<Rightarrow> super_block_info list" where
  "sb_loop min_elmts [] start_idx start_dblk = []"
| "sb_loop min_elmts (u # us) start_idx start_dblk =
     (case (checked_shl1 (u div 2), checked_shl1 (div_ceil u 2)) of
        (Some ndblks, Some pow) \<Rightarrow>
          (case checked_mul pow min_elmts of
             None \<Rightarrow> []
           | Some dblk_nelmts \<Rightarrow>
               \<lparr>sb_ndblks = ndblks, sb_dblk_nelmts = dblk_nelmts, sb_start_idx = start_idx, sb_start_dblk = start_dblk\<rparr> #
               (case checked_mul ndblks dblk_nelmts of
                  None \<Rightarrow> []
                | Some span \<Rightarrow>
                    (case (checked_add start_idx span, checked_add start_dblk ndblks) of
                       (Some next_idx, Some next_dblk) \<Rightarrow> sb_loop min_elmts us next_idx next_dblk
                     | _ \<Rightarrow> [])))
      | _ \<Rightarrow> [])"

definition super_block_table :: "nat \<Rightarrow> nat \<Rightarrow> super_block_info list" where
  "super_block_table nsblks_total data_blk_min_elmts = sb_loop data_blk_min_elmts [0..<nsblks_total] 0 0"

definition ea_header_parse :: "bytes \<Rightarrow> nat \<Rightarrow> ea_header res" where
  "ea_header_parse file_data header_address =
     and_then (ok_or (usize_try_from header_address) Format) (\<lambda>base.
     and_then (ok_or (checked_add base 72) Format) (\<lambda>e.
       if e > length file_data then Inl Format
       else
         and_then (slice file_data base (base + 4)) (\<lambda>sig.
           if sig \<noteq> sig_EAHD then Inl Format
           else
             and_then (index file_data (base + 4)) (\<lambda>version.
               if version \<noteq> 0 then Inl Format
               else
                 and_then (index file_data (base + 5)) (\<lambda>client_id.
                 and_then (map_sum id unat (index file_data (base + 6))) (\<lambda>element_size.
                 and_then (map_sum id unat (index file_data (base + 7))) (\<lambda>max_nelmts_bits.
                 and_then (map_sum id unat (index file_data (base + 8))) (\<lambda>idx_blk_elmts.
                 and_then (map_sum id unat (index file_data (base + 9))) (\<lambda>data_blk_min_elmts.
                 and_then (map_sum id unat (index file_data (base + 10))) (\<lambda>sup_blk_min_data_ptrs.
                 and_then (map_sum id unat (index file_data (base + 11))) (\<lambda>page_bits.
                 and_then (ea_read_u64 file_data (base + 52)) (\<lambda>nelmts.
                 and_then (ea_read_u64 file_data (base + 60)) (\<lambda>index_block_address.
                 and_then (classify_client client_id element_size) (\<lambda>client.
                   if max_nelmts_bits = 0 \<or> max_nelmts_bits > 64 then Inl Format
                   else
                     and_then (log2_of2 data_blk_min_elmts) (\<lambda>dbme_bits.
                     and_then (log2_of2 sup_blk_min_data_ptrs) (\<lambda>sbmdp_bits.
                       if max_nelmts_bits < dbme_bits then Inl Format
                       else
                         let nsblks_total = max_nelmts_bits - dbme_bits + 1;
                             iblk_nsblks = min (2 * sbmdp_bits) nsblks_total;
                             ndblk_addrs = 2 * (sup_blk_min_data_ptrs - 1);
                             nsblk_addrs = nsblks_total - iblk_nsblks
                         in
                           if page_bits \<ge> 64 then Inl Format
                           else if nelmts > length file_data div max element_size 1 then Inl Format
                           else Inr \<lparr>ea_address = header_address, ea_client_of = client,
                             ea_element_size = element_size, ea_idx_blk_elmts = idx_blk_elmts,
                             ea_index_block_address = index_block_address,
                             ea_arr_off_size = div_ceil max_nelmts_bits 8, ea_ndblk_addrs = ndblk_addrs,
                             ea_nsblk_addrs = nsblk_addrs, ea_iblk_nsblks = iblk_nsblks,
                             ea_dblk_page_nelmts = 2 ^ page_bits,
                             ea_sblks = super_block_table nsblks_total data_blk_min_elmts\<rparr>))))))))))))))))"

definition super_block :: "ea_header \<Rightarrow> nat \<Rightarrow> super_block_info res" where
  "super_block h u = ok_or (get_elem (ea_sblks h) u) Format"

definition dblk_npages :: "ea_header \<Rightarrow> nat \<Rightarrow> nat option" where
  "dblk_npages h dblk_nelmts =
     (if dblk_nelmts > ea_dblk_page_nelmts h then Some (div_ceil dblk_nelmts (ea_dblk_page_nelmts h)) else None)"

section \<open>Elements\<close>

record ea_geometry =
  eg_chunk_dims :: "nat list"
  eg_dataset_dims :: "nat list"
  eg_max_dims :: "nat list option"
  eg_chunk_bytes :: nat

record element_locator =
  loc_chunk_dims :: "nat list"
  loc_dataset_dims :: "nat list"
  loc_strides :: "nat list"
  loc_unlim_dim :: nat

text \<open>The grid from the maximum dimensions, the unlimited one left at zero.\<close>

definition ea_grid :: "nat list \<Rightarrow> nat list \<Rightarrow> nat \<Rightarrow> nat list res" where
  "ea_grid max_dims chunk_dims unlim_dim =
     map_res (\<lambda>d.
       if d = unlim_dim then Inr 0
       else
         and_then (index max_dims d) (\<lambda>mx.
         and_then (index chunk_dims d) (\<lambda>c.
         and_then (div_ceil_u64 mx c) (\<lambda>extent. if extent = 0 then Inl Format else Inr extent)))) [0..<length max_dims]"

text \<open>The unlimited dimension rotated to the front.\<close>

definition swizzle :: "nat \<Rightarrow> 'a list \<Rightarrow> 'a list" where
  "swizzle u xs = xs ! u # take u xs @ drop (u + 1) xs"

fun checked_strides :: "nat list \<Rightarrow> nat list res" where
  "checked_strides [] = Inr []"
| "checked_strides [d] = Inr [1]"
| "checked_strides (d # e # ds) =
     and_then (checked_strides (e # ds)) (\<lambda>strides.
     and_then (ok_or (checked_mul (hd strides) e) Format) (\<lambda>s. Inr (s # strides)))"

definition element_locator_new :: "ea_geometry \<Rightarrow> element_locator res" where
  "element_locator_new geom =
     (let rank = length (eg_dataset_dims geom); cdims = eg_chunk_dims geom in
      if rank = 0 then Inl Format
      else if length cdims \<noteq> rank then Inl Format
      else if 0 \<in> set cdims then Inl Format
      else if rank = 1 then
        Inr \<lparr>loc_chunk_dims = cdims, loc_dataset_dims = eg_dataset_dims geom, loc_strides = [1], loc_unlim_dim = 0\<rparr>
      else
        and_then (ok_or (eg_max_dims geom) Format) (\<lambda>max_dims.
          if length max_dims \<noteq> rank then Inl Format
          else
            let unlimited = filter (\<lambda>d. max_dims ! d = u64_max) [0..<rank] in
            if length unlimited \<noteq> 1 then Inl Format
            else
              let unlim_dim = unlimited ! 0 in
              and_then (ea_grid max_dims cdims unlim_dim) (\<lambda>grid.
              and_then (checked_strides (swizzle unlim_dim grid)) (\<lambda>strides.
                Inr \<lparr>loc_chunk_dims = cdims, loc_dataset_dims = eg_dataset_dims geom, loc_strides = strides, loc_unlim_dim = unlim_dim\<rparr>))))"

fun swizzled_coords :: "nat list \<Rightarrow> nat \<Rightarrow> nat list res" where
  "swizzled_coords [] rem = Inr []"
| "swizzled_coords (s # ss) rem =
     (if s = 0 then Inl Format else and_then (swizzled_coords ss (rem mod s)) (\<lambda>cs. Inr (rem div s # cs)))"

definition unswizzle :: "nat \<Rightarrow> 'a list \<Rightarrow> 'a list res" where
  "unswizzle u xs =
     and_then (slice xs 1 (u + 1)) (\<lambda>before.
     and_then (index xs 0) (\<lambda>x.
     and_then (slice xs (u + 1) (length xs)) (\<lambda>after. Inr (before @ [x] @ after))))"

text \<open>Scale the coordinates; a chunk outside the current shape is dropped.\<close>

fun scale_offsets :: "nat list \<Rightarrow> nat list \<Rightarrow> nat list \<Rightarrow> nat list option res" where
  "scale_offsets (c # cs) (extent # es) dims =
     and_then (ok_or (checked_mul c extent) Format) (\<lambda>off.
     and_then (index dims 0) (\<lambda>n.
       if off \<ge> n then Inr None
       else and_then (scale_offsets cs es (tl dims)) (\<lambda>r. Inr (map_option ((#) off) r))))"
| "scale_offsets _ _ dims = Inr (Some [])"

definition offsets_for :: "element_locator \<Rightarrow> nat \<Rightarrow> nat list option res" where
  "offsets_for loc idx =
     and_then (swizzled_coords (loc_strides loc) idx) (\<lambda>swizzled_scaled.
     and_then (unswizzle (loc_unlim_dim loc) swizzled_scaled) (\<lambda>scaled.
       scale_offsets scaled (loc_chunk_dims loc) (loc_dataset_dims loc)))"

record decoded_element =
  el_address :: nat
  el_size :: nat
  el_filter_mask :: nat

definition decode_element :: "bytes \<Rightarrow> nat \<Rightarrow> ea_header \<Rightarrow> nat \<Rightarrow> decoded_element option res" where
  "decode_element file_data off h chunk_bytes =
     and_then (ea_read_u64 file_data off) (\<lambda>address.
       if address = u64_max then Inr None
       else
         (case ea_client_of h of
            Chunk \<Rightarrow> Inr (Some \<lparr>el_address = address, el_size = chunk_bytes, el_filter_mask = 0\<rparr>)
          | FilteredChunk size_len \<Rightarrow>
              and_then (uadd off 8) (\<lambda>size_at.
              and_then (read_var_uint file_data size_at size_len) (\<lambda>stored.
                if stored \<ge> u32_lim then Inl Format
                else
                  and_then (uadd size_at size_len) (\<lambda>mask_at.
                  and_then (uadd mask_at 4) (\<lambda>mask_end.
                  and_then (ok_or (get_range file_data mask_at mask_end) Format) (\<lambda>arr.
                    Inr (Some \<lparr>el_address = address, el_size = stored, el_filter_mask = from_le arr\<rparr>))))))))"

section \<open>Blocks\<close>

record element_run =
  run_offset :: nat
  run_count :: nat
  run_first_index :: nat

definition check_block_prefix :: "bytes \<Rightarrow> nat \<Rightarrow> bytes \<Rightarrow> ea_header \<Rightarrow> nat res" where
  "check_block_prefix file_data address signature h =
     and_then (ok_or (usize_try_from address) Format) (\<lambda>base.
     and_then (ok_or (checked_add base 14) Format) (\<lambda>e.
       if e > length file_data then Inl Format
       else
         and_then (slice file_data base (base + 4)) (\<lambda>sig.
           if sig \<noteq> signature then Inl Format
           else
             and_then (index file_data (base + 4)) (\<lambda>version.
               if version \<noteq> 0 then Inl Format
               else
                 and_then (ea_read_u64 file_data (base + 6)) (\<lambda>back.
                   if back \<noteq> ea_address h then Inl Format else Inr e)))))"

record index_block =
  ib_inline_offset :: nat
  ib_dblk_addrs :: "nat list"
  ib_sblk_addrs :: "nat list"

definition addr_array :: "bytes \<Rightarrow> nat \<Rightarrow> nat \<Rightarrow> nat list res" where
  "addr_array file_data start n =
     map_res (\<lambda>i. and_then (umul i 8) (\<lambda>p. and_then (uadd start p) (ea_read_u64 file_data))) [0..<n]"

definition parse_index_block :: "bytes \<Rightarrow> ea_header \<Rightarrow> index_block res" where
  "parse_index_block file_data h =
     and_then (check_block_prefix file_data (ea_index_block_address h) sig_EAIB h) (\<lambda>after_prefix.
     and_then (ok_or (Option.bind (usize_try_from (ea_idx_blk_elmts h)) (\<lambda>n. checked_mul n (ea_element_size h))) Format) (\<lambda>inline_bytes.
     and_then (ok_or (Option.bind (checked_add (ea_ndblk_addrs h) (ea_nsblk_addrs h)) (\<lambda>n. checked_mul n 8)) Format) (\<lambda>addr_bytes.
     and_then (ok_or (Option.bind (Option.bind (checked_add after_prefix inline_bytes) (\<lambda>v. checked_add v addr_bytes)) (\<lambda>v. checked_add v 4)) Format) (\<lambda>total.
       if total > length file_data then Inl Format
       else
         and_then (uadd after_prefix inline_bytes) (\<lambda>dblk_start.
         and_then (addr_array file_data dblk_start (ea_ndblk_addrs h)) (\<lambda>dblk_addrs.
         and_then (umul (ea_ndblk_addrs h) 8) (\<lambda>p.
         and_then (uadd dblk_start p) (\<lambda>sblk_start.
         and_then (addr_array file_data sblk_start (ea_nsblk_addrs h)) (\<lambda>sblk_addrs.
           Inr \<lparr>ib_inline_offset = after_prefix, ib_dblk_addrs = dblk_addrs, ib_sblk_addrs = sblk_addrs\<rparr>)))))))))"

definition element_base :: "nat \<Rightarrow> nat \<Rightarrow> nat \<Rightarrow> nat \<Rightarrow> nat res" where
  "element_base idx_blk_elmts start_idx k dblk_nelmts =
     ok_or (Option.bind (Option.bind (checked_mul k dblk_nelmts) (\<lambda>v. checked_add v start_idx)) (\<lambda>v. checked_add v idx_blk_elmts)) Format"

definition span_bytes :: "nat \<Rightarrow> nat \<Rightarrow> nat res" where
  "span_bytes count element_size = ok_or (Option.bind (usize_try_from count) (\<lambda>n. checked_mul n element_size)) Format"

definition spend :: "nat \<Rightarrow> nat \<Rightarrow> nat res" where
  "spend budget count = ok_or (checked_sub budget count) Format"

definition bit_is_set :: "bytes \<Rightarrow> nat \<Rightarrow> bool" where
  "bit_is_set bitmap idx =
     (case get_elem bitmap (idx div 8) of None \<Rightarrow> False | Some b \<Rightarrow> bit b (7 - idx mod 8))"

record paged_owner =
  po_bitmap :: bytes
  po_bit_base :: nat
  po_npages :: nat

text \<open>The runs found so far and the elements still allowed, threaded through the walk.\<close>

type_synonym ea_walk = "element_run list \<times> nat"

text \<open>One page of a paged data block: its run if it was ever written.\<close>

definition push_page :: "bytes \<Rightarrow> ea_header \<Rightarrow> nat \<Rightarrow> paged_owner \<Rightarrow> nat \<Rightarrow> nat \<Rightarrow> nat \<Rightarrow> nat \<times> ea_walk \<Rightarrow> (nat \<times> ea_walk) res" where
  "push_page file_data h first_index owner page_span pages_start page s =
     (case s of (remaining, runs, budget) \<Rightarrow>
        and_then (ok_or (usize_try_from page) Format) (\<lambda>page_usize.
        and_then (ok_or (Option.bind (checked_mul page_usize page_span) (checked_add pages_start)) Format) (\<lambda>off.
        let count = min remaining (ea_dblk_page_nelmts h); remaining = remaining - count in
        and_then (span_bytes count (ea_element_size h)) (\<lambda>span.
        and_then (ok_or (Option.bind (checked_add span off) (\<lambda>v. checked_add v 4)) Format) (\<lambda>e.
          if e > length file_data then Inl Format
          else
            and_then (ok_or (checked_add (po_bit_base owner) page) Format) (\<lambda>b.
              if \<not> bit_is_set (po_bitmap owner) b then Inr (remaining, runs, budget)
              else
                and_then (spend budget count) (\<lambda>budget.
                and_then (ok_or (checked_add first_index (saturating_mul page (ea_dblk_page_nelmts h))) Format) (\<lambda>first.
                  Inr (remaining, runs @ [\<lparr>run_offset = off, run_count = count, run_first_index = first\<rparr>], budget)))))))))"

definition push_data_block ::
  "bytes \<Rightarrow> ea_header \<Rightarrow> nat \<Rightarrow> nat \<Rightarrow> nat \<Rightarrow> paged_owner option \<Rightarrow> ea_walk \<Rightarrow> ea_walk res" where
  "push_data_block file_data h address nelmts first_index paged w =
     and_then (check_block_prefix file_data address sig_EADB h) (\<lambda>after_prefix.
     and_then (ok_or (checked_add after_prefix (ea_arr_off_size h)) Format) (\<lambda>after_off.
       case paged of
         None \<Rightarrow>
           if dblk_npages h nelmts \<noteq> None then Inl NotImplemented
           else
             and_then (span_bytes nelmts (ea_element_size h)) (\<lambda>span.
             and_then (ok_or (Option.bind (checked_add after_off span) (\<lambda>v. checked_add v 4)) Format) (\<lambda>e.
               if e > length file_data then Inl Format
               else
                 and_then (spend (snd w) nelmts) (\<lambda>budget.
                   Inr (fst w @ [\<lparr>run_offset = after_off, run_count = nelmts, run_first_index = first_index\<rparr>], budget))))
       | Some owner \<Rightarrow>
           and_then (span_bytes (ea_dblk_page_nelmts h) (ea_element_size h)) (\<lambda>sp.
           and_then (ok_or (checked_add sp 4) Format) (\<lambda>page_span.
           and_then (ok_or (checked_add after_off 4) Format) (\<lambda>pages_start.
           and_then (fold_res (push_page file_data h first_index owner page_span pages_start) [0..<po_npages owner] (nelmts, w)) (\<lambda>s.
             Inr (snd s)))))))"

text \<open>The extent of a super block: where its page bitmask and its address array are.\<close>

definition super_block_layout :: "bytes \<Rightarrow> ea_header \<Rightarrow> super_block_info \<Rightarrow> nat \<Rightarrow> (bytes \<times> nat) res" where
  "super_block_layout file_data h sblk after_prefix =
     and_then (case dblk_npages h (sb_dblk_nelmts sblk) of
         Some n \<Rightarrow>
           and_then (ok_or (usize_try_from (div_ceil n 8)) Format) (\<lambda>per_block.
             ok_or (Option.bind (usize_try_from (sb_ndblks sblk)) (\<lambda>nd. checked_mul nd per_block)) Format)
       | None \<Rightarrow> Inr 0) (\<lambda>page_init_bytes.
     and_then (ok_or (Option.bind (usize_try_from (sb_ndblks sblk)) (\<lambda>nd. checked_mul nd 8)) Format) (\<lambda>addr_area.
     and_then (uadd after_prefix (ea_arr_off_size h)) (\<lambda>bitmask_start.
     and_then (ok_or (checked_add bitmask_start page_init_bytes) Format) (\<lambda>addrs_start.
     and_then (ok_or (Option.bind (checked_add addrs_start addr_area) (\<lambda>v. checked_add v 4)) Format) (\<lambda>e.
       if e > length file_data then Inl Format
       else
         and_then (uadd bitmask_start page_init_bytes) (\<lambda>mask_end.
         and_then (slice file_data bitmask_start mask_end) (\<lambda>page_init. Inr (page_init, addrs_start))))))))"

definition super_block_entry :: "bytes \<Rightarrow> ea_header \<Rightarrow> super_block_info \<Rightarrow> bytes \<Rightarrow> nat \<Rightarrow> nat \<Rightarrow> ea_walk \<Rightarrow> ea_walk res" where
  "super_block_entry file_data h sblk page_init addrs_start k w =
     and_then (ok_or (usize_try_from k) Format) (\<lambda>k_usize.
     and_then (umul k_usize 8) (\<lambda>p.
     and_then (uadd addrs_start p) (\<lambda>pos.
     and_then (ea_read_u64 file_data pos) (\<lambda>dblk_addr.
       if dblk_addr = u64_max then Inr w
       else
         and_then (element_base (ea_idx_blk_elmts h) (sb_start_idx sblk) k (sb_dblk_nelmts sblk)) (\<lambda>first_index.
         let npages = dblk_npages h (sb_dblk_nelmts sblk);
             bit_base = (case Option.bind npages (checked_mul k) of Some b \<Rightarrow> b | None \<Rightarrow> 0)
         in push_data_block file_data h dblk_addr (sb_dblk_nelmts sblk) first_index
              (map_option (\<lambda>n. \<lparr>po_bitmap = page_init, po_bit_base = bit_base, po_npages = n\<rparr>) npages) w)))))"

definition parse_super_block :: "bytes \<Rightarrow> ea_header \<Rightarrow> nat \<Rightarrow> nat \<Rightarrow> ea_walk \<Rightarrow> ea_walk res" where
  "parse_super_block file_data h address u w =
     and_then (super_block h u) (\<lambda>sblk.
     and_then (check_block_prefix file_data address sig_EASB h) (\<lambda>after_prefix.
     and_then (read_var_uint file_data after_prefix (ea_arr_off_size h)) (\<lambda>block_off.
       if block_off \<noteq> sb_start_idx sblk then Inl Format
       else
         and_then (super_block_layout file_data h sblk after_prefix) (\<lambda>(page_init, addrs_start).
           fold_res (super_block_entry file_data h sblk page_init addrs_start) [0..<sb_ndblks sblk] w))))"

text \<open>
  The data blocks of one super block whose addresses sit in the index block; \<open>next\<close> counts the
  addresses used so far, and the inner loop ends when they run out.
\<close>

fun direct_blocks :: "bytes \<Rightarrow> ea_header \<Rightarrow> index_block \<Rightarrow> super_block_info \<Rightarrow> nat list \<Rightarrow> nat \<times> ea_walk \<Rightarrow> (nat \<times> ea_walk) res" where
  "direct_blocks file_data h ib sblk [] s = Inr s"
| "direct_blocks file_data h ib sblk (k # ks) (next_addr, w) =
     (case get_elem (ib_dblk_addrs ib) next_addr of
        None \<Rightarrow> Inr (next_addr, w)
      | Some address \<Rightarrow>
          and_then (uadd next_addr 1) (\<lambda>next_addr.
            if address = u64_max then direct_blocks file_data h ib sblk ks (next_addr, w)
            else
              and_then (element_base (ea_idx_blk_elmts h) (sb_start_idx sblk) k (sb_dblk_nelmts sblk)) (\<lambda>first_index.
              and_then (push_data_block file_data h address (sb_dblk_nelmts sblk) first_index None w) (\<lambda>w.
                direct_blocks file_data h ib sblk ks (next_addr, w)))))"

definition collect_element_runs :: "bytes \<Rightarrow> ea_header \<Rightarrow> index_block \<Rightarrow> element_run list res" where
  "collect_element_runs file_data h ib =
     and_then (fold_res (\<lambda>u s. and_then (super_block h u) (\<lambda>sblk. direct_blocks file_data h ib sblk [0..<sb_ndblks sblk] s))
       [0..<ea_iblk_nsblks h] (0, [], ea_max_records)) (\<lambda>(_, w).
     and_then (fold_res (\<lambda>(j, sblk_addr) w.
         if sblk_addr = u64_max then Inr w
         else
           and_then (ok_or (checked_add (ea_iblk_nsblks h) j) Format) (\<lambda>u.
             parse_super_block file_data h sblk_addr u w))
       (enumerate 0 (ib_sblk_addrs ib)) w) (\<lambda>(runs, _). Inr runs))"

section \<open>The whole index\<close>

definition push_record ::
  "bytes \<Rightarrow> ea_header \<Rightarrow> element_locator \<Rightarrow> nat \<Rightarrow> nat \<Rightarrow> nat \<Rightarrow> chunk_record list \<Rightarrow> chunk_record list res" where
  "push_record file_data h loc chunk_bytes off idx records =
     and_then (decode_element file_data off h chunk_bytes) (\<lambda>el.
       case el of
         None \<Rightarrow> Inr records
       | Some el \<Rightarrow>
           and_then (offsets_for loc idx) (\<lambda>offs.
             case offs of
               None \<Rightarrow> Inr records
             | Some offsets \<Rightarrow>
                 Inr (records @ [\<lparr>rec_address = el_address el, rec_size = el_size el,
                   rec_filter_mask = el_filter_mask el, rec_offsets = offsets\<rparr>])))"

definition push_run ::
  "bytes \<Rightarrow> ea_header \<Rightarrow> element_locator \<Rightarrow> nat \<Rightarrow> element_run \<Rightarrow> chunk_record list \<Rightarrow> chunk_record list res" where
  "push_run file_data h loc chunk_bytes run records =
     fold_res (\<lambda>i records.
       and_then (ok_or (usize_try_from i) Format) (\<lambda>i_usize.
       and_then (umul i_usize (ea_element_size h)) (\<lambda>p.
       and_then (ok_or (checked_add (run_offset run) p) Format) (\<lambda>off.
       and_then (ok_or (checked_add (run_first_index run) i) Format) (\<lambda>idx.
         push_record file_data h loc chunk_bytes off idx records)))))
       [0..<run_count run] records"

definition parse_extensible_array :: "bytes \<Rightarrow> nat \<Rightarrow> ea_geometry \<Rightarrow> chunk_record list res" where
  "parse_extensible_array file_data header_address geom =
     and_then (ea_header_parse file_data header_address) (\<lambda>h.
     and_then (element_locator_new geom) (\<lambda>loc.
       if ea_index_block_address h = u64_max then Inr []
       else
         and_then (parse_index_block file_data h) (\<lambda>ib.
         and_then (fold_res (\<lambda>i records.
             and_then (ok_or (usize_try_from i) Format) (\<lambda>i_usize.
             and_then (umul i_usize (ea_element_size h)) (\<lambda>p.
             and_then (ok_or (checked_add (ib_inline_offset ib) p) Format) (\<lambda>off.
               push_record file_data h loc (eg_chunk_bytes geom) off i records)))
             ) [0..<ea_idx_blk_elmts h] []) (\<lambda>records.
         and_then (collect_element_runs file_data h ib) (\<lambda>runs.
           fold_res (push_run file_data h loc (eg_chunk_bytes geom)) runs records)))))"

section \<open>The super block table\<close>

text \<open>
  What libhdf5 tabulates: super block \<open>u\<close> has \<open>2 ^ (u div 2)\<close> data blocks of
  \<open>2 ^ ((u + 1) div 2)\<close> times the minimum number of elements, and starts behind its predecessors.
\<close>

definition sb_entry :: "nat \<Rightarrow> nat \<Rightarrow> super_block_info" where
  "sb_entry m u = \<lparr>sb_ndblks = 2 ^ (u div 2), sb_dblk_nelmts = 2 ^ ((u + 1) div 2) * m, sb_start_idx = (2 ^ u - 1) * m,
     sb_start_dblk = (\<Sum>v<u. 2 ^ (v div 2))\<rparr>"

lemma div_ceil_2: "div_ceil u 2 = (u + 1) div 2"
  by (simp add: div_ceil_def) presburger

lemma sb_span: "2 ^ (u div 2) * (2 ^ ((u + 1) div 2) * m) = 2 ^ u * (m :: nat)"
proof -
  have "(u div 2) + ((u + 1) div 2) = u" by presburger
  then show ?thesis by (metis mult.assoc power_add)
qed

lemma sum_half_powers: "(\<Sum>v<u. 2 ^ (v div 2) :: nat) < 2 ^ u"
proof (induction u)
  case (Suc u)
  have "(2::nat) ^ (u div 2) \<le> 2 ^ u" by (intro power_increasing) simp_all
  with Suc show ?case unfolding sum.lessThan_Suc power_Suc by linarith
qed simp

lemma geo_step: "(2 ^ Suc u - 1) * m = (2 ^ u - 1) * m + 2 ^ u * (m :: nat)"
proof -
  have "m \<le> 2 ^ u * m" by simp
  then show ?thesis by (simp add: diff_mult_distrib)
qed

lemma two_pow_less: "k < 64 \<Longrightarrow> (2::nat) ^ k < u64_lim"
  using power_strict_increasing[of k 64 "2::nat"] by simp

lemma sb_loop_eq:
  assumes "u + k = n" and "n + b \<le> 65" and "b < 8"
  shows "sb_loop (2 ^ b) [u..<n] ((2 ^ u - 1) * 2 ^ b) (\<Sum>v<u. 2 ^ (v div 2)) = map (sb_entry (2 ^ b)) [u..<n]"
  using assms(1)
proof (induction k arbitrary: u)
  case (Suc k)
  have up: "[u..<n] = u # [Suc u..<n]" using Suc.prems by (simp add: upt_conv_Cons)
  have u: "u + b \<le> 64" using Suc.prems assms(2) by simp
  have shl: "checked_shl1 (u div 2) = Some (2 ^ (u div 2))" "checked_shl1 (div_ceil u 2) = Some (2 ^ ((u + 1) div 2))"
    using u by (simp_all add: checked_shl1_def div_ceil_2)
  have "(u + 1) div 2 + b < 64" using u assms(3) by linarith
  then have nel: "2 ^ ((u + 1) div 2) * 2 ^ b < u64_lim" using two_pow_less by (simp flip: power_add)
  have span: "2 ^ (u div 2) * (2 ^ ((u + 1) div 2) * 2 ^ b) = (2::nat) ^ (u + b)"
    by (simp only: sb_span power_add)
  have nm: "checked_mul (2 ^ ((u + 1) div 2)) (2 ^ b) = Some (2 ^ ((u + 1) div 2) * 2 ^ b)" using nel by simp
  show ?case
  proof (cases "u + b = 64")
    case True
    then have "[Suc u..<n] = []" using assms(2) Suc.prems by simp
    moreover have "checked_mul (2 ^ (u div 2)) (2 ^ ((u + 1) div 2) * 2 ^ b) = None"
      by (simp only: checked_mul_def span True) simp
    ultimately show ?thesis using nm
      by (simp only: up sb_loop.simps shl option.case prod.case sb_entry_def[of _ u] list.map)
  next
    case False
    then have ub: "u + b < 64" using u by simp
    then have sp: "checked_mul (2 ^ (u div 2)) (2 ^ ((u + 1) div 2) * 2 ^ b) = Some (2 ^ (u + b))"
      using two_pow_less[OF ub] by (simp only: checked_mul_def span if_True)
    have next_idx: "(2 ^ u - 1) * 2 ^ b + 2 ^ (u + b) = (2 ^ Suc u - 1) * (2::nat) ^ b"
      by (simp add: power_add algebra_simps)
    have "(2 ^ Suc u - 1) * (2::nat) ^ b < 2 ^ Suc u * 2 ^ b" by simp
    also have "\<dots> = 2 ^ (Suc u + b)" by (simp add: power_add)
    also have "\<dots> \<le> 2 ^ 64" using ub by (intro power_increasing) simp_all
    finally have lim: "(2 ^ u - 1) * 2 ^ b + 2 ^ (u + b) < u64_lim" unfolding next_idx by simp
    have "(\<Sum>v<Suc u. 2 ^ (v div 2) :: nat) < u64_lim"
    proof -
      have "(2::nat) ^ Suc u \<le> 2 ^ 64" using ub by (intro power_increasing) simp_all
      with sum_half_powers[of "Suc u"] show ?thesis by simp
    qed
    then have dblk: "checked_add (\<Sum>v<u. 2 ^ (v div 2)) (2 ^ (u div 2)) = Some (\<Sum>v<Suc u. 2 ^ (v div 2))" by simp
    have idx: "checked_add ((2 ^ u - 1) * 2 ^ b) (2 ^ (u + b)) = Some ((2 ^ Suc u - 1) * 2 ^ b)"
      using lim by (simp only: checked_add_def next_idx if_True)
    have rest: "sb_loop (2 ^ b) [Suc u..<n] ((2 ^ Suc u - 1) * 2 ^ b) (\<Sum>v<Suc u. 2 ^ (v div 2)) = map (sb_entry (2 ^ b)) [Suc u..<n]"
      using Suc.IH[of "Suc u"] Suc.prems by simp
    show ?thesis
      using nm sp dblk idx rest by (simp only: up sb_loop.simps shl option.case prod.case sb_entry_def[of _ u] list.map)
  qed
qed simp

text \<open>
  The super block table is complete and tiles the element index space: for any creation
  parameters the header parser accepts, no entry is cut off by the overflow checks, entry \<open>u\<close> has
  the block counts libhdf5 computes, and starts exactly where the elements of its predecessors end.
\<close>

theorem super_block_table_correct:
  assumes "b < 8" and "b \<le> bits" and "bits \<le> 64"
  shows "let tab = super_block_table (bits - b + 1) (2 ^ b) in
    tab = map (sb_entry (2 ^ b)) [0..<bits - b + 1]
    \<and> (\<forall>u < length tab. sb_start_idx (tab ! u) = (\<Sum>v<u. sb_ndblks (tab ! v) * sb_dblk_nelmts (tab ! v)))"
proof -
  have tab: "super_block_table (bits - b + 1) (2 ^ b) = map (sb_entry (2 ^ b)) [0..<bits - b + 1]"
    using sb_loop_eq[of 0 "bits - b + 1" "bits - b + 1" b] assms by (simp add: super_block_table_def)
  have "sb_start_idx (sb_entry (2 ^ b) u) = (\<Sum>v<u. sb_ndblks (sb_entry (2 ^ b) v) * sb_dblk_nelmts (sb_entry (2 ^ b) v))" for u
  proof (induction u)
    case (Suc u)
    have "sb_ndblks (sb_entry (2 ^ b) u) * sb_dblk_nelmts (sb_entry (2 ^ b) u) = 2 ^ u * 2 ^ b"
      by (simp only: sb_entry_def super_block_info.simps sb_span)
    with Suc show ?case by (simp only: sum.lessThan_Suc) (simp only: sb_entry_def super_block_info.simps geo_step)
  qed (simp add: sb_entry_def)
  then show ?thesis unfolding Let_def tab by (simp del: upt_Suc)
qed

theorem super_block_table_correct_witness:
  "let tab = super_block_table (32 - 4 + 1) (2 ^ 4) in
    tab = map (sb_entry (2 ^ 4)) [0..<32 - 4 + 1]
    \<and> (\<forall>u < length tab. sb_start_idx (tab ! u) = (\<Sum>v<u. sb_ndblks (tab ! v) * sb_dblk_nelmts (tab ! v)))"
  by (rule super_block_table_correct) simp_all

section \<open>Element indices and chunk coordinates\<close>

lemma length_swizzle [simp]: "u < length xs \<Longrightarrow> length (swizzle u xs) = length xs"
  by (simp add: swizzle_def)

lemma unswizzle_swizzle: "u < length xs \<Longrightarrow> unswizzle u (swizzle u xs) = Inr xs"
proof -
  assume u: "u < length xs"
  have "take u (take u xs @ drop (u + 1) xs) = take u xs" using u by simp
  moreover have "drop (u + 1) (xs ! u # take u xs @ drop (u + 1) xs) = drop (u + 1) xs" using u by simp
  ultimately have "unswizzle u (swizzle u xs) = Inr (take u xs @ [xs ! u] @ drop (u + 1) xs)"
    using u by (simp add: unswizzle_def swizzle_def)
  also have "take u xs @ [xs ! u] @ drop (u + 1) xs = xs" using u by (simp add: id_take_nth_drop[symmetric])
  finally show ?thesis .
qed

lemma checked_strides_eq: "0 \<notin> set (tl ds) \<Longrightarrow> prod_list (tl ds) < u64_lim \<Longrightarrow> checked_strides ds = Inr (strides_of ds)"
proof (induction ds rule: checked_strides.induct)
  case (3 d e ds)
  have "1 * prod_list ds \<le> e * prod_list ds" using "3.prems"(1) by (intro mult_le_mono1) simp
  moreover have "e * prod_list ds < u64_lim" using "3.prems"(2) by simp
  ultimately have "prod_list ds < u64_lim" by linarith
  with 3 show ?case by (simp add: mult.commute)
qed simp_all

text \<open>The extent of the first dimension does not enter the arithmetic.\<close>

lemma swizzled_coords_eq:
  "inside cs ds \<Longrightarrow> swizzled_coords (strides_of (g # ds)) (flat_of (g # ds) (c # cs)) = Inr (c # cs)"
proof (induction cs ds arbitrary: g c rule: list_all2_induct)
  case (Cons c' cs d ds)
  have less: "flat_of (d # ds) (c' # cs) < prod_list (d # ds)" by (rule flat_of_less) (use Cons in simp)
  have "swizzled_coords (strides_of (d # ds)) (flat_of (d # ds) (c' # cs)) = Inr (c' # cs)" by (rule Cons.IH)
  moreover have "flat_of (g # d # ds) (c # c' # cs) = c * prod_list (d # ds) + flat_of (d # ds) (c' # cs)" by simp
  ultimately show ?case using less by (simp del: flat_of.simps(1) prod_list.Cons)
qed simp

lemma scale_offsets_eq:
  assumes "length cs = length dims" and "length es = length dims" and "\<forall>n\<in>set dims. n \<le> u64_max"
    and "\<forall>i < length cs. cs ! i * es ! i < u64_lim"
  shows "scale_offsets cs es dims = Inr (if list_all2 (<) (map2 (*) cs es) dims then Some (map2 (*) cs es) else None)"
  using assms
proof (induction dims arbitrary: cs es)
  case (Cons n dims)
  obtain c cs' e es' where ce: "cs = c # cs'" "es = e # es'" using Cons.prems(1,2) by (metis length_Suc_conv)
  have "scale_offsets cs' es' dims = Inr (if list_all2 (<) (map2 (*) cs' es') dims then Some (map2 (*) cs' es') else None)"
    using Cons.prems ce by (intro Cons.IH) auto
  moreover have "c * e < u64_lim" using Cons.prems(4) ce by (auto dest: spec[of _ 0])
  ultimately show ?case by (simp add: ce)
qed simp

text \<open>A dataset with one unlimited dimension \<open>u\<close>, and the chunk grid of its maximum dimensions.\<close>

definition one_unlimited :: "ea_geometry \<Rightarrow> nat list \<Rightarrow> nat \<Rightarrow> bool" where
  "one_unlimited geom max_dims u \<longleftrightarrow>
     eg_max_dims geom = Some max_dims \<and> 2 \<le> length (eg_dataset_dims geom)
     \<and> length (eg_chunk_dims geom) = length (eg_dataset_dims geom) \<and> length max_dims = length (eg_dataset_dims geom)
     \<and> 0 \<notin> set (eg_chunk_dims geom) \<and> (\<forall>n\<in>set (eg_dataset_dims geom). n \<le> u64_max)
     \<and> u < length max_dims \<and> max_dims ! u = u64_max
     \<and> (\<forall>d < length max_dims. d \<noteq> u \<longrightarrow> 0 < max_dims ! d \<and> max_dims ! d < u64_max)"

definition max_grid :: "ea_geometry \<Rightarrow> nat list \<Rightarrow> nat \<Rightarrow> nat list" where
  "max_grid geom max_dims u =
     map (\<lambda>d. if d = u then 0 else div_ceil (max_dims ! d) (eg_chunk_dims geom ! d)) [0..<length max_dims]"

lemma filter_unlimited:
  assumes "u < n" and "\<And>d. d < n \<Longrightarrow> P d \<longleftrightarrow> d = u"
  shows "filter P [0..<n] = [u]"
proof -
  have up: "[0..<n] = [0..<u] @ u # [Suc u..<n]" using assms(1)
    by (metis upt_add_eq_append upt_conv_Cons le_add_diff_inverse less_imp_le le0)
  have "filter P [0..<n] = filter (\<lambda>d. d = u) [0..<n]" by (rule filter_cong) (use assms(2) in auto)
  then show ?thesis unfolding up by (simp add: filter_empty_conv)
qed

lemma in_swizzle_rest:
  assumes "x \<in> set (tl (swizzle u xs))"
  shows "\<exists>d < length xs. d \<noteq> u \<and> xs ! d = x"
proof -
  have "x \<in> set (take u xs) \<or> x \<in> set (drop (u + 1) xs)" using assms by (simp add: swizzle_def)
  then show ?thesis
  proof
    assume "x \<in> set (take u xs)"
    then show ?thesis by (force simp: in_set_conv_nth)
  next
    assume "x \<in> set (drop (u + 1) xs)"
    then obtain i where "i < length xs - (u + 1)" "x = xs ! (u + 1 + i)" by (auto simp: in_set_conv_nth)
    then show ?thesis by (intro exI[of _ "u + 1 + i"]) simp
  qed
qed

lemma ea_grid_eq:
  assumes "one_unlimited geom max_dims u"
  shows "ea_grid max_dims (eg_chunk_dims geom) u = Inr (max_grid geom max_dims u)"
  unfolding ea_grid_def max_grid_def
proof (rule map_res_total)
  fix d assume "d \<in> set [0..<length max_dims]"
  then have d: "d < length max_dims" "d < length (eg_chunk_dims geom)" using assms by (simp_all add: one_unlimited_def)
  have c: "eg_chunk_dims geom ! d \<noteq> 0"
    using assms d(2) by (metis nth_mem one_unlimited_def)
  have "0 < div_ceil (max_dims ! d) (eg_chunk_dims geom ! d)" if "d \<noteq> u"
    using assms[unfolded one_unlimited_def] d c that by (intro div_ceil_pos) auto
  then show "(if d = u then Inr 0
       else and_then (index max_dims d) (\<lambda>mx. and_then (index (eg_chunk_dims geom) d) (\<lambda>c.
            and_then (div_ceil_u64 mx c) (\<lambda>extent. if extent = 0 then Inl Format else Inr extent))))
    = Inr (if d = u then 0 else div_ceil (max_dims ! d) (eg_chunk_dims geom ! d))"
    using d c by (cases "d = u") (simp_all add: div_ceil_u64_def)
qed

lemma element_locator_eq:
  assumes "one_unlimited geom max_dims u" and "prod_list (tl (swizzle u (max_grid geom max_dims u))) < u64_lim"
  shows "element_locator_new geom = Inr \<lparr>loc_chunk_dims = eg_chunk_dims geom, loc_dataset_dims = eg_dataset_dims geom,
    loc_strides = strides_of (swizzle u (max_grid geom max_dims u)), loc_unlim_dim = u\<rparr>"
proof -
  note a = assms(1)[unfolded one_unlimited_def]
  have f: "filter (\<lambda>d. max_dims ! d = u64_max) [0..<length (eg_dataset_dims geom)] = [u]"
    using a by (intro filter_unlimited) auto
  have pos: "0 < max_grid geom max_dims u ! d" if "d < length max_dims" "d \<noteq> u" for d
  proof -
    have "eg_chunk_dims geom ! d \<noteq> 0" using a that by (metis nth_mem)
    then show ?thesis using a that by (auto simp: max_grid_def intro!: div_ceil_pos)
  qed
  have "0 \<notin> set (tl (swizzle u (max_grid geom max_dims u)))"
  proof
    assume "0 \<in> set (tl (swizzle u (max_grid geom max_dims u)))"
    then obtain d where "d < length max_dims" "d \<noteq> u" "max_grid geom max_dims u ! d = 0"
      using in_swizzle_rest by (fastforce simp: max_grid_def)
    with pos show False by fastforce
  qed
  then have "checked_strides (swizzle u (max_grid geom max_dims u)) = Inr (strides_of (swizzle u (max_grid geom max_dims u)))"
    using assms(2) by (rule checked_strides_eq)
  moreover have "eg_dataset_dims geom \<noteq> []" using a by auto
  ultimately show ?thesis
    using a f ea_grid_eq[OF assms(1)] by (simp add: element_locator_new_def Let_def)
qed

lemma inside_swizzle:
  assumes "length cs = length gs" and "u < length gs" and "\<And>d. d < length gs \<Longrightarrow> d \<noteq> u \<Longrightarrow> cs ! d < gs ! d"
  shows "inside (take u cs @ drop (u + 1) cs) (take u gs @ drop (u + 1) gs)"
  using assms by (intro list_all2_appendI) (auto simp: list_all2_conv_all_nth)

text \<open>
  An element of an extensible array finds its chunk: in a dataset with one unlimited
  dimension \<open>u\<close>, the element whose index is the row-major index of the chunk coordinates \<open>cs\<close> with
  dimension \<open>u\<close> rotated to the front gets the offsets \<open>cs\<close> times the chunk extents, and is left
  out exactly when they lie outside the current shape. The extent of the unlimited dimension plays
  no part, so the indices stay valid as the dataset grows.
\<close>

theorem element_index_correct:
  assumes "one_unlimited geom max_dims u" and "prod_list (tl (swizzle u (max_grid geom max_dims u))) < u64_lim"
    and "length cs = length max_dims" and "\<forall>d < length cs. d \<noteq> u \<longrightarrow> cs ! d < max_grid geom max_dims u ! d"
    and "\<forall>d < length cs. cs ! d * eg_chunk_dims geom ! d < u64_lim"
  shows "\<exists>loc. element_locator_new geom = Inr loc
    \<and> offsets_for loc (flat_of (swizzle u (max_grid geom max_dims u)) (swizzle u cs)) =
        Inr (let offs = map2 (*) cs (eg_chunk_dims geom) in
             if list_all2 (<) offs (eg_dataset_dims geom) then Some offs else None)"
proof -
  let ?g = "max_grid geom max_dims u"
  note a = assms(1)[unfolded one_unlimited_def]
  have len: "length ?g = length max_dims" by (simp add: max_grid_def)
  have "inside (take u cs @ drop (u + 1) cs) (take u ?g @ drop (u + 1) ?g)"
    using assms(3,4) a len by (intro inside_swizzle) simp_all
  from swizzled_coords_eq[OF this, of "?g ! u" "cs ! u"]
  have sc: "swizzled_coords (strides_of (swizzle u ?g)) (flat_of (swizzle u ?g) (swizzle u cs)) = Inr (swizzle u cs)"
    by (simp only: swizzle_def)
  have "scale_offsets cs (eg_chunk_dims geom) (eg_dataset_dims geom) =
      Inr (let offs = map2 (*) cs (eg_chunk_dims geom) in if list_all2 (<) offs (eg_dataset_dims geom) then Some offs else None)"
    using a assms(3,5) unfolding Let_def by (intro scale_offsets_eq) simp_all
  then show ?thesis
    using element_locator_eq[OF assms(1,2)] sc unswizzle_swizzle[of u cs] a assms(3) by (simp add: offsets_for_def)
qed

definition rows_geometry :: ea_geometry where
  "rows_geometry = \<lparr>eg_chunk_dims = [2, 5], eg_dataset_dims = [4, 7], eg_max_dims = Some [4, u64_max], eg_chunk_bytes = 40\<rparr>"

theorem element_index_correct_witness:
  "\<exists>loc. element_locator_new rows_geometry = Inr loc \<and> offsets_for loc 3 = Inr (Some [2, 5])"
proof -
  have "\<exists>loc. element_locator_new rows_geometry = Inr loc
    \<and> offsets_for loc (flat_of (swizzle 1 (max_grid rows_geometry [4, u64_max] 1)) (swizzle 1 [1, 1])) =
        Inr (let offs = map2 (*) [1, 1] (eg_chunk_dims rows_geometry) in
             if list_all2 (<) offs (eg_dataset_dims rows_geometry) then Some offs else None)"
    by (rule element_index_correct)
      (auto simp: one_unlimited_def rows_geometry_def max_grid_def swizzle_def div_ceil_def less_Suc_eq)
  moreover have "flat_of (swizzle 1 (max_grid rows_geometry [4, u64_max] 1)) (swizzle 1 [1, 1]) = 3"
    by (simp add: rows_geometry_def max_grid_def swizzle_def div_ceil_def)
  ultimately show ?thesis by (simp add: rows_geometry_def Let_def)
qed

section \<open>Absence of panics\<close>

lemma ea_read_u64_safe [simp]: "no_panic (ea_read_u64 d p)"
  by (auto simp: ea_read_u64_def intro!: no_panic_and_then)

lemma ea_read_u64_Inr: "ea_read_u64 d p = Inr v \<Longrightarrow> p + 8 \<le> length d \<and> p + 8 < u64_lim"
  by (auto simp: ea_read_u64_def get_range_Some_iff)

lemma read_var_uint_safe [simp]: "no_panic (read_var_uint d p w)"
  by (auto simp: read_var_uint_def intro!: no_panic_and_then)

lemma read_var_uint_Inr: "read_var_uint d p w = Inr v \<Longrightarrow> p + w \<le> length d \<and> p + w < u64_lim"
  by (auto simp: read_var_uint_def get_range_Some_iff split: if_splits)

lemma index_unat_safe [simp]: "no_panic (map_sum id unat (index d i)) \<longleftrightarrow> i < length d"
  by (auto simp: index_def get_elem_def no_panic_def)

lemma check_block_prefix_safe: "length d \<le> isize_max \<Longrightarrow> no_panic (check_block_prefix d a sig h)"
  by (auto simp: check_block_prefix_def intro!: no_panic_and_then)

lemma check_block_prefix_Inr: "check_block_prefix d a sig h = Inr e \<Longrightarrow> e \<le> length d"
  by (auto simp: check_block_prefix_def split: if_splits)

lemma log2_of2_safe [simp]: "no_panic (log2_of2 v)"
  by (simp add: log2_of2_def)

lemma classify_client_safe [simp]: "no_panic (classify_client c es)"
  by (simp add: classify_client_def Let_def)

lemma ea_header_safe: "length d \<le> isize_max \<Longrightarrow> no_panic (ea_header_parse d a)"
  unfolding ea_header_parse_def Let_def by (intro no_panic_and_then) (auto intro!: no_panic_and_then)

lemma addr_array_safe:
  assumes "start + n * 8 \<le> length d" and "length d \<le> isize_max"
  shows "no_panic (addr_array d start n)"
  unfolding addr_array_def
proof (rule map_res_no_panic)
  fix i assume "i \<in> set [0..<n]"
  then have "i * 8 + 8 \<le> n * 8" by simp
  then have "i * 8 < u64_lim" "start + i * 8 < u64_lim" using assms by linarith+
  then show "no_panic (and_then (umul i 8) (\<lambda>p. and_then (uadd start p) (ea_read_u64 d)))" by simp
qed

lemma parse_index_block_safe:
  assumes "length d \<le> isize_max"
  shows "no_panic (parse_index_block d h)"
    and "parse_index_block d h = Inr ib \<Longrightarrow>
      ib_inline_offset ib + ea_idx_blk_elmts h * ea_element_size h \<le> length d \<and> length (ib_dblk_addrs ib) \<le> length d"
proof -
  show "no_panic (parse_index_block d h)"
    unfolding parse_index_block_def
    by (auto intro!: no_panic_and_then check_block_prefix_safe[OF assms] addr_array_safe[OF _ assms]
        simp: algebra_simps Option.bind_eq_Some_conv split: if_splits)
  show "parse_index_block d h = Inr ib \<Longrightarrow>
      ib_inline_offset ib + ea_idx_blk_elmts h * ea_element_size h \<le> length d \<and> length (ib_dblk_addrs ib) \<le> length d"
    by (auto simp: parse_index_block_def addr_array_def algebra_simps Option.bind_eq_Some_conv split: if_splits dest!: map_res_length)
qed

definition runs_ok :: "bytes \<Rightarrow> ea_header \<Rightarrow> element_run list \<Rightarrow> bool" where
  "runs_ok d h runs \<longleftrightarrow> (\<forall>r\<in>set runs. run_offset r + run_count r * ea_element_size h \<le> length d)"

lemma runs_ok_simps [simp]:
  "runs_ok d h []"
  "runs_ok d h (rs @ [r]) \<longleftrightarrow> runs_ok d h rs \<and> run_offset r + run_count r * ea_element_size h \<le> length d"
  by (auto simp: runs_ok_def)

lemma span_bytes_safe [simp]: "no_panic (span_bytes c es)"
  by (simp add: span_bytes_def)

lemma spend_safe [simp]: "no_panic (spend b c)"
  by (simp add: spend_def)

lemma element_base_safe [simp]: "no_panic (element_base i s k n)"
  by (simp add: element_base_def)

lemma push_page_safe:
  "no_panic (push_page d h fi ow ps st page s)"
  "push_page d h fi ow ps st page s = Inr s' \<Longrightarrow> runs_ok d h (fst (snd s)) \<Longrightarrow> runs_ok d h (fst (snd s'))"
  by (auto simp: push_page_def Let_def span_bytes_def algebra_simps Option.bind_eq_Some_conv intro!: no_panic_and_then split: prod.splits if_splits)

lemma push_page_runs:
  "push_page d h fi ow ps st page (r, runs, b) = Inr (r', runs', b') \<Longrightarrow> runs_ok d h runs \<Longrightarrow> runs_ok d h runs'"
  using push_page_safe(2)[of d h fi ow ps st page "(r, runs, b)" "(r', runs', b')"] by simp

lemma push_data_block_safe:
  assumes "length d \<le> isize_max"
  shows "no_panic (push_data_block d h a n fi paged w)"
    and "push_data_block d h a n fi paged w = Inr w' \<Longrightarrow> runs_ok d h (fst w) \<Longrightarrow> runs_ok d h (fst w')"
proof -
  show "no_panic (push_data_block d h a n fi paged w)"
    unfolding push_data_block_def
    by (auto intro!: no_panic_and_then check_block_prefix_safe[OF assms] push_page_safe
        fold_res_no_panic[where P = "\<lambda>_. True"] split: option.split)
  show "runs_ok d h (fst w')" if p: "push_data_block d h a n fi paged w = Inr w'" and w: "runs_ok d h (fst w)"
  proof (cases paged)
    case None
    then show ?thesis using p w
      by (auto simp: push_data_block_def span_bytes_def algebra_simps Option.bind_eq_Some_conv split: if_splits)
  next
    case (Some ow)
    then obtain ps st s where f: "fold_res (push_page d h fi ow ps st) [0..<po_npages ow] (n, w) = Inr s" and s: "w' = snd s"
      using p by (auto simp: push_data_block_def)
    have "runs_ok d h (fst (snd s))"
      by (rule fold_res_inv[OF f, where P = "\<lambda>s. runs_ok d h (fst (snd s))"]) (use w push_page_safe(2) in \<open>simp, blast\<close>)
    with s show ?thesis by simp
  qed
qed

lemma super_block_safe [simp]: "no_panic (super_block h u)"
  by (simp add: super_block_def)

lemma super_block_layout_safe:
  assumes "after_prefix + ea_arr_off_size h \<le> length d" and "length d \<le> isize_max"
  shows "no_panic (super_block_layout d h sblk after_prefix)"
    and "super_block_layout d h sblk after_prefix = Inr (page_init, addrs_start) \<Longrightarrow> addrs_start + sb_ndblks sblk * 8 \<le> length d"
  using assms
  by (auto simp: super_block_layout_def algebra_simps Option.bind_eq_Some_conv intro!: no_panic_and_then split: if_splits option.splits)

lemma super_block_entry_safe:
  assumes "length d \<le> isize_max"
  shows "addrs_start + k * 8 + 8 \<le> length d \<Longrightarrow> no_panic (super_block_entry d h sblk page_init addrs_start k w)"
    and "super_block_entry d h sblk page_init addrs_start k w = Inr w' \<Longrightarrow> runs_ok d h (fst w) \<Longrightarrow> runs_ok d h (fst w')"
proof -
  show "no_panic (super_block_entry d h sblk page_init addrs_start k w)" if "addrs_start + k * 8 + 8 \<le> length d"
  proof -
    have "k * 8 < u64_lim" "addrs_start + k * 8 < u64_lim" using that assms by linarith+
    then show ?thesis
      by (auto simp: super_block_entry_def Let_def intro!: no_panic_and_then push_data_block_safe(1)[OF assms])
  qed
  show "runs_ok d h (fst w')"
    if "super_block_entry d h sblk page_init addrs_start k w = Inr w'" "runs_ok d h (fst w)"
    using that by (auto simp: super_block_entry_def Let_def split: if_splits dest: push_data_block_safe(2)[OF assms])
qed

lemma parse_super_block_safe:
  assumes "length d \<le> isize_max"
  shows "no_panic (parse_super_block d h a u w)"
    and "parse_super_block d h a u w = Inr w' \<Longrightarrow> runs_ok d h (fst w) \<Longrightarrow> runs_ok d h (fst w')"
proof -
  have loop: "no_panic (fold_res (super_block_entry d h sblk pi st) [0..<sb_ndblks sblk] w)"
    if b: "st + sb_ndblks sblk * 8 \<le> length d" for sblk pi st
  proof (rule fold_res_no_panic[where P = "\<lambda>_. True"])
    fix k and w :: ea_walk assume "k \<in> set [0..<sb_ndblks sblk]"
    then have "k * 8 + 8 \<le> sb_ndblks sblk * 8" by simp
    then show "no_panic (super_block_entry d h sblk pi st k w)"
      using b by (intro super_block_entry_safe(1)[OF assms]) linarith
  qed simp_all
  have rest: "no_panic (and_then (super_block_layout d h sblk e) (\<lambda>(pi, st). fold_res (super_block_entry d h sblk pi st) [0..<sb_ndblks sblk] w))"
    if "read_var_uint d e (ea_arr_off_size h) = Inr off" for sblk e off
    using super_block_layout_safe[OF _ assms, of e h sblk] loop read_var_uint_Inr[OF that] by (auto intro!: no_panic_and_then)
  show "no_panic (parse_super_block d h a u w)"
    unfolding parse_super_block_def
    by (intro no_panic_and_then super_block_safe check_block_prefix_safe[OF assms] read_var_uint_safe) (auto intro: rest)
  show "runs_ok d h (fst w')" if p: "parse_super_block d h a u w = Inr w'" and w: "runs_ok d h (fst w)"
  proof -
    obtain sblk pi st where f: "fold_res (super_block_entry d h sblk pi st) [0..<sb_ndblks sblk] w = Inr w'"
      using p by (auto simp: parse_super_block_def split: if_splits prod.splits)
    show ?thesis
      by (rule fold_res_inv[OF f, where P = "\<lambda>w. runs_ok d h (fst w)"]) (use w super_block_entry_safe(2)[OF assms] in \<open>simp, blast\<close>)
  qed
qed

lemma direct_blocks_safe:
  assumes "length d \<le> isize_max" and "length (ib_dblk_addrs ib) \<le> length d"
  shows "no_panic (direct_blocks d h ib sblk ks s)"
    and "direct_blocks d h ib sblk ks s = Inr s' \<Longrightarrow> runs_ok d h (fst (snd s)) \<Longrightarrow> runs_ok d h (fst (snd s'))"
proof -
  show "no_panic (direct_blocks d h ib sblk ks s)"
  proof (induction ks arbitrary: s)
    case (Cons k ks)
    obtain n w where s: "s = (n, w)" by (cases s)
    show ?case
      using Cons.IH assms
      by (auto simp: s get_elem_def intro!: no_panic_and_then push_data_block_safe(1)[OF assms(1)] split: option.split)
  qed simp
  show "direct_blocks d h ib sblk ks s = Inr s' \<Longrightarrow> runs_ok d h (fst (snd s)) \<Longrightarrow> runs_ok d h (fst (snd s'))"
  proof (induction ks arbitrary: s)
    case (Cons k ks)
    obtain n w where s: "s = (n, w)" by (cases s)
    show ?case
    proof (cases "get_elem (ib_dblk_addrs ib) n")
      case (Some address)
      show ?thesis
      proof (cases "address = u64_max")
        case True
        then show ?thesis using Cons.prems Cons.IH[of "(n + 1, w)"] Some by (simp add: s and_then_Inr_iff)
      next
        case False
        then obtain fi w1 where "push_data_block d h address (sb_dblk_nelmts sblk) fi None w = Inr w1"
            and r: "direct_blocks d h ib sblk ks (n + 1, w1) = Inr s'"
          using Cons.prems(1) Some by (auto simp: s)
        then have "runs_ok d h (fst w1)" using Cons.prems(2) by (auto simp: s dest: push_data_block_safe(2)[OF assms(1)])
        then show ?thesis using Cons.IH[OF r] by simp
      qed
    qed (use Cons.prems in \<open>simp add: s\<close>)
  qed simp
qed

lemma collect_element_runs_safe:
  assumes "length d \<le> isize_max" and "length (ib_dblk_addrs ib) \<le> length d"
  shows "no_panic (collect_element_runs d h ib)"
    and "collect_element_runs d h ib = Inr runs \<Longrightarrow> runs_ok d h runs"
proof -
  show "no_panic (collect_element_runs d h ib)"
    unfolding collect_element_runs_def
    by (auto intro!: no_panic_and_then fold_res_no_panic[where P = "\<lambda>_. True"] direct_blocks_safe(1)[OF assms]
        parse_super_block_safe(1)[OF assms(1)] split: prod.split)
  show "runs_ok d h runs" if r: "collect_element_runs d h ib = Inr runs"
  proof -
    obtain n w w' where 1: "fold_res (\<lambda>u s. and_then (super_block h u) (\<lambda>sblk. direct_blocks d h ib sblk [0..<sb_ndblks sblk] s))
         [0..<ea_iblk_nsblks h] (0, [], ea_max_records) = Inr (n, w)"
      and 2: "fold_res (\<lambda>(j, sblk_addr) w. if sblk_addr = u64_max then Inr w
         else and_then (ok_or (checked_add (ea_iblk_nsblks h) j) Format) (\<lambda>u. parse_super_block d h sblk_addr u w))
         (enumerate 0 (ib_sblk_addrs ib)) w = Inr w'" and w': "fst w' = runs"
      using r by (auto simp: collect_element_runs_def)
    have "runs_ok d h (fst (snd (n, w)))"
      by (rule fold_res_inv[OF 1, where P = "\<lambda>s. runs_ok d h (fst (snd s))"])
        (simp, auto dest: direct_blocks_safe(2)[OF assms])
    then have "runs_ok d h (fst w)" by simp
    then have "runs_ok d h (fst w')"
      by (rule fold_res_inv[OF 2, where P = "\<lambda>w. runs_ok d h (fst w)"])
        (auto split: if_splits prod.splits dest: parse_super_block_safe(2)[OF assms(1)])
    with w' show ?thesis by simp
  qed
qed

lemma decode_element_safe:
  assumes "length d \<le> isize_max"
  shows "no_panic (decode_element d off h cb)"
proof -
  have "no_panic (and_then (uadd off 8) (\<lambda>size_at. and_then (read_var_uint d size_at sl) (\<lambda>stored.
      if stored \<ge> u32_lim then Inl Format
      else and_then (uadd size_at sl) (\<lambda>mask_at. and_then (uadd mask_at 4) (\<lambda>mask_end.
        and_then (ok_or (get_range d mask_at mask_end) Format) (\<lambda>arr.
          Inr (Some \<lparr>el_address = a, el_size = stored, el_filter_mask = from_le arr\<rparr>)))))))"
    if "ea_read_u64 d off = Inr a" for a sl
  proof -
    have o8: "off + 8 < u64_lim" using ea_read_u64_Inr[OF that] by simp
    have "off + 8 + sl + 4 < u64_lim" if "read_var_uint d (off + 8) sl = Inr v" for v
      using read_var_uint_Inr[OF that] assms by linarith
    moreover from this have "off + 8 + sl < u64_lim" if "read_var_uint d (off + 8) sl = Inr v" for v
      using that by fastforce
    ultimately show ?thesis using o8 by (auto intro!: no_panic_and_then)
  qed
  then show ?thesis by (auto simp: decode_element_def intro!: no_panic_and_then split: ea_client.split)
qed

definition locator_ok :: "element_locator \<Rightarrow> bool" where
  "locator_ok loc \<longleftrightarrow> length (loc_strides loc) = length (loc_dataset_dims loc) \<and> length (loc_chunk_dims loc) = length (loc_dataset_dims loc)
     \<and> loc_unlim_dim loc < length (loc_dataset_dims loc)"

lemma length_checked_strides: "checked_strides ds = Inr ss \<Longrightarrow> length ss = length ds"
  by (induction ds arbitrary: ss rule: checked_strides.induct) auto

lemma checked_strides_safe: "no_panic (checked_strides ds)"
  by (induction ds rule: checked_strides.induct) (auto intro!: no_panic_and_then)

lemma element_locator_safe:
  shows "no_panic (element_locator_new geom)"
    and "element_locator_new geom = Inr loc \<Longrightarrow> locator_ok loc"
proof -
  have grid: "no_panic (ea_grid mx cd u)" if "length mx = length cd" "0 \<notin> set cd" for mx cd u
    unfolding ea_grid_def
  proof (rule map_res_no_panic)
    fix d assume "d \<in> set [0..<length mx]"
    then have d: "d < length mx" "d < length cd" using that by simp_all
    then have "cd ! d \<noteq> 0" using that(2) by (metis nth_mem)
    with d show "no_panic (if d = u then Inr 0 else and_then (index mx d) (\<lambda>m. and_then (index cd d) (\<lambda>c.
         and_then (div_ceil_u64 m c) (\<lambda>extent. if extent = 0 then Inl Format else Inr extent))))"
      by (simp add: div_ceil_u64_def)
  qed
  show "no_panic (element_locator_new geom)"
    unfolding element_locator_new_def Let_def
    by (auto intro!: no_panic_and_then grid checked_strides_safe)
  show "locator_ok loc" if r: "element_locator_new geom = Inr loc"
  proof (cases "length (eg_dataset_dims geom) = 1")
    case True
    then show ?thesis using r by (auto simp: element_locator_new_def Let_def locator_ok_def split: if_splits)
  next
    case False
    then obtain mx grid where mx: "length mx = length (eg_dataset_dims geom)"
        and one: "length (filter (\<lambda>d. mx ! d = u64_max) [0..<length (eg_dataset_dims geom)]) = 1"
        and g: "ea_grid mx (eg_chunk_dims geom) (filter (\<lambda>d. mx ! d = u64_max) [0..<length (eg_dataset_dims geom)] ! 0) = Inr grid"
        and s: "checked_strides (swizzle (filter (\<lambda>d. mx ! d = u64_max) [0..<length (eg_dataset_dims geom)] ! 0) grid) = Inr (loc_strides loc)"
        and l: "loc_chunk_dims loc = eg_chunk_dims geom" "loc_dataset_dims loc = eg_dataset_dims geom"
          "loc_unlim_dim loc = filter (\<lambda>d. mx ! d = u64_max) [0..<length (eg_dataset_dims geom)] ! 0"
        and c: "length (eg_chunk_dims geom) = length (eg_dataset_dims geom)"
      using r by (auto simp: element_locator_new_def Let_def split: if_splits)
    have "filter (\<lambda>d. mx ! d = u64_max) [0..<length (eg_dataset_dims geom)] ! 0
        \<in> set (filter (\<lambda>d. mx ! d = u64_max) [0..<length (eg_dataset_dims geom)])"
      using one by (intro nth_mem) simp
    then have u: "loc_unlim_dim loc < length (eg_dataset_dims geom)" unfolding l(3) by simp
    have "length grid = length mx" using g by (auto simp: ea_grid_def dest: map_res_length)
    then have "length (loc_strides loc) = length (eg_dataset_dims geom)"
      using length_checked_strides[OF s] u mx l(3) by simp
    then show ?thesis using u c by (simp add: locator_ok_def l)
  qed
qed

lemma swizzled_coords_safe:
  "no_panic (swizzled_coords ss r)" "swizzled_coords ss r = Inr cs \<Longrightarrow> length cs = length ss"
proof -
  show "no_panic (swizzled_coords ss r)" by (induction ss arbitrary: r) (auto intro!: no_panic_and_then)
  show "swizzled_coords ss r = Inr cs \<Longrightarrow> length cs = length ss"
    by (induction ss arbitrary: r cs) (auto split: if_splits)
qed

lemma scale_offsets_safe: "length cs \<le> length dims \<Longrightarrow> no_panic (scale_offsets cs es dims)"
  by (induction cs es dims rule: scale_offsets.induct) (auto intro!: no_panic_and_then)

lemma offsets_for_safe:
  assumes "locator_ok loc"
  shows "no_panic (offsets_for loc i)"
proof -
  have "no_panic (and_then (unswizzle (loc_unlim_dim loc) cs) (\<lambda>scaled. scale_offsets scaled (loc_chunk_dims loc) (loc_dataset_dims loc)))"
    if "length cs = length (loc_dataset_dims loc)" for cs
    using assms that by (auto simp: unswizzle_def locator_ok_def intro!: no_panic_and_then scale_offsets_safe)
  moreover have "length cs = length (loc_dataset_dims loc)" if "swizzled_coords (loc_strides loc) i = Inr cs" for cs
    using swizzled_coords_safe(2)[OF that] assms by (simp add: locator_ok_def)
  ultimately show ?thesis
    unfolding offsets_for_def by (intro no_panic_and_then[OF swizzled_coords_safe(1)]) blast
qed

lemma push_record_safe:
  assumes "locator_ok loc" and "length d \<le> isize_max"
  shows "no_panic (push_record d h loc cb off i records)"
  unfolding push_record_def
  by (auto intro!: no_panic_and_then decode_element_safe[OF assms(2)] offsets_for_safe[OF assms(1)] split: option.split)

text \<open>
  The extensible array reader never panics: whatever the file, the address and the shapes,
  it returns chunk records or one of the library's own errors. Every header field, block extent,
  element offset, page bitmap and chunk coordinate is checked before it is used.
\<close>

theorem extensible_array_never_panics:
  assumes "length file_data \<le> isize_max"
  shows "parse_extensible_array file_data addr geom \<noteq> Inl Panic"
proof -
  have "no_panic (parse_extensible_array file_data addr geom)"
    unfolding parse_extensible_array_def
  proof (intro no_panic_and_then ea_header_safe[OF assms] element_locator_safe(1))
    fix h loc
    assume loc: "element_locator_new geom = Inr loc"
    note rec = push_record_safe[OF element_locator_safe(2)[OF loc] assms]
    have run: "no_panic (push_run file_data h loc cb r records)"
      if "run_offset r + run_count r * ea_element_size h \<le> length file_data" for r cb records
      unfolding push_run_def
    proof (rule fold_res_no_panic[where P = "\<lambda>_. True"])
      fix i and records :: "chunk_record list" assume "i \<in> set [0..<run_count r]"
      then have "i * ea_element_size h \<le> run_count r * ea_element_size h" by (intro mult_le_mono1) simp
      then have "i * ea_element_size h < u64_lim" using that assms by linarith
      then show "no_panic (and_then (ok_or (usize_try_from i) Format) (\<lambda>i_usize.
         and_then (umul i_usize (ea_element_size h)) (\<lambda>p. and_then (ok_or (checked_add (run_offset r) p) Format) (\<lambda>off.
         and_then (ok_or (checked_add (run_first_index r) i) Format) (\<lambda>idx. push_record file_data h loc cb off idx records)))))"
        by (auto intro!: no_panic_and_then rec)
    qed simp_all
    have inline: "no_panic (fold_res (\<lambda>i records. and_then (ok_or (usize_try_from i) Format) (\<lambda>i_usize.
        and_then (umul i_usize (ea_element_size h)) (\<lambda>p. and_then (ok_or (checked_add (ib_inline_offset ib) p) Format) (\<lambda>off.
          push_record file_data h loc (eg_chunk_bytes geom) off i records)))) [0..<ea_idx_blk_elmts h] [])"
      if "parse_index_block file_data h = Inr ib" for ib
    proof (rule fold_res_no_panic[where P = "\<lambda>_. True"])
      fix i and records :: "chunk_record list" assume "i \<in> set [0..<ea_idx_blk_elmts h]"
      then have "i * ea_element_size h \<le> ea_idx_blk_elmts h * ea_element_size h" by (intro mult_le_mono1) simp
      then have "i * ea_element_size h < u64_lim" using parse_index_block_safe(2)[OF assms that] assms by linarith
      then show "no_panic (and_then (ok_or (usize_try_from i) Format) (\<lambda>i_usize.
        and_then (umul i_usize (ea_element_size h)) (\<lambda>p. and_then (ok_or (checked_add (ib_inline_offset ib) p) Format) (\<lambda>off.
          push_record file_data h loc (eg_chunk_bytes geom) off i records))))"
        by (auto intro!: no_panic_and_then rec)
    qed simp_all
    have runs: "no_panic (fold_res (push_run file_data h loc (eg_chunk_bytes geom)) runs records)" if "runs_ok file_data h runs" for runs records
      by (rule fold_res_no_panic[where P = "\<lambda>_. True"]) (use that run in \<open>auto simp: runs_ok_def\<close>)
    show "no_panic (if ea_index_block_address h = u64_max then Inr []
       else and_then (parse_index_block file_data h) (\<lambda>ib.
         and_then (fold_res (\<lambda>i records. and_then (ok_or (usize_try_from i) Format) (\<lambda>i_usize.
             and_then (umul i_usize (ea_element_size h)) (\<lambda>p. and_then (ok_or (checked_add (ib_inline_offset ib) p) Format) (\<lambda>off.
               push_record file_data h loc (eg_chunk_bytes geom) off i records)))) [0..<ea_idx_blk_elmts h] []) (\<lambda>records.
         and_then (collect_element_runs file_data h ib) (\<lambda>runs.
           fold_res (push_run file_data h loc (eg_chunk_bytes geom)) runs records))))"
    proof (split if_split, intro conjI impI no_panic_and_then parse_index_block_safe(1)[OF assms])
      fix ib assume ib: "parse_index_block file_data h = Inr ib"
      note safe = collect_element_runs_safe[OF assms conjunct2[OF parse_index_block_safe(2)[OF assms ib]]]
      show "no_panic (collect_element_runs file_data h ib)" by (rule safe(1))
      show "no_panic (fold_res (push_run file_data h loc (eg_chunk_bytes geom)) runs records)"
        if "collect_element_runs file_data h ib = Inr runs" for runs records
        by (rule runs[OF safe(2)[OF that]])
    qed (simp_all add: inline)
  qed
  then show ?thesis by (simp add: no_panic_def)
qed

theorem extensible_array_never_panics_witness:
  "parse_extensible_array [1, 2, 3] 18446744073709551600 rows_geometry \<noteq> Inl Panic"
  by (rule extensible_array_never_panics) simp

end
