(* ===== verification/Chunk_Index.thy ===== *)
theory Chunk_Index
  imports BTree_V2 Extensible_Array
begin

text \<open>
  \<^verbatim>\<open>oxih5-format/src/chunked/index.rs\<close>: from the index named by a chunked layout to the
  chunk records of the dataset, for the six kinds of index; the two kinds without any structure
  in the file, single chunk and implicit, are computed here from the shapes. The records may be
  cached (\<^verbatim>\<open>cache.rs\<close>); the cache is threaded through as a map.
\<close>

section \<open>Queries\<close>

datatype chunk_index = BTreeV1 | BTreeV2 | FixedArray | ExtensibleArray | SingleChunk | Implicit

record single_chunk_info =
  sc_stored_size :: nat
  sc_filter_mask :: nat

record chunk_index_query =
  q_index :: chunk_index
  q_index_address :: nat
  q_real_chunk_dims :: "nat list"
  q_dataset_dims :: "nat list"
  q_max_dims :: "nat list option"
  q_elem_size :: nat
  q_single_chunk :: "single_chunk_info option"

definition index_of :: "byte \<Rightarrow> chunk_index res" where
  "index_of index_type =
     (if index_type = 0 then Inr BTreeV1
      else if index_type = 1 then Inr FixedArray
      else if index_type = 2 then Inr ExtensibleArray
      else if index_type = 3 then Inr BTreeV2
      else if index_type = 4 then Inr SingleChunk
      else if index_type = 5 then Inr Implicit
      else Inl Format)"

definition resolve_chunk_index :: "(nat \<Rightarrow> nat \<Rightarrow> nat) \<Rightarrow> bytes \<Rightarrow> chunk_index \<Rightarrow> nat \<Rightarrow> nat \<Rightarrow> chunk_record list res" where
  "resolve_chunk_index root_ceil file_data ix index_address ndims =
     (case ix of
        BTreeV1 \<Rightarrow> chunk_btree_parse file_data index_address ndims
      | FixedArray \<Rightarrow> parse_fixed_array root_ceil file_data index_address ndims
      | _ \<Rightarrow> Inl Format)"

section \<open>Shapes\<close>

definition chunk_counts :: "nat list \<Rightarrow> nat list \<Rightarrow> nat list res" where
  "chunk_counts dataset_dims chunk_dims =
     map_res (\<lambda>(d, c). if c = 0 then Inl Format else Inr (div_ceil d c)) (zip dataset_dims chunk_dims)"

definition checked_volume :: "nat list \<Rightarrow> nat res" where
  "checked_volume dims = fold_res (\<lambda>d acc. ok_or (checked_mul acc d) Format) dims 1"

definition chunk_byte_size :: "nat list \<Rightarrow> nat \<Rightarrow> nat res" where
  "chunk_byte_size chunk_dims elem_size =
     and_then (checked_volume chunk_dims) (\<lambda>volume.
       ok_or (Option.bind (usize_try_from volume) (\<lambda>v. checked_mul v elem_size)) Format)"

definition u32_try_from :: "nat \<Rightarrow> nat res" where
  "u32_try_from n = (if n < u32_lim then Inr n else Inl Format)"

section \<open>Indexes without a structure in the file\<close>

definition single_chunk_records :: "chunk_index_query \<Rightarrow> chunk_record list res" where
  "single_chunk_records q =
     and_then (case q_single_chunk q of
         Some info \<Rightarrow> and_then (u32_try_from (sc_stored_size info)) (\<lambda>sz. Inr (sz, sc_filter_mask info))
       | None \<Rightarrow>
           and_then (chunk_byte_size (q_real_chunk_dims q) (q_elem_size q)) (\<lambda>bs.
           and_then (u32_try_from bs) (\<lambda>sz. Inr (sz, 0)))) (\<lambda>(sz, filter_mask).
       Inr [\<lparr>rec_address = q_index_address q, rec_size = sz, rec_filter_mask = filter_mask,
             rec_offsets = replicate (length (q_dataset_dims q)) 0\<rparr>])"

text \<open>The chunk-grid coordinate is advanced from the last dimension, carrying to the left.\<close>

fun advance :: "nat list \<Rightarrow> nat list \<Rightarrow> nat list \<Rightarrow> nat list res" where
  "advance counts coords [] = Inr coords"
| "advance counts coords (d # ds) =
     and_then (index coords d) (\<lambda>c.
     and_then (uadd c 1) (\<lambda>c.
     and_then (index counts d) (\<lambda>n.
       if c < n then Inr (coords[d := c]) else advance counts (coords[d := 0]) ds)))"

text \<open>
  \<^verbatim>\<open>Vec::with_capacity(total)\<close> panics when the buffer would exceed \<^verbatim>\<open>isize::MAX\<close> bytes;
  a chunk record takes 40 bytes.
\<close>

definition implicit_records :: "chunk_index_query \<Rightarrow> chunk_record list res" where
  "implicit_records q =
     (let ndims = length (q_dataset_dims q) in
      and_then (chunk_counts (q_dataset_dims q) (q_real_chunk_dims q)) (\<lambda>counts.
      and_then (chunk_byte_size (q_real_chunk_dims q) (q_elem_size q)) (\<lambda>chunk_bytes.
      and_then (u32_try_from chunk_bytes) (\<lambda>sz.
      and_then (checked_volume counts) (\<lambda>total.
      and_then (ok_or (usize_try_from total) Format) (\<lambda>total.
        if total * 40 > isize_max then Inl Panic
        else
          and_then (fold_res (\<lambda>n (coords, records).
              and_then (ok_or (checked_mul n chunk_bytes) Format) (\<lambda>byte_offset.
              and_then (ok_or (checked_add (q_index_address q) byte_offset) Format) (\<lambda>address.
              and_then (advance counts coords (rev [0..<ndims])) (\<lambda>coords'.
                Inr (coords', records @ [\<lparr>rec_address = address, rec_size = sz, rec_filter_mask = 0,
                  rec_offsets = map2 saturating_mul coords (q_real_chunk_dims q)\<rparr>])))))
            [0..<total] (replicate ndims 0, [])) (\<lambda>(_, records). Inr records)))))))"

section \<open>Dispatch and cache\<close>

definition compute_records :: "(nat \<Rightarrow> nat \<Rightarrow> nat) \<Rightarrow> bytes \<Rightarrow> chunk_index_query \<Rightarrow> chunk_record list res" where
  "compute_records root_ceil file_data q =
     (let ndims = length (q_dataset_dims q); bytes = chunk_byte_size (q_real_chunk_dims q) (q_elem_size q) in
      case q_index q of
        FixedArray \<Rightarrow>
          and_then bytes (\<lambda>bs.
            parse_fixed_array_v4_with_dataset_dims root_ceil file_data (q_index_address q) ndims
              (q_real_chunk_dims q) (q_dataset_dims q) bs)
      | BTreeV2 \<Rightarrow>
          and_then bytes (\<lambda>bs. and_then (u32_try_from bs) (\<lambda>bs.
            btree_v2_parse file_data (q_index_address q) ndims
              \<lparr>geom_chunk_dims = q_real_chunk_dims q, geom_chunk_bytes = bs\<rparr>))
      | ExtensibleArray \<Rightarrow>
          and_then bytes (\<lambda>bs. and_then (u32_try_from bs) (\<lambda>bs.
            parse_extensible_array file_data (q_index_address q)
              \<lparr>eg_chunk_dims = q_real_chunk_dims q, eg_dataset_dims = q_dataset_dims q,
               eg_max_dims = q_max_dims q, eg_chunk_bytes = bs\<rparr>))
      | SingleChunk \<Rightarrow> single_chunk_records q
      | Implicit \<Rightarrow> implicit_records q
      | other \<Rightarrow> resolve_chunk_index root_ceil file_data other (q_index_address q) ndims)"

type_synonym cache_key = "nat \<times> nat"
type_synonym 'v cache_map = "cache_key \<Rightarrow> 'v option"

text \<open>
  A call that runs by itself. The concurrent behaviour of the two lock acquisitions is modelled
  in \<open>Chunk_Cache\<close>.
\<close>

definition get_or_insert :: "'v cache_map \<Rightarrow> cache_key \<Rightarrow> 'v res \<Rightarrow> 'v res \<times> 'v cache_map" where
  "get_or_insert cache key compute =
     (case cache key of
        Some v \<Rightarrow> (Inr v, cache)
      | None \<Rightarrow>
          (case compute of
             Inl e \<Rightarrow> (Inl e, cache)
           | Inr records \<Rightarrow> (Inr records, cache(key \<mapsto> records))))"

definition chunk_records ::
  "(nat \<Rightarrow> nat \<Rightarrow> nat) \<Rightarrow> bytes \<Rightarrow> chunk_index_query \<Rightarrow> chunk_record list cache_map option
    \<Rightarrow> chunk_record list res \<times> chunk_record list cache_map option" where
  "chunk_records root_ceil file_data q cache =
     (if q_index_address q = u64_max then (Inr [], cache)
      else
        case cache of
          Some c \<Rightarrow>
            (let (r, c') = get_or_insert c (q_index_address q, length (q_dataset_dims q)) (compute_records root_ceil file_data q)
             in (r, Some c'))
        | None \<Rightarrow> (compute_records root_ceil file_data q, None))"

section \<open>The implicit index\<close>

text \<open>Counting in a mixed-radix number system: the next coordinates and the carry.\<close>

fun incr :: "nat list \<Rightarrow> nat list \<Rightarrow> nat list \<times> bool" where
  "incr (n # ns) (c # cs) =
     (case incr ns cs of
        (cs', False) \<Rightarrow> (c # cs', False)
      | (cs', True) \<Rightarrow> if c + 1 < n then ((c + 1) # cs', False) else (0 # cs', True))"
| "incr _ cs = (cs, True)"

lemma incr_snoc:
  "length ns = length cs \<Longrightarrow> incr (ns @ [n]) (cs @ [c]) =
    (if c + 1 < n then (cs @ [c + 1], False) else (fst (incr ns cs) @ [0], snd (incr ns cs)))"
  by (induction ns cs rule: list_induct2) (auto split: prod.splits bool.splits)

lemma advance_incr:
  assumes "k \<le> length coords" and "length counts = length coords" and "\<forall>i < k. coords ! i + 1 < u64_lim"
  shows "advance counts coords (rev [0..<k]) = Inr (fst (incr (take k counts) (take k coords)) @ drop k coords)"
  using assms
proof (induction k arbitrary: coords)
  case (Suc k)
  have t: "take (Suc k) counts = take k counts @ [counts ! k]" "take (Suc k) coords = take k coords @ [coords ! k]"
    using Suc.prems by (simp_all add: take_Suc_conv_app_nth)
  have inc: "incr (take (Suc k) counts) (take (Suc k) coords) =
      (if coords ! k + 1 < counts ! k then (take k coords @ [coords ! k + 1], False)
       else (fst (incr (take k counts) (take k coords)) @ [0], snd (incr (take k counts) (take k coords))))"
    unfolding t using Suc.prems by (intro incr_snoc) simp
  have upd: "coords[k := x] = take k coords @ x # drop (Suc k) coords" for x
    using Suc.prems by (simp add: upd_conv_take_nth_drop)
  show ?case
  proof (cases "coords ! k + 1 < counts ! k")
    case True
    then show ?thesis using Suc.prems by (simp add: inc upd)
  next
    case False
    have "advance counts (coords[k := 0]) (rev [0..<k])
        = Inr (fst (incr (take k counts) (take k (coords[k := 0]))) @ drop k (coords[k := 0]))"
      using Suc.prems by (intro Suc.IH) simp_all
    then show ?thesis using Suc.prems False by (simp add: inc upd)
  qed
qed simp

lemma incr_coords:
  assumes "0 \<notin> set ds" and "k < prod_list ds"
  shows "incr ds (coords_of ds k) = (coords_of ds (Suc k mod prod_list ds), Suc k = prod_list ds)"
  using assms
proof (induction ds arbitrary: k)
  case (Cons d ds)
  let ?P = "prod_list ds"
  have P: "0 < ?P" using Cons.prems(1) by (simp add: prod_list_pos)
  have q: "k div ?P < d" using Cons.prems(2) by (simp add: less_mult_imp_div_less)
  have r: "k mod ?P < ?P" using P by simp
  have ih: "incr ds (coords_of ds (k mod ?P)) = (coords_of ds (Suc (k mod ?P) mod ?P), Suc (k mod ?P) = ?P)"
    using Cons.IH[OF _ r] Cons.prems(1) by simp
  show ?case
  proof (cases "Suc (k mod ?P) = ?P")
    case False
    then have s: "Suc (k mod ?P) < ?P" using r by simp
    have k: "Suc k = k div ?P * ?P + Suc (k mod ?P)" by simp
    have "Suc k < d * ?P" using radix_less[OF q s] k by linarith
    moreover have "Suc k div ?P = k div ?P"
      using arg_cong[OF k, of "\<lambda>x. x div ?P"] div_mult_self3[of ?P "k div ?P" "Suc (k mod ?P)"] P div_less[OF s] by linarith
    moreover have "Suc k mod ?P = Suc (k mod ?P)"
      using arg_cong[OF k, of "\<lambda>x. x mod ?P"] mod_mult_self3[of "k div ?P" ?P "Suc (k mod ?P)"] mod_less[OF s] by linarith
    ultimately show ?thesis using ih s by simp
  next
    case True
    have "k div ?P * ?P + ?P = Suc k" using True div_mult_mod_eq[of k ?P] by linarith
    then have k: "Suc k = Suc (k div ?P) * ?P" by simp
    have dm: "Suc k div ?P = Suc (k div ?P)" "Suc k mod ?P = 0"
      unfolding k using P by simp_all
    show ?thesis
    proof (cases "Suc (k div ?P) < d")
      case True2: True
      then have "Suc (k div ?P) * ?P < d * ?P" using P by (intro mult_strict_right_mono)
      then have "Suc k < d * ?P" unfolding k .
      then show ?thesis using ih True True2 dm by simp
    next
      case False
      then have "Suc (k div ?P) = d" using q by simp
      then have "Suc k = d * ?P" unfolding k by simp
      then show ?thesis using ih True False by simp
    qed
  qed
qed simp

lemma checked_volume_eq: "0 \<notin> set ds \<Longrightarrow> prod_list ds < u64_lim \<Longrightarrow> checked_volume ds = Inr (prod_list ds)"
proof -
  have "0 \<notin> set ds \<Longrightarrow> 0 < acc \<Longrightarrow> acc * prod_list ds < u64_lim \<Longrightarrow>
      fold_res (\<lambda>d acc. ok_or (checked_mul acc d) Format) ds acc = Inr (acc * prod_list ds)" for acc
  proof (induction ds arbitrary: acc)
    case (Cons d ds)
    have "acc * d * 1 \<le> acc * d * prod_list ds"
      using prod_list_pos[of ds] Cons.prems(1) by (intro mult_le_mono2) simp
    moreover have "acc * d * prod_list ds < u64_lim" using Cons.prems(3) by (simp only: prod_list.Cons mult.assoc)
    ultimately have "acc * d < u64_lim" by linarith
    then show ?case using Cons.IH[of "acc * d"] Cons.prems by (simp add: mult.assoc)
  qed simp
  from this[of 1] show "0 \<notin> set ds \<Longrightarrow> prod_list ds < u64_lim \<Longrightarrow> checked_volume ds = Inr (prod_list ds)"
    by (simp add: checked_volume_def)
qed

lemma chunk_counts_eq: "grid_ok cdims ddims \<Longrightarrow> chunk_counts ddims cdims = Inr (grid_of cdims ddims)"
proof -
  assume ok: "grid_ok cdims ddims"
  have "map_res (\<lambda>(d, c). if c = 0 then Inl Format else Inr (div_ceil d c)) (zip ddims cdims)
      = Inr (map (\<lambda>(d, c). div_ceil d c) (zip ddims cdims))"
  proof (rule map_res_total)
    fix x assume "x \<in> set (zip ddims cdims)"
    then have "snd x \<in> set cdims" by (metis prod.collapse set_zip_rightD)
    then have "snd x \<noteq> 0" using ok by (metis grid_ok_def)
    then show "(\<lambda>(d, c). if c = 0 then Inl Format else Inr (div_ceil d c)) x = Inr ((\<lambda>(d, c). div_ceil d c) x)"
      by (cases x) simp
  qed
  moreover have "map (\<lambda>(d, c). div_ceil d c) (zip ddims cdims) = grid_of cdims ddims"
    using ok by (auto simp: grid_of_def grid_ok_def intro: nth_equalityI)
  ultimately show ?thesis by (simp add: chunk_counts_def)
qed

lemma coords_of_0: "0 \<notin> set ds \<Longrightarrow> coords_of ds 0 = replicate (length ds) 0"
  by (induction ds) auto

lemma map2_saturating:
  assumes "grid_ok cdims ddims" and "k < prod_list (grid_of cdims ddims)"
  shows "map2 saturating_mul (coords_of (grid_of cdims ddims) k) cdims = map2 (*) (coords_of (grid_of cdims ddims) k) cdims"
proof (rule nth_equalityI)
  fix i assume i: "i < length (map2 saturating_mul (coords_of (grid_of cdims ddims) k) cdims)"
  then have l: "i < length cdims" "i < length ddims" using assms(1) by (simp_all add: grid_ok_def length_grid_of[OF assms(1)])
  have "coords_of (grid_of cdims ddims) k ! i < div_ceil (ddims ! i) (cdims ! i)"
    using list_all2_nthD2[OF coords_of_inside[OF assms(2)], of i] l by (simp add: grid_of_def)
  moreover have "0 < cdims ! i" using assms(1) l(1) by (metis grid_ok_def neq0_conv nth_mem)
  ultimately have "coords_of (grid_of cdims ddims) k ! i * cdims ! i < ddims ! i" by (rule div_ceil_coord)
  moreover have "ddims ! i < u64_lim" using assms(1) l(2) by (simp add: grid_ok_def)
  ultimately show "map2 saturating_mul (coords_of (grid_of cdims ddims) k) cdims ! i = map2 (*) (coords_of (grid_of cdims ddims) k) cdims ! i"
    using l length_grid_of[OF assms(1)] by (simp add: saturating_mul_exact)
qed simp

text \<open>
  The implicit chunk index enumerates every chunk of the dataset exactly once: the records are
  the cells of the chunk grid in row-major order, the \<open>n\<close>-th one at the index address plus \<open>n\<close> whole
  chunks, its offsets the coordinates of cell \<open>n\<close> times the chunk extents.
\<close>

theorem implicit_records_correct:
  assumes "grid_ok (q_real_chunk_dims q) (q_dataset_dims q)"
    and "prod_list (grid_of (q_real_chunk_dims q) (q_dataset_dims q)) * 40 \<le> isize_max"
    and "0 < q_elem_size q" and "prod_list (q_real_chunk_dims q) * q_elem_size q < u32_lim"
    and "q_index_address q + prod_list (grid_of (q_real_chunk_dims q) (q_dataset_dims q)) * (prod_list (q_real_chunk_dims q) * q_elem_size q) < u64_lim"
  shows "implicit_records q = Inr (map (\<lambda>n.
      \<lparr>rec_address = q_index_address q + n * (prod_list (q_real_chunk_dims q) * q_elem_size q),
       rec_size = prod_list (q_real_chunk_dims q) * q_elem_size q, rec_filter_mask = 0,
       rec_offsets = map2 (*) (coords_of (grid_of (q_real_chunk_dims q) (q_dataset_dims q)) n) (q_real_chunk_dims q)\<rparr>)
    [0..<prod_list (grid_of (q_real_chunk_dims q) (q_dataset_dims q))])"
proof -
  define cdims where "cdims = q_real_chunk_dims q"
  define ddims where "ddims = q_dataset_dims q"
  define g where "g = grid_of cdims ddims"
  define bs where "bs = prod_list cdims * q_elem_size q"
  define rec where "rec = (\<lambda>n. \<lparr>rec_address = q_index_address q + n * bs, rec_size = bs, rec_filter_mask = 0,
       rec_offsets = map2 (*) (coords_of g n) cdims\<rparr>)"
  have ok: "grid_ok cdims ddims" using assms(1) by (simp add: cdims_def ddims_def)
  have small: "prod_list g * 40 \<le> isize_max" "bs < u32_lim" "q_index_address q + prod_list g * bs < u64_lim"
    using assms(2,4,5) by (simp_all add: cdims_def ddims_def g_def bs_def)
  have lg: "length g = length ddims" "length cdims = length ddims"
    using length_grid_of[OF ok] ok by (simp_all add: g_def grid_ok_def)
  have gpos: "0 \<notin> set g" using grid_of_pos[OF ok] by (simp add: g_def)
  have cpos: "0 \<notin> set cdims" using ok by (simp add: grid_ok_def)
  have "prod_list cdims * 1 \<le> bs" unfolding bs_def using assms(3) by (intro mult_le_mono2) simp
  then have "prod_list cdims < u64_lim" using small(2) by linarith
  then have bytes: "chunk_byte_size cdims (q_elem_size q) = Inr bs"
    using checked_volume_eq[OF cpos] small(2) by (simp add: chunk_byte_size_def bs_def)
  have total: "checked_volume g = Inr (prod_list g)" "prod_list g < u64_lim"
    using checked_volume_eq[OF gpos] small(1) by simp_all
  have glim: "\<forall>i < length g. g ! i < u64_lim"
  proof (intro allI impI)
    fix i assume "i < length g"
    then have "g ! i dvd prod_list g" by (intro prod_list_dvd) simp
    then have "g ! i \<le> prod_list g" using prod_list_pos[OF gpos] by (intro dvd_imp_le)
    then show "g ! i < u64_lim" using total(2) by linarith
  qed
  have loop: "fold_res (\<lambda>n (coords, records).
              and_then (ok_or (checked_mul n bs) Format) (\<lambda>byte_offset.
              and_then (ok_or (checked_add (q_index_address q) byte_offset) Format) (\<lambda>address.
              and_then (advance g coords (rev [0..<length ddims])) (\<lambda>coords'.
                Inr (coords', records @ [\<lparr>rec_address = address, rec_size = bs, rec_filter_mask = 0,
                  rec_offsets = map2 saturating_mul coords cdims\<rparr>])))))
            [0..<m] (coords_of g 0, []) = Inr (coords_of g (m mod prod_list g), map rec [0..<m])"
    if "m \<le> prod_list g" for m
    using that
  proof (induction m)
    case (Suc m)
    have m: "m < prod_list g" using Suc.prems by simp
    have "m * bs \<le> prod_list g * bs" using m by (intro mult_le_mono1) simp
    then have lim: "m * bs < u64_lim" "q_index_address q + m * bs < u64_lim" using small(3) by linarith+
    have "coords_of g m ! i + 1 < u64_lim" if "i < length ddims" for i
    proof -
      have "coords_of g m ! i < g ! i" using list_all2_nthD2[OF coords_of_inside[OF m], of i] that lg by simp
      moreover have "g ! i < u64_lim" using glim that lg by simp
      ultimately show ?thesis by linarith
    qed
    then have "advance g (coords_of g m) (rev [0..<length ddims]) = Inr (fst (incr g (coords_of g m)))"
      using advance_incr[of "length ddims" "coords_of g m" g] lg by simp
    also have "fst (incr g (coords_of g m)) = coords_of g (Suc m mod prod_list g)"
      by (simp add: incr_coords[OF gpos m])
    finally have adv: "advance g (coords_of g m) (rev [0..<length ddims]) = Inr (coords_of g (Suc m mod prod_list g))" .
    have "map2 saturating_mul (coords_of g m) cdims = map2 (*) (coords_of g m) cdims"
      using map2_saturating[OF ok, of m] m by (simp add: g_def)
    then show ?case using Suc m lim adv by (simp add: fold_res_append rec_def)
  qed simp
  have start: "replicate (length ddims) 0 = coords_of g 0" using coords_of_0[OF gpos] lg by simp
  have "implicit_records q = Inr (map rec [0..<prod_list g])"
    using loop[of "prod_list g"] small(1,2) total chunk_counts_eq[OF ok] bytes
    by (simp add: implicit_records_def Let_def u32_try_from_def start
        flip: cdims_def ddims_def g_def)
  then show ?thesis by (simp add: rec_def bs_def g_def cdims_def ddims_def)
qed

definition implicit_query :: chunk_index_query where
  "implicit_query = \<lparr>q_index = Implicit, q_index_address = 1000, q_real_chunk_dims = [2, 3], q_dataset_dims = [3, 4],
     q_max_dims = None, q_elem_size = 1, q_single_chunk = None\<rparr>"

theorem implicit_records_correct_witness:
  "implicit_records implicit_query = Inr [
     \<lparr>rec_address = 1000, rec_size = 6, rec_filter_mask = 0, rec_offsets = [0, 0]\<rparr>,
     \<lparr>rec_address = 1006, rec_size = 6, rec_filter_mask = 0, rec_offsets = [0, 3]\<rparr>,
     \<lparr>rec_address = 1012, rec_size = 6, rec_filter_mask = 0, rec_offsets = [2, 0]\<rparr>,
     \<lparr>rec_address = 1018, rec_size = 6, rec_filter_mask = 0, rec_offsets = [2, 3]\<rparr>]"
proof -
  note r = implicit_records_correct[of implicit_query]
  have g: "grid_of (q_real_chunk_dims implicit_query) (q_dataset_dims implicit_query) = [2, 2]"
    by (simp add: implicit_query_def grid_of_def div_ceil_def)
  have "grid_ok (q_real_chunk_dims implicit_query) (q_dataset_dims implicit_query)"
    by (simp add: grid_ok_def g) (simp add: implicit_query_def)
  from r[OF this, unfolded g] show ?thesis
    by (simp add: implicit_query_def upt_rec)
qed

text \<open>
  The number of chunks of an implicit index is not bounded before the record vector is
  allocated for it: a layout that claims \<open>2 ^ 62\<close> one-byte chunks panics with a capacity overflow,
  whatever the file holds.
\<close>

theorem implicit_records_capacity_overflow:
  "implicit_records \<lparr>q_index = Implicit, q_index_address = 0, q_real_chunk_dims = [1], q_dataset_dims = [4611686018427387904],
     q_max_dims = None, q_elem_size = 1, q_single_chunk = None\<rparr> = Inl Panic"
  by (simp add: implicit_records_def chunk_counts_def chunk_byte_size_def checked_volume_def u32_try_from_def div_ceil_def)

section \<open>What the cache returns\<close>

text \<open>
  The key of the cache holds the address of the index and the rank of the dataset only, so queries
  of one key may be queries for different records: of two datasets whose layouts name one index, for
  instance, with different shapes.
\<close>

definition same_key :: "chunk_index_query \<Rightarrow> chunk_index_query \<Rightarrow> bool" where
  "same_key q q' \<longleftrightarrow> q_index_address q = q_index_address q' \<and> length (q_dataset_dims q) = length (q_dataset_dims q')"

text \<open>A history of queries, each given the cache the one before it left.\<close>

fun run_queries ::
  "(nat \<Rightarrow> nat \<Rightarrow> nat) \<Rightarrow> bytes \<Rightarrow> chunk_index_query list \<Rightarrow> chunk_record list cache_map option \<Rightarrow> chunk_record list res list" where
  "run_queries rc d [] c = []"
| "run_queries rc d (q # qs) c = (case chunk_records rc d q c of (r, c') \<Rightarrow> r # run_queries rc d qs c')"

text \<open>The first of the earlier queries with the key of this one that succeeded answers for it.\<close>

definition succeeded_for :: "(nat \<Rightarrow> nat \<Rightarrow> nat) \<Rightarrow> bytes \<Rightarrow> chunk_index_query \<Rightarrow> chunk_index_query \<Rightarrow> bool" where
  "succeeded_for rc d q p \<longleftrightarrow> same_key p q \<and> (case compute_records rc d p of Inl _ \<Rightarrow> False | Inr _ \<Rightarrow> True)"

definition answered_by :: "(nat \<Rightarrow> nat \<Rightarrow> nat) \<Rightarrow> bytes \<Rightarrow> chunk_index_query list \<Rightarrow> chunk_index_query \<Rightarrow> chunk_index_query" where
  "answered_by rc d earlier q = (case find (succeeded_for rc d q) earlier of Some p \<Rightarrow> p | None \<Rightarrow> q)"

definition no_index :: "chunk_index_query \<Rightarrow> bool" where
  "no_index q \<longleftrightarrow> q_index_address q = u64_max"

text \<open>The cache after the queries \<open>earlier\<close>: for each key the records of the first that succeeded.\<close>

definition cache_after :: "(nat \<Rightarrow> nat \<Rightarrow> nat) \<Rightarrow> bytes \<Rightarrow> chunk_index_query list \<Rightarrow> chunk_record list cache_map \<Rightarrow> bool" where
  "cache_after rc d earlier c \<longleftrightarrow>
     (\<forall>q. \<not> no_index q \<longrightarrow> c (q_index_address q, length (q_dataset_dims q)) =
        (case find (succeeded_for rc d q) earlier of Some p \<Rightarrow> (case compute_records rc d p of Inr v \<Rightarrow> Some v | Inl _ \<Rightarrow> None) | None \<Rightarrow> None))"

lemma find_append: "find P (xs @ ys) = (case find P xs of Some x \<Rightarrow> Some x | None \<Rightarrow> find P ys)"
  by (induction xs) auto

lemma find_first_take:
  assumes "k < n" "n \<le> length xs" "P (xs ! k)" "\<forall>l < k. \<not> P (xs ! l)"
  shows "find P (take n xs) = Some (xs ! k)"
  using assms by (auto simp: find_Some_iff intro!: exI [of _ k])

lemma find_same_key:
  "same_key p q \<Longrightarrow> find (succeeded_for rc d p) qs = find (succeeded_for rc d q) qs"
  by (rule find_cong) (auto simp: succeeded_for_def same_key_def)

lemma find_succeeded:
  assumes "find (succeeded_for rc d q) qs = Some p"
  obtains v where "same_key p q" "compute_records rc d p = Inr v"
proof -
  have "succeeded_for rc d q p" using assms by (auto simp: find_Some_iff)
  then show thesis using that by (cases "compute_records rc d p") (simp_all add: succeeded_for_def)
qed

lemma cache_after_step:
  assumes "cache_after rc d earlier c" "\<not> no_index q"
  shows "\<exists>c'. get_or_insert c (q_index_address q, length (q_dataset_dims q)) (compute_records rc d q)
      = (compute_records rc d (answered_by rc d earlier q), c') \<and> cache_after rc d (earlier @ [q]) c'"
proof (cases "find (succeeded_for rc d q) earlier")
  case (Some p)
  obtain v where v: "same_key p q" "compute_records rc d p = Inr v" using find_succeeded [OF Some] .
  have hit: "c (q_index_address q, length (q_dataset_dims q)) = Some v"
    using assms Some v(2) by (simp add: cache_after_def)
  have "cache_after rc d (earlier @ [q]) c"
    unfolding cache_after_def
  proof (intro allI impI)
    fix u assume u: "\<not> no_index u"
    have "find (succeeded_for rc d u) earlier \<noteq> None" if "succeeded_for rc d u q"
      using that find_same_key [of u q rc d earlier] Some by (simp add: succeeded_for_def same_key_def)
    then have "find (succeeded_for rc d u) (earlier @ [q]) = find (succeeded_for rc d u) earlier"
      by (auto simp: find_append split: option.splits)
    then show "c (q_index_address u, length (q_dataset_dims u)) =
        (case find (succeeded_for rc d u) (earlier @ [q]) of Some p \<Rightarrow> (case compute_records rc d p of Inr v \<Rightarrow> Some v | Inl _ \<Rightarrow> None) | None \<Rightarrow> None)"
      using assms(1) u by (simp add: cache_after_def)
  qed
  then show ?thesis using hit v(2) Some by (simp add: get_or_insert_def answered_by_def)
next
  case None
  have miss: "c (q_index_address q, length (q_dataset_dims q)) = None"
    using assms None by (simp add: cache_after_def)
  show ?thesis
  proof (cases "compute_records rc d q")
    case (Inl e)
    then have "find (succeeded_for rc d u) (earlier @ [q]) = find (succeeded_for rc d u) earlier" for u
      by (simp add: find_append succeeded_for_def split: option.splits)
    then have "cache_after rc d (earlier @ [q]) c" using assms(1) by (simp add: cache_after_def)
    then show ?thesis using miss Inl None by (simp add: get_or_insert_def answered_by_def)
  next
    case (Inr v)
    have "cache_after rc d (earlier @ [q]) (c((q_index_address q, length (q_dataset_dims q)) \<mapsto> v))"
      unfolding cache_after_def
    proof (intro allI impI)
      fix u assume u: "\<not> no_index u"
      show "(c((q_index_address q, length (q_dataset_dims q)) \<mapsto> v)) (q_index_address u, length (q_dataset_dims u)) =
          (case find (succeeded_for rc d u) (earlier @ [q]) of Some p \<Rightarrow> (case compute_records rc d p of Inr v \<Rightarrow> Some v | Inl _ \<Rightarrow> None) | None \<Rightarrow> None)"
      proof (cases "same_key q u")
        case True
        then have "find (succeeded_for rc d u) earlier = None" "succeeded_for rc d u q"
          using None find_same_key [of q u rc d earlier] Inr by (simp_all add: succeeded_for_def)
        then show ?thesis using True Inr by (simp add: find_append same_key_def)
      next
        case False
        then have "find (succeeded_for rc d u) (earlier @ [q]) = find (succeeded_for rc d u) earlier"
          by (simp add: find_append succeeded_for_def split: option.splits)
        then show ?thesis using False assms(1) u by (auto simp: cache_after_def same_key_def)
      qed
    qed
    then show ?thesis using miss Inr None by (simp add: get_or_insert_def answered_by_def)
  qed
qed

lemma cache_after_skip:
  assumes "cache_after rc d earlier c" "no_index q"
  shows "cache_after rc d (earlier @ [q]) c"
proof -
  have "find (succeeded_for rc d u) (earlier @ [q]) = find (succeeded_for rc d u) earlier" if "\<not> no_index u" for u
    using that assms(2) by (auto simp: find_append succeeded_for_def same_key_def no_index_def split: option.splits)
  then show ?thesis using assms(1) by (simp add: cache_after_def)
qed

definition cached_answer :: "(nat \<Rightarrow> nat \<Rightarrow> nat) \<Rightarrow> bytes \<Rightarrow> chunk_index_query list \<Rightarrow> chunk_index_query \<Rightarrow> chunk_record list res" where
  "cached_answer rc d earlier q = (if no_index q then Inr [] else compute_records rc d (answered_by rc d earlier q))"

lemma run_queries_cached:
  assumes "cache_after rc d earlier c"
  shows "run_queries rc d qs (Some c) = map (\<lambda>i. cached_answer rc d (earlier @ take i qs) (qs ! i)) [0..<length qs]"
  using assms
proof (induction qs arbitrary: earlier c)
  case (Cons q qs)
  have split: "[0..<length (q # qs)] = 0 # map Suc [0..<length qs]" by (simp add: upt_conv_Cons map_Suc_upt del: upt_Suc)
  show ?case
  proof (cases "no_index q")
    case True
    then show ?thesis
      using Cons.IH [OF cache_after_skip [OF Cons.prems True]]
      unfolding split by (simp add: chunk_records_def no_index_def cached_answer_def comp_def)
  next
    case False
    obtain c' where c': "get_or_insert c (q_index_address q, length (q_dataset_dims q)) (compute_records rc d q)
        = (compute_records rc d (answered_by rc d earlier q), c')" "cache_after rc d (earlier @ [q]) c'"
      using cache_after_step [OF Cons.prems False] by blast
    then show ?thesis using Cons.IH [OF c'(2)] False
      unfolding split by (simp add: chunk_records_def no_index_def cached_answer_def comp_def)
  qed
qed simp

lemma run_queries_uncached: "run_queries rc d qs None = map (cached_answer rc d []) qs"
  by (induction qs) (simp_all add: chunk_records_def cached_answer_def answered_by_def no_index_def)

lemma map_upt_eq_map: "map f [0..<length xs] = map g xs \<longleftrightarrow> (\<forall>j < length xs. f j = g (xs ! j))"
proof -
  have "map g xs = map (\<lambda>j. g (xs ! j)) [0..<length xs]" by (rule nth_equalityI) simp_all
  then show ?thesis by (simp only: map_eq_conv set_upt Ball_def atLeastLessThan_iff) simp
qed

text \<open>Two queries of a history conflict when they share a key and the records of the first are not those of the second.\<close>

definition no_conflict :: "(nat \<Rightarrow> nat \<Rightarrow> nat) \<Rightarrow> bytes \<Rightarrow> chunk_index_query list \<Rightarrow> bool" where
  "no_conflict rc d qs \<longleftrightarrow> (\<forall>j < length qs. \<forall>i < j. \<not> no_index (qs ! j) \<longrightarrow> same_key (qs ! i) (qs ! j) \<longrightarrow>
     (\<forall>v. compute_records rc d (qs ! i) = Inr v \<longrightarrow> compute_records rc d (qs ! j) = Inr v))"

lemma answers_equal:
  "(\<forall>j < length qs. cached_answer rc d (take j qs) (qs ! j) = cached_answer rc d [] (qs ! j)) \<longleftrightarrow> no_conflict rc d qs"
proof
  assume eq: "\<forall>j < length qs. cached_answer rc d (take j qs) (qs ! j) = cached_answer rc d [] (qs ! j)"
  show "no_conflict rc d qs"
    unfolding no_conflict_def
  proof (intro allI impI)
    fix j i v
    assume h: "j < length qs" "i < j" "\<not> no_index (qs ! j)" "same_key (qs ! i) (qs ! j)" "compute_records rc d (qs ! i) = Inr v"
    let ?P = "succeeded_for rc d (qs ! j)"
    have Pi: "?P (qs ! i)" using h by (simp add: succeeded_for_def)
    then obtain k where k: "k \<le> i" "?P (qs ! k)" "\<forall>l < k. \<not> ?P (qs ! l)"
      using ex_least_nat_le [of "\<lambda>k. ?P (qs ! k)" i] by blast
    have first: "find ?P (take n qs) = Some (qs ! k)" if "k < n" "n \<le> j" for n
      using find_first_take [OF that(1) _ k(2,3)] that(2) h(1) by auto
    have "compute_records rc d (qs ! k) = compute_records rc d (qs ! j)"
      using eq [rule_format, OF h(1)] h(3) first [of j] k(1) h(2) by (simp add: cached_answer_def answered_by_def)
    moreover have "compute_records rc d (qs ! k) = compute_records rc d (qs ! i)"
    proof (cases "k = i")
      case False
      have "\<not> no_index (qs ! i)" using h(3,4) by (simp add: no_index_def same_key_def)
      moreover have "find (succeeded_for rc d (qs ! i)) (take i qs) = Some (qs ! k)"
        using find_same_key [OF h(4)] first [of i] False k(1) h(2) by simp
      moreover have "i < length qs" using h(1,2) by simp
      ultimately show ?thesis using eq [rule_format, of i] by (simp add: cached_answer_def answered_by_def)
    qed simp
    ultimately show "compute_records rc d (qs ! j) = Inr v" using h(5) by simp
  qed
next
  assume nc: "no_conflict rc d qs"
  show "\<forall>j < length qs. cached_answer rc d (take j qs) (qs ! j) = cached_answer rc d [] (qs ! j)"
  proof (intro allI impI)
    fix j assume j: "j < length qs"
    show "cached_answer rc d (take j qs) (qs ! j) = cached_answer rc d [] (qs ! j)"
    proof (cases "no_index (qs ! j) \<or> find (succeeded_for rc d (qs ! j)) (take j qs) = None")
      case False
      then obtain p where p: "find (succeeded_for rc d (qs ! j)) (take j qs) = Some p" by auto
      obtain v where v: "same_key p (qs ! j)" "compute_records rc d p = Inr v" using find_succeeded [OF p] .
      obtain i where i: "i < j" "p = qs ! i" using p by (auto simp: find_Some_iff)
      have "compute_records rc d (qs ! j) = Inr v" using nc j i v False unfolding no_conflict_def by blast
      then show ?thesis using v(2) p by (simp add: cached_answer_def answered_by_def)
    qed (auto simp: cached_answer_def answered_by_def)
  qed
qed

text \<open>
  C36. What a history of queries through one cache returns: a query without an index, no chunks; any
  other, the records of the first query of the history so far with its index address and rank whose
  records could be computed, and its own result when there is none. So the cache changes no result
  of the history exactly when no query follows one with its address and rank that found records
  other than its own.
\<close>

theorem chunk_index_cache_exact:
  "run_queries root_ceil file_data qs (Some Map.empty)
      = map (\<lambda>i. if q_index_address (qs ! i) = u64_max then Inr []
           else compute_records root_ceil file_data (answered_by root_ceil file_data (take i qs) (qs ! i))) [0..<length qs]
    \<and> (run_queries root_ceil file_data qs (Some Map.empty) = run_queries root_ceil file_data qs None
       \<longleftrightarrow> no_conflict root_ceil file_data qs)"
proof -
  have "cache_after root_ceil file_data [] Map.empty" by (simp add: cache_after_def)
  from run_queries_cached [OF this, of qs]
  have r: "run_queries root_ceil file_data qs (Some Map.empty) = map (\<lambda>i. cached_answer root_ceil file_data (take i qs) (qs ! i)) [0..<length qs]"
    by simp
  have "run_queries root_ceil file_data qs (Some Map.empty) = run_queries root_ceil file_data qs None
      \<longleftrightarrow> no_conflict root_ceil file_data qs"
    unfolding r run_queries_uncached answers_equal [symmetric] by (rule map_upt_eq_map)
  with r show ?thesis unfolding cached_answer_def no_index_def by blast
qed

text \<open>
  Two datasets over one index address, of the same rank: the second is given the chunk of the first,
  with its size.
\<close>

definition small_query :: chunk_index_query where
  "small_query = implicit_query\<lparr>q_index := SingleChunk\<rparr>"

definition large_query :: chunk_index_query where
  "large_query = small_query\<lparr>q_elem_size := 2\<rparr>"

theorem chunk_index_cache_exact_witness:
  "run_queries (\<lambda>n k. n) [] [small_query, large_query] (Some Map.empty)
    = [compute_records (\<lambda>n k. n) [] small_query, compute_records (\<lambda>n k. n) [] small_query]
   \<and> run_queries (\<lambda>n k. n) [] [small_query, large_query] (Some Map.empty) \<noteq> run_queries (\<lambda>n k. n) [] [small_query, large_query] None"
proof -
  note defs = small_query_def large_query_def implicit_query_def
  have c: "compute_records (\<lambda>n k. n) [] small_query = Inr [\<lparr>rec_address = 1000, rec_size = 6, rec_filter_mask = 0, rec_offsets = [0, 0]\<rparr>]"
    "compute_records (\<lambda>n k. n) [] large_query = Inr [\<lparr>rec_address = 1000, rec_size = 12, rec_filter_mask = 0, rec_offsets = [0, 0]\<rparr>]"
    by (simp_all add: defs compute_records_def single_chunk_records_def chunk_byte_size_def checked_volume_def u32_try_from_def)
  have k: "same_key small_query large_query" "\<not> no_index large_query" "\<not> no_index small_query"
    by (simp_all add: defs same_key_def no_index_def)
  have a: "answered_by (\<lambda>n k. n) [] [] small_query = small_query" "answered_by (\<lambda>n k. n) [] [small_query] large_query = small_query"
    using k(1) by (simp_all add: answered_by_def succeeded_for_def c)
  have "\<not> no_conflict (\<lambda>n k. n) [] [small_query, large_query]"
  proof
    assume "no_conflict (\<lambda>n k. n) [] [small_query, large_query]"
    then have "compute_records (\<lambda>n k. n) [] large_query = compute_records (\<lambda>n k. n) [] small_query"
      using k c(1) unfolding no_conflict_def by (elim allE [of _ 1]) (auto elim: allE [of _ 0])
    then show False by (simp add: c)
  qed
  moreover have "run_queries (\<lambda>n k. n) [] [small_query, large_query] (Some Map.empty)
      = [compute_records (\<lambda>n k. n) [] small_query, compute_records (\<lambda>n k. n) [] small_query]"
    unfolding conjunct1 [OF chunk_index_cache_exact] using k a by (simp add: no_index_def upt_rec)
  ultimately show ?thesis
    using conjunct2 [OF chunk_index_cache_exact [of "\<lambda>n k. n" "[]" "[small_query, large_query]"]] by blast
qed

end
