(* ===== verification/Chunk_Cache.thy ===== *)
theory Chunk_Cache
  imports Chunk_Index
begin

text \<open>
  \<^verbatim>\<open>oxih5-format/src/chunked/cache.rs\<close> under concurrency. The clones of a cache share one map
  behind a read-write lock; a call takes the read lock to look its key up, computes without any
  lock on a miss, and takes the write lock to store its result. Between the two locks other
  threads run, so a step of the machine is one critical section or one computation of one thread.
  Nothing inside a critical section can panic, so the lock is never poisoned. The lock itself, and
  with it blocking, is modelled in \<open>Chunk_Lock\<close>, whose runs are runs of this machine.
\<close>

section \<open>Threads\<close>

datatype 'v pc =
    Start cache_key
  | Computing cache_key
  | Computed cache_key 'v
  | Done cache_key "'v res"

record 'v system =
  cmap :: "'v cache_map"
  pcs :: "nat \<Rightarrow> 'v pc"

text \<open>What thread \<open>t\<close> computes is its own closure, \<open>compute t\<close>.\<close>

inductive cache_step :: "(nat \<Rightarrow> 'v res) \<Rightarrow> 'v system \<Rightarrow> 'v system \<Rightarrow> bool" for compute where
  hit: "pcs s t = Start k \<Longrightarrow> cmap s k = Some v \<Longrightarrow> cache_step compute s (s\<lparr>pcs := (pcs s)(t := Done k (Inr v))\<rparr>)"
| miss: "pcs s t = Start k \<Longrightarrow> cmap s k = None \<Longrightarrow> cache_step compute s (s\<lparr>pcs := (pcs s)(t := Computing k)\<rparr>)"
| computed: "pcs s t = Computing k \<Longrightarrow> compute t = Inr v \<Longrightarrow> cache_step compute s (s\<lparr>pcs := (pcs s)(t := Computed k v)\<rparr>)"
| failed: "pcs s t = Computing k \<Longrightarrow> compute t = Inl e \<Longrightarrow> cache_step compute s (s\<lparr>pcs := (pcs s)(t := Done k (Inl e))\<rparr>)"
| store: "pcs s t = Computed k v \<Longrightarrow> cmap s k = None \<Longrightarrow>
     cache_step compute s (s\<lparr>cmap := (cmap s)(k \<mapsto> v), pcs := (pcs s)(t := Done k (Inr v))\<rparr>)"
| keep: "pcs s t = Computed k v \<Longrightarrow> cmap s k = Some w \<Longrightarrow> cache_step compute s (s\<lparr>pcs := (pcs s)(t := Done k (Inr w))\<rparr>)"

inductive cache_run :: "(nat \<Rightarrow> 'v res) \<Rightarrow> 'v system \<Rightarrow> 'v system \<Rightarrow> bool" for compute where
  stop: "cache_run compute s s"
| more: "cache_run compute s s' \<Longrightarrow> cache_step compute s' s'' \<Longrightarrow> cache_run compute s s''"

inductive_cases cache_stepE: "cache_step compute s s'"

definition initial :: "(nat \<Rightarrow> cache_key) \<Rightarrow> 'v system" where
  "initial keys = \<lparr>cmap = Map.empty, pcs = (\<lambda>t. Start (keys t))\<rparr>"

text \<open>The key a thread works on never changes.\<close>

fun key_of :: "'v pc \<Rightarrow> cache_key" where
  "key_of (Start k) = k"
| "key_of (Computing k) = k"
| "key_of (Computed k v) = k"
| "key_of (Done k r) = k"

section \<open>Invariant\<close>

text \<open>
  Every stored value was computed by a thread for its key; a thread past its computation holds its
  own value; a thread that succeeded returned the value stored under its key; a thread that failed
  returned its own error.
\<close>

definition cache_inv :: "(nat \<Rightarrow> 'v res) \<Rightarrow> (nat \<Rightarrow> cache_key) \<Rightarrow> 'v system \<Rightarrow> bool" where
  "cache_inv compute keys s \<longleftrightarrow>
     (\<forall>k v. cmap s k = Some v \<longrightarrow> (\<exists>t. keys t = k \<and> compute t = Inr v)) \<and>
     (\<forall>t. key_of (pcs s t) = keys t) \<and>
     (\<forall>t k v. pcs s t = Computed k v \<longrightarrow> compute t = Inr v) \<and>
     (\<forall>t k v. pcs s t = Done k (Inr v) \<longrightarrow> cmap s k = Some v) \<and>
     (\<forall>t k e. pcs s t = Done k (Inl e) \<longrightarrow> compute t = Inl e)"

lemma cache_inv_initial: "cache_inv compute keys (initial keys)"
  by (simp add: cache_inv_def initial_def)

lemma cache_invD:
  assumes "cache_inv compute keys s"
  shows "cmap s k = Some v \<Longrightarrow> \<exists>t. keys t = k \<and> compute t = Inr v"
    and "key_of (pcs s t) = keys t"
    and "pcs s t = Computed k v \<Longrightarrow> compute t = Inr v"
    and "pcs s t = Done k (Inr v) \<Longrightarrow> cmap s k = Some v"
    and "pcs s t = Done k (Inl e) \<Longrightarrow> compute t = Inl e"
  using assms unfolding cache_inv_def by blast+

lemma cache_invI:
  assumes "\<And>k v. cmap s k = Some v \<Longrightarrow> \<exists>t. keys t = k \<and> compute t = Inr v"
    and "\<And>t. key_of (pcs s t) = keys t"
    and "\<And>t k v. pcs s t = Computed k v \<Longrightarrow> compute t = Inr v"
    and "\<And>t k v. pcs s t = Done k (Inr v) \<Longrightarrow> cmap s k = Some v"
    and "\<And>t k e. pcs s t = Done k (Inl e) \<Longrightarrow> compute t = Inl e"
  shows "cache_inv compute keys s"
  using assms unfolding cache_inv_def by blast

text \<open>A step that leaves the map alone needs only a look at the thread that moves.\<close>

lemma cache_inv_move:
  assumes "cache_inv compute keys s" and "key_of p = keys t"
    and "\<And>k v. p = Computed k v \<Longrightarrow> compute t = Inr v"
    and "\<And>k v. p = Done k (Inr v) \<Longrightarrow> cmap s k = Some v"
    and "\<And>k e. p = Done k (Inl e) \<Longrightarrow> compute t = Inl e"
  shows "cache_inv compute keys (s\<lparr>pcs := (pcs s)(t := p)\<rparr>)"
proof (rule cache_invI)
  note d = cache_invD[OF assms(1)]
  show "key_of (pcs (s\<lparr>pcs := (pcs s)(t := p)\<rparr>) u) = keys u" for u using d(2)[of u] assms(2) by simp
  show "\<exists>u. keys u = k \<and> compute u = Inr v" if "cmap (s\<lparr>pcs := (pcs s)(t := p)\<rparr>) k = Some v" for k v
    using d(1) that by simp
  show "compute u = Inr v" if "pcs (s\<lparr>pcs := (pcs s)(t := p)\<rparr>) u = Computed k v" for u k v
    using that d(3)[of u k v] assms(3)[of k v] by (cases "u = t") simp_all
  show "cmap (s\<lparr>pcs := (pcs s)(t := p)\<rparr>) k = Some v" if "pcs (s\<lparr>pcs := (pcs s)(t := p)\<rparr>) u = Done k (Inr v)" for u k v
    using that d(4)[of u k v] assms(4)[of k v] by (cases "u = t") simp_all
  show "compute u = Inl e" if "pcs (s\<lparr>pcs := (pcs s)(t := p)\<rparr>) u = Done k (Inl e)" for u k e
    using that d(5)[of u k e] assms(5)[of k e] by (cases "u = t") simp_all
qed

lemma cache_inv_store:
  assumes "cache_inv compute keys s" and "cmap s k = None" and "keys t = k" and "compute t = Inr v"
  shows "cache_inv compute keys (s\<lparr>cmap := (cmap s)(k \<mapsto> v)\<rparr>)"
proof (rule cache_invI)
  note d = cache_invD[OF assms(1)]
  show "\<exists>u. keys u = l \<and> compute u = Inr w" if "cmap (s\<lparr>cmap := (cmap s)(k \<mapsto> v)\<rparr>) l = Some w" for l w
    using that d(1)[of l w] assms(3,4) by (cases "l = k") auto
  show "cmap (s\<lparr>cmap := (cmap s)(k \<mapsto> v)\<rparr>) l = Some w" if "pcs (s\<lparr>cmap := (cmap s)(k \<mapsto> v)\<rparr>) u = Done l (Inr w)" for u l w
    using that d(4)[of u l w] assms(2) by (cases "l = k") simp_all
qed (use cache_invD[OF assms(1)] in simp_all)

lemma cache_inv_step:
  assumes "cache_step compute s s'" and "cache_inv compute keys s"
  shows "cache_inv compute keys s'"
  using assms
proof (induction rule: cache_step.induct)
  case (store s t k v)
  note d = cache_invD[OF store.prems]
  have k: "keys t = k" using d(2)[of t] store.hyps(1) by simp
  have "cache_inv compute keys (s\<lparr>cmap := (cmap s)(k \<mapsto> v)\<rparr>)"
    using cache_inv_store[OF store.prems store.hyps(2) k d(3)[OF store.hyps(1)]] .
  from cache_inv_move[OF this, of "Done k (Inr v)" t] k show ?case by simp
next
  case (hit s t k v)
  then show ?case using cache_invD(2)[OF hit.prems, of t] by (intro cache_inv_move) simp_all
next
  case (miss s t k)
  then show ?case using cache_invD(2)[OF miss.prems, of t] by (intro cache_inv_move) simp_all
next
  case (computed s t k v)
  then show ?case using cache_invD(2)[OF computed.prems, of t] by (intro cache_inv_move) simp_all
next
  case (failed s t k e)
  then show ?case using cache_invD(2)[OF failed.prems, of t] by (intro cache_inv_move) simp_all
next
  case (keep s t k v w)
  then show ?case using cache_invD(2)[OF keep.prems, of t] by (intro cache_inv_move) simp_all
qed

lemma cache_inv_run: "cache_run compute s s' \<Longrightarrow> cache_inv compute keys s \<Longrightarrow> cache_inv compute keys s'"
  by (induction rule: cache_run.induct) (auto intro: cache_inv_step)

text \<open>
  C37. However the threads interleave, all calls for one key that succeed return the same records,
  which are the ones one of these calls computed, and a call fails only with the error of its own
  computation: a failure is never stored and never seen by another thread.
\<close>

theorem cache_threads_agree:
  assumes "cache_run compute (initial keys) s"
  shows "(\<forall>t t' v v'. keys t = keys t' \<longrightarrow> pcs s t = Done (keys t) (Inr v) \<longrightarrow> pcs s t' = Done (keys t') (Inr v') \<longrightarrow> v = v')
    \<and> (\<forall>t v. pcs s t = Done (keys t) (Inr v) \<longrightarrow> (\<exists>u. keys u = keys t \<and> compute u = Inr v))
    \<and> (\<forall>t e. pcs s t = Done (keys t) (Inl e) \<longrightarrow> compute t = Inl e)"
proof -
  have inv: "cache_inv compute keys s" using cache_inv_run[OF assms cache_inv_initial] .
  show ?thesis
  proof (intro conjI allI impI)
    fix t t' v v'
    assume "keys t = keys t'" "pcs s t = Done (keys t) (Inr v)" "pcs s t' = Done (keys t') (Inr v')"
    then have "cmap s (keys t) = Some v" "cmap s (keys t) = Some v'" using cache_invD(4)[OF inv] by metis+
    then show "v = v'" by simp
  next
    fix t v assume "pcs s t = Done (keys t) (Inr v)"
    then show "\<exists>u. keys u = keys t \<and> compute u = Inr v" using cache_invD(1,4)[OF inv] by blast
  next
    fix t e assume "pcs s t = Done (keys t) (Inl e)"
    then show "compute t = Inl e" using cache_invD(5)[OF inv] by blast
  qed
qed

text \<open>Two threads miss together; the second finds the value of the first when it comes to store.\<close>

theorem cache_threads_agree_witness:
  "\<exists>s. cache_run (\<lambda>t. Inr t) (initial (\<lambda>t. (0, 1))) s \<and> pcs s 1 = Done (0, 1) (Inr (1 :: nat)) \<and> pcs s 2 = Done (0, 1) (Inr 1)
    \<and> (\<forall>v v'. pcs s 1 = Done (0, 1) (Inr v) \<longrightarrow> pcs s 2 = Done (0, 1) (Inr v') \<longrightarrow> v = v')"
proof -
  let ?c = "\<lambda>t. Inr t :: nat res" and ?k = "(0, 1) :: cache_key"
  define s0 where "s0 = (initial (\<lambda>t. ?k) :: nat system)"
  define s1 where "s1 = s0\<lparr>pcs := (pcs s0)(1 := Computing ?k)\<rparr>"
  define s2 where "s2 = s1\<lparr>pcs := (pcs s1)(2 := Computing ?k)\<rparr>"
  define s3 where "s3 = s2\<lparr>pcs := (pcs s2)(1 := Computed ?k 1)\<rparr>"
  define s4 where "s4 = s3\<lparr>pcs := (pcs s3)(2 := Computed ?k 2)\<rparr>"
  define s5 where "s5 = s4\<lparr>cmap := (cmap s4)(?k \<mapsto> 1), pcs := (pcs s4)(1 := Done ?k (Inr 1))\<rparr>"
  define s6 where "s6 = s5\<lparr>pcs := (pcs s5)(2 := Done ?k (Inr 1))\<rparr>"
  note defs = s0_def s1_def s2_def s3_def s4_def s5_def s6_def initial_def
  have 1: "cache_step ?c s0 s1" unfolding s1_def by (rule cache_step.miss) (simp_all add: defs)
  have 2: "cache_step ?c s1 s2" unfolding s2_def by (rule cache_step.miss) (simp_all add: defs)
  have 3: "cache_step ?c s2 s3" unfolding s3_def by (rule cache_step.computed) (simp_all add: defs)
  have 4: "cache_step ?c s3 s4" unfolding s4_def by (rule cache_step.computed) (simp_all add: defs)
  have 5: "cache_step ?c s4 s5" unfolding s5_def by (rule cache_step.store) (simp_all add: defs)
  have 6: "cache_step ?c s5 s6" unfolding s6_def by (rule cache_step.keep) (simp_all add: defs)
  have run: "cache_run ?c s0 s6"
    by (rule cache_run.more[OF cache_run.more[OF cache_run.more[OF cache_run.more[OF cache_run.more[OF
        cache_run.more[OF cache_run.stop 1] 2] 3] 4] 5] 6])
  have "pcs s6 1 = Done ?k (Inr 1)" "pcs s6 2 = Done ?k (Inr 1)" by (simp_all add: defs)
  then show ?thesis using run cache_threads_agree[OF run[unfolded s0_def]] unfolding s0_def by blast
qed

end
