(* ===== verification/Hyperslab.thy ===== *)
theory Hyperslab
  imports Chunk_Geometry
begin

text \<open>
  \<^verbatim>\<open>oxih5-format/src/hyperslab.rs\<close>: strided and blocked selections, their membership test,
  and the scattering of a decoded chunk into a buffer of the shape of the selection. The private
  copies of \<open>row_major_strides\<close> and \<open>flat_to_coords\<close> in that file are those of
  \<^verbatim>\<open>chunked/geometry.rs\<close>.
\<close>

section \<open>One dimension\<close>

record dim_selection =
  sel_start :: nat
  sel_stride :: nat
  sel_count :: nat
  sel_block :: nat

definition contiguous :: "range \<Rightarrow> dim_selection res" where
  "contiguous r = and_then (usub (snd r) (fst r)) (\<lambda>n.
     Inr \<lparr>sel_start = fst r, sel_stride = 1, sel_count = n, sel_block = 1\<rparr>)"

definition n_elements :: "dim_selection \<Rightarrow> nat res" where
  "n_elements s = umul (sel_count s) (sel_block s)"

definition last_element :: "dim_selection \<Rightarrow> nat option res" where
  "last_element s =
     (if sel_count s = 0 \<or> sel_block s = 0 then Inr None
      else
        and_then (umul (sel_count s - 1) (sel_stride s)) (\<lambda>p.
        and_then (uadd (sel_start s) p) (\<lambda>q.
        and_then (uadd q (sel_block s - 1)) (\<lambda>l. Inr (Some l)))))"

definition contains :: "dim_selection \<Rightarrow> nat \<Rightarrow> bool res" where
  "contains s coord =
     (if sel_count s = 0 \<or> sel_block s = 0 then Inr False
      else if coord < sel_start s then Inr False
      else
        let rel = coord - sel_start s in
        and_then (udiv rel (sel_stride s)) (\<lambda>block_idx.
          if block_idx \<ge> sel_count s then Inr False
          else and_then (umod rel (sel_stride s)) (\<lambda>r. Inr (r < sel_block s))))"

text \<open>The position of a selected coordinate within the output, from the loop of the scatter.\<close>

definition out_coord :: "dim_selection \<Rightarrow> nat \<Rightarrow> nat res" where
  "out_coord s g =
     and_then (usub g (sel_start s)) (\<lambda>rel.
     and_then (udiv rel (sel_stride s)) (\<lambda>block_idx.
     and_then (umod rel (sel_stride s)) (\<lambda>in_block.
     and_then (umul block_idx (sel_block s)) (\<lambda>p. uadd p in_block))))"

section \<open>All dimensions\<close>

type_synonym hyperslab = "dim_selection list"

definition hyperslab_contiguous :: "range list \<Rightarrow> hyperslab res" where
  "hyperslab_contiguous ranges = map_res contiguous ranges"

definition output_shape :: "hyperslab \<Rightarrow> nat list res" where
  "output_shape h = map_res n_elements h"

definition bounding_ranges :: "hyperslab \<Rightarrow> range list res" where
  "bounding_ranges h = map_res (\<lambda>d.
     if sel_count d = 0 \<or> sel_block d = 0 then Inr (0, 0)
     else
       and_then (last_element d) (\<lambda>l.
       and_then (case l of Some l \<Rightarrow> uadd l 1 | None \<Rightarrow> Inr (sel_start d)) (\<lambda>e. Inr (sel_start d, e)))) h"

definition is_fully_contiguous :: "hyperslab \<Rightarrow> bool" where
  "is_fully_contiguous h \<longleftrightarrow> list_all (\<lambda>d. sel_stride d = 1 \<and> sel_block d = 1) h"

definition is_empty :: "hyperslab \<Rightarrow> bool" where
  "is_empty h \<longleftrightarrow> list_ex (\<lambda>d. sel_count d = 0 \<or> sel_block d = 0) h"

definition validate :: "hyperslab \<Rightarrow> unit res" where
  "validate h = fold_res (\<lambda>sel u.
     if sel_count sel > 0 \<and> sel_block sel > 0 \<and> sel_stride sel = 0 then Inl Format else Inr u) h ()"

text \<open>The loop body, from the global coordinates of an element of the overlap on.\<close>

definition copy_selected ::
  "bytes \<Rightarrow> bytes \<Rightarrow> nat list \<Rightarrow> hyperslab \<Rightarrow> nat list \<Rightarrow> nat list \<Rightarrow> nat \<Rightarrow> nat list \<Rightarrow> bytes res" where
  "copy_selected output chunk_data chunk_origin selection chunk_strides out_strides elem_size global =
     (let ndims = length selection in
      and_then (any_res (\<lambda>d. and_then (index selection d) (\<lambda>sel. and_then (index global d) (\<lambda>g.
                  and_then (contains sel g) (\<lambda>b. Inr (\<not> b))))) [0..<ndims]) (\<lambda>outside.
        if outside then Inr output
        else
          and_then (sub_all global chunk_origin) (\<lambda>in_chunk.
          and_then (dot_strides in_chunk chunk_strides) (\<lambda>chunk_flat.
          and_then (map_res (\<lambda>d. and_then (index selection d) (\<lambda>sel. and_then (index global d) (\<lambda>g. out_coord sel g))) [0..<ndims]) (\<lambda>outs.
          and_then (dot_strides outs out_strides) (\<lambda>out_flat.
            copy_element output chunk_data chunk_flat out_flat elem_size))))))"

definition scatter_chunk_hyperslab ::
  "bytes \<Rightarrow> bytes \<Rightarrow> nat list \<Rightarrow> nat list \<Rightarrow> hyperslab \<Rightarrow> nat list \<Rightarrow> nat \<Rightarrow> bytes res" where
  "scatter_chunk_hyperslab output chunk_data chunk_origin chunk_dims selection out_shape elem_size =
     (let ndims = length selection in
      if length chunk_origin \<noteq> ndims \<or> length chunk_dims \<noteq> ndims \<or> length out_shape \<noteq> ndims then Inl Format
      else
        and_then (validate selection) (\<lambda>_.
        and_then (bounding_ranges selection) (\<lambda>bbox.
        and_then (overlap bbox chunk_origin chunk_dims) (\<lambda>(ovl_start, ovl_end).
          if \<exists>d\<in>set [0..<ndims]. ovl_start ! d \<ge> ovl_end ! d then Inr output
          else
            and_then (sub_all ovl_end ovl_start) (\<lambda>ovl_shape.
            and_then (product_u64 ovl_shape) (\<lambda>ovl_elems.
            and_then (row_major_strides ovl_shape) (\<lambda>ovl_strides.
            and_then (row_major_strides chunk_dims) (\<lambda>chunk_strides.
            and_then (row_major_strides out_shape) (\<lambda>out_strides.
              fold_res (\<lambda>ovl_flat output.
                and_then (flat_to_coords ovl_flat ovl_strides ndims) (\<lambda>ovl_coords.
                and_then (add_all ovl_start ovl_coords) (\<lambda>global.
                  copy_selected output chunk_data chunk_origin selection chunk_strides out_strides elem_size global)))
                [0..<ovl_elems] output)))))))))"

section \<open>The selected elements\<close>

text \<open>What the documentation of the type says is selected, and the elements in their order.\<close>

definition selected :: "dim_selection \<Rightarrow> nat set" where
  "selected s = {sel_start s + k * sel_stride s + j | k j. k < sel_count s \<and> j < sel_block s}"

definition nth_selected :: "dim_selection \<Rightarrow> nat \<Rightarrow> nat" where
  "nth_selected s i = sel_start s + (i div sel_block s) * sel_stride s + i mod sel_block s"

definition out_pos :: "dim_selection \<Rightarrow> nat \<Rightarrow> nat" where
  "out_pos s g = ((g - sel_start s) div sel_stride s) * sel_block s + (g - sel_start s) mod sel_stride s"

text \<open>Blocks of a selection that do not overlap each other.\<close>

definition disjoint_blocks :: "dim_selection \<Rightarrow> bool" where
  "disjoint_blocks s \<longleftrightarrow> 0 < sel_block s \<and> sel_block s \<le> sel_stride s"

lemma contains_eq:
  assumes "0 < sel_stride s"
  shows "contains s c = Inr (sel_start s \<le> c \<and> (c - sel_start s) div sel_stride s < sel_count s
    \<and> (c - sel_start s) mod sel_stride s < sel_block s)"
  using assms by (auto simp: contains_def Let_def)

lemma block_index:
  assumes "j < sel_block s" and "disjoint_blocks s"
  shows "(k * sel_stride s + j) div sel_stride s = k" and "(k * sel_stride s + j) mod sel_stride s = j"
  using assms by (simp_all add: disjoint_blocks_def)

lemma selected_iff:
  assumes "disjoint_blocks s"
  shows "c \<in> selected s \<longleftrightarrow> sel_start s \<le> c \<and> (c - sel_start s) div sel_stride s < sel_count s
    \<and> (c - sel_start s) mod sel_stride s < sel_block s"
proof
  assume "c \<in> selected s"
  then obtain k j where kj: "c = sel_start s + (k * sel_stride s + j)" "k < sel_count s" "j < sel_block s"
    by (auto simp: selected_def)
  then show "sel_start s \<le> c \<and> (c - sel_start s) div sel_stride s < sel_count s
    \<and> (c - sel_start s) mod sel_stride s < sel_block s"
    using block_index[OF kj(3) assms] by simp
next
  assume "sel_start s \<le> c \<and> (c - sel_start s) div sel_stride s < sel_count s
    \<and> (c - sel_start s) mod sel_stride s < sel_block s"
  then show "c \<in> selected s"
    unfolding selected_def
    by (intro CollectI exI[of _ "(c - sel_start s) div sel_stride s"] exI[of _ "(c - sel_start s) mod sel_stride s"]) simp
qed

lemma contains_selected: "disjoint_blocks s \<Longrightarrow> contains s c = Inr (c \<in> selected s)"
  using contains_eq[of s c] selected_iff[of s c] by (simp add: disjoint_blocks_def)

lemma selected_empty: "sel_block s = 0 \<Longrightarrow> selected s = {}"
  by (simp add: selected_def)

text \<open>
  C31. Membership: for a selection whose blocks do not overlap, \<open>contains\<close> decides exactly the
  set of the documentation, start plus a multiple of the stride plus an offset into the block;
  an empty selection contains nothing.
\<close>

theorem contains_correct:
  assumes "0 < sel_stride s" and "sel_block s \<le> sel_stride s"
  shows "contains s c = Inr (c \<in> selected s)"
proof (cases "sel_block s = 0")
  case True
  then show ?thesis by (simp add: selected_empty contains_def)
next
  case False
  then show ?thesis by (intro contains_selected) (simp add: disjoint_blocks_def assms)
qed

theorem contains_correct_witness:
  "contains \<lparr>sel_start = 2, sel_stride = 5, sel_count = 3, sel_block = 2\<rparr> 8
    = Inr (8 \<in> selected \<lparr>sel_start = 2, sel_stride = 5, sel_count = 3, sel_block = 2\<rparr>)"
  by (rule contains_correct) simp_all

lemma overlapping_selected:
  assumes "0 < sel_stride s" "sel_stride s < sel_block s" "0 < sel_count s"
  shows "selected s = {sel_start s ..< sel_start s + (sel_count s - 1) * sel_stride s + sel_block s}"
proof (intro equalityI subsetI)
  fix c assume "c \<in> selected s"
  then obtain k j where kj: "c = sel_start s + k * sel_stride s + j" "k < sel_count s" "j < sel_block s"
    by (auto simp: selected_def)
  have "k \<le> sel_count s - 1" using kj(2) by simp
  then have "k * sel_stride s \<le> (sel_count s - 1) * sel_stride s" by (rule mult_le_mono1)
  then have "c < sel_start s + (sel_count s - 1) * sel_stride s + sel_block s" using kj(1,3) by linarith
  then show "c \<in> {sel_start s ..< sel_start s + (sel_count s - 1) * sel_stride s + sel_block s}" using kj(1) by simp
next
  fix c assume c: "c \<in> {sel_start s ..< sel_start s + (sel_count s - 1) * sel_stride s + sel_block s}"
  define rel where "rel = c - sel_start s"
  have rel: "c = sel_start s + rel" "rel < (sel_count s - 1) * sel_stride s + sel_block s" using c by (auto simp: rel_def)
  show "c \<in> selected s"
  proof (cases "rel div sel_stride s < sel_count s")
    case True
    have "rel mod sel_stride s < sel_block s" using assms(1,2) by (meson mod_less_divisor less_trans)
    moreover have "c = sel_start s + (rel div sel_stride s) * sel_stride s + rel mod sel_stride s"
      using rel(1) by (simp add: add.assoc)
    ultimately show ?thesis using True unfolding selected_def by blast
  next
    case False
    then have "sel_count s - 1 \<le> rel div sel_stride s" by simp
    then have "(sel_count s - 1) * sel_stride s \<le> (rel div sel_stride s) * sel_stride s" by (rule mult_le_mono1)
    also have "\<dots> \<le> rel" by (rule div_times_less_eq_dividend)
    finally have "(sel_count s - 1) * sel_stride s \<le> rel" .
    then have "c = sel_start s + (sel_count s - 1) * sel_stride s + (rel - (sel_count s - 1) * sel_stride s)"
      "rel - (sel_count s - 1) * sel_stride s < sel_block s" "sel_count s - 1 < sel_count s"
      using rel assms(3) by simp_all
    then show ?thesis unfolding selected_def by blast
  qed
qed

lemma overlapping_contains:
  assumes "0 < sel_stride s" "sel_stride s < sel_block s"
  shows "contains s c = Inr (sel_start s \<le> c \<and> c < sel_start s + sel_count s * sel_stride s)"
proof -
  have "(c - sel_start s) mod sel_stride s < sel_block s" using assms by (meson mod_less_divisor less_trans)
  moreover have "(c - sel_start s) div sel_stride s < sel_count s \<longleftrightarrow> c - sel_start s < sel_count s * sel_stride s"
    using assms(1) by (rule div_less_iff_less_mult)
  ultimately show ?thesis unfolding contains_eq [OF assms(1)] by auto
qed

text \<open>
  C32. Blocks longer than the stride, which \<open>validate\<close> accepts. The documented set is then all the
  coordinates from the start to the end of the last block; \<open>contains\<close> cuts the last block off at
  the stride and so rejects coordinates of the set, the one right behind the cut for instance; and
  the element count, from which the output is sized, counts the overlap of each block with the next
  a second time, so that it is too large as soon as there are two blocks.
\<close>

theorem overlapping_blocks_diverge:
  assumes "0 < sel_stride s" "sel_stride s < sel_block s" "0 < sel_count s" "sel_count s * sel_block s < u64_lim"
  shows "validate [s] = Inr ()
    \<and> selected s = {sel_start s ..< sel_start s + (sel_count s - 1) * sel_stride s + sel_block s}
    \<and> (\<forall>c. contains s c = Inr (sel_start s \<le> c \<and> c < sel_start s + sel_count s * sel_stride s))
    \<and> sel_start s + sel_count s * sel_stride s \<in> selected s
    \<and> n_elements s = Inr (card (selected s) + (sel_count s - 1) * (sel_block s - sel_stride s))"
proof -
  obtain n where n: "sel_count s = Suc n" using assms(3) gr0_implies_Suc by blast
  have "n * sel_stride s \<le> n * sel_block s" using assms(2) by (intro mult_le_mono2) simp
  then have "card (selected s) + (sel_count s - 1) * (sel_block s - sel_stride s) = sel_count s * sel_block s"
    unfolding overlapping_selected [OF assms(1-3)] by (simp add: n diff_mult_distrib2)
  then have "n_elements s = Inr (card (selected s) + (sel_count s - 1) * (sel_block s - sel_stride s))"
    using assms(4) by (simp add: n_elements_def)
  moreover have "sel_start s + sel_count s * sel_stride s \<in> selected s"
    unfolding overlapping_selected [OF assms(1-3)] using assms(2) by (simp add: n)
  moreover have "validate [s] = Inr ()" using assms(1) by (simp add: validate_def)
  ultimately show ?thesis using overlapping_selected [OF assms(1-3)] overlapping_contains [OF assms(1,2)] by blast
qed

text \<open>Two blocks of three at stride two: five coordinates, the last one rejected, six elements.\<close>

theorem overlapping_blocks_diverge_witness:
  "let s = \<lparr>sel_start = 0, sel_stride = 2, sel_count = 2, sel_block = 3\<rparr> in
     selected s = {0 ..< 5} \<and> contains s 4 = Inr False \<and> n_elements s = Inr 6"
proof -
  let ?s = "\<lparr>sel_start = 0, sel_stride = 2, sel_count = 2, sel_block = 3\<rparr>"
  note o = overlapping_blocks_diverge [of ?s, simplified]
  have "selected ?s = {0 ..< 5}" using o by (simp add: atLeast0LessThan)
  then show ?thesis using o by (simp add: Let_def)
qed

section \<open>The order of the selected elements\<close>

lemma out_pos_nth: "disjoint_blocks s \<Longrightarrow> out_pos s (nth_selected s i) = i"
  using block_index[of "i mod sel_block s" s "i div sel_block s"]
  by (simp add: out_pos_def nth_selected_def disjoint_blocks_def add.assoc)

lemma nth_out_pos:
  assumes "disjoint_blocks s" and "c \<in> selected s"
  shows "nth_selected s (out_pos s c) = c"
  using assms by (simp add: selected_iff out_pos_def nth_selected_def)

lemma nth_selected_in:
  assumes "disjoint_blocks s" and "i < sel_count s * sel_block s"
  shows "nth_selected s i \<in> selected s"
proof -
  have "i div sel_block s < sel_count s" using assms(2) by (simp add: less_mult_imp_div_less)
  moreover have "i mod sel_block s < sel_block s" using assms(1) by (simp add: disjoint_blocks_def)
  ultimately show ?thesis by (auto simp: selected_def nth_selected_def)
qed

lemma out_pos_less:
  assumes "disjoint_blocks s" and "c \<in> selected s"
  shows "out_pos s c < sel_count s * sel_block s"
  using assms radix_less[of "(c - sel_start s) div sel_stride s" "sel_count s" "(c - sel_start s) mod sel_stride s" "sel_block s"]
  by (simp add: selected_iff out_pos_def)

lemma nth_selected_mono:
  assumes s: "disjoint_blocks s" and "i < j"
  shows "nth_selected s i < nth_selected s j"
proof (cases "i div sel_block s = j div sel_block s")
  case True
  then have "i mod sel_block s < j mod sel_block s"
    using assms(2) div_mult_mod_eq[of i "sel_block s"] div_mult_mod_eq[of j "sel_block s"] by (metis add_less_cancel_left)
  with True show ?thesis by (simp add: nth_selected_def)
next
  case False
  then have "Suc (i div sel_block s) \<le> j div sel_block s" using assms(2) by (simp add: div_le_mono less_le Suc_le_eq)
  then have "Suc (i div sel_block s) * sel_stride s \<le> (j div sel_block s) * sel_stride s" by (rule mult_le_mono1)
  moreover have "i mod sel_block s < sel_stride s"
    using s mod_less_divisor[of "sel_block s" i] unfolding disjoint_blocks_def by linarith
  ultimately show ?thesis by (simp add: nth_selected_def)
qed

lemma selected_image:
  assumes "disjoint_blocks s"
  shows "selected s = nth_selected s ` {..<sel_count s * sel_block s}"
proof (intro equalityI subsetI)
  show "c \<in> nth_selected s ` {..<sel_count s * sel_block s}" if "c \<in> selected s" for c
    using nth_out_pos[OF assms that] out_pos_less[OF assms that] by (metis imageI lessThan_iff)
qed (use nth_selected_in[OF assms] in auto)

lemma out_coord_eq:
  assumes "disjoint_blocks s" and "g \<in> selected s" and "sel_count s * sel_block s < u64_lim"
  shows "out_coord s g = Inr (out_pos s g)"
proof -
  have "out_pos s g < u64_lim" using out_pos_less[OF assms(1,2)] assms(3) by linarith
  moreover from this have "((g - sel_start s) div sel_stride s) * sel_block s < u64_lim"
    unfolding out_pos_def by linarith
  ultimately show ?thesis
    using assms(1,2) by (simp add: out_coord_def selected_iff out_pos_def disjoint_blocks_def)
qed

text \<open>
  The output coordinate of a selected element is the number of selected elements before it,
  as the comment in the scatter loop says, and the number of selected elements is the extent of
  the output in that dimension: the selected elements fill the output, in order and without gaps.
\<close>

theorem out_coord_counts:
  assumes "0 < sel_block s" and "sel_block s \<le> sel_stride s" and "sel_count s * sel_block s < u64_lim" and "g \<in> selected s"
  shows "out_coord s g = Inr (card {c \<in> selected s. c < g}) \<and> n_elements s = Inr (card (selected s))"
proof -
  have d: "disjoint_blocks s" by (simp add: disjoint_blocks_def assms)
  have inj: "inj (nth_selected s)" by (metis d injI nth_selected_mono nat_neq_iff)
  have "{c \<in> selected s. c < g} = nth_selected s ` {..<out_pos s g}"
  proof (intro equalityI subsetI)
    fix c assume "c \<in> {c \<in> selected s. c < g}"
    then have c: "c \<in> selected s" "c < g" by simp_all
    have "\<not> out_pos s g \<le> out_pos s c"
      using nth_selected_mono[OF d, of "out_pos s g" "out_pos s c"] nth_out_pos[OF d c(1)] nth_out_pos[OF d assms(4)] c(2)
      by (auto simp: le_less)
    then have "out_pos s c < out_pos s g" by simp
    then show "c \<in> nth_selected s ` {..<out_pos s g}" using nth_out_pos[OF d c(1)] by (metis imageI lessThan_iff)
  next
    fix c assume "c \<in> nth_selected s ` {..<out_pos s g}"
    then obtain i where i: "c = nth_selected s i" "i < out_pos s g" by auto
    then have "c < g" using nth_selected_mono[OF d i(2)] nth_out_pos[OF d assms(4)] by simp
    moreover have "c \<in> selected s"
      using i out_pos_less[OF d assms(4)] by (auto intro: nth_selected_in[OF d])
    ultimately show "c \<in> {c \<in> selected s. c < g}" by simp
  qed
  then have "card {c \<in> selected s. c < g} = out_pos s g"
    using card_image[OF inj_on_subset[OF inj subset_UNIV], of "{..<out_pos s g}"] by simp
  moreover have "card (selected s) = sel_count s * sel_block s"
    using card_image[OF inj_on_subset[OF inj subset_UNIV], of "{..<sel_count s * sel_block s}"] selected_image[OF d] by simp
  ultimately show ?thesis using out_coord_eq[OF d assms(4,3)] assms(3) by (simp add: n_elements_def)
qed

theorem out_coord_counts_witness:
  "let s = \<lparr>sel_start = 2, sel_stride = 5, sel_count = 3, sel_block = 2\<rparr> in
     out_coord s 8 = Inr (card {c \<in> selected s. c < 8}) \<and> n_elements s = Inr (card (selected s))"
proof -
  have "8 \<in> selected \<lparr>sel_start = 2, sel_stride = 5, sel_count = 3, sel_block = 2\<rparr>"
    by (simp add: selected_iff disjoint_blocks_def)
  then show ?thesis using out_coord_counts[of "\<lparr>sel_start = 2, sel_stride = 5, sel_count = 3, sel_block = 2\<rparr>" 8] by simp
qed

section \<open>Scattering into the output\<close>

definition sel_end :: "dim_selection \<Rightarrow> nat" where
  "sel_end s = sel_start s + (sel_count s - 1) * sel_stride s + sel_block s"

definition sel_ok :: "dim_selection \<Rightarrow> bool" where
  "sel_ok s \<longleftrightarrow> disjoint_blocks s \<and> 0 < sel_count s \<and> sel_end s < u64_lim"

abbreviation extents :: "hyperslab \<Rightarrow> nat list" where
  "extents h \<equiv> map (\<lambda>s. sel_count s * sel_block s) h"

lemma sel_okD: "sel_ok s \<Longrightarrow> disjoint_blocks s" "sel_ok s \<Longrightarrow> 0 < sel_count s"
  by (simp_all add: sel_ok_def)

lemma validate_ok: "list_all sel_ok h \<Longrightarrow> validate h = Inr ()"
  by (induction h) (auto simp: validate_def sel_ok_def disjoint_blocks_def)

lemma selected_bounds: "c \<in> selected s \<Longrightarrow> sel_start s \<le> c \<and> c < sel_end s"
proof -
  assume "c \<in> selected s"
  then obtain k j where kj: "c = sel_start s + k * sel_stride s + j" "k < sel_count s" "j < sel_block s"
    by (auto simp: selected_def)
  have "k * sel_stride s \<le> (sel_count s - 1) * sel_stride s" using kj(2) by (intro mult_le_mono1) simp
  with kj show ?thesis unfolding sel_end_def by linarith
qed

lemma bounding_ranges_ok:
  assumes "list_all sel_ok h"
  shows "bounding_ranges h = Inr (map (\<lambda>s. (sel_start s, sel_end s)) h)"
  unfolding bounding_ranges_def
proof (rule map_res_total)
  fix s assume "s \<in> set h"
  then have ok: "0 < sel_count s" "0 < sel_block s" "sel_end s < u64_lim"
    using assms by (auto simp: list_all_iff sel_ok_def disjoint_blocks_def)
  have "last_element s = Inr (Some (sel_end s - 1))"
    using ok by (simp add: last_element_def sel_end_def)
  moreover have "0 < sel_end s" using ok by (simp add: sel_end_def)
  ultimately show "(if sel_count s = 0 \<or> sel_block s = 0 then Inr (0, 0)
     else and_then (last_element s) (\<lambda>l.
       and_then (case l of Some l \<Rightarrow> uadd l 1 | None \<Rightarrow> Inr (sel_start s)) (\<lambda>e. Inr (sel_start s, e)))) = Inr (sel_start s, sel_end s)"
    using ok by simp
qed

lemma map_upt_nth: "length xs = n \<Longrightarrow> map (\<lambda>d. f (xs ! d)) [0..<n] = map f xs"
  by (auto intro: nth_equalityI)

lemma overlap_eq:
  assumes "length origin = length ranges" and "length cdims = length ranges"
    and "\<forall>d < length ranges. origin ! d + cdims ! d < u64_lim"
  shows "overlap ranges origin cdims = Inr (map2 max (map fst ranges) origin, map2 min (map snd ranges) (map2 (+) origin cdims))"
proof -
  have "map_res (\<lambda>d. and_then (index ranges d) (\<lambda>r. and_then (index origin d) (\<lambda>o_d. Inr (max (fst r) o_d)))) [0..<length ranges]
      = Inr (map (\<lambda>d. max (fst (ranges ! d)) (origin ! d)) [0..<length ranges])"
    by (rule map_res_total) (simp add: assms)
  moreover have "map_res (\<lambda>d. and_then (index ranges d) (\<lambda>r. and_then (index origin d) (\<lambda>o_d.
                 and_then (index cdims d) (\<lambda>c_d. and_then (uadd o_d c_d) (\<lambda>e. Inr (min (snd r) e)))))) [0..<length ranges]
      = Inr (map (\<lambda>d. min (snd (ranges ! d)) (origin ! d + cdims ! d)) [0..<length ranges])"
    by (rule map_res_total) (simp add: assms)
  moreover have "map (\<lambda>d. max (fst (ranges ! d)) (origin ! d)) [0..<length ranges] = map2 max (map fst ranges) origin"
    "map (\<lambda>d. min (snd (ranges ! d)) (origin ! d + cdims ! d)) [0..<length ranges] = map2 min (map snd ranges) (map2 (+) origin cdims)"
    using assms by (auto intro!: nth_equalityI)
  ultimately show ?thesis by (simp add: overlap_def)
qed

lemma sub_all_eq: "list_all2 (\<lambda>y x. y \<le> x) ys xs \<Longrightarrow> sub_all xs ys = Inr (map2 (-) xs ys)"
  unfolding sub_all_def by (rule map_res_total) (auto simp: list_all2_conv_all_nth set_zip)

lemma add_all_eq: "list_all2 (\<lambda>x y. x + y < u64_lim) xs ys \<Longrightarrow> add_all xs ys = Inr (map2 (+) xs ys)"
  unfolding add_all_def by (rule map_res_total) (auto simp: list_all2_conv_all_nth set_zip)

lemma prod_list_mono: "list_all2 (\<le>) xs ys \<Longrightarrow> prod_list xs \<le> prod_list (ys :: nat list)"
  by (induction rule: list_all2_induct) (auto intro: mult_le_mono)

text \<open>Where the element at global coordinates goes, if every coordinate is selected.\<close>

definition hyper_target :: "hyperslab \<Rightarrow> nat list \<Rightarrow> nat option" where
  "hyper_target h g =
     (if list_all2 (\<lambda>c s. c \<in> selected s) g h then Some (flat_of (extents h) (map2 out_pos h g)) else None)"

lemma out_pos_inside:
  assumes "list_all sel_ok h" and "list_all2 (\<lambda>c s. c \<in> selected s) g h"
  shows "inside (map2 out_pos h g) (extents h)"
  using assms by (auto simp: list_all2_conv_all_nth list_all_length sel_ok_def intro!: out_pos_less)

lemma copy_selected_eq:
  assumes len: "length origin = length h" "length cdims = length h" "length g = length h"
    and ok: "list_all sel_ok h" and box: "\<forall>d < length h. origin ! d \<le> g ! d \<and> g ! d < origin ! d + cdims ! d"
    and vol: "prod_list cdims < u64_lim" "prod_list (extents h) < u64_lim" "\<forall>s\<in>set h. sel_count s * sel_block s < u64_lim"
    and buf: "length out = prod_list (extents h) * es" "length out \<le> isize_max"
    and chunk: "length data = prod_list cdims * es" "length data \<le> isize_max"
  shows "copy_selected out data origin h (strides_of cdims) (strides_of (extents h)) es g =
    (case hyper_target h g of None \<Rightarrow> Inr out
     | Some q \<Rightarrow> Inr (splice out (q * es) (elem es data (flat_of cdims (map2 (-) g origin)))))"
proof -
  have "any_res (\<lambda>d. and_then (index h d) (\<lambda>sel. and_then (index g d) (\<lambda>g. and_then (contains sel g) (\<lambda>b. Inr (\<not> b))))) [0..<length h]
      = Inr (\<exists>d\<in>set [0..<length h]. g ! d \<notin> selected (h ! d))"
    by (rule any_res_total) (use len ok in \<open>simp add: contains_selected list_all_length sel_ok_def\<close>)
  moreover have "(\<exists>d\<in>set [0..<length h]. g ! d \<notin> selected (h ! d)) \<longleftrightarrow> \<not> list_all2 (\<lambda>c s. c \<in> selected s) g h"
    using len by (auto simp: list_all2_conv_all_nth)
  ultimately have any: "any_res (\<lambda>d. and_then (index h d) (\<lambda>sel. and_then (index g d) (\<lambda>g. and_then (contains sel g) (\<lambda>b. Inr (\<not> b))))) [0..<length h]
      = Inr (\<not> list_all2 (\<lambda>c s. c \<in> selected s) g h)" by simp
  show ?thesis
  proof (cases "list_all2 (\<lambda>c s. c \<in> selected s) g h")
    case False
    then show ?thesis by (simp add: copy_selected_def any hyper_target_def)
  next
    case True
    let ?src = "flat_of cdims (map2 (-) g origin)" and ?dst = "flat_of (extents h) (map2 out_pos h g)"
    have sub: "sub_all g origin = Inr (map2 (-) g origin)"
      using len box by (intro sub_all_eq) (simp add: list_all2_conv_all_nth)
    have ins: "inside (map2 (-) g origin) cdims" using len box by (auto simp: list_all2_conv_all_nth)
    have inout: "inside (map2 out_pos h g) (extents h)" by (rule out_pos_inside[OF ok True])
    have "map_res (\<lambda>d. and_then (index h d) (\<lambda>sel. and_then (index g d) (\<lambda>g. out_coord sel g))) [0..<length h]
        = Inr (map (\<lambda>d. out_pos (h ! d) (g ! d)) [0..<length h])"
      by (rule map_res_total)
        (use len True ok vol(3) in \<open>simp add: list_all2_conv_all_nth list_all_length sel_ok_def out_coord_eq\<close>)
    moreover have "map (\<lambda>d. out_pos (h ! d) (g ! d)) [0..<length h] = map2 out_pos h g"
      using len by (auto intro: nth_equalityI)
    ultimately have outs: "map_res (\<lambda>d. and_then (index h d) (\<lambda>sel. and_then (index g d) (\<lambda>g. out_coord sel g))) [0..<length h]
        = Inr (map2 out_pos h g)" by simp
    have copy: "copy_element out data ?src ?dst es = Inr (splice out (?dst * es) (elem es data ?src))"
      using elem_in_buffer[OF flat_of_less[OF ins]] elem_in_buffer[OF flat_of_less[OF inout]] buf chunk
      by (intro copy_element_eq) simp_all
    show ?thesis
      using True copy dot_strides_eq[OF ins vol(1)] dot_strides_eq[OF inout vol(2)]
      by (simp add: copy_selected_def any sub outs hyper_target_def)
  qed
qed

definition in_chunk :: "nat list \<Rightarrow> nat list \<Rightarrow> nat list \<Rightarrow> bool" where
  "in_chunk origin cdims g \<longleftrightarrow> list_all2 (\<le>) origin g \<and> list_all2 (<) g (map2 (+) origin cdims)"

lemma in_chunk_iff:
  assumes "length origin = n" and "length cdims = n"
  shows "in_chunk origin cdims g \<longleftrightarrow> length g = n \<and> (\<forall>d < n. origin ! d \<le> g ! d \<and> g ! d < origin ! d + cdims ! d)"
    (is "_ \<longleftrightarrow> ?r")
proof
  assume "in_chunk origin cdims g"
  then have l: "list_all2 (\<le>) origin g" "list_all2 (<) g (map2 (+) origin cdims)" by (simp_all add: in_chunk_def)
  have "length g = n" using list_all2_lengthD[OF l(1)] assms(1) by simp
  then show ?r using list_all2_nthD[OF l(1)] list_all2_nthD[OF l(2)] assms by simp
next
  assume ?r
  then show "in_chunk origin cdims g"
    unfolding in_chunk_def using assms by (intro conjI list_all2_all_nthI) simp_all
qed

text \<open>The hypotheses a scatter runs under: shapes of one rank, buffers of the shapes' volumes.\<close>

definition scatter_shapes :: "hyperslab \<Rightarrow> nat list \<Rightarrow> nat list \<Rightarrow> nat \<Rightarrow> bytes \<Rightarrow> bytes \<Rightarrow> bool" where
  "scatter_shapes h origin cdims es out data \<longleftrightarrow>
     length origin = length h \<and> length cdims = length h \<and> 0 < es \<and> 0 \<notin> set cdims
     \<and> list_all sel_ok h \<and> (\<forall>d < length h. origin ! d + cdims ! d < u64_lim)
     \<and> length out = prod_list (extents h) * es \<and> length out \<le> isize_max
     \<and> length data = prod_list cdims * es \<and> length data \<le> isize_max"

lemma sel_extent_pos: "list_all sel_ok h \<Longrightarrow> 0 \<notin> set (extents h)"
  by (auto simp: list_all_iff sel_ok_def disjoint_blocks_def)

lemma scatter_volumes:
  assumes "scatter_shapes h origin cdims es out data"
  shows "prod_list cdims < u64_lim" and "prod_list (extents h) < u64_lim" and "\<forall>s\<in>set h. sel_count s * sel_block s < u64_lim"
proof -
  note a = assms[unfolded scatter_shapes_def]
  show "prod_list cdims < u64_lim" using volume_less[of cdims es] a by simp
  show e: "prod_list (extents h) < u64_lim" using volume_less[of "extents h" es] a by simp
  show "\<forall>s\<in>set h. sel_count s * sel_block s < u64_lim"
  proof
    fix s assume "s \<in> set h"
    then have "sel_count s * sel_block s dvd prod_list (extents h)" by (intro prod_list_dvd) auto
    then have "sel_count s * sel_block s \<le> prod_list (extents h)"
      using prod_list_pos[OF sel_extent_pos] a by (intro dvd_imp_le) simp_all
    with e show "sel_count s * sel_block s < u64_lim" by linarith
  qed
qed

text \<open>The overlap of the chunk with the bounding box, and the loop over it.\<close>

abbreviation ovl_lo :: "hyperslab \<Rightarrow> nat list \<Rightarrow> nat list" where
  "ovl_lo h origin \<equiv> map2 max (map sel_start h) origin"

abbreviation ovl_hi :: "hyperslab \<Rightarrow> nat list \<Rightarrow> nat list \<Rightarrow> nat list" where
  "ovl_hi h origin cdims \<equiv> map2 min (map sel_end h) (map2 (+) origin cdims)"

definition ovl_shape :: "hyperslab \<Rightarrow> nat list \<Rightarrow> nat list \<Rightarrow> nat list" where
  "ovl_shape h origin cdims = map2 (-) (ovl_hi h origin cdims) (ovl_lo h origin)"

definition ovl_global :: "hyperslab \<Rightarrow> nat list \<Rightarrow> nat list \<Rightarrow> nat \<Rightarrow> nat list" where
  "ovl_global h origin cdims k = map2 (+) (ovl_lo h origin) (coords_of (ovl_shape h origin cdims) k)"

lemma ovl_global_in_chunk:
  assumes "length origin = length h" "length cdims = length h" and "k < prod_list (ovl_shape h origin cdims)"
  shows "in_chunk origin cdims (ovl_global h origin cdims k)"
    and "d < length h \<Longrightarrow> ovl_global h origin cdims k ! d < min (sel_end (h ! d)) (origin ! d + cdims ! d)"
proof -
  have len: "length (ovl_shape h origin cdims) = length h" using assms by (simp add: ovl_shape_def)
  have c: "coords_of (ovl_shape h origin cdims) k ! d < ovl_shape h origin cdims ! d" if "d < length h" for d
    using list_all2_nthD2[OF coords_of_inside[OF assms(3)], of d] that len by simp
  have g: "ovl_global h origin cdims k ! d = max (sel_start (h ! d)) (origin ! d) + coords_of (ovl_shape h origin cdims) k ! d"
    if "d < length h" for d using that assms(1,2) len by (simp add: ovl_global_def)
  have sh: "ovl_shape h origin cdims ! d = min (sel_end (h ! d)) (origin ! d + cdims ! d) - max (sel_start (h ! d)) (origin ! d)"
    if "d < length h" for d using that assms(1,2) by (simp add: ovl_shape_def)
  show up: "ovl_global h origin cdims k ! d < min (sel_end (h ! d)) (origin ! d + cdims ! d)" if "d < length h" for d
    using c[OF that] g[OF that] sh[OF that] by linarith
  have "length (ovl_global h origin cdims k) = length h" using assms(1,2) len by (simp add: ovl_global_def)
  then show "in_chunk origin cdims (ovl_global h origin cdims k)"
    using assms(1,2) up g by (auto simp: in_chunk_def list_all2_conv_all_nth)
qed

lemma in_chunk_ovl:
  assumes "length origin = length h" "length cdims = length h" and "in_chunk origin cdims g"
    and sel: "list_all2 (\<lambda>c s. c \<in> selected s) g h"
  shows "inside (map2 (-) g (ovl_lo h origin)) (ovl_shape h origin cdims)"
    and "ovl_global h origin cdims (flat_of (ovl_shape h origin cdims) (map2 (-) g (ovl_lo h origin))) = g"
proof -
  have len: "length g = length h" using sel by (simp add: list_all2_lengthD)
  have b: "max (sel_start (h ! d)) (origin ! d) \<le> g ! d \<and> g ! d < min (sel_end (h ! d)) (origin ! d + cdims ! d)"
    if "d < length h" for d
    using that assms(1-3) len selected_bounds[of "g ! d" "h ! d"] list_all2_nthD[OF sel, of d]
    by (auto simp: in_chunk_def list_all2_conv_all_nth)
  show ins: "inside (map2 (-) g (ovl_lo h origin)) (ovl_shape h origin cdims)"
    using b len assms(1,2) by (auto simp: list_all2_conv_all_nth ovl_shape_def intro: diff_less_mono)
  show "ovl_global h origin cdims (flat_of (ovl_shape h origin cdims) (map2 (-) g (ovl_lo h origin))) = g"
    unfolding ovl_global_def coords_flat[OF ins]
    by (rule nth_equalityI) (use b len assms(1,2) in \<open>auto\<close>)
qed

lemma ovl_facts:
  assumes sh: "scatter_shapes h origin cdims es out data"
    and some: "\<forall>d < length h. ovl_lo h origin ! d < ovl_hi h origin cdims ! d"
  shows "sub_all (ovl_hi h origin cdims) (ovl_lo h origin) = Inr (ovl_shape h origin cdims)"
    and "0 \<notin> set (ovl_shape h origin cdims)" and "prod_list (ovl_shape h origin cdims) < u64_lim"
    and "length (ovl_shape h origin cdims) = length h"
    and "k < prod_list (ovl_shape h origin cdims) \<Longrightarrow>
      add_all (ovl_lo h origin) (coords_of (ovl_shape h origin cdims) k) = Inr (ovl_global h origin cdims k)"
proof -
  note a = sh[unfolded scatter_shapes_def] and vol = scatter_volumes[OF sh]
  let ?lo = "ovl_lo h origin" and ?hi = "ovl_hi h origin cdims" and ?sh = "ovl_shape h origin cdims"
  have len: "length ?lo = length h" "length ?hi = length h" "length ?sh = length h" using a by (simp_all add: ovl_shape_def)
  show "sub_all ?hi ?lo = Inr ?sh"
    unfolding ovl_shape_def using some len by (intro sub_all_eq) (auto simp: list_all2_conv_all_nth less_imp_le)
  have shn: "?sh ! d = ?hi ! d - ?lo ! d" if "d < length h" for d using that len by (simp add: ovl_shape_def)
  show "0 \<notin> set ?sh"
    using some shn len by (auto simp: in_set_conv_nth)
  have "list_all2 (\<le>) ?sh cdims"
    using a len by (auto simp: list_all2_conv_all_nth ovl_shape_def)
  from prod_list_mono[OF this] vol(1) show "prod_list ?sh < u64_lim" by linarith
  show "length ?sh = length h" by (rule len(3))
  show "add_all ?lo (coords_of ?sh k) = Inr (ovl_global h origin cdims k)" if k: "k < prod_list ?sh" for k
    unfolding ovl_global_def
  proof (rule add_all_eq)
    have "?lo ! d + coords_of ?sh k ! d < u64_lim" if d: "d < length h" for d
      using list_all2_nthD2[OF coords_of_inside[OF k], of d] shn[OF d] some[rule_format, OF d] a d len by auto
    then show "list_all2 (\<lambda>x y. x + y < u64_lim) ?lo (coords_of ?sh k)"
      using len by (simp add: list_all2_conv_all_nth)
  qed
qed

lemma scatter_overlap:
  assumes "scatter_shapes h origin cdims es out data"
  shows "overlap (map (\<lambda>s. (sel_start s, sel_end s)) h) origin cdims = Inr (ovl_lo h origin, ovl_hi h origin cdims)"
  using assms by (subst overlap_eq) (simp_all add: comp_def scatter_shapes_def)

lemma scatter_hyperslab_loop:
  assumes sh: "scatter_shapes h origin cdims es out data"
    and some: "\<forall>d < length h. ovl_lo h origin ! d < ovl_hi h origin cdims ! d"
  shows "scatter_chunk_hyperslab out data origin cdims h (extents h) es =
    fold_res (\<lambda>k b. copy_selected b data origin h (strides_of cdims) (strides_of (extents h)) es (ovl_global h origin cdims k))
      [0..<prod_list (ovl_shape h origin cdims)] out"
proof -
  note a = sh[unfolded scatter_shapes_def] and vol = scatter_volumes[OF sh] and f = ovl_facts[OF sh some]
  let ?lo = "ovl_lo h origin" and ?hi = "ovl_hi h origin cdims" and ?sh = "ovl_shape h origin cdims"
  have no: "\<not> (\<exists>d\<in>set [0..<length h]. ?lo ! d \<ge> ?hi ! d)" using some by (auto simp: not_le)
  have "scatter_chunk_hyperslab out data origin cdims h (extents h) es =
      fold_res (\<lambda>k b. and_then (flat_to_coords k (strides_of ?sh) (length h)) (\<lambda>ovl_coords.
        and_then (add_all ?lo ovl_coords) (\<lambda>global.
          copy_selected b data origin h (strides_of cdims) (strides_of (extents h)) es global))) [0..<prod_list ?sh] out"
    unfolding scatter_chunk_hyperslab_def Let_def
    using a no by (simp add: validate_ok bounding_ranges_ok scatter_overlap[OF sh] f(1) product_u64_eq[OF f(2,3)] row_major_strides_eq[OF f(2,3)]
        row_major_strides_eq[OF _ vol(1)] row_major_strides_eq[OF sel_extent_pos vol(2)])
  also have "\<dots> = fold_res (\<lambda>k b. copy_selected b data origin h (strides_of cdims) (strides_of (extents h)) es (ovl_global h origin cdims k))
      [0..<prod_list ?sh] out"
    by (rule fold_res_cong) (use flat_to_coords_eq[OF f(2)] f(4,5) in simp_all)
  finally show ?thesis .
qed

lemma hyper_target_inj:
  assumes "list_all sel_ok h" and "hyper_target h g = Some q" and "hyper_target h g' = Some q"
  shows "g = g'"
proof -
  have s: "list_all2 (\<lambda>c s. c \<in> selected s) g h" "list_all2 (\<lambda>c s. c \<in> selected s) g' h"
    and f: "flat_of (extents h) (map2 out_pos h g) = flat_of (extents h) (map2 out_pos h g')"
    using assms(2,3) by (auto simp: hyper_target_def split: if_splits)
  have e: "map2 out_pos h g = map2 out_pos h g'"
    using flat_of_inj[OF out_pos_inside[OF assms(1) s(1)] out_pos_inside[OF assms(1) s(2)] f] .
  show ?thesis
  proof (rule nth_equalityI)
    show len: "length g = length g'" using s[THEN list_all2_lengthD] by simp
    fix d assume d: "d < length g"
    then have dh: "d < length h" "disjoint_blocks (h ! d)"
      using s(1) assms(1) by (auto simp: list_all_length sel_ok_def dest: list_all2_lengthD)
    have "out_pos (h ! d) (g ! d) = out_pos (h ! d) (g' ! d)"
      using arg_cong[OF e, of "\<lambda>xs. xs ! d"] d dh len by simp
    then show "g ! d = g' ! d"
      using nth_out_pos[OF dh(2)] list_all2_nthD2[OF s(1), of d] list_all2_nthD2[OF s(2), of d] dh(1) by metis
  qed
qed

lemma scatter_hyperslab_map:
  assumes sh: "scatter_shapes h origin cdims es out data"
  shows "\<exists>out'. scatter_chunk_hyperslab out data origin cdims h (extents h) es = Inr out' \<and> length out' = length out
    \<and> (\<forall>g q. in_chunk origin cdims g \<longrightarrow> hyper_target h g = Some q \<longrightarrow>
          elem es out' q = elem es data (flat_of cdims (map2 (-) g origin)))
    \<and> (\<forall>q. (\<forall>g. in_chunk origin cdims g \<longrightarrow> hyper_target h g \<noteq> Some q) \<longrightarrow> elem es out' q = elem es out q)"
proof -
  note a = sh[unfolded scatter_shapes_def] and vol = scatter_volumes[OF sh]
  have lens: "length origin = length h" "length cdims = length h" and ok: "list_all sel_ok h" using a by simp_all
  let ?g = "ovl_global h origin cdims" and ?sh = "ovl_shape h origin cdims"
  have reach: "\<exists>k < prod_list ?sh. ?g k = g" if "in_chunk origin cdims g" "hyper_target h g = Some q" for g q
    using in_chunk_ovl[OF lens that(1)] flat_of_less that(2) by (auto simp: hyper_target_def split: if_splits)
  show ?thesis
  proof (cases "\<forall>d < length h. ovl_lo h origin ! d < ovl_hi h origin cdims ! d")
    case False
    then obtain d where d: "d < length h" "ovl_hi h origin cdims ! d \<le> ovl_lo h origin ! d" by (auto simp: not_less)
    have none: "hyper_target h g \<noteq> Some q" if g: "in_chunk origin cdims g" for g q
    proof
      assume "hyper_target h g = Some q"
      then obtain k where "k < prod_list ?sh" using reach[OF g] by blast
      then have "coords_of ?sh k ! d < ?sh ! d" using list_all2_nthD2[OF coords_of_inside, of k ?sh d] d lens by (simp add: ovl_shape_def)
      then show False using d lens by (simp add: ovl_shape_def)
    qed
    have "scatter_chunk_hyperslab out data origin cdims h (extents h) es = Inr out"
      unfolding scatter_chunk_hyperslab_def Let_def
      using a d by (auto simp: validate_ok bounding_ranges_ok scatter_overlap[OF sh])
    with none show ?thesis by auto
  next
    case True
    let ?f = "\<lambda>k b. copy_selected b data origin h (strides_of cdims) (strides_of (extents h)) es (?g k)"
    let ?blk = "\<lambda>k. elem es data (flat_of cdims (map2 (-) (?g k) origin))"
    have "\<exists>out'. fold_res ?f [0..<prod_list ?sh] out = Inr out' \<and> length out' = length out
      \<and> (\<forall>x\<in>set [0..<prod_list ?sh]. \<forall>q. hyper_target h (?g x) = Some q \<longrightarrow> elem es out' q = ?blk x)
      \<and> (\<forall>q. (\<forall>x\<in>set [0..<prod_list ?sh]. hyper_target h (?g x) \<noteq> Some q) \<longrightarrow> elem es out' q = elem es out q)"
    proof (rule copy_loop)
      fix k and b :: bytes assume k: "k \<in> set [0..<prod_list ?sh]" and b: "length b = length out"
      have ks: "k < prod_list ?sh" using k by simp
      have box: "\<forall>d < length h. origin ! d \<le> ?g k ! d \<and> ?g k ! d < origin ! d + cdims ! d"
        using ovl_global_in_chunk(1)[OF lens ks] in_chunk_iff[OF lens] by blast
      have lg: "length (?g k) = length h" using lens by (simp add: ovl_global_def ovl_shape_def)
      show "?f k b = (case hyper_target h (?g k) of None \<Rightarrow> Inr b | Some q \<Rightarrow> Inr (splice b (q * es) (?blk k)))"
        using a b by (intro copy_selected_eq[OF lens lg ok box vol]) simp_all
    next
      fix k q assume k: "k \<in> set [0..<prod_list ?sh]" and q: "hyper_target h (?g k) = Some q"
      have ks: "k < prod_list ?sh" using k by simp
      have "inside (map2 (-) (?g k) origin) cdims"
        using ovl_global_in_chunk(1)[OF lens ks] lens
        unfolding in_chunk_iff[OF lens] list_all2_conv_all_nth by auto
      note src = elem_in_buffer[OF flat_of_less[OF this], of es]
      have "q < prod_list (extents h)"
        using q out_pos_inside[OF ok] flat_of_less by (auto simp: hyper_target_def split: if_splits)
      from elem_in_buffer[OF this, of es] show "length (?blk k) = es \<and> q * es + es \<le> length out"
        using src a by (simp add: length_elem)
    next
      fix k l q assume k: "k \<in> set [0..<prod_list ?sh]" and l: "l \<in> set [0..<prod_list ?sh]"
        and q: "hyper_target h (?g k) = Some q" "hyper_target h (?g l) = Some q"
      have "map2 (+) (ovl_lo h origin) (coords_of ?sh k) = map2 (+) (ovl_lo h origin) (coords_of ?sh l)"
        using hyper_target_inj[OF ok q] by (simp add: ovl_global_def)
      then have "coords_of ?sh k = coords_of ?sh l"
        by (rule map2_add_inj[rotated 2]) (simp_all add: ovl_shape_def lens)
      then have "flat_of ?sh (coords_of ?sh k) = flat_of ?sh (coords_of ?sh l)" by (rule arg_cong)
      then show "k = l" using k l by (simp only: set_upt atLeastLessThan_iff flat_coords)
    qed (rule refl)
    then obtain out' where o: "fold_res ?f [0..<prod_list ?sh] out = Inr out'" "length out' = length out"
        "\<And>k q. k < prod_list ?sh \<Longrightarrow> hyper_target h (?g k) = Some q \<Longrightarrow> elem es out' q = ?blk k"
        "\<And>q. \<forall>k < prod_list ?sh. hyper_target h (?g k) \<noteq> Some q \<Longrightarrow> elem es out' q = elem es out q"
      by auto
    have "elem es out' q = elem es data (flat_of cdims (map2 (-) g origin))"
      if "in_chunk origin cdims g" "hyper_target h g = Some q" for g q
      using reach[OF that] o(3) that(2) by blast
    moreover have "elem es out' q = elem es out q"
      if "\<forall>g. in_chunk origin cdims g \<longrightarrow> hyper_target h g \<noteq> Some q" for q
      using that ovl_global_in_chunk(1)[OF lens] by (intro o(4)) blast
    ultimately show ?thesis using o(1,2) by (simp add: scatter_hyperslab_loop[OF sh True])
  qed
qed

text \<open>
  Scattering a chunk into the buffer of a hyperslab. Take any coordinates \<open>js\<close> of the output
  and the selected element \<open>g\<close> they stand for, in every dimension the \<open>js\<close>-th selected
  coordinate. If \<open>g\<close> lies in the chunk, the output holds at \<open>js\<close> the element of the chunk at
  \<open>g - origin\<close>; otherwise it keeps what it held. The scatter succeeds on all inputs of matching
  shapes, with blocks that do not overlap and coordinates below the machine bound.
\<close>

theorem scatter_chunk_hyperslab_correct:
  assumes "scatter_shapes h origin cdims es out data"
  shows "\<exists>out'. scatter_chunk_hyperslab out data origin cdims h (extents h) es = Inr out' \<and> length out' = length out
    \<and> (\<forall>js. inside js (extents h) \<longrightarrow>
          (let g = map2 nth_selected h js in
             elem es out' (flat_of (extents h) js) =
               (if in_chunk origin cdims g then elem es data (flat_of cdims (map2 (-) g origin))
                else elem es out (flat_of (extents h) js))))"
proof -
  have ok: "list_all sel_ok h" using assms by (simp add: scatter_shapes_def)
  obtain out' where o: "scatter_chunk_hyperslab out data origin cdims h (extents h) es = Inr out'" "length out' = length out"
      "\<forall>g q. in_chunk origin cdims g \<longrightarrow> hyper_target h g = Some q \<longrightarrow>
          elem es out' q = elem es data (flat_of cdims (map2 (-) g origin))"
      "\<forall>q. (\<forall>g. in_chunk origin cdims g \<longrightarrow> hyper_target h g \<noteq> Some q) \<longrightarrow> elem es out' q = elem es out q"
    using scatter_hyperslab_map[OF assms] by blast
  have "elem es out' (flat_of (extents h) js) =
      (if in_chunk origin cdims (map2 nth_selected h js) then elem es data (flat_of cdims (map2 (-) (map2 nth_selected h js) origin))
       else elem es out (flat_of (extents h) js))" if ins: "inside js (extents h)" for js
  proof -
    let ?g = "map2 nth_selected h js"
    have sel: "list_all2 (\<lambda>c s. c \<in> selected s) ?g h" and bk: "map2 out_pos h ?g = js"
      using ins ok by (auto simp: list_all2_conv_all_nth list_all_length sel_ok_def nth_selected_in out_pos_nth intro!: nth_equalityI)
    then have t: "hyper_target h ?g = Some (flat_of (extents h) js)" by (simp add: hyper_target_def)
    show ?thesis
    proof (cases "in_chunk origin cdims ?g")
      case False
      then have "hyper_target h g' \<noteq> Some (flat_of (extents h) js)" if "in_chunk origin cdims g'" for g'
        using hyper_target_inj[OF ok t] that by blast
      with False o(4) show ?thesis by simp
    qed (use t o(3) in simp)
  qed
  then show ?thesis using o(1,2) by (simp add: Let_def)
qed

theorem scatter_chunk_hyperslab_correct_witness:
  "\<exists>out'. scatter_chunk_hyperslab [0, 0] [7, 8, 9] [3] [3] [\<lparr>sel_start = 2, sel_stride = 2, sel_count = 2, sel_block = 1\<rparr>] [2] 1
      = Inr out' \<and> length out' = 2 \<and> elem 1 out' 1 = elem 1 [7, 8, 9] 1"
proof -
  let ?h = "[\<lparr>sel_start = 2, sel_stride = 2, sel_count = 2, sel_block = 1\<rparr>]"
  have "scatter_shapes ?h [3] [3] 1 [0, 0] [7, 8, 9]"
    by (simp add: scatter_shapes_def sel_ok_def disjoint_blocks_def sel_end_def)
  from scatter_chunk_hyperslab_correct[OF this]
  obtain out' where "scatter_chunk_hyperslab [0, 0] [7, 8, 9] [3] [3] ?h (extents ?h) 1 = Inr out'" "length out' = length [0 :: byte, 0]"
      and all: "\<forall>js. inside js (extents ?h) \<longrightarrow> (let g = map2 nth_selected ?h js in
         elem 1 out' (flat_of (extents ?h) js) =
           (if in_chunk [3] [3] g then elem 1 [7, 8, 9] (flat_of [3] (map2 (-) g [3])) else elem 1 [0, 0] (flat_of (extents ?h) js)))"
    by blast
  note this(1,2) and all[rule_format, of "[1]"]
  moreover have "map2 nth_selected ?h [1] = [4]" by (simp add: nth_selected_def)
  ultimately show ?thesis by (auto simp: in_chunk_def)
qed

end
