(* ===== verification/Chunked_Read.thy ===== *)
theory Chunked_Read
  imports Chunk_Cache Hyperslab
begin

text \<open>
  Reading chunked datasets: \<^verbatim>\<open>chunked/read.rs\<close> (the whole dataset), \<^verbatim>\<open>chunked/slice.rs\<close>
  (one range per dimension) and \<^verbatim>\<open>chunked_hyperslab.rs\<close> (strided and blocked selections, of
  chunked and of contiguous data). The model follows the sequential build, which is the default;
  the \<^verbatim>\<open>parallel\<close> feature decodes all chunks first and scatters them in the same order, and
  \<open>parallel_read\<close> is its arm of \<^verbatim>\<open>read_chunked\<close>.
\<close>

section \<open>Layouts and shapes\<close>

datatype layout_info =
    Contiguous nat nat
  | Compact bytes
  | Chunked nat byte "nat list" byte "single_chunk_info option"
  | VirtualDataset nat nat

record dataset_shape =
  sh_dims :: "nat list"
  sh_max_dims :: "nat list option"

text \<open>The chunk dimensions of a layout may end in the element size, which is not a dimension.\<close>

definition strip_chunk_dims :: "nat \<Rightarrow> nat list \<Rightarrow> nat list res" where
  "strip_chunk_dims ndims chunk_dims =
     (if length chunk_dims = ndims + 1 then Inr (take ndims chunk_dims)
      else if length chunk_dims = ndims then Inr chunk_dims
      else Inl Format)"

section \<open>Fill values and filters\<close>

text \<open>\<^verbatim>\<open>fv.iter().cycle().take(n)\<close>\<close>

definition fill_cycle :: "bytes \<Rightarrow> nat \<Rightarrow> bytes" where
  "fill_cycle fv n = map (\<lambda>i. fv ! (i mod length fv)) [0..<n]"

definition fill_buffer :: "bytes option \<Rightarrow> nat \<Rightarrow> nat \<Rightarrow> bytes res" where
  "fill_buffer fill_value elem_size n_elems =
     and_then (umul n_elems elem_size) (\<lambda>n.
       case fill_value of
         Some fv \<Rightarrow>
           if length fv = elem_size \<and> 0 < elem_size then (if n > isize_max then Inl Panic else Inr (fill_cycle fv n))
           else vec_zeros n
       | None \<Rightarrow> vec_zeros n)"

text \<open>The closure every reader passes as \<open>apply_filters\<close>.\<close>

definition undo_filters :: "codecs \<Rightarrow> filter_pipeline \<Rightarrow> nat list \<Rightarrow> nat \<Rightarrow> bytes \<Rightarrow> nat \<Rightarrow> bytes res" where
  "undo_filters c pipeline chunk_dims elem_size raw filter_mask =
     (if pipeline_filters pipeline = [] then Inr raw
      else
        and_then (product_u64 chunk_dims) (\<lambda>v.
        and_then (umul v elem_size) (\<lambda>n. apply_pipeline_sized c raw pipeline filter_mask elem_size (Some n))))"

section \<open>The whole dataset\<close>

definition scatter_elements ::
  "bytes \<Rightarrow> nat list \<Rightarrow> bytes \<Rightarrow> nat list \<Rightarrow> nat list \<Rightarrow> nat list \<Rightarrow> nat \<Rightarrow> nat \<Rightarrow> bytes res" where
  "scatter_elements output offsets chunk_data chunk_strides dataset_strides dataset_dims n elem_size =
     (let ndims = length dataset_dims in
      fold_res (\<lambda>flat_chunk_idx output.
        and_then (flat_to_coords flat_chunk_idx chunk_strides ndims) (\<lambda>chunk_coords.
        and_then (dataset_flat_at offsets chunk_coords dataset_dims dataset_strides [0..<ndims] 0) (\<lambda>r.
          case r of
            None \<Rightarrow> Inr output
          | Some dataset_flat \<Rightarrow> copy_element output chunk_data flat_chunk_idx dataset_flat elem_size)))
        [0..<n] output)"

definition assemble_loop ::
  "(bytes \<Rightarrow> nat \<Rightarrow> bytes res) \<Rightarrow> chunk_record list \<Rightarrow> bytes \<Rightarrow> nat list \<Rightarrow> nat list \<Rightarrow> nat \<Rightarrow> bytes \<Rightarrow> bytes res" where
  "assemble_loop apply_filters recs file_data chunk_dims dataset_dims elem_size output =
     and_then (row_major_strides dataset_dims) (\<lambda>dataset_strides.
     and_then (row_major_strides chunk_dims) (\<lambda>chunk_strides.
     and_then (product_u64 chunk_dims) (\<lambda>chunk_volume.
       fold_res (\<lambda>chunk output.
         if length (rec_offsets chunk) < length dataset_dims then Inl Format
         else
           and_then (read_chunk_bytes file_data chunk) (\<lambda>raw.
           and_then (apply_filters raw (rec_filter_mask chunk)) (\<lambda>chunk_data.
             scatter_elements output (rec_offsets chunk) chunk_data chunk_strides dataset_strides dataset_dims
               (min (length chunk_data div elem_size) chunk_volume) elem_size)))
         recs output)))"

definition assemble_chunks ::
  "(bytes \<Rightarrow> nat \<Rightarrow> bytes res) \<Rightarrow> chunk_record list \<Rightarrow> bytes \<Rightarrow> nat list \<Rightarrow> nat list \<Rightarrow> nat \<Rightarrow> bytes res" where
  "assemble_chunks apply_filters recs file_data chunk_dims dataset_dims elem_size =
     (if length chunk_dims \<noteq> length dataset_dims then Inl Format
      else if elem_size = 0 then Inl Format
      else
        and_then (product_u64 dataset_dims) (\<lambda>total_elems.
        and_then (umul total_elems elem_size) (\<lambda>n.
        and_then (vec_zeros n) (\<lambda>output.
          assemble_loop apply_filters recs file_data chunk_dims dataset_dims elem_size output))))"

definition assemble_chunks_with_fill ::
  "(bytes \<Rightarrow> nat \<Rightarrow> bytes res) \<Rightarrow> chunk_record list \<Rightarrow> bytes \<Rightarrow> nat list \<Rightarrow> nat list \<Rightarrow> nat \<Rightarrow> bytes option \<Rightarrow> bytes res" where
  "assemble_chunks_with_fill apply_filters recs file_data chunk_dims dataset_dims elem_size fill_value =
     (if length chunk_dims \<noteq> length dataset_dims then Inl Format
      else if elem_size = 0 then Inl Format
      else
        and_then (product_u64 dataset_dims) (\<lambda>total_elems.
        and_then (fill_buffer fill_value elem_size total_elems) (\<lambda>output.
          assemble_loop apply_filters recs file_data chunk_dims dataset_dims elem_size output)))"

type_synonym records_cache = "chunk_record list cache_map option"

text \<open>The records of a layout's chunks, after the checks that precede the index.\<close>

definition with_chunk_records ::
  "(nat \<Rightarrow> nat \<Rightarrow> nat) \<Rightarrow> bytes \<Rightarrow> layout_info \<Rightarrow> dataset_shape \<Rightarrow> nat \<Rightarrow> records_cache
    \<Rightarrow> (nat list \<Rightarrow> nat list res) \<Rightarrow> (nat list \<Rightarrow> chunk_record list \<Rightarrow> bytes res) \<Rightarrow> bytes res \<times> records_cache" where
  "with_chunk_records root_ceil file_data layout shape elem_size cache check body =
     (case layout of
        Chunked data_address dimensionality chunk_dims index_type single_chunk \<Rightarrow>
          (case and_then (strip_chunk_dims (length (sh_dims shape)) chunk_dims) (\<lambda>real_chunk_dims.
                and_then (check real_chunk_dims) (\<lambda>real_chunk_dims.
                and_then (index_of index_type) (\<lambda>ix. Inr (real_chunk_dims, ix)))) of
             Inl e \<Rightarrow> (Inl e, cache)
           | Inr (real_chunk_dims, ix) \<Rightarrow>
               (case chunk_records root_ceil file_data
                   \<lparr>q_index = ix, q_index_address = data_address, q_real_chunk_dims = real_chunk_dims,
                    q_dataset_dims = sh_dims shape, q_max_dims = sh_max_dims shape, q_elem_size = elem_size,
                    q_single_chunk = single_chunk\<rparr> cache of
                  (r, cache') \<Rightarrow> (and_then r (body real_chunk_dims), cache')))
      | _ \<Rightarrow> (Inl Format, cache))"

definition read_chunked ::
  "codecs \<Rightarrow> (nat \<Rightarrow> nat \<Rightarrow> nat) \<Rightarrow> bytes \<Rightarrow> layout_info \<Rightarrow> filter_pipeline \<Rightarrow> dataset_shape \<Rightarrow> nat \<Rightarrow> bytes option
    \<Rightarrow> records_cache \<Rightarrow> bytes res \<times> records_cache" where
  "read_chunked c root_ceil file_data layout pipeline shape elem_size fill_value cache =
     with_chunk_records root_ceil file_data layout shape elem_size cache Inr (\<lambda>real_chunk_dims recs.
       assemble_chunks_with_fill (undo_filters c pipeline real_chunk_dims elem_size) recs file_data real_chunk_dims
         (sh_dims shape) elem_size fill_value)"

text \<open>
  The arm of the \<^verbatim>\<open>parallel\<close> feature: all recs are decoded, in any order, and collected in
  the order of the records; then they are scattered one after the other.
\<close>

definition parallel_read ::
  "codecs \<Rightarrow> bytes \<Rightarrow> filter_pipeline \<Rightarrow> chunk_record list \<Rightarrow> nat list \<Rightarrow> nat list \<Rightarrow> nat \<Rightarrow> bytes option \<Rightarrow> bytes res" where
  "parallel_read c file_data pipeline recs chunk_dims dataset_dims elem_size fill_value =
     and_then (product_u64 dataset_dims) (\<lambda>total_elems.
     and_then (fill_buffer fill_value elem_size total_elems) (\<lambda>output.
     and_then (map_res (\<lambda>chunk.
         and_then (read_chunk_bytes file_data chunk) (\<lambda>raw.
         and_then (product_u64 chunk_dims) (\<lambda>v.
         and_then (umul v elem_size) (\<lambda>n.
         and_then (apply_filters_to_chunk c raw (rec_filter_mask chunk) (Some pipeline) elem_size (Some n)) (\<lambda>chunk_data.
           Inr (rec_offsets chunk, chunk_data)))))) recs) (\<lambda>decompressed.
       fold_res (\<lambda>(origin, chunk_data) output.
         scatter_chunk output origin chunk_data chunk_dims dataset_dims elem_size) decompressed output)))"

section \<open>The grid cells of a region\<close>

text \<open>
  \<^verbatim>\<open>chunk_map\<close> takes every record with enough offsets; a later record replaces an earlier one
  of the same origin.
\<close>

definition chunk_map :: "nat \<Rightarrow> chunk_record list \<Rightarrow> nat list \<Rightarrow> nat option" where
  "chunk_map ndims recs =
     fold (\<lambda>i m. if ndims \<le> length (rec_offsets (recs ! i)) then m(take ndims (rec_offsets (recs ! i)) \<mapsto> i) else m)
       [0..<length recs] Map.empty"

text \<open>First cell of each dimension and how many; \<open>ends\<close> is the last coordinate of the range.\<close>

definition region_cells :: "(range \<Rightarrow> nat res) \<Rightarrow> range list \<Rightarrow> nat list \<Rightarrow> nat \<Rightarrow> (nat list \<times> nat list) res" where
  "region_cells last_of ranges chunk_dims ndims =
     and_then (map_res (\<lambda>d. and_then (index ranges d) (\<lambda>r. and_then (index chunk_dims d) (\<lambda>c. udiv (fst r) c))) [0..<ndims]) (\<lambda>first_ci.
     and_then (map_res (\<lambda>d. and_then (index ranges d) (\<lambda>r. and_then (last_of r) (\<lambda>l.
         and_then (index chunk_dims d) (\<lambda>c. udiv l c)))) [0..<ndims]) (\<lambda>last_ci.
     and_then (map_res (\<lambda>(l, f). and_then (usub l f) (\<lambda>k. uadd k 1)) (zip last_ci first_ci)) (\<lambda>ci_counts.
       Inr (first_ci, ci_counts))))"

definition cell_origin :: "nat list \<Rightarrow> nat list \<Rightarrow> nat list \<Rightarrow> nat list res" where
  "cell_origin first_ci ci_rel chunk_dims =
     and_then (add_all first_ci ci_rel) (\<lambda>ci. map_res (\<lambda>(i, c). umul i c) (zip ci chunk_dims))"

text \<open>Every cell of the region in row-major order, with its origin.\<close>

definition for_cells ::
  "(range \<Rightarrow> nat res) \<Rightarrow> range list \<Rightarrow> nat list \<Rightarrow> nat \<Rightarrow> (nat list \<Rightarrow> bytes \<Rightarrow> bytes res) \<Rightarrow> bytes \<Rightarrow> bytes res" where
  "for_cells last_of ranges chunk_dims ndims body output =
     and_then (region_cells last_of ranges chunk_dims ndims) (\<lambda>(first_ci, ci_counts).
     and_then (product_u64 ci_counts) (\<lambda>total_cells.
     and_then (row_major_strides ci_counts) (\<lambda>ci_strides.
       fold_res (\<lambda>cell_flat output.
         and_then (flat_to_coords cell_flat ci_strides ndims) (\<lambda>ci_rel.
         and_then (cell_origin first_ci ci_rel chunk_dims) (\<lambda>origin. body origin output)))
         [0..<total_cells] output)))"

text \<open>The bytes of a chunk record, or of an absent chunk.\<close>

definition chunk_or_fill ::
  "(bytes \<Rightarrow> nat \<Rightarrow> bytes res) \<Rightarrow> bytes \<Rightarrow> chunk_record list \<Rightarrow> nat option \<Rightarrow> nat \<Rightarrow> bytes option \<Rightarrow> nat \<Rightarrow> bytes res" where
  "chunk_or_fill apply_filters file_data recs entry chunk_volume fill_value elem_size =
     (case entry of
        Some rec_idx \<Rightarrow>
          and_then (index recs rec_idx) (\<lambda>cr.
          and_then (read_chunk_bytes file_data cr) (\<lambda>raw. apply_filters raw (rec_filter_mask cr)))
      | None \<Rightarrow> fill_buffer fill_value elem_size chunk_volume)"

section \<open>Slices\<close>

definition slice_elements ::
  "bytes \<Rightarrow> bytes \<Rightarrow> nat list \<Rightarrow> range list \<Rightarrow> nat list \<Rightarrow> nat list \<Rightarrow> nat list \<Rightarrow> nat list \<Rightarrow> nat \<Rightarrow> nat \<Rightarrow> bytes res" where
  "slice_elements output chunk_data origin ranges ovl_start ovl_end chunk_strides out_strides ndims elem_size =
     and_then (sub_all ovl_end ovl_start) (\<lambda>ovl_shape.
     and_then (product_u64 ovl_shape) (\<lambda>ovl_elems.
     and_then (row_major_strides ovl_shape) (\<lambda>ovl_strides.
       fold_res (\<lambda>ovl_flat output.
         and_then (flat_to_coords ovl_flat ovl_strides ndims) (\<lambda>ovl_coords.
         and_then (add_all ovl_start ovl_coords) (\<lambda>global.
         and_then (sub_all global origin) (\<lambda>in_chunk.
         and_then (dot_strides in_chunk chunk_strides) (\<lambda>chunk_flat.
         and_then (sub_all global (map fst ranges)) (\<lambda>in_out.
         and_then (dot_strides in_out out_strides) (\<lambda>out_flat.
           copy_element output chunk_data chunk_flat out_flat elem_size)))))))
         [0..<ovl_elems] output)))"

definition assemble_chunks_slice ::
  "(bytes \<Rightarrow> nat \<Rightarrow> bytes res) \<Rightarrow> chunk_record list \<Rightarrow> bytes \<Rightarrow> nat list \<Rightarrow> nat list \<Rightarrow> range list \<Rightarrow> nat \<Rightarrow> bytes option \<Rightarrow> bytes res" where
  "assemble_chunks_slice apply_filters recs file_data chunk_dims dataset_dims ranges elem_size fill_value =
     (let ndims = length dataset_dims in
      and_then (sub_all (map snd ranges) (map fst ranges)) (\<lambda>out_dims.
      and_then (product_u64 out_dims) (\<lambda>out_elems.
      and_then (umul out_elems elem_size) (\<lambda>n.
      and_then (vec_zeros n) (\<lambda>output.
      and_then (row_major_strides out_dims) (\<lambda>out_strides.
      and_then (row_major_strides chunk_dims) (\<lambda>chunk_strides.
      and_then (product_u64 chunk_dims) (\<lambda>chunk_volume.
        if 0 \<in> set chunk_dims then Inl Format
        else
          for_cells (\<lambda>r. usub (snd r) 1) ranges chunk_dims ndims (\<lambda>origin output.
            and_then (overlap ranges origin chunk_dims) (\<lambda>(ovl_start, ovl_end).
              if \<exists>d\<in>set [0..<ndims]. ovl_start ! d \<ge> ovl_end ! d then Inr output
              else
                and_then (chunk_or_fill apply_filters file_data recs (chunk_map ndims recs origin) chunk_volume fill_value elem_size) (\<lambda>chunk_data.
                  slice_elements output chunk_data origin ranges ovl_start ovl_end chunk_strides out_strides ndims elem_size)))
            output))))))))"

definition slice_out_dims :: "range list \<Rightarrow> nat list \<Rightarrow> nat list res" where
  "slice_out_dims ranges dims =
     (if length ranges \<noteq> length dims then Inl Format
      else map_res (\<lambda>(r, dim). if fst r > snd r then Inl Format else if snd r > dim then Inl Format else Inr (snd r - fst r))
        (zip ranges dims))"

definition read_chunked_slice ::
  "codecs \<Rightarrow> (nat \<Rightarrow> nat \<Rightarrow> nat) \<Rightarrow> bytes \<Rightarrow> layout_info \<Rightarrow> filter_pipeline \<Rightarrow> dataset_shape \<Rightarrow> nat \<Rightarrow> bytes option
    \<Rightarrow> range list \<Rightarrow> records_cache \<Rightarrow> bytes res \<times> records_cache" where
  "read_chunked_slice c root_ceil file_data layout pipeline shape elem_size fill_value ranges cache =
     (case layout of
        Chunked _ _ _ _ _ \<Rightarrow>
          (case slice_out_dims ranges (sh_dims shape) of
             Inl e \<Rightarrow> (Inl e, cache)
           | Inr out_dims \<Rightarrow>
               if 0 \<in> set out_dims then (Inr [], cache)
               else
                 with_chunk_records root_ceil file_data layout shape elem_size cache Inr (\<lambda>real_chunk_dims recs.
                   assemble_chunks_slice (undo_filters c pipeline real_chunk_dims elem_size) recs file_data real_chunk_dims
                     (sh_dims shape) ranges elem_size fill_value))
      | _ \<Rightarrow> (Inl Format, cache))"

section \<open>Hyperslabs\<close>

definition hyperslab_chunks ::
  "codecs \<Rightarrow> bytes \<Rightarrow> filter_pipeline \<Rightarrow> chunk_record list \<Rightarrow> nat list \<Rightarrow> nat list \<Rightarrow> range list \<Rightarrow> hyperslab \<Rightarrow> nat list \<Rightarrow> nat
    \<Rightarrow> nat \<Rightarrow> bytes option \<Rightarrow> bytes res" where
  "hyperslab_chunks c file_data pipeline recs chunk_dims dataset_dims bbox selection out_shape out_elems elem_size fill_value =
     (let ndims = length dataset_dims in
      and_then (product_u64 chunk_dims) (\<lambda>chunk_volume.
      and_then (umul out_elems elem_size) (\<lambda>n.
      and_then (vec_zeros n) (\<lambda>output.
        for_cells (\<lambda>r. Inr (snd r - 1)) bbox chunk_dims ndims (\<lambda>origin output.
          and_then (chunk_or_fill (undo_filters c pipeline chunk_dims elem_size) file_data recs (chunk_map ndims recs origin)
              chunk_volume fill_value elem_size) (\<lambda>chunk_data.
            scatter_chunk_hyperslab output chunk_data origin chunk_dims selection out_shape elem_size))
          output))))"

definition bbox_inside :: "range list \<Rightarrow> nat list \<Rightarrow> nat \<Rightarrow> unit res" where
  "bbox_inside bbox dims ndims =
     fold_res (\<lambda>d u. and_then (index bbox d) (\<lambda>r. and_then (index dims d) (\<lambda>n. if snd r > n then Inl Format else Inr u)))
       [0..<ndims] ()"

definition nonzero_dims :: "nat list \<Rightarrow> nat list res" where
  "nonzero_dims dims = (if 0 \<in> set dims then Inl Format else Inr dims)"

definition read_chunked_hyperslab ::
  "codecs \<Rightarrow> (nat \<Rightarrow> nat \<Rightarrow> nat) \<Rightarrow> bytes \<Rightarrow> layout_info \<Rightarrow> filter_pipeline \<Rightarrow> dataset_shape \<Rightarrow> nat \<Rightarrow> bytes option
    \<Rightarrow> hyperslab \<Rightarrow> records_cache \<Rightarrow> bytes res \<times> records_cache" where
  "read_chunked_hyperslab c root_ceil file_data layout pipeline shape elem_size fill_value selection cache =
     (let ndims = length (sh_dims shape) in
      case layout of
        Chunked _ _ _ _ _ \<Rightarrow>
          if length selection \<noteq> ndims then (Inl Format, cache)
          else
            (case validate selection of
               Inl e \<Rightarrow> (Inl e, cache)
             | Inr _ \<Rightarrow>
                 if is_empty selection then (Inr [], cache)
                 else
                   (case and_then (output_shape selection) (\<lambda>out_shape.
                         and_then (product_u64 out_shape) (\<lambda>out_elems.
                         and_then (bounding_ranges selection) (\<lambda>bbox.
                         and_then (bbox_inside bbox (sh_dims shape) ndims) (\<lambda>_. Inr (out_shape, out_elems, bbox))))) of
                      Inl e \<Rightarrow> (Inl e, cache)
                    | Inr (out_shape, out_elems, bbox) \<Rightarrow>
                        with_chunk_records root_ceil file_data layout shape elem_size cache nonzero_dims (\<lambda>real_chunk_dims recs.
                          hyperslab_chunks c file_data pipeline recs real_chunk_dims (sh_dims shape) bbox selection out_shape
                            out_elems elem_size fill_value)))
      | _ \<Rightarrow> (Inl Format, cache))"

text \<open>One dimension of the flat index of the element an output coordinate stands for.\<close>

definition gather_step :: "hyperslab \<Rightarrow> nat list \<Rightarrow> nat list \<Rightarrow> nat \<Rightarrow> nat \<Rightarrow> nat res" where
  "gather_step selection out_coords dataset_strides d src_flat =
     and_then (index selection d) (\<lambda>sel.
     and_then (index out_coords d) (\<lambda>x.
     and_then (udiv x (sel_block sel)) (\<lambda>block_idx.
     and_then (umod x (sel_block sel)) (\<lambda>in_block.
     and_then (umul block_idx (sel_stride sel)) (\<lambda>p.
     and_then (uadd (sel_start sel) p) (\<lambda>q.
     and_then (uadd q in_block) (\<lambda>global_d.
     and_then (index dataset_strides d) (\<lambda>s.
     and_then (umul global_d s) (\<lambda>t. uadd src_flat t)))))))))"

definition gather_hyperslab_contiguous :: "bytes \<Rightarrow> nat list \<Rightarrow> hyperslab \<Rightarrow> nat \<Rightarrow> bytes res" where
  "gather_hyperslab_contiguous full_data dataset_dims selection elem_size =
     (let ndims = length dataset_dims in
      if length selection \<noteq> ndims then Inl Format
      else
        and_then (validate selection) (\<lambda>_.
          if is_empty selection then Inr []
          else
            and_then (output_shape selection) (\<lambda>out_shape.
            and_then (product_u64 out_shape) (\<lambda>out_elems.
            and_then (product_u64 dataset_dims) (\<lambda>total.
            and_then (umul total elem_size) (\<lambda>expected_bytes.
              if length full_data \<noteq> expected_bytes then Inl Format
              else
                and_then (row_major_strides dataset_dims) (\<lambda>dataset_strides.
                and_then (row_major_strides out_shape) (\<lambda>out_strides.
                and_then (umul out_elems elem_size) (\<lambda>n.
                and_then (vec_zeros n) (\<lambda>output.
                  fold_res (\<lambda>out_flat output.
                    and_then (flat_to_coords out_flat out_strides ndims) (\<lambda>out_coords.
                    and_then (fold_res (gather_step selection out_coords dataset_strides) [0..<ndims] 0) (\<lambda>src_flat.
                      copy_element output full_data src_flat out_flat elem_size)))
                    [0..<out_elems] output))))))))))"

end
