(* ===== verification/Chunked_Spec.thy ===== *)
theory Chunked_Spec
  imports Chunked_Read
begin

text \<open>
  What the chunked readers return: the elements of the dataset that the chunk records and the
  fill value describe. The whole-dataset reader returns all of them in row-major order; the slice
  and hyperslab readers, which visit only the grid cells of their region, return what gathering
  the selection from the whole dataset returns.
\<close>

section \<open>The stored dataset\<close>

definition decode_record :: "(bytes \<Rightarrow> nat \<Rightarrow> bytes res) \<Rightarrow> bytes \<Rightarrow> chunk_record \<Rightarrow> bytes res" where
  "decode_record app file_data r =
     and_then (read_chunk_bytes file_data r) (\<lambda>raw. app raw (rec_filter_mask r))"

definition decoded :: "(bytes \<Rightarrow> nat \<Rightarrow> bytes res) \<Rightarrow> bytes \<Rightarrow> chunk_record \<Rightarrow> bytes" where
  "decoded app file_data r = (case decode_record app file_data r of Inr data \<Rightarrow> data | Inl _ \<Rightarrow> [])"

text \<open>The chunk records of a dataset: on the grid, in the machine's range, and each decodable.\<close>

definition record_ok :: "(bytes \<Rightarrow> nat \<Rightarrow> bytes res) \<Rightarrow> bytes \<Rightarrow> nat list \<Rightarrow> nat \<Rightarrow> chunk_record \<Rightarrow> bool" where
  "record_ok app file_data cdims es r \<longleftrightarrow>
     list_all2 (\<lambda>p k. k dvd p \<and> p + k < u64_lim) (rec_offsets r) cdims
     \<and> decode_record app file_data r = Inr (decoded app file_data r)
     \<and> length (decoded app file_data r) = prod_list cdims * es"

definition shape_ok :: "nat list \<Rightarrow> nat list \<Rightarrow> nat \<Rightarrow> bool" where
  "shape_ok dims cdims es \<longleftrightarrow>
     length cdims = length dims \<and> 0 \<notin> set dims \<and> 0 \<notin> set cdims \<and> 0 < es
     \<and> prod_list dims * es \<le> isize_max \<and> prod_list cdims * es \<le> isize_max
     \<and> list_all2 (\<lambda>n k. n + k < u64_lim) dims cdims"

text \<open>The origin of the grid cell of a coordinate, the record of a cell, and the elements.\<close>

abbreviation cell_of :: "nat list \<Rightarrow> nat list \<Rightarrow> nat list" where
  "cell_of cdims g \<equiv> map2 (\<lambda>x k. x div k * k) g cdims"

abbreviation in_cell :: "nat list \<Rightarrow> nat list \<Rightarrow> nat list" where
  "in_cell cdims g \<equiv> map2 (mod) g cdims"

definition chunk_at :: "chunk_record list \<Rightarrow> nat list \<Rightarrow> chunk_record option" where
  "chunk_at recs origin = map_of (rev (map (\<lambda>r. (rec_offsets r, r)) recs)) origin"

definition fill_elem :: "bytes option \<Rightarrow> nat \<Rightarrow> bytes" where
  "fill_elem fill es = (case fill of Some fv \<Rightarrow> if length fv = es then fv else replicate es 0 | None \<Rightarrow> replicate es 0)"

definition stored_elem :: "(chunk_record \<Rightarrow> bytes) \<Rightarrow> chunk_record list \<Rightarrow> nat list \<Rightarrow> nat \<Rightarrow> bytes option \<Rightarrow> nat list \<Rightarrow> bytes" where
  "stored_elem dec recs cdims es fill g =
     (case chunk_at recs (cell_of cdims g) of
        Some r \<Rightarrow> elem es (dec r) (flat_of cdims (in_cell cdims g))
      | None \<Rightarrow> fill_elem fill es)"

section \<open>Buffers of elements\<close>

lemma elem_nth: "i * es + es \<le> length buf \<Longrightarrow> j < es \<Longrightarrow> elem es buf i ! j = buf ! (i * es + j)"
  by (simp add: elem_def)

lemma elem_eqI:
  assumes "length a = n * es" "length b = n * es" and "\<And>i. i < n \<Longrightarrow> elem es a i = elem es b i"
  shows "a = b"
proof (rule nth_equalityI)
  fix k assume k: "k < length a"
  then have es: "0 < es" using assms(1) by (cases es) auto
  then have i: "k div es < n" using k assms(1) by (simp add: less_mult_imp_div_less)
  have j: "k mod es < es" using es by simp
  have f: "k div es * es + es \<le> n * es" by (rule elem_in_buffer[OF i])
  have "elem es a (k div es) ! (k mod es) = elem es b (k div es) ! (k mod es)" by (simp only: assms(3)[OF i])
  then show "a ! k = b ! k" using f j assms(1,2) by (simp add: elem_nth)
qed (simp add: assms)

lemma fill_buffer_eq:
  assumes "0 < es" and "n * es \<le> isize_max"
  shows "\<exists>b. fill_buffer fill es n = Inr b \<and> length b = n * es \<and> (\<forall>i<n. elem es b i = fill_elem fill es)"
proof -
  have zeros: "elem es (replicate (n * es) 0) i = replicate es 0" if "i < n" for i
    by (rule nth_equalityI) (use elem_in_buffer[OF that, of es] in \<open>auto simp: elem_def\<close>)
  have z: "vec_zeros (n * es) = Inr (replicate (n * es) 0)" using assms(2) by simp
  show ?thesis
  proof (cases "\<exists>fv. fill = Some fv \<and> length fv = es")
    case True
    then obtain fv where fv: "fill = Some fv" "length fv = es" by blast
    have "elem es (fill_cycle fv (n * es)) i = fv" if i: "i < n" for i
    proof (rule nth_equalityI)
      show "length (elem es (fill_cycle fv (n * es)) i) = length fv"
        using elem_in_buffer[OF i, of es] fv by (simp add: length_elem fill_cycle_def)
      fix j assume "j < length (elem es (fill_cycle fv (n * es)) i)"
      then have j: "j < es" using elem_in_buffer[OF i, of es] by (simp add: length_elem fill_cycle_def)
      then show "elem es (fill_cycle fv (n * es)) i ! j = fv ! j"
        using elem_in_buffer[OF i, of es] fv by (simp add: elem_nth fill_cycle_def)
    qed
    then show ?thesis using fv assms by (simp add: fill_buffer_def fill_elem_def fill_cycle_def)
  next
    case False
    then have "fill_buffer fill es n = Inr (replicate (n * es) 0)"
      using assms z by (auto simp: fill_buffer_def split: option.split)
    moreover have "fill_elem fill es = replicate es 0" using False by (auto simp: fill_elem_def split: option.split)
    ultimately show ?thesis using zeros by simp
  qed
qed

section \<open>Cells\<close>

lemma in_cell_inside: "0 \<notin> set cdims \<Longrightarrow> length g = length cdims \<Longrightarrow> inside (in_cell cdims g) cdims"
  by (auto simp: list_all2_conv_all_nth in_set_conv_nth)

lemma cell_of_inverse: "length g = length cdims \<Longrightarrow> map2 (+) (cell_of cdims g) (in_cell cdims g) = g"
  by (rule nth_equalityI) (auto simp: div_mult_mod_eq)

lemma cell_of_aligned:
  assumes "length origin = length cdims" and "inside cs cdims" and "list_all2 (\<lambda>p k. k dvd p) origin cdims"
  shows "cell_of cdims (map2 (+) origin cs) = origin" and "in_cell cdims (map2 (+) origin cs) = cs"
proof -
  have l: "length cs = length cdims" using assms(2) by (simp add: list_all2_lengthD)
  have d: "cdims ! i dvd origin ! i" "cs ! i < cdims ! i" if "i < length cdims" for i
    using list_all2_nthD2[OF assms(3), of i] list_all2_nthD2[OF assms(2), of i] that by simp_all
  have "(origin ! i + cs ! i) div cdims ! i * cdims ! i = origin ! i" "(origin ! i + cs ! i) mod cdims ! i = cs ! i"
    if "i < length cdims" for i
    using d[OF that] by (auto elim!: dvdE simp: mult.commute)
  then show "cell_of cdims (map2 (+) origin cs) = origin" "in_cell cdims (map2 (+) origin cs) = cs"
    using assms(1) l by (auto intro!: nth_equalityI)
qed

lemma chunk_at_snoc: "chunk_at (recs @ [r]) = (chunk_at recs)(rec_offsets r \<mapsto> r)"
  by (auto simp: chunk_at_def)

lemma chunk_at_Nil [simp]: "chunk_at [] = Map.empty"
  by (auto simp: chunk_at_def)

lemma chunk_at_Some: "chunk_at recs o' = Some r \<Longrightarrow> r \<in> set recs \<and> rec_offsets r = o'"
  by (induction recs rule: rev_induct) (auto simp: chunk_at_snoc split: if_splits)

section \<open>The whole dataset\<close>

lemma shape_okD:
  assumes "shape_ok dims cdims es"
  shows "length cdims = length dims" "0 \<notin> set dims" "0 \<notin> set cdims" "0 < es"
    "prod_list dims * es \<le> isize_max" "prod_list cdims * es \<le> isize_max" "prod_list dims < u64_lim" "prod_list cdims < u64_lim"
  using assms volume_less[of dims es] volume_less[of cdims es] by (simp_all add: shape_ok_def)

lemma scatter_chunk_elements:
  assumes "shape_ok dims cdims es"
  shows "scatter_chunk out origin data cdims dims es =
    scatter_elements out origin data (strides_of cdims) (strides_of dims) dims (min (length data div es) (prod_list cdims)) es"
  using shape_okD[OF assms] by (simp add: scatter_chunk_def scatter_elements_def row_major_strides_eq product_u64_eq Let_def)

text \<open>One chunk: its cell is filled, every other element stays.\<close>

lemma scatter_record:
  assumes sh: "shape_ok dims cdims es" and r: "record_ok app file_data cdims es r"
    and out: "length out = prod_list dims * es"
  shows "\<exists>out'. scatter_chunk out (rec_offsets r) (decoded app file_data r) cdims dims es = Inr out' \<and> length out' = length out
    \<and> (\<forall>g. inside g dims \<longrightarrow> elem es out' (flat_of dims g) =
          (if rec_offsets r = cell_of cdims g then elem es (decoded app file_data r) (flat_of cdims (in_cell cdims g))
           else elem es out (flat_of dims g)))"
proof -
  note s = shape_okD[OF sh] and ro = r[unfolded record_ok_def]
  have len: "length (rec_offsets r) = length dims" using ro s(1) by (auto dest: list_all2_lengthD)
  have al: "list_all2 (\<lambda>p k. k dvd p) (rec_offsets r) cdims" by (rule list_all2_mono[OF ro[THEN conjunct1]]) simp
  have lim: "\<forall>i < length dims. rec_offsets r ! i + cdims ! i \<le> u64_lim"
    using list_all2_nthD2[OF ro[THEN conjunct1]] s(1) by (auto intro: less_imp_le)
  obtain out' where o: "scatter_chunk out (rec_offsets r) (decoded app file_data r) cdims dims es = Inr out'" "length out' = length out"
      "\<forall>cs. inside cs cdims \<longrightarrow> inside (map2 (+) (rec_offsets r) cs) dims \<longrightarrow>
          elem es out' (flat_of dims (map2 (+) (rec_offsets r) cs)) = elem es (decoded app file_data r) (flat_of cdims cs)"
      "\<forall>gs. inside gs dims \<longrightarrow> (\<forall>cs. inside cs cdims \<longrightarrow> gs \<noteq> map2 (+) (rec_offsets r) cs) \<longrightarrow>
          elem es out' (flat_of dims gs) = elem es out (flat_of dims gs)"
    using scatter_chunk_correct[OF len s(1,2,3,4) out _ _ _ lim, of "decoded app file_data r"] out s ro by auto
  have "elem es out' (flat_of dims g) =
      (if rec_offsets r = cell_of cdims g then elem es (decoded app file_data r) (flat_of cdims (in_cell cdims g))
       else elem es out (flat_of dims g))" if g: "inside g dims" for g
  proof (cases "rec_offsets r = cell_of cdims g")
    case True
    have lg: "length g = length cdims" using g s(1) by (simp add: list_all2_lengthD)
    have "map2 (+) (rec_offsets r) (in_cell cdims g) = g" unfolding True by (rule cell_of_inverse[OF lg])
    then show ?thesis using o(3)[rule_format, OF in_cell_inside[OF s(3) lg]] True g by simp
  next
    case False
    have "g \<noteq> map2 (+) (rec_offsets r) cs" if "inside cs cdims" for cs
      using cell_of_aligned(1)[OF _ that al] len s(1) False by auto
    with o(4) g False show ?thesis by simp
  qed
  with o(1,2) show ?thesis by blast
qed

lemma assemble_records:
  assumes sh: "shape_ok dims cdims es" and rs: "\<forall>r\<in>set recs. record_ok app file_data cdims es r"
    and out: "length out = prod_list dims * es" and init: "\<forall>g. inside g dims \<longrightarrow> elem es out (flat_of dims g) = fill_elem fill es"
  shows "\<exists>out'. fold_res (\<lambda>r out. scatter_chunk out (rec_offsets r) (decoded app file_data r) cdims dims es) recs out = Inr out'
    \<and> length out' = length out
    \<and> (\<forall>g. inside g dims \<longrightarrow> elem es out' (flat_of dims g) = stored_elem (decoded app file_data) recs cdims es fill g)"
  using rs
proof (induction recs rule: rev_induct)
  case Nil
  then show ?case using init by (simp add: stored_elem_def)
next
  case (snoc r recs)
  then obtain o1 where o1: "fold_res (\<lambda>r out. scatter_chunk out (rec_offsets r) (decoded app file_data r) cdims dims es) recs out = Inr o1"
      "length o1 = length out"
      "\<forall>g. inside g dims \<longrightarrow> elem es o1 (flat_of dims g) = stored_elem (decoded app file_data) recs cdims es fill g"
    by auto
  have "record_ok app file_data cdims es r" using snoc.prems by simp
  from scatter_record[OF sh this, of o1] out o1(2)
  obtain o2 where o2: "scatter_chunk o1 (rec_offsets r) (decoded app file_data r) cdims dims es = Inr o2" "length o2 = length o1"
      "\<forall>g. inside g dims \<longrightarrow> elem es o2 (flat_of dims g) =
          (if rec_offsets r = cell_of cdims g then elem es (decoded app file_data r) (flat_of cdims (in_cell cdims g))
           else elem es o1 (flat_of dims g))"
    by auto
  have "elem es o2 (flat_of dims g) = stored_elem (decoded app file_data) (recs @ [r]) cdims es fill g" if "inside g dims" for g
    using o2(3) o1(3) that by (auto simp: stored_elem_def chunk_at_snoc)
  with o1 o2 show ?case by (auto simp: fold_res_append)
qed

lemma assemble_loop_eq:
  assumes sh: "shape_ok dims cdims es" and rs: "\<forall>r\<in>set recs. record_ok app file_data cdims es r"
  shows "assemble_loop app recs file_data cdims dims es out =
    fold_res (\<lambda>r out. scatter_chunk out (rec_offsets r) (decoded app file_data r) cdims dims es) recs out"
proof -
  note s = shape_okD[OF sh]
  have "fold_res (\<lambda>r out. if length (rec_offsets r) < length dims then Inl Format
         else and_then (read_chunk_bytes file_data r) (\<lambda>raw. and_then (app raw (rec_filter_mask r)) (\<lambda>data.
             scatter_elements out (rec_offsets r) data (strides_of cdims) (strides_of dims) dims
               (min (length data div es) (prod_list cdims)) es))) recs out
    = fold_res (\<lambda>r out. scatter_chunk out (rec_offsets r) (decoded app file_data r) cdims dims es) recs out"
  proof (rule fold_res_cong)
    fix r out assume "r \<in> set recs"
    then have r: "record_ok app file_data cdims es r" using rs by simp
    then have len: "length (rec_offsets r) = length dims" using s(1) by (auto simp: record_ok_def dest: list_all2_lengthD)
    have "and_then (read_chunk_bytes file_data r) (\<lambda>raw. and_then (app raw (rec_filter_mask r)) k) = k (decoded app file_data r)"
      for k :: "bytes \<Rightarrow> bytes res"
      using r by (simp add: record_ok_def decode_record_def flip: and_then_assoc)
    with len show "(if length (rec_offsets r) < length dims then Inl Format
         else and_then (read_chunk_bytes file_data r) (\<lambda>raw. and_then (app raw (rec_filter_mask r)) (\<lambda>data.
             scatter_elements out (rec_offsets r) data (strides_of cdims) (strides_of dims) dims
               (min (length data div es) (prod_list cdims)) es)))
        = scatter_chunk out (rec_offsets r) (decoded app file_data r) cdims dims es"
      by (simp add: scatter_chunk_elements[OF sh])
  qed simp_all
  then show ?thesis using s by (simp add: assemble_loop_def row_major_strides_eq product_u64_eq)
qed

lemma assemble_with_fill_ok:
  assumes sh: "shape_ok dims cdims es" and rs: "\<forall>r\<in>set recs. record_ok app file_data cdims es r"
  shows "\<exists>out. assemble_chunks_with_fill app recs file_data cdims dims es fill = Inr out \<and> length out = prod_list dims * es
    \<and> (\<forall>g. inside g dims \<longrightarrow> elem es out (flat_of dims g) = stored_elem (decoded app file_data) recs cdims es fill g)"
proof -
  note s = shape_okD[OF sh]
  obtain b where b: "fill_buffer fill es (prod_list dims) = Inr b" "length b = prod_list dims * es"
      "\<forall>i < prod_list dims. elem es b i = fill_elem fill es"
    using fill_buffer_eq[OF s(4,5), of fill] by blast
  have "\<forall>g. inside g dims \<longrightarrow> elem es b (flat_of dims g) = fill_elem fill es" using b(3) flat_of_less by blast
  from assemble_records[OF sh rs b(2) this] b s show ?thesis
    by (auto simp: assemble_chunks_with_fill_def assemble_loop_eq[OF sh rs] product_u64_eq)
qed

end
