(* ===== verification/Chunked_Region.thy ===== *)
theory Chunked_Region
  imports Chunked_Spec
begin

text \<open>
  The readers of a region of a chunked dataset. Both walk the grid cells that meet the bounding
  box of the region; a slice is the hyperslab of stride one, and the hyperslab reader returns what
  \<open>gather_hyperslab_contiguous\<close> takes out of the whole dataset.
\<close>

section \<open>The walk over the cells\<close>

lemma div_cells_bound:
  assumes "s < e" and "0 < (c :: nat)"
  shows "s div c \<le> (e - 1) div c" and "(e - 1) div c - s div c + 1 \<le> e - s"
proof -
  show le: "s div c \<le> (e - 1) div c" using assms by (intro div_le_mono) simp
  have "(e - 1) div c \<le> (s + (e - 1 - s)) div c" using assms(1) by simp
  also have "\<dots> \<le> s div c + (e - 1 - s)"
  proof (cases "e - 1 - s")
    case (Suc m)
    have "(s + (e - 1 - s)) div c \<le> (s + (e - 1 - s) * c) div c"
      using assms(2) by (intro div_le_mono) simp
    then show ?thesis using assms(2) by simp
  qed simp
  finally show "(e - 1) div c - s div c + 1 \<le> e - s" using assms(1) by linarith
qed

text \<open>First cells and cell counts of a box, and the origin of the \<open>k\<close>-th cell.\<close>

abbreviation box_first :: "range list \<Rightarrow> nat list \<Rightarrow> nat list" where
  "box_first box cdims \<equiv> map2 (\<lambda>r c. fst r div c) box cdims"

abbreviation box_counts :: "range list \<Rightarrow> nat list \<Rightarrow> nat list" where
  "box_counts box cdims \<equiv> map2 (\<lambda>r c. (snd r - 1) div c - fst r div c + 1) box cdims"

definition box_origin :: "range list \<Rightarrow> nat list \<Rightarrow> nat \<Rightarrow> nat list" where
  "box_origin box cdims k = map2 (*) (map2 (+) (box_first box cdims) (coords_of (box_counts box cdims) k)) cdims"

definition box_ok :: "range list \<Rightarrow> nat list \<Rightarrow> nat list \<Rightarrow> bool" where
  "box_ok box dims cdims \<longleftrightarrow>
     length box = length dims \<and> length cdims = length dims
     \<and> (\<forall>d < length dims. fst (box ! d) < snd (box ! d) \<and> snd (box ! d) \<le> dims ! d \<and> 0 < cdims ! d \<and> dims ! d + cdims ! d < u64_lim)
     \<and> prod_list dims < u64_lim"

lemma box_counts_pos: "0 \<notin> set (box_counts box cdims)"
  by (auto simp: set_zip)

lemma box_counts_volume:
  assumes "box_ok box dims cdims"
  shows "prod_list (box_counts box cdims) < u64_lim"
proof -
  have "list_all2 (\<le>) (box_counts box cdims) dims"
  proof (rule list_all2_all_nthI)
    fix d assume "d < length (box_counts box cdims)"
    then have d: "d < length dims" "fst (box ! d) < snd (box ! d)" "snd (box ! d) \<le> dims ! d" "0 < cdims ! d"
      using assms by (auto simp: box_ok_def)
    show "box_counts box cdims ! d \<le> dims ! d"
      using div_cells_bound(2)[OF d(2,4)] d(1,3) assms by (auto simp: box_ok_def)
  qed (use assms in \<open>simp add: box_ok_def\<close>)
  from prod_list_mono[OF this] assms show ?thesis by (simp add: box_ok_def)
qed

lemma box_coord:
  assumes ok: "box_ok box dims cdims" and k: "k < prod_list (box_counts box cdims)" and d: "d < length dims"
  shows "coords_of (box_counts box cdims) k ! d \<le> (snd (box ! d) - 1) div cdims ! d - fst (box ! d) div cdims ! d"
    and "(fst (box ! d) div cdims ! d + coords_of (box_counts box cdims) k ! d) * cdims ! d \<le> snd (box ! d) - 1"
proof -
  have b: "fst (box ! d) < snd (box ! d)" "0 < cdims ! d" "length box = length dims" "length cdims = length dims"
    using ok d by (auto simp: box_ok_def)
  show c: "coords_of (box_counts box cdims) k ! d \<le> (snd (box ! d) - 1) div cdims ! d - fst (box ! d) div cdims ! d"
    using list_all2_nthD2[OF coords_of_inside[OF k], of d] d b by simp
  have "fst (box ! d) div cdims ! d + coords_of (box_counts box cdims) k ! d \<le> (snd (box ! d) - 1) div cdims ! d"
    using c div_cells_bound(1)[OF b(1,2)] by linarith
  then have "(fst (box ! d) div cdims ! d + coords_of (box_counts box cdims) k ! d) * cdims ! d
      \<le> (snd (box ! d) - 1) div cdims ! d * cdims ! d" by (rule mult_le_mono1)
  also have "\<dots> \<le> snd (box ! d) - 1" by simp
  finally show "(fst (box ! d) div cdims ! d + coords_of (box_counts box cdims) k ! d) * cdims ! d \<le> snd (box ! d) - 1" .
qed

lemma cell_origin_eq:
  assumes ok: "box_ok box dims cdims" and k: "k < prod_list (box_counts box cdims)"
  shows "cell_origin (box_first box cdims) (coords_of (box_counts box cdims) k) cdims = Inr (box_origin box cdims k)"
proof -
  have len: "length box = length dims" "length cdims = length dims" using ok by (simp_all add: box_ok_def)
  have lim: "(fst (box ! d) div cdims ! d + coords_of (box_counts box cdims) k ! d) * cdims ! d < u64_lim"
    "fst (box ! d) div cdims ! d + coords_of (box_counts box cdims) k ! d < u64_lim" if d: "d < length dims" for d
  proof -
    let ?x = "fst (box ! d) div cdims ! d + coords_of (box_counts box cdims) k ! d"
    have b: "snd (box ! d) \<le> dims ! d" "0 < cdims ! d" "dims ! d + cdims ! d < u64_lim" using ok d by (auto simp: box_ok_def)
    show m: "?x * cdims ! d < u64_lim" using box_coord(2)[OF ok k d] b by linarith
    have "?x \<le> ?x * cdims ! d" using b(2) by (cases "cdims ! d") simp_all
    from le_less_trans[OF this m] show "?x < u64_lim" .
  qed
  have "add_all (box_first box cdims) (coords_of (box_counts box cdims) k)
      = Inr (map2 (+) (box_first box cdims) (coords_of (box_counts box cdims) k))"
    using len lim(2) by (intro add_all_eq) (auto simp: list_all2_conv_all_nth)
  moreover have "map_res (\<lambda>(i, c). umul i c) (zip (map2 (+) (box_first box cdims) (coords_of (box_counts box cdims) k)) cdims)
      = Inr (box_origin box cdims k)"
    unfolding box_origin_def by (rule map_res_total) (use len lim(1) in \<open>auto simp: set_zip\<close>)
  ultimately show ?thesis by (simp add: cell_origin_def)
qed

text \<open>Both readers compute the last coordinate of a range; the ends of a nonempty range are positive.\<close>

lemma for_cells_eq:
  assumes ok: "box_ok box dims cdims" and last: "\<And>r. r \<in> set box \<Longrightarrow> last_of r = Inr (snd r - 1)"
  shows "for_cells last_of box cdims (length dims) body out =
    fold_res (\<lambda>k. body (box_origin box cdims k)) [0..<prod_list (box_counts box cdims)] out"
proof -
  let ?n = "length dims"
  have len: "length box = ?n" "length cdims = ?n" using ok by (simp_all add: box_ok_def)
  have b: "fst (box ! d) < snd (box ! d)" "0 < cdims ! d" "snd (box ! d) < u64_lim" if "d < ?n" for d
    using ok that by (auto simp: box_ok_def intro: le_less_trans)
  have first: "map_res (\<lambda>d. and_then (index box d) (\<lambda>r. and_then (index cdims d) (\<lambda>c. udiv (fst r) c))) [0..<?n]
      = Inr (map (\<lambda>d. fst (box ! d) div cdims ! d) [0..<?n])"
    by (rule map_res_total) (use len b in simp)
  have lasts: "map_res (\<lambda>d. and_then (index box d) (\<lambda>r. and_then (last_of r) (\<lambda>l. and_then (index cdims d) (\<lambda>c. udiv l c)))) [0..<?n]
      = Inr (map (\<lambda>d. (snd (box ! d) - 1) div cdims ! d) [0..<?n])"
    by (rule map_res_total) (use len b last in simp)
  have counts: "map_res (\<lambda>(l, f). and_then (usub l f) (\<lambda>k. uadd k 1))
        (zip (map (\<lambda>d. (snd (box ! d) - 1) div cdims ! d) [0..<?n]) (map (\<lambda>d. fst (box ! d) div cdims ! d) [0..<?n]))
      = Inr (map (\<lambda>(l, f). l - f + 1) (zip (map (\<lambda>d. (snd (box ! d) - 1) div cdims ! d) [0..<?n]) (map (\<lambda>d. fst (box ! d) div cdims ! d) [0..<?n])))"
  proof (rule map_res_total)
    fix p assume "p \<in> set (zip (map (\<lambda>d. (snd (box ! d) - 1) div cdims ! d) [0..<?n]) (map (\<lambda>d. fst (box ! d) div cdims ! d) [0..<?n]))"
    then obtain d where d: "d < ?n" "p = ((snd (box ! d) - 1) div cdims ! d, fst (box ! d) div cdims ! d)"
      by (auto simp: set_zip)
    have "(snd (box ! d) - 1) div cdims ! d \<le> snd (box ! d) - 1" by simp
    then have "(snd (box ! d) - 1) div cdims ! d - fst (box ! d) div cdims ! d + 1 < u64_lim"
      using b[OF d(1)] by linarith
    then show "(case p of (l, f) \<Rightarrow> and_then (usub l f) (\<lambda>k. uadd k 1)) = Inr (case p of (l, f) \<Rightarrow> l - f + 1)"
      using div_cells_bound(1)[OF b(1,2)[OF d(1)]] d(2) by simp
  qed
  have fe: "map (\<lambda>d. fst (box ! d) div cdims ! d) [0..<?n] = box_first box cdims"
    using len by (intro nth_equalityI) auto
  have ce: "map (\<lambda>(l, f). l - f + 1) (zip (map (\<lambda>d. (snd (box ! d) - 1) div cdims ! d) [0..<?n]) (map (\<lambda>d. fst (box ! d) div cdims ! d) [0..<?n]))
      = box_counts box cdims"
    using len by (intro nth_equalityI) auto
  have cells: "region_cells last_of box cdims ?n = Inr (box_first box cdims, box_counts box cdims)"
    unfolding region_cells_def first lasts using counts unfolding ce by (simp add: fe)
  note vol = box_counts_volume[OF ok]
  have "length (box_counts box cdims) = ?n" using len by simp
  note coords = flat_to_coords_eq[OF box_counts_pos, of _ box cdims, unfolded this]
  have "for_cells last_of box cdims ?n body out =
      fold_res (\<lambda>k out. and_then (flat_to_coords k (strides_of (box_counts box cdims)) ?n) (\<lambda>rel.
        and_then (cell_origin (box_first box cdims) rel cdims) (\<lambda>origin. body origin out))) [0..<prod_list (box_counts box cdims)] out"
    unfolding for_cells_def cells
    by (simp only: and_then_simps prod.case product_u64_eq[OF box_counts_pos vol] row_major_strides_eq[OF box_counts_pos vol])
  also have "\<dots> = fold_res (\<lambda>k. body (box_origin box cdims k)) [0..<prod_list (box_counts box cdims)] out"
    by (rule fold_res_cong) (use cell_origin_eq[OF ok] in \<open>simp_all only: coords and_then_simps set_upt atLeastLessThan_iff\<close>)
  finally show ?thesis .
qed

text \<open>The cell of every coordinate of the box is visited.\<close>

lemma box_origin_reached:
  assumes ok: "box_ok box dims cdims" and g: "length g = length dims" "\<forall>d < length dims. fst (box ! d) \<le> g ! d \<and> g ! d < snd (box ! d)"
  shows "\<exists>k < prod_list (box_counts box cdims). box_origin box cdims k = cell_of cdims g"
proof -
  let ?cs = "map (\<lambda>d. g ! d div cdims ! d - fst (box ! d) div cdims ! d) [0..<length dims]"
  have len: "length box = length dims" "length cdims = length dims" using ok by (simp_all add: box_ok_def)
  have m: "fst (box ! d) div cdims ! d \<le> g ! d div cdims ! d" "g ! d div cdims ! d \<le> (snd (box ! d) - 1) div cdims ! d"
    if "d < length dims" for d
    using g(2) that by (auto intro!: div_le_mono)
  have ins: "inside ?cs (box_counts box cdims)"
    using m len by (auto simp: list_all2_conv_all_nth less_Suc_eq_le intro: diff_le_mono)
  have "box_origin box cdims (flat_of (box_counts box cdims) ?cs) = cell_of cdims g"
    unfolding box_origin_def coords_flat[OF ins]
    by (rule nth_equalityI) (use len g(1) m in auto)
  with flat_of_less[OF ins] show ?thesis by blast
qed

lemma box_origin_props:
  assumes ok: "box_ok box dims cdims" and k: "k < prod_list (box_counts box cdims)"
  shows "length (box_origin box cdims k) = length dims" and "list_all2 (\<lambda>p k. k dvd p) (box_origin box cdims k) cdims"
    and "\<forall>d < length dims. box_origin box cdims k ! d + cdims ! d < u64_lim"
proof -
  have len: "length box = length dims" "length cdims = length dims" using ok by (simp_all add: box_ok_def)
  have n: "box_origin box cdims k ! d = (fst (box ! d) div cdims ! d + coords_of (box_counts box cdims) k ! d) * cdims ! d"
    if "d < length dims" for d using that len by (simp add: box_origin_def)
  show l: "length (box_origin box cdims k) = length dims" using len by (simp add: box_origin_def)
  show "list_all2 (\<lambda>p k. k dvd p) (box_origin box cdims k) cdims"
    using len l n by (auto simp: list_all2_conv_all_nth)
  show "\<forall>d < length dims. box_origin box cdims k ! d + cdims ! d < u64_lim"
  proof (intro allI impI)
    fix d assume d: "d < length dims"
    have b: "fst (box ! d) < snd (box ! d)" "snd (box ! d) \<le> dims ! d" "dims ! d + cdims ! d < u64_lim"
      using ok d by (auto simp: box_ok_def)
    have "box_origin box cdims k ! d \<le> snd (box ! d) - 1" using box_coord(2)[OF ok k d] n[OF d] by simp
    with b show "box_origin box cdims k ! d + cdims ! d < u64_lim" by linarith
  qed
qed

section \<open>Finding the record of a cell\<close>

lemma chunk_map_snoc:
  "chunk_map n (recs @ [r]) =
    (if n \<le> length (rec_offsets r) then (chunk_map n recs)(take n (rec_offsets r) \<mapsto> length recs) else chunk_map n recs)"
proof -
  have "fold (\<lambda>i m. if n \<le> length (rec_offsets ((recs @ [r]) ! i)) then m(take n (rec_offsets ((recs @ [r]) ! i)) \<mapsto> i) else m)
      [0..<length recs] Map.empty = chunk_map n recs"
    unfolding chunk_map_def by (rule fold_cong) (auto simp: nth_append)
  then show ?thesis by (simp add: chunk_map_def)
qed

lemma chunk_map_at:
  assumes "\<forall>r\<in>set recs. length (rec_offsets r) = n"
  shows "map_option (\<lambda>i. recs ! i) (chunk_map n recs origin) = chunk_at recs origin
    \<and> (\<forall>i. chunk_map n recs origin = Some i \<longrightarrow> i < length recs)"
  using assms
proof (induction recs rule: rev_induct)
  case Nil
  then show ?case by (simp add: chunk_map_def)
next
  case (snoc r recs)
  then show ?case
    by (cases "chunk_map n recs origin") (auto simp: chunk_map_snoc chunk_at_snoc nth_append less_SucI)
qed

lemma record_offsets_length: "record_ok app file_data cdims es r \<Longrightarrow> length (rec_offsets r) = length cdims"
  unfolding record_ok_def by (elim conjE) (rule list_all2_lengthD)

lemma chunk_or_fill_ok:
  assumes sh: "shape_ok dims cdims es" and rs: "\<forall>r\<in>set recs. record_ok app file_data cdims es r"
  shows "\<exists>data. chunk_or_fill app file_data recs (chunk_map (length dims) recs origin) (prod_list cdims) fill es = Inr data
    \<and> length data = prod_list cdims * es
    \<and> (\<forall>g. length g = length dims \<longrightarrow> cell_of cdims g = origin \<longrightarrow>
        elem es data (flat_of cdims (in_cell cdims g)) = stored_elem (decoded app file_data) recs cdims es fill g)"
proof -
  note s = shape_okD[OF sh]
  have "\<forall>r\<in>set recs. length (rec_offsets r) = length dims"
    using rs s(1) record_offsets_length by fastforce
  note m = chunk_map_at[OF this, of origin]
  show ?thesis
  proof (cases "chunk_map (length dims) recs origin")
    case None
    then have at: "chunk_at recs origin = None" using m by simp
    obtain b where b: "fill_buffer fill es (prod_list cdims) = Inr b" "length b = prod_list cdims * es"
        "\<forall>i < prod_list cdims. elem es b i = fill_elem fill es"
      using fill_buffer_eq[OF s(4,6), of fill] by blast
    have "elem es b (flat_of cdims (in_cell cdims g)) = fill_elem fill es" if "length g = length dims" for g
      using b(3) flat_of_less[OF in_cell_inside[OF s(3)]] that s(1) by simp
    with b None at show ?thesis by (auto simp: chunk_or_fill_def stored_elem_def)
  next
    case (Some i)
    then have at: "chunk_at recs origin = Some (recs ! i)" and i: "i < length recs" using m by auto
    have "record_ok app file_data cdims es (recs ! i)" using rs i by simp
    then show ?thesis using Some i at
      by (auto simp: chunk_or_fill_def stored_elem_def record_ok_def decode_record_def)
  qed
qed

section \<open>The region filled\<close>

lemma in_chunk_cell:
  assumes "length origin = length cdims" and "length g = length cdims" and "list_all2 (\<lambda>p k. k dvd p) origin cdims" and "0 \<notin> set cdims"
  shows "in_chunk origin cdims g \<longleftrightarrow> cell_of cdims g = origin"
    and "cell_of cdims g = origin \<Longrightarrow> map2 (-) g origin = in_cell cdims g"
proof -
  have pos: "0 < cdims ! d" if "d < length cdims" for d using assms(4) that by (metis nth_mem gr0I)
  show "in_chunk origin cdims g \<longleftrightarrow> cell_of cdims g = origin"
  proof
    assume c: "in_chunk origin cdims g"
    have b: "origin ! d \<le> g ! d \<and> g ! d < origin ! d + cdims ! d" if "d < length cdims" for d
      using c that unfolding in_chunk_iff[OF assms(1) refl] by simp
    have "map2 (+) origin (map2 (-) g origin) = g" "inside (map2 (-) g origin) cdims"
      using b assms(1,2) by (auto intro!: nth_equalityI simp: list_all2_conv_all_nth less_diff_conv2 add.commute)
    from cell_of_aligned(1)[OF assms(1) this(2) assms(3)] this(1) show "cell_of cdims g = origin" by simp
  next
    assume c: "cell_of cdims g = origin"
    have "origin ! d \<le> g ! d \<and> g ! d < origin ! d + cdims ! d" if d: "d < length cdims" for d
    proof -
      have "origin ! d = g ! d div cdims ! d * cdims ! d" using c d assms(2) by auto
      moreover have "g ! d = g ! d div cdims ! d * cdims ! d + g ! d mod cdims ! d" by (rule div_mult_mod_eq[symmetric])
      moreover have "g ! d mod cdims ! d < cdims ! d" using pos[OF d] by simp
      ultimately show ?thesis by linarith
    qed
    then show "in_chunk origin cdims g" unfolding in_chunk_iff[OF assms(1) refl] using assms(2) by simp
  qed
  show "map2 (-) g origin = in_cell cdims g" if "cell_of cdims g = origin"
    unfolding that[symmetric] by (rule nth_equalityI) (use assms(2) in \<open>auto simp: minus_div_mult_eq_mod\<close>)
qed

definition region_ok :: "hyperslab \<Rightarrow> nat list \<Rightarrow> bool" where
  "region_ok h dims \<longleftrightarrow> list_all2 (\<lambda>s n. disjoint_blocks s \<and> 0 < sel_count s \<and> sel_end s \<le> n) h dims"

abbreviation bbox_of :: "hyperslab \<Rightarrow> range list" where
  "bbox_of h \<equiv> map (\<lambda>s. (sel_start s, sel_end s)) h"

lemma extent_le_end:
  assumes "disjoint_blocks s" and "0 < sel_count s"
  shows "sel_start s + sel_count s * sel_block s \<le> sel_end s" and "sel_start s < sel_end s"
proof -
  obtain n where n: "sel_count s = Suc n" using assms(2) by (cases "sel_count s") auto
  have "n * sel_block s \<le> n * sel_stride s" using assms(1) by (simp add: disjoint_blocks_def)
  then show "sel_start s + sel_count s * sel_block s \<le> sel_end s" by (simp add: sel_end_def n)
  show "sel_start s < sel_end s" using assms(1) by (simp add: sel_end_def disjoint_blocks_def)
qed

lemma region_okD:
  assumes r: "region_ok h dims" and sh: "shape_ok dims cdims es"
  shows "length h = length dims" and "list_all sel_ok h" and "box_ok (bbox_of h) dims cdims"
    and "prod_list (extents h) * es \<le> isize_max" and "prod_list (extents h) < u64_lim"
proof -
  note s = shape_okD[OF sh]
  show len: "length h = length dims" using r by (simp add: region_ok_def list_all2_lengthD)
  have d: "disjoint_blocks (h ! d)" "0 < sel_count (h ! d)" "sel_end (h ! d) \<le> dims ! d" if "d < length dims" for d
    using list_all2_nthD2[OF r[unfolded region_ok_def] that] by simp_all
  have "list_all2 (\<lambda>n k. n + k < u64_lim) dims cdims" using sh by (simp add: shape_ok_def)
  then have lim: "dims ! d + cdims ! d < u64_lim" if "d < length dims" for d using that by (rule list_all2_nthD)
  have pos: "0 < cdims ! d" if "d < length dims" for d using s(1,3) that by (metis nth_mem gr0I)
  have "sel_ok (h ! d)" if "d < length dims" for d
    using d[OF that] lim[OF that] by (simp add: sel_ok_def)
  then show "list_all sel_ok h" using len by (simp add: list_all_length)
  show "box_ok (bbox_of h) dims cdims"
    unfolding box_ok_def using len s(1,7) d lim pos extent_le_end(2) by simp
  have "sel_count (h ! d) * sel_block (h ! d) \<le> dims ! d" if "d < length dims" for d
    using extent_le_end(1)[OF d(1,2)[OF that]] d(3)[OF that] by linarith
  then have "list_all2 (\<le>) (extents h) dims" using len by (simp add: list_all2_conv_all_nth)
  from prod_list_mono[OF this] show e: "prod_list (extents h) * es \<le> isize_max"
    using s(5) mult_le_mono1 le_trans by blast
  show "prod_list (extents h) < u64_lim" by (rule volume_less[OF e s(4)])
qed

text \<open>Walking a list of cells: the elements whose cell was visited are the stored ones.\<close>

definition fill_cell :: "(bytes \<Rightarrow> nat \<Rightarrow> bytes res) \<Rightarrow> bytes \<Rightarrow> chunk_record list \<Rightarrow> nat list \<Rightarrow> nat \<Rightarrow> bytes option \<Rightarrow> hyperslab
    \<Rightarrow> nat list \<Rightarrow> bytes \<Rightarrow> bytes res" where
  "fill_cell app file_data recs cdims es fill h origin out =
     and_then (chunk_or_fill app file_data recs (chunk_map (length h) recs origin) (prod_list cdims) fill es) (\<lambda>data.
       scatter_chunk_hyperslab out data origin cdims h (extents h) es)"

lemma fill_cells:
  assumes sh: "shape_ok dims cdims es" and rs: "\<forall>r\<in>set recs. record_ok app file_data cdims es r" and reg: "region_ok h dims"
    and out: "length out = prod_list (extents h) * es" and ks: "\<forall>k\<in>set ks. k < prod_list (box_counts (bbox_of h) cdims)"
  shows "\<exists>out'. fold_res (\<lambda>k. fill_cell app file_data recs cdims es fill h (box_origin (bbox_of h) cdims k)) ks out = Inr out'
    \<and> length out' = length out
    \<and> (\<forall>js. inside js (extents h) \<longrightarrow> cell_of cdims (map2 nth_selected h js) \<in> box_origin (bbox_of h) cdims ` set ks \<longrightarrow>
          elem es out' (flat_of (extents h) js) = stored_elem (decoded app file_data) recs cdims es fill (map2 nth_selected h js))"
  using ks
proof (induction ks rule: rev_induct)
  case (snoc k ks)
  note s = shape_okD[OF sh] and d = region_okD[OF reg sh]
  let ?o = "box_origin (bbox_of h) cdims"
  obtain o1 where o1: "fold_res (\<lambda>k. fill_cell app file_data recs cdims es fill h (?o k)) ks out = Inr o1" "length o1 = length out"
      "\<forall>js. inside js (extents h) \<longrightarrow> cell_of cdims (map2 nth_selected h js) \<in> ?o ` set ks \<longrightarrow>
          elem es o1 (flat_of (extents h) js) = stored_elem (decoded app file_data) recs cdims es fill (map2 nth_selected h js)"
    using snoc by auto
  have k: "k < prod_list (box_counts (bbox_of h) cdims)" using snoc.prems by simp
  note p = box_origin_props[OF d(3) k]
  have lo: "length (?o k) = length cdims" using p(1) s(1) by simp
  obtain data where data: "chunk_or_fill app file_data recs (chunk_map (length dims) recs (?o k)) (prod_list cdims) fill es = Inr data"
      "length data = prod_list cdims * es"
      "\<forall>g. length g = length dims \<longrightarrow> cell_of cdims g = ?o k \<longrightarrow>
        elem es data (flat_of cdims (in_cell cdims g)) = stored_elem (decoded app file_data) recs cdims es fill g"
    using chunk_or_fill_ok[OF sh rs, of "?o k" fill] by blast
  have shapes: "scatter_shapes h (?o k) cdims es o1 data"
    unfolding scatter_shapes_def using p d s data(2) o1(2) out by simp
  from scatter_chunk_hyperslab_correct[OF this]
  obtain o2 where o2: "scatter_chunk_hyperslab o1 data (?o k) cdims h (extents h) es = Inr o2" "length o2 = length o1"
      "\<forall>js. inside js (extents h) \<longrightarrow> (let g = map2 nth_selected h js in
         elem es o2 (flat_of (extents h) js) =
           (if in_chunk (?o k) cdims g then elem es data (flat_of cdims (map2 (-) g (?o k)))
            else elem es o1 (flat_of (extents h) js)))"
    by (elim exE conjE) (rule that)
  have "elem es o2 (flat_of (extents h) js) = stored_elem (decoded app file_data) recs cdims es fill (map2 nth_selected h js)"
    if js: "inside js (extents h)" and c: "cell_of cdims (map2 nth_selected h js) \<in> ?o ` set (ks @ [k])" for js
  proof -
    let ?g = "map2 nth_selected h js"
    have "length js = length h" using list_all2_lengthD[OF js] by simp
    then have lg: "length ?g = length cdims" using d(1) s(1) by simp
    note ic = in_chunk_cell[OF lo lg p(2) s(3)]
    show ?thesis
    proof (cases "cell_of cdims ?g = ?o k")
      case True
      then show ?thesis using o2(3)[rule_format, OF js] data(3)[rule_format, of ?g] lg s(1) ic by (simp add: Let_def)
    next
      case False
      then have "cell_of cdims ?g \<in> ?o ` set ks" using c by auto
      with False show ?thesis using o2(3)[rule_format, OF js] o1(3)[rule_format, OF js] ic(1) by (simp add: Let_def)
    qed
  qed
  then have all: "\<forall>js. inside js (extents h) \<longrightarrow> cell_of cdims (map2 nth_selected h js) \<in> ?o ` set (ks @ [k]) \<longrightarrow>
      elem es o2 (flat_of (extents h) js) = stored_elem (decoded app file_data) recs cdims es fill (map2 nth_selected h js)" by blast
  have "fold_res (\<lambda>k. fill_cell app file_data recs cdims es fill h (?o k)) (ks @ [k]) out = Inr o2"
    using o1(1) o2(1) data(1) d(1) by (simp add: fold_res_append fill_cell_def)
  moreover have "length o2 = length out" using o1(2) o2(2) by simp
  ultimately show ?case using all by blast
qed simp

lemma fill_region:
  assumes sh: "shape_ok dims cdims es" and rs: "\<forall>r\<in>set recs. record_ok app file_data cdims es r" and reg: "region_ok h dims"
    and last: "\<And>r. r \<in> set (bbox_of h) \<Longrightarrow> last_of r = Inr (snd r - 1)"
    and out: "length out = prod_list (extents h) * es"
  shows "\<exists>out'. for_cells last_of (bbox_of h) cdims (length dims) (fill_cell app file_data recs cdims es fill h) out = Inr out'
    \<and> length out' = prod_list (extents h) * es
    \<and> (\<forall>js. inside js (extents h) \<longrightarrow>
          elem es out' (flat_of (extents h) js) = stored_elem (decoded app file_data) recs cdims es fill (map2 nth_selected h js))"
proof -
  note s = shape_okD[OF sh] and d = region_okD[OF reg sh]
  have "cell_of cdims (map2 nth_selected h js) \<in> box_origin (bbox_of h) cdims ` set [0..<prod_list (box_counts (bbox_of h) cdims)]"
    if js: "inside js (extents h)" for js
  proof -
    have lj: "length js = length h" using list_all2_lengthD[OF js] by simp
    have "nth_selected (h ! i) (js ! i) \<in> selected (h ! i)" if i: "i < length dims" for i
      using d(1,2) i list_all2_nthD2[OF js, of i] by (intro nth_selected_in) (simp_all add: list_all_length sel_ok_def)
    from selected_bounds[OF this]
    have "\<forall>i < length dims. fst (bbox_of h ! i) \<le> map2 nth_selected h js ! i \<and> map2 nth_selected h js ! i < snd (bbox_of h ! i)"
      using d(1) lj by simp
    from box_origin_reached[OF d(3) _ this]
    obtain k where k: "k < prod_list (box_counts (bbox_of h) cdims)" "box_origin (bbox_of h) cdims k = cell_of cdims (map2 nth_selected h js)"
      using d(1) lj by auto
    have "k \<in> set [0..<prod_list (box_counts (bbox_of h) cdims)]" using k(1) by simp
    from imageI[OF this, of "box_origin (bbox_of h) cdims"] show ?thesis by (simp only: k(2))
  qed
  then have reach: "\<And>js. inside js (extents h) \<Longrightarrow>
      cell_of cdims (map2 nth_selected h js) \<in> box_origin (bbox_of h) cdims ` set [0..<prod_list (box_counts (bbox_of h) cdims)]" .
  have "\<forall>k\<in>set [0..<prod_list (box_counts (bbox_of h) cdims)]. k < prod_list (box_counts (bbox_of h) cdims)" by simp
  from fill_cells[OF sh rs reg out this, of fill]
  obtain out' where o: "fold_res (\<lambda>k. fill_cell app file_data recs cdims es fill h (box_origin (bbox_of h) cdims k))
        [0..<prod_list (box_counts (bbox_of h) cdims)] out = Inr out'" "length out' = length out"
      "\<forall>js. inside js (extents h) \<longrightarrow> cell_of cdims (map2 nth_selected h js) \<in> box_origin (bbox_of h) cdims ` set [0..<prod_list (box_counts (bbox_of h) cdims)] \<longrightarrow>
          elem es out' (flat_of (extents h) js) = stored_elem (decoded app file_data) recs cdims es fill (map2 nth_selected h js)"
    by (elim exE conjE) (rule that)
  have "for_cells last_of (bbox_of h) cdims (length dims) (fill_cell app file_data recs cdims es fill h) out = Inr out'"
    using for_cells_eq[OF d(3) last] o(1) by simp
  then show ?thesis
    by (intro exI[of _ out'] conjI) (use o reach out in simp_all)
qed

end
