(* ===== verification/Chunked_Agree.thy ===== *)
theory Chunked_Agree
  imports Chunked_Region
begin

text \<open>
  The agreement of the readers of a chunked dataset: the whole dataset holds the stored elements,
  the readers of a region return what gathering the region from the whole dataset returns, and the
  parallel build returns the bytes of the sequential one.
\<close>

section \<open>Gathering from a whole dataset\<close>

lemma nth_selected_less:
  assumes "region_ok h dims" and "inside js (extents h)" and "d < length dims"
  shows "nth_selected (h ! d) (js ! d) < dims ! d"
proof -
  have h: "disjoint_blocks (h ! d)" "sel_end (h ! d) \<le> dims ! d"
    using list_all2_nthD2[OF assms(1)[unfolded region_ok_def] assms(3)] by simp_all
  have "length h = length dims" using assms(1) by (simp add: region_ok_def list_all2_lengthD)
  then have "js ! d < sel_count (h ! d) * sel_block (h ! d)" using list_all2_nthD2[OF assms(2), of d] assms(3) by simp
  from selected_bounds[OF nth_selected_in[OF h(1) this]] h(2) show ?thesis by linarith
qed

lemma gather_step_eq:
  assumes "d < length h" "length js = length h" "length ss = length h" and "0 < sel_block (h ! d)"
    and "nth_selected (h ! d) (js ! d) < u64_lim" and "acc + nth_selected (h ! d) (js ! d) * ss ! d < u64_lim"
  shows "gather_step h js ss d acc = Inr (acc + nth_selected (h ! d) (js ! d) * ss ! d)"
proof -
  let ?s = "h ! d" and ?x = "js ! d"
  have n: "sel_start ?s + ?x div sel_block ?s * sel_stride ?s + ?x mod sel_block ?s = nth_selected ?s ?x"
    by (simp add: nth_selected_def)
  have "?x div sel_block ?s * sel_stride ?s < u64_lim" "sel_start ?s + ?x div sel_block ?s * sel_stride ?s < u64_lim"
    "nth_selected ?s ?x * ss ! d < u64_lim"
    using assms(5,6) n by linarith+
  then show ?thesis using assms by (simp add: gather_step_def n)
qed

lemma gather_coords:
  assumes r: "region_ok h dims" and js: "inside js (extents h)" and sh: "shape_ok dims cdims es"
    and "k \<le> length dims" and "acc + prod_list (drop k dims) \<le> u64_lim"
  shows "fold_res (gather_step h js (strides_of dims)) [k..<length dims] acc
    = Inr (acc + flat_of (drop k dims) (drop k (map2 nth_selected h js)))"
  using assms(4,5)
proof (induction "length dims - k" arbitrary: k acc)
  case 0
  then show ?case by simp
next
  case (Suc m)
  note s = shape_okD[OF sh] and d = region_okD[OF r sh]
  have k: "k < length dims" using Suc(2) by simp
  have lj: "length js = length h" using list_all2_lengthD[OF js] by simp
  let ?g = "map2 nth_selected h js"
  have gk: "?g ! k = nth_selected (h ! k) (js ! k)" and lg: "length ?g = length dims" using lj d(1) k by simp_all
  note less = nth_selected_less[OF r js k]
  note b = stride_bound[OF k less Suc.prems(2) s(2)]
  have up: "[k..<length dims] = k # [Suc k..<length dims]" using k by (simp add: upt_conv_Cons)
  have dg: "drop k ?g = nth_selected (h ! k) (js ! k) # drop (Suc k) ?g"
    using gk lg k Cons_nth_drop_Suc[of k ?g] by simp
  have dd: "drop k dims = dims ! k # drop (Suc k) dims" using k by (simp add: Cons_nth_drop_Suc)
  have "dims ! k dvd prod_list dims" using k by (intro prod_list_dvd) simp
  then have "dims ! k \<le> prod_list dims" using prod_list_pos[OF s(2)] by (rule dvd_imp_le)
  with less s(7) have lim: "nth_selected (h ! k) (js ! k) < u64_lim" by linarith
  have "0 < sel_block (h ! k)" using d(1,2) k by (simp add: list_all_length sel_ok_def disjoint_blocks_def)
  from gather_step_eq[OF _ lj _ this lim, of "strides_of dims" acc] b(2) k d(1)
  have step: "gather_step h js (strides_of dims) k acc = Inr (acc + nth_selected (h ! k) (js ! k) * strides_of dims ! k)" by simp
  have m: "m = length dims - Suc k" using Suc(2) by simp
  have "fold_res (gather_step h js (strides_of dims)) [k..<length dims] acc =
      Inr (acc + nth_selected (h ! k) (js ! k) * strides_of dims ! k + flat_of (drop (Suc k) dims) (drop (Suc k) ?g))"
    using Suc.hyps(1)[OF m] k b(1) step by (simp add: up)
  then show ?case by (simp add: dg dd nth_strides_of[OF k])
qed

lemma region_checks:
  assumes r: "region_ok h dims" and sh: "shape_ok dims cdims es"
  shows "validate h = Inr ()" "\<not> is_empty h" "output_shape h = Inr (extents h)"
    "bounding_ranges h = Inr (bbox_of h)" "bbox_inside (bbox_of h) dims (length dims) = Inr ()"
    "product_u64 (extents h) = Inr (prod_list (extents h))" "row_major_strides (extents h) = Inr (strides_of (extents h))"
    "umul (prod_list (extents h)) es = Inr (prod_list (extents h) * es)"
    "vec_zeros (prod_list (extents h) * es) = Inr (replicate (prod_list (extents h) * es) 0)"
proof -
  note s = shape_okD[OF sh] and d = region_okD[OF r sh]
  show "validate h = Inr ()" "bounding_ranges h = Inr (bbox_of h)" using d(2) by (simp_all add: validate_ok bounding_ranges_ok)
  show "\<not> is_empty h" using d(2) by (auto simp: is_empty_def list_ex_iff list_all_iff sel_ok_def disjoint_blocks_def)
  have "sel_count x * sel_block x < u64_lim" if x: "x \<in> set h" for x
    using extent_le_end(1)[of x] d(2) x by (auto simp: list_all_iff sel_ok_def)
  then show "output_shape h = Inr (extents h)"
    unfolding output_shape_def by (intro map_res_total) (simp add: n_elements_def)
  have "fold_res (\<lambda>i u. and_then (index (bbox_of h) i) (\<lambda>r. and_then (index dims i) (\<lambda>n. if snd r > n then Inl Format else Inr u))) ks ()
      = Inr ()" if "set ks \<subseteq> {..<length dims}" for ks
    using that
  proof (induction ks)
    case (Cons i ks)
    then have "sel_end (h ! i) \<le> dims ! i" using list_all2_nthD2[OF r[unfolded region_ok_def], of i] by simp
    with Cons d(1) show ?case by simp
  qed simp
  from this[of "[0..<length dims]"] show "bbox_inside (bbox_of h) dims (length dims) = Inr ()"
    by (simp add: bbox_inside_def atLeast0LessThan)
  show "product_u64 (extents h) = Inr (prod_list (extents h))" "row_major_strides (extents h) = Inr (strides_of (extents h))"
    using product_u64_eq[OF sel_extent_pos[OF d(2)] d(5)] row_major_strides_eq[OF sel_extent_pos[OF d(2)] d(5)] by simp_all
  show "umul (prod_list (extents h)) es = Inr (prod_list (extents h) * es)"
    "vec_zeros (prod_list (extents h) * es) = Inr (replicate (prod_list (extents h) * es) 0)"
    using d(4) by simp_all
qed

lemma gather_ok:
  assumes r: "region_ok h dims" and sh: "shape_ok dims cdims es" and full: "length full = prod_list dims * es"
  shows "\<exists>part. gather_hyperslab_contiguous full dims h es = Inr part \<and> length part = prod_list (extents h) * es
    \<and> (\<forall>js. inside js (extents h) \<longrightarrow> elem es part (flat_of (extents h) js) = elem es full (flat_of dims (map2 nth_selected h js)))"
proof -
  note s = shape_okD[OF sh] and d = region_okD[OF r sh] and c = region_checks[OF r sh]
  let ?n = "prod_list (extents h)" and ?js = "coords_of (extents h)"
  define f where "f \<equiv> \<lambda>k out. and_then (flat_to_coords k (strides_of (extents h)) (length dims)) (\<lambda>out_coords.
      and_then (fold_res (gather_step h out_coords (strides_of dims)) [0..<length dims] 0) (\<lambda>src_flat.
        copy_element out full src_flat k es))"
  have unfold: "gather_hyperslab_contiguous full dims h es = fold_res f [0..<?n] (replicate (?n * es) 0)"
    unfolding gather_hyperslab_contiguous_def f_def Let_def
    using d(1) c s full by (simp add: product_u64_eq row_major_strides_eq)
  have coords: "flat_to_coords k (strides_of (extents h)) (length dims) = Inr (?js k)" for k
    using flat_to_coords_eq[OF sel_extent_pos[OF d(2)], of k] d(1) by simp
  have src: "flat_of dims (map2 nth_selected h (?js k)) < prod_list dims" if "k < ?n" for k
    using nth_selected_less[OF r coords_of_inside[OF that]] d(1) by (intro flat_of_less) (simp add: list_all2_conv_all_nth)
  have step: "f k out = Inr (splice out (k * es) (elem es full (flat_of dims (map2 nth_selected h (?js k)))))"
    if k: "k < ?n" and out: "length out = ?n * es" for k out
  proof -
    have g: "fold_res (gather_step h (?js k) (strides_of dims)) [0..<length dims] 0 = Inr (flat_of dims (map2 nth_selected h (?js k)))"
      using gather_coords[OF r coords_of_inside[OF k] sh, of 0 0] s(7) by simp
    have "copy_element out full (flat_of dims (map2 nth_selected h (?js k))) k es
        = Inr (splice out (k * es) (elem es full (flat_of dims (map2 nth_selected h (?js k)))))"
      using elem_in_buffer[OF src[OF k], of es] elem_in_buffer[OF k, of es] full out s(5) d(4) by (intro copy_element_eq) simp_all
    then show ?thesis by (simp add: f_def coords g)
  qed
  have "\<exists>out'. fold_res f [0..<?n] (replicate (?n * es) 0) = Inr out' \<and> length out' = ?n * es
      \<and> (\<forall>x\<in>set [0..<?n]. \<forall>q. Some x = Some q \<longrightarrow> elem es out' q = elem es full (flat_of dims (map2 nth_selected h (?js x))))
      \<and> (\<forall>q. (\<forall>x\<in>set [0..<?n]. Some x \<noteq> Some q) \<longrightarrow> elem es out' q = elem es (replicate (?n * es) 0) q)"
  proof (rule copy_loop)
    fix k and out :: bytes assume "k \<in> set [0..<?n]" "length out = ?n * es"
    then show "f k out = (case Some k of None \<Rightarrow> Inr out
        | Some q \<Rightarrow> Inr (splice out (q * es) (elem es full (flat_of dims (map2 nth_selected h (?js k))))))"
      using step by simp
  next
    fix k q assume "k \<in> set [0..<?n]" "Some k = Some q"
    then have "q = k" "k < ?n" by simp_all
    then show "length (elem es full (flat_of dims (map2 nth_selected h (?js k)))) = es \<and> q * es + es \<le> ?n * es"
      using elem_in_buffer[OF src, of k es] elem_in_buffer[of k ?n es] full by (simp add: length_elem)
  qed simp_all
  then obtain part where part: "fold_res f [0..<?n] (replicate (?n * es) 0) = Inr part" "length part = ?n * es"
      "\<And>k. k < ?n \<Longrightarrow> elem es part k = elem es full (flat_of dims (map2 nth_selected h (?js k)))"
    by auto
  have "elem es part (flat_of (extents h) js) = elem es full (flat_of dims (map2 nth_selected h js))" if "inside js (extents h)" for js
    using part(3)[OF flat_of_less[OF that]] coords_flat[OF that] by simp
  with part(1,2) show ?thesis by (simp add: unfold)
qed

section \<open>Slices are hyperslabs of stride one\<close>

definition slab_of :: "range list \<Rightarrow> hyperslab" where
  "slab_of ranges = map (\<lambda>r. \<lparr>sel_start = fst r, sel_stride = 1, sel_count = snd r - fst r, sel_block = 1\<rparr>) ranges"

definition ranges_ok :: "range list \<Rightarrow> nat list \<Rightarrow> bool" where
  "ranges_ok ranges dims \<longleftrightarrow> list_all2 (\<lambda>r n. fst r < snd r \<and> snd r \<le> n) ranges dims"

lemma slab_simps:
  "length (slab_of ranges) = length ranges" "extents (slab_of ranges) = map (\<lambda>r. snd r - fst r) ranges"
  "map sel_start (slab_of ranges) = map fst ranges"
  by (simp_all add: slab_of_def comp_def)

lemma slab_ok:
  assumes "ranges_ok ranges dims"
  shows "region_ok (slab_of ranges) dims" and "bbox_of (slab_of ranges) = ranges" and "map sel_end (slab_of ranges) = map snd ranges"
proof -
  have lt: "fst r < snd r" if "r \<in> set ranges" for r
    using assms that by (auto simp: ranges_ok_def list_all2_conv_all_nth in_set_conv_nth)
  have se: "sel_end \<lparr>sel_start = fst r, sel_stride = 1, sel_count = snd r - fst r, sel_block = 1\<rparr> = snd r" if "fst r < snd r" for r :: range
    using that by (simp add: sel_end_def)
  show "map sel_end (slab_of ranges) = map snd ranges" using lt se[unfolded One_nat_def] by (simp add: slab_of_def comp_def)
  show "bbox_of (slab_of ranges) = ranges" unfolding slab_of_def map_map by (rule map_idI) (simp add: se[unfolded One_nat_def] lt)
  show "region_ok (slab_of ranges) dims"
    using assms unfolding region_ok_def slab_of_def ranges_ok_def list_all2_map1
    by (rule list_all2_mono) (simp add: se[unfolded One_nat_def] disjoint_blocks_def)
qed

lemma slab_nth: "length js = length ranges \<Longrightarrow> map2 nth_selected (slab_of ranges) js = map2 (\<lambda>r j. fst r + j) ranges js"
  by (rule nth_equalityI) (simp_all add: slab_of_def nth_selected_def)

lemma contains_slab:
  "fst r \<le> x \<Longrightarrow> x < snd r \<Longrightarrow>
    contains \<lparr>sel_start = fst r, sel_stride = 1, sel_count = snd r - fst r, sel_block = 1\<rparr> x = Inr True"
  by (auto simp: contains_def Let_def)

lemma out_coord_slab:
  "fst r \<le> x \<Longrightarrow> x < u64_lim \<Longrightarrow>
    out_coord \<lparr>sel_start = fst r, sel_stride = 1, sel_count = n, sel_block = 1\<rparr> x = Inr (x - fst r)"
  by (simp add: out_coord_def)

text \<open>One cell: the loop of the slice reader is the hyperslab scatter.\<close>

lemma slice_cell:
  assumes ok: "ranges_ok ranges dims" and sh: "scatter_shapes (slab_of ranges) origin cdims es out data"
  shows "and_then (overlap ranges origin cdims) (\<lambda>(lo, hi).
      if \<exists>d\<in>set [0..<length ranges]. lo ! d \<ge> hi ! d then Inr out
      else slice_elements out data origin ranges lo hi (strides_of cdims) (strides_of (extents (slab_of ranges))) (length ranges) es)
    = scatter_chunk_hyperslab out data origin cdims (slab_of ranges) (extents (slab_of ranges)) es"
proof -
  let ?h = "slab_of ranges"
  let ?lo = "ovl_lo ?h origin" and ?hi = "ovl_hi ?h origin cdims"
  note a = sh[unfolded scatter_shapes_def] and vol = scatter_volumes[OF sh]
  have lh: "length ?h = length ranges" by (simp add: slab_simps)
  have ov: "overlap ranges origin cdims = Inr (?lo, ?hi)"
    using scatter_overlap[OF sh] by (simp only: slab_ok(2)[OF ok])
  show ?thesis
  proof (cases "\<forall>d < length ?h. ?lo ! d < ?hi ! d")
    case False
    then have deg: "\<exists>d\<in>set [0..<length ?h]. ?lo ! d \<ge> ?hi ! d" by (auto simp: not_less)
    have "scatter_chunk_hyperslab out data origin cdims ?h (extents ?h) es = Inr out"
      unfolding scatter_chunk_hyperslab_def Let_def
      using a deg by (simp add: validate_ok bounding_ranges_ok scatter_overlap[OF sh])
    with deg show ?thesis by (simp add: ov lh)
  next
    case True
    then have no: "\<not> (\<exists>d\<in>set [0..<length ranges]. ?lo ! d \<ge> ?hi ! d)" using lh by (auto simp: not_le)
    note f = ovl_facts[OF sh True]
    let ?g = "ovl_global ?h origin cdims" and ?sh = "ovl_shape ?h origin cdims"
    let ?step = "\<lambda>global out. and_then (sub_all global origin) (\<lambda>in_chunk.
         and_then (dot_strides in_chunk (strides_of cdims)) (\<lambda>chunk_flat.
         and_then (sub_all global (map fst ranges)) (\<lambda>in_out.
         and_then (dot_strides in_out (strides_of (extents ?h))) (\<lambda>out_flat.
           copy_element out data chunk_flat out_flat es))))"
    have step: "?step (?g k) b = copy_selected b data origin ?h (strides_of cdims) (strides_of (extents ?h)) es (?g k)"
      if k: "k < prod_list ?sh" for k b
    proof -
      have lens: "length origin = length ?h" "length cdims = length ?h" using a by simp_all
      have lg: "length (?g k) = length ranges" using lens f(4) lh by (simp add: ovl_global_def)
      have lo: "fst (ranges ! d) \<le> ?g k ! d" and hi: "?g k ! d < snd (ranges ! d)" if d: "d < length ranges" for d
      proof -
        have "?g k ! d = max (fst (ranges ! d)) (origin ! d) + coords_of ?sh k ! d"
          using d lens f(4) lh by (simp add: ovl_global_def slab_of_def)
        then show "fst (ranges ! d) \<le> ?g k ! d" by simp
        have "?g k ! d < min (sel_end (?h ! d)) (origin ! d + cdims ! d)"
          using ovl_global_in_chunk(2)[OF lens k, of d] d lh by simp
        moreover have "sel_end (?h ! d) = snd (ranges ! d)"
          using arg_cong[OF slab_ok(3)[OF ok], of "\<lambda>xs. xs ! d"] d lh by simp
        ultimately show "?g k ! d < snd (ranges ! d)" by simp
      qed
      have hd: "?h ! d = \<lparr>sel_start = fst (ranges ! d), sel_stride = 1, sel_count = snd (ranges ! d) - fst (ranges ! d), sel_block = 1\<rparr>"
        if "d < length ranges" for d using that by (simp add: slab_of_def)
      have lim: "?g k ! d < u64_lim" if d: "d < length ranges" for d
      proof -
        have "sel_ok (?h ! d)" using a d lh by (simp add: list_all_length)
        then have "sel_end (?h ! d) < u64_lim" by (simp add: sel_ok_def)
        then show ?thesis using hi[OF d] arg_cong[OF slab_ok(3)[OF ok], of "\<lambda>xs. xs ! d"] d lh by simp
      qed
      have "any_res (\<lambda>d. and_then (index ?h d) (\<lambda>sel. and_then (index (?g k) d) (\<lambda>g. and_then (contains sel g) (\<lambda>b. Inr (\<not> b))))) [0..<length ?h]
          = Inr (\<exists>d\<in>set [0..<length ?h]. False)"
        by (rule any_res_total) (use lh lg lo hi in \<open>simp add: hd contains_slab[unfolded One_nat_def]\<close>)
      then have any: "any_res (\<lambda>d. and_then (index ?h d) (\<lambda>sel. and_then (index (?g k) d) (\<lambda>g. and_then (contains sel g) (\<lambda>b. Inr (\<not> b))))) [0..<length ?h]
          = Inr False" by simp
      have outs: "map_res (\<lambda>d. and_then (index ?h d) (\<lambda>sel. and_then (index (?g k) d) (\<lambda>g. out_coord sel g))) [0..<length ?h]
          = Inr (map (\<lambda>d. ?g k ! d - fst (ranges ! d)) [0..<length ?h])"
        by (rule map_res_total) (use lh lg lo lim in \<open>simp add: hd out_coord_slab[unfolded One_nat_def]\<close>)
      have "sub_all (?g k) (map fst ranges) = Inr (map2 (-) (?g k) (map fst ranges))"
        using lo lg by (intro sub_all_eq) (simp add: list_all2_conv_all_nth)
      moreover have "map (\<lambda>d. ?g k ! d - fst (ranges ! d)) [0..<length ?h] = map2 (-) (?g k) (map fst ranges)"
        using lg lh by (intro nth_equalityI) simp_all
      ultimately show ?thesis by (simp add: copy_selected_def any outs)
    qed
    have "slice_elements out data origin ranges ?lo ?hi (strides_of cdims) (strides_of (extents ?h)) (length ranges) es
        = fold_res (\<lambda>k out. and_then (flat_to_coords k (strides_of ?sh) (length ranges)) (\<lambda>ovl_coords.
            and_then (add_all ?lo ovl_coords) (\<lambda>global. ?step global out))) [0..<prod_list ?sh] out"
      by (simp add: slice_elements_def f(1) product_u64_eq[OF f(2,3)] row_major_strides_eq[OF f(2,3)])
    also have "\<dots> = fold_res (\<lambda>k b. copy_selected b data origin ?h (strides_of cdims) (strides_of (extents ?h)) es (?g k)) [0..<prod_list ?sh] out"
    proof (rule fold_res_cong)
      fix k b assume "k \<in> set [0..<prod_list ?sh]"
      then have k: "k < prod_list ?sh" by simp
      have "flat_to_coords k (strides_of ?sh) (length ranges) = Inr (coords_of ?sh k)"
        using flat_to_coords_eq[OF f(2), of k] f(4) lh by simp
      then show "and_then (flat_to_coords k (strides_of ?sh) (length ranges)) (\<lambda>ovl_coords.
            and_then (add_all ?lo ovl_coords) (\<lambda>global. ?step global b))
          = copy_selected b data origin ?h (strides_of cdims) (strides_of (extents ?h)) es (?g k)"
        using f(5)[OF k] step[OF k] by simp
    qed simp_all
    also have "\<dots> = scatter_chunk_hyperslab out data origin cdims ?h (extents ?h) es"
      by (rule scatter_hyperslab_loop[OF sh True, symmetric])
    finally show ?thesis using no by (simp add: ov)
  qed
qed

lemma slice_out_dims_eq:
  assumes "ranges_ok ranges dims"
  shows "slice_out_dims ranges dims = Inr (extents (slab_of ranges))"
proof -
  have l: "length ranges = length dims" using assms by (simp add: ranges_ok_def list_all2_lengthD)
  have "map_res (\<lambda>(r, dim). if fst r > snd r then Inl Format else if snd r > dim then Inl Format else Inr (snd r - fst r)) (zip ranges dims)
      = Inr (map (\<lambda>(r, dim). snd r - fst r) (zip ranges dims))"
  proof (rule map_res_total)
    fix p assume "p \<in> set (zip ranges dims)"
    then obtain i where "i < length dims" "p = (ranges ! i, dims ! i)" using l by (auto simp: set_zip)
    then show "(case p of (r, dim) \<Rightarrow> if fst r > snd r then Inl Format else if snd r > dim then Inl Format else Inr (snd r - fst r))
        = Inr (case p of (r, dim) \<Rightarrow> snd r - fst r)"
      using list_all2_nthD2[OF assms[unfolded ranges_ok_def], of i] by simp
  qed
  moreover have "map (\<lambda>(r, dim). snd r - fst r) (zip ranges dims) = extents (slab_of ranges)"
    using l by (intro nth_equalityI) (simp_all add: slab_simps)
  ultimately show ?thesis using l by (simp add: slice_out_dims_def)
qed

lemma scatter_length:
  "scatter_shapes h origin cdims es out data \<Longrightarrow> scatter_chunk_hyperslab out data origin cdims h (extents h) es = Inr out' \<Longrightarrow>
    length out' = length out"
  using scatter_hyperslab_map[of h origin cdims es out data] by auto

lemma slice_cells:
  assumes sh: "shape_ok dims cdims es" and rs: "\<forall>r\<in>set recs. record_ok app file_data cdims es r" and ok: "ranges_ok ranges dims"
  shows "for_cells (\<lambda>r. usub (snd r) 1) ranges cdims (length dims) (\<lambda>origin out. and_then (overlap ranges origin cdims) (\<lambda>(lo, hi).
      if \<exists>d\<in>set [0..<length dims]. lo ! d \<ge> hi ! d then Inr out
      else and_then (chunk_or_fill app file_data recs (chunk_map (length dims) recs origin) (prod_list cdims) fill es) (\<lambda>data.
        slice_elements out data origin ranges lo hi (strides_of cdims) (strides_of (extents (slab_of ranges))) (length dims) es)))
      (replicate (prod_list (extents (slab_of ranges)) * es) 0)
    = for_cells (\<lambda>r. usub (snd r) 1) ranges cdims (length dims) (fill_cell app file_data recs cdims es fill (slab_of ranges))
      (replicate (prod_list (extents (slab_of ranges)) * es) 0)"
proof -
  let ?h = "slab_of ranges"
  note r = slab_ok[OF ok] and s = shape_okD[OF sh]
  note d = region_okD[OF r(1) sh]
  have lr: "length ranges = length dims" using d(1) by (simp add: slab_simps)
  have box: "box_ok ranges dims cdims" using d(3) by (simp add: r(2))
  have last: "usub (snd q) 1 = Inr (snd q - 1)" if q: "q \<in> set ranges" for q
  proof -
    obtain i where "i < length dims" "q = ranges ! i" using q lr by (metis in_set_conv_nth)
    then have "fst q < snd q" using box by (simp add: box_ok_def)
    then show ?thesis by simp
  qed
  have fc: "for_cells (\<lambda>r. usub (snd r) 1) ranges cdims (length dims) body out =
      fold_res (\<lambda>k. body (box_origin ranges cdims k)) [0..<prod_list (box_counts ranges cdims)] out" for body out
    by (rule for_cells_eq[OF box last])
  show ?thesis
    unfolding fc
  proof (rule fold_res_cong_inv[where I = "\<lambda>out. length out = prod_list (extents ?h) * es"])
    fix k and out :: bytes
    assume "k \<in> set [0..<prod_list (box_counts ranges cdims)]" and out: "length out = prod_list (extents ?h) * es"
    then have k: "k < prod_list (box_counts ranges cdims)" by simp
    let ?o = "box_origin ranges cdims k"
    note p = box_origin_props[OF box k]
    obtain data where data: "chunk_or_fill app file_data recs (chunk_map (length dims) recs ?o) (prod_list cdims) fill es = Inr data"
        "length data = prod_list cdims * es"
      using chunk_or_fill_ok[OF sh rs, of ?o fill] by blast
    have shapes: "scatter_shapes ?h ?o cdims es out data"
      unfolding scatter_shapes_def using p d s data(2) out by simp
    have "and_then (overlap ranges ?o cdims) (\<lambda>(lo, hi).
        if \<exists>d\<in>set [0..<length dims]. lo ! d \<ge> hi ! d then Inr out
        else and_then (chunk_or_fill app file_data recs (chunk_map (length dims) recs ?o) (prod_list cdims) fill es) (\<lambda>data.
          slice_elements out data ?o ranges lo hi (strides_of cdims) (strides_of (extents ?h)) (length dims) es))
      = scatter_chunk_hyperslab out data ?o cdims ?h (extents ?h) es"
      using slice_cell[OF ok shapes] by (simp only: data(1) and_then_simps lr)
    then show "and_then (overlap ranges ?o cdims) (\<lambda>(lo, hi).
        if \<exists>d\<in>set [0..<length dims]. lo ! d \<ge> hi ! d then Inr out
        else and_then (chunk_or_fill app file_data recs (chunk_map (length dims) recs ?o) (prod_list cdims) fill es) (\<lambda>data.
          slice_elements out data ?o ranges lo hi (strides_of cdims) (strides_of (extents ?h)) (length dims) es))
      = fill_cell app file_data recs cdims es fill ?h ?o out"
      using data(1) d(1) by (simp add: fill_cell_def)
    show "length out' = prod_list (extents ?h) * es" if "fill_cell app file_data recs cdims es fill ?h ?o out = Inr out'" for out'
      using that data(1) d(1) scatter_length[OF shapes, of out'] out by (simp add: fill_cell_def)
  qed simp
qed

section \<open>The readers agree\<close>

text \<open>
  A well-formed chunked dataset: the layout strips to chunk dimensions of the rank, its index
  resolves to the records \<open>recs\<close>, and the shape and every record are in order.
\<close>

definition chunked_source ::
  "codecs \<Rightarrow> (nat \<Rightarrow> nat \<Rightarrow> nat) \<Rightarrow> bytes \<Rightarrow> layout_info \<Rightarrow> filter_pipeline \<Rightarrow> dataset_shape \<Rightarrow> nat \<Rightarrow> records_cache
    \<Rightarrow> nat list \<Rightarrow> chunk_record list \<Rightarrow> records_cache \<Rightarrow> bool" where
  "chunked_source c root_ceil file_data layout pipeline shape es cache cdims recs cache' \<longleftrightarrow>
     (\<exists>data_address dimensionality chunk_dims index_type single_chunk ix.
        layout = Chunked data_address dimensionality chunk_dims index_type single_chunk
        \<and> strip_chunk_dims (length (sh_dims shape)) chunk_dims = Inr cdims
        \<and> index_of index_type = Inr ix
        \<and> chunk_records root_ceil file_data
            \<lparr>q_index = ix, q_index_address = data_address, q_real_chunk_dims = cdims, q_dataset_dims = sh_dims shape,
             q_max_dims = sh_max_dims shape, q_elem_size = es, q_single_chunk = single_chunk\<rparr> cache = (Inr recs, cache'))
     \<and> shape_ok (sh_dims shape) cdims es
     \<and> (\<forall>r\<in>set recs. record_ok (undo_filters c pipeline cdims es) file_data cdims es r)"

lemma with_chunk_records_source:
  assumes "chunked_source c root_ceil file_data layout pipeline shape es cache cdims recs cache'" and "check cdims = Inr cdims"
  shows "with_chunk_records root_ceil file_data layout shape es cache check body = (body cdims recs, cache')"
  using assms by (auto simp: chunked_source_def with_chunk_records_def)

lemma chunked_sourceD:
  assumes "chunked_source c root_ceil file_data layout pipeline shape es cache cdims recs cache'"
  shows "shape_ok (sh_dims shape) cdims es"
    and "\<forall>r\<in>set recs. record_ok (undo_filters c pipeline cdims es) file_data cdims es r"
    and "\<exists>a n cd t sc. layout = Chunked a n cd t sc"
  using assms by (auto simp: chunked_source_def)

lemma read_whole:
  assumes "chunked_source c root_ceil file_data layout pipeline shape es cache cdims recs cache'"
  shows "\<exists>whole. read_chunked c root_ceil file_data layout pipeline shape es fill cache = (Inr whole, cache')
    \<and> length whole = prod_list (sh_dims shape) * es
    \<and> (\<forall>g. inside g (sh_dims shape) \<longrightarrow> elem es whole (flat_of (sh_dims shape) g)
          = stored_elem (decoded (undo_filters c pipeline cdims es) file_data) recs cdims es fill g)"
  using assemble_with_fill_ok[OF chunked_sourceD(1,2)[OF assms], of fill] with_chunk_records_source[OF assms]
  by (auto simp: read_chunked_def)

text \<open>Three bytes in two chunks of two, stored one after the other from offset 1 (implicit index).\<close>

definition tiny_codecs :: codecs where
  "tiny_codecs = \<lparr>zlib_decompress = Some, zlib_compress = (\<lambda>b l. Some b), szip_decoder = None\<rparr>"

definition tiny_chunked :: layout_info where
  "tiny_chunked = Chunked 1 2 [2, 1] 5 None"

definition tiny_shape :: dataset_shape where
  "tiny_shape = \<lparr>sh_dims = [3], sh_max_dims = None\<rparr>"

definition tiny_recs :: "chunk_record list" where
  "tiny_recs = [\<lparr>rec_address = 1, rec_size = 2, rec_filter_mask = 0, rec_offsets = [0]\<rparr>,
     \<lparr>rec_address = 3, rec_size = 2, rec_filter_mask = 0, rec_offsets = [2]\<rparr>]"

lemma tiny_source:
  "chunked_source tiny_codecs (\<lambda>n k. n) [0, 10, 11, 12, 13] tiny_chunked \<lparr>pipeline_filters = []\<rparr> tiny_shape 1 None [2] tiny_recs None"
proof -
  have "implicit_records \<lparr>q_index = Implicit, q_index_address = 1, q_real_chunk_dims = [2], q_dataset_dims = [3],
      q_max_dims = None, q_elem_size = 1, q_single_chunk = None\<rparr> = Inr tiny_recs"
    by (simp add: implicit_records_def chunk_counts_def chunk_byte_size_def checked_volume_def u32_try_from_def div_ceil_def
        tiny_recs_def upt_rec saturating_mul_def Let_def)
  then have "chunk_records (\<lambda>n k. n) [0, 10, 11, 12, 13] \<lparr>q_index = Implicit, q_index_address = 1, q_real_chunk_dims = [2],
      q_dataset_dims = [3], q_max_dims = None, q_elem_size = 1, q_single_chunk = None\<rparr> None = (Inr tiny_recs, None)"
    by (simp add: chunk_records_def compute_records_def)
  then show ?thesis
    by (simp add: chunked_source_def tiny_chunked_def tiny_shape_def strip_chunk_dims_def index_of_def shape_ok_def)
      (simp add: tiny_recs_def record_ok_def decoded_def decode_record_def read_chunk_bytes_def undo_filters_def get_range_def)
qed

text \<open>Two buffers over the same region are equal when all their elements are.\<close>

lemma region_buffer_eq:
  assumes "length a = prod_list ds * es" "length b = prod_list ds * es"
    and "\<And>js. inside js ds \<Longrightarrow> elem es a (flat_of ds js) = elem es b (flat_of ds js)"
  shows "a = b"
proof (rule elem_eqI[OF assms(1,2)])
  fix i assume i: "i < prod_list ds"
  show "elem es a i = elem es b i" using assms(3)[OF coords_of_inside[OF i]] by (simp only: flat_coords[OF i])
qed

text \<open>What a filled region and a gathered region have in common.\<close>

lemma gather_is_region:
  assumes src: "chunked_source c root_ceil file_data layout pipeline shape es cache cdims recs cache'"
    and r: "region_ok h (sh_dims shape)"
    and whole: "length whole = prod_list (sh_dims shape) * es"
      "\<forall>g. inside g (sh_dims shape) \<longrightarrow> elem es whole (flat_of (sh_dims shape) g)
          = stored_elem (decoded (undo_filters c pipeline cdims es) file_data) recs cdims es fill g"
    and part: "length part = prod_list (extents h) * es"
      "\<forall>js. inside js (extents h) \<longrightarrow> elem es part (flat_of (extents h) js)
          = stored_elem (decoded (undo_filters c pipeline cdims es) file_data) recs cdims es fill (map2 nth_selected h js)"
  shows "gather_hyperslab_contiguous whole (sh_dims shape) h es = Inr part"
proof -
  note sh = chunked_sourceD(1)[OF src]
  obtain p where p: "gather_hyperslab_contiguous whole (sh_dims shape) h es = Inr p" "length p = prod_list (extents h) * es"
      "\<forall>js. inside js (extents h) \<longrightarrow> elem es p (flat_of (extents h) js) = elem es whole (flat_of (sh_dims shape) (map2 nth_selected h js))"
    using gather_ok[OF r sh whole(1)] by blast
  have "p = part"
  proof (rule region_buffer_eq[OF p(2) part(1)])
    fix js assume js: "inside js (extents h)"
    have "inside (map2 nth_selected h js) (sh_dims shape)"
      using nth_selected_less[OF r js] region_okD(1)[OF r sh] list_all2_lengthD[OF js] by (intro list_all2_all_nthI) simp_all
    then show "elem es p (flat_of (extents h) js) = elem es part (flat_of (extents h) js)"
      using p(3) whole(2) part(2) js by simp
  qed
  with p(1) show ?thesis by simp
qed

text \<open>
  C20. Reading a chunked dataset: for a layout whose index resolves to well-formed records, the
  result has the volume of the dataset and holds at every coordinate the element of the decoded
  chunk whose grid cell contains the coordinate, the last such record if several claim the cell,
  and the fill value where no chunk is stored; the edge chunks' padding never shows.
\<close>

theorem read_chunked_correct:
  assumes "chunked_source c root_ceil file_data layout pipeline shape es cache cdims recs cache'"
  shows "\<exists>whole. read_chunked c root_ceil file_data layout pipeline shape es fill cache = (Inr whole, cache')
    \<and> length whole = prod_list (sh_dims shape) * es
    \<and> (\<forall>g. inside g (sh_dims shape) \<longrightarrow> elem es whole (flat_of (sh_dims shape) g)
          = (case chunk_at recs (cell_of cdims g) of
               Some r \<Rightarrow> elem es (decoded (undo_filters c pipeline cdims es) file_data r) (flat_of cdims (in_cell cdims g))
             | None \<Rightarrow> fill_elem fill es))"
  using read_whole[OF assms, of fill] by (simp add: stored_elem_def)

theorem read_chunked_correct_witness:
  "\<exists>whole. read_chunked tiny_codecs (\<lambda>n k. n) [0, 10, 11, 12, 13] tiny_chunked \<lparr>pipeline_filters = []\<rparr> tiny_shape 1 None None = (Inr whole, None)
    \<and> length whole = 3 \<and> elem 1 whole 2 = [12]"
proof -
  obtain whole where w: "read_chunked tiny_codecs (\<lambda>n k. n) [0, 10, 11, 12, 13] tiny_chunked \<lparr>pipeline_filters = []\<rparr> tiny_shape 1 None None = (Inr whole, None)"
      "length whole = prod_list (sh_dims tiny_shape) * 1"
      "\<forall>g. inside g (sh_dims tiny_shape) \<longrightarrow> elem 1 whole (flat_of (sh_dims tiny_shape) g)
          = (case chunk_at tiny_recs (cell_of [2] g) of
               Some r \<Rightarrow> elem 1 (decoded (undo_filters tiny_codecs \<lparr>pipeline_filters = []\<rparr> [2] 1) [0, 10, 11, 12, 13] r) (flat_of [2] (in_cell [2] g))
             | None \<Rightarrow> fill_elem None 1)"
    using read_chunked_correct[OF tiny_source, of None] by blast
  have "elem 1 whole 2 = [12]"
    using w(3)[rule_format, of "[2]"]
    by (simp add: tiny_shape_def tiny_recs_def chunk_at_def decoded_def decode_record_def read_chunk_bytes_def undo_filters_def
        get_range_def elem_def)
  with w(1,2) show ?thesis by (simp add: tiny_shape_def)
qed

text \<open>
  C21. The hyperslab reader, which decodes only the chunks its bounding box meets and scatters
  them one by one, returns exactly what \<open>gather_hyperslab_contiguous\<close> takes out of the whole
  dataset, for every selection inside the dataset whose blocks do not overlap.
\<close>

theorem hyperslab_is_gather_of_whole:
  assumes "chunked_source c root_ceil file_data layout pipeline shape es cache cdims recs cache'"
    and "region_ok h (sh_dims shape)"
  shows "\<exists>whole part. read_chunked c root_ceil file_data layout pipeline shape es fill cache = (Inr whole, cache')
    \<and> read_chunked_hyperslab c root_ceil file_data layout pipeline shape es fill h cache = (Inr part, cache')
    \<and> gather_hyperslab_contiguous whole (sh_dims shape) h es = Inr part"
proof -
  note D = chunked_sourceD[OF assms(1)]
  note s = shape_okD[OF D(1)] and d = region_okD[OF assms(2) D(1)] and k = region_checks[OF assms(2) D(1)]
  obtain whole where w: "read_chunked c root_ceil file_data layout pipeline shape es fill cache = (Inr whole, cache')"
      "length whole = prod_list (sh_dims shape) * es"
      "\<forall>g. inside g (sh_dims shape) \<longrightarrow> elem es whole (flat_of (sh_dims shape) g)
          = stored_elem (decoded (undo_filters c pipeline cdims es) file_data) recs cdims es fill g"
    using read_whole[OF assms(1), of fill] by blast
  obtain part where p: "for_cells (\<lambda>r. Inr (snd r - 1)) (bbox_of h) cdims (length (sh_dims shape))
        (fill_cell (undo_filters c pipeline cdims es) file_data recs cdims es fill h) (replicate (prod_list (extents h) * es) 0) = Inr part"
      "length part = prod_list (extents h) * es"
      "\<forall>js. inside js (extents h) \<longrightarrow> elem es part (flat_of (extents h) js)
          = stored_elem (decoded (undo_filters c pipeline cdims es) file_data) recs cdims es fill (map2 nth_selected h js)"
    using fill_region[OF D(1,2) assms(2), of "\<lambda>r. Inr (snd r - 1)" "replicate (prod_list (extents h) * es) 0" fill] by auto
  have "hyperslab_chunks c file_data pipeline recs cdims (sh_dims shape) (bbox_of h) h (extents h) (prod_list (extents h)) es fill = Inr part"
    using p(1) k s(3,8) unfolding fill_cell_def d(1) by (simp add: hyperslab_chunks_def product_u64_eq Let_def)
  moreover have "nonzero_dims cdims = Inr cdims" using s(3) by (simp add: nonzero_dims_def)
  ultimately have "read_chunked_hyperslab c root_ceil file_data layout pipeline shape es fill h cache = (Inr part, cache')"
    using D(3) k d(1) with_chunk_records_source[OF assms(1), of nonzero_dims]
    by (auto simp: read_chunked_hyperslab_def Let_def)
  with w(1) gather_is_region[OF assms w(2,3) p(2,3)] show ?thesis by blast
qed

theorem hyperslab_is_gather_of_whole_witness:
  "\<exists>whole part. read_chunked tiny_codecs (\<lambda>n k. n) [0, 10, 11, 12, 13] tiny_chunked \<lparr>pipeline_filters = []\<rparr> tiny_shape 1 None None = (Inr whole, None)
    \<and> read_chunked_hyperslab tiny_codecs (\<lambda>n k. n) [0, 10, 11, 12, 13] tiny_chunked \<lparr>pipeline_filters = []\<rparr> tiny_shape 1 None
        [\<lparr>sel_start = 0, sel_stride = 2, sel_count = 2, sel_block = 1\<rparr>] None = (Inr part, None)
    \<and> gather_hyperslab_contiguous whole [3] [\<lparr>sel_start = 0, sel_stride = 2, sel_count = 2, sel_block = 1\<rparr>] 1 = Inr part"
  using hyperslab_is_gather_of_whole[OF tiny_source, of "[\<lparr>sel_start = 0, sel_stride = 2, sel_count = 2, sel_block = 1\<rparr>]" None]
  by (simp add: region_ok_def tiny_shape_def disjoint_blocks_def sel_end_def)

text \<open>
  C22. A slice of a chunked dataset, one nonempty range per dimension, is the same ranges cut out
  of the whole dataset: the element at offset \<open>js\<close> of the slice is the element of the dataset at
  the starts of the ranges plus \<open>js\<close>.
\<close>

theorem slice_is_cut_of_whole:
  assumes "chunked_source c root_ceil file_data layout pipeline shape es cache cdims recs cache'"
    and "ranges_ok ranges (sh_dims shape)"
  shows "\<exists>whole part. read_chunked c root_ceil file_data layout pipeline shape es fill cache = (Inr whole, cache')
    \<and> read_chunked_slice c root_ceil file_data layout pipeline shape es fill ranges cache = (Inr part, cache')
    \<and> length part = prod_list (map (\<lambda>r. snd r - fst r) ranges) * es
    \<and> (\<forall>js. inside js (map (\<lambda>r. snd r - fst r) ranges) \<longrightarrow>
          elem es part (flat_of (map (\<lambda>r. snd r - fst r) ranges) js)
            = elem es whole (flat_of (sh_dims shape) (map2 (\<lambda>r j. fst r + j) ranges js)))"
proof -
  note D = chunked_sourceD[OF assms(1)]
  let ?h = "slab_of ranges" and ?app = "undo_filters c pipeline cdims es" and ?dims = "sh_dims shape"
  note r = slab_ok[OF assms(2)]
  note s = shape_okD[OF D(1)] and d = region_okD[OF r(1) D(1)] and k = region_checks[OF r(1) D(1)]
  have lr: "length ranges = length ?dims" using d(1) by (simp add: slab_simps)
  have rd: "fst (ranges ! i) < snd (ranges ! i)" "snd (ranges ! i) \<le> ?dims ! i" if "i < length ?dims" for i
    using list_all2_nthD2[OF assms(2)[unfolded ranges_ok_def] that] by simp_all
  obtain whole where w: "read_chunked c root_ceil file_data layout pipeline shape es fill cache = (Inr whole, cache')"
      "length whole = prod_list ?dims * es"
      "\<forall>g. inside g ?dims \<longrightarrow> elem es whole (flat_of ?dims g) = stored_elem (decoded ?app file_data) recs cdims es fill g"
    using read_whole[OF assms(1), of fill] by blast
  obtain part where p: "for_cells (\<lambda>r. usub (snd r) 1) ranges cdims (length ?dims)
        (fill_cell ?app file_data recs cdims es fill ?h) (replicate (prod_list (extents ?h) * es) 0) = Inr part"
      "length part = prod_list (extents ?h) * es"
      "\<forall>js. inside js (extents ?h) \<longrightarrow> elem es part (flat_of (extents ?h) js)
          = stored_elem (decoded ?app file_data) recs cdims es fill (map2 nth_selected ?h js)"
  proof -
    have "usub (snd q) 1 = Inr (snd q - 1)" if q: "q \<in> set (bbox_of ?h)" for q
    proof -
      obtain i where "i < length ?dims" "q = ranges ! i" using q lr by (metis in_set_conv_nth r(2))
      then show ?thesis using rd(1)[of i] by (simp add: Suc_leI order.strict_trans1)
    qed
    from fill_region[OF D(1,2) r(1) this, of "replicate (prod_list (extents ?h) * es) 0" fill] show ?thesis
      using that by (auto simp: r(2))
  qed
  let ?body = "\<lambda>origin out. and_then (overlap ranges origin cdims) (\<lambda>(lo, hi).
      if \<exists>d\<in>set [0..<length ?dims]. lo ! d \<ge> hi ! d then Inr out
      else and_then (chunk_or_fill ?app file_data recs (chunk_map (length ?dims) recs origin) (prod_list cdims) fill es) (\<lambda>data.
        slice_elements out data origin ranges lo hi (strides_of cdims) (strides_of (extents ?h)) (length ?dims) es))"
  have cells: "for_cells (\<lambda>r. usub (snd r) 1) ranges cdims (length ?dims) ?body (replicate (prod_list (extents ?h) * es) 0) = Inr part"
    using p(1) slice_cells[OF D(1,2) assms(2)] by simp
  have "sub_all (map snd ranges) (map fst ranges) = Inr (extents ?h)"
    using rd(1) lr by (subst sub_all_eq) (auto simp: list_all2_conv_all_nth slab_simps less_imp_le intro: nth_equalityI)
  then have "assemble_chunks_slice ?app recs file_data cdims ?dims ranges es fill = Inr part"
    using cells k s(3,8) by (simp add: assemble_chunks_slice_def product_u64_eq row_major_strides_eq Let_def)
  moreover have "slice_out_dims ranges ?dims = Inr (extents ?h)"
    using slice_out_dims_eq[OF assms(2)] .
  moreover have "0 \<notin> set (extents ?h)" using sel_extent_pos[OF d(2)] .
  ultimately have "read_chunked_slice c root_ceil file_data layout pipeline shape es fill ranges cache = (Inr part, cache')"
    using D(3) with_chunk_records_source[OF assms(1), of Inr] by (auto simp: read_chunked_slice_def)
  moreover have "elem es part (flat_of (extents ?h) js) = elem es whole (flat_of ?dims (map2 (\<lambda>r j. fst r + j) ranges js))"
    if js: "inside js (extents ?h)" for js
  proof -
    have lj: "length js = length ranges" using list_all2_lengthD[OF js] by (simp add: slab_simps)
    have "inside (map2 nth_selected ?h js) ?dims"
      using nth_selected_less[OF r(1) js] d(1) lj lr by (intro list_all2_all_nthI) (simp_all add: slab_simps)
    with p(3) w(3) js show ?thesis by (simp add: slab_nth[OF lj])
  qed
  ultimately show ?thesis using w(1) p(2) unfolding slab_simps(2) by blast
qed

theorem slice_is_cut_of_whole_witness:
  "\<exists>whole part. read_chunked tiny_codecs (\<lambda>n k. n) [0, 10, 11, 12, 13] tiny_chunked \<lparr>pipeline_filters = []\<rparr> tiny_shape 1 None None = (Inr whole, None)
    \<and> read_chunked_slice tiny_codecs (\<lambda>n k. n) [0, 10, 11, 12, 13] tiny_chunked \<lparr>pipeline_filters = []\<rparr> tiny_shape 1 None [(1, 3)] None = (Inr part, None)
    \<and> length part = 2 \<and> elem 1 part 1 = elem 1 whole 2"
proof -
  have "ranges_ok [(1, 3)] (sh_dims tiny_shape)" by (simp add: ranges_ok_def tiny_shape_def)
  from slice_is_cut_of_whole[OF tiny_source this, of None]
  obtain whole part where w: "read_chunked tiny_codecs (\<lambda>n k. n) [0, 10, 11, 12, 13] tiny_chunked \<lparr>pipeline_filters = []\<rparr> tiny_shape 1 None None = (Inr whole, None)"
      "read_chunked_slice tiny_codecs (\<lambda>n k. n) [0, 10, 11, 12, 13] tiny_chunked \<lparr>pipeline_filters = []\<rparr> tiny_shape 1 None [(1, 3)] None = (Inr part, None)"
      "length part = 2"
      "\<forall>js. inside js [2] \<longrightarrow> elem 1 part (flat_of [2] js) = elem 1 whole (flat_of (sh_dims tiny_shape) (map2 (\<lambda>r j. fst r + j) [(1 :: nat, 3 :: nat)] js))"
    by auto
  with w(4)[rule_format, of "[1]"] show ?thesis by (auto simp: tiny_shape_def numeral_2_eq_2)
qed

section \<open>The parallel build\<close>

text \<open>
  C23. The \<^verbatim>\<open>parallel\<close> feature, which decodes every chunk before it scatters the first one,
  returns the bytes of the sequential build on every well-formed chunked dataset.
\<close>

theorem parallel_read_agrees:
  assumes "chunked_source c root_ceil file_data layout pipeline shape es cache cdims recs cache'"
  shows "\<exists>whole. read_chunked c root_ceil file_data layout pipeline shape es fill cache = (Inr whole, cache')
    \<and> parallel_read c file_data pipeline recs cdims (sh_dims shape) es fill = Inr whole"
proof -
  note D = chunked_sourceD[OF assms]
  note s = shape_okD[OF D(1)]
  let ?app = "undo_filters c pipeline cdims es" and ?dims = "sh_dims shape"
  obtain whole where w: "read_chunked c root_ceil file_data layout pipeline shape es fill cache = (Inr whole, cache')"
    using read_whole[OF assms, of fill] by blast
  then have a: "assemble_chunks_with_fill ?app recs file_data cdims ?dims es fill = Inr whole"
    using with_chunk_records_source[OF assms, of Inr] by (simp add: read_chunked_def)
  obtain b where b: "fill_buffer fill es (prod_list ?dims) = Inr b"
    using fill_buffer_eq[OF s(4,5), of fill] by blast
  have f: "fold_res (\<lambda>r out. scatter_chunk out (rec_offsets r) (decoded ?app file_data r) cdims ?dims es) recs b = Inr whole"
    using a b s by (simp add: assemble_chunks_with_fill_def assemble_loop_eq[OF D(1,2)] product_u64_eq)
  have vol: "umul (prod_list cdims) es = Inr (prod_list cdims * es)" using s(6) by simp
  have "map_res (\<lambda>r. and_then (read_chunk_bytes file_data r) (\<lambda>raw.
         and_then (product_u64 cdims) (\<lambda>v. and_then (umul v es) (\<lambda>n.
         and_then (apply_filters_to_chunk c raw (rec_filter_mask r) (Some pipeline) es (Some n)) (\<lambda>data.
           Inr (rec_offsets r, data)))))) recs
    = Inr (map (\<lambda>r. (rec_offsets r, decoded ?app file_data r)) recs)"
  proof (rule map_res_total)
    fix r assume "r \<in> set recs"
    then have d: "decode_record ?app file_data r = Inr (decoded ?app file_data r)" using D(2) by (simp add: record_ok_def)
    then obtain raw where raw: "read_chunk_bytes file_data r = Inr raw" "?app raw (rec_filter_mask r) = Inr (decoded ?app file_data r)"
      by (auto simp: decode_record_def)
    have "apply_filters_to_chunk c raw (rec_filter_mask r) (Some pipeline) es (Some (prod_list cdims * es)) = Inr (decoded ?app file_data r)"
      using raw(2) s(3,8) vol by (auto simp: apply_filters_to_chunk_def undo_filters_def product_u64_eq split: if_splits)
    with raw(1) show "and_then (read_chunk_bytes file_data r) (\<lambda>raw.
         and_then (product_u64 cdims) (\<lambda>v. and_then (umul v es) (\<lambda>n.
         and_then (apply_filters_to_chunk c raw (rec_filter_mask r) (Some pipeline) es (Some n)) (\<lambda>data.
           Inr (rec_offsets r, data))))) = Inr (rec_offsets r, decoded ?app file_data r)"
      by (simp only: and_then_simps product_u64_eq[OF s(3,8)] vol)
  qed
  then have "parallel_read c file_data pipeline recs cdims ?dims es fill = Inr whole"
    using f b s(2,7) by (simp add: parallel_read_def product_u64_eq fold_res_map)
  with w show ?thesis by blast
qed

theorem parallel_read_agrees_witness:
  "\<exists>whole. read_chunked tiny_codecs (\<lambda>n k. n) [0, 10, 11, 12, 13] tiny_chunked \<lparr>pipeline_filters = []\<rparr> tiny_shape 1 None None = (Inr whole, None)
    \<and> parallel_read tiny_codecs [0, 10, 11, 12, 13] \<lparr>pipeline_filters = []\<rparr> tiny_recs [2] [3] 1 None = Inr whole"
  using parallel_read_agrees[OF tiny_source, of None] by (simp add: tiny_shape_def)

end
