(* ===== verification/Outcome.thy ===== *)
theory Outcome
  imports Byte_Fields
begin

text \<open>
  A weakest-precondition reading of fallible computations. \<open>yields P r\<close> says that \<open>r\<close> does
  not panic and that a result satisfies \<open>P\<close>; the rules of the collection \<open>yields\<close> push it
  through \<open>and_then\<close>, the checked operations and the readers, so that one simplification
  turns the body of a parser into its verification condition.
\<close>

named_theorems yields \<open>verification conditions of fallible operations\<close>

definition yields :: "('a \<Rightarrow> bool) \<Rightarrow> 'a res \<Rightarrow> bool" where
  "yields P r = (case r of Inl e \<Rightarrow> e \<noteq> Panic | Inr x \<Rightarrow> P x)"

lemma yields_values [yields]:
  "yields P (Inl e) \<longleftrightarrow> e \<noteq> Panic"
  "yields P (Inr x) \<longleftrightarrow> P x"
  by (simp_all add: yields_def)

lemma yields_and_then [yields]: "yields P (and_then m f) \<longleftrightarrow> yields (\<lambda>x. yields P (f x)) m"
  by (cases m) (simp_all add: yields_def)

lemma yields_if [yields]: "yields P (if b then m else n) \<longleftrightarrow> (b \<longrightarrow> yields P m) \<and> (\<not> b \<longrightarrow> yields P n)"
  by simp

lemma yields_case_prod [yields]: "yields P (case p of (a, b) \<Rightarrow> f a b) \<longleftrightarrow> (\<forall>a b. p = (a, b) \<longrightarrow> yields P (f a b))"
  by (cases p) simp

lemma yields_ok_or [yields]: "yields P (ok_or x e) \<longleftrightarrow> (case x of None \<Rightarrow> e \<noteq> Panic | Some v \<Rightarrow> P v)"
  by (cases x) (simp_all add: yields)

lemma yields_arith [yields]:
  "yields P (uadd a b) \<longleftrightarrow> a + b < u64_lim \<and> P (a + b)"
  "yields P (umul a b) \<longleftrightarrow> a * b < u64_lim \<and> P (a * b)"
  "yields P (usub a b) \<longleftrightarrow> b \<le> a \<and> P (a - b)"
  by (auto simp: yields_def uadd_def umul_def usub_def)

lemma yields_access [yields]:
  "yields P (index d i) \<longleftrightarrow> i < length d \<and> P (d ! i)"
  "yields Q (slice d a b) \<longleftrightarrow> a \<le> b \<and> b \<le> length d \<and> Q (take (b - a) (drop a d))"
  by (auto simp: yields_def index_def slice_def get_elem_def get_range_def)

lemma yields_readers [yields]:
  "yields P (read_u16_le d i) \<longleftrightarrow> i + 2 < u64_lim \<and> (i + 2 \<le> length d \<longrightarrow> P (field 2 d i))"
  "yields P (read_u32_le d i) \<longleftrightarrow> i + 4 < u64_lim \<and> (i + 4 \<le> length d \<longrightarrow> P (field 4 d i))"
  "yields P (read_u64_le d i) \<longleftrightarrow> i + 8 < u64_lim \<and> (i + 8 \<le> length d \<longrightarrow> P (field 8 d i))"
  by (auto simp: yields_def read_u16_le_eq read_u32_le_eq read_u64_le_eq)

lemma yieldsI: "no_panic r \<Longrightarrow> (\<And>x. r = Inr x \<Longrightarrow> P x) \<Longrightarrow> yields P r"
  by (cases r) (simp_all add: yields_def)

lemma yields_no_panic: "yields P r \<Longrightarrow> no_panic r"
  by (cases r) (simp_all add: yields_def)

lemma yieldsD: "yields P r \<Longrightarrow> r = Inr x \<Longrightarrow> P x"
  by (simp add: yields_def)

lemma no_panic_yields: "no_panic r \<longleftrightarrow> yields (\<lambda>_. True) r"
  by (cases r) (simp_all add: yields_def)

lemma yields_mono: "yields P r \<Longrightarrow> (\<And>x. r = Inr x \<Longrightarrow> P x \<Longrightarrow> Q x) \<Longrightarrow> yields Q r"
  by (cases r) (simp_all add: yields_def)

text \<open>Loops keep an invariant.\<close>

lemma yields_fold_res:
  assumes "I s" and "\<And>x s. x \<in> set xs \<Longrightarrow> I s \<Longrightarrow> yields I (f x s)" and "\<And>s. I s \<Longrightarrow> P s"
  shows "yields P (fold_res f xs s)"
proof -
  have "no_panic (fold_res f xs s)"
    by (rule fold_res_no_panic[where P = I]) (use assms in \<open>auto intro: yields_no_panic dest: yieldsD\<close>)
  moreover have "I t" if t: "fold_res f xs s = Inr t" for t
    by (rule fold_res_inv[OF t, where P = I]) (use assms in \<open>auto dest: yieldsD\<close>)
  ultimately show ?thesis using assms(3) by (intro yieldsI) auto
qed

lemma yields_map_res:
  "(\<And>x. x \<in> set xs \<Longrightarrow> yields Q (f x)) \<Longrightarrow> (\<And>ys. length ys = length xs \<Longrightarrow> \<forall>y\<in>set ys. Q y \<Longrightarrow> P ys) \<Longrightarrow> yields P (map_res f xs)"
proof (induction xs arbitrary: P)
  case (Cons x xs)
  have "yields (\<lambda>y. Q y) (f x)" using Cons.prems(1) by simp
  moreover have "yields (\<lambda>ys. P (y # ys)) (map_res f xs)" if "Q y" for y
    by (rule Cons.IH) (use Cons.prems that in auto)
  ultimately show ?case by (auto simp: yields intro: yields_mono)
qed (simp add: yields)

end
