(* ===== verification/Datatype.thy ===== *)
theory Datatype
  imports Outcome
begin

text \<open>
  Datatypes: the enum \<^verbatim>\<open>Dtype\<close> of \<^verbatim>\<open>oxih5-core/src/lib.rs\<close> with its element size, and
  the datatype message parser \<^verbatim>\<open>oxih5-format/src/datatype.rs\<close>. The parser recurses into the
  base types of compounds, enums, sequences and arrays, at most 33 levels deep; every helper
  that does so takes the recursive call as an argument.
\<close>

section \<open>The data model\<close>

datatype byte_order = Little | Big

datatype charset = Ascii | Utf8

datatype ref_type = Object | Region

datatype dtype =
    Int_t nat bool byte_order
  | Float nat byte_order
  | String "nat option" charset
  | Compound "compound_field list"
  | Array dtype "nat list"
  | Enum dtype "(str \<times> int) list"
  | Opaque nat str
  | Reference ref_type
  | VarLen dtype
  | Bitfield nat byte_order
and compound_field = CompoundField (cf_name: str) (cf_offset: nat) (cf_dtype: dtype)

datatype dataspace =
    Simple "nat list" "nat list option"
  | Null
  | Scalar

record attribute =
  attr_name :: str
  attr_dtype :: dtype
  attr_dataspace :: dataspace
  attr_data :: bytes

text \<open>
  \<^verbatim>\<open>Dtype::size\<close>. The products and sums are unchecked, so they panic on overflow; a compound
  stops at the first member without a size.
\<close>

definition product_usize :: "nat list \<Rightarrow> nat res" where
  "product_usize xs = fold_res (\<lambda>d acc. umul acc d) xs 1"

fun dtype_size :: "dtype \<Rightarrow> nat option res"
  and fields_size :: "compound_field list \<Rightarrow> nat \<Rightarrow> nat option res" where
  "dtype_size (Int_t sz _ _) = Inr (Some sz)"
| "dtype_size (Float sz _) = Inr (Some sz)"
| "dtype_size (Bitfield sz _) = Inr (Some sz)"
| "dtype_size (Opaque sz _) = Inr (Some sz)"
| "dtype_size (String fixed_len _) = Inr fixed_len"
| "dtype_size (Reference rt) = Inr (Some (case rt of Object \<Rightarrow> 8 | Region \<Rightarrow> 12))"
| "dtype_size (Enum base _) = dtype_size base"
| "dtype_size (Array base dims) =
     and_then (product_usize dims) (\<lambda>elems.
     and_then (dtype_size base) (\<lambda>s.
       case s of None \<Rightarrow> Inr None | Some s \<Rightarrow> and_then (umul s elems) (\<lambda>n. Inr (Some n))))"
| "dtype_size (Compound fds) = fields_size fds 0"
| "dtype_size (VarLen _) = Inr None"
| "fields_size [] acc = Inr (Some acc)"
| "fields_size (CompoundField nm off dt # fs) acc =
     and_then (dtype_size dt) (\<lambda>s.
       case s of
         None \<Rightarrow> Inr None
       | Some s \<Rightarrow> and_then (uadd off s) (\<lambda>e. fields_size fs (max acc e)))"

section \<open>Helpers of the parser\<close>

definition dt_read_u32_le :: "bytes \<Rightarrow> nat \<Rightarrow> nat res" where
  "dt_read_u32_le data offset =
     and_then (uadd offset 4) (\<lambda>e.
       if e > length data then Inl Format
       else
         and_then (index data offset) (\<lambda>b0.
         and_then (index data (offset + 1)) (\<lambda>b1.
         and_then (index data (offset + 2)) (\<lambda>b2.
         and_then (index data (offset + 3)) (\<lambda>b3.
           Inr (from_le [b0, b1, b2, b3]))))))"

text \<open>\<^verbatim>\<open>str::from_utf8(..).unwrap_or("")\<close>\<close>

definition utf8_or_empty :: "bytes \<Rightarrow> str" where
  "utf8_or_empty bs = (if valid_utf8 bs then bs else [])"

text \<open>The name and the bytes it takes; up to version 1 it is padded to a multiple of eight.\<close>

definition read_nul_string_padded :: "bytes \<Rightarrow> nat \<Rightarrow> nat \<Rightarrow> (str \<times> nat) res" where
  "read_nul_string_padded body pos version =
     (if pos \<ge> length body then Inl Format
      else
        let tail = drop pos body in
        and_then (ok_or (position (\<lambda>b. b = 0) tail) Format) (\<lambda>nul_pos.
          let name = utf8_or_empty (take nul_pos tail);
              raw_len = nul_pos + 1 in
          Inr (name, if version \<le> 1 then align8 raw_len else raw_len)))"

definition read_int_as_i64 :: "bytes \<Rightarrow> int res" where
  "read_int_as_i64 bs =
     (if length bs = 1 then Inr (sint (word_of_nat (from_le bs) :: 8 word))
      else if length bs = 2 then Inr (sint (word_of_nat (from_le bs) :: 16 word))
      else if length bs = 4 then Inr (sint (word_of_nat (from_le bs) :: 32 word))
      else if length bs = 8 then Inr (sint (word_of_nat (from_le bs) :: 64 word))
      else Inl Format)"

definition order_of :: "byte \<Rightarrow> byte_order" where
  "order_of bit_fields = (if and bit_fields 0x01 \<noteq> 0 then Big else Little)"

text \<open>The number of members, a 24-bit little-endian field.\<close>

definition member_count :: "bytes \<Rightarrow> nat res" where
  "member_count body =
     and_then (index body 1) (\<lambda>b1.
     and_then (index body 2) (\<lambda>b2.
     and_then (index body 3) (\<lambda>b3.
       Inr (from_le [b1, b2, b3]))))"

section \<open>Types built from others\<close>

type_synonym dtype_parser = "bytes \<Rightarrow> (dtype \<times> nat) res"

definition compound_member ::
  "dtype_parser \<Rightarrow> bytes \<Rightarrow> nat \<Rightarrow> nat \<times> compound_field list \<Rightarrow> (nat \<times> compound_field list) res" where
  "compound_member rec body version = (\<lambda>(pos, fields).
     and_then (read_nul_string_padded body pos version) (\<lambda>(name, name_consumed).
     and_then (uadd pos name_consumed) (\<lambda>pos.
     and_then (uadd pos 4) (\<lambda>e.
       if e > length body then Inl Format
       else
         and_then (dt_read_u32_le body pos) (\<lambda>member_offset.
         and_then (uadd pos 4) (\<lambda>pos.
         and_then
           (if version = 1 then
              and_then (uadd pos 28) (\<lambda>e. if e > length body then Inl Format else Inr e)
            else Inr pos) (\<lambda>pos.
           if pos \<ge> length body then Inl Format
           else
             and_then (rec (drop pos body)) (\<lambda>(member_dtype, type_consumed).
             and_then (uadd pos type_consumed) (\<lambda>pos.
               Inr (pos, fields @ [CompoundField name member_offset member_dtype]))))))))))"

definition parse_compound :: "dtype_parser \<Rightarrow> bytes \<Rightarrow> nat \<Rightarrow> (dtype \<times> nat) res" where
  "parse_compound rec body version =
     and_then (member_count body) (\<lambda>nmembers.
     and_then (fold_res (\<lambda>_. compound_member rec body version) [0..<nmembers] (8, [])) (\<lambda>(pos, fields).
       Inr (Compound fields, pos)))"

definition enum_name :: "bytes \<Rightarrow> nat \<Rightarrow> nat \<times> str list \<Rightarrow> (nat \<times> str list) res" where
  "enum_name body version = (\<lambda>(pos, names).
     and_then (read_nul_string_padded body pos version) (\<lambda>(name, consumed).
     and_then (uadd pos consumed) (\<lambda>pos. Inr (pos, names @ [name]))))"

definition enum_value ::
  "bytes \<Rightarrow> nat \<Rightarrow> str \<Rightarrow> nat \<times> (str \<times> int) list \<Rightarrow> (nat \<times> (str \<times> int) list) res" where
  "enum_value body base_size name = (\<lambda>(pos, members).
     and_then (uadd pos base_size) (\<lambda>e.
       if e > length body then Inl Format
       else
         and_then (slice body pos e) (\<lambda>bs.
         and_then (read_int_as_i64 bs) (\<lambda>v.
           Inr (e, members @ [(name, v)])))))"

definition parse_enum :: "dtype_parser \<Rightarrow> bytes \<Rightarrow> nat \<Rightarrow> nat \<Rightarrow> (dtype \<times> nat) res" where
  "parse_enum rec body version base_size =
     and_then (member_count body) (\<lambda>nmembers.
       if length body < 9 then Inl Format
       else
         and_then (rec (drop 8 body)) (\<lambda>(base_dtype, base_consumed).
         and_then (uadd 8 base_consumed) (\<lambda>pos.
         and_then (fold_res (\<lambda>_. enum_name body version) [0..<nmembers] (pos, [])) (\<lambda>(pos, member_names).
         and_then (fold_res (enum_value body base_size) member_names (pos, [])) (\<lambda>(pos, members).
           Inr (Enum base_dtype members, pos))))))"

definition parse_array :: "dtype_parser \<Rightarrow> bytes \<Rightarrow> nat \<Rightarrow> (dtype \<times> nat) res" where
  "parse_array rec body version =
     (if version < 2 then Inl Format
      else
        and_then (ok_or (get_elem body 8) Format) (\<lambda>nd.
        let ndims = unat nd;
            dims_start = (if version = 2 then 12 else 9) in
        and_then (ok_or (checked_mul ndims 4) Format) (\<lambda>n4.
        and_then (ok_or (checked_add dims_start n4) Format) (\<lambda>dims_end.
        and_then
          (if version = 2 then and_then (umul ndims 4) (\<lambda>n. ok_or (checked_add dims_end n) Format)
           else Inr dims_end) (\<lambda>props_end.
          if length body < props_end then Inl Format
          else
            and_then (map_res (\<lambda>i. dt_read_u32_le body (dims_start + i * 4)) [0..<ndims]) (\<lambda>dims.
            and_then (rec (drop props_end body)) (\<lambda>(base_dtype, base_consumed).
            and_then (uadd props_end base_consumed) (\<lambda>consumed.
              Inr (Array base_dtype dims, consumed)))))))))"

text \<open>A sequence; the sequence of characters is a string of variable length.\<close>

definition parse_vlen :: "dtype_parser \<Rightarrow> bytes \<Rightarrow> byte \<Rightarrow> (dtype \<times> nat) res" where
  "parse_vlen rec body bit_fields_0 =
     (if length body < 9 then Inl Format
      else
        and_then (rec (drop 8 body)) (\<lambda>(base_dtype, base_consumed).
        and_then (uadd 8 base_consumed) (\<lambda>total_consumed.
          if and bit_fields_0 0x0F = 1 then
            Inr (String None (case base_dtype of String _ cs \<Rightarrow> cs | _ \<Rightarrow> Ascii), total_consumed)
          else Inr (VarLen base_dtype, total_consumed))))"

definition parse_opaque :: "bytes \<Rightarrow> byte \<Rightarrow> nat \<Rightarrow> (dtype \<times> nat) res" where
  "parse_opaque body bit_fields_0 elem_size =
     (let tag_len = unat bit_fields_0;
          tag_end = 8 + tag_len in
      and_then (ok_or (get_range body 8 tag_end) Format) (\<lambda>tag_bytes.
        let nul_pos = (case position (\<lambda>b. b = 0) tag_bytes of Some p \<Rightarrow> p | None \<Rightarrow> length tag_bytes);
            tag = utf8_or_empty (take nul_pos tag_bytes) in
        Inr (Opaque elem_size tag, 8 + align8 tag_len)))"

section \<open>The parser\<close>

abbreviation (input) MAX_NESTING_DEPTH :: nat where "MAX_NESTING_DEPTH \<equiv> 32"

function parse_datatype_consuming :: "bytes \<Rightarrow> nat \<Rightarrow> (dtype \<times> nat) res" where
  "parse_datatype_consuming body depth =
     (if depth > MAX_NESTING_DEPTH then Inl Format
      else if length body < 8 then Inl Format
      else
        and_then (index body 0) (\<lambda>class_and_version.
        and_then (index body 1) (\<lambda>bit_fields_0.
        and_then (dt_read_u32_le body 4) (\<lambda>elem_size.
        let cls = and class_and_version 0x0F;
            version = unat (and (drop_bit 4 class_and_version) 0x0F);
            rec = (\<lambda>b. parse_datatype_consuming b (depth + 1)) in
        if cls = 0 then
          Inr (Int_t elem_size (and bit_fields_0 0x08 \<noteq> 0) (order_of bit_fields_0), if version = 1 then 8 + 4 else 8)
        else if cls = 1 then
          Inr (Float elem_size (order_of bit_fields_0), if version = 1 then 8 + 12 else 8)
        else if cls = 3 then
          Inr (String (Some elem_size) (if and (drop_bit 4 bit_fields_0) 0x0F \<noteq> 0 then Utf8 else Ascii), 8)
        else if cls = 4 then
          Inr (Bitfield elem_size (order_of bit_fields_0), if version = 1 then 8 + 4 else 8)
        else if cls = 5 then parse_opaque body bit_fields_0 elem_size
        else if cls = 6 then parse_compound rec body version
        else if cls = 7 then
          Inr (Reference (if and bit_fields_0 0x0F \<noteq> 0 then Region else Object), 8)
        else if cls = 8 then parse_enum rec body version elem_size
        else if cls = 9 then parse_vlen rec body bit_fields_0
        else if cls = 10 then parse_array rec body version
        else Inl (UnsupportedDatatype cls)))))"
  by pat_completeness auto

termination
  by (relation "measure (\<lambda>(_, depth). 33 - depth)") auto

declare parse_datatype_consuming.simps [simp del]

definition parse_datatype :: "bytes \<Rightarrow> dtype res" where
  "parse_datatype body = and_then (parse_datatype_consuming body 0) (\<lambda>(dt, _). Inr dt)"


section \<open>The parser never panics\<close>

text \<open>
  On every body the parser returns a type and the bytes it took, or an error. The count may
  run past the body, by the twelve bytes of properties a float declares or by padding, but
  never far enough for the position arithmetic of an enclosing type to overflow.
\<close>

definition parser_ok :: "bytes \<Rightarrow> (dtype \<times> nat) res \<Rightarrow> bool" where
  "parser_ok body r = yields (\<lambda>(_, n). n \<le> length body + 12) r"

lemma dt_read_u32_le_eq:
  "dt_read_u32_le data offset =
     (if offset + 4 \<ge> u64_lim then Inl Panic
      else if offset + 4 > length data then Inl Format
      else Inr (field 4 data offset))"
proof (cases "offset + 4 < u64_lim \<and> offset + 4 \<le> length data")
  case True
  have "length (take 4 (drop offset data)) = 4" using True by (auto simp: min_def)
  from take_as_list(3)[OF this]
  have "take 4 (drop offset data) = [data ! offset, data ! (offset + 1), data ! (offset + 2), data ! (offset + 3)]"
    using True by simp
  with True show ?thesis by (simp add: dt_read_u32_le_def field_def)
qed (auto simp: dt_read_u32_le_def uadd_def)

lemma yields_dt_read_u32_le [yields]:
  "yields P (dt_read_u32_le d i) \<longleftrightarrow> i + 4 < u64_lim \<and> (i + 4 \<le> length d \<longrightarrow> P (field 4 d i))"
  by (auto simp: yields_def dt_read_u32_le_eq)

lemma yields_read_nul_string:
  assumes "length body \<le> isize_max" and "\<And>nm n. pos + n \<le> length body + 7 \<Longrightarrow> P (nm, n)"
  shows "yields P (read_nul_string_padded body pos version)"
proof -
  have "P (nm, align8 (Suc p))" "P (nm, Suc p)" if "position (\<lambda>b. b = 0) (drop pos body) = Some p" for p nm
    using that align8_less[of "Suc p"] assms(2) by (auto simp: position_Some_iff)
  then show ?thesis
    by (auto simp: read_nul_string_padded_def Let_def yields split: option.splits)
qed

lemma yields_read_int_as_i64: "yields (\<lambda>_. True) (read_int_as_i64 bs)"
  by (simp add: read_int_as_i64_def yields)

lemma yields_member_count: "4 \<le> length body \<Longrightarrow> (\<And>n. n < 2 ^ 24 \<Longrightarrow> P n) \<Longrightarrow> yields P (member_count body)"
  using from_le_less[of "[body ! 1, body ! 2, body ! 3]"] by (auto simp: member_count_def yields simp del: from_le.simps)

lemma compound_member_ok:
  assumes "\<And>b. length b \<le> isize_max \<Longrightarrow> parser_ok b (rec b)" and "length body \<le> isize_max"
    and "fst s \<le> length body + 12"
  shows "yields (\<lambda>s'. fst s' \<le> length body + 12) (compound_member rec body version s)"
proof -
  have "yields (\<lambda>(dt, n). n \<le> length body - p + 12) (rec (drop p body))" if "p \<le> length body" for p
    using assms(1)[of "drop p body"] assms(2) that by (simp add: parser_ok_def)
  note r = yields_mono[OF this]
  obtain pos fields where s: "s = (pos, fields)" by (cases s)
  show ?thesis using assms(2,3) unfolding s compound_member_def
    by (simp add: yields, intro yields_read_nul_string) (auto simp: yields intro!: r)
qed

lemma parse_compound_ok:
  assumes "\<And>b. length b \<le> isize_max \<Longrightarrow> parser_ok b (rec b)" and "length body \<le> isize_max" and "8 \<le> length body"
  shows "parser_ok body (parse_compound rec body version)"
  unfolding parser_ok_def parse_compound_def yields using assms(3)
  by (intro yields_member_count yields_fold_res[where I = "\<lambda>s. fst s \<le> length body + 12"] compound_member_ok assms(1,2))
    (auto simp: yields)


lemma yields_position:
  "yields P (ok_or (position p xs) Format) \<longleftrightarrow> (\<forall>i. position p xs = Some i \<longrightarrow> P i)"
  by (auto simp: yields split: option.splits)

lemma parse_enum_ok:
  assumes "\<And>b. length b \<le> isize_max \<Longrightarrow> parser_ok b (rec b)" and "length body \<le> isize_max" and "8 \<le> length body"
    and "base_size < u32_lim"
  shows "parser_ok body (parse_enum rec body version base_size)"
proof -
  have base: "yields (\<lambda>(dt, n). n \<le> length body - 8 + 12) (rec (drop 8 body))"
    using assms(1)[of "drop 8 body"] assms(2) by (simp add: parser_ok_def)
  have "yields (\<lambda>s. fst s \<le> length body + 12) (enum_name body version s)" if "fst s \<le> length body + 12" for s
    using that assms(2) by (cases s) (auto simp: enum_name_def yields intro!: yields_read_nul_string)
  note name = yields_fold_res[where I = "\<lambda>s. fst s \<le> length body + 12", OF _ this]
  have "yields (\<lambda>s. fst s \<le> length body + 12) (enum_value body base_size nm s)" if "fst s \<le> length body + 12" for nm s
    using that assms(2,4) yields_read_int_as_i64
    by (cases s) (auto simp: enum_value_def yields intro: yields_mono)
  note val = yields_fold_res[where I = "\<lambda>s. fst s \<le> length body + 12", OF _ this]
  show ?thesis
    unfolding parser_ok_def parse_enum_def yields using assms(2,3)
    by (intro yields_member_count) (auto simp: yields intro!: yields_mono[OF base] name val)
qed

lemma parse_array_ok:
  assumes "\<And>b. length b \<le> isize_max \<Longrightarrow> parser_ok b (rec b)" and "length body \<le> isize_max"
  shows "parser_ok body (parse_array rec body version)"
proof -
  have n: "unat (b :: byte) \<le> 255" for b using unat_byte_less[of b] by linarith
  have base: "yields (\<lambda>(dt, n). n \<le> length body - p + 12) (rec (drop p body))" for p
    using assms(1)[of "drop p body"] assms(2) by (simp add: parser_ok_def)
  have dims: "yields P (map_res (\<lambda>i. dt_read_u32_le body (k + i * 4)) [0..<unat (b :: byte)])"
    if "\<And>ds. P ds" "k \<le> 12" for P k b
    using n[of b] that by (intro yields_map_res[where Q = "\<lambda>_. True"]) (auto simp: yields)
  show ?thesis
    unfolding parser_ok_def parse_array_def Let_def using assms(2) n[of "body ! 8"]
    by (auto simp: yields get_elem_def split: option.splits intro!: dims yields_mono[OF base])
qed

lemma parse_vlen_ok:
  assumes "\<And>b. length b \<le> isize_max \<Longrightarrow> parser_ok b (rec b)" and "length body \<le> isize_max"
  shows "parser_ok body (parse_vlen rec body bits)"
proof -
  have base: "yields (\<lambda>(dt, n). n \<le> length body - 8 + 12) (rec (drop 8 body))"
    using assms(1)[of "drop 8 body"] assms(2) by (simp add: parser_ok_def)
  show ?thesis
    unfolding parser_ok_def parse_vlen_def using assms(2)
    by (auto simp: yields intro!: yields_mono[OF base])
qed

lemma parse_opaque_ok: "parser_ok body (parse_opaque body bits sz)"
proof -
  have "align8 (unat bits) < unat bits + 8" by (rule align8_less)
  then show ?thesis
    by (auto simp: parser_ok_def parse_opaque_def Let_def yields get_range_Some_iff split: option.splits)
qed

lemma parse_datatype_consuming_ok: "length body \<le> isize_max \<Longrightarrow> parser_ok body (parse_datatype_consuming body depth)"
proof (induction "33 - depth" arbitrary: body depth)
  case 0
  then show ?case by (simp add: parse_datatype_consuming.simps[of body depth] parser_ok_def yields)
next
  case (Suc k)
  have rec: "parser_ok b (parse_datatype_consuming b (Suc depth))" if "length b \<le> isize_max" for b
    using Suc.hyps(1)[of "Suc depth" b] Suc.hyps(2) that by simp
  have leaf: "parser_ok body (if p then Inr (dt, a) else m)" if "a \<le> 20" "8 \<le> length body" "\<not> p \<Longrightarrow> parser_ok body m" for p dt a m
    using that by (auto simp: parser_ok_def yields)
  show ?case
  proof (cases "length body < 8")
    case False
    have "field 4 body 4 < u32_lim" by simp
    then show ?thesis
      using False Suc.prems
        parse_compound_ok[of "\<lambda>b. parse_datatype_consuming b (Suc depth)", OF rec]
        parse_enum_ok[of "\<lambda>b. parse_datatype_consuming b (Suc depth)", OF rec]
        parse_vlen_ok[of "\<lambda>b. parse_datatype_consuming b (Suc depth)", OF rec]
        parse_array_ok[of "\<lambda>b. parse_datatype_consuming b (Suc depth)", OF rec]
        parse_opaque_ok[of body]
      by (simp add: parse_datatype_consuming.simps[of body depth] dt_read_u32_le_eq Let_def)
        (auto simp: parser_ok_def yields)
  qed (simp add: parse_datatype_consuming.simps[of body depth] parser_ok_def yields)
qed

text \<open>
  C40. Parsing a datatype message never panics, on any body: every read is checked, and the
  position after a nested type cannot overflow although nested types may claim more bytes than
  the body holds.
\<close>

theorem parse_datatype_never_panics:
  assumes "length body \<le> isize_max"
  shows "no_panic (parse_datatype body)"
proof -
  have "no_panic (parse_datatype_consuming body 0)"
    using parse_datatype_consuming_ok[OF assms, of 0] unfolding parser_ok_def by (rule yields_no_panic)
  then show ?thesis by (auto simp: parse_datatype_def split: prod.splits)
qed

theorem parse_datatype_never_panics_witness:
  "no_panic (parse_datatype [0x16, 0xFF, 0xFF, 0xFF, 8, 0, 0, 0, 97, 0])"
  by (rule parse_datatype_never_panics) simp

end
