(* ===== verification/Messages.thy ===== *)
theory Messages
  imports Datatype Chunked_Read
begin

text \<open>
  The object header messages of \<^verbatim>\<open>oxih5-format/src/message.rs\<close> besides the filter pipeline
  (theory \<open>Filter_Message\<close>): dataspace, data layout, symbol table, fill value, attribute and
  modification time.
\<close>

section \<open>Dataspace\<close>

record dataspace_info =
  ds_dims :: "nat list"
  ds_max_dims :: "nat list option"

text \<open>Size of the header and of the smallest body, by version.\<close>

definition dataspace_header :: "bytes \<Rightarrow> (nat \<times> nat) res" where
  "dataspace_header body =
     (if body = [] then Inl Format
      else
        and_then (index body 0) (\<lambda>version.
          if version = 1 then Inr (8, 8)
          else if version = 2 then Inr (4, 4)
          else Inl Format))"

definition dim_list :: "bytes \<Rightarrow> nat \<Rightarrow> nat \<Rightarrow> nat list res" where
  "dim_list body at n =
     map_res (\<lambda>i. and_then (umul i 8) (\<lambda>k. and_then (uadd at k) (\<lambda>p. read_u64_le body p))) [0..<n]"

definition dim_lists :: "bytes \<Rightarrow> nat \<Rightarrow> nat \<Rightarrow> byte \<Rightarrow> (nat list \<times> nat list option) res" where
  "dim_lists body dims_offset dimensionality flags =
     and_then (umul dimensionality 8) (\<lambda>n8.
     and_then (uadd dims_offset n8) (\<lambda>required.
       if length body < required then Inl Format
       else
         and_then (dim_list body dims_offset dimensionality) (\<lambda>dims.
         and_then
           (if and flags 0x01 \<noteq> 0 then
              and_then (uadd required n8) (\<lambda>max_required.
                if length body < max_required then Inr None
                else and_then (dim_list body required dimensionality) (\<lambda>md. Inr (Some md)))
            else Inr None) (\<lambda>max_dims.
           Inr (dims, max_dims)))))"

definition parse_dataspace :: "bytes \<Rightarrow> dataspace_info res" where
  "parse_dataspace body =
     and_then (dataspace_header body) (\<lambda>(header_size, min_body).
       if length body < min_body then Inl Format
       else
         and_then (index body 1) (\<lambda>dimensionality.
         and_then (index body 2) (\<lambda>flags.
         and_then (dim_lists body header_size (unat dimensionality) flags) (\<lambda>(dims, max_dims).
           Inr \<lparr>ds_dims = dims, ds_max_dims = max_dims\<rparr>))))"

definition parse_dataspace_rich :: "bytes \<Rightarrow> dataspace res" where
  "parse_dataspace_rich body =
     and_then (dataspace_header body) (\<lambda>(header_size, min_body).
       if length body < min_body then Inl Format
       else
         and_then (index body 1) (\<lambda>dimensionality.
         and_then (index body 2) (\<lambda>flags.
           if dimensionality = 0 then Inr Scalar
           else
             and_then (dim_lists body header_size (unat dimensionality) flags) (\<lambda>(dims, max_dims).
               Inr (Simple dims max_dims)))))"

section \<open>Data layout\<close>

text \<open>An undefined address is accepted only for an empty dataset.\<close>

definition contiguous_at :: "bytes \<Rightarrow> nat \<Rightarrow> nat \<Rightarrow> layout_info res" where
  "contiguous_at body need at =
     (if length body < need then Inl Format
      else
        and_then (read_u64_le body at) (\<lambda>data_address.
        and_then (read_u64_le body (at + 8)) (\<lambda>data_size.
          if data_address = u64_max \<and> data_size \<noteq> 0 then Inl Format
          else Inr (Contiguous data_address data_size))))"

definition compact_layout :: "bytes \<Rightarrow> layout_info res" where
  "compact_layout body =
     (if length body < 4 then Inl Format
      else
        and_then (read_u16_le body 2) (\<lambda>data_size.
          if length body < 4 + data_size then Inl Format
          else and_then (slice body 4 (4 + data_size)) (\<lambda>d. Inr (Compact d))))"

definition chunked_v3_layout :: "bytes \<Rightarrow> layout_info res" where
  "chunked_v3_layout body =
     (if length body < 11 then Inl Format
      else
        and_then (index body 2) (\<lambda>dimensionality.
        and_then (read_u64_le body 3) (\<lambda>data_address.
        let ndims = unat dimensionality;
            chunk_end = 11 + ndims * 4 in
        if length body < chunk_end then Inl Format
        else
          and_then (map_res (\<lambda>i. read_u32_le body (11 + i * 4)) [0..<ndims]) (\<lambda>chunk_dims.
            if 0 \<in> set chunk_dims then Inl Format
            else Inr (Chunked data_address dimensionality chunk_dims 0 None)))))"

text \<open>The internal index kind and the width of the parameter block, by on-disk indexing type.\<close>

definition index_info :: "byte \<Rightarrow> bool \<Rightarrow> (byte \<times> nat) res" where
  "index_info hdf5_idx single_filtered =
     (if hdf5_idx = 1 then Inr (4, if single_filtered then 12 else 0)
      else if hdf5_idx = 2 then Inr (5, 0)
      else if hdf5_idx = 3 then Inr (1, 1)
      else if hdf5_idx = 4 then Inr (2, 5)
      else if hdf5_idx = 5 then Inr (3, 6)
      else Inl NotImplemented)"

definition chunk_dim_at :: "bytes \<Rightarrow> nat \<Rightarrow> nat \<Rightarrow> nat res" where
  "chunk_dim_at body enc_bytes i =
     (let at = 5 + i * enc_bytes in
      and_then (slice body at (at + enc_bytes)) (\<lambda>bs. Inr (from_le bs)))"

definition chunked_v4_layout :: "bytes \<Rightarrow> layout_info res" where
  "chunked_v4_layout body =
     (if length body < 5 then Inl Format
      else
        and_then (index body 2) (\<lambda>flags.
        and_then (index body 3) (\<lambda>dim_byte.
        and_then (index body 4) (\<lambda>enc_byte.
        let dimensionality = unat dim_byte;
            enc_bytes = unat enc_byte in
        if dimensionality = 0 then Inl Format
        else if enc_bytes = 0 \<or> enc_bytes > 8 then Inl Format
        else
          and_then (ok_or (checked_mul dimensionality enc_bytes) Format) (\<lambda>n.
          and_then (ok_or (checked_add 5 n) Format) (\<lambda>dims_end.
          if length body < dims_end then Inl Format
          else
            and_then (map_res (chunk_dim_at body enc_bytes) [0..<dimensionality]) (\<lambda>chunk_dims.
            if 0 \<in> set chunk_dims then Inl Format
            else if length body \<le> dims_end then Inl Format
            else
              and_then (index body dims_end) (\<lambda>hdf5_idx.
              let single_filtered = (hdf5_idx = 1 \<and> and flags 0x02 = 0x02) in
              and_then (index_info hdf5_idx single_filtered) (\<lambda>(index_type, info_len).
              let info_at = dims_end + 1 in
              and_then (ok_or (checked_add info_at info_len) Format) (\<lambda>addr_at.
              and_then (ok_or (checked_add addr_at 8) Format) (\<lambda>needed.
              if length body < needed then Inl Format
              else
                and_then
                  (if single_filtered then
                     and_then (read_u64_le body info_at) (\<lambda>sz.
                     and_then (read_u32_le body (info_at + 8)) (\<lambda>fm.
                       Inr (Some \<lparr>sc_stored_size = sz, sc_filter_mask = fm\<rparr>)))
                   else Inr None) (\<lambda>single_chunk.
                and_then (read_u64_le body addr_at) (\<lambda>data_address.
                  Inr (Chunked data_address dim_byte chunk_dims index_type single_chunk))))))))))))))"

definition virtual_layout :: "bytes \<Rightarrow> layout_info res" where
  "virtual_layout body =
     (if length body < 14 then Inl Format
      else
        and_then (read_u64_le body 2) (\<lambda>heap_address.
        and_then (read_u32_le body 10) (\<lambda>heap_index.
          Inr (VirtualDataset heap_address heap_index))))"

definition parse_layout :: "bytes \<Rightarrow> layout_info res" where
  "parse_layout body =
     (if length body < 2 then Inl Format
      else
        and_then (index body 0) (\<lambda>version.
        and_then (index body 1) (\<lambda>cls.
          if (version = 3 \<or> version = 4) \<and> cls = 1 then contiguous_at body 18 2
          else if (version = 3 \<or> version = 4) \<and> cls = 0 then compact_layout body
          else if version = 3 \<and> cls = 2 then chunked_v3_layout body
          else if version = 1 \<and> cls = 1 then contiguous_at body 24 8
          else if (version = 4 \<or> version = 5) \<and> cls = 2 then chunked_v4_layout body
          else if version = 4 \<and> cls = 3 then virtual_layout body
          else Inl Format)))"

section \<open>Symbol table, fill value and modification time\<close>

record symbol_table_info =
  st_btree_address :: nat
  st_heap_address :: nat

definition parse_symbol_table :: "bytes \<Rightarrow> symbol_table_info res" where
  "parse_symbol_table body =
     (if length body < 16 then Inl Format
      else
        and_then (read_u64_le body 0) (\<lambda>btree_address.
        and_then (read_u64_le body 8) (\<lambda>heap_address.
          Inr \<lparr>st_btree_address = btree_address, st_heap_address = heap_address\<rparr>)))"

definition fill_value_at :: "bytes \<Rightarrow> nat \<Rightarrow> bytes option res" where
  "fill_value_at body at =
     (if length body < at + 4 then Inl Format
      else
        and_then (read_u32_le body at) (\<lambda>sz.
        and_then (uadd (at + 4) sz) (\<lambda>e.
          if length body < e then Inl Format
          else and_then (slice body (at + 4) e) (\<lambda>v. Inr (Some v)))))"

definition parse_fill_value :: "bytes \<Rightarrow> bytes option res" where
  "parse_fill_value body =
     (if body = [] then Inr None
      else
        and_then (index body 0) (\<lambda>version.
          if version = 1 \<or> version = 2 then
            if length body < 4 then Inr None
            else and_then (index body 3) (\<lambda>defined. if defined = 0 then Inr None else fill_value_at body 4)
          else if version = 3 then
            if length body < 2 then Inr None
            else and_then (index body 1) (\<lambda>flags.
              if and (drop_bit 5 flags) 1 = 0 then Inr None else fill_value_at body 2)
          else Inr None))"

definition parse_modification_time :: "bytes \<Rightarrow> nat res" where
  "parse_modification_time body =
     (if length body < 8 then Inl Format
      else
        and_then (index body 0) (\<lambda>version.
          if version \<noteq> 1 then Inl Format
          else and_then (slice body 4 8) (\<lambda>bs. Inr (from_le bs))))"

section \<open>Attributes\<close>

definition attr_elem_footprint :: "dtype \<Rightarrow> nat res" where
  "attr_elem_footprint dt = and_then (dtype_size dt) (\<lambda>s. Inr (case s of Some n \<Rightarrow> n | None \<Rightarrow> 16))"

definition attr_elem_count :: "dataspace \<Rightarrow> nat res" where
  "attr_elem_count sp =
     (case sp of Scalar \<Rightarrow> Inr 1 | Null \<Rightarrow> Inr 0 | Simple dims _ \<Rightarrow> product_usize dims)"

definition attr_payload_len :: "dtype \<Rightarrow> dataspace \<Rightarrow> nat \<Rightarrow> nat res" where
  "attr_payload_len dt sp remaining =
     and_then (attr_elem_count sp) (\<lambda>n_elems.
     and_then (attr_elem_footprint dt) (\<lambda>elem.
       Inr (case checked_mul n_elems elem of
              Some len \<Rightarrow> if len \<le> remaining then len else remaining
            | None \<Rightarrow> remaining)))"

definition extract_nul_string :: "bytes \<Rightarrow> str" where
  "extract_nul_string bs =
     (let nul = (case position (\<lambda>b. b = 0) bs of Some p \<Rightarrow> p | None \<Rightarrow> length bs) in
      utf8_or_empty (take nul bs))"

text \<open>A section of the body, the bytes of \<open>sz\<close> at \<open>pos\<close>, of which \<open>padded\<close> must be present.\<close>

definition attr_section :: "bytes \<Rightarrow> nat \<Rightarrow> nat \<Rightarrow> nat \<Rightarrow> (bytes \<times> nat) res" where
  "attr_section body pos sz padded =
     and_then (uadd pos padded) (\<lambda>e.
       if e > length body then Inl Format
       else and_then (slice body pos (pos + sz)) (\<lambda>bs. Inr (bs, e)))"

definition parse_attribute_v1 :: "bytes \<Rightarrow> attribute res" where
  "parse_attribute_v1 body =
     (if length body < 8 then Inl Format
      else
        and_then (read_u16_le body 2) (\<lambda>name_size.
        and_then (read_u16_le body 4) (\<lambda>dt_size.
        and_then (read_u16_le body 6) (\<lambda>dspace_size.
        and_then (attr_section body 8 name_size (align8 name_size)) (\<lambda>(name_bytes, pos).
        and_then (attr_section body pos dt_size (align8 dt_size)) (\<lambda>(dt_bytes, pos).
        and_then (parse_datatype dt_bytes) (\<lambda>dt.
        and_then (attr_section body pos dspace_size (align8 dspace_size)) (\<lambda>(sp_bytes, pos).
        and_then (parse_dataspace_rich sp_bytes) (\<lambda>sp.
        and_then (usub (length body) pos) (\<lambda>remaining.
        and_then (attr_payload_len dt sp remaining) (\<lambda>data_len.
        and_then (uadd pos data_len) (\<lambda>e.
        and_then (slice body pos e) (\<lambda>value_bytes.
          Inr \<lparr>attr_name = extract_nul_string name_bytes, attr_dtype = dt, attr_dataspace = sp,
               attr_data = value_bytes\<rparr>)))))))))))))"

definition parse_attribute_v2 :: "bytes \<Rightarrow> byte \<Rightarrow> attribute res" where
  "parse_attribute_v2 body version =
     (if length body < 8 then Inl Format
      else
        and_then (read_u16_le body 2) (\<lambda>name_size.
        and_then (read_u16_le body 4) (\<lambda>dt_size.
        and_then (read_u16_le body 6) (\<lambda>dspace_size.
        and_then (attr_section body (if version = 3 then 9 else 8) name_size name_size) (\<lambda>(name_bytes, pos).
        and_then (attr_section body pos dt_size dt_size) (\<lambda>(dt_bytes, pos).
        and_then (parse_datatype dt_bytes) (\<lambda>dt.
        and_then (attr_section body pos dspace_size dspace_size) (\<lambda>(sp_bytes, pos).
        and_then (parse_dataspace_rich sp_bytes) (\<lambda>sp.
        and_then (slice body pos (length body)) (\<lambda>value_bytes.
          Inr \<lparr>attr_name = extract_nul_string name_bytes, attr_dtype = dt, attr_dataspace = sp,
               attr_data = value_bytes\<rparr>))))))))))"

definition parse_attribute :: "bytes \<Rightarrow> attribute res" where
  "parse_attribute body =
     (if body = [] then Inl Format
      else
        and_then (index body 0) (\<lambda>version.
          if version = 1 then parse_attribute_v1 body
          else if version = 2 \<or> version = 3 then parse_attribute_v2 body version
          else Inl Format))"


section \<open>Layouts the readers can rely on\<close>

text \<open>
  What a parsed layout guarantees: an undefined address only with size zero, inline data that
  fits its 16-bit size, and for chunked data one non-zero dimension per count, a known index
  kind, and chunk parameters only for a single chunk.
\<close>

fun layout_ok :: "layout_info \<Rightarrow> bool" where
  "layout_ok (Contiguous a n) \<longleftrightarrow> a < u64_lim \<and> n < u64_lim \<and> (a = u64_max \<longrightarrow> n = 0)"
| "layout_ok (Compact d) \<longleftrightarrow> length d < 65536"
| "layout_ok (Chunked a nd cds it sc) \<longleftrightarrow>
     a < u64_lim \<and> length cds = unat nd \<and> (\<forall>c\<in>set cds. 0 < c \<and> c < u64_lim) \<and> it \<le> 5
     \<and> (case sc of None \<Rightarrow> True
        | Some info \<Rightarrow> it = 4 \<and> sc_stored_size info < u64_lim \<and> sc_filter_mask info < u32_lim)"
| "layout_ok (VirtualDataset a i) \<longleftrightarrow> a < u64_lim \<and> i < u32_lim"

lemma contiguous_at_ok: "at + 16 \<le> need \<Longrightarrow> length body \<le> isize_max \<Longrightarrow> yields layout_ok (contiguous_at body need at)"
  by (auto simp: contiguous_at_def yields)

lemma compact_layout_ok: "length body \<le> isize_max \<Longrightarrow> yields layout_ok (compact_layout body)"
  by (auto simp: compact_layout_def yields)

lemma chunked_v3_layout_ok:
  assumes "length body \<le> isize_max"
  shows "yields layout_ok (chunked_v3_layout body)"
proof -
  have dims: "yields P (map_res (\<lambda>i. read_u32_le body (11 + i * 4)) [0..<n])"
    if "n \<le> 255" and "\<And>ds. length ds = n \<Longrightarrow> \<forall>d\<in>set ds. d < u64_lim \<Longrightarrow> P ds" for P n
    using that assms by (intro yields_map_res[where Q = "\<lambda>d. d < u64_lim"])
      (auto simp: yields intro: order.strict_trans[OF field_4_less])
  have "unat (body ! 2) \<le> 255" using unat_byte_less[of "body ! 2"] by linarith
  then show ?thesis using assms
    by (auto simp: chunked_v3_layout_def Let_def yields intro!: dims gr0I)
qed

lemma chunk_dim_at_ok:
  assumes "5 + n * w \<le> length body" and "i < n" and "w \<le> 8"
  shows "yields (\<lambda>d. d < u64_lim) (chunk_dim_at body w i)"
proof -
  have "i * w + w \<le> n * w" using assms(2) by (metis Suc_leI mult_Suc mult_le_mono1 add.commute)
  then show ?thesis using assms(1,3)
    by (auto simp: chunk_dim_at_def Let_def yields intro!: from_le_bound_u64)
qed

lemma index_info_ok: "yields (\<lambda>(it, n). it \<le> 5 \<and> (b \<longrightarrow> it = 4) \<and> n \<le> 12 \<and> (b \<longrightarrow> n = 12)) (index_info x (x = 1 \<and> c))"
  if "b = (x = 1 \<and> c)"
  using that by (auto simp: index_info_def yields)

lemma chunked_v4_layout_ok:
  assumes "length body \<le> isize_max"
  shows "yields layout_ok (chunked_v4_layout body)"
proof -
  have dims: "yields P (map_res (chunk_dim_at body w) [0..<n])"
    if "5 + n * w \<le> length body" "w \<le> 8" and "\<And>ds. length ds = n \<Longrightarrow> \<forall>d\<in>set ds. d < u64_lim \<Longrightarrow> P ds" for P n w
    using that chunk_dim_at_ok[OF that(1) _ that(2)] by (intro yields_map_res[where Q = "\<lambda>d. d < u64_lim"]) auto
  show ?thesis using assms
    by (auto simp: chunked_v4_layout_def Let_def yields split: option.splits
        intro!: dims yields_mono[OF index_info_ok[OF refl]] gr0I)
qed

text \<open>
  C39. The layout parser never panics, and a layout it accepts is one the readers can use
  without further checks: the number of chunk dimensions is the dimensionality, none of them is
  zero (the readers divide by them), the index kind is one of the six the dispatch knows, and
  an undefined address goes with an empty dataset.
\<close>

theorem parse_layout_sound:
  assumes "length body \<le> isize_max"
  shows "yields layout_ok (parse_layout body)"
  using assms unfolding parse_layout_def
  by (auto simp: yields virtual_layout_def intro: contiguous_at_ok compact_layout_ok chunked_v3_layout_ok chunked_v4_layout_ok)

theorem parse_layout_sound_witness:
  "parse_layout ([4, 2, 2, 2, 1, 3, 8, 1] @ to_le 8 17 @ to_le 4 1 @ to_le 8 4096)
     = Inr (Chunked 4096 2 [3, 8] 4 (Some \<lparr>sc_stored_size = 17, sc_filter_mask = 1\<rparr>))
   \<and> layout_ok (Chunked 4096 2 [3, 8] 4 (Some \<lparr>sc_stored_size = 17, sc_filter_mask = 1\<rparr>))"
  (is "?p = Inr ?l \<and> _")
proof
  show "?p = Inr ?l"
    by (simp add: parse_layout_def chunked_v4_layout_def Let_def chunk_dim_at_def index_info_def read_u64_le_eq
        read_u32_le_eq slice_def index_def get_range_def get_elem_def field_def le_eval upt_rec)
  then show "layout_ok ?l"
    using parse_layout_sound[of "[4, 2, 2, 2, 1, 3, 8, 1] @ to_le 8 17 @ to_le 4 1 @ to_le 8 4096"]
    by (auto dest: yieldsD)
qed

section \<open>Absence of panics\<close>

lemma dim_list_ok:
  assumes "at + n * 8 \<le> length body" and "length body \<le> isize_max"
  shows "yields (\<lambda>ds. length ds = n) (dim_list body at n)"
  unfolding dim_list_def
proof (rule yields_map_res[where Q = "\<lambda>_. True"])
  fix i assume "i \<in> set [0..<n]"
  then have "i * 8 + 8 \<le> n * 8" by simp
  then show "yields (\<lambda>_. True) (and_then (umul i 8) (\<lambda>k. and_then (uadd at k) (read_u64_le body)))"
    using assms by (auto simp: yields)
qed simp

lemma dim_lists_ok:
  assumes "length body \<le> isize_max" and "at \<le> 8"
  shows "yields (\<lambda>(ds, md). length ds = unat (n :: byte) \<and> (\<forall>m. md = Some m \<longrightarrow> length m = unat n)) (dim_lists body at (unat n) flags)"
proof -
  have n: "unat n \<le> 255" using unat_byte_less[of n] by linarith
  show ?thesis using assms n
    by (auto simp: dim_lists_def yields intro!: yields_mono[OF dim_list_ok])
qed

lemma parse_dataspace_rich_no_panic: "length body \<le> isize_max \<Longrightarrow> yields (\<lambda>_. True) (parse_dataspace_rich body)"
  by (auto simp: parse_dataspace_rich_def dataspace_header_def yields intro!: yields_mono[OF dim_lists_ok])

lemma fill_value_at_no_panic: "length body \<le> isize_max \<Longrightarrow> at \<le> 4 \<Longrightarrow> yields (\<lambda>_. True) (fill_value_at body at)"
  using field_4_less[of body at] by (auto simp: fill_value_at_def yields simp del: field_4_less)

text \<open>
  The dataspace, symbol table, fill value and modification time parsers never panic; a
  dataspace has as many maximal as current dimensions when it has maximal ones.
\<close>

theorem message_parsers_never_panic:
  assumes "length body \<le> isize_max"
  shows "yields (\<lambda>d. \<forall>m. ds_max_dims d = Some m \<longrightarrow> length m = length (ds_dims d)) (parse_dataspace body)
    \<and> no_panic (parse_dataspace_rich body) \<and> no_panic (parse_symbol_table body)
    \<and> no_panic (parse_fill_value body) \<and> no_panic (parse_modification_time body)"
  using assms parse_dataspace_rich_no_panic
  by (auto simp: parse_dataspace_def dataspace_header_def parse_symbol_table_def parse_fill_value_def
      parse_modification_time_def no_panic_yields yields intro!: yields_mono[OF dim_lists_ok] fill_value_at_no_panic)

theorem message_parsers_never_panic_witness:
  "no_panic (parse_dataspace_rich [1, 255, 1, 0, 0, 0, 0, 0]) \<and> no_panic (parse_fill_value [3, 0x20, 255, 255, 255, 255])"
  using message_parsers_never_panic[of "[1, 255, 1, 0, 0, 0, 0, 0]"]
    message_parsers_never_panic[of "[3, 0x20, 255, 255, 255, 255]"] by simp


section \<open>When attributes panic\<close>

lemma product_fold:
  "fold_res (\<lambda>d acc. umul acc d) xs a = Inl e \<Longrightarrow> a < u64_lim \<Longrightarrow>
     e = Panic \<and> (\<exists>k \<le> length xs. u64_lim \<le> a * prod_list (take k xs))"
proof (induction xs arbitrary: a)
  case (Cons x xs)
  show ?case
  proof (cases "a * x < u64_lim")
    case True
    then obtain k where "e = Panic" "k \<le> length xs" "u64_lim \<le> a * x * prod_list (take k xs)"
      using Cons by auto
    then show ?thesis by (intro conjI exI[of _ "Suc k"]) (simp_all add: mult.assoc)
  next
    case False
    then show ?thesis using Cons.prems by (intro conjI exI[of _ 1]) (auto simp: umul_def)
  qed
qed simp

lemma product_usize_Inl: "product_usize xs = Inl e \<Longrightarrow> e = Panic \<and> (\<exists>k \<le> length xs. u64_lim \<le> prod_list (take k xs))"
  using product_fold[of xs 1 e] by (simp add: product_usize_def)

lemma attr_section_yields:
  assumes "length body \<le> isize_max" and "pos \<le> length body + 1" and "sz \<le> padded" and "padded \<le> 65543"
    and "\<And>bs e. length bs \<le> isize_max \<Longrightarrow> e \<le> length body \<Longrightarrow> P (bs, e)"
  shows "yields P (attr_section body pos sz padded)"
  using assms by (auto simp: attr_section_def yields)

lemma align8_field: "align8 (field 2 body k) \<le> 65543"
  using align8_less[of "field 2 body k"] field_2_less[of body k] by linarith

lemma parse_datatype_yields: "length bs \<le> isize_max \<Longrightarrow> (\<And>dt. parse_datatype bs = Inr dt \<Longrightarrow> P dt) \<Longrightarrow> yields P (parse_datatype bs)"
  using parse_datatype_consuming_ok[of bs 0]
  by (intro yieldsI) (auto simp: parse_datatype_def parser_ok_def no_panic_yields yields elim: yields_mono)

lemma parse_rich_yields: "length bs \<le> isize_max \<Longrightarrow> (\<And>sp. parse_dataspace_rich bs = Inr sp \<Longrightarrow> P sp) \<Longrightarrow> yields P (parse_dataspace_rich bs)"
  using parse_dataspace_rich_no_panic[of bs] by (intro yieldsI) (auto intro: yields_no_panic)

text \<open>The sizes an attribute's value is computed from, when the computation is in range.\<close>

definition sizes_in_range :: "dtype \<Rightarrow> dataspace \<Rightarrow> bool" where
  "sizes_in_range dt sp \<longleftrightarrow> no_panic (dtype_size dt) \<and>
     (\<forall>dims md k. sp = Simple dims md \<longrightarrow> k \<le> length dims \<longrightarrow> prod_list (take k dims) < u64_lim)"

lemma attr_payload_len_yields:
  assumes "sizes_in_range dt sp" and "\<And>n. n \<le> r \<Longrightarrow> P n"
  shows "yields P (attr_payload_len dt sp r)"
proof -
  have dims: "no_panic (product_usize ds)" if "\<forall>k \<le> length ds. prod_list (take k ds) < u64_lim" for ds
    using that product_usize_Inl[of ds] by (cases "product_usize ds") (auto simp: not_less[symmetric])
  have "no_panic (attr_elem_count sp)"
    using assms(1) dims by (auto simp: attr_elem_count_def sizes_in_range_def split: dataspace.splits)
  moreover have "no_panic (attr_elem_footprint dt)"
    using assms(1) by (auto simp: attr_elem_footprint_def sizes_in_range_def)
  ultimately show ?thesis using assms(2)
    by (auto simp: attr_payload_len_def yields no_panic_yields intro!: yields_mono[of "\<lambda>_. True"] split: option.splits)
qed

lemma parse_attribute_v1_yields:
  assumes "length body \<le> isize_max"
    and "\<And>dtb dt spb sp. parse_datatype dtb = Inr dt \<Longrightarrow> parse_dataspace_rich spb = Inr sp \<Longrightarrow> sizes_in_range dt sp"
  shows "yields (\<lambda>_. True) (parse_attribute_v1 body)"
  unfolding parse_attribute_v1_def using assms(1)
  by (auto simp: yields align8_ge align8_field
      intro!: attr_section_yields parse_datatype_yields parse_rich_yields attr_payload_len_yields assms(2))

lemma field_2_small: "field 2 body k \<le> 65543"
  using field_2_less[of body k] by linarith

lemma parse_attribute_v2_yields: "length body \<le> isize_max \<Longrightarrow> yields (\<lambda>_. True) (parse_attribute_v2 body v)"
  unfolding parse_attribute_v2_def
  by (auto simp: yields field_2_small intro!: attr_section_yields parse_datatype_yields parse_rich_yields)

text \<open>
  Attributes of version 2 and 3 never panic, and one of version 1 panics only where the
  length of its value is computed: the size of its datatype overflows, or the product of its
  dimensions does, at some prefix of them (a later zero does not help).
\<close>

theorem attribute_panics_only_on_overflow:
  assumes "parse_attribute body = Inl Panic" and "length body \<le> isize_max"
  shows "body ! 0 = 1 \<and> (\<exists>dtb dt spb sp. parse_datatype dtb = Inr dt \<and> parse_dataspace_rich spb = Inr sp
    \<and> (dtype_size dt = Inl Panic
       \<or> (\<exists>dims md k. sp = Simple dims md \<and> k \<le> length dims \<and> u64_lim \<le> prod_list (take k dims))))"
proof -
  have "\<not> no_panic (parse_attribute_v1 body)" and v: "body ! 0 = 1"
    using assms(1) yields_no_panic[OF parse_attribute_v2_yields[OF assms(2)]]
    by (auto simp: parse_attribute_def no_panic_def index_def get_elem_def split: if_splits)
  then obtain dtb dt spb sp where "parse_datatype dtb = Inr dt" "parse_dataspace_rich spb = Inr sp" "\<not> sizes_in_range dt sp"
    using parse_attribute_v1_yields[OF assms(2)] yields_no_panic by blast
  then show ?thesis using v unfolding sizes_in_range_def no_panic_def by (metis not_less)
qed

text \<open>An attribute \<open>a\<close> of strings of width 8 with two dimensions.\<close>

definition two_dim_attribute :: "nat \<Rightarrow> nat \<Rightarrow> bytes" where
  "two_dim_attribute m n =
     [1, 0, 2, 0, 8, 0, 24, 0] @ [97, 0, 0, 0, 0, 0, 0, 0] @ [0x13, 0, 0, 0, 8, 0, 0, 0]
     @ [1, 2, 0, 0, 0, 0, 0, 0] @ to_le 8 m @ to_le 8 n"

lemma two_dim_attribute_panics:
  assumes "m < u64_lim" and "n < u64_lim" and "u64_lim \<le> m * n"
  shows "parse_attribute (two_dim_attribute m n) = Inl Panic"
proof -
  have l: "length (to_le 8 m) = 8" "length (to_le 8 n) = 8" "from_le (to_le 8 m) = m" "from_le (to_le 8 n) = n"
    using assms by (simp_all add: from_le_to_le)
  obtain a where a: "to_le 8 m = a" "length a = 8" "from_le a = m" using l by simp
  obtain b where b: "to_le 8 n = b" "length b = 8" "from_le b = n" using l by simp
  have dt: "parse_datatype [0x13, 0, 0, 0, 8, 0, 0, 0] = Inr (String (Some 8) Ascii)"
    by (simp add: parse_datatype_def parse_datatype_consuming.simps Let_def dt_read_u32_le_eq index_def get_elem_def field_def)
  have sp: "parse_dataspace_rich (1 # 2 # 0 # 0 # 0 # 0 # 0 # 0 # a @ b) = Inr (Simple [m, n] None)"
    using a b by (simp add: parse_dataspace_rich_def dataspace_header_def dim_lists_def dim_list_def index_def get_elem_def
        read_u64_le_eq field_def upt_rec)
  have "attr_elem_count (Simple [m, n] None) = Inl Panic"
    using assms by (simp add: attr_elem_count_def product_usize_def umul_def)
  then show ?thesis using a b
    by (simp add: two_dim_attribute_def parse_attribute_def parse_attribute_v1_def index_def get_elem_def read_u16_le_eq
        field_def attr_section_def align8_def slice_def get_range_def dt sp attr_payload_len_def)
qed

text \<open>
  The element count of an attribute is an unchecked product, so a 48-byte attribute
  message whose dimensions multiply past 64 bits panics in the parser.
\<close>

theorem attribute_dimension_overflow_panics:
  assumes "m < u64_lim" and "n < u64_lim" and "u64_lim \<le> m * n"
  shows "parse_attribute (two_dim_attribute m n) = Inl Panic"
  using assms by (rule two_dim_attribute_panics)

theorem attribute_dimension_overflow_panics_witness:
  "parse_attribute (two_dim_attribute 4294967296 4294967296) = Inl Panic"
  by (rule attribute_dimension_overflow_panics) simp_all

theorem attribute_panics_only_on_overflow_witness:
  "two_dim_attribute 4294967296 4294967296 ! 0 = 1 \<and>
   (\<exists>dtb dt spb sp. parse_datatype dtb = Inr dt \<and> parse_dataspace_rich spb = Inr sp
    \<and> (dtype_size dt = Inl Panic
       \<or> (\<exists>dims md k. sp = Simple dims md \<and> k \<le> length dims \<and> u64_lim \<le> prod_list (take k dims))))"
proof (rule attribute_panics_only_on_overflow)
  show "parse_attribute (two_dim_attribute 4294967296 4294967296) = Inl Panic"
    by (rule two_dim_attribute_panics) simp_all
qed (simp add: two_dim_attribute_def)

end
