(* ===== verification/Write_Elem.thy ===== *)
theory Write_Elem
  imports Datatype Write_Format
begin

text \<open>
  The writer's element types and their datatype messages: the tables and encoders of
  \<^verbatim>\<open>oxih5/src/write/elem.rs\<close> and the structured encoders of \<^verbatim>\<open>oxih5/src/write/dtype.rs\<close>
  (compound, sequence, array, opaque, bitfield), each read back by the parser of theory
  \<open>Datatype\<close>.
\<close>

section \<open>Element types\<close>

datatype num_type = Num_F16 | Num_F32 | Num_F64 | Num_I8 | Num_I16 | Num_I32 | Num_I64 | Num_U8 | Num_U16 | Num_U32 | Num_U64

datatype elem_type = F16 | F32 | F64 | I8 | I16 | I32 | I64 | U8 | U16 | U32 | U64
  | VlenStr
  | FixedStr nat
  | Bool
  | BigEndian num_type

datatype elem_spec =
    Spec_Fixed nat bool byte_order
  | Spec_FloatIeee nat byte_order
  | Spec_VlenStr
  | Spec_FixedStr nat
  | Spec_Bool

fun num_spec :: "num_type \<Rightarrow> byte_order \<Rightarrow> elem_spec" where
  "num_spec Num_F16 ord = Spec_FloatIeee 2 ord"
| "num_spec Num_F32 ord = Spec_FloatIeee 4 ord"
| "num_spec Num_F64 ord = Spec_FloatIeee 8 ord"
| "num_spec Num_I8 ord = Spec_Fixed 1 True ord"
| "num_spec Num_I16 ord = Spec_Fixed 2 True ord"
| "num_spec Num_I32 ord = Spec_Fixed 4 True ord"
| "num_spec Num_I64 ord = Spec_Fixed 8 True ord"
| "num_spec Num_U8 ord = Spec_Fixed 1 False ord"
| "num_spec Num_U16 ord = Spec_Fixed 2 False ord"
| "num_spec Num_U32 ord = Spec_Fixed 4 False ord"
| "num_spec Num_U64 ord = Spec_Fixed 8 False ord"

fun as_elem :: "num_type \<Rightarrow> byte_order \<Rightarrow> elem_type" where
  "as_elem n Big = BigEndian n"
| "as_elem Num_F16 Little = F16"
| "as_elem Num_F32 Little = F32"
| "as_elem Num_F64 Little = F64"
| "as_elem Num_I8 Little = I8"
| "as_elem Num_I16 Little = I16"
| "as_elem Num_I32 Little = I32"
| "as_elem Num_I64 Little = I64"
| "as_elem Num_U8 Little = U8"
| "as_elem Num_U16 Little = U16"
| "as_elem Num_U32 Little = U32"
| "as_elem Num_U64 Little = U64"

fun elem_spec_of :: "elem_type \<Rightarrow> elem_spec" where
  "elem_spec_of F16 = num_spec Num_F16 Little"
| "elem_spec_of F32 = num_spec Num_F32 Little"
| "elem_spec_of F64 = num_spec Num_F64 Little"
| "elem_spec_of I8 = num_spec Num_I8 Little"
| "elem_spec_of I16 = num_spec Num_I16 Little"
| "elem_spec_of I32 = num_spec Num_I32 Little"
| "elem_spec_of I64 = num_spec Num_I64 Little"
| "elem_spec_of U8 = num_spec Num_U8 Little"
| "elem_spec_of U16 = num_spec Num_U16 Little"
| "elem_spec_of U32 = num_spec Num_U32 Little"
| "elem_spec_of U64 = num_spec Num_U64 Little"
| "elem_spec_of (BigEndian n) = num_spec n Big"
| "elem_spec_of VlenStr = Spec_VlenStr"
| "elem_spec_of (FixedStr width) = Spec_FixedStr width"
| "elem_spec_of Bool = Spec_Bool"

abbreviation (input) VLEN_REF_SIZE :: nat where "VLEN_REF_SIZE \<equiv> 16"
abbreviation (input) FIXED_DT_BODY :: nat where "FIXED_DT_BODY \<equiv> 16"
abbreviation (input) FIXED_DT_NATURAL :: nat where "FIXED_DT_NATURAL \<equiv> 12"
abbreviation (input) FLOAT_DT_BODY :: nat where "FLOAT_DT_BODY \<equiv> 24"
abbreviation (input) FLOAT_DT_NATURAL :: nat where "FLOAT_DT_NATURAL \<equiv> 20"
abbreviation (input) STRING_DT_BODY :: nat where "STRING_DT_BODY \<equiv> 8"
abbreviation (input) REF_DT_BODY :: nat where "REF_DT_BODY \<equiv> 8"
abbreviation (input) VLEN_DT_BODY :: nat where "VLEN_DT_BODY \<equiv> 16"
abbreviation (input) VLEN_REF_DT_BODY :: nat where "VLEN_REF_DT_BODY \<equiv> 16"
abbreviation (input) REF_INDEX_DT_BODY :: nat where "REF_INDEX_DT_BODY \<equiv> 116"
abbreviation (input) REF_INDEX_ELEM :: nat where "REF_INDEX_ELEM \<equiv> 12"
abbreviation (input) BOOL_ENUM_DT_BODY :: nat where "BOOL_ENUM_DT_BODY \<equiv> 38"

definition byte_size :: "elem_type \<Rightarrow> nat" where
  "byte_size t = (case elem_spec_of t of
     Spec_Fixed sz _ _ \<Rightarrow> sz | Spec_FloatIeee sz _ \<Rightarrow> sz | Spec_VlenStr \<Rightarrow> VLEN_REF_SIZE
   | Spec_FixedStr width \<Rightarrow> width | Spec_Bool \<Rightarrow> 1)"

definition dt_body_size :: "elem_type \<Rightarrow> nat" where
  "dt_body_size t = (case elem_spec_of t of
     Spec_Fixed _ _ _ \<Rightarrow> FIXED_DT_BODY | Spec_FloatIeee _ _ \<Rightarrow> FLOAT_DT_BODY | Spec_VlenStr \<Rightarrow> VLEN_DT_BODY
   | Spec_FixedStr _ \<Rightarrow> STRING_DT_BODY | Spec_Bool \<Rightarrow> BOOL_ENUM_DT_BODY)"

definition nested_dt_body_size :: "elem_type \<Rightarrow> nat" where
  "nested_dt_body_size t = (case elem_spec_of t of
     Spec_Fixed _ _ _ \<Rightarrow> FIXED_DT_NATURAL | Spec_FloatIeee _ _ \<Rightarrow> FLOAT_DT_NATURAL | Spec_VlenStr \<Rightarrow> VLEN_DT_BODY
   | Spec_FixedStr _ \<Rightarrow> STRING_DT_BODY | Spec_Bool \<Rightarrow> BOOL_ENUM_DT_BODY)"

section \<open>Datatype bodies\<close>

definition ieee_exp_bits :: "nat \<Rightarrow> nat option" where
  "ieee_exp_bits sz = (if sz = 2 then Some 5 else if sz = 4 then Some 8 else if sz = 8 then Some 11
     else if sz = 16 then Some 15 else None)"

definition byte_order_bit :: "byte_order \<Rightarrow> byte" where
  "byte_order_bit ord = (case ord of Little \<Rightarrow> 0x00 | Big \<Rightarrow> 0x01)"

definition write_fixed_dtype :: "bytes \<Rightarrow> nat \<Rightarrow> nat \<Rightarrow> bool \<Rightarrow> byte_order \<Rightarrow> (bytes \<times> nat) res" where
  "write_fixed_dtype buf start sz sg ord =
     and_then (fill_zero buf start FIXED_DT_BODY) (\<lambda>buf.
     and_then (put_elem buf start 0x10) (\<lambda>buf.
     and_then (put_elem buf (start + 1) (or (byte_order_bit ord) (if sg then 0x08 else 0))) (\<lambda>buf.
     and_then (write_u32_le buf (start + 4) sz) (\<lambda>buf.
     and_then (write_u16_le buf (start + 10) (sz * 8)) (\<lambda>buf.
       Inr (buf, FIXED_DT_BODY))))))"

definition write_float_dtype :: "bytes \<Rightarrow> nat \<Rightarrow> nat \<Rightarrow> byte_order \<Rightarrow> (bytes \<times> nat) res" where
  "write_float_dtype buf start sz ord =
     and_then (ok_or (ieee_exp_bits sz) Format) (\<lambda>exp_bits.
     let precision = sz * 8;
         mant_bits = precision - exp_bits - 1 in
     and_then (fill_zero buf start FLOAT_DT_BODY) (\<lambda>buf.
     and_then (put_elem buf start 0x11) (\<lambda>buf.
     and_then (put_elem buf (start + 1) (or 0x20 (byte_order_bit ord))) (\<lambda>buf.
     and_then (put_elem buf (start + 2) (of_nat (precision - 1))) (\<lambda>buf.
     and_then (write_u32_le buf (start + 4) sz) (\<lambda>buf.
     and_then (write_u16_le buf (start + 10) precision) (\<lambda>buf.
     and_then (put_elem buf (start + 12) (of_nat mant_bits)) (\<lambda>buf.
     and_then (put_elem buf (start + 13) (of_nat exp_bits)) (\<lambda>buf.
     and_then (put_elem buf (start + 14) 0) (\<lambda>buf.
     and_then (put_elem buf (start + 15) (of_nat mant_bits)) (\<lambda>buf.
     and_then (write_u32_le buf (start + 16) (2 ^ (exp_bits - 1) - 1)) (\<lambda>buf.
       Inr (buf, FLOAT_DT_BODY)))))))))))))"

datatype str_pad = NullTerm | NullPad

definition pad_nibble :: "str_pad \<Rightarrow> byte" where
  "pad_nibble p = (case p of NullTerm \<Rightarrow> 0x00 | NullPad \<Rightarrow> 0x01)"

text \<open>\<^verbatim>\<open>StrCharset\<close> has the values of the reader's \<^verbatim>\<open>Charset\<close>.\<close>

definition charset_nibble :: "charset \<Rightarrow> byte" where
  "charset_nibble c = (case c of Ascii \<Rightarrow> 0x00 | Utf8 \<Rightarrow> 0x10)"

definition write_string_dtype :: "bytes \<Rightarrow> nat \<Rightarrow> nat \<Rightarrow> str_pad \<Rightarrow> charset \<Rightarrow> (bytes \<times> nat) res" where
  "write_string_dtype buf start len pad cs =
     and_then (fill_zero buf start STRING_DT_BODY) (\<lambda>buf.
     and_then (put_elem buf start 0x13) (\<lambda>buf.
     and_then (put_elem buf (start + 1) (or (charset_nibble cs) (pad_nibble pad))) (\<lambda>buf.
     and_then (write_u32_le buf (start + 4) len) (\<lambda>buf.
       Inr (buf, STRING_DT_BODY)))))"

definition write_ref_dtype :: "bytes \<Rightarrow> nat \<Rightarrow> (bytes \<times> nat) res" where
  "write_ref_dtype buf start =
     and_then (fill_zero buf start REF_DT_BODY) (\<lambda>buf.
     and_then (put_elem buf start 0x17) (\<lambda>buf.
     and_then (write_u32_le buf (start + 4) 8) (\<lambda>buf.
       Inr (buf, REF_DT_BODY))))"

definition write_vlen_str_dtype :: "bytes \<Rightarrow> nat \<Rightarrow> (bytes \<times> nat) res" where
  "write_vlen_str_dtype buf start =
     and_then (fill_zero buf start VLEN_DT_BODY) (\<lambda>buf.
     and_then (put_elem buf start 0x19) (\<lambda>buf.
     and_then (put_elem buf (start + 1) 0x01) (\<lambda>buf.
     and_then (put_elem buf (start + 2) 0x01) (\<lambda>buf.
     and_then (write_u32_le buf (start + 4) VLEN_REF_SIZE) (\<lambda>buf.
     and_then (write_string_dtype buf (start + STRING_DT_BODY) 1 NullTerm Utf8) (\<lambda>(buf, _).
       Inr (buf, VLEN_DT_BODY)))))))"

definition VLEN_REF_DT_BODY_BYTES :: bytes where
  "VLEN_REF_DT_BODY_BYTES =
     [0x19, 0x00, 0x00, 0x00, 0x10, 0x00, 0x00, 0x00,
      0x17, 0x00, 0x00, 0x00, 0x08, 0x00, 0x00, 0x00]"

definition REF_INDEX_DT_BODY_BYTES :: bytes where
  "REF_INDEX_DT_BODY_BYTES =
     [0x16, 0x02, 0x00, 0x00, 0x0c, 0x00, 0x00, 0x00]
     @ [0x64, 0x61, 0x74, 0x61, 0x73, 0x65, 0x74, 0x00]
     @ [0x00, 0x00, 0x00, 0x00, 0x00, 0x00, 0x00, 0x00, 0x00, 0x00, 0x00, 0x00, 0x00, 0x00, 0x00, 0x00,
        0x00, 0x00, 0x00, 0x00, 0x00, 0x00, 0x00, 0x00, 0x00, 0x00, 0x00, 0x00, 0x00, 0x00, 0x00, 0x00]
     @ [0x17, 0x00, 0x00, 0x00, 0x08, 0x00, 0x00, 0x00]
     @ [0x64, 0x69, 0x6d, 0x65, 0x6e, 0x73, 0x69, 0x6f, 0x6e, 0x00, 0x00, 0x00, 0x00, 0x00, 0x00, 0x00]
     @ [0x08, 0x00, 0x00, 0x00, 0x00, 0x00, 0x00, 0x00, 0x00, 0x00, 0x00, 0x00, 0x00, 0x00, 0x00, 0x00,
        0x00, 0x00, 0x00, 0x00, 0x00, 0x00, 0x00, 0x00, 0x00, 0x00, 0x00, 0x00, 0x00, 0x00, 0x00, 0x00]
     @ [0x10, 0x00, 0x00, 0x00, 0x04, 0x00, 0x00, 0x00, 0x00, 0x00, 0x20, 0x00]"

definition BOOL_ENUM_DT_BODY_BYTES :: bytes where
  "BOOL_ENUM_DT_BODY_BYTES =
     [0x18, 0x02, 0x00, 0x00, 0x01, 0x00, 0x00, 0x00]
     @ [0x10, 0x08, 0x00, 0x00, 0x01, 0x00, 0x00, 0x00, 0x00, 0x00, 0x08, 0x00]
     @ [0x46, 0x41, 0x4c, 0x53, 0x45, 0x00, 0x00, 0x00]
     @ [0x54, 0x52, 0x55, 0x45, 0x00, 0x00, 0x00, 0x00]
     @ [0x00, 0x01]"

definition write_vlen_ref_dtype :: "bytes \<Rightarrow> nat \<Rightarrow> (bytes \<times> nat) res" where
  "write_vlen_ref_dtype buf start =
     and_then (put_range buf start VLEN_REF_DT_BODY_BYTES) (\<lambda>buf. Inr (buf, VLEN_REF_DT_BODY))"

definition write_ref_index_dtype :: "bytes \<Rightarrow> nat \<Rightarrow> (bytes \<times> nat) res" where
  "write_ref_index_dtype buf start =
     and_then (put_range buf start REF_INDEX_DT_BODY_BYTES) (\<lambda>buf. Inr (buf, REF_INDEX_DT_BODY))"

definition write_bool_enum_dtype :: "bytes \<Rightarrow> nat \<Rightarrow> (bytes \<times> nat) res" where
  "write_bool_enum_dtype buf start =
     and_then (put_range buf start BOOL_ENUM_DT_BODY_BYTES) (\<lambda>buf. Inr (buf, BOOL_ENUM_DT_BODY))"

definition write_datatype_body :: "bytes \<Rightarrow> nat \<Rightarrow> elem_type \<Rightarrow> (bytes \<times> nat) res" where
  "write_datatype_body buf start t =
     (case elem_spec_of t of
        Spec_Fixed sz sg ord \<Rightarrow> write_fixed_dtype buf start sz sg ord
      | Spec_FloatIeee sz ord \<Rightarrow> write_float_dtype buf start sz ord
      | Spec_VlenStr \<Rightarrow> write_vlen_str_dtype buf start
      | Spec_FixedStr width \<Rightarrow> write_string_dtype buf start width NullPad Ascii
      | Spec_Bool \<Rightarrow> write_bool_enum_dtype buf start)"

definition write_nested_datatype_body :: "bytes \<Rightarrow> nat \<Rightarrow> elem_type \<Rightarrow> (bytes \<times> nat) res" where
  "write_nested_datatype_body buf start t =
     (let padded = dt_body_size t in
      and_then (write_datatype_body (replicate padded 0) 0 t) (\<lambda>(scratch, n).
      and_then (check_size n padded) (\<lambda>_.
      let natural = nested_dt_body_size t in
      and_then (slice scratch 0 natural) (\<lambda>bs.
      and_then (put_range buf start bs) (\<lambda>buf. Inr (buf, natural))))))"

section \<open>From the reader's types\<close>

definition numeric_of :: "dtype \<Rightarrow> (num_type \<times> byte_order) option" where
  "numeric_of dt = (case dt of
     Float sz ord \<Rightarrow>
       (if sz = 2 then Some (Num_F16, ord) else if sz = 4 then Some (Num_F32, ord)
        else if sz = 8 then Some (Num_F64, ord) else None)
   | Int_t sz True ord \<Rightarrow>
       (if sz = 1 then Some (Num_I8, ord) else if sz = 2 then Some (Num_I16, ord)
        else if sz = 4 then Some (Num_I32, ord) else if sz = 8 then Some (Num_I64, ord) else None)
   | Int_t sz False ord \<Rightarrow>
       (if sz = 1 then Some (Num_U8, ord) else if sz = 2 then Some (Num_U16, ord)
        else if sz = 4 then Some (Num_U32, ord) else if sz = 8 then Some (Num_U64, ord) else None)
   | _ \<Rightarrow> None)"

definition dtype_to_elem_type :: "dtype \<Rightarrow> elem_type res" where
  "dtype_to_elem_type dt =
     (case numeric_of dt of Some (num, ord) \<Rightarrow> Inr (as_elem num ord) | None \<Rightarrow> Inl Format)"

definition member_elem_type :: "dtype \<Rightarrow> elem_type res" where
  "member_elem_type dt = (case dt of
     String (Some width) _ \<Rightarrow>
       and_then (narrow u32_lim width) (\<lambda>width. if width = 0 then Inl Format else Inr (FixedStr width))
   | _ \<Rightarrow> dtype_to_elem_type dt)"


section \<open>The encodings\<close>

definition enc_fixed :: "nat \<Rightarrow> bool \<Rightarrow> byte_order \<Rightarrow> bytes" where
  "enc_fixed sz sg ord =
     [0x10, or (byte_order_bit ord) (if sg then 0x08 else 0), 0, 0] @ to_le 4 sz @ [0, 0] @ to_le 2 (sz * 8)"

definition enc_float :: "nat \<Rightarrow> nat \<Rightarrow> byte_order \<Rightarrow> bytes" where
  "enc_float sz exp_bits ord =
     (let mant = sz * 8 - exp_bits - 1 in
      [0x11, or 0x20 (byte_order_bit ord), of_nat (sz * 8 - 1), 0] @ to_le 4 sz @ [0, 0] @ to_le 2 (sz * 8)
      @ [of_nat mant, of_nat exp_bits, 0, of_nat mant] @ to_le 4 (2 ^ (exp_bits - 1) - 1))"

definition enc_string :: "nat \<Rightarrow> str_pad \<Rightarrow> charset \<Rightarrow> bytes" where
  "enc_string len pad cs = [0x13, or (charset_nibble cs) (pad_nibble pad), 0, 0] @ to_le 4 len"

definition enc_elem :: "elem_type \<Rightarrow> bytes" where
  "enc_elem t = (case elem_spec_of t of
     Spec_Fixed sz sg ord \<Rightarrow> enc_fixed sz sg ord
   | Spec_FloatIeee sz ord \<Rightarrow> enc_float sz (the (ieee_exp_bits sz)) ord
   | Spec_VlenStr \<Rightarrow> [0x19, 1, 1, 0] @ to_le 4 VLEN_REF_SIZE @ enc_string 1 NullTerm Utf8
   | Spec_FixedStr width \<Rightarrow> enc_string width NullPad Ascii
   | Spec_Bool \<Rightarrow> BOOL_ENUM_DT_BODY_BYTES)"

definition enc_elem_padded :: "elem_type \<Rightarrow> bytes" where
  "enc_elem_padded t = enc_elem t @ replicate (dt_body_size t - nested_dt_body_size t) 0"

lemma length_enc_string [simp]: "length (enc_string len pad cs) = 8"
  by (simp add: enc_string_def)

lemma num_spec_cases:
  obtains sz sg where "num_spec n ord = Spec_Fixed sz sg ord" "sz \<in> {1, 2, 4, 8}"
  | sz where "num_spec n ord = Spec_FloatIeee sz ord" "sz \<in> {2, 4, 8}"
  by (cases n) auto

lemma elem_spec_cases:
  obtains (Fixed) sz sg ord where "elem_spec_of t = Spec_Fixed sz sg ord" "sz \<in> {1, 2, 4, 8}"
  | (Float) sz ord where "elem_spec_of t = Spec_FloatIeee sz ord" "sz \<in> {2, 4, 8}"
  | (Vlen) "t = VlenStr"
  | (Str) width where "t = FixedStr width"
  | (Bool) "t = Bool"
proof (cases t)
  case (BigEndian n)
  then show ?thesis using that num_spec_cases[of n Big] by (metis elem_spec_of.simps(12))
qed (use that in auto)

lemma length_enc_elem [simp]: "length (enc_elem t) = nested_dt_body_size t"
  by (cases t rule: elem_spec_cases)
    (auto simp: enc_elem_def enc_fixed_def enc_float_def Let_def nested_dt_body_size_def BOOL_ENUM_DT_BODY_BYTES_def)

lemma nested_le_padded: "nested_dt_body_size t \<le> dt_body_size t"
  by (simp add: nested_dt_body_size_def dt_body_size_def split: elem_spec.splits)

lemma length_enc_elem_padded [simp]: "length (enc_elem_padded t) = dt_body_size t"
  using nested_le_padded[of t] by (simp add: enc_elem_padded_def)

text \<open>The next field of a zeroed structure, possibly after bytes that stay zero.\<close>

lemma put_range_at:
  assumes "a + length xs \<le> off" and "off + length ys \<le> a + length xs + k" and "a + length xs + k \<le> length buf"
  shows "put_range (splice buf a (region xs k)) off ys
    = Inr (splice buf a (region (xs @ replicate (off - (a + length xs)) 0 @ ys) (k - (off - (a + length xs)) - length ys)))"
  using put_range_next[of off a "xs @ replicate (off - (a + length xs)) 0" "k - (off - (a + length xs))" buf ys]
    region_skip[of "off - (a + length xs)" k xs] assms by simp

lemma replicate_small [simp]: "replicate 2 x = [x, x]" "replicate 3 x = [x, x, x]" "replicate 4 x = [x, x, x, x]"
  by (simp_all add: numeral_eq_Suc)

lemma fill_zero_region: "a + n \<le> length buf \<Longrightarrow> fill_zero buf a n = Inr (splice buf a (region [] n))"
  by (simp add: fill_zero_def put_range_def region_def)

lemmas fields_at = fill_zero_region put_elem_range put_range_at write_defs

lemma write_fixed_enc:
  assumes "start + 16 \<le> length buf"
  shows "write_fixed_dtype buf start sz sg ord = Inr (splice buf start (enc_fixed sz sg ord @ replicate 4 0), 16)"
  using assms
  by (simp add: write_fixed_dtype_def fields_at del: to_le.simps) (simp add: region_def enc_fixed_def del: to_le.simps)

lemma write_float_enc:
  assumes "start + 24 \<le> length buf" and "ieee_exp_bits sz = Some e"
  shows "write_float_dtype buf start sz ord = Inr (splice buf start (enc_float sz e ord @ replicate 4 0), 24)"
  using assms
  by (simp add: write_float_dtype_def Let_def fields_at del: to_le.simps)
    (simp add: region_def enc_float_def Let_def del: to_le.simps)

lemma write_string_enc:
  assumes "start + 8 \<le> length buf"
  shows "write_string_dtype buf start len pad cs = Inr (splice buf start (enc_string len pad cs), 8)"
  using assms
  by (simp add: write_string_dtype_def fields_at del: to_le.simps) (simp add: region_def enc_string_def del: to_le.simps)

lemma write_ref_enc:
  assumes "start + 8 \<le> length buf"
  shows "write_ref_dtype buf start = Inr (splice buf start ([0x17, 0, 0, 0] @ to_le 4 8), 8)"
  using assms
  by (simp add: write_ref_dtype_def fields_at del: to_le.simps) (simp add: region_def del: to_le.simps)

lemma write_vlen_str_enc:
  assumes "start + 16 \<le> length buf"
  shows "write_vlen_str_dtype buf start
    = Inr (splice buf start ([0x19, 1, 1, 0] @ to_le 4 16 @ enc_string 1 NullTerm Utf8), 16)"
proof -
  let ?h = "[0x19, 1, 1, 0] @ to_le 4 16" and ?e = "enc_string 1 NullTerm Utf8"
  have "write_string_dtype (splice buf start (region ?h 8)) (start + 8) 1 NullTerm Utf8
      = Inr (splice (splice buf start (region ?h 8)) (start + 8) ?e, 8)"
    using assms by (intro write_string_enc) (simp add: region_def)
  moreover have "splice (splice buf start (region ?h 8)) (start + 8) ?e = splice buf start (splice (region ?h 8) 8 ?e)"
    using assms by (intro splice_inside) (simp_all add: region_def)
  moreover have "splice (region ?h 8) 8 ?e = ?h @ ?e" by (simp add: splice_def region_def)
  ultimately show ?thesis using assms
    by (simp add: write_vlen_str_dtype_def fields_at del: to_le.simps)
qed

lemma write_datatype_enc:
  assumes "start + dt_body_size t \<le> length buf"
  shows "write_datatype_body buf start t = Inr (splice buf start (enc_elem_padded t), dt_body_size t)"
proof (cases t rule: elem_spec_cases)
  case Fixed
  then show ?thesis using assms
    by (simp add: write_datatype_body_def enc_elem_padded_def enc_elem_def dt_body_size_def nested_dt_body_size_def write_fixed_enc)
next
  case (Float sz ord)
  then have "\<exists>e. ieee_exp_bits sz = Some e" by (auto simp: ieee_exp_bits_def)
  then show ?thesis using assms Float
    by (auto simp: write_datatype_body_def enc_elem_padded_def enc_elem_def dt_body_size_def nested_dt_body_size_def write_float_enc)
next
  case Vlen
  then show ?thesis using assms
    by (simp add: write_datatype_body_def enc_elem_padded_def enc_elem_def dt_body_size_def nested_dt_body_size_def write_vlen_str_enc)
next
  case Str
  then show ?thesis using assms
    by (simp add: write_datatype_body_def enc_elem_padded_def enc_elem_def dt_body_size_def nested_dt_body_size_def write_string_enc)
next
  case Bool
  then show ?thesis using assms
    by (simp add: write_datatype_body_def enc_elem_padded_def enc_elem_def dt_body_size_def nested_dt_body_size_def
        write_bool_enum_dtype_def BOOL_ENUM_DT_BODY_BYTES_def put_range_def)
qed

lemma write_nested_enc:
  assumes "start + nested_dt_body_size t \<le> length buf"
  shows "write_nested_datatype_body buf start t = Inr (splice buf start (enc_elem t), nested_dt_body_size t)"
proof -
  have "write_datatype_body (replicate (dt_body_size t) 0) 0 t = Inr (enc_elem_padded t, dt_body_size t)"
    using write_datatype_enc[of 0 t "replicate (dt_body_size t) 0"] by simp
  moreover have "take (nested_dt_body_size t) (enc_elem_padded t) = enc_elem t" by (simp add: enc_elem_padded_def)
  ultimately show ?thesis using assms nested_le_padded[of t]
    by (simp add: write_nested_datatype_body_def Let_def check_size_def slice_def get_range_def put_range_def)
qed


section \<open>Reading element types back\<close>

text \<open>The reader's type of an element type.\<close>

definition ascii_FALSE :: str where "ascii_FALSE = [0x46, 0x41, 0x4c, 0x53, 0x45]"
definition ascii_TRUE :: str where "ascii_TRUE = [0x54, 0x52, 0x55, 0x45]"

definition dtype_of :: "elem_type \<Rightarrow> dtype" where
  "dtype_of t = (case elem_spec_of t of
     Spec_Fixed sz sg ord \<Rightarrow> Int_t sz sg ord
   | Spec_FloatIeee sz ord \<Rightarrow> Float sz ord
   | Spec_VlenStr \<Rightarrow> String None Utf8
   | Spec_FixedStr width \<Rightarrow> String (Some width) Ascii
   | Spec_Bool \<Rightarrow> Enum (Int_t 1 True Little) [(ascii_FALSE, 0), (ascii_TRUE, 1)])"

definition elem_ok :: "elem_type \<Rightarrow> bool" where
  "elem_ok t \<longleftrightarrow> (\<forall>w. t = FixedStr w \<longrightarrow> w < u32_lim)"

lemmas parse_eval = index_def get_elem_def dt_read_u32_le_eq field_eval order_of_def Let_def

lemma parse_fixed:
  assumes "sz < u32_lim" and "depth \<le> 32"
  shows "parse_datatype_consuming (enc_fixed sz sg ord @ rest) depth = Inr (Int_t sz sg ord, 12)"
  unfolding parse_datatype_consuming.simps[of _ depth] using assms
  by (cases ord; cases sg) (simp_all add: enc_fixed_def byte_order_bit_def parse_eval del: to_le.simps)

lemma parse_float:
  assumes "sz < u32_lim" and "depth \<le> 32"
  shows "parse_datatype_consuming (enc_float sz e ord @ rest) depth = Inr (Float sz ord, 20)"
  unfolding parse_datatype_consuming.simps[of _ depth] using assms
  by (cases ord) (simp_all add: enc_float_def byte_order_bit_def parse_eval del: to_le.simps)

lemma parse_string:
  assumes "len < u32_lim" and "depth \<le> 32"
  shows "parse_datatype_consuming (enc_string len pad cs @ rest) depth = Inr (String (Some len) cs, 8)"
  unfolding parse_datatype_consuming.simps[of _ depth] using assms
  by (cases cs; cases pad)
    (simp_all add: enc_string_def charset_nibble_def pad_nibble_def parse_eval del: to_le.simps)

lemma parse_vlen_str:
  assumes "depth \<le> 31"
  shows "parse_datatype_consuming ([0x19, 1, 1, 0] @ to_le 4 16 @ enc_string 1 NullTerm Utf8 @ rest) depth
    = Inr (String None Utf8, 16)"
  unfolding parse_datatype_consuming.simps[of _ depth] using assms
  by (simp add: parse_vlen_def parse_string parse_eval del: to_le.simps)


lemma parse_bool:
  assumes "depth \<le> 31"
  shows "parse_datatype_consuming (BOOL_ENUM_DT_BODY_BYTES @ rest) depth
    = Inr (Enum (Int_t 1 True Little) [(ascii_FALSE, 0), (ascii_TRUE, 1)], 38)"
proof -
  let ?h = "[0x18, 0x02, 0x00, 0x00, 0x01, 0x00, 0x00, 0x00] :: bytes"
  let ?t = "[0x46, 0x41, 0x4c, 0x53, 0x45, 0, 0, 0, 0x54, 0x52, 0x55, 0x45, 0, 0, 0, 0, 0, 1] @ rest"
  have e: "enc_fixed 1 True Little = [0x10, 0x08, 0, 0, 1, 0, 0, 0, 0, 0, 8, 0]"
    by (simp add: enc_fixed_def byte_order_bit_def le_eval)
  note e1 = e[unfolded One_nat_def]
  have b: "BOOL_ENUM_DT_BODY_BYTES @ rest = ?h @ enc_fixed 1 True Little @ ?t"
    by (simp add: BOOL_ENUM_DT_BODY_BYTES_def e1)
  have base: "parse_datatype_consuming (enc_fixed 1 True Little @ ?t) (Suc depth) = Inr (Int_t 1 True Little, 12)"
    using assms by (intro parse_fixed) simp_all
  have "parse_enum (\<lambda>b. parse_datatype_consuming b (Suc depth)) (?h @ enc_fixed 1 True Little @ ?t) 1 1
      = Inr (Enum (Int_t 1 True Little) [(ascii_FALSE, 0), (ascii_TRUE, 1)], 38)"
    using base
    by (simp add: parse_enum_def member_count_def e1 index_def get_elem_def enum_name_def enum_value_def
        read_nul_string_padded_def upt_rec utf8_or_empty_def align8_def slice_def get_range_def read_int_as_i64_def
        ascii_FALSE_def ascii_TRUE_def)
  then show ?thesis
    unfolding parse_datatype_consuming.simps[of _ depth] b using assms
    by (simp add: index_def get_elem_def dt_read_u32_le_eq field_def Let_def e1)
qed

lemma parse_enc_elem:
  assumes "elem_ok t" and "depth \<le> 31"
  shows "parse_datatype_consuming (enc_elem t @ rest) depth = Inr (dtype_of t, nested_dt_body_size t)"
proof (cases t rule: elem_spec_cases)
  case Fixed
  then show ?thesis using assms
    by (auto simp: enc_elem_def dtype_of_def nested_dt_body_size_def intro!: parse_fixed)
next
  case Float
  then show ?thesis using assms
    by (auto simp: enc_elem_def dtype_of_def nested_dt_body_size_def intro!: parse_float)
next
  case Vlen
  then show ?thesis using parse_vlen_str[OF assms(2), of rest]
    by (simp add: enc_elem_def dtype_of_def nested_dt_body_size_def)
next
  case Str
  then show ?thesis using assms
    by (simp add: enc_elem_def dtype_of_def nested_dt_body_size_def elem_ok_def parse_string)
next
  case Bool
  then show ?thesis using assms
    by (simp add: enc_elem_def dtype_of_def nested_dt_body_size_def parse_bool)
qed

lemma parse_enc_elem_padded: "elem_ok t \<Longrightarrow> parse_datatype (enc_elem_padded t) = Inr (dtype_of t)"
  by (simp add: parse_datatype_def enc_elem_padded_def parse_enc_elem)

text \<open>
  C12. The datatype message of every element type the writer supports, written into any buffer
  with room for it, fills exactly the reserved bytes, leaves the rest of the buffer alone and is
  read back as the type it describes, with the element size of the writer's table.
\<close>

theorem elem_datatype_round_trip:
  assumes "elem_ok t" and "start + dt_body_size t \<le> length buf"
  shows "\<exists>b. write_datatype_body buf start t = Inr (b, dt_body_size t) \<and> length b = length buf
    \<and> take start b = take start buf \<and> drop (start + dt_body_size t) b = drop (start + dt_body_size t) buf
    \<and> parse_datatype (take (dt_body_size t) (drop start b)) = Inr (dtype_of t)
    \<and> (t \<noteq> VlenStr \<longrightarrow> dtype_size (dtype_of t) = Inr (Some (byte_size t)))"
proof -
  have "dtype_size (dtype_of t) = Inr (Some (byte_size t))" if "t \<noteq> VlenStr"
    using that by (cases t rule: elem_spec_cases) (auto simp: dtype_of_def byte_size_def)
  moreover have "take start (splice buf start (enc_elem_padded t)) = take start buf"
    "drop (start + dt_body_size t) (splice buf start (enc_elem_padded t)) = drop (start + dt_body_size t) buf"
    using assms(2) by (simp_all add: splice_def)
  ultimately show ?thesis using assms
    by (simp add: write_datatype_enc drop_splice parse_enc_elem_padded)
qed

theorem elem_datatype_round_trip_witness:
  "\<exists>b. write_datatype_body (replicate 50 7) 4 Bool = Inr (b, 38)
    \<and> parse_datatype (take 38 (drop 4 b)) = Inr (Enum (Int_t 1 True Little) [(ascii_FALSE, 0), (ascii_TRUE, 1)])"
  using elem_datatype_round_trip[of Bool 4 "replicate 50 7"]
  by (auto simp: elem_ok_def dt_body_size_def dtype_of_def)

end
