(* ===== verification/Write_Dtype.thy ===== *)
theory Write_Dtype
  imports Write_Elem
begin

text \<open>
  The structured datatypes of \<^verbatim>\<open>oxih5/src/write/dtype.rs\<close>: compound, variable-length
  sequence, array, opaque and bitfield. Each encoder checks its arguments, sizes the message
  body, allocates it zeroed and fills it in; the theorems read the body back with the parser of
  theory \<open>Datatype\<close>. The diagnostic label of an encoded type is left out.
\<close>

record encoded_dtype =
  ed_body :: bytes
  ed_elem_size :: nat
  ed_vlen_base :: "elem_type option"

abbreviation (input) MEMBER_DIM_BLOCK :: nat where "MEMBER_DIM_BLOCK \<equiv> 28"
abbreviation (input) DT_PREFIX :: nat where "DT_PREFIX \<equiv> 8"
abbreviation (input) MAX_COMPOUND_MEMBERS :: nat where "MAX_COMPOUND_MEMBERS \<equiv> 16777215"
abbreviation (input) MAX_ARRAY_DIMS :: nat where "MAX_ARRAY_DIMS \<equiv> 32"

definition class_version :: "byte \<Rightarrow> byte" where
  "class_version cls = or 0x10 cls"

section \<open>Compound\<close>

type_synonym member = "compound_field \<times> elem_type"

definition mark_slot :: "nat \<Rightarrow> bool list \<Rightarrow> bool list res" where
  "mark_slot i occupied =
     and_then (index occupied i) (\<lambda>slot. if slot then Inl Format else put_elem occupied i True)"

definition check_member ::
  "compound_field list \<Rightarrow> nat \<Rightarrow> compound_field \<Rightarrow> bool list \<times> member list \<Rightarrow> (bool list \<times> member list) res" where
  "check_member fds struct_size f = (\<lambda>(occupied, members).
     if cf_name f = [] then Inl Format
     else if 0 \<in> set (cf_name f) then Inl Format
     else if length (filter (\<lambda>g. cf_name g = cf_name f) fds) > 1 then Inl Format
     else
       and_then (member_elem_type (cf_dtype f)) (\<lambda>elem.
       and_then (ok_or (checked_add (cf_offset f) (byte_size elem)) Format) (\<lambda>e.
         if e > struct_size then Inl Format
         else
           and_then (fold_res mark_slot [cf_offset f..<e] occupied) (\<lambda>occupied.
             Inr (occupied, members @ [(f, elem)])))))"

definition member_size :: "member \<Rightarrow> nat" where
  "member_size = (\<lambda>(f, elem). align8 (length (cf_name f) + 1) + 4 + MEMBER_DIM_BLOCK + nested_dt_body_size elem)"

definition write_member :: "member \<Rightarrow> bytes \<times> nat \<Rightarrow> (bytes \<times> nat) res" where
  "write_member = (\<lambda>(f, elem) (body, pos).
     let name_span = align8 (length (cf_name f) + 1) in
     and_then (put_range body pos (cf_name f)) (\<lambda>body.
     let pos = pos + name_span in
     and_then (narrow u32_lim (cf_offset f)) (\<lambda>off.
     and_then (write_u32_le body pos off) (\<lambda>body.
     let pos = pos + 4 + MEMBER_DIM_BLOCK in
     and_then (write_nested_datatype_body body pos elem) (\<lambda>(body, n).
       Inr (body, pos + n))))))"

definition compound :: "compound_field list \<Rightarrow> nat \<Rightarrow> encoded_dtype res" where
  "compound fds struct_size =
     (if fds = [] then Inl Format
      else if length fds > MAX_COMPOUND_MEMBERS then Inl Format
      else if struct_size = 0 then Inl Format
      else if struct_size > isize_max then Inl Panic
      else
        and_then (fold_res (check_member fds struct_size) fds (replicate struct_size False, [])) (\<lambda>(_, members).
        let body_size = DT_PREFIX + sum_list (map member_size members);
            count = length members in
        and_then (vec_zeros body_size) (\<lambda>body.
        and_then (put_elem body 0 (class_version 6)) (\<lambda>body.
        and_then (put_elem body 1 (of_nat (count mod 256))) (\<lambda>body.
        and_then (put_elem body 2 (of_nat (count div 256 mod 256))) (\<lambda>body.
        and_then (put_elem body 3 (of_nat (count div 65536 mod 256))) (\<lambda>body.
        and_then (narrow u32_lim struct_size) (\<lambda>sz.
        and_then (write_u32_le body 4 sz) (\<lambda>body.
        and_then (fold_res write_member members (body, DT_PREFIX)) (\<lambda>(body, pos).
        and_then (check_size pos body_size) (\<lambda>_.
          Inr \<lparr>ed_body = body, ed_elem_size = struct_size, ed_vlen_base = None\<rparr>)))))))))))"

section \<open>Variable-length sequence\<close>

definition vlen_sequence :: "elem_type \<Rightarrow> encoded_dtype res" where
  "vlen_sequence base =
     (if base = VlenStr then Inl Format
      else
        let body_size = DT_PREFIX + nested_dt_body_size base in
        and_then (vec_zeros body_size) (\<lambda>body.
        and_then (put_elem body 0 (class_version 9)) (\<lambda>body.
        and_then (narrow u32_lim VLEN_REF_SIZE) (\<lambda>sz.
        and_then (write_u32_le body 4 sz) (\<lambda>body.
        and_then (write_nested_datatype_body body DT_PREFIX base) (\<lambda>(body, wrote).
        and_then (check_size (DT_PREFIX + wrote) body_size) (\<lambda>_.
          Inr \<lparr>ed_body = body, ed_elem_size = VLEN_REF_SIZE, ed_vlen_base = Some base\<rparr>)))))))"

section \<open>Array\<close>

definition array_extent :: "nat list \<Rightarrow> nat res" where
  "array_extent dims =
     fold_res (\<lambda>dim count. if dim = 0 then Inl Format else ok_or (checked_mul count dim) Format) dims 1"

definition write_array_dim :: "nat list \<Rightarrow> nat \<Rightarrow> nat \<Rightarrow> bytes \<Rightarrow> bytes res" where
  "write_array_dim dims dims_start i body =
     and_then (narrow u32_lim (dims ! i)) (\<lambda>dim.
     and_then (write_u32_le body (dims_start + i * 4) dim) (\<lambda>body.
     and_then (narrow u32_lim i) (\<lambda>perm.
       write_u32_le body (dims_start + length dims * 4 + i * 4) perm)))"

definition array_dtype :: "elem_type \<Rightarrow> nat list \<Rightarrow> encoded_dtype res" where
  "array_dtype base dims =
     (if dims = [] then Inl Format
      else if length dims > MAX_ARRAY_DIMS then Inl Format
      else
        and_then (array_extent dims) (\<lambda>count.
        and_then (ok_or (checked_mul count (byte_size base)) Format) (\<lambda>elem_size.
        let dims_start = DT_PREFIX + 4;
            perm_end = dims_start + length dims * 8;
            body_size = perm_end + nested_dt_body_size base in
        and_then (vec_zeros body_size) (\<lambda>body.
        and_then (put_elem body 0 (or (push_bit 4 2) 10)) (\<lambda>body.
        and_then (narrow u32_lim elem_size) (\<lambda>sz.
        and_then (write_u32_le body 4 sz) (\<lambda>body.
        and_then (narrow 256 (length dims)) (\<lambda>nd.
        and_then (put_elem body DT_PREFIX (of_nat nd)) (\<lambda>body.
        and_then (fold_res (write_array_dim dims dims_start) [0..<length dims] body) (\<lambda>body.
        and_then (write_nested_datatype_body body perm_end base) (\<lambda>(body, wrote).
        and_then (check_size (perm_end + wrote) body_size) (\<lambda>_.
          Inr \<lparr>ed_body = body, ed_elem_size = elem_size, ed_vlen_base = None\<rparr>))))))))))))"

section \<open>Opaque and bitfield\<close>

definition opaque :: "nat \<Rightarrow> str \<Rightarrow> encoded_dtype res" where
  "opaque sz tag =
     (if sz = 0 then Inl Format
      else if 0 \<in> set tag then Inl Format
      else
        let tag_span = align8 (length tag + 1) in
        and_then (narrow 256 tag_span) (\<lambda>tag_len.
        let body_size = DT_PREFIX + tag_span in
        and_then (vec_zeros body_size) (\<lambda>body.
        and_then (put_elem body 0 (class_version 5)) (\<lambda>body.
        and_then (put_elem body 1 (of_nat tag_len)) (\<lambda>body.
        and_then (narrow u32_lim sz) (\<lambda>sz4.
        and_then (write_u32_le body 4 sz4) (\<lambda>body.
        and_then (put_range body DT_PREFIX tag) (\<lambda>body.
          Inr \<lparr>ed_body = body, ed_elem_size = sz, ed_vlen_base = None\<rparr>))))))))"

definition bitfield :: "nat \<Rightarrow> byte_order \<Rightarrow> encoded_dtype res" where
  "bitfield sz ord =
     (if sz = 0 \<or> sz > 8 then Inl Format
      else
        let body_size = DT_PREFIX + 4 in
        and_then (vec_zeros body_size) (\<lambda>body.
        and_then (put_elem body 0 (class_version 4)) (\<lambda>body.
        and_then (put_elem body 1 (case ord of Little \<Rightarrow> 0x00 | Big \<Rightarrow> 0x01)) (\<lambda>body.
        and_then (narrow u32_lim sz) (\<lambda>sz4.
        and_then (write_u32_le body 4 sz4) (\<lambda>body.
        and_then (write_u16_le body 10 (sz * 8)) (\<lambda>body.
          Inr \<lparr>ed_body = body, ed_elem_size = sz, ed_vlen_base = None\<rparr>)))))))"


section \<open>Reading items one after the other\<close>

text \<open>
  A loop of the parser over encoded items: when each step reads one item where it lies and
  moves behind it, the loop reads them all. Interpreted for the members of a compound.
\<close>

locale encoded_items =
  fixes enc :: "'x \<Rightarrow> bytes" and step :: "bytes \<Rightarrow> nat \<times> 'y list \<Rightarrow> (nat \<times> 'y list) res"
    and val :: "'x \<Rightarrow> 'y" and ok :: "'x \<Rightarrow> bool"
  assumes step: "ok x \<Longrightarrow> drop pos body = enc x @ rest \<Longrightarrow> pos \<le> length body \<Longrightarrow> length body \<le> isize_max \<Longrightarrow>
      step body (pos, acc) = Inr (pos + length (enc x), acc @ [val x])"
begin

lemma loop:
  assumes "\<forall>x\<in>set xs. ok x" and "drop pos body = concat (map enc xs) @ rest"
    and "pos \<le> length body" and "length body \<le> isize_max" and "length ns = length xs"
  shows "fold_res (\<lambda>_. step body) (ns :: nat list) (pos, acc) = Inr (pos + length (concat (map enc xs)), acc @ map val xs)"
  using assms
proof (induction xs arbitrary: pos acc ns)
  case (Cons x xs)
  obtain n ns' where ns: "ns = n # ns'" "length ns' = length xs" using Cons.prems(5) by (cases ns) auto
  have d: "drop pos body = enc x @ concat (map enc xs) @ rest" using Cons.prems(2) by simp
  have "length (drop pos body) = length (enc x @ concat (map enc xs) @ rest)" by (simp only: d)
  then have l: "pos + length (enc x) \<le> length body" using Cons.prems(3) by simp
  have "drop (pos + length (enc x)) body = drop (length (enc x)) (drop pos body)" by (simp add: add.commute)
  then have d': "drop (pos + length (enc x)) body = concat (map enc xs) @ rest" by (simp add: d)
  have "step body (pos, acc) = Inr (pos + length (enc x), acc @ [val x])"
    using step[OF _ d Cons.prems(3,4)] Cons.prems(1) by simp
  then show ?case
    using Cons.IH[OF _ d' l Cons.prems(4) ns(2), of "acc @ [val x]"] Cons.prems(1) by (simp add: ns add.assoc)
qed simp

end

text \<open>The writer's side: each step appends one encoded item to a zeroed structure.\<close>

locale item_writer =
  fixes enc :: "'x \<Rightarrow> bytes" and step :: "'x \<Rightarrow> bytes \<times> nat \<Rightarrow> (bytes \<times> nat) res" and ok :: "'x \<Rightarrow> bool"
  assumes step: "ok x \<Longrightarrow> pos = start + length xs \<Longrightarrow> start + length xs + k \<le> length buf \<Longrightarrow> length (enc x) \<le> k \<Longrightarrow>
      step x (splice buf start (region xs k), pos)
        = Inr (splice buf start (region (xs @ enc x) (k - length (enc x))), pos + length (enc x))"
begin

lemma loop:
  assumes "\<forall>i\<in>set items. ok i" and "start + length xs + k \<le> length buf" and "length (concat (map enc items)) \<le> k"
  shows "fold_res step items (splice buf start (region xs k), start + length xs)
    = Inr (splice buf start (region (xs @ concat (map enc items)) (k - length (concat (map enc items)))),
           start + length xs + length (concat (map enc items)))"
  using assms
proof (induction items arbitrary: xs k)
  case (Cons i items)
  have "step i (splice buf start (region xs k), start + length xs)
      = Inr (splice buf start (region (xs @ enc i) (k - length (enc i))), start + length (xs @ enc i))"
    using step[OF _ refl, of i start xs k buf] Cons.prems by simp
  then show ?case
    using Cons.IH[of "xs @ enc i" "k - length (enc i)"] Cons.prems by (simp add: add.assoc)
qed simp

end

section \<open>Members\<close>

definition enc_name :: "str \<Rightarrow> bytes" where
  "enc_name nm = nm @ replicate (align8 (length nm + 1) - length nm) 0"

definition enc_member :: "member \<Rightarrow> bytes" where
  "enc_member = (\<lambda>(f, elem).
     enc_name (cf_name f) @ to_le 4 (cf_offset f) @ replicate MEMBER_DIM_BLOCK 0 @ enc_elem elem)"

lemma length_enc_name [simp]: "length (enc_name nm) = align8 (Suc (length nm))"
  using align8_ge[of "Suc (length nm)"] by (simp add: enc_name_def)

lemma length_enc_member: "length (enc_member m) = member_size m"
  by (cases m) (simp add: enc_member_def member_size_def)

lemma write_member_enc:
  assumes "pos = start + length xs" and "start + length xs + k \<le> length buf" and "member_size (f, elem) \<le> k"
    and "cf_offset f < u32_lim"
  shows "write_member (f, elem) (splice buf start (region xs k), pos)
    = Inr (splice buf start (region (xs @ enc_member (f, elem)) (k - member_size (f, elem))), pos + member_size (f, elem))"
proof -
  let ?n = "length (cf_name f)" and ?a = "align8 (Suc (length (cf_name f)))"
  let ?k = "k - (32 + ?a)"
  let ?xs = "xs @ enc_name (cf_name f) @ to_le 4 (cf_offset f) @ replicate 28 0"
  have a: "Suc ?n \<le> ?a" by (rule align8_ge)
  have k: "?a + 32 + nested_dt_body_size elem \<le> k" using assms(3) by (simp add: member_size_def)
  have s: "region (xs @ enc_name (cf_name f) @ to_le 4 (cf_offset f)) (k - ?a - 4) = region ?xs ?k"
    using region_skip[of 28 "k - ?a - 4" "xs @ enc_name (cf_name f) @ to_le 4 (cf_offset f)"] k by simp
  have n: "write_nested_datatype_body (splice buf start (region ?xs ?k)) (32 + (start + length xs + ?a)) elem
      = Inr (splice buf start (region (?xs @ enc_elem elem) (?k - nested_dt_body_size elem)), nested_dt_body_size elem)"
  proof -
    have "write_nested_datatype_body (splice buf start (region ?xs ?k)) (start + length ?xs) elem
        = Inr (splice (splice buf start (region ?xs ?k)) (start + length ?xs) (enc_elem elem), nested_dt_body_size elem)"
      using assms(2) k by (intro write_nested_enc) (simp add: region_def)
    moreover have "put_range (splice buf start (region ?xs ?k)) (start + length ?xs) (enc_elem elem)
        = Inr (splice buf start (region (?xs @ enc_elem elem) (?k - length (enc_elem elem))))"
      using assms(2) k by (intro put_range_next) simp_all
    moreover have "start + length ?xs + length (enc_elem elem) \<le> length (splice buf start (region ?xs ?k))"
      using assms(2) k by (simp add: region_def)
    moreover have p: "32 + (start + length xs + ?a) = start + length ?xs" by simp
    ultimately show ?thesis unfolding p by (simp add: put_range_def)
  qed
  have w1: "put_range (splice buf start (region xs k)) (start + length xs) (cf_name f)
      = Inr (splice buf start (region (xs @ cf_name f) (k - ?n)))"
    using assms(2) k a by (intro put_range_next) simp_all
  have "put_range (splice buf start (region (xs @ cf_name f) (k - ?n))) (start + length xs + ?a) (to_le 4 (cf_offset f))
      = Inr (splice buf start (region ((xs @ cf_name f) @ replicate (?a - ?n) 0 @ to_le 4 (cf_offset f)) (k - ?n - (?a - ?n) - 4)))"
    using put_range_at[of start "xs @ cf_name f" "start + length xs + ?a" "to_le 4 (cf_offset f)" "k - ?n" buf] assms(2) k a by simp
  moreover have "k - ?n - (?a - ?n) - 4 = k - ?a - 4" using a k by simp
  ultimately have w2: "put_range (splice buf start (region (xs @ cf_name f) (k - ?n))) (start + length xs + ?a) (to_le 4 (cf_offset f))
      = Inr (splice buf start (region ?xs ?k))"
    using s by (simp add: enc_name_def)
  show ?thesis
    unfolding assms(1) write_member_def using assms(4)
    by (simp add: Let_def narrow_def w1 w2 write_u32_le_def n member_size_def enc_member_def del: to_le.simps)
qed


interpretation member_writer: item_writer enc_member write_member "\<lambda>m. cf_offset (fst m) < u32_lim"
proof
  fix x :: member and pos start k and xs buf :: bytes
  assume "cf_offset (fst x) < u32_lim" "pos = start + length xs" "start + length xs + k \<le> length buf" "length (enc_member x) \<le> k"
  then show "write_member x (splice buf start (region xs k), pos)
      = Inr (splice buf start (region (xs @ enc_member x) (k - length (enc_member x))), pos + length (enc_member x))"
    by (cases x) (simp add: write_member_enc length_enc_member)
qed

definition member_ok :: "member \<Rightarrow> bool" where
  "member_ok = (\<lambda>(f, elem). valid_utf8 (cf_name f) \<and> 0 \<notin> set (cf_name f) \<and> cf_offset f < u32_lim \<and> elem_ok elem)"

text \<open>The member as the reader gives it back.\<close>

definition read_member :: "member \<Rightarrow> compound_field" where
  "read_member = (\<lambda>(f, elem). CompoundField (cf_name f) (cf_offset f) (dtype_of elem))"

lemma position_nul: "0 \<notin> set nm \<Longrightarrow> position (\<lambda>b. b = 0) (nm @ 0 # ys) = Some (length nm)"
  by (auto simp: position_Some_iff nth_append in_set_conv_nth)

lemma enc_name_split: "\<exists>ys. enc_name nm = nm @ 0 # ys"
proof -
  have "align8 (length nm + 1) - length nm = Suc (align8 (length nm + 1) - length nm - 1)"
    using align8_ge[of "length nm + 1"] by simp
  then show ?thesis by (metis enc_name_def replicate_Suc)
qed

lemma read_enc_name:
  assumes "drop pos body = enc_name nm @ rest" and "valid_utf8 nm" and "0 \<notin> set nm" and "pos \<le> length body"
  shows "read_nul_string_padded body pos 1 = Inr (nm, align8 (Suc (length nm)))"
proof -
  obtain ys where "enc_name nm = nm @ 0 # ys" using enc_name_split by blast
  then have d: "drop pos body = nm @ 0 # ys @ rest" using assms(1) by simp
  then have "pos < length body" using assms(4) by (cases "pos = length body") auto
  then show ?thesis using assms(2) position_nul[OF assms(3)]
    by (simp add: read_nul_string_padded_def Let_def d utf8_or_empty_def)
qed

lemma compound_member_enc:
  assumes d: "drop pos body = enc_name nm @ to_le 4 off @ dims @ enc @ rest" and "length dims = 28"
    and rec: "rec (enc @ rest) = Inr (dt, length enc)" "enc \<noteq> []"
    and ok: "valid_utf8 nm" "0 \<notin> set nm" "off < u32_lim" and "pos \<le> length body" "length body \<le> isize_max"
  shows "compound_member rec body 1 (pos, acc) =
    Inr (pos + align8 (Suc (length nm)) + 32 + length enc, acc @ [CompoundField nm off dt])"
proof -
  let ?a = "align8 (Suc (length nm))"
  have "length (drop pos body) = ?a + (32 + (length enc + length rest))" using assms(2) by (simp add: d)
  then have l: "pos + ?a + 32 + length enc \<le> length body" using assms(8) by simp
  have n: "pos + ?a + 32 < length body" using l rec(2) by (cases enc) simp_all
  have name: "read_nul_string_padded body pos 1 = Inr (nm, ?a)"
    by (rule read_enc_name[OF d ok(1,2) assms(8)])
  have "drop (pos + ?a) body = drop ?a (drop pos body)" by (simp add: add.commute)
  then have o: "drop (pos + ?a) body = to_le 4 off @ dims @ enc @ rest" by (simp add: d)
  have off: "field 4 body (pos + ?a) = off"
    using ok(3) by (simp add: field_def o from_le_to_le)
  have "drop (pos + ?a + 32) body = drop 32 (drop (pos + ?a) body)" by (simp add: add.commute)
  then have e: "drop (pos + ?a + 32) body = enc @ rest" using assms(2) by (simp add: o)
  show ?thesis
    using l n assms(9) rec(1) name[unfolded One_nat_def] e
    by (simp add: compound_member_def dt_read_u32_le_eq off add.assoc add.commute add.left_commute)
qed

lemma compound_member_step:
  assumes "member_ok m" and "depth \<le> 30" and "drop pos body = enc_member m @ rest"
    and "pos \<le> length body" and "length body \<le> isize_max"
  shows "compound_member (\<lambda>b. parse_datatype_consuming b (Suc depth)) body 1 (pos, acc)
    = Inr (pos + length (enc_member m), acc @ [read_member m])"
proof -
  obtain f elem where m: "m = (f, elem)" by (cases m)
  have "enc_elem elem \<noteq> []"
    unfolding length_0_conv [symmetric] length_enc_elem by (simp add: nested_dt_body_size_def split: elem_spec.splits)
  then have "compound_member (\<lambda>b. parse_datatype_consuming b (Suc depth)) body 1 (pos, acc) =
      Inr (pos + align8 (Suc (length (cf_name f))) + 32 + length (enc_elem elem), acc @ [CompoundField (cf_name f) (cf_offset f) (dtype_of elem)])"
    using assms parse_enc_elem [of elem "Suc depth" rest]
    by (intro compound_member_enc [where dims = "replicate 28 0" and rest = rest])
      (simp_all add: m enc_member_def member_ok_def del: replicate_small)
  then show ?thesis by (simp add: m enc_member_def read_member_def)
qed

interpretation member_reader: encoded_items enc_member
  "\<lambda>body. compound_member (\<lambda>b. parse_datatype_consuming b (Suc depth)) body 1" read_member
  "\<lambda>m. member_ok m \<and> depth \<le> 30" for depth
  by unfold_locales (blast intro: compound_member_step)


section \<open>The checks of a compound\<close>

definition member_end :: "member \<Rightarrow> nat" where
  "member_end m = cf_offset (fst m) + byte_size (snd m)"

definition covers :: "member \<Rightarrow> nat \<Rightarrow> bool" where
  "covers m i \<longleftrightarrow> cf_offset (fst m) \<le> i \<and> i < member_end m"

definition disjoint_members :: "member list \<Rightarrow> bool" where
  "disjoint_members ms = sorted_wrt (\<lambda>m m'. \<forall>i. \<not> (covers m i \<and> covers m' i)) ms"

lemma mark_slots:
  assumes "fold_res mark_slot [a..<b] occ = Inr occ'"
  shows "length occ' = length occ \<and> (\<forall>i. a \<le> i \<longrightarrow> i < b \<longrightarrow> i < length occ \<and> \<not> occ ! i)
    \<and> (\<forall>i < length occ. occ' ! i = (occ ! i \<or> a \<le> i \<and> i < b))"
  using assms
proof (induction b arbitrary: occ')
  case (Suc b)
  show ?case
  proof (cases "a \<le> b")
    case True
    then obtain mid where "fold_res mark_slot [a..<b] occ = Inr mid" and "mark_slot b mid = Inr occ'"
      using Suc.prems by (auto simp: fold_res_append)
    from this(2) have m: "b < length mid" "\<not> mid ! b" "occ' = mid[b := True]"
      by (auto simp: mark_slot_def index_Inr_iff put_elem_def split: if_splits)
    from Suc.IH[OF \<open>fold_res mark_slot [a..<b] occ = Inr mid\<close>]
    have ih: "length mid = length occ" "\<And>i. a \<le> i \<Longrightarrow> i < b \<Longrightarrow> i < length occ \<and> \<not> occ ! i"
      "\<And>i. i < length occ \<Longrightarrow> mid ! i = (occ ! i \<or> a \<le> i \<and> i < b)" by blast+
    show ?thesis using m ih True by (auto simp: nth_list_update less_Suc_eq)
  qed (use Suc.prems in auto)
qed simp

lemma member_elem_cases:
  assumes "member_elem_type dt = Inr t"
  shows "t \<noteq> VlenStr \<and> elem_ok t \<and> (dtype_of t = dt \<or> (\<exists>w cs. dt = String (Some w) cs \<and> dtype_of t = String (Some w) Ascii))"
proof (cases "\<exists>w cs. dt = String (Some w) cs")
  case True
  then show ?thesis using assms
    by (auto simp: member_elem_type_def narrow_def elem_ok_def dtype_of_def split: if_splits)
next
  case False
  then have "dtype_to_elem_type dt = Inr t"
    using assms by (auto simp: member_elem_type_def split: dtype.splits option.splits)
  then obtain num ord where n: "numeric_of dt = Some (num, ord)" "t = as_elem num ord"
    by (auto simp: dtype_to_elem_type_def split: option.splits)
  have "elem_spec_of (as_elem num ord) = num_spec num ord" by (cases num; cases ord) simp_all
  moreover have "as_elem num ord \<noteq> VlenStr" "\<And>w. as_elem num ord \<noteq> FixedStr w" by (cases num; cases ord; simp)+
  moreover have "(case num_spec num ord of Spec_Fixed sz sg ord \<Rightarrow> Int_t sz sg ord | Spec_FloatIeee sz ord \<Rightarrow> Float sz ord | _ \<Rightarrow> undefined) = dt"
    using n(1) by (cases dt) (auto simp: numeric_of_def split: if_splits bool.splits)
  ultimately show ?thesis using num_spec_cases[of num ord] by (auto simp: n(2) dtype_of_def elem_ok_def split: elem_spec.splits)
qed

definition checked_members :: "nat \<Rightarrow> bool list \<Rightarrow> member list \<Rightarrow> bool" where
  "checked_members ss occ ms \<longleftrightarrow> length occ = ss
     \<and> (\<forall>m\<in>set ms. member_elem_type (cf_dtype (fst m)) = Inr (snd m) \<and> 0 \<notin> set (cf_name (fst m)) \<and> member_end m \<le> ss)
     \<and> (\<forall>i < ss. occ ! i = (\<exists>m\<in>set ms. covers m i)) \<and> disjoint_members ms"

lemma check_member_inv:
  assumes "check_member fds ss f (occ, ms) = Inr (occ', ms')" and "checked_members ss occ ms"
  shows "\<exists>elem. ms' = ms @ [(f, elem)] \<and> checked_members ss occ' ms'"
proof -
  from assms(1) obtain elem where e: "member_elem_type (cf_dtype f) = Inr elem" "0 \<notin> set (cf_name f)"
      "cf_offset f + byte_size elem \<le> ss" "ms' = ms @ [(f, elem)]"
    and mk: "fold_res mark_slot [cf_offset f..<cf_offset f + byte_size elem] occ = Inr occ'"
    by (auto simp: check_member_def split: if_splits)
  have c: "covers (f, elem) i \<longleftrightarrow> cf_offset f \<le> i \<and> i < cf_offset f + byte_size elem" for i
    by (simp add: covers_def member_end_def)
  show ?thesis using mark_slots[OF mk] assms(2) e
    by (auto simp: checked_members_def disjoint_members_def sorted_wrt_append c member_end_def)
qed

lemma check_members:
  assumes "fold_res (check_member fds ss) fs (occ, ms) = Inr (occ', ms')" and "checked_members ss occ ms"
  shows "\<exists>elems. length elems = length fs \<and> ms' = ms @ zip fs elems \<and> checked_members ss occ' ms'"
  using assms
proof (induction fs arbitrary: occ ms)
  case (Cons f fs)
  then obtain occ1 ms1 where s: "check_member fds ss f (occ, ms) = Inr (occ1, ms1)"
      "fold_res (check_member fds ss) fs (occ1, ms1) = Inr (occ', ms')" by auto
  from check_member_inv[OF s(1) Cons.prems(2)] obtain elem where e: "ms1 = ms @ [(f, elem)]" "checked_members ss occ1 ms1" by blast
  from Cons.IH[OF s(2) e(2)] obtain elems where "length elems = length fs" "ms' = ms1 @ zip fs elems" "checked_members ss occ' ms'" by blast
  then show ?case using e(1) by (intro exI[of _ "elem # elems"]) simp
qed auto

section \<open>The encoded compound\<close>

definition enc_compound :: "nat \<Rightarrow> member list \<Rightarrow> bytes" where
  "enc_compound ss ms = [0x16] @ to_le 3 (length ms) @ to_le 4 ss @ concat (map enc_member ms)"

lemma length_enc_members: "length (concat (map enc_member ms)) = sum_list (map member_size ms)"
  by (induction ms) (simp_all add: length_enc_member)

lemma vec_zeros_region: "n \<le> isize_max \<Longrightarrow> vec_zeros n = Inr (splice (replicate n 0) 0 (region [] n))"
  by (simp add: region_def)

lemma vec_zeros_Inr: "vec_zeros n = Inr b \<Longrightarrow> n \<le> isize_max"
  by (simp add: vec_zeros_def split: if_splits)

lemma to_le_3: "[word_of_nat (n mod 256), word_of_nat (n div 256 mod 256), word_of_nat (n div 65536 mod 256)] = to_le 3 n"
  by (simp add: numeral_3_eq_3 div_mult2_eq[symmetric])

lemma compound_encodes:
  assumes "fds \<noteq> []" and "length fds < 2 ^ 24" and "0 < ss" and "ss < u32_lim"
    and "fold_res (check_member fds ss) fds (replicate ss False, []) = Inr (occ, ms)"
    and "\<forall>m\<in>set ms. cf_offset (fst m) < u32_lim" and "8 + sum_list (map member_size ms) \<le> isize_max"
  shows "compound fds ss = Inr \<lparr>ed_body = enc_compound ss ms, ed_elem_size = ss, ed_vlen_base = None\<rparr>"
proof -
  let ?S = "sum_list (map member_size ms)"
  let ?z = "replicate (8 + ?S) (0 :: byte)"
  let ?h = "[0x16] @ to_le 3 (length ms) @ to_le 4 ss"
  have head: "?h = [class_version 6, word_of_nat (length ms mod 256), word_of_nat (length ms div 256 mod 256),
      word_of_nat (length ms div 65536 mod 256)] @ to_le 4 ss"
    by (simp add: to_le_3[symmetric] class_version_def del: to_le.simps)
  have "fold_res write_member ms (splice ?z 0 (region ?h ?S), 0 + length ?h)
      = Inr (splice ?z 0 (region (?h @ concat (map enc_member ms)) (?S - length (concat (map enc_member ms)))),
             0 + length ?h + length (concat (map enc_member ms)))"
    by (rule member_writer.loop) (use assms(6) in \<open>simp_all add: length_enc_members\<close>)
  then have "fold_res write_member ms (splice ?z 0 (region ?h ?S), 8) = Inr (enc_compound ss ms, 8 + ?S)"
    by (simp add: length_enc_members region_def enc_compound_def)
  then show ?thesis using assms(1-5,7) unfolding head
    by (simp add: compound_def Let_def vec_zeros_region put_elem_range put_range_at narrow_def write_defs check_size_def
        del: to_le.simps vec_zeros_simps)
qed

lemma compound_Inr:
  assumes "compound fds ss = Inr e"
  shows "\<exists>elems occ. length elems = length fds \<and> fds \<noteq> [] \<and> length fds < 2 ^ 24 \<and> 0 < ss \<and> ss < u32_lim
    \<and> checked_members ss occ (zip fds elems) \<and> ed_elem_size e = ss
    \<and> ed_body e = enc_compound ss (zip fds elems) \<and> length (enc_compound ss (zip fds elems)) \<le> isize_max"
proof -
  have g: "fds \<noteq> []" "length fds < 2 ^ 24" "0 < ss" "ss \<le> isize_max"
    using assms by (auto simp: compound_def split: if_splits)
  with assms obtain occ ms where ms: "fold_res (check_member fds ss) fds (replicate ss False, []) = Inr (occ, ms)"
    by (auto simp: compound_def)
  have "checked_members ss (replicate ss False) []"
    by (simp add: checked_members_def disjoint_members_def)
  from check_members[OF ms this] obtain elems
    where el: "length elems = length fds" "ms = zip fds elems" "checked_members ss occ ms" by auto
  have sz: "8 + sum_list (map member_size ms) \<le> isize_max"
    using assms g by (auto simp: compound_def ms Let_def dest!: vec_zeros_Inr)
  have ss: "ss < u32_lim"
    using assms g by (auto simp: compound_def ms Let_def narrow_def split: if_splits)
  have "\<forall>m\<in>set ms. cf_offset (fst m) < u32_lim"
    using el(3) ss by (fastforce simp: checked_members_def member_end_def)
  from compound_encodes[OF g(1,2,3) ss ms this sz] show ?thesis using assms el g ss sz
    by (intro exI[of _ elems] exI[of _ occ]) (simp add: enc_compound_def length_enc_members)
qed

lemma parse_enc_compound:
  assumes "\<forall>m\<in>set ms. member_ok m" and "length ms < 2 ^ 24" and "length (enc_compound ss ms) \<le> isize_max"
  shows "parse_datatype (enc_compound ss ms) = Inr (Compound (map read_member ms))"
proof -
  let ?b = "enc_compound ss ms"
  have l: "8 \<le> length ?b" by (simp add: enc_compound_def)
  have c: "[?b ! 1, ?b ! 2, ?b ! 3] = to_le 3 (length ms)"
    by (simp add: enc_compound_def to_le_3[symmetric] del: to_le.simps)
  have n: "from_le (to_le 3 (length ms)) = length ms" using assms(2) by (simp add: from_le_to_le del: to_le.simps)
  have mc: "member_count ?b = Inr (length ms)"
    using l c n by (simp add: member_count_def index_def get_elem_def del: to_le.simps from_le.simps)
  have "drop 8 ?b = concat (map enc_member ms) @ []" by (simp add: enc_compound_def)
  then have "fold_res (\<lambda>_. compound_member (\<lambda>b. parse_datatype_consuming b (Suc 0)) ?b 1) [0..<length ms] (8, [])
      = Inr (8 + length (concat (map enc_member ms)), [] @ map read_member ms)"
    using assms l by (intro member_reader.loop[of ms 0]) simp_all
  then have "parse_compound (\<lambda>b. parse_datatype_consuming b (Suc 0)) ?b 1
      = Inr (Compound (map read_member ms), 8 + length (concat (map enc_member ms)))"
    by (simp add: parse_compound_def mc)
  moreover have "?b ! 0 = 0x16" by (simp add: enc_compound_def)
  moreover have "?b \<noteq> []" using l by auto
  ultimately show ?thesis using l
    by (simp add: parse_datatype_def parse_datatype_consuming.simps[of ?b 0] index_def get_elem_def dt_read_u32_le_eq Let_def)
qed

lemma fields_size_members:
  assumes "\<forall>m\<in>set ms. snd m \<noteq> VlenStr \<and> member_end m < u64_lim"
  shows "fields_size (map read_member ms) acc = Inr (Some (fold max (map member_end ms) acc))"
  using assms
proof (induction ms arbitrary: acc)
  case (Cons m ms)
  obtain f t where m: "m = (f, t)" by (cases m)
  have "dtype_size (dtype_of t) = Inr (Some (byte_size t))"
    using Cons.prems by (cases t rule: elem_spec_cases) (auto simp: dtype_of_def byte_size_def m)
  then show ?case using Cons by (simp add: read_member_def m member_end_def max.commute)
qed simp

lemma fold_max_le_iff: "fold max xs a \<le> (n :: nat) \<longleftrightarrow> a \<le> n \<and> (\<forall>x\<in>set xs. x \<le> n)"
  by (induction xs arbitrary: a) auto

lemma fold_max_mem: "fold max xs a \<noteq> (a :: nat) \<Longrightarrow> fold max xs a \<in> set xs"
  by (induction xs arbitrary: a) (auto simp: max_def split: if_splits)

lemma fold_max_ge: "x \<in> set xs \<Longrightarrow> x \<le> fold max xs (a :: nat)"
  using fold_max_le_iff[of xs a "fold max xs a"] by simp

text \<open>
  C11. A compound the writer accepts has non-overlapping members inside the declared record
  size, and its datatype message is read back as the compound of the same names, offsets and
  element types. The reader's element size is the end of the last member: it is the declared
  record size, the stride of the data, only if some member ends there, and is smaller when the
  record has trailing padding.
\<close>

theorem compound_round_trip:
  assumes "compound fds ss = Inr e" and "\<forall>f\<in>set fds. valid_utf8 (cf_name f)"
  shows "\<exists>elems n. list_all2 (\<lambda>f t. member_elem_type (cf_dtype f) = Inr t) fds elems
    \<and> disjoint_members (zip fds elems) \<and> (\<forall>m\<in>set (zip fds elems). member_end m \<le> ss) \<and> ed_elem_size e = ss
    \<and> parse_datatype (ed_body e) = Inr (Compound (map read_member (zip fds elems)))
    \<and> dtype_size (Compound (map read_member (zip fds elems))) = Inr (Some n)
    \<and> n \<le> ss \<and> (n = ss \<longleftrightarrow> (\<exists>m\<in>set (zip fds elems). member_end m = ss))"
proof -
  obtain elems occ where el: "length elems = length fds" "fds \<noteq> []" "length fds < 2 ^ 24" "ss < u32_lim" "0 < ss"
      "checked_members ss occ (zip fds elems)" "ed_elem_size e = ss"
      "ed_body e = enc_compound ss (zip fds elems)" "length (enc_compound ss (zip fds elems)) \<le> isize_max"
    using compound_Inr[OF assms(1)] by blast
  let ?ms = "zip fds elems"
  have m: "member_elem_type (cf_dtype (fst m)) = Inr (snd m) \<and> 0 \<notin> set (cf_name (fst m)) \<and> member_end m \<le> ss"
    if "m \<in> set ?ms" for m using el(6) that by (simp add: checked_members_def)
  have ok: "member_ok x \<and> snd x \<noteq> VlenStr" if "x \<in> set ?ms" for x
    using m[OF that] member_elem_cases[of "cf_dtype (fst x)" "snd x"] assms(2) that el(4) set_zip_leftD[of "fst x" "snd x" fds elems]
    by (auto simp: member_ok_def member_end_def split_beta)
  have "list_all2 (\<lambda>f t. member_elem_type (cf_dtype f) = Inr t) fds elems"
    using m el(1) by (auto simp: list_all2_iff)
  moreover have "disjoint_members ?ms" using el(6) by (simp add: checked_members_def)
  moreover have "parse_datatype (ed_body e) = Inr (Compound (map read_member ?ms))"
    using ok el(1,3,8,9) by (simp add: parse_enc_compound)
  moreover define n where "n = fold max (map member_end ?ms) 0"
  have "dtype_size (Compound (map read_member ?ms)) = Inr (Some n)"
  proof -
    have "snd x \<noteq> VlenStr \<and> member_end x < u64_lim" if "x \<in> set ?ms" for x
      using m[OF that] ok[OF that] el(4) by linarith
    then show ?thesis by (simp add: fields_size_members n_def)
  qed
  moreover have "n \<le> ss" using m by (simp add: n_def fold_max_le_iff)
  moreover have "n = ss \<longleftrightarrow> (\<exists>m\<in>set ?ms. member_end m = ss)"
  proof
    assume "n = ss"
    then show "\<exists>m\<in>set ?ms. member_end m = ss" using fold_max_mem[of "map member_end ?ms" 0] el(5) by (auto simp: n_def)
  next
    assume "\<exists>m\<in>set ?ms. member_end m = ss"
    then have "ss \<le> n" using fold_max_ge[of ss "map member_end ?ms" 0] by (force simp: n_def)
    with \<open>n \<le> ss\<close> show "n = ss" by simp
  qed
  ultimately show ?thesis using m el(7) by blast
qed


text \<open>A record of one 32-bit integer in eight bytes reads back with an element size of four.\<close>

theorem compound_round_trip_witness:
  "\<exists>e n. compound [CompoundField [97] 0 (Int_t 4 True Little)] 8 = Inr e \<and> ed_elem_size e = 8
    \<and> parse_datatype (ed_body e) = Inr (Compound [CompoundField [97] 0 (Int_t 4 True Little)])
    \<and> dtype_size (Compound [CompoundField [97] 0 (Int_t 4 True Little)]) = Inr (Some n) \<and> n < 8"
proof -
  let ?f = "CompoundField [97] 0 (Int_t 4 True Little)"
  have t: "member_elem_type (Int_t 4 True Little) = Inr I32"
    by (simp add: member_elem_type_def dtype_to_elem_type_def numeric_of_def)
  have "replicate 8 False = [False, False, False, False, False, False, False, False]" by (simp add: eval_nat_numeral)
  then have c: "fold_res (check_member [?f] 8) [?f] (replicate 8 False, [])
      = Inr ([True, True, True, True, False, False, False, False], [(?f, I32)])"
    by (simp add: check_member_def t byte_size_def upt_rec mark_slot_def index_def get_elem_def put_elem_def)
  have "\<exists>e. compound [?f] 8 = Inr e"
    by (rule exI, rule compound_encodes[OF _ _ _ _ c]) (simp_all add: member_size_def align8_def nested_dt_body_size_def)
  then obtain e where e: "compound [?f] 8 = Inr e" ..
  show ?thesis using compound_round_trip[OF e] e t
    by (auto simp: list_all2_Cons1 read_member_def dtype_of_def member_end_def byte_size_def)
qed


section \<open>The encoded array\<close>

lemma splice_tail: "length ys = length zs \<Longrightarrow> splice (xs @ zs) (length xs) ys = xs @ ys"
  by (simp add: splice_def)

lemma put_in_zeros:
  assumes "length ys \<le> m" and "off = length a"
  shows "put_range (a @ replicate m 0 @ b) off ys = Inr (a @ ys @ replicate (m - length ys) 0 @ b)"
  using assms by (simp add: put_range_def splice_def)

definition dims_done :: "nat list \<Rightarrow> nat \<Rightarrow> bytes" where
  "dims_done dims k = concat (map (to_le 4) (take k dims)) @ replicate (4 * (length dims - k)) 0"

lemma length_concat_le4 [simp]: "length (concat (map (to_le 4) xs)) = 4 * length xs"
  by (induction xs) simp_all

lemma dims_done_step:
  assumes "k < length dims"
  shows "put_range (h @ dims_done dims k @ b) (length h + k * 4) (to_le 4 (dims ! k)) = Inr (h @ dims_done dims (Suc k) @ b)"
proof -
  have m: "4 * (length dims - k) - 4 = 4 * (length dims - Suc k)" "4 \<le> 4 * (length dims - k)" using assms by auto
  have t: "concat (map (to_le 4) (take (Suc k) dims)) = concat (map (to_le 4) (take k dims)) @ to_le 4 (dims ! k)"
    using assms by (simp add: take_Suc_conv_app_nth del: to_le.simps)
  show ?thesis
    using put_in_zeros[of "to_le 4 (dims ! k)" "4 * (length dims - k)" "length h + k * 4"
        "h @ concat (map (to_le 4) (take k dims))" b] assms m
    by (simp add: dims_done_def t min_def)
qed

lemma write_array_dims:
  assumes "length h = 12" and "length dims \<le> 32" and "\<forall>d\<in>set dims. d < u32_lim" and "k \<le> length dims"
  shows "fold_res (write_array_dim dims 12) [0..<k] (h @ dims_done dims 0 @ dims_done [0..<length dims] 0 @ t)
    = Inr (h @ dims_done dims k @ dims_done [0..<length dims] k @ t)"
  using assms(4)
proof (induction k)
  case (Suc k)
  let ?n = "length dims"
  have d: "dims ! k < u32_lim" "k < u32_lim" using assms(2,3) Suc.prems by auto
  have "4 * Suc k + 4 * (?n - Suc k) = 4 * ?n" using Suc.prems by simp
  then have "length (dims_done dims (Suc k)) = 4 * ?n" using Suc.prems by (simp add: dims_done_def min_def)
  then have p: "length (h @ dims_done dims (Suc k)) + k * 4 = 12 + ?n * 4 + k * 4" using assms(1) by simp
  have 1: "put_range (h @ dims_done dims k @ dims_done [0..<?n] k @ t) (12 + k * 4) (to_le 4 (dims ! k))
      = Inr (h @ dims_done dims (Suc k) @ dims_done [0..<?n] k @ t)"
    using dims_done_step[of k dims h] Suc.prems assms(1) by simp
  have 2: "put_range (h @ dims_done dims (Suc k) @ dims_done [0..<?n] k @ t) (12 + ?n * 4 + k * 4) (to_le 4 k)
      = Inr (h @ dims_done dims (Suc k) @ dims_done [0..<?n] (Suc k) @ t)"
    using dims_done_step[of k "[0..<?n]" "h @ dims_done dims (Suc k)" t] Suc.prems p by simp
  show ?case using Suc.IH Suc.prems d
    by (simp add: fold_res_append write_array_dim_def narrow_def write_u32_le_def 1 2)
qed simp

lemma write_array_dims_fit:
  assumes "fold_res (write_array_dim dims ds) [0..<k] b = Inr b'"
  shows "\<forall>i<k. dims ! i < u32_lim"
  using assms
proof (induction k arbitrary: b')
  case (Suc k)
  then show ?case by (auto simp: fold_res_append write_array_dim_def narrow_def less_Suc_eq split: if_splits)
qed simp

definition enc_array :: "elem_type \<Rightarrow> nat list \<Rightarrow> nat \<Rightarrow> bytes" where
  "enc_array base dims es =
     [0x2a, 0, 0, 0] @ to_le 4 es @ [of_nat (length dims), 0, 0, 0] @ concat (map (to_le 4) dims)
     @ concat (map (to_le 4) [0..<length dims]) @ enc_elem base"

lemma array_extent_Inr:
  assumes "array_extent dims = Inr c"
  shows "c = prod_list dims \<and> 0 \<notin> set dims \<and> (dims \<noteq> [] \<longrightarrow> c < u64_lim)"
proof -
  have "fold_res (\<lambda>dim count. if dim = 0 then Inl Format else ok_or (checked_mul count dim) Format) xs a = Inr c \<Longrightarrow>
      c = a * prod_list xs \<and> 0 \<notin> set xs \<and> (xs \<noteq> [] \<longrightarrow> c < u64_lim)" for xs a
    by (induction xs arbitrary: a) (fastforce split: if_splits)+
  from this[of dims 1] assms show ?thesis unfolding array_extent_def by (metis mult_1)
qed

lemma array_encodes:
  assumes "dims \<noteq> []" and "length dims \<le> 32" and "array_extent dims = Inr c"
    and "c * byte_size base < u32_lim" and "\<forall>d\<in>set dims. d < u32_lim"
  shows "array_dtype base dims = Inr \<lparr>ed_body = enc_array base dims (c * byte_size base),
    ed_elem_size = c * byte_size base, ed_vlen_base = None\<rparr>"
proof -
  let ?n = "length dims" and ?es = "c * byte_size base" and ?N = "nested_dt_body_size base"
  let ?h = "[0x2a, 0, 0, 0] @ to_le 4 ?es @ [of_nat ?n, 0, 0, 0] :: bytes"
  have N: "?N \<le> 38" by (simp add: nested_dt_body_size_def split: elem_spec.splits)
  let ?k = "?n * 8 + ?N"
  let ?z = "replicate (12 + ?n * 8 + ?N) (0 :: byte)"
  let ?D = "dims_done dims ?n @ dims_done [0..<?n] ?n"
  have h: "splice ?z 0 (region ([0x2a, 0, 0, 0] @ to_le 4 ?es @ [of_nat ?n]) (3 + ?k))
      = ?h @ dims_done dims 0 @ dims_done [0..<?n] 0 @ replicate ?N 0"
  proof -
    have "?n * 8 + ?N = 4 * ?n + (4 * ?n + ?N)" by simp
    then have "replicate (3 + ?k) (0 :: byte) = replicate 3 0 @ replicate (4 * ?n) 0 @ replicate (4 * ?n) 0 @ replicate ?N 0"
      by (simp only: replicate_add)
    then show ?thesis by (simp add: region_def dims_done_def)
  qed
  have D: "?D = concat (map (to_le 4) dims) @ concat (map (to_le 4) [0..<?n])"
    by (simp add: dims_done_def)
  have w: "write_nested_datatype_body (?h @ ?D @ replicate ?N 0) (12 + ?n * 8) base
      = Inr (enc_array base dims ?es, ?N)"
  proof -
    have l: "length (?h @ ?D) = 12 + ?n * 8" unfolding D by simp
    have "write_nested_datatype_body ((?h @ ?D) @ replicate ?N 0) (length (?h @ ?D)) base
        = Inr (splice ((?h @ ?D) @ replicate ?N 0) (length (?h @ ?D)) (enc_elem base), ?N)"
      by (rule write_nested_enc) simp
    also have "splice ((?h @ ?D) @ replicate ?N 0) (length (?h @ ?D)) (enc_elem base) = (?h @ ?D) @ enc_elem base"
      by (rule splice_tail) simp
    also have "\<dots> = enc_array base dims ?es"
      unfolding D by (simp add: enc_array_def)
    finally show ?thesis unfolding l by simp
  qed
  have f: "fold_res (write_array_dim dims 12) [0..<?n] (splice ?z 0 (region ([0x2a, 0, 0, 0] @ to_le 4 ?es @ [of_nat ?n]) (3 + ?k)))
      = Inr (?h @ ?D @ replicate ?N 0)"
    unfolding h using write_array_dims[of ?h dims ?n "replicate ?N 0"] assms(2,5) by simp
  show ?thesis
    using assms(1-4) N f w
    by (simp add: array_dtype_def Let_def narrow_def vec_zeros_region put_elem_range put_range_at write_defs check_size_def
        del: to_le.simps vec_zeros_simps)
qed

lemma array_Inr:
  assumes "array_dtype base dims = Inr e"
  shows "dims \<noteq> [] \<and> length dims \<le> 32 \<and> 0 \<notin> set dims \<and> (\<forall>d\<in>set dims. d < u32_lim)
    \<and> prod_list dims < u64_lim \<and> ed_elem_size e = prod_list dims * byte_size base \<and> ed_elem_size e < u32_lim
    \<and> ed_body e = enc_array base dims (ed_elem_size e)"
proof -
  have g: "dims \<noteq> []" "length dims \<le> 32" using assms by (auto simp: array_dtype_def split: if_splits)
  then obtain c where c: "array_extent dims = Inr c" "c * byte_size base < u32_lim"
    using assms by (auto simp: array_dtype_def Let_def narrow_def split: if_splits)
  have "\<exists>b b'. fold_res (write_array_dim dims 12) [0..<length dims] b = Inr b'"
    using assms g c by (auto simp: array_dtype_def Let_def)
  then have dims: "\<forall>d\<in>set dims. d < u32_lim" using write_array_dims_fit by (metis in_set_conv_nth)
  from array_encodes[OF g c dims] array_extent_Inr[OF c(1)] show ?thesis using assms g c dims by simp
qed

lemma field_after: "length xs = k \<Longrightarrow> v < 256 ^ n \<Longrightarrow> field n (xs @ to_le n v @ ys) k = v"
  by (simp add: field_def from_le_to_le)

lemma parse_enc_array:
  assumes "elem_ok base" and "length dims \<le> 32" and "\<forall>d\<in>set dims. d < u32_lim"
  shows "parse_datatype (enc_array base dims es) = Inr (Array (dtype_of base) dims)"
proof -
  let ?b = "enc_array base dims es" and ?n = "length dims"
  have l: "length ?b = 12 + ?n * 8 + nested_dt_body_size base"
    by (simp add: enc_array_def)
  have n: "unat (of_nat ?n :: byte) = ?n" using assms(2) by simp
  have b8: "?b ! 8 = of_nat ?n" "?b ! 0 = 0x2a" by (simp_all add: enc_array_def nth_append)
  have e: "drop (12 + ?n * 4 + ?n * 4) ?b = enc_elem base"
  proof -
    let ?p = "[0x2a, 0, 0, 0] @ to_le 4 es @ [of_nat ?n, 0, 0, 0] @ concat (map (to_le 4) dims)
      @ concat (map (to_le 4) [0..<?n])"
    have "?b = ?p @ enc_elem base" by (simp add: enc_array_def)
    moreover have "length ?p = 12 + ?n * 4 + ?n * 4" by simp
    ultimately show ?thesis by (metis append_eq_conv_conj)
  qed
  have dims: "map_res (\<lambda>i. dt_read_u32_le ?b (12 + i * 4)) [0..<?n] = Inr dims"
  proof -
    have f: "field 4 ?b (12 + i * 4) = dims ! i" if "i < ?n" for i
    proof -
      have "dims = take i dims @ dims ! i # drop (Suc i) dims" using that by (rule id_take_nth_drop)
      then have "concat (map (to_le 4) dims) = concat (map (to_le 4) (take i dims)) @ to_le 4 (dims ! i) @ concat (map (to_le 4) (drop (Suc i) dims))"
        by (metis concat.simps(2) concat_append list.simps(9) map_append)
      then have "?b = ([0x2a, 0, 0, 0] @ to_le 4 es @ [of_nat ?n, 0, 0, 0] @ concat (map (to_le 4) (take i dims)))
          @ to_le 4 (dims ! i) @ concat (map (to_le 4) (drop (Suc i) dims)) @ concat (map (to_le 4) [0..<?n]) @ enc_elem base"
        by (simp add: enc_array_def)
      moreover have "dims ! i < 256 ^ 4" using assms(3) that by simp
      ultimately show ?thesis using that by (simp only:) (rule field_after; simp)
    qed
    have "map_res (\<lambda>i. dt_read_u32_le ?b (12 + i * 4)) [0..<?n] = Inr (map (\<lambda>i. dims ! i) [0..<?n])"
    proof (rule map_res_total)
      fix i assume "i \<in> set [0..<?n]"
      then have "i < ?n" "12 + i * 4 + 4 \<le> length ?b" "12 + i * 4 + 4 < u64_lim" using l assms(2) by auto
      then show "dt_read_u32_le ?b (12 + i * 4) = Inr (dims ! i)" by (simp add: dt_read_u32_le_eq f)
    qed
    then show ?thesis by (simp add: map_nth)
  qed
  have N: "nested_dt_body_size base \<le> 38" by (simp add: nested_dt_body_size_def split: elem_spec.splits)
  have "parse_array (\<lambda>b. parse_datatype_consuming b (Suc 0)) ?b 2 = Inr (Array (dtype_of base) dims, length ?b)"
    using parse_enc_elem[OF assms(1), of "Suc 0" "[]"] l assms(2) e N
    by (simp add: parse_array_def get_elem_def n b8 Let_def dims)
  moreover have "?b \<noteq> []" using l by auto
  ultimately show ?thesis using l
    by (simp add: parse_datatype_def parse_datatype_consuming.simps[of ?b 0] index_def get_elem_def dt_read_u32_le_eq Let_def b8)
qed

text \<open>
  An array datatype the writer accepts reads back with the same base type and dimensions,
  and, unless the elements are strings of variable length, the reader's element size is the
  stride the writer declared.
\<close>

theorem array_round_trip:
  assumes "array_dtype base dims = Inr e" and "elem_ok base"
  shows "parse_datatype (ed_body e) = Inr (Array (dtype_of base) dims)
    \<and> (base \<noteq> VlenStr \<longrightarrow> dtype_size (Array (dtype_of base) dims) = Inr (Some (ed_elem_size e)))"
proof -
  note a = array_Inr[OF assms(1)]
  have s: "dtype_size (dtype_of base) = Inr (Some (byte_size base))" if "base \<noteq> VlenStr"
    using that by (cases base rule: elem_spec_cases) (auto simp: dtype_of_def byte_size_def)
  have p: "product_usize dims = Inr (prod_list dims)"
  proof -
    have "fold_res (\<lambda>d acc. umul acc d) xs k = Inr (k * prod_list xs)" if "k * prod_list xs < u64_lim" "0 \<notin> set xs" for xs k
      using that
    proof (induction xs arbitrary: k)
      case (Cons x xs)
      have "prod_list xs \<noteq> 0" using Cons.prems(2) by (simp add: prod_list_zero_iff)
      then have "k * x \<le> k * x * prod_list xs" by (cases "prod_list xs") simp_all
      moreover have "k * x * prod_list xs < u64_lim" using Cons.prems(1) by (simp add: mult.assoc)
      ultimately have "k * x < u64_lim" by (rule le_less_trans)
      then show ?case using Cons by (simp add: mult.assoc)
    qed simp
    from this[of 1 dims] a show ?thesis by (simp add: product_usize_def)
  qed
  show ?thesis using a assms(2) s p parse_enc_array[of base dims] by (auto simp: mult.commute)
qed

theorem array_round_trip_witness:
  "\<exists>e. array_dtype I32 [2, 3] = Inr e \<and> ed_elem_size e = 24
    \<and> parse_datatype (ed_body e) = Inr (Array (Int_t 4 True Little) [2, 3])"
proof -
  have "array_extent [2, 3] = Inr 6" by (simp add: array_extent_def)
  then have "array_dtype I32 [2, 3] = Inr \<lparr>ed_body = enc_array I32 [2, 3] 24, ed_elem_size = 24, ed_vlen_base = None\<rparr>"
    using array_encodes[of "[2, 3]" 6 I32] by (simp add: byte_size_def)
  from array_round_trip[OF this] this show ?thesis by (simp add: elem_ok_def dtype_of_def)
qed


section \<open>Sequences, opaque types and bitfields\<close>

lemma vlen_encodes:
  assumes "base \<noteq> VlenStr"
  shows "vlen_sequence base = Inr \<lparr>ed_body = [0x19, 0, 0, 0] @ to_le 4 16 @ enc_elem base, ed_elem_size = 16,
    ed_vlen_base = Some base\<rparr>"
proof -
  let ?N = "nested_dt_body_size base" and ?h = "[0x19, 0, 0, 0] @ to_le 4 16 :: bytes"
  have N: "?N \<le> 38" by (simp add: nested_dt_body_size_def split: elem_spec.splits)
  have h: "splice (replicate (8 + ?N) 0) 0 (region (0x19 # 0 # 0 # 0 # to_le 4 16) ?N) = ?h @ replicate ?N 0"
    by (simp add: region_def)
  have "write_nested_datatype_body (?h @ replicate ?N 0) (length ?h) base
      = Inr (splice (?h @ replicate ?N 0) (length ?h) (enc_elem base), ?N)"
    by (rule write_nested_enc) simp
  also have "splice (?h @ replicate ?N 0) (length ?h) (enc_elem base) = ?h @ enc_elem base"
    by (rule splice_tail) simp
  finally have "write_nested_datatype_body (splice (replicate (8 + ?N) 0) 0 (region (0x19 # 0 # 0 # 0 # to_le 4 16) ?N)) 8 base
      = Inr (?h @ enc_elem base, ?N)" unfolding h by simp
  then show ?thesis using assms N
    by (simp add: vlen_sequence_def Let_def class_version_def narrow_def vec_zeros_region put_elem_range put_range_at write_defs
        check_size_def del: to_le.simps vec_zeros_simps)
qed

lemma opaque_Inr:
  assumes "opaque sz tag = Inr e"
  shows "0 < sz \<and> sz < u32_lim \<and> 0 \<notin> set tag \<and> align8 (Suc (length tag)) < 256 \<and> ed_elem_size e = sz
    \<and> ed_body e = [0x15, of_nat (align8 (Suc (length tag))), 0, 0] @ to_le 4 sz @ enc_name tag"
proof -
  have g: "0 < sz" "0 \<notin> set tag" "align8 (Suc (length tag)) < 256"
    using assms by (auto simp: opaque_def Let_def narrow_def split: if_splits)
  let ?a = "align8 (Suc (length tag))"
  have a: "length tag < ?a" using align8_ge[of "Suc (length tag)"] by simp
  have sz: "sz < u32_lim"
    using assms g by (auto simp: opaque_def Let_def narrow_def split: if_splits)
  have "opaque sz tag = Inr \<lparr>ed_body = [0x15, of_nat ?a, 0, 0] @ to_le 4 sz @ enc_name tag, ed_elem_size = sz, ed_vlen_base = None\<rparr>"
    using g sz a
    by (simp add: opaque_def Let_def class_version_def narrow_def vec_zeros_region put_elem_range put_range_at write_defs
        del: to_le.simps vec_zeros_simps) (simp add: region_def enc_name_def)
  then show ?thesis using assms g sz by simp
qed

lemma parse_enc_opaque:
  assumes "0 \<notin> set tag" and "valid_utf8 tag" and "align8 (Suc (length tag)) < 256" and "sz < u32_lim"
  shows "parse_datatype ([0x15, of_nat (align8 (Suc (length tag))), 0, 0] @ to_le 4 sz @ enc_name tag) = Inr (Opaque sz tag)"
proof -
  let ?a = "align8 (Suc (length tag))"
  obtain ys where y: "enc_name tag = tag @ 0 # ys" using enc_name_split by blast
  have u: "unat (of_nat ?a :: byte) = ?a" using assms(3) by simp
  have r: "get_range ([0x15, of_nat ?a, 0, 0] @ to_le 4 sz @ enc_name tag) 8 (8 + ?a) = Some (enc_name tag)"
    by (simp add: get_range_def)
  have "position (\<lambda>b. b = 0) (enc_name tag) = Some (length tag)" "take (length tag) (enc_name tag) = tag"
    using position_nul[OF assms(1), of ys] by (simp_all add: y)
  then have "parse_opaque ([0x15, of_nat ?a, 0, 0] @ to_le 4 sz @ enc_name tag) (of_nat ?a) sz = Inr (Opaque sz tag, 8 + align8 ?a)"
    unfolding parse_opaque_def Let_def u r using assms(2) by (simp add: utf8_or_empty_def)
  then show ?thesis
    using assms(4)
    by (simp add: parse_datatype_def parse_datatype_consuming.simps[of _ 0] parse_eval del: to_le.simps)
qed

lemma bitfield_encodes:
  assumes "0 < sz" and "sz \<le> 8"
  shows "bitfield sz ord = Inr \<lparr>ed_body = [0x14, byte_order_bit ord, 0, 0] @ to_le 4 sz @ [0, 0] @ to_le 2 (sz * 8),
    ed_elem_size = sz, ed_vlen_base = None\<rparr>"
  using assms
  by (simp add: bitfield_def Let_def class_version_def byte_order_bit_def[symmetric] narrow_def vec_zeros_region put_elem_range
      put_range_at write_defs del: to_le.simps vec_zeros_simps) (simp add: region_def)

text \<open>
  Sequences, opaque types and bitfields read back as what was encoded: the base type of a
  sequence, the size and tag of an opaque type, the size and byte order of a bitfield, with the
  element size the writer declared.
\<close>

theorem simple_types_round_trip:
  assumes "vlen_sequence base = Inr v" and "elem_ok base"
    and "opaque sz tag = Inr q" and "valid_utf8 tag" and "bitfield bsz ord = Inr b"
  shows "parse_datatype (ed_body v) = Inr (VarLen (dtype_of base)) \<and> ed_elem_size v = 16
    \<and> parse_datatype (ed_body q) = Inr (Opaque sz tag) \<and> ed_elem_size q = sz
    \<and> parse_datatype (ed_body b) = Inr (Bitfield bsz ord) \<and> ed_elem_size b = bsz"
proof -
  have "base \<noteq> VlenStr" using assms(1) by (auto simp: vlen_sequence_def)
  from vlen_encodes[OF this] have v: "v = \<lparr>ed_body = [0x19, 0, 0, 0] @ to_le 4 16 @ enc_elem base, ed_elem_size = 16,
    ed_vlen_base = Some base\<rparr>" using assms(1) by simp
  have "0 < nested_dt_body_size base" "nested_dt_body_size base \<le> 38"
    by (simp_all add: nested_dt_body_size_def split: elem_spec.splits)
  then have "parse_datatype ([0x19, 0, 0, 0] @ to_le 4 16 @ enc_elem base) = Inr (VarLen (dtype_of base))"
    using parse_enc_elem[OF assms(2), of 1 "[]"]
    by (simp add: parse_datatype_def parse_datatype_consuming.simps[of _ 0] parse_vlen_def parse_eval del: to_le.simps)
  moreover have "0 < bsz" "bsz \<le> 8" using assms(5) by (auto simp: bitfield_def split: if_splits)
  then have "parse_datatype ([0x14, byte_order_bit ord, 0, 0] @ to_le 4 bsz @ [0, 0] @ to_le 2 (bsz * 8)) = Inr (Bitfield bsz ord)"
    by (cases ord) (simp_all add: parse_datatype_def parse_datatype_consuming.simps[of _ 0] byte_order_bit_def parse_eval del: to_le.simps)
  ultimately show ?thesis
    using v opaque_Inr[OF assms(3)] assms(4,5) bitfield_encodes[of bsz ord] \<open>0 < bsz\<close> \<open>bsz \<le> 8\<close> parse_enc_opaque[of tag sz]
    by auto
qed

theorem simple_types_round_trip_witness:
  "\<exists>v q b. vlen_sequence I32 = Inr v \<and> opaque 7 [78] = Inr q \<and> bitfield 2 Big = Inr b
    \<and> parse_datatype (ed_body v) = Inr (VarLen (Int_t 4 True Little)) \<and> parse_datatype (ed_body q) = Inr (Opaque 7 [78])
    \<and> parse_datatype (ed_body b) = Inr (Bitfield 2 Big)"
proof -
  obtain v where v: "vlen_sequence I32 = Inr v" using vlen_encodes[of I32] by simp
  obtain b where b: "bitfield 2 Big = Inr b" using bitfield_encodes[of 2 Big] by simp
  have "\<exists>q. opaque 7 [78] = Inr q"
    by (simp add: opaque_def Let_def narrow_def align8_def vec_zeros_region put_elem_range put_range_at write_defs
        del: to_le.simps vec_zeros_simps)
  then obtain q where q: "opaque 7 [78] = Inr q" ..
  show ?thesis using simple_types_round_trip[OF v _ q _ b] v q b by (simp add: elem_ok_def dtype_of_def)
qed

end
