(* ===== verification/Global_Heap.thy ===== *)
theory Global_Heap
  imports Outcome Buffers
begin

text \<open>
  The global heap, which stores the payload of variable-length data: the reader
  \<^verbatim>\<open>oxih5-format/src/global_heap.rs\<close> and the writer
  \<^verbatim>\<open>oxih5-format/src/global_heap_writer.rs\<close>, which packs objects into collections of at
  most 64 KiB and pads each to a size libhdf5 accepts.
\<close>

section \<open>The reader\<close>

type_synonym heap_objects = "nat \<Rightarrow> bytes option"

definition sig_GCOL :: bytes where
  "sig_GCOL = [0x47, 0x43, 0x4f, 0x4c]"

text \<open>
  One object at \<open>pos\<close>: its index (0 ends the collection), its bytes, and the position of the
  next object, aligned to eight bytes from the start of the collection.
\<close>

definition heap_object_at :: "bytes \<Rightarrow> nat \<Rightarrow> nat \<Rightarrow> (nat \<times> bytes \<times> nat) option res" where
  "heap_object_at file_data base pos =
     and_then (ok_or (get_range file_data pos (pos + 2)) Format) (\<lambda>bs.
     let idx = from_le bs in
     if idx = 0 then Inr None
     else
       and_then (ok_or (get_range file_data (pos + 8) (pos + 16)) Format) (\<lambda>bs.
       let obj_size = from_le bs;
           pos = pos + 16 in
       and_then (ok_or (checked_add pos obj_size) Corrupted) (\<lambda>data_end.
       and_then (ok_or (get_range file_data pos data_end) Format) (\<lambda>dat.
       and_then (ok_or (checked_sub data_end base) Corrupted) (\<lambda>rel.
       and_then (ok_or (checked_add rel 7) Corrupted) (\<lambda>r7.
       and_then (ok_or (checked_add base (r7 div 8 * 8)) Corrupted) (\<lambda>next.
         Inr (Some (idx, dat, next)))))))))"

lemma heap_object_at_next: "heap_object_at d base pos = Inr (Some (i, x, n)) \<Longrightarrow> pos < n"
proof -
  assume a: "heap_object_at d base pos = Inr (Some (i, x, n))"
  let ?e = "pos + 16 + from_le (take 8 (drop (pos + 8) d))"
  have "base \<le> ?e" "n = base + (?e - base + 7) div 8 * 8"
    using a by (auto simp: heap_object_at_def Let_def get_range_Some_iff split: if_splits)
  moreover have "?e - base \<le> (?e - base + 7) div 8 * 8" by presburger
  ultimately show "pos < n" by linarith
qed

function heap_loop :: "bytes \<Rightarrow> nat \<Rightarrow> nat \<Rightarrow> nat \<Rightarrow> heap_objects \<Rightarrow> heap_objects res" where
  "heap_loop file_data base heap_end pos objects =
     (case checked_add pos 16 of
        None \<Rightarrow> Inr objects
      | Some pos_end \<Rightarrow>
          if pos_end > heap_end \<or> pos \<ge> length file_data then Inr objects
          else
            case heap_object_at file_data base pos of
              Inl e \<Rightarrow> Inl e
            | Inr None \<Rightarrow> Inr objects
            | Inr (Some (idx, dat, next)) \<Rightarrow> heap_loop file_data base heap_end next (objects(idx \<mapsto> dat)))"
  by pat_completeness auto

termination
  by (relation "measure (\<lambda>(_, _, heap_end, pos, _). heap_end - pos)") (auto dest: heap_object_at_next)

declare heap_loop.simps [simp del]

definition global_heap_parse :: "bytes \<Rightarrow> nat \<Rightarrow> heap_objects res" where
  "global_heap_parse file_data collection_address =
     and_then (ok_or (usize_try_from collection_address) Corrupted) (\<lambda>base.
     and_then (ok_or (checked_add base 4) Corrupted) (\<lambda>base4.
     and_then (ok_or (get_range file_data base base4) Format) (\<lambda>sig.
     if sig \<noteq> sig_GCOL then Inl Format
     else
       and_then (ok_or (get_elem file_data base4) Format) (\<lambda>version.
       if version \<noteq> 1 then Inl Format
       else
         and_then (ok_or (checked_add base 8) Corrupted) (\<lambda>base8.
         and_then (ok_or (checked_add base 16) Corrupted) (\<lambda>base16.
         and_then (ok_or (get_range file_data base8 base16) Format) (\<lambda>bs.
         and_then (ok_or (usize_try_from (from_le bs)) Corrupted) (\<lambda>collection_size.
         and_then (ok_or (checked_add base collection_size) Corrupted) (\<lambda>heap_end.
           heap_loop file_data base heap_end base16 Map.empty)))))))))"

definition heap_object :: "heap_objects \<Rightarrow> nat \<Rightarrow> bytes res" where
  "heap_object objects i = ok_or (objects i) Format"

section \<open>The writer\<close>

abbreviation (input) H5HG_MINSIZE :: nat where "H5HG_MINSIZE \<equiv> 4096"
abbreviation (input) H5HG_MAXSIZE :: nat where "H5HG_MAXSIZE \<equiv> 65536"
abbreviation (input) MAX_OBJECTS_PER_COLLECTION :: nat where "MAX_OBJECTS_PER_COLLECTION \<equiv> 65535"
abbreviation (input) COLLECTION_HEADER :: nat where "COLLECTION_HEADER \<equiv> 16"
abbreviation (input) OBJECT_HEADER :: nat where "OBJECT_HEADER \<equiv> 16"

record heap_object_location =
  hl_collection :: nat
  hl_index :: nat

type_synonym global_heap_writer = "bytes list"

text \<open>\<^verbatim>\<open>as u32\<close> truncates.\<close>

definition heap_write_bytes :: "global_heap_writer \<Rightarrow> bytes \<Rightarrow> global_heap_writer \<times> nat" where
  "heap_write_bytes objects dat = (let objects = objects @ [dat] in (objects, length objects mod u32_lim))"

definition align8_usize :: "nat \<Rightarrow> nat" where
  "align8_usize n = saturating_add n 7 div 8 * 8"

function next_size :: "nat \<Rightarrow> nat \<Rightarrow> nat" where
  "next_size content_end sz = (if sz < content_end \<and> 0 < sz then next_size content_end (2 * sz) else sz)"
  by pat_completeness auto

termination
  by (relation "measure (\<lambda>(content_end, sz). content_end - sz)") auto

declare next_size.simps [simp del]

definition collection_size :: "nat \<Rightarrow> nat" where
  "collection_size content_end =
     (if content_end \<le> H5HG_MAXSIZE then next_size content_end H5HG_MINSIZE else align8_usize content_end)"

definition put_object :: "nat \<times> bytes \<Rightarrow> bytes \<Rightarrow> bytes" where
  "put_object = (\<lambda>(i, obj) out.
     let idx = min (i mod 65536 + 1) 65535;
         out = out @ to_le 2 idx @ to_le 2 1 @ replicate 4 0 @ to_le 8 (length obj) @ obj;
         remainder = length out mod 8 in
     if remainder \<noteq> 0 then out @ replicate (8 - remainder) 0 else out)"

definition content_end_of :: "bytes list \<Rightarrow> nat" where
  "content_end_of objects =
     fold (\<lambda>obj acc. saturating_add acc (align8_usize (saturating_add OBJECT_HEADER (length obj)))) objects COLLECTION_HEADER"

text \<open>\<^verbatim>\<open>Vec::resize\<close>\<close>

definition resize0 :: "nat \<Rightarrow> bytes \<Rightarrow> bytes" where
  "resize0 n out = take n out @ replicate (n - length out) 0"

definition serialize_collection :: "bytes list \<Rightarrow> bytes" where
  "serialize_collection objects =
     (let content_end = content_end_of objects;
          declared = collection_size content_end;
          out = sig_GCOL @ [1] @ replicate 3 0 @ to_le 8 declared;
          out = fold put_object (enumerate 0 objects) out;
          leftover = declared - content_end;
          out = (if leftover \<ge> OBJECT_HEADER then out @ to_le 2 0 @ to_le 2 0 @ replicate 4 0 @ to_le 8 leftover else out) in
      resize0 declared out)"

type_synonym packing = "bytes list \<times> heap_object_location list \<times> bytes list \<times> nat"

definition pack_object :: "bytes \<Rightarrow> packing \<Rightarrow> packing" where
  "pack_object obj = (\<lambda>(collections, locations, current, content_used).
     let need = align8_usize (saturating_add OBJECT_HEADER (length obj));
         would_use = saturating_add content_used need;
         over_size = (would_use > H5HG_MAXSIZE);
         over_count = (length current \<ge> MAX_OBJECTS_PER_COLLECTION);
         (collections, current, content_used) =
           (if current \<noteq> [] \<and> (over_size \<or> over_count)
            then (collections @ [serialize_collection current], [], COLLECTION_HEADER)
            else (collections, current, content_used)) in
     (collections,
      locations @ [\<lparr>hl_collection = length collections mod u32_lim, hl_index = (length current + 1) mod u32_lim\<rparr>],
      current @ [obj], saturating_add content_used need))"

definition build_collections :: "global_heap_writer \<Rightarrow> bytes list \<times> heap_object_location list" where
  "build_collections objects =
     (let (collections, locations, current, _) = fold pack_object objects ([], [], [], COLLECTION_HEADER) in
      (if current \<noteq> [] then collections @ [serialize_collection current] else collections, locations))"

definition build_heap :: "global_heap_writer \<Rightarrow> bytes" where
  "build_heap objects = serialize_collection objects"

section \<open>The bytes of a collection\<close>

definition enc_obj :: "nat \<Rightarrow> bytes \<Rightarrow> bytes" where
  "enc_obj idx obj =
     to_le 2 idx @ to_le 2 1 @ replicate 4 0 @ to_le 8 (length obj) @ obj @
     replicate (align8 (16 + length obj) - (16 + length obj)) 0"

fun enc_objs :: "nat \<Rightarrow> bytes list \<Rightarrow> bytes" where
  "enc_objs n [] = []"
| "enc_objs n (obj # objs) = enc_obj (Suc n) obj @ enc_objs (Suc n) objs"

definition content :: "bytes list \<Rightarrow> nat" where
  "content objs = (\<Sum>obj\<leftarrow>objs. align8 (16 + length obj))"

lemma content_simps [simp]:
  "content [] = 0" "content (obj # objs) = align8 (16 + length obj) + content objs"
  "content (xs @ ys) = content xs + content ys"
  by (simp_all add: content_def)

lemma dvd_content [simp]: "8 dvd content objs"
  by (induction objs) simp_all

lemma length_enc_obj [simp]: "length (enc_obj i obj) = align8 (16 + length obj)"
  using align8_ge [of "16 + length obj"] by (simp add: enc_obj_def)

lemma length_enc_objs [simp]: "length (enc_objs n objs) = content objs"
  by (induction objs arbitrary: n) simp_all

lemma align8_usize_eq: "n + 7 < u64_lim \<Longrightarrow> align8_usize n = align8 n"
  by (simp add: align8_usize_def saturating_add_def align8_def)

lemma align8_gap: "align8 n - n = (if n mod 8 = 0 then 0 else 8 - n mod 8)"
proof -
  have "(8 * q + r + 7) div 8 * 8 - (8 * q + r) = (if r = 0 then 0 else 8 - r)" if "r < 8" for q r :: nat
  proof -
    have "(8 * q + r + 7) div 8 = q + (if r = 0 then 0 else 1)" using that by (intro div_nat_eqI) auto
    then show ?thesis using that by simp
  qed
  from this [of "n mod 8" "n div 8"] show ?thesis by (simp add: align8_def)
qed

lemma put_object_enc:
  assumes "8 dvd length out" "i < 65535"
  shows "put_object (i, obj) out = out @ enc_obj (Suc i) obj"
proof -
  let ?e = "out @ to_le 2 (Suc i) @ to_le 2 1 @ replicate 4 0 @ to_le 8 (length obj) @ obj"
  have idx: "min (i mod 65536 + 1) 65535 = Suc i" using assms by simp
  have len: "length ?e = length out + (16 + length obj)" by simp
  have "put_object (i, obj) out =
      (if length ?e mod 8 \<noteq> 0 then ?e @ replicate (8 - length ?e mod 8) 0 else ?e)"
    unfolding put_object_def prod.case idx Let_def ..
  also have "\<dots> = ?e @ replicate (align8 (16 + length obj) - (16 + length obj)) 0"
    unfolding len using assms(1) by (auto simp: align8_gap mod_add_left_eq [symmetric, of "length out"] dvd_eq_mod_eq_0)
  finally show ?thesis by (simp add: enc_obj_def)
qed

lemma put_objects_enc:
  "8 dvd length out \<Longrightarrow> n + length objs \<le> 65535 \<Longrightarrow>
   fold put_object (enumerate n objs) out = out @ enc_objs n objs"
  by (induction objs arbitrary: n out) (simp_all add: put_object_enc)

lemma content_end_eq:
  assumes "24 + content objs < u64_lim"
  shows "content_end_of objs = 16 + content objs"
proof -
  have "fold (\<lambda>obj acc. saturating_add acc (align8_usize (saturating_add 16 (length obj)))) objs acc = acc + content objs"
    if "acc + content objs + 8 < u64_lim" for acc
    using that
  proof (induction objs arbitrary: acc)
    case (Cons obj objs)
    then have "16 + length obj + 8 < u64_lim" using align8_ge [of "16 + length obj"] by simp
    then have "align8_usize (saturating_add 16 (length obj)) = align8 (16 + length obj)"
      by (simp add: align8_usize_eq saturating_add_def)
    then show ?case using Cons by (simp add: saturating_add_def add.assoc)
  qed simp
  from this [of 16] show ?thesis using assms by (simp add: content_end_of_def)
qed

text \<open>The declared size is at least the content, and the space left over is a multiple of eight.\<close>

lemma next_size_eq:
  "c \<le> 65536 \<Longrightarrow> next_size c 4096 =
     (if c \<le> 4096 then 4096 else if c \<le> 8192 then 8192 else if c \<le> 16384 then 16384
      else if c \<le> 32768 then 32768 else 65536)"
  by (simp add: next_size.simps [of c 4096] next_size.simps [of c 8192] next_size.simps [of c 16384]
      next_size.simps [of c 32768] next_size.simps [of c 65536])

lemma collection_size_props:
  assumes "8 dvd c" "c + 7 < u64_lim"
  shows "c \<le> collection_size c" "4096 \<le> collection_size c" "8 dvd collection_size c"
    "c \<le> 65536 \<Longrightarrow> collection_size c \<le> 65536" "65536 < c \<Longrightarrow> collection_size c = c"
    "collection_size c < u64_lim"
  using assms by (auto simp: collection_size_def align8_usize_eq align8_id next_size_eq)

definition free_space :: "nat \<Rightarrow> bytes" where
  "free_space leftover = (if leftover \<ge> 16 then to_le 2 0 @ to_le 2 0 @ replicate 4 0 @ to_le 8 leftover @ replicate (leftover - 16) 0
     else replicate leftover 0)"

lemma serialize_collection_enc:
  assumes "32 + content objs < u64_lim" "length objs \<le> 65535"
  shows "serialize_collection objs =
     (let declared = collection_size (16 + content objs) in
      (sig_GCOL @ [1] @ replicate 3 0 @ to_le 8 declared) @ enc_objs 0 objs @ free_space (declared - (16 + content objs)))"
proof -
  let ?c = "16 + content objs" and ?n = "collection_size (16 + content objs)"
  let ?h = "sig_GCOL @ [1] @ replicate 3 0 @ to_le 8 ?n"
  have c: "content_end_of objs = ?c" using assms by (simp add: content_end_eq)
  have le: "?c \<le> ?n" using assms by (intro collection_size_props) simp_all
  have h: "length ?h = 16" by (simp add: sig_GCOL_def)
  have body: "fold put_object (enumerate 0 objs) ?h = ?h @ enc_objs 0 objs"
    using assms by (intro put_objects_enc) (simp_all add: sig_GCOL_def)
  have "serialize_collection objs = resize0 ?n
      (if ?n - ?c \<ge> 16 then (?h @ enc_objs 0 objs) @ to_le 2 0 @ to_le 2 0 @ replicate 4 0 @ to_le 8 (?n - ?c)
       else ?h @ enc_objs 0 objs)"
    unfolding serialize_collection_def Let_def c body ..
  also have "\<dots> = ?h @ enc_objs 0 objs @ free_space (?n - ?c)"
    using le h by (auto simp: resize0_def free_space_def simp del: to_le.simps)
  finally show ?thesis by (simp add: Let_def)
qed

lemma length_free_space [simp]: "length (free_space n) = n"
  by (cases "16 \<le> n") (auto simp: free_space_def)

lemma length_serialize_collection:
  assumes "32 + content objs < u64_lim" "length objs \<le> 65535"
  shows "length (serialize_collection objs) = collection_size (16 + content objs)"
  using assms collection_size_props(1) [of "16 + content objs"]
  by (simp add: serialize_collection_enc Let_def sig_GCOL_def)

section \<open>Reading a collection back\<close>

lemma heap_object_at_enc:
  assumes d: "drop pos d = enc_obj i obj @ rest" and i: "0 < i" "i < 65536" and pos: "pos = base + rel" "8 dvd rel"
    and len: "length d \<le> isize_max" and le: "pos \<le> length d"
  shows "heap_object_at d base pos = Inr (Some (i, obj, pos + align8 (16 + length obj)))"
proof -
  have size: "pos + align8 (16 + length obj) + length rest = length d"
    using arg_cong [OF d, of length] le by simp
  have at: "drop (pos + k) d = drop k (enc_obj i obj @ rest)" for k
    unfolding d [symmetric] by (simp add: add.commute)
  have bounds: "pos + 16 + length obj \<le> length d" using size align8_ge [of "16 + length obj"] by simp
  have idx: "get_range d pos (pos + 2) = Some (to_le 2 i)"
    using bounds d by (simp add: enc_obj_def)
  have sz: "get_range d (pos + 8) (pos + 16) = Some (to_le 8 (length obj))"
    using bounds at [of 8] by (simp add: enc_obj_def)
  have dat: "get_range d (pos + 16) (pos + 16 + length obj) = Some obj"
    using bounds at [of 16] by (simp add: enc_obj_def)
  have le: "from_le (to_le 2 i) = i" "from_le (to_le 8 (length obj)) = length obj"
    using i len bounds by (simp_all add: from_le_to_le)
  have rel: "(rel + (16 + length obj) + 7) div 8 * 8 = rel + align8 (16 + length obj)"
    using pos(2) div_plus_div_distrib_dvd_left [of 8 rel "16 + length obj + 7"] by (simp add: align8_def add.assoc distrib_right)
  show ?thesis
    unfolding heap_object_at_def Let_def idx ok_or_simps and_then_simps le sz
    using i len size bounds rel dat by (simp add: pos(1) checked_add_def checked_sub_def algebra_simps)
qed

lemma heap_object_at_free:
  assumes "drop pos d = free_space n @ rest" "16 \<le> n" "pos \<le> length d"
  shows "heap_object_at d base pos = Inr None"
proof -
  have "length d = pos + n + length rest" using arg_cong [OF assms(1), of length] assms(3) by simp
  then show ?thesis
    using assms by (simp add: heap_object_at_def free_space_def Let_def from_le_to_le)
qed

text \<open>The objects a serialised collection yields, keyed from 1.\<close>

fun objects_map :: "nat \<Rightarrow> bytes list \<Rightarrow> heap_objects \<Rightarrow> heap_objects" where
  "objects_map n [] m = m"
| "objects_map n (obj # objs) m = objects_map (Suc n) objs (m(Suc n \<mapsto> obj))"

lemma objects_map_apply:
  "objects_map n objs m i = (if n < i \<and> i \<le> n + length objs then Some (objs ! (i - Suc n)) else m i)"
  by (induction objs arbitrary: n m) (auto simp: nth_Cons' Suc_diff_Suc)

lemma heap_loop_objects:
  assumes "drop pos d = enc_objs n objs @ rest" "n + length objs \<le> 65535" "pos = base + rel" "8 dvd rel"
    "length d \<le> isize_max" "pos \<le> length d" "pos + content objs \<le> heap_end"
  shows "heap_loop d base heap_end pos m = heap_loop d base heap_end (pos + content objs) (objects_map n objs m)"
  using assms
proof (induction objs arbitrary: n pos rel m)
  case (Cons obj objs)
  let ?next = "pos + align8 (16 + length obj)"
  have "heap_object_at d base pos = Inr (Some (Suc n, obj, ?next))"
    using Cons.prems by (intro heap_object_at_enc [where rel = rel and rest = "enc_objs (Suc n) objs @ rest"]) simp_all
  moreover have size: "pos + (align8 (16 + length obj) + content objs) + length rest = length d"
    using arg_cong [OF Cons.prems(1), of length] Cons.prems(6) by simp
  moreover have "16 \<le> align8 (16 + length obj)" using align8_ge [of "16 + length obj"] by simp
  ultimately have "heap_loop d base heap_end pos m = heap_loop d base heap_end ?next (m(Suc n \<mapsto> obj))"
    using Cons.prems by (subst heap_loop.simps) (simp add: checked_add_def)
  moreover have "drop ?next d = enc_objs (Suc n) objs @ rest"
    using arg_cong [OF Cons.prems(1), of "drop (align8 (16 + length obj))"] by (simp add: add.commute)
  moreover have "heap_loop d base heap_end ?next (m(Suc n \<mapsto> obj)) =
      heap_loop d base heap_end (?next + content objs) (objects_map (Suc n) objs (m(Suc n \<mapsto> obj)))"
    using Cons.prems size calculation
    by (intro Cons.IH [where rel = "rel + align8 (16 + length obj)"]) simp_all
  ultimately show ?case by (simp add: add.assoc)
qed simp

lemma heap_loop_end:
  assumes "drop pos d = free_space n @ rest" "8 dvd n" "heap_end = pos + n" "pos \<le> length d"
  shows "heap_loop d base heap_end pos m = Inr m"
  using assms heap_object_at_free [of pos d n rest base]
  by (subst heap_loop.simps) (auto simp: checked_add_def)

theorem read_collection:
  assumes d: "d = pre @ serialize_collection objs @ post" and len: "length d \<le> isize_max"
    and objs: "length objs \<le> 65535" "32 + content objs < u64_lim"
  shows "global_heap_parse d (length pre) = Inr (objects_map 0 objs Map.empty)"
proof -
  let ?c = "16 + content objs" and ?n = "collection_size (16 + content objs)"
  define h where "h = sig_GCOL @ [1] @ replicate 3 0 @ to_le 8 ?n"
  let ?body = "enc_objs 0 objs @ free_space (?n - ?c) @ post"
  have c: "?c \<le> ?n" "8 dvd ?n" using objs by (auto intro!: collection_size_props)
  have size: "length d = length pre + ?n + length post"
    using objs by (simp add: d length_serialize_collection)
  have h: "length h = 16" by (simp add: h_def sig_GCOL_def)
  have d': "d = pre @ h @ ?body"
    using objs by (simp add: d serialize_collection_enc Let_def h_def)
  have at: "drop (length pre + k) d = drop k (h @ ?body)" for k
    by (simp add: d')
  have "heap_loop d (length pre) (length pre + ?n) (length pre + 16) Map.empty =
      heap_loop d (length pre) (length pre + ?n) (length pre + 16 + content objs) (objects_map 0 objs Map.empty)"
    using at [of 16] h objs c len size
    by (intro heap_loop_objects [where rel = 16 and rest = "free_space (?n - ?c) @ post"]) simp_all
  also have "\<dots> = Inr (objects_map 0 objs Map.empty)"
    using at [of ?c] h c size
    by (intro heap_loop_end [where n = "?n - ?c" and rest = post]) (simp_all add: add.assoc dvd_diff_nat)
  finally have loop: "heap_loop d (length pre) (length pre + ?n) (length pre + 16) Map.empty = Inr (objects_map 0 objs Map.empty)" .
  have bounds: "length pre + 16 \<le> length d" "length pre + ?n < u64_lim" using size c len by simp_all
  have sig: "get_range d (length pre) (length pre + 4) = Some sig_GCOL"
    using bounds at [of 0] by (simp add: h_def sig_GCOL_def)
  have ver: "get_elem d (length pre + 4) = Some 1"
    using bounds by (simp add: d' h_def sig_GCOL_def nth_append)
  have sz: "get_range d (length pre + 8) (length pre + 16) = Some (to_le 8 ?n)"
    using bounds at [of 8] by (simp add: h_def sig_GCOL_def)
  show ?thesis
    using bounds len by (simp add: global_heap_parse_def sig ver sz loop checked_add_def usize_try_from_def from_le_to_le)
qed

section \<open>Packing objects into collections\<close>

definition group_ok :: "bytes list \<Rightarrow> bool" where
  "group_ok objs \<longleftrightarrow> objs \<noteq> [] \<and> length objs \<le> 65535 \<and> (16 + content objs \<le> 65536 \<or> length objs = 1)"

definition located :: "bytes list list \<Rightarrow> bytes \<Rightarrow> heap_object_location \<Rightarrow> bool" where
  "located groups obj l \<longleftrightarrow>
     hl_collection l < length groups \<and> 0 < hl_index l \<and> hl_index l \<le> length (groups ! hl_collection l) \<and>
     groups ! hl_collection l ! (hl_index l - 1) = obj"

text \<open>The invariant of the packing loop: the groups closed so far, and the group being filled.\<close>

definition packed :: "bytes list \<Rightarrow> packing \<Rightarrow> bool" where
  "packed objs = (\<lambda>(collections, locations, current, content_used). \<exists>groups.
     collections = map serialize_collection groups \<and> concat groups @ current = objs \<and>
     (\<forall>g\<in>set groups. group_ok g) \<and> (current = [] \<or> group_ok current) \<and> content_used = 16 + content current \<and>
     list_all2 (located (groups @ [current])) objs locations)"

lemma located_mono:
  assumes "located gs obj l" "length gs \<le> length gs'"
    "\<And>i. i < length gs \<Longrightarrow> \<exists>ys. gs' ! i = gs ! i @ ys"
  shows "located gs' obj l"
proof -
  obtain ys where "gs' ! hl_collection l = gs ! hl_collection l @ ys"
    using assms(1,3) by (auto simp: located_def)
  then show ?thesis using assms(1,2) by (auto simp: located_def nth_append)
qed

lemma length_groups: "\<forall>g\<in>set groups. group_ok g \<Longrightarrow> length groups \<le> length (concat groups)"
  by (induction groups) (auto simp: group_ok_def neq_Nil_conv)

lemma single_group [simp]: "group_ok [obj]"
  by (simp add: group_ok_def)

lemma pack_object_packed:
  assumes inv: "packed objs st" and size: "length obj \<le> isize_max" "length objs < u32_lim"
  shows "packed (objs @ [obj]) (pack_object obj st)"
proof -
  obtain collections locations current used where st: "st = (collections, locations, current, used)"
    by (cases st) auto
  obtain groups where g: "collections = map serialize_collection groups" "concat groups @ current = objs"
    "\<forall>g\<in>set groups. group_ok g" "current = [] \<or> group_ok current" "used = 16 + content current"
    "list_all2 (located (groups @ [current])) objs locations"
    using inv by (auto simp: packed_def st)
  let ?need = "align8 (16 + length obj)"
  have need: "align8_usize (saturating_add 16 (length obj)) = ?need"
    using size by (simp add: align8_usize_eq saturating_add_def)
  have need_le: "?need < length obj + 24" using align8_less [of "16 + length obj"] by simp
  have ngroups: "length groups < u32_lim"
    using length_groups [of groups] g(2,3) size(2) by auto
  show ?thesis
  proof (cases "current \<noteq> [] \<and> (saturating_add used ?need > 65536 \<or> length current \<ge> 65535)")
    case True
    let ?l = "\<lparr>hl_collection = Suc (length groups) mod u32_lim, hl_index = 1\<rparr>"
    have step: "pack_object obj st =
        (map serialize_collection (groups @ [current]), locations @ [?l], [obj], 16 + ?need)"
      using True need_le size by (simp add: pack_object_def st Let_def need g(1)) (simp add: saturating_add_def)
    have "\<forall>g\<in>set (groups @ [current]). group_ok g" using g(3,4) True by auto
    from length_groups [OF this] have "Suc (length groups) < u32_lim"
      using g(2) size(2) by auto
    then have "located (groups @ [current] @ [[obj]]) obj ?l"
      by (simp add: located_def nth_append)
    moreover have "list_all2 (located (groups @ [current] @ [[obj]])) objs locations"
      using g(6) by (rule list_all2_mono) (erule located_mono; simp add: nth_append)
    ultimately show ?thesis
      unfolding step packed_def prod.case using g True
      by (intro exI [of _ "groups @ [current]"]) (auto intro: list_all2_appendI)
  next
    case False
    let ?l = "\<lparr>hl_collection = length groups mod u32_lim, hl_index = Suc (length current) mod u32_lim\<rparr>"
    have fits: "current = [] \<or> used + ?need \<le> 65536 \<and> length current < 65535"
      using False by (auto simp: saturating_add_def min_def split: if_splits)
    then have "saturating_add used ?need = used + ?need"
      using g(5) need_le size by (auto simp: saturating_add_def)
    then have step: "pack_object obj st = (collections, locations @ [?l], current @ [obj], 16 + content (current @ [obj]))"
      using False by (auto simp add: pack_object_def st Let_def need g(1,5))
    have "group_ok (current @ [obj])" using fits g(5) by (cases current) (auto simp: group_ok_def)
    moreover have "located (groups @ [current @ [obj]]) obj ?l"
      using ngroups fits by (auto simp: located_def nth_append)
    moreover have "list_all2 (located (groups @ [current @ [obj]])) objs locations"
      using g(6) by (rule list_all2_mono) (erule located_mono; simp add: nth_append)
    ultimately show ?thesis
      unfolding step packed_def prod.case using g
      by (intro exI [of _ groups]) (auto intro: list_all2_appendI)
  qed
qed

lemma pack_objects_packed:
  assumes "\<And>obj. obj \<in> set objs \<Longrightarrow> length obj \<le> isize_max" "length objs < u32_lim"
  shows "packed objs (fold pack_object objs ([], [], [], COLLECTION_HEADER))"
  using assms
proof (induction objs rule: rev_induct)
  case Nil
  show ?case by (simp add: packed_def)
next
  case (snoc obj objs)
  then show ?case using pack_object_packed [of objs "fold pack_object objs ([], [], [], 16)" obj] by simp
qed

text \<open>
  What \<^verbatim>\<open>build_collections\<close> returns: the objects split, in order, into well-formed groups,
  one serialised collection per group, and the place of every object.
\<close>

lemma build_collections_packed:
  assumes "\<And>obj. obj \<in> set objs \<Longrightarrow> length obj \<le> isize_max" "length objs < u32_lim"
    "build_collections objs = (cols, locs)"
  obtains groups where "cols = map serialize_collection groups" "concat groups = objs"
    "\<And>g. g \<in> set groups \<Longrightarrow> group_ok g" "list_all2 (located groups) objs locs"
proof -
  obtain collections locations current used where
    st: "fold pack_object objs ([], [], [], 16) = (collections, locations, current, used)"
    by (metis prod_cases4)
  have "packed objs (collections, locations, current, used)"
    using pack_objects_packed [of objs] assms(1,2) st by simp
  then obtain groups where g: "collections = map serialize_collection groups" "concat groups @ current = objs"
    "\<forall>g\<in>set groups. group_ok g" "current = [] \<or> group_ok current"
    "list_all2 (located (groups @ [current])) objs locations"
    by (auto simp: packed_def)
  show thesis
  proof (cases "current = []")
    case True
    have "list_all2 (located groups) objs locations"
      using g(5) by (rule list_all2_mono) (auto simp: located_def True nth_append split: if_splits)
    then show thesis using that [of groups] g assms(3) by (simp add: build_collections_def st True)
  next
    case False
    then show thesis using that [of "groups @ [current]"] g assms(3) by (auto simp: build_collections_def st)
  qed
qed

lemma group_content:
  assumes "group_ok g" "\<And>obj. obj \<in> set g \<Longrightarrow> length obj \<le> isize_max"
  shows "32 + content g < u64_lim" "length g \<le> 65535"
proof -
  have "length obj \<le> isize_max \<Longrightarrow> 32 + content [obj] < u64_lim" for obj :: bytes
    using align8_less [of "16 + length obj"] by simp
  then show "32 + content g < u64_lim" "length g \<le> 65535"
    using assms by (auto simp: group_ok_def length_Suc_conv)
qed

lemma heap_read_back:
  assumes "\<forall>obj\<in>set objs. length obj \<le> isize_max" "length objs < u32_lim"
    and build: "build_collections objs = (cols, locs)" and k: "k < length objs"
    and d: "d = pre @ cols ! hl_collection (locs ! k) @ post" and len: "length d \<le> isize_max"
  shows "and_then (global_heap_parse d (length pre)) (\<lambda>h. heap_object h (hl_index (locs ! k))) = Inr (objs ! k)"
proof -
  obtain groups where g: "cols = map serialize_collection groups" "concat groups = objs"
    "\<And>g. g \<in> set groups \<Longrightarrow> group_ok g" "list_all2 (located groups) objs locs"
    using build_collections_packed [OF _ assms(2) build] assms(1) by blast
  let ?g = "groups ! hl_collection (locs ! k)"
  have loc: "located groups (objs ! k) (locs ! k)" using g(4) k by (rule list_all2_nthD)
  then have mem: "?g \<in> set groups" by (simp add: located_def)
  then have ok: "32 + content ?g < u64_lim" "length ?g \<le> 65535"
    using group_content [OF g(3) [OF mem]] assms(1) g(2) by auto
  have "global_heap_parse d (length pre) = Inr (objects_map 0 ?g Map.empty)"
    using loc g(1) d by (intro read_collection [OF _ len ok(2,1)]) (simp add: located_def)
  then show ?thesis using loc by (simp add: heap_object_def objects_map_apply located_def)
qed

text \<open>
  C13. Whatever objects are stored, the global heap writer's output is readable: it splits them into
  collections, and when the collection that \<^verbatim>\<open>build_collections\<close> names for object \<open>k\<close> is placed
  anywhere in a file, \<^verbatim>\<open>GlobalHeap::parse\<close> at its address followed by \<^verbatim>\<open>object\<close> with the index
  it names returns exactly the bytes of object \<open>k\<close>.
\<close>

theorem global_heap_round_trip:
  assumes "\<forall>obj\<in>set objs. length obj \<le> isize_max" "length objs < u32_lim"
    and "build_collections objs = (cols, locs)" and "k < length objs"
    and "d = pre @ cols ! hl_collection (locs ! k) @ post" and "length d \<le> isize_max"
  shows "and_then (global_heap_parse d (length pre)) (\<lambda>h. heap_object h (hl_index (locs ! k))) = Inr (objs ! k)"
  using assms by (rule heap_read_back)

lemma build_two:
  "build_collections [[1], [2, 3]] =
     ([serialize_collection [[1], [2, 3]]],
      [\<lparr>hl_collection = 0, hl_index = 1\<rparr>, \<lparr>hl_collection = 0, hl_index = 2\<rparr>])"
  by (simp add: build_collections_def pack_object_def align8_usize_def saturating_add_def)

theorem global_heap_round_trip_witness:
  "let d = [9, 9, 9] @ serialize_collection [[1], [2, 3]] in
   and_then (global_heap_parse d 3) (\<lambda>h. heap_object h 2) = Inr [2, 3]"
  using global_heap_round_trip [of "[[1], [2, 3]]" _ _ 1 _ "[9, 9, 9]" "[]", OF _ _ build_two]
  by (simp add: length_serialize_collection align8_def collection_size_def next_size_eq numeral_3_eq_3)

text \<open>Every collection the writer emits satisfies what libhdf5 requires of one.\<close>

theorem collections_conform:
  assumes "\<forall>obj\<in>set objs. length obj \<le> isize_max" "length objs < u32_lim"
    and build: "build_collections objs = (cols, locs)" and c: "c \<in> set cols"
  shows "4096 \<le> length c \<and> 8 dvd length c \<and> take 4 c = sig_GCOL \<and> field 8 c 8 = length c \<and>
    (length c \<le> 65536 \<or> (\<exists>obj\<in>set objs. c = serialize_collection [obj]))"
proof -
  obtain groups where g: "cols = map serialize_collection groups" "concat groups = objs"
    "\<And>g. g \<in> set groups \<Longrightarrow> group_ok g"
    using build_collections_packed [OF _ assms(2) build] assms(1) by blast
  then obtain g where mem: "g \<in> set groups" and cg: "c = serialize_collection g" using c by auto
  have ok: "32 + content g < u64_lim" "length g \<le> 65535"
    using group_content [OF g(3) [OF mem]] assms(1) g(2) mem by auto
  have props: "4096 \<le> length c" "8 dvd length c" "16 + content g \<le> 65536 \<Longrightarrow> length c \<le> 65536"
    "length c < u64_lim"
    using ok by (auto simp: cg length_serialize_collection intro: collection_size_props)
  moreover have "take 4 c = sig_GCOL" "field 8 c 8 = collection_size (16 + content g)"
    using ok props(4) collection_size_props(6) [of "16 + content g"]
    by (simp_all add: cg serialize_collection_enc Let_def sig_GCOL_def field_eval)
  moreover have "16 + content g \<le> 65536 \<or> (\<exists>obj. g = [obj])"
    using g(3) [OF mem] by (auto simp: group_ok_def length_Suc_conv)
  moreover have "\<exists>obj\<in>set objs. c = serialize_collection [obj]" if "g = [obj]" for obj
  proof
    show "c = serialize_collection [obj]" using that cg by simp
    show "obj \<in> set objs" using mem g(2) by (auto simp: that intro!: bexI [of _ g])
  qed
  ultimately show ?thesis using ok by (auto simp: cg length_serialize_collection)
qed

end
