(* ===== verification/Fractal_Heap.thy ===== *)
theory Fractal_Heap
  imports Outcome Filter_Message
begin

text \<open>
  \<^verbatim>\<open>oxih5-format/src/fractal_heap.rs\<close>: the heap of variable-length objects behind a dense group.
  The virtual address space of a heap is a doubling table of blocks; the root is one direct block
  (possibly filtered) or an indirect block, whose entries are direct blocks or, in the later rows,
  indirect blocks again. The source recurses on them without a depth limit, so the reader is a
  partial function: \<open>None\<close> means that it does not return.
\<close>

section \<open>The header\<close>

record fh_io_filter =
  filtered_root_size :: nat
  io_filter_mask :: nat
  io_pipeline :: filter_pipeline

record fractal_heap =
  fh_file :: bytes
  fh_header_address :: nat
  heap_id_len :: nat
  max_managed_obj_size :: nat
  root_block_address :: nat
  starting_block_size :: nat
  max_direct_block_size :: nat
  table_width :: nat
  max_heap_size_bits :: nat
  root_indirect_rows :: nat
  current_rows :: nat
  fh_size_of_offsets :: nat
  io_filter :: "fh_io_filter option"

definition sig_FRHP :: bytes where
  "sig_FRHP = [0x46, 0x52, 0x48, 0x50]"

definition sig_FHDB :: bytes where
  "sig_FHDB = [0x46, 0x48, 0x44, 0x42]"

definition sig_FHIB :: bytes where
  "sig_FHIB = [0x46, 0x48, 0x49, 0x42]"

definition fh_read_u16 :: "bytes \<Rightarrow> nat \<Rightarrow> nat res" where
  "fh_read_u16 d off = and_then (uadd off 2) (\<lambda>e. and_then (ok_or (get_range d off e) Format) (\<lambda>bs. Inr (from_le bs)))"

definition fh_read_u32 :: "bytes \<Rightarrow> nat \<Rightarrow> nat res" where
  "fh_read_u32 d off = and_then (uadd off 4) (\<lambda>e. and_then (ok_or (get_range d off e) Format) (\<lambda>bs. Inr (from_le bs)))"

definition fh_read_u64 :: "bytes \<Rightarrow> nat \<Rightarrow> nat res" where
  "fh_read_u64 d off = and_then (uadd off 8) (\<lambda>e. and_then (ok_or (get_range d off e) Format) (\<lambda>bs. Inr (from_le bs)))"

definition io_filter_at :: "bytes \<Rightarrow> nat \<Rightarrow> nat \<Rightarrow> fh_io_filter option res" where
  "io_filter_at d base io_filter_len =
     (if io_filter_len > 0 then
        and_then (fh_read_u64 d (base + 142)) (\<lambda>root_size.
        and_then (fh_read_u32 d (base + 150)) (\<lambda>mask.
        let pipe_start = base + 154 in
        and_then (ok_or (checked_add pipe_start io_filter_len) Format) (\<lambda>pipe_end.
        and_then (ok_or (get_range d pipe_start pipe_end) Format) (\<lambda>pipe_bytes.
        and_then (parse_filter_pipeline pipe_bytes) (\<lambda>pipeline.
          Inr (Some \<lparr>filtered_root_size = root_size, io_filter_mask = mask, io_pipeline = pipeline\<rparr>))))))
      else Inr None)"

definition fractal_heap_parse :: "bytes \<Rightarrow> nat \<Rightarrow> nat \<Rightarrow> fractal_heap res" where
  "fractal_heap_parse file_data header_address soo =
     and_then (ok_or (usize_try_from header_address) Corrupted) (\<lambda>base.
     and_then (ok_or (checked_add base 4) Corrupted) (\<lambda>base4.
     let d = file_data in
     and_then (ok_or (get_range d base base4) Format) (\<lambda>sig.
     if sig \<noteq> sig_FRHP then Inl Format
     else
       and_then (ok_or (get_elem d (base + 4)) Format) (\<lambda>version.
       if version \<noteq> 0 then Inl Format
       else
         and_then (ok_or (get_elem d (base + 5)) Format) (\<lambda>id_len.
         and_then (fh_read_u16 d (base + 7)) (\<lambda>io_filter_len.
         and_then (ok_or (get_elem d (base + 7)) Format) (\<lambda>_.
         and_then (fh_read_u32 d (base + 8)) (\<lambda>max_managed.
         and_then (fh_read_u16 d (base + 110)) (\<lambda>width.
         and_then (fh_read_u64 d (base + 112)) (\<lambda>starting.
         and_then (fh_read_u64 d (base + 120)) (\<lambda>max_direct.
         and_then (fh_read_u16 d (base + 128)) (\<lambda>heap_bits.
         and_then (fh_read_u16 d (base + 130)) (\<lambda>root_rows.
         and_then (fh_read_u64 d (base + 132)) (\<lambda>root_address.
         and_then (fh_read_u16 d (base + 140)) (\<lambda>rows.
         and_then (io_filter_at d base io_filter_len) (\<lambda>flt.
           Inr \<lparr>fh_file = file_data, fh_header_address = header_address, heap_id_len = unat id_len,
                max_managed_obj_size = max_managed, root_block_address = root_address,
                starting_block_size = starting, max_direct_block_size = max_direct, table_width = width,
                max_heap_size_bits = heap_bits, root_indirect_rows = root_rows, current_rows = rows,
                fh_size_of_offsets = soo, io_filter = flt\<rparr>))))))))))))))))"

section \<open>Heap IDs\<close>

definition le_bytes_to_u64 :: "bytes \<Rightarrow> nat" where
  "le_bytes_to_u64 bs = from_le (take 8 bs)"

definition parse_heap_id :: "fractal_heap \<Rightarrow> bytes \<Rightarrow> (nat \<times> nat) res" where
  "parse_heap_id h heap_id =
     (if length heap_id < heap_id_len h then Inl Format
      else
        and_then (index heap_id 0) (\<lambda>b.
        if and b 3 \<noteq> 0 then Inl NotImplemented
        else
          let offset_size = max (div_ceil (max_heap_size_bits h) 8) 1 in
          and_then (usub (heap_id_len h) 1) (\<lambda>id_body.
          let length_size = max (id_body - offset_size) 1 in
          if 1 + offset_size + length_size > length heap_id then Inl Format
          else
            and_then (slice heap_id 1 (1 + offset_size)) (\<lambda>off.
            and_then (slice heap_id (1 + offset_size) (1 + offset_size + length_size)) (\<lambda>len.
              Inr (le_bytes_to_u64 off, le_bytes_to_u64 len))))))"

section \<open>The doubling table\<close>

text \<open>\<^verbatim>\<open>checked_shl\<close> fails on a shift of 64 or more and otherwise drops the bits shifted out.\<close>

definition block_size_for_row :: "fractal_heap \<Rightarrow> nat \<Rightarrow> nat" where
  "block_size_for_row h row =
     (if row = 0 \<or> row = 1 then starting_block_size h
      else if row - 1 < 64 then push_bit (row - 1) (starting_block_size h) mod u64_lim
      else u64_max)"

function direct_rows_from :: "fractal_heap \<Rightarrow> nat \<Rightarrow> nat" where
  "direct_rows_from h row =
     (if row < 256 then
        if block_size_for_row h row > max_direct_block_size h then row
        else direct_rows_from h (row + 1)
      else row)"
  by pat_completeness auto
termination by (relation "measure (\<lambda>(h, row). 256 - row)") auto

declare direct_rows_from.simps [simp del]

definition num_direct_rows :: "fractal_heap \<Rightarrow> nat" where
  "num_direct_rows h = direct_rows_from h 0"

text \<open>The rows a block of \<open>block_size\<close> bytes needs in a table of its own.\<close>

function nrows_from :: "fractal_heap \<Rightarrow> nat \<Rightarrow> nat \<Rightarrow> nat \<Rightarrow> nat res" where
  "nrows_from h block_size cumulative n =
     (if n < 256 then
        and_then (umul (table_width h) (block_size_for_row h n)) (\<lambda>p.
        let cumulative = saturating_add cumulative p in
        if cumulative \<ge> block_size then Inr (n + 1) else nrows_from h block_size cumulative (n + 1))
      else Inr n)"
  by pat_completeness auto
termination by (relation "measure (\<lambda>(h, block_size, cumulative, n). 256 - n)") auto

declare nrows_from.simps [simp del]

definition compute_indirect_nrows :: "fractal_heap \<Rightarrow> nat \<Rightarrow> nat res" where
  "compute_indirect_nrows h block_size = nrows_from h block_size 0 0"

section \<open>Reading objects\<close>

definition read_from_direct_block :: "fractal_heap \<Rightarrow> nat \<Rightarrow> nat \<Rightarrow> nat \<Rightarrow> bytes res" where
  "read_from_direct_block h block_address heap_offset object_size =
     (let base = block_address; d = fh_file h in
      and_then (uadd base 4) (\<lambda>e.
      and_then (ok_or (get_range d base e) Format) (\<lambda>sig.
      if sig \<noteq> sig_FHDB then Inl Format
      else
        and_then (ok_or (checked_add base heap_offset) Format) (\<lambda>obj_start.
        and_then (ok_or (checked_add obj_start object_size) Format) (\<lambda>obj_end.
          ok_or (get_range d obj_start obj_end) Format)))))"

text \<open>The entry that covers a heap offset: its row, its column and where its block starts.\<close>

definition entry_in_row :: "fractal_heap \<Rightarrow> nat \<Rightarrow> nat \<Rightarrow> nat \<Rightarrow> (nat \<times> nat \<times> nat) option res" where
  "entry_in_row h target row cumulative =
     find_res (\<lambda>col.
       and_then (umul col (block_size_for_row h row)) (\<lambda>p.
       let entry_start = saturating_add cumulative p;
           entry_end = saturating_add entry_start (block_size_for_row h row) in
       Inr (if target \<ge> entry_start \<and> target < entry_end then Some (row, col, entry_start) else None)))
       [0..<table_width h]"

function find_entry_from :: "fractal_heap \<Rightarrow> nat \<Rightarrow> nat \<Rightarrow> nat \<Rightarrow> nat \<Rightarrow> (nat \<times> nat \<times> nat) option res" where
  "find_entry_from h num_rows target row cumulative =
     (if row < num_rows then
        and_then (entry_in_row h target row cumulative) (\<lambda>hit.
        case hit of
          Some e \<Rightarrow> Inr (Some e)
        | None \<Rightarrow>
            and_then (umul (table_width h) (block_size_for_row h row)) (\<lambda>p.
              find_entry_from h num_rows target (row + 1) (saturating_add cumulative p)))
      else Inr None)"
  by pat_completeness auto
termination by (relation "measure (\<lambda>(h, num_rows, target, row, cumulative). num_rows - row)") auto

declare find_entry_from.simps [simp del]

text \<open>
  One level of the descent: the object, or the indirect block to go on with, its number of rows
  and the offset within it.
\<close>

datatype descent = Object bytes | Descend nat nat nat

definition indirect_step :: "fractal_heap \<Rightarrow> nat \<Rightarrow> nat \<Rightarrow> nat \<Rightarrow> nat \<Rightarrow> descent res" where
  "indirect_step h block_address num_rows target object_size =
     (let soo = fh_size_of_offsets h; base = block_address; d = fh_file h in
      and_then (uadd base 4) (\<lambda>e.
      and_then (ok_or (get_range d base e) Format) (\<lambda>sig.
      if sig \<noteq> sig_FHIB then Inl Format
      else
        let entries_start = base + 4 + 1 + soo + soo in
        and_then (find_entry_from h num_rows target 0 0) (\<lambda>hit.
        case hit of
          None \<Rightarrow> Inl Format
        | Some (row, col, entry_start) \<Rightarrow>
            let entry_pos = entries_start + (row * table_width h + col) * soo in
            and_then (ok_or (Option.bind (get_range d entry_pos (entry_pos + soo))
                (\<lambda>bs. if length bs = 8 then Some bs else None)) Format) (\<lambda>bs.
            let addr = from_le bs in
            if addr = u64_max then Inl Format
            else
              let within_block = target - entry_start in
              if row < num_direct_rows h then
                and_then (read_from_direct_block h addr within_block object_size) (\<lambda>obj. Inr (Object obj))
              else
                and_then (compute_indirect_nrows h (block_size_for_row h row)) (\<lambda>sub_nrows.
                  Inr (Descend addr sub_nrows within_block)))))))"

partial_function (option) read_from_indirect_block ::
  "fractal_heap \<Rightarrow> nat \<Rightarrow> nat \<Rightarrow> nat \<Rightarrow> nat \<Rightarrow> bytes res option" where
  "read_from_indirect_block h block_address num_rows target object_size =
     (case indirect_step h block_address num_rows target object_size of
        Inl e \<Rightarrow> Some (Inl e)
      | Inr (Object obj) \<Rightarrow> Some (Inr obj)
      | Inr (Descend addr sub_nrows within_block) \<Rightarrow>
          read_from_indirect_block h addr sub_nrows within_block object_size)"

definition read_from_filtered_root_block :: "codecs \<Rightarrow> fractal_heap \<Rightarrow> fh_io_filter \<Rightarrow> nat \<Rightarrow> nat \<Rightarrow> bytes res" where
  "read_from_filtered_root_block c h filt heap_offset object_size =
     and_then (ok_or (usize_try_from (root_block_address h)) Corrupted) (\<lambda>base.
     and_then (ok_or (usize_try_from (filtered_root_size filt)) Corrupted) (\<lambda>fsize.
     and_then (ok_or (checked_add base fsize) Format) (\<lambda>e.
     and_then (ok_or (get_range (fh_file h) base e) Format) (\<lambda>compressed.
     and_then (ok_or (usize_try_from (starting_block_size h)) Corrupted) (\<lambda>expected.
     and_then (apply_pipeline_sized c compressed (io_pipeline filt) (io_filter_mask filt) 1 (Some expected)) (\<lambda>block.
     if get_range block 0 4 \<noteq> Some sig_FHDB then Inl Format
     else
       and_then (ok_or (usize_try_from heap_offset) Format) (\<lambda>obj_start.
       and_then (ok_or (checked_add obj_start object_size) Format) (\<lambda>obj_end.
         ok_or (get_range block obj_start obj_end) Format))))))))"

text \<open>The text of the error, which is the only one whose value callers see.\<close>

definition heap_is_empty :: bytes where
  "heap_is_empty = map of_char ''fractal heap: heap is empty''"

definition read_object :: "codecs \<Rightarrow> fractal_heap \<Rightarrow> nat \<Rightarrow> nat \<Rightarrow> bytes res option" where
  "read_object c h heap_offset object_size =
     (if root_block_address h = u64_max then Some (Inl (NotFound heap_is_empty))
      else if current_rows h = 0 \<or> current_rows h \<le> num_direct_rows h then
        (case io_filter h of
           Some filt \<Rightarrow> Some (read_from_filtered_root_block c h filt heap_offset object_size)
         | None \<Rightarrow> Some (read_from_direct_block h (root_block_address h) heap_offset object_size))
      else if io_filter h \<noteq> None then Some (Inl NotImplemented)
      else read_from_indirect_block h (root_block_address h) (current_rows h) heap_offset object_size)"

section \<open>The doubling table in closed form\<close>

text \<open>
  A table of \<open>n\<close> rows whose address space fits 64 bits: rows 0 and 1 have blocks of the starting
  size, every later row doubles it.
\<close>

definition row_size :: "fractal_heap \<Rightarrow> nat \<Rightarrow> nat" where
  "row_size h r = starting_block_size h * 2 ^ (r - 1)"

definition row_start :: "fractal_heap \<Rightarrow> nat \<Rightarrow> nat" where
  "row_start h r = (if r = 0 then 0 else table_width h * row_size h r)"

definition table_ok :: "fractal_heap \<Rightarrow> nat \<Rightarrow> bool" where
  "table_ok h n \<longleftrightarrow> 0 < starting_block_size h \<and> 0 < table_width h \<and> row_start h n < u64_lim"

lemma row_start_Suc: "row_start h (Suc r) = row_start h r + table_width h * row_size h r"
  by (cases r) (simp_all add: row_start_def row_size_def algebra_simps)

lemma row_start_mono: "m \<le> n \<Longrightarrow> row_start h m \<le> row_start h n"
  by (rule lift_Suc_mono_le) (simp_all add: row_start_Suc)

lemma table_ok_mono: "table_ok h n \<Longrightarrow> m \<le> n \<Longrightarrow> table_ok h m"
  using row_start_mono [of m n h] by (auto simp: table_ok_def)

lemma table_ok_rows: "table_ok h n \<Longrightarrow> n \<le> 64"
proof (rule ccontr)
  assume ok: "table_ok h n" and n: "\<not> n \<le> 64"
  have "1 * (1 * 2 ^ 64) \<le> row_start h 65"
    using ok by (simp add: row_start_def row_size_def table_ok_def)
  also have "\<dots> \<le> row_start h n" using n by (intro row_start_mono) simp
  finally show False using ok by (simp add: table_ok_def)
qed

lemma block_size_eq:
  assumes "table_ok h n" "r < n"
  shows "block_size_for_row h r = row_size h r" "table_width h * row_size h r < u64_lim"
    "row_start h r + table_width h * row_size h r < u64_lim"
proof -
  have r: "table_ok h (Suc r)" using table_ok_mono [OF assms(1), of "Suc r"] assms(2) by simp
  then show lim: "row_start h r + table_width h * row_size h r < u64_lim"
    by (simp add: table_ok_def row_start_Suc)
  then show w: "table_width h * row_size h r < u64_lim" by simp
  have "1 * row_size h r \<le> table_width h * row_size h r"
    using r unfolding table_ok_def by (intro mult_le_mono1) linarith
  then have "row_size h r < u64_lim" using w by linarith
  then show "block_size_for_row h r = row_size h r"
    using table_ok_rows [OF assms(1)] assms(2)
    by (auto simp: block_size_for_row_def row_size_def push_bit_nat_def)
qed

definition block_start :: "fractal_heap \<Rightarrow> nat \<Rightarrow> nat \<Rightarrow> nat" where
  "block_start h r c = row_start h r + c * row_size h r"

lemma entry_in_row_eq:
  assumes "table_ok h n" "r < n"
  shows "entry_in_row h t r (row_start h r) =
    Inr (if row_start h r \<le> t \<and> t < row_start h (Suc r)
         then let c = (t - row_start h r) div row_size h r in Some (r, c, block_start h r c) else None)"
proof -
  let ?s = "row_size h r" and ?b = "row_start h r" and ?tw = "table_width h"
  note sz = block_size_eq [OF assms]
  have pos: "0 < ?s" using assms(1) by (simp add: row_size_def table_ok_def)
  have *: "find_res (\<lambda>col. and_then (umul col (block_size_for_row h r)) (\<lambda>p.
       let entry_start = saturating_add ?b p; entry_end = saturating_add entry_start (block_size_for_row h r) in
       Inr (if t \<ge> entry_start \<and> t < entry_end then Some (r, col, entry_start) else None))) [k..<?tw]
     = Inr (if ?b + k * ?s \<le> t \<and> t < ?b + ?tw * ?s then
         let c = (t - ?b) div ?s in Some (r, c, ?b + c * ?s) else None)" if "k \<le> ?tw" for k
    using that
  proof (induction "?tw - k" arbitrary: k)
    case (Suc m)
    then have k: "k < ?tw" by simp
    have "Suc k * ?s \<le> ?tw * ?s" using k by (intro mult_le_mono1) simp
    then have lim: "k * ?s < u64_lim" "?b + k * ?s \<le> u64_max" "?b + k * ?s + ?s \<le> u64_max" "?b + k * ?s + ?s \<le> ?b + ?tw * ?s"
      using sz(3) by simp_all
    have IH: "find_res (\<lambda>col. and_then (umul col (block_size_for_row h r)) (\<lambda>p.
       let entry_start = saturating_add ?b p; entry_end = saturating_add entry_start (block_size_for_row h r) in
       Inr (if t \<ge> entry_start \<and> t < entry_end then Some (r, col, entry_start) else None))) [Suc k..<?tw]
     = Inr (if ?b + Suc k * ?s \<le> t \<and> t < ?b + ?tw * ?s then
         let c = (t - ?b) div ?s in Some (r, c, ?b + c * ?s) else None)"
      using Suc k by (intro Suc.hyps(1)) simp_all
    have step: "[k..<?tw] = k # [Suc k..<?tw]" using k by (simp add: upt_conv_Cons)
    have c: "(t - ?b) div ?s = k" if "?b + k * ?s \<le> t" "t < ?b + k * ?s + ?s"
    proof (rule div_nat_eqI)
      show "?s * k \<le> t - ?b" using that by (simp add: mult.commute)
      show "t - ?b < ?s * Suc k" using that by (simp add: mult.commute)
    qed
    show ?case
      unfolding step find_res.simps IH
      using lim c by (auto simp: saturating_add_def Let_def sz(1) algebra_simps)
  qed auto
  show ?thesis
    using * [of 0] by (simp add: entry_in_row_def row_start_Suc block_start_def Let_def)
qed

lemma find_entry_from_eq:
  assumes "table_ok h n" "row_start h r \<le> t" "r \<le> n"
  shows "find_entry_from h n t r (row_start h r) =
    Inr (if t < row_start h n
         then let r = (LEAST r. t < row_start h (Suc r)); c = (t - row_start h r) div row_size h r in
              Some (r, c, block_start h r c)
         else None)"
  using assms(2,3)
proof (induction "n - r" arbitrary: r)
  case 0
  then show ?case by (subst find_entry_from.simps) simp
next
  case (Suc m)
  then have r: "r < n" by simp
  note sz = block_size_eq [OF assms(1) r]
  have next_start: "saturating_add (row_start h r) (table_width h * row_size h r) = row_start h (Suc r)"
    using sz(3) by (simp add: saturating_add_def row_start_Suc)
  show ?case
  proof (cases "t < row_start h (Suc r)")
    case True
    have "(LEAST r. t < row_start h (Suc r)) = r"
    proof (rule Least_equality)
      show "r \<le> r'" if "t < row_start h (Suc r')" for r'
        using that Suc.prems(1) row_start_mono [of "Suc r'" r h] by (cases "r \<le> r'") auto
    qed (rule True)
    moreover have "t < row_start h n" using True row_start_mono [of "Suc r" n h] r by simp
    ultimately show ?thesis
      using r True Suc.prems(1) entry_in_row_eq [OF assms(1) r, of t]
      by (subst find_entry_from.simps) (simp add: Let_def)
  next
    case False
    then have "find_entry_from h n t (Suc r) (row_start h (Suc r)) =
      Inr (if t < row_start h n
         then let r = (LEAST r. t < row_start h (Suc r)); c = (t - row_start h r) div row_size h r in
              Some (r, c, block_start h r c)
         else None)"
      using Suc r by (intro Suc.hyps(1)) simp_all
    then show ?thesis
      using r False entry_in_row_eq [OF assms(1) r, of t] sz(1,2) next_start
      by (subst find_entry_from.simps) (simp add: Let_def)
  qed
qed

text \<open>Every heap offset inside the table lies in exactly one block, and the lookup finds it.\<close>

lemma find_entry_block:
  assumes "table_ok h n" "r < n" "c < table_width h" "w < row_size h r"
  shows "find_entry_from h n (block_start h r c + w) 0 0 = Inr (Some (r, c, block_start h r c))"
proof -
  let ?t = "block_start h r c + w"
  have "Suc c * row_size h r \<le> table_width h * row_size h r" using assms(3) by (intro mult_le_mono1) simp
  then have lt: "?t < row_start h (Suc r)" using assms(4) by (simp add: block_start_def row_start_Suc)
  have "(LEAST r. ?t < row_start h (Suc r)) = r"
  proof (rule Least_equality)
    show "r \<le> r'" if "?t < row_start h (Suc r')" for r'
      using that row_start_mono [of "Suc r'" r h] by (cases "r \<le> r'") (auto simp: block_start_def)
  qed (rule lt)
  moreover have "(?t - row_start h r) div row_size h r = c" using assms(4) by (simp add: block_start_def)
  moreover have "?t < row_start h n" using lt row_start_mono [of "Suc r" n h] assms(2) by simp
  ultimately show ?thesis
    using find_entry_from_eq [OF assms(1), of 0 ?t] by (simp add: row_start_def Let_def)
qed

lemma find_entry_sound:
  assumes "table_ok h n" "find_entry_from h n t 0 0 = Inr (Some (r, c, b))"
  shows "r < n \<and> c < table_width h \<and> b = block_start h r c \<and> b \<le> t \<and> t < b + row_size h r"
proof -
  have hit: "t < row_start h n" "r = (LEAST r. t < row_start h (Suc r))" "c = (t - row_start h r) div row_size h r" "b = block_start h r c"
    using find_entry_from_eq [OF assms(1), of 0 t] assms(2) by (auto simp: row_start_def Let_def split: if_splits)
  have pos: "0 < row_size h r" using assms(1) by (simp add: row_size_def table_ok_def)
  have lt: "t < row_start h (Suc r)"
    unfolding hit(2) by (rule LeastI [of _ n]) (use hit(1) row_start_mono [of n "Suc n" h] in simp)
  have rn: "r < n"
  proof (rule ccontr)
    assume "\<not> r < n"
    then have "n \<le> r" by simp
    moreover have "n \<noteq> 0" using hit(1) by (cases n) (simp_all add: row_start_def)
    then obtain m where "n = Suc m" by (cases n) auto
    moreover have "r \<le> m" unfolding hit(2) by (rule Least_le) (use hit(1) \<open>n = Suc m\<close> in simp)
    ultimately show False by simp
  qed
  have le: "row_start h r \<le> t"
  proof (cases r)
    case (Suc m)
    have "\<not> t < row_start h (Suc m)" using not_less_Least [of m "\<lambda>r. t < row_start h (Suc r)"] hit(2) Suc by simp
    then show ?thesis using Suc by simp
  qed (simp add: row_start_def)
  have "t - row_start h r < table_width h * row_size h r" using lt le by (simp add: row_start_Suc)
  then have "c < table_width h" using hit(3) by (simp add: less_mult_imp_div_less)
  moreover have "c * row_size h r \<le> t - row_start h r" "t - row_start h r < c * row_size h r + row_size h r"
    using dividend_less_div_times [OF pos, of "t - row_start h r"] by (simp_all add: hit(3) add.commute)
  ultimately show ?thesis using rn le hit(4) by (auto simp: block_start_def)
qed

section \<open>Termination of the descent\<close>

lemma compute_indirect_nrows_le:
  assumes "table_ok h n" "r < n" "0 < r"
  shows "\<exists>m\<le>r. compute_indirect_nrows h (row_size h r) = Inr m"
proof -
  have "\<exists>m\<le>r. nrows_from h (row_size h r) (row_start h k) k = Inr m" if "k < r" for k
    using that
  proof (induction "r - k" arbitrary: k)
    case (Suc j)
    have kn: "k < n" using Suc.prems assms(2) by simp
    note sz = block_size_eq [OF assms(1) kn]
    have r: "r \<le> 64" using table_ok_rows [OF assms(1)] assms(2) by simp
    have sat: "saturating_add (row_start h k) (table_width h * row_size h k) = row_start h (Suc k)"
      using sz(3) by (simp add: saturating_add_def row_start_Suc)
    have step: "nrows_from h (row_size h r) (row_start h k) k =
        (if row_start h (Suc k) \<ge> row_size h r then Inr (k + 1)
         else nrows_from h (row_size h r) (row_start h (Suc k)) (Suc k))"
      using sz(1,2) sat Suc.prems r by (subst nrows_from.simps) simp
    show ?case
    proof (cases "Suc k < r")
      case True
      then show ?thesis using Suc.hyps(1) [of "Suc k"] Suc.hyps(2) Suc.prems unfolding step by auto
    next
      case False
      then have "Suc k = r" using Suc.prems by simp
      moreover have "1 * row_size h r \<le> table_width h * row_size h r"
        using assms(1) unfolding table_ok_def by (intro mult_le_mono1) linarith
      ultimately have "row_start h (Suc k) \<ge> row_size h r" using assms(3) by (auto simp: row_start_def)
      then show ?thesis unfolding step using Suc.prems by auto
    qed
  qed simp
  from this [OF assms(3)] show ?thesis by (simp add: compute_indirect_nrows_def row_start_def)
qed

lemma direct_rows_from_ge: "row \<le> direct_rows_from h row"
  by (induction h row rule: direct_rows_from.induct) (subst direct_rows_from.simps, auto)

text \<open>The descent goes to a block with fewer rows, if the first row holds direct blocks.\<close>

lemma indirect_step_descends:
  assumes ok: "table_ok h n" and direct: "starting_block_size h \<le> max_direct_block_size h"
    and step: "indirect_step h a n t sz = Inr (Descend a' n' t')"
  shows "n' < n"
proof -
  obtain r c b where hit: "find_entry_from h n t 0 0 = Inr (Some (r, c, b))" and "\<not> r < num_direct_rows h"
    and n': "compute_indirect_nrows h (block_size_for_row h r) = Inr n'"
    using step by (auto simp: indirect_step_def Let_def split: if_splits option.splits prod.splits)
  have "0 < num_direct_rows h"
    unfolding num_direct_rows_def using direct direct_rows_from_ge [of 1 h]
    by (subst direct_rows_from.simps) (simp add: block_size_for_row_def)
  then have "0 < r" using \<open>\<not> r < num_direct_rows h\<close> by simp
  moreover have r: "r < n" using find_entry_sound [OF ok hit] by simp
  moreover from this have "block_size_for_row h r = row_size h r" using block_size_eq [OF ok] by simp
  ultimately show ?thesis using compute_indirect_nrows_le [OF ok r] n' by auto
qed

lemma read_from_indirect_block_total:
  assumes "table_ok h n" "starting_block_size h \<le> max_direct_block_size h"
  shows "\<exists>r. read_from_indirect_block h a n t sz = Some r"
  using assms(1)
proof (induction n arbitrary: a t rule: less_induct)
  case (less n)
  show ?case
  proof (cases "indirect_step h a n t sz")
    case (Inr d)
    then show ?thesis
    proof (cases d)
      case (Descend a' n' t')
      then have "n' < n" using indirect_step_descends [OF less.prems assms(2)] Inr by simp
      then have "\<exists>r. read_from_indirect_block h a' n' t' sz = Some r"
        using table_ok_mono [OF less.prems, of n'] by (intro less.IH) simp_all
      then show ?thesis using Inr Descend by (subst read_from_indirect_block.simps) simp
    qed (use Inr in \<open>simp add: read_from_indirect_block.simps\<close>)
  qed (simp add: read_from_indirect_block.simps)
qed

text \<open>
  C18. Reading an object always returns when the doubling table is sound: its first row holds
  direct blocks and its address space fits 64 bits. Each level of the recursion has fewer rows
  than the one above, so it is at most as deep as the root has rows.
\<close>

theorem read_object_terminates:
  assumes "0 < starting_block_size h" "0 < table_width h"
    and "current_rows h \<noteq> 0 \<Longrightarrow> table_width h * starting_block_size h * 2 ^ (current_rows h - 1) < u64_lim"
    and "starting_block_size h \<le> max_direct_block_size h"
  shows "\<exists>r. read_object c h heap_offset object_size = Some r"
proof (cases "current_rows h = 0")
  case False
  then have "table_ok h (current_rows h)"
    using assms by (simp add: table_ok_def row_start_def row_size_def mult.assoc)
  then show ?thesis
    using read_from_indirect_block_total [OF _ assms(4)] by (auto simp: read_object_def split: option.splits)
qed (simp add: read_object_def split: option.splits)

lemma self_reference_diverges:
  assumes step: "indirect_step h a n t sz = Inr (Descend a n t)"
  shows "read_from_indirect_block h a n t sz = None"
proof -
  have "read_from_indirect_block h a n t sz = Some y \<Longrightarrow> (h, a, n, t, sz) \<noteq> (h, a, n, t, sz)" for y
  proof (rule read_from_indirect_block.raw_induct
      [where P = "\<lambda>h' a' n' t' sz' y. (h', a', n', t', sz') \<noteq> (h, a, n, t, sz)"])
    fix f :: "fractal_heap \<Rightarrow> nat \<Rightarrow> nat \<Rightarrow> nat \<Rightarrow> nat \<Rightarrow> bytes res option" and h' a' n' t' sz' y
    assume IH: "\<And>h' a' n' t' sz' y. f h' a' n' t' sz' = Some y \<Longrightarrow> (h', a', n', t', sz') \<noteq> (h, a, n, t, sz)"
      and body: "(case indirect_step h' a' n' t' sz' of Inl e \<Rightarrow> Some (Inl e) | Inr (Object obj) \<Rightarrow> Some (Inr obj)
        | Inr (Descend addr sub_nrows within_block) \<Rightarrow> f h' addr sub_nrows within_block sz') = Some y"
    show "(h', a', n', t', sz') \<noteq> (h, a, n, t, sz)" using IH [of h a n t sz y] body step by auto
  qed
  then show ?thesis by (cases "read_from_indirect_block h a n t sz") auto
qed

text \<open>
  C19. Otherwise it may not return: the header is not checked, and when the maximal direct block is
  smaller than the starting block, the first entry of an indirect block is taken for an indirect
  block with one row, which may be the block itself. Reading any object of the first block of such
  a heap recurses forever.
\<close>

theorem read_object_may_not_return:
  assumes "root_block_address h = a" "current_rows h = 1" "io_filter h = None" "fh_size_of_offsets h = 8"
    "0 < table_width h" "max_direct_block_size h < starting_block_size h" "table_width h * starting_block_size h < u64_lim"
    "heap_offset < starting_block_size h" "a + 29 \<le> length (fh_file h)" "length (fh_file h) \<le> isize_max"
    "take 4 (drop a (fh_file h)) = sig_FHIB" "field 8 (fh_file h) (a + 21) = a"
  shows "read_object c h heap_offset object_size = None"
proof -
  have ok: "table_ok h 1" using assms by (simp add: table_ok_def row_start_def row_size_def)
  have none: "num_direct_rows h = 0"
    using assms(6) by (simp add: num_direct_rows_def direct_rows_from.simps block_size_for_row_def)
  have hit: "find_entry_from h 1 heap_offset 0 0 = Inr (Some (0, 0, 0))"
    using find_entry_block [OF ok, of 0 0 heap_offset] assms(5,8) by (simp add: block_start_def row_start_def row_size_def)
  have sub: "compute_indirect_nrows h (block_size_for_row h 0) = Inr 1"
  proof -
    have "1 * starting_block_size h \<le> table_width h * starting_block_size h"
      using assms(5) by (intro mult_le_mono1) linarith
    then have "starting_block_size h \<le> table_width h * starting_block_size h" by linarith
    then have "starting_block_size h \<le> saturating_add 0 (table_width h * starting_block_size h)"
      using assms(7) by (simp only: saturating_add_def)
    then show ?thesis
      using assms(7) unfolding compute_indirect_nrows_def
      by (subst nrows_from.simps) (simp add: block_size_for_row_def)
  qed
  have "indirect_step h a 1 heap_offset object_size = Inr (Descend a 1 heap_offset)"
    using assms hit none sub by (simp add: indirect_step_def Let_def field_def add_ac)
  from self_reference_diverges [OF this] show ?thesis
    using assms none by (simp add: read_object_def)
qed

theorem read_object_terminates_witness:
  "\<forall>c. \<exists>r. read_object c \<lparr>fh_file = [], fh_header_address = 0, heap_id_len = 7, max_managed_obj_size = 65536,
      root_block_address = 512, starting_block_size = 512, max_direct_block_size = 65536, table_width = 4,
      max_heap_size_bits = 32, root_indirect_rows = 1, current_rows = 12, fh_size_of_offsets = 8, io_filter = None\<rparr> 4000 20 = Some r"
  by (rule allI, rule read_object_terminates) simp_all

definition looping_heap :: fractal_heap where
  "looping_heap = \<lparr>fh_file = sig_FHIB @ replicate 25 0, fh_header_address = 0, heap_id_len = 7,
      max_managed_obj_size = 65536, root_block_address = 0, starting_block_size = 512, max_direct_block_size = 0,
      table_width = 4, max_heap_size_bits = 32, root_indirect_rows = 1, current_rows = 1, fh_size_of_offsets = 8,
      io_filter = None\<rparr>"

theorem read_object_may_not_return_witness:
  "\<forall>c. read_object c looping_heap 21 10 = None"
  by (rule allI, rule read_object_may_not_return [where a = 0]) (simp_all add: looping_heap_def sig_FHIB_def field_def)

section \<open>Objects behind an indirect root\<close>

lemma read_direct_block_at:
  assumes "take 4 (drop e (fh_file h)) = sig_FHDB" "e + w + sz \<le> length (fh_file h)" "e + 4 \<le> length (fh_file h)"
    "length (fh_file h) \<le> isize_max"
  shows "read_from_direct_block h e w sz = Inr (take sz (drop (e + w) (fh_file h)))"
  using assms by (simp add: read_from_direct_block_def Let_def)

text \<open>
  An object in a direct block of an indirect root is found: a heap offset \<open>w\<close> bytes into the
  block at row \<open>r\<close>, column \<open>c\<close> of the doubling table leads to the entry of that block, and the bytes
  returned are those \<open>w\<close> bytes behind the address the entry holds.
\<close>

theorem indirect_root_object:
  assumes ok: "table_ok h (current_rows h)"
    and root: "root_block_address h = a" "io_filter h = None" "fh_size_of_offsets h = 8"
    and bytes: "fh_file h = d" "length d \<le> isize_max" "take 4 (drop a d) = sig_FHIB"
    and rows: "r < current_rows h" "r < num_direct_rows h" "num_direct_rows h < current_rows h" "col < table_width h"
    and entry: "a + 21 + (r * table_width h + col) * 8 + 8 \<le> length d"
      "field 8 d (a + 21 + (r * table_width h + col) * 8) = e"
    and block: "take 4 (drop e d) = sig_FHDB" "e + 4 \<le> length d" "w < row_size h r" "e + w + object_size \<le> length d"
  shows "read_object c h (block_start h r col + w) object_size = Some (Inr (take object_size (drop (e + w) d)))"
proof -
  have hit: "find_entry_from h (current_rows h) (block_start h r col + w) 0 0 = Inr (Some (r, col, block_start h r col))"
    using find_entry_block [OF ok rows(1,4) block(3)] .
  have "indirect_step h a (current_rows h) (block_start h r col + w) object_size =
      Inr (Object (take object_size (drop (e + w) d)))"
    using hit bytes entry rows root block read_direct_block_at [of e h w object_size]
    by (simp add: indirect_step_def Let_def field_def add_ac)
  then have "read_from_indirect_block h a (current_rows h) (block_start h r col + w) object_size =
      Some (Inr (take object_size (drop (e + w) d)))"
    by (subst read_from_indirect_block.simps) simp
  moreover have "a \<noteq> u64_max" using entry bytes by auto
  ultimately show ?thesis using root rows by (simp add: read_object_def)
qed

definition small_heap :: fractal_heap where
  "small_heap = \<lparr>fh_file = sig_FHIB @ replicate 17 0 @ to_le 8 45 @ replicate 16 0xff @ sig_FHDB @ replicate 17 0 @ [7, 8, 9],
      fh_header_address = 0, heap_id_len = 7, max_managed_obj_size = 32, root_block_address = 0,
      starting_block_size = 32, max_direct_block_size = 32, table_width = 1, max_heap_size_bits = 32,
      root_indirect_rows = 1, current_rows = 3, fh_size_of_offsets = 8, io_filter = None\<rparr>"

theorem indirect_root_object_witness:
  "read_object c small_heap 21 3 = Some (Inr [7, 8, 9])"
proof -
  have rows: "num_direct_rows small_heap = 2"
    by (simp add: num_direct_rows_def direct_rows_from.simps block_size_for_row_def small_heap_def push_bit_nat_def)
  have le: "to_le 8 45 = [45, 0, 0, 0, 0, 0, 0, 0]" by (simp add: le_eval)
  have "read_object c small_heap (block_start small_heap 0 0 + 21) 3 = Some (Inr (take 3 (drop (45 + 21) (fh_file small_heap))))"
    using rows
    by (intro indirect_root_object [where a = 0 and d = "fh_file small_heap"])
      (simp_all add: small_heap_def table_ok_def row_start_def row_size_def sig_FHIB_def sig_FHDB_def field_def le)
  then show ?thesis by (simp add: small_heap_def block_start_def row_start_def sig_FHIB_def sig_FHDB_def)
qed

section \<open>Heap IDs of length zero\<close>

text \<open>The length of the heap IDs is not checked: with length zero, an empty ID is indexed.\<close>

theorem parse_heap_id_panics_on_zero_length:
  "heap_id_len h = 0 \<Longrightarrow> parse_heap_id h [] = Inl Panic"
  by (simp add: parse_heap_id_def index_def get_elem_def)

theorem parse_heap_id_panics_on_zero_length_witness:
  "parse_heap_id (looping_heap\<lparr>heap_id_len := 0\<rparr>) [] = Inl Panic"
  by (rule parse_heap_id_panics_on_zero_length) simp

end
