(* ===== verification/Link_Message.thy ===== *)
theory Link_Message
  imports Outcome
begin

text \<open>
  \<^verbatim>\<open>oxih5-format/src/link_msg.rs\<close>: the two messages of a new-style group. A Link Info message
  (type 2) names the fractal heap and the indices that hold the links of a dense group; a Link
  message (type 6) is one link, in the object header or in the heap.
\<close>

unbundle bit_operations_syntax

section \<open>Link Info\<close>

record parsed_link_info =
  creation_order_tracked :: bool
  creation_order_index_address :: "nat option"
  name_index_address :: "nat option"
  fractal_heap_address :: "nat option"

definition defined_address :: "nat \<Rightarrow> nat option" where
  "defined_address addr = (if addr = u64_max then None else Some addr)"

definition parse_link_info :: "bytes \<Rightarrow> parse_context \<Rightarrow> parsed_link_info res" where
  "parse_link_info body ctx =
     (if length body < 2 then Inl Format
      else
        and_then (index body 0) (\<lambda>_.
        and_then (index body 1) (\<lambda>flags.
        let tracked = (flags AND 1 \<noteq> 0);
            indexed = (flags AND 2 \<noteq> 0);
            pos = (if tracked then 2 + 8 else 2) in
        and_then
          (if indexed then
             and_then (read_offset ctx body pos) (\<lambda>addr.
             and_then (uadd pos (size_of_offsets ctx)) (\<lambda>pos.
               Inr (defined_address addr, pos)))
           else Inr (None, pos)) (\<lambda>(creation_order_index, pos).
        and_then (read_offset ctx body pos) (\<lambda>heap_raw.
        and_then (uadd pos (size_of_offsets ctx)) (\<lambda>pos.
        and_then (read_offset ctx body pos) (\<lambda>name_index_raw.
          Inr \<lparr>creation_order_tracked = tracked,
               creation_order_index_address = creation_order_index,
               name_index_address = defined_address name_index_raw,
               fractal_heap_address = defined_address heap_raw\<rparr>)))))))"

section \<open>Link\<close>

datatype link =
    Link_Hard nat
  | Link_Soft str
  | Link_External str str

record parsed_link =
  link_name :: str
  link_target :: link

definition name_len_size :: "byte \<Rightarrow> nat" where
  "name_len_size flags = push_bit (unat (flags AND 3)) 1"

text \<open>The optional bytes before the name length: link type, creation order, character set.\<close>

definition link_type_at :: "bytes \<Rightarrow> byte \<Rightarrow> nat \<Rightarrow> (byte \<times> nat) res" where
  "link_type_at body flags pos =
     (if flags AND 8 \<noteq> 0 then and_then (ok_or (get_elem body pos) Format) (\<lambda>lt. Inr (lt, pos + 1))
      else Inr (0, pos))"

definition soft_link_at :: "bytes \<Rightarrow> nat \<Rightarrow> link res" where
  "soft_link_at body pos =
     and_then (uadd pos 2) (\<lambda>e.
       if e > length body then Inl Format
       else
         and_then (slice body pos e) (\<lambda>bs.
         let path_len = from_le bs in
         and_then (uadd e path_len) (\<lambda>path_end.
         and_then (ok_or (get_range body e path_end) Format) (\<lambda>path_bytes.
         and_then (from_utf8 path_bytes) (\<lambda>path. Inr (Link_Soft path))))))"

text \<open>A version byte, the file name up to its NUL, and the path without a final NUL.\<close>

definition external_payload :: "bytes \<Rightarrow> link res" where
  "external_payload value_bytes =
     (if value_bytes = [] then Inl Format
      else
        and_then (slice value_bytes 1 (length value_bytes)) (\<lambda>inner.
        and_then (ok_or (position (\<lambda>b. b = 0) inner) Format) (\<lambda>sep.
        and_then (slice inner 0 sep) (\<lambda>file_bytes.
        and_then (from_utf8 file_bytes) (\<lambda>file_name.
        and_then (slice inner (sep + 1) (length inner)) (\<lambda>path_bytes.
        let path_trimmed = (if path_bytes \<noteq> [] \<and> last path_bytes = 0 then butlast path_bytes else path_bytes) in
        and_then (from_utf8 path_trimmed) (\<lambda>path.
          Inr (Link_External file_name path))))))))"

definition external_link_at :: "bytes \<Rightarrow> nat \<Rightarrow> link res" where
  "external_link_at body pos =
     and_then (uadd pos 2) (\<lambda>e.
       if e > length body then Inl Format
       else
         and_then (slice body pos e) (\<lambda>bs.
         let value_len = from_le bs in
         and_then (uadd e value_len) (\<lambda>value_end.
         and_then (ok_or (get_range body e value_end) Format) external_payload)))"

definition link_value_at :: "parse_context \<Rightarrow> bytes \<Rightarrow> byte \<Rightarrow> nat \<Rightarrow> link res" where
  "link_value_at ctx body link_type pos =
     (if link_type = 0 then and_then (read_offset ctx body pos) (\<lambda>address. Inr (Link_Hard address))
      else if link_type = 1 then soft_link_at body pos
      else if link_type = 64 then external_link_at body pos
      else Inl NotImplemented)"

definition parse_link :: "bytes \<Rightarrow> parse_context \<Rightarrow> parsed_link res" where
  "parse_link body ctx =
     (if length body < 2 then Inl Format
      else
        and_then (index body 0) (\<lambda>_.
        and_then (index body 1) (\<lambda>flags.
        and_then (link_type_at body flags 2) (\<lambda>(link_type, pos).
        let pos = (if flags AND 4 \<noteq> 0 then pos + 8 else pos);
            pos = (if flags AND 16 \<noteq> 0 then pos + 1 else pos);
            nls = name_len_size flags in
        and_then (read_int_generic ctx body pos nls) (\<lambda>name_len.
        and_then (uadd pos nls) (\<lambda>pos.
        and_then (ok_or (checked_add pos name_len) Corrupted) (\<lambda>name_end.
        and_then (ok_or (get_range body pos name_end) Format) (\<lambda>name_bytes.
        and_then (from_utf8 name_bytes) (\<lambda>name.
        and_then (link_value_at ctx body link_type name_end) (\<lambda>target.
          Inr \<lparr>link_name = name, link_target = target\<rparr>))))))))))"

section \<open>Absence of panics\<close>

lemma case_lookup [yields]:
  "(case get_range d a b of None \<Rightarrow> x | Some v \<Rightarrow> P v) = (if a \<le> b \<and> b \<le> length d then P (take (b - a) (drop a d)) else x)"
  "(case get_elem d i of None \<Rightarrow> y | Some w \<Rightarrow> Q w) = (if i < length d then Q (d ! i) else y)"
  "(case checked_add m n of None \<Rightarrow> z | Some k \<Rightarrow> R k) = (if m + n < u64_lim then R (m + n) else z)"
  by (simp_all add: get_range_def get_elem_def checked_add_def)

lemma yields_from_utf8 [yields]: "yields P (from_utf8 bs) \<longleftrightarrow> (valid_utf8 bs \<longrightarrow> P bs)"
  by (auto simp: yields_def from_utf8_def)

lemma yields_read_int [yields]:
  "yields P (read_int d pos sz) \<longleftrightarrow> pos + sz < u64_lim \<and> (pos + sz \<le> length d \<and> int_width sz \<longrightarrow> P (field sz d pos))"
  by (auto simp: yields_def read_int_eq)

lemma yields_read_offset [yields]:
  "yields P (read_offset ctx d pos) \<longleftrightarrow> yields P (read_int d pos (size_of_offsets ctx))"
  "yields P (read_int_generic ctx d pos n) \<longleftrightarrow> yields P (read_int d pos n)"
  by (simp_all add: read_offset_def read_int_generic_def)

lemma and_three: "unat (b AND 3 :: byte) = unat b mod 4"
proof -
  have "b AND 3 = take_bit 2 b" by (simp add: take_bit_eq_mask mask_eq_exp_minus_1)
  then show ?thesis by (simp only: unsigned_take_bit_eq) (simp add: take_bit_eq_mod)
qed

lemma name_len_size_cases: "name_len_size flags = 1 \<or> name_len_size flags = 2 \<or> name_len_size flags = 4 \<or> name_len_size flags = 8"
proof -
  have "unat flags mod 4 \<in> {0, 1, 2, 3}" by auto
  then show ?thesis by (auto simp: name_len_size_def and_three)
qed

lemma name_len_size_le: "name_len_size flags \<le> 8"
  using name_len_size_cases [of flags] by auto

lemma external_payload_ok: "yields (\<lambda>_. True) (external_payload bs)"
  by (cases bs) (auto simp: external_payload_def Let_def yields position_Some_iff split: option.splits)

lemma link_value_at_ok:
  assumes "length body \<le> isize_max" "size_of_offsets ctx \<le> 255" "pos \<le> length body"
  shows "yields (\<lambda>_. True) (link_value_at ctx body lt pos)"
proof -
  have "from_le (take 2 (drop pos body)) < 65536" using field_2_less [of body pos] by (simp add: field_def)
  then show ?thesis
    using assms by (auto simp: link_value_at_def soft_link_at_def external_link_at_def Let_def yields external_payload_ok)
qed

lemma link_type_at_ok: "yields (\<lambda>(lt, pos). pos \<le> 3) (link_type_at body flags 2)"
  by (auto simp: link_type_at_def yields)

lemma parse_link_info_ok:
  "length body \<le> isize_max \<Longrightarrow> size_of_offsets ctx \<le> 255 \<Longrightarrow> yields (\<lambda>_. True) (parse_link_info body ctx)"
  by (auto simp: parse_link_info_def Let_def yields)

lemma parse_link_ok:
  "length body \<le> isize_max \<Longrightarrow> size_of_offsets ctx \<le> 255 \<Longrightarrow> yields (\<lambda>_. True) (parse_link body ctx)"
  using name_len_size_le [of "body ! 1"]
  by (auto simp: parse_link_def Let_def yields intro!: yields_mono [OF link_type_at_ok] yields_mono [OF link_value_at_ok])

end
