(* ===== verification/New_Group.thy ===== *)
theory New_Group
  imports Fractal_Heap Link_Message BTree_V2 Object_Header_V2
begin

text \<open>
  The new-style half of \<^verbatim>\<open>oxih5-format/src/group.rs\<close>: the links of a group that stores them as
  link messages, in its object header (compact) or in a fractal heap indexed by a version-2
  B-tree (dense). Items the reader cannot use are skipped, but a panic is not an error and
  goes through, and an object that is never returned stops the listing.
\<close>

text \<open>\<^verbatim>\<open>if let Ok(x)\<close> and \<^verbatim>\<open>Err(_) => continue\<close>: errors become \<open>None\<close>.\<close>

fun recover :: "'a res \<Rightarrow> 'a option res" where
  "recover (Inl Panic) = Inl Panic"
| "recover (Inl _) = Inr None"
| "recover (Inr x) = Inr (Some x)"

lemma recover_no_panic: "no_panic r \<Longrightarrow> \<exists>x. recover r = Inr x"
  by (cases r; cases "projl r") auto

definition scan_message :: "parse_context \<Rightarrow> message \<Rightarrow> parsed_link list \<times> parsed_link_info option \<Rightarrow>
    (parsed_link list \<times> parsed_link_info option) res" where
  "scan_message ctx msg = (\<lambda>(header_links, link_info).
     if msg_type msg = 6 then
       and_then (recover (parse_link (msg_data msg) ctx)) (\<lambda>pl.
         Inr (case pl of Some l \<Rightarrow> header_links @ [l] | None \<Rightarrow> header_links, link_info))
     else if msg_type msg = 2 then
       and_then (recover (parse_link_info (msg_data msg) ctx)) (\<lambda>info.
         Inr (header_links, case info of Some i \<Rightarrow> Some i | None \<Rightarrow> link_info))
     else Inr (header_links, link_info))"

text \<open>One heap ID of the index: the link it leads to, or nothing.\<close>

definition heap_link :: "codecs \<Rightarrow> fractal_heap \<Rightarrow> parse_context \<Rightarrow> bytes \<Rightarrow> parsed_link option res option" where
  "heap_link c fh ctx hid =
     (case recover (parse_heap_id fh hid) of
        Inl e \<Rightarrow> Some (Inl e)
      | Inr None \<Rightarrow> Some (Inr None)
      | Inr (Some (heap_offset, obj_size)) \<Rightarrow>
          if obj_size = 0 then Some (Inr None)
          else
            map_option (\<lambda>r. and_then (recover r) (\<lambda>bytes.
              case bytes of
                None \<Rightarrow> Inr None
              | Some link_bytes \<Rightarrow> recover (parse_link link_bytes ctx)))
              (read_object c fh heap_offset obj_size))"

fun heap_links :: "codecs \<Rightarrow> fractal_heap \<Rightarrow> parse_context \<Rightarrow> bytes list \<Rightarrow> parsed_link list \<Rightarrow> parsed_link list res option" where
  "heap_links c fh ctx [] links = Some (Inr links)"
| "heap_links c fh ctx (hid # ids) links =
     Option.bind (heap_link c fh ctx hid) (\<lambda>r.
       case r of
         Inl e \<Rightarrow> Some (Inl e)
       | Inr pl \<Rightarrow> heap_links c fh ctx ids (case pl of Some l \<Rightarrow> links @ [l] | None \<Rightarrow> links))"

definition dense_links :: "codecs \<Rightarrow> bytes \<Rightarrow> nat \<Rightarrow> nat \<Rightarrow> parse_context \<Rightarrow> parsed_link list res option" where
  "dense_links c file_data fh_addr ni_addr ctx =
     (case fractal_heap_parse file_data fh_addr (size_of_offsets ctx) of
        Inl e \<Rightarrow> Some (Inl e)
      | Inr fh \<Rightarrow>
          (case parse_name_index file_data ni_addr (heap_id_len fh) of
             Inl e \<Rightarrow> Some (Inl e)
           | Inr raw_ids \<Rightarrow> heap_links c fh ctx raw_ids []))"

text \<open>Heap links take priority; header links with a name not seen yet follow.\<close>

fun merge_links :: "str set \<Rightarrow> parsed_link list \<Rightarrow> parsed_link list \<Rightarrow> parsed_link list" where
  "merge_links seen result [] = result"
| "merge_links seen result (pl # header_links) =
     (if link_name pl \<in> seen then merge_links seen result header_links
      else merge_links (insert (link_name pl) seen) (result @ [pl]) header_links)"

definition list_new_style_links :: "codecs \<Rightarrow> bytes \<Rightarrow> nat \<Rightarrow> parse_context \<Rightarrow> parsed_link list res option" where
  "list_new_style_links c file_data object_header_addr ctx =
     (case and_then (parse_messages file_data object_header_addr) (\<lambda>messages.
          fold_res (scan_message ctx) messages ([], None)) of
        Inl e \<Rightarrow> Some (Inl e)
      | Inr (header_links, link_info) \<Rightarrow>
          Option.bind
            (case link_info of
               None \<Rightarrow> Some (Inr [])
             | Some info \<Rightarrow>
                 (case (fractal_heap_address info, name_index_address info) of
                    (Some fh_addr, Some ni_addr) \<Rightarrow> dense_links c file_data fh_addr ni_addr ctx
                  | _ \<Rightarrow> Some (Inr [])))
            (\<lambda>r. Some (and_then r (\<lambda>heap_links.
               if heap_links = [] then Inr header_links
               else Inr (merge_links (set (map link_name heap_links)) heap_links header_links)))))"

definition is_new_style_group :: "bytes \<Rightarrow> nat \<Rightarrow> bool res" where
  "is_new_style_group file_data object_header_addr =
     and_then (recover (parse_messages file_data object_header_addr)) (\<lambda>r.
       case r of
         None \<Rightarrow> Inr False
       | Some messages \<Rightarrow>
           if list_ex (\<lambda>m. msg_type m = 17) messages then Inr False
           else Inr (list_ex (\<lambda>m. msg_type m = 6 \<or> msg_type m = 2) messages))"

section \<open>Merging\<close>

text \<open>
  What the merge promises: the heap links as they are, then the header links whose name no heap
  link and no earlier header link has, so that looking a name up in the result is looking it up
  among the heap links and then among the header links.
\<close>

lemma merge_links_append:
  "\<exists>new. merge_links seen result hs = result @ new \<and> set new \<subseteq> set hs \<and>
     distinct (map link_name new) \<and> set (map link_name new) = set (map link_name hs) - seen"
proof (induction hs arbitrary: seen result)
  case (Cons h hs)
  show ?case
  proof (cases "link_name h \<in> seen")
    case True
    then show ?thesis using Cons.IH [of seen result] by auto
  next
    case False
    obtain new where "merge_links (insert (link_name h) seen) (result @ [h]) hs = (result @ [h]) @ new"
      "set new \<subseteq> set hs" "distinct (map link_name new)"
      "set (map link_name new) = set (map link_name hs) - insert (link_name h) seen"
      using Cons.IH by metis
    then show ?thesis using False by (intro exI [of _ "h # new"]) auto
  qed
qed simp

definition lookup_link :: "str \<Rightarrow> parsed_link list \<Rightarrow> parsed_link option" where
  "lookup_link nm ls = find (\<lambda>l. link_name l = nm) ls"

lemma lookup_link_append:
  "lookup_link nm (xs @ ys) = (case lookup_link nm xs of Some l \<Rightarrow> Some l | None \<Rightarrow> lookup_link nm ys)"
  by (induction xs) (simp_all add: lookup_link_def)

lemma lookup_link_None: "lookup_link nm ls = None \<longleftrightarrow> nm \<notin> set (map link_name ls)"
  by (auto simp: lookup_link_def find_None_iff)

lemma lookup_merge_seen:
  "set (map link_name result) \<subseteq> seen \<Longrightarrow> nm \<in> seen \<Longrightarrow> lookup_link nm (merge_links seen result hs) = lookup_link nm result"
proof (induction hs arbitrary: seen result)
  case (Cons h hs)
  show ?case
  proof (cases "link_name h \<in> seen")
    case False
    then have "lookup_link nm [h] = None" using Cons.prems by (auto simp: lookup_link_def)
    moreover have "lookup_link nm (merge_links (insert (link_name h) seen) (result @ [h]) hs) = lookup_link nm (result @ [h])"
      using Cons.prems by (intro Cons.IH) auto
    ultimately show ?thesis using False by (simp add: lookup_link_append split: option.splits)
  qed (use Cons in simp)
qed simp

lemma lookup_merge:
  "nm \<notin> seen \<Longrightarrow> set (map link_name result) \<subseteq> seen \<Longrightarrow>
   lookup_link nm (merge_links seen result hs) = lookup_link nm hs"
proof (induction hs arbitrary: seen result)
  case Nil
  then show ?case by (auto simp: lookup_link_def find_None_iff)
next
  case (Cons h hs)
  show ?case
  proof (cases "link_name h \<in> seen")
    case True
    then show ?thesis using Cons by (auto simp: lookup_link_def)
  next
    case False
    show ?thesis
    proof (cases "link_name h = nm")
      case True
      have "lookup_link nm result = None" using Cons.prems by (auto simp: lookup_link_None)
      then show ?thesis
        using False True lookup_merge_seen [of "result @ [h]" "insert (link_name h) seen" nm hs] Cons.prems
        by (auto simp: lookup_link_append) (auto simp: lookup_link_def)
    next
      case False': False
      then show ?thesis
        using False Cons.IH [of "insert (link_name h) seen" "result @ [h]"] Cons.prems by (auto simp: lookup_link_def)
    qed
  qed
qed

text \<open>
  Merging the links of the heap with those of the header keeps the heap links in front, adds
  only header links with new and distinct names, and looking a name up in the result is looking
  it up in the heap and, if it is not there, in the header.
\<close>

theorem merge_links_correct:
  "\<exists>new. merge_links (set (map link_name heap)) heap header = heap @ new \<and> set new \<subseteq> set header \<and>
     distinct (map link_name new) \<and> set (map link_name new) \<inter> set (map link_name heap) = {} \<and>
     lookup_link nm (heap @ new) =
       (case lookup_link nm heap of Some l \<Rightarrow> Some l | None \<Rightarrow> lookup_link nm header)"
proof -
  let ?seen = "set (map link_name heap)"
  obtain new where new: "merge_links ?seen heap header = heap @ new" "set new \<subseteq> set header"
    "distinct (map link_name new)" "set (map link_name new) = set (map link_name header) - ?seen"
    using merge_links_append by metis
  have "lookup_link nm (heap @ new) = (case lookup_link nm heap of Some l \<Rightarrow> Some l | None \<Rightarrow> lookup_link nm header)"
  proof (cases "nm \<in> ?seen")
    case True
    then have "lookup_link nm heap \<noteq> None" by (simp add: lookup_link_None)
    then show ?thesis using lookup_merge_seen [of heap ?seen nm header] True new(1) by auto
  next
    case False
    then have "lookup_link nm heap = None" by (simp add: lookup_link_None)
    then show ?thesis using lookup_merge [of nm ?seen heap header] False new(1) by auto
  qed
  then show ?thesis using new by blast
qed

end
