(* ===== verification/Write_Link.thy ===== *)
theory Write_Link
  imports Link_Message Write_Elem
begin

text \<open>
  \<^verbatim>\<open>oxih5/src/write/link.rs\<close>: the link, link info and group info messages of a new-style group as
  the writer emits them, read back by \<open>Link_Message\<close>.
\<close>

section \<open>Links\<close>

datatype link_value =
    Value_Hard nat
  | Value_Soft str
  | Value_External str str

record link_msg =
  lm_name :: str
  lm_value :: link_value
  lm_creation_order :: "nat option"

abbreviation (input) FLAG_CREATION_ORDER :: byte where "FLAG_CREATION_ORDER \<equiv> 4"
abbreviation (input) FLAG_LINK_TYPE :: byte where "FLAG_LINK_TYPE \<equiv> 8"

fun type_byte :: "link_value \<Rightarrow> byte option" where
  "type_byte (Value_Hard _) = None"
| "type_byte (Value_Soft _) = Some 1"
| "type_byte (Value_External _ _) = Some 64"

definition external_payload_len :: "str \<Rightarrow> str \<Rightarrow> nat res" where
  "external_payload_len file_name path =
     and_then (uadd 1 (length file_name)) (\<lambda>n.
     and_then (uadd n 1) (\<lambda>n.
     and_then (uadd n (length path)) (\<lambda>n.
       uadd n 1)))"

fun encoded_len :: "link_value \<Rightarrow> nat res" where
  "encoded_len (Value_Hard _) = Inr 8"
| "encoded_len (Value_Soft path) = uadd 2 (length path)"
| "encoded_len (Value_External file_name path) =
     and_then (external_payload_len file_name path) (uadd 2)"

definition name_len_width :: "nat \<Rightarrow> (nat \<times> byte) res" where
  "name_len_width name_len =
     (if name_len \<le> 0xFF then Inr (1, 0)
      else if name_len \<le> 0xFFFF then Inr (2, 1)
      else if name_len \<le> 0xFFFFFFFF then Inr (4, 2)
      else Inl Format)"

definition link_body_size :: "link_msg \<Rightarrow> nat res" where
  "link_body_size m =
     and_then (name_len_width (length (lm_name m))) (\<lambda>(width, _).
     and_then (uadd (2 + (if type_byte (lm_value m) \<noteq> None then 1 else 0)
         + (if lm_creation_order m \<noteq> None then 8 else 0) + width) (length (lm_name m))) (\<lambda>n.
     and_then (encoded_len (lm_value m)) (uadd n)))"

definition narrow_u16 :: "nat \<Rightarrow> nat res" where
  "narrow_u16 v = (if v < 65536 then Inr v else Inl Format)"

definition write_value :: "bytes \<Rightarrow> nat \<Rightarrow> link_value \<Rightarrow> (bytes \<times> nat) res" where
  "write_value buf pos v =
     (case v of
        Value_Hard address \<Rightarrow>
          and_then (write_u64_le buf pos address) (\<lambda>buf. Inr (buf, pos + 8))
      | Value_Soft path \<Rightarrow>
          and_then (narrow_u16 (length path)) (\<lambda>n.
          and_then (write_u16_le buf pos n) (\<lambda>buf.
          and_then (put_range buf (pos + 2) path) (\<lambda>buf. Inr (buf, pos + 2 + length path))))
      | Value_External file_name path \<Rightarrow>
          and_then (external_payload_len file_name path) (\<lambda>payload.
          and_then (narrow_u16 payload) (\<lambda>n.
          and_then (write_u16_le buf pos n) (\<lambda>buf.
          let pos = pos + 2 in
          and_then (put_elem buf pos 0) (\<lambda>buf.
          let pos = pos + 1 in
          and_then (put_range buf pos file_name) (\<lambda>buf.
          let pos = pos + length file_name in
          and_then (put_elem buf pos 0) (\<lambda>buf.
          let pos = pos + 1 in
          and_then (put_range buf pos path) (\<lambda>buf.
          let pos = pos + length path in
          and_then (put_elem buf pos 0) (\<lambda>buf. Inr (buf, pos + 1))))))))))"

definition link_write_body :: "bytes \<Rightarrow> nat \<Rightarrow> link_msg \<Rightarrow> (bytes \<times> nat) res" where
  "link_write_body buf start m =
     and_then (link_body_size m) (\<lambda>body.
     and_then (fill_zero buf start body) (\<lambda>buf.
     and_then (name_len_width (length (lm_name m))) (\<lambda>(width, width_bits).
     let flags = (if type_byte (lm_value m) \<noteq> None then width_bits OR FLAG_LINK_TYPE else width_bits);
         flags = (if lm_creation_order m \<noteq> None then flags OR FLAG_CREATION_ORDER else flags) in
     and_then (put_elem buf start 1) (\<lambda>buf.
     and_then (put_elem buf (start + 1) flags) (\<lambda>buf.
     let pos = start + 2 in
     and_then (case type_byte (lm_value m) of
         None \<Rightarrow> Inr (buf, pos)
       | Some link_type \<Rightarrow> and_then (put_elem buf pos link_type) (\<lambda>buf. Inr (buf, pos + 1))) (\<lambda>(buf, pos).
     and_then (case lm_creation_order m of
         None \<Rightarrow> Inr (buf, pos)
       | Some order \<Rightarrow> and_then (write_u64_le buf pos order) (\<lambda>buf. Inr (buf, pos + 8))) (\<lambda>(buf, pos).
     and_then (put_range buf pos (take width (to_le 8 (length (lm_name m))))) (\<lambda>buf.
     let pos = pos + width in
     and_then (put_range buf pos (lm_name m)) (\<lambda>buf.
     let pos = pos + length (lm_name m) in
     and_then (write_value buf pos (lm_value m)) (\<lambda>(buf, pos).
       Inr (buf, pos - start)))))))))))"

definition link_to_bytes :: "link_msg \<Rightarrow> bytes res" where
  "link_to_bytes m =
     and_then (link_body_size m) (\<lambda>body.
     and_then (vec_zeros body) (\<lambda>bs.
     and_then (link_write_body bs 0 m) (\<lambda>(bs, wrote).
     and_then (check_size wrote body) (\<lambda>_. Inr bs))))"

section \<open>Link info and group info\<close>

record link_info =
  li_creation_order_tracked :: bool
  li_max_creation_order :: nat

definition link_info_body_size :: "link_info \<Rightarrow> nat" where
  "link_info_body_size li = 2 + (if li_creation_order_tracked li then 8 else 0) + 8 + 8"

definition link_info_write_body :: "bytes \<Rightarrow> nat \<Rightarrow> link_info \<Rightarrow> nat \<Rightarrow> nat \<Rightarrow> (bytes \<times> nat) res" where
  "link_info_write_body buf start li fractal_heap name_index =
     and_then (fill_zero buf start (link_info_body_size li)) (\<lambda>buf.
     and_then (put_elem buf start 0) (\<lambda>buf.
     and_then (put_elem buf (start + 1) (if li_creation_order_tracked li then 1 else 0)) (\<lambda>buf.
     let pos = start + 2 in
     and_then (if li_creation_order_tracked li
         then and_then (write_u64_le buf pos (li_max_creation_order li)) (\<lambda>buf. Inr (buf, pos + 8))
         else Inr (buf, pos)) (\<lambda>(buf, pos).
     and_then (write_u64_le buf pos fractal_heap) (\<lambda>buf.
     and_then (write_u64_le buf (pos + 8) name_index) (\<lambda>buf.
       Inr (buf, pos + 16 - start)))))))"

abbreviation (input) GROUP_INFO_BODY :: nat where "GROUP_INFO_BODY \<equiv> 2"

definition write_group_info_body :: "bytes \<Rightarrow> nat \<Rightarrow> (bytes \<times> nat) res" where
  "write_group_info_body buf start =
     and_then (fill_zero buf start GROUP_INFO_BODY) (\<lambda>buf. Inr (buf, GROUP_INFO_BODY))"

section \<open>The bytes emitted\<close>

fun enc_link_value :: "link_value \<Rightarrow> bytes" where
  "enc_link_value (Value_Hard address) = to_le 8 address"
| "enc_link_value (Value_Soft path) = to_le 2 (length path) @ path"
| "enc_link_value (Value_External file_name path) =
     to_le 2 (length file_name + length path + 3) @ [0] @ file_name @ [0] @ path @ [0]"

definition enc_link :: "nat \<Rightarrow> byte \<Rightarrow> link_msg \<Rightarrow> bytes" where
  "enc_link width flags m =
     [1, flags] @ (case type_byte (lm_value m) of None \<Rightarrow> [] | Some t \<Rightarrow> [t])
     @ (case lm_creation_order m of None \<Rightarrow> [] | Some k \<Rightarrow> to_le 8 k)
     @ to_le width (length (lm_name m)) @ lm_name m @ enc_link_value (lm_value m)"

definition link_flags :: "byte \<Rightarrow> link_msg \<Rightarrow> byte" where
  "link_flags width_bits m =
     (let flags = (if type_byte (lm_value m) \<noteq> None then width_bits OR 8 else width_bits) in
      if lm_creation_order m \<noteq> None then flags OR 4 else flags)"

text \<open>A value the writer accepts: its length fits the 16-bit field.\<close>

fun value_fits :: "link_value \<Rightarrow> bool" where
  "value_fits (Value_Hard _) = True"
| "value_fits (Value_Soft path) \<longleftrightarrow> length path < 65536"
| "value_fits (Value_External file_name path) \<longleftrightarrow> length file_name + length path + 3 < 65536"

lemma external_payload_len_eq:
  "length file_name + length path + 3 < u64_lim \<Longrightarrow> external_payload_len file_name path = Inr (length file_name + length path + 3)"
  by (simp add: external_payload_len_def)

lemma write_value_enc:
  assumes "value_fits v" "pos = a + length xs" "length (enc_link_value v) \<le> k" "a + length xs + k \<le> length buf0"
  shows "write_value (splice buf0 a (region xs k)) pos v = Inr (splice buf0 a (region (xs @ enc_link_value v) (k - length (enc_link_value v))), pos + length (enc_link_value v))"
  using assms
  by (cases v)
    (simp_all add: write_value_def external_payload_len_eq narrow_u16_def fields_at Let_def del: to_le.simps,
      intro arg_cong [where f = "Prelude.splice buf0 a"] arg_cong [where f = "region z" for z], arith)

lemma link_body_size_eq:
  assumes "link_body_size m = Inr n" "value_fits (lm_value m)"
  obtains width width_bits where "name_len_width (length (lm_name m)) = Inr (width, width_bits)"
    "n = length (enc_link width (link_flags width_bits m) m)" "n < u64_lim"
proof -
  have "encoded_len (lm_value m) = Inr (length (enc_link_value (lm_value m)))"
    using assms(2) by (cases "lm_value m") (auto simp: external_payload_len_eq)
  then show thesis
    using assms(1) that by (fastforce simp: link_body_size_def enc_link_def split: option.splits)
qed

lemma name_len_width_cases:
  assumes "name_len_width n = Inr (width, width_bits)"
  shows "(width, width_bits) \<in> {(1, 0), (2, 1), (4, 2)} \<and> n < 256 ^ width"
  using assms by (auto simp: name_len_width_def split: if_splits)

lemma link_write_body_enc:
  assumes size: "link_body_size m = Inr n" and fits: "value_fits (lm_value m)" and buf: "start + n \<le> length buf"
    and w: "name_len_width (length (lm_name m)) = Inr (width, width_bits)"
    and n: "n = length (enc_link width (link_flags width_bits m) m)"
  shows "link_write_body buf start m = Inr (splice buf start (enc_link width (link_flags width_bits m) m), n)"
proof -
  have width: "width \<le> 8" using name_len_width_cases [OF w] by auto
  have small: "2 \<le> n" "start + n \<le> length buf" using n buf by (simp_all add: enc_link_def)
  show ?thesis
    using small width fits buf
    by (cases "type_byte (lm_value m)"; cases "lm_creation_order m")
      (simp_all add: link_write_body_def size w fields_at Let_def take_to_le write_value_enc n enc_link_def
        link_flags_def del: to_le.simps, simp_all add: region_def)
qed

text \<open>The writer succeeds only on values that fit.\<close>

lemma write_value_fits: "write_value buf pos v = Inr r \<Longrightarrow> value_fits v"
  by (cases v) (auto simp: write_value_def narrow_u16_def external_payload_len_def split: if_splits)

lemma link_to_bytes_enc:
  assumes "link_to_bytes m = Inr bs"
  obtains width width_bits where "name_len_width (length (lm_name m)) = Inr (width, width_bits)"
    "bs = enc_link width (link_flags width_bits m) m" "value_fits (lm_value m)" "length bs \<le> isize_max"
proof -
  obtain n bs' wrote where n: "link_body_size m = Inr n" "n \<le> isize_max" "link_write_body (replicate n 0) 0 m = Inr (bs', wrote)" "bs = bs'"
    using assms by (auto simp: link_to_bytes_def)
  have fits: "value_fits (lm_value m)"
    using n(3) by (auto simp: link_write_body_def Let_def split: option.splits dest: write_value_fits)
  obtain width width_bits where w: "name_len_width (length (lm_name m)) = Inr (width, width_bits)"
    "n = length (enc_link width (link_flags width_bits m) m)"
    using link_body_size_eq [OF n(1) fits] by metis
  have "bs = enc_link width (link_flags width_bits m) m"
    using link_write_body_enc [OF n(1) fits _ w, of 0 "replicate n 0"] n(3,4) w(2) by simp
  then show thesis using that w fits n(2) by simp
qed

section \<open>Reading them back\<close>

fun link_of_value :: "link_value \<Rightarrow> link" where
  "link_of_value (Value_Hard address) = Link_Hard address"
| "link_of_value (Value_Soft path) = Link_Soft path"
| "link_of_value (Value_External file_name path) = Link_External file_name path"

text \<open>
  What Rust's types give (strings are UTF-8, addresses are 64-bit) and what the format cannot
  express: a file name with a NUL.
\<close>

fun value_wf :: "link_value \<Rightarrow> bool" where
  "value_wf (Value_Hard address) \<longleftrightarrow> address < u64_lim"
| "value_wf (Value_Soft path) \<longleftrightarrow> valid_utf8 path"
| "value_wf (Value_External file_name path) \<longleftrightarrow> valid_utf8 file_name \<and> valid_utf8 path \<and> 0 \<notin> set file_name"

lemma position_first: "0 \<notin> set xs \<Longrightarrow> position (\<lambda>b. b = (0 :: byte)) (xs @ 0 # ys) = Some (length xs)"
  by (induction xs) auto

lemma get_range_at: "a = length pre \<Longrightarrow> b = a + length xs \<Longrightarrow> get_range (pre @ xs @ post) a b = Some xs"
  by (simp add: get_range_def)

lemma link_value_at_enc:
  assumes "value_wf v" "value_fits v" "size_of_offsets ctx = 8" "pos = length pre"
    "length pre + length (enc_link_value v) + length post \<le> isize_max"
  shows "link_value_at ctx (pre @ enc_link_value v @ post) (case type_byte v of None \<Rightarrow> 0 | Some t \<Rightarrow> t) pos
     = Inr (link_of_value v)"
proof (cases v)
  case (Value_Hard address)
  then show ?thesis using assms
    by (simp add: link_value_at_def read_offset_def read_int_eq int_width_def field_eval del: to_le.simps)
next
  case (Value_Soft path)
  then show ?thesis using assms
    by (simp add: link_value_at_def soft_link_at_def from_le_to_le del: to_le.simps)
next
  case (Value_External file_name path)
  let ?p = "0 # file_name @ 0 # path @ [0]"
  have "external_payload ?p = Inr (Link_External file_name path)"
    using assms(1) Value_External position_first [of file_name "path @ [0]"] by (simp add: external_payload_def Let_def slice_def get_range_def)
  moreover have "take (3 + (length file_name + length path)) (0 # file_name @ 0 # path @ 0 # post) = ?p"
    by (simp add: numeral_3_eq_3)
  ultimately show ?thesis using assms Value_External
    by (simp add: link_value_at_def external_link_at_def from_le_to_le del: to_le.simps)
qed

lemma link_flags_bits:
  assumes "name_len_width n = Inr (width, width_bits)"
  shows "name_len_size (link_flags width_bits m) = width"
    "link_flags width_bits m AND 8 = 0 \<longleftrightarrow> type_byte (lm_value m) = None"
    "link_flags width_bits m AND 4 = 0 \<longleftrightarrow> lm_creation_order m = None"
    "link_flags width_bits m AND 16 = 0"
  using name_len_width_cases [OF assms] by (auto simp: link_flags_def Let_def name_len_size_def)

lemma parse_link_enc:
  assumes w: "name_len_width (length (lm_name m)) = Inr (width, width_bits)"
    and wf: "valid_utf8 (lm_name m)" "value_wf (lm_value m)" "value_fits (lm_value m)"
    and soo: "size_of_offsets ctx = 8"
    and len: "length (enc_link width (link_flags width_bits m) m @ rest) \<le> isize_max"
  shows "parse_link (enc_link width (link_flags width_bits m) m @ rest) ctx =
    Inr \<lparr>link_name = lm_name m, link_target = link_of_value (lm_value m)\<rparr>"
proof -
  define flags where "flags = link_flags width_bits m"
  note bits = link_flags_bits [OF w, of m, folded flags_def]
  define ty where "ty = (case type_byte (lm_value m) of None \<Rightarrow> [] | Some t \<Rightarrow> [t])"
  define ord where "ord = (case lm_creation_order m of None \<Rightarrow> [] | Some k \<Rightarrow> to_le 8 k)"
  define pre where "pre = [1, flags] @ ty @ ord"
  let ?nm = "lm_name m" and ?v = "enc_link_value (lm_value m)"
  define body where "body = enc_link width flags m @ rest"
  have body: "body = pre @ to_le width (length ?nm) @ ?nm @ ?v @ rest"
    by (simp add: body_def enc_link_def pre_def ty_def ord_def)
  have lenb: "length pre + width + length ?nm + length ?v + length rest \<le> isize_max"
    using len by (simp add: enc_link_def pre_def ty_def ord_def flags_def [symmetric])
  have width: "width \<in> {1, 2, 4}" "length ?nm < 256 ^ width" using name_len_width_cases [OF w] by auto
  have ty_at: "link_type_at body flags 2 = Inr (case type_byte (lm_value m) of None \<Rightarrow> 0 | Some t \<Rightarrow> t, 2 + length ty)"
    by (auto simp: link_type_at_def bits ty_def body pre_def split: option.splits)
  have pos: "lm_creation_order m = None \<Longrightarrow> Suc (Suc (length ty)) = length pre"
    "lm_creation_order m \<noteq> None \<Longrightarrow> 10 + length ty = length pre"
    by (auto simp: pre_def ord_def)
  have nl: "read_int body (length pre) width = Inr (length ?nm)"
    using lenb width by (auto simp: read_int_eq int_width_def body field_eval)
  have nm: "get_range body (length pre + width) (length pre + width + length ?nm) = Some ?nm"
    by (simp add: body get_range_def)
  have val: "link_value_at ctx body (case type_byte (lm_value m) of None \<Rightarrow> 0 | Some t \<Rightarrow> t) (length pre + width + length ?nm) = Inr (link_of_value (lm_value m))"
    using link_value_at_enc [OF wf(2,3) soo, of "length pre + width + length ?nm" "pre @ to_le width (length ?nm) @ ?nm" rest] lenb
    by (simp add: body)
  have two: "\<not> length body < 2" "body \<noteq> []" "index body 0 = Inr 1" "index body (Suc 0) = Inr flags"
    by (simp_all add: body pre_def)
  show ?thesis
    unfolding flags_def [symmetric] body_def [symmetric]
    using bits lenb wf(1) pos
    by (cases "lm_creation_order m = None")
      (simp_all add: parse_link_def read_int_generic_def Let_def two ty_at nl nm val)
qed

lemma link_to_bytes_parse:
  assumes "link_to_bytes m = Inr bs" "valid_utf8 (lm_name m)" "value_wf (lm_value m)"
    "size_of_offsets ctx = 8" "length (bs @ rest) \<le> isize_max"
  shows "parse_link (bs @ rest) ctx = Inr \<lparr>link_name = lm_name m, link_target = link_of_value (lm_value m)\<rparr>"
proof -
  obtain width width_bits where w: "name_len_width (length (lm_name m)) = Inr (width, width_bits)"
    "bs = enc_link width (link_flags width_bits m) m" "value_fits (lm_value m)"
    using link_to_bytes_enc [OF assms(1)] by metis
  show ?thesis
    using assms(5) unfolding w(2) by (intro parse_link_enc w(1,3) assms(2,3,4))
qed

text \<open>
  C15. A link message of any kind (hard, soft, external, with or without creation order, with any
  width of the name length) reads back as the link it was made of, whatever padding follows it in
  the object header or the heap.
\<close>

theorem link_message_round_trip:
  assumes "link_to_bytes m = Inr bs" "valid_utf8 (lm_name m)" "value_wf (lm_value m)"
    "size_of_offsets ctx = 8" "length (bs @ rest) \<le> isize_max"
  shows "parse_link (bs @ rest) ctx = Inr \<lparr>link_name = lm_name m, link_target = link_of_value (lm_value m)\<rparr>"
  using assms by (rule link_to_bytes_parse)

text \<open>The messages the writer accepts: a 32-bit name length and a value that fits its field.\<close>

lemma link_body_size_fits:
  assumes "length (lm_name m) < u32_lim" "value_fits (lm_value m)"
  obtains n where "link_body_size m = Inr n" "n < 2 ^ 33"
proof -
  obtain width width_bits where w: "name_len_width (length (lm_name m)) = Inr (width, width_bits)"
    using assms(1) by (cases "name_len_width (length (lm_name m))") (auto simp: name_len_width_def split: if_splits)
  have le: "width \<le> 4" using name_len_width_cases [OF w] by auto
  have v: "encoded_len (lm_value m) = Inr (length (enc_link_value (lm_value m)))" "length (enc_link_value (lm_value m)) < 70000"
    using assms(2) by (cases "lm_value m"; simp add: external_payload_len_eq)+
  show thesis
    using le v assms(1) that by (auto simp: link_body_size_def w)
qed

lemma link_to_bytes_total:
  assumes "length (lm_name m) < u32_lim" "value_fits (lm_value m)"
  shows "\<exists>bs. link_to_bytes m = Inr bs"
proof -
  obtain n where n: "link_body_size m = Inr n" "n < 2 ^ 33" by (rule link_body_size_fits [OF assms])
  obtain width width_bits where w: "name_len_width (length (lm_name m)) = Inr (width, width_bits)"
    "n = length (enc_link width (link_flags width_bits m) m)"
    using link_body_size_eq [OF n(1) assms(2)] by metis
  show ?thesis
    using link_write_body_enc [OF n(1) assms(2) _ w, of 0 "replicate n 0"] n
    by (simp add: link_to_bytes_def check_size_def)
qed

theorem link_to_bytes_accepts:
  "(\<exists>bs. link_to_bytes m = Inr bs) \<longleftrightarrow> length (lm_name m) < u32_lim \<and> value_fits (lm_value m)"
proof
  assume "\<exists>bs. link_to_bytes m = Inr bs"
  then obtain bs where bs: "link_to_bytes m = Inr bs" ..
  from link_to_bytes_enc [OF bs] obtain width width_bits where
    "name_len_width (length (lm_name m)) = Inr (width, width_bits)" "value_fits (lm_value m)" by metis
  then show "length (lm_name m) < u32_lim \<and> value_fits (lm_value m)"
    by (auto simp: name_len_width_def split: if_splits)
qed (use link_to_bytes_total in blast)

theorem link_message_round_trip_witness:
  "\<exists>bs. link_to_bytes \<lparr>lm_name = [0x61], lm_value = Value_External [0x66] [0x2f], lm_creation_order = Some 7\<rparr> = Inr bs \<and>
     parse_link (bs @ [0, 0, 0]) default_v0 = Inr \<lparr>link_name = [0x61], link_target = Link_External [0x66] [0x2f]\<rparr>"
proof -
  let ?m = "\<lparr>lm_name = [0x61], lm_value = Value_External [0x66] [0x2f], lm_creation_order = Some 7\<rparr>"
  obtain bs where bs: "link_to_bytes ?m = Inr bs" using link_to_bytes_total [of ?m] by auto
  have "length bs \<le> 1000"
    by (rule link_to_bytes_enc [OF bs]) (simp add: enc_link_def name_len_width_def split: if_splits)
  then show ?thesis
    using link_message_round_trip [OF bs, of default_v0 "[0, 0, 0]"] bs by (simp add: default_v0_def)
qed

section \<open>Link info\<close>

definition enc_link_info :: "link_info \<Rightarrow> nat \<Rightarrow> nat \<Rightarrow> bytes" where
  "enc_link_info li fractal_heap name_index =
     [0, if li_creation_order_tracked li then 1 else 0]
     @ (if li_creation_order_tracked li then to_le 8 (li_max_creation_order li) else [])
     @ to_le 8 fractal_heap @ to_le 8 name_index"

lemma link_info_write_enc:
  assumes "start + link_info_body_size li \<le> length buf"
  shows "link_info_write_body buf start li heap nidx =
    Inr (splice buf start (enc_link_info li heap nidx), link_info_body_size li)"
  using assms
  by (cases "li_creation_order_tracked li")
    (simp_all add: link_info_write_body_def link_info_body_size_def fields_at Let_def del: to_le.simps,
     simp_all add: region_def enc_link_info_def del: to_le.simps)

lemma parse_link_info_enc:
  assumes "heap < u64_lim" "nidx < u64_lim" "size_of_offsets ctx = 8"
    "length (enc_link_info li heap nidx @ rest) \<le> isize_max"
  shows "parse_link_info (enc_link_info li heap nidx @ rest) ctx =
    Inr \<lparr>creation_order_tracked = li_creation_order_tracked li, creation_order_index_address = None,
         name_index_address = defined_address nidx, fractal_heap_address = defined_address heap\<rparr>"
  using assms
  by (cases "li_creation_order_tracked li")
    (simp_all add: parse_link_info_def enc_link_info_def read_offset_def read_int_eq int_width_def field_eval
      Let_def del: to_le.simps)

text \<open>
  The link info message the writer emits reads back as the heap and nidx it was given; a
  compact group, whose addresses are undefined, reads back without either.
\<close>

theorem link_info_round_trip:
  assumes "start + link_info_body_size li \<le> length buf" "length buf \<le> isize_max"
    "heap < u64_lim" "nidx < u64_lim" "size_of_offsets ctx = 8"
  shows "\<exists>buf'. link_info_write_body buf start li heap nidx = Inr (buf', link_info_body_size li) \<and>
    parse_link_info (drop start buf') ctx =
      Inr \<lparr>creation_order_tracked = li_creation_order_tracked li, creation_order_index_address = None,
           name_index_address = defined_address nidx, fractal_heap_address = defined_address heap\<rparr>"
proof -
  have len: "length (enc_link_info li heap nidx) = link_info_body_size li"
    by (simp add: enc_link_info_def link_info_body_size_def)
  then have "drop start (splice buf start (enc_link_info li heap nidx)) =
      enc_link_info li heap nidx @ drop (start + link_info_body_size li) buf"
    using assms(1) by (simp add: drop_splice)
  then show ?thesis
    using assms len by (simp add: link_info_write_enc parse_link_info_enc)
qed

theorem link_info_round_trip_witness:
  "\<exists>buf'. link_info_write_body (replicate 26 0) 0 \<lparr>li_creation_order_tracked = True, li_max_creation_order = 2\<rparr> 512 u64_max
      = Inr (buf', 26) \<and>
    parse_link_info buf' default_v0 = Inr \<lparr>creation_order_tracked = True, creation_order_index_address = None,
      name_index_address = None, fractal_heap_address = Some 512\<rparr>"
  using link_info_round_trip [of 0 "\<lparr>li_creation_order_tracked = True, li_max_creation_order = 2\<rparr>" "replicate 26 0" 512 u64_max default_v0]
  by (simp add: link_info_body_size_def default_v0_def defined_address_def)

text \<open>
  An indexed creation order: the reader takes the first of the three addresses for the creation
  order index, where the format puts it last (and the comment of the reader lists the name index
  before the heap, which the code reads the other way round).
\<close>

theorem indexed_creation_order_shifts_addresses:
  assumes "a < u64_lim" "b < u64_lim" "c < u64_lim" "size_of_offsets ctx = 8"
  shows "parse_link_info ([0, 2] @ to_le 8 a @ to_le 8 b @ to_le 8 c) ctx =
    Inr \<lparr>creation_order_tracked = False, creation_order_index_address = defined_address a,
         name_index_address = defined_address c, fractal_heap_address = defined_address b\<rparr>"
  using assms by (simp add: parse_link_info_def read_offset_def read_int_eq int_width_def field_eval Let_def del: to_le.simps)

end
