(* ===== verification/Write_Dense.thy ===== *)
theory Write_Dense
  imports Write_Link New_Group Checksum "HOL-Library.List_Lexorder" "HOL-Library.Product_Lexorder"
begin

text \<open>
  The two structures of a dense group as the writer emits them: the fractal heap of
  \<^verbatim>\<open>oxih5/src/write/fractal_heap.rs\<close>, a header and one direct block, and the name index of
  \<^verbatim>\<open>oxih5/src/write/btree_v2.rs\<close>, a header and one leaf. Link messages put into the heap and
  indexed by name are read back by \<open>dense_links\<close>.
\<close>

section \<open>Fractal heap\<close>

abbreviation (input) MAX_OBJECT_SIZE :: nat where "MAX_OBJECT_SIZE \<equiv> 65535"
abbreviation (input) DIRECT_BLOCK_HEADER :: nat where "DIRECT_BLOCK_HEADER \<equiv> 21"
abbreviation (input) MIN_BLOCK_SIZE :: nat where "MIN_BLOCK_SIZE \<equiv> 512"
abbreviation (input) MAX_DIRECT_BLOCK_SIZE :: nat where "MAX_DIRECT_BLOCK_SIZE \<equiv> 65536"
abbreviation (input) FH_HEADER_SIZE :: nat where "FH_HEADER_SIZE \<equiv> 146"
abbreviation (input) HEAP_ID_LEN :: nat where "HEAP_ID_LEN \<equiv> 7"

record fractal_heap_writer =
  fw_sizes :: "nat list"
  fw_offsets :: "nat list"
  fw_block_size :: nat
  fw_header_addr :: nat
  fw_block_addr :: nat

function grow_block :: "nat \<Rightarrow> nat \<Rightarrow> nat res" where
  "grow_block cursor block_size =
     (if block_size < cursor \<and> 0 < block_size then
        if block_size * 2 > MAX_DIRECT_BLOCK_SIZE then Inl Format else grow_block cursor (block_size * 2)
      else Inr block_size)"
  by pat_completeness auto
termination by (relation "measure (\<lambda>(cursor, block_size). cursor - block_size)") auto

declare grow_block.simps [simp del]

definition plan_object :: "nat \<Rightarrow> nat list \<times> nat \<Rightarrow> (nat list \<times> nat) res" where
  "plan_object sz = (\<lambda>(offsets, cursor).
     if sz > MAX_OBJECT_SIZE then Inl Format
     else if cursor \<ge> u32_lim then Inl Format
     else and_then (uadd cursor sz) (\<lambda>next. Inr (offsets @ [cursor], next)))"

definition fh_plan :: "nat list \<Rightarrow> fractal_heap_writer res" where
  "fh_plan sizes =
     and_then (fold_res plan_object sizes ([], DIRECT_BLOCK_HEADER)) (\<lambda>(offsets, cursor).
     and_then (grow_block cursor MIN_BLOCK_SIZE) (\<lambda>block_size.
       Inr \<lparr>fw_sizes = sizes, fw_offsets = offsets, fw_block_size = block_size,
            fw_header_addr = 0, fw_block_addr = 0\<rparr>))"

definition fh_bytes :: "fractal_heap_writer \<Rightarrow> nat res" where
  "fh_bytes w = and_then (pad8 (fw_block_size w)) (uadd FH_HEADER_SIZE)"

definition fh_assign :: "nat \<Rightarrow> fractal_heap_writer \<Rightarrow> fractal_heap_writer res" where
  "fh_assign base w =
     and_then (uadd base FH_HEADER_SIZE) (\<lambda>block_addr.
       Inr (w\<lparr>fw_header_addr := base, fw_block_addr := block_addr\<rparr>))"

definition fh_heap_id :: "fractal_heap_writer \<Rightarrow> nat \<Rightarrow> bytes res" where
  "fh_heap_id w i =
     and_then (ok_or (get_elem (fw_offsets w) i) Format) (\<lambda>offset.
     let len = (case get_elem (fw_sizes w) i of Some n \<Rightarrow> n | None \<Rightarrow> 0);
         hid = replicate HEAP_ID_LEN 0 in
     and_then (put_elem hid 0 0) (\<lambda>hid.
     and_then (put_range hid 1 (take 4 (to_le 4 offset))) (\<lambda>hid.
       put_range hid 5 (take 2 (to_le 8 len)))))"

definition sum_sizes :: "nat list \<Rightarrow> nat res" where
  "sum_sizes sizes = fold_res (\<lambda>n acc. uadd acc n) sizes 0"

definition write_heap_object :: "nat \<Rightarrow> bytes \<times> nat \<Rightarrow> bytes \<Rightarrow> bytes res" where
  "write_heap_object block_base = (\<lambda>(object, offset) buf. put_range buf (block_base + offset) object)"

definition write_direct_block :: "bytes \<Rightarrow> fractal_heap_writer \<Rightarrow> bytes list \<Rightarrow> bytes res" where
  "write_direct_block buf w objects =
     (let block_base = fw_block_addr w; block_size = fw_block_size w in
      and_then (pad8 block_size) (\<lambda>padded.
      and_then (fill_zero buf block_base padded) (\<lambda>buf.
      and_then (put_range buf block_base sig_FHDB) (\<lambda>buf.
      and_then (put_elem buf (block_base + 4) 0) (\<lambda>buf.
      and_then (write_u64_le buf (block_base + 5) (fw_header_addr w)) (\<lambda>buf.
      and_then (fill_zero buf (block_base + 13) 4) (\<lambda>buf.
      and_then (fold_res (write_heap_object block_base) (zip objects (fw_offsets w)) buf) (\<lambda>buf.
      and_then (slice buf block_base (block_base + block_size)) (\<lambda>block.
        write_u32_le buf (block_base + 17) (unat (metadata_checksum block)))))))))))"

definition write_heap_header :: "bytes \<Rightarrow> fractal_heap_writer \<Rightarrow> nat \<Rightarrow> bytes res" where
  "write_heap_header buf w free =
     (let base = fw_header_addr w in
      and_then (fill_zero buf base FH_HEADER_SIZE) (\<lambda>buf.
      and_then (put_range buf base sig_FRHP) (\<lambda>buf.
      and_then (put_elem buf (base + 4) 0) (\<lambda>buf.
      and_then (write_u16_le buf (base + 5) HEAP_ID_LEN) (\<lambda>buf.
      and_then (write_u16_le buf (base + 7) 0) (\<lambda>buf.
      and_then (put_elem buf (base + 9) 2) (\<lambda>buf.
      and_then (write_u32_le buf (base + 10) MAX_DIRECT_BLOCK_SIZE) (\<lambda>buf.
      and_then (write_u64_le buf (base + 14) 0) (\<lambda>buf.
      and_then (write_u64_le buf (base + 22) u64_max) (\<lambda>buf.
      and_then (write_u64_le buf (base + 30) free) (\<lambda>buf.
      and_then (write_u64_le buf (base + 38) u64_max) (\<lambda>buf.
      and_then (write_u64_le buf (base + 46) (fw_block_size w)) (\<lambda>buf.
      and_then (write_u64_le buf (base + 54) (fw_block_size w)) (\<lambda>buf.
      and_then (write_u64_le buf (base + 62) 0) (\<lambda>buf.
      and_then (write_u64_le buf (base + 70) (length (fw_sizes w))) (\<lambda>buf.
      and_then (write_u64_le buf (base + 78) 0) (\<lambda>buf.
      and_then (write_u64_le buf (base + 86) 0) (\<lambda>buf.
      and_then (write_u64_le buf (base + 94) 0) (\<lambda>buf.
      and_then (write_u64_le buf (base + 102) 0) (\<lambda>buf.
      and_then (write_u16_le buf (base + 110) 4) (\<lambda>buf.
      and_then (write_u64_le buf (base + 112) (fw_block_size w)) (\<lambda>buf.
      and_then (write_u64_le buf (base + 120) MAX_DIRECT_BLOCK_SIZE) (\<lambda>buf.
      and_then (write_u16_le buf (base + 128) 32) (\<lambda>buf.
      and_then (write_u16_le buf (base + 130) 1) (\<lambda>buf.
      and_then (write_u64_le buf (base + 132) (fw_block_addr w)) (\<lambda>buf.
      and_then (write_u16_le buf (base + 140) 0) (\<lambda>buf.
      and_then (slice buf base (base + 142)) (\<lambda>header.
        write_u32_le buf (base + 142) (unat (metadata_checksum header))))))))))))))))))))))))))))))"

definition fh_write :: "bytes \<Rightarrow> fractal_heap_writer \<Rightarrow> bytes list \<Rightarrow> (bytes \<times> nat) res" where
  "fh_write buf w objects =
     (if length objects \<noteq> length (fw_sizes w) then Inl Format
      else if list_ex (\<lambda>(object, sz). length object \<noteq> sz) (zip objects (fw_sizes w)) then Inl Format
      else
        and_then (sum_sizes (fw_sizes w)) (\<lambda>total.
        and_then (uadd DIRECT_BLOCK_HEADER total) (\<lambda>used.
        and_then (usub (fw_block_size w) used) (\<lambda>free.
        and_then (write_direct_block buf w objects) (\<lambda>buf.
        and_then (write_heap_header buf w free) (\<lambda>buf.
        and_then (fh_bytes w) (\<lambda>wrote.
        and_then (pad8 (fw_block_size w)) (\<lambda>padded.
        and_then (check_size (fw_block_addr w + padded - fw_header_addr w) wrote) (\<lambda>_.
          Inr (buf, wrote))))))))))"

section \<open>Name index\<close>

record name_record =
  nr_hash :: "32 word"
  nr_name :: str
  nr_heap_id :: bytes

record name_index_writer =
  iw_records :: "name_record list"
  iw_record_size :: nat
  iw_node_size :: nat
  iw_header_addr :: nat
  iw_leaf_addr :: nat

abbreviation (input) NI_HEADER_SIZE :: nat where "NI_HEADER_SIZE \<equiv> 38"
abbreviation (input) LEAF_PREFIX :: nat where "LEAF_PREFIX \<equiv> 6"
abbreviation (input) NODE_SIZE_UNIT :: nat where "NODE_SIZE_UNIT \<equiv> 512"

text \<open>The sort is by hash, then by the bytes of the name; sorting a list of keys is stable.\<close>

definition record_key :: "name_record \<Rightarrow> 32 word \<times> str" where
  "record_key r = (nr_hash r, nr_name r)"

definition ni_plan :: "(str \<times> bytes) list \<Rightarrow> name_index_writer res" where
  "ni_plan entries =
     (let id_len = (case entries of [] \<Rightarrow> 0 | (_, hid) # _ \<Rightarrow> length hid) in
      if list_ex (\<lambda>(_, hid). length hid \<noteq> id_len) entries then Inl Format
      else
        and_then (narrow 65536 (length entries)) (\<lambda>_.
        let records = sort_key record_key
              (map (\<lambda>(nm, hid). \<lparr>nr_hash = link_name_hash nm, nr_name = nm, nr_heap_id = hid\<rparr>) entries) in
        and_then (uadd 4 id_len) (\<lambda>record_size.
        and_then (umul (length records) record_size) (\<lambda>n.
        and_then (uadd LEAF_PREFIX n) (\<lambda>n.
        and_then (uadd n 4) (\<lambda>live.
        and_then (umul (max (div_ceil live NODE_SIZE_UNIT) 1) NODE_SIZE_UNIT) (\<lambda>node_size.
          Inr \<lparr>iw_records = records, iw_record_size = record_size, iw_node_size = node_size,
               iw_header_addr = 0, iw_leaf_addr = 0\<rparr>)))))))"

definition ni_bytes :: "name_index_writer \<Rightarrow> nat res" where
  "ni_bytes w = uadd NI_HEADER_SIZE (iw_node_size w)"

definition ni_assign :: "nat \<Rightarrow> name_index_writer \<Rightarrow> name_index_writer res" where
  "ni_assign base w =
     and_then (uadd base NI_HEADER_SIZE) (\<lambda>leaf_addr.
       Inr (w\<lparr>iw_header_addr := base, iw_leaf_addr := leaf_addr\<rparr>))"

definition write_record :: "nat \<Rightarrow> nat \<Rightarrow> nat \<times> name_record \<Rightarrow> bytes \<Rightarrow> bytes res" where
  "write_record leaf record_size = (\<lambda>(i, r) buf.
     let at = leaf + LEAF_PREFIX + i * record_size in
     and_then (write_u32_le buf at (unat (nr_hash r))) (\<lambda>buf.
       put_range buf (at + 4) (nr_heap_id r)))"

definition write_leaf :: "bytes \<Rightarrow> name_index_writer \<Rightarrow> bytes res" where
  "write_leaf buf w =
     (let leaf = iw_leaf_addr w in
      and_then (fill_zero buf leaf (iw_node_size w)) (\<lambda>buf.
      and_then (put_range buf leaf sig_BTLF) (\<lambda>buf.
      and_then (put_elem buf (leaf + 4) 0) (\<lambda>buf.
      and_then (put_elem buf (leaf + 5) 5) (\<lambda>buf.
      and_then (fold_res (write_record leaf (iw_record_size w)) (enumerate 0 (iw_records w)) buf) (\<lambda>buf.
      let live = LEAF_PREFIX + length (iw_records w) * iw_record_size w in
      and_then (slice buf leaf (leaf + live)) (\<lambda>bs.
        write_u32_le buf (leaf + live) (unat (metadata_checksum bs)))))))))"

definition write_index_header :: "bytes \<Rightarrow> name_index_writer \<Rightarrow> nat \<Rightarrow> nat \<Rightarrow> nat \<Rightarrow> bytes res" where
  "write_index_header buf w nrecords record_size node_size =
     (let base = iw_header_addr w in
      and_then (fill_zero buf base NI_HEADER_SIZE) (\<lambda>buf.
      and_then (put_range buf base sig_BTHD) (\<lambda>buf.
      and_then (put_elem buf (base + 4) 0) (\<lambda>buf.
      and_then (put_elem buf (base + 5) 5) (\<lambda>buf.
      and_then (write_u32_le buf (base + 6) node_size) (\<lambda>buf.
      and_then (write_u16_le buf (base + 10) record_size) (\<lambda>buf.
      and_then (write_u16_le buf (base + 12) 0) (\<lambda>buf.
      and_then (put_elem buf (base + 14) 100) (\<lambda>buf.
      and_then (put_elem buf (base + 15) 40) (\<lambda>buf.
      and_then (write_u64_le buf (base + 16) (iw_leaf_addr w)) (\<lambda>buf.
      and_then (write_u16_le buf (base + 24) nrecords) (\<lambda>buf.
      and_then (write_u64_le buf (base + 26) nrecords) (\<lambda>buf.
      and_then (slice buf base (base + 34)) (\<lambda>header.
        write_u32_le buf (base + 34) (unat (metadata_checksum header))))))))))))))))"

definition ni_write :: "bytes \<Rightarrow> name_index_writer \<Rightarrow> (bytes \<times> nat) res" where
  "ni_write buf w =
     and_then (narrow 65536 (length (iw_records w))) (\<lambda>nrecords.
     and_then (narrow 65536 (iw_record_size w)) (\<lambda>record_size.
     and_then (narrow u32_lim (iw_node_size w)) (\<lambda>node_size.
     and_then (write_leaf buf w) (\<lambda>buf.
     and_then (write_index_header buf w nrecords record_size node_size) (\<lambda>buf.
     and_then (ni_bytes w) (\<lambda>wrote.
     and_then (check_size (iw_leaf_addr w + iw_node_size w - iw_header_addr w) wrote) (\<lambda>_.
       Inr (buf, wrote))))))))"

section \<open>What the heap writer emits\<close>

fun object_offsets :: "nat \<Rightarrow> nat list \<Rightarrow> nat list" where
  "object_offsets c [] = []"
| "object_offsets c (n # ns) = c # object_offsets (c + n) ns"

lemma length_object_offsets [simp]: "length (object_offsets c ns) = length ns"
  by (induction ns arbitrary: c) simp_all

lemma nth_object_offsets: "i < length ns \<Longrightarrow> object_offsets c ns ! i = c + sum_list (take i ns)"
  by (induction ns arbitrary: c i) (auto simp: nth_Cons' take_Cons')

lemma plan_object_Inr:
  "plan_object n (offs, c) = Inr r \<longleftrightarrow> n \<le> 65535 \<and> c < u32_lim \<and> c + n < u64_lim \<and> r = (offs @ [c], c + n)"
  by (auto simp: plan_object_def)

lemma plan_objects:
  "fold_res plan_object sizes (offs, c) = Inr (offs', c') \<Longrightarrow>
   offs' = offs @ object_offsets c sizes \<and> c' = c + sum_list sizes \<and> (\<forall>n\<in>set sizes. n \<le> 65535)"
proof (induction sizes arbitrary: offs c)
  case (Cons n sizes)
  then obtain r where "plan_object n (offs, c) = Inr r" "fold_res plan_object sizes r = Inr (offs', c')" by auto
  then show ?case using Cons.IH [of "offs @ [c]" "c + n"] by (auto simp: plan_object_Inr)
qed simp

lemma grow_block_ok:
  "grow_block c b = Inr b' \<Longrightarrow> 0 < b \<Longrightarrow> b \<le> 65536 \<Longrightarrow> 512 dvd b \<Longrightarrow> c \<le> b' \<and> b \<le> b' \<and> b' \<le> 65536 \<and> 512 dvd b'"
proof (induction c b rule: grow_block.induct)
  case (1 c b)
  show ?case
  proof (cases "b < c")
    case True
    then have "grow_block c (b * 2) = Inr b'" "b * 2 \<le> 65536"
      using "1.prems" by (auto simp: grow_block.simps [of c b] split: if_splits)
    then show ?thesis using "1.IH" True "1.prems" by auto
  next
    case False
    then show ?thesis using "1.prems" by (simp add: grow_block.simps [of c b])
  qed
qed

text \<open>A planned writer.\<close>

definition fw_ok :: "fractal_heap_writer \<Rightarrow> bool" where
  "fw_ok w \<longleftrightarrow> fw_offsets w = object_offsets 21 (fw_sizes w) \<and> (\<forall>n\<in>set (fw_sizes w). n \<le> 65535)
     \<and> 21 + sum_list (fw_sizes w) \<le> fw_block_size w \<and> 512 \<le> fw_block_size w \<and> fw_block_size w \<le> 65536
     \<and> 8 dvd fw_block_size w"

lemma fh_plan_ok:
  assumes "fh_plan sizes = Inr w"
  shows "fw_ok w \<and> fw_sizes w = sizes"
proof -
  obtain offs c b where o: "fold_res plan_object sizes ([], 21) = Inr (offs, c)" and b: "grow_block c 512 = Inr b"
    and w: "w = \<lparr>fw_sizes = sizes, fw_offsets = offs, fw_block_size = b, fw_header_addr = 0, fw_block_addr = 0\<rparr>"
    using assms by (auto simp: fh_plan_def)
  have "8 dvd b" using grow_block_ok [OF b] by (auto elim: dvd_trans [rotated])
  then show ?thesis using plan_objects [OF o] grow_block_ok [OF b] by (auto simp: fw_ok_def w)
qed

lemma fw_ok_assign: "fw_ok (w\<lparr>fw_header_addr := a, fw_block_addr := b\<rparr>) = fw_ok w"
  by (simp add: fw_ok_def)

lemma sum_sizes_eq: "sum_list ns < u64_lim \<Longrightarrow> sum_sizes ns = Inr (sum_list ns)"
proof -
  have "acc + sum_list ns < u64_lim \<Longrightarrow> fold_res (\<lambda>n acc. uadd acc n) ns acc = Inr (acc + sum_list ns)" for acc
    by (induction ns arbitrary: acc) (simp_all add: add.assoc)
  from this [of 0] show "sum_list ns < u64_lim \<Longrightarrow> sum_sizes ns = Inr (sum_list ns)" by (simp add: sum_sizes_def)
qed

lemma write_objects:
  "c = length xs \<Longrightarrow> length (concat objs) \<le> k \<Longrightarrow> bb + length xs + k \<le> length buf \<Longrightarrow>
   fold_res (write_heap_object bb) (zip objs (object_offsets c (map length objs))) (splice buf bb (region xs k)) =
     Inr (splice buf bb (region (xs @ concat objs) (k - length (concat objs))))"
proof (induction objs arbitrary: xs k c)
  case (Cons obj objs)
  have "write_heap_object bb (obj, c) (splice buf bb (region xs k)) = Inr (splice buf bb (region (xs @ obj) (k - length obj)))"
    using Cons.prems by (simp add: write_heap_object_def put_range_next)
  then show ?case using Cons.prems Cons.IH [of "c + length obj" "xs @ obj" "k - length obj"] by simp
qed simp

lemma length_sig [simp]: "length sig_FHDB = 4" "length sig_FRHP = 4" "length sig_BTHD = 4" "length sig_BTLF = 4"
  by (simp_all add: sig_FHDB_def sig_FRHP_def sig_BTHD_def sig_BTLF_def)

definition enc_block :: "fractal_heap_writer \<Rightarrow> nat \<Rightarrow> bytes list \<Rightarrow> bytes" where
  "enc_block w checksum objs =
     (sig_FHDB @ [0] @ to_le 8 (fw_header_addr w) @ replicate 4 0) @ to_le 4 checksum @
     concat objs @ replicate (fw_block_size w - 21 - length (concat objs)) 0"

lemma length_enc_block: "fw_ok w \<Longrightarrow> map length objs = fw_sizes w \<Longrightarrow> length (enc_block w cs objs) = fw_block_size w"
  by (auto simp: enc_block_def fw_ok_def sig_FHDB_def length_concat)

lemma put_inside:
  assumes "k = length xs" "length ys = length zs" "off + length (xs @ ys @ rest) \<le> length buf"
  shows "put_range (splice buf off (xs @ ys @ rest)) (off + k) zs = Inr (splice buf off (xs @ zs @ rest))"
  using put_range_splice_inside [of off "xs @ ys @ rest" buf k zs] assms by (simp add: splice_def)

lemma write_direct_block_enc:
  assumes ok: "fw_ok w" "map length objs = fw_sizes w" and buf: "fw_block_addr w + fw_block_size w \<le> length buf"
  shows "\<exists>cs<u32_lim. write_direct_block buf w objs = Inr (splice buf (fw_block_addr w) (enc_block w cs objs))"
proof -
  let ?bb = "fw_block_addr w" and ?bs = "fw_block_size w"
  have total: "length (concat objs) = sum_list (fw_sizes w)" by (simp add: length_concat ok(2) [symmetric])
  have bs: "21 + length (concat objs) \<le> ?bs" "512 \<le> ?bs" "?bs \<le> 65536" "8 dvd ?bs"
    and offs: "fw_offsets w = object_offsets 21 (map length objs)"
    using ok by (auto simp: fw_ok_def total)
  have pad: "pad8 ?bs = Inr ?bs" using bs by (simp add: pad8_align8 align8_id)
  let ?h = "sig_FHDB @ [0] @ to_le 8 (fw_header_addr w)"
  have h: "length ?h = 13" by (simp add: sig_FHDB_def)
  have zeros: "fill_zero (splice buf ?bb (region ?h (?bs - 13))) (?bb + 13) 4 =
      Inr (splice buf ?bb (region (?h @ replicate 8 0) (?bs - 21)))"
  proof -
    have "fill_zero (splice buf ?bb (region ?h (?bs - 13))) (?bb + 13) 4 =
        Inr (splice buf ?bb (region (?h @ replicate 4 0) (?bs - 13 - 4)))"
      unfolding fill_zero_def using bs buf h by (subst put_range_next) simp_all
    also have "region (?h @ replicate 4 0) (?bs - 13 - 4) = region ((?h @ replicate 4 0) @ replicate 4 0) (?bs - 13 - 4 - 4)"
      using bs by (intro region_skip) simp
    also have "(?h @ replicate 4 0) @ replicate 4 0 = ?h @ replicate 8 0"
      unfolding append_assoc replicate_add [symmetric] by simp
    finally show ?thesis by simp
  qed
  have objs: "fold_res (write_heap_object ?bb) (zip objs (fw_offsets w)) (splice buf ?bb (region (?h @ replicate 8 0) (?bs - 21))) =
      Inr (splice buf ?bb (region ((?h @ replicate 8 0) @ concat objs) (?bs - 21 - length (concat objs))))"
    unfolding offs using bs buf h by (intro write_objects) simp_all
  let ?block = "take ?bs (drop ?bb (splice buf ?bb (region ((?h @ replicate 8 0) @ concat objs) (?bs - 21 - length (concat objs)))))"
  define cs where "cs = unat (metadata_checksum ?block)"
  have "cs < u32_lim" unfolding cs_def using unsigned_less [of "metadata_checksum ?block", where 'a = nat] by simp
  have start: "fill_zero buf ?bb ?bs = Inr (splice buf ?bb (region [] ?bs))" using buf by (rule fill_zero_region)
  have head: "put_range (splice buf ?bb (region [] ?bs)) ?bb sig_FHDB = Inr (splice buf ?bb (region sig_FHDB (?bs - 4)))"
    "put_elem (splice buf ?bb (region sig_FHDB (?bs - 4))) (?bb + 4) 0 = Inr (splice buf ?bb (region (sig_FHDB @ [0]) (?bs - 5)))"
    "write_u64_le (splice buf ?bb (region (sig_FHDB @ [0]) (?bs - 5))) (?bb + 5) (fw_header_addr w) = Inr (splice buf ?bb (region ?h (?bs - 13)))"
    using buf bs by (simp_all add: put_range_next put_elem_range write_u64_le_def del: to_le.simps)
  let ?img = "region ((?h @ replicate 8 0) @ concat objs) (?bs - 21 - length (concat objs))"
  have slice: "slice (splice buf ?bb ?img) ?bb (?bb + ?bs) = Inr ?block"
    using buf bs by (simp add: slice_def get_range_def region_def sig_FHDB_def)
  have img: "?img = (?h @ replicate 4 0) @ replicate 4 0 @ concat objs @ replicate (?bs - 21 - length (concat objs)) 0"
  proof -
    have "replicate 8 0 = replicate 4 0 @ replicate 4 (0 :: byte)" unfolding replicate_add [symmetric] by simp
    then show ?thesis by (simp only: region_def append_assoc)
  qed
  have "write_u32_le (splice buf ?bb ?img) (?bb + 17) cs = Inr (splice buf ?bb (enc_block w cs objs))"
  proof -
    let ?t = "concat objs @ replicate (?bs - 21 - length (concat objs)) 0"
    have "put_range (splice buf ?bb ((?h @ replicate 4 0) @ replicate 4 0 @ ?t)) (?bb + 17) (to_le 4 cs) =
        Inr (splice buf ?bb ((?h @ replicate 4 0) @ to_le 4 cs @ ?t))"
      by (rule put_inside) (use buf bs h in simp_all)
    then show ?thesis unfolding write_u32_le_def img enc_block_def by (simp only: append_assoc)
  qed
  then have "write_direct_block buf w objs = Inr (splice buf ?bb (enc_block w cs objs))"
    unfolding write_direct_block_def Let_def pad and_then_simps start head zeros objs slice cs_def .
  then show ?thesis using \<open>cs < u32_lim\<close> by blast
qed

definition enc_heap_header :: "fractal_heap_writer \<Rightarrow> nat \<Rightarrow> nat \<Rightarrow> bytes" where
  "enc_heap_header w free checksum =
     sig_FRHP @ [0] @ to_le 2 7 @ to_le 2 0 @ [2] @ to_le 4 65536 @ to_le 8 0 @ to_le 8 u64_max @ to_le 8 free
     @ to_le 8 u64_max @ to_le 8 (fw_block_size w) @ to_le 8 (fw_block_size w) @ to_le 8 0
     @ to_le 8 (length (fw_sizes w)) @ to_le 8 0 @ to_le 8 0 @ to_le 8 0 @ to_le 8 0 @ to_le 2 4
     @ to_le 8 (fw_block_size w) @ to_le 8 65536 @ to_le 2 32 @ to_le 2 1 @ to_le 8 (fw_block_addr w)
     @ to_le 2 0 @ to_le 4 checksum"

lemma length_enc_heap_header [simp]: "length (enc_heap_header w free cs) = 146"
  by (simp add: enc_heap_header_def)

lemma slice_region: "off + n \<le> length buf \<Longrightarrow> length xs + k \<ge> n \<Longrightarrow> off + length xs + k \<le> length buf \<Longrightarrow>
  slice (splice buf off (region xs k)) off (off + n) = Inr (take n (region xs k))"
  by (simp add: slice_def get_range_def region_def drop_splice)

lemma write_heap_header_enc:
  assumes "fw_header_addr w + 146 \<le> length buf"
  shows "\<exists>cs<u32_lim. write_heap_header buf w free = Inr (splice buf (fw_header_addr w) (enc_heap_header w free cs))"
proof -
  let ?xs = "enc_heap_header w free 0"
  define cs where "cs = unat (metadata_checksum (take 142 ?xs))"
  have "cs < u32_lim" unfolding cs_def using unsigned_less [of "metadata_checksum (take 142 ?xs)", where 'a = nat] by simp
  moreover have "write_heap_header buf w free = Inr (splice buf (fw_header_addr w) (enc_heap_header w free cs))"
    using assms
    by (simp add: write_heap_header_def Let_def fields_at slice_region del: to_le.simps)
      (simp add: region_def cs_def enc_heap_header_def del: to_le.simps)
  ultimately show ?thesis by blast
qed

lemma fh_write_enc:
  assumes ok: "fw_ok w" "map length objs = fw_sizes w"
    and buf: "fw_block_addr w + fw_block_size w \<le> length buf" "length buf \<le> isize_max" "fw_block_addr w = fw_header_addr w + 146"
  shows "\<exists>cs hcs free. cs < u32_lim \<and> hcs < u32_lim \<and>
    fh_write buf w objs = Inr (splice buf (fw_header_addr w) (enc_heap_header w free hcs @ enc_block w cs objs), 146 + fw_block_size w)"
proof -
  let ?bs = "fw_block_size w"
  have bs: "21 + sum_list (fw_sizes w) \<le> ?bs" "?bs \<le> 65536" "8 dvd ?bs" using ok by (auto simp: fw_ok_def)
  define free where "free = ?bs - (21 + sum_list (fw_sizes w))"
  obtain cs where cs: "cs < u32_lim" "write_direct_block buf w objs = Inr (splice buf (fw_block_addr w) (enc_block w cs objs))"
    using write_direct_block_enc [OF ok buf(1)] by blast
  let ?buf = "splice buf (fw_block_addr w) (enc_block w cs objs)"
  have lenb: "length (enc_block w cs objs) = ?bs" using ok by (simp add: length_enc_block)
  obtain hcs where hcs: "hcs < u32_lim" "write_heap_header ?buf w free = Inr (splice ?buf (fw_header_addr w) (enc_heap_header w free hcs))"
    using write_heap_header_enc [of w ?buf free] buf lenb by auto
  have both: "splice ?buf (fw_header_addr w) (enc_heap_header w free hcs) =
      splice buf (fw_header_addr w) (enc_heap_header w free hcs @ enc_block w cs objs)"
    using buf lenb by (simp add: splice_def add.assoc)
  have lens: "length objs = length (fw_sizes w)" using ok(2) by (metis length_map)
  have nomis: "\<not> list_ex (\<lambda>(object, sz). length object \<noteq> sz) (zip objs (fw_sizes w))"
    by (auto simp: ok(2) [symmetric] list_ex_iff set_zip)
  have pad: "pad8 ?bs = Inr ?bs" using bs by (simp add: pad8_align8 align8_id)
  have "fh_write buf w objs = Inr (splice buf (fw_header_addr w) (enc_heap_header w free hcs @ enc_block w cs objs), 146 + ?bs)"
    using bs cs(2) hcs(2) both buf
    by (simp add: fh_write_def lens nomis sum_sizes_eq fh_bytes_def pad check_size_def free_def)
  then show ?thesis using cs(1) hcs(1) by blast
qed

section \<open>The heap read back\<close>

lemma fh_reads:
  "a + 2 \<le> length d \<Longrightarrow> length d \<le> isize_max \<Longrightarrow> fh_read_u16 d a = Inr (field 2 d a)"
  "a + 4 \<le> length d \<Longrightarrow> length d \<le> isize_max \<Longrightarrow> fh_read_u32 d a = Inr (field 4 d a)"
  "a + 8 \<le> length d \<Longrightarrow> length d \<le> isize_max \<Longrightarrow> fh_read_u64 d a = Inr (field 8 d a)"
  by (simp_all add: fh_read_u16_def fh_read_u32_def fh_read_u64_def field_def)

definition heap_of :: "bytes \<Rightarrow> nat \<Rightarrow> fractal_heap_writer \<Rightarrow> fractal_heap" where
  "heap_of d soo w = \<lparr>fh_file = d, fh_header_address = fw_header_addr w, heap_id_len = 7, max_managed_obj_size = 512,
     root_block_address = fw_block_addr w, starting_block_size = fw_block_size w, max_direct_block_size = 65536,
     table_width = 4, max_heap_size_bits = 32, root_indirect_rows = 1, current_rows = 0, fh_size_of_offsets = soo,
     io_filter = None\<rparr>"

lemma fractal_heap_parse_enc:
  assumes d: "drop (fw_header_addr w) d = enc_heap_header w free hcs @ rest" and len: "length d \<le> isize_max"
    and w: "fw_block_size w < u64_lim" "fw_block_addr w < u64_lim"
  shows "fractal_heap_parse d (fw_header_addr w) soo = Inr (heap_of d soo w)"
proof -
  let ?b = "fw_header_addr w" and ?h = "enc_heap_header w free hcs"
  have b: "?b + 146 \<le> length d" using arg_cong [OF d, of length] by simp
  have f: "field n d (?b + k) = field n (?h @ rest) k" for n k by (simp add: field_drop d)
  have e: "d ! (?b + k) = (?h @ rest) ! k" if "k < 146" for k
    unfolding d [symmetric] using b that by simp
  note hdr = enc_heap_header_def sig_FRHP_def
  have vals: "field 2 (?h @ rest) 7 = 0" "field 4 (?h @ rest) 8 = 512" "(?h @ rest) ! 4 = 0" "(?h @ rest) ! 5 = 7"
    by (simp_all add: hdr field_def le_eval)
  have vals': "field 2 (?h @ rest) 110 = 4" "field 8 (?h @ rest) 112 = fw_block_size w" "field 8 (?h @ rest) 120 = 65536"
    "field 2 (?h @ rest) 128 = 32" "field 2 (?h @ rest) 130 = 1" "field 8 (?h @ rest) 132 = fw_block_addr w"
    "field 2 (?h @ rest) 140 = 0"
    using w by (simp_all add: enc_heap_header_def field_eval del: to_le.simps)
  have sig: "take 4 (drop ?b d) = sig_FRHP" by (simp add: d enc_heap_header_def)
  show ?thesis
    using b len sig
    by (simp add: fractal_heap_parse_def Let_def fh_reads f e vals vals' io_filter_at_def heap_of_def usize_try_from_def checked_add_def)
qed

definition enc_heap_id :: "nat \<Rightarrow> nat \<Rightarrow> bytes" where
  "enc_heap_id offset len = [0] @ to_le 4 offset @ to_le 2 len"

lemma length_enc_heap_id [simp]: "length (enc_heap_id offset len) = 7"
  by (simp add: enc_heap_id_def)

lemma fh_heap_id_enc:
  assumes "fw_ok w" "i < length (fw_sizes w)"
  shows "fh_heap_id w i = Inr (enc_heap_id (21 + sum_list (take i (fw_sizes w))) (fw_sizes w ! i))"
proof -
  have z: "replicate 7 0 = [0, 0, 0, 0, 0, 0, (0 :: byte)]" by (simp add: numeral_eq_Suc)
  show ?thesis
    using assms
    by (simp add: fh_heap_id_def fw_ok_def nth_object_offsets z put_elem_def put_range_def splice_def take_to_le
        enc_heap_id_def del: to_le.simps)
qed

lemma sum_list_take_le: "sum_list (take i ns) \<le> (sum_list ns :: nat)"
  using sum_list_append [of "take i ns" "drop i ns"] by simp

lemma parse_heap_id_enc:
  assumes ok: "fw_ok w" and i: "i < length (fw_sizes w)"
  shows "parse_heap_id (heap_of d soo w') (enc_heap_id (21 + sum_list (take i (fw_sizes w))) (fw_sizes w ! i))
    = Inr (21 + sum_list (take i (fw_sizes w)), fw_sizes w ! i)"
proof -
  let ?o = "21 + sum_list (take i (fw_sizes w))" and ?n = "fw_sizes w ! i"
  have "?o \<le> 65536" using ok sum_list_take_le [of i "fw_sizes w"] by (simp add: fw_ok_def)
  moreover have "?n \<le> 65535" using ok i by (auto simp: fw_ok_def)
  ultimately show ?thesis
    by (simp add: parse_heap_id_def heap_of_def enc_heap_id_def div_ceil_def le_bytes_to_u64_def from_le_to_le
        Let_def del: to_le.simps)
qed

lemma concat_at: "i < length xss \<Longrightarrow> take (length (xss ! i)) (drop (sum_list (take i (map length xss))) (concat xss @ ys)) = xss ! i"
  by (induction xss arbitrary: i) (auto simp: nth_Cons' take_Cons')

lemma read_object_enc:
  assumes ok: "fw_ok w" "map length objs = fw_sizes w" and i: "i < length objs"
    and d: "drop (fw_block_addr w) d = enc_block w cs objs @ rest" and len: "length d \<le> isize_max"
  shows "read_object c (heap_of d soo w) (21 + sum_list (take i (fw_sizes w))) (fw_sizes w ! i) = Some (Inr (objs ! i))"
proof -
  let ?a = "fw_block_addr w" and ?o = "sum_list (take i (fw_sizes w))"
  have size: "?a + fw_block_size w \<le> length d" "fw_block_size w \<ge> 512"
    using arg_cong [OF d, of length] ok by (auto simp: length_enc_block fw_ok_def)
  have n: "fw_sizes w ! i = length (objs ! i)" using i by (simp flip: ok(2))
  have "drop (?a + (21 + ?o)) d = drop ?o (concat objs @ replicate (fw_block_size w - 21 - length (concat objs)) 0 @ rest)"
  proof -
    have "drop (?a + (21 + ?o)) d = drop ?o (drop 21 (drop ?a d))" by (simp add: add_ac)
    also have "drop 21 (drop ?a d) = concat objs @ replicate (fw_block_size w - 21 - length (concat objs)) 0 @ rest"
      unfolding d by (simp add: enc_block_def)
    finally show ?thesis .
  qed
  then have obj: "take (fw_sizes w ! i) (drop (?a + (21 + ?o)) d) = objs ! i"
    unfolding n using concat_at [OF i, of "replicate (fw_block_size w - 21 - length (concat objs)) 0 @ rest"]
    by (simp only: ok(2))
  have "Suc i \<le> length (fw_sizes w)" using i ok(2) by (metis Suc_leI length_map)
  then have "?o + fw_sizes w ! i \<le> sum_list (fw_sizes w)"
    using sum_list_take_le [of "Suc i" "fw_sizes w"] by (simp add: take_Suc_conv_app_nth)
  then have fits: "?a + (21 + ?o) + fw_sizes w ! i \<le> length d"
    using ok(1) size by (simp add: fw_ok_def)
  have sig: "take 4 (drop ?a d) = sig_FHDB" by (simp add: d enc_block_def)
  have "?a \<noteq> u64_max" using size len by auto
  then show ?thesis
    using read_direct_block_at [of ?a "heap_of d soo w" "21 + ?o" "fw_sizes w ! i"] sig fits size len obj
    by (simp add: read_object_def heap_of_def)
qed

section \<open>What the index writer emits\<close>

definition enc_record :: "name_record \<Rightarrow> bytes" where
  "enc_record r = to_le 4 (unat (nr_hash r)) @ nr_heap_id r"

definition enc_records :: "name_record list \<Rightarrow> bytes" where
  "enc_records rs = concat (map enc_record rs)"

definition iw_ok :: "name_index_writer \<Rightarrow> bool" where
  "iw_ok w \<longleftrightarrow> (\<forall>r\<in>set (iw_records w). 4 + length (nr_heap_id r) = iw_record_size w) \<and> length (iw_records w) < 65536
     \<and> 10 + length (iw_records w) * iw_record_size w \<le> iw_node_size w"

lemma div_ceil_ge: "0 < k \<Longrightarrow> n \<le> div_ceil n k * k"
proof -
  assume "0 < k"
  then have "n div k * k + n mod k = n" "n mod k < k" by simp_all
  moreover have "div_ceil n k * k = n div k * k + (if n mod k = 0 then 0 else k)"
    by (simp add: div_ceil_def distrib_right)
  moreover have "n \<le> n div k * k + (if n mod k = 0 then 0 else k)"
  proof (cases "n mod k = 0")
    case True
    then show ?thesis using \<open>n div k * k + n mod k = n\<close> unfolding True by linarith
  next
    case False
    then show ?thesis using \<open>n div k * k + n mod k = n\<close> \<open>n mod k < k\<close> unfolding if_not_P [OF False] by linarith
  qed
  ultimately show ?thesis by linarith
qed

lemma ni_plan_ok:
  assumes plan: "ni_plan entries = Inr w" and ids: "\<forall>(nm, hid)\<in>set entries. length hid = 7"
  shows "iw_ok w \<and> (entries \<noteq> [] \<longrightarrow> iw_record_size w = 11) \<and> iw_record_size w \<le> 11 \<and> iw_node_size w < u32_lim \<and> iw_records w = sort_key record_key
     (map (\<lambda>(nm, hid). \<lparr>nr_hash = link_name_hash nm, nr_name = nm, nr_heap_id = hid\<rparr>) entries)"
proof -
  define id_len where "id_len = (case entries of [] \<Rightarrow> 0 | (_, hid) # _ \<Rightarrow> length (hid :: bytes))"
  let ?rs = "sort_key record_key (map (\<lambda>(nm, hid). \<lparr>nr_hash = link_name_hash nm, nr_name = nm, nr_heap_id = hid\<rparr>) entries)"
  have len: "\<forall>(nm, hid)\<in>set entries. length hid = id_len" "entries \<noteq> [] \<longrightarrow> id_len = 7"
    using ids by (cases entries; auto simp: id_len_def)+
  let ?ns = "max (div_ceil (6 + length entries * (4 + id_len) + 4) 512) 1 * 512"
  have "w = \<lparr>iw_records = ?rs, iw_record_size = 4 + id_len, iw_node_size = ?ns, iw_header_addr = 0, iw_leaf_addr = 0\<rparr>"
    "length entries < 65536"
    using plan unfolding ni_plan_def Let_def id_len_def [symmetric] by (auto simp: narrow_def split: if_splits)
  moreover have "id_len \<le> 7" using len by (cases entries) (auto simp: id_len_def)
  moreover from this have "?ns < u32_lim" if "length entries < 65536"
  proof -
    have "length entries * (4 + id_len) \<le> 65536 * 11" using that \<open>id_len \<le> 7\<close> by (intro mult_le_mono) simp_all
    then have "6 + length entries * (4 + id_len) + 4 \<le> 720906" by simp
    then have "div_ceil (6 + length entries * (4 + id_len) + 4) 512 \<le> 720906 div 512 + 1"
      unfolding div_ceil_def by (intro add_mono div_le_mono) auto
    then show ?thesis by simp
  qed
  moreover have "10 + length entries * (4 + id_len) \<le> ?ns"
    using div_ceil_ge [of 512 "6 + length entries * (4 + id_len) + 4"] by simp
  ultimately show ?thesis using len by (auto simp: iw_ok_def)
qed


lemma length_enc_records: "(\<forall>r\<in>set rs. 4 + length (nr_heap_id r) = k) \<Longrightarrow> length (enc_records rs) = length rs * k"
  by (induction rs) (auto simp: enc_records_def enc_record_def)

lemma write_records:
  "a = leaf + 6 \<Longrightarrow> length xs = 6 + n * k \<Longrightarrow> (\<forall>r\<in>set rs. 4 + length (nr_heap_id r) = k) \<Longrightarrow> length rs * k \<le> m \<Longrightarrow>
   leaf + length xs + m \<le> length buf \<Longrightarrow>
   fold_res (write_record leaf k) (enumerate n rs) (splice buf leaf (region xs m)) =
     Inr (splice buf leaf (region (xs @ enc_records rs) (m - length rs * k)))"
proof (induction rs arbitrary: xs n m)
  case (Cons r rs)
  have step: "write_record leaf k (n, r) (splice buf leaf (region xs m)) =
      Inr (splice buf leaf (region (xs @ enc_record r) (m - k)))"
  proof -
    let ?h = "to_le 4 (unat (nr_hash r))"
    have at: "leaf + 6 + n * k = leaf + length xs" using Cons.prems by simp
    have "put_range (splice buf leaf (region xs m)) (leaf + length xs) ?h = Inr (splice buf leaf (region (xs @ ?h) (m - 4)))"
      using Cons.prems by (subst put_range_next) auto
    moreover have "put_range (splice buf leaf (region (xs @ ?h) (m - 4))) (leaf + length xs + 4) (nr_heap_id r) =
        Inr (splice buf leaf (region ((xs @ ?h) @ nr_heap_id r) (m - 4 - length (nr_heap_id r))))"
      using Cons.prems by (subst put_range_next) auto
    moreover have "m - 4 - length (nr_heap_id r) = m - k" using Cons.prems by auto
    ultimately show ?thesis
      by (simp only: write_record_def prod.case Let_def at write_u32_le_def and_then_simps enc_record_def append_assoc)
  qed
  show ?case
    using Cons.prems step Cons.IH [of "xs @ enc_record r" "Suc n" "m - k"]
    by (simp add: enc_records_def) (simp add: enc_record_def diff_diff_add)
qed (simp add: enc_records_def)

definition enc_leaf :: "name_index_writer \<Rightarrow> nat \<Rightarrow> bytes" where
  "enc_leaf w checksum =
     (sig_BTLF @ [0, 5]) @ enc_records (iw_records w) @ to_le 4 checksum @
     replicate (iw_node_size w - 10 - length (iw_records w) * iw_record_size w) 0"

lemma length_enc_leaf: "iw_ok w \<Longrightarrow> length (enc_leaf w cs) = iw_node_size w"
  using length_enc_records [of "iw_records w" "iw_record_size w"] by (auto simp: enc_leaf_def iw_ok_def)

lemma write_leaf_enc:
  assumes ok: "iw_ok w" and buf: "iw_leaf_addr w + iw_node_size w \<le> length buf"
  shows "\<exists>cs<u32_lim. write_leaf buf w = Inr (splice buf (iw_leaf_addr w) (enc_leaf w cs))"
proof -
  let ?l = "iw_leaf_addr w" and ?ns = "iw_node_size w" and ?k = "iw_record_size w" and ?rs = "iw_records w"
  let ?h = "sig_BTLF @ [0, 5]" and ?n = "length (iw_records w) * iw_record_size w"
  have rs: "\<forall>r\<in>set ?rs. 4 + length (nr_heap_id r) = ?k" "10 + ?n \<le> ?ns" using ok by (simp_all add: iw_ok_def)
  note lr = length_enc_records [OF rs(1)]
  have recs: "fold_res (write_record ?l ?k) (enumerate 0 ?rs) (splice buf ?l (region ?h (?ns - 6))) =
      Inr (splice buf ?l (region (?h @ enc_records ?rs) (?ns - 6 - ?n)))"
    using rs buf by (intro write_records) simp_all
  have head: "put_range (splice buf ?l (region [] ?ns)) ?l sig_BTLF = Inr (splice buf ?l (region sig_BTLF (?ns - 4)))"
    "put_elem (splice buf ?l (region sig_BTLF (?ns - 4))) (?l + 4) 0 = Inr (splice buf ?l (region (sig_BTLF @ [0]) (?ns - 5)))"
    "put_elem (splice buf ?l (region (sig_BTLF @ [0]) (?ns - 5))) (?l + 5) 5 = Inr (splice buf ?l (region ?h (?ns - 6)))"
    using buf rs by (simp_all add: put_range_next put_elem_range)
  have start: "fill_zero buf ?l ?ns = Inr (splice buf ?l (region [] ?ns))" using buf by (rule fill_zero_region)
  let ?live = "take (6 + ?n) (region (?h @ enc_records ?rs) (?ns - 6 - ?n))"
  have slice: "slice (splice buf ?l (region (?h @ enc_records ?rs) (?ns - 6 - ?n))) ?l (?l + (6 + ?n)) = Inr ?live"
    using buf rs by (intro slice_region) (simp_all add: lr)
  define cs where "cs = unat (metadata_checksum ?live)"
  have "cs < u32_lim" unfolding cs_def using unsigned_less [of "metadata_checksum ?live", where 'a = nat] by simp
  have "write_u32_le (splice buf ?l (region (?h @ enc_records ?rs) (?ns - 6 - ?n))) (?l + (6 + ?n)) cs =
      Inr (splice buf ?l (region ((?h @ enc_records ?rs) @ to_le 4 cs) (?ns - 6 - ?n - 4)))"
    unfolding write_u32_le_def using buf rs by (subst put_range_next) (simp_all add: lr)
  also have "region ((?h @ enc_records ?rs) @ to_le 4 cs) (?ns - 6 - ?n - 4) = enc_leaf w cs"
    by (simp add: region_def enc_leaf_def diff_diff_add add.commute)
  finally have "write_leaf buf w = Inr (splice buf ?l (enc_leaf w cs))"
    unfolding write_leaf_def Let_def start and_then_simps head recs slice cs_def .
  then show ?thesis using \<open>cs < u32_lim\<close> by blast
qed

definition enc_index_header :: "name_index_writer \<Rightarrow> nat \<Rightarrow> nat \<Rightarrow> nat \<Rightarrow> nat \<Rightarrow> bytes" where
  "enc_index_header w nrecords record_size node_size checksum =
     sig_BTHD @ [0, 5] @ to_le 4 node_size @ to_le 2 record_size @ to_le 2 0 @ [100, 40]
     @ to_le 8 (iw_leaf_addr w) @ to_le 2 nrecords @ to_le 8 nrecords @ to_le 4 checksum"

lemma length_enc_index_header [simp]: "length (enc_index_header w nr rs ns cs) = 38"
  by (simp add: enc_index_header_def)

lemma write_index_header_enc:
  assumes "iw_header_addr w + 38 \<le> length buf"
  shows "\<exists>cs<u32_lim. write_index_header buf w nr rs ns = Inr (splice buf (iw_header_addr w) (enc_index_header w nr rs ns cs))"
proof -
  let ?xs = "enc_index_header w nr rs ns 0"
  define cs where "cs = unat (metadata_checksum (take 34 ?xs))"
  have "cs < u32_lim" unfolding cs_def using unsigned_less [of "metadata_checksum (take 34 ?xs)", where 'a = nat] by simp
  moreover have "write_index_header buf w nr rs ns = Inr (splice buf (iw_header_addr w) (enc_index_header w nr rs ns cs))"
    using assms
    by (simp add: write_index_header_def Let_def fields_at slice_region del: to_le.simps)
      (simp add: region_def cs_def enc_index_header_def del: to_le.simps)
  ultimately show ?thesis by blast
qed

lemma ni_write_enc:
  assumes ok: "iw_ok w" "iw_record_size w < 65536" "iw_node_size w < u32_lim"
    and buf: "iw_leaf_addr w + iw_node_size w \<le> length buf" "iw_leaf_addr w = iw_header_addr w + 38" "length buf \<le> isize_max"
  shows "\<exists>cs hcs. ni_write buf w = Inr (splice buf (iw_header_addr w)
      (enc_index_header w (length (iw_records w)) (iw_record_size w) (iw_node_size w) hcs @ enc_leaf w cs), 38 + iw_node_size w)"
proof -
  let ?n = "length (iw_records w)"
  obtain cs where cs: "write_leaf buf w = Inr (splice buf (iw_leaf_addr w) (enc_leaf w cs))"
    using write_leaf_enc [OF ok(1) buf(1)] by blast
  let ?buf = "splice buf (iw_leaf_addr w) (enc_leaf w cs)"
  have len: "length (enc_leaf w cs) = iw_node_size w" using ok(1) by (rule length_enc_leaf)
  obtain hcs where hcs: "write_index_header ?buf w ?n (iw_record_size w) (iw_node_size w) =
      Inr (splice ?buf (iw_header_addr w) (enc_index_header w ?n (iw_record_size w) (iw_node_size w) hcs))"
    using write_index_header_enc [of w ?buf ?n "iw_record_size w" "iw_node_size w"] buf len by auto
  have both: "splice ?buf (iw_header_addr w) (enc_index_header w ?n (iw_record_size w) (iw_node_size w) hcs) =
      splice buf (iw_header_addr w) (enc_index_header w ?n (iw_record_size w) (iw_node_size w) hcs @ enc_leaf w cs)"
    using buf len by (simp add: splice_def add.assoc)
  show ?thesis
    using ok cs hcs both buf by (auto simp: ni_write_def narrow_def iw_ok_def ni_bytes_def check_size_def)
qed

section \<open>The index read back\<close>

lemma drop_enc_records:
  assumes "\<forall>r\<in>set rs. 4 + length (nr_heap_id r) = k" "i < length rs"
  shows "drop (i * k) (enc_records rs @ ys) = enc_record (rs ! i) @ enc_records (drop (Suc i) rs) @ ys"
  using assms
proof (induction rs arbitrary: i)
  case (Cons r rs)
  have "length (enc_record r) = k" using Cons.prems by (simp add: enc_record_def)
  then show ?case using Cons by (cases i) (simp_all add: enc_records_def)
qed simp

lemma parse_name_index_enc:
  assumes hdr: "drop (iw_header_addr w) d = enc_index_header w (length (iw_records w)) 11 (iw_node_size w) hcs @ enc_leaf w cs @ rest"
    and ok: "iw_ok w" "iw_record_size w = 11" "iw_leaf_addr w = iw_header_addr w + 38" and len: "length d \<le> isize_max"
  shows "parse_name_index d (iw_header_addr w) 7 = Inr (map nr_heap_id (iw_records w))"
proof -
  let ?a = "iw_header_addr w" and ?l = "iw_leaf_addr w" and ?rs = "iw_records w"
  let ?h = "enc_index_header w (length ?rs) 11 (iw_node_size w) hcs"
  have rs: "\<forall>r\<in>set ?rs. 4 + length (nr_heap_id r) = 11" "10 + length ?rs * 11 \<le> iw_node_size w" "length ?rs < 65536"
    using ok by (auto simp: iw_ok_def)
  have size: "?a + 38 + iw_node_size w \<le> length d"
    using arg_cong [OF hdr, of length] ok(1) by (simp add: length_enc_leaf)
  have leaf: "drop ?l d = enc_leaf w cs @ rest"
    using arg_cong [OF hdr, of "drop 38"] by (simp add: ok(3) add.commute)
  have f: "field n d (?a + k) = field n (?h @ enc_leaf w cs @ rest) k" for n k by (simp add: field_drop hdr)
  have e: "d ! (?a + k) = (?h @ enc_leaf w cs @ rest) ! k" if "k < 38" for k
    unfolding hdr [symmetric] using size that by simp
  have el: "d ! (?l + 4) = (enc_leaf w cs @ rest) ! 4"
    unfolding leaf [symmetric] using size ok(3) by simp
  have "bt2_file d ?a 5 (4 + 7) 0 ?l (length ?rs)"
    using size len rs ok(3) f [of 2 10] f [of 2 12] f [of 8 16] f [of 2 24] e [of 4] e [of 5]
    by (simp add: bt2_file_def hdr enc_index_header_def field_eval nth_append del: to_le.simps)
  moreover have "bt2_tree d (4 + 7) (name_id 7) 0 ?l (length ?rs)
      (map (\<lambda>i. name_id 7 d (?l + 6 + i * (4 + 7))) [0..<length ?rs])"
  proof (rule bt2_tree.leaf)
    have "take 4 (drop ?l d) = sig_BTLF" by (simp add: leaf enc_leaf_def)
    then show "bt2_node_at d ?l sig_BTLF"
      using size rs(2) ok(3) el by (simp add: bt2_node_at_def enc_leaf_def nth_append)
  qed (use size rs ok(3) in simp)
  moreover have "map (\<lambda>i. name_id 7 d (?l + 6 + i * (4 + 7))) [0..<length ?rs] = map nr_heap_id ?rs"
  proof (rule nth_equalityI)
    fix i assume i: "i < length (map (\<lambda>i. name_id 7 d (?l + 6 + i * (4 + 7))) [0..<length ?rs])"
    then have "i < length ?rs" by simp
    have "drop (?l + 6 + i * 11 + 4) d = drop 4 (drop (i * 11) (drop 6 (drop ?l d)))" by (simp add: add_ac)
    also have "drop 6 (drop ?l d) = enc_records ?rs @ to_le 4 cs @ replicate (iw_node_size w - 10 - length ?rs * 11) 0 @ rest"
      unfolding leaf by (simp add: enc_leaf_def ok(2))
    also have "drop (i * 11) \<dots> = enc_record (?rs ! i) @ enc_records (drop (Suc i) ?rs) @ to_le 4 cs @ replicate (iw_node_size w - 10 - length ?rs * 11) 0 @ rest"
      by (rule drop_enc_records [OF rs(1) \<open>i < length ?rs\<close>])
    finally have "name_id 7 d (?l + 6 + i * 11) = nr_heap_id (?rs ! i)"
      using rs(1) \<open>i < length ?rs\<close> by (simp add: name_id_def enc_record_def)
    then show "map (\<lambda>i. name_id 7 d (?l + 6 + i * (4 + 7))) [0..<length ?rs] ! i = map nr_heap_id ?rs ! i"
      using \<open>i < length ?rs\<close> by simp
  qed simp
  ultimately show ?thesis using len by (intro parse_name_index_tree [of d ?a 7 0 ?l "length ?rs"]) simp_all
qed

section \<open>Dense link storage\<close>

record dense_storage =
  ds_heap :: fractal_heap_writer
  ds_index :: name_index_writer

text \<open>Planning, from the lengths of the messages; \<^verbatim>\<open>build_link_storage\<close> of \<^verbatim>\<open>wr/plan.rs\<close>.\<close>

definition plan_dense :: "link_msg list \<Rightarrow> dense_storage res" where
  "plan_dense links =
     and_then (map_res link_body_size links) (\<lambda>sizes.
     and_then (fh_plan sizes) (\<lambda>heap.
     and_then (map_res (\<lambda>(i, m). and_then (fh_heap_id heap i) (\<lambda>hid. Inr (lm_name m, hid))) (enumerate 0 links)) (\<lambda>entries.
     and_then (ni_plan entries) (\<lambda>nidx.
       Inr \<lparr>ds_heap = heap, ds_index = nidx\<rparr>))))"

definition assign_dense :: "nat \<Rightarrow> dense_storage \<Rightarrow> (dense_storage \<times> nat) res" where
  "assign_dense current ds =
     and_then (fh_assign current (ds_heap ds)) (\<lambda>heap.
     and_then (fh_bytes heap) (\<lambda>n.
     and_then (uadd current n) (\<lambda>current.
     and_then (ni_assign current (ds_index ds)) (\<lambda>nidx.
     and_then (ni_bytes nidx) (\<lambda>n.
     and_then (uadd current n) (\<lambda>current.
       Inr (\<lparr>ds_heap = heap, ds_index = nidx\<rparr>, current)))))))"

text \<open>Emission, once the messages carry their final addresses; \<^verbatim>\<open>emit_dense_links\<close> of \<^verbatim>\<open>wr/build.rs\<close>.\<close>

definition emit_dense_links :: "bytes \<Rightarrow> link_msg list \<Rightarrow> dense_storage \<Rightarrow> bytes res" where
  "emit_dense_links buf links ds =
     and_then (map_res link_to_bytes links) (\<lambda>objects.
     and_then (fh_write buf (ds_heap ds) objects) (\<lambda>(buf, wrote).
     and_then (fh_bytes (ds_heap ds)) (\<lambda>n.
     and_then (check_size wrote n) (\<lambda>_.
     and_then (ni_write buf (ds_index ds)) (\<lambda>(buf, wrote).
     and_then (ni_bytes (ds_index ds)) (\<lambda>n.
     and_then (check_size wrote n) (\<lambda>_. Inr buf)))))))"

section \<open>Writing dense links and listing them\<close>

definition read_link :: "link_msg \<Rightarrow> parsed_link" where
  "read_link m = \<lparr>link_name = lm_name m, link_target = link_of_value (lm_value m)\<rparr>"

definition link_key :: "link_msg \<Rightarrow> 32 word \<times> str" where
  "link_key m = (link_name_hash (lm_name m), lm_name m)"

lemma insort_key_map: "insort_key f (g x) (map g xs) = map g (insort_key (\<lambda>x. f (g x)) x xs)"
  by (induction xs) auto

lemma sort_key_map: "sort_key f (map g xs) = map g (sort_key (\<lambda>x. f (g x)) xs)"
  by (induction xs) (simp_all add: sort_key_def insort_key_map)

lemma link_to_bytes_size: "link_to_bytes m = Inr bs \<Longrightarrow> link_body_size m = Inr (length bs) \<and> bs \<noteq> []"
proof -
  assume m: "link_to_bytes m = Inr bs"
  obtain width width_bits where w: "name_len_width (length (lm_name m)) = Inr (width, width_bits)"
    "bs = enc_link width (link_flags width_bits m) m" "value_fits (lm_value m)"
    using link_to_bytes_enc [OF m] by metis
  obtain n where n: "link_body_size m = Inr n" using m by (auto simp: link_to_bytes_def)
  obtain width' width_bits' where "name_len_width (length (lm_name m)) = Inr (width', width_bits')"
    "n = length (enc_link width' (link_flags width_bits' m) m)"
    using link_body_size_eq [OF n w(3)] by metis
  then show ?thesis using w n by (simp add: enc_link_def)
qed

lemma heap_links_all:
  assumes "\<And>x. x \<in> set xs \<Longrightarrow> heap_link c fh ctx (hid x) = Some (Inr (Some (lnk x)))"
  shows "heap_links c fh ctx (map hid xs) acc = Some (Inr (acc @ map lnk xs))"
  using assms by (induction xs arbitrary: acc) simp_all

lemma plan_dense_ok:
  assumes "plan_dense links = Inr ds"
  obtains sizes where "map_res link_body_size links = Inr sizes" "fw_ok (ds_heap ds)" "fw_sizes (ds_heap ds) = sizes"
    "iw_ok (ds_index ds)" "links \<noteq> [] \<longrightarrow> iw_record_size (ds_index ds) = 11" "iw_record_size (ds_index ds) \<le> 11"
    "iw_node_size (ds_index ds) < u32_lim"
    "map nr_heap_id (iw_records (ds_index ds)) =
       map (\<lambda>(i, m). enc_heap_id (21 + sum_list (take i sizes)) (sizes ! i)) (sort_key (\<lambda>(i, m). link_key m) (enumerate 0 links))"
proof -
  obtain sizes heap entries nidx where p: "map_res link_body_size links = Inr sizes" "fh_plan sizes = Inr heap"
    "map_res (\<lambda>(i, m). and_then (fh_heap_id heap i) (\<lambda>hid. Inr (lm_name m, hid))) (enumerate 0 links) = Inr entries"
    "ni_plan entries = Inr nidx" "ds = \<lparr>ds_heap = heap, ds_index = nidx\<rparr>"
    using assms by (auto simp: plan_dense_def)
  have heap: "fw_ok heap" "fw_sizes heap = sizes" using fh_plan_ok [OF p(2)] by auto
  have len: "length sizes = length links" using map_res_length [OF p(1)] .
  let ?hid = "\<lambda>i. enc_heap_id (21 + sum_list (take i sizes)) (sizes ! i)"
  have "map_res (\<lambda>(i, m). and_then (fh_heap_id heap i) (\<lambda>hid. Inr (lm_name m, hid))) (enumerate 0 links) =
      Inr (map (\<lambda>(i, m). (lm_name m, ?hid i)) (enumerate 0 links))"
    using heap len by (intro map_res_total) (auto simp: in_set_enumerate_eq fh_heap_id_enc)
  then have entries: "entries = map (\<lambda>(i, m). (lm_name m, ?hid i)) (enumerate 0 links)" using p(3) by simp
  have ids: "\<forall>(nm, hid)\<in>set entries. length hid = 7" by (auto simp: entries)
  note plan = ni_plan_ok [OF p(4) ids]
  have "map nr_heap_id (iw_records nidx) = map (\<lambda>(i, m). ?hid i) (sort_key (\<lambda>(i, m). link_key m) (enumerate 0 links))"
    using plan by (simp add: entries sort_key_map record_key_def link_key_def case_prod_unfold comp_def)
  moreover have "links \<noteq> [] \<Longrightarrow> entries \<noteq> []" by (auto simp: entries enumerate_eq_zip)
  ultimately show thesis using that [of sizes] p(1,5) heap plan by auto
qed

lemma enumerate_map_snd: "enumerate n (map f xs) = map (\<lambda>(i, x). (i, f x)) (enumerate n xs)"
  by (induction xs arbitrary: n) simp_all

lemma take_splice_before: "off \<le> length buf \<Longrightarrow> take off (splice buf off xs) = take off buf"
  by (simp add: splice_def)

lemma sort_enumerate_names:
  "map (\<lambda>(i, m). f i) (sort_key (\<lambda>(i, m). link_key m) (enumerate 0 ls)) =
   map (\<lambda>(i, nm). f i) (sort_key (\<lambda>(i, nm). (link_name_hash nm, nm)) (enumerate 0 (map lm_name ls)))"
proof -
  have "enumerate 0 (map lm_name ls) = map (\<lambda>(i, m). (i, lm_name m)) (enumerate 0 ls)"
    by (rule enumerate_map_snd)
  then show ?thesis by (simp add: sort_key_map case_prod_unfold link_key_def comp_def)
qed

text \<open>The dense links of a group, written and listed.\<close>

lemma emit_dense_links_read:
  assumes plan: "plan_dense links0 = Inr ds0" and place: "assign_dense base ds0 = Inr (ds, eof)"
    and patched: "map lm_name links = map lm_name links0" "map_res link_to_bytes links = Inr objs"
      "map_res link_body_size links0 = Inr (map length objs)"
    and wf: "\<And>m. m \<in> set links \<Longrightarrow> valid_utf8 (lm_name m) \<and> value_wf (lm_value m)" "links \<noteq> []"
    and buf: "eof \<le> length buf" "length buf \<le> isize_max" and ctx: "size_of_offsets ctx = 8"
  shows "\<exists>buf'. emit_dense_links buf links ds = Inr buf' \<and>
    dense_links c buf' (fw_header_addr (ds_heap ds)) (iw_header_addr (ds_index ds)) ctx =
      Some (Inr (map read_link (sort_key link_key links)))"
proof -
  have len: "length links = length links0" "length objs = length links"
    using arg_cong [OF patched(1), of length] map_res_length [OF patched(2)] by auto
  have "links0 \<noteq> []" using wf(2) len by auto
  obtain sizes where p: "map_res link_body_size links0 = Inr sizes" "fw_ok (ds_heap ds0)" "fw_sizes (ds_heap ds0) = sizes"
    "iw_ok (ds_index ds0)" "links0 \<noteq> [] \<longrightarrow> iw_record_size (ds_index ds0) = 11" "iw_record_size (ds_index ds0) \<le> 11"
    "iw_node_size (ds_index ds0) < u32_lim"
    "map nr_heap_id (iw_records (ds_index ds0)) =
       map (\<lambda>(i, m). enc_heap_id (21 + sum_list (take i sizes)) (sizes ! i)) (sort_key (\<lambda>(i, m). link_key m) (enumerate 0 links0))"
    by (rule plan_dense_ok [OF plan])
  have sizes: "sizes = map length objs" using p(1) patched(3) by simp
  define fw where "fw = ds_heap ds"
  define iw where "iw = ds_index ds"
  have fw: "fw_ok fw" "fw_sizes fw = sizes" "fw_header_addr fw = base" "fw_block_addr fw = base + 146"
    and iw: "iw_ok iw" "iw_record_size iw = 11" "iw_node_size iw < u32_lim" "iw_records iw = iw_records (ds_index ds0)"
      "iw_header_addr iw = base + 146 + fw_block_size fw" "iw_leaf_addr iw = iw_header_addr iw + 38"
      "eof = iw_leaf_addr iw + iw_node_size iw"
  proof -
    obtain n cur n' where a: "fh_assign base (ds_heap ds0) = Inr fw" "fh_bytes fw = Inr n" "cur = base + n"
      "ni_assign cur (ds_index ds0) = Inr iw" "ni_bytes iw = Inr n'" "eof = cur + n'"
      using place by (auto simp: assign_dense_def fw_def iw_def)
    have fw0: "fw = (ds_heap ds0)\<lparr>fw_header_addr := base, fw_block_addr := base + 146\<rparr>"
      using a(1) by (auto simp: fh_assign_def)
    then show fw: "fw_ok fw" "fw_sizes fw = sizes" "fw_header_addr fw = base" "fw_block_addr fw = base + 146"
      using p(2,3) by (simp_all add: fw_ok_assign)
    have "8 dvd fw_block_size fw" "fw_block_size fw \<le> 65536" using fw(1) by (simp_all add: fw_ok_def)
    then have n: "n = 146 + fw_block_size fw" using a(2) by (simp add: fh_bytes_def pad8_align8 align8_id)
    have iw0: "iw = (ds_index ds0)\<lparr>iw_header_addr := cur, iw_leaf_addr := cur + 38\<rparr>"
      using a(4) by (auto simp: ni_assign_def)
    then show "iw_ok iw" "iw_record_size iw = 11" "iw_node_size iw < u32_lim" "iw_records iw = iw_records (ds_index ds0)"
      "iw_header_addr iw = base + 146 + fw_block_size fw" "iw_leaf_addr iw = iw_header_addr iw + 38"
      "eof = iw_leaf_addr iw + iw_node_size iw"
      using p(4,5,7) \<open>links0 \<noteq> []\<close> a(3,5,6) n by (simp_all add: iw_ok_def ni_bytes_def)
  qed
  obtain cs hcs free where w1: "fh_write buf fw objs =
      Inr (splice buf base (enc_heap_header fw free hcs @ enc_block fw cs objs), 146 + fw_block_size fw)"
    using fh_write_enc [of fw objs buf] fw sizes buf iw by auto
  let ?b1 = "splice buf base (enc_heap_header fw free hcs @ enc_block fw cs objs)"
  have lb: "length (enc_block fw cs objs) = fw_block_size fw" using fw(1,2) sizes by (intro length_enc_block) simp_all
  have len1: "length ?b1 = length buf" using lb buf iw by simp
  let ?n = "length (iw_records iw)"
  obtain cs' hcs' where w2: "ni_write ?b1 iw = Inr (splice ?b1 (iw_header_addr iw)
      (enc_index_header iw ?n 11 (iw_node_size iw) hcs' @ enc_leaf iw cs'), 38 + iw_node_size iw)"
    using ni_write_enc [of iw ?b1] iw buf len1 by auto
  define d where "d = splice ?b1 (iw_header_addr iw) (enc_index_header iw ?n 11 (iw_node_size iw) hcs' @ enc_leaf iw cs')"
  have li: "length (enc_leaf iw cs') = iw_node_size iw" using iw(1) by (rule length_enc_leaf)
  have lend: "length d = length buf" using li len1 iw buf by (simp add: d_def)
  have di: "drop (iw_header_addr iw) d = enc_index_header iw ?n 11 (iw_node_size iw) hcs' @ enc_leaf iw cs' @ drop eof ?b1"
    using li len1 iw buf by (simp add: d_def drop_splice add_ac)
  have dh: "drop base d = enc_heap_header fw free hcs @ enc_block fw cs objs @ drop (iw_header_addr iw) d"
  proof -
    have "take (iw_header_addr iw) d = take (iw_header_addr iw) ?b1"
      unfolding d_def by (rule take_splice_before) (use len1 iw(5,6,7) buf in linarith)
    then have "drop base (take (iw_header_addr iw) d) = take (146 + fw_block_size fw) (drop base ?b1)"
      using iw(5) by (simp add: drop_take)
    also have "\<dots> = enc_heap_header fw free hcs @ enc_block fw cs objs"
      using lb iw buf by (simp add: drop_splice)
    finally have front: "drop base (take (iw_header_addr iw) d) = enc_heap_header fw free hcs @ enc_block fw cs objs" .
    have le: "base \<le> iw_header_addr iw" "iw_header_addr iw \<le> length d" using iw(5,6,7) buf lend by simp_all
    have "drop base d = drop base (take (iw_header_addr iw) d @ drop (iw_header_addr iw) d)" by simp
    also have "\<dots> = drop base (take (iw_header_addr iw) d) @ drop (iw_header_addr iw) d"
      unfolding drop_append using le by simp
    finally show ?thesis by (simp only: front append_assoc)
  qed
  have "8 dvd fw_block_size fw" "fw_block_size fw \<le> 65536" using fw(1) by (simp_all add: fw_ok_def)
  then have "fh_bytes fw = Inr (146 + fw_block_size fw)" by (simp add: fh_bytes_def pad8_align8 align8_id)
  then have emit: "emit_dense_links buf links ds = Inr d"
    using iw buf unfolding emit_dense_links_def fw_def [symmetric] iw_def [symmetric]
    by (simp add: patched(2) w1 w2 check_size_def ni_bytes_def d_def)
  let ?fh = "heap_of d 8 fw"
  let ?S = "sort_key (\<lambda>(i, m). link_key m) (enumerate 0 links)"
  let ?hid = "\<lambda>i. enc_heap_id (21 + sum_list (take i sizes)) (sizes ! i)"
  have "parse_name_index d (iw_header_addr iw) 7 = Inr (map nr_heap_id (iw_records iw))"
    using di iw lend buf by (intro parse_name_index_enc) simp_all
  also have "map nr_heap_id (iw_records iw) = map (\<lambda>(i, m). ?hid i) ?S"
    unfolding iw(4) p(8) sort_enumerate_names [of _ links0] patched(1) [symmetric] sort_enumerate_names [of _ links, symmetric] ..
  finally have ids: "parse_name_index d (iw_header_addr iw) 7 = Inr (map (\<lambda>(i, m). ?hid i) ?S)" .
  have "fw_block_size fw \<le> 65536" using fw(1) by (simp add: fw_ok_def)
  then have parse: "fractal_heap_parse d base 8 = Inr ?fh"
    using fractal_heap_parse_enc [of fw d free hcs "enc_block fw cs objs @ drop (iw_header_addr iw) d" 8] dh fw(3,4) lend buf iw
    by simp
  have block: "drop (fw_block_addr fw) d = enc_block fw cs objs @ drop (iw_header_addr iw) d"
    using arg_cong [OF dh, of "drop 146"] by (simp add: fw(4) add.commute)
  have item: "heap_link c ?fh ctx (?hid i) = Some (Inr (Some (read_link m)))" if im: "(i, m) \<in> set ?S" for i m
  proof -
    have i: "i < length links" "m = links ! i" using im by (auto simp: in_set_enumerate_eq)
    have bytes: "link_to_bytes m = Inr (objs ! i)"
      using patched(2) i len by (auto simp: map_res_Inr_iff dest: list_all2_nthD)
    have n: "sizes ! i = length (objs ! i)" "i < length (fw_sizes fw)" using i len sizes fw(2) by simp_all
    have small: "length (objs ! i) \<le> 65535" using fw(1) n(1) nth_mem [OF n(2)] fw(2) unfolding fw_ok_def by metis
    have hid: "parse_heap_id ?fh (?hid i) = Inr (21 + sum_list (take i sizes), sizes ! i)"
      using parse_heap_id_enc [OF fw(1) n(2)] fw(2) by simp
    have "read_object c ?fh (21 + sum_list (take i sizes)) (sizes ! i) = Some (Inr (objs ! i))"
      using read_object_enc [OF fw(1) _ _ block, of i c 8] fw(2) sizes i len lend buf by simp
    moreover have "parse_link (objs ! i) ctx = Inr (read_link m)"
      using link_to_bytes_parse [OF bytes, of ctx "[]"] wf(1) [of m] i ctx small by (simp add: read_link_def)
    moreover have "sizes ! i \<noteq> 0" using link_to_bytes_size [OF bytes] n by simp
    ultimately show ?thesis using hid by (simp add: heap_link_def)
  qed
  have "heap_links c ?fh ctx (map (\<lambda>(i, m). ?hid i) ?S) [] = Some (Inr ([] @ map (\<lambda>(i, m). read_link m) ?S))"
    using item by (intro heap_links_all) auto
  moreover have "map (\<lambda>(i, m). read_link m) ?S = map read_link (sort_key link_key links)"
  proof -
    have "sort_key link_key links = sort_key link_key (map snd (enumerate 0 links))" by simp
    also have "\<dots> = map snd ?S" unfolding sort_key_map by (simp add: case_prod_unfold)
    finally show ?thesis by (simp add: case_prod_unfold)
  qed
  ultimately have "dense_links c d base (iw_header_addr iw) ctx = Some (Inr (map read_link (sort_key link_key links)))"
    using parse ids ctx by (simp add: dense_links_def heap_of_def)
  then show ?thesis using emit fw(3) by (auto simp: fw_def iw_def)
qed

text \<open>
  C14. A dense group is readable: the links the writer plans, places and emits as a fractal heap and
  a name index, at any place in the file, are what listing the group through that heap and index
  returns, in the order of the hashes of their names. The plan may be made from messages whose
  addresses are not final, as long as names and sizes stay.
\<close>

theorem dense_links_round_trip:
  assumes "plan_dense links0 = Inr ds0" and "assign_dense base ds0 = Inr (ds, eof)"
    and "map lm_name links = map lm_name links0" "map_res link_to_bytes links = Inr objs"
      "map_res link_body_size links0 = Inr (map length objs)"
    and "\<And>m. m \<in> set links \<Longrightarrow> valid_utf8 (lm_name m) \<and> value_wf (lm_value m)" "links \<noteq> []"
    and "eof \<le> length buf" "length buf \<le> isize_max" "size_of_offsets ctx = 8"
  shows "\<exists>buf'. emit_dense_links buf links ds = Inr buf' \<and>
    dense_links c buf' (fw_header_addr (ds_heap ds)) (iw_header_addr (ds_index ds)) ctx =
      Some (Inr (map read_link (sort_key link_key links)))"
  using assms by (rule emit_dense_links_read)

text \<open>Planning succeeds for messages that are not too many or too large.\<close>

lemma plan_objects_total:
  "c + sum_list sizes < u32_lim \<Longrightarrow> \<forall>n\<in>set sizes. n \<le> 65535 \<Longrightarrow>
   fold_res plan_object sizes (offs, c) = Inr (offs @ object_offsets c sizes, c + sum_list sizes)"
proof (induction sizes arbitrary: offs c)
  case (Cons n sizes)
  then have "plan_object n (offs, c) = Inr (offs @ [c], c + n)" by (simp add: plan_object_Inr)
  then show ?case using Cons.IH [of "c + n" "offs @ [c]"] Cons.prems by (simp add: add.assoc)
qed simp

lemma grow_block_total: "c \<le> 65536 \<Longrightarrow> \<exists>b. grow_block c 512 = Inr b"
  by (simp add: grow_block.simps [of c 512] grow_block.simps [of c 1024] grow_block.simps [of c 2048]
      grow_block.simps [of c 4096] grow_block.simps [of c 8192] grow_block.simps [of c 16384]
      grow_block.simps [of c 32768] grow_block.simps [of c 65536])

lemma ni_plan_total:
  assumes "\<forall>(nm, hid)\<in>set entries. length hid = 7" "length entries < 65536"
  shows "\<exists>w. ni_plan entries = Inr w"
proof -
  define k where "k = (case entries of [] \<Rightarrow> 0 | (_, hid) # _ \<Rightarrow> length (hid :: bytes))"
  have k: "k \<le> 7" "\<not> list_ex (\<lambda>(_, hid). length hid \<noteq> k) entries"
    using assms(1) by (cases entries; auto simp: k_def list_ex_iff)+
  have "length entries * (4 + k) \<le> 65536 * 11" using assms(2) k(1) by (intro mult_le_mono) simp_all
  moreover from this have "div_ceil (10 + length entries * (4 + k)) 512 \<le> 720906 div 512 + 1"
    unfolding div_ceil_def by (intro add_mono div_le_mono) auto
  ultimately show ?thesis
    using k assms(2) unfolding ni_plan_def Let_def k_def [symmetric] by (simp add: narrow_def)
qed

lemma plan_dense_total:
  assumes "map_res link_body_size links = Inr sizes" "21 + sum_list sizes \<le> 65536" "\<forall>n\<in>set sizes. n \<le> 65535" "length links < 65536"
  shows "\<exists>ds. plan_dense links = Inr ds"
proof -
  obtain b where "grow_block (21 + sum_list sizes) 512 = Inr b" using grow_block_total [OF assms(2)] ..
  then obtain heap where heap: "fh_plan sizes = Inr heap"
    using plan_objects_total [of 21 sizes "[]"] assms(2,3) by (simp add: fh_plan_def)
  have len: "length sizes = length links" using map_res_length [OF assms(1)] .
  have h: "fw_ok heap" "fw_sizes heap = sizes" using fh_plan_ok [OF heap] by auto
  let ?e = "map (\<lambda>(i, m). (lm_name m, enc_heap_id (21 + sum_list (take i sizes)) (sizes ! i))) (enumerate 0 links)"
  have e: "map_res (\<lambda>(i, m). and_then (fh_heap_id heap i) (\<lambda>hid. Inr (lm_name m, hid))) (enumerate 0 links) = Inr ?e"
    using h len by (intro map_res_total) (auto simp: in_set_enumerate_eq fh_heap_id_enc)
  have "\<exists>w. ni_plan ?e = Inr w" using assms(4) by (intro ni_plan_total) auto
  then show ?thesis using assms(1) heap e by (auto simp: plan_dense_def)
qed

lemma assign_dense_total:
  assumes "plan_dense links = Inr ds0" "base < u32_lim"
  shows "\<exists>ds eof. assign_dense base ds0 = Inr (ds, eof) \<and> eof < 2 ^ 40"
proof -
  obtain sizes where p: "fw_ok (ds_heap ds0)" "iw_node_size (ds_index ds0) < u32_lim"
    by (rule plan_dense_ok [OF assms(1)]) blast
  let ?bs = "fw_block_size (ds_heap ds0)"
  have bs: "8 dvd ?bs" "?bs \<le> 65536" using p(1) by (simp_all add: fw_ok_def)
  then have "pad8 ?bs = Inr ?bs" by (simp add: pad8_align8 align8_id)
  then show ?thesis using assms(2) p(2) bs
    by (simp add: assign_dense_def fh_assign_def fh_bytes_def ni_assign_def ni_bytes_def)
qed

definition sample_link :: link_msg where
  "sample_link = \<lparr>lm_name = [0x61], lm_value = Value_Hard 4096, lm_creation_order = None\<rparr>"

theorem dense_links_round_trip_witness:
  "\<forall>c. \<exists>ds0 ds eof. plan_dense [sample_link] = Inr ds0 \<and> assign_dense 800 ds0 = Inr (ds, eof) \<and>
    (\<exists>buf'. emit_dense_links (replicate eof 0) [sample_link] ds = Inr buf' \<and>
      dense_links c buf' (fw_header_addr (ds_heap ds)) (iw_header_addr (ds_index ds)) default_v0 =
        Some (Inr [\<lparr>link_name = [0x61], link_target = Link_Hard 4096\<rparr>]))"
proof (rule allI)
  fix c
  obtain bs where bs: "link_to_bytes sample_link = Inr bs"
    using link_to_bytes_total [of sample_link] by (auto simp: sample_link_def)
  have "length bs \<le> 1000"
    by (rule link_to_bytes_enc [OF bs]) (simp add: sample_link_def enc_link_def name_len_width_def split: if_splits)
  then have size: "map_res link_body_size [sample_link] = Inr (map length [bs])" "length bs \<le> 1000"
    using link_to_bytes_size [OF bs] by simp_all
  obtain ds0 where plan: "plan_dense [sample_link] = Inr ds0" using plan_dense_total [OF size(1)] size(2) by auto
  obtain ds eof where place: "assign_dense 800 ds0 = Inr (ds, eof)" "eof < 2 ^ 40"
    using assign_dense_total [OF plan, of 800] by auto
  have objs: "map_res link_to_bytes [sample_link] = Inr [bs]" by (simp add: bs)
  have "sort_key link_key [sample_link] = [sample_link]" by (simp add: sort_key_def)
  then have "\<exists>buf'. emit_dense_links (replicate eof 0) [sample_link] ds = Inr buf' \<and>
      dense_links c buf' (fw_header_addr (ds_heap ds)) (iw_header_addr (ds_index ds)) default_v0 =
        Some (Inr [\<lparr>link_name = [0x61], link_target = Link_Hard 4096\<rparr>])"
    using dense_links_round_trip [OF plan place(1) refl objs size(1), of "replicate eof 0" default_v0 c] place(2)
    by (simp add: sample_link_def read_link_def default_v0_def)
  then show "\<exists>ds0 ds eof. plan_dense [sample_link] = Inr ds0 \<and> assign_dense 800 ds0 = Inr (ds, eof) \<and>
    (\<exists>buf'. emit_dense_links (replicate eof 0) [sample_link] ds = Inr buf' \<and>
      dense_links c buf' (fw_header_addr (ds_heap ds)) (iw_header_addr (ds_index ds)) default_v0 =
        Some (Inr [\<lparr>link_name = [0x61], link_target = Link_Hard 4096\<rparr>]))"
    using plan place(1) by blast
qed

text \<open>
  The reader looks for the maximal size of managed objects at byte 8 of the heap header, two bytes
  before the place where the writer and libhdf5 put it; the value is not used.
\<close>

theorem managed_size_misread:
  assumes "drop (fw_header_addr w) d = enc_heap_header w free hcs @ rest" "length d \<le> isize_max"
    "fw_block_size w < u64_lim" "fw_block_addr w < u64_lim"
  shows "\<exists>h. fractal_heap_parse d (fw_header_addr w) soo = Inr h \<and> max_managed_obj_size h = 512 \<and>
    field 4 d (fw_header_addr w + 10) = 65536"
proof -
  have "field 4 d (fw_header_addr w + 10) = 65536"
    unfolding field_drop assms(1) by (simp add: enc_heap_header_def field_eval del: to_le.simps)
  then show ?thesis using fractal_heap_parse_enc [OF assms] by (simp add: heap_of_def)
qed

end
