(* ===== verification/Write_Attr.thy ===== *)
theory Write_Attr
  imports Write_Dtype Messages Global_Heap
begin

text \<open>
  Attributes of the writer: the rest of \<^verbatim>\<open>oxih5/src/write/el.rs\<close>. An attribute is declared with
  object references by name (\<open>attr_kind\<close>), resolved to a form whose size is known
  (\<open>resolved_kind\<close>), given the addresses of its targets and of its heap objects, and written as
  a message of version 1. The encodings are read back by \<open>parse_attribute\<close> of theory \<open>Messages\<close>,
  and the references of a \<^verbatim>\<open>DIMENSION_LIST\<close> are followed into the global heap.
\<close>

section \<open>Declared and resolved attributes\<close>

text \<open>Floats and signed integers are their bit patterns; addresses and indices are naturals.\<close>

datatype attr_kind =
    AK_FixedStr str
  | AK_FixedStrNullTerm str
  | AK_F64 "64 word"
  | AK_I64 "64 word"
  | AK_I32 "32 word"
  | AK_F64Array "64 word list"
  | AK_I64Array "64 word list"
  | AK_StrArray "str list"
  | AK_ObjRefsByName "str list"
  | AK_Num elem_type bytes
  | AK_NumArray elem_type bytes
  | AK_VlenObjRefsByName "str list list"
  | AK_RefIndexList "(str \<times> nat) list"
  | AK_FillValue bytes
  | AK_CompactLayout bytes

record attr_desc =
  ad_name :: str
  ad_kind :: attr_kind

record vlen_obj_ref_elem =
  ve_addrs :: "nat list"
  ve_heap_addr :: nat
  ve_heap_idx :: nat
  ve_ordinal :: nat

datatype resolved_kind =
    FixedStr_a str
  | FixedStrNullTerm_a str
  | F64_a "64 word"
  | I64_a "64 word"
  | I32_a "32 word"
  | F64Array_a "64 word list"
  | I64Array_a "64 word list"
  | StrArray_a "str list" nat
  | ObjRefs_a "str list" "nat list"
  | Num_a elem_type bytes
  | NumArray_a elem_type bytes
  | VlenObjRefs_a "str list list" "vlen_obj_ref_elem list"
  | RefIndexList_a "(str \<times> nat) list" "nat list"

record resolved_attr =
  ra_name :: str
  ra_kind :: resolved_kind

record attr_sizes =
  as_dtype :: nat
  as_dspace :: nat
  as_data :: nat

text \<open>The two side channels of a dataset's attribute list.\<close>

fun find_map :: "('a \<Rightarrow> 'b option) \<Rightarrow> 'a list \<Rightarrow> 'b option" where
  "find_map f [] = None"
| "find_map f (x # xs) = (case f x of Some y \<Rightarrow> Some y | None \<Rightarrow> find_map f xs)"

definition fill_value_bytes :: "attr_desc list \<Rightarrow> bytes option" where
  "fill_value_bytes attrs =
     find_map (\<lambda>attr. case ad_kind attr of AK_FillValue le_bytes \<Rightarrow> Some le_bytes | _ \<Rightarrow> None) attrs"

definition compact_layout_data :: "attr_desc list \<Rightarrow> bytes option" where
  "compact_layout_data attrs =
     find_map (\<lambda>attr. case ad_kind attr of AK_CompactLayout dat \<Rightarrow> Some dat | _ \<Rightarrow> None) attrs"

section \<open>Widths and sizes\<close>

abbreviation (input) SCALAR_DSPACE_BODY :: nat where "SCALAR_DSPACE_BODY \<equiv> 8"
abbreviation (input) VECTOR_DSPACE_BODY :: nat where "VECTOR_DSPACE_BODY \<equiv> 24"
abbreviation (input) ATTR_BODY_PREFIX :: nat where "ATTR_BODY_PREFIX \<equiv> 8"
abbreviation (input) UNDEFINED_ADDR :: nat where "UNDEFINED_ADDR \<equiv> u64_max"

definition fixed_str_width :: "str \<Rightarrow> nat" where
  "fixed_str_width s = max (length s) 1"

definition nullterm_str_width :: "str \<Rightarrow> nat" where
  "nullterm_str_width s = length s + 1"

definition str_array_width :: "str list \<Rightarrow> nat" where
  "str_array_width values = max (fold max (map length values) 0) 1"

definition vector_len :: "resolved_kind \<Rightarrow> nat option res" where
  "vector_len k =
     (case k of
        F64Array_a values \<Rightarrow> Inr (Some (length values))
      | I64Array_a values \<Rightarrow> Inr (Some (length values))
      | StrArray_a values _ \<Rightarrow> Inr (Some (length values))
      | ObjRefs_a _ addrs \<Rightarrow> Inr (Some (length addrs))
      | NumArray_a el bs \<Rightarrow> and_then (udiv (length bs) (byte_size el)) (\<lambda>n. Inr (Some n))
      | VlenObjRefs_a _ els \<Rightarrow> Inr (Some (length els))
      | RefIndexList_a pairs _ \<Rightarrow> Inr (Some (length pairs))
      | _ \<Rightarrow> Inr None)"

definition dtype_data_sizes :: "resolved_kind \<Rightarrow> (nat \<times> nat) res" where
  "dtype_data_sizes k =
     (let sized = (\<lambda>body n w. and_then (umul n w) (\<lambda>m. Inr (body, m))) in
      case k of
        FixedStr_a s \<Rightarrow> Inr (STRING_DT_BODY, fixed_str_width s)
      | FixedStrNullTerm_a s \<Rightarrow> Inr (STRING_DT_BODY, nullterm_str_width s)
      | F64_a _ \<Rightarrow> Inr (FLOAT_DT_BODY, 8)
      | I64_a _ \<Rightarrow> Inr (FIXED_DT_BODY, 8)
      | I32_a _ \<Rightarrow> Inr (FIXED_DT_BODY, 4)
      | F64Array_a values \<Rightarrow> sized FLOAT_DT_BODY (length values) 8
      | I64Array_a values \<Rightarrow> sized FIXED_DT_BODY (length values) 8
      | StrArray_a values width \<Rightarrow> sized STRING_DT_BODY (length values) width
      | ObjRefs_a _ addrs \<Rightarrow> sized REF_DT_BODY (length addrs) 8
      | Num_a el bs \<Rightarrow> Inr (dt_body_size el, length bs)
      | NumArray_a el bs \<Rightarrow> Inr (dt_body_size el, length bs)
      | VlenObjRefs_a _ els \<Rightarrow> sized VLEN_REF_DT_BODY (length els) VLEN_REF_SIZE
      | RefIndexList_a pairs _ \<Rightarrow> sized REF_INDEX_DT_BODY (length pairs) REF_INDEX_ELEM)"

definition kind_sizes :: "resolved_kind \<Rightarrow> attr_sizes res" where
  "kind_sizes k =
     and_then (vector_len k) (\<lambda>v.
     and_then (dtype_data_sizes k) (\<lambda>(dt, dat).
       Inr \<lparr>as_dtype = dt, as_dspace = (case v of None \<Rightarrow> SCALAR_DSPACE_BODY | Some _ \<Rightarrow> VECTOR_DSPACE_BODY),
            as_data = dat\<rparr>))"

definition attr_body_size :: "resolved_attr \<Rightarrow> nat res" where
  "attr_body_size a =
     and_then (kind_sizes (ra_kind a)) (\<lambda>sizes.
     and_then (pad8 (length (ra_name a) + 1)) (\<lambda>nm.
     and_then (uadd ATTR_BODY_PREFIX nm) (\<lambda>n.
     and_then (pad8 (as_dtype sizes)) (\<lambda>dt.
     and_then (uadd n dt) (\<lambda>n.
     and_then (pad8 (as_dspace sizes)) (\<lambda>ds.
     and_then (uadd n ds) (\<lambda>n.
       uadd n (as_data sizes))))))))"

section \<open>The message body\<close>

definition write_dtype_body :: "resolved_attr \<Rightarrow> bytes \<Rightarrow> nat \<Rightarrow> (bytes \<times> nat) res" where
  "write_dtype_body a buf start =
     (case ra_kind a of
        FixedStr_a s \<Rightarrow>
          and_then (narrow u32_lim (fixed_str_width s)) (\<lambda>w. write_string_dtype buf start w NullPad Utf8)
      | FixedStrNullTerm_a s \<Rightarrow>
          and_then (narrow u32_lim (nullterm_str_width s)) (\<lambda>w. write_string_dtype buf start w NullTerm Ascii)
      | StrArray_a _ width \<Rightarrow>
          and_then (narrow u32_lim width) (\<lambda>w. write_string_dtype buf start w NullPad Utf8)
      | F64_a _ \<Rightarrow> write_float_dtype buf start 8 Little
      | F64Array_a _ \<Rightarrow> write_float_dtype buf start 8 Little
      | I64_a _ \<Rightarrow> write_fixed_dtype buf start 8 True Little
      | I64Array_a _ \<Rightarrow> write_fixed_dtype buf start 8 True Little
      | I32_a _ \<Rightarrow> write_fixed_dtype buf start 4 True Little
      | ObjRefs_a _ _ \<Rightarrow> write_ref_dtype buf start
      | Num_a el _ \<Rightarrow> write_datatype_body buf start el
      | NumArray_a el _ \<Rightarrow> write_datatype_body buf start el
      | VlenObjRefs_a _ _ \<Rightarrow> write_vlen_ref_dtype buf start
      | RefIndexList_a _ _ \<Rightarrow> write_ref_index_dtype buf start)"

definition write_dspace_body :: "resolved_attr \<Rightarrow> bytes \<Rightarrow> nat \<Rightarrow> (bytes \<times> nat) res" where
  "write_dspace_body a buf start =
     and_then (vector_len (ra_kind a)) (\<lambda>v.
       case v of
         Some n \<Rightarrow>
           and_then (fill_zero buf start VECTOR_DSPACE_BODY) (\<lambda>buf.
           and_then (put_elem buf start 0x01) (\<lambda>buf.
           and_then (put_elem buf (start + 1) 0x01) (\<lambda>buf.
           and_then (put_elem buf (start + 2) 0x01) (\<lambda>buf.
           and_then (write_u64_le buf (start + 8) n) (\<lambda>buf.
           and_then (write_u64_le buf (start + 16) n) (\<lambda>buf.
             Inr (buf, VECTOR_DSPACE_BODY)))))))
       | None \<Rightarrow>
           and_then (fill_zero buf start SCALAR_DSPACE_BODY) (\<lambda>buf.
           and_then (put_elem buf start 0x01) (\<lambda>buf.
             Inr (buf, SCALAR_DSPACE_BODY))))"

text \<open>One reference of a variable-length attribute; an unplaced sequence is an error.\<close>

definition write_vlen_ref :: "nat \<Rightarrow> nat \<times> vlen_obj_ref_elem \<Rightarrow> bytes \<Rightarrow> bytes res" where
  "write_vlen_ref start = (\<lambda>(i, el) buf.
     if ve_addrs el \<noteq> [] \<and> ve_heap_addr el = UNDEFINED_ADDR then Inl Format
     else
       let base = start + i * VLEN_REF_SIZE in
       and_then (narrow u32_lim (length (ve_addrs el))) (\<lambda>n.
       and_then (write_u32_le buf base n) (\<lambda>buf.
       and_then (write_u64_le buf (base + 4) (ve_heap_addr el)) (\<lambda>buf.
         write_u32_le buf (base + 12) (ve_heap_idx el)))))"

definition write_ref_index :: "nat \<Rightarrow> nat \<times> (str \<times> nat) \<times> nat \<Rightarrow> bytes \<Rightarrow> bytes res" where
  "write_ref_index start = (\<lambda>(i, (_, idx), addr) buf.
     let base = start + i * REF_INDEX_ELEM in
     and_then (write_u64_le buf base addr) (\<lambda>buf.
       write_u32_le buf (base + 8) idx))"

definition write_data :: "resolved_attr \<Rightarrow> bytes \<Rightarrow> nat \<Rightarrow> (bytes \<times> nat) res" where
  "write_data a buf start =
     (let words = (\<lambda>values.
            and_then (fold_res (\<lambda>(i, v) buf. put_range buf (start + i * 8) (to_le 8 (unat v)))
                (enumerate 0 (values :: 64 word list)) buf) (\<lambda>buf.
            and_then (umul (length values) 8) (\<lambda>n. Inr (buf, n)))) in
      case ra_kind a of
        FixedStr_a s \<Rightarrow> and_then (put_range buf start s) (\<lambda>buf. Inr (buf, fixed_str_width s))
      | FixedStrNullTerm_a s \<Rightarrow> and_then (put_range buf start s) (\<lambda>buf. Inr (buf, nullterm_str_width s))
      | F64_a v \<Rightarrow> and_then (put_range buf start (to_le 8 (unat v))) (\<lambda>buf. Inr (buf, 8))
      | I64_a v \<Rightarrow> and_then (put_range buf start (to_le 8 (unat v))) (\<lambda>buf. Inr (buf, 8))
      | I32_a v \<Rightarrow> and_then (put_range buf start (to_le 4 (unat v))) (\<lambda>buf. Inr (buf, 4))
      | F64Array_a values \<Rightarrow> words values
      | I64Array_a values \<Rightarrow> words values
      | StrArray_a values width \<Rightarrow>
          and_then (fold_res (\<lambda>(i, s) buf. put_range buf (start + i * width) s) (enumerate 0 values) buf) (\<lambda>buf.
          and_then (umul (length values) width) (\<lambda>n. Inr (buf, n)))
      | ObjRefs_a _ addrs \<Rightarrow>
          and_then (fold_res (\<lambda>(i, addr) buf. write_u64_le buf (start + i * 8) addr) (enumerate 0 addrs) buf) (\<lambda>buf.
          and_then (umul (length addrs) 8) (\<lambda>n. Inr (buf, n)))
      | Num_a _ bs \<Rightarrow> and_then (put_range buf start bs) (\<lambda>buf. Inr (buf, length bs))
      | NumArray_a _ bs \<Rightarrow> and_then (put_range buf start bs) (\<lambda>buf. Inr (buf, length bs))
      | VlenObjRefs_a _ els \<Rightarrow>
          and_then (fold_res (write_vlen_ref start) (enumerate 0 els) buf) (\<lambda>buf.
          and_then (umul (length els) VLEN_REF_SIZE) (\<lambda>n. Inr (buf, n)))
      | RefIndexList_a pairs addrs \<Rightarrow>
          and_then (fold_res (write_ref_index start) (enumerate 0 (zip pairs addrs)) buf) (\<lambda>buf.
          and_then (umul (length pairs) REF_INDEX_ELEM) (\<lambda>n. Inr (buf, n))))"

definition attr_write_body :: "resolved_attr \<Rightarrow> bytes \<Rightarrow> nat \<Rightarrow> (bytes \<times> nat) res" where
  "attr_write_body a buf start =
     (if ra_name a = [] then Inl Format
      else
        and_then (kind_sizes (ra_kind a)) (\<lambda>sizes.
        let name_size = length (ra_name a) + 1 in
        and_then (fill_zero buf start ATTR_BODY_PREFIX) (\<lambda>buf.
        and_then (put_elem buf start 0x01) (\<lambda>buf.
        and_then (narrow 65536 name_size) (\<lambda>n.
        and_then (write_u16_le buf (start + 2) n) (\<lambda>buf.
        and_then (narrow 65536 (as_dtype sizes)) (\<lambda>n.
        and_then (write_u16_le buf (start + 4) n) (\<lambda>buf.
        and_then (narrow 65536 (as_dspace sizes)) (\<lambda>n.
        and_then (write_u16_le buf (start + 6) n) (\<lambda>buf.
        let pos = start + ATTR_BODY_PREFIX in
        and_then (pad8 name_size) (\<lambda>name_padded.
        and_then (fill_zero buf pos name_padded) (\<lambda>buf.
        and_then (put_range buf pos (ra_name a)) (\<lambda>buf.
        let pos = pos + name_padded in
        and_then (pad8 (as_dtype sizes)) (\<lambda>dtype_padded.
        and_then (fill_zero buf pos dtype_padded) (\<lambda>buf.
        and_then (write_dtype_body a buf pos) (\<lambda>(buf, n).
        and_then (check_size n (as_dtype sizes)) (\<lambda>_.
        let pos = pos + dtype_padded in
        and_then (pad8 (as_dspace sizes)) (\<lambda>dspace_padded.
        and_then (fill_zero buf pos dspace_padded) (\<lambda>buf.
        and_then (write_dspace_body a buf pos) (\<lambda>(buf, n).
        and_then (check_size n (as_dspace sizes)) (\<lambda>_.
        let pos = pos + dspace_padded in
        and_then (fill_zero buf pos (as_data sizes)) (\<lambda>buf.
        and_then (write_data a buf pos) (\<lambda>(buf, n).
        and_then (check_size n (as_data sizes)) (\<lambda>_.
        let pos = pos + as_data sizes in
          Inr (buf, pos - start)))))))))))))))))))))))))"

section \<open>Resolution of names and heap placement\<close>

definition vlen_elem :: "str list \<Rightarrow> vlen_obj_ref_elem" where
  "vlen_elem seq =
     \<lparr>ve_addrs = replicate (length seq) UNDEFINED_ADDR, ve_heap_addr = (if seq = [] then 0 else UNDEFINED_ADDR),
      ve_heap_idx = 0, ve_ordinal = 0\<rparr>"

definition resolve_kind :: "attr_kind \<Rightarrow> resolved_kind option" where
  "resolve_kind k =
     (case k of
        AK_FillValue _ \<Rightarrow> None
      | AK_CompactLayout _ \<Rightarrow> None
      | AK_FixedStr s \<Rightarrow> Some (FixedStr_a s)
      | AK_FixedStrNullTerm s \<Rightarrow> Some (FixedStrNullTerm_a s)
      | AK_F64 v \<Rightarrow> Some (F64_a v)
      | AK_I64 v \<Rightarrow> Some (I64_a v)
      | AK_I32 v \<Rightarrow> Some (I32_a v)
      | AK_F64Array values \<Rightarrow> Some (F64Array_a values)
      | AK_I64Array values \<Rightarrow> Some (I64Array_a values)
      | AK_StrArray values \<Rightarrow> Some (StrArray_a values (str_array_width values))
      | AK_ObjRefsByName names \<Rightarrow> Some (ObjRefs_a names (replicate (length names) UNDEFINED_ADDR))
      | AK_Num el bs \<Rightarrow> Some (Num_a el bs)
      | AK_NumArray el bs \<Rightarrow> Some (NumArray_a el bs)
      | AK_VlenObjRefsByName seqs \<Rightarrow> Some (VlenObjRefs_a seqs (map vlen_elem seqs))
      | AK_RefIndexList pairs \<Rightarrow> Some (RefIndexList_a pairs (replicate (length pairs) UNDEFINED_ADDR)))"

definition resolve_attrs :: "attr_desc list \<Rightarrow> resolved_attr list" where
  "resolve_attrs attrs =
     List.map_filter (\<lambda>attr. case resolve_kind (ad_kind attr) of
        None \<Rightarrow> None | Some k \<Rightarrow> Some \<lparr>ra_name = ad_name attr, ra_kind = k\<rparr>) attrs"

definition resolve_ref :: "str \<Rightarrow> (str \<rightharpoonup> nat) \<Rightarrow> nat res" where
  "resolve_ref name path_to_addr =
     (let key = (case name of c # cs \<Rightarrow> if c = 0x2f then cs else name | [] \<Rightarrow> name) in
      ok_or (path_to_addr key) Format)"

text \<open>Slots paired with names; slots without a name keep their value.\<close>

fun fill_slots :: "(str \<rightharpoonup> nat) \<Rightarrow> nat list \<Rightarrow> str list \<Rightarrow> nat list res" where
  "fill_slots path_to_addr (_ # slots) (name # names) =
     and_then (resolve_ref name path_to_addr) (\<lambda>a. and_then (fill_slots path_to_addr slots names) (\<lambda>as. Inr (a # as)))"
| "fill_slots path_to_addr slots _ = Inr slots"

fun fill_elems :: "(str \<rightharpoonup> nat) \<Rightarrow> vlen_obj_ref_elem list \<Rightarrow> str list list \<Rightarrow> vlen_obj_ref_elem list res" where
  "fill_elems path_to_addr (el # els) (seq # names) =
     and_then (fill_slots path_to_addr (ve_addrs el) seq) (\<lambda>as.
     and_then (fill_elems path_to_addr els names) (\<lambda>es. Inr (el\<lparr>ve_addrs := as\<rparr> # es)))"
| "fill_elems path_to_addr els _ = Inr els"

definition fill_attr_refs :: "(str \<rightharpoonup> nat) \<Rightarrow> resolved_attr \<Rightarrow> resolved_attr res" where
  "fill_attr_refs path_to_addr a =
     (case ra_kind a of
        ObjRefs_a names addrs \<Rightarrow>
          and_then (fill_slots path_to_addr addrs names) (\<lambda>as. Inr (a\<lparr>ra_kind := ObjRefs_a names as\<rparr>))
      | RefIndexList_a pairs addrs \<Rightarrow>
          and_then (fill_slots path_to_addr addrs (map fst pairs)) (\<lambda>as. Inr (a\<lparr>ra_kind := RefIndexList_a pairs as\<rparr>))
      | VlenObjRefs_a names els \<Rightarrow>
          and_then (fill_elems path_to_addr els names) (\<lambda>es. Inr (a\<lparr>ra_kind := VlenObjRefs_a names es\<rparr>))
      | _ \<Rightarrow> Inr a)"

definition fill_obj_refs :: "resolved_attr list \<Rightarrow> (str \<rightharpoonup> nat) \<Rightarrow> resolved_attr list res" where
  "fill_obj_refs attrs path_to_addr = map_res (fill_attr_refs path_to_addr) attrs"

definition vlen_payload :: "vlen_obj_ref_elem \<Rightarrow> bytes" where
  "vlen_payload el = concat (map (to_le 8) (ve_addrs el))"

definition register_elem ::
  "vlen_obj_ref_elem \<Rightarrow> vlen_obj_ref_elem list \<times> global_heap_writer \<Rightarrow> vlen_obj_ref_elem list \<times> global_heap_writer" where
  "register_elem el = (\<lambda>(done_elems, gcol).
     if ve_addrs el = [] then (done_elems @ [el], gcol)
     else
       let (gcol, ord) = heap_write_bytes gcol (vlen_payload el) in
       (done_elems @ [el\<lparr>ve_ordinal := ord\<rparr>], gcol))"

definition register_attr ::
  "resolved_attr \<Rightarrow> resolved_attr list \<times> global_heap_writer \<Rightarrow> resolved_attr list \<times> global_heap_writer" where
  "register_attr a = (\<lambda>(done_attrs, gcol).
     case ra_kind a of
       VlenObjRefs_a names els \<Rightarrow>
         let (els, gcol) = fold register_elem els ([], gcol) in
         (done_attrs @ [a\<lparr>ra_kind := VlenObjRefs_a names els\<rparr>], gcol)
     | _ \<Rightarrow> (done_attrs @ [a], gcol))"

definition register_vlen_objref_heap :: "resolved_attr list \<Rightarrow> global_heap_writer \<Rightarrow> resolved_attr list \<times> global_heap_writer" where
  "register_vlen_objref_heap attrs gcol = fold register_attr attrs ([], gcol)"

definition place_elem :: "nat list \<Rightarrow> heap_object_location list \<Rightarrow> vlen_obj_ref_elem \<Rightarrow> vlen_obj_ref_elem" where
  "place_elem collection_addrs locations el =
     (if ve_ordinal el = 0 then el
      else
        case checked_sub (ve_ordinal el) 1 of
          None \<Rightarrow> el
        | Some z \<Rightarrow>
            (case get_elem locations z of
               None \<Rightarrow> el
             | Some loc \<Rightarrow>
                 (case get_elem collection_addrs (hl_collection loc) of
                    None \<Rightarrow> el
                  | Some addr \<Rightarrow> el\<lparr>ve_heap_addr := addr, ve_heap_idx := hl_index loc\<rparr>)))"

definition fill_vlen_objref_locs ::
  "resolved_attr list \<Rightarrow> nat list \<Rightarrow> heap_object_location list \<Rightarrow> resolved_attr list" where
  "fill_vlen_objref_locs attrs collection_addrs locations =
     map (\<lambda>a. case ra_kind a of
            VlenObjRefs_a names els \<Rightarrow>
              a\<lparr>ra_kind := VlenObjRefs_a names (map (place_elem collection_addrs locations) els)\<rparr>
          | _ \<Rightarrow> a) attrs"


section \<open>The encodings\<close>

definition pad_to :: "nat \<Rightarrow> bytes \<Rightarrow> bytes" where
  "pad_to n bs = bs @ replicate (n - length bs) 0"

definition enc_vlen_ref :: "vlen_obj_ref_elem \<Rightarrow> bytes" where
  "enc_vlen_ref el = to_le 4 (length (ve_addrs el)) @ to_le 8 (ve_heap_addr el) @ to_le 4 (ve_heap_idx el)"

definition enc_ref_index :: "(str \<times> nat) \<times> nat \<Rightarrow> bytes" where
  "enc_ref_index = (\<lambda>((_, idx), addr). to_le 8 addr @ to_le 4 idx)"

definition enc_data :: "resolved_kind \<Rightarrow> bytes" where
  "enc_data k =
     (case k of
        FixedStr_a s \<Rightarrow> pad_to (fixed_str_width s) s
      | FixedStrNullTerm_a s \<Rightarrow> pad_to (nullterm_str_width s) s
      | F64_a v \<Rightarrow> to_le 8 (unat v)
      | I64_a v \<Rightarrow> to_le 8 (unat v)
      | I32_a v \<Rightarrow> to_le 4 (unat v)
      | F64Array_a values \<Rightarrow> concat (map (\<lambda>v. to_le 8 (unat v)) values)
      | I64Array_a values \<Rightarrow> concat (map (\<lambda>v. to_le 8 (unat v)) values)
      | StrArray_a values width \<Rightarrow> concat (map (pad_to width) values)
      | ObjRefs_a _ addrs \<Rightarrow> concat (map (to_le 8) addrs)
      | Num_a _ bs \<Rightarrow> bs
      | NumArray_a _ bs \<Rightarrow> bs
      | VlenObjRefs_a _ els \<Rightarrow> concat (map enc_vlen_ref els)
      | RefIndexList_a pairs addrs \<Rightarrow> concat (map enc_ref_index (zip pairs addrs)))"

definition enc_kind_dtype :: "resolved_kind \<Rightarrow> bytes" where
  "enc_kind_dtype k =
     (case k of
        FixedStr_a s \<Rightarrow> enc_string (fixed_str_width s) NullPad Utf8
      | FixedStrNullTerm_a s \<Rightarrow> enc_string (nullterm_str_width s) NullTerm Ascii
      | StrArray_a _ width \<Rightarrow> enc_string width NullPad Utf8
      | F64_a _ \<Rightarrow> enc_elem_padded F64
      | F64Array_a _ \<Rightarrow> enc_elem_padded F64
      | I64_a _ \<Rightarrow> enc_elem_padded I64
      | I64Array_a _ \<Rightarrow> enc_elem_padded I64
      | I32_a _ \<Rightarrow> enc_elem_padded I32
      | ObjRefs_a _ _ \<Rightarrow> [0x17, 0, 0, 0] @ to_le 4 8
      | Num_a el _ \<Rightarrow> enc_elem_padded el
      | NumArray_a el _ \<Rightarrow> enc_elem_padded el
      | VlenObjRefs_a _ _ \<Rightarrow> VLEN_REF_DT_BODY_BYTES
      | RefIndexList_a _ _ \<Rightarrow> REF_INDEX_DT_BODY_BYTES)"

definition enc_dspace :: "nat option \<Rightarrow> bytes" where
  "enc_dspace v =
     (case v of None \<Rightarrow> [1, 0, 0, 0, 0, 0, 0, 0] | Some n \<Rightarrow> [1, 1, 1, 0, 0, 0, 0, 0] @ to_le 8 n @ to_le 8 n)"

text \<open>What the writer's callers guarantee of a value, and what placement adds.\<close>

definition placed :: "vlen_obj_ref_elem \<Rightarrow> bool" where
  "placed el \<longleftrightarrow> (ve_addrs el = [] \<or> ve_heap_addr el \<noteq> UNDEFINED_ADDR) \<and> length (ve_addrs el) < u32_lim"

definition kind_wf :: "resolved_kind \<Rightarrow> bool" where
  "kind_wf k =
     (case k of
        FixedStr_a s \<Rightarrow> length s < u32_lim
      | FixedStrNullTerm_a s \<Rightarrow> Suc (length s) < u32_lim
      | StrArray_a values width \<Rightarrow> 0 < width \<and> width < u32_lim \<and> (\<forall>s\<in>set values. length s \<le> width)
      | Num_a el bs \<Rightarrow> elem_ok el \<and> length bs = byte_size el
      | NumArray_a el bs \<Rightarrow> elem_ok el \<and> 0 < byte_size el \<and> byte_size el dvd length bs
      | VlenObjRefs_a _ els \<Rightarrow> (\<forall>el\<in>set els. placed el)
      | RefIndexList_a pairs addrs \<Rightarrow> length addrs = length pairs
      | _ \<Rightarrow> True)"

lemma length_pad_to [simp]: "length (pad_to n bs) = max n (length bs)"
  by (simp add: pad_to_def)

lemma length_enc_refs [simp]: "length (enc_vlen_ref el) = 16" "length (enc_ref_index r) = 12"
  by (simp_all add: enc_vlen_ref_def enc_ref_index_def split: prod.splits)

lemma length_blocks [simp]:
  "length (concat (map (\<lambda>v :: 64 word. to_le 8 (unat v)) values)) = length values * 8"
  "length (concat (map (to_le 8) addrs)) = length addrs * 8"
  "length (concat (map enc_vlen_ref els)) = length els * 16"
  "length (concat (map enc_ref_index rs)) = length rs * 12"
  "\<forall>s\<in>set strs. length s \<le> width \<Longrightarrow> length (concat (map (pad_to width) strs)) = length strs * width"
  by (rule length_concat_const; simp add: max.absorb1)+

lemma length_enc_data:
  "kind_wf k \<Longrightarrow> dtype_data_sizes k = Inr (dt, n) \<Longrightarrow> length (enc_data k) = n"
  by (cases k)
    (auto simp: enc_data_def dtype_data_sizes_def Let_def kind_wf_def fixed_str_width_def nullterm_str_width_def max_def)

lemma length_enc_kind_dtype:
  "dtype_data_sizes k = Inr (dt, n) \<Longrightarrow> length (enc_kind_dtype k) = dt"
  by (cases k)
    (auto simp: enc_kind_dtype_def dtype_data_sizes_def Let_def dt_body_size_def VLEN_REF_DT_BODY_BYTES_def REF_INDEX_DT_BODY_BYTES_def)

lemma length_enc_dspace [simp]: "length (enc_dspace v) = (case v of None \<Rightarrow> 8 | Some _ \<Rightarrow> 24)"
  by (simp add: enc_dspace_def split: option.splits)

section \<open>The sections of the body\<close>

lemma fold_res_enumerate: "fold_res f (enumerate 0 xs) s = fold_res (\<lambda>i. f (i, xs ! i)) [0..<length xs] s"
proof -
  have "enumerate 0 xs = map (\<lambda>i. (i, xs ! i)) [0..<length xs]" by (rule nth_equalityI) (simp_all add: nth_enumerate_eq)
  then show ?thesis by (simp add: fold_res_map)
qed

lemma slots:
  assumes "\<And>i x b. x \<in> set xs \<Longrightarrow> zeroed b (base + i * w) w \<Longrightarrow> f (i, x) b = Inr (splice b (base + i * w) (enc x))"
    and "\<And>x. x \<in> set xs \<Longrightarrow> length (enc x) = w" and "zeroed buf base (length xs * w)"
  shows "fold_res f (enumerate 0 xs) buf = Inr (splice buf base (concat (map enc xs)))"
proof -
  have "map enc xs = map (\<lambda>i. enc (xs ! i)) [0..<length xs]" by (rule nth_equalityI) simp_all
  then show ?thesis unfolding fold_res_enumerate using assms
    by (simp, intro slot_loop) simp_all
qed

lemma zeroed_pad:
  assumes "zeroed buf at n" "length bs \<le> n"
  shows "put_range buf at bs = Inr (splice buf at (pad_to n bs))"
proof -
  have "splice buf at bs = splice (splice buf at (replicate n 0)) at bs" using zeroed_eq_splice [OF assms(1)] by simp
  also have "\<dots> = splice buf at (splice (replicate n 0) 0 bs)"
    using splice_inside [of at "replicate n 0" buf 0 bs] assms by (simp add: zeroed_def)
  also have "splice (replicate n 0) 0 bs = pad_to n bs" using assms(2) by (simp add: splice_def pad_to_def)
  finally show ?thesis using assms by (simp add: put_range_def zeroed_def)
qed

lemma pad_to_full: "length bs = n \<Longrightarrow> pad_to n bs = bs"
  by (simp add: pad_to_def)

lemma zeroed_put: "zeroed buf at (length bs) \<Longrightarrow> put_range buf at bs = Inr (splice buf at bs)"
  by (simp add: put_range_def zeroed_def)

text \<open>Fields put one after the other.\<close>

lemma put_two:
  assumes "length xs = n" "p + n + length ys \<le> length buf"
  shows "and_then (put_range buf p xs) (\<lambda>b. put_range b (p + n) ys) = Inr (splice buf p (xs @ ys))"
  using assms splice_append [of p xs ys buf] by (simp add: put_range_def)

lemma write_vlen_ref_enc:
  assumes "placed el" "zeroed buf (start + i * 16) 16"
  shows "write_vlen_ref start (i, el) buf = Inr (splice buf (start + i * 16) (enc_vlen_ref el))"
proof -
  let ?p = "start + i * 16" and ?n = "to_le 4 (length (ve_addrs el))" and ?a = "to_le 8 (ve_heap_addr el)"
    and ?i = "to_le 4 (ve_heap_idx el)"
  have "splice (splice buf ?p ?n) (?p + 4) ?a = splice buf ?p (?n @ ?a)"
    "splice (splice buf ?p (?n @ ?a)) (?p + 12) ?i = splice buf ?p ((?n @ ?a) @ ?i)"
    using assms(2) splice_append [of ?p ?n ?a buf] splice_append [of ?p "?n @ ?a" ?i buf] by (simp_all add: zeroed_def)
  then show ?thesis using assms
    by (simp add: write_vlen_ref_def placed_def zeroed_def narrow_def write_defs put_range_def enc_vlen_ref_def Let_def
        del: to_le.simps)
qed

lemma write_ref_index_enc:
  assumes "zeroed buf (start + i * 12) 12"
  shows "write_ref_index start (i, r) buf = Inr (splice buf (start + i * 12) (enc_ref_index r))"
proof -
  obtain nm idx addr where r: "r = ((nm, idx), addr)" by (metis prod.exhaust)
  show ?thesis using assms put_two [of "to_le 8 addr" 8 "start + i * 12" "to_le 4 idx" buf]
    by (simp add: write_ref_index_def r zeroed_def write_defs enc_ref_index_def Let_def)
qed

lemma write_data_enc:
  assumes "kind_wf (ra_kind a)" "dtype_data_sizes (ra_kind a) = Inr (dt, n)" "zeroed buf start n"
  shows "write_data a buf start = Inr (splice buf start (enc_data (ra_kind a)), n)"
proof -
  have words: "fold_res (\<lambda>(i, v) buf. put_range buf (start + i * 8) (to_le 8 (unat v))) (enumerate 0 vs) buf =
      Inr (splice buf start (concat (map (\<lambda>v. to_le 8 (unat v)) vs)))"
    if "zeroed buf start (length vs * 8)" for vs :: "64 word list"
    by (rule slots [where w = 8]) (use that in \<open>simp_all add: zeroed_put\<close>)
  have strs: "fold_res (\<lambda>(i, s) buf. put_range buf (start + i * width) s) (enumerate 0 vs) buf =
      Inr (splice buf start (concat (map (pad_to width) vs)))"
    if "zeroed buf start (length vs * width)" "\<forall>s\<in>set vs. length s \<le> width" for vs width
    by (rule slots [where w = width]) (use that in \<open>simp_all add: zeroed_pad max.absorb1\<close>)
  have addrs: "fold_res (\<lambda>(i, addr) buf. write_u64_le buf (start + i * 8) addr) (enumerate 0 ks) buf =
      Inr (splice buf start (concat (map (to_le 8) ks)))" if "zeroed buf start (length ks * 8)" for ks
    by (rule slots [where w = 8]) (use that in \<open>simp_all add: zeroed_put write_defs\<close>)
  have vlen: "fold_res (write_vlen_ref start) (enumerate 0 els) buf = Inr (splice buf start (concat (map enc_vlen_ref els)))"
    if "zeroed buf start (length els * 16)" "\<forall>el\<in>set els. placed el" for els
    by (rule slots [where w = 16]) (use that in \<open>simp_all add: write_vlen_ref_enc\<close>)
  have refs: "fold_res (write_ref_index start) (enumerate 0 rs) buf = Inr (splice buf start (concat (map enc_ref_index rs)))"
    if "zeroed buf start (length rs * 12)" for rs
    by (rule slots [where w = 12]) (use that in \<open>simp_all add: write_ref_index_enc\<close>)
  note facts = write_data_def dtype_data_sizes_def enc_data_def Let_def kind_wf_def
  show ?thesis
    by (cases "ra_kind a"; insert assms)
      (auto simp: facts words strs addrs vlen refs zeroed_pad zeroed_put pad_to_full fixed_str_width_def nullterm_str_width_def)
qed


lemma write_dspace_enc:
  assumes "vector_len (ra_kind a) = Inr v" "start + (case v of None \<Rightarrow> 8 | Some _ \<Rightarrow> 24) \<le> length buf"
  shows "write_dspace_body a buf start = Inr (splice buf start (enc_dspace v), case v of None \<Rightarrow> 8 | Some _ \<Rightarrow> 24)"
proof (cases v)
  case None
  then show ?thesis using assms
    by (simp add: write_dspace_body_def fields_at del: to_le.simps) (simp add: region_def enc_dspace_def numeral_eq_Suc del: to_le.simps)
next
  case (Some n)
  then show ?thesis using assms
    by (simp add: write_dspace_body_def fields_at del: to_le.simps) (simp add: region_def enc_dspace_def numeral_eq_Suc del: to_le.simps)
qed

lemma enc_F64: "enc_elem_padded F64 = enc_float 8 11 Little @ replicate 4 0"
  and enc_I64: "enc_elem_padded I64 = enc_fixed 8 True Little @ replicate 4 0"
  and enc_I32: "enc_elem_padded I32 = enc_fixed 4 True Little @ replicate 4 0"
  by (simp_all add: enc_elem_padded_def enc_elem_def dt_body_size_def nested_dt_body_size_def ieee_exp_bits_def)

lemma write_dtype_enc:
  assumes "kind_wf (ra_kind a)" "dtype_data_sizes (ra_kind a) = Inr (dt, n)" "start + dt \<le> length buf"
  shows "write_dtype_body a buf start = Inr (splice buf start (enc_kind_dtype (ra_kind a)), dt)"
  by (cases "ra_kind a"; insert assms)
    (auto simp: write_dtype_body_def dtype_data_sizes_def Let_def kind_wf_def enc_kind_dtype_def narrow_def
      fixed_str_width_def nullterm_str_width_def write_string_enc write_float_enc ieee_exp_bits_def write_fixed_enc
      write_ref_enc write_datatype_enc enc_F64 enc_I64 enc_I32
      write_vlen_ref_dtype_def write_ref_index_dtype_def put_range_def VLEN_REF_DT_BODY_BYTES_def REF_INDEX_DT_BODY_BYTES_def
      simp del: replicate_small)

text \<open>A section written over its zeroed, padded reservation.\<close>

lemma section_written:
  assumes "pos = start + length xs" "pos + n \<le> length buf"
  shows "fill_zero (splice buf start xs) pos n = Inr (splice buf start (xs @ replicate n 0))"
    and "zeroed (splice buf start (xs @ replicate n 0)) pos n"
    and "length enc \<le> n \<Longrightarrow> splice (splice buf start (xs @ replicate n 0)) pos enc = splice buf start (xs @ pad_to n enc)"
proof -
  show "fill_zero (splice buf start xs) pos n = Inr (splice buf start (xs @ replicate n 0))"
    using assms splice_append [of start xs "replicate n 0" buf] by (simp add: fill_zero_def put_range_def)
  show "zeroed (splice buf start (xs @ replicate n 0)) pos n" using assms by (simp add: zeroed_def splice_def)
  show "splice (splice buf start (xs @ replicate n 0)) pos enc = splice buf start (xs @ pad_to n enc)" if "length enc \<le> n"
    using assms that splice_inside [of start "xs @ replicate n 0" buf "length xs" enc]
    by (simp add: splice_def pad_to_def)
qed

definition enc_attr :: "resolved_attr \<Rightarrow> nat option \<Rightarrow> bytes" where
  "enc_attr a v =
     [1, 0] @ to_le 2 (Suc (length (ra_name a))) @ to_le 2 (length (enc_kind_dtype (ra_kind a))) @ to_le 2 (length (enc_dspace v))
     @ pad_to (align8 (Suc (length (ra_name a)))) (ra_name a)
     @ pad_to (align8 (length (enc_kind_dtype (ra_kind a)))) (enc_kind_dtype (ra_kind a))
     @ enc_dspace v @ enc_data (ra_kind a)"

lemma attr_body_size_enc:
  assumes "attr_body_size a = Inr n" "kind_wf (ra_kind a)"
  obtains v dt dat where "vector_len (ra_kind a) = Inr v" "dtype_data_sizes (ra_kind a) = Inr (dt, dat)"
    "length (enc_attr a v) = n" "n = 8 + align8 (Suc (length (ra_name a))) + align8 dt + (case v of None \<Rightarrow> 8 | Some _ \<Rightarrow> 24) + dat"
    "length (ra_name a) + 8 < u64_lim" "dt + 7 < u64_lim"
proof -
  obtain v dt dat where v: "vector_len (ra_kind a) = Inr v" and d: "dtype_data_sizes (ra_kind a) = Inr (dt, dat)"
    and b: "length (ra_name a) + 8 < u64_lim" "dt + 7 < u64_lim"
    and n: "n = 8 + align8 (Suc (length (ra_name a))) + align8 dt + (case v of None \<Rightarrow> 8 | Some _ \<Rightarrow> 24) + dat"
    using assms(1) by (auto simp: attr_body_size_def kind_sizes_def pad8_def align8_def split: option.splits)
  have "length (enc_attr a v) = n"
    using length_enc_data [OF assms(2) d] length_enc_kind_dtype [OF d] n align8_ge [of dt] align8_ge [of "Suc (length (ra_name a))"]
    by (simp add: enc_attr_def max.absorb1)
  then show thesis using v d b n by (rule_tac that)
qed


lemma dtype_size_small: "dtype_data_sizes k = Inr (dt, n) \<Longrightarrow> 0 < dt \<and> dt \<le> 116"
  by (cases k) (auto simp: dtype_data_sizes_def Let_def dt_body_size_def split: elem_spec.splits)

lemma attr_write_body_enc:
  assumes "ra_name a \<noteq> []" "Suc (length (ra_name a)) < 65536" "kind_wf (ra_kind a)" "attr_body_size a = Inr n"
    and "start + n \<le> length buf"
  obtains v where "vector_len (ra_kind a) = Inr v" "length (enc_attr a v) = n"
    "attr_write_body a buf start = Inr (splice buf start (enc_attr a v), n)"
proof -
  obtain v dt dat where v: "vector_len (ra_kind a) = Inr v" and d: "dtype_data_sizes (ra_kind a) = Inr (dt, dat)"
    and l: "length (enc_attr a v) = n"
    and n: "n = 8 + align8 (Suc (length (ra_name a))) + align8 dt + (case v of None \<Rightarrow> 8 | Some _ \<Rightarrow> 24) + dat"
    by (rule attr_body_size_enc [OF assms(4,3)])
  define sp where "sp = (case v of None \<Rightarrow> 8 | Some (_ :: nat) \<Rightarrow> (24 :: nat))"
  have sp: "sp = 8 \<or> sp = 24" "align8 sp = sp" by (auto simp: sp_def align8_def split: option.splits)
  let ?nm = "align8 (Suc (length (ra_name a)))" and ?dt = "align8 dt"
  let ?h = "[1, 0] @ to_le 2 (Suc (length (ra_name a))) @ to_le 2 dt @ to_le 2 sp :: bytes"
  let ?t = "enc_kind_dtype (ra_kind a)"
  let ?x1 = "?h @ pad_to ?nm (ra_name a)"
  let ?x2 = "?x1 @ pad_to ?dt ?t"
  let ?x3 = "?x2 @ enc_dspace v"
  have sz: "kind_sizes (ra_kind a) = Inr \<lparr>as_dtype = dt, as_dspace = sp, as_data = dat\<rparr>"
    using v d by (simp add: kind_sizes_def sp_def)
  have dts: "dt \<le> 116" "dt < 65536" using dtype_size_small [OF d] by auto
  have lt: "length ?t = dt" using length_enc_kind_dtype [OF d] .
  have ld: "length (enc_data (ra_kind a)) = dat" using length_enc_data [OF assms(3) d] .
  have le: "length (ra_name a) \<le> ?nm" "dt \<le> ?dt" using align8_ge [of "Suc (length (ra_name a))"] align8_ge [of dt] by simp_all
  have lens: "length ?h = 8" "length ?x1 = 8 + ?nm" "length ?x2 = 8 + ?nm + ?dt" "length ?x3 = 8 + ?nm + ?dt + sp"
    using le lt by (simp_all add: max.absorb1 sp_def split: option.splits)
  have fits: "start + 8 + ?nm + ?dt + sp + dat \<le> length buf" using assms(5) n by (simp add: sp_def)
  have head: "and_then (fill_zero buf start 8) (\<lambda>b. and_then (put_elem b start 1) (\<lambda>b. and_then (write_u16_le b (start + 2) (Suc (length (ra_name a))))
      (\<lambda>b. and_then (write_u16_le b (start + 4) dt) (\<lambda>b. and_then (write_u16_le b (start + 6) sp) f)))) = f (splice buf start ?h)" for f :: "bytes \<Rightarrow> (bytes \<times> nat) res"
    using fits by (simp add: fields_at del: to_le.simps) (simp add: region_def del: to_le.simps)
  note s1 = section_written [of "start + 8" start ?h ?nm buf]
  note s2 = section_written [of "start + 8 + ?nm" start ?x1 ?dt buf]
  note s3 = section_written [of "start + 8 + ?nm + ?dt" start ?x2 sp buf]
  note s4 = section_written [of "start + 8 + ?nm + ?dt + sp" start ?x3 dat buf]
  have w1: "put_range (splice buf start (?h @ replicate ?nm 0)) (start + 8) (ra_name a) = Inr (splice buf start ?x1)"
    using s1(3) [of "ra_name a"] lens fits le by (simp add: put_range_def)
  have w2: "write_dtype_body a (splice buf start (?x1 @ replicate ?dt 0)) (start + 8 + ?nm) = Inr (splice buf start ?x2, dt)"
    using write_dtype_enc [OF assms(3) d] s2(3) [of ?t] lens fits le lt by simp
  have w3: "write_dspace_body a (splice buf start (?x2 @ replicate sp 0)) (start + 8 + ?nm + ?dt) = Inr (splice buf start ?x3, sp)"
    using write_dspace_enc [OF v] s3(3) [of "enc_dspace v"] lens fits by (simp add: sp_def pad_to_full)
  have w4: "write_data a (splice buf start (?x3 @ replicate dat 0)) (start + 8 + ?nm + ?dt + sp) =
      Inr (splice buf start (?x3 @ enc_data (ra_kind a)), dat)"
    using write_data_enc [OF assms(3) d s4(2)] s4(3) [of "enc_data (ra_kind a)"] lens fits ld by (simp add: pad_to_full)
  have sps: "sp < 65536" using sp(1) by auto
  have pads: "pad8 (Suc (length (ra_name a))) = Inr ?nm" "pad8 dt = Inr ?dt" "pad8 sp = Inr sp"
    using assms(2) dts sp pad8_align8 [of sp] by (auto intro!: pad8_align8)
  have "attr_write_body a buf start = Inr (splice buf start (?x3 @ enc_data (ra_kind a)), n)"
    unfolding attr_write_body_def sz
    using assms(1,2) dts sps s1(1) s2(1) s3(1) s4(1) w1 w2 w3 w4 lens fits n head
    by (simp add: narrow_def pads check_size_def Let_def sp_def [symmetric] del: to_le.simps append.simps append_assoc)
  moreover have "?x3 @ enc_data (ra_kind a) = enc_attr a v" by (simp add: enc_attr_def lt sp_def)
  ultimately show thesis using that v l by simp
qed


section \<open>Reading attributes back\<close>

definition ascii_dataset :: str where "ascii_dataset = [0x64, 0x61, 0x74, 0x61, 0x73, 0x65, 0x74]"
definition ascii_dimension :: str where "ascii_dimension = [0x64, 0x69, 0x6d, 0x65, 0x6e, 0x73, 0x69, 0x6f, 0x6e]"

text \<open>The type and the shape under which the reader returns a value.\<close>

definition kind_dtype :: "resolved_kind \<Rightarrow> dtype" where
  "kind_dtype k =
     (case k of
        FixedStr_a s \<Rightarrow> String (Some (fixed_str_width s)) Utf8
      | FixedStrNullTerm_a s \<Rightarrow> String (Some (nullterm_str_width s)) Ascii
      | StrArray_a _ width \<Rightarrow> String (Some width) Utf8
      | F64_a _ \<Rightarrow> Float 8 Little
      | F64Array_a _ \<Rightarrow> Float 8 Little
      | I64_a _ \<Rightarrow> Int_t 8 True Little
      | I64Array_a _ \<Rightarrow> Int_t 8 True Little
      | I32_a _ \<Rightarrow> Int_t 4 True Little
      | ObjRefs_a _ _ \<Rightarrow> Reference Object
      | Num_a el _ \<Rightarrow> dtype_of el
      | NumArray_a el _ \<Rightarrow> dtype_of el
      | VlenObjRefs_a _ _ \<Rightarrow> VarLen (Reference Object)
      | RefIndexList_a _ _ \<Rightarrow>
          Compound [CompoundField ascii_dataset 0 (Reference Object), CompoundField ascii_dimension 8 (Int_t 4 False Little)])"

definition dspace_of :: "nat option \<Rightarrow> dataspace" where
  "dspace_of v = (case v of None \<Rightarrow> Scalar | Some n \<Rightarrow> Simple [n] (Some [n]))"

lemma parse_ref: "depth \<le> 32 \<Longrightarrow> parse_datatype_consuming ([0x17, 0, 0, 0, 8, 0, 0, 0] @ rest) depth = Inr (Reference Object, 8)"
  unfolding parse_datatype_consuming.simps [of _ depth]
  by (simp add: index_def get_elem_def dt_read_u32_le_eq field_def Let_def)

lemma parse_vlen_ref: "parse_datatype VLEN_REF_DT_BODY_BYTES = Inr (VarLen (Reference Object))"
proof -
  have d: "drop 8 VLEN_REF_DT_BODY_BYTES = [0x17, 0, 0, 0, 8, 0, 0, 0] @ []" by (simp add: VLEN_REF_DT_BODY_BYTES_def)
  have "parse_datatype_consuming (drop 8 VLEN_REF_DT_BODY_BYTES) (Suc 0) = Inr (Reference Object, 8)"
    unfolding d by (rule parse_ref) simp
  then show ?thesis unfolding parse_datatype_def parse_datatype_consuming.simps [of _ 0]
    by (simp add: VLEN_REF_DT_BODY_BYTES_def parse_vlen_def index_def get_elem_def dt_read_u32_le_eq field_def Let_def)
qed


lemma parse_ref_index: "parse_datatype REF_INDEX_DT_BODY_BYTES = Inr (kind_dtype (RefIndexList_a pairs addrs))"
proof -
  let ?rec = "\<lambda>b. parse_datatype_consuming b (Suc 0)" and ?body = REF_INDEX_DT_BODY_BYTES
  let ?f2 = "Int_t 4 False Little"
  let ?z = "[0, 0, 0, 0, 0, 0, 0, 0, 0, 0, 0, 0, 0, 0, 0, 0, 0, 0, 0, 0, 0, 0, 0, 0, 0, 0, 0, 0] :: bytes"
  have l: "length ?body = 116" by (simp add: REF_INDEX_DT_BODY_BYTES_def)
  have z: "to_le 4 0 = [0, 0, 0, 0]" "to_le 4 8 = [8, 0, 0, 0]" by (simp_all add: le_eval)
  have u: "valid_utf8 ascii_dataset" "valid_utf8 ascii_dimension" "0 \<notin> set ascii_dataset" "0 \<notin> set ascii_dimension"
    by (simp_all add: ascii_dataset_def ascii_dimension_def)
  have e: "enc_fixed 4 False Little = [0x10, 0, 0, 0, 4, 0, 0, 0, 0, 0, 0x20, 0]"
    by (simp add: enc_fixed_def byte_order_bit_def le_eval)
  have r7: "replicate 7 (0 :: byte) = [0, 0, 0, 0, 0, 0, 0]" by (simp add: numeral_eq_Suc)
  have nm: "enc_name ascii_dataset = ascii_dataset @ [0]" "enc_name ascii_dimension = ascii_dimension @ [0, 0, 0, 0, 0, 0, 0]"
    by (simp_all add: enc_name_def ascii_dataset_def ascii_dimension_def align8_def r7)
  have d1: "drop 8 ?body = enc_name ascii_dataset @ to_le 4 0 @ ?z @ [0x17, 0, 0, 0, 8, 0, 0, 0] @ drop 56 ?body"
    unfolding nm by (simp add: REF_INDEX_DT_BODY_BYTES_def ascii_dataset_def z)
  have d2: "drop 56 ?body = enc_name ascii_dimension @ to_le 4 8 @ ?z @ enc_fixed 4 False Little @ []"
    unfolding nm by (simp add: REF_INDEX_DT_BODY_BYTES_def ascii_dimension_def z e)
  have m1: "compound_member ?rec ?body 1 (8, []) = Inr (56, [CompoundField ascii_dataset 0 (Reference Object)])"
    using compound_member_enc [OF d1 _ _ _ u(1,3), of ?rec "Reference Object" "[]"] l parse_ref [of "Suc 0"]
    by (simp add: ascii_dataset_def align8_def)
  have m2: "compound_member ?rec ?body 1 (56, acc) = Inr (116, acc @ [CompoundField ascii_dimension 8 ?f2])" for acc
    using compound_member_enc [OF d2 _ _ _ u(2,4), of ?rec ?f2 acc] l parse_fixed [of 4 "Suc 0" False Little "[]"]
    by (simp add: ascii_dimension_def align8_def e)
  have "member_count ?body = Inr 2" by (simp add: member_count_def REF_INDEX_DT_BODY_BYTES_def index_def get_elem_def)
  then have c: "parse_compound ?rec ?body 1 = Inr (kind_dtype (RefIndexList_a pairs addrs), 116)"
    using m1 m2 by (simp add: parse_compound_def upt_rec kind_dtype_def)
  have "?body ! 0 = 0x16" "dt_read_u32_le ?body 4 = Inr 12" "?body ! 1 = 2"
    by (simp_all add: REF_INDEX_DT_BODY_BYTES_def dt_read_u32_le_eq field_def)
  then show ?thesis unfolding parse_datatype_def parse_datatype_consuming.simps [of _ 0] using c l
    by (simp add: index_def get_elem_def Let_def)
qed


lemma parse_string_type: "len < u32_lim \<Longrightarrow> parse_datatype (enc_string len pad cs) = Inr (String (Some len) cs)"
  using parse_string [of len 0 pad cs "[]"] by (simp add: parse_datatype_def)

lemma to_le_4_8: "to_le 4 8 = [8, 0, 0, 0]"
  by (simp add: le_eval)

lemma parse_simple_types:
  "parse_datatype [0x17, 0, 0, 0, 8, 0, 0, 0] = Inr (Reference Object)"
  "parse_datatype (enc_elem_padded F64) = Inr (Float 8 Little)"
  "parse_datatype (enc_elem_padded I64) = Inr (Int_t 8 True Little)"
  "parse_datatype (enc_elem_padded I32) = Inr (Int_t 4 True Little)"
  using parse_ref [of 0 "[]"] by (simp_all add: parse_enc_elem_padded elem_ok_def dtype_of_def) (simp add: parse_datatype_def)

lemma parse_enc_kind: "kind_wf k \<Longrightarrow> parse_datatype (enc_kind_dtype k) = Inr (kind_dtype k)"
proof (cases k)
  case (RefIndexList_a pairs addrs)
  then show ?thesis using parse_ref_index by (simp add: enc_kind_dtype_def)
qed (auto simp: enc_kind_dtype_def kind_dtype_def kind_wf_def parse_string_type parse_enc_elem_padded parse_simple_types
    fixed_str_width_def nullterm_str_width_def parse_vlen_ref to_le_4_8)

lemma parse_enc_dspace:
  assumes "\<And>n. v = Some n \<Longrightarrow> n < u64_lim"
  shows "parse_dataspace_rich (enc_dspace v) = Inr (dspace_of v)"
proof (cases v)
  case None
  then show ?thesis
    by (simp add: parse_dataspace_rich_def enc_dspace_def dataspace_header_def dspace_of_def index_def get_elem_def)
next
  case (Some n)
  have r: "read_u64_le (enc_dspace v) 8 = Inr n" "read_u64_le (enc_dspace v) 16 = Inr n"
    using assms Some by (simp_all add: read_u64_le_eq enc_dspace_def field_eval del: to_le.simps)
  have "dim_list (enc_dspace v) 8 (Suc 0) = Inr [n]" "dim_list (enc_dspace v) 16 (Suc 0) = Inr [n]"
    by (simp_all add: dim_list_def r)
  moreover have "length (enc_dspace v) = 24" "enc_dspace v ! 0 = 1" "enc_dspace v ! 1 = 1" "enc_dspace v ! 2 = 1"
    using Some by (simp_all add: enc_dspace_def)
  moreover have "enc_dspace v \<noteq> []" using Some by (simp add: enc_dspace_def)
  ultimately show ?thesis using Some
    by (simp add: parse_dataspace_rich_def dataspace_header_def dspace_of_def index_def get_elem_def dim_lists_def)
qed

lemma payload_len:
  assumes "kind_wf k" "vector_len k = Inr v" "dtype_data_sizes k = Inr (dt, n)" "n \<le> remaining" "n < u64_lim"
  shows "attr_payload_len (kind_dtype k) (dspace_of v) remaining = Inr n" "\<And>m. v = Some m \<Longrightarrow> m \<le> n"
proof -
  have el: "\<exists>s. dtype_size (dtype_of t) = Inr s \<and> (case s of Some m \<Rightarrow> m | None \<Rightarrow> 16) = byte_size t" for t
    by (cases t rule: elem_spec_cases) (auto simp: dtype_of_def byte_size_def)
  note facts = attr_payload_len_def attr_elem_count_def attr_elem_footprint_def dspace_of_def kind_dtype_def kind_wf_def
    vector_len_def dtype_data_sizes_def product_usize_def Let_def fixed_str_width_def nullterm_str_width_def
  have "attr_payload_len (kind_dtype k) (dspace_of v) remaining = Inr n \<and> (\<forall>m. v = Some m \<longrightarrow> m \<le> n)"
  proof (cases k)
    case (Num_a t bs)
    then show ?thesis using assms el [of t] by (auto simp: facts)
  next
    case (NumArray_a t bs)
    then obtain q where q: "length bs = byte_size t * q" "0 < byte_size t" using assms(1) by (auto simp: kind_wf_def)
    then have "q \<le> length bs" by (cases "byte_size t") simp_all
    moreover from this have "q < u64_lim" using assms(3,5) NumArray_a by (simp add: dtype_data_sizes_def)
    moreover have "v = Some q" using assms(2) NumArray_a q by (simp add: vector_len_def)
    moreover have "n = length bs" using assms(3) NumArray_a by (simp add: dtype_data_sizes_def)
    ultimately show ?thesis using assms(4,5) q el [of t] NumArray_a
      by (simp add: attr_payload_len_def attr_elem_count_def attr_elem_footprint_def dspace_of_def kind_dtype_def
          product_usize_def umul_def) (auto simp: checked_mul_def mult.commute)
  next
    case (StrArray_a strs w)
    moreover from this have "length strs \<le> length strs * w" using assms(1) by (simp add: kind_wf_def)
    moreover have "length strs * w < u64_lim" using assms(3,5) StrArray_a by (auto simp: dtype_data_sizes_def Let_def)
    ultimately have "length strs < u64_lim" by linarith
    then have "umul (Suc 0) (length strs) = Inr (length strs)" by simp
    then show ?thesis using assms StrArray_a by (auto simp: facts)
  qed (use assms in \<open>auto simp: facts\<close>)
  then show "attr_payload_len (kind_dtype k) (dspace_of v) remaining = Inr n" "\<And>m. v = Some m \<Longrightarrow> m \<le> n" by auto
qed

lemma attr_section_enc:
  assumes "drop pos body = pad_to padded enc @ rest" "length enc \<le> padded" "pos \<le> length body" "length body \<le> isize_max"
  shows "sz \<le> padded \<Longrightarrow> attr_section body pos sz padded = Inr (take sz (pad_to padded enc), pos + padded)"
    and "drop (pos + padded) body = rest" "pos + padded \<le> length body"
proof -
  have "length (drop pos body) = padded + length rest" using assms(1,2) by (simp add: max.absorb1)
  then show l: "pos + padded \<le> length body" using assms(3) by simp
  have "drop (pos + padded) body = drop padded (drop pos body)" by (simp add: add.commute)
  then show "drop (pos + padded) body = rest" using assms(2) by (simp add: assms(1) max.absorb1)
  show "sz \<le> padded \<Longrightarrow> attr_section body pos sz padded = Inr (take sz (pad_to padded enc), pos + padded)"
    using l assms by (auto simp: attr_section_def slice_def get_range_def max.absorb1)
qed


definition read_attr :: "resolved_attr \<Rightarrow> nat option \<Rightarrow> attribute" where
  "read_attr a v =
     \<lparr>attr_name = ra_name a, attr_dtype = kind_dtype (ra_kind a), attr_dataspace = dspace_of v,
      attr_data = enc_data (ra_kind a)\<rparr>"

definition name_ok :: "str \<Rightarrow> bool" where
  "name_ok nm \<longleftrightarrow> nm \<noteq> [] \<and> 0 \<notin> set nm \<and> valid_utf8 nm \<and> Suc (length nm) < 65536"

lemma extract_name: "name_ok nm \<Longrightarrow> extract_nul_string (nm @ [0]) = nm"
  using position_nul [of nm "[]"] by (simp add: extract_nul_string_def name_ok_def utf8_or_empty_def)

lemma pad_to_name: "Suc (length nm) \<le> n \<Longrightarrow> take (Suc (length nm)) (pad_to n nm) = nm @ [0]"
  by (cases "n - length nm") (simp_all add: pad_to_def)

lemma parse_enc_attr:
  assumes "name_ok (ra_name a)" "kind_wf (ra_kind a)" "vector_len (ra_kind a) = Inr v"
    "dtype_data_sizes (ra_kind a) = Inr (dt, n)" "length (enc_attr a v @ rest) \<le> isize_max"
  shows "parse_attribute (enc_attr a v @ rest) = Inr (read_attr a v)"
proof -
  let ?body = "enc_attr a v @ rest" and ?nm = "align8 (Suc (length (ra_name a)))" and ?t = "enc_kind_dtype (ra_kind a)"
  have lt: "length ?t = dt" using length_enc_kind_dtype [OF assms(4)] .
  have dt: "dt \<le> 116" using dtype_size_small [OF assms(4)] by simp
  have le: "Suc (length (ra_name a)) \<le> ?nm" "dt \<le> align8 dt" using align8_ge by blast+
  define sp where "sp = length (enc_dspace v)"
  have sp: "align8 sp = sp" "sp < 65536" by (auto simp: sp_def align8_def split: option.splits)
  have ld: "length (enc_data (ra_kind a)) = n" using length_enc_data [OF assms(2,4)] .
  have d8: "drop 8 ?body = pad_to ?nm (ra_name a) @ pad_to (align8 dt) ?t @ pad_to sp (enc_dspace v) @ enc_data (ra_kind a) @ rest"
    by (simp add: enc_attr_def lt sp_def pad_to_full)
  have nm: "length (ra_name a) < 65535" using assms(1) by (simp add: name_ok_def)
  have head: "?body ! 0 = 1" "read_u16_le ?body 2 = Inr (Suc (length (ra_name a)))" "read_u16_le ?body 4 = Inr dt" "read_u16_le ?body 6 = Inr sp"
    using nm dt sp(2) by (simp_all add: enc_attr_def read_u16_le_eq field_eval lt sp_def [symmetric] del: to_le.simps length_enc_dspace)
  have l8: "8 \<le> length ?body" by (simp add: enc_attr_def)
  note s1 = attr_section_enc [OF d8 _ l8 assms(5)]
  note s2 = attr_section_enc [OF s1(2) _ s1(3) assms(5)]
  note s3 = attr_section_enc [OF s2(2) _ s2(3) assms(5)]
  have r1: "attr_section ?body 8 (Suc (length (ra_name a))) ?nm = Inr (ra_name a @ [0], 8 + ?nm)"
    using s1(1) le by (simp add: pad_to_name)
  have r2: "attr_section ?body (8 + ?nm) dt (align8 dt) = Inr (?t, 8 + ?nm + align8 dt)"
    using s2(1) le lt by (simp add: pad_to_def)
  have r3: "attr_section ?body (8 + ?nm + align8 dt) sp (align8 sp) = Inr (enc_dspace v, 8 + ?nm + align8 dt + sp)"
    using s3(1) le lt sp(1) by (simp add: sp_def [symmetric] pad_to_def del: length_enc_dspace)
  have e: "8 + ?nm + align8 dt + sp + n \<le> length ?body" and r4: "drop (8 + ?nm + align8 dt + sp) ?body = enc_data (ra_kind a) @ rest"
    using s3(2,3) le lt ld sp_def by (simp_all add: enc_attr_def max.absorb1)
  have pl: "attr_payload_len (kind_dtype (ra_kind a)) (dspace_of v) (length ?body - (8 + ?nm + align8 dt + sp)) = Inr n"
    and vn: "\<And>m. v = Some m \<Longrightarrow> m \<le> n"
    using payload_len [OF assms(2,3,4), of "length ?body - (8 + ?nm + align8 dt + sp)"] e assms(5) by auto
  have psp: "parse_dataspace_rich (enc_dspace v) = Inr (dspace_of v)"
  proof (rule parse_enc_dspace)
    show "m < u64_lim" if "v = Some m" for m using vn [OF that] e assms(5) by linarith
  qed
  have sl: "slice ?body (8 + ?nm + align8 dt + sp) (8 + ?nm + align8 dt + sp + n) = Inr (enc_data (ra_kind a))"
    using e r4 ld by (simp add: slice_def get_range_def)
  have "length ?body < u64_lim" using assms(5) by linarith
  then have arith: "usub (length ?body) (8 + ?nm + align8 dt + sp) = Inr (length ?body - (8 + ?nm + align8 dt + sp))"
    "uadd (8 + ?nm + align8 dt + sp) n = Inr (8 + ?nm + align8 dt + sp + n)" using e by simp_all
  have "parse_attribute_v1 ?body = Inr (read_attr a v)"
    unfolding parse_attribute_v1_def head and_then_simps r1 r2 r3 prod.case parse_enc_kind [OF assms(2)] psp arith pl sl
    using l8 by (simp add: extract_name [OF assms(1)] read_attr_def del: length_append)
  moreover have "?body \<noteq> []" using l8 by force
  ultimately show ?thesis unfolding parse_attribute_def using head(1) l8 by (simp add: index_def get_elem_def del: length_append)
qed


lemma attr_written:
  assumes "name_ok (ra_name a)" "kind_wf (ra_kind a)" "attr_body_size a = Inr n"
    and "start + n \<le> length buf" "length buf \<le> isize_max"
  shows "\<exists>buf' v. attr_write_body a buf start = Inr (buf', n) \<and> length buf' = length buf \<and>
    take start buf' = take start buf \<and> drop (start + n) buf' = drop (start + n) buf \<and>
    vector_len (ra_kind a) = Inr v \<and>
    (\<forall>m. parse_attribute (take (n + m) (drop start buf')) = Inr (read_attr a v))"
proof -
  have nm: "ra_name a \<noteq> []" "Suc (length (ra_name a)) < 65536" using assms(1) by (simp_all add: name_ok_def)
  obtain v where v: "vector_len (ra_kind a) = Inr v" "length (enc_attr a v) = n"
    "attr_write_body a buf start = Inr (splice buf start (enc_attr a v), n)"
    by (rule attr_write_body_enc [OF nm assms(2-4)])
  obtain dt dat where d: "dtype_data_sizes (ra_kind a) = Inr (dt, dat)" by (rule attr_body_size_enc [OF assms(3,2)])
  let ?b = "splice buf start (enc_attr a v)"
  have "parse_attribute (take (n + m) (drop start ?b)) = Inr (read_attr a v)" for m
  proof -
    have "take (n + m) (drop start ?b) = enc_attr a v @ take m (drop (start + n) buf)"
      using assms(4) v(2) by (simp add: splice_def)
    moreover have "length (enc_attr a v @ take m (drop (start + n) buf)) \<le> isize_max"
      using assms(4,5) v(2) by (simp del: length_enc_dspace)
    ultimately show ?thesis using parse_enc_attr [OF assms(1,2) v(1) d] by metis
  qed
  moreover have "take start ?b = take start buf" "drop (start + n) ?b = drop (start + n) buf" "length ?b = length buf"
    using assms(4) v(2) by (simp_all add: splice_def)
  ultimately show ?thesis using v by blast
qed

text \<open>
  C17. An attribute the writer emits is read back: the message body of any attribute with a legal
  name, of every kind of value, written into a buffer with room for it, fills exactly the size
  reserved for it, leaves the rest of the buffer alone, and is parsed, whatever bytes follow it in
  the message, to the same name, the type and the shape of its kind, and exactly its data.
\<close>

theorem attribute_round_trip:
  assumes "name_ok (ra_name a)" "kind_wf (ra_kind a)" "attr_body_size a = Inr n"
    and "start + n \<le> length buf" "length buf \<le> isize_max"
  shows "\<exists>buf' v. attr_write_body a buf start = Inr (buf', n) \<and> length buf' = length buf \<and>
    take start buf' = take start buf \<and> drop (start + n) buf' = drop (start + n) buf \<and>
    vector_len (ra_kind a) = Inr v \<and>
    (\<forall>m. parse_attribute (take (n + m) (drop start buf')) = Inr (read_attr a v))"
  using assms by (rule attr_written)

theorem attribute_round_trip_witness:
  "\<exists>buf'. attr_write_body \<lparr>ra_name = [0x75], ra_kind = StrArray_a [[0x61], [0x62, 0x63]] 2\<rparr> (replicate 60 9) 4 = Inr (buf', 52) \<and>
     parse_attribute (take 52 (drop 4 buf')) =
       Inr \<lparr>attr_name = [0x75], attr_dtype = String (Some 2) Utf8, attr_dataspace = Simple [2] (Some [2]),
            attr_data = [0x61, 0, 0x62, 0x63]\<rparr>"
proof -
  let ?a = "\<lparr>ra_name = [0x75], ra_kind = StrArray_a [[0x61], [0x62, 0x63]] 2\<rparr>"
  have "name_ok (ra_name ?a)" by (simp add: name_ok_def)
  moreover have "attr_body_size ?a = Inr 52"
    by (simp add: attr_body_size_def kind_sizes_def vector_len_def dtype_data_sizes_def Let_def pad8_def)
  moreover have "kind_wf (ra_kind ?a)" by (simp add: kind_wf_def)
  ultimately obtain buf' v where "attr_write_body ?a (replicate 60 9) 4 = Inr (buf', 52)" "vector_len (ra_kind ?a) = Inr v"
    "\<forall>m. parse_attribute (take (52 + m) (drop 4 buf')) = Inr (read_attr ?a v)"
    using attribute_round_trip [of ?a 52 4 "replicate 60 9"] by auto
  moreover from this(3) have "parse_attribute (take (52 + 0) (drop 4 buf')) = Inr (read_attr ?a v)" by blast
  ultimately show ?thesis
    by (auto simp: read_attr_def vector_len_def kind_dtype_def dspace_of_def enc_data_def pad_to_def)
qed


section \<open>References through the global heap\<close>

text \<open>
  The four passes over the attributes: names to undefined slots, slots to addresses, sequences to
  heap objects, heap objects to places. An element after the last pass \<open>follows\<close> its sequence of
  names when the file holds the addresses of the targets where the element says.
\<close>

definition targets_of :: "(str \<rightharpoonup> nat) \<Rightarrow> str list \<Rightarrow> nat list res" where
  "targets_of paths names = map_res (\<lambda>nm. resolve_ref nm paths) names"

definition follows :: "(str \<rightharpoonup> nat) \<Rightarrow> bytes \<Rightarrow> str list \<Rightarrow> vlen_obj_ref_elem \<Rightarrow> bool" where
  "follows paths d seq el \<longleftrightarrow>
     (\<exists>ts. targets_of paths seq = Inr ts \<and> ve_addrs el = ts \<and> ve_heap_addr el \<noteq> UNDEFINED_ADDR \<and>
       (if seq = [] then ve_heap_addr el = 0 \<and> ve_heap_idx el = 0
        else and_then (global_heap_parse d (ve_heap_addr el)) (\<lambda>h. heap_object h (ve_heap_idx el)) =
          Inr (concat (map (to_le 8) ts))))"

lemma fill_slots_resolve:
  "length slots = length names \<Longrightarrow> fill_slots paths slots names = targets_of paths names"
proof (induction slots names rule: list_induct2)
  case (Cons slot slots name names)
  then show ?case by (cases "resolve_ref name paths") (simp_all add: targets_of_def)
qed (simp add: targets_of_def)

definition pointed :: "(str \<rightharpoonup> nat) \<Rightarrow> str list \<Rightarrow> vlen_obj_ref_elem \<Rightarrow> bool" where
  "pointed paths seq el \<longleftrightarrow> (\<exists>ts. targets_of paths seq = Inr ts \<and> el = (vlen_elem seq)\<lparr>ve_addrs := ts\<rparr>)"

lemma fill_elems_resolve:
  "fill_elems paths (map vlen_elem seqs) seqs = Inr es \<Longrightarrow> list_all2 (pointed paths) seqs es"
proof (induction seqs arbitrary: es)
  case (Cons seq seqs)
  have "fill_slots paths (ve_addrs (vlen_elem seq)) seq = targets_of paths seq"
    by (rule fill_slots_resolve) (simp add: vlen_elem_def)
  with Cons show ?case by (auto simp: pointed_def)
qed simp

text \<open>Registration appends the payloads to the heap and numbers them from one.\<close>

definition registered :: "global_heap_writer \<Rightarrow> vlen_obj_ref_elem \<Rightarrow> vlen_obj_ref_elem \<Rightarrow> bool" where
  "registered g el el' \<longleftrightarrow>
     (if ve_addrs el = [] then el' = el
      else \<exists>k < length g. g ! k = vlen_payload el \<and> el' = el\<lparr>ve_ordinal := Suc k\<rparr>)"

lemma registered_append: "registered g el el' \<Longrightarrow> registered (g @ xs) el el'"
  by (auto simp: registered_def nth_append split: if_splits)

lemma register_elem_simps:
  "register_elem el (acc, g) =
     (if ve_addrs el = [] then (acc @ [el], g)
      else (acc @ [el\<lparr>ve_ordinal := Suc (length g) mod u32_lim\<rparr>], g @ [vlen_payload el]))"
  by (simp add: register_elem_def heap_write_bytes_def Let_def)

lemma register_elems:
  assumes "fold register_elem els (acc, g) = (acc', g')" "length g' < u32_lim"
  shows "\<exists>els' new. acc' = acc @ els' \<and> g' = g @ new \<and> list_all2 (registered g') els els'"
  using assms
proof (induction els arbitrary: acc g)
  case (Cons el els)
  show ?case
  proof (cases "ve_addrs el = []")
    case True
    then have "fold register_elem els (acc @ [el], g) = (acc', g')" using Cons.prems(1) by (simp add: register_elem_simps)
    then obtain els' new where "acc' = (acc @ [el]) @ els'" "g' = g @ new" "list_all2 (registered g') els els'"
      using Cons.IH [OF _ Cons.prems(2)] by blast
    moreover have "registered g' el el" using True by (simp add: registered_def)
    ultimately show ?thesis by (intro exI [where x = "el # els'"] exI [where x = new]) simp
  next
    case False
    let ?g = "g @ [vlen_payload el]"
    have "fold register_elem els (acc @ [el\<lparr>ve_ordinal := length ?g mod u32_lim\<rparr>], ?g) = (acc', g')"
      using Cons.prems(1) False by (simp add: register_elem_simps)
    from Cons.IH [OF this Cons.prems(2)] obtain els' new where
      r: "acc' = (acc @ [el\<lparr>ve_ordinal := length ?g mod u32_lim\<rparr>]) @ els'" "g' = ?g @ new" "list_all2 (registered g') els els'"
      by blast
    have "length ?g mod u32_lim = Suc (length g)" using r(2) Cons.prems(2) by simp
    moreover have "length g < length g'" "g' ! length g = vlen_payload el" using r(2) by (simp_all add: nth_append)
    then have "registered g' el (el\<lparr>ve_ordinal := Suc (length g)\<rparr>)" using False unfolding registered_def by (simp, blast)
    ultimately have "list_all2 (registered g') (el # els) (el\<lparr>ve_ordinal := length ?g mod u32_lim\<rparr> # els')" using r(3) by simp
    then show ?thesis using r(1,2)
      by (intro exI [where x = "el\<lparr>ve_ordinal := length ?g mod u32_lim\<rparr> # els'"] exI [where x = "vlen_payload el # new"]) simp
  qed
qed simp

definition attr_registered :: "global_heap_writer \<Rightarrow> resolved_attr \<Rightarrow> resolved_attr \<Rightarrow> bool" where
  "attr_registered g a a' \<longleftrightarrow>
     (case ra_kind a of
        VlenObjRefs_a names els \<Rightarrow> \<exists>els'. a' = a\<lparr>ra_kind := VlenObjRefs_a names els'\<rparr> \<and> list_all2 (registered g) els els'
      | _ \<Rightarrow> a' = a)"

lemma attr_registered_append: "attr_registered g a a' \<Longrightarrow> attr_registered (g @ xs) a a'"
  by (auto simp: attr_registered_def split: resolved_kind.splits intro: registered_append list_all2_mono)

lemma register_attrs:
  assumes "fold register_attr attrs (acc, g) = (acc', g')" "length g' < u32_lim"
  shows "\<exists>attrs' new. acc' = acc @ attrs' \<and> g' = g @ new \<and> list_all2 (attr_registered g') attrs attrs'"
  using assms
proof (induction attrs arbitrary: acc g)
  case (Cons a attrs)
  obtain a1 g1 where s: "register_attr a (acc, g) = (acc @ [a1], g1)" and
    r: "length g1 < u32_lim \<Longrightarrow> attr_registered g1 a a1 \<and> (\<exists>new. g1 = g @ new)"
  proof (cases "ra_kind a")
    case (VlenObjRefs_a names els)
    obtain els' g1 where f: "fold register_elem els ([], g) = (els', g1)" by fastforce
    from register_elems [OF f] VlenObjRefs_a f show thesis
      by (intro that [of "a\<lparr>ra_kind := VlenObjRefs_a names els'\<rparr>" g1]) (auto simp: register_attr_def attr_registered_def)
  qed (auto intro!: that [of a g] simp: register_attr_def attr_registered_def)
  have f: "fold register_attr attrs (acc @ [a1], g1) = (acc', g')" using Cons.prems(1) s by simp
  obtain attrs' new where ih: "acc' = (acc @ [a1]) @ attrs'" "g' = g1 @ new" "list_all2 (attr_registered g') attrs attrs'"
    using Cons.IH [OF f Cons.prems(2)] by blast
  have "attr_registered g1 a a1" "\<exists>new. g1 = g @ new" using r ih(2) Cons.prems(2) by auto
  then show ?case using ih attr_registered_append [of g1 a a1 new] by (auto simp: list_all2_Cons1)
qed simp


definition collections_at :: "bytes \<Rightarrow> nat list \<Rightarrow> bytes list \<Rightarrow> bool" where
  "collections_at d addrs cols \<longleftrightarrow>
     length addrs = length cols \<and> (\<forall>i < length cols. \<exists>rest. drop (addrs ! i) d = cols ! i @ rest \<and> addrs ! i \<le> length d)"

lemma built_locations:
  assumes "\<forall>obj\<in>set objs. length obj \<le> isize_max" "length objs < u32_lim" "build_collections objs = (cols, locs)"
  shows "length locs = length objs" "\<And>k. k < length objs \<Longrightarrow> hl_collection (locs ! k) < length cols"
proof -
  obtain groups where g: "cols = map serialize_collection groups" "list_all2 (located groups) objs locs"
    using build_collections_packed [OF _ assms(2,3)] assms(1) by blast
  then show "length locs = length objs" by (auto dest: list_all2_lengthD)
  show "hl_collection (locs ! k) < length cols" if "k < length objs" for k
    using list_all2_nthD [OF g(2) that] g(1) by (simp add: located_def)
qed

lemma place_registered:
  assumes "pointed paths seq el" "registered g el el'" "\<exists>xs. objs = g @ xs"
    and heap: "\<forall>obj\<in>set objs. length obj \<le> isize_max" "length objs < u32_lim" "build_collections objs = (cols, locs)"
    and fl: "collections_at d addrs cols" "length d \<le> isize_max"
  shows "follows paths d seq (place_elem addrs locs el')"
proof -
  obtain ts where ts: "targets_of paths seq = Inr ts" "el = (vlen_elem seq)\<lparr>ve_addrs := ts\<rparr>"
    using assms(1) by (auto simp: pointed_def)
  have len: "length ts = length seq" using ts(1) by (auto simp: targets_of_def dest: map_res_length)
  show ?thesis
  proof (cases "seq = []")
    case True
    then show ?thesis using ts len assms(2)
      by (simp add: registered_def place_elem_def follows_def vlen_elem_def)
  next
    case False
    then have "ve_addrs el \<noteq> []" using ts(2) len by auto
    then obtain k where k: "k < length g" "g ! k = vlen_payload el" "el' = el\<lparr>ve_ordinal := Suc k\<rparr>"
      using assms(2) by (auto simp: registered_def)
    have ko: "k < length objs" "objs ! k = vlen_payload el" using k assms(3) by (auto simp: nth_append)
    let ?loc = "locs ! k"
    let ?addr = "addrs ! hl_collection ?loc"
    have c: "hl_collection ?loc < length cols" and l: "length locs = length objs"
      using built_locations [OF heap] ko by auto
    obtain rest where r: "drop ?addr d = cols ! hl_collection ?loc @ rest" "?addr \<le> length d" "length addrs = length cols"
      using fl(1) c by (auto simp: collections_at_def)
    then have d: "d = take ?addr d @ cols ! hl_collection ?loc @ rest" by (metis append_take_drop_id)
    have "and_then (global_heap_parse d ?addr) (\<lambda>h. heap_object h (hl_index ?loc)) = Inr (vlen_payload el)"
      using heap_read_back [OF heap ko(1) d fl(2)] r(2) ko(2) by simp
    moreover have "place_elem addrs locs el' = el'\<lparr>ve_heap_addr := ?addr, ve_heap_idx := hl_index ?loc\<rparr>"
      using k(3) ko(1) l c r(3) by (simp add: place_elem_def get_elem_def)
    moreover have "?addr \<noteq> u64_max" using r(2) fl(2) by linarith
    ultimately show ?thesis using False ts k(3) by (simp add: follows_def vlen_payload_def)
  qed
qed

text \<open>All four passes, over the attributes of one object.\<close>

lemma vlen_pipeline:
  assumes "attrs = resolve_attrs descs" "fill_obj_refs attrs paths = Inr attrs1"
    and "register_vlen_objref_heap attrs1 gcol = (attrs2, gcol1)" "fill_vlen_objref_locs attrs2 addrs locs = attrs3"
    and objs: "objs = gcol1 @ xs"
    and heap: "\<forall>obj\<in>set objs. length obj \<le> isize_max" "length objs < u32_lim" "build_collections objs = (cols, locs)"
    and fl: "collections_at d addrs cols" "length d \<le> isize_max"
    and k: "k < length attrs" "ra_kind (attrs ! k) = VlenObjRefs_a seqs els0"
  shows "\<exists>els. attrs3 ! k = (attrs ! k)\<lparr>ra_kind := VlenObjRefs_a seqs els\<rparr> \<and> list_all2 (follows paths d) seqs els"
proof -
  have els0: "els0 = map vlen_elem seqs"
  proof -
    have "attrs ! k \<in> set attrs" using k(1) by simp
    then have "\<exists>desc :: attr_desc. resolve_kind (ad_kind desc) = Some (ra_kind (attrs ! k))"
      by (auto simp: assms(1) resolve_attrs_def List.map_filter_def split: option.splits)
    then obtain desc :: attr_desc where "resolve_kind (ad_kind desc) = Some (VlenObjRefs_a seqs els0)" using k(2) by auto
    then show ?thesis by (cases "ad_kind desc") (simp_all add: resolve_kind_def)
  qed
  have "list_all2 (\<lambda>a b. fill_attr_refs paths a = Inr b) attrs attrs1"
    using assms(2) by (simp add: fill_obj_refs_def map_res_Inr_iff)
  then have f1: "fill_attr_refs paths (attrs ! k) = Inr (attrs1 ! k)" and l1: "k < length attrs1"
    using k(1) by (auto dest: list_all2_nthD list_all2_lengthD)
  obtain els1 where a1: "attrs1 ! k = (attrs ! k)\<lparr>ra_kind := VlenObjRefs_a seqs els1\<rparr>" "fill_elems paths (map vlen_elem seqs) seqs = Inr els1"
    using f1 k(2) unfolding els0 fill_attr_refs_def by (cases "fill_elems paths (map vlen_elem seqs) seqs") (simp_all, metis)
  have g: "length gcol1 < u32_lim" using objs heap(2) by simp
  have r: "list_all2 (attr_registered gcol1) attrs1 attrs2"
    using register_attrs [of attrs1 "[]" gcol attrs2 gcol1] assms(3) g by (auto simp: register_vlen_objref_heap_def)
  then have "attr_registered gcol1 (attrs1 ! k) (attrs2 ! k)" and l2: "k < length attrs2"
    using l1 by (auto dest: list_all2_nthD list_all2_lengthD)
  then obtain els2 where a2: "attrs2 ! k = (attrs ! k)\<lparr>ra_kind := VlenObjRefs_a seqs els2\<rparr>" "list_all2 (registered gcol1) els1 els2"
    using a1(1) by (auto simp: attr_registered_def)
  have "list_all2 (pointed paths) seqs els1" using a1(2) by (rule fill_elems_resolve)
  then have "list_all2 (follows paths d) seqs (map (place_elem addrs locs) els2)"
    using a2(2) objs unfolding list_all2_conv_all_nth
    by (auto intro!: place_registered [OF _ _ _ heap fl])
  moreover have "attrs3 ! k = (attrs ! k)\<lparr>ra_kind := VlenObjRefs_a seqs (map (place_elem addrs locs) els2)\<rparr>"
    using assms(4) l2 a2(1) by (auto simp: fill_vlen_objref_locs_def)
  ultimately show ?thesis by blast
qed


text \<open>
  C16. A \<^verbatim>\<open>DIMENSION_LIST\<close> reaches its targets: after names are resolved, addresses filled in,
  payloads registered in the (shared) global heap and its collections placed in the file, the
  attribute of sequences of names is written as one reference per sequence; reading the attribute
  back and following each reference into the global heap gives exactly the object header addresses
  of the names of that sequence, and an empty sequence is the null reference.
\<close>

theorem dimension_list_round_trip:
  assumes "attrs = resolve_attrs descs" "fill_obj_refs attrs paths = Inr attrs1"
    and "register_vlen_objref_heap attrs1 gcol = (attrs2, gcol1)" "fill_vlen_objref_locs attrs2 addrs locs = attrs3"
    and objs: "objs = gcol1 @ xs"
    and heap: "\<forall>obj\<in>set objs. length obj \<le> isize_max" "length objs < u32_lim" "build_collections objs = (cols, locs)"
    and fl: "collections_at d addrs cols" "length d \<le> isize_max"
    and k: "k < length attrs" "ra_kind (attrs ! k) = VlenObjRefs_a seqs els0"
    and ok: "name_ok (ra_name (attrs ! k))" "\<forall>seq\<in>set seqs. length seq < u32_lim"
    and room: "attr_body_size (attrs3 ! k) = Inr n" "start + n \<le> length buf" "length buf \<le> isize_max"
  shows "\<exists>els buf'. list_all2 (follows paths d) seqs els \<and> attr_write_body (attrs3 ! k) buf start = Inr (buf', n) \<and>
    (\<forall>m. parse_attribute (take (n + m) (drop start buf')) =
       Inr \<lparr>attr_name = ra_name (attrs ! k), attr_dtype = VarLen (Reference Object),
            attr_dataspace = Simple [length seqs] (Some [length seqs]), attr_data = concat (map enc_vlen_ref els)\<rparr>)"
proof -
  obtain els where a3: "attrs3 ! k = (attrs ! k)\<lparr>ra_kind := VlenObjRefs_a seqs els\<rparr>" and f: "list_all2 (follows paths d) seqs els"
    using vlen_pipeline [OF assms(1-4) objs heap fl k] by blast
  have "placed el" if "el \<in> set els" for el
  proof -
    obtain i where i: "i < length els" "els ! i = el" using \<open>el \<in> set els\<close> by (auto simp: in_set_conv_nth)
    then have "i < length seqs" "follows paths d (seqs ! i) el" using f by (auto dest: list_all2_lengthD list_all2_nthD2)
    then have "seqs ! i \<in> set seqs" "follows paths d (seqs ! i) el" by simp_all
    then show ?thesis using ok(2) by (auto simp: follows_def placed_def targets_of_def dest: map_res_length)
  qed
  then have "kind_wf (ra_kind (attrs3 ! k))" by (simp add: a3 kind_wf_def)
  moreover have "name_ok (ra_name (attrs3 ! k))" using ok(1) by (simp add: a3)
  ultimately obtain buf' v where w: "attr_write_body (attrs3 ! k) buf start = Inr (buf', n)" "vector_len (ra_kind (attrs3 ! k)) = Inr v"
    "\<forall>m. parse_attribute (take (n + m) (drop start buf')) = Inr (read_attr (attrs3 ! k) v)"
    using attr_written [OF _ _ room] by blast
  have "v = Some (length seqs)" using w(2) list_all2_lengthD [OF f] by (simp add: a3 vector_len_def)
  then have "read_attr (attrs3 ! k) v = \<lparr>attr_name = ra_name (attrs ! k), attr_dtype = VarLen (Reference Object),
      attr_dataspace = Simple [length seqs] (Some [length seqs]), attr_data = concat (map enc_vlen_ref els)\<rparr>"
    by (simp add: a3 read_attr_def kind_dtype_def dspace_of_def enc_data_def)
  then show ?thesis using f w(1,3) by auto
qed

lemma build_one: "build_collections [obj] = ([serialize_collection [obj]], [\<lparr>hl_collection = 0, hl_index = 1\<rparr>])"
  by (simp add: build_collections_def pack_object_def)

definition dimension_list :: attr_desc where
  "dimension_list = \<lparr>ad_name = [0x44], ad_kind = AK_VlenObjRefsByName [[[0x2f, 0x78]], []]\<rparr>"

theorem dimension_list_round_trip_witness:
  "\<exists>els buf'. list_all2 (follows [[0x78] \<mapsto> 800] ([9, 9, 9] @ serialize_collection [to_le 8 800])) [[[0x2f, 0x78]], []] els \<and>
    parse_attribute (take 88 (drop 4 buf')) =
      Inr \<lparr>attr_name = [0x44], attr_dtype = VarLen (Reference Object), attr_dataspace = Simple [2] (Some [2]),
           attr_data = concat (map enc_vlen_ref els)\<rparr>"
proof -
  let ?obj = "to_le 8 800" and ?seqs = "[[[0x2f, 0x78]], []] :: str list list" and ?paths = "[[0x78] \<mapsto> 800] :: str \<rightharpoonup> nat"
  let ?d = "[9, 9, 9] @ serialize_collection [?obj]" and ?locs = "[\<lparr>hl_collection = 0, hl_index = 1\<rparr>]"
  let ?a = "\<lambda>els. \<lparr>ra_name = [0x44], ra_kind = VlenObjRefs_a ?seqs els\<rparr>"
  let ?e = "\<lambda>addr idx ord. \<lparr>ve_addrs = [800], ve_heap_addr = addr, ve_heap_idx = idx, ve_ordinal = ord\<rparr>"
  let ?null = "\<lparr>ve_addrs = [], ve_heap_addr = 0, ve_heap_idx = 0, ve_ordinal = 0\<rparr>"
  have r: "resolve_attrs [dimension_list] = [?a [vlen_elem [[0x2f, 0x78]], ?null]]"
    by (simp add: resolve_attrs_def List.map_filter_def dimension_list_def resolve_kind_def vlen_elem_def)
  have f: "fill_obj_refs [?a [vlen_elem [[0x2f, 0x78]], ?null]] ?paths = Inr [?a [?e u64_max 0 0, ?null]]"
    by (simp add: fill_obj_refs_def fill_attr_refs_def vlen_elem_def resolve_ref_def)
  have g: "register_vlen_objref_heap [?a [?e u64_max 0 0, ?null]] [] = ([?a [?e u64_max 0 1, ?null]], [?obj])"
    by (simp add: register_vlen_objref_heap_def register_attr_def register_elem_simps vlen_payload_def)
  have p: "fill_vlen_objref_locs [?a [?e u64_max 0 1, ?null]] [3] ?locs = [?a [?e 3 1 1, ?null]]"
    by (simp add: fill_vlen_objref_locs_def place_elem_def get_elem_def)
  have l: "length ?d \<le> isize_max" "length (serialize_collection [?obj]) = 4096"
    by (simp_all add: length_serialize_collection align8_def collection_size_def next_size_eq)
  have c: "collections_at ?d [3] [serialize_collection [?obj]]"
    using l by (simp add: collections_at_def)
  have "attr_body_size (?a [?e 3 1 1, ?null]) = Inr 88"
    by (simp add: attr_body_size_def kind_sizes_def vector_len_def dtype_data_sizes_def Let_def pad8_def)
  then have sz: "attr_body_size ([?a [?e 3 1 1, ?null]] ! 0) = Inr 88" by simp
  let ?as = "[?a [vlen_elem [[0x2f, 0x78]], ?null]]"
  have o: "[?obj] = [?obj] @ []" by simp
  have h: "\<forall>obj\<in>set [?obj]. length obj \<le> isize_max" "length [?obj] < u32_lim" by simp_all
  have k: "0 < length ?as" "ra_kind (?as ! 0) = VlenObjRefs_a ?seqs [vlen_elem [[0x2f, 0x78]], ?null]" by simp_all
  have n: "name_ok (ra_name (?as ! 0))" "\<forall>seq\<in>set ?seqs. length seq < u32_lim" by (simp_all add: name_ok_def)
  have b: "4 + 88 \<le> length (replicate 100 (9 :: byte))" "length (replicate 100 (9 :: byte)) \<le> isize_max" by simp_all
  have len: "length ?seqs = 2" "ra_name (?as ! 0) = [0x44]" by simp_all
  have "\<exists>els buf'. list_all2 (follows ?paths ?d) ?seqs els \<and> attr_write_body ([?a [?e 3 1 1, ?null]] ! 0) (replicate 100 9) 4 = Inr (buf', 88) \<and>
    (\<forall>m. parse_attribute (take (88 + m) (drop 4 buf')) =
       Inr \<lparr>attr_name = [0x44], attr_dtype = VarLen (Reference Object),
            attr_dataspace = Simple [2] (Some [2]), attr_data = concat (map enc_vlen_ref els)\<rparr>)"
    using dimension_list_round_trip [OF r [symmetric] f g p o h build_one c l(1) k n sz b] unfolding len .
  then obtain els buf' where "list_all2 (follows ?paths ?d) ?seqs els" and
    "\<forall>m. parse_attribute (take (88 + m) (drop 4 buf')) =
       Inr \<lparr>attr_name = [0x44], attr_dtype = VarLen (Reference Object),
            attr_dataspace = Simple [2] (Some [2]), attr_data = concat (map enc_vlen_ref els)\<rparr>" by blast
  moreover from this(2) have "parse_attribute (take (88 + 0) (drop 4 buf')) =
       Inr \<lparr>attr_name = [0x44], attr_dtype = VarLen (Reference Object),
            attr_dataspace = Simple [2] (Some [2]), attr_data = concat (map enc_vlen_ref els)\<rparr>" by blast
  ultimately show ?thesis by auto
qed

end
