(* ===== verification/Write_Tree.thy ===== *)
theory Write_Tree
  imports Write_Attr Filter_Message "HOL-Library.Sublist" "HOL-Library.Multiset"
begin

text \<open>
  The writer's object model, \<^verbatim>\<open>oxih5/src/write/tree.rs\<close>: a tree of groups with their datasets,
  links and attributes, and the paths that navigate it. A function that takes \<^verbatim>\<open>&mut GroupNode\<close>
  returns the tree it leaves behind, on the error path as well; a mutable reference it returns is
  the list of positions that leads to the node. The tree is related to what it stands for, a map
  from paths to objects: insertion is an update of that map, and a refused call leaves no trace.
\<close>

section \<open>Datasets, links and groups\<close>

datatype storage =
    Contiguous_st
  | Chunked_st "nat list" bool

record dataset_desc =
  dd_name :: str
  dd_raw :: bytes
  dd_shape :: "nat list"
  dd_elem_type :: elem_type
  dd_dtype :: "encoded_dtype option"
  dd_attrs :: "attr_desc list"
  dd_storage :: storage
  dd_filter :: "filter_choice option"
  dd_vlen_strings :: "str list option"
  dd_vlen_seqs :: "bytes list option"
  dd_creation_order :: nat

definition dd_elem_size :: "dataset_desc \<Rightarrow> nat" where
  "dd_elem_size ds = (case dd_dtype ds of Some encoded \<Rightarrow> ed_elem_size encoded | None \<Rightarrow> byte_size (dd_elem_type ds))"

definition dd_datatype_body :: "dataset_desc \<Rightarrow> bytes option" where
  "dd_datatype_body ds = map_option ed_body (dd_dtype ds)"

definition dd_data_len :: "dataset_desc \<Rightarrow> nat res" where
  "dd_data_len ds =
     (case (dd_vlen_strings ds, dd_vlen_seqs ds) of
        (Some strings, _) \<Rightarrow> umul (length strings) 16
      | (None, Some seqs) \<Rightarrow> umul (length seqs) 16
      | (None, None) \<Rightarrow> Inr (length (dd_raw ds)))"

definition dd_chunked :: "dataset_desc \<Rightarrow> (nat list \<times> bool) option" where
  "dd_chunked ds = (case dd_storage ds of Contiguous_st \<Rightarrow> None | Chunked_st chunk_shape u \<Rightarrow> Some (chunk_shape, u))"

definition dd_unlimited_dim0 :: "dataset_desc \<Rightarrow> bool" where
  "dd_unlimited_dim0 ds = (case dd_storage ds of Chunked_st _ True \<Rightarrow> True | _ \<Rightarrow> False)"

datatype link_kind =
    HardAlias str
  | Soft_link str
  | External_link str str

record link_desc =
  ld_name :: str
  ld_kind :: link_kind
  ld_creation_order :: nat

datatype group_style = SymbolTable_style | LinkMessage_style

datatype group_node = GroupNode
  (gn_name: str)
  (gn_datasets: "dataset_desc list")
  (gn_groups: "group_node list")
  (gn_links: "link_desc list")
  (gn_attrs: "attr_desc list")
  (gn_style: group_style)
  (gn_track_order: bool)
  (gn_next_order: nat)
  (gn_creation_order: nat)

text \<open>Assignments to fields.\<close>

definition set_datasets :: "dataset_desc list \<Rightarrow> group_node \<Rightarrow> group_node" where
  "set_datasets ds g = (case g of GroupNode nm _ gs ls at st tr nx co \<Rightarrow> GroupNode nm ds gs ls at st tr nx co)"
definition set_groups :: "group_node list \<Rightarrow> group_node \<Rightarrow> group_node" where
  "set_groups gs g = (case g of GroupNode nm ds _ ls at st tr nx co \<Rightarrow> GroupNode nm ds gs ls at st tr nx co)"
definition set_links :: "link_desc list \<Rightarrow> group_node \<Rightarrow> group_node" where
  "set_links ls g = (case g of GroupNode nm ds gs _ at st tr nx co \<Rightarrow> GroupNode nm ds gs ls at st tr nx co)"
definition set_attrs :: "attr_desc list \<Rightarrow> group_node \<Rightarrow> group_node" where
  "set_attrs at g = (case g of GroupNode nm ds gs ls _ st tr nx co \<Rightarrow> GroupNode nm ds gs ls at st tr nx co)"
definition set_track_order_field :: "bool \<Rightarrow> group_node \<Rightarrow> group_node" where
  "set_track_order_field tr g = (case g of GroupNode nm ds gs ls at st _ nx co \<Rightarrow> GroupNode nm ds gs ls at st tr nx co)"
definition set_next_order :: "nat \<Rightarrow> group_node \<Rightarrow> group_node" where
  "set_next_order nx g = (case g of GroupNode nm ds gs ls at st tr _ co \<Rightarrow> GroupNode nm ds gs ls at st tr nx co)"
definition set_creation_order :: "nat \<Rightarrow> group_node \<Rightarrow> group_node" where
  "set_creation_order co g = (case g of GroupNode nm ds gs ls at st tr nx _ \<Rightarrow> GroupNode nm ds gs ls at st tr nx co)"

definition group_new :: "str \<Rightarrow> group_node" where
  "group_new name = GroupNode name [] [] [] [] SymbolTable_style False 0 0"

definition take_creation_order :: "group_node \<Rightarrow> group_node \<times> nat" where
  "take_creation_order g = (let order = gn_next_order g in (set_next_order (saturating_add order 1) g, order))"

definition push_dataset :: "dataset_desc \<Rightarrow> group_node \<Rightarrow> group_node" where
  "push_dataset desc g =
     (let (g, order) = take_creation_order g in
      set_datasets (gn_datasets g @ [desc\<lparr>dd_creation_order := order\<rparr>]) g)"

definition push_group :: "group_node \<Rightarrow> group_node \<Rightarrow> group_node" where
  "push_group node g =
     (let (g, order) = take_creation_order g in
      set_groups (gn_groups g @ [set_creation_order order node]) g)"

definition push_link :: "link_desc \<Rightarrow> group_node \<Rightarrow> group_node" where
  "push_link link g =
     (let (g, order) = take_creation_order g in
      set_links (gn_links g @ [link\<lparr>ld_creation_order := order\<rparr>]) g)"

definition require_link_messages :: "group_node \<Rightarrow> group_node" where
  "require_link_messages g =
     (case g of GroupNode nm ds gs ls at _ tr nx co \<Rightarrow> GroupNode nm ds gs ls at LinkMessage_style tr nx co)"

definition is_link_style :: "group_node \<Rightarrow> bool" where
  "is_link_style g = (gn_style g = LinkMessage_style)"

definition name_taken :: "group_node \<Rightarrow> str \<Rightarrow> bool" where
  "name_taken g name \<longleftrightarrow>
     (\<exists>ds\<in>set (gn_datasets g). dd_name ds = name) \<or> (\<exists>grp\<in>set (gn_groups g). gn_name grp = name) \<or>
     (\<exists>link\<in>set (gn_links g). ld_name link = name)"

section \<open>Paths\<close>

abbreviation (input) MAX_PATH_DEPTH :: nat where "MAX_PATH_DEPTH \<equiv> 64"

text \<open>\<^verbatim>\<open>str::split('/')\<close>\<close>

fun split_slash :: "str \<Rightarrow> str list" where
  "split_slash [] = [[]]"
| "split_slash (c # cs) =
     (if c = 0x2f then [] # split_slash cs
      else (case split_slash cs of [] \<Rightarrow> [[c]] | s # ss \<Rightarrow> (c # s) # ss))"

definition strip_slash :: "str \<Rightarrow> str" where
  "strip_slash path = (case path of c # cs \<Rightarrow> if c = 0x2f then cs else path | [] \<Rightarrow> path)"

definition check_segment :: "str \<Rightarrow> unit res" where
  "check_segment segment =
     (if segment = [] then Inl Format
      else if segment = [0x2e] \<or> segment = [0x2e, 0x2e] then Inl Format
      else if 0 \<in> set segment then Inl Format
      else Inr ())"

definition split_path :: "str \<Rightarrow> str list res" where
  "split_path path =
     (let rest = strip_slash path in
      if rest = [] then Inr []
      else
        let segments = split_slash rest in
        if length segments > MAX_PATH_DEPTH then Inl Format
        else and_then (map_res check_segment segments) (\<lambda>_. Inr segments))"

type_synonym 'a updated = "group_node \<times> 'a res"

text \<open>A reference to a node of the tree: positions among the sub-groups.\<close>

type_synonym node_ref = "nat list"

fun node_at :: "group_node \<Rightarrow> node_ref \<Rightarrow> group_node" where
  "node_at g [] = g"
| "node_at g (i # r) = node_at (gn_groups g ! i) r"

fun update_at :: "(group_node \<Rightarrow> group_node) \<Rightarrow> node_ref \<Rightarrow> group_node \<Rightarrow> group_node" where
  "update_at f [] g = f g"
| "update_at f (i # r) g = set_groups ((gn_groups g)[i := update_at f r (gn_groups g ! i)]) g"

text \<open>Continuing after a step, with the tree it left.\<close>

definition and_upd :: "'a updated \<Rightarrow> (group_node \<Rightarrow> 'a \<Rightarrow> 'b updated) \<Rightarrow> 'b updated" where
  "and_upd m f = (case m of (g, Inl e) \<Rightarrow> (g, Inl e) | (g, Inr x) \<Rightarrow> f g x)"

fun group_mut :: "group_node \<Rightarrow> str list \<Rightarrow> bool \<Rightarrow> node_ref updated" where
  "group_mut node [] create = (node, Inr [])"
| "group_mut node (head # tail) create =
     (let descend = (\<lambda>node i.
        case get_elem (gn_groups node) i of
          Some child \<Rightarrow>
            (case group_mut child tail create of
               (child, r) \<Rightarrow> (set_groups ((gn_groups node)[i := child]) node, and_then r (\<lambda>p. Inr (i # p))))
        | None \<Rightarrow> (node, Inl Format)) in
      case position (\<lambda>grp. gn_name grp = head) (gn_groups node) of
        Some i \<Rightarrow> descend node i
      | None \<Rightarrow>
          if \<not> create then (node, Inl (NotFound head))
          else if \<exists>ds\<in>set (gn_datasets node). dd_name ds = head then (node, Inl Format)
          else if \<exists>link\<in>set (gn_links node). ld_name link = head then (node, Inl Format)
          else
            let node = push_group (group_new head) node in
            descend node (length (gn_groups node) - 1))"

definition insertion_point :: "group_node \<Rightarrow> str \<Rightarrow> (node_ref \<times> str) updated" where
  "insertion_point root path =
     and_upd (root, split_path path) (\<lambda>root segments.
       if segments = [] then (root, Inl Format)
       else
         and_upd (group_mut root (butlast segments) True) (\<lambda>root parent.
           if name_taken (node_at root parent) (last segments) then (root, Inl Format)
           else (root, Inr (parent, last segments))))"

datatype attrs_ref =
    Group_attrs node_ref
  | Dataset_attrs node_ref nat

definition attrs_mut :: "group_node \<Rightarrow> str \<Rightarrow> attrs_ref updated" where
  "attrs_mut root path =
     and_upd (root, split_path path) (\<lambda>root segments.
       if segments = [] then (root, Inr (Group_attrs []))
       else
         and_upd (group_mut root (butlast segments) False) (\<lambda>root parent.
           let node = node_at root parent; name = last segments in
           case position (\<lambda>ds. dd_name ds = name) (gn_datasets node) of
             Some i \<Rightarrow> (root, Inr (Dataset_attrs parent i))
           | None \<Rightarrow>
               (case position (\<lambda>grp. gn_name grp = name) (gn_groups node) of
                  Some i \<Rightarrow> (root, Inr (Group_attrs (parent @ [i])))
                | None \<Rightarrow>
                    if \<exists>link\<in>set (gn_links node). ld_name link = name then (root, Inl Format)
                    else (root, Inl (NotFound path)))))"

definition link_insertion_point :: "group_node \<Rightarrow> str \<Rightarrow> (node_ref \<times> str) updated" where
  "link_insertion_point root path = insertion_point root path"

definition dataset_mut :: "group_node \<Rightarrow> str \<Rightarrow> (node_ref \<times> nat) updated" where
  "dataset_mut root path =
     and_upd (root, split_path path) (\<lambda>root segments.
       if segments = [] then (root, Inl Format)
       else
         and_upd (group_mut root (butlast segments) False) (\<lambda>root parent.
           let node = node_at root parent; name = last segments in
           case position (\<lambda>ds. dd_name ds = name) (gn_datasets node) of
             Some i \<Rightarrow> (root, Inr (parent, i))
           | None \<Rightarrow>
               if \<exists>grp\<in>set (gn_groups node). gn_name grp = name then (root, Inl Format)
               else (root, Inl (NotFound path))))"


section \<open>What a tree stands for\<close>

datatype entry =
    E_dataset dataset_desc
  | E_group "attr_desc list" group_style bool
  | E_link link_kind

text \<open>Creation orders are erased: they are a matter of the group, not of the object.\<close>

definition leaf :: "group_node \<Rightarrow> str \<Rightarrow> entry option" where
  "leaf g name =
     (case find (\<lambda>ds. dd_name ds = name) (gn_datasets g) of
        Some ds \<Rightarrow> Some (E_dataset (ds\<lparr>dd_creation_order := 0\<rparr>))
      | None \<Rightarrow> map_option (\<lambda>l. E_link (ld_kind l)) (find (\<lambda>l. ld_name l = name) (gn_links g)))"

definition child :: "group_node \<Rightarrow> str \<Rightarrow> group_node option" where
  "child g name = find (\<lambda>grp. gn_name grp = name) (gn_groups g)"

fun object_at :: "group_node \<Rightarrow> str list \<Rightarrow> entry option" where
  "object_at g [] = Some (E_group (gn_attrs g) (gn_style g) (gn_track_order g))"
| "object_at g (h # t) =
     (case child g h of
        Some c \<Rightarrow> object_at c t
      | None \<Rightarrow> if t = [] then leaf g h else None)"

definition names_of :: "group_node \<Rightarrow> str list" where
  "names_of g = map dd_name (gn_datasets g) @ map gn_name (gn_groups g) @ map ld_name (gn_links g)"

definition orders_of :: "group_node \<Rightarrow> nat list" where
  "orders_of g = map dd_creation_order (gn_datasets g) @ map gn_creation_order (gn_groups g) @ map ld_creation_order (gn_links g)"

definition segment_ok :: "str \<Rightarrow> bool" where
  "segment_ok s \<longleftrightarrow> check_segment s = Inr () \<and> 0x2f \<notin> set s"

text \<open>One group: its member names are legal and name one member each; until the counter saturates,
  so are its creation orders.\<close>

definition node_ok :: "group_node \<Rightarrow> bool" where
  "node_ok g \<longleftrightarrow> distinct (names_of g) \<and> (\<forall>n\<in>set (names_of g). segment_ok n) \<and>
     (gn_next_order g < u64_max \<longrightarrow> distinct (orders_of g) \<and> (\<forall>k\<in>set (orders_of g). k < gn_next_order g))"

fun tree_ok :: "group_node \<Rightarrow> bool" where
  "tree_ok (GroupNode nm ds gs ls at st tr nx co) =
     (node_ok (GroupNode nm ds gs ls at st tr nx co) \<and> (\<forall>g\<in>set gs. tree_ok g))"

lemma tree_ok_iff: "tree_ok g \<longleftrightarrow> node_ok g \<and> (\<forall>c\<in>set (gn_groups g). tree_ok c)"
  by (cases g) simp

lemma fields_of_updates [simp]:
  "gn_name (set_groups gs g) = gn_name g" "gn_datasets (set_groups gs g) = gn_datasets g" "gn_groups (set_groups gs g) = gs"
  "gn_links (set_groups gs g) = gn_links g" "gn_attrs (set_groups gs g) = gn_attrs g" "gn_style (set_groups gs g) = gn_style g"
  "gn_track_order (set_groups gs g) = gn_track_order g" "gn_next_order (set_groups gs g) = gn_next_order g"
  "gn_creation_order (set_groups gs g) = gn_creation_order g"
  "gn_name (set_datasets ds g) = gn_name g" "gn_datasets (set_datasets ds g) = ds" "gn_groups (set_datasets ds g) = gn_groups g"
  "gn_links (set_datasets ds g) = gn_links g" "gn_attrs (set_datasets ds g) = gn_attrs g" "gn_style (set_datasets ds g) = gn_style g"
  "gn_track_order (set_datasets ds g) = gn_track_order g" "gn_next_order (set_datasets ds g) = gn_next_order g"
  "gn_creation_order (set_datasets ds g) = gn_creation_order g"
  "gn_name (set_links ls g) = gn_name g" "gn_datasets (set_links ls g) = gn_datasets g" "gn_groups (set_links ls g) = gn_groups g"
  "gn_links (set_links ls g) = ls" "gn_attrs (set_links ls g) = gn_attrs g" "gn_style (set_links ls g) = gn_style g"
  "gn_track_order (set_links ls g) = gn_track_order g" "gn_next_order (set_links ls g) = gn_next_order g"
  "gn_creation_order (set_links ls g) = gn_creation_order g"
  "gn_name (set_next_order k g) = gn_name g" "gn_datasets (set_next_order k g) = gn_datasets g"
  "gn_groups (set_next_order k g) = gn_groups g" "gn_links (set_next_order k g) = gn_links g" "gn_attrs (set_next_order k g) = gn_attrs g"
  "gn_style (set_next_order k g) = gn_style g" "gn_track_order (set_next_order k g) = gn_track_order g"
  "gn_next_order (set_next_order k g) = k" "gn_creation_order (set_next_order k g) = gn_creation_order g"
  by (simp_all add: set_groups_def set_datasets_def set_links_def set_next_order_def split: group_node.split)

lemma more_fields_of_updates [simp]:
  "gn_name (set_attrs at g) = gn_name g" "gn_datasets (set_attrs at g) = gn_datasets g" "gn_groups (set_attrs at g) = gn_groups g"
  "gn_links (set_attrs at g) = gn_links g" "gn_attrs (set_attrs at g) = at" "gn_style (set_attrs at g) = gn_style g"
  "gn_track_order (set_attrs at g) = gn_track_order g" "gn_next_order (set_attrs at g) = gn_next_order g"
  "gn_creation_order (set_attrs at g) = gn_creation_order g"
  "gn_name (set_creation_order k g) = gn_name g" "gn_datasets (set_creation_order k g) = gn_datasets g"
  "gn_groups (set_creation_order k g) = gn_groups g" "gn_links (set_creation_order k g) = gn_links g"
  "gn_attrs (set_creation_order k g) = gn_attrs g" "gn_style (set_creation_order k g) = gn_style g"
  "gn_track_order (set_creation_order k g) = gn_track_order g" "gn_next_order (set_creation_order k g) = gn_next_order g"
  "gn_creation_order (set_creation_order k g) = k"
  "gn_name (require_link_messages g) = gn_name g" "gn_datasets (require_link_messages g) = gn_datasets g"
  "gn_groups (require_link_messages g) = gn_groups g" "gn_links (require_link_messages g) = gn_links g"
  "gn_attrs (require_link_messages g) = gn_attrs g" "gn_style (require_link_messages g) = LinkMessage_style"
  "gn_track_order (require_link_messages g) = gn_track_order g" "gn_next_order (require_link_messages g) = gn_next_order g"
  "gn_creation_order (require_link_messages g) = gn_creation_order g"
  "gn_name (set_track_order_field b g) = gn_name g" "gn_datasets (set_track_order_field b g) = gn_datasets g"
  "gn_groups (set_track_order_field b g) = gn_groups g" "gn_links (set_track_order_field b g) = gn_links g"
  "gn_attrs (set_track_order_field b g) = gn_attrs g" "gn_style (set_track_order_field b g) = gn_style g"
  "gn_track_order (set_track_order_field b g) = b" "gn_next_order (set_track_order_field b g) = gn_next_order g"
  "gn_creation_order (set_track_order_field b g) = gn_creation_order g"
  by (simp_all add: set_attrs_def set_creation_order_def require_link_messages_def set_track_order_field_def split: group_node.split)

lemma set_groups_same [simp]: "set_groups (gn_groups g) g = g"
  by (cases g) (simp add: set_groups_def)

lemma fields_of_new [simp]:
  "gn_name (group_new n) = n" "gn_datasets (group_new n) = []" "gn_groups (group_new n) = []" "gn_links (group_new n) = []"
  "gn_attrs (group_new n) = []" "gn_style (group_new n) = SymbolTable_style" "gn_track_order (group_new n) = False"
  "gn_next_order (group_new n) = 0"
  by (simp_all add: group_new_def)

text \<open>Lists of members with distinct names.\<close>

lemma find_position: "find P xs = map_option ((!) xs) (position P xs)"
  by (induction xs) (auto simp: option.map_comp comp_def)

lemma position_key:
  assumes "distinct (map key xs)" "i < length xs" "key (xs ! i) = k"
  shows "position (\<lambda>x. key x = k) xs = Some i"
  using assms by (auto simp: position_Some_iff distinct_conv_nth)

lemma find_update:
  assumes "distinct (map key xs)" "i < length xs" "key y = key (xs ! i)"
  shows "find (\<lambda>x. key x = k) (xs[i := y]) = (if k = key y then Some y else find (\<lambda>x. key x = k) xs)"
proof (cases "k = key y")
  case True
  have "map key (xs[i := y]) = map key xs" using assms(3) by (metis list_update_id map_update nth_map assms(2))
  then show ?thesis using position_key [of key "xs[i := y]" i k] assms True by (simp add: find_position)
next
  case False
  then have "position (\<lambda>x. key x = k) (xs[i := y]) = position (\<lambda>x. key x = k) xs"
    using assms(2,3) by (induction xs arbitrary: i) (auto simp: nth_Cons' split: nat.split)
  moreover have "xs[i := y] ! j = xs ! j" if "position (\<lambda>x. key x = k) xs = Some j" for j
    using that False assms(3) by (cases "i = j") (auto simp: position_Some_iff)
  ultimately show ?thesis using False
    by (cases "position (\<lambda>x. key x = k) xs") (simp_all add: find_position)
qed


section \<open>Walking and updating the tree\<close>

text \<open>\<open>leads g segs r\<close>: the positions \<open>r\<close> are those of the groups named \<open>segs\<close>.\<close>

fun leads :: "group_node \<Rightarrow> str list \<Rightarrow> node_ref \<Rightarrow> bool" where
  "leads g [] [] = True"
| "leads g (s # segs) (i # r) \<longleftrightarrow>
     i < length (gn_groups g) \<and> gn_name (gn_groups g ! i) = s \<and> leads (gn_groups g ! i) segs r"
| "leads g _ _ = False"

lemma names_distinct:
  assumes "node_ok g"
  shows "distinct (map dd_name (gn_datasets g))" "distinct (map gn_name (gn_groups g))" "distinct (map ld_name (gn_links g))"
  using assms by (simp_all add: node_ok_def names_of_def)

lemma tree_okD: "tree_ok g \<Longrightarrow> node_ok g" "tree_ok g \<Longrightarrow> i < length (gn_groups g) \<Longrightarrow> tree_ok (gn_groups g ! i)"
  by (subst (asm) tree_ok_iff, simp)+

lemma tree_okI: "node_ok g \<Longrightarrow> (\<And>i. i < length (gn_groups g) \<Longrightarrow> tree_ok (gn_groups g ! i)) \<Longrightarrow> tree_ok g"
  by (subst tree_ok_iff) (auto simp: in_set_conv_nth)

lemma child_nth: "tree_ok g \<Longrightarrow> i < length (gn_groups g) \<Longrightarrow> child g (gn_name (gn_groups g ! i)) = Some (gn_groups g ! i)"
  using position_key [OF names_distinct(2), of g i] tree_okD(1) by (simp add: child_def find_position)

lemma child_update:
  assumes "tree_ok g" "i < length (gn_groups g)" "gn_name c = gn_name (gn_groups g ! i)"
  shows "child (set_groups ((gn_groups g)[i := c]) g) n = (if n = gn_name c then Some c else child g n)"
  using find_update [OF names_distinct(2) assms(2,3)] tree_okD(1) [OF assms(1)] by (simp add: child_def)

lemma leaf_set_groups [simp]: "leaf (set_groups gs g) n = leaf g n"
  by (simp add: leaf_def cong: option.case_cong)

lemma object_at_child_update:
  assumes "tree_ok g" "i < length (gn_groups g)" "gn_name c = gn_name (gn_groups g ! i)"
  shows "object_at (set_groups ((gn_groups g)[i := c]) g) p =
    (case p of [] \<Rightarrow> object_at g [] | h # t \<Rightarrow> if h = gn_name c then object_at c t else object_at g p)"
  using child_update [OF assms] by (cases p) (auto split: option.split)

lemma node_ok_child_update:
  assumes "node_ok g" "i < length (gn_groups g)" "gn_name c = gn_name (gn_groups g ! i)"
    "gn_creation_order c = gn_creation_order (gn_groups g ! i)"
  shows "node_ok (set_groups ((gn_groups g)[i := c]) g)"
proof -
  have "map gn_name ((gn_groups g)[i := c]) = map gn_name (gn_groups g)"
    "map gn_creation_order ((gn_groups g)[i := c]) = map gn_creation_order (gn_groups g)"
    using assms by (metis list_update_id map_update nth_map)+
  then show ?thesis using assms(1) by (simp add: node_ok_def names_of_def orders_of_def)
qed

lemma tree_ok_child_update:
  assumes "tree_ok g" "i < length (gn_groups g)" "gn_name c = gn_name (gn_groups g ! i)"
    "gn_creation_order c = gn_creation_order (gn_groups g ! i)" "tree_ok c"
  shows "tree_ok (set_groups ((gn_groups g)[i := c]) g)"
proof (rule tree_okI)
  show "node_ok (set_groups ((gn_groups g)[i := c]) g)" using node_ok_child_update assms tree_okD(1) by blast
  show "tree_ok (gn_groups (set_groups ((gn_groups g)[i := c]) g) ! j)" if "j < length (gn_groups (set_groups ((gn_groups g)[i := c]) g))" for j
    using that assms(2,5) tree_okD(2) [OF assms(1)] by (simp add: nth_list_update)
qed

lemma leads_tree_ok: "tree_ok g \<Longrightarrow> leads g segs r \<Longrightarrow> tree_ok (node_at g r)"
  by (induction g segs r rule: leads.induct) (auto intro: tree_okD)

text \<open>An update of a node is seen below its path and nowhere else.\<close>

lemma update_at_spec:
  assumes "tree_ok g" "leads g segs r" "gn_name (f (node_at g r)) = gn_name (node_at g r)"
  shows "gn_name (update_at f r g) = gn_name g \<and>
    (\<forall>p. object_at (update_at f r g) p = (if prefix segs p then object_at (f (node_at g r)) (drop (length segs) p) else object_at g p)) \<and>
    (tree_ok (f (node_at g r)) \<and> gn_creation_order (f (node_at g r)) = gn_creation_order (node_at g r) \<longrightarrow>
      tree_ok (update_at f r g) \<and> gn_creation_order (update_at f r g) = gn_creation_order g)"
  using assms
proof (induction g segs r rule: leads.induct)
  case (2 g s segs i r)
  let ?c = "gn_groups g ! i" and ?n = "f (node_at g (i # r))"
  have c: "tree_ok ?c" "leads ?c segs r" "i < length (gn_groups g)" "gn_name ?c = s"
    using "2.prems"(1-2) by (auto intro: tree_okD)
  have ih: "gn_name (update_at f r ?c) = gn_name ?c"
    "\<And>q. object_at (update_at f r ?c) q = (if prefix segs q then object_at ?n (drop (length segs) q) else object_at ?c q)"
    "tree_ok ?n \<and> gn_creation_order ?n = gn_creation_order (node_at g (i # r)) \<longrightarrow>
       tree_ok (update_at f r ?c) \<and> gn_creation_order (update_at f r ?c) = gn_creation_order ?c"
    using "2.IH" c "2.prems"(3) by simp_all
  have s: "child g s = Some ?c" using child_nth [of g i] "2.prems"(1) c by simp
  have "object_at (update_at f (i # r) g) p =
      (if prefix (s # segs) p then object_at ?n (drop (length (s # segs)) p) else object_at g p)" for p
    using object_at_child_update [OF "2.prems"(1) c(3) ih(1), of p] ih(1) c(4) ih(2) s by (cases p) auto
  moreover have "tree_ok ?n \<and> gn_creation_order ?n = gn_creation_order (node_at g (i # r)) \<longrightarrow>
      tree_ok (update_at f (i # r) g)"
    using ih(3) tree_ok_child_update [OF "2.prems"(1) c(3) ih(1)] by simp
  ultimately show ?case by simp
qed auto

section \<open>Members\<close>

lemma push_fields [simp]:
  "gn_name (push_dataset d g) = gn_name g" "gn_name (push_group c g) = gn_name g" "gn_name (push_link l g) = gn_name g"
  "gn_groups (push_dataset d g) = gn_groups g" "gn_groups (push_link l g) = gn_groups g"
  "gn_groups (push_group c g) = gn_groups g @ [set_creation_order (gn_next_order g) c]"
  "gn_datasets (push_dataset d g) = gn_datasets g @ [d\<lparr>dd_creation_order := gn_next_order g\<rparr>]"
  "gn_datasets (push_group c g) = gn_datasets g" "gn_datasets (push_link l g) = gn_datasets g"
  "gn_links (push_dataset d g) = gn_links g" "gn_links (push_group c g) = gn_links g"
  "gn_links (push_link l g) = gn_links g @ [l\<lparr>ld_creation_order := gn_next_order g\<rparr>]"
  "gn_attrs (push_dataset d g) = gn_attrs g" "gn_attrs (push_group c g) = gn_attrs g" "gn_attrs (push_link l g) = gn_attrs g"
  "gn_style (push_dataset d g) = gn_style g" "gn_style (push_group c g) = gn_style g" "gn_style (push_link l g) = gn_style g"
  "gn_track_order (push_dataset d g) = gn_track_order g" "gn_track_order (push_group c g) = gn_track_order g"
  "gn_track_order (push_link l g) = gn_track_order g"
  "gn_creation_order (push_dataset d g) = gn_creation_order g" "gn_creation_order (push_group c g) = gn_creation_order g"
  "gn_creation_order (push_link l g) = gn_creation_order g"
  "gn_next_order (push_dataset d g) = saturating_add (gn_next_order g) 1"
  "gn_next_order (push_group c g) = saturating_add (gn_next_order g) 1"
  "gn_next_order (push_link l g) = saturating_add (gn_next_order g) 1"
  by (simp_all add: push_dataset_def push_group_def push_link_def take_creation_order_def Let_def)

lemma name_taken_iff: "name_taken g n \<longleftrightarrow> n \<in> set (names_of g)"
  by (auto simp: name_taken_def names_of_def)

lemma members_of_push:
  "mset (names_of (push_dataset d g)) = mset (dd_name d # names_of g)"
  "mset (names_of (push_group c g)) = mset (gn_name c # names_of g)"
  "mset (names_of (push_link l g)) = mset (ld_name l # names_of g)"
  "mset (orders_of (push_dataset d g)) = mset (gn_next_order g # orders_of g)"
  "mset (orders_of (push_group c g)) = mset (gn_next_order g # orders_of g)"
  "mset (orders_of (push_link l g)) = mset (gn_next_order g # orders_of g)"
  by (simp_all add: names_of_def orders_of_def)

lemma node_ok_grow:
  assumes "node_ok g" "\<not> name_taken g n" "segment_ok n"
    and "mset (names_of g') = mset (n # names_of g)" "mset (orders_of g') = mset (gn_next_order g # orders_of g)"
    and "gn_next_order g' = saturating_add (gn_next_order g) 1"
  shows "node_ok g'"
proof -
  have "distinct (names_of g') \<longleftrightarrow> distinct (n # names_of g)" "set (names_of g') = set (n # names_of g)"
    "distinct (orders_of g') \<longleftrightarrow> distinct (gn_next_order g # orders_of g)" "set (orders_of g') = set (gn_next_order g # orders_of g)"
    using assms(4,5) by (blast dest: mset_eq_imp_distinct_iff mset_eq_setD)+
  moreover have "gn_next_order g' < u64_max \<Longrightarrow> gn_next_order g' = Suc (gn_next_order g) \<and> gn_next_order g < u64_max"
    by (auto simp: assms(6) saturating_add_def min_def split: if_splits)
  ultimately show ?thesis using assms(1-3) unfolding node_ok_def name_taken_iff by (auto intro: less_SucI)
qed

lemma node_ok_push:
  assumes "node_ok g" "\<not> name_taken g n" "segment_ok n"
  shows "dd_name d = n \<Longrightarrow> node_ok (push_dataset d g)" "gn_name c = n \<Longrightarrow> node_ok (push_group c g)"
    "ld_name l = n \<Longrightarrow> node_ok (push_link l g)"
  by (rule node_ok_grow [OF assms]; simp add: members_of_push)+


text \<open>Lookups after an insertion.\<close>

lemma not_taken:
  assumes "\<not> name_taken g n"
  shows "child g n = None" "leaf g n = None"
    "find (\<lambda>ds. dd_name ds = n) (gn_datasets g) = None" "find (\<lambda>l. ld_name l = n) (gn_links g) = None"
proof -
  show f: "find (\<lambda>ds. dd_name ds = n) (gn_datasets g) = None" "find (\<lambda>l. ld_name l = n) (gn_links g) = None"
    and "child g n = None"
    using assms by (auto simp: name_taken_def child_def find_None_iff)
  show "leaf g n = None" by (simp add: leaf_def f)
qed

lemma find_snoc: "find P (xs @ [x]) = (case find P xs of Some y \<Rightarrow> Some y | None \<Rightarrow> if P x then Some x else None)"
  by (induction xs) auto

lemma object_at_creation_order [simp]: "object_at (set_creation_order k g) p = object_at g p"
  by (cases p) (simp_all add: child_def leaf_def cong: option.case_cong)

lemma object_at_push_dataset:
  assumes "\<not> name_taken g (dd_name d)"
  shows "object_at (push_dataset d g) p = (if p = [dd_name d] then Some (E_dataset (d\<lparr>dd_creation_order := 0\<rparr>)) else object_at g p)"
proof (cases p)
  case (Cons h t)
  have "child (push_dataset d g) h = child g h" by (simp add: child_def)
  moreover have "leaf (push_dataset d g) h = (if h = dd_name d then Some (E_dataset (d\<lparr>dd_creation_order := 0\<rparr>)) else leaf g h)"
    using not_taken(3,4) [OF assms] by (auto simp: leaf_def find_snoc split: option.splits)
  ultimately show ?thesis using not_taken(1) [OF assms] Cons by (auto split: option.split)
qed simp

lemma object_at_push_link:
  assumes "\<not> name_taken g (ld_name l)"
  shows "object_at (push_link l g) p = (if p = [ld_name l] then Some (E_link (ld_kind l)) else object_at g p)"
proof (cases p)
  case (Cons h t)
  have "child (push_link l g) h = child g h" by (simp add: child_def)
  moreover have "leaf (push_link l g) h = (if h = ld_name l then Some (E_link (ld_kind l)) else leaf g h)"
    using not_taken(3,4) [OF assms] by (auto simp: leaf_def find_snoc split: option.splits)
  ultimately show ?thesis using not_taken(1) [OF assms] Cons by (auto split: option.split)
qed simp

lemma child_push_group:
  assumes "\<not> name_taken g (gn_name c)"
  shows "child (push_group c g) n = (if n = gn_name c then Some (set_creation_order (gn_next_order g) c) else child g n)"
  using not_taken(1) [OF assms] by (auto simp: child_def find_snoc split: option.split)

lemma leaf_push_group [simp]: "leaf (push_group c g) n = leaf g n"
  by (simp add: leaf_def cong: option.case_cong)

lemma object_at_push_group:
  assumes "\<not> name_taken g (gn_name c)"
  shows "object_at (push_group c g) p =
    (case p of [] \<Rightarrow> object_at g [] | h # t \<Rightarrow> if h = gn_name c then object_at c t else object_at g p)"
  using child_push_group [OF assms] by (cases p) (auto split: option.split)

section \<open>Creating groups on the way\<close>

abbreviation new_group :: entry where
  "new_group \<equiv> E_group [] SymbolTable_style False"

text \<open>No dataset and no link stands in the way.\<close>

fun passable :: "group_node \<Rightarrow> str list \<Rightarrow> bool" where
  "passable g [] = True"
| "passable g (h # t) = (case child g h of Some c \<Rightarrow> passable c t | None \<Rightarrow> leaf g h = None)"

definition grown :: "group_node \<Rightarrow> str list \<Rightarrow> str list \<Rightarrow> entry option" where
  "grown g segs p = (if object_at g p = None \<and> prefix p segs then Some new_group else object_at g p)"

definition walked :: "group_node \<Rightarrow> str list \<Rightarrow> node_ref updated \<Rightarrow> bool" where
  "walked g segs = (\<lambda>(g', r).
     case r of
       Inl e \<Rightarrow> e = Format \<and> g' = g \<and> \<not> passable g segs
     | Inr ref \<Rightarrow> passable g segs \<and> leads g' segs ref \<and> tree_ok g' \<and> gn_name g' = gn_name g \<and>
         gn_creation_order g' = gn_creation_order g \<and> (\<forall>p. object_at g' p = grown g segs p))"

lemma group_mut_found:
  assumes "position (\<lambda>grp. gn_name grp = h) (gn_groups g) = Some i"
  shows "group_mut g (h # t) create =
    (case group_mut (gn_groups g ! i) t create of
       (c, r) \<Rightarrow> (set_groups ((gn_groups g)[i := c]) g, and_then r (\<lambda>p. Inr (i # p))))"
proof -
  have "i < length (gn_groups g)" using assms by (simp add: position_Some_iff)
  then show ?thesis by (simp add: assms Let_def get_elem_def)
qed

lemma leaf_None_iff:
  "leaf g h = None \<longleftrightarrow> \<not> (\<exists>ds\<in>set (gn_datasets g). dd_name ds = h) \<and> \<not> (\<exists>l\<in>set (gn_links g). ld_name l = h)"
proof (cases "find (\<lambda>ds. dd_name ds = h) (gn_datasets g)")
  case None
  then show ?thesis by (simp add: leaf_def) (auto simp: find_None_iff)
next
  case (Some d)
  then have "\<exists>ds\<in>set (gn_datasets g). dd_name ds = h" by (auto simp: find_Some_iff)
  then show ?thesis by (simp add: leaf_def Some)
qed

lemma group_mut_absent:
  assumes "position (\<lambda>grp. gn_name grp = h) (gn_groups g) = None"
  shows "group_mut g (h # t) False = (g, Inl (NotFound h))"
    and "leaf g h \<noteq> None \<Longrightarrow> group_mut g (h # t) True = (g, Inl Format)"
    and "leaf g h = None \<Longrightarrow> group_mut g (h # t) True =
      (let g1 = push_group (group_new h) g; i = length (gn_groups g) in
       case group_mut (gn_groups g1 ! i) t True of
         (c, r) \<Rightarrow> (set_groups ((gn_groups g1)[i := c]) g1, and_then r (\<lambda>p. Inr (i # p))))"
proof -
  show "group_mut g (h # t) False = (g, Inl (NotFound h))" by (simp add: assms)
  show "group_mut g (h # t) True = (g, Inl Format)" if "leaf g h \<noteq> None"
    using that unfolding leaf_None_iff by (auto simp: assms)
  show "group_mut g (h # t) True =
      (let g1 = push_group (group_new h) g; i = length (gn_groups g) in
       case group_mut (gn_groups g1 ! i) t True of
         (c, r) \<Rightarrow> (set_groups ((gn_groups g1)[i := c]) g1, and_then r (\<lambda>p. Inr (i # p))))" if "leaf g h = None"
    using that unfolding leaf_None_iff by (simp add: assms Let_def get_elem_def)
qed

lemma tree_ok_new: "tree_ok (set_creation_order k (group_new n))"
  by (rule tree_okI) (simp_all add: node_ok_def names_of_def orders_of_def)

lemma tree_ok_push_group:
  assumes "tree_ok g" "tree_ok c" "\<not> name_taken g (gn_name c)" "segment_ok (gn_name c)"
  shows "tree_ok (push_group c g)"
proof (rule tree_okI)
  show "node_ok (push_group c g)" using node_ok_push(2) assms tree_okD(1) by blast
  have "tree_ok (set_creation_order k c)" for k
    using assms(2) by (cases c) (simp add: set_creation_order_def node_ok_def names_of_def orders_of_def)
  then show "tree_ok (gn_groups (push_group c g) ! i)" if "i < length (gn_groups (push_group c g))" for i
    using that tree_okD(2) [OF assms(1)] by (auto simp: nth_append less_Suc_eq)
qed


text \<open>With \<open>create = False\<close> the walk reads the tree and leaves it as it was.\<close>

lemma group_mut_False:
  "tree_ok g \<Longrightarrow> fst (group_mut g segs False) = g \<and>
    (case snd (group_mut g segs False) of
       Inr ref \<Rightarrow> leads g segs ref
     | Inl e \<Rightarrow> (\<exists>h. h \<in> set segs \<and> e = NotFound h) \<and> (\<forall>r. \<not> leads g segs r))"
proof (induction segs arbitrary: g)
  case (Cons h t)
  show ?case
  proof (cases "position (\<lambda>grp. gn_name grp = h) (gn_groups g)")
    case None
    then have "\<not> leads g (h # t) r" for r
      by (cases r) (auto simp: position_None_iff)
    then show ?thesis by (simp only: group_mut_absent(1) [OF None]) auto
  next
    case (Some i)
    then have i: "i < length (gn_groups g)" "gn_name (gn_groups g ! i) = h" by (auto simp: position_Some_iff)
    obtain c r where r: "group_mut (gn_groups g ! i) t False = (c, r)" by fastforce
    have ih: "c = gn_groups g ! i" "case r of Inr ref \<Rightarrow> leads c t ref
      | Inl e \<Rightarrow> (\<exists>h. h \<in> set t \<and> e = NotFound h) \<and> (\<forall>r. \<not> leads c t r)"
      using Cons.IH [OF tree_okD(2) [OF Cons.prems i(1)]] r by (auto split: sum.splits)
    have same: "set_groups (gn_groups g) g = g" by (cases g) (simp add: set_groups_def)
    have j: "j = i" if "j < length (gn_groups g)" "gn_name (gn_groups g ! j) = h" for j
      using that i names_distinct(2) [OF tree_okD(1) [OF Cons.prems]] by (simp add: distinct_conv_nth) (metis nth_map length_map)
    show ?thesis
    proof (cases r)
      case (Inr ref)
      then show ?thesis using ih i by (simp only: group_mut_found [OF Some] r) (simp add: same)
    next
      case (Inl e)
      have "\<not> leads g (h # t) rr" for rr using ih Inl j by (cases rr) auto
      then show ?thesis using ih Inl by (simp only: group_mut_found [OF Some] r) (auto simp: same)
    qed
  qed
qed simp

lemma passable_new: "passable (set_creation_order k (group_new n)) segs"
  by (cases segs) (simp_all add: child_def leaf_def)

lemma object_at_new [simp]: "object_at (group_new n) p = (if p = [] then Some new_group else None)"
  by (cases p) (simp_all add: child_def leaf_def)

text \<open>With \<open>create = True\<close> it adds exactly the groups that are missing, or changes nothing.\<close>

lemma group_mut_True: "tree_ok g \<Longrightarrow> list_all segment_ok segs \<Longrightarrow> walked g segs (group_mut g segs True)"
proof (induction segs arbitrary: g)
  case Nil
  have "object_at g p = grown g [] p" for p by (cases p) (simp_all add: grown_def)
  then show ?case using Nil by (simp add: walked_def)
next
  case (Cons h t)
  have ok: "segment_ok h" "list_all segment_ok t" using Cons.prems by simp_all
  show ?case
  proof (cases "position (\<lambda>grp. gn_name grp = h) (gn_groups g)")
    case (Some i)
    then have i: "i < length (gn_groups g)" "gn_name (gn_groups g ! i) = h" by (auto simp: position_Some_iff)
    have ch: "child g h = Some (gn_groups g ! i)" using child_nth [OF Cons.prems(1) i(1)] i(2) by simp
    obtain c r where r: "group_mut (gn_groups g ! i) t True = (c, r)" by fastforce
    have ih: "walked (gn_groups g ! i) t (c, r)" using Cons.IH [OF tree_okD(2) [OF Cons.prems(1) i(1)] ok(2)] r by simp
    have same: "set_groups (gn_groups g) g = g" by (cases g) (simp add: set_groups_def)
    show ?thesis
    proof (cases r)
      case (Inl e)
      then show ?thesis using ih unfolding group_mut_found [OF Some] r by (simp add: walked_def same ch)
    next
      case (Inr ref)
      have w: "passable (gn_groups g ! i) t" "leads c t ref" "tree_ok c" "gn_name c = gn_name (gn_groups g ! i)"
        "gn_creation_order c = gn_creation_order (gn_groups g ! i)" "\<And>p. object_at c p = grown (gn_groups g ! i) t p"
        using ih Inr by (auto simp: walked_def)
      let ?g = "set_groups ((gn_groups g)[i := c]) g"
      have "object_at ?g p = grown g (h # t) p" for p
        using object_at_child_update [OF Cons.prems(1) i(1) w(4), of p] w(4,6) i(2) ch by (cases p) (auto simp: grown_def)
      then show ?thesis using w i tree_ok_child_update [OF Cons.prems(1) i(1) w(4,5,3)] ch
        unfolding group_mut_found [OF Some] r by (simp add: walked_def Inr)
    qed
  next
    case None
    then have ch: "child g h = None" by (auto simp: child_def find_None_iff position_None_iff)
    show ?thesis
    proof (cases "leaf g h = None")
      case False
      then show ?thesis using group_mut_absent(2) [OF None] ch by (simp add: walked_def del: group_mut.simps)
    next
      case True
      have nt: "\<not> name_taken g h" using True ch None unfolding leaf_None_iff by (auto simp: name_taken_def position_None_iff)
      let ?new = "group_new h" and ?g = "push_group (group_new h) g" and ?i = "length (gn_groups g)"
      have new: "gn_name ?new = h" by (simp add: group_new_def)
      have ok1: "tree_ok ?g" using tree_ok_push_group [of g ?new] Cons.prems(1) nt ok(1) tree_ok_new [of 0 h] new
        by (simp add: group_new_def set_creation_order_def)
      have at: "gn_groups ?g ! ?i = set_creation_order (gn_next_order g) ?new" "?i < length (gn_groups ?g)" by simp_all
      obtain c r where r: "group_mut (gn_groups ?g ! ?i) t True = (c, r)" by fastforce
      have ih: "walked (gn_groups ?g ! ?i) t (c, r)" using Cons.IH [OF tree_okD(2) [OF ok1 at(2)] ok(2)] r by simp
      then obtain ref where Inr: "r = Inr ref" using passable_new unfolding at(1) by (auto simp: walked_def split: sum.splits)
      have w: "leads c t ref" "tree_ok c" "gn_name c = gn_name (gn_groups ?g ! ?i)"
        "gn_creation_order c = gn_creation_order (gn_groups ?g ! ?i)" "\<And>p. object_at c p = grown (gn_groups ?g ! ?i) t p"
        using ih Inr by (auto simp: walked_def)
      have nm: "gn_name (gn_groups ?g ! ?i) = h" by (simp add: new set_creation_order_def group_new_def)
      let ?h = "set_groups ((gn_groups ?g)[?i := c]) ?g"
      have "object_at ?h p = grown g (h # t) p" for p
        using object_at_child_update [OF ok1 at(2) w(3), of p] object_at_push_group [of g ?new p] w(3,5) nm nt ch new True
        by (cases p) (auto simp: grown_def at(1) object_at_new)
      then show ?thesis using w nm at(2) ch True tree_ok_child_update [OF ok1 at(2) w(3,4,2)]
        group_mut_absent(3) [OF None True, of t] unfolding Let_def r by (simp add: walked_def Inr del: group_mut.simps)
    qed
  qed
qed


section \<open>Where an object can be inserted\<close>

lemma group_mut_leads: "tree_ok g \<Longrightarrow> leads g segs r \<Longrightarrow> group_mut g segs create = (g, Inr r)"
proof (induction g segs r rule: leads.induct)
  case (2 g s segs i r)
  then have i: "i < length (gn_groups g)" "gn_name (gn_groups g ! i) = s" and l: "leads (gn_groups g ! i) segs r" by auto
  have p: "position (\<lambda>grp. gn_name grp = s) (gn_groups g) = Some i"
    using position_key [OF names_distinct(2) [OF tree_okD(1) [OF "2.prems"(1)]] i] .
  show ?case using "2.IH" [OF tree_okD(2) [OF "2.prems"(1) i(1)] l] unfolding group_mut_found [OF p] by simp
qed auto

lemma object_at_leads: "tree_ok g \<Longrightarrow> leads g segs r \<Longrightarrow> object_at g (segs @ q) = object_at (node_at g r) q"
proof (induction g segs r rule: leads.induct)
  case (2 g s segs i r)
  then show ?case using child_nth [OF "2.prems"(1), of i] tree_okD(2) [OF "2.prems"(1)] by auto
qed auto

lemma object_at_parent: "object_at g (segs @ [n]) \<noteq> None \<Longrightarrow> \<exists>r. leads g segs r"
proof (induction segs arbitrary: g)
  case Nil
  show ?case by (rule exI [of _ "[]"]) simp
next
  case (Cons h t)
  show ?case
  proof (cases "child g h")
    case (Some c)
    then obtain i where i: "i < length (gn_groups g)" "gn_name (gn_groups g ! i) = h" "c = gn_groups g ! i"
      by (auto simp: child_def find_Some_iff)
    obtain r where "leads c t r" using Cons Some by auto
    then show ?thesis using i by (intro exI [of _ "i # r"]) simp
  qed (use Cons.prems in simp)
qed

lemma object_at_single: "object_at g [n] = None \<longleftrightarrow> \<not> name_taken g n"
proof -
  have "child g n = None \<longleftrightarrow> \<not> (\<exists>grp\<in>set (gn_groups g). gn_name grp = n)" by (auto simp: child_def find_None_iff)
  moreover have "object_at g [n] = None \<longleftrightarrow> child g n = None \<and> leaf g n = None" by (auto split: option.split)
  ultimately show ?thesis unfolding name_taken_def leaf_None_iff by (simp add: conj_ac del: object_at.simps)
qed

definition insertable :: "group_node \<Rightarrow> str \<Rightarrow> bool" where
  "insertable root path =
     (case split_path path of
        Inl _ \<Rightarrow> False
      | Inr segs \<Rightarrow> segs \<noteq> [] \<and> passable root (butlast segs) \<and> object_at root segs = None)"

lemma check_segment_Format: "check_segment s = Inl e \<Longrightarrow> e = Format"
  by (auto simp: check_segment_def split: if_splits)

lemma split_path_Inl: "split_path path = Inl e \<Longrightarrow> e = Format"
proof -
  have "map_res check_segment xs = Inl e \<Longrightarrow> e = Format" for xs
    by (induction xs) (auto simp: and_then_def check_segment_Format split: sum.splits)
  then show "split_path path = Inl e \<Longrightarrow> e = Format"
    by (auto simp: split_path_def Let_def and_then_def split: if_splits sum.splits)
qed

lemma split_slash_parts: "s \<in> set (split_slash cs) \<Longrightarrow> 0x2f \<notin> set s"
  by (induction cs arbitrary: s) (auto split: if_splits list.splits)

lemma split_path_segments:
  assumes "split_path path = Inr segs"
  shows "list_all segment_ok segs \<and> length segs \<le> 64"
proof -
  have "map_res check_segment xs = Inr ys \<Longrightarrow> \<forall>x\<in>set xs. check_segment x = Inr ()" for xs ys
    by (induction xs arbitrary: ys) (auto simp: and_then_Inr_iff)
  then show ?thesis using assms
    by (auto simp: split_path_def Let_def and_then_Inr_iff list_all_iff segment_ok_def split: if_splits dest: split_slash_parts)
qed

lemma insertion_point_spec:
  assumes "tree_ok root"
  shows "case insertion_point root path of
      (root', Inl e) \<Rightarrow> root' = root \<and> e = Format \<and> \<not> insertable root path
    | (root', Inr (parent, name)) \<Rightarrow>
        insertable root path \<and> tree_ok root' \<and> segment_ok name \<and> \<not> name_taken (node_at root' parent) name \<and>
        (\<exists>dir. split_path path = Inr (dir @ [name]) \<and> leads root' dir parent \<and>
          (\<forall>p. object_at root' p = grown root dir p))"
proof (cases "split_path path")
  case (Inl e)
  then show ?thesis by (simp add: insertion_point_def and_upd_def insertable_def split_path_Inl)
next
  case (Inr segs)
  show ?thesis
  proof (cases "segs = []")
    case True
    then show ?thesis by (simp add: insertion_point_def and_upd_def insertable_def Inr)
  next
    case False
    define dir name where "dir = butlast segs" and "name = last segs"
    have segs: "segs = dir @ [name]" using False by (simp add: dir_def name_def)
    have ok: "list_all segment_ok dir" "segment_ok name" using split_path_segments [OF Inr] by (simp_all add: segs)
    obtain g' r where gm: "group_mut root dir True = (g', r)" by fastforce
    have w: "walked root dir (g', r)" using group_mut_True [OF assms ok(1)] gm by simp
    show ?thesis
    proof (cases r)
      case (Inl e)
      then show ?thesis using w gm by (simp add: insertion_point_def and_upd_def insertable_def Inr segs walked_def)
    next
      case r: (Inr parent)
      have w: "passable root dir" "leads g' dir parent" "tree_ok g'" "\<And>p. object_at g' p = grown root dir p"
        using w r by (auto simp: walked_def)
      have "object_at g' (dir @ [name]) = object_at root (dir @ [name])" by (simp add: w(4) grown_def)
      then have nt: "name_taken (node_at g' parent) name \<longleftrightarrow> object_at root (dir @ [name]) \<noteq> None"
        using object_at_leads [OF w(3,2), of "[name]"] object_at_single [of "node_at g' parent" name] by auto
      show ?thesis
      proof (cases "name_taken (node_at g' parent) name")
        case True
        then obtain q where "leads root dir q" using nt object_at_parent by blast
        then have "g' = root" using group_mut_leads [OF assms] gm by auto
        then show ?thesis using True nt gm r by (simp add: insertion_point_def and_upd_def insertable_def Inr segs)
      next
        case fresh: False
        then show ?thesis using nt gm r w ok by (simp add: insertion_point_def and_upd_def insertable_def Inr segs)
      qed
    qed
  qed
qed


section \<open>Finding an object\<close>

lemma object_at_child_not_dataset: "object_at g p = Some (E_dataset d) \<Longrightarrow> p \<noteq> []"
  by (cases p) auto

lemma dataset_of_position:
  assumes "node_ok g" "position (\<lambda>ds. dd_name ds = name) (gn_datasets g) = Some i"
  shows "object_at g [name] = Some (E_dataset ((gn_datasets g ! i)\<lparr>dd_creation_order := 0\<rparr>))"
proof -
  have i: "i < length (gn_datasets g)" "dd_name (gn_datasets g ! i) = name" using assms(2) by (auto simp: position_Some_iff)
  then have "name \<in> set (map dd_name (gn_datasets g))" by (metis length_map nth_map nth_mem)
  then have "name \<notin> set (map gn_name (gn_groups g))" using assms(1) by (auto simp: node_ok_def names_of_def)
  then have "child g name = None" by (auto simp: child_def find_None_iff)
  moreover have "find (\<lambda>ds. dd_name ds = name) (gn_datasets g) = Some (gn_datasets g ! i)"
    using assms(2) by (simp add: find_position)
  ultimately show ?thesis by (simp add: leaf_def)
qed

definition is_dataset :: "entry option \<Rightarrow> bool" where
  "is_dataset e = (case e of Some (E_dataset _) \<Rightarrow> True | _ \<Rightarrow> False)"

definition dataset_path :: "group_node \<Rightarrow> str \<Rightarrow> bool" where
  "dataset_path root path = (case split_path path of Inl _ \<Rightarrow> False | Inr segs \<Rightarrow> is_dataset (object_at root segs))"

lemma no_position_no_dataset:
  assumes "position (\<lambda>ds. dd_name ds = name) (gn_datasets g) = None"
  shows "\<not> is_dataset (object_at g [name])"
proof -
  have "find (\<lambda>ds. dd_name ds = name) (gn_datasets g) = None" using assms by (simp add: find_position)
  then show ?thesis by (auto simp: leaf_def is_dataset_def split: option.split)
qed

text \<open>A dataset is found under its path and nowhere else; looking for one changes nothing.\<close>

lemma dataset_mut_spec:
  assumes "tree_ok root"
  shows "fst (dataset_mut root path) = root \<and>
    (case snd (dataset_mut root path) of
       Inl e \<Rightarrow> \<not> dataset_path root path
     | Inr (parent, i) \<Rightarrow>
         (\<exists>dir. split_path path = Inr (dir @ [dd_name (gn_datasets (node_at root parent) ! i)]) \<and> leads root dir parent \<and>
            i < length (gn_datasets (node_at root parent))))"
proof (cases "split_path path")
  case (Inl e)
  then show ?thesis by (simp add: dataset_mut_def and_upd_def dataset_path_def)
next
  case (Inr segs)
  show ?thesis
  proof (cases "segs = []")
    case True
    then show ?thesis by (simp add: dataset_mut_def and_upd_def dataset_path_def is_dataset_def Inr)
  next
    case False
    define dir name where "dir = butlast segs" and "name = last segs"
    have segs: "segs = dir @ [name]" using False by (simp add: dir_def name_def)
    obtain g' r where gm: "group_mut root dir False = (g', r)" by fastforce
    have g: "g' = root" and w: "case r of Inr ref \<Rightarrow> leads root dir ref | Inl e \<Rightarrow> \<forall>r. \<not> leads root dir r"
      using group_mut_False [OF assms, of dir] gm by (auto split: sum.splits)
    show ?thesis
    proof (cases r)
      case (Inl e)
      then have "object_at root segs = None" using w object_at_parent [of root dir name] Inl unfolding segs by fastforce
      then show ?thesis using gm g Inl by (simp add: dataset_mut_def and_upd_def dataset_path_def is_dataset_def Inr segs)
    next
      case r: (Inr parent)
      have l: "leads root dir parent" using w r by simp
      have e: "object_at root segs = object_at (node_at root parent) [name]" using object_at_leads [OF assms l] by (simp add: segs)
      show ?thesis
      proof (cases "position (\<lambda>ds. dd_name ds = name) (gn_datasets (node_at root parent))")
        case None
        then show ?thesis using gm g r e no_position_no_dataset [OF None]
          by (simp add: dataset_mut_def and_upd_def dataset_path_def Inr segs Let_def del: object_at.simps)
      next
        case (Some i)
        then have "i < length (gn_datasets (node_at root parent))" "dd_name (gn_datasets (node_at root parent) ! i) = name"
          by (auto simp: position_Some_iff)
        then show ?thesis using gm g r l Some by (simp add: dataset_mut_def and_upd_def Inr segs Let_def)
      qed
    qed
  qed
qed

section \<open>Changing a dataset in place\<close>

definition update_dataset :: "(dataset_desc \<Rightarrow> dataset_desc) \<Rightarrow> node_ref \<times> nat \<Rightarrow> group_node \<Rightarrow> group_node" where
  "update_dataset f at = (case at of (parent, i) \<Rightarrow>
     update_at (\<lambda>g. set_datasets ((gn_datasets g)[i := f (gn_datasets g ! i)]) g) parent)"

lemma object_at_update_member:
  assumes "node_ok g" "i < length (gn_datasets g)" "dd_name d = dd_name (gn_datasets g ! i)"
  shows "object_at (set_datasets ((gn_datasets g)[i := d]) g) p =
    (if p = [dd_name d] then Some (E_dataset (d\<lparr>dd_creation_order := 0\<rparr>)) else object_at g p)"
proof (cases p)
  case (Cons h t)
  have c: "child (set_datasets ((gn_datasets g)[i := d]) g) h = child g h" by (simp add: child_def)
  have "dd_name (gn_datasets g ! i) \<in> set (map dd_name (gn_datasets g))" using assms(2) by simp
  then have "dd_name d \<notin> set (map gn_name (gn_groups g))" using assms(1,3) unfolding node_ok_def names_of_def by auto
  then have n: "child g (dd_name d) = None" by (auto simp: child_def find_None_iff image_iff)
  have f: "find (\<lambda>ds. dd_name ds = h) ((gn_datasets g)[i := d]) =
      (if h = dd_name d then Some d else find (\<lambda>ds. dd_name ds = h) (gn_datasets g))"
    using find_update [OF names_distinct(1) [OF assms(1)] assms(2,3)] by simp
  have "leaf (set_datasets ((gn_datasets g)[i := d]) g) h =
      (if h = dd_name d then Some (E_dataset (d\<lparr>dd_creation_order := 0\<rparr>)) else leaf g h)"
    by (simp add: leaf_def f cong: option.case_cong)
  then show ?thesis using c n Cons by (auto split: option.split)
qed simp

lemma node_ok_update_member:
  assumes "node_ok g" "i < length (gn_datasets g)" "dd_name d = dd_name (gn_datasets g ! i)"
    "dd_creation_order d = dd_creation_order (gn_datasets g ! i)"
  shows "node_ok (set_datasets ((gn_datasets g)[i := d]) g)"
proof -
  have "map dd_name ((gn_datasets g)[i := d]) = map dd_name (gn_datasets g)"
    "map dd_creation_order ((gn_datasets g)[i := d]) = map dd_creation_order (gn_datasets g)"
    using assms by (metis list_update_id map_update nth_map)+
  then show ?thesis using assms(1) by (simp add: node_ok_def names_of_def orders_of_def)
qed

lemma update_dataset_spec:
  fixes f :: "dataset_desc \<Rightarrow> dataset_desc"
  assumes "tree_ok root" "leads root dir parent" "i < length (gn_datasets (node_at root parent))"
    and d: "d = gn_datasets (node_at root parent) ! i"
    and "dd_name (f d) = dd_name d" "dd_creation_order (f d) = dd_creation_order d"
  shows "tree_ok (update_dataset f (parent, i) root) \<and>
    object_at root (dir @ [dd_name d]) = Some (E_dataset (d\<lparr>dd_creation_order := 0\<rparr>)) \<and>
    (\<forall>p. object_at (update_dataset f (parent, i) root) p =
      (if p = dir @ [dd_name d] then Some (E_dataset ((f d)\<lparr>dd_creation_order := 0\<rparr>)) else object_at root p))"
proof -
  let ?n = "node_at root parent"
  let ?u = "\<lambda>g. set_datasets ((gn_datasets g)[i := f (gn_datasets g ! i)]) g"
  have ok: "tree_ok ?n" using leads_tree_ok assms(1,2) by blast
  have u: "tree_ok (?u ?n)"
  proof (rule tree_okI)
    show "node_ok (?u ?n)" using node_ok_update_member [OF tree_okD(1) [OF ok] assms(3), of "f d"] assms(5,6) d by simp
  qed (use tree_okD(2) [OF ok] in simp)
  have at: "object_at (update_at ?u parent root) p =
      (if prefix dir p then object_at (?u ?n) (drop (length dir) p) else object_at root p)" for p
    using update_at_spec [OF assms(1,2), of ?u] by simp
  have e: "object_at (?u ?n) q = (if q = [dd_name d] then Some (E_dataset ((f d)\<lparr>dd_creation_order := 0\<rparr>)) else object_at ?n q)" for q
    using object_at_update_member [OF tree_okD(1) [OF ok] assms(3), of "f d" q] assms(5) d by simp
  have "object_at ?n [dd_name d] = Some (E_dataset (d\<lparr>dd_creation_order := 0\<rparr>))"
    using dataset_of_position [OF tree_okD(1) [OF ok], of "dd_name d" i]
      position_key [OF names_distinct(1) [OF tree_okD(1) [OF ok]] assms(3)] d by simp
  then have "object_at root (dir @ [dd_name d]) = Some (E_dataset (d\<lparr>dd_creation_order := 0\<rparr>))"
    using object_at_leads [OF assms(1,2)] by simp
  moreover have "object_at (update_at ?u parent root) p =
      (if p = dir @ [dd_name d] then Some (E_dataset ((f d)\<lparr>dd_creation_order := 0\<rparr>)) else object_at root p)" for p
    using at [of p] e [of "drop (length dir) p"] object_at_leads [OF assms(1,2), of "drop (length dir) p"]
    by (auto simp: prefix_def simp del: object_at.simps)
  ultimately show ?thesis using u update_at_spec [OF assms(1,2), of ?u] by (simp add: update_dataset_def)
qed

end
