(* ===== verification/Odometer.thy ===== *)
theory Odometer
  imports Chunk_Geometry
begin

text \<open>
  Counting through the cells of a grid, last dimension fastest: the nested loops with a carry that
  the writer's \<^verbatim>\<open>end_offsets\<close> and \<^verbatim>\<open>Dataset::slice\<close> share, and what a loop over them computes.
\<close>

text \<open>
  \<open>step_odometer counts grid\<close> advances the last dimension that has room and resets those after it;
  it is \<open>None\<close> when the grid has wrapped past the last cell.
\<close>

fun step_odometer :: "nat list \<Rightarrow> nat list \<Rightarrow> nat list option" where
  "step_odometer (c # cs) (g # gs) =
     (case step_odometer cs gs of
        Some gs \<Rightarrow> Some (g # gs)
      | None \<Rightarrow> if g + 1 < c then Some ((g + 1) # map (\<lambda>_. 0) gs) else None)"
| "step_odometer _ _ = None"

text \<open>A bound on the work left to the odometer, whatever the grid.\<close>

fun odometer_rank :: "nat list \<Rightarrow> nat list \<Rightarrow> nat" where
  "odometer_rank (c # cs) (g # gs) = min g c * prod_list (map Suc cs) + odometer_rank cs gs"
| "odometer_rank _ _ = 0"

lemma odometer_rank_less: "odometer_rank cs gs < prod_list (map Suc cs)"
proof (induction cs gs rule: odometer_rank.induct)
  case (1 c cs g gs)
  have "min g c * prod_list (map Suc cs) \<le> c * prod_list (map Suc cs)" by (intro mult_le_mono1) simp
  from add_le_less_mono [OF this 1] show ?case by (simp add: add.commute)
qed (simp_all add: prod_list_pos)

lemma step_odometer_rank: "step_odometer cs gs = Some gs' \<Longrightarrow> odometer_rank cs gs < odometer_rank cs gs'"
proof (induction cs gs arbitrary: gs' rule: step_odometer.induct)
  case (1 c cs g gs)
  show ?case
  proof (cases "step_odometer cs gs")
    case None
    then show ?thesis using 1 odometer_rank_less [of cs gs] by (auto simp: min_def split: if_splits)
  next
    case (Some t)
    then show ?thesis using 1 by auto
  qed
qed auto

lemma step_odometer_coords:
  "inside gs cs \<Longrightarrow> step_odometer cs gs =
     (if Suc (flat_of cs gs) < prod_list cs then Some (coords_of cs (Suc (flat_of cs gs))) else None)"
proof (induction gs cs rule: list_all2_induct)
  case (Cons g gs c cs)
  let ?p = "prod_list cs"
  have f: "flat_of cs gs < ?p" using flat_of_less Cons(2) by blast
  have c: "Suc g * ?p \<le> c * ?p" using Cons(1) by (intro mult_le_mono1) simp
  show ?case
  proof (cases "Suc (flat_of cs gs) < ?p")
    case True
    then have "Suc (g * ?p + flat_of cs gs) < c * ?p" using c by simp
    moreover have "(Suc (g * ?p + flat_of cs gs)) div ?p = g" "(Suc (g * ?p + flat_of cs gs)) mod ?p = Suc (flat_of cs gs)"
      using True by (simp_all flip: add_Suc_right)
    ultimately show ?thesis using Cons.IH True by simp
  next
    case False
    then have e: "Suc (flat_of cs gs) = ?p" using f by simp
    then have s: "Suc (g * ?p + flat_of cs gs) = Suc g * ?p" by simp
    have "map (\<lambda>_. 0) gs = coords_of cs 0"
      using Cons(2) by (induction gs cs rule: list_all2_induct) auto
    moreover have "Suc g * ?p < c * ?p \<longleftrightarrow> Suc g < c" using f by (simp only: mult_less_cancel2) auto
    ultimately show ?thesis using Cons.IH False f unfolding flat_of.simps s by simp
  qed
qed simp

text \<open>A loop that runs its body once per cell.\<close>

function odometer_loop :: "nat list \<Rightarrow> (nat list \<Rightarrow> 's \<Rightarrow> 's res) \<Rightarrow> nat list \<Rightarrow> 's \<Rightarrow> 's res" where
  "odometer_loop dims body coords st =
     and_then (body coords st) (\<lambda>st.
       case step_odometer dims coords of None \<Rightarrow> Inr st | Some coords \<Rightarrow> odometer_loop dims body coords st)"
  by pat_completeness auto
termination
proof (relation "measure (\<lambda>(dims, body, coords, st). prod_list (map Suc dims) - odometer_rank dims coords)", goal_cases)
  case (2 dims body coords st st' coords')
  then show ?case using step_odometer_rank [OF 2(2)] odometer_rank_less [of dims coords] by simp
qed simp

declare odometer_loop.simps [simp del]

lemma odometer_loop_fold:
  "n < prod_list dims \<Longrightarrow>
   odometer_loop dims body (coords_of dims n) st = fold_res (\<lambda>k. body (coords_of dims k)) [n..<prod_list dims] st"
proof (induction "prod_list dims - n" arbitrary: n st rule: less_induct)
  case less
  have u: "[n..<prod_list dims] = n # [Suc n..<prod_list dims]" using less.prems by (rule upt_conv_Cons)
  have s: "step_odometer dims (coords_of dims n) = (if Suc n < prod_list dims then Some (coords_of dims (Suc n)) else None)"
    using step_odometer_coords [OF coords_of_inside [OF less.prems]] by (simp add: flat_coords [OF less.prems])
  show ?case
  proof (cases "Suc n < prod_list dims")
    case True
    then have "odometer_loop dims body (coords_of dims (Suc n)) st' =
        fold_res (\<lambda>k. body (coords_of dims k)) [Suc n..<prod_list dims] st'" for st'
      using less.hyps [of "Suc n"] by simp
    then show ?thesis using True s by (subst odometer_loop.simps) (simp add: u del: upt_Suc)
  next
    case False
    then have "[Suc n..<prod_list dims] = []" by simp
    then show ?thesis using False s
      by (subst odometer_loop.simps) (cases "body (coords_of dims n) st", simp_all add: u del: upt_Suc)
  qed
qed

end
