(* ===== verification/Write_Chunks.thy ===== *)
theory Write_Chunks
  imports Write_Tree Odometer
begin

text \<open>
  The first half of \<^verbatim>\<open>oxih5/src/write/chunked.rs\<close>: the chunk shape a tiled dataset is stored with,
  the chunks it is cut into, and the key that closes the chunk index, which bounds every chunk.
\<close>

abbreviation (input) MAX_CHUNKS :: nat where "MAX_CHUNKS \<equiv> 16777216"

section \<open>Geometry\<close>

definition chunk_shape_of :: "dataset_desc \<Rightarrow> nat list res" where
  "chunk_shape_of ds =
     (case dd_chunked ds of
        None \<Rightarrow> Inr []
      | Some (requested, unlimited_dim0) \<Rightarrow>
          if dd_shape ds = [] then Inl Format
          else if length requested > length (dd_shape ds) then Inl Format
          else
            map_res (\<lambda>(d, extent).
              let whole = max extent 1;
                  chunk = (case get_elem requested d of Some c \<Rightarrow> c | None \<Rightarrow> whole) in
              if chunk = 0 then Inl Format
              else
                let is_growth_dim = (d = 0 \<and> unlimited_dim0) in
                if \<not> is_growth_dim \<and> extent > 0 \<and> chunk > extent then Inl Format
                else Inr chunk)
              (enumerate 0 (dd_shape ds)))"

definition layout_chunk_dims :: "nat list \<Rightarrow> nat \<Rightarrow> nat list res" where
  "layout_chunk_dims chunk_shape elem_size =
     and_then (map_res (narrow u32_lim) chunk_shape) (\<lambda>dims.
     and_then (narrow u32_lim elem_size) (\<lambda>e. Inr (dims @ [e])))"

definition counts_of :: "nat list \<Rightarrow> nat list \<Rightarrow> nat list" where
  "counts_of shape chunk_shape = map (\<lambda>(extent, chunk). div_ceil extent chunk) (zip shape chunk_shape)"

text \<open>\<^verbatim>\<open>find_map\<close> over the comparison of a grid cell with the bound.\<close>

fun sorts_past :: "nat list \<Rightarrow> nat list \<Rightarrow> bool" where
  "sorts_past (g # gs) (bound # rt) = (if g > bound then True else if g < bound then False else sorts_past gs rt)"
| "sorts_past _ _ = False"

text \<open>The walk of \<^verbatim>\<open>end_offsets\<close> over the remaining cells.\<close>

function end_walk :: "nat list \<Rightarrow> nat list \<Rightarrow> nat list \<Rightarrow> nat list" where
  "end_walk counts grid rt =
     (case step_odometer counts grid of
        None \<Rightarrow> rt
      | Some grid \<Rightarrow> end_walk counts grid (if sorts_past grid rt then map (\<lambda>g. g + 1) grid else rt))"
  by pat_completeness auto
termination
proof (relation "measure (\<lambda>(counts, grid, rt). prod_list (map Suc counts) - odometer_rank counts grid)", goal_cases)
  case (2 counts grid rt grid')
  then show ?case using step_odometer_rank [OF 2] odometer_rank_less [of counts grid] by simp
qed simp

declare end_walk.simps [simp del]

definition scale_cell :: "nat list \<Rightarrow> nat list \<Rightarrow> nat list res" where
  "scale_cell cell chunk_shape = map_res (\<lambda>(scaled, chunk). umul scaled chunk) (zip cell chunk_shape)"

definition end_offsets :: "nat list \<Rightarrow> nat list \<Rightarrow> nat list res" where
  "end_offsets shape chunk_shape =
     (let counts = counts_of shape chunk_shape in
      if 0 \<in> set counts then scale_cell counts chunk_shape
      else
        let ndims = length counts in
        scale_cell (end_walk counts (replicate ndims 0) (replicate ndims 1)) chunk_shape)"

definition chunk_count :: "nat list \<Rightarrow> nat list \<Rightarrow> nat res" where
  "chunk_count shape chunk_shape =
     (let counts = counts_of shape chunk_shape in
      if 0 \<in> set counts then Inr 0
      else
        fold_res (\<lambda>count tot.
          let tot = min (tot * count) (2 ^ 128 - 1) in if tot > MAX_CHUNKS then Inl Format else Inr tot) counts 1)"

text \<open>The coordinates of a chunk, last dimension first, each scaled to its chunk extent.\<close>

definition chunk_origin :: "nat list \<Rightarrow> nat list \<Rightarrow> nat \<Rightarrow> nat list res" where
  "chunk_origin counts chunk_shape flat =
     and_then (fold_res (\<lambda>d (origin, rest).
         and_then (umul (rest mod counts ! d) (chunk_shape ! d)) (\<lambda>x.
           Inr (origin[d := x], rest div counts ! d)))
       (rev [0..<length counts]) (replicate (length counts) 0, flat)) (\<lambda>(origin, rest). Inr origin)"

definition chunk_origins :: "nat list \<Rightarrow> nat list \<Rightarrow> nat list list res" where
  "chunk_origins shape chunk_shape =
     (let counts = counts_of shape chunk_shape in
      if 0 \<in> set counts then Inr []
      else
        and_then (fold_res (\<lambda>count acc. umul acc count) counts 1) (\<lambda>tot.
          if tot * 24 > isize_max then Inl Panic
          else map_res (chunk_origin counts chunk_shape) [0..<tot]))"

section \<open>Chunk shapes\<close>

lemma chunk_shape_of_Inr:
  assumes "chunk_shape_of ds = Inr cs" "dd_chunked ds = Some (requested, u)"
  shows "dd_shape ds \<noteq> []" "length requested \<le> length (dd_shape ds)" "length cs = length (dd_shape ds)" "0 \<notin> set cs"
    "\<And>d. d < length cs \<Longrightarrow> cs ! d = (if d < length requested then requested ! d else max (dd_shape ds ! d) 1)"
    "\<And>d. d < length cs \<Longrightarrow> 0 < d \<or> \<not> u \<Longrightarrow> cs ! d \<le> max (dd_shape ds ! d) (if dd_shape ds ! d = 0 then cs ! d else 0)"
proof -
  let ?f = "\<lambda>(d, extent).
      let whole = max extent 1; chunk = (case get_elem requested d of Some c \<Rightarrow> c | None \<Rightarrow> whole) in
      if chunk = 0 then Inl Format
      else let is_growth_dim = (d = 0 \<and> u) in
        if \<not> is_growth_dim \<and> extent > 0 \<and> chunk > extent then Inl Format else Inr chunk"
  have m: "map_res ?f (enumerate 0 (dd_shape ds)) = Inr cs" "dd_shape ds \<noteq> []" "length requested \<le> length (dd_shape ds)"
    using assms by (auto simp: chunk_shape_of_def split: if_splits)
  then show "dd_shape ds \<noteq> []" "length requested \<le> length (dd_shape ds)" by auto
  show len: "length cs = length (dd_shape ds)" using map_res_length [OF m(1)] by simp
  have at: "?f (d, dd_shape ds ! d) = Inr (cs ! d)" if "d < length cs" for d
    using list_all2_nthD2 [OF m(1) [unfolded map_res_Inr_iff], of d] that len by (simp add: nth_enumerate_eq)
  have pos: "cs ! d \<noteq> 0" if "d < length cs" for d using at [OF that] by (auto simp: Let_def split: if_splits)
  then show "0 \<notin> set cs" by (auto simp: in_set_conv_nth)
  show "cs ! d = (if d < length requested then requested ! d else max (dd_shape ds ! d) 1)" if "d < length cs" for d
    using at [OF that] by (auto simp: Let_def get_elem_def split: if_splits)
  show "cs ! d \<le> max (dd_shape ds ! d) (if dd_shape ds ! d = 0 then cs ! d else 0)" if "d < length cs" "0 < d \<or> \<not> u" for d
    using at [OF that(1)] that(2) by (auto simp: Let_def split: if_splits)
qed

section \<open>Row-major order of the chunks\<close>

lemma sorts_past_append: "length a = length b \<Longrightarrow> sorts_past (a @ [x]) (b @ [y]) \<longleftrightarrow> sorts_past a b \<or> a = b \<and> x > y"
  by (induction a b rule: list_induct2) auto

lemma sorts_past_trans: "sorts_past a b \<Longrightarrow> sorts_past b c \<Longrightarrow> length a = length b \<Longrightarrow> length b = length c \<Longrightarrow> sorts_past a c"
proof (induction a b arbitrary: c rule: sorts_past.induct)
  case (1 g gs bound rt)
  then show ?case by (cases c) (auto split: if_splits)
qed auto

lemma sorts_past_asym: "sorts_past a b \<Longrightarrow> \<not> sorts_past b a"
  by (induction a b rule: sorts_past.induct) (auto split: if_splits)

lemma sorts_past_total: "length a = length b \<Longrightarrow> sorts_past a b \<or> a = b \<or> sorts_past b a"
  by (induction a b rule: list_induct2) auto

lemma sorts_past_flat:
  "inside a cs \<Longrightarrow> inside b cs \<Longrightarrow> flat_of cs b < flat_of cs a \<Longrightarrow> sorts_past a b"
proof (induction a cs arbitrary: b rule: list_all2_induct)
  case (Cons g gs c cs)
  then obtain h hs where b: "b = h # hs" "h < c" "inside hs cs" by (auto simp: list_all2_Cons2)
  have f: "flat_of cs gs < prod_list cs" "flat_of cs hs < prod_list cs" using flat_of_less Cons(2) b(3) by blast+
  have "\<not> g < h"
  proof
    assume "g < h"
    then have "Suc g * prod_list cs \<le> h * prod_list cs" by (intro mult_le_mono1) simp
    then show False using Cons.prems(2) f b by simp
  qed
  then show ?case using Cons.IH [OF b(3)] Cons.prems(2) b by auto
qed auto

lemma sorts_past_scale:
  "length a = length b \<Longrightarrow> length b = length cs \<Longrightarrow> 0 \<notin> set cs \<Longrightarrow>
     sorts_past (map2 (*) a cs) (map2 (*) b cs) = sorts_past a b"
  by (induction a b cs rule: list_induct3) auto

lemma sorts_past_Suc: "sorts_past (map (\<lambda>g. g + 1) g) g \<longleftrightarrow> g \<noteq> []"
  by (cases g) auto

text \<open>The walk ends on a bound that no cell sorts past.\<close>

lemma end_walk_bound:
  assumes "0 \<notin> set counts" "counts \<noteq> []" "n < prod_list counts" "length rt = length counts"
    and "\<And>k. k \<le> n \<Longrightarrow> \<not> sorts_past (coords_of counts k) rt"
  shows "length (end_walk counts (coords_of counts n) rt) = length counts \<and>
    (\<forall>k < prod_list counts. \<not> sorts_past (coords_of counts k) (end_walk counts (coords_of counts n) rt))"
  using assms(3-5)
proof (induction "prod_list counts - n" arbitrary: n rt rule: less_induct)
  case less
  have ins: "inside (coords_of counts n) counts" using coords_of_inside less.prems(1) by blast
  show ?case
  proof (cases "Suc n < prod_list counts")
    case False
    then have "step_odometer counts (coords_of counts n) = None"
      by (simp add: step_odometer_coords [OF ins] flat_coords [OF less.prems(1)])
    then have "end_walk counts (coords_of counts n) rt = rt" by (simp add: end_walk.simps)
    moreover have "k \<le> n" if "k < prod_list counts" for k using that False by simp
    ultimately show ?thesis using less.prems by simp
  next
    case True
    let ?c = "coords_of counts (Suc n)"
    let ?rt = "if sorts_past ?c rt then map (\<lambda>g. g + 1) ?c else rt"
    have e: "end_walk counts (coords_of counts n) rt = end_walk counts ?c ?rt"
      using True by (subst end_walk.simps) (simp add: step_odometer_coords [OF ins] flat_coords [OF less.prems(1)])
    have "\<not> sorts_past (coords_of counts k) ?rt" if "k \<le> Suc n" for k
    proof (cases "sorts_past ?c rt")
      case False
      then show ?thesis using less.prems(3) [of k] that by (cases "k = Suc n") auto
    next
      case s: True
      let ?r = "map (\<lambda>g. g + 1) ?c"
      have "?c \<noteq> []" using assms(2) by (cases counts) auto
      then have r: "sorts_past ?r ?c" unfolding sorts_past_Suc .
      have "sorts_past ?r (coords_of counts k)"
      proof (cases "k = Suc n")
        case False
        then have "sorts_past ?c (coords_of counts k)"
          using that True by (intro sorts_past_flat [where cs = counts]) (simp_all add: coords_of_inside flat_coords)
        then show ?thesis using sorts_past_trans [OF r] by simp
      qed (use r in simp)
      then show ?thesis using s sorts_past_asym by simp
    qed
    then show ?thesis using less.hyps [of "Suc n" ?rt] True less.prems(2) e by (auto split: if_splits)
  qed
qed


lemma coords_of_snoc: "0 < c \<Longrightarrow> coords_of (cs @ [c]) k = coords_of cs (k div c) @ [(if cs = [] then k else k mod c)]"
proof (induction cs arbitrary: k)
  case (Cons d ds)
  let ?p = "prod_list ds"
  have "k mod (?p * c) div c = k div c mod ?p" using Cons.prems by (simp add: mod_mult2_eq mult.commute)
  moreover have "k mod (?p * c) mod c = k mod c" by (simp add: mod_mult2_eq mult.commute [of _ c])
  moreover have "k div (?p * c) = k div c div ?p" by (simp add: div_mult2_eq mult.commute [of _ c])
  ultimately show ?case using Cons by (cases "ds = []") auto
qed simp

lemma chunk_origin_eq:
  assumes "length counts = length cs" "0 \<notin> set counts" "k < prod_list counts"
    and "\<And>d x. d < length cs \<Longrightarrow> x < counts ! d \<Longrightarrow> x * cs ! d < u64_lim"
  shows "chunk_origin counts cs k = Inr (map2 (*) (coords_of counts k) cs)"
proof -
  let ?step = "\<lambda>d (origin, rest). and_then (umul (rest mod counts ! d) (cs ! d)) (\<lambda>x. Inr (origin[d := x], rest div counts ! d))"
  have "\<exists>r. fold_res ?step (rev [0..<n]) (org, k) = Inr (map2 (*) (coords_of (take n counts) k) (take n cs) @ drop n org, r)"
    if "n \<le> length counts" "length org = length counts" "k < prod_list (take n counts)" for n org k
    using that
  proof (induction n arbitrary: org k)
    case (Suc n)
    have n: "n < length counts" "n < length cs" using Suc.prems(1) assms(1) by simp_all
    have c: "0 < counts ! n" using assms(2) n by (metis gr0I nth_mem)
    have t: "take (Suc n) counts = take n counts @ [counts ! n]" "take (Suc n) cs = take n cs @ [cs ! n]"
      using n by (simp_all add: take_Suc_conv_app_nth)
    let ?k = "k div counts ! n" and ?x = "k mod counts ! n * cs ! n"
    have k: "?k < prod_list (take n counts)" using Suc.prems(3) c by (simp add: t less_mult_imp_div_less)
    have one: "k mod counts ! n = k" if "n = 0" using Suc.prems(3) that n by (cases counts) auto
    have "?x < u64_lim" using assms(4) [OF n(2)] c by simp
    then have "?step n (org, k) = Inr (org[n := ?x], ?k)" by simp
    moreover obtain r where "fold_res ?step (rev [0..<n]) (org[n := ?x], ?k) =
        Inr (map2 (*) (coords_of (take n counts) ?k) (take n cs) @ drop n (org[n := ?x]), r)"
      using Suc.IH [of "org[n := ?x]" ?k] Suc.prems k by auto
    moreover have "drop n (org[n := ?x]) = ?x # drop (Suc n) org"
      using n Suc.prems(2) by (simp add: drop_update_swap Cons_nth_drop_Suc [symmetric])
    moreover have "coords_of (take (Suc n) counts) k = coords_of (take n counts) ?k @ [k mod counts ! n]"
      using coords_of_snoc [OF c, of "take n counts" k] one n unfolding t by (cases "n = 0") (simp_all, metis list.size(3) not_less0)
    ultimately show ?case using n by (simp add: t)
  qed simp
  from this [of "length counts" "replicate (length counts) 0" k] assms(1,3) show ?thesis
    by (auto simp: chunk_origin_def)
qed

lemma div_ceil_mult: "0 < c \<Longrightarrow> x < div_ceil e c \<Longrightarrow> x * c < e"
proof -
  assume c: "0 < c" and x: "x < div_ceil e c"
  show "x * c < e"
  proof (cases "e mod c = 0")
    case True
    then have "x < e div c" using x by (simp add: div_ceil_def)
    then have "Suc x * c \<le> e div c * c" by (intro mult_le_mono1) simp
    also have "\<dots> \<le> e" by simp
    finally show ?thesis using c by simp
  next
    case False
    then have "x \<le> e div c" using x by (simp add: div_ceil_def)
    then have "x * c \<le> e div c * c" by (rule mult_le_mono1)
    also have "\<dots> < e" using False by (metis add.commute div_mult_mod_eq less_add_same_cancel2 mult.commute gr0I)
    finally show ?thesis .
  qed
qed

text \<open>Shapes and chunk shapes of one rank, no dimension empty.\<close>

definition tiled :: "nat list \<Rightarrow> nat list \<Rightarrow> bool" where
  "tiled shape cs \<longleftrightarrow> shape \<noteq> [] \<and> length cs = length shape \<and> 0 \<notin> set shape \<and> 0 \<notin> set cs \<and> (\<forall>d\<in>set shape. d < u64_lim)"

lemma tiled_counts:
  assumes "tiled shape cs"
  shows "length (counts_of shape cs) = length cs" "0 \<notin> set (counts_of shape cs)" "counts_of shape cs \<noteq> []"
    "\<And>d x. d < length cs \<Longrightarrow> x < counts_of shape cs ! d \<Longrightarrow> x * cs ! d < shape ! d \<and> shape ! d < u64_lim"
proof -
  have at: "counts_of shape cs ! d = div_ceil (shape ! d) (cs ! d)" "0 < shape ! d" "0 < cs ! d" "shape ! d < u64_lim"
    if "d < length cs" for d
  proof -
    have "shape ! d \<in> set shape" "cs ! d \<in> set cs" using assms that by (simp_all add: tiled_def)
    then have "shape ! d \<noteq> 0" "cs ! d \<noteq> 0" using assms unfolding tiled_def by metis+
    then show "counts_of shape cs ! d = div_ceil (shape ! d) (cs ! d)" "0 < shape ! d" "0 < cs ! d" "shape ! d < u64_lim"
      using assms that by (auto simp: tiled_def counts_of_def)
  qed
  show len: "length (counts_of shape cs) = length cs" using assms by (simp add: tiled_def counts_of_def)
  show "0 \<notin> set (counts_of shape cs)"
    using at div_ceil_pos by (auto simp: in_set_conv_nth len)
  show "counts_of shape cs \<noteq> []" using assms len by (auto simp: tiled_def)
  show "x * cs ! d < shape ! d \<and> shape ! d < u64_lim" if "d < length cs" "x < counts_of shape cs ! d" for d x
    using at [OF that(1)] that(2) div_ceil_mult by auto
qed

text \<open>
  The chunks come in row-major order, at multiples of the chunk extents inside the shape, and the
  terminal key bounds them strictly, element offset included.
\<close>

lemma chunk_origins_eq:
  assumes "tiled shape cs" "chunk_origins shape cs = Inr os"
  shows "os = map (\<lambda>k. map2 (*) (coords_of (counts_of shape cs) k) cs) [0..<prod_list (counts_of shape cs)]"
proof -
  let ?c = "counts_of shape cs"
  note t = tiled_counts [OF assms(1)]
  obtain tot where tot: "fold_res (\<lambda>count acc. umul acc count) ?c 1 = Inr tot" "map_res (chunk_origin ?c cs) [0..<tot] = Inr os"
    using assms(2) t(2) by (auto simp: chunk_origins_def Let_def and_then_Inr_iff split: if_splits)
  have "fold_res (\<lambda>count acc. umul acc count) ks a = Inr v \<Longrightarrow> v = a * prod_list ks" for ks a v
    by (induction ks arbitrary: a) (fastforce simp: and_then_Inr_iff mult.assoc)+
  then have p: "tot = prod_list ?c" using tot(1) by fastforce
  have "map_res (chunk_origin ?c cs) [0..<tot] = Inr (map (\<lambda>k. map2 (*) (coords_of ?c k) cs) [0..<tot])"
    by (rule map_res_total, rule chunk_origin_eq) (use t p in \<open>force+\<close>)
  then show ?thesis using tot(2) p by simp
qed


definition origins_ok :: "nat list \<Rightarrow> nat list \<Rightarrow> nat list list \<Rightarrow> bool" where
  "origins_ok shape cs os \<longleftrightarrow>
     length os = prod_list (counts_of shape cs) \<and> sorted_wrt (\<lambda>a b. sorts_past b a) os \<and>
     (\<forall>o'\<in>set os. length o' = length cs \<and> list_all2 (\<lambda>x c. c dvd x) o' cs \<and> inside o' shape)"

lemma chunk_origins_ok:
  assumes "tiled shape cs" "chunk_origins shape cs = Inr os"
  shows "origins_ok shape cs os"
proof -
  let ?c = "counts_of shape cs"
  note t = tiled_counts [OF assms(1)] and os = chunk_origins_eq [OF assms]
  have z: "0 \<notin> set cs" "length shape = length cs" using assms(1) by (simp_all add: tiled_def)
  have "sorts_past (map2 (*) (coords_of ?c j) cs) (map2 (*) (coords_of ?c i) cs)" if "i < j" "j < prod_list ?c" for i j
    using sorts_past_flat [of "coords_of ?c j" ?c "coords_of ?c i"] that t(1) z
    by (simp add: sorts_past_scale coords_of_inside flat_coords)
  then have "sorted_wrt (\<lambda>a b. sorts_past b a) os" by (auto simp: os sorted_wrt_iff_nth_less)
  moreover have "list_all2 (\<lambda>x c. c dvd x) (map2 (*) (coords_of ?c k) cs) cs" for k
    using t(1) by (simp add: list_all2_conv_all_nth)
  moreover have "inside (map2 (*) (coords_of ?c k) cs) shape" if "k < prod_list ?c" for k
    using coords_of_inside [OF that] t(1,4) z by (simp add: list_all2_conv_all_nth)
  ultimately show ?thesis using t(1) by (auto simp: origins_ok_def os)
qed

lemma scale_cell_eq: "scale_cell a cs = Inr r \<Longrightarrow> r = map2 (*) a cs"
  unfolding scale_cell_def
proof (induction a arbitrary: cs r)
  case (Cons x a)
  then show ?case by (cases cs) (auto simp: and_then_Inr_iff)
qed simp

lemma end_offsets_bound:
  assumes "tiled shape cs" "chunk_origins shape cs = Inr os" "end_offsets shape cs = Inr ends" "0 < elem_size" "o' \<in> set os"
  shows "length ends = length cs \<and> sorts_past (ends @ [elem_size]) (o' @ [0])"
proof -
  let ?c = "counts_of shape cs" and ?n = "length cs"
  note t = tiled_counts [OF assms(1)] and os = chunk_origins_eq [OF assms(1,2)]
  obtain k where k: "k < prod_list ?c" "o' = map2 (*) (coords_of ?c k) cs" using assms(5) by (auto simp: os)
  let ?rt = "end_walk ?c (replicate ?n 0) (replicate ?n 1)"
  have z: "coords_of ds 0 = replicate (length ds) 0" for ds by (induction ds) auto
  have "\<not> sorts_past (replicate m 0) (replicate m (1 :: nat))" for m by (cases m) auto
  then have w: "length ?rt = ?n" "\<not> sorts_past (coords_of ?c k) ?rt"
    using end_walk_bound [OF t(2,3), of 0 "replicate ?n 1"] t(1) k(1) prod_list_pos [OF t(2)] by (simp_all add: z)
  have e: "map_res (\<lambda>(scaled, chunk). umul scaled chunk) (zip ?rt cs) = Inr ends"
    using assms(3) t(1,2) by (simp add: end_offsets_def Let_def scale_cell_def)
  have ends: "ends = map2 (*) ?rt cs"
    using scale_cell_eq e by (simp add: scale_cell_def)
  have "sorts_past ends o' \<or> ends = o'"
    using sorts_past_total [of "coords_of ?c k" ?rt] w t(1) assms(1) unfolding ends k(2)
    by (auto simp: sorts_past_scale tiled_def)
  then show ?thesis using w t(1) assms(4) by (simp add: ends k(2) sorts_past_append)
qed


text \<open>
  C10. The chunks of a tiled dataset without empty dimensions are offered to the index in strictly
  ascending order, one for every cell of the chunk grid, each at a multiple of the chunk shape inside
  the dataset; and the key that closes the index, with the element size as its last component, sorts
  strictly past every one of them, the corner chunk of an evenly divided grid included.
\<close>

theorem terminal_key_bounds_chunks:
  assumes "tiled shape cs" "chunk_origins shape cs = Inr os" "end_offsets shape cs = Inr ends" "0 < elem_size"
  shows "origins_ok shape cs os \<and> length ends = length cs \<and> (\<forall>o'\<in>set os. sorts_past (ends @ [elem_size]) (o' @ [0]))"
proof -
  have "prod_list (counts_of shape cs) > 0" using tiled_counts [OF assms(1)] prod_list_pos by blast
  then obtain o' where "o' \<in> set os" using chunk_origins_ok [OF assms(1,2)] by (cases os) (auto simp: origins_ok_def)
  then show ?thesis using chunk_origins_ok [OF assms(1,2)] end_offsets_bound [OF assms] by blast
qed

theorem terminal_key_bounds_chunks_witness:
  "end_offsets [4, 6] [2, 3] = Inr [2, 3] \<and> sorts_past [2, 3, 8] [2, 3, 0] \<and> origins_ok [4, 6] [2, 3] [[0, 0], [0, 3], [2, 0], [2, 3]]"
proof -
  have c: "counts_of [4, 6] [2, 3] = [2, 2]" by (simp add: counts_of_def div_ceil_def)
  have e: "end_offsets [4, 6] [2, 3] = Inr [2, 3]"
    by (simp add: end_offsets_def c end_walk.simps scale_cell_def Let_def)
  have os: "chunk_origins [4, 6] [2, 3] = Inr [[0, 0], [0, 3], [2, 0], [2, 3]]"
    by (simp add: chunk_origins_def c chunk_origin_def upt_rec)
  have "tiled [4, 6] [2, 3]" by (simp add: tiled_def)
  from terminal_key_bounds_chunks [OF this os e, of 8] show ?thesis using e by simp
qed

end
