(* ===== verification/Write_Chunk_Tree.thy ===== *)
theory Write_Chunk_Tree
  imports Write_Chunks Write_SymTab Chunk_BTree
begin

text \<open>
  The second half of \<^verbatim>\<open>oxih5/src/write/chunked.rs\<close>: the B-tree that indexes the chunks of a dataset.
  It is planned, placed and emitted in fixed-width nodes, leaves first; the reader of
  \<open>Chunk_BTree\<close> finds in it the chunks it was given, in their order.
\<close>

abbreviation (input) CHUNK_NODE_MAX_CHILDREN :: nat where "CHUNK_NODE_MAX_CHILDREN \<equiv> 64"
abbreviation (input) NODE_PREFIX :: nat where "NODE_PREFIX \<equiv> 24"
abbreviation (input) CHILD_SIZE :: nat where "CHILD_SIZE \<equiv> 8"
abbreviation (input) MAX_CHUNK_LEVELS :: nat where "MAX_CHUNK_LEVELS \<equiv> 8"

definition chunk_key_size :: "nat \<Rightarrow> nat" where
  "chunk_key_size ndims = 8 + (ndims + 1) * 8"

definition chunk_node_size :: "nat \<Rightarrow> nat" where
  "chunk_node_size ndims =
     NODE_PREFIX + (CHUNK_NODE_MAX_CHILDREN + 1) * chunk_key_size ndims + CHUNK_NODE_MAX_CHILDREN * CHILD_SIZE"

section \<open>The node\<close>

record chunk_entry_w =
  ce_offsets :: "nat list"
  ce_addr :: nat
  ce_nbytes :: nat
  ce_filter_mask :: nat

record node_key =
  nk_nbytes :: nat
  nk_filter_mask :: nat
  nk_offsets :: "nat list"
  nk_elem_offset :: nat

definition write_key :: "bytes \<Rightarrow> nat \<Rightarrow> node_key \<Rightarrow> bytes res" where
  "write_key buf at key =
     and_then (write_u32_le buf at (nk_nbytes key)) (\<lambda>buf.
     and_then (write_u32_le buf (at + 4) (nk_filter_mask key)) (\<lambda>buf.
     and_then (fold_res (\<lambda>(d, off) buf. write_u64_le buf (at + 8 + d * 8) off) (enumerate 0 (nk_offsets key)) buf) (\<lambda>buf.
       write_u64_le buf (at + 8 + length (nk_offsets key) * 8) (nk_elem_offset key))))"

definition write_chunk_node ::
  "bytes \<Rightarrow> nat \<Rightarrow> nat \<Rightarrow> nat \<Rightarrow> nat \<Rightarrow> nat \<Rightarrow> nat list \<Rightarrow> node_key list \<Rightarrow> node_key \<Rightarrow> (bytes \<times> nat) res" where
  "write_chunk_node buf addr ndims level left_sibling right_sibling children keys terminal =
     (if length children > CHUNK_NODE_MAX_CHILDREN \<or> length children \<noteq> length keys then Inl Format
      else if \<exists>key\<in>set (keys @ [terminal]). length (nk_offsets key) \<noteq> ndims then Inl Format
      else
        let tot = chunk_node_size ndims; key_size = chunk_key_size ndims; stride = key_size + CHILD_SIZE in
        and_then (fill_zero buf addr tot) (\<lambda>buf.
        and_then (put_range buf addr [0x54, 0x52, 0x45, 0x45]) (\<lambda>buf.
        and_then (put_elem buf (addr + 4) 1) (\<lambda>buf.
        and_then (narrow 256 level) (\<lambda>lv.
        and_then (put_elem buf (addr + 5) (of_nat lv)) (\<lambda>buf.
        and_then (narrow 65536 (length children)) (\<lambda>n.
        and_then (write_u16_le buf (addr + 6) n) (\<lambda>buf.
        and_then (write_u64_le buf (addr + 8) left_sibling) (\<lambda>buf.
        and_then (write_u64_le buf (addr + 16) right_sibling) (\<lambda>buf.
        and_then (fold_res (\<lambda>(i, child, key) buf.
            let slot = addr + NODE_PREFIX + i * stride in
            and_then (write_key buf slot key) (\<lambda>buf. write_u64_le buf (slot + key_size) child))
          (enumerate 0 (zip children keys)) buf) (\<lambda>buf.
        and_then (if children = [] then Inr buf
                  else write_key buf (addr + NODE_PREFIX + length children * stride) terminal) (\<lambda>buf.
          Inr (buf, tot)))))))))))))"

section \<open>The chunk index of a dataset\<close>

record chunk_index_plan =
  ct_ndims :: nat
  ct_elem_size :: nat
  ct_n_chunks :: nat
  ct_levels :: "nat list"
  ct_level_addr :: "nat list"
  ct_root_addr :: nat

function chunk_levels_loop :: "nat \<Rightarrow> nat list \<Rightarrow> nat list res" where
  "chunk_levels_loop nodes lvls =
     (if nodes > 1 then
        if length lvls \<ge> MAX_CHUNK_LEVELS then Inl Format
        else
          let nodes = div_ceil nodes CHUNK_NODE_MAX_CHILDREN in
          chunk_levels_loop nodes (lvls @ [nodes])
      else Inr lvls)"
  by pat_completeness auto
termination
  by (relation "measure (\<lambda>(nodes, lvls). nodes)") (auto simp: div_ceil_def)

declare chunk_levels_loop.simps [simp del]

definition chunk_tree_plan :: "nat \<Rightarrow> nat \<Rightarrow> nat \<Rightarrow> chunk_index_plan res" where
  "chunk_tree_plan ndims n_chunks elem_size =
     (if n_chunks > MAX_CHUNKS then Inl Format
      else
        let nodes = max (div_ceil n_chunks CHUNK_NODE_MAX_CHILDREN) 1 in
        and_then (chunk_levels_loop nodes [nodes]) (\<lambda>lv.
          Inr \<lparr>ct_ndims = ndims, ct_elem_size = elem_size, ct_n_chunks = n_chunks, ct_levels = lv,
               ct_level_addr = replicate (length lv) 0, ct_root_addr = 0\<rparr>))"

definition chunk_tree_bytes :: "chunk_index_plan \<Rightarrow> nat" where
  "chunk_tree_bytes t = sum_list (ct_levels t) * chunk_node_size (ct_ndims t)"

fun chunk_level_addresses :: "nat \<Rightarrow> nat \<Rightarrow> nat list \<Rightarrow> nat list res" where
  "chunk_level_addresses node_size addr [] = Inr []"
| "chunk_level_addresses node_size addr (n # rest) =
     and_then (umul n node_size) (\<lambda>sz.
     and_then (uadd addr sz) (\<lambda>next_addr.
     and_then (chunk_level_addresses node_size next_addr rest) (\<lambda>as. Inr (addr # as))))"

definition chunk_tree_assign :: "chunk_index_plan \<Rightarrow> nat \<Rightarrow> chunk_index_plan res" where
  "chunk_tree_assign t base =
     and_then (chunk_level_addresses (chunk_node_size (ct_ndims t)) base (ct_levels t)) (\<lambda>as.
       Inr (t\<lparr>ct_level_addr := as, ct_root_addr := (if as = [] then base else last as)\<rparr>))"

type_synonym level_state = "bytes \<times> nat \<times> nat list \<times> node_key list"

definition write_chunk_level_node ::
  "chunk_index_plan \<Rightarrow> nat list \<Rightarrow> nat \<Rightarrow> nat \<Rightarrow> nat \<Rightarrow> nat list \<Rightarrow> node_key list \<Rightarrow> nat \<Rightarrow> level_state \<Rightarrow> level_state res" where
  "write_chunk_level_node t ends level base n_nodes children keys i = (\<lambda>(buf, wrote, next_children, next_keys).
     let node_size = chunk_node_size (ct_ndims t);
         bound = \<lparr>nk_nbytes = 0, nk_filter_mask = 0, nk_offsets = ends, nk_elem_offset = ct_elem_size t\<rparr>;
         lo = i * CHUNK_NODE_MAX_CHILDREN;
         hi = min ((i + 1) * CHUNK_NODE_MAX_CHILDREN) (length children);
         addr = base + i * node_size;
         left = (if i = 0 then UNDEFINED_ADDR else addr - node_size);
         right = (if i + 1 = n_nodes then UNDEFINED_ADDR else addr + node_size);
         terminal = (case get_elem keys hi of Some key \<Rightarrow> key | None \<Rightarrow> bound) in
     and_then (slice children lo hi) (\<lambda>cs.
     and_then (slice keys lo hi) (\<lambda>ks.
     and_then (write_chunk_node buf addr (ct_ndims t) level left right cs ks terminal) (\<lambda>(buf, n).
     and_then (uadd wrote n) (\<lambda>wrote.
       Inr (buf, wrote, next_children @ [addr],
            next_keys @ [\<lparr>nk_nbytes = 0, nk_filter_mask = 0,
              nk_offsets = (case get_elem keys lo of Some key \<Rightarrow> nk_offsets key | None \<Rightarrow> ends), nk_elem_offset = 0\<rparr>]))))))"

definition write_chunk_level :: "chunk_index_plan \<Rightarrow> nat list \<Rightarrow> nat \<Rightarrow> nat \<Rightarrow> level_state \<Rightarrow> level_state res" where
  "write_chunk_level t ends level base = (\<lambda>(buf, wrote, children, keys).
     let n_nodes = max (div_ceil (length children) CHUNK_NODE_MAX_CHILDREN) 1 in
     fold_res (write_chunk_level_node t ends level base n_nodes children keys) [0..<n_nodes] (buf, wrote, [], []))"

definition chunk_tree_write :: "chunk_index_plan \<Rightarrow> bytes \<Rightarrow> chunk_entry_w list \<Rightarrow> nat list \<Rightarrow> (bytes \<times> nat) res" where
  "chunk_tree_write t buf entries ends =
     (if length entries \<noteq> ct_n_chunks t then Inl Format
      else if length ends \<noteq> ct_ndims t then Inl Format
      else
        let children = map ce_addr entries;
            keys = map (\<lambda>e. \<lparr>nk_nbytes = ce_nbytes e, nk_filter_mask = ce_filter_mask e, nk_offsets = ce_offsets e,
                              nk_elem_offset = 0\<rparr>) entries in
        and_then (fold_res (\<lambda>(level, base). write_chunk_level t ends level base) (enumerate 0 (ct_level_addr t))
                    (buf, 0, children, keys)) (\<lambda>(buf, wrote, children, keys).
          Inr (buf, wrote)))"



section \<open>One key and one node\<close>

definition enc_key :: "node_key \<Rightarrow> bytes" where
  "enc_key k = to_le 4 (nk_nbytes k) @ to_le 4 (nk_filter_mask k) @ concat (map (to_le 8) (nk_offsets k)) @ to_le 8 (nk_elem_offset k)"

lemma length_offsets [simp]: "length (concat (map (to_le 8) xs)) = 8 * length xs"
  by (induction xs) simp_all

lemma length_enc_key [simp]: "length (enc_key k) = 16 + 8 * length (nk_offsets k)"
  by (simp add: enc_key_def)

lemma write_offsets:
  "p + length offs * 8 \<le> length buf \<Longrightarrow>
   fold_res (\<lambda>(d, off) buf. write_u64_le buf (q + d * 8) off) (enumerate i offs) buf =
     Inr (splice buf p (concat (map (to_le 8) offs)))" if "p = q + i * 8" for p q i
  using that
proof (induction offs arbitrary: buf p i)
  case Nil
  then show ?case by (simp add: splice_def)
next
  case (Cons x offs)
  have "write_u64_le buf p x = Inr (splice buf p (to_le 8 x))"
    using Cons.prems by (simp add: write_defs put_range_def)
  moreover have "fold_res (\<lambda>(d, off) buf. write_u64_le buf (q + d * 8) off) (enumerate (Suc i) offs) (splice buf p (to_le 8 x)) =
      Inr (splice (splice buf p (to_le 8 x)) (p + 8) (concat (map (to_le 8) offs)))"
    by (rule Cons.IH) (use Cons.prems in simp_all)
  moreover have "splice (splice buf p (to_le 8 x)) (p + 8) (concat (map (to_le 8) offs)) =
      splice buf p (to_le 8 x @ concat (map (to_le 8) offs))"
    using splice_append [of p "to_le 8 x" "concat (map (to_le 8) offs)" buf] Cons.prems by simp
  ultimately show ?case using Cons.prems(2) by simp
qed

lemma write_key_enc:
  assumes "at + 16 + 8 * length (nk_offsets k) \<le> length buf"
  shows "write_key buf at k = Inr (splice buf at (enc_key k))"
proof -
  let ?o = "concat (map (to_le 8) (nk_offsets k))"
  let ?b = "splice buf at (to_le 4 (nk_nbytes k) @ to_le 4 (nk_filter_mask k))"
  have "write_u32_le buf at (nk_nbytes k) = Inr (splice buf at (to_le 4 (nk_nbytes k)))"
    using assms by (simp add: write_defs put_range_def)
  moreover have "write_u32_le (splice buf at (to_le 4 (nk_nbytes k))) (at + 4) (nk_filter_mask k) = Inr ?b"
    using assms splice_append [of at "to_le 4 (nk_nbytes k)" "to_le 4 (nk_filter_mask k)" buf]
    by (simp add: write_defs put_range_def)
  moreover have "fold_res (\<lambda>(d, off) buf. write_u64_le buf (at + 8 + d * 8) off) (enumerate 0 (nk_offsets k)) ?b =
      Inr (splice ?b (at + 8) ?o)"
    by (rule write_offsets) (use assms in simp_all)
  moreover have "splice ?b (at + 8) ?o = splice buf at ((to_le 4 (nk_nbytes k) @ to_le 4 (nk_filter_mask k)) @ ?o)"
    using splice_append [of at "to_le 4 (nk_nbytes k) @ to_le 4 (nk_filter_mask k)" ?o buf] assms by simp
  moreover have "write_u64_le (splice buf at ((to_le 4 (nk_nbytes k) @ to_le 4 (nk_filter_mask k)) @ ?o))
      (at + 8 + length (nk_offsets k) * 8) (nk_elem_offset k) = Inr (splice buf at (enc_key k))"
    using splice_append [of at "(to_le 4 (nk_nbytes k) @ to_le 4 (nk_filter_mask k)) @ ?o" "to_le 8 (nk_elem_offset k)" buf] assms
    by (simp add: write_defs put_range_def enc_key_def mult.commute add.assoc)
  ultimately show ?thesis unfolding write_key_def by (simp only: and_then_simps)
qed


definition enc_chunk_slot :: "nat list \<Rightarrow> node_key list \<Rightarrow> nat \<Rightarrow> bytes" where
  "enc_chunk_slot cs ks i = enc_key (ks ! i) @ to_le 8 (cs ! i)"

definition enc_chunk_head :: "nat \<Rightarrow> nat \<Rightarrow> nat \<Rightarrow> nat \<Rightarrow> bytes" where
  "enc_chunk_head level n left right = sig_TREE1 @ [1, of_nat level] @ to_le 2 n @ to_le 8 left @ to_le 8 right"

definition enc_chunk_node :: "nat \<Rightarrow> nat \<Rightarrow> nat \<Rightarrow> nat \<Rightarrow> nat list \<Rightarrow> node_key list \<Rightarrow> node_key \<Rightarrow> bytes" where
  "enc_chunk_node ndims level left right cs ks term =
     enc_chunk_head level (length cs) left right @ concat (map (enc_chunk_slot cs ks) [0..<length cs]) @
     (if cs = [] then replicate (chunk_node_size ndims - 24) 0
      else enc_key term @ replicate ((64 - length cs) * (24 + 8 * ndims)) 0)"

lemma chunk_sizes [simp]: "chunk_key_size n = 16 + 8 * n" "chunk_node_size n = 1576 + 520 * n"
  by (simp_all add: chunk_key_size_def chunk_node_size_def)

lemma length_enc_chunk_head [simp]: "length (enc_chunk_head level n l r) = 24"
  by (simp add: enc_chunk_head_def sig_TREE1_def)

definition keys_ranked :: "nat \<Rightarrow> node_key list \<Rightarrow> bool" where
  "keys_ranked ndims ks \<longleftrightarrow> (\<forall>k\<in>set ks. length (nk_offsets k) = ndims)"

lemma length_enc_chunk_slots:
  assumes "keys_ranked ndims ks" "length ks = length cs" "n \<le> length cs"
  shows "length (concat (map (enc_chunk_slot cs ks) [0..<n])) = n * (24 + 8 * ndims)"
  using assms by (subst length_concat_const [where w = "24 + 8 * ndims"]) (auto simp: enc_chunk_slot_def keys_ranked_def)

lemma length_enc_chunk_node:
  assumes "keys_ranked ndims (term # ks)" "length ks = length cs" "length cs \<le> 64"
  shows "length (enc_chunk_node ndims level l r cs ks term) = chunk_node_size ndims"
proof -
  have "length cs * (24 + 8 * ndims) + (64 - length cs) * (24 + 8 * ndims) = 64 * (24 + 8 * ndims)"
    using assms(3) by (simp add: distrib_right [symmetric] del: add_mult_distrib)
  moreover have "length (concat (map (enc_chunk_slot cs ks) [0..<length cs])) = length cs * (24 + 8 * ndims)"
    using assms by (intro length_enc_chunk_slots) (simp_all add: keys_ranked_def)
  ultimately show ?thesis using assms(1) by (auto simp: enc_chunk_node_def keys_ranked_def)
qed

lemma enumerate_upt: "enumerate 0 xs = map (\<lambda>i. (i, xs ! i)) [0..<length xs]"
  using map_enumerate [of "\<lambda>x. x" 0 xs] by simp

lemma write_chunk_node_enc:
  assumes "length cs \<le> 64" "length ks = length cs" "keys_ranked ndims (term # ks)" "level < 256"
    and fits: "a + chunk_node_size ndims \<le> length buf"
  shows "write_chunk_node buf a ndims level l r cs ks term =
    Inr (splice buf a (enc_chunk_node ndims level l r cs ks term), chunk_node_size ndims)"
proof -
  let ?S = "chunk_node_size ndims" and ?w = "24 + 8 * ndims" and ?n = "length cs"
  let ?h = "enc_chunk_head level ?n l r"
  let ?b = "splice buf a (?h @ replicate (?S - 24) 0)"
  let ?slots = "concat (map (enc_chunk_slot cs ks) [0..<?n])"
  have ranked: "keys_ranked ndims ks" "length (nk_offsets term) = ndims" using assms(3) by (simp_all add: keys_ranked_def)
  have lb: "length ?b = length buf" using fits by simp
  have zr: "zeroed ?b (a + 24) (?S - 24)" using fits by (simp add: zeroed_def splice_def)
  have nw: "?n * ?w \<le> 64 * ?w" using assms(1) by (intro mult_le_mono1)
  have z: "zeroed ?b (a + 24) (?n * ?w)" by (rule zeroed_sub [OF zr]) (use nw in auto)
  have ls: "length ?slots = ?n * ?w" by (rule length_enc_chunk_slots) (use ranked assms(2) in simp_all)
  have loop: "fold_res (\<lambda>i buf. and_then (write_key buf (a + 24 + i * ?w) (ks ! i)) (\<lambda>buf.
        write_u64_le buf (a + 24 + i * ?w + (16 + 8 * ndims)) (cs ! i))) [0..<?n] ?b = Inr (splice ?b (a + 24) ?slots)"
  proof (rule slot_loop [OF _ _ z])
    fix i :: nat and b :: bytes
    let ?p = "a + 24 + i * ?w"
    assume i: "i < ?n" and z: "zeroed b ?p ?w"
    then have fits: "?p + ?w \<le> length b" by (simp add: zeroed_def)
    have k: "length (nk_offsets (ks ! i)) = ndims" using ranked(1) i assms(2) by (simp add: keys_ranked_def)
    have "write_key b ?p (ks ! i) = Inr (splice b ?p (enc_key (ks ! i)))" by (rule write_key_enc) (use fits k in simp)
    moreover have "write_u64_le (splice b ?p (enc_key (ks ! i))) (?p + (16 + 8 * ndims)) (cs ! i)
        = Inr (splice b ?p (enc_chunk_slot cs ks i))"
      using fits splice_append [of ?p "enc_key (ks ! i)" "to_le 8 (cs ! i)" b] k
      by (simp add: write_defs put_range_def enc_chunk_slot_def)
    ultimately show "and_then (write_key b ?p (ks ! i)) (\<lambda>buf. write_u64_le buf (?p + (16 + 8 * ndims)) (cs ! i))
        = Inr (splice b ?p (enc_chunk_slot cs ks i))"
      by simp
  qed (use ranked assms(2) in \<open>auto simp: enc_chunk_slot_def keys_ranked_def\<close>)
  have final: "(if cs = [] then Inr (splice ?b (a + 24) ?slots) else write_key (splice ?b (a + 24) ?slots) (a + 24 + ?n * ?w) term)
      = Inr (splice buf a (enc_chunk_node ndims level l r cs ks term))"
  proof (cases "cs = []")
    case True
    then show ?thesis using fits by (simp add: enc_chunk_node_def splice_def)
  next
    case False
    have f: "a + 24 + ?n * ?w + (16 + 8 * ndims) \<le> length ?b" using fits nw lb by simp
    have "write_key (splice ?b (a + 24) ?slots) (a + 24 + ?n * ?w) term
        = Inr (splice (splice ?b (a + 24) ?slots) (a + 24 + ?n * ?w) (enc_key term))"
      by (rule write_key_enc) (use f ls ranked in simp)
    also have "splice (splice ?b (a + 24) ?slots) (a + 24 + ?n * ?w) (enc_key term) = splice ?b (a + 24) (?slots @ enc_key term)"
      using splice_append [of "a + 24" ?slots "enc_key term" ?b] f ls ranked by simp
    also have "\<dots> = splice buf a (splice (?h @ replicate (?S - 24) 0) 24 (?slots @ enc_key term))"
      by (rule splice_inside) (use fits nw ls ranked in simp_all)
    also have "splice (?h @ replicate (?S - 24) 0) 24 (?slots @ enc_key term) = enc_chunk_node ndims level l r cs ks term"
    proof -
      have "?S - 24 - (?n * ?w + (16 + 8 * ndims)) = (64 - ?n) * ?w"
      proof -
        have "?S - 24 = 64 * ?w + (16 + 8 * ndims)" by simp
        then show ?thesis by (simp only: diff_mult_distrib diff_add_inverse2 diff_cancel2)
      qed
      then show ?thesis using False ls ranked by (simp add: splice_def enc_chunk_node_def)
    qed
    finally show ?thesis using False by simp
  qed
  have stride: "16 + 8 * ndims + 8 = 24 + 8 * ndims" by simp
  have ok: "\<not> (\<exists>key\<in>set (ks @ [term]). length (nk_offsets key) \<noteq> ndims)" using assms(3) by (auto simp: keys_ranked_def)
  have "region (((((([] @ [0x54, 0x52, 0x45, 0x45]) @ [1]) @ [of_nat level]) @ to_le 2 ?n) @ to_le 8 l) @ to_le 8 r) (?S - 24)
      = ?h @ replicate (?S - 24) 0"
    by (simp add: region_def enc_chunk_head_def sig_TREE1_def)
  moreover have "enumerate 0 (zip cs ks) = map (\<lambda>i. (i, cs ! i, ks ! i)) [0..<?n]"
    using assms(2) by (simp add: enumerate_upt)
  ultimately have "write_chunk_node buf a ndims level l r cs ks term = and_then (fold_res (\<lambda>i buf.
        and_then (write_key buf (a + 24 + i * ?w) (ks ! i)) (\<lambda>buf.
        write_u64_le buf (a + 24 + i * ?w + (16 + 8 * ndims)) (cs ! i))) [0..<?n] ?b) (\<lambda>buf.
      and_then (if cs = [] then Inr buf else write_key buf (a + 24 + ?n * ?w) term) (\<lambda>buf. Inr (buf, ?S)))"
    using assms ok unfolding write_chunk_node_def Let_def chunk_sizes stride
    by (simp add: fill_zero_splice put_elem_range put_range_next region_start narrow_def write_defs fold_res_map
          del: to_le.simps append_assoc append.simps)
  then show ?thesis by (simp only: loop final and_then_simps)
qed


section \<open>Reading a node back\<close>

definition key_ok :: "nat \<Rightarrow> node_key \<Rightarrow> bool" where
  "key_ok ndims k \<longleftrightarrow> length (nk_offsets k) = ndims \<and> nk_nbytes k < u32_lim \<and> nk_filter_mask k < u32_lim \<and>
     (\<forall>off\<in>set (nk_offsets k). off < u64_lim)"

definition rec_of :: "nat \<times> node_key \<Rightarrow> chunk_record" where
  "rec_of = (\<lambda>(c, k). \<lparr>rec_address = c, rec_size = nk_nbytes k, rec_filter_mask = nk_filter_mask k, rec_offsets = nk_offsets k\<rparr>)"

lemma field_offset:
  assumes "j < length offs" "\<forall>off\<in>set offs. off < u64_lim"
  shows "field 8 (concat (map (to_le 8) offs) @ ys) (j * 8) = offs ! j"
proof -
  have c: "concat (map (to_le 8) offs) = concat (map (\<lambda>i. to_le 8 (offs ! i)) [0..<length offs])"
    by (rule arg_cong [of _ _ concat]) (intro nth_equalityI, simp_all)
  have "Suc j * 8 \<le> length offs * 8" using assms(1) by (intro mult_le_mono1) simp
  then have "take 8 (drop (j * 8) (concat (map (to_le 8) offs) @ ys)) = take 8 (drop (j * 8) (concat (map (to_le 8) offs)))"
    by (simp add: mult.commute)
  also have "\<dots> = to_le 8 (offs ! j)" unfolding c by (rule nth_block_concat) (use assms(1) in simp_all)
  finally show ?thesis using assms by (simp add: field_def from_le_to_le)
qed

lemma slot_fields:
  assumes "take (24 + 8 * ndims) (drop p d) = enc_key k @ to_le 8 c" "key_ok ndims k" "c < u64_lim"
  shows "field 4 d p = nk_nbytes k" "field 4 d (p + 4) = nk_filter_mask k" "field 8 d (p + 16 + ndims * 8) = c"
    "map (\<lambda>j. field 8 d (p + 8 + j * 8)) [0..<ndims] = nk_offsets k"
proof -
  note f = field_of_slot [OF assms(1)]
  have k: "length (nk_offsets k) = ndims" "nk_nbytes k < u32_lim" "nk_filter_mask k < u32_lim"
    "\<forall>off\<in>set (nk_offsets k). off < u64_lim" using assms(2) by (simp_all add: key_ok_def)
  show "field 4 d p = nk_nbytes k" using f [of 0 4] k(2) by (simp add: enc_key_def field_eval del: to_le.simps)
  show "field 4 d (p + 4) = nk_filter_mask k" using f [of 4 4] k(3) by (simp add: enc_key_def field_eval del: to_le.simps)
  show "field 8 d (p + 16 + ndims * 8) = c"
    using f [of "16 + ndims * 8" 8] k(1) assms(3) by (simp add: field_eval add.assoc mult.commute del: to_le.simps)
  have "field 8 d (p + 8 + j * 8) = nk_offsets k ! j" if "j < ndims" for j
  proof -
    have "Suc j * 8 \<le> ndims * 8" using that by (intro mult_le_mono1) simp
    then have "field 8 d (p + (8 + j * 8)) = field 8 (enc_key k @ to_le 8 c) (8 + j * 8)" by (intro f) simp
    also have "\<dots> = field 8 (concat (map (to_le 8) (nk_offsets k)) @ to_le 8 (nk_elem_offset k) @ to_le 8 c) (j * 8)"
      by (simp add: enc_key_def field_eval del: to_le.simps)
    also have "\<dots> = nk_offsets k ! j" using field_offset [OF _ k(4)] that k(1) by simp
    finally show ?thesis by (simp add: add.assoc)
  qed
  then show "map (\<lambda>j. field 8 d (p + 8 + j * 8)) [0..<ndims] = nk_offsets k"
    using k(1) by (intro nth_equalityI) simp_all
qed

lemma chunk_node_region:
  assumes "drop a d = enc_chunk_node ndims level l r cs ks term @ rest" "length cs \<le> 64" "length ks = length cs"
    and "\<forall>k\<in>set ks. key_ok ndims k" "length (nk_offsets term) = ndims" "\<forall>c\<in>set cs. c < u64_lim" "length d < u64_lim"
  shows "chunk_header d ndims a (of_nat level) (length cs)"
    and "map (chunk_child d ndims a) [0..<length cs] = cs"
    and "map (record_at d ndims a) [0..<length cs] = map rec_of (zip cs ks)"
proof -
  let ?n = "length cs" and ?w = "24 + 8 * ndims"
  have ranked: "keys_ranked ndims ks" "keys_ranked ndims (term # ks)"
    using assms(4,5) by (auto simp: keys_ranked_def key_ok_def)
  have ld: "a + chunk_node_size ndims \<le> length d"
    using arg_cong [OF assms(1), of length] length_enc_chunk_node [OF ranked(2) assms(3,2)] by simp
  have nw: "?n * ?w \<le> 64 * ?w" using assms(2) by (intro mult_le_mono1)
  have nth: "d ! (a + 4) = drop a d ! 4" "d ! (a + 5) = drop a d ! 5" using ld by simp_all
  have f2: "field 2 d (a + 6) = ?n"
    unfolding field_drop assms(1) using assms(2)
    by (simp add: enc_chunk_node_def enc_chunk_head_def sig_TREE1_def field_eval del: to_le.simps)
  show "chunk_header d ndims a (of_nat level) ?n"
    unfolding chunk_header_def using ld nw assms(7) f2 nth unfolding assms(1)
    by (simp add: enc_chunk_node_def enc_chunk_head_def sig_TREE1_def mult.commute)
  have slot: "take ?w (drop (key_at ndims a i) d) = enc_key (ks ! i) @ to_le 8 (cs ! i)" if i: "i < ?n" for i
  proof -
    have "Suc i * ?w \<le> ?n * ?w" using i by (intro mult_le_mono1) simp
    then have fit: "i * ?w + ?w \<le> ?n * ?w" by simp
    have "drop (key_at ndims a i) d = drop (i * ?w) (drop 24 (drop a d))"
      by (simp add: key_at_def mult.commute add.commute add.left_commute)
    then have "take ?w (drop (key_at ndims a i) d) = take ?w (drop (i * ?w) (concat (map (enc_chunk_slot cs ks) [0..<?n])))"
      unfolding assms(1) using fit length_enc_chunk_slots [OF ranked(1) assms(3) order_refl] by (simp add: enc_chunk_node_def)
    also have "\<dots> = enc_chunk_slot cs ks i"
      by (rule nth_block_concat) (use i ranked(1) assms(3) in \<open>auto simp: enc_chunk_slot_def keys_ranked_def\<close>)
    finally show ?thesis by (simp add: enc_chunk_slot_def)
  qed
  have ok: "key_ok ndims (ks ! i)" "cs ! i < u64_lim" if "i < ?n" for i using assms(3,4,6) that by auto
  show "map (chunk_child d ndims a) [0..<?n] = cs"
    using slot_fields(3) [OF slot ok] by (intro nth_equalityI) (simp_all add: chunk_child_def)
  show "map (record_at d ndims a) [0..<?n] = map rec_of (zip cs ks)"
    using slot_fields [OF slot ok] assms(3) by (intro nth_equalityI) (simp_all add: record_at_def chunk_child_def rec_of_def)
qed


section \<open>Indexes below an address\<close>

text \<open>
  An index all of whose nodes lie below \<open>lim\<close>, with the key its parent files it under; at height 0
  it is a chunk, described by its key.
\<close>

fun idx_below :: "bytes \<Rightarrow> nat \<Rightarrow> nat \<Rightarrow> nat \<Rightarrow> nat \<times> node_key \<Rightarrow> chunk_record list \<Rightarrow> bool" where
  "idx_below d ndims lim 0 p rs \<longleftrightarrow> fst p \<noteq> UNDEF \<and> rs = [rec_of p]"
| "idx_below d ndims lim (Suc h) p rs \<longleftrightarrow>
     (\<exists>n prs rss. chunk_header d ndims (fst p) (of_nat h) n \<and> fst p + 24 + n * (24 + ndims * 8) \<le> lim \<and> fst p + 24 \<le> lim \<and>
        map fst prs = map (chunk_child d ndims (fst p)) [0..<n] \<and>
        (h = 0 \<longrightarrow> map rec_of prs = map (record_at d ndims (fst p)) [0..<n]) \<and>
        list_all2 (idx_below d ndims lim h) prs rss \<and> rs = concat rss)"

declare idx_below.simps(2) [simp del]

lemma idx_belowI:
  assumes "chunk_header d ndims a (of_nat h) n" "a + 24 + n * (24 + ndims * 8) \<le> lim" "a + 24 \<le> lim"
    "map fst prs = map (chunk_child d ndims a) [0..<n]" "map rec_of prs = map (record_at d ndims a) [0..<n]"
    "list_all2 (idx_below d ndims lim h) prs rss"
  shows "idx_below d ndims lim (Suc h) (a, k) (concat rss)"
  unfolding idx_below.simps fst_conv using assms by blast

lemma chunk_header_agree:
  assumes "take lim d' = take lim d" "length d' = length d" "a + 24 + n * (24 + ndims * 8) \<le> lim" "a + 24 \<le> lim"
    and "chunk_header d ndims a l n"
  shows "chunk_header d' ndims a l n" "map (chunk_child d' ndims a) [0..<n] = map (chunk_child d ndims a) [0..<n]"
    "map (record_at d' ndims a) [0..<n] = map (record_at d ndims a) [0..<n]"
proof -
  have nt: "d' ! p = d ! p" if "p < lim" for p
    using arg_cong [OF assms(1), of "\<lambda>xs. xs ! p"] that by simp
  have f2: "field 2 d' (a + 6) = field 2 d (a + 6)" by (rule field_agree [OF assms(1)]) (use assms(4) in simp)
  show "chunk_header d' ndims a l n"
    using assms(2,4,5) slice_agree [OF assms(1), of a 4] nt [of "a + 4"] nt [of "a + 5"] f2 by (simp add: chunk_header_def)
  have b: "key_at ndims a i + 24 + ndims * 8 \<le> lim" if "i < n" for i
  proof -
    have "Suc i * (24 + ndims * 8) \<le> n * (24 + ndims * 8)" using that by (intro mult_le_mono1) simp
    then show ?thesis using assms(3) by (simp add: key_at_def)
  qed
  have c: "chunk_child d' ndims a i = chunk_child d ndims a i" if "i < n" for i
    unfolding chunk_child_def using b [OF that] by (intro field_agree [OF assms(1)]) simp
  then show "map (chunk_child d' ndims a) [0..<n] = map (chunk_child d ndims a) [0..<n]" by simp
  have "record_at d' ndims a i = record_at d ndims a i" if "i < n" for i
  proof -
    have "field 8 d' (key_at ndims a i + 8 + k * 8) = field 8 d (key_at ndims a i + 8 + k * 8)" if "k < ndims" for k
    proof -
      have "Suc k * 8 \<le> ndims * 8" using that by (intro mult_le_mono1) simp
      then show ?thesis using b [OF \<open>i < n\<close>] by (intro field_agree [OF assms(1)]) simp
    qed
    moreover have "field 4 d' (key_at ndims a i) = field 4 d (key_at ndims a i)"
      "field 4 d' (key_at ndims a i + 4) = field 4 d (key_at ndims a i + 4)"
      using b [OF that] by (auto intro!: field_agree [OF assms(1)])
    ultimately show ?thesis using c [OF that] by (simp add: record_at_def)
  qed
  then show "map (record_at d' ndims a) [0..<n] = map (record_at d ndims a) [0..<n]" by simp
qed

lemma idx_below_agree:
  assumes "take lim d' = take lim d" "length d' = length d" "lim \<le> lim'"
  shows "idx_below d ndims lim h p rs \<Longrightarrow> idx_below d' ndims lim' h p rs"
proof (induction h arbitrary: p rs)
  case (Suc h)
  then obtain n prs rss where n: "chunk_header d ndims (fst p) (of_nat h) n" "fst p + 24 + n * (24 + ndims * 8) \<le> lim" "fst p + 24 \<le> lim"
      "map fst prs = map (chunk_child d ndims (fst p)) [0..<n]"
      "h = 0 \<longrightarrow> map rec_of prs = map (record_at d ndims (fst p)) [0..<n]"
      "list_all2 (idx_below d ndims lim h) prs rss" "rs = concat rss"
    unfolding idx_below.simps by blast
  have "list_all2 (idx_below d' ndims lim' h) prs rss"
    using n(6) by (rule list_all2_mono) (rule Suc.IH)
  then show ?case
    unfolding idx_below.simps using n assms(3) chunk_header_agree [OF assms(1,2) n(2,3,1)]
    by (intro exI [of _ n] exI [of _ prs] exI [of _ rss]) simp
qed simp

lemma idx_below_tree: "idx_below d ndims lim (Suc h) p rs \<Longrightarrow> h < 255 \<Longrightarrow> chunk_tree d ndims h (fst p) rs"
proof (induction h arbitrary: p rs)
  case 0
  then obtain n prs rss where n: "chunk_header d ndims (fst p) 0 n" "map rec_of prs = map (record_at d ndims (fst p)) [0..<n]"
      "list_all2 (idx_below d ndims lim 0) prs rss" "rs = concat rss"
    unfolding idx_below.simps by auto
  from n(3) have "concat rss = map rec_of prs \<and> (\<forall>r\<in>set (map rec_of prs). rec_address r \<noteq> UNDEF)"
    by (induction rule: list_all2_induct) (auto simp: rec_of_def)
  then have "rs = filter (\<lambda>r. rec_address r \<noteq> UNDEF) (map (record_at d ndims (fst p)) [0..<n])"
    using n(2,4) by (simp add: filter_id_conv)
  then show ?case using chunk_tree.leaf n(1) by blast
next
  case (Suc h)
  then obtain n prs rss where n: "chunk_header d ndims (fst p) (of_nat (Suc h)) n"
      "map fst prs = map (chunk_child d ndims (fst p)) [0..<n]"
      "list_all2 (idx_below d ndims lim (Suc h)) prs rss" "rs = concat rss"
    unfolding idx_below.simps(2) [of _ _ _ "Suc h"] by blast
  have "unat (of_nat (Suc h) :: byte) = Suc h"
    using Suc.prems(2) by (simp only: unat_of_nat_byte) simp
  then have "(of_nat (Suc h) :: byte) \<noteq> 0" by auto
  moreover have "list_all2 (\<lambda>p rs. chunk_tree d ndims h (fst p) rs) prs rss"
    using n(3) by (rule list_all2_mono) (use Suc in simp)
  then have "list_all2 (chunk_tree d ndims h) (map (chunk_child d ndims (fst p)) [0..<n]) rss"
    using n(2) by (simp add: list.rel_map flip: n(2))
  ultimately show ?case unfolding n(4) using n(1) by (intro chunk_tree.node)
qed

section \<open>One level\<close>

definition pieces :: "nat \<Rightarrow> 'a list \<Rightarrow> 'a list list" where
  "pieces n xs = map (\<lambda>i. take 64 (drop (i * 64) xs)) [0..<n]"

lemma length_pieces [simp]: "length (pieces n xs) = n"
  by (simp add: pieces_def)

lemma concat_pieces: "length xs \<le> n * 64 \<Longrightarrow> concat (pieces n xs) = xs"
proof -
  have "concat (pieces n xs) = take (n * 64) xs" for n
  proof (induction n)
    case (Suc n)
    then show ?case using take_add [of "n * 64" 64 xs] by (simp add: pieces_def add.commute)
  qed (simp add: pieces_def)
  then show "length xs \<le> n * 64 \<Longrightarrow> concat (pieces n xs) = xs" by simp
qed

lemma concat_map_concat: "concat (map concat xss) = concat (concat xss)"
  by (induction xss) auto

lemma div_ceil_covers: "0 < k \<Longrightarrow> n \<le> div_ceil n k * k"
proof -
  assume "0 < k"
  then have "n mod k \<le> (if n mod k = 0 then 0 else 1) * k" by simp
  then have "n div k * k + n mod k \<le> n div k * k + (if n mod k = 0 then 0 else 1) * k" by (rule add_left_mono)
  then show ?thesis by (simp only: div_mult_mod_eq div_ceil_def distrib_right)
qed

definition bound_key :: "chunk_index_plan \<Rightarrow> nat list \<Rightarrow> node_key" where
  "bound_key t ends = \<lparr>nk_nbytes = 0, nk_filter_mask = 0, nk_offsets = ends, nk_elem_offset = ct_elem_size t\<rparr>"

definition level_term :: "chunk_index_plan \<Rightarrow> nat list \<Rightarrow> node_key list \<Rightarrow> nat \<Rightarrow> node_key" where
  "level_term t ends keys i =
     (let hi = min ((i + 1) * 64) (length keys) in if hi < length keys then keys ! hi else bound_key t ends)"

definition level_key :: "nat list \<Rightarrow> node_key list \<Rightarrow> nat \<Rightarrow> node_key" where
  "level_key ends keys i =
     \<lparr>nk_nbytes = 0, nk_filter_mask = 0,
      nk_offsets = (if i * 64 < length keys then nk_offsets (keys ! (i * 64)) else ends), nk_elem_offset = 0\<rparr>"

definition enc_level_node :: "chunk_index_plan \<Rightarrow> nat list \<Rightarrow> nat \<Rightarrow> nat \<Rightarrow> nat \<Rightarrow> nat list \<Rightarrow> node_key list \<Rightarrow> nat \<Rightarrow> bytes" where
  "enc_level_node t ends level base n children keys i =
     (let S = chunk_node_size (ct_ndims t) in
      enc_chunk_node (ct_ndims t) level (if i = 0 then UNDEFINED_ADDR else base + i * S - S)
        (if i + 1 = n then UNDEFINED_ADDR else base + i * S + S)
        (pieces n children ! i) (pieces n keys ! i) (level_term t ends keys i))"

lemma level_keys_ok:
  assumes "\<forall>k\<in>set keys. key_ok nd k" "length ends = nd" "\<forall>e\<in>set ends. e < u64_lim" "i < n"
  shows "length (nk_offsets (level_term t ends keys i)) = nd" "key_ok nd (level_key ends keys i)"
    "\<forall>k\<in>set (pieces n keys ! i). key_ok nd k"
proof -
  show "length (nk_offsets (level_term t ends keys i)) = nd"
    using assms(1,2) by (simp add: level_term_def bound_key_def Let_def key_ok_def)
  show "key_ok nd (level_key ends keys i)"
    using assms(1,2,3) nth_mem [of "i * 64" keys] unfolding key_ok_def level_key_def by auto
  show "\<forall>k\<in>set (pieces n keys ! i). key_ok nd k"
    using assms(1,4) by (auto simp: pieces_def dest!: in_set_takeD in_set_dropD)
qed


lemma slice_piece:
  assumes "i < n" "length xs \<le> n * 64" "n = max (div_ceil (length xs) 64) 1"
  shows "slice xs (i * 64) (min ((i + 1) * 64) (length xs)) = Inr (pieces n xs ! i)"
proof -
  have "i * 64 \<le> length xs"
  proof (cases "i = 0")
    case False
    then have "i < div_ceil (length xs) 64" using assms(1,3) by auto
    then show ?thesis using div_ceil_mult [of 64 i "length xs"] by simp
  qed simp
  moreover have "take (min ((i + 1) * 64) (length xs) - i * 64) (drop (i * 64) xs) = take 64 (drop (i * 64) xs)"
    by (cases "(i + 1) * 64 \<le> length xs") (simp_all add: min_def)
  ultimately show ?thesis using assms(1) by (simp add: slice_def get_range_def pieces_def ok_or_def)
qed

lemma write_chunk_level_fold:
  fixes t ends level base children keys
  defines "S \<equiv> chunk_node_size (ct_ndims t)" and "n \<equiv> max (div_ceil (length children) 64) 1"
  assumes "\<forall>k\<in>set keys. key_ok (ct_ndims t) k" "length keys = length children" "length ends = ct_ndims t"
    and "\<forall>e\<in>set ends. e < u64_lim" "level < 256" "i0 \<le> n" "base + n * S \<le> length buf" "wrote + n * S < u64_lim + i0 * S"
  shows "fold_res (write_chunk_level_node t ends level base n children keys) [i0..<n] (buf, wrote, nc, nk) =
    Inr (splice buf (base + i0 * S) (concat (map (enc_level_node t ends level base n children keys) [i0..<n])),
         wrote + (n - i0) * S, nc @ map (\<lambda>i. base + i * S) [i0..<n], nk @ map (level_key ends keys) [i0..<n])"
  using assms(8-)
proof (induction "n - i0" arbitrary: i0 buf wrote nc nk)
  case 0
  then show ?case by (simp add: splice_def)
next
  case (Suc m)
  let ?enc = "enc_level_node t ends level base n children keys"
  have i: "i0 < n" using Suc.hyps(2) by simp
  have cover: "length children \<le> n * 64" using div_ceil_covers [of 64 "length children"] by (simp add: n_def max_def)
  have kcover: "length keys \<le> n * 64" "n = max (div_ceil (length keys) 64) 1" using cover assms(4) by (simp_all add: n_def)
  note ok = level_keys_ok [OF assms(3,5,6) i]
  have len: "length (pieces n children ! i0) \<le> 64" "length (pieces n keys ! i0) = length (pieces n children ! i0)"
    using i assms(4) by (simp_all add: pieces_def)
  have ranked: "keys_ranked (ct_ndims t) (level_term t ends keys i0 # pieces n keys ! i0)"
    using ok(1,3) by (auto simp: keys_ranked_def key_ok_def)
  have "Suc i0 * S \<le> n * S" using i by (intro mult_le_mono1) simp
  then have fit: "base + i0 * S + S \<le> length buf" using Suc.prems(2) by simp
  have split: "(n - i0) * S = S + (n - Suc i0) * S" using i by (metis Suc_diff_Suc mult_Suc)
  have le: "length (?enc i) = S" if "i < n" for i
  proof -
    have "keys_ranked (ct_ndims t) (level_term t ends keys i # pieces n keys ! i)"
      using level_keys_ok [OF assms(3,5,6) that] by (auto simp: keys_ranked_def key_ok_def)
    then show ?thesis unfolding enc_level_node_def Let_def S_def
      using that assms(4) by (intro length_enc_chunk_node) (simp_all add: pieces_def)
  qed
  have w: "write_chunk_node buf (base + i0 * S) (ct_ndims t) level (if i0 = 0 then UNDEFINED_ADDR else base + i0 * S - S)
      (if i0 + 1 = n then UNDEFINED_ADDR else base + i0 * S + S) (pieces n children ! i0) (pieces n keys ! i0)
      (level_term t ends keys i0) = Inr (splice buf (base + i0 * S) (?enc i0), S)"
    using write_chunk_node_enc [OF len ranked assms(7)] fit unfolding S_def enc_level_node_def Let_def by simp
  have ws: "wrote + S < u64_lim" using Suc.prems(3) \<open>Suc i0 * S \<le> n * S\<close> by simp
  have step: "write_chunk_level_node t ends level base n children keys i0 (buf, wrote, nc, nk) =
      Inr (splice buf (base + i0 * S) (?enc i0), wrote + S, nc @ [base + i0 * S], nk @ [level_key ends keys i0])"
  proof -
    have s: "slice children (i0 * 64) (min ((i0 + 1) * 64) (length children)) = Inr (pieces n children ! i0)"
      "slice keys (i0 * 64) (min ((i0 + 1) * 64) (length children)) = Inr (pieces n keys ! i0)"
      using slice_piece [OF i cover n_def [THEN meta_eq_to_obj_eq]] slice_piece [OF i kcover] assms(4) by simp_all
    have tm: "(case get_elem keys (min ((i0 + 1) * 64) (length children)) of Some key \<Rightarrow> key
        | None \<Rightarrow> \<lparr>nk_nbytes = 0, nk_filter_mask = 0, nk_offsets = ends, nk_elem_offset = ct_elem_size t\<rparr>) = level_term t ends keys i0"
      using assms(4) by (simp add: get_elem_def level_term_def bound_key_def Let_def)
    have ky: "\<lparr>nk_nbytes = 0, nk_filter_mask = 0,
        nk_offsets = (case get_elem keys (i0 * 64) of Some key \<Rightarrow> nk_offsets key | None \<Rightarrow> ends), nk_elem_offset = 0\<rparr> =
        level_key ends keys i0"
      by (simp add: get_elem_def level_key_def)
    show ?thesis unfolding write_chunk_level_node_def Let_def prod.case
      by (simp only: s tm ky S_def [symmetric] w and_then_simps prod.case) (use ws in simp)
  qed
  have rest: "length (concat (map ?enc [Suc i0..<n])) = (n - Suc i0) * S"
    by (subst length_concat_const [where w = S]) (auto simp: le)
  have ih: "fold_res (write_chunk_level_node t ends level base n children keys) [Suc i0..<n]
      (splice buf (base + i0 * S) (?enc i0), wrote + S, nc @ [base + i0 * S], nk @ [level_key ends keys i0]) =
    Inr (splice (splice buf (base + i0 * S) (?enc i0)) (base + Suc i0 * S) (concat (map ?enc [Suc i0..<n])),
         wrote + S + (n - Suc i0) * S, (nc @ [base + i0 * S]) @ map (\<lambda>i. base + i * S) [Suc i0..<n],
         (nk @ [level_key ends keys i0]) @ map (level_key ends keys) [Suc i0..<n])"
    by (rule Suc.hyps(1)) (use Suc.hyps(2) Suc.prems i fit le in simp_all)
  have "(n - Suc i0) * S + Suc i0 * S = n * S" using i by (simp add: add_mult_distrib [symmetric] del: add_mult_distrib mult_Suc)
  then have sp: "splice (splice buf (base + i0 * S) (?enc i0)) (base + Suc i0 * S) (concat (map ?enc [Suc i0..<n])) =
      splice buf (base + i0 * S) (?enc i0 @ concat (map ?enc [Suc i0..<n]))"
    using splice_append [of "base + i0 * S" "?enc i0" "concat (map ?enc [Suc i0..<n])" buf] rest le [OF i] Suc.prems(2)
    by (simp add: add.assoc add.left_commute add.commute)
  have "[i0..<n] = i0 # [Suc i0..<n]" using i by (rule upt_conv_Cons)
  then show ?case using ih step unfolding sp split by (simp add: add.assoc)
qed


lemma drop_node:
  assumes "\<And>i. i < n \<Longrightarrow> length (enc i) = w" "i < n" "drop base b = concat (map enc [0..<n]) @ rest"
  shows "\<exists>r. drop (base + i * w) b = enc i @ r"
proof -
  obtain r where r: "drop (i * w) (concat (map enc [0..<n])) = enc i @ r" using drop_block_concat [of n enc w i] assms(1,2) by blast
  have "length (concat (map enc [0..<n])) = n * w" using assms(1) by (subst length_concat_const [where w = w]) auto
  then have "i * w \<le> length (concat (map enc [0..<n]))" using assms(2) by simp
  moreover have "drop (base + i * w) b = drop (i * w) (drop base b)" by (simp add: add.commute)
  ultimately show ?thesis unfolding assms(3) using r by simp
qed

lemma write_chunk_level_ok:
  fixes t ends level base children keys
  defines "S \<equiv> chunk_node_size (ct_ndims t)" and "n \<equiv> max (div_ceil (length children) 64) 1"
  assumes keys: "\<forall>k\<in>set keys. key_ok (ct_ndims t) k" "length keys = length children" "length ends = ct_ndims t"
      "\<forall>e\<in>set ends. e < u64_lim"
    and small: "\<forall>c\<in>set children. c < u64_lim"
    and below: "list_all2 (idx_below buf (ct_ndims t) base level) (zip children keys) lss"
    and lim: "base + n * S \<le> length buf" "length buf < u64_lim" and level: "level < 256" and wrote: "wrote + n * S < u64_lim"
  shows "\<exists>b' as' ks'. write_chunk_level t ends level base (buf, wrote, children, keys) = Inr (b', wrote + n * S, as', ks')
    \<and> length b' = length buf \<and> length ks' = n \<and> as' = map (\<lambda>i. base + i * S) [0..<n] \<and> (\<forall>k\<in>set ks'. key_ok (ct_ndims t) k)
    \<and> list_all2 (idx_below b' (ct_ndims t) (base + n * S) (Suc level)) (zip as' ks') (map concat (pieces n lss))
    \<and> take base b' = take base buf \<and> drop (base + n * S) b' = drop (base + n * S) buf"
proof -
  let ?nd = "ct_ndims t" and ?enc = "enc_level_node t ends level base n children keys"
  let ?c = "concat (map ?enc [0..<n])"
  let ?b = "splice buf base ?c"
  have cover: "length children \<le> n * 64" using div_ceil_covers [of 64 "length children"] by (simp add: n_def max_def)
  have ok: "length (nk_offsets (level_term t ends keys i)) = ?nd" "key_ok ?nd (level_key ends keys i)"
    "\<forall>k\<in>set (pieces n keys ! i). key_ok ?nd k" if "i < n" for i
    using level_keys_ok [OF keys(1,3,4) that] by auto
  have len: "length (pieces n children ! i) \<le> 64" "length (pieces n keys ! i) = length (pieces n children ! i)" if "i < n" for i
    using that keys(2) by (simp_all add: pieces_def)
  have le: "length (?enc i) = S" if "i < n" for i
    unfolding enc_level_node_def Let_def S_def
    using ok [OF that] len [OF that] by (intro length_enc_chunk_node) (auto simp: keys_ranked_def key_ok_def)
  have lc: "length ?c = n * S" by (subst length_concat_const [where w = S]) (auto simp: le)
  have w: "write_chunk_level t ends level base (buf, wrote, children, keys) =
      Inr (?b, wrote + n * S, map (\<lambda>i. base + i * S) [0..<n], map (level_key ends keys) [0..<n])"
    using write_chunk_level_fold [OF keys level, of 0 base buf wrote "[]" "[]", folded S_def, folded n_def] lim wrote
    unfolding write_chunk_level_def Let_def prod.case n_def [symmetric] by simp
  have lb: "length ?b = length buf" using lim lc by simp
  have low: "take base ?b = take base buf" using lim lc by (simp add: splice_def)
  have db: "drop base ?b = ?c @ drop (base + n * S) buf" using lim lc by (simp add: drop_splice)
  have piece: "list_all2 (idx_below buf ?nd base level) (zip (pieces n children ! i) (pieces n keys ! i)) (pieces n lss ! i)"
    if "i < n" for i
    using list_all2_takeI [OF list_all2_dropI [OF below, of "i * 64"], of 64] that by (simp add: pieces_def take_zip drop_zip)
  have "idx_below ?b ?nd (base + n * S) (Suc level) (base + i * S, level_key ends keys i) (concat (pieces n lss ! i))" if i: "i < n" for i
  proof -
    obtain r where d: "drop (base + i * S) ?b = ?enc i @ r" using drop_node [of n ?enc S i base ?b] le i db by blast
    have e: "?enc i = enc_chunk_node ?nd level (if i = 0 then UNDEFINED_ADDR else base + i * S - S)
        (if i + 1 = n then UNDEFINED_ADDR else base + i * S + S) (pieces n children ! i) (pieces n keys ! i) (level_term t ends keys i)"
      by (simp add: enc_level_node_def Let_def S_def)
    have sm: "\<forall>c\<in>set (pieces n children ! i). c < u64_lim"
      using small i by (auto simp: pieces_def dest!: in_set_takeD in_set_dropD)
    note nr = chunk_node_region [OF d [unfolded e] len [OF i] ok(3,1) [OF i] sm lim(2) [folded lb]]
    have sub: "list_all2 (idx_below ?b ?nd (base + n * S) level) (zip (pieces n children ! i) (pieces n keys ! i)) (pieces n lss ! i)"
      using piece [OF i] by (rule list_all2_mono) (use idx_below_agree [OF low lb] in simp)
    have "Suc i * S \<le> n * S" using i by (intro mult_le_mono1) simp
    moreover have "24 + length (pieces n children ! i) * (24 + ?nd * 8) \<le> S"
    proof -
      have "length (pieces n children ! i) * (24 + ?nd * 8) \<le> 64 * (24 + ?nd * 8)" using len(1) [OF i] by (rule mult_le_mono1)
      then show ?thesis by (simp add: S_def)
    qed
    ultimately have fit: "base + i * S + 24 + length (pieces n children ! i) * (24 + ?nd * 8) \<le> base + n * S"
      "base + i * S + 24 \<le> base + n * S" by simp_all
    have "map fst (zip (pieces n children ! i) (pieces n keys ! i)) = pieces n children ! i" using len(2) [OF i] by simp
    then show ?thesis by (intro idx_belowI [OF nr(1) fit _ _ sub]) (simp_all only: nr(2,3))
  qed
  then have "list_all2 (idx_below ?b ?nd (base + n * S) (Suc level))
      (zip (map (\<lambda>i. base + i * S) [0..<n]) (map (level_key ends keys) [0..<n])) (map concat (pieces n lss))"
    by (intro list_all2_all_nthI) simp_all
  moreover have "\<forall>k\<in>set (map (level_key ends keys) [0..<n]). key_ok ?nd k" using ok(2) by auto
  ultimately show ?thesis using w lb low lc lim by (simp add: splice_def)
qed

section \<open>All levels\<close>

fun chunk_chain :: "nat \<Rightarrow> nat list \<Rightarrow> bool" where
  "chunk_chain m [] \<longleftrightarrow> True"
| "chunk_chain m (n # ns) \<longleftrightarrow> n = max (div_ceil m 64) 1 \<and> chunk_chain n ns"

fun chunk_places :: "nat \<Rightarrow> nat \<Rightarrow> nat list \<Rightarrow> nat list" where
  "chunk_places S base [] = []"
| "chunk_places S base (n # ns) = base # chunk_places S (base + n * S) ns"

lemma chunk_level_addresses_InrD:
  "chunk_level_addresses S base lv = Inr as \<Longrightarrow> as = chunk_places S base lv"
  by (induction lv arbitrary: base as) (auto simp: and_then_Inr_iff)

lemma chunk_places_Nil [simp]: "chunk_places S base lv = [] \<longleftrightarrow> lv = []"
  by (cases lv) simp_all

lemma write_chunk_levels_fold:
  fixes t ends
  defines "S \<equiv> chunk_node_size (ct_ndims t)"
  assumes ends: "length ends = ct_ndims t" "\<forall>e\<in>set ends. e < u64_lim"
    and "chunk_chain (length children) lv" "\<forall>k\<in>set keys. key_ok (ct_ndims t) k" "length keys = length children"
      "\<forall>c\<in>set children. c < u64_lim" "list_all2 (idx_below buf (ct_ndims t) base level) (zip children keys) lss"
      "base + sum_list lv * S \<le> length buf" "length buf < u64_lim" "level + length lv \<le> 255" "wrote + sum_list lv * S < u64_lim"
  shows "\<exists>b' as' ks' lss'. fold_res (\<lambda>(level, base). write_chunk_level t ends level base) (enumerate level (chunk_places S base lv))
        (buf, wrote, children, keys) = Inr (b', wrote + sum_list lv * S, as', ks')
    \<and> length b' = length buf \<and> length ks' = length as'
    \<and> list_all2 (idx_below b' (ct_ndims t) (base + sum_list lv * S) (level + length lv)) (zip as' ks') lss'
    \<and> concat lss' = concat lss \<and> take base b' = take base buf
    \<and> drop (base + sum_list lv * S) b' = drop (base + sum_list lv * S) buf
    \<and> (lv \<noteq> [] \<longrightarrow> as' = map (\<lambda>i. last (chunk_places S base lv) + i * S) [0..<last lv])"
  using assms(4-)
proof (induction lv arbitrary: buf wrote children keys lss base level)
  case (Cons n ns)
  let ?base = "base + n * S" and ?nd = "ct_ndims t"
  let ?all = "base + sum_list (n # ns) * S"
  from Cons.prems(1) have n: "n = max (div_ceil (length children) 64) 1" and chain: "chunk_chain n ns"
    unfolding chunk_chain.simps by blast+
  have sum: "sum_list (n # ns) * S = n * S + sum_list ns * S" by (simp add: add_mult_distrib)
  have fit: "base + n * S \<le> length buf" "wrote + n * S < u64_lim" "level < 256"
    using Cons.prems(6,8,9) sum by simp_all
  obtain b1 as1 ks1 where lv: "write_chunk_level t ends level base (buf, wrote, children, keys) = Inr (b1, wrote + n * S, as1, ks1)"
    and b1: "length b1 = length buf" "length ks1 = n" "as1 = map (\<lambda>i. base + i * S) [0..<n]" "\<forall>k\<in>set ks1. key_ok ?nd k"
    and t1: "list_all2 (idx_below b1 ?nd ?base (Suc level)) (zip as1 ks1) (map concat (pieces n lss))"
    and o1: "take base b1 = take base buf" "drop ?base b1 = drop ?base buf"
    using write_chunk_level_ok [OF Cons.prems(2,3) ends Cons.prems(4,5), folded S_def, folded n] fit Cons.prems(7) by blast
  have small: "\<forall>a\<in>set as1. a < u64_lim"
  proof
    fix a assume "a \<in> set as1"
    then obtain i where "i < n" "a = base + i * S" using b1(3) by auto
    moreover from this have "i * S \<le> n * S" by simp
    ultimately show "a < u64_lim" using fit(1) Cons.prems(7) by linarith
  qed
  have "length children \<le> n * 64" using div_ceil_covers [of 64 "length children"] by (simp add: n max_def)
  then have cover: "concat (map concat (pieces n lss)) = concat lss"
    using list_all2_lengthD [OF Cons.prems(5)] Cons.prems(3) by (simp add: concat_map_concat concat_pieces)
  have "\<exists>b' as' ks' lss'. fold_res (\<lambda>(level, base). write_chunk_level t ends level base)
        (enumerate (Suc level) (chunk_places S ?base ns)) (b1, wrote + n * S, as1, ks1)
      = Inr (b', wrote + n * S + sum_list ns * S, as', ks')
    \<and> length b' = length b1 \<and> length ks' = length as'
    \<and> list_all2 (idx_below b' ?nd (?base + sum_list ns * S) (Suc level + length ns)) (zip as' ks') lss'
    \<and> concat lss' = concat (map concat (pieces n lss)) \<and> take ?base b' = take ?base b1
    \<and> drop (?base + sum_list ns * S) b' = drop (?base + sum_list ns * S) b1
    \<and> (ns \<noteq> [] \<longrightarrow> as' = map (\<lambda>i. last (chunk_places S ?base ns) + i * S) [0..<last ns])"
    by (rule Cons.IH) (use Cons.prems(6-9) chain b1 t1 small sum in simp_all)
  then obtain b2 as2 ks2 lss2 where r: "fold_res (\<lambda>(level, base). write_chunk_level t ends level base)
        (enumerate (Suc level) (chunk_places S ?base ns)) (b1, wrote + n * S, as1, ks1)
      = Inr (b2, wrote + n * S + sum_list ns * S, as2, ks2)"
    and b2: "length b2 = length b1" "length ks2 = length as2"
      "list_all2 (idx_below b2 ?nd (?base + sum_list ns * S) (Suc level + length ns)) (zip as2 ks2) lss2"
      "concat lss2 = concat (map concat (pieces n lss))" "take ?base b2 = take ?base b1"
      "drop (?base + sum_list ns * S) b2 = drop (?base + sum_list ns * S) b1"
      "ns \<noteq> [] \<longrightarrow> as2 = map (\<lambda>i. last (chunk_places S ?base ns) + i * S) [0..<last ns]"
    by blast
  have all: "?base + sum_list ns * S = ?all" "wrote + n * S + sum_list ns * S = wrote + sum_list (n # ns) * S" using sum by simp_all
  have "ns = [] \<Longrightarrow> as2 = as1" using r by simp
  then have last: "as2 = map (\<lambda>i. last (chunk_places S base (n # ns)) + i * S) [0..<last (n # ns)]"
    using b1(3) b2(7) by (cases "ns = []") auto
  have low: "take base b2 = take base buf"
    using arg_cong [OF b2(5), of "take base"] o1(1) by (simp add: min_def)
  have high: "drop ?all b2 = drop ?all buf"
  proof -
    have d: "drop ?all x = drop (sum_list ns * S) (drop ?base x)" for x :: bytes
      unfolding all(1) [symmetric] by (simp add: add.commute)
    show ?thesis using b2(6) unfolding all(1) unfolding d o1(2) .
  qed
  have run: "fold_res (\<lambda>(level, base). write_chunk_level t ends level base) (enumerate level (chunk_places S base (n # ns)))
        (buf, wrote, children, keys) = Inr (b2, wrote + sum_list (n # ns) * S, as2, ks2)"
    using lv r unfolding all by simp
  have "list_all2 (idx_below b2 ?nd ?all (level + length (n # ns))) (zip as2 ks2) lss2" using b2(3) unfolding all by simp
  with run low high last b1(1) b2(1,2,4) cover show ?case by (intro exI [of _ b2] exI [of _ as2] exI [of _ ks2] exI [of _ lss2]) simp
qed auto


section \<open>The plan\<close>

lemma chunk_chain_snoc: "chunk_chain m (xs @ [n]) \<longleftrightarrow> chunk_chain m xs \<and> n = max (div_ceil (last (m # xs)) 64) 1"
  by (induction xs arbitrary: m) auto

lemma chunk_levels_loop_chain:
  assumes "chunk_levels_loop nodes lv = Inr r" "chunk_chain m lv" "lv \<noteq> []" "last lv = nodes" "0 < nodes" "length lv \<le> 8"
  shows "chunk_chain m r \<and> r \<noteq> [] \<and> last r = 1 \<and> length r \<le> 8"
  using assms
proof (induction nodes lv rule: chunk_levels_loop.induct)
  case (1 nodes lv)
  show ?case
  proof (cases "nodes > 1")
    case True
    with "1.prems"(1) have l: "length lv < 8" and r: "chunk_levels_loop (div_ceil nodes 64) (lv @ [div_ceil nodes 64]) = Inr r"
      by (auto simp: chunk_levels_loop.simps [of nodes lv] Let_def split: if_splits)
    have "0 < div_ceil nodes 64" using True div_ceil_pos [of nodes 64] by simp
    then have "max (div_ceil nodes 64) 1 = div_ceil nodes 64" by simp
    then show ?thesis
      by (intro "1.IH" [OF True _ refl r]) (use "1.prems" l \<open>0 < div_ceil nodes 64\<close> in \<open>auto simp: chunk_chain_snoc\<close>)
  next
    case False
    then show ?thesis using "1.prems" by (subst (asm) chunk_levels_loop.simps) auto
  qed
qed

lemma chunk_levels_loop_total:
  assumes "nodes \<le> 64 ^ k" "length lv + k \<le> 8"
  shows "\<exists>r. chunk_levels_loop nodes lv = Inr r"
  using assms
proof (induction k arbitrary: nodes lv)
  case 0
  then show ?case by (subst chunk_levels_loop.simps) simp
next
  case (Suc k)
  have "div_ceil nodes 64 \<le> 64 ^ k"
  proof (cases "nodes mod 64 = 0")
    case True
    then show ?thesis using Suc.prems(1) div_mult_mod_eq [of nodes 64] by (simp add: div_ceil_def)
  next
    case False
    then have "nodes div 64 < 64 ^ k" using Suc.prems(1) div_mult_mod_eq [of nodes 64] unfolding power_Suc by linarith
    then show ?thesis by (simp add: div_ceil_def Suc_leI)
  qed
  then have "\<exists>r. chunk_levels_loop (div_ceil nodes 64) (lv @ [div_ceil nodes 64]) = Inr r"
    by (rule Suc.IH) (use Suc.prems(2) in simp)
  then show ?case using Suc.prems(2) by (subst chunk_levels_loop.simps) (simp add: Let_def)
qed

lemma chunk_tree_plan_chain:
  assumes "chunk_tree_plan ndims n elem_size = Inr t"
  shows "ct_ndims t = ndims \<and> ct_elem_size t = elem_size \<and> ct_n_chunks t = n \<and> chunk_chain n (ct_levels t) \<and> ct_levels t \<noteq> [] \<and>
    last (ct_levels t) = 1 \<and> length (ct_levels t) \<le> 8"
proof -
  let ?m = "max (div_ceil n 64) 1"
  obtain lv where "chunk_levels_loop ?m [?m] = Inr lv"
    "t = \<lparr>ct_ndims = ndims, ct_elem_size = elem_size, ct_n_chunks = n, ct_levels = lv, ct_level_addr = replicate (length lv) 0, ct_root_addr = 0\<rparr>"
    using assms by (auto simp: chunk_tree_plan_def Let_def and_then_Inr_iff split: if_splits)
  then show ?thesis using chunk_levels_loop_chain [of ?m "[?m]" lv n] by simp
qed

lemma chunk_tree_plan_Inr: "(\<exists>t. chunk_tree_plan ndims n elem_size = Inr t) \<longleftrightarrow> n \<le> 2 ^ 24"
proof
  assume n: "n \<le> 2 ^ 24"
  have "div_ceil n 64 \<le> 262144" 
  proof (cases "n mod 64 = 0")
    case False
    then have "n \<noteq> 16777216" by auto
    then have "n div 64 < 262144" using n by (intro less_mult_imp_div_less) simp
    then show ?thesis using False unfolding div_ceil_def by simp
  qed (use n in \<open>simp add: div_ceil_def\<close>)
  then have "max (div_ceil n 64) 1 \<le> 64 ^ 3" by simp
  then have "\<exists>r. chunk_levels_loop (max (div_ceil n 64) 1) [max (div_ceil n 64) 1] = Inr r"
    by (rule chunk_levels_loop_total) simp
  then show "\<exists>t. chunk_tree_plan ndims n elem_size = Inr t" using n by (auto simp: chunk_tree_plan_def Let_def)
qed (auto simp: chunk_tree_plan_def split: if_splits)

section \<open>Round trip\<close>

definition entry_key :: "chunk_entry_w \<Rightarrow> node_key" where
  "entry_key e = \<lparr>nk_nbytes = ce_nbytes e, nk_filter_mask = ce_filter_mask e, nk_offsets = ce_offsets e, nk_elem_offset = 0\<rparr>"

definition entry_ok :: "nat \<Rightarrow> chunk_entry_w \<Rightarrow> bool" where
  "entry_ok ndims e \<longleftrightarrow> ce_addr e < u64_max \<and> key_ok ndims (entry_key e)"

definition entry_record :: "chunk_entry_w \<Rightarrow> chunk_record" where
  "entry_record e = \<lparr>rec_address = ce_addr e, rec_size = ce_nbytes e, rec_filter_mask = ce_filter_mask e, rec_offsets = ce_offsets e\<rparr>"

lemma chunk_index_write_read:
  assumes plan: "chunk_tree_plan ndims (length entries) elem_size = Inr t0" and assign: "chunk_tree_assign t0 base = Inr t"
    and fit: "base + chunk_tree_bytes t \<le> length buf" and len: "length buf \<le> isize_max"
    and ok: "\<forall>e\<in>set entries. entry_ok ndims e" and ends: "length ends = ndims" "\<forall>e\<in>set ends. e < u64_lim"
  shows "\<exists>b. chunk_tree_write t buf entries ends = Inr (b, chunk_tree_bytes t) \<and> length b = length buf \<and>
    chunk_btree_parse b (ct_root_addr t) ndims = Inr (map entry_record entries) \<and>
    take base b = take base buf \<and> drop (base + chunk_tree_bytes t) b = drop (base + chunk_tree_bytes t) buf"
proof -
  define lv where "lv = ct_levels t0"
  let ?S = "chunk_node_size ndims" and ?cs = "map ce_addr entries" and ?ks = "map entry_key entries"
  note c = chunk_tree_plan_chain [OF plan, folded lv_def]
  obtain as where as: "chunk_level_addresses ?S base lv = Inr as"
    "t = t0\<lparr>ct_level_addr := as, ct_root_addr := (if as = [] then base else last as)\<rparr>"
    using assign c by (auto simp: chunk_tree_assign_def lv_def and_then_Inr_iff)
  have t: "ct_ndims t = ndims" "ct_n_chunks t = length entries" "ct_levels t = lv" "ct_level_addr t = chunk_places ?S base lv"
    "ct_root_addr t = last (chunk_places ?S base lv)"
    using as c chunk_level_addresses_InrD [OF as(1)] by (simp_all add: lv_def)
  have bytes: "chunk_tree_bytes t = sum_list lv * ?S" by (simp add: chunk_tree_bytes_def t)
  have "list_all2 (idx_below buf (ct_ndims t) base 0) (zip ?cs ?ks) (map (\<lambda>e. [entry_record e]) entries)"
    using ok by (fastforce simp: list_all2_conv_all_nth entry_ok_def entry_record_def entry_key_def rec_of_def dest: nth_mem)
  moreover have "\<forall>k\<in>set ?ks. key_ok (ct_ndims t) k" "\<forall>a\<in>set ?cs. a < u64_lim" using ok t(1) by (auto simp: entry_ok_def)
  ultimately have "\<exists>b' as' ks' lss'. fold_res (\<lambda>(level, base). write_chunk_level t ends level base) (enumerate 0 (chunk_places ?S base lv))
        (buf, 0, ?cs, ?ks) = Inr (b', 0 + sum_list lv * ?S, as', ks')
    \<and> length b' = length buf \<and> length ks' = length as'
    \<and> list_all2 (idx_below b' ndims (base + sum_list lv * ?S) (0 + length lv)) (zip as' ks') lss'
    \<and> concat lss' = concat (map (\<lambda>e. [entry_record e]) entries) \<and> take base b' = take base buf
    \<and> drop (base + sum_list lv * ?S) b' = drop (base + sum_list lv * ?S) buf
    \<and> (lv \<noteq> [] \<longrightarrow> as' = map (\<lambda>i. last (chunk_places ?S base lv) + i * ?S) [0..<last lv])"
    by (intro write_chunk_levels_fold [of ends t, unfolded t(1)]) (use c ends fit len bytes t(1) in simp_all)
  then obtain b as' ks' lss' where w: "fold_res (\<lambda>(level, base). write_chunk_level t ends level base) (enumerate 0 (chunk_places ?S base lv))
        (buf, 0, ?cs, ?ks) = Inr (b, sum_list lv * ?S, as', ks')" "length b = length buf" "length ks' = length as'"
    and below: "list_all2 (idx_below b ndims (base + sum_list lv * ?S) (length lv)) (zip as' ks') lss'"
    and cat: "concat lss' = map entry_record entries"
    and rest: "take base b = take base buf" "drop (base + sum_list lv * ?S) b = drop (base + sum_list lv * ?S) buf"
      "as' = [ct_root_addr t]"
    using c t(5) by (auto simp: concat_map_singleton)
  obtain k rs where k: "ks' = [k]" "lss' = [rs]" "idx_below b ndims (base + sum_list lv * ?S) (Suc (length lv - 1)) (ct_root_addr t, k) rs"
    using below w(3) rest(3) c by (cases ks') (auto simp: list_all2_Cons1)
  have "chunk_tree b ndims (length lv - 1) (ct_root_addr t) (map entry_record entries)"
  proof -
    have "length lv - 1 < 255" using c by linarith
    then show ?thesis using idx_below_tree [OF k(3)] cat k(2) by simp
  qed
  then have "chunk_btree_parse b (ct_root_addr t) ndims = Inr (map entry_record entries)"
  proof -
    have "0 + (length lv - 1) \<le> 64" using c by linarith
    moreover have "length b < u64_lim" using w(2) len by simp
    ultimately show ?thesis using collect_chunk_tree [OF \<open>chunk_tree b ndims (length lv - 1) (ct_root_addr t) (map entry_record entries)\<close>, of 0 "[]"]
      by (simp add: chunk_btree_parse_def)
  qed
  moreover have "chunk_tree_write t buf entries ends = Inr (b, chunk_tree_bytes t)"
    using w(1) ends t by (simp add: chunk_tree_write_def Let_def bytes entry_key_def [abs_def])
  ultimately show ?thesis using w(2) rest bytes by simp
qed


text \<open>
  C5. What the writer files the reader finds: for any list of at most \<open>2 ^ 24\<close> chunks, the index is
  planned, and once it is placed in a region of the file it is emitted into exactly that region; nothing
  outside it changes, and walking the tree from its root address gives back every chunk with its
  address, size, filter mask and offsets, in the order it was given.
\<close>

theorem chunk_index_round_trip:
  assumes "length entries \<le> 2 ^ 24" "\<forall>e\<in>set entries. entry_ok ndims e" "length ends = ndims" "\<forall>e\<in>set ends. e < u64_lim"
  shows "\<exists>t0. chunk_tree_plan ndims (length entries) elem_size = Inr t0 \<and>
    (\<forall>base t buf. chunk_tree_assign t0 base = Inr t \<and> base + chunk_tree_bytes t \<le> length buf \<and> length buf \<le> isize_max \<longrightarrow>
      (\<exists>b. chunk_tree_write t buf entries ends = Inr (b, chunk_tree_bytes t) \<and> length b = length buf \<and>
        chunk_btree_parse b (ct_root_addr t) ndims = Inr (map entry_record entries) \<and>
        take base b = take base buf \<and> drop (base + chunk_tree_bytes t) b = drop (base + chunk_tree_bytes t) buf))"
proof -
  obtain t0 where t0: "chunk_tree_plan ndims (length entries) elem_size = Inr t0" using chunk_tree_plan_Inr assms(1) by blast
  show ?thesis using t0 chunk_index_write_read [OF t0 _ _ _ assms(2-4)] by blast
qed

theorem chunk_index_round_trip_witness:
  "\<exists>t b. chunk_tree_write t (replicate 2100 7) [\<lparr>ce_offsets = [4], ce_addr = 4096, ce_nbytes = 16, ce_filter_mask = 0\<rparr>] [8] = Inr (b, 2096) \<and>
    chunk_btree_parse b 2 1 = Inr [\<lparr>rec_address = 4096, rec_size = 16, rec_filter_mask = 0, rec_offsets = [4]\<rparr>] \<and>
    take 2 b = [7, 7] \<and> drop 2098 b = [7, 7]"
proof -
  let ?e = "\<lparr>ce_offsets = [4], ce_addr = 4096, ce_nbytes = 16, ce_filter_mask = 0\<rparr>"
  let ?planned = "\<lparr>ct_ndims = 1, ct_elem_size = 4, ct_n_chunks = 1, ct_levels = [1], ct_level_addr = [0], ct_root_addr = 0\<rparr>"
  let ?t = "\<lparr>ct_ndims = 1, ct_elem_size = 4, ct_n_chunks = 1, ct_levels = [1], ct_level_addr = [2], ct_root_addr = 2\<rparr>"
  have "chunk_levels_loop 1 [1] = Inr [1]" by (simp add: chunk_levels_loop.simps)
  then have p: "chunk_tree_plan 1 (length [?e]) 4 = Inr ?planned"
    by (simp add: chunk_tree_plan_def div_ceil_def Let_def)
  have a: "chunk_tree_assign ?planned 2 = Inr ?t" by (simp add: chunk_tree_assign_def)
  have n: "chunk_tree_bytes ?t = 2096" by (simp add: chunk_tree_bytes_def)
  have ok: "\<forall>e\<in>set [?e]. entry_ok 1 e" "\<forall>e\<in>set [8]. e < u64_lim" "length [?e] \<le> 2 ^ 24"
    by (simp_all add: entry_ok_def entry_key_def key_ok_def)
  obtain q where q: "chunk_tree_plan 1 (length [?e]) 4 = Inr q" and run: "\<And>base t buf. chunk_tree_assign q base = Inr t \<Longrightarrow>
      base + chunk_tree_bytes t \<le> length buf \<Longrightarrow> length buf \<le> isize_max \<Longrightarrow>
      \<exists>b. chunk_tree_write t buf [?e] [8] = Inr (b, chunk_tree_bytes t) \<and> length b = length buf \<and>
        chunk_btree_parse b (ct_root_addr t) 1 = Inr (map entry_record [?e]) \<and>
        take base b = take base buf \<and> drop (base + chunk_tree_bytes t) b = drop (base + chunk_tree_bytes t) buf"
    using chunk_index_round_trip [OF ok(3,1) _ ok(2), of 4] by auto
  have "q = ?planned" using p q by simp
  then have "\<exists>b. chunk_tree_write ?t (replicate 2100 7) [?e] [8] = Inr (b, chunk_tree_bytes ?t) \<and> length b = length (replicate 2100 (7 :: byte)) \<and>
        chunk_btree_parse b (ct_root_addr ?t) 1 = Inr (map entry_record [?e]) \<and>
        take 2 b = take 2 (replicate 2100 7) \<and> drop (2 + chunk_tree_bytes ?t) b = drop (2 + chunk_tree_bytes ?t) (replicate 2100 7)"
    using a n by (intro run) simp_all
  then show ?thesis unfolding n
    by (elim exE) (intro exI [of _ ?t] exI, auto simp: entry_record_def take_replicate numeral_2_eq_2)
qed

end
