(* ===== verification/Core_Dataset.thy ===== *)
theory Core_Dataset
  imports Odometer Datatype
begin

text \<open>
  The in-memory values of \<^verbatim>\<open>oxih5-core/src/lib.rs\<close>: an attribute with its scalar decoders, and a
  dataset with the operations that cut a rectangular region out of it or give it another shape.
  A machine number is a word, a float is its bit pattern.
\<close>

section \<open>Attributes\<close>

text \<open>\<^verbatim>\<open>from_le_bytes\<close> and \<^verbatim>\<open>from_be_bytes\<close> of an unsigned integer type.\<close>

definition from_order :: "byte_order \<Rightarrow> bytes \<Rightarrow> 'a::len word" where
  "from_order ord bs = word_of_nat (from_le (case ord of Little \<Rightarrow> bs | Big \<Rightarrow> rev bs))"

definition attr_as_i64 :: "attribute \<Rightarrow> 64 word option" where
  "attr_as_i64 a =
     (case attr_dtype a of
        Int_t sz sg ord \<Rightarrow>
          if length (attr_data a) < sz then None
          else
            let bs = take sz (attr_data a) in
            if sz = 1 \<and> sg then Some (scast (hd bs :: 8 word))
            else if sz = 1 then Some (ucast (hd bs))
            else if sz = 2 \<and> sg then Some (scast (from_order ord bs :: 16 word))
            else if sz = 2 then Some (ucast (from_order ord bs :: 16 word))
            else if sz = 4 \<and> sg then Some (scast (from_order ord bs :: 32 word))
            else if sz = 4 then Some (ucast (from_order ord bs :: 32 word))
            else if sz = 8 then Some (from_order ord bs)
            else None
      | _ \<Rightarrow> None)"

definition attr_as_u64 :: "attribute \<Rightarrow> 64 word option" where
  "attr_as_u64 a =
     (case attr_dtype a of
        Int_t sz False ord \<Rightarrow>
          if length (attr_data a) < sz then None
          else
            let bs = take sz (attr_data a) in
            if sz = 1 then Some (ucast (hd bs))
            else if sz = 2 then Some (ucast (from_order ord bs :: 16 word))
            else if sz = 4 then Some (ucast (from_order ord bs :: 32 word))
            else if sz = 8 then Some (from_order ord bs)
            else None
      | _ \<Rightarrow> None)"

text \<open>
  \<^verbatim>\<open>f64::from(f32)\<close> on bit patterns: exact on every finite value and on the infinities; a
  not-a-number keeps its payload and is quiet.
\<close>

fun leading :: "nat \<Rightarrow> nat" where
  "leading m = (if m < 2 then 0 else Suc (leading (m div 2)))"

declare leading.simps [simp del]

definition f64_from_f32 :: "32 word \<Rightarrow> 64 word" where
  "f64_from_f32 w =
     (let n = unat w; sign = n div 2 ^ 31; expo = n div 2 ^ 23 mod 256; m = n mod 2 ^ 23;
          pack = (\<lambda>e f. word_of_nat ((sign * 2048 + e) * 2 ^ 52 + f)) in
      if expo = 255 then pack 2047 (if m = 0 then 0 else (if m < 2 ^ 22 then m + 2 ^ 22 else m) * 2 ^ 29)
      else if expo = 0 then
        if m = 0 then pack 0 0 else pack (leading m + 874) ((m - 2 ^ leading m) * 2 ^ (52 - leading m))
      else pack (expo + 896) (m * 2 ^ 29))"

definition attr_as_f64 :: "attribute \<Rightarrow> 64 word option" where
  "attr_as_f64 a =
     (case attr_dtype a of
        Float sz ord \<Rightarrow>
          if sz = 8 then
            if length (attr_data a) < 8 then None else Some (from_order ord (take 8 (attr_data a)))
          else if sz = 4 then
            if length (attr_data a) < 4 then None
            else Some (f64_from_f32 (from_order ord (take 4 (attr_data a))))
          else None
      | _ \<Rightarrow> None)"

definition as_str_fixed :: "attribute \<Rightarrow> str option" where
  "as_str_fixed a =
     (case attr_dtype a of
        String (Some n) _ \<Rightarrow>
          if n > length (attr_data a) then None
          else
            let trimmed = takeWhile (\<lambda>b. b \<noteq> 0) (take n (attr_data a)) in
            if valid_utf8 trimmed then Some trimmed else None
      | _ \<Rightarrow> None)"

definition attr_is_scalar :: "attribute \<Rightarrow> bool res" where
  "attr_is_scalar a =
     (case attr_dataspace a of
        Scalar \<Rightarrow> Inr True
      | Simple dims _ \<Rightarrow> and_then (product_u64 dims) (\<lambda>n. Inr (n \<le> 1))
      | Null \<Rightarrow> Inr False)"

definition attr_shape :: "attribute \<Rightarrow> nat list" where
  "attr_shape a = (case attr_dataspace a of Scalar \<Rightarrow> [] | Null \<Rightarrow> [0] | Simple dims _ \<Rightarrow> dims)"

section \<open>Datasets\<close>

record dataset =
  dset_data :: bytes
  dset_shape :: "nat list"
  dset_dtype :: dtype
  dset_attributes :: "attribute list"
  dset_max_dims :: "nat list option"

definition dset_attr :: "dataset \<Rightarrow> str \<Rightarrow> attribute option" where
  "dset_attr ds name = find (\<lambda>a. attr_name a = name) (dset_attributes ds)"

definition is_unlimited :: "dataset \<Rightarrow> bool" where
  "is_unlimited ds = (case dset_max_dims ds of None \<Rightarrow> False | Some md \<Rightarrow> u64_max \<in> set md)"

definition unlimited_axes :: "dataset \<Rightarrow> nat list" where
  "unlimited_axes ds =
     (case dset_max_dims ds of None \<Rightarrow> []
      | Some md \<Rightarrow> map fst (filter (\<lambda>(i, d). d = u64_max) (enumerate 0 md)))"

definition dset_len :: "dataset \<Rightarrow> nat res" where
  "dset_len ds = (if dset_shape ds = [] then Inr 1 else product_u64 (dset_shape ds))"

definition dset_is_empty :: "dataset \<Rightarrow> bool res" where
  "dset_is_empty ds = and_then (dset_len ds) (\<lambda>n. Inr (n = 0))"





definition dataset_reshape :: "dataset \<Rightarrow> nat list \<Rightarrow> dataset res" where
  "dataset_reshape ds new_shape =
     and_then (if dset_shape ds = [] then Inr 1 else product_u64 (dset_shape ds)) (\<lambda>old_count.
     and_then (if new_shape = [] then Inr 1 else product_u64 new_shape) (\<lambda>new_count.
       if old_count \<noteq> new_count then Inl Format else Inr (ds\<lparr>dset_shape := new_shape\<rparr>)))"


section \<open>What a slice holds\<close>
























end
