(* ===== verification/Half_Float.thy ===== *)
theory Half_Float
  imports Prelude
begin

unbundle bit_operations_syntax

text \<open>
  \<^verbatim>\<open>f16_to_f32\<close> and \<^verbatim>\<open>f32_to_f16\<close> of \<^verbatim>\<open>oxih5-core/src/dataset_convert.rs\<close>: the software conversions
  between half and single precision. A float is its bit pattern, a natural number below \<open>2 ^ 16\<close>
  or \<open>2 ^ 32\<close>; a shift to the left drops the bits past the width, and the exponent of the encoder
  is a signed number.
\<close>

section \<open>The conversions\<close>

text \<open>The loop that normalises a subnormal; it would not end on a zero significand.\<close>

partial_function (option) normalise :: "nat \<Rightarrow> nat \<Rightarrow> (nat \<times> nat) option" where
  "normalise m e =
     (if m AND 0x400 = 0 then normalise (push_bit 1 m mod 2 ^ 32) ((e + 2 ^ 32 - 1) mod 2 ^ 32)
      else Some (m, e))"

definition f16_to_f32 :: "nat \<Rightarrow> nat option" where
  "f16_to_f32 bits =
     (let sign = drop_bit 15 bits AND 1; expo = drop_bit 10 bits AND 0x1F; mantissa = bits AND 0x3FF in
      if expo = 0 then
        if mantissa = 0 then Some (push_bit 31 sign)
        else Option.bind (normalise mantissa (127 - 14)) (\<lambda>(m, e).
          let m = m AND 0x3FF in Some (push_bit 31 sign OR push_bit 23 e OR push_bit 13 m))
      else if expo = 31 then Some (push_bit 31 sign OR push_bit 23 0xFF OR push_bit 13 mantissa)
      else
        let e = expo + 127 - 15 in Some (push_bit 31 sign OR push_bit 23 e OR push_bit 13 mantissa))"

definition f32_to_f16 :: "nat \<Rightarrow> nat" where
  "f32_to_f16 bits =
     (let sign = drop_bit 16 bits AND 0x8000; expo = drop_bit 23 bits AND 0xFF; mantissa = bits AND 0x7FFFFF in
      if expo = 0xFF then
        if mantissa = 0 then sign OR 0x7C00
        else
          let payload = drop_bit 13 mantissa in sign OR 0x7C00 OR (if payload = 0 then 1 else payload)
      else
        let e = int expo - 127 + 15 in
        if e \<ge> 0x1F then sign OR 0x7C00
        else if e \<le> 0 then
          if e < -10 then sign
          else
            let m = mantissa OR 0x800000; shift = nat (14 - e); kept = drop_bit shift m;
                dropped = m AND (push_bit shift 1 - 1); half = push_bit (shift - 1) 1;
                out = kept;
                out = (if dropped > half \<or> dropped = half \<and> kept AND 1 = 1 then out + 1 else out) in
            sign OR out
        else
          let kept = drop_bit 13 mantissa; out = push_bit 10 (nat e) OR kept; dropped = mantissa AND 0x1FFF;
              out = (if dropped > 0x1000 \<or> dropped = 0x1000 \<and> kept AND 1 = 1 then out + 1 else out) in
          sign OR out)"

section \<open>Fields of a bit pattern\<close>

lemma and_low: "n AND (2 ^ k - 1) = n mod 2 ^ k" for n :: nat
  by (metis take_bit_eq_mask mask_eq_exp_minus_1 take_bit_eq_mod)

lemma and_masks:
  "n AND 1 = n mod 2" "n AND 0x1F = n mod 32" "n AND 0x3FF = n mod 1024" "n AND 0xFF = n mod 256"
  "n AND 0x7FFFFF = n mod 8388608" "n AND 0x1FFF = n mod 8192" for n :: nat
  using and_low [of n 1] and_low [of n 5] and_low [of n 10] and_low [of n 8] and_low [of n 23] and_low [of n 13] by simp_all

lemma and_bit: "n AND 2 ^ k = n div 2 ^ k mod 2 * 2 ^ k" for n :: nat
proof (cases "bit n k")
  case True
  then have "n AND 2 ^ k = 2 ^ k" by (intro bit_eqI) (auto simp: bit_and_iff bit_exp_iff)
  then show ?thesis using True by (simp add: bit_iff_odd odd_iff_mod_2_eq_one)
next
  case False
  then have "n AND 2 ^ k = 0" by (intro bit_eqI) (auto simp: bit_and_iff bit_exp_iff)
  then show ?thesis using False by (simp add: bit_iff_odd even_iff_mod_2_eq_zero)
qed

lemma or_disjoint: "b < 2 ^ k \<Longrightarrow> a * 2 ^ k OR b = a * 2 ^ k + b" for a b :: nat
proof -
  assume b: "b < 2 ^ k"
  have "\<not> bit (a * 2 ^ k) n \<or> \<not> bit b n" for n
  proof (cases "n < k")
    case True
    then show ?thesis by (simp add: bit_push_bit_iff push_bit_eq_mult [symmetric])
  next
    case False
    then have "b < 2 ^ n" using b by (meson less_le_trans not_less one_le_numeral power_increasing)
    then show ?thesis by (simp add: bit_iff_odd)
  qed
  then show ?thesis by (simp add: disjunctive_add)
qed

text \<open>The pattern with a sign, an exponent and a significand.\<close>

definition pattern :: "nat \<Rightarrow> nat \<Rightarrow> nat \<Rightarrow> nat \<Rightarrow> nat \<Rightarrow> nat" where
  "pattern we wm s e m = (s * 2 ^ we + e) * 2 ^ wm + m"

abbreviation "p32 \<equiv> pattern 8 23"
abbreviation "p16 \<equiv> pattern 5 10"

lemma pattern_fields:
  assumes "s < 2" "e < 2 ^ we" "m < 2 ^ wm"
  shows "pattern we wm s e m mod 2 ^ wm = m" "pattern we wm s e m div 2 ^ wm mod 2 ^ we = e"
    "pattern we wm s e m div 2 ^ (we + wm) = s"
proof -
  show "pattern we wm s e m mod 2 ^ wm = m" using assms(3) by (simp add: pattern_def)
  have d: "pattern we wm s e m div 2 ^ wm = s * 2 ^ we + e" using assms(3) by (simp add: pattern_def)
  then show "pattern we wm s e m div 2 ^ wm mod 2 ^ we = e" using assms(2) by simp
  have "pattern we wm s e m div 2 ^ (we + wm) = pattern we wm s e m div 2 ^ wm div 2 ^ we"
    by (simp add: power_add div_mult2_eq mult.commute [of "2 ^ we"])
  then show "pattern we wm s e m div 2 ^ (we + wm) = s" using assms(2) by (simp add: d)
qed

lemma pattern_exists: "n < 2 ^ (Suc (we + wm)) \<Longrightarrow> \<exists>s e m. s < 2 \<and> e < 2 ^ we \<and> m < 2 ^ wm \<and> n = pattern we wm s e m"
proof -
  assume n: "n < 2 ^ (Suc (we + wm))"
  let ?s = "n div 2 ^ wm div 2 ^ we" and ?e = "n div 2 ^ wm mod 2 ^ we" and ?m = "n mod 2 ^ wm"
  have "?s < 2" using n by (simp add: div_mult2_eq [symmetric] power_add less_mult_imp_div_less mult.commute mult.left_commute)
  moreover have "n = pattern we wm ?s ?e ?m" by (simp only: pattern_def div_mult_mod_eq)
  ultimately show ?thesis by (intro exI [of _ ?s] exI [of _ ?e] exI [of _ ?m]) simp
qed

lemma decode16:
  assumes "s < 2" "e < 32" "m < 1024"
  shows "drop_bit 15 (p16 s e m) AND 1 = s" "drop_bit 10 (p16 s e m) AND 0x1F = e" "p16 s e m AND 0x3FF = m"
  using pattern_fields [of s e 5 m 10] assms by (simp_all add: and_masks drop_bit_eq_div)

lemma decode32:
  assumes "s < 2" "e < 256" "m < 8388608"
  shows "drop_bit 16 (p32 s e m) AND 0x8000 = s * 32768" "drop_bit 23 (p32 s e m) AND 0xFF = e" "p32 s e m AND 0x7FFFFF = m"
proof -
  note f = pattern_fields [of s e 8 m 23]
  have "p32 s e m div 65536 div 32768 = p32 s e m div 2147483648" by (simp only: div_mult2_eq [symmetric]) simp
  then show "drop_bit 16 (p32 s e m) AND 0x8000 = s * 32768"
    using and_bit [of "drop_bit 16 (p32 s e m)" 15] f(3) assms by (simp add: drop_bit_eq_div)
  show "drop_bit 23 (p32 s e m) AND 0xFF = e" "p32 s e m AND 0x7FFFFF = m"
    using f assms by (simp_all add: and_masks drop_bit_eq_div)
qed

lemma encode32:
  assumes "e < 256" "m < 1024"
  shows "push_bit 31 s OR push_bit 23 e OR push_bit 13 m = p32 s e (m * 8192)"
proof -
  have "push_bit 23 e OR push_bit 13 m = e * 8388608 + m * 8192"
    using or_disjoint [of "m * 8192" 23 e] assms by (simp add: push_bit_eq_mult)
  moreover have "s * 2147483648 OR (e * 8388608 + m * 8192) = s * 2147483648 + (e * 8388608 + m * 8192)"
    using or_disjoint [of "e * 8388608 + m * 8192" 31 s] assms by simp
  ultimately show ?thesis by (simp add: push_bit_eq_mult or.assoc pattern_def)
qed

lemma encode16: "m < 32768 \<Longrightarrow> s * 32768 OR m = s * 32768 + m" for s m :: nat
  using or_disjoint [of m 15 s] by simp


text \<open>The encoder on the fields of its argument.\<close>

definition to_half :: "nat \<Rightarrow> nat \<Rightarrow> nat \<Rightarrow> nat" where
  "to_half sign expo mantissa =
     (if expo = 255 then
        if mantissa = 0 then sign OR 0x7C00
        else sign OR 0x7C00 OR (if drop_bit 13 mantissa = 0 then 1 else drop_bit 13 mantissa)
      else if 142 < expo then sign OR 0x7C00
      else if expo < 102 then sign
      else if expo \<le> 112 then
        let m = mantissa OR 0x800000; shift = 126 - expo; kept = m div 2 ^ shift; dropped = m mod 2 ^ shift in
        sign OR (if dropped > 2 ^ (shift - 1) \<or> dropped = 2 ^ (shift - 1) \<and> odd kept then kept + 1 else kept)
      else
        let kept = mantissa div 8192; out = (expo - 112) * 1024 OR kept; dropped = mantissa mod 8192 in
        sign OR (if dropped > 4096 \<or> dropped = 4096 \<and> odd kept then out + 1 else out))"

lemma f32_to_f16_fields:
  assumes "s < 2" "e < 256" "m < 8388608"
  shows "f32_to_f16 (p32 s e m) = to_half (s * 32768) e m"
proof -
  have "nat (14 - (int e - 127 + 15)) = 126 - e" if "e \<le> 112" using that by simp
  moreover have "nat (int e - 127 + 15) = e - 112" by simp
  moreover have "x AND (push_bit k 1 - 1) = x mod 2 ^ k" for x k :: nat
    using and_low [of x k] by (simp add: push_bit_eq_mult)
  moreover have "x AND 1 = 1 \<longleftrightarrow> odd x" for x :: nat by (simp add: and_masks odd_iff_mod_2_eq_one)
  ultimately show ?thesis
    unfolding f32_to_f16_def to_half_def Let_def decode32 [OF assms]
    by (auto simp: drop_bit_eq_div push_bit_eq_mult and_masks odd_iff_mod_2_eq_one simp del: push_bit_of_1)
qed

section \<open>Half to single and back\<close>

lemma normalise_power: "0 < m \<Longrightarrow> m * 2 ^ k < 2048 \<Longrightarrow> 1024 \<le> m * 2 ^ k \<Longrightarrow> k \<le> e \<Longrightarrow> e < 200 \<Longrightarrow>
    normalise m e = Some (m * 2 ^ k, e - k)"
proof (induction k arbitrary: m e)
  case 0
  then have "m div 1024 = 1" by (auto simp: div_nat_eqI)
  then have "m AND 0x400 = 1024" using and_bit [of m 10] by simp
  then show ?case by (subst normalise.simps) simp
next
  case (Suc k)
  have "m * 2 \<le> m * 2 ^ Suc k" by (intro mult_le_mono2) simp
  then have m: "m < 1024" using Suc.prems(2) by linarith
  then have "m AND 0x400 = 0" using and_bit [of m 10] by simp
  then have "normalise m e = normalise (m * 2) ((e + 2 ^ 32 - 1) mod 2 ^ 32)"
    using m by (subst normalise.simps) (simp add: push_bit_eq_mult)
  moreover have "(e + 2 ^ 32 - 1) mod 2 ^ 32 = e - 1"
  proof -
    have "e + 2 ^ 32 - 1 = (e - 1) + 2 ^ 32" using Suc.prems(4) by simp
    moreover have "e - 1 < 2 ^ 32" using Suc.prems(5) by simp
    ultimately show ?thesis by (simp only: mod_add_self2 mod_less)
  qed
  moreover have "normalise (m * 2) (e - 1) = Some (m * 2 * 2 ^ k, e - 1 - k)"
    by (rule Suc.IH) (use Suc.prems in \<open>simp_all add: mult.assoc\<close>)
  ultimately show ?case by (simp add: mult.assoc)
qed

lemma leading_bit: "0 < m \<Longrightarrow> m < 1024 \<Longrightarrow> \<exists>k. 1 \<le> k \<and> k \<le> 10 \<and> 1024 \<le> m * 2 ^ k \<and> m * 2 ^ k < 2048" for m :: nat
proof -
  assume m: "0 < m" "m < 1024"
  have step: "m < 2 ^ j \<Longrightarrow> j \<le> 10 \<Longrightarrow> \<exists>i<j. 2 ^ i \<le> m \<and> m < 2 ^ Suc i" for j
  proof (induction j)
    case (Suc j)
    then show ?case by (cases "m < 2 ^ j") (auto simp: less_Suc_eq)
  qed (use m in simp)
  obtain i where i: "i < 10" "2 ^ i \<le> m" "m < 2 ^ Suc i" using step [of 10] m by auto
  have e: "2 ^ i * 2 ^ (10 - i) = (1024 :: nat)" using i(1) by (simp add: power_add [symmetric])
  have "2 ^ i * 2 ^ (10 - i) \<le> m * 2 ^ (10 - i)" using i(2) by (rule mult_le_mono1)
  moreover have "m * 2 ^ (10 - i) < 2 ^ Suc i * 2 ^ (10 - i)" using i(3) by (rule mult_less_mono1) simp
  moreover have "2 ^ Suc i * 2 ^ (10 - i) = (2048 :: nat)" using e by simp
  ultimately show ?thesis using i(1) e by (intro exI [of _ "10 - i"]) linarith
qed

lemma half_round_trip:
  assumes "h < 65536"
  shows "\<exists>v. f16_to_f32 h = Some v \<and> v < 2 ^ 32 \<and> f32_to_f16 v = h"
proof -
  obtain s x m where p: "s < 2" "x < 32" "m < 1024" "h = p16 s x m"
    using pattern_exists [of h 5 10] assms by auto
  note d16 = decode16 [OF p(1-3)]
  have le: "p32 s e q < 2 ^ 32" if "e < 256" "q < 8388608" for e q
  proof -
    have "s * 256 + e \<le> 511" using p(1) that(1) by simp
    then have "(s * 256 + e) * 8388608 \<le> 511 * 8388608" by (rule mult_le_mono1)
    then show ?thesis using that(2) by (simp add: pattern_def)
  qed
  have h: "h = s * 32768 + (x * 1024 + m)" by (simp add: p(4) pattern_def add_mult_distrib)
  consider "x = 0" "m = 0" | "x = 0" "0 < m" | "x = 31" | "0 < x" "x < 31" using p(2) by fastforce
  then show ?thesis
  proof cases
    case 1
    have f: "f16_to_f32 h = Some (p32 s 0 0)"
      using d16 1 by (simp add: f16_to_f32_def p(4) Let_def push_bit_eq_mult pattern_def)
    have "f32_to_f16 (p32 s 0 0) = h" using f32_to_f16_fields [of s 0 0] p(1) 1 h by (simp add: to_half_def)
    then show ?thesis using f le [of 0 0] by simp
  next
    case 2
    obtain k where k: "1 \<le> k" "k \<le> 10" "1024 \<le> m * 2 ^ k" "m * 2 ^ k < 2048" using leading_bit [of m] 2 p(3) by blast
    let ?M = "m * 2 ^ k - 1024" and ?E = "113 - k"
    have nm: "normalise m 113 = Some (m * 2 ^ k, ?E)" using normalise_power [of m k 113] 2 k by simp
    have "m * 2 ^ k mod 1024 = ?M" using k by (simp add: mod_if)
    then have f: "f16_to_f32 h = Some (p32 s ?E (?M * 8192))"
      using d16 2 nm encode32 [of ?E ?M s] k by (simp add: f16_to_f32_def p(4) Let_def and_masks)
    have o: "?M * 8192 OR 0x800000 = m * 2 ^ (13 + k)"
      using or_disjoint [of "?M * 8192" 23 1] k by (simp add: or.commute diff_mult_distrib power_add)
    have sh: "126 - ?E = 13 + k" using k by simp
    have kk: "?E \<le> 112" "\<not> ?E < 102" "?E \<noteq> 255" "\<not> 142 < ?E" using k by simp_all
    have "m * 2 ^ (13 + k) div 2 ^ (13 + k) = m" "m * 2 ^ (13 + k) mod 2 ^ (13 + k) = 0" by simp_all
    then have "to_half (s * 32768) ?E (?M * 8192) = s * 32768 OR m"
      unfolding to_half_def Let_def o sh by (simp only: kk if_True if_False simp_thms) simp
    then have "f32_to_f16 (p32 s ?E (?M * 8192)) = s * 32768 OR m"
      using f32_to_f16_fields [of s ?E "?M * 8192"] p(1) k by simp
    then have "f32_to_f16 (p32 s ?E (?M * 8192)) = h" using h 2 p(3) encode16 [of m s] by simp
    then show ?thesis using f le [of ?E "?M * 8192"] k by simp
  next
    case 3
    have f: "f16_to_f32 h = Some (p32 s 255 (m * 8192))"
      using d16 3 encode32 [of 255 m s] p(3) by (simp add: f16_to_f32_def p(4) Let_def)
    have "31744 OR m = 31744 + m" using or_disjoint [of m 10 31] p(3) by simp
    moreover have "s * 32768 OR (31744 + m) = s * 32768 + (31744 + m)" using encode16 [of "31744 + m" s] p(3) by simp
    ultimately have "s * 32768 OR 31744 OR m = h" using h 3 by (simp add: or.assoc)
    moreover have "s * 32768 OR 31744 = s * 32768 + 31744" using encode16 [of 31744 s] by simp
    ultimately have "f32_to_f16 (p32 s 255 (m * 8192)) = h"
      using f32_to_f16_fields [of s 255 "m * 8192"] p(1,3) h 3
      by (cases "m = 0") (simp_all add: to_half_def drop_bit_eq_div)
    then show ?thesis using f le [of 255 "m * 8192"] p(3) by simp
  next
    case 4
    have f: "f16_to_f32 h = Some (p32 s (x + 127 - 15) (m * 8192))"
      using d16 4 encode32 [of "x + 127 - 15" m s] p(3) by (simp add: f16_to_f32_def p(4) Let_def)
    have "x * 1024 OR m = x * 1024 + m" using or_disjoint [of m 10 x] p(3) by simp
    moreover have "s * 32768 OR (x * 1024 + m) = h" using encode16 [of "x * 1024 + m" s] p(3) 4 h by simp
    ultimately have "f32_to_f16 (p32 s (x + 112) (m * 8192)) = h"
      using f32_to_f16_fields [of s "x + 112" "m * 8192"] p(1,3) 4 by (simp add: to_half_def Let_def)
    moreover have "x + 127 - 15 = x + 112" by simp
    moreover have "p32 s (x + 112) (m * 8192) < 2 ^ 32" by (rule le) (use p(3) 4 in simp_all)
    ultimately show ?thesis using f by metis
  qed
qed

text \<open>
  C9. Every half-precision pattern, NaN payloads, infinities, zeros and subnormals included, widens
  to a single-precision pattern (the normalisation ends) which narrows back to it.
\<close>

theorem half_widens_and_narrows:
  assumes "h < 65536"
  shows "\<exists>v. f16_to_f32 h = Some v \<and> v < 2 ^ 32 \<and> f32_to_f16 v = h"
  by (rule half_round_trip [OF assms])

theorem half_widens_and_narrows_witness:
  "\<exists>v. f16_to_f32 0x3555 = Some v \<and> v < 2 ^ 32 \<and> f32_to_f16 v = 0x3555"
  by (rule half_widens_and_narrows) simp

end
