(* ===== verification/Dataset_Convert.thy ===== *)
theory Dataset_Convert
  imports Core_Dataset Half_Float
begin

text \<open>
  The typed decoders of \<^verbatim>\<open>oxih5-core/src/dataset_convert.rs\<close>: one reading of the raw data of a dataset
  per numeric type, as a vector and as an iterator (here the list of what it yields), strings, and
  half-precision floats through \<open>Half_Float\<close>. Integers and floats are bit patterns.
\<close>

section \<open>Decoders\<close>

text \<open>\<^verbatim>\<open>chunks_exact\<close>\<close>

definition chunks_exact :: "nat \<Rightarrow> 'a list \<Rightarrow> 'a list list" where
  "chunks_exact n xs = map (\<lambda>i. take n (drop (i * n) xs)) [0..<length xs div n]"

definition as_f32 :: "dataset \<Rightarrow> 32 word list res" where
  "as_f32 ds =
     (case dset_dtype ds of
        Float sz ord \<Rightarrow>
          if sz \<noteq> 4 then Inl TypeMismatch
          else if length (dset_data ds) mod 4 \<noteq> 0 then Inl DataTruncated
          else Inr (map (from_order ord) (chunks_exact 4 (dset_data ds)))
      | _ \<Rightarrow> Inl TypeMismatch)"

definition as_f64 :: "dataset \<Rightarrow> 64 word list res" where
  "as_f64 ds =
     (case dset_dtype ds of
        Float sz ord \<Rightarrow>
          if sz \<noteq> 8 then Inl TypeMismatch
          else if length (dset_data ds) mod 8 \<noteq> 0 then Inl DataTruncated
          else Inr (map (from_order ord) (chunks_exact 8 (dset_data ds)))
      | _ \<Rightarrow> Inl TypeMismatch)"

definition as_i16 :: "dataset \<Rightarrow> 16 word list res" where
  "as_i16 ds =
     (case dset_dtype ds of
        Int_t sz True ord \<Rightarrow>
          if sz \<noteq> 2 then Inl TypeMismatch
          else if length (dset_data ds) mod 2 \<noteq> 0 then Inl DataTruncated
          else Inr (map (from_order ord) (chunks_exact 2 (dset_data ds)))
      | _ \<Rightarrow> Inl TypeMismatch)"

definition as_u16 :: "dataset \<Rightarrow> 16 word list res" where
  "as_u16 ds =
     (case dset_dtype ds of
        Int_t sz False ord \<Rightarrow>
          if sz \<noteq> 2 then Inl TypeMismatch
          else if length (dset_data ds) mod 2 \<noteq> 0 then Inl DataTruncated
          else Inr (map (from_order ord) (chunks_exact 2 (dset_data ds)))
      | _ \<Rightarrow> Inl TypeMismatch)"

definition as_i32 :: "dataset \<Rightarrow> 32 word list res" where
  "as_i32 ds =
     (case dset_dtype ds of
        Int_t sz True ord \<Rightarrow>
          if sz \<noteq> 4 then Inl TypeMismatch
          else if length (dset_data ds) mod 4 \<noteq> 0 then Inl DataTruncated
          else Inr (map (from_order ord) (chunks_exact 4 (dset_data ds)))
      | _ \<Rightarrow> Inl TypeMismatch)"

definition as_u32_vec :: "dataset \<Rightarrow> 32 word list res" where
  "as_u32_vec ds =
     (case dset_dtype ds of
        Int_t sz False ord \<Rightarrow>
          if sz \<noteq> 4 then Inl TypeMismatch
          else if length (dset_data ds) mod 4 \<noteq> 0 then Inl DataTruncated
          else Inr (map (from_order ord) (chunks_exact 4 (dset_data ds)))
      | _ \<Rightarrow> Inl TypeMismatch)"

definition as_i64 :: "dataset \<Rightarrow> 64 word list res" where
  "as_i64 ds =
     (case dset_dtype ds of
        Int_t sz True ord \<Rightarrow>
          if sz \<noteq> 8 then Inl TypeMismatch
          else if length (dset_data ds) mod 8 \<noteq> 0 then Inl DataTruncated
          else Inr (map (from_order ord) (chunks_exact 8 (dset_data ds)))
      | _ \<Rightarrow> Inl TypeMismatch)"

definition as_u64 :: "dataset \<Rightarrow> 64 word list res" where
  "as_u64 ds =
     (case dset_dtype ds of
        Int_t sz False ord \<Rightarrow>
          if sz \<noteq> 8 then Inl TypeMismatch
          else if length (dset_data ds) mod 8 \<noteq> 0 then Inl DataTruncated
          else Inr (map (from_order ord) (chunks_exact 8 (dset_data ds)))
      | _ \<Rightarrow> Inl TypeMismatch)"

definition as_u8 :: "dataset \<Rightarrow> 8 word list res" where
  "as_u8 ds =
     (case dset_dtype ds of
        Int_t sz False _ \<Rightarrow> if sz = 1 then Inr (dset_data ds) else Inl TypeMismatch
      | _ \<Rightarrow> Inl TypeMismatch)"

definition as_i8 :: "dataset \<Rightarrow> 8 word list res" where
  "as_i8 ds =
     (case dset_dtype ds of
        Int_t sz True _ \<Rightarrow> if sz = 1 then Inr (dset_data ds) else Inl TypeMismatch
      | _ \<Rightarrow> Inl TypeMismatch)"

definition as_f16 :: "dataset \<Rightarrow> 32 word option list res" where
  "as_f16 ds =
     (case dset_dtype ds of
        Float sz ord \<Rightarrow>
          if sz \<noteq> 2 then Inl TypeMismatch
          else if length (dset_data ds) mod 2 \<noteq> 0 then Inl DataTruncated
          else
            Inr (map (\<lambda>c. map_option word_of_nat (f16_to_f32 (unat (from_order ord c :: 16 word)))) (chunks_exact 2 (dset_data ds)))
      | _ \<Rightarrow> Inl TypeMismatch)"

text \<open>The lazy iterators.\<close>

definition iter_f32 :: "dataset \<Rightarrow> 32 word list res" where
  "iter_f32 ds =
     (case dset_dtype ds of
        Float sz ord \<Rightarrow>
          if sz \<noteq> 4 then Inl TypeMismatch
          else if length (dset_data ds) mod 4 \<noteq> 0 then Inl DataTruncated
          else Inr (map (from_order ord) (chunks_exact 4 (dset_data ds)))
      | _ \<Rightarrow> Inl TypeMismatch)"

definition iter_f64 :: "dataset \<Rightarrow> 64 word list res" where
  "iter_f64 ds =
     (case dset_dtype ds of
        Float sz ord \<Rightarrow>
          if sz \<noteq> 8 then Inl TypeMismatch
          else if length (dset_data ds) mod 8 \<noteq> 0 then Inl DataTruncated
          else Inr (map (from_order ord) (chunks_exact 8 (dset_data ds)))
      | _ \<Rightarrow> Inl TypeMismatch)"

definition iter_i16 :: "dataset \<Rightarrow> 16 word list res" where
  "iter_i16 ds =
     (case dset_dtype ds of
        Int_t sz True ord \<Rightarrow>
          if sz \<noteq> 2 then Inl TypeMismatch
          else if length (dset_data ds) mod 2 \<noteq> 0 then Inl DataTruncated
          else Inr (map (from_order ord) (chunks_exact 2 (dset_data ds)))
      | _ \<Rightarrow> Inl TypeMismatch)"

definition iter_u16 :: "dataset \<Rightarrow> 16 word list res" where
  "iter_u16 ds =
     (case dset_dtype ds of
        Int_t sz False ord \<Rightarrow>
          if sz \<noteq> 2 then Inl TypeMismatch
          else if length (dset_data ds) mod 2 \<noteq> 0 then Inl DataTruncated
          else Inr (map (from_order ord) (chunks_exact 2 (dset_data ds)))
      | _ \<Rightarrow> Inl TypeMismatch)"

definition iter_i32 :: "dataset \<Rightarrow> 32 word list res" where
  "iter_i32 ds =
     (case dset_dtype ds of
        Int_t sz True ord \<Rightarrow>
          if sz \<noteq> 4 then Inl TypeMismatch
          else if length (dset_data ds) mod 4 \<noteq> 0 then Inl DataTruncated
          else Inr (map (from_order ord) (chunks_exact 4 (dset_data ds)))
      | _ \<Rightarrow> Inl TypeMismatch)"

definition iter_u32 :: "dataset \<Rightarrow> 32 word list res" where
  "iter_u32 ds =
     (case dset_dtype ds of
        Int_t sz False ord \<Rightarrow>
          if sz \<noteq> 4 then Inl TypeMismatch
          else if length (dset_data ds) mod 4 \<noteq> 0 then Inl DataTruncated
          else Inr (map (from_order ord) (chunks_exact 4 (dset_data ds)))
      | _ \<Rightarrow> Inl TypeMismatch)"

definition iter_i64 :: "dataset \<Rightarrow> 64 word list res" where
  "iter_i64 ds =
     (case dset_dtype ds of
        Int_t sz True ord \<Rightarrow>
          if sz \<noteq> 8 then Inl TypeMismatch
          else if length (dset_data ds) mod 8 \<noteq> 0 then Inl DataTruncated
          else Inr (map (from_order ord) (chunks_exact 8 (dset_data ds)))
      | _ \<Rightarrow> Inl TypeMismatch)"

definition iter_u64 :: "dataset \<Rightarrow> 64 word list res" where
  "iter_u64 ds =
     (case dset_dtype ds of
        Int_t sz False ord \<Rightarrow>
          if sz \<noteq> 8 then Inl TypeMismatch
          else if length (dset_data ds) mod 8 \<noteq> 0 then Inl DataTruncated
          else Inr (map (from_order ord) (chunks_exact 8 (dset_data ds)))
      | _ \<Rightarrow> Inl TypeMismatch)"

definition iter_u8 :: "dataset \<Rightarrow> 8 word list res" where
  "iter_u8 ds =
     (case dset_dtype ds of
        Int_t sz False _ \<Rightarrow> if sz = 1 then Inr (dset_data ds) else Inl TypeMismatch
      | _ \<Rightarrow> Inl TypeMismatch)"

definition iter_i8 :: "dataset \<Rightarrow> 8 word list res" where
  "iter_i8 ds =
     (case dset_dtype ds of
        Int_t sz True _ \<Rightarrow> if sz = 1 then Inr (dset_data ds) else Inl TypeMismatch
      | _ \<Rightarrow> Inl TypeMismatch)"

definition iter_f16 :: "dataset \<Rightarrow> 32 word option list res" where
  "iter_f16 ds =
     (case dset_dtype ds of
        Float sz ord \<Rightarrow>
          if sz \<noteq> 2 then Inl TypeMismatch
          else if length (dset_data ds) mod 2 \<noteq> 0 then Inl DataTruncated
          else
            Inr (map (\<lambda>c. map_option word_of_nat (f16_to_f32 (unat (from_order ord c :: 16 word)))) (chunks_exact 2 (dset_data ds)))
      | _ \<Rightarrow> Inl TypeMismatch)"

definition as_string :: "dataset \<Rightarrow> str list res" where
  "as_string ds =
     (case dset_dtype ds of
        String (Some n) _ \<Rightarrow>
          if n = 0 then Inl Format
          else if length (dset_data ds) mod n \<noteq> 0 then Inl DataTruncated
          else
            map_res (\<lambda>c. let trimmed = takeWhile (\<lambda>b. b \<noteq> 0) c in if valid_utf8 trimmed then Inr trimmed else Inl Format)
              (chunks_exact n (dset_data ds))
      | String None _ \<Rightarrow> Inl NotImplemented
      | _ \<Rightarrow> Inl TypeMismatch)"

section \<open>Reading back what was packed\<close>

text \<open>\<^verbatim>\<open>to_le_bytes\<close> and \<^verbatim>\<open>to_be_bytes\<close> of a word of \<open>n\<close> bytes.\<close>

definition to_order :: "nat \<Rightarrow> byte_order \<Rightarrow> nat \<Rightarrow> bytes" where
  "to_order n ord v = (case ord of Little \<Rightarrow> to_le n v | Big \<Rightarrow> rev (to_le n v))"

definition pack_all :: "nat \<Rightarrow> byte_order \<Rightarrow> 'a::len word list \<Rightarrow> bytes" where
  "pack_all n ord vs = concat (map (\<lambda>v. to_order n ord (unat v)) vs)"

lemma length_to_order [simp]: "length (to_order n ord v) = n"
  by (simp add: to_order_def split: byte_order.split)

lemma length_pack_all [simp]: "length (pack_all n ord vs) = length vs * n"
  unfolding pack_all_def by (rule length_concat_const) simp

lemma from_to_order: "v < 256 ^ n \<Longrightarrow> from_order ord (to_order n ord v) = word_of_nat v"
  by (cases ord) (simp_all add: from_order_def to_order_def from_le_to_le)

lemma chunks_exact_blocks:
  assumes "\<And>x. x \<in> set xs \<Longrightarrow> length (enc x) = n" "0 < n"
  shows "chunks_exact n (concat (map enc xs)) = map enc xs"
proof (rule nth_equalityI)
  have l: "length (concat (map enc xs)) = length xs * n" by (rule length_concat_const) (rule assms(1))
  then show len: "length (chunks_exact n (concat (map enc xs))) = length (map enc xs)"
    using assms(2) by (simp add: chunks_exact_def)
  fix i assume "i < length (chunks_exact n (concat (map enc xs)))"
  then have i: "i < length xs" using len by simp
  have "concat (map enc xs) = concat (map (\<lambda>i. enc (xs ! i)) [0..<length xs])"
    by (rule arg_cong [of _ _ concat]) (rule nth_equalityI, simp_all)
  then have "take n (drop (i * n) (concat (map enc xs))) = enc (xs ! i)"
    using nth_block_concat [of "length xs" "\<lambda>i. enc (xs ! i)" n i] assms(1) i by simp
  then show "chunks_exact n (concat (map enc xs)) ! i = map enc xs ! i"
    using i l assms(2) by (simp add: chunks_exact_def)
qed

lemma unpack_all:
  fixes vs :: "'a::len word list"
  assumes "256 ^ n = (2 :: nat) ^ LENGTH('a)" "0 < n"
  shows "map (from_order ord) (chunks_exact n (pack_all n ord vs)) = vs"
proof -
  have "(from_order ord (to_order n ord (unat v)) :: 'a word) = v" for v :: "'a word"
  proof -
    have "unat v < 256 ^ n" using unsigned_less [of v] assms(1) by simp
    then have "(from_order ord (to_order n ord (unat v)) :: 'a word) = word_of_nat (unat v)" by (rule from_to_order)
    then show ?thesis by simp
  qed
  then show ?thesis using chunks_exact_blocks [of vs "\<lambda>v. to_order n ord (unat v)" n] assms(2)
    by (simp add: pack_all_def comp_def)
qed

end
