(* ===== verification/Write_Api.thy ===== *)
theory Write_Api
  imports Write_Chunks Dataset_Convert
begin

text \<open>
  The public methods of \<^verbatim>\<open>FileWriter\<close> (\<^verbatim>\<open>oxih5/src/write/api_*.rs\<close>) as operations on the tree of
  \<open>Write_Tree\<close>. Everything a method refuses it refuses before it touches the tree. The methods are
  then the steps of a state machine: a call that fails leaves the tree as it was, every tree that calls
  can build is well formed, and each of its datasets is one that the layout pass can lay out.
\<close>

section \<open>Numeric values\<close>

datatype numeric_values =
    NV_F16 "32 word list"
  | NV_F32 "32 word list"
  | NV_F64 "64 word list"
  | NV_I8 "8 word list"
  | NV_I16 "16 word list"
  | NV_I32 "32 word list"
  | NV_I64 "64 word list"
  | NV_U8 "8 word list"
  | NV_U16 "16 word list"
  | NV_U32 "32 word list"
  | NV_U64 "64 word list"

fun nv_len :: "numeric_values \<Rightarrow> nat" where
  "nv_len (NV_F16 v) = length v" | "nv_len (NV_F32 v) = length v" | "nv_len (NV_F64 v) = length v"
| "nv_len (NV_I8 v) = length v" | "nv_len (NV_I16 v) = length v" | "nv_len (NV_I32 v) = length v"
| "nv_len (NV_I64 v) = length v" | "nv_len (NV_U8 v) = length v" | "nv_len (NV_U16 v) = length v"
| "nv_len (NV_U32 v) = length v" | "nv_len (NV_U64 v) = length v"

definition nv_is_empty :: "numeric_values \<Rightarrow> bool" where
  "nv_is_empty v \<longleftrightarrow> nv_len v = 0"

fun nv_num_type :: "numeric_values \<Rightarrow> num_type" where
  "nv_num_type (NV_F16 _) = Num_F16" | "nv_num_type (NV_F32 _) = Num_F32" | "nv_num_type (NV_F64 _) = Num_F64"
| "nv_num_type (NV_I8 _) = Num_I8" | "nv_num_type (NV_I16 _) = Num_I16" | "nv_num_type (NV_I32 _) = Num_I32"
| "nv_num_type (NV_I64 _) = Num_I64" | "nv_num_type (NV_U8 _) = Num_U8" | "nv_num_type (NV_U16 _) = Num_U16"
| "nv_num_type (NV_U32 _) = Num_U32" | "nv_num_type (NV_U64 _) = Num_U64"

fun nv_to_bytes :: "byte_order \<Rightarrow> numeric_values \<Rightarrow> bytes" where
  "nv_to_bytes ord (NV_F16 v) = pack_all 2 ord (map (\<lambda>w. word_of_nat (f32_to_f16 (unat w)) :: 16 word) v)"
| "nv_to_bytes ord (NV_F32 v) = pack_all 4 ord v" | "nv_to_bytes ord (NV_F64 v) = pack_all 8 ord v"
| "nv_to_bytes ord (NV_I8 v) = pack_all 1 ord v" | "nv_to_bytes ord (NV_I16 v) = pack_all 2 ord v"
| "nv_to_bytes ord (NV_I32 v) = pack_all 4 ord v" | "nv_to_bytes ord (NV_I64 v) = pack_all 8 ord v"
| "nv_to_bytes ord (NV_U8 v) = pack_all 1 ord v" | "nv_to_bytes ord (NV_U16 v) = pack_all 2 ord v"
| "nv_to_bytes ord (NV_U32 v) = pack_all 4 ord v" | "nv_to_bytes ord (NV_U64 v) = pack_all 8 ord v"

section \<open>Adding datasets\<close>

text \<open>A method that fails before it touches the tree.\<close>

definition checked :: "group_node \<Rightarrow> 'a res \<Rightarrow> ('a \<Rightarrow> 'b updated) \<Rightarrow> 'b updated" where
  "checked root r k = (case r of Inl e \<Rightarrow> (root, Inl e) | Inr x \<Rightarrow> k x)"

definition dataset_desc_of :: "str \<Rightarrow> bytes \<Rightarrow> nat list \<Rightarrow> elem_type \<Rightarrow> dataset_desc" where
  "dataset_desc_of name raw shape et =
     \<lparr>dd_name = name, dd_raw = raw, dd_shape = shape, dd_elem_type = et, dd_dtype = None, dd_attrs = [],
      dd_storage = Contiguous_st, dd_filter = None, dd_vlen_strings = None, dd_vlen_seqs = None, dd_creation_order = 0\<rparr>"

text \<open>\<^verbatim>\<open>let (parent, name) = insertion_point(..)?; parent.push_dataset(..)\<close>\<close>

definition push_at :: "group_node \<Rightarrow> str \<Rightarrow> (str \<Rightarrow> group_node \<Rightarrow> group_node) \<Rightarrow> unit updated" where
  "push_at root path push =
     and_upd (insertion_point root path) (\<lambda>root (parent, name). (update_at (push name) parent root, Inr ()))"

definition add_dataset :: "group_node \<Rightarrow> str \<Rightarrow> bytes \<Rightarrow> nat list \<Rightarrow> elem_type \<Rightarrow> unit updated" where
  "add_dataset root path raw shape et =
     checked root (checked_byte_len shape (byte_size et)) (\<lambda>expected.
       if length raw \<noteq> expected then (root, Inl Format)
       else push_at root path (\<lambda>name. push_dataset (dataset_desc_of name raw shape et)))"

definition write_dataset_f32 :: "group_node \<Rightarrow> str \<Rightarrow> 32 word list \<Rightarrow> nat list \<Rightarrow> unit updated" where
  "write_dataset_f32 root path data shape = add_dataset root path (pack_all 4 Little data) shape F32"

definition write_dataset_f64 :: "group_node \<Rightarrow> str \<Rightarrow> 64 word list \<Rightarrow> nat list \<Rightarrow> unit updated" where
  "write_dataset_f64 root path data shape = add_dataset root path (pack_all 8 Little data) shape F64"

definition write_dataset_i32 :: "group_node \<Rightarrow> str \<Rightarrow> 32 word list \<Rightarrow> nat list \<Rightarrow> unit updated" where
  "write_dataset_i32 root path data shape = add_dataset root path (pack_all 4 Little data) shape I32"

definition write_dataset_i64 :: "group_node \<Rightarrow> str \<Rightarrow> 64 word list \<Rightarrow> nat list \<Rightarrow> unit updated" where
  "write_dataset_i64 root path data shape = add_dataset root path (pack_all 8 Little data) shape I64"

definition write_dataset_u8 :: "group_node \<Rightarrow> str \<Rightarrow> 8 word list \<Rightarrow> nat list \<Rightarrow> unit updated" where
  "write_dataset_u8 root path data shape = add_dataset root path data shape U8"

definition write_dataset_i8 :: "group_node \<Rightarrow> str \<Rightarrow> 8 word list \<Rightarrow> nat list \<Rightarrow> unit updated" where
  "write_dataset_i8 root path data shape = add_dataset root path (pack_all 1 Little data) shape I8"

definition write_dataset_i16 :: "group_node \<Rightarrow> str \<Rightarrow> 16 word list \<Rightarrow> nat list \<Rightarrow> unit updated" where
  "write_dataset_i16 root path data shape = add_dataset root path (pack_all 2 Little data) shape I16"

definition write_dataset_u16 :: "group_node \<Rightarrow> str \<Rightarrow> 16 word list \<Rightarrow> nat list \<Rightarrow> unit updated" where
  "write_dataset_u16 root path data shape = add_dataset root path (pack_all 2 Little data) shape U16"

definition write_dataset_u32 :: "group_node \<Rightarrow> str \<Rightarrow> 32 word list \<Rightarrow> nat list \<Rightarrow> unit updated" where
  "write_dataset_u32 root path data shape = add_dataset root path (pack_all 4 Little data) shape U32"

definition write_dataset_u64 :: "group_node \<Rightarrow> str \<Rightarrow> 64 word list \<Rightarrow> nat list \<Rightarrow> unit updated" where
  "write_dataset_u64 root path data shape = add_dataset root path (pack_all 8 Little data) shape U64"

text \<open>\<^verbatim>\<open>vec![0u8; n]\<close>\<close>

definition zeroed_vec :: "nat \<Rightarrow> bytes res" where
  "zeroed_vec n = (if n > isize_max then Inl Panic else Inr (replicate n 0))"

definition create_dataset :: "group_node \<Rightarrow> str \<Rightarrow> nat list \<Rightarrow> dtype \<Rightarrow> unit updated" where
  "create_dataset root path shape dt =
     checked root (dtype_size dt) (\<lambda>sz.
     checked root (ok_or sz Format) (\<lambda>elem_size.
     checked root (checked_byte_len shape elem_size) (\<lambda>byte_len.
     checked root (zeroed_vec byte_len) (\<lambda>raw.
     checked root (dtype_to_elem_type dt) (\<lambda>et. add_dataset root path raw shape et)))))"

definition create_vlen_string_dataset :: "group_node \<Rightarrow> str \<Rightarrow> str list \<Rightarrow> unit updated" where
  "create_vlen_string_dataset root path strings =
     push_at root path (\<lambda>name. push_dataset
       ((dataset_desc_of name [] [length strings] VlenStr)\<lparr>dd_vlen_strings := Some strings\<rparr>))"

definition create_fixed_string_dataset :: "group_node \<Rightarrow> str \<Rightarrow> nat \<Rightarrow> str list \<Rightarrow> unit updated" where
  "create_fixed_string_dataset root path width strings =
     (if width = 0 then (root, Inl Format)
      else
        checked root (narrow u32_lim width) (\<lambda>width_field.
        checked root (checked_byte_len [length strings] width) (\<lambda>byte_len.
        checked root (zeroed_vec byte_len) (\<lambda>raw.
        checked root (fold_res (\<lambda>(i, s) raw.
            if length s > width then Inl Format else put_range raw (i * width) s) (enumerate 0 strings) raw) (\<lambda>raw.
          push_at root path (\<lambda>name. push_dataset
            (dataset_desc_of name raw [length strings] (FixedStr width_field))))))))"

definition write_dataset_bool :: "group_node \<Rightarrow> str \<Rightarrow> bool list \<Rightarrow> unit updated" where
  "write_dataset_bool root path data =
     add_dataset root path (map (\<lambda>b. if b then 1 else 0) data) [length data] Bool"

definition create_dataset_unlimited :: "group_node \<Rightarrow> str \<Rightarrow> nat list \<Rightarrow> nat list \<Rightarrow> dtype \<Rightarrow> bytes \<Rightarrow> unit updated" where
  "create_dataset_unlimited root path shape chunk_shape dt dat =
     checked root (dtype_size dt) (\<lambda>sz.
     checked root (ok_or sz Format) (\<lambda>elem_size.
     checked root (checked_byte_len shape elem_size) (\<lambda>expected.
       if length dat \<noteq> expected then (root, Inl Format)
       else
         checked root (dtype_to_elem_type dt) (\<lambda>et.
           push_at root path (\<lambda>name. push_dataset
             ((dataset_desc_of name dat shape et)\<lparr>dd_storage := Chunked_st chunk_shape True\<rparr>))))))"

definition write_dataset_numeric :: "group_node \<Rightarrow> str \<Rightarrow> numeric_values \<Rightarrow> byte_order \<Rightarrow> nat list \<Rightarrow> unit updated" where
  "write_dataset_numeric root path vals ord shape =
     add_dataset root path (nv_to_bytes ord vals) shape (as_elem (nv_num_type vals) ord)"

section \<open>Structured datasets\<close>

definition add_structured_dataset :: "group_node \<Rightarrow> str \<Rightarrow> encoded_dtype \<Rightarrow> bytes \<Rightarrow> nat list \<Rightarrow> unit updated" where
  "add_structured_dataset root path encoded raw shape =
     checked root (checked_byte_len shape (ed_elem_size encoded)) (\<lambda>expected.
       if length raw \<noteq> expected then (root, Inl Format)
       else push_at root path (\<lambda>name. push_dataset
         ((dataset_desc_of name raw shape U8)\<lparr>dd_dtype := Some encoded\<rparr>)))"

definition create_compound_dataset :: "group_node \<Rightarrow> str \<Rightarrow> compound_field list \<Rightarrow> nat \<Rightarrow> bytes \<Rightarrow> nat list \<Rightarrow> unit updated" where
  "create_compound_dataset root path fds record_size rows shape =
     checked root (compound fds record_size) (\<lambda>encoded. add_structured_dataset root path encoded rows shape)"

definition create_vlen_sequence_dataset :: "group_node \<Rightarrow> str \<Rightarrow> dtype \<Rightarrow> bytes list \<Rightarrow> unit updated" where
  "create_vlen_sequence_dataset root path base sequences =
     checked root (member_elem_type base) (\<lambda>base_elem.
       let width = byte_size base_elem in
       if \<exists>s\<in>set sequences. width = 0 \<or> length s mod width \<noteq> 0 then (root, Inl Format)
       else
         checked root (vlen_sequence base_elem) (\<lambda>encoded.
           push_at root path (\<lambda>name. push_dataset
             ((dataset_desc_of name [] [length sequences] U8)\<lparr>dd_dtype := Some encoded, dd_vlen_seqs := Some sequences\<rparr>))))"

definition create_vlen_i32_dataset :: "group_node \<Rightarrow> str \<Rightarrow> 32 word list list \<Rightarrow> unit updated" where
  "create_vlen_i32_dataset root path sequences =
     create_vlen_sequence_dataset root path (Int_t 4 True Little) (map (pack_all 4 Little) sequences)"

definition create_vlen_f64_dataset :: "group_node \<Rightarrow> str \<Rightarrow> 64 word list list \<Rightarrow> unit updated" where
  "create_vlen_f64_dataset root path sequences =
     create_vlen_sequence_dataset root path (Float 8 Little) (map (pack_all 8 Little) sequences)"

definition create_array_dataset :: "group_node \<Rightarrow> str \<Rightarrow> dtype \<Rightarrow> nat list \<Rightarrow> bytes \<Rightarrow> nat list \<Rightarrow> unit updated" where
  "create_array_dataset root path base array_dims dat shape =
     checked root (member_elem_type base) (\<lambda>el.
     checked root (array_dtype el array_dims) (\<lambda>encoded. add_structured_dataset root path encoded dat shape))"

definition create_opaque_dataset :: "group_node \<Rightarrow> str \<Rightarrow> nat \<Rightarrow> str \<Rightarrow> bytes \<Rightarrow> nat list \<Rightarrow> unit updated" where
  "create_opaque_dataset root path elem_size tag dat shape =
     checked root (opaque elem_size tag) (\<lambda>encoded. add_structured_dataset root path encoded dat shape)"

definition create_bitfield_dataset :: "group_node \<Rightarrow> str \<Rightarrow> nat \<Rightarrow> byte_order \<Rightarrow> bytes \<Rightarrow> nat list \<Rightarrow> unit updated" where
  "create_bitfield_dataset root path elem_size ord dat shape =
     checked root (bitfield elem_size ord) (\<lambda>encoded. add_structured_dataset root path encoded dat shape)"

section \<open>Changing a dataset\<close>

text \<open>\<^verbatim>\<open>let ds = dataset_mut(..)?\<close> and what the method does with it.\<close>

definition with_dataset :: "group_node \<Rightarrow> str \<Rightarrow> (dataset_desc \<Rightarrow> dataset_desc \<times> unit res) \<Rightarrow> unit updated" where
  "with_dataset root path f =
     and_upd (dataset_mut root path) (\<lambda>root (parent, i).
       let ds = gn_datasets (node_at root parent) ! i in
       (update_dataset (\<lambda>ds. fst (f ds)) (parent, i) root, snd (f ds)))"

definition FILL_VALUE_SENTINEL_NAME :: str where
  "FILL_VALUE_SENTINEL_NAME = [0, 0x5f, 0x5f, 0x6f, 0x78, 0x69, 0x68, 0x35, 0x5f, 0x66, 0x69, 0x6c, 0x6c, 0x5f, 0x76, 0x61, 0x6c, 0x75, 0x65, 0x5f, 0x5f]"

definition COMPACT_LAYOUT_SENTINEL_NAME :: str where
  "COMPACT_LAYOUT_SENTINEL_NAME =
     [0, 0x5f, 0x5f, 0x6f, 0x78, 0x69, 0x68, 0x35, 0x5f, 0x63, 0x6f, 0x6d, 0x70, 0x61, 0x63, 0x74, 0x5f, 0x6c, 0x61, 0x79, 0x6f, 0x75, 0x74, 0x5f, 0x5f]"

definition is_fill_value :: "attr_desc \<Rightarrow> bool" where
  "is_fill_value a = (case ad_kind a of AK_FillValue _ \<Rightarrow> True | _ \<Rightarrow> False)"

definition is_compact_layout :: "attr_desc \<Rightarrow> bool" where
  "is_compact_layout a = (case ad_kind a of AK_CompactLayout _ \<Rightarrow> True | _ \<Rightarrow> False)"

definition set_fill_value_le :: "group_node \<Rightarrow> str \<Rightarrow> elem_type \<Rightarrow> bytes \<Rightarrow> unit updated" where
  "set_fill_value_le root path el le_bytes =
     with_dataset root path (\<lambda>ds.
       if dd_dtype ds \<noteq> None then (ds, Inl Format)
       else if dd_elem_type ds \<noteq> el then (ds, Inl Format)
       else if length le_bytes \<noteq> byte_size el then (ds, Inl Format)
       else
         (ds\<lparr>dd_attrs := filter (\<lambda>a. \<not> is_fill_value a) (dd_attrs ds) @
               [\<lparr>ad_name = FILL_VALUE_SENTINEL_NAME, ad_kind = AK_FillValue le_bytes\<rparr>]\<rparr>, Inr ()))"

definition set_fill_value_f32 :: "group_node \<Rightarrow> str \<Rightarrow> 32 word \<Rightarrow> unit updated" where
  "set_fill_value_f32 root path v = set_fill_value_le root path F32 (to_le 4 (unat v))"

definition set_fill_value_f64 :: "group_node \<Rightarrow> str \<Rightarrow> 64 word \<Rightarrow> unit updated" where
  "set_fill_value_f64 root path v = set_fill_value_le root path F64 (to_le 8 (unat v))"

definition set_fill_value_i8 :: "group_node \<Rightarrow> str \<Rightarrow> 8 word \<Rightarrow> unit updated" where
  "set_fill_value_i8 root path v = set_fill_value_le root path I8 (to_le 1 (unat v))"

definition set_fill_value_i16 :: "group_node \<Rightarrow> str \<Rightarrow> 16 word \<Rightarrow> unit updated" where
  "set_fill_value_i16 root path v = set_fill_value_le root path I16 (to_le 2 (unat v))"

definition set_fill_value_i32 :: "group_node \<Rightarrow> str \<Rightarrow> 32 word \<Rightarrow> unit updated" where
  "set_fill_value_i32 root path v = set_fill_value_le root path I32 (to_le 4 (unat v))"

definition set_fill_value_i64 :: "group_node \<Rightarrow> str \<Rightarrow> 64 word \<Rightarrow> unit updated" where
  "set_fill_value_i64 root path v = set_fill_value_le root path I64 (to_le 8 (unat v))"

definition set_fill_value_u8 :: "group_node \<Rightarrow> str \<Rightarrow> 8 word \<Rightarrow> unit updated" where
  "set_fill_value_u8 root path v = set_fill_value_le root path U8 (to_le 1 (unat v))"

definition set_fill_value_u16 :: "group_node \<Rightarrow> str \<Rightarrow> 16 word \<Rightarrow> unit updated" where
  "set_fill_value_u16 root path v = set_fill_value_le root path U16 (to_le 2 (unat v))"

definition set_fill_value_u32 :: "group_node \<Rightarrow> str \<Rightarrow> 32 word \<Rightarrow> unit updated" where
  "set_fill_value_u32 root path v = set_fill_value_le root path U32 (to_le 4 (unat v))"

definition set_fill_value_u64 :: "group_node \<Rightarrow> str \<Rightarrow> 64 word \<Rightarrow> unit updated" where
  "set_fill_value_u64 root path v = set_fill_value_le root path U64 (to_le 8 (unat v))"

definition set_compact :: "group_node \<Rightarrow> str \<Rightarrow> unit updated" where
  "set_compact root path =
     with_dataset root path (\<lambda>ds.
       if \<exists>a\<in>set (dd_attrs ds). is_compact_layout a then (ds, Inr ())
       else if dd_chunked ds \<noteq> None then (ds, Inl Format)
       else if dd_vlen_strings ds \<noteq> None \<or> dd_vlen_seqs ds \<noteq> None then (ds, Inl Format)
       else
         case and_then (uadd 4 (length (dd_raw ds))) pad8 of
           Inl e \<Rightarrow> (ds, Inl e)
         | Inr n \<Rightarrow>
             if n > 65535 then (ds, Inl Format)
             else
               (ds\<lparr>dd_raw := [],
                   dd_attrs := dd_attrs ds @ [\<lparr>ad_name = COMPACT_LAYOUT_SENTINEL_NAME, ad_kind = AK_CompactLayout (dd_raw ds)\<rparr>]\<rparr>,
                Inr ()))"

definition ensure_filterable :: "dataset_desc \<Rightarrow> unit res" where
  "ensure_filterable ds =
     (if dd_vlen_seqs ds \<noteq> None then Inl Format
      else if dd_vlen_strings ds \<noteq> None then Inl Format
      else if dd_shape ds = [] then Inl Format
      else Inr ())"

definition ensure_chunked :: "dataset_desc \<Rightarrow> dataset_desc" where
  "ensure_chunked ds = (if dd_chunked ds = None then ds\<lparr>dd_storage := Chunked_st [] False\<rparr> else ds)"

definition filter_or_default :: "dataset_desc \<Rightarrow> filter_choice" where
  "filter_or_default ds =
     (case dd_filter ds of Some f \<Rightarrow> f | None \<Rightarrow> \<lparr>fc_shuffle = False, fc_deflate = None, fc_fletcher32 = False\<rparr>)"

text \<open>The three filter setters differ in the stage they switch on.\<close>

definition set_filter :: "(filter_choice \<Rightarrow> filter_choice) \<Rightarrow> dataset_desc \<Rightarrow> dataset_desc \<times> unit res" where
  "set_filter f ds =
     (case ensure_filterable ds of
        Inl e \<Rightarrow> (ds, Inl e)
      | Inr _ \<Rightarrow> let ds = ensure_chunked ds in (ds\<lparr>dd_filter := Some (f (filter_or_default ds))\<rparr>, Inr ()))"

abbreviation (input) MAX_DEFLATE_LEVEL :: nat where "MAX_DEFLATE_LEVEL \<equiv> 9"

definition set_deflate :: "group_node \<Rightarrow> str \<Rightarrow> nat \<Rightarrow> unit updated" where
  "set_deflate root path level =
     (if level > MAX_DEFLATE_LEVEL then (root, Inl Format)
      else with_dataset root path (set_filter (\<lambda>f. f\<lparr>fc_deflate := Some level\<rparr>)))"

definition set_shuffle :: "group_node \<Rightarrow> str \<Rightarrow> unit updated" where
  "set_shuffle root path = with_dataset root path (set_filter (\<lambda>f. f\<lparr>fc_shuffle := True\<rparr>))"

definition set_fletcher32 :: "group_node \<Rightarrow> str \<Rightarrow> unit updated" where
  "set_fletcher32 root path = with_dataset root path (set_filter (\<lambda>f. f\<lparr>fc_fletcher32 := True\<rparr>))"

definition set_chunking :: "group_node \<Rightarrow> str \<Rightarrow> nat list \<Rightarrow> unit updated" where
  "set_chunking root path chunk_shape =
     with_dataset root path (\<lambda>ds.
       case ensure_filterable ds of
         Inl e \<Rightarrow> (ds, Inl e)
       | Inr _ \<Rightarrow>
           let previous = dd_storage ds; ds = ds\<lparr>dd_storage := Chunked_st chunk_shape False\<rparr> in
           (case chunk_shape_of ds of
              Inl e \<Rightarrow> (ds\<lparr>dd_storage := previous\<rparr>, Inl e)
            | Inr _ \<Rightarrow> (ds, Inr ())))"

section \<open>Attributes\<close>

definition put_attr :: "str \<Rightarrow> attr_kind \<Rightarrow> attr_desc list \<Rightarrow> attr_desc list" where
  "put_attr name kind attrs =
     (case position (\<lambda>a. ad_name a = name) attrs of
        Some i \<Rightarrow> attrs[i := (attrs ! i)\<lparr>ad_kind := kind\<rparr>]
      | None \<Rightarrow> attrs @ [\<lparr>ad_name = name, ad_kind = kind\<rparr>])"

definition update_attrs :: "(attr_desc list \<Rightarrow> attr_desc list) \<Rightarrow> attrs_ref \<Rightarrow> group_node \<Rightarrow> group_node" where
  "update_attrs f at =
     (case at of
        Group_attrs r \<Rightarrow> update_at (\<lambda>g. set_attrs (f (gn_attrs g)) g) r
      | Dataset_attrs parent i \<Rightarrow> update_dataset (\<lambda>ds. ds\<lparr>dd_attrs := f (dd_attrs ds)\<rparr>) (parent, i))"

definition attach_attr :: "group_node \<Rightarrow> str \<Rightarrow> str \<Rightarrow> attr_kind \<Rightarrow> unit updated" where
  "attach_attr root path name kind =
     and_upd (attrs_mut root path) (\<lambda>root at. (update_attrs (put_attr name kind) at root, Inr ()))"

definition write_string_attr :: "group_node \<Rightarrow> str \<Rightarrow> str \<Rightarrow> str \<Rightarrow> unit updated" where
  "write_string_attr root path name v = attach_attr root path name (AK_FixedStr v)"

definition write_string_attr_nullterm :: "group_node \<Rightarrow> str \<Rightarrow> str \<Rightarrow> str \<Rightarrow> unit updated" where
  "write_string_attr_nullterm root path name v = attach_attr root path name (AK_FixedStrNullTerm v)"

definition write_f64_attr :: "group_node \<Rightarrow> str \<Rightarrow> str \<Rightarrow> 64 word \<Rightarrow> unit updated" where
  "write_f64_attr root path name v = attach_attr root path name (AK_F64 v)"

definition write_i64_attr :: "group_node \<Rightarrow> str \<Rightarrow> str \<Rightarrow> 64 word \<Rightarrow> unit updated" where
  "write_i64_attr root path name v = attach_attr root path name (AK_I64 v)"

definition write_i32_attr :: "group_node \<Rightarrow> str \<Rightarrow> str \<Rightarrow> 32 word \<Rightarrow> unit updated" where
  "write_i32_attr root path name v = attach_attr root path name (AK_I32 v)"

definition write_f64_array_attr :: "group_node \<Rightarrow> str \<Rightarrow> str \<Rightarrow> 64 word list \<Rightarrow> unit updated" where
  "write_f64_array_attr root path name v = attach_attr root path name (AK_F64Array v)"

definition write_i64_array_attr :: "group_node \<Rightarrow> str \<Rightarrow> str \<Rightarrow> 64 word list \<Rightarrow> unit updated" where
  "write_i64_array_attr root path name v = attach_attr root path name (AK_I64Array v)"

definition write_string_array_attr :: "group_node \<Rightarrow> str \<Rightarrow> str \<Rightarrow> str list \<Rightarrow> unit updated" where
  "write_string_array_attr root path name v = attach_attr root path name (AK_StrArray v)"

definition write_obj_ref_list_attr :: "group_node \<Rightarrow> str \<Rightarrow> str \<Rightarrow> str list \<Rightarrow> unit updated" where
  "write_obj_ref_list_attr root path name v = attach_attr root path name (AK_ObjRefsByName v)"

definition write_f32_attr :: "group_node \<Rightarrow> str \<Rightarrow> str \<Rightarrow> 32 word \<Rightarrow> unit updated" where
  "write_f32_attr root path name v = attach_attr root path name (AK_Num F32 (to_le 4 (unat v)))"

definition write_i8_attr :: "group_node \<Rightarrow> str \<Rightarrow> str \<Rightarrow> 8 word \<Rightarrow> unit updated" where
  "write_i8_attr root path name v = attach_attr root path name (AK_Num I8 (to_le 1 (unat v)))"

definition write_i16_attr :: "group_node \<Rightarrow> str \<Rightarrow> str \<Rightarrow> 16 word \<Rightarrow> unit updated" where
  "write_i16_attr root path name v = attach_attr root path name (AK_Num I16 (to_le 2 (unat v)))"

definition write_u8_attr :: "group_node \<Rightarrow> str \<Rightarrow> str \<Rightarrow> 8 word \<Rightarrow> unit updated" where
  "write_u8_attr root path name v = attach_attr root path name (AK_Num U8 (to_le 1 (unat v)))"

definition write_u16_attr :: "group_node \<Rightarrow> str \<Rightarrow> str \<Rightarrow> 16 word \<Rightarrow> unit updated" where
  "write_u16_attr root path name v = attach_attr root path name (AK_Num U16 (to_le 2 (unat v)))"

definition write_u32_attr :: "group_node \<Rightarrow> str \<Rightarrow> str \<Rightarrow> 32 word \<Rightarrow> unit updated" where
  "write_u32_attr root path name v = attach_attr root path name (AK_Num U32 (to_le 4 (unat v)))"

definition write_u64_attr :: "group_node \<Rightarrow> str \<Rightarrow> str \<Rightarrow> 64 word \<Rightarrow> unit updated" where
  "write_u64_attr root path name v = attach_attr root path name (AK_Num U64 (to_le 8 (unat v)))"

definition write_f32_array_attr :: "group_node \<Rightarrow> str \<Rightarrow> str \<Rightarrow> 32 word list \<Rightarrow> unit updated" where
  "write_f32_array_attr root path name v = attach_attr root path name (AK_NumArray F32 (pack_all 4 Little v))"

definition write_i8_array_attr :: "group_node \<Rightarrow> str \<Rightarrow> str \<Rightarrow> 8 word list \<Rightarrow> unit updated" where
  "write_i8_array_attr root path name v = attach_attr root path name (AK_NumArray I8 (pack_all 1 Little v))"

definition write_i16_array_attr :: "group_node \<Rightarrow> str \<Rightarrow> str \<Rightarrow> 16 word list \<Rightarrow> unit updated" where
  "write_i16_array_attr root path name v = attach_attr root path name (AK_NumArray I16 (pack_all 2 Little v))"

definition write_i32_array_attr :: "group_node \<Rightarrow> str \<Rightarrow> str \<Rightarrow> 32 word list \<Rightarrow> unit updated" where
  "write_i32_array_attr root path name v = attach_attr root path name (AK_NumArray I32 (pack_all 4 Little v))"

definition write_u8_array_attr :: "group_node \<Rightarrow> str \<Rightarrow> str \<Rightarrow> 8 word list \<Rightarrow> unit updated" where
  "write_u8_array_attr root path name v = attach_attr root path name (AK_NumArray U8 v)"

definition write_u16_array_attr :: "group_node \<Rightarrow> str \<Rightarrow> str \<Rightarrow> 16 word list \<Rightarrow> unit updated" where
  "write_u16_array_attr root path name v = attach_attr root path name (AK_NumArray U16 (pack_all 2 Little v))"

definition write_u32_array_attr :: "group_node \<Rightarrow> str \<Rightarrow> str \<Rightarrow> 32 word list \<Rightarrow> unit updated" where
  "write_u32_array_attr root path name v = attach_attr root path name (AK_NumArray U32 (pack_all 4 Little v))"

definition write_u64_array_attr :: "group_node \<Rightarrow> str \<Rightarrow> str \<Rightarrow> 64 word list \<Rightarrow> unit updated" where
  "write_u64_array_attr root path name v = attach_attr root path name (AK_NumArray U64 (pack_all 8 Little v))"

definition write_vlen_obj_ref_attr :: "group_node \<Rightarrow> str \<Rightarrow> str \<Rightarrow> str list list \<Rightarrow> unit updated" where
  "write_vlen_obj_ref_attr root path name v = attach_attr root path name (AK_VlenObjRefsByName v)"

definition write_ref_index_list_attr :: "group_node \<Rightarrow> str \<Rightarrow> str \<Rightarrow> (str \<times> nat) list \<Rightarrow> unit updated" where
  "write_ref_index_list_attr root path name v = attach_attr root path name (AK_RefIndexList v)"

definition write_root_str_attr :: "group_node \<Rightarrow> str \<Rightarrow> str \<Rightarrow> group_node" where
  "write_root_str_attr root name v = fst (write_string_attr root [0x2f] name v)"

definition write_numeric_attr :: "group_node \<Rightarrow> str \<Rightarrow> str \<Rightarrow> numeric_values \<Rightarrow> byte_order \<Rightarrow> unit updated" where
  "write_numeric_attr root path name vals ord =
     (if nv_is_empty vals then (root, Inl Format)
      else attach_attr root path name (AK_NumArray (as_elem (nv_num_type vals) ord) (nv_to_bytes ord vals)))"

definition write_numeric_scalar_attr :: "group_node \<Rightarrow> str \<Rightarrow> str \<Rightarrow> numeric_values \<Rightarrow> byte_order \<Rightarrow> unit updated" where
  "write_numeric_scalar_attr root path name vals ord =
     (if nv_len vals \<noteq> 1 then (root, Inl Format)
      else attach_attr root path name (AK_Num (as_elem (nv_num_type vals) ord) (nv_to_bytes ord vals)))"

section \<open>Groups and links\<close>

definition create_group :: "group_node \<Rightarrow> str \<Rightarrow> unit updated" where
  "create_group root path = push_at root path (\<lambda>name. push_group (group_new name))"

definition write_group_dataset_f64 :: "group_node \<Rightarrow> str \<Rightarrow> str \<Rightarrow> 64 word list \<Rightarrow> nat list \<Rightarrow> unit updated" where
  "write_group_dataset_f64 root grp name data shape = write_dataset_f64 root (grp @ [0x2f] @ name) data shape"

definition write_group_dataset_i32 :: "group_node \<Rightarrow> str \<Rightarrow> str \<Rightarrow> 32 word list \<Rightarrow> nat list \<Rightarrow> unit updated" where
  "write_group_dataset_i32 root grp name data shape = write_dataset_i32 root (grp @ [0x2f] @ name) data shape"

definition write_group_string_attr :: "group_node \<Rightarrow> str \<Rightarrow> str \<Rightarrow> str \<Rightarrow> str \<Rightarrow> unit updated" where
  "write_group_string_attr root group_path obj_name name v = write_string_attr root (group_path @ [0x2f] @ obj_name) name v"

definition check_link_target :: "str \<Rightarrow> unit res" where
  "check_link_target v = (if v = [] then Inl Format else if 0 \<in> set v then Inl Format else Inr ())"

definition create_soft_link :: "group_node \<Rightarrow> str \<Rightarrow> str \<Rightarrow> unit updated" where
  "create_soft_link root path target =
     checked root (check_link_target target) (\<lambda>_.
       push_at root path (\<lambda>name. push_link \<lparr>ld_name = name, ld_kind = Soft_link target, ld_creation_order = 0\<rparr>))"

definition create_external_link :: "group_node \<Rightarrow> str \<Rightarrow> str \<Rightarrow> str \<Rightarrow> unit updated" where
  "create_external_link root path file_name target =
     checked root (check_link_target file_name) (\<lambda>_.
     checked root (check_link_target target) (\<lambda>_.
       push_at root path (\<lambda>name g. require_link_messages
         (push_link \<lparr>ld_name = name, ld_kind = External_link file_name target, ld_creation_order = 0\<rparr> g))))"

definition create_hard_link :: "group_node \<Rightarrow> str \<Rightarrow> str \<Rightarrow> unit updated" where
  "create_hard_link root path target =
     checked root (check_link_target target) (\<lambda>_.
     checked root (split_path target) (\<lambda>_.
       push_at root path (\<lambda>name. push_link \<lparr>ld_name = name, ld_kind = HardAlias target, ld_creation_order = 0\<rparr>)))"

definition group_at :: "group_node \<Rightarrow> str \<Rightarrow> node_ref updated" where
  "group_at root path = and_upd (root, split_path path) (\<lambda>root segments. group_mut root segments False)"

definition set_track_order :: "group_node \<Rightarrow> str \<Rightarrow> unit updated" where
  "set_track_order root path =
     and_upd (group_at root path) (\<lambda>root r.
       (update_at (\<lambda>g. require_link_messages (set_track_order_field True g)) r root, Inr ()))"

definition set_link_storage :: "group_node \<Rightarrow> str \<Rightarrow> unit updated" where
  "set_link_storage root path =
     and_upd (group_at root path) (\<lambda>root r. (update_at require_link_messages r root, Inr ()))"

end
