(* ===== verification/Write_Api_Spec.thy ===== *)
theory Write_Api_Spec
  imports Write_Api
begin

text \<open>
  What the methods of \<open>Write_Api\<close> do to the objects of the file under construction. The writer is a
  map from paths to objects; a method is a partial update of that map, undefined where the method
  refuses. The tree implements the map (\<open>run_refines\<close>): a refused call leaves the very tree it was
  given, an accepted one leaves the tree of the updated map.
\<close>

section \<open>Calls\<close>

datatype call =
    Add_dataset str bytes "nat list" elem_type
  | Create_dataset str "nat list" dtype
  | Create_vlen_strings str "str list"
  | Create_fixed_strings str nat "str list"
  | Create_unlimited str "nat list" "nat list" dtype bytes
  | Create_compound str "compound_field list" nat bytes "nat list"
  | Create_vlen_sequence str dtype "bytes list"
  | Create_array str dtype "nat list" bytes "nat list"
  | Create_opaque str nat str bytes "nat list"
  | Create_bitfield str nat byte_order bytes "nat list"
  | Set_fill_value str elem_type bytes
  | Set_compact str
  | Set_deflate str nat
  | Set_shuffle str
  | Set_fletcher32 str
  | Set_chunking str "nat list"
  | Attach_attr str str attr_kind
  | Create_group str
  | Create_soft_link str str
  | Create_external_link str str str
  | Create_hard_link str str
  | Set_track_order str
  | Set_link_storage str

fun run :: "call \<Rightarrow> group_node \<Rightarrow> unit updated" where
  "run (Add_dataset path raw shape et) root = add_dataset root path raw shape et"
| "run (Create_dataset path shape dt) root = create_dataset root path shape dt"
| "run (Create_vlen_strings path strings) root = create_vlen_string_dataset root path strings"
| "run (Create_fixed_strings path width strings) root = create_fixed_string_dataset root path width strings"
| "run (Create_unlimited path shape cs dt dat) root = create_dataset_unlimited root path shape cs dt dat"
| "run (Create_compound path fds sz rows shape) root = create_compound_dataset root path fds sz rows shape"
| "run (Create_vlen_sequence path base seqs) root = create_vlen_sequence_dataset root path base seqs"
| "run (Create_array path base dims dat shape) root = create_array_dataset root path base dims dat shape"
| "run (Create_opaque path sz tag dat shape) root = create_opaque_dataset root path sz tag dat shape"
| "run (Create_bitfield path sz ord dat shape) root = create_bitfield_dataset root path sz ord dat shape"
| "run (Set_fill_value path et bs) root = set_fill_value_le root path et bs"
| "run (Set_compact path) root = set_compact root path"
| "run (Set_deflate path level) root = set_deflate root path level"
| "run (Set_shuffle path) root = set_shuffle root path"
| "run (Set_fletcher32 path) root = set_fletcher32 root path"
| "run (Set_chunking path cs) root = set_chunking root path cs"
| "run (Attach_attr path name kind) root = attach_attr root path name kind"
| "run (Create_group path) root = create_group root path"
| "run (Create_soft_link path target) root = create_soft_link root path target"
| "run (Create_external_link path f target) root = create_external_link root path f target"
| "run (Create_hard_link path target) root = create_hard_link root path target"
| "run (Set_track_order path) root = set_track_order root path"
| "run (Set_link_storage path) root = set_link_storage root path"

section \<open>The map of objects\<close>

type_synonym objects = "str list \<Rightarrow> entry option"

definition is_group :: "entry option \<Rightarrow> bool" where
  "is_group e = (case e of Some (E_group _ _ _) \<Rightarrow> True | _ \<Rightarrow> False)"

text \<open>A path is free when nothing is there and only groups, or nothing, on the way.\<close>

definition free_path :: "objects \<Rightarrow> str list \<Rightarrow> bool" where
  "free_path m segs \<longleftrightarrow> segs \<noteq> [] \<and> m segs = None \<and> (\<forall>q. strict_prefix q segs \<longrightarrow> m q = None \<or> is_group (m q))"

definition restyle :: "bool \<Rightarrow> entry option \<Rightarrow> entry option" where
  "restyle b e = (case e of Some (E_group at st tr) \<Rightarrow> Some (E_group at (if b then LinkMessage_style else st) tr) | _ \<Rightarrow> e)"

text \<open>
  Inserting an object makes the missing groups above it; an external link also turns its group into
  one of link messages.
\<close>

definition insert_object :: "bool \<Rightarrow> (str \<Rightarrow> entry) \<Rightarrow> str \<Rightarrow> objects \<Rightarrow> objects option" where
  "insert_object b e path m =
     (case split_path path of
        Inl _ \<Rightarrow> None
      | Inr segs \<Rightarrow>
          if free_path m segs
          then Some (\<lambda>p. if p = segs then Some (e (last segs))
                         else let old = (if m p = None \<and> prefix p (butlast segs) then Some new_group else m p) in
                              if p = butlast segs then restyle b old else old)
          else None)"

definition modify_dataset :: "(dataset_desc \<Rightarrow> dataset_desc \<times> unit res) \<Rightarrow> str \<Rightarrow> objects \<Rightarrow> objects option" where
  "modify_dataset f path m =
     (case split_path path of
        Inl _ \<Rightarrow> None
      | Inr segs \<Rightarrow>
          (case m segs of
             Some (E_dataset d) \<Rightarrow> (case f d of (d', Inr _) \<Rightarrow> Some (m(segs \<mapsto> E_dataset d')) | _ \<Rightarrow> None)
           | _ \<Rightarrow> None))"

definition modify_group :: "(entry \<Rightarrow> entry) \<Rightarrow> str \<Rightarrow> objects \<Rightarrow> objects option" where
  "modify_group f path m =
     (case split_path path of
        Inl _ \<Rightarrow> None
      | Inr segs \<Rightarrow> if is_group (m segs) then Some (m(segs := map_option f (m segs))) else None)"

lemma passable_iff: "passable g segs \<longleftrightarrow> (\<forall>q. prefix q segs \<longrightarrow> object_at g q = None \<or> is_group (object_at g q))"
proof (induction segs arbitrary: g)
  case Nil
  then show ?case by (simp add: is_group_def)
next
  case (Cons h t)
  have all: "(\<forall>q. prefix q (h # t) \<longrightarrow> P q) \<longleftrightarrow> P [] \<and> (\<forall>q. prefix q t \<longrightarrow> P (h # q))" for P
    by (auto simp: prefix_Cons)
  have nil: "is_group (object_at g [])" by (simp add: is_group_def)
  show ?case
  proof (cases "child g h")
    case (Some c)
    then have "object_at g (h # q) = object_at c q" for q by simp
    then show ?thesis unfolding all using Cons.IH [of c] Some nil by simp
  next
    case None
    then have "object_at g (h # q) = (if q = [] then leaf g h else None)" for q by simp
    moreover have "\<not> is_group (leaf g h)" by (auto simp: leaf_def is_group_def split: option.split)
    ultimately show ?thesis unfolding all using None nil by auto
  qed
qed

lemma strict_prefix_butlast: "segs \<noteq> [] \<Longrightarrow> strict_prefix q segs \<longleftrightarrow> prefix q (butlast segs)"
  by (cases segs rule: rev_cases) (auto simp: strict_prefix_def prefix_snoc dest: prefix_length_le)

lemma insertable_iff: "insertable root path \<longleftrightarrow> (case split_path path of Inl _ \<Rightarrow> False | Inr segs \<Rightarrow> free_path (object_at root) segs)"
  by (auto simp: insertable_def free_path_def passable_iff strict_prefix_butlast split: sum.split)

section \<open>The tree implements the map\<close>

definition implements :: "group_node \<Rightarrow> unit updated \<Rightarrow> objects option \<Rightarrow> bool" where
  "implements root u m =
     (case u of
        (root', Inl e) \<Rightarrow> root' = root \<and> m = None
      | (root', Inr _) \<Rightarrow> tree_ok root' \<and> m = Some (object_at root'))"

lemma implements_refusal [simp]: "implements root (root, Inl e) None"
  by (simp add: implements_def)

lemma implements_checked:
  assumes "\<And>e. r = Inl e \<Longrightarrow> m = None" "\<And>x. r = Inr x \<Longrightarrow> implements root (k x) m"
  shows "implements root (checked root r k) m"
  using assms by (cases r) (simp_all add: checked_def implements_def)

text \<open>
  A push at an insertion point: the pushed object appears under its path, the groups on the way are
  made, and nothing else changes.
\<close>

lemma implements_push_at:
  assumes "tree_ok root"
    and push: "\<And>g n. tree_ok g \<Longrightarrow> \<not> name_taken g n \<Longrightarrow> segment_ok n \<Longrightarrow>
      tree_ok (push n g) \<and> gn_name (push n g) = gn_name g \<and> gn_creation_order (push n g) = gn_creation_order g \<and>
      (\<forall>p. object_at (push n g) p =
         (if p = [n] then Some (e n) else if p = [] then restyle b (object_at g p) else object_at g p))"
  shows "implements root (push_at root path push) (insert_object b e path (object_at root))"
proof (cases "insertion_point root path")
  case (Pair root' r)
  note spec = insertion_point_spec [OF assms(1), of path, unfolded Pair]
  show ?thesis
  proof (cases r)
    case (Inl x)
    then have "root' = root" "\<not> insertable root path" using spec by auto
    then show ?thesis unfolding push_at_def Pair Inl
      by (auto simp: and_upd_def insert_object_def insertable_iff implements_def split: sum.split)
  next
    case (Inr at)
    obtain parent n where at: "at = (parent, n)" by (cases at)
    obtain dir where s: "insertable root path" "tree_ok root'" "segment_ok n" "\<not> name_taken (node_at root' parent) n"
      "split_path path = Inr (dir @ [n])" "leads root' dir parent" "\<And>p. object_at root' p = grown root dir p"
      using spec Inr at by auto
    have ok: "tree_ok (node_at root' parent)" using leads_tree_ok s(2,6) by blast
    note pushed = push [OF ok s(4,3)]
    let ?root = "update_at (push n) parent root'"
    have u: "tree_ok ?root" "object_at ?root p = (if prefix dir p then object_at (push n (node_at root' parent)) (drop (length dir) p)
        else object_at root' p)" for p
      using update_at_spec [OF s(2,6), of "push n"] pushed by auto
    have "object_at ?root p = (if p = dir @ [n] then Some (e n) else if p = dir then restyle b (object_at root' p) else object_at root' p)" for p
    proof (cases "prefix dir p")
      case True
      then obtain q where q: "p = dir @ q" by (auto simp: prefix_def)
      show ?thesis using object_at_leads [OF s(2,6), of q] object_at_leads [OF s(2,6), of "[]"] pushed
        by (simp add: u(2) q del: object_at.simps)
    qed (auto simp: u(2))
    then have "insert_object b e path (object_at root) = Some (object_at ?root)"
      using s(1,5) by (auto simp: insert_object_def insertable_iff s(7) grown_def Let_def fun_eq_iff)
    then show ?thesis unfolding push_at_def Pair Inr at using u(1) by (simp add: and_upd_def implements_def)
  qed
qed

lemma push_gn_creation_order [simp]: "gn_creation_order (require_link_messages g) = gn_creation_order g"
  by (cases g) (simp add: require_link_messages_def)

lemma implements_push_dataset:
  assumes "tree_ok root" "\<And>n. dd_name (d n) = n"
  shows "implements root (push_at root path (\<lambda>n. push_dataset (d n)))
    (insert_object False (\<lambda>n. E_dataset ((d n)\<lparr>dd_creation_order := 0\<rparr>)) path (object_at root))"
proof (rule implements_push_at [OF assms(1)])
  fix g n assume "tree_ok g" "\<not> name_taken g n" "segment_ok n"
  then show "tree_ok (push_dataset (d n) g) \<and> gn_name (push_dataset (d n) g) = gn_name g \<and>
      gn_creation_order (push_dataset (d n) g) = gn_creation_order g \<and>
      (\<forall>p. object_at (push_dataset (d n) g) p = (if p = [n] then Some (E_dataset ((d n)\<lparr>dd_creation_order := 0\<rparr>))
        else if p = [] then restyle False (object_at g p) else object_at g p))"
    using node_ok_push(1) [of g n "d n"] object_at_push_dataset [of g "d n"] assms(2)
    by (auto simp: tree_ok_iff [of "push_dataset (d n) g"] tree_ok_iff [of g] restyle_def)
qed

lemma implements_push_group:
  assumes "tree_ok root"
  shows "implements root (push_at root path (\<lambda>n. push_group (group_new n))) (insert_object False (\<lambda>n. new_group) path (object_at root))"
proof (rule implements_push_at [OF assms])
  fix g n assume g: "tree_ok g" "\<not> name_taken g n" "segment_ok n"
  have new: "gn_name (group_new n) = n" "tree_ok (group_new n)"
    using tree_ok_new [of 0 n] by (simp_all add: group_new_def set_creation_order_def)
  have at: "object_at (push_group (group_new n) g) p = (if p = [n] then Some new_group
      else if p = [] then restyle False (object_at g p) else object_at g p)" for p
    using object_at_push_group [of g "group_new n" p] g(2) not_taken(1,2) [OF g(2)] new(1)
    by (cases p) (auto simp: restyle_def)
  show "tree_ok (push_group (group_new n) g) \<and> gn_name (push_group (group_new n) g) = gn_name g \<and>
      gn_creation_order (push_group (group_new n) g) = gn_creation_order g \<and>
      (\<forall>p. object_at (push_group (group_new n) g) p = (if p = [n] then Some new_group
        else if p = [] then restyle False (object_at g p) else object_at g p))"
    using tree_ok_push_group [of g "group_new n"] g new at by simp
qed

lemma tree_ok_push_link:
  assumes "tree_ok g" "\<not> name_taken g n" "segment_ok n" "ld_name l = n"
  shows "tree_ok (push_link l g)"
  using node_ok_push(3) [of g n l] assms by (auto simp: tree_ok_iff [of "push_link l g"] tree_ok_iff [of g])

lemma implements_push_link:
  assumes "tree_ok root" "\<And>n. ld_name (l n) = n" "\<And>n. ld_kind (l n) = k"
  shows "implements root (push_at root path (\<lambda>n. push_link (l n))) (insert_object False (\<lambda>n. E_link k) path (object_at root))"
proof (rule implements_push_at [OF assms(1)])
  fix g n assume g: "tree_ok g" "\<not> name_taken g n" "segment_ok n"
  then show "tree_ok (push_link (l n) g) \<and> gn_name (push_link (l n) g) = gn_name g \<and>
      gn_creation_order (push_link (l n) g) = gn_creation_order g \<and>
      (\<forall>p. object_at (push_link (l n) g) p = (if p = [n] then Some (E_link k)
        else if p = [] then restyle False (object_at g p) else object_at g p))"
    using tree_ok_push_link [OF g] object_at_push_link [of g "l n"] assms(2,3) by (auto simp: restyle_def)
qed

lemma restyled_fields [simp]:
  "gn_name (require_link_messages g) = gn_name g" "gn_datasets (require_link_messages g) = gn_datasets g"
  "gn_groups (require_link_messages g) = gn_groups g" "gn_links (require_link_messages g) = gn_links g"
  "gn_attrs (require_link_messages g) = gn_attrs g" "gn_style (require_link_messages g) = LinkMessage_style"
  "gn_track_order (require_link_messages g) = gn_track_order g" "gn_next_order (require_link_messages g) = gn_next_order g"
  by (cases g; simp add: require_link_messages_def)+

lemma tree_ok_same_members:
  assumes "gn_datasets g' = gn_datasets g" "gn_groups g' = gn_groups g" "gn_links g' = gn_links g" "gn_next_order g' = gn_next_order g"
  shows "tree_ok g' \<longleftrightarrow> tree_ok g"
  by (simp add: tree_ok_iff [of g'] tree_ok_iff [of g] node_ok_def names_of_def orders_of_def assms)

lemma object_at_same_members:
  assumes "gn_datasets g' = gn_datasets g" "gn_groups g' = gn_groups g" "gn_links g' = gn_links g"
  shows "object_at g' p = (if p = [] then Some (E_group (gn_attrs g') (gn_style g') (gn_track_order g')) else object_at g p)"
  by (cases p) (simp_all add: child_def leaf_def assms cong: option.case_cong)

lemma implements_push_external:
  assumes "tree_ok root" "\<And>n. ld_name (l n) = n" "\<And>n. ld_kind (l n) = k"
  shows "implements root (push_at root path (\<lambda>n g. require_link_messages (push_link (l n) g)))
    (insert_object True (\<lambda>n. E_link k) path (object_at root))"
proof (rule implements_push_at [OF assms(1)])
  fix g n assume g: "tree_ok g" "\<not> name_taken g n" "segment_ok n"
  let ?g = "require_link_messages (push_link (l n) g)"
  have "tree_ok ?g" using tree_ok_push_link [OF g assms(2)] by (simp add: tree_ok_same_members [of ?g "push_link (l n) g"])
  moreover have "object_at ?g p = (if p = [n] then Some (E_link k) else if p = [] then restyle True (object_at g p) else object_at g p)" for p
    using object_at_same_members [of ?g "push_link (l n) g" p] object_at_push_link [of g "l n" p] g(2) assms(2,3)
    by (auto simp: restyle_def simp del: object_at.simps(2))
  ultimately show "tree_ok ?g \<and> gn_name ?g = gn_name g \<and> gn_creation_order ?g = gn_creation_order g \<and>
      (\<forall>p. object_at ?g p = (if p = [n] then Some (E_link k) else if p = [] then restyle True (object_at g p) else object_at g p))"
    by simp
qed

lemma update_at_same: "leads root dir r \<Longrightarrow> f (node_at root r) = node_at root r \<Longrightarrow> update_at f r root = root"
  by (induction root dir r rule: leads.induct) auto

lemma set_datasets_same [simp]: "set_datasets (gn_datasets g) g = g"
  by (cases g) (simp add: set_datasets_def)

text \<open>A method on a dataset: it keeps the name and the place, and what it does ignores the place.\<close>

lemma implements_with_dataset:
  assumes "tree_ok root"
    and f: "\<And>d. dd_name (fst (f d)) = dd_name d" "\<And>d. dd_creation_order (fst (f d)) = dd_creation_order d"
      "\<And>d. f (d\<lparr>dd_creation_order := 0\<rparr>) = ((fst (f d))\<lparr>dd_creation_order := 0\<rparr>, snd (f d))"
      "\<And>d e. snd (f d) = Inl e \<Longrightarrow> fst (f d) = d"
  shows "implements root (with_dataset root path f) (modify_dataset f path (object_at root))"
proof (cases "dataset_mut root path")
  case (Pair root' r)
  have same: "root' = root" using dataset_mut_spec [OF assms(1), of path] Pair by simp
  show ?thesis
  proof (cases r)
    case (Inl e)
    then have "\<not> dataset_path root path" using dataset_mut_spec [OF assms(1), of path] Pair by simp
    then have "modify_dataset f path (object_at root) = None"
      by (auto simp: modify_dataset_def dataset_path_def is_dataset_def split: sum.splits option.splits entry.splits)
    then show ?thesis by (simp add: with_dataset_def Pair Inl and_upd_def same)
  next
    case (Inr at)
    obtain parent i where at: "at = (parent, i)" by (cases at)
    define d where "d = gn_datasets (node_at root parent) ! i"
    obtain dir where s: "split_path path = Inr (dir @ [dd_name d])" "leads root dir parent" "i < length (gn_datasets (node_at root parent))"
      using dataset_mut_spec [OF assms(1), of path] Pair Inr at d_def by auto
    note u = update_dataset_spec [OF assms(1) s(2,3) d_def, of "\<lambda>d. fst (f d)", OF f(1,2)]
    have w: "with_dataset root path f = (update_dataset (\<lambda>d. fst (f d)) (parent, i) root, snd (f d))"
      by (simp add: with_dataset_def Pair Inr at and_upd_def same Let_def d_def)
    have m: "modify_dataset f path (object_at root) =
        (case snd (f d) of Inr _ \<Rightarrow> Some ((object_at root)(dir @ [dd_name d] \<mapsto> E_dataset ((fst (f d))\<lparr>dd_creation_order := 0\<rparr>))) | Inl e \<Rightarrow> None)"
      using u by (simp add: modify_dataset_def s(1) f(3) split: sum.split)
    show ?thesis
    proof (cases "snd (f d)")
      case (Inl e)
      have "update_at (\<lambda>g. set_datasets ((gn_datasets g)[i := fst (f (gn_datasets g ! i))]) g) parent root = root"
        by (rule update_at_same [OF s(2)]) (simp add: f(4) [OF Inl] flip: d_def; simp add: d_def)
      then show ?thesis unfolding w m by (simp add: Inl update_dataset_def)
    next
      case (Inr x)
      then show ?thesis using u unfolding w m by (auto simp: implements_def fun_eq_iff)
    qed
  qed
qed

lemma group_mut_modify:
  assumes "tree_ok root" "split_path path = Inr segs"
    and f: "\<And>g. gn_datasets (f g) = gn_datasets g" "\<And>g. gn_groups (f g) = gn_groups g" "\<And>g. gn_links (f g) = gn_links g"
      "\<And>g. gn_next_order (f g) = gn_next_order g" "\<And>g. gn_name (f g) = gn_name g" "\<And>g. gn_creation_order (f g) = gn_creation_order g"
      "\<And>g. E_group (gn_attrs (f g)) (gn_style (f g)) (gn_track_order (f g)) = h (E_group (gn_attrs g) (gn_style g) (gn_track_order g))"
    and l: "leads root segs r"
  shows "tree_ok (update_at f r root) \<and> modify_group h path (object_at root) = Some (object_at (update_at f r root))"
proof -
  have n: "tree_ok (f (node_at root r))" using leads_tree_ok [OF assms(1) l] by (simp add: tree_ok_same_members [of "f _"] f)
  have u: "tree_ok (update_at f r root)" and at: "\<And>p. object_at (update_at f r root) p =
      (if prefix segs p then object_at (f (node_at root r)) (drop (length segs) p) else object_at root p)"
    using update_at_spec [OF assms(1) l, of f] n f(5,6) by auto
  have e: "object_at root segs = Some (E_group (gn_attrs (node_at root r)) (gn_style (node_at root r)) (gn_track_order (node_at root r)))"
    using object_at_leads [OF assms(1) l, of "[]"] by simp
  have "object_at (update_at f r root) p = (if p = segs then map_option h (object_at root segs) else object_at root p)" for p
  proof (cases "prefix segs p")
    case True
    then obtain q where q: "p = segs @ q" by (auto simp: prefix_def)
    show ?thesis using object_at_leads [OF assms(1) l, of q] object_at_same_members [of "f (node_at root r)" "node_at root r" q] f
      by (auto simp: at q e)
  qed (auto simp: at)
  then show ?thesis using u e by (auto simp: modify_group_def assms(2) is_group_def)
qed

lemma group_path_leads:
  assumes "tree_ok g"
  shows "is_group (object_at g segs) \<longleftrightarrow> (\<exists>r. leads g segs r)"
proof
  show "\<exists>r. leads g segs r \<Longrightarrow> is_group (object_at g segs)"
    using object_at_leads [OF assms, of segs _ "[]"] by (auto simp: is_group_def)
  show "is_group (object_at g segs) \<Longrightarrow> \<exists>r. leads g segs r"
    using assms
  proof (induction segs arbitrary: g)
    case Nil
    show ?case by (rule exI [of _ "[]"]) simp
  next
    case (Cons h t)
    show ?case
    proof (cases "child g h")
      case (Some c)
      then obtain i where i: "i < length (gn_groups g)" "gn_name (gn_groups g ! i) = h" "c = gn_groups g ! i"
        by (auto simp: child_def find_Some_iff)
      have "is_group (object_at c t)" "tree_ok c" using Cons.prems Some i tree_okD(2) by auto
      then obtain r where "leads c t r" using Cons.IH by blast
      then show ?thesis using i by (intro exI [of _ "i # r"]) simp
    next
      case None
      then show ?thesis using Cons.prems by (auto simp: leaf_def is_group_def split: if_splits option.splits)
    qed
  qed
qed

lemma implements_with_group:
  assumes "tree_ok root"
    and f: "\<And>g. gn_datasets (f g) = gn_datasets g" "\<And>g. gn_groups (f g) = gn_groups g" "\<And>g. gn_links (f g) = gn_links g"
      "\<And>g. gn_next_order (f g) = gn_next_order g" "\<And>g. gn_name (f g) = gn_name g" "\<And>g. gn_creation_order (f g) = gn_creation_order g"
      "\<And>g. E_group (gn_attrs (f g)) (gn_style (f g)) (gn_track_order (f g)) = h (E_group (gn_attrs g) (gn_style g) (gn_track_order g))"
  shows "implements root (and_upd (group_at root path) (\<lambda>root r. (update_at f r root, Inr ()))) (modify_group h path (object_at root))"
proof (cases "split_path path")
  case (Inl e)
  then show ?thesis by (simp add: group_at_def and_upd_def modify_group_def implements_def)
next
  case (Inr segs)
  obtain g' r where gm: "group_mut root segs False = (g', r)" by fastforce
  have g: "g' = root" and w: "case r of Inr ref \<Rightarrow> leads root segs ref | Inl e \<Rightarrow> \<forall>r. \<not> leads root segs r"
    using group_mut_False [OF assms(1), of segs] gm by (auto split: sum.splits)
  show ?thesis
  proof (cases r)
    case r: (Inl e)
    then have "\<not> is_group (object_at root segs)" using w group_path_leads [OF assms(1)] by simp
    then show ?thesis by (simp add: group_at_def and_upd_def modify_group_def implements_def Inr gm r g)
  next
    case r: (Inr ref)
    then show ?thesis using group_mut_modify [OF assms(1) Inr f, of ref] w
      by (simp add: group_at_def and_upd_def implements_def Inr gm g)
  qed
qed

text \<open>Attributes are attached to groups and to datasets.\<close>

definition modify_attrs :: "(attr_desc list \<Rightarrow> attr_desc list) \<Rightarrow> str \<Rightarrow> objects \<Rightarrow> objects option" where
  "modify_attrs f path m =
     (case split_path path of
        Inl _ \<Rightarrow> None
      | Inr segs \<Rightarrow>
          (case m segs of
             Some (E_dataset d) \<Rightarrow> Some (m(segs \<mapsto> E_dataset (d\<lparr>dd_attrs := f (dd_attrs d)\<rparr>)))
           | Some (E_group at st tr) \<Rightarrow> Some (m(segs \<mapsto> E_group (f at) st tr))
           | _ \<Rightarrow> None))"

lemma leads_snoc:
  "leads g segs r \<Longrightarrow> i < length (gn_groups (node_at g r)) \<Longrightarrow> leads g (segs @ [gn_name (gn_groups (node_at g r) ! i)]) (r @ [i])"
  by (induction g segs r rule: leads.induct) auto

lemma set_attrs_fields [simp]:
  "gn_name (set_attrs at g) = gn_name g" "gn_datasets (set_attrs at g) = gn_datasets g" "gn_groups (set_attrs at g) = gn_groups g"
  "gn_links (set_attrs at g) = gn_links g" "gn_attrs (set_attrs at g) = at" "gn_style (set_attrs at g) = gn_style g"
  "gn_track_order (set_attrs at g) = gn_track_order g" "gn_next_order (set_attrs at g) = gn_next_order g"
  "gn_creation_order (set_attrs at g) = gn_creation_order g"
  by (cases g; simp add: set_attrs_def)+

lemma implements_group_attrs:
  assumes "tree_ok root" "split_path path = Inr segs" "leads root segs r"
  shows "implements root (update_attrs f (Group_attrs r) root, Inr ()) (modify_attrs f path (object_at root))"
proof -
  let ?h = "\<lambda>e. case e of E_group at st tr \<Rightarrow> E_group (f at) st tr | _ \<Rightarrow> e"
  have u: "tree_ok (update_attrs f (Group_attrs r) root)"
    "modify_group ?h path (object_at root) = Some (object_at (update_attrs f (Group_attrs r) root))"
    using group_mut_modify [OF assms(1,2) _ _ _ _ _ _ _ assms(3), of "\<lambda>g. set_attrs (f (gn_attrs g)) g" ?h]
    by (simp_all add: update_attrs_def)
  have e: "is_group (object_at root segs)" using group_path_leads [OF assms(1)] assms(3) by blast
  then have "modify_attrs f path (object_at root) = modify_group ?h path (object_at root)"
    by (auto simp: modify_attrs_def modify_group_def assms(2) is_group_def split: option.splits entry.splits)
  then show ?thesis using u by (simp add: implements_def)
qed

lemma implements_attach:
  assumes "tree_ok root"
  shows "implements root (attach_attr root path name kind) (modify_attrs (put_attr name kind) path (object_at root))"
proof (cases "split_path path")
  case (Inl e)
  then show ?thesis by (simp add: attach_attr_def attrs_mut_def and_upd_def modify_attrs_def)
next
  case (Inr segs)
  show ?thesis
  proof (cases "segs = []")
    case True
    then show ?thesis using implements_group_attrs [OF assms Inr, of "[]"]
      by (simp add: attach_attr_def attrs_mut_def and_upd_def Inr)
  next
    case False
    define dir n where "dir = butlast segs" and "n = last segs"
    have segs: "segs = dir @ [n]" using False by (simp add: dir_def n_def)
    obtain g' r where gm: "group_mut root dir False = (g', r)" by fastforce
    have g: "g' = root" and w: "case r of Inr ref \<Rightarrow> leads root dir ref | Inl e \<Rightarrow> \<forall>r. \<not> leads root dir r"
      using group_mut_False [OF assms, of dir] gm by (auto split: sum.splits)
    note defs = attach_attr_def attrs_mut_def and_upd_def
    show ?thesis
    proof (cases r)
      case (Inl e)
      then have "object_at root segs = None" using w object_at_parent [of root dir n] unfolding segs by fastforce
      then show ?thesis using gm g Inl by (simp add: defs modify_attrs_def Inr segs)
    next
      case r: (Inr parent)
      have l: "leads root dir parent" using w r by simp
      let ?n = "node_at root parent"
      have e: "object_at root segs = object_at ?n [n]" using object_at_leads [OF assms l] by (simp add: segs)
      show ?thesis
      proof (cases "position (\<lambda>ds. dd_name ds = n) (gn_datasets ?n)")
        case (Some i)
        then have i: "i < length (gn_datasets ?n)" "dd_name (gn_datasets ?n ! i) = n" by (auto simp: position_Some_iff)
        let ?f = "\<lambda>d. d\<lparr>dd_attrs := put_attr name kind (dd_attrs d)\<rparr>"
        have u: "tree_ok (update_dataset ?f (parent, i) root) \<and>
            modify_attrs (put_attr name kind) path (object_at root) = Some (object_at (update_dataset ?f (parent, i) root))"
          using update_dataset_spec [OF assms l i(1) refl, of ?f] i(2) by (auto simp: modify_attrs_def Inr segs fun_eq_iff)
        have "attach_attr root path name kind = (update_dataset ?f (parent, i) root, Inr ())"
          using gm g r Some by (simp add: defs Inr segs Let_def update_attrs_def)
        then show ?thesis using u by (simp add: implements_def)
      next
        case no_ds: None
        show ?thesis
        proof (cases "position (\<lambda>grp. gn_name grp = n) (gn_groups ?n)")
          case (Some i)
          then have i: "i < length (gn_groups ?n)" "gn_name (gn_groups ?n ! i) = n" by (auto simp: position_Some_iff)
          have "leads root segs (parent @ [i])" using leads_snoc [OF l i(1)] by (simp add: segs i(2))
          then show ?thesis using implements_group_attrs [OF assms Inr] gm g r no_ds Some
            by (simp add: defs Inr segs Let_def)
        next
          case None
          then have "child ?n n = None" by (auto simp: child_def find_None_iff position_None_iff)
          then have "\<not> is_group (object_at ?n [n])" by (auto simp: leaf_def is_group_def split: option.split)
          then have "modify_attrs (put_attr name kind) path (object_at root) = None"
            using no_position_no_dataset [OF no_ds] unfolding modify_attrs_def Inr e [symmetric]
            by (auto simp: is_group_def is_dataset_def split: option.splits entry.splits)
          then show ?thesis using gm g r no_ds None by (simp add: defs Inr segs Let_def)
        qed
      qed
    qed
  qed
qed

section \<open>The abstract writer\<close>

definition insert_dataset :: "dataset_desc \<Rightarrow> str \<Rightarrow> objects \<Rightarrow> objects option" where
  "insert_dataset d = insert_object False (\<lambda>n. E_dataset (d\<lparr>dd_name := n\<rparr>))"

text \<open>Data of the shape it is given; the length must be that of the shape.\<close>

definition insert_sized :: "dataset_desc \<Rightarrow> nat \<Rightarrow> str \<Rightarrow> objects \<Rightarrow> objects option" where
  "insert_sized d w path m = (if checked_byte_len (dd_shape d) w = Inr (length (dd_raw d)) then insert_dataset d path m else None)"

definition insert_encoded :: "encoded_dtype res \<Rightarrow> bytes \<Rightarrow> nat list \<Rightarrow> str \<Rightarrow> objects \<Rightarrow> objects option" where
  "insert_encoded r raw shape path m =
     (case r of
        Inl _ \<Rightarrow> None
      | Inr enc \<Rightarrow> insert_sized ((dataset_desc_of [] raw shape U8)\<lparr>dd_dtype := Some enc\<rparr>) (ed_elem_size enc) path m)"

text \<open>Strings of at most \<open>w\<close> bytes, each padded to that width with zeros.\<close>

definition padded :: "nat \<Rightarrow> str \<Rightarrow> bytes" where
  "padded w s = s @ replicate (w - length s) 0"

fun spec :: "call \<Rightarrow> objects \<Rightarrow> objects option" where
  "spec (Add_dataset path raw shape et) m = insert_sized (dataset_desc_of [] raw shape et) (byte_size et) path m"
| "spec (Create_dataset path shape dt) m =
     (case (dtype_size dt, dtype_to_elem_type dt) of
        (Inr (Some w), Inr et) \<Rightarrow>
          (case checked_byte_len shape w of
             Inr n \<Rightarrow> if n \<le> isize_max then insert_sized (dataset_desc_of [] (replicate n 0) shape et) (byte_size et) path m else None
           | Inl _ \<Rightarrow> None)
      | _ \<Rightarrow> None)"
| "spec (Create_vlen_strings path strings) m =
     insert_dataset ((dataset_desc_of [] [] [length strings] VlenStr)\<lparr>dd_vlen_strings := Some strings\<rparr>) path m"
| "spec (Create_fixed_strings path w strings) m =
     (if 0 < w \<and> w < u32_lim \<and> length strings * w \<le> isize_max \<and> (\<forall>s\<in>set strings. length s \<le> w)
      then insert_dataset (dataset_desc_of [] (concat (map (padded w) strings)) [length strings] (FixedStr w)) path m
      else None)"
| "spec (Create_unlimited path shape cs dt dat) m =
     (case (dtype_size dt, dtype_to_elem_type dt) of
        (Inr (Some w), Inr et) \<Rightarrow> insert_sized ((dataset_desc_of [] dat shape et)\<lparr>dd_storage := Chunked_st cs True\<rparr>) w path m
      | _ \<Rightarrow> None)"
| "spec (Create_compound path fds sz rows shape) m = insert_encoded (compound fds sz) rows shape path m"
| "spec (Create_vlen_sequence path base seqs) m =
     (case member_elem_type base of
        Inl _ \<Rightarrow> None
      | Inr el \<Rightarrow>
          (case vlen_sequence el of
             Inl _ \<Rightarrow> None
           | Inr enc \<Rightarrow>
               if byte_size el > 0 \<and> (\<forall>s\<in>set seqs. byte_size el dvd length s) \<or> seqs = []
               then insert_dataset ((dataset_desc_of [] [] [length seqs] U8)\<lparr>dd_dtype := Some enc, dd_vlen_seqs := Some seqs\<rparr>) path m
               else None))"
| "spec (Create_array path base dims dat shape) m =
     insert_encoded (and_then (member_elem_type base) (\<lambda>el. array_dtype el dims)) dat shape path m"
| "spec (Create_opaque path sz tag dat shape) m = insert_encoded (opaque sz tag) dat shape path m"
| "spec (Create_bitfield path sz ord dat shape) m = insert_encoded (bitfield sz ord) dat shape path m"
| "spec (Set_fill_value path et bs) m =
     modify_dataset (\<lambda>d.
       if dd_dtype d = None \<and> dd_elem_type d = et \<and> length bs = byte_size et
       then (d\<lparr>dd_attrs := filter (\<lambda>a. \<not> is_fill_value a) (dd_attrs d) @ [\<lparr>ad_name = FILL_VALUE_SENTINEL_NAME, ad_kind = AK_FillValue bs\<rparr>]\<rparr>, Inr ())
       else (d, Inl Format)) path m"
| "spec (Set_compact path) m =
     modify_dataset (\<lambda>d.
       if \<exists>a\<in>set (dd_attrs d). is_compact_layout a then (d, Inr ())
       else if dd_storage d = Contiguous_st \<and> dd_vlen_strings d = None \<and> dd_vlen_seqs d = None \<and> length (dd_raw d) \<le> 65524
       then (d\<lparr>dd_raw := [], dd_attrs := dd_attrs d @ [\<lparr>ad_name = COMPACT_LAYOUT_SENTINEL_NAME, ad_kind = AK_CompactLayout (dd_raw d)\<rparr>]\<rparr>, Inr ())
       else (d, Inl Format)) path m"
| "spec (Set_deflate path level) m = (if level \<le> 9 then modify_dataset (set_filter (\<lambda>f. f\<lparr>fc_deflate := Some level\<rparr>)) path m else None)"
| "spec (Set_shuffle path) m = modify_dataset (set_filter (\<lambda>f. f\<lparr>fc_shuffle := True\<rparr>)) path m"
| "spec (Set_fletcher32 path) m = modify_dataset (set_filter (\<lambda>f. f\<lparr>fc_fletcher32 := True\<rparr>)) path m"
| "spec (Set_chunking path cs) m =
     modify_dataset (\<lambda>d.
       let d' = d\<lparr>dd_storage := Chunked_st cs False\<rparr> in
       case (ensure_filterable d, chunk_shape_of d') of
         (Inr _, Inr _) \<Rightarrow> (d', Inr ())
       | _ \<Rightarrow> (d, Inl Format)) path m"
| "spec (Attach_attr path name kind) m = modify_attrs (put_attr name kind) path m"
| "spec (Create_group path) m = insert_object False (\<lambda>_. new_group) path m"
| "spec (Create_soft_link path target) m =
     (if target \<noteq> [] \<and> 0 \<notin> set target then insert_object False (\<lambda>_. E_link (Soft_link target)) path m else None)"
| "spec (Create_external_link path f target) m =
     (if f \<noteq> [] \<and> 0 \<notin> set f \<and> target \<noteq> [] \<and> 0 \<notin> set target
      then insert_object True (\<lambda>_. E_link (External_link f target)) path m else None)"
| "spec (Create_hard_link path target) m =
     (if target \<noteq> [] \<and> 0 \<notin> set target \<and> (\<exists>segs. split_path target = Inr segs)
      then insert_object False (\<lambda>_. E_link (HardAlias target)) path m else None)"
| "spec (Set_track_order path) m =
     modify_group (\<lambda>e. case e of E_group at st tr \<Rightarrow> E_group at LinkMessage_style True | _ \<Rightarrow> e) path m"
| "spec (Set_link_storage path) m =
     modify_group (\<lambda>e. case e of E_group at st tr \<Rightarrow> E_group at LinkMessage_style tr | _ \<Rightarrow> e) path m"

section \<open>Each call implements its specification\<close>

lemma implements_insert_dataset:
  assumes "tree_ok root" "\<And>n. d n = e\<lparr>dd_name := n\<rparr>" "dd_creation_order e = 0"
  shows "implements root (push_at root path (\<lambda>n. push_dataset (d n))) (insert_dataset e path (object_at root))"
proof -
  have "e\<lparr>dd_name := n, dd_creation_order := 0\<rparr> = e\<lparr>dd_name := n\<rparr>" for n using assms(3) by (cases e) simp
  then show ?thesis using implements_push_dataset [OF assms(1), of d path] assms(2) by (simp add: insert_dataset_def)
qed

lemma implements_add:
  assumes "tree_ok root"
  shows "implements root (add_dataset root path raw shape et) (insert_sized (dataset_desc_of [] raw shape et) (byte_size et) path (object_at root))"
  unfolding add_dataset_def insert_sized_def
  by (intro implements_checked) (auto simp: dataset_desc_of_def intro!: implements_insert_dataset assms)

lemma implements_add_structured:
  assumes "tree_ok root"
  shows "implements root (checked root r (\<lambda>enc. add_structured_dataset root path enc raw shape)) (insert_encoded r raw shape path (object_at root))"
  unfolding add_structured_dataset_def insert_sized_def insert_encoded_def
  by (intro implements_checked) (auto simp: dataset_desc_of_def intro!: implements_insert_dataset assms)

lemma implements_dataset_method:
  assumes "tree_ok root"
    and f: "\<And>d. dd_name (fst (f d)) = dd_name d" "\<And>d. dd_creation_order (fst (f d)) = dd_creation_order d"
      "\<And>d. f (d\<lparr>dd_creation_order := 0\<rparr>) = ((fst (f d))\<lparr>dd_creation_order := 0\<rparr>, snd (f d))"
      "\<And>d e. snd (f d) = Inl e \<Longrightarrow> fst (f d) = d"
    and g: "\<And>d e. snd (f d) = Inl e \<Longrightarrow> \<exists>e. snd (g d) = Inl e" "\<And>d x. snd (f d) = Inr x \<Longrightarrow> g d = f d"
  shows "implements root (with_dataset root path f) (modify_dataset g path (object_at root))"
proof -
  have "(case g d of (d', Inr _) \<Rightarrow> Some (m d') | _ \<Rightarrow> None) = (case f d of (d', Inr _) \<Rightarrow> Some (m d') | _ \<Rightarrow> None)" for d m
    using g(1,2) [of d] by (cases "snd (f d)") (auto simp: prod.case_eq_if split: sum.split)
  then have "modify_dataset g path (object_at root) = modify_dataset f path (object_at root)"
    by (auto simp: modify_dataset_def split: sum.split option.split entry.split)
  then show ?thesis using implements_with_dataset [OF assms(1) f] by simp
qed

lemma implements_set_filter:
  assumes "tree_ok root"
  shows "implements root (with_dataset root path (set_filter f)) (modify_dataset (set_filter f) path (object_at root))"
  by (rule implements_with_dataset [OF assms])
    (auto simp: set_filter_def ensure_filterable_def ensure_chunked_def filter_or_default_def dd_chunked_def Let_def split: sum.splits)

lemma implements_fill_value:
  assumes "tree_ok root"
  shows "implements root (set_fill_value_le root path et bs) (spec (Set_fill_value path et bs) (object_at root))"
  unfolding set_fill_value_le_def spec.simps
  by (rule implements_dataset_method [OF assms]) (auto split: if_splits)

lemma pad8_compact:
  "(case and_then (uadd 4 n) pad8 of Inl e \<Rightarrow> False | Inr k \<Rightarrow> k \<le> 65535) \<longleftrightarrow> n \<le> 65524"
proof -
  have "(11 + n) div 8 * 8 \<le> 65535 \<longleftrightarrow> (11 + n) div 8 < 8192"
    using less_eq_div_iff_mult_less_eq [of 8 "(11 + n) div 8" 65535] by auto
  also have "\<dots> \<longleftrightarrow> n \<le> 65524" by (auto simp: div_less_iff_less_mult)
  finally show ?thesis by (auto simp: uadd_def pad8_def and_then_def)
qed

lemma compact_case:
  "(case and_then (uadd 4 n) pad8 of Inl e \<Rightarrow> (d, Inl e) | Inr k \<Rightarrow> if k > 65535 then (d, Inl Format) else x) =
   (if n \<le> 65524 then x else (d, Inl (case and_then (uadd 4 n) pad8 of Inl e \<Rightarrow> e | Inr _ \<Rightarrow> Format)))"
  using pad8_compact [of n] by (cases "and_then (uadd 4 n) pad8") auto

lemma implements_compact:
  assumes "tree_ok root"
  shows "implements root (set_compact root path) (spec (Set_compact path) (object_at root))"
  unfolding set_compact_def spec.simps compact_case
  by (rule implements_dataset_method [OF assms]) (auto simp: dd_chunked_def split: if_splits storage.splits)

lemma chunk_shape_of_place [simp]: "chunk_shape_of (d\<lparr>dd_creation_order := k\<rparr>) = chunk_shape_of d"
  by (cases "dd_storage d") (simp_all add: chunk_shape_of_def dd_chunked_def)

lemma chunk_shape_of_place_storage [simp]:
  "chunk_shape_of (d\<lparr>dd_creation_order := k, dd_storage := st\<rparr>) = chunk_shape_of (d\<lparr>dd_storage := st\<rparr>)"
  by (cases st) (simp_all add: chunk_shape_of_def dd_chunked_def)

lemma implements_chunking:
  assumes "tree_ok root"
  shows "implements root (set_chunking root path cs) (spec (Set_chunking path cs) (object_at root))"
  unfolding set_chunking_def spec.simps
  by (rule implements_dataset_method [OF assms])
    (auto simp: ensure_filterable_def Let_def split: if_splits sum.splits)

text \<open>The strings of a fixed width, written one after the other into the zeroed data.\<close>

lemma fixed_strings_loop:
  fixes w k :: nat and pre :: bytes
  assumes "length pre = k * w"
  shows "case fold_res (\<lambda>(i, s) raw. if length s > w then Inl Format else put_range raw (i * w) s) (enumerate k strings)
        (pre @ replicate (length strings * w) 0) of
      Inl e \<Rightarrow> \<not> (\<forall>s\<in>set strings. length s \<le> w)
    | Inr raw \<Rightarrow> (\<forall>s\<in>set strings. length s \<le> w) \<and> raw = pre @ concat (map (padded w) strings)"
  using assms
proof (induction strings arbitrary: k pre)
  case (Cons s strings)
  show ?case
  proof (cases "length s \<le> w")
    case True
    have r: "replicate (w + length strings * w) (0 :: 8 word) = replicate (length s) 0 @ replicate (w - length s) 0 @ replicate (length strings * w) 0"
      using True by (simp flip: replicate_add)
    have "put_range (pre @ replicate (w + length strings * w) 0) (k * w) s
        = Inr ((pre @ padded w s) @ replicate (length strings * w) 0)"
      unfolding r using True Cons.prems by (simp add: put_range_def splice_def padded_def)
    then show ?thesis using Cons.IH [of "pre @ padded w s" "Suc k"] Cons.prems True by (simp add: padded_def split: sum.split_asm)
  qed simp
qed simp

lemma implements_fixed_strings:
  assumes "tree_ok root"
  shows "implements root (create_fixed_string_dataset root path w strings) (spec (Create_fixed_strings path w strings) (object_at root))"
proof (cases "0 < w \<and> w < u32_lim \<and> length strings * w \<le> isize_max")
  case False
  have "create_fixed_string_dataset root path w strings = (root, Inl e) \<Longrightarrow> ?thesis" for e using False by auto
  then show ?thesis using False
    by (auto simp: create_fixed_string_dataset_def checked_def narrow_def checked_byte_len_def checked_mul_def zeroed_vec_def)
next
  case True
  then have "length strings \<le> length strings * w" by simp
  then have "length strings < u64_lim" "length strings * w < u64_lim" using True by linarith+
  then have n: "checked_byte_len [length strings] w = Inr (length strings * w)"
    by (simp add: checked_byte_len_def checked_mul_def)
  show ?thesis
    unfolding create_fixed_string_dataset_def spec.simps
    using True fixed_strings_loop [of "[]" 0 w strings]
    by (auto simp: checked_def narrow_def n zeroed_vec_def dataset_desc_of_def intro!: implements_insert_dataset assms split: sum.split)
qed

lemma implements_create:
  assumes "tree_ok root"
  shows "implements root (create_dataset root path shape dt) (spec (Create_dataset path shape dt) (object_at root))"
  unfolding create_dataset_def spec.simps
  by (intro implements_checked)
    (auto simp: zeroed_vec_def ok_or_def split: option.splits if_splits sum.splits intro!: implements_add assms)

lemma implements_unlimited:
  assumes "tree_ok root"
  shows "implements root (create_dataset_unlimited root path shape cs dt dat) (spec (Create_unlimited path shape cs dt dat) (object_at root))"
  unfolding create_dataset_unlimited_def spec.simps insert_sized_def
  by (intro implements_checked)
    (auto simp: ok_or_def dataset_desc_of_def split: option.splits if_splits sum.splits
      intro!: implements_insert_dataset implements_checked assms)

lemma implements_vlen_sequence:
  assumes "tree_ok root"
  shows "implements root (create_vlen_sequence_dataset root path base seqs) (spec (Create_vlen_sequence path base seqs) (object_at root))"
  unfolding create_vlen_sequence_dataset_def spec.simps Let_def
  by (intro implements_checked)
    (auto simp: dataset_desc_of_def dvd_eq_mod_eq_0 split: sum.splits intro!: implements_insert_dataset implements_checked assms)

lemma implements_array:
  assumes "tree_ok root"
  shows "implements root (create_array_dataset root path base dims dat shape) (spec (Create_array path base dims dat shape) (object_at root))"
proof -
  have "create_array_dataset root path base dims dat shape =
      checked root (and_then (member_elem_type base) (\<lambda>el. array_dtype el dims)) (\<lambda>enc. add_structured_dataset root path enc dat shape)"
    by (simp add: create_array_dataset_def checked_def and_then_def split: sum.split)
  then show ?thesis using implements_add_structured [OF assms] by simp
qed

lemma implements_links:
  assumes "tree_ok root"
  shows "implements root (create_soft_link root path target) (spec (Create_soft_link path target) (object_at root))"
    and "implements root (create_hard_link root path target) (spec (Create_hard_link path target) (object_at root))"
    and "implements root (create_external_link root path fl target) (spec (Create_external_link path fl target) (object_at root))"
  by (auto simp: create_soft_link_def create_hard_link_def create_external_link_def check_link_target_def checked_def
      intro!: implements_push_link implements_push_external assms split: sum.split)

lemma implements_group_settings:
  assumes "tree_ok root"
  shows "implements root (set_track_order root path) (spec (Set_track_order path) (object_at root))"
    and "implements root (set_link_storage root path) (spec (Set_link_storage path) (object_at root))"
  unfolding set_track_order_def set_link_storage_def spec.simps
  by (rule implements_with_group [OF assms]; simp)+

lemma implements_filters:
  assumes "tree_ok root"
  shows "implements root (set_deflate root path level) (spec (Set_deflate path level) (object_at root))"
    and "implements root (set_shuffle root path) (spec (Set_shuffle path) (object_at root))"
    and "implements root (set_fletcher32 root path) (spec (Set_fletcher32 path) (object_at root))"
  using implements_set_filter [OF assms] by (simp_all add: set_deflate_def set_shuffle_def set_fletcher32_def)

lemma implements_structured:
  assumes "tree_ok root"
  shows "implements root (create_compound_dataset root path fds sz rows shape) (spec (Create_compound path fds sz rows shape) (object_at root))"
    and "implements root (create_opaque_dataset root path sz tag dat shape) (spec (Create_opaque path sz tag dat shape) (object_at root))"
    and "implements root (create_bitfield_dataset root path sz ord dat shape) (spec (Create_bitfield path sz ord dat shape) (object_at root))"
  using implements_add_structured [OF assms]
  by (simp_all add: create_compound_dataset_def create_opaque_dataset_def create_bitfield_dataset_def)

lemma implements_plain:
  assumes "tree_ok root"
  shows "implements root (add_dataset root path raw shape et) (spec (Add_dataset path raw shape et) (object_at root))"
    and "implements root (create_vlen_string_dataset root path strings) (spec (Create_vlen_strings path strings) (object_at root))"
    and "implements root (create_group root path) (spec (Create_group path) (object_at root))"
    and "implements root (attach_attr root path name kind) (spec (Attach_attr path name kind) (object_at root))"
  using implements_add [OF assms] implements_push_group [OF assms] implements_attach [OF assms]
  by (auto simp: create_group_def create_vlen_string_dataset_def dataset_desc_of_def intro!: implements_insert_dataset assms)

lemmas implements_all = implements_plain implements_create implements_fixed_strings implements_unlimited implements_structured
  implements_vlen_sequence implements_array implements_fill_value implements_compact implements_filters implements_chunking
  implements_links implements_group_settings

lemma run_implements: "tree_ok root \<Longrightarrow> implements root (run c root) (spec c (object_at root))"
  by (cases c) (simp_all only: run.simps implements_all)

text \<open>
  C3. The public methods of the writer are a refinement of partial updates of the map from paths to
  objects: on a well-formed tree a refused call leaves the tree exactly as it was, and it is refused
  only when the specification is undefined; an accepted call leaves a well-formed tree that stands for
  the specified map, with the missing groups of the path made and every other object untouched.
\<close>

theorem run_refines:
  assumes "tree_ok root"
  shows "case run c root of
      (root', Inl e) \<Rightarrow> root' = root \<and> spec c (object_at root) = None
    | (root', Inr _) \<Rightarrow> tree_ok root' \<and> spec c (object_at root) = Some (object_at root')"
  using run_implements [OF assms, of c] by (simp add: implements_def)

lemma tree_ok_empty: "tree_ok (group_new n)"
  by (rule tree_okI) (simp_all add: node_ok_def names_of_def orders_of_def group_new_def)

theorem run_refines_witness:
  "case run (Create_group [0x61]) (group_new []) of
      (root', Inl e) \<Rightarrow> root' = group_new [] \<and> spec (Create_group [0x61]) (object_at (group_new [])) = None
    | (root', Inr _) \<Rightarrow> tree_ok root' \<and> spec (Create_group [0x61]) (object_at (group_new [])) = Some (object_at root')"
  by (rule run_refines [OF tree_ok_empty])

end
