(* ===== verification/Write_Api_Inv.thy ===== *)
theory Write_Api_Inv
  imports Write_Api_Spec
begin

text \<open>
  What histories of calls keep. Every history keeps the tree well formed, filters only on chunked
  data, and variable-length data unchunked and out of the raw field. A history in which no attribute
  is attached under the name of the compact-layout marker also keeps each dataset one that the layout
  pass can lay out: its data has the length of its shape, wherever the data is kept, and the two
  markers that travel in the attribute list, the fill value and the compact layout, are there at most
  once, with a value of the right size. One argument serves both: the calls keep any property of
  datasets that the changes of a single dataset keep.
\<close>

section \<open>Datasets and their markers\<close>



definition compact_marker :: "bytes \<Rightarrow> attr_desc" where
  "compact_marker bs = \<lparr>ad_name = COMPACT_LAYOUT_SENTINEL_NAME, ad_kind = AK_CompactLayout bs\<rparr>"

definition fill_marker :: "bytes \<Rightarrow> attr_desc" where
  "fill_marker bs = \<lparr>ad_name = FILL_VALUE_SENTINEL_NAME, ad_kind = AK_FillValue bs\<rparr>"

definition is_vlen :: "dataset_desc \<Rightarrow> bool" where
  "is_vlen d \<longleftrightarrow> dd_vlen_strings d \<noteq> None \<or> dd_vlen_seqs d \<noteq> None"

definition data_ok :: "dataset_desc \<Rightarrow> bytes \<Rightarrow> bool" where
  "data_ok d bs \<longleftrightarrow> length bs = prod_list (dd_shape d) * dd_elem_size d"

lemma elem_size_updates [simp]:
  "dd_elem_size (d\<lparr>dd_name := n\<rparr>) = dd_elem_size d" "dd_elem_size (d\<lparr>dd_attrs := at\<rparr>) = dd_elem_size d"
  "dd_elem_size (d\<lparr>dd_raw := raw, dd_attrs := at\<rparr>) = dd_elem_size d" "dd_elem_size (d\<lparr>dd_storage := st\<rparr>) = dd_elem_size d"
  "dd_elem_size (d\<lparr>dd_filter := f\<rparr>) = dd_elem_size d" "dd_elem_size (d\<lparr>dd_raw := raw\<rparr>) = dd_elem_size d"
  by (cases "dd_dtype d"; simp add: dd_elem_size_def)+

lemma checked_product:
  fixes k :: nat
  shows "fold_res (\<lambda>d acc. ok_or (checked_mul acc d) Format) shape k = Inr v \<Longrightarrow> v = k * prod_list shape"
proof (induction shape arbitrary: k)
  case (Cons a shape)
  then have "fold_res (\<lambda>d acc. ok_or (checked_mul acc d) Format) shape (k * a) = Inr v"
    by (auto simp: and_then_Inr_iff ok_or_def checked_mul_def split: if_splits)
  then show ?case using Cons.IH [of "k * a"] by simp
qed simp

lemma checked_byte_len_Inr:
  assumes "checked_byte_len shape w = Inr n"
  shows "n = prod_list shape * w"
proof -
  obtain k where "fold_res (\<lambda>d acc. ok_or (checked_mul acc d) Format) shape 1 = Inr k" and k: "ok_or (checked_mul k w) Format = Inr n"
    using assms unfolding checked_byte_len_def and_then_Inr_iff by blast
  then have "k = prod_list shape" using checked_product [of shape 1 k] by simp
  then show ?thesis using k by (auto simp: ok_or_def checked_mul_def split: if_splits)
qed

lemma as_elem_size: "numeric_of dt = Some (num, ord) \<Longrightarrow> dtype_size dt = Inr (Some (byte_size (as_elem num ord)))"
  by (cases dt; cases ord) (auto simp: numeric_of_def byte_size_def split: if_splits bool.splits)

lemma numeric_size:
  assumes "dtype_to_elem_type dt = Inr et" "dtype_size dt = Inr (Some w)"
  shows "byte_size et = w"
  using assms as_elem_size [of dt] by (auto simp: dtype_to_elem_type_def split: option.splits)

lemma padded_concat: "\<forall>s\<in>set strings. length s \<le> w \<Longrightarrow> length (concat (map (padded w) strings)) = length strings * w"
  by (rule length_concat_const) (simp add: padded_def)

section \<open>A property that the changes of a dataset keep\<close>

definition objects_keep :: "(dataset_desc \<Rightarrow> bool) \<Rightarrow> objects \<Rightarrow> bool" where
  "objects_keep keep m \<longleftrightarrow> (\<forall>p d. m p = Some (E_dataset d) \<longrightarrow> keep d)"

text \<open>The calls that attach no attribute other than those of \<open>attr_kept\<close>.\<close>

fun call_keeps :: "(str \<Rightarrow> attr_kind \<Rightarrow> bool) \<Rightarrow> call \<Rightarrow> bool" where
  "call_keeps attr_kept (Attach_attr _ name kind) = attr_kept name kind"
| "call_keeps attr_kept _ = True"

text \<open>A history of calls on a new file, whatever each of them returned.\<close>

definition session :: "call list \<Rightarrow> group_node" where
  "session cs = fold (\<lambda>c root. fst (run c root)) cs (group_new [])"

locale dataset_invariant =
  fixes keep :: "dataset_desc \<Rightarrow> bool" and attr_kept :: "str \<Rightarrow> attr_kind \<Rightarrow> bool"
  assumes keep_rename: "keep d \<Longrightarrow> keep (d\<lparr>dd_name := n\<rparr>)"
    and keep_new: "dd_attrs d = [] \<Longrightarrow> dd_filter d = None \<Longrightarrow> \<not> is_vlen d \<Longrightarrow> data_ok d (dd_raw d) \<Longrightarrow> keep d"
    and keep_vlen: "dd_attrs d = [] \<Longrightarrow> dd_filter d = None \<Longrightarrow> is_vlen d \<Longrightarrow> dd_storage d = Contiguous_st \<Longrightarrow> dd_raw d = [] \<Longrightarrow> keep d"
    and keep_attach: "keep d \<Longrightarrow> attr_kept name kind \<Longrightarrow> keep (d\<lparr>dd_attrs := put_attr name kind (dd_attrs d)\<rparr>)"
    and keep_filter: "keep d \<Longrightarrow> snd (set_filter f d) = Inr x \<Longrightarrow> keep (fst (set_filter f d))"
    and keep_chunking: "keep d \<Longrightarrow> ensure_filterable d = Inr u \<Longrightarrow> keep (d\<lparr>dd_storage := Chunked_st cs False\<rparr>)"
    and keep_fill: "keep d \<Longrightarrow> dd_dtype d = None \<Longrightarrow> length bs = byte_size (dd_elem_type d) \<Longrightarrow>
          keep (d\<lparr>dd_attrs := filter (\<lambda>a. \<not> is_fill_value a) (dd_attrs d) @ [fill_marker bs]\<rparr>)"
    and keep_compact: "keep d \<Longrightarrow> dd_storage d = Contiguous_st \<Longrightarrow> \<not> is_vlen d \<Longrightarrow> length (dd_raw d) \<le> 65524 \<Longrightarrow>
          \<forall>a\<in>set (dd_attrs d). \<not> is_compact_layout a \<Longrightarrow>
          keep (d\<lparr>dd_raw := [], dd_attrs := dd_attrs d @ [compact_marker (dd_raw d)]\<rparr>)"
begin

lemma kept_insert:
  assumes "objects_keep keep m" "insert_object b e path m = Some m'" "\<And>n d. e n = E_dataset d \<Longrightarrow> keep d"
  shows "objects_keep keep m'"
  unfolding objects_keep_def
proof (intro allI impI)
  fix p d assume "m' p = Some (E_dataset d)"
  then have "m p = Some (E_dataset d) \<or> (\<exists>n. e n = E_dataset d)"
    using assms(2) by (auto simp: insert_object_def restyle_def Let_def split: sum.splits if_splits option.splits entry.splits)
  then show "keep d" using assms(1,3) by (auto simp: objects_keep_def)
qed

lemma kept_insert_dataset:
  "objects_keep keep m \<Longrightarrow> insert_dataset d path m = Some m' \<Longrightarrow> keep d \<Longrightarrow> objects_keep keep m'"
  unfolding insert_dataset_def by (rule kept_insert) (auto simp: keep_rename)

lemma kept_modify_dataset:
  assumes "objects_keep keep m" "modify_dataset f path m = Some m'" "\<And>d x. keep d \<Longrightarrow> snd (f d) = Inr x \<Longrightarrow> keep (fst (f d))"
  shows "objects_keep keep m'"
proof -
  obtain segs d d' where *: "m segs = Some (E_dataset d)" "f d = (d', Inr ())" "m' = m(segs \<mapsto> E_dataset d')"
    using assms(2) by (auto simp: modify_dataset_def split: sum.splits option.splits entry.splits prod.splits)
  have "keep d'" using assms(1) assms(3) [of d "()"] * by (auto simp: objects_keep_def)
  then show ?thesis using assms(1) * by (auto simp: objects_keep_def)
qed

lemma kept_modify_group:
  assumes "objects_keep keep m" "modify_group h path m = Some m'" "\<And>e d. h e = E_dataset d \<Longrightarrow> e = E_dataset d"
  shows "objects_keep keep m'"
  using assms(1,2) assms(3) unfolding objects_keep_def modify_group_def
  by (auto split: sum.splits if_splits) blast

lemma keep_sized:
  "dd_attrs d = [] \<Longrightarrow> dd_filter d = None \<Longrightarrow> \<not> is_vlen d \<Longrightarrow> checked_byte_len (dd_shape d) (dd_elem_size d) = Inr (length (dd_raw d)) \<Longrightarrow> keep d"
  using checked_byte_len_Inr by (intro keep_new) (simp_all add: data_ok_def)

lemma kept_insert_sized:
  assumes "objects_keep keep m" "insert_sized d w path m = Some m'"
    and "dd_attrs d = []" "dd_filter d = None" "\<not> is_vlen d" "dd_elem_size d = w"
  shows "objects_keep keep m'"
  using assms(2) kept_insert_dataset [OF assms(1)] keep_sized [OF assms(3-5)] assms(6)
  by (auto simp: insert_sized_def split: if_splits)

lemma kept_insert_encoded:
  "objects_keep keep m \<Longrightarrow> insert_encoded r raw shape path m = Some m' \<Longrightarrow> objects_keep keep m'"
  by (auto simp: insert_encoded_def dataset_desc_of_def is_vlen_def dd_elem_size_def
    elim!: kept_insert_sized split: sum.splits)

lemma kept_attach:
  assumes "objects_keep keep m" "attr_kept name kind" "modify_attrs (put_attr name kind) path m = Some m'"
  shows "objects_keep keep m'"
  using assms(1,3) keep_attach [OF _ assms(2)]
  by (auto simp: modify_attrs_def objects_keep_def split: sum.splits option.splits entry.splits if_splits)

lemma spec_create:
  assumes "objects_keep keep m" "spec (Create_dataset path shape dt) m = Some m'"
  shows "objects_keep keep m'"
  using assms(2) by (auto elim!: kept_insert_sized [OF assms(1)]
    simp: dataset_desc_of_def is_vlen_def dd_elem_size_def split: sum.splits option.splits if_splits)

lemma spec_unlimited:
  assumes "objects_keep keep m" "spec (Create_unlimited path shape cs dt dat) m = Some m'"
  shows "objects_keep keep m'"
  using assms(2) by (auto elim!: kept_insert_sized [OF assms(1)]
    simp: dataset_desc_of_def is_vlen_def dd_elem_size_def numeric_size split: sum.splits option.splits if_splits)

lemma spec_vlen:
  assumes "objects_keep keep m"
  shows "spec (Create_vlen_strings path strings) m = Some m' \<Longrightarrow> objects_keep keep m'"
    and "spec (Create_vlen_sequence path base seqs) m = Some m' \<Longrightarrow> objects_keep keep m'"
  by (auto elim!: kept_insert_dataset [OF assms] split: if_splits sum.splits
    intro!: keep_vlen simp: dataset_desc_of_def is_vlen_def)

lemma spec_fixed_strings:
  assumes "objects_keep keep m" "spec (Create_fixed_strings path w strings) m = Some m'"
  shows "objects_keep keep m'"
  using assms(2) by (auto elim!: kept_insert_dataset [OF assms(1)] split: if_splits
    intro!: keep_new simp: data_ok_def dataset_desc_of_def is_vlen_def dd_elem_size_def padded_concat byte_size_def)

lemma spec_changes:
  assumes "objects_keep keep m"
  shows "spec (Set_fill_value path et bs) m = Some m' \<Longrightarrow> objects_keep keep m'"
    and "spec (Set_compact path) m = Some m' \<Longrightarrow> objects_keep keep m'"
    and "spec (Set_chunking path cs) m = Some m' \<Longrightarrow> objects_keep keep m'"
  using keep_fill [unfolded fill_marker_def] keep_compact [unfolded compact_marker_def is_vlen_def] keep_chunking
  by (auto elim!: kept_modify_dataset [OF assms] split: if_splits sum.splits simp: Let_def)

lemma spec_filters:
  assumes "objects_keep keep m"
  shows "spec (Set_deflate path level) m = Some m' \<Longrightarrow> objects_keep keep m'"
    and "spec (Set_shuffle path) m = Some m' \<Longrightarrow> objects_keep keep m'"
    and "spec (Set_fletcher32 path) m = Some m' \<Longrightarrow> objects_keep keep m'"
  using keep_filter by (auto elim!: kept_modify_dataset [OF assms] split: if_splits)

lemma spec_others:
  assumes "objects_keep keep m"
  shows "spec (Create_group path) m = Some m' \<Longrightarrow> objects_keep keep m'"
    and "spec (Create_soft_link path target) m = Some m' \<Longrightarrow> objects_keep keep m'"
    and "spec (Create_hard_link path target) m = Some m' \<Longrightarrow> objects_keep keep m'"
    and "spec (Create_external_link path fl target) m = Some m' \<Longrightarrow> objects_keep keep m'"
    and "spec (Set_track_order path) m = Some m' \<Longrightarrow> objects_keep keep m'"
    and "spec (Set_link_storage path) m = Some m' \<Longrightarrow> objects_keep keep m'"
  by (auto elim!: kept_insert [OF assms] kept_modify_group [OF assms] split: if_splits entry.splits)

lemma spec_data:
  assumes "objects_keep keep m"
  shows "spec (Add_dataset path raw shape et) m = Some m' \<Longrightarrow> objects_keep keep m'"
    and "spec (Create_compound path fds sz rows shape) m = Some m' \<Longrightarrow> objects_keep keep m'"
    and "spec (Create_array path base dims dat shape) m = Some m' \<Longrightarrow> objects_keep keep m'"
    and "spec (Create_opaque path sz tag dat shape) m = Some m' \<Longrightarrow> objects_keep keep m'"
    and "spec (Create_bitfield path sz ord dat shape) m = Some m' \<Longrightarrow> objects_keep keep m'"
  using kept_insert_sized [OF assms] kept_insert_encoded [OF assms]
  by (simp_all add: dataset_desc_of_def is_vlen_def dd_elem_size_def)

lemmas spec_rules = spec_create spec_unlimited spec_vlen spec_fixed_strings spec_changes spec_filters spec_others spec_data

lemma spec_keeps:
  assumes "objects_keep keep m" "call_keeps attr_kept c" "spec c m = Some m'"
  shows "objects_keep keep m'"
proof (cases "\<exists>path name kind. c = Attach_attr path name kind")
  case True
  then show ?thesis using assms kept_attach by auto
next
  case False
  then show ?thesis using assms(3) by (cases c; hypsubst) (erule spec_rules [OF assms(1)] | blast)+
qed

lemma run_keeps:
  assumes "tree_ok root" "objects_keep keep (object_at root)" "call_keeps attr_kept c"
  shows "tree_ok (fst (run c root)) \<and> objects_keep keep (object_at (fst (run c root)))"
proof (cases "run c root")
  case (Pair root' r)
  then show ?thesis using run_implements [OF assms(1), of c] spec_keeps [OF assms(2,3)] assms(1,2)
    by (cases r) (auto simp: implements_def)
qed

lemma session_keeps:
  assumes "list_all (call_keeps attr_kept) cs"
  shows "tree_ok (session cs) \<and> objects_keep keep (object_at (session cs))"
proof -
  have "tree_ok root \<Longrightarrow> objects_keep keep (object_at root) \<Longrightarrow>
      tree_ok (fold (\<lambda>c root. fst (run c root)) cs root) \<and> objects_keep keep (object_at (fold (\<lambda>c root. fst (run c root)) cs root))" for root
    using assms by (induction cs arbitrary: root) (simp_all add: run_keeps)
  moreover have "objects_keep keep (object_at (group_new []))" by (simp add: objects_keep_def)
  ultimately show ?thesis using tree_ok_empty by (simp add: session_def)
qed

end

section \<open>Well-formed datasets\<close>

text \<open>What no call breaks.\<close>

definition storage_ok :: "dataset_desc \<Rightarrow> bool" where
  "storage_ok d \<longleftrightarrow>
     (dd_filter d \<noteq> None \<longrightarrow> dd_storage d \<noteq> Contiguous_st) \<and> (is_vlen d \<longrightarrow> dd_storage d = Contiguous_st \<and> dd_raw d = [])"

lemma storage_ok_filter: "storage_ok d \<Longrightarrow> snd (set_filter f d) = Inr x \<Longrightarrow> storage_ok (fst (set_filter f d))"
  by (auto simp: set_filter_def ensure_filterable_def ensure_chunked_def Let_def storage_ok_def is_vlen_def dd_chunked_def
    split: sum.splits if_splits storage.splits)

interpretation storage: dataset_invariant storage_ok "\<lambda>name kind. True"
proof unfold_locales
  show "storage_ok (fst (set_filter f d))" if "storage_ok d" "snd (set_filter f d) = Inr x" for d f x
    using that by (rule storage_ok_filter)
qed (auto simp: storage_ok_def is_vlen_def ensure_filterable_def split: if_splits)





















section \<open>Numeric data comes back\<close>

definition half_value :: "32 word \<Rightarrow> bool" where
  "half_value w \<longleftrightarrow> (\<exists>h<65536. f16_to_f32 h = Some (unat w))"

text \<open>
  The reader of the type returns the values; of half precision, the values that are half-precision
  numbers, the others rounded.
\<close>

fun reads_back :: "numeric_values \<Rightarrow> dataset \<Rightarrow> bool" where
  "reads_back (NV_F16 v) ds \<longleftrightarrow>
     (\<exists>u. as_f16 ds = Inr (map Some u) \<and> length u = length v \<and> (\<forall>i<length v. half_value (v ! i) \<longrightarrow> u ! i = v ! i))"
| "reads_back (NV_F32 v) ds \<longleftrightarrow> as_f32 ds = Inr v" | "reads_back (NV_F64 v) ds \<longleftrightarrow> as_f64 ds = Inr v"
| "reads_back (NV_I8 v) ds \<longleftrightarrow> as_i8 ds = Inr v" | "reads_back (NV_I16 v) ds \<longleftrightarrow> as_i16 ds = Inr v"
| "reads_back (NV_I32 v) ds \<longleftrightarrow> as_i32 ds = Inr v" | "reads_back (NV_I64 v) ds \<longleftrightarrow> as_i64 ds = Inr v"
| "reads_back (NV_U8 v) ds \<longleftrightarrow> as_u8 ds = Inr v" | "reads_back (NV_U16 v) ds \<longleftrightarrow> as_u16 ds = Inr v"
| "reads_back (NV_U32 v) ds \<longleftrightarrow> as_u32_vec ds = Inr v" | "reads_back (NV_U64 v) ds \<longleftrightarrow> as_u64 ds = Inr v"

lemma pack_bytes: "pack_all 1 ord (v :: 8 word list) = v"
proof -
  have "to_order 1 ord (unat b) = [b]" for b :: "8 word"
    by (cases ord) (simp_all add: to_order_def)
  then show ?thesis by (simp add: pack_all_def)
qed

lemma half_bits: "\<exists>u. length u = length v \<and>
    map (\<lambda>c. map_option word_of_nat (f16_to_f32 (unat (c :: 16 word)))) (map (\<lambda>w. word_of_nat (f32_to_f16 (unat w))) v) = map Some u \<and>
    (\<forall>i<length v. half_value (v ! i) \<longrightarrow> u ! i = v ! i)" for v :: "32 word list"
proof -
  have "\<exists>u. map_option word_of_nat (f16_to_f32 (unat (word_of_nat (f32_to_f16 (unat w)) :: 16 word))) = Some u \<and> (half_value w \<longrightarrow> u = w)"
    for w :: "32 word"
  proof -
    let ?h = "unat (word_of_nat (f32_to_f16 (unat w)) :: 16 word)"
    have "?h < 65536" using unsigned_less [of "word_of_nat (f32_to_f16 (unat w)) :: 16 word"] by simp
    then obtain x where x: "f16_to_f32 ?h = Some x" using half_round_trip by blast
    have "word_of_nat x = w" if half: "half_value w"
    proof -
      obtain h where h: "h < 65536" "f16_to_f32 h = Some (unat w)" using half by (auto simp: half_value_def)
      then have "f32_to_f16 (unat w) = h" using half_round_trip [OF h(1)] by auto
      then have "?h = h" using h(1) by (simp add: unsigned_of_nat take_bit_nat_eq_self)
      then have "x = unat w" using x h(2) by simp
      then show ?thesis by simp
    qed
    then show ?thesis using x by simp
  qed
  then obtain f where f: "\<And>w :: 32 word. map_option word_of_nat (f16_to_f32 (unat (word_of_nat (f32_to_f16 (unat w)) :: 16 word))) = Some (f w)"
    "\<And>w. half_value w \<longrightarrow> f w = w" by metis
  then show ?thesis by (intro exI [of _ "map f v"]) (simp add: comp_def)
qed

lemma dtype_of_num:
  "dtype_of (as_elem n ord) =
     (case num_spec n ord of Spec_Fixed sz sg ord \<Rightarrow> Int_t sz sg ord | Spec_FloatIeee sz ord \<Rightarrow> Float sz ord
      | _ \<Rightarrow> dtype_of (as_elem n ord))"
  by (cases ord; cases n) (simp_all add: dtype_of_def)

lemma unpack_words:
  "map (from_order ord) (chunks_exact 2 (pack_all 2 ord (v2 :: 16 word list))) = v2"
  "map (from_order ord) (chunks_exact 4 (pack_all 4 ord (v4 :: 32 word list))) = v4"
  "map (from_order ord) (chunks_exact 8 (pack_all 8 ord (v8 :: 64 word list))) = v8"
  by (rule unpack_all; simp)+

lemma packed_reads_back:
  assumes "dset_dtype ds = dtype_of (as_elem (nv_num_type vals) ord)" "dset_data ds = nv_to_bytes ord vals"
  shows "reads_back vals ds"
proof (cases vals)
  case (NV_F16 v)
  let ?h = "map (\<lambda>w. word_of_nat (f32_to_f16 (unat w)) :: 16 word) v"
  have ty: "dset_dtype ds = Float 2 ord" using assms(1) by (cases ord) (simp_all add: NV_F16 dtype_of_def)
  have "as_f16 ds = Inr (map (\<lambda>c. map_option word_of_nat (f16_to_f32 (unat (c :: 16 word)))) (map (from_order ord) (chunks_exact 2 (pack_all 2 ord ?h))))"
    using assms(2) by (simp add: as_f16_def ty NV_F16 comp_def)
  moreover have "map (from_order ord) (chunks_exact 2 (pack_all 2 ord ?h)) = ?h" by (rule unpack_all) simp_all
  ultimately have "as_f16 ds = Inr (map (\<lambda>c. map_option word_of_nat (f16_to_f32 (unat c))) ?h)" by (simp only:)
  then show ?thesis using half_bits [of v] by (auto simp: NV_F16)
qed (use assms in \<open>simp add: dtype_of_num unpack_words pack_bytes [unfolded One_nat_def] as_f32_def as_f64_def as_i8_def as_i16_def
    as_i32_def as_i64_def as_u8_def as_u16_def as_u32_vec_def as_u64_def del: map_map\<close>)+

lemma inserted_object:
  assumes "insert_object b e path m = Some m'"
  shows "\<exists>segs. split_path path = Inr segs \<and> m' segs = Some (e (last segs))"
proof (cases "split_path path")
  case (Inr segs)
  then show ?thesis using assms by (cases "free_path m segs") (auto simp: insert_object_def)
qed (use assms in \<open>simp add: insert_object_def\<close>)

text \<open>
  C8. Numeric values of any of the eleven types, written in either byte order: the dataset that
  appears under the path has the shape given, and the matching decoder, applied to its data under its
  datatype, returns the values; half-precision numbers are returned exactly.
\<close>

theorem numeric_data_round_trip:
  assumes "tree_ok root" "write_dataset_numeric root path vals ord shape = (root', Inr ())"
  shows "\<exists>segs d. split_path path = Inr segs \<and> object_at root' segs = Some (E_dataset d) \<and> dd_shape d = shape \<and>
    (\<forall>ds. dset_dtype ds = dtype_of (dd_elem_type d) \<and> dset_data ds = dd_raw d \<longrightarrow> reads_back vals ds)"
proof -
  let ?d = "dataset_desc_of [] (nv_to_bytes ord vals) shape (as_elem (nv_num_type vals) ord)"
  have "run (Add_dataset path (nv_to_bytes ord vals) shape (as_elem (nv_num_type vals) ord)) root = (root', Inr ())"
    using assms(2) by (simp add: write_dataset_numeric_def)
  then have "insert_dataset ?d path (object_at root) = Some (object_at root')"
    using run_implements [OF assms(1), of "Add_dataset path (nv_to_bytes ord vals) shape (as_elem (nv_num_type vals) ord)"]
    by (auto simp: implements_def insert_sized_def split: if_splits)
  then obtain segs where "split_path path = Inr segs" "object_at root' segs = Some (E_dataset (?d\<lparr>dd_name := last segs\<rparr>))"
    unfolding insert_dataset_def using inserted_object by blast
  then show ?thesis using packed_reads_back by (intro exI conjI) (auto simp: dataset_desc_of_def)
qed

theorem numeric_data_round_trip_witness:
  "\<exists>segs d. split_path [0x78] = Inr segs \<and>
    object_at (fst (write_dataset_numeric (group_new []) [0x78] (NV_I16 [258, 0xFFFF]) Big [2])) segs = Some (E_dataset d) \<and> dd_shape d = [2] \<and>
    (\<forall>ds. dset_dtype ds = dtype_of (dd_elem_type d) \<and> dset_data ds = dd_raw d \<longrightarrow> reads_back (NV_I16 [258, 0xFFFF]) ds)"
proof (rule numeric_data_round_trip [OF tree_ok_empty])
  have "snd (write_dataset_numeric (group_new []) [0x78] (NV_I16 [258, 0xFFFF]) Big [2]) = Inr ()"
    by (simp add: write_dataset_numeric_def add_dataset_def checked_def checked_byte_len_def checked_mul_def byte_size_def
      push_at_def insertion_point_def and_upd_def split_path_def strip_slash_def check_segment_def name_taken_def group_new_def Let_def)
  then show "write_dataset_numeric (group_new []) [0x78] (NV_I16 [258, 0xFFFF]) Big [2] =
      (fst (write_dataset_numeric (group_new []) [0x78] (NV_I16 [258, 0xFFFF]) Big [2]), Inr ())"
    by (metis prod.collapse)
qed

end
