(* ===== verification/Write_Oh.thy ===== *)
theory Write_Oh
  imports Write_Tree Write_Dense Messages Object_Header_V1
begin

text \<open>
  The writer's object headers, \<^verbatim>\<open>oxih5/src/write/oh.rs\<close>: the message list of a group or a dataset,
  the size of each message, and the emission of the whole header. What is emitted is the header of
  \<open>Object_Header_V1\<close>, so the reader's parser returns its messages, and each message of a dataset
  is read back by the parser of its type.
\<close>

section \<open>Link storage\<close>

text \<open>The part of a group's plan (\<^verbatim>\<open>plan.rs\<close>) that its object header depends on.\<close>

datatype target_object =
    To_dataset nat
  | To_group nat
  | To_link nat

record planned_link =
  pl_msg :: link_msg
  pl_target :: target_object

record link_storage =
  ls_links :: "planned_link list"
  ls_info :: link_info
  ls_dense :: "dense_storage option"

definition header_links :: "link_storage \<Rightarrow> planned_link list" where
  "header_links s = (case ls_dense s of Some _ \<Rightarrow> [] | None \<Rightarrow> ls_links s)"

definition fractal_heap_addr :: "link_storage \<Rightarrow> nat" where
  "fractal_heap_addr s = (case ls_dense s of None \<Rightarrow> u64_max | Some dense \<Rightarrow> fw_header_addr (ds_heap dense))"

definition name_index_addr :: "link_storage \<Rightarrow> nat" where
  "name_index_addr s = (case ls_dense s of None \<Rightarrow> u64_max | Some dense \<Rightarrow> iw_header_addr (ds_index dense))"

section \<open>Messages\<close>

abbreviation (input) OH_PREFIX :: nat where "OH_PREFIX \<equiv> 16"
abbreviation (input) SYMBOL_TABLE_BODY :: nat where "SYMBOL_TABLE_BODY \<equiv> 16"
abbreviation (input) FILL_VALUE_BODY :: nat where "FILL_VALUE_BODY \<equiv> 8"
abbreviation (input) LAYOUT_CONTIGUOUS_BODY :: nat where "LAYOUT_CONTIGUOUS_BODY \<equiv> 24"
abbreviation (input) LAYOUT_CHUNKED_PREFIX :: nat where "LAYOUT_CHUNKED_PREFIX \<equiv> 11"
abbreviation (input) LAYOUT_COMPACT_PREFIX :: nat where "LAYOUT_COMPACT_PREFIX \<equiv> 4"
abbreviation (input) DATASPACE_PREFIX :: nat where "DATASPACE_PREFIX \<equiv> 8"
abbreviation (input) MSG_HDR_SIZE :: nat where "MSG_HDR_SIZE \<equiv> 8"

definition msg_total :: "nat \<Rightarrow> nat res" where
  "msg_total sz = and_then (pad8 sz) (uadd MSG_HDR_SIZE)"

record oh_addrs =
  oa_btree :: nat
  oa_heap :: nat
  oa_data :: nat
  oa_fractal_heap :: nat
  oa_name_index :: nat

datatype oh_msg =
    OM_SymbolTable
  | OM_LinkInfo link_info
  | OM_GroupInfo
  | OM_Link link_msg
  | OM_Dataspace "nat list" bool
  | OM_Datatype elem_type
  | OM_FillValue bool "bytes option"
  | OM_LayoutContiguous nat
  | OM_LayoutChunked "nat list"
  | OM_LayoutCompact bytes
  | OM_FilterPipeline filter_choice nat
  | OM_Attr resolved_attr
  | OM_DatatypeBody bytes

fun oh_msg_type :: "oh_msg \<Rightarrow> nat" where
  "oh_msg_type OM_SymbolTable = 0x11"
| "oh_msg_type (OM_LinkInfo _) = 0x02"
| "oh_msg_type OM_GroupInfo = 0x0A"
| "oh_msg_type (OM_Link _) = 0x06"
| "oh_msg_type (OM_Dataspace _ _) = 0x01"
| "oh_msg_type (OM_Datatype _) = 0x03"
| "oh_msg_type (OM_DatatypeBody _) = 0x03"
| "oh_msg_type (OM_FillValue _ _) = 0x05"
| "oh_msg_type (OM_LayoutContiguous _) = 0x08"
| "oh_msg_type (OM_LayoutChunked _) = 0x08"
| "oh_msg_type (OM_LayoutCompact _) = 0x08"
| "oh_msg_type (OM_FilterPipeline _ _) = 0x0B"
| "oh_msg_type (OM_Attr _) = 0x0C"

definition oh_flags :: "oh_msg \<Rightarrow> byte" where
  "oh_flags msg =
     (case msg of
        OM_Datatype _ \<Rightarrow> 1 | OM_DatatypeBody _ \<Rightarrow> 1 | OM_FillValue _ _ \<Rightarrow> 1 | OM_FilterPipeline _ _ \<Rightarrow> 1 | OM_GroupInfo \<Rightarrow> 1
      | _ \<Rightarrow> 0)"

definition oh_body_size :: "oh_msg \<Rightarrow> nat res" where
  "oh_body_size msg =
     (case msg of
        OM_SymbolTable \<Rightarrow> Inr SYMBOL_TABLE_BODY
      | OM_LinkInfo info \<Rightarrow> Inr (link_info_body_size info)
      | OM_GroupInfo \<Rightarrow> Inr GROUP_INFO_BODY
      | OM_Link m \<Rightarrow> link_body_size m
      | OM_Dataspace dims _ \<Rightarrow> Inr (DATASPACE_PREFIX + length dims * 8 * 2)
      | OM_Datatype t \<Rightarrow> Inr (dt_body_size t)
      | OM_DatatypeBody body \<Rightarrow> Inr (length body)
      | OM_FillValue _ v \<Rightarrow> Inr (FILL_VALUE_BODY + (case v of None \<Rightarrow> 0 | Some bs \<Rightarrow> length bs))
      | OM_LayoutContiguous _ \<Rightarrow> Inr LAYOUT_CONTIGUOUS_BODY
      | OM_LayoutChunked chunk_dims \<Rightarrow> Inr (LAYOUT_CHUNKED_PREFIX + length chunk_dims * 4)
      | OM_LayoutCompact dat \<Rightarrow> Inr (LAYOUT_COMPACT_PREFIX + length dat)
      | OM_FilterPipeline f _ \<Rightarrow> Inr (body_size f)
      | OM_Attr a \<Rightarrow> attr_body_size a)"

definition oh_msg_total :: "oh_msg \<Rightarrow> nat res" where
  "oh_msg_total msg = and_then (oh_body_size msg) msg_total"

definition write_dataspace_body :: "bytes \<Rightarrow> nat \<Rightarrow> nat \<Rightarrow> nat list \<Rightarrow> bool \<Rightarrow> (bytes \<times> nat) res" where
  "write_dataspace_body buf start body dims unlimited_dim0 =
     and_then (fill_zero buf start body) (\<lambda>buf.
     and_then (put_elem buf start 1) (\<lambda>buf.
     and_then (narrow 256 (length dims)) (\<lambda>rank.
     and_then (put_elem buf (start + 1) (of_nat rank)) (\<lambda>buf.
     and_then (put_elem buf (start + 2) 1) (\<lambda>buf.
     let max_base = start + DATASPACE_PREFIX + length dims * 8 in
     and_then (fold_res (\<lambda>(i, dim) buf.
         and_then (write_u64_le buf (start + DATASPACE_PREFIX + i * 8) dim) (\<lambda>buf.
           write_u64_le buf (max_base + i * 8) (if unlimited_dim0 \<and> i = 0 then u64_max else dim)))
       (enumerate 0 dims) buf) (\<lambda>buf. Inr (buf, body)))))))"

definition write_fill_value_body :: "bytes \<Rightarrow> nat \<Rightarrow> nat \<Rightarrow> bool \<Rightarrow> bytes option \<Rightarrow> (bytes \<times> nat) res" where
  "write_fill_value_body buf start body incremental v =
     and_then (fill_zero buf start body) (\<lambda>buf.
     and_then (put_elem buf start 2) (\<lambda>buf.
     and_then (put_elem buf (start + 1) (if incremental then 3 else 2)) (\<lambda>buf.
     and_then (put_elem buf (start + 2) 2) (\<lambda>buf.
     and_then (put_elem buf (start + 3) 1) (\<lambda>buf.
     let v = (case v of None \<Rightarrow> [] | Some bs \<Rightarrow> bs) in
     and_then (narrow u32_lim (length v)) (\<lambda>n.
     and_then (write_u32_le buf (start + 4) n) (\<lambda>buf.
     and_then (put_range buf (start + 8) v) (\<lambda>buf. Inr (buf, body)))))))))"

definition write_contiguous_body :: "bytes \<Rightarrow> nat \<Rightarrow> nat \<Rightarrow> nat \<Rightarrow> (bytes \<times> nat) res" where
  "write_contiguous_body buf start data_addr sz =
     and_then (fill_zero buf start LAYOUT_CONTIGUOUS_BODY) (\<lambda>buf.
     and_then (put_elem buf start 3) (\<lambda>buf.
     and_then (put_elem buf (start + 1) 1) (\<lambda>buf.
     and_then (write_u64_le buf (start + 2) (if sz = 0 then u64_max else data_addr)) (\<lambda>buf.
     and_then (write_u64_le buf (start + 10) sz) (\<lambda>buf. Inr (buf, LAYOUT_CONTIGUOUS_BODY))))))"

definition write_chunked_body :: "bytes \<Rightarrow> nat \<Rightarrow> nat \<Rightarrow> nat \<Rightarrow> nat list \<Rightarrow> (bytes \<times> nat) res" where
  "write_chunked_body buf start body btree chunk_dims =
     and_then (fill_zero buf start body) (\<lambda>buf.
     and_then (put_elem buf start 3) (\<lambda>buf.
     and_then (put_elem buf (start + 1) 2) (\<lambda>buf.
     and_then (narrow 256 (length chunk_dims)) (\<lambda>rank.
     and_then (put_elem buf (start + 2) (of_nat rank)) (\<lambda>buf.
     and_then (write_u64_le buf (start + 3) btree) (\<lambda>buf.
     and_then (fold_res (\<lambda>(i, extent) buf. write_u32_le buf (start + LAYOUT_CHUNKED_PREFIX + i * 4) extent)
       (enumerate 0 chunk_dims) buf) (\<lambda>buf. Inr (buf, body))))))))"

definition write_compact_body :: "bytes \<Rightarrow> nat \<Rightarrow> nat \<Rightarrow> bytes \<Rightarrow> (bytes \<times> nat) res" where
  "write_compact_body buf start body dat =
     and_then (fill_zero buf start body) (\<lambda>buf.
     and_then (put_elem buf start 3) (\<lambda>buf.
     and_then (put_elem buf (start + 1) 0) (\<lambda>buf.
     and_then (narrow 65536 (length dat)) (\<lambda>n.
     and_then (write_u16_le buf (start + 2) n) (\<lambda>buf.
     and_then (put_range buf (start + LAYOUT_COMPACT_PREFIX) dat) (\<lambda>buf. Inr (buf, body)))))))"

definition oh_write_body :: "bytes \<Rightarrow> nat \<Rightarrow> oh_addrs \<Rightarrow> oh_msg \<Rightarrow> (bytes \<times> nat) res" where
  "oh_write_body buf start addrs msg =
     (case msg of
        OM_SymbolTable \<Rightarrow>
          and_then (fill_zero buf start SYMBOL_TABLE_BODY) (\<lambda>buf.
          and_then (write_u64_le buf start (oa_btree addrs)) (\<lambda>buf.
          and_then (write_u64_le buf (start + 8) (oa_heap addrs)) (\<lambda>buf. Inr (buf, SYMBOL_TABLE_BODY))))
      | OM_LinkInfo info \<Rightarrow> link_info_write_body buf start info (oa_fractal_heap addrs) (oa_name_index addrs)
      | OM_GroupInfo \<Rightarrow> write_group_info_body buf start
      | OM_Link m \<Rightarrow> link_write_body buf start m
      | OM_DatatypeBody body \<Rightarrow> and_then (put_range buf start body) (\<lambda>buf. Inr (buf, length body))
      | OM_Dataspace dims unlimited_dim0 \<Rightarrow>
          and_then (oh_body_size msg) (\<lambda>body. write_dataspace_body buf start body dims unlimited_dim0)
      | OM_Datatype t \<Rightarrow> write_datatype_body buf start t
      | OM_FillValue incremental v \<Rightarrow>
          and_then (oh_body_size msg) (\<lambda>body. write_fill_value_body buf start body incremental v)
      | OM_LayoutContiguous sz \<Rightarrow> write_contiguous_body buf start (oa_data addrs) sz
      | OM_LayoutChunked chunk_dims \<Rightarrow>
          and_then (oh_body_size msg) (\<lambda>body. write_chunked_body buf start body (oa_btree addrs) chunk_dims)
      | OM_LayoutCompact dat \<Rightarrow> and_then (oh_body_size msg) (\<lambda>body. write_compact_body buf start body dat)
      | OM_FilterPipeline f elem_size \<Rightarrow> write_body buf start f elem_size
      | OM_Attr a \<Rightarrow> attr_write_body a buf start)"

section \<open>Headers\<close>

definition oh_size :: "oh_msg list \<Rightarrow> nat res" where
  "oh_size msgs = fold_res (\<lambda>msg tot. and_then (oh_msg_total msg) (uadd tot)) msgs OH_PREFIX"

definition write_oh_msg :: "oh_addrs \<Rightarrow> oh_msg \<Rightarrow> bytes \<times> nat \<Rightarrow> (bytes \<times> nat) res" where
  "write_oh_msg addrs msg = (\<lambda>(buf, pos).
     and_then (oh_body_size msg) (\<lambda>body_size.
     and_then (pad8 body_size) (\<lambda>declared_size.
     and_then (narrow 65536 declared_size) (\<lambda>size_field.
     and_then (write_msg_header buf pos (oh_msg_type msg) size_field (oh_flags msg)) (\<lambda>buf.
     let body_start = pos + MSG_HDR_SIZE in
     and_then (oh_write_body buf body_start addrs msg) (\<lambda>(buf, wrote).
     and_then (check_size wrote body_size) (\<lambda>_.
     and_then (oh_msg_total msg) (\<lambda>tot.
     let end_pos = pos + tot in
     and_then (fill_zero buf (body_start + body_size) (end_pos - body_start - body_size)) (\<lambda>buf.
       Inr (buf, end_pos))))))))))"

definition write_oh :: "bytes \<Rightarrow> nat \<Rightarrow> oh_msg list \<Rightarrow> oh_addrs \<Rightarrow> nat \<Rightarrow> (bytes \<times> nat) res" where
  "write_oh buf addr msgs addrs refcount =
     and_then (oh_size msgs) (\<lambda>tot.
     let header_data_size = tot - OH_PREFIX in
     and_then (fill_zero buf addr OH_PREFIX) (\<lambda>buf.
     and_then (put_elem buf addr 1) (\<lambda>buf.
     and_then (narrow 65536 (length msgs)) (\<lambda>n.
     and_then (write_u16_le buf (addr + 2) n) (\<lambda>buf.
     and_then (write_u32_le buf (addr + 4) refcount) (\<lambda>buf.
     and_then (narrow u32_lim header_data_size) (\<lambda>n.
     and_then (write_u32_le buf (addr + 8) n) (\<lambda>buf.
     and_then (write_u32_le buf (addr + 12) 0) (\<lambda>buf.
     and_then (fold_res (write_oh_msg addrs) msgs (buf, addr + OH_PREFIX)) (\<lambda>(buf, pos).
     and_then (check_size (pos - addr) tot) (\<lambda>_. Inr (buf, tot))))))))))))"

section \<open>Message lists\<close>

definition group_oh_msgs :: "resolved_attr list \<Rightarrow> oh_msg list" where
  "group_oh_msgs attrs = OM_SymbolTable # map OM_Attr attrs"

definition link_group_oh_msgs :: "link_storage \<Rightarrow> resolved_attr list \<Rightarrow> oh_msg list res" where
  "link_group_oh_msgs s attrs =
     (let msgs = [OM_LinkInfo (ls_info s), OM_GroupInfo] @ map (\<lambda>link. OM_Link (pl_msg link)) (header_links s) @ map OM_Attr attrs in
      and_then (map_res oh_body_size msgs) (\<lambda>_. Inr msgs))"

definition dataset_oh_msgs :: "dataset_desc \<Rightarrow> nat list \<Rightarrow> resolved_attr list \<Rightarrow> oh_msg list res" where
  "dataset_oh_msgs ds chunk_dims attrs =
     (let is_chunked = (dd_chunked ds \<noteq> None) in
      and_then (case (compact_layout_data (dd_attrs ds), is_chunked) of
          (Some dat, _) \<Rightarrow> Inr (OM_LayoutCompact dat)
        | (None, True) \<Rightarrow> Inr (OM_LayoutChunked chunk_dims)
        | (None, False) \<Rightarrow> and_then (dd_data_len ds) (\<lambda>n. Inr (OM_LayoutContiguous n))) (\<lambda>layout.
      Inr ([OM_Dataspace (dd_shape ds) (dd_unlimited_dim0 ds),
            (case dd_datatype_body ds of Some body \<Rightarrow> OM_DatatypeBody body | None \<Rightarrow> OM_Datatype (dd_elem_type ds)),
            OM_FillValue is_chunked (fill_value_bytes (dd_attrs ds))]
         @ (case dd_filter ds of
              Some f \<Rightarrow> if is_active f then [OM_FilterPipeline f (dd_elem_size ds)] else []
            | None \<Rightarrow> [])
         @ [layout] @ map OM_Attr attrs)))"

section \<open>The bytes of a message\<close>

text \<open>A message body that takes the bytes \<open>bs\<close> wherever it is written.\<close>

definition oh_body :: "oh_addrs \<Rightarrow> oh_msg \<Rightarrow> bytes \<Rightarrow> bool" where
  "oh_body addrs msg bs \<longleftrightarrow> oh_body_size msg = Inr (length bs) \<and>
     (\<forall>buf start. start + length bs \<le> length buf \<longrightarrow> oh_write_body buf start addrs msg = Inr (splice buf start bs, length bs))"

definition enc_u64s :: "nat list \<Rightarrow> bytes" where
  "enc_u64s xs = concat (map (to_le 8) xs)"

definition max_dims_of :: "nat list \<Rightarrow> bool \<Rightarrow> nat list" where
  "max_dims_of dims u = (case dims of [] \<Rightarrow> [] | d # ds \<Rightarrow> (if u then u64_max else d) # ds)"

fun enc_oh_body :: "oh_addrs \<Rightarrow> oh_msg \<Rightarrow> bytes" where
  "enc_oh_body addrs OM_SymbolTable = to_le 8 (oa_btree addrs) @ to_le 8 (oa_heap addrs)"
| "enc_oh_body addrs (OM_LinkInfo info) = enc_link_info info (oa_fractal_heap addrs) (oa_name_index addrs)"
| "enc_oh_body addrs OM_GroupInfo = [0, 0]"
| "enc_oh_body addrs (OM_Link m) =
     (case name_len_width (length (lm_name m)) of Inr (width, bits) \<Rightarrow> enc_link width (link_flags bits m) m | Inl _ \<Rightarrow> [])"
| "enc_oh_body addrs (OM_Dataspace dims u) = [1, of_nat (length dims), 1, 0, 0, 0, 0, 0] @ enc_u64s dims @ enc_u64s (max_dims_of dims u)"
| "enc_oh_body addrs (OM_Datatype t) = enc_elem_padded t"
| "enc_oh_body addrs (OM_DatatypeBody body) = body"
| "enc_oh_body addrs (OM_FillValue incremental v) =
     (let v = (case v of None \<Rightarrow> [] | Some bs \<Rightarrow> bs) in [2, if incremental then 3 else 2, 2, 1] @ to_le 4 (length v) @ v)"
| "enc_oh_body addrs (OM_LayoutContiguous sz) =
     [3, 1] @ to_le 8 (if sz = 0 then u64_max else oa_data addrs) @ to_le 8 sz @ replicate 6 0"
| "enc_oh_body addrs (OM_LayoutChunked cs) = [3, 2, of_nat (length cs)] @ to_le 8 (oa_btree addrs) @ concat (map (to_le 4) cs)"
| "enc_oh_body addrs (OM_LayoutCompact dat) = [3, 0] @ to_le 2 (length dat) @ dat"
| "enc_oh_body addrs (OM_FilterPipeline f es) = enc_pipeline_v1 (descriptors f (es mod u32_lim))"
| "enc_oh_body addrs (OM_Attr a) = (case vector_len (ra_kind a) of Inr v \<Rightarrow> enc_attr a v | Inl _ \<Rightarrow> [])"

text \<open>What a message must satisfy to fit its fields.\<close>

fun oh_msg_ok :: "oh_msg \<Rightarrow> bool" where
  "oh_msg_ok (OM_Link m) \<longleftrightarrow> length (lm_name m) < u32_lim \<and> valid_utf8 (lm_name m) \<and> value_wf (lm_value m) \<and> value_fits (lm_value m)"
| "oh_msg_ok (OM_Dataspace dims u) \<longleftrightarrow> length dims < 256 \<and> (\<forall>d\<in>set dims. d < u64_lim)"
| "oh_msg_ok (OM_Datatype t) \<longleftrightarrow> elem_ok t"
| "oh_msg_ok (OM_FillValue _ v) \<longleftrightarrow> (case v of None \<Rightarrow> True | Some bs \<Rightarrow> length bs < 65536)"
| "oh_msg_ok (OM_LayoutContiguous sz) \<longleftrightarrow> sz < u64_lim"
| "oh_msg_ok (OM_LayoutChunked cs) \<longleftrightarrow> length cs < 256 \<and> (\<forall>c\<in>set cs. 0 < c \<and> c < u32_lim)"
| "oh_msg_ok (OM_LayoutCompact dat) \<longleftrightarrow> length dat < 65536"
| "oh_msg_ok (OM_FilterPipeline f es) \<longleftrightarrow> choice_ok f \<and> es < u32_lim"
| "oh_msg_ok (OM_Attr a) \<longleftrightarrow> name_ok (ra_name a) \<and> kind_wf (ra_kind a) \<and> (\<exists>n. attr_body_size a = Inr n)"
| "oh_msg_ok _ \<longleftrightarrow> True"

definition addrs_ok :: "oh_addrs \<Rightarrow> bool" where
  "addrs_ok a \<longleftrightarrow> oa_btree a < u64_lim \<and> oa_heap a < u64_lim \<and> oa_data a < u64_max \<and> oa_fractal_heap a < u64_lim \<and> oa_name_index a < u64_lim"

lemma length_enc_u64s [simp]: "length (enc_u64s xs) = length xs * 8"
  unfolding enc_u64s_def by (rule length_concat_const) simp

lemma splice_mid: "length xs = k \<Longrightarrow> length ys = n \<Longrightarrow> splice (xs @ replicate (n + m) 0 @ zs) k ys = xs @ ys @ replicate m 0 @ zs"
  by (simp add: splice_def replicate_add)

text \<open>The two vectors of a dataspace, written side by side.\<close>

lemma dims_loop:
  fixes dims :: "nat list" and k m :: nat and pre :: bytes and mx :: "nat \<Rightarrow> nat \<Rightarrow> nat"
  assumes "length pre = k * 8" "length post = k * 8" "m = start + 8 + (k + length dims) * 8" "length h = 8"
    and "start + 8 + (k + length dims) * 16 \<le> length buf"
  shows "fold_res (\<lambda>(i, dim) buf. and_then (write_u64_le buf (start + 8 + i * 8) dim) (\<lambda>buf.
           write_u64_le buf (m + i * 8) (mx i dim)))
       (enumerate k dims)
       (splice buf start (h @ pre @ replicate (length dims * 8) 0 @ post @ replicate (length dims * 8) 0))
     = Inr (splice buf start (h @ pre @ enc_u64s dims @ post @ enc_u64s (map (\<lambda>(i, d). mx i d) (enumerate k dims))))"
  using assms
proof (induction dims arbitrary: k pre post)
  case (Cons d dims)
  let ?z = "replicate (length dims * 8) (0 :: byte)" and ?d = "to_le 8 d" and ?e = "to_le 8 (mx k d)"
  have z: "replicate (length (d # dims) * 8) (0 :: byte) = replicate (8 + length dims * 8) 0" by simp
  let ?x0 = "h @ pre @ replicate (8 + length dims * 8) 0 @ post @ replicate (8 + length dims * 8) 0"
  let ?x1 = "h @ pre @ ?d @ ?z @ post @ replicate (8 + length dims * 8) 0"
  let ?x2 = "h @ pre @ ?d @ ?z @ post @ ?e @ ?z"
  have s1: "splice ?x0 (8 + k * 8) ?d = ?x1"
    using splice_mid [of "h @ pre" "8 + k * 8" ?d 8 "length dims * 8" "post @ replicate (8 + length dims * 8) 0"] Cons.prems(1,4) by simp
  have s2: "splice ?x1 (8 + (k + Suc (length dims)) * 8 + k * 8) ?e = ?x2"
    using splice_mid [of "h @ pre @ ?d @ ?z @ post" "8 + (k + Suc (length dims)) * 8 + k * 8" ?e 8 "length dims * 8" "[]"] Cons.prems(1,2,4)
    by (simp add: algebra_simps)
  have w1: "write_u64_le (splice buf start ?x0) (start + 8 + k * 8) d = Inr (splice buf start ?x1)"
    using put_range_splice_inside [of start ?x0 buf "8 + k * 8" ?d] s1 Cons.prems(1,2,4,5) by (simp add: write_u64_le_def add.assoc del: to_le.simps)
  have w2: "write_u64_le (splice buf start ?x1) (m + k * 8) (mx k d) = Inr (splice buf start ?x2)"
    using put_range_splice_inside [of start ?x1 buf "8 + (k + Suc (length dims)) * 8 + k * 8" ?e] s2 Cons.prems(1-5)
    by (simp add: write_u64_le_def add.assoc del: to_le.simps)
  have "fold_res (\<lambda>(i, dim) buf. and_then (write_u64_le buf (start + 8 + i * 8) dim) (\<lambda>buf.
           write_u64_le buf (m + i * 8) (mx i dim)))
       (enumerate (Suc k) dims) (splice buf start (h @ (pre @ ?d) @ ?z @ (post @ ?e) @ ?z))
     = Inr (splice buf start (h @ (pre @ ?d) @ enc_u64s dims @ (post @ ?e) @ enc_u64s (map (\<lambda>(i, d). mx i d) (enumerate (Suc k) dims))))"
    using Cons.prems by (intro Cons.IH) (simp_all del: to_le.simps)
  then show ?case using w1 w2 unfolding z by (simp add: enc_u64s_def del: to_le.simps replicate.simps)
qed (simp add: enc_u64s_def)

lemma max_dims_enumerate:
  "map (\<lambda>(i, d). if u \<and> i = 0 then u64_max else d) (enumerate 0 dims) = max_dims_of dims u"
proof (cases dims)
  case (Cons d ds)
  have "map (\<lambda>(i, d). if u \<and> i = 0 then u64_max else d) (enumerate (Suc k) ds) = ds" for k
    by (induction ds arbitrary: k) auto
  then show ?thesis by (simp add: max_dims_of_def Cons)
qed (simp add: max_dims_of_def)

lemma length_max_dims [simp]: "length (max_dims_of dims u) = length dims"
  by (simp add: max_dims_of_def split: list.split)

text \<open>A column of four-byte integers.\<close>

lemma column_loop:
  assumes "base + k * 4 = a + length xs" "a + length xs + length cs * 4 \<le> length buf"
  shows "fold_res (\<lambda>(i, c) buf. write_u32_le buf (base + i * 4) c) (enumerate k cs) (splice buf a (region xs (length cs * 4))) =
    Inr (splice buf a (xs @ concat (map (to_le 4) cs)))"
  using assms
proof (induction cs arbitrary: k xs)
  case (Cons c cs)
  have w: "write_u32_le (splice buf a (region xs (length (c # cs) * 4))) (base + k * 4) c = Inr (splice buf a (region (xs @ to_le 4 c) (length cs * 4)))"
    using put_range_next [of "base + k * 4" a xs "length (c # cs) * 4" buf "to_le 4 c"] Cons.prems
    by (simp add: write_u32_le_def del: to_le.simps)
  have "fold_res (\<lambda>(i, c) buf. write_u32_le buf (base + i * 4) c) (enumerate (Suc k) cs) (splice buf a (region (xs @ to_le 4 c) (length cs * 4))) =
      Inr (splice buf a ((xs @ to_le 4 c) @ concat (map (to_le 4) cs)))"
    using Cons.prems by (intro Cons.IH) (simp_all del: to_le.simps)
  then show ?case unfolding enumerate_simps fold_res.simps prod.case w by (simp del: to_le.simps)
qed (simp add: region_def)

lemma write_dataspace_enc:
  assumes "length dims < 256" "start + (8 + length dims * 16) \<le> length buf"
  shows "write_dataspace_body buf start (8 + length dims * 16) dims u =
    Inr (splice buf start (enc_oh_body addrs (OM_Dataspace dims u)), 8 + length dims * 16)"
proof -
  let ?h = "[1, of_nat (length dims), 1, 0, 0, 0, 0, 0] :: bytes"
  have z: "region [1, of_nat (length dims), 1] (5 + length dims * 16)
      = ?h @ [] @ replicate (length dims * 8) 0 @ [] @ replicate (length dims * 8) 0"
    by (simp add: region_def numeral_eq_Suc flip: replicate_add)
  have "fold_res (\<lambda>(i, dim) buf. and_then (write_u64_le buf (start + 8 + i * 8) dim) (\<lambda>buf.
        write_u64_le buf (start + 8 + length dims * 8 + i * 8) (if u \<and> i = 0 then u64_max else dim)))
      (enumerate 0 dims) (splice buf start (region [1, of_nat (length dims), 1] (5 + length dims * 16)))
    = Inr (splice buf start (enc_oh_body addrs (OM_Dataspace dims u)))"
    unfolding z using dims_loop [of "[]" 0 "[]" "start + 8 + length dims * 8" start dims ?h buf "\<lambda>i d. if u \<and> i = 0 then u64_max else d"]
      assms(2) max_dims_enumerate [of u dims] by (simp add: numeral_eq_Suc)
  then show ?thesis using assms by (simp add: write_dataspace_body_def narrow_def fields_at Let_def del: enc_oh_body.simps)
qed

lemma write_fill_value_enc:
  assumes "length v < u32_lim" "start + (8 + length v) \<le> length buf"
  shows "write_fill_value_body buf start (8 + length v) b (Some v) =
      Inr (splice buf start (enc_oh_body addrs (OM_FillValue b (Some v))), 8 + length v)"
    and "v = [] \<Longrightarrow> write_fill_value_body buf start 8 b None = Inr (splice buf start (enc_oh_body addrs (OM_FillValue b None)), 8)"
  using assms
  by (simp_all add: write_fill_value_body_def narrow_def fields_at Let_def del: to_le.simps) (simp_all add: region_def del: to_le.simps)

lemma write_contiguous_enc:
  assumes "start + 24 \<le> length buf"
  shows "write_contiguous_body buf start (oa_data addrs) sz = Inr (splice buf start (enc_oh_body addrs (OM_LayoutContiguous sz)), 24)"
  using assms by (simp add: write_contiguous_body_def fields_at Let_def del: to_le.simps) (simp add: region_def del: to_le.simps)

lemma write_chunked_enc:
  assumes "length cs < 256" "start + (11 + length cs * 4) \<le> length buf"
  shows "write_chunked_body buf start (11 + length cs * 4) (oa_btree addrs) cs =
    Inr (splice buf start (enc_oh_body addrs (OM_LayoutChunked cs)), 11 + length cs * 4)"
proof -
  let ?h = "[3, 2, of_nat (length cs)] @ to_le 8 (oa_btree addrs)"
  have "fold_res (\<lambda>(i, c) buf. write_u32_le buf (start + 11 + i * 4) c) (enumerate 0 cs) (splice buf start (region ?h (length cs * 4))) =
      Inr (splice buf start (?h @ concat (map (to_le 4) cs)))"
    using assms(2) by (intro column_loop) simp_all
  then show ?thesis using assms by (simp add: write_chunked_body_def narrow_def fields_at Let_def del: to_le.simps)
qed

lemma write_compact_enc:
  assumes "length dat < 65536" "start + (4 + length dat) \<le> length buf"
  shows "write_compact_body buf start (4 + length dat) dat = Inr (splice buf start (enc_oh_body addrs (OM_LayoutCompact dat)), 4 + length dat)"
  using assms by (simp add: write_compact_body_def narrow_def fields_at Let_def del: to_le.simps) (simp add: region_def del: to_le.simps)

lemma oh_body_enc:
  assumes "oh_msg_ok msg"
  shows "oh_body addrs msg (enc_oh_body addrs msg)"
proof (cases msg)
  case OM_SymbolTable
  have "and_then (fill_zero buf start 16) (\<lambda>buf. and_then (write_u64_le buf start (oa_btree addrs)) (\<lambda>buf.
      and_then (write_u64_le buf (start + 8) (oa_heap addrs)) (\<lambda>buf. Inr (buf, 16)))) =
      Inr (splice buf start (enc_oh_body addrs OM_SymbolTable), 16 :: nat)"
    if "start + 16 \<le> length buf" for buf start
    using that by (simp add: fields_at del: to_le.simps) (simp add: region_def del: to_le.simps)
  then show ?thesis by (simp add: oh_body_def oh_body_size_def oh_write_body_def OM_SymbolTable del: to_le.simps)
next
  case (OM_LinkInfo info)
  have "length (enc_link_info info (oa_fractal_heap addrs) (oa_name_index addrs)) = link_info_body_size info"
    by (simp add: enc_link_info_def link_info_body_size_def)
  then show ?thesis by (simp add: oh_body_def oh_body_size_def oh_write_body_def OM_LinkInfo link_info_write_enc)
next
  case OM_GroupInfo
  then show ?thesis
    by (simp add: oh_body_def oh_body_size_def oh_write_body_def write_group_info_body_def fill_zero_def put_range_def numeral_eq_Suc)
next
  case (OM_Link m)
  then have fits: "length (lm_name m) < u32_lim" "value_fits (lm_value m)" using assms by simp_all
  obtain n where n: "link_body_size m = Inr n" using link_body_size_fits [OF fits] by blast
  obtain width bits where w: "name_len_width (length (lm_name m)) = Inr (width, bits)"
    and l: "length (enc_link width (link_flags bits m) m) = n"
    using link_body_size_eq [OF n fits(2)] by (metis surj_pair)
  let ?e = "enc_link width (link_flags bits m) m"
  have e: "enc_oh_body addrs msg = ?e" by (simp add: OM_Link w)
  have "oh_write_body buf start addrs msg = Inr (splice buf start ?e, n)" if "start + n \<le> length buf" for buf start
    using link_write_body_enc [OF n fits(2) that w l [symmetric]] by (simp add: oh_write_body_def OM_Link)
  moreover have "oh_body_size msg = Inr n" using n by (simp add: oh_body_size_def OM_Link)
  ultimately show ?thesis unfolding oh_body_def e l by blast
next
  case (OM_Dataspace dims u)
  have l: "length (enc_oh_body addrs (OM_Dataspace dims u)) = 8 + length dims * 16" by simp
  show ?thesis using assms write_dataspace_enc [of dims] unfolding oh_body_def OM_Dataspace l
    by (simp add: oh_body_size_def oh_write_body_def mult.commute [of "length dims"] del: enc_oh_body.simps)
next
  case (OM_Datatype t)
  then show ?thesis by (simp add: oh_body_def oh_body_size_def oh_write_body_def write_datatype_enc)
next
  case (OM_DatatypeBody body)
  then show ?thesis by (simp add: oh_body_def oh_body_size_def oh_write_body_def put_range_def)
next
  case (OM_FillValue b v)
  show ?thesis
  proof (cases v)
    case None
    have "length (enc_oh_body addrs (OM_FillValue b None)) = 8" by simp
    then show ?thesis using write_fill_value_enc(2) [of "[]"] unfolding oh_body_def OM_FillValue None
      by (simp add: oh_body_size_def oh_write_body_def del: enc_oh_body.simps)
  next
    case (Some bs)
    have "length (enc_oh_body addrs (OM_FillValue b (Some bs))) = 8 + length bs" by simp
    then show ?thesis using assms write_fill_value_enc(1) [of bs] unfolding oh_body_def OM_FillValue Some
      by (simp add: oh_body_size_def oh_write_body_def del: enc_oh_body.simps)
  qed
next
  case (OM_LayoutContiguous sz)
  have "length (enc_oh_body addrs (OM_LayoutContiguous sz)) = 24" by simp
  then show ?thesis using write_contiguous_enc unfolding oh_body_def OM_LayoutContiguous
    by (simp add: oh_body_size_def oh_write_body_def del: enc_oh_body.simps)
next
  case (OM_LayoutChunked cs)
  have "length (concat (map (to_le 4) cs)) = length cs * 4" by (rule length_concat_const) simp
  then have "length (enc_oh_body addrs (OM_LayoutChunked cs)) = 11 + length cs * 4" by simp
  then show ?thesis using assms write_chunked_enc [of cs] unfolding oh_body_def OM_LayoutChunked
    by (simp add: oh_body_size_def oh_write_body_def del: enc_oh_body.simps)
next
  case (OM_LayoutCompact dat)
  have "length (enc_oh_body addrs (OM_LayoutCompact dat)) = 4 + length dat" by simp
  then show ?thesis using assms write_compact_enc [of dat] unfolding oh_body_def OM_LayoutCompact
    by (simp add: oh_body_size_def oh_write_body_def del: enc_oh_body.simps)
next
  case (OM_FilterPipeline f es)
  let ?e = "enc_pipeline_v1 (descriptors f es)"
  have le: "length ?e = body_size f" by (rule body_size_enc)
  have es: "es < u32_lim" using assms OM_FilterPipeline by simp
  have "write_body buf start f es = Inr (splice buf start ?e, body_size f)" if "start + body_size f \<le> length buf" for buf start
    using write_v1_enc [of start "descriptors f es" buf] that es le by (simp add: write_body_def Let_def length_enc_pipeline_v1)
  then show ?thesis using es le by (simp add: oh_body_def oh_body_size_def oh_write_body_def OM_FilterPipeline)
next
  case (OM_Attr a)
  then obtain n where n: "attr_body_size a = Inr n" using assms by auto
  have nm: "ra_name a \<noteq> []" "Suc (length (ra_name a)) < 65536" "kind_wf (ra_kind a)" using assms OM_Attr by (simp_all add: name_ok_def)
  obtain v dt dat where v: "vector_len (ra_kind a) = Inr v" "length (enc_attr a v) = n"
    by (rule attr_body_size_enc [OF n nm(3)])
  have "attr_write_body a buf start = Inr (splice buf start (enc_attr a v), n)" if "start + n \<le> length buf" for buf start
    by (rule attr_write_body_enc [OF nm n that]) (simp add: v)
  then show ?thesis using n v by (simp add: oh_body_def oh_body_size_def oh_write_body_def OM_Attr)
qed

section \<open>The bytes of a header\<close>

definition padded_body :: "bytes \<Rightarrow> bytes" where
  "padded_body bs = bs @ replicate (align8 (length bs) - length bs) 0"

definition v1_of :: "oh_addrs \<Rightarrow> oh_msg \<Rightarrow> v1_msg" where
  "v1_of addrs msg = \<lparr>vm_type = oh_msg_type msg, vm_flags = oh_flags msg, vm_body = padded_body (enc_oh_body addrs msg)\<rparr>"

lemma length_padded_body [simp]: "length (padded_body bs) = align8 (length bs)"
  using align8_ge [of "length bs"] by (simp add: padded_body_def)

lemma align8_idem [simp]: "align8 (align8 n) = align8 n"
  by (simp add: align8_id)

lemma write_msg_header_enc:
  assumes "pos + 8 \<le> length buf"
  shows "write_msg_header buf pos ty sz fl = Inr (splice buf pos (to_le 2 ty @ to_le 2 sz @ [fl, 0, 0, 0]))"
  using assms by (simp add: write_msg_header_def fields_at del: to_le.simps) (simp add: region_def numeral_eq_Suc del: to_le.simps)

definition fits :: "oh_addrs \<Rightarrow> oh_msg \<Rightarrow> bool" where
  "fits addrs msg \<longleftrightarrow> oh_msg_ok msg \<and> align8 (length (enc_oh_body addrs msg)) < 65536"

lemma write_oh_msg_enc:
  assumes "fits addrs msg" "pos + length (encode_v1_msg (v1_of addrs msg)) \<le> length buf"
  shows "write_oh_msg addrs msg (buf, pos) =
    Inr (splice buf pos (encode_v1_msg (v1_of addrs msg)), pos + length (encode_v1_msg (v1_of addrs msg)))"
    and "oh_msg_total msg = Inr (length (encode_v1_msg (v1_of addrs msg)))"
proof -
  let ?bs = "enc_oh_body addrs msg" and ?n = "length (enc_oh_body addrs msg)"
  have b: "oh_body_size msg = Inr ?n"
    "\<And>buf start. start + ?n \<le> length buf \<Longrightarrow> oh_write_body buf start addrs msg = Inr (splice buf start ?bs, ?n)"
    using oh_body_enc [of msg addrs] assms(1) by (auto simp: fits_def oh_body_def)
  have a: "align8 ?n < 65536" "?n \<le> align8 ?n" using assms(1) align8_ge by (auto simp: fits_def)
  have p: "pad8 ?n = Inr (align8 ?n)" using a by (intro pad8_align8) simp
  have l: "length (encode_v1_msg (v1_of addrs msg)) = 8 + align8 ?n" by (simp add: length_encode_v1_msg v1_of_def)
  show t: "oh_msg_total msg = Inr (length (encode_v1_msg (v1_of addrs msg)))"
    unfolding l using a by (simp add: oh_msg_total_def b(1) msg_total_def p uadd_def)
  define hdr where "hdr = to_le 2 (oh_msg_type msg) @ to_le 2 (align8 ?n) @ [oh_flags msg, 0, 0, 0]"
  have hl: "length hdr = 8" by (simp add: hdr_def)
  have fits: "pos + (8 + align8 ?n) \<le> length buf" using assms(2) l by simp
  have w1: "write_msg_header buf pos (oh_msg_type msg) (align8 ?n) (oh_flags msg) = Inr (splice buf pos hdr)"
    using write_msg_header_enc fits by (simp add: hdr_def)
  have w2: "oh_write_body (splice buf pos hdr) (pos + 8) addrs msg = Inr (splice buf pos (hdr @ ?bs), ?n)"
    using b(2) [of "pos + 8" "splice buf pos hdr"] splice_append [of pos hdr ?bs buf] fits a(2) hl by (simp del: to_le.simps)
  have w3: "fill_zero (splice buf pos (hdr @ ?bs)) (pos + 8 + ?n) (align8 ?n - ?n) = Inr (splice buf pos (encode_v1_msg (v1_of addrs msg)))"
  proof -
    let ?z = "replicate (align8 ?n - ?n) (0 :: byte)"
    have "encode_v1_msg (v1_of addrs msg) = hdr @ padded_body ?bs" by (simp add: encode_v1_msg_def v1_of_def hdr_def del: to_le.simps)
    then have enc: "encode_v1_msg (v1_of addrs msg) = (hdr @ ?bs) @ ?z" by (simp add: padded_body_def del: to_le.simps)
    have off: "pos + 8 + ?n = pos + length (hdr @ ?bs)" by (simp add: hl)
    have "splice (splice buf pos (hdr @ ?bs)) (pos + length (hdr @ ?bs)) ?z = splice buf pos ((hdr @ ?bs) @ ?z)"
      using fits a(2) hl by (intro splice_append) simp
    then show ?thesis unfolding enc off fill_zero_def put_range_def using fits a(2) hl by simp
  qed
  have e: "pos + (8 + align8 ?n) - (pos + 8) - ?n = align8 ?n - ?n" by simp
  show "write_oh_msg addrs msg (buf, pos) =
      Inr (splice buf pos (encode_v1_msg (v1_of addrs msg)), pos + length (encode_v1_msg (v1_of addrs msg)))"
    unfolding write_oh_msg_def prod.case b(1) and_then_simps p using a
    by (simp add: narrow_def w1 Let_def w2 check_size_def t l e w3 del: to_le.simps)
qed

lemma write_oh_msgs_enc:
  assumes "list_all (fits addrs) msgs" "pos + length (encode_v1_block (map (v1_of addrs) msgs)) \<le> length buf"
  shows "fold_res (write_oh_msg addrs) msgs (buf, pos) =
    Inr (splice buf pos (encode_v1_block (map (v1_of addrs) msgs)), pos + length (encode_v1_block (map (v1_of addrs) msgs)))"
  using assms
proof (induction msgs arbitrary: buf pos)
  case (Cons msg msgs)
  let ?m = "encode_v1_msg (v1_of addrs msg)" and ?ms = "encode_v1_block (map (v1_of addrs) msgs)"
  have e: "encode_v1_block (map (v1_of addrs) (msg # msgs)) = ?m @ ?ms" by (simp add: encode_v1_block_def)
  have "pos + length ?m \<le> length buf" using Cons.prems(2) unfolding e by simp
  then have "write_oh_msg addrs msg (buf, pos) = Inr (splice buf pos ?m, pos + length ?m)"
    using write_oh_msg_enc(1) Cons.prems(1) by simp
  moreover have "fold_res (write_oh_msg addrs) msgs (splice buf pos ?m, pos + length ?m) =
      Inr (splice (splice buf pos ?m) (pos + length ?m) ?ms, pos + length ?m + length ?ms)"
    using Cons.prems unfolding e by (intro Cons.IH) simp_all
  moreover have "splice (splice buf pos ?m) (pos + length ?m) ?ms = splice buf pos (?m @ ?ms)"
    using Cons.prems(2) unfolding e by (intro splice_append) simp
  ultimately show ?case unfolding e by (simp add: add.assoc)
qed (simp add: encode_v1_block_def)

lemma oh_size_enc:
  assumes "list_all (fits addrs) msgs" "length (encode_v1_block (map (v1_of addrs) msgs)) + tot < u64_lim"
  shows "fold_res (\<lambda>msg tot. and_then (oh_msg_total msg) (uadd tot)) msgs tot =
    Inr (tot + length (encode_v1_block (map (v1_of addrs) msgs)))"
  using assms
proof (induction msgs arbitrary: tot)
  case (Cons msg msgs)
  have "oh_msg_total msg = Inr (length (encode_v1_msg (v1_of addrs msg)))"
    using write_oh_msg_enc(2) [of addrs msg 0 "replicate (length (encode_v1_msg (v1_of addrs msg))) 0"] Cons.prems(1) by simp
  then show ?case using Cons by (simp add: encode_v1_block_def uadd_def)
qed (simp add: encode_v1_block_def)

definition enc_oh :: "oh_addrs \<Rightarrow> oh_msg list \<Rightarrow> nat \<Rightarrow> bytes" where
  "enc_oh addrs msgs refcount =
     (let blk = encode_v1_block (map (v1_of addrs) msgs) in
      [1, 0] @ to_le 2 (length msgs) @ to_le 4 refcount @ to_le 4 (length blk) @ to_le 4 0 @ blk)"

lemma write_oh_prefix:
  assumes "addr + 16 \<le> length buf"
  shows "and_then (fill_zero buf addr 16) (\<lambda>buf. and_then (put_elem buf addr 1) (\<lambda>buf.
      and_then (write_u16_le buf (addr + 2) n) (\<lambda>buf. and_then (write_u32_le buf (addr + 4) rc) (\<lambda>buf.
      and_then (write_u32_le buf (addr + 8) m) (\<lambda>buf. and_then (write_u32_le buf (addr + 12) 0) k))))) =
    k (splice buf addr ([1, 0] @ to_le 2 n @ to_le 4 rc @ to_le 4 m @ to_le 4 0))"
  using assms by (simp add: fields_at del: to_le.simps) (simp add: region_def numeral_eq_Suc del: to_le.simps)

lemma write_oh_enc:
  assumes "list_all (fits addrs) msgs" "length msgs < 65536" "length (encode_v1_block (map (v1_of addrs) msgs)) < u32_lim"
    and "addr + length (enc_oh addrs msgs refcount) \<le> length buf"
  shows "oh_size msgs = Inr (length (enc_oh addrs msgs refcount))"
    and "write_oh buf addr msgs addrs refcount = Inr (splice buf addr (enc_oh addrs msgs refcount), length (enc_oh addrs msgs refcount))"
proof -
  let ?blk = "encode_v1_block (map (v1_of addrs) msgs)"
  define hdr where "hdr = [1, 0] @ to_le 2 (length msgs) @ to_le 4 refcount @ to_le 4 (length ?blk) @ to_le 4 0"
  have l: "length (enc_oh addrs msgs refcount) = 16 + length ?blk" by (simp add: enc_oh_def Let_def)
  show s: "oh_size msgs = Inr (length (enc_oh addrs msgs refcount))"
    unfolding l oh_size_def using oh_size_enc [OF assms(1), of 16] assms(3) by simp
  have fits: "addr + (16 + length ?blk) \<le> length buf" using assms(4) l by simp
  have hl: "length hdr = 16" by (simp add: hdr_def)
  have w: "fold_res (write_oh_msg addrs) msgs (splice buf addr hdr, addr + 16) = Inr (splice buf addr (hdr @ ?blk), addr + 16 + length ?blk)"
    using write_oh_msgs_enc [OF assms(1), of "addr + 16" "splice buf addr hdr"] splice_append [of addr hdr ?blk buf] fits hl
    by (simp del: to_le.simps)
  have enc: "enc_oh addrs msgs refcount = hdr @ ?blk" by (simp add: enc_oh_def hdr_def Let_def del: to_le.simps)
  have p: "and_then (fill_zero buf addr 16) (\<lambda>buf. and_then (put_elem buf addr 1) (\<lambda>buf.
      and_then (write_u16_le buf (addr + 2) (length msgs)) (\<lambda>buf. and_then (write_u32_le buf (addr + 4) refcount) (\<lambda>buf.
      and_then (write_u32_le buf (addr + 8) (length ?blk)) (\<lambda>buf. and_then (write_u32_le buf (addr + 12) 0) k))))) =
    k (splice buf addr hdr)" for k
    unfolding hdr_def using fits by (intro write_oh_prefix) simp
  show "write_oh buf addr msgs addrs refcount = Inr (splice buf addr (enc_oh addrs msgs refcount), length (enc_oh addrs msgs refcount))"
    unfolding write_oh_def s and_then_simps Let_def l narrow_def diff_add_inverse if_P [OF assms(2)] if_P [OF assms(3)] p
    by (simp add: w enc check_size_def)
qed

end
