(* ===== verification/Write_Oh_Read.thy ===== *)
theory Write_Oh_Read
  imports Write_Oh
begin

text \<open>
  The object headers of \<^verbatim>\<open>oxih5/src/write/oh.rs\<close> read back by \<^verbatim>\<open>oxih5-format\<close>: the header parser
  returns one message per message of the list, in order, and the parser of each message's type
  returns what the message was made of, in spite of the padding that the header adds to its body.
\<close>

section \<open>One message\<close>

fun reads_as :: "parse_context \<Rightarrow> oh_addrs \<Rightarrow> oh_msg \<Rightarrow> bytes \<Rightarrow> bool" where
  "reads_as ctx addrs OM_SymbolTable d \<longleftrightarrow>
     parse_symbol_table d = Inr \<lparr>st_btree_address = oa_btree addrs, st_heap_address = oa_heap addrs\<rparr>"
| "reads_as ctx addrs (OM_LinkInfo info) d \<longleftrightarrow>
     parse_link_info d ctx =
       Inr \<lparr>creation_order_tracked = li_creation_order_tracked info, creation_order_index_address = None,
            name_index_address = defined_address (oa_name_index addrs),
            fractal_heap_address = defined_address (oa_fractal_heap addrs)\<rparr>"
| "reads_as ctx addrs OM_GroupInfo d \<longleftrightarrow> d = replicate 8 0"
| "reads_as ctx addrs (OM_Link m) d \<longleftrightarrow>
     parse_link d ctx = Inr \<lparr>link_name = lm_name m, link_target = link_of_value (lm_value m)\<rparr>"
| "reads_as ctx addrs (OM_Dataspace dims u) d \<longleftrightarrow>
     parse_dataspace d = Inr \<lparr>ds_dims = dims, ds_max_dims = Some (max_dims_of dims u)\<rparr>"
| "reads_as ctx addrs (OM_Datatype t) d \<longleftrightarrow> parse_datatype d = Inr (dtype_of t)"
| "reads_as ctx addrs (OM_DatatypeBody body) d \<longleftrightarrow> d = padded_body body"
| "reads_as ctx addrs (OM_FillValue incremental v) d \<longleftrightarrow>
     parse_fill_value d = Inr (Some (case v of None \<Rightarrow> [] | Some bs \<Rightarrow> bs))"
| "reads_as ctx addrs (OM_LayoutContiguous sz) d \<longleftrightarrow>
     parse_layout d = Inr (Contiguous (if sz = 0 then u64_max else oa_data addrs) sz)"
| "reads_as ctx addrs (OM_LayoutChunked cs) d \<longleftrightarrow>
     parse_layout d = Inr (Chunked (oa_btree addrs) (of_nat (length cs)) cs 0 None)"
| "reads_as ctx addrs (OM_LayoutCompact dat) d \<longleftrightarrow> parse_layout d = Inr (Compact dat)"
| "reads_as ctx addrs (OM_FilterPipeline f es) d \<longleftrightarrow>
     parse_filter_pipeline d = Inr \<lparr>pipeline_filters = map info_of (descriptors f es)\<rparr>"
| "reads_as ctx addrs (OM_Attr a) d \<longleftrightarrow>
     (\<exists>v. vector_len (ra_kind a) = Inr v \<and> parse_attribute d = Inr (read_attr a v))"

lemma padded_rest: obtains k where "padded_body bs = bs @ replicate k 0" "k < 8"
  using that [of "align8 (length bs) - length bs"] align8_less [of "length bs"] by (simp add: padded_body_def)

text \<open>A column of fixed-width fields inside a body.\<close>

lemma map_res_column:
  assumes "\<And>i. i < length xs \<Longrightarrow> f (k + i) = Inr (xs ! i)"
  shows "map_res f [k..<k + length xs] = Inr xs"
  using assms
proof (induction xs arbitrary: k)
  case (Cons x xs)
  have "map_res f [Suc k..<Suc k + length xs] = Inr xs"
    using Cons.prems [of "Suc i" for i] by (intro Cons.IH) simp
  moreover have "f k = Inr x" using Cons.prems [of 0] by simp
  ultimately show ?case by (simp add: upt_rec)
qed simp

lemma field_column:
  assumes "i < length xs" "\<forall>x\<in>set xs. x < 256 ^ w"
  shows "field w (concat (map (to_le w) xs) @ rest) (i * w) = xs ! i"
  using assms
proof (induction xs arbitrary: i)
  case (Cons x xs)
  then show ?case
    by (cases i) (simp_all add: field_append_here field_append_skip from_le_to_le del: to_le.simps)
qed simp

lemma reads_dataspace:
  assumes "length dims < 256" "\<forall>d\<in>set dims. d < u64_lim" "length (enc_oh_body addrs (OM_Dataspace dims u) @ rest) \<le> isize_max"
  shows "parse_dataspace (enc_oh_body addrs (OM_Dataspace dims u) @ rest) = Inr \<lparr>ds_dims = dims, ds_max_dims = Some (max_dims_of dims u)\<rparr>"
proof -
  let ?n = "length dims" and ?mx = "max_dims_of dims u"
  let ?d = "enc_oh_body addrs (OM_Dataspace dims u) @ rest"
  have mx: "\<forall>d\<in>set ?mx. d < u64_lim" using assms(2) by (auto simp: max_dims_of_def split: list.splits)
  have l: "8 + ?n * 16 \<le> length ?d" by simp
  have f1: "field 8 ?d (8 + i * 8) = dims ! i" if "i < ?n" for i
    using field_column [of i dims 8 "enc_u64s ?mx @ rest"] that assms(2) by (simp add: field_drop enc_u64s_def)
  have f2: "field 8 ?d (8 + ?n * 8 + i * 8) = ?mx ! i" if "i < ?n" for i
  proof -
    have "drop (8 + ?n * 8) ?d = drop (?n * 8) (drop 8 ?d)" by (simp only: drop_drop add.commute)
    also have "... = concat (map (to_le 8) ?mx) @ rest" by (simp add: enc_u64s_def [of ?mx])
    finally show ?thesis unfolding field_drop using field_column [of i ?mx 8 rest] that mx by simp
  qed
  have d1: "dim_list ?d 8 ?n = Inr dims"
    unfolding dim_list_def using map_res_column [of dims "\<lambda>i. and_then (umul i 8) (\<lambda>k. and_then (uadd 8 k) (read_u64_le ?d))" 0]
      f1 l assms(1,3) by (simp add: read_u64_le_eq del: enc_oh_body.simps)
  have d2: "dim_list ?d (8 + ?n * 8) ?n = Inr ?mx"
    unfolding dim_list_def using map_res_column [of ?mx "\<lambda>i. and_then (umul i 8) (\<lambda>k. and_then (uadd (8 + ?n * 8) k) (read_u64_le ?d))" 0]
      f2 l assms(1,3) by (simp add: read_u64_le_eq del: enc_oh_body.simps)
  have "index ?d 0 = Inr 1" "index ?d 1 = Inr (of_nat ?n)" "index ?d 2 = Inr 1" "?d \<noteq> []"
    by (simp_all add: index_def get_elem_def)
  then show ?thesis using d1 d2 l assms(1,3)
    by (simp add: parse_dataspace_def dataspace_header_def dim_lists_def del: enc_oh_body.simps)
qed

lemma reads_chunked:
  assumes "length cs < 256" "\<forall>c\<in>set cs. 0 < c \<and> c < u32_lim" "oa_btree addrs < u64_lim"
    and "length (enc_oh_body addrs (OM_LayoutChunked cs) @ rest) \<le> isize_max"
  shows "parse_layout (enc_oh_body addrs (OM_LayoutChunked cs) @ rest) = Inr (Chunked (oa_btree addrs) (of_nat (length cs)) cs 0 None)"
proof -
  let ?n = "length cs" and ?d = "enc_oh_body addrs (OM_LayoutChunked cs) @ rest"
  have lc: "length (concat (map (to_le 4) cs)) = ?n * 4" by (rule length_concat_const) simp
  have l: "11 + ?n * 4 \<le> length ?d" using lc by simp
  have d11: "drop 11 ?d = concat (map (to_le 4) cs) @ rest" by simp
  have f: "field 4 ?d (11 + i * 4) = cs ! i" if "i < ?n" for i
    unfolding field_drop d11 using field_column [of i cs 4 rest] that assms(2) by simp
  have m: "map_res (\<lambda>i. read_u32_le ?d (11 + i * 4)) [0..<?n] = Inr cs"
    using map_res_column [of cs "\<lambda>i. read_u32_le ?d (11 + i * 4)" 0] f l assms(4) by (simp add: read_u32_le_eq del: enc_oh_body.simps)
  have a: "read_u64_le ?d 3 = Inr (oa_btree addrs)"
    using l assms(3,4) by (simp add: read_u64_le_eq field_eval del: to_le.simps)
  have "index ?d 0 = Inr 3" "index ?d 1 = Inr 2" "index ?d 2 = Inr (of_nat ?n)" by (simp_all add: index_def get_elem_def)
  moreover have "0 \<notin> set cs" using assms(2) by auto
  ultimately show ?thesis using m l assms(1)
    by (simp add: parse_layout_def chunked_v3_layout_def Let_def a del: enc_oh_body.simps)
qed

lemma reads_contiguous:
  assumes "oa_data addrs < u64_max" "sz < u64_lim" "length (enc_oh_body addrs (OM_LayoutContiguous sz) @ rest) \<le> isize_max"
  shows "parse_layout (enc_oh_body addrs (OM_LayoutContiguous sz) @ rest) = Inr (Contiguous (if sz = 0 then u64_max else oa_data addrs) sz)"
proof -
  let ?d = "enc_oh_body addrs (OM_LayoutContiguous sz) @ rest"
  define a where "a = (if sz = 0 then u64_max else oa_data addrs)"
  have a: "a < u64_lim" "a = u64_max \<Longrightarrow> sz = 0" using assms(1) by (auto simp: a_def split: if_splits)
  have d: "?d = 3 # 1 # to_le 8 a @ to_le 8 sz @ replicate 6 0 @ rest" by (simp add: a_def)
  have r: "read_u64_le (3 # 1 # to_le 8 a @ to_le 8 sz @ replicate 6 0 @ rest) 2 = Inr a"
    "read_u64_le (3 # 1 # to_le 8 a @ to_le 8 sz @ replicate 6 0 @ rest) 10 = Inr sz"
    using a(1) assms(2,3) by (simp_all add: read_u64_le_eq field_eval del: to_le.simps)
  show ?thesis unfolding d a_def [symmetric] using a(2)
    by (simp add: parse_layout_def contiguous_at_def index_def get_elem_def r del: to_le.simps)
qed

lemma reads_compact:
  assumes "length dat < 65536" "length (enc_oh_body addrs (OM_LayoutCompact dat) @ rest) \<le> isize_max"
  shows "parse_layout (enc_oh_body addrs (OM_LayoutCompact dat) @ rest) = Inr (Compact dat)"
proof -
  let ?d = "3 # 0 # to_le 2 (length dat) @ dat @ rest"
  have r: "read_u16_le ?d 2 = Inr (length dat)" "slice ?d 4 (4 + length dat) = Inr dat"
    using assms by (simp_all add: read_u16_le_eq field_eval slice_def get_range_def del: to_le.simps)
  have "parse_layout ?d = Inr (Compact dat)"
    by (simp add: parse_layout_def compact_layout_def index_def get_elem_def r del: to_le.simps)
  then show ?thesis by simp
qed

lemma reads_fill_value:
  assumes "case v of None \<Rightarrow> True | Some bs \<Rightarrow> length bs < 65536" "length (enc_oh_body addrs (OM_FillValue incremental v) @ rest) \<le> isize_max"
  shows "parse_fill_value (enc_oh_body addrs (OM_FillValue incremental v) @ rest) = Inr (Some (case v of None \<Rightarrow> [] | Some bs \<Rightarrow> bs))"
  using assms by (cases v) (simp_all add: parse_fill_value_def fill_value_at_def index_def get_elem_def slice_def get_range_def Let_def
      read_u32_le_eq field_eval del: to_le.simps)

lemma pipeline_unpadded: "padded_body (enc_pipeline_v1 (descriptors f es)) = enc_pipeline_v1 (descriptors f es)"
proof -
  have "8 dvd body_size f"
    by (auto simp: body_size_def descriptors_def v1_desc_size_def SHUFFLE_NAME_def DEFLATE_NAME_def FLETCHER32_NAME_def
        align8_def split: option.splits)
  then have "align8 (body_size f) = body_size f" by (rule align8_id)
  then show ?thesis by (simp add: padded_body_def body_size_enc)
qed

lemma reads_symbol_table:
  assumes "oa_btree addrs < u64_lim" "oa_heap addrs < u64_lim" "length (enc_oh_body addrs OM_SymbolTable @ rest) \<le> isize_max"
  shows "parse_symbol_table (enc_oh_body addrs OM_SymbolTable @ rest) = Inr \<lparr>st_btree_address = oa_btree addrs, st_heap_address = oa_heap addrs\<rparr>"
  using assms by (simp add: parse_symbol_table_def read_u64_le_eq field_eval del: to_le.simps)

lemma padded_group_info: "padded_body [0, 0] = replicate 8 0"
proof -
  have z: "replicate 2 (0 :: byte) = [0, 0]" by (simp add: numeral_2_eq_2)
  have "replicate (2 + 6) (0 :: byte) = [0, 0] @ replicate 6 0" unfolding replicate_add z ..
  moreover have "padded_body [0, 0] = [0, 0] @ replicate 6 0" by (simp add: padded_body_def align8_def)
  ultimately show ?thesis unfolding padded_body_def by simp
qed

lemma reads_body:
  assumes "oh_msg_ok msg" "addrs_ok addrs" "size_of_offsets ctx = 8" "length (padded_body (enc_oh_body addrs msg)) \<le> isize_max"
  shows "reads_as ctx addrs msg (padded_body (enc_oh_body addrs msg))"
proof -
  obtain k where p: "padded_body (enc_oh_body addrs msg) = enc_oh_body addrs msg @ replicate k 0" by (rule padded_rest)
  note a = assms(2) [unfolded addrs_ok_def]
  have l: "length (enc_oh_body addrs msg @ replicate k 0) \<le> isize_max" using assms(4) unfolding p .
  show ?thesis
  proof (cases msg)
    case OM_SymbolTable
    then show ?thesis unfolding p using reads_symbol_table l a by simp
  next
    case (OM_LinkInfo info)
    have "parse_link_info (enc_oh_body addrs msg @ replicate k 0) ctx =
        Inr \<lparr>creation_order_tracked = li_creation_order_tracked info, creation_order_index_address = None,
          name_index_address = defined_address (oa_name_index addrs), fractal_heap_address = defined_address (oa_fractal_heap addrs)\<rparr>"
      unfolding OM_LinkInfo enc_oh_body.simps by (rule parse_link_info_enc) (use a assms(3) l OM_LinkInfo in simp_all)
    then show ?thesis unfolding p by (simp add: OM_LinkInfo)
  next
    case OM_GroupInfo
    then show ?thesis using padded_group_info by simp
  next
    case (OM_Link m)
    then have ok: "length (lm_name m) < u32_lim" "valid_utf8 (lm_name m)" "value_wf (lm_value m)" "value_fits (lm_value m)"
      using assms(1) by simp_all
    obtain n where n: "link_body_size m = Inr n" using link_body_size_fits [OF ok(1,4)] by blast
    obtain width bits where w: "name_len_width (length (lm_name m)) = Inr (width, bits)"
      using link_body_size_eq [OF n ok(4)] by (metis surj_pair)
    show ?thesis unfolding p using parse_link_enc [OF w ok(2-4) assms(3)] l by (simp add: OM_Link w)
  next
    case (OM_Dataspace dims u)
    then show ?thesis unfolding p using reads_dataspace l assms(1) by (simp del: enc_oh_body.simps)
  next
    case (OM_Datatype t)
    then show ?thesis unfolding p using parse_enc_elem [of t 0] assms(1)
      by (simp add: parse_datatype_def enc_elem_padded_def)
  next
    case (OM_DatatypeBody body)
    then show ?thesis by simp
  next
    case (OM_FillValue b v)
    then show ?thesis unfolding p using reads_fill_value l assms(1) by (simp del: enc_oh_body.simps)
  next
    case (OM_LayoutContiguous sz)
    then show ?thesis unfolding p using reads_contiguous l assms(1) a by (simp del: enc_oh_body.simps)
  next
    case (OM_LayoutChunked cs)
    then show ?thesis unfolding p using reads_chunked l assms(1) a by (simp del: enc_oh_body.simps)
  next
    case (OM_LayoutCompact dat)
    then show ?thesis unfolding p using reads_compact l assms(1) by (simp del: enc_oh_body.simps)
  next
    case (OM_FilterPipeline f es)
    then have ok: "choice_ok f" "es < u32_lim" using assms(1) by simp_all
    have "length (descriptors f es) < 256" using length_descriptors [of f es] by simp
    moreover have "length (enc_pipeline_v1 (descriptors f es)) \<le> isize_max"
      using l OM_FilterPipeline ok(2) by simp
    ultimately have "parse_filter_pipeline (enc_pipeline_v1 (descriptors f es)) = Inr \<lparr>pipeline_filters = map info_of (descriptors f es)\<rparr>"
      by (rule parse_pipeline_enc [OF descriptors_ok [OF ok]])
    then show ?thesis using ok(2) by (simp add: OM_FilterPipeline pipeline_unpadded)
  next
    case (OM_Attr at)
    then obtain n where n: "attr_body_size at = Inr n" and ok: "name_ok (ra_name at)" "kind_wf (ra_kind at)" using assms(1) by auto
    obtain v dt dat where v: "vector_len (ra_kind at) = Inr v" "dtype_data_sizes (ra_kind at) = Inr (dt, dat)"
      by (rule attr_body_size_enc [OF n ok(2)])
    show ?thesis unfolding p using parse_enc_attr [OF ok v] l by (simp add: OM_Attr v)
  qed
qed

section \<open>Whole headers\<close>

lemma oh_size_len:
  assumes "list_all (fits addrs) msgs" "oh_size msgs = Inr n"
  shows "n = 16 + length (encode_v1_block (map (v1_of addrs) msgs))"
proof -
  have "fold_res (\<lambda>msg tot. and_then (oh_msg_total msg) (uadd tot)) msgs tot = Inr k \<Longrightarrow>
      k = tot + length (encode_v1_block (map (v1_of addrs) msgs))" for tot k
    using assms(1)
  proof (induction msgs arbitrary: tot)
    case (Cons msg msgs)
    have "oh_msg_total msg = Inr (length (encode_v1_msg (v1_of addrs msg)))"
      using write_oh_msg_enc(2) [of addrs msg 0 "replicate (length (encode_v1_msg (v1_of addrs msg))) 0"] Cons.prems(2) by simp
    then show ?case using Cons.prems Cons.IH [of "tot + length (encode_v1_msg (v1_of addrs msg))"]
      by (simp add: encode_v1_block_def uadd_def split: if_splits)
  qed (simp add: encode_v1_block_def)
  then show ?thesis using assms(2) by (simp add: oh_size_def)
qed

lemma msg_type_kinds: "oh_msg_type msg < 65536" "oh_msg_type msg \<noteq> 0" "oh_msg_type msg \<noteq> 16"
  by (cases msg; simp)+

definition header_msgs :: "oh_addrs \<Rightarrow> oh_msg list \<Rightarrow> message list" where
  "header_msgs addrs msgs = map (\<lambda>m. \<lparr>msg_type = oh_msg_type m, msg_data = padded_body (enc_oh_body addrs m)\<rparr>) msgs"

lemma plain_v1_of: "plain_messages (map (v1_of addrs) msgs) = header_msgs addrs msgs"
  and continuations_v1_of: "continuations_of (map (v1_of addrs) msgs) = []"
  using msg_type_kinds(2,3) unfolding continuations_of_def plain_messages_def header_msgs_def
  by (induction msgs) (simp_all add: v1_of_def)

lemma parse_enc_oh:
  assumes "list_all (fits addrs) msgs" "length (encode_v1_block (map (v1_of addrs) msgs)) < u32_lim"
    and "off + length (enc_oh addrs msgs refcount) \<le> length buf" "length buf \<le> isize_max"
  shows "parse_messages_v1 (splice buf off (enc_oh addrs msgs refcount)) off = Inr (header_msgs addrs msgs)"
proof -
  let ?blk = "encode_v1_block (map (v1_of addrs) msgs)" and ?d = "splice buf off (enc_oh addrs msgs refcount)"
  define hdr where "hdr = [1, 0] @ to_le 2 (length msgs) @ to_le 4 refcount @ to_le 4 (length ?blk) @ to_le 4 0"
  have e: "enc_oh addrs msgs refcount = hdr @ ?blk" by (simp add: enc_oh_def hdr_def Let_def del: to_le.simps)
  have hl: "length hdr = 16" by (simp add: hdr_def)
  have dr: "drop off ?d = hdr @ ?blk @ drop (off + length (enc_oh addrs msgs refcount)) buf"
    using assms(3) by (simp add: drop_splice e)
  have len: "length ?d = length buf" using assms(3) by simp
  have v: "?d ! off = 1"
    using arg_cong [OF dr, of "\<lambda>xs. xs ! 0"] assms(3) e hl len by (simp add: hdr_def del: to_le.simps)
  have f: "field 4 ?d (off + 8) = length ?blk"
    unfolding field_drop dr using assms(2) by (simp add: hdr_def field_eval del: to_le.simps)
  have "take (length ?blk) (drop (off + 16) ?d) = ?blk"
    using dr hl by (simp add: drop_drop [symmetric] add.commute [of off] del: drop_drop)
  moreover have "list_all v1_msg_ok (map (v1_of addrs) msgs)"
    using assms(1) msg_type_kinds(1) by (auto simp: list_all_iff fits_def v1_msg_ok_def v1_of_def)
  ultimately have b: "block_at ?d (off + 16, field 4 ?d (off + 8)) (map (v1_of addrs) msgs)"
    using assms(3) e hl len unfolding block_at_def f by simp
  have "v1_header_at ?d off (map (v1_of addrs) msgs) []"
    using b v assms(3) e hl len by (simp add: v1_header_at_def v1_queue_def continuations_v1_of)
  then show ?thesis
    using parse_header_at [of ?d off "map (v1_of addrs) msgs" "[]"] assms(4) len by (simp add: plain_v1_of)
qed

text \<open>
  C4. An object header the writer emits is read back: any list of messages that fit their fields,
  written into a buffer with room for it, takes exactly the size planned for it and leaves the rest
  of the buffer alone, and the header parser returns one message for each of them, in order, of its
  type, which the parser of that type reads as what it was made of: the addresses of a symbol table
  and of a link info, a link, the dimensions and maximal dimensions of a dataspace, a datatype, a
  fill value, each kind of layout, a filter pipeline, an attribute.
\<close>

theorem object_header_round_trip:
  assumes "list_all (fits addrs) msgs" "length msgs < 65536" "oh_size msgs = Inr n" "n < u32_lim"
    and "addrs_ok addrs" "size_of_offsets ctx = 8"
    and "addr + n \<le> length buf" "length buf \<le> isize_max"
  shows "\<exists>buf' ms. write_oh buf addr msgs addrs refcount = Inr (buf', n) \<and> length buf' = length buf
    \<and> take addr buf' = take addr buf \<and> drop (addr + n) buf' = drop (addr + n) buf
    \<and> parse_messages_v1 buf' addr = Inr ms
    \<and> list_all2 (\<lambda>msg m. msg_type m = oh_msg_type msg \<and> reads_as ctx addrs msg (msg_data m)) msgs ms"
proof -
  let ?e = "enc_oh addrs msgs refcount" and ?blk = "encode_v1_block (map (v1_of addrs) msgs)"
  have le: "length ?e = 16 + length ?blk" by (simp add: enc_oh_def Let_def)
  have n: "n = length ?e"
    using oh_size_len [OF assms(1,3)] le by simp
  have blk: "length ?blk < u32_lim" using assms(4) n le by simp
  have fit: "addr + length ?e \<le> length buf" using assms(7) n by simp
  have w: "write_oh buf addr msgs addrs refcount = Inr (splice buf addr ?e, n)"
    using write_oh_enc(2) [OF assms(1,2) blk fit] n by simp
  have p: "parse_messages_v1 (splice buf addr ?e) addr = Inr (header_msgs addrs msgs)"
    by (rule parse_enc_oh [OF assms(1) blk fit assms(8)])
  have small: "align8 (length (enc_oh_body addrs msg)) \<le> isize_max" if "msg \<in> set msgs" for msg
    using assms(1) that by (auto simp: list_all_iff fits_def)
  have r: "list_all2 (\<lambda>msg m. msg_type m = oh_msg_type msg \<and> reads_as ctx addrs msg (msg_data m)) msgs (header_msgs addrs msgs)"
    using assms(1) by (auto simp: header_msgs_def list_all2_conv_all_nth list_all_iff fits_def small intro!: reads_body [OF _ assms(5,6)])
  have "length (splice buf addr ?e) = length buf" "take addr (splice buf addr ?e) = take addr buf"
    "drop (addr + n) (splice buf addr ?e) = drop (addr + n) buf"
    using fit n by (simp_all add: splice_def)
  with w p r show ?thesis by blast
qed

text \<open>The header of a contiguous dataset of three doubles that may grow.\<close>

definition small_addrs :: oh_addrs where
  "small_addrs = \<lparr>oa_btree = 0, oa_heap = 0, oa_data = 512, oa_fractal_heap = 0, oa_name_index = 0\<rparr>"

definition small_header :: "oh_msg list" where
  "small_header = [OM_Dataspace [3] True, OM_Datatype F64, OM_FillValue False None, OM_LayoutContiguous 24]"

theorem object_header_round_trip_witness:
  "\<exists>buf' ms. write_oh (replicate 200 7) 8 small_header small_addrs 1 = Inr (buf', 128) \<and> parse_messages_v1 buf' 8 = Inr ms
    \<and> map msg_type ms = [1, 3, 5, 8]
    \<and> parse_dataspace (msg_data (ms ! 0)) = Inr \<lparr>ds_dims = [3], ds_max_dims = Some [u64_max]\<rparr>
    \<and> parse_datatype (msg_data (ms ! 1)) = Inr (Float 8 Little)
    \<and> parse_layout (msg_data (ms ! 3)) = Inr (Contiguous 512 24)"
proof -
  have f: "fits small_addrs m" if "m \<in> set small_header" for m
    using that by (auto simp: small_header_def fits_def elem_ok_def align8_def enc_elem_padded_def dt_body_size_def nested_dt_body_size_def)
  have n: "oh_size small_header = Inr 128"
    by (simp add: oh_size_def small_header_def oh_msg_total_def oh_body_size_def msg_total_def pad8_def align8_def uadd_def dt_body_size_def)
  have "\<exists>buf' ms. write_oh (replicate 200 7) 8 small_header small_addrs 1 = Inr (buf', 128) \<and> length buf' = length (replicate 200 (7 :: byte))
    \<and> take 8 buf' = take 8 (replicate 200 7) \<and> drop (8 + 128) buf' = drop (8 + 128) (replicate 200 7)
    \<and> parse_messages_v1 buf' 8 = Inr ms
    \<and> list_all2 (\<lambda>msg m. msg_type m = oh_msg_type msg \<and> reads_as default_v0 small_addrs msg (msg_data m)) small_header ms"
    by (rule object_header_round_trip [OF _ _ n])
      (use f in \<open>simp_all add: list_all_iff addrs_ok_def small_addrs_def default_v0_def\<close>, simp add: small_header_def)
  then show ?thesis
    by (auto simp: small_header_def list_all2_Cons1 max_dims_of_def small_addrs_def dtype_of_def)
qed

end
