(* ===== verification/Chunk_Lock.thy ===== *)
theory Chunk_Lock
  imports Chunk_Cache
begin

text \<open>
  \<^verbatim>\<open>get_or_insert\<close> of \<^verbatim>\<open>oxih5-format/src/chunked/cache.rs\<close> with its read-write lock. A thread asks for
  the read lock, looks its key up while it holds the guard, and drops the guard at the end of the
  block (or on the return of a hit); it computes without a lock; it asks for the write lock, stores
  or finds a value while it holds that guard, and drops it when it returns. A lock that is not free
  is a step that is not enabled, so threads can block each other, and a guard kept too long would
  be a deadlock. The machine of \<open>Chunk_Cache\<close>, in which a critical section is one step, is shown to be
  an abstraction of this one.
\<close>

section \<open>Threads and the lock\<close>

datatype 'v lock_pc =
    Want_read cache_key
  | Reading cache_key
  | Unlocked cache_key
  | Want_write cache_key 'v
  | Writing cache_key 'v
  | Finished cache_key "'v res"

text \<open>The threads that hold a read guard, and the one that holds the write guard.\<close>

record 'v lock_system =
  lmap :: "'v cache_map"
  lpcs :: "'v lock_pc list"
  readers :: "nat set"
  writer :: "nat option"

definition wants_write :: "'v lock_pc \<Rightarrow> bool" where
  "wants_write p = (case p of Want_write _ _ \<Rightarrow> True | _ \<Rightarrow> False)"

definition move_to :: "nat \<Rightarrow> 'v lock_pc \<Rightarrow> 'v lock_system \<Rightarrow> 'v lock_system" where
  "move_to t p s = s\<lparr>lpcs := (lpcs s)[t := p]\<rparr>"

text \<open>
  The standard library does not say whether a reader is admitted while a writer waits: with
  \<open>writers_first\<close> it is not, without \<open>writers_first\<close> it is.
\<close>

inductive lock_step :: "bool \<Rightarrow> (nat \<Rightarrow> 'v res) \<Rightarrow> 'v lock_system \<Rightarrow> 'v lock_system \<Rightarrow> bool" for writers_first compute where
  read_lock: "t < length (lpcs s) \<Longrightarrow> lpcs s ! t = Want_read k \<Longrightarrow> writer s = None \<Longrightarrow>
     \<not> (writers_first \<and> list_ex wants_write (lpcs s)) \<Longrightarrow>
     lock_step writers_first compute s (move_to t (Reading k) (s\<lparr>readers := insert t (readers s)\<rparr>))"
| lock_hit: "t < length (lpcs s) \<Longrightarrow> lpcs s ! t = Reading k \<Longrightarrow> lmap s k = Some v \<Longrightarrow>
     lock_step writers_first compute s (move_to t (Finished k (Inr v)) (s\<lparr>readers := readers s - {t}\<rparr>))"
| lock_miss: "t < length (lpcs s) \<Longrightarrow> lpcs s ! t = Reading k \<Longrightarrow> lmap s k = None \<Longrightarrow>
     lock_step writers_first compute s (move_to t (Unlocked k) (s\<lparr>readers := readers s - {t}\<rparr>))"
| lock_computed: "t < length (lpcs s) \<Longrightarrow> lpcs s ! t = Unlocked k \<Longrightarrow> compute t = Inr v \<Longrightarrow>
     lock_step writers_first compute s (move_to t (Want_write k v) s)"
| lock_failed: "t < length (lpcs s) \<Longrightarrow> lpcs s ! t = Unlocked k \<Longrightarrow> compute t = Inl e \<Longrightarrow>
     lock_step writers_first compute s (move_to t (Finished k (Inl e)) s)"
| write_lock: "t < length (lpcs s) \<Longrightarrow> lpcs s ! t = Want_write k v \<Longrightarrow> writer s = None \<Longrightarrow> readers s = {} \<Longrightarrow>
     lock_step writers_first compute s (move_to t (Writing k v) (s\<lparr>writer := Some t\<rparr>))"
| lock_store: "t < length (lpcs s) \<Longrightarrow> lpcs s ! t = Writing k v \<Longrightarrow> lmap s k = None \<Longrightarrow>
     lock_step writers_first compute s (move_to t (Finished k (Inr v)) (s\<lparr>lmap := (lmap s)(k \<mapsto> v), writer := None\<rparr>))"
| lock_keep: "t < length (lpcs s) \<Longrightarrow> lpcs s ! t = Writing k v \<Longrightarrow> lmap s k = Some w \<Longrightarrow>
     lock_step writers_first compute s (move_to t (Finished k (Inr w)) (s\<lparr>writer := None\<rparr>))"

text \<open>Runs of \<open>n\<close> steps.\<close>

inductive lock_run :: "bool \<Rightarrow> (nat \<Rightarrow> 'v res) \<Rightarrow> nat \<Rightarrow> 'v lock_system \<Rightarrow> 'v lock_system \<Rightarrow> bool" for writers_first compute where
  lock_stop: "lock_run writers_first compute 0 s s"
| lock_more: "lock_run writers_first compute n s s' \<Longrightarrow> lock_step writers_first compute s' s'' \<Longrightarrow> lock_run writers_first compute (Suc n) s s''"

definition lock_initial :: "cache_key list \<Rightarrow> 'v lock_system" where
  "lock_initial keys = \<lparr>lmap = Map.empty, lpcs = map Want_read keys, readers = {}, writer = None\<rparr>"

section \<open>The lock invariant\<close>

text \<open>
  The guards are held by exactly the threads that are inside a critical section, and a write guard
  excludes every other guard.
\<close>

definition lock_inv :: "'v lock_system \<Rightarrow> bool" where
  "lock_inv s \<longleftrightarrow>
     readers s = {t. t < length (lpcs s) \<and> (\<exists>k. lpcs s ! t = Reading k)} \<and>
     (\<forall>t. writer s = Some t \<longleftrightarrow> t < length (lpcs s) \<and> (\<exists>k v. lpcs s ! t = Writing k v)) \<and>
     (writer s \<noteq> None \<longrightarrow> readers s = {})"

lemma move_to_simps [simp]:
  "lmap (move_to t p s) = lmap s" "lpcs (move_to t p s) = (lpcs s)[t := p]"
  "readers (move_to t p s) = readers s" "writer (move_to t p s) = writer s"
  by (simp_all add: move_to_def)

lemma lock_inv_initial: "lock_inv (lock_initial keys)"
  by (auto simp: lock_inv_def lock_initial_def)

lemma one_writer:
  assumes "lock_inv s" "t < length (lpcs s)" "lpcs s ! t = Writing k v" "u < length (lpcs s)" "lpcs s ! u = Writing l w"
  shows "u = t"
proof -
  have "writer s = Some t" "writer s = Some u" using assms unfolding lock_inv_def by blast+
  then show ?thesis by simp
qed

lemma writer_alone:
  assumes "lock_inv s" "t < length (lpcs s)" "lpcs s ! t = Writing k v"
  shows "readers s = {}" "u < length (lpcs s) \<Longrightarrow> lpcs s ! u \<noteq> Reading l"
proof -
  have "writer s = Some t" using assms unfolding lock_inv_def by blast
  then have none: "readers s = {}" using assms(1) unfolding lock_inv_def by blast
  show "readers s = {}" by (rule none)
  show "lpcs s ! u \<noteq> Reading l" if "u < length (lpcs s)"
  proof
    assume "lpcs s ! u = Reading l"
    then have "u \<in> readers s" using assms(1) that unfolding lock_inv_def by blast
    then show False using none by simp
  qed
qed

lemma lock_inv_release:
  assumes "lock_inv s" "t < length (lpcs s)" "lpcs s ! t = Writing k v"
  shows "lock_inv (move_to t (Finished k r) (s\<lparr>lmap := m, writer := None\<rparr>))"
proof -
  have "\<not> (\<exists>l w. ((lpcs s)[t := Finished k r]) ! u = Writing l w)" if "u < length (lpcs s)" for u
    using one_writer [OF assms, of u] that by (cases "u = t") auto
  moreover have "\<not> (\<exists>l. ((lpcs s)[t := Finished k r]) ! u = Reading l)" if "u < length (lpcs s)" for u
    using writer_alone(2) [OF assms, of u] that by (cases "u = t") auto
  ultimately show ?thesis using writer_alone(1) [OF assms] by (simp add: lock_inv_def)
qed

lemma lock_inv_step:
  assumes "lock_step writers_first compute s s'" "lock_inv s"
  shows "lock_inv s'"
  using assms
proof (induction rule: lock_step.induct)
  case (lock_store t s k v)
  then show ?case by (intro lock_inv_release)
next
  case (lock_keep t s k v w)
  then show ?case using lock_inv_release [OF lock_keep.prems lock_keep.hyps(1,2), of _ "lmap s"] by (simp add: move_to_def)
qed (auto simp: lock_inv_def nth_list_update split: if_splits)

section \<open>Progress\<close>

fun locks_left :: "'v lock_pc \<Rightarrow> nat" where
  "locks_left (Want_read k) = 5"
| "locks_left (Reading k) = 4"
| "locks_left (Unlocked k) = 3"
| "locks_left (Want_write k v) = 2"
| "locks_left (Writing k v) = 1"
| "locks_left (Finished k r) = 0"

lemma lock_step_moves:
  assumes "lock_step writers_first compute s s'"
  obtains t p where "t < length (lpcs s)" "lpcs s' = (lpcs s)[t := p]" "Suc (locks_left p) \<le> locks_left (lpcs s ! t)"
  using assms by cases (auto intro: that)

lemma sum_list_update_less:
  "t < length xs \<Longrightarrow> Suc (f y) \<le> f (xs ! t) \<Longrightarrow> Suc (sum_list (map f (xs[t := y]))) \<le> sum_list (map f xs)"
  by (induction xs arbitrary: t) (auto simp: nth_Cons split: nat.splits)

lemma lock_run_facts:
  assumes "lock_run writers_first compute n s s'" "lock_inv s"
  shows "lock_inv s' \<and> length (lpcs s') = length (lpcs s) \<and> n + sum_list (map locks_left (lpcs s')) \<le> sum_list (map locks_left (lpcs s))"
  using assms
proof (induction rule: lock_run.induct)
  case (lock_more n s s' s'')
  obtain t p where "t < length (lpcs s')" "lpcs s'' = (lpcs s')[t := p]" "Suc (locks_left p) \<le> locks_left (lpcs s' ! t)"
    using lock_step_moves [OF lock_more.hyps(2)] by blast
  then have "Suc (sum_list (map locks_left (lpcs s''))) \<le> sum_list (map locks_left (lpcs s'))" "length (lpcs s'') = length (lpcs s')"
    using sum_list_update_less [of t "lpcs s'" locks_left p] by simp_all
  then show ?case using lock_more lock_inv_step [OF lock_more.hyps(2)] by simp
qed simp

text \<open>
  A state in which no thread can move is one in which all have returned. A thread inside a critical
  section or computing can always go on; if there is none, no guard is held, so a waiting writer can
  have the lock, and if no writer waits a waiting reader can.
\<close>

lemma inside_can_step:
  assumes "t < length (lpcs s)" "lpcs s ! t = Reading k \<or> lpcs s ! t = Unlocked k \<or> lpcs s ! t = Writing k v"
  shows "\<exists>s'. lock_step writers_first compute s s'"
proof (cases "lmap s k")
  case None
  then show ?thesis using assms
    by (cases "compute t") (auto intro: lock_step.lock_miss lock_step.lock_store lock_step.lock_computed lock_step.lock_failed)
next
  case (Some w)
  then show ?thesis using assms
    by (cases "compute t") (auto intro: lock_step.lock_hit lock_step.lock_keep lock_step.lock_computed lock_step.lock_failed)
qed

lemma stuck_finished:
  assumes "lock_inv s" "\<nexists>s'. lock_step writers_first compute s s'" "t < length (lpcs s)"
  shows "\<exists>k r. lpcs s ! t = Finished k r"
proof -
  have out: "lpcs s ! u \<noteq> Reading k" "lpcs s ! u \<noteq> Unlocked k" "lpcs s ! u \<noteq> Writing k v" if "u < length (lpcs s)" for u k v
    using inside_can_step [OF that, of k v writers_first compute] assms(2) by blast+
  then have r: "readers s = {}" using assms(1) by (auto simp: lock_inv_def)
  have w: "writer s = None" using assms(1) out(3) unfolding lock_inv_def by (metis not_Some_eq)
  have no: "lpcs s ! u \<noteq> Want_write k v" if "u < length (lpcs s)" for u k v
    using lock_step.write_lock [OF that _ w r, of k v writers_first compute] assms(2) by blast
  then have "\<not> list_ex wants_write (lpcs s)"
    by (auto simp: list_ex_length wants_write_def split: lock_pc.splits)
  then have "lpcs s ! t \<noteq> Want_read k" for k
    using lock_step.read_lock [OF assms(3) _ w, of k writers_first compute] assms(2) by blast
  then show ?thesis using out [OF assms(3)] no [OF assms(3)] by (cases "lpcs s ! t") auto
qed

section \<open>Abstraction\<close>

fun atomic_pc :: "'v lock_pc \<Rightarrow> 'v pc" where
  "atomic_pc (Want_read k) = Start k"
| "atomic_pc (Reading k) = Start k"
| "atomic_pc (Unlocked k) = Computing k"
| "atomic_pc (Want_write k v) = Computed k v"
| "atomic_pc (Writing k v) = Computed k v"
| "atomic_pc (Finished k r) = Done k r"

text \<open>The threads beyond the list never start.\<close>

definition atomic_of :: "(nat \<Rightarrow> cache_key) \<Rightarrow> 'v lock_system \<Rightarrow> 'v system" where
  "atomic_of keys s = \<lparr>cmap = lmap s, pcs = (\<lambda>t. if t < length (lpcs s) then atomic_pc (lpcs s ! t) else Start (keys t))\<rparr>"

lemma atomic_move:
  assumes "t < length (lpcs s)" "lmap s' = m" "lpcs s' = (lpcs s)[t := p]"
  shows "atomic_of keys s' = (atomic_of keys s)\<lparr>cmap := m, pcs := (pcs (atomic_of keys s))(t := atomic_pc p)\<rparr>"
  using assms by (auto simp: atomic_of_def nth_list_update)

lemma lock_step_atomic:
  assumes "lock_step writers_first compute s s'"
  shows "atomic_of keys s' = atomic_of keys s \<or> cache_step compute (atomic_of keys s) (atomic_of keys s')"
  using assms
proof (induction rule: lock_step.induct)
  case (read_lock t s k)
  then show ?case by (intro disjI1) (auto simp: atomic_of_def nth_list_update fun_eq_iff)
next
  case (write_lock t s k v)
  then show ?case by (intro disjI1) (auto simp: atomic_of_def nth_list_update fun_eq_iff)
next
  case (lock_hit t s k v)
  then show ?case using cache_step.hit [of "atomic_of keys s" t k v compute]
    by (simp add: atomic_move [of t s _ "lmap s"]) (simp add: atomic_of_def)
next
  case (lock_miss t s k)
  then show ?case using cache_step.miss [of "atomic_of keys s" t k compute]
    by (simp add: atomic_move [of t s _ "lmap s"]) (simp add: atomic_of_def)
next
  case (lock_computed t s k v)
  then show ?case using cache_step.computed [of "atomic_of keys s" t k compute v]
    by (simp add: atomic_move [of t s _ "lmap s"]) (simp add: atomic_of_def)
next
  case (lock_failed t s k e)
  then show ?case using cache_step.failed [of "atomic_of keys s" t k compute e]
    by (simp add: atomic_move [of t s _ "lmap s"]) (simp add: atomic_of_def)
next
  case (lock_store t s k v)
  then show ?case using cache_step.store [of "atomic_of keys s" t k v compute]
    by (simp add: atomic_move [of t s _ "(lmap s)(k \<mapsto> v)"]) (simp add: atomic_of_def)
next
  case (lock_keep t s k v w)
  then show ?case using cache_step.keep [of "atomic_of keys s" t k v w compute]
    by (simp add: atomic_move [of t s _ "lmap s"]) (simp add: atomic_of_def)
qed

lemma lock_run_atomic:
  assumes "lock_run writers_first compute n s s'"
  shows "cache_run compute (atomic_of keys s) (atomic_of keys s')"
  using assms
proof (induction rule: lock_run.induct)
  case (lock_more n s s' s'')
  then show ?case using lock_step_atomic [OF lock_more.hyps(2), of keys] cache_run.more by metis
qed (rule cache_run.stop)

text \<open>
  C38. With the lock as it is taken and dropped, whether or not a waiting writer holds readers back:
  the calls of any number of threads end, all of them, after at most five steps each, since a state
  in which nobody can move is one in which every call has returned; no thread is ever inside the
  write section while another is inside a critical section; and what the threads do is a run of the
  machine of \<open>Chunk_Cache\<close>, so its results agree as that theory shows.
\<close>

theorem cache_lock_progress:
  assumes "lock_run writers_first compute n (lock_initial (map keys [0..<threads])) s"
  shows "n \<le> 5 * threads
    \<and> ((\<nexists>s'. lock_step writers_first compute s s') \<longrightarrow> (\<forall>t<threads. \<exists>k r. lpcs s ! t = Finished k r))
    \<and> (\<forall>t<threads. \<forall>u<threads. \<forall>k l v w. lpcs s ! t = Writing k v \<longrightarrow> lpcs s ! u \<noteq> Reading l \<and> (lpcs s ! u = Writing l w \<longrightarrow> u = t))
    \<and> cache_run compute (initial keys) (atomic_of keys s)"
proof -
  note f = lock_run_facts [OF assms lock_inv_initial]
  have len: "length (lpcs s) = threads" using f by (simp add: lock_initial_def)
  have "sum_list (map locks_left (map Want_read (map keys [0..<threads]) :: 'a lock_pc list)) = 5 * threads"
    by (simp add: comp_def sum_list_triv)
  then have n: "n \<le> 5 * threads" using f by (simp add: lock_initial_def)
  have init: "atomic_of keys (lock_initial (map keys [0..<threads])) = (initial keys :: 'a system)"
    by (auto simp: atomic_of_def lock_initial_def initial_def)
  have excl: "lpcs s ! u \<noteq> Reading l \<and> (lpcs s ! u = Writing l w \<longrightarrow> u = t)"
    if "t < threads" "u < threads" "lpcs s ! t = Writing k v" for t u k l v w
    using writer_alone(2) [of s t k v u l] one_writer [of s t k v u l w] f that len by blast
  show ?thesis
    using n excl stuck_finished [OF conjunct1 [OF f], of writers_first compute] len lock_run_atomic [OF assms, of keys]
    unfolding init by blast
qed

text \<open>Two threads ask for one key; both have missed and computed, and the first is about to store.\<close>

theorem cache_lock_progress_witness:
  "\<exists>s. lock_run True (\<lambda>t. Inr t) 7 (lock_initial [(0, 1), (0, 1)]) s \<and> lpcs s = [Writing (0, 1) 0, Want_write (0, 1) (1 :: nat)]
    \<and> (\<exists>s'. lock_step True (\<lambda>t. Inr t) s s')
    \<and> cache_run (\<lambda>t. Inr t) (initial (\<lambda>t. (0, 1))) (atomic_of (\<lambda>t. (0, 1)) s)"
proof -
  let ?c = "\<lambda>t. Inr t :: nat res" and ?k = "(0, 1) :: cache_key"
  define s0 where "s0 = (lock_initial [?k, ?k] :: nat lock_system)"
  define s1 where "s1 = move_to 0 (Reading ?k) (s0\<lparr>readers := insert 0 (readers s0)\<rparr>)"
  define s2 where "s2 = move_to 1 (Reading ?k) (s1\<lparr>readers := insert 1 (readers s1)\<rparr>)"
  define s3 where "s3 = move_to 0 (Unlocked ?k) (s2\<lparr>readers := readers s2 - {0}\<rparr>)"
  define s4 where "s4 = move_to 1 (Unlocked ?k) (s3\<lparr>readers := readers s3 - {1}\<rparr>)"
  define s5 where "s5 = move_to 0 (Want_write ?k 0) s4"
  define s6 where "s6 = move_to 1 (Want_write ?k 1) s5"
  define s7 where "s7 = move_to 0 (Writing ?k 0) (s6\<lparr>writer := Some 0\<rparr>)"
  note defs = s0_def s1_def s2_def s3_def s4_def s5_def s6_def s7_def lock_initial_def wants_write_def
  have 1: "lock_step True ?c s0 s1" unfolding s1_def by (rule lock_step.read_lock) (simp_all add: defs)
  have 2: "lock_step True ?c s1 s2" unfolding s2_def by (rule lock_step.read_lock) (simp_all add: defs)
  have 3: "lock_step True ?c s2 s3" unfolding s3_def by (rule lock_step.lock_miss) (simp_all add: defs)
  have 4: "lock_step True ?c s3 s4" unfolding s4_def by (rule lock_step.lock_miss) (simp_all add: defs)
  have 5: "lock_step True ?c s4 s5" unfolding s5_def by (rule lock_step.lock_computed) (simp_all add: defs)
  have 6: "lock_step True ?c s5 s6" unfolding s6_def by (rule lock_step.lock_computed) (simp_all add: defs)
  have 7: "lock_step True ?c s6 s7" unfolding s7_def by (rule lock_step.write_lock) (auto simp: defs)
  have run: "lock_run True ?c (Suc (Suc (Suc (Suc (Suc (Suc (Suc 0))))))) s0 s7"
    using lock_run.lock_stop 1 2 3 4 5 6 7 by (meson lock_run.lock_more)
  have pcs: "lpcs s7 = [Writing ?k 0, Want_write ?k 1]" by (simp add: defs)
  have s0: "s0 = lock_initial (map (\<lambda>t. ?k) [0..<2])" by (simp add: s0_def upt_rec)
  note p = cache_lock_progress [OF run [unfolded s0]]
  have "\<exists>s'. lock_step True ?c s7 s'"
  proof (rule ccontr)
    assume "\<not> ?thesis"
    then have "\<exists>k r. lpcs s7 ! 0 = Finished k r" using p by simp
    then show False by (simp add: pcs)
  qed
  moreover have "lock_run True ?c 7 (lock_initial [?k, ?k]) s7" using run by (simp add: s0_def numeral_eq_Suc)
  moreover have "cache_run ?c (initial (\<lambda>t. ?k)) (atomic_of (\<lambda>t. ?k) s7)" using p by blast
  ultimately show ?thesis using pcs by blast
qed

end
