(* ===== verification/Spec2Isabelle.thy ===== *)
theory Spec2Isabelle
  imports Cursor Old_Group Object_Header_V1 Object_Header_V2 Filter_Message Write_SymTab Checksum Chunked_Agree Messages Write_Dtype Global_Heap New_Group Write_Dense Write_Attr Write_Chunk_Tree Write_Api_Inv Write_Oh_Read Chunk_Lock
begin

text \<open>
  OxiH5 is a pure Rust reader and writer of the HDF5 file format. The workspace has four
  crates: \<^verbatim>\<open>oxih5-core\<close> (data model and error enum), \<^verbatim>\<open>oxih5-format\<close> (the
  readers of the on-disk structures), \<^verbatim>\<open>oxih5\<close> (the facade and the writer)
  and \<^verbatim>\<open>oxinetcdf\<close> (netCDF-4 conventions on top).
  This development models the readers of \<^verbatim>\<open>oxih5-format\<close> and, so that round trips
  can be stated, the parts of the writer that produce the same structures. Paths below are
  relative to \<^verbatim>\<open>src/crates\<close>; \<open>fmt\<close> stands for \<^verbatim>\<open>oxih5-format/src\<close> and \<open>wr\<close> for
  \<^verbatim>\<open>oxih5/src/write\<close>.

  How the parts interact. A file is one byte string. \<open>Superblock\<close> finds the root address.
  An object header (version 1 or 2) at an address is a list of messages collected over
  continuation blocks. An old-style group's symbol-table message names a version-1 B-tree
  whose leaves are symbol table nodes; link names live in a local heap. A dataset's layout
  message names either contiguous bytes or a chunk index; the index (five kinds) yields chunk
  records; each chunk goes through the filter pipeline backwards and is scattered into the
  output buffer, whole, by slice, by hyperslab, or chunk by chunk in parallel.

  Conventions.

  \<^item> A \<^verbatim>\<open>Result\<close> is \<open>error + 'a\<close> (\<open>Inl\<close> the error); message texts are dropped. The extra
    error \<open>Panic\<close> is a panic of the thread: an index or slice out of range, a division by
    zero, an allocation above \<open>isize_max\<close> bytes, or an arithmetic overflow under overflow
    checks (the \<^verbatim>\<open>dev\<close> profile). Theorems named \<open>..._never_panics\<close> say the value never
    occurs; the ones named \<open>..._panics\<close> exhibit inputs where it does.
  \<^item> \<open>usize\<close> and \<open>u64\<close> are naturals on a 64-bit target; each unchecked operation of the source
    is a checked operation of the model (\<open>uadd\<close>, \<open>umul\<close>, \<open>usub\<close>), \<^verbatim>\<open>checked_\<close> and
    \<^verbatim>\<open>saturating_\<close> operations are themselves. Bytes and checksums are words.
  \<^item> Loops over ranges are \<open>fold_res\<close>; loops with a shrinking measure are functions with
    a termination proof; depth-limited recursion recurses on the limit of the source
    (\<^verbatim>\<open>MAX_BTREE_DEPTH\<close> and the like), so no fuel is invented. The one recursion without a
    limit, in the fractal heap, is a partial function. The walks of continuation
    blocks terminate because the source bounds or remembers the blocks it has visited.
  \<^item> Slices given to the readers are Rust slices, so a theorem may assume that they have at
    most \<open>isize_max\<close> bytes.
  \<^item> The DEFLATE codec and the szip decoder are external crates: the record \<open>codecs\<close> is an
    argument of the filters, and a theorem that needs them inverse says so. The
    floating-point root of the fixed-array fallback grid is an argument as well.

  Theories, in dependency order.

  \<^item> \<open>Prelude\<close>: bytes, errors, results, checked arithmetic, slices, little-endian integers,
    loops; the collections \<open>np\<close> (no panic) and \<open>le_simps\<close>. \<open>Byte_Fields\<close> (\<^verbatim>\<open>fmt/context.rs\<close>
    and the readers of \<^verbatim>\<open>fmt/superblock.rs\<close>): integer fields; the locale \<open>byte_field\<close> is
    the contract between a reader and the writer's encoder of a field. \<open>Buffers\<close>: the
    output buffer a reader fills piece by piece.
  \<^item> \<open>Cursor\<close> (\<^verbatim>\<open>fmt/cursor.rs\<close>), \<open>Superblock\<close> (\<^verbatim>\<open>fmt/superblock.rs\<close>), \<open>Local_Heap\<close>
    (\<^verbatim>\<open>fmt/heap.rs\<close>), \<open>Group_BTree\<close> (\<^verbatim>\<open>fmt/btree.rs\<close>), \<open>Snod\<close> (\<^verbatim>\<open>fmt/snod.rs\<close>), \<open>Old_Group\<close>
    (\<^verbatim>\<open>fmt/group.rs\<close>).
  \<^item> \<open>Object_Header_V1\<close> and \<open>Object_Header_V2\<close> (\<^verbatim>\<open>fmt/header.rs\<close>): message collection, with a
    description of the header as a tree of chunks that the parsers are shown to refine.
  \<^item> \<open>Filters\<close> and \<open>Filter_Pipeline\<close> (\<^verbatim>\<open>fmt/filters.rs\<close>): shuffle, Fletcher-32, n-bit,
    scale-offset, the pipeline; the locale \<open>invertible_filter\<close>. \<open>Filter_Message\<close>
    (\<^verbatim>\<open>fmt/message.rs\<close>, \<^verbatim>\<open>wr/pipeline.rs\<close>, \<^verbatim>\<open>wr/payload.rs\<close>): the message and the
    write pipeline, with their round trips.
  \<^item> \<open>Outcome\<close>: verification conditions of fallible computations. \<open>Datatype\<close>
    (\<^verbatim>\<open>fmt/datatype.rs\<close>, the types of \<^verbatim>\<open>oxih5-core/src/lib.rs\<close>): datatypes, their size and their
    recursive parser. \<open>Messages\<close> (\<^verbatim>\<open>fmt/message.rs\<close>): the other header messages.
  \<^item> \<open>Write_Format\<close> (\<^verbatim>\<open>wr/format.rs\<close>, \<^verbatim>\<open>wr/mod.rs\<close>) and \<open>Write_SymTab\<close> (\<^verbatim>\<open>wr/btree_v1.rs\<close>):
    what the writer emits for a group, read back by \<open>Old_Group\<close>.
  \<^item> \<open>Write_Elem\<close> (\<^verbatim>\<open>wr/elem.rs\<close>) and \<open>Write_Dtype\<close> (\<^verbatim>\<open>wr/dtype.rs\<close>): the writer's element
    types and datatype messages, read back by \<open>Datatype\<close>; the locales \<open>encoded_items\<close> (a reader
    of items one after the other) and \<open>item_writer\<close> (the writer of them). \<open>Write_Attr\<close>
    (the attributes of \<^verbatim>\<open>wr/elem.rs\<close>): resolution of the names of targets, placement in the
    global heap, and the attribute message, read back by \<open>Messages\<close> and \<open>Global_Heap\<close>.
  \<^item> \<open>Global_Heap\<close> (\<^verbatim>\<open>fmt/global_heap.rs\<close>, \<^verbatim>\<open>fmt/global_heap_writer.rs\<close>): the heap of
    variable-length data, its packing into collections and its reader.
  \<^item> \<open>Link_Message\<close> (\<^verbatim>\<open>fmt/link_msg.rs\<close>), \<open>Fractal_Heap\<close> (\<^verbatim>\<open>fmt/fractal_heap.rs\<close>; its descent
    through indirect blocks is a partial function, \<open>None\<close> meaning that it does not return) and
    \<open>New_Group\<close> (\<^verbatim>\<open>fmt/group.rs\<close>): the links of a new-style group. \<open>Write_Link\<close> (\<^verbatim>\<open>wr/link.rs\<close>) and
    \<open>Write_Dense\<close> (\<^verbatim>\<open>wr/fractal_heap.rs\<close>, \<^verbatim>\<open>wr/btree_v2.rs\<close>, the dense part of \<^verbatim>\<open>wr/plan.rs\<close> and
    \<^verbatim>\<open>wr/build.rs\<close>): their writers, read back by these readers.
  \<^item> \<open>Write_Oh\<close> (\<^verbatim>\<open>wr/oh.rs\<close>, the link storage of \<^verbatim>\<open>wr/plan.rs\<close>): object headers as lists of
    messages; \<open>Write_Oh_Read\<close> shows that each message is read back by the parser of its type.
  \<^item> \<open>Write_Tree\<close> (\<^verbatim>\<open>wr/tree.rs\<close>): the tree of declared objects; a function that takes a mutable tree
    returns the tree it leaves, also when it fails. \<open>Write_Api\<close> (\<^verbatim>\<open>wr/api_*.rs\<close>): the public methods
    of the writer on that tree. \<open>Write_Api_Spec\<close> specifies them as partial updates of a map from paths to
    objects, which the tree refines; \<open>Write_Api_Inv\<close> states what histories of calls keep (every history,
    and those that attach no attribute under the name of a marker; the locale \<open>dataset_invariant\<close> is the
    contract of a property of datasets that all calls keep, instantiated for both) and that numeric data
    is read back.
  \<^item> \<open>Odometer\<close>: the carry loop over a grid. \<open>Write_Chunks\<close> and \<open>Write_Chunk_Tree\<close>
    (\<^verbatim>\<open>wr/chunked.rs\<close>): tile shapes, origins and the terminal key; the chunk index, read back by
    \<open>Chunk_BTree\<close>.
  \<^item> \<open>Core_Dataset\<close> (\<^verbatim>\<open>oxih5-core/src/lib.rs\<close>): datasets in memory, slices, attribute accessors.
    \<open>Half_Float\<close> and \<open>Dataset_Convert\<close> (\<^verbatim>\<open>oxih5-core/src/dataset_convert.rs\<close>): the typed decoders,
    floats as bit patterns.
  \<^item> \<open>Checksum\<close> (\<^verbatim>\<open>wr/checksum.rs\<close>): Jenkins lookup3.
  \<^item> \<open>Chunk_BTree\<close> (\<^verbatim>\<open>fmt/btree_v1_chunk.rs\<close>), \<open>BTree_V2\<close> (\<^verbatim>\<open>fmt/btree_v2.rs\<close>; locales
    \<open>record_reader\<close> and \<open>safe_reader\<close> for the record codecs of the shared walk), \<open>Fixed_Array\<close>
    (\<^verbatim>\<open>fmt/fa_index.rs\<close>), \<open>Extensible_Array\<close> (\<^verbatim>\<open>fmt/ea_index\<close>), \<open>Chunk_Index\<close>
    (\<^verbatim>\<open>fmt/chunked/index.rs\<close>, \<^verbatim>\<open>fmt/chunked/cache.rs\<close>): the chunk records.
    \<open>Chunk_Cache\<close>: the record cache shared by threads, as a step relation over all
    interleavings of the critical sections of \<^verbatim>\<open>get_or_insert\<close>. \<open>Chunk_Lock\<close>: the same with the
    read-write lock, whose guards are taken, held and dropped one step at a time, under either policy
    for a reader that comes while a writer waits; its runs are runs of \<open>Chunk_Cache\<close>.
  \<^item> \<open>Chunk_Geometry\<close> (\<^verbatim>\<open>fmt/chunked/geometry.rs\<close>), \<open>Hyperslab\<close> (\<^verbatim>\<open>fmt/hyperslab.rs\<close>),
    \<open>Chunked_Read\<close> (\<^verbatim>\<open>fmt/chunked/read.rs\<close>, \<^verbatim>\<open>fmt/chunked/slice.rs\<close>,
    \<^verbatim>\<open>fmt/chunked_hyperslab.rs\<close>): the readers of chunked data. \<open>Chunked_Spec\<close> says which
    element belongs at each coordinate, \<open>Chunked_Region\<close> walks the cells of a box, and
    \<open>Chunked_Agree\<close> shows that all four readers return that element.

  What the lemmas show. Parsers: a reader refines an inductive or recursive description of
  the structure on disk, and does not panic on any slice, or the inputs on which it does are
  exhibited. Writers: the bytes written are read back as the value written. Chunk indexes:
  the records returned are the ones the structure holds; the cache returns for a query the
  records of the first successful query of its key, and so changes no result exactly when the
  queries of a key agree; its lock never blocks the threads for good. Reading: every output element is the stored element of its coordinate or the fill
  value. Filters: the decoder inverts the encoder or meets a closed form.
  Writer calls: each is a partial update of a map of objects, and what histories of them keep.

  Not modelled. The superblock extension, virtual datasets, most of the writer's layout planning and emission,
  the facade's file handles and the netCDF-4 layer: they are planned, in this order. Display and debug formatting,
  file input and output, and the texts of errors are left out.
\<close>

end
